(* ===== verification/Prelude.thy ===== *)
theory Prelude
  imports Main "HOL-Library.Word"
begin

text \<open>
  Shared vocabulary of the development: the machine integers of the runtime's C++ sources,
  the collections of simplification rules the component theories use, and the generic facts
  on lists, bits and powers of two that several components need.

  The runtime is modelled for the LP64 targets it is built for: \<open>unsigned\<close> is 32 bits
  wide, \<open>size_t\<close> and \<open>uintptr_t\<close> are 64 bits wide. Bit-field and bit-twiddling code is
  written over \<open>word\<close>; counters and table sizes are natural numbers with the reduction
  modulo the width written out (\<open>u32\<close>, \<open>u32_sub\<close>).
\<close>

unbundle bit_operations_syntax

named_theorems u32_simps \<open>wrap-around arithmetic on 32-bit values that do not overflow\<close>
named_theorems word_norm \<open>normal forms of machine words\<close>

type_synonym u8 = "8 word"
type_synonym u16 = "16 word"
type_synonym u32w = "32 word"
type_synonym u64 = "64 word"

subsection \<open>Unsigned 32-bit arithmetic on natural numbers\<close>

definition u32 :: "nat \<Rightarrow> nat" where
  "u32 n = n mod 2 ^ 32"

definition u32_sub :: "nat \<Rightarrow> nat \<Rightarrow> nat" where
  "u32_sub a b = (a + (2 ^ 32 - b mod 2 ^ 32)) mod 2 ^ 32"

lemma u32_id [u32_simps]: "n < 2 ^ 32 \<Longrightarrow> u32 n = n"
  by (simp add: u32_def)

lemma u32_less [simp]: "u32 n < 2 ^ 32"
  by (simp add: u32_def)

lemma u32_idem [simp]: "u32 (u32 n) = u32 n"
  by (simp add: u32_def)

lemma u32_sub_id [u32_simps]:
  assumes "b \<le> a" and "a < 2 ^ 32"
  shows "u32_sub a b = a - b"
proof -
  have "b mod 2 ^ 32 = b" and "a + (2 ^ 32 - b) = (a - b) + 2 ^ 32"
    using assms by simp_all
  then have "u32_sub a b = ((a - b) + 2 ^ 32) mod 2 ^ 32"
    by (simp only: u32_sub_def)
  also have "\<dots> = (a - b) mod 2 ^ 32"
    by (rule mod_add_self2)
  also have "\<dots> = a - b"
    using assms by (intro mod_less) simp
  finally show ?thesis .
qed

lemma u32_sub_borrow [u32_simps]:
  assumes "a < b" and "b < 2 ^ 32"
  shows "u32_sub a b = 2 ^ 32 + a - b"
  using assms by (simp add: u32_sub_def)

lemma unat_of_nat_u32 [word_norm]: "n < 2 ^ 32 \<Longrightarrow> unat (word_of_nat n :: u32w) = n"
  by (simp add: unat_of_nat)

lemma unat_of_nat_u64 [word_norm]: "n < 2 ^ 64 \<Longrightarrow> unat (word_of_nat n :: u64) = n"
  by (simp add: unat_of_nat)

subsection \<open>Powers of two and bit masks\<close>

definition is_pow2 :: "nat \<Rightarrow> bool" where
  "is_pow2 n \<longleftrightarrow> (\<exists>k. n = 2 ^ k)"

lemma is_pow2_power [simp, intro]: "is_pow2 (2 ^ k)"
  by (auto simp: is_pow2_def)

lemma is_pow2_pos: "is_pow2 n \<Longrightarrow> 0 < n"
  by (auto simp: is_pow2_def)

lemma is_pow2_4 [simp]: "is_pow2 4"
  using is_pow2_power [of 2] by simp

lemma is_pow2_double: "is_pow2 n \<Longrightarrow> is_pow2 (n * 2)"
  unfolding is_pow2_def by (metis power_Suc2)

lemma and_mask_nat: "n AND (2 ^ k - 1) = n mod (2 ^ k :: nat)"
  by (simp add: take_bit_eq_mod [symmetric] take_bit_eq_mask mask_eq_exp_minus_1)

lemma and_pow2_mod:
  assumes "is_pow2 m"
  shows "(n::nat) AND (m - 1) = n mod m"
  using assms and_mask_nat [of n] by (auto simp: is_pow2_def)

subsection \<open>Options\<close>

lemma option_eqI: "(\<And>v. a = Some v \<longleftrightarrow> b = Some v) \<Longrightarrow> a = b"
  by (cases a; cases b) auto

subsection \<open>Lists\<close>

lemma length_filter_update:
  assumes "i < length xs"
  shows "length (filter P (xs[i := x])) + (if P (xs ! i) then 1 else 0)
       = length (filter P xs) + (if P x then 1 else 0)"
  using assms
proof (induction xs arbitrary: i)
  case Nil
  then show ?case by simp
next
  case (Cons y ys)
  show ?case
  proof (cases i)
    case 0
    then show ?thesis by simp
  next
    case (Suc j)
    with Cons.prems have "j < length ys" by simp
    with Cons.IH [of j] show ?thesis by (simp add: Suc)
  qed
qed

lemma length_filter_pos:
  "i < length xs \<Longrightarrow> P (xs ! i) \<Longrightarrow> 0 < length (filter P xs)"
  by (auto simp: filter_empty_conv intro: nth_mem)

lemma ex_not_of_length_filter:
  assumes "length (filter P xs) < length xs"
  shows "\<exists>i < length xs. \<not> P (xs ! i)"
proof (rule ccontr)
  assume "\<not> ?thesis"
  then have "\<forall>x \<in> set xs. P x" by (auto simp: in_set_conv_nth)
  then have "filter P xs = xs" by simp
  with assms show False by simp
qed

end
