(* ===== verification/MathExtras.thy ===== *)
theory MathExtras
  imports Prelude
begin

text \<open>
  The bit-twiddling helpers of \<open>llvm-MathExtras.h\<close>, over 32- and 64-bit words.
  \<open>__builtin_clz\<close>, \<open>__builtin_ctz\<close> and \<open>__builtin_popcount\<close> are the compiler's
  documented builtins. Where the header has a portable fallback for compilers without
  them, the fallback is a definition of its own and is proved equal to the builtin branch.
  \<open>DenseMap\<close> sizes its bucket arrays with \<open>NextPowerOf2\<close> and \<open>Log2_32_Ceil\<close>, whose
  arithmetic characterisations end the theory.
\<close>

subsection \<open>Compiler builtins\<close>

definition builtin_clz :: "'a::len word \<Rightarrow> nat" where
  "builtin_clz w = length (takeWhile Not (rev (map (bit w) [0..<LENGTH('a)])))"

definition builtin_ctz :: "'a::len word \<Rightarrow> nat" where
  "builtin_ctz w = length (takeWhile Not (map (bit w) [0..<LENGTH('a)]))"

definition builtin_popcount :: "'a::len word \<Rightarrow> nat" where
  "builtin_popcount w = length (filter (bit w) [0..<LENGTH('a)])"

subsection \<open>Halves, ranges and masks\<close>

definition Hi_32 :: "u64 \<Rightarrow> u32w" where
  "Hi_32 Value = ucast (drop_bit 32 Value)"

definition Lo_32 :: "u64 \<Rightarrow> u32w" where
  "Lo_32 Value = ucast Value"

definition isInt :: "nat \<Rightarrow> u64 \<Rightarrow> bool" where
  "isInt N x \<longleftrightarrow> N \<ge> 64 \<or> (- (2 ^ (N - 1)) \<le> sint x \<and> sint x < 2 ^ (N - 1))"

definition isInt_8 :: "u64 \<Rightarrow> bool" where
  "isInt_8 x \<longleftrightarrow> sint (ucast x :: 8 word) = sint x"

definition isInt_16 :: "u64 \<Rightarrow> bool" where
  "isInt_16 x \<longleftrightarrow> sint (ucast x :: 16 word) = sint x"

definition isInt_32 :: "u64 \<Rightarrow> bool" where
  "isInt_32 x \<longleftrightarrow> sint (ucast x :: 32 word) = sint x"

text \<open>
  C's remainder is zero exactly when the mathematical one is. \<open>1 << S\<close> is a signed 32-bit number,
  which the remainder extends to 64 bits.
\<close>

definition isShiftedInt :: "nat \<Rightarrow> nat \<Rightarrow> u64 \<Rightarrow> bool" where
  "isShiftedInt N S x \<longleftrightarrow> isInt (N + S) x \<and> sint x mod sint (push_bit S (1 :: u32w)) = 0"

definition isUInt :: "nat \<Rightarrow> u64 \<Rightarrow> bool" where
  "isUInt N x \<longleftrightarrow> N \<ge> 64 \<or> x < push_bit N 1"

definition isUInt_8 :: "u64 \<Rightarrow> bool" where
  "isUInt_8 x \<longleftrightarrow> ucast (ucast x :: 8 word) = x"

definition isUInt_16 :: "u64 \<Rightarrow> bool" where
  "isUInt_16 x \<longleftrightarrow> ucast (ucast x :: 16 word) = x"

definition isUInt_32 :: "u64 \<Rightarrow> bool" where
  "isUInt_32 x \<longleftrightarrow> ucast (ucast x :: 32 word) = x"

definition isShiftedUInt :: "nat \<Rightarrow> nat \<Rightarrow> u64 \<Rightarrow> bool" where
  "isShiftedUInt N S x \<longleftrightarrow> isUInt (N + S) x \<and> x mod scast (push_bit S (1 :: u32w)) = 0"

definition isUIntN :: "nat \<Rightarrow> u64 \<Rightarrow> bool" where
  "isUIntN N x \<longleftrightarrow> x = x AND drop_bit (64 - N) (NOT 0)"

definition isIntN :: "nat \<Rightarrow> u64 \<Rightarrow> bool" where
  "isIntN N x \<longleftrightarrow> N \<ge> 64 \<or> (- (2 ^ (N - 1)) \<le> sint x \<and> sint x < 2 ^ (N - 1))"

definition isMask_32 :: "u32w \<Rightarrow> bool" where
  "isMask_32 Value \<longleftrightarrow> Value \<noteq> 0 \<and> (Value + 1) AND Value = 0"

definition isMask_64 :: "u64 \<Rightarrow> bool" where
  "isMask_64 Value \<longleftrightarrow> Value \<noteq> 0 \<and> (Value + 1) AND Value = 0"

definition isShiftedMask_32 :: "u32w \<Rightarrow> bool" where
  "isShiftedMask_32 Value \<longleftrightarrow> isMask_32 ((Value - 1) OR Value)"

definition isShiftedMask_64 :: "u64 \<Rightarrow> bool" where
  "isShiftedMask_64 Value \<longleftrightarrow> isMask_64 ((Value - 1) OR Value)"

definition isPowerOf2_32 :: "u32w \<Rightarrow> bool" where
  "isPowerOf2_32 Value \<longleftrightarrow> Value \<noteq> 0 \<and> Value AND (Value - 1) = 0"

definition isPowerOf2_64 :: "u64 \<Rightarrow> bool" where
  "isPowerOf2_64 Value \<longleftrightarrow> Value \<noteq> 0 \<and> Value AND (Value - 1) = 0"

subsection \<open>Counting bits\<close>

definition CountLeadingZeros_32 :: "u32w \<Rightarrow> nat" where
  "CountLeadingZeros_32 Value = (if Value = 0 then 32 else builtin_clz Value)"

text \<open>The fallback loop \<open>for (Shift = width >> 1; Shift; Shift >>= 1)\<close>.\<close>

fun clz_bisect :: "nat \<Rightarrow> 'a::len word \<Rightarrow> nat \<Rightarrow> nat" where
  "clz_bisect Shift Value Count =
     (if Shift = 0 then Count
      else let Tmp = drop_bit Shift Value in
           if Tmp \<noteq> 0 then clz_bisect (Shift div 2) Tmp Count
           else clz_bisect (Shift div 2) Value (Count OR Shift))"

declare clz_bisect.simps [simp del]

definition CountLeadingZeros_32_portable :: "u32w \<Rightarrow> nat" where
  "CountLeadingZeros_32_portable Value =
     (if Value = 0 then 32 else clz_bisect (32 div 2) Value 0)"

definition CountLeadingOnes_32 :: "u32w \<Rightarrow> nat" where
  "CountLeadingOnes_32 Value = CountLeadingZeros_32 (NOT Value)"

definition CountLeadingZeros_64 :: "u64 \<Rightarrow> nat" where
  "CountLeadingZeros_64 Value = (if Value = 0 then 64 else builtin_clz Value)"

definition CountLeadingZeros_64_portable :: "u64 \<Rightarrow> nat" where
  "CountLeadingZeros_64_portable Value =
     (if Value = 0 then 64 else clz_bisect (64 div 2) Value 0)"

definition CountLeadingZeros_64_halves :: "u64 \<Rightarrow> nat" where
  "CountLeadingZeros_64_halves Value =
     (let Hi = Hi_32 Value in
      if Hi \<noteq> 0 then CountLeadingZeros_32 Hi
      else CountLeadingZeros_32 (Lo_32 Value) + 32)"

definition CountLeadingOnes_64 :: "u64 \<Rightarrow> nat" where
  "CountLeadingOnes_64 Value = CountLeadingZeros_64 (NOT Value)"

definition CountTrailingZeros_32 :: "u32w \<Rightarrow> nat" where
  "CountTrailingZeros_32 Value = (if Value \<noteq> 0 then builtin_ctz Value else 32)"

definition Mod37BitPosition :: "nat list" where
  "Mod37BitPosition =
     [32, 0, 1, 26, 2, 23, 27, 0, 3, 16, 24, 30, 28, 11, 0, 13,
      4, 7, 17, 0, 25, 22, 31, 15, 29, 10, 12, 6, 0, 21, 14, 9,
      5, 20, 8, 19, 18]"

definition CountTrailingZeros_32_portable :: "u32w \<Rightarrow> nat" where
  "CountTrailingZeros_32_portable Value =
     Mod37BitPosition ! (unat ((- Value) AND Value) mod 37)"

definition CountTrailingOnes_32 :: "u32w \<Rightarrow> nat" where
  "CountTrailingOnes_32 Value = CountTrailingZeros_32 (NOT Value)"

definition CountTrailingZeros_64 :: "u64 \<Rightarrow> nat" where
  "CountTrailingZeros_64 Value = (if Value \<noteq> 0 then builtin_ctz Value else 64)"

definition Mod67Position :: "nat list" where
  "Mod67Position =
     [64, 0, 1, 39, 2, 15, 40, 23, 3, 12, 16, 59, 41, 19, 24, 54,
      4, 64, 13, 10, 17, 62, 60, 28, 42, 30, 20, 51, 25, 44, 55,
      47, 5, 32, 65, 38, 14, 22, 11, 58, 18, 53, 63, 9, 61, 27,
      29, 50, 43, 46, 31, 37, 21, 57, 52, 8, 26, 49, 45, 36, 56,
      7, 48, 35, 6, 34, 33, 0]"

definition CountTrailingZeros_64_portable :: "u64 \<Rightarrow> nat" where
  "CountTrailingZeros_64_portable Value =
     Mod67Position ! (unat ((- Value) AND Value) mod 67)"

definition CountTrailingOnes_64 :: "u64 \<Rightarrow> nat" where
  "CountTrailingOnes_64 Value = CountTrailingZeros_64 (NOT Value)"

definition CountPopulation_32 :: "u32w \<Rightarrow> nat" where
  "CountPopulation_32 Value = builtin_popcount Value"

definition CountPopulation_64 :: "u64 \<Rightarrow> nat" where
  "CountPopulation_64 Value = builtin_popcount Value"

subsection \<open>Logarithms, divisors and alignment\<close>

definition Log2_32 :: "u32w \<Rightarrow> nat" where
  "Log2_32 Value = u32_sub 31 (CountLeadingZeros_32 Value)"

definition Log2_64 :: "u64 \<Rightarrow> nat" where
  "Log2_64 Value = u32_sub 63 (CountLeadingZeros_64 Value)"

definition Log2_32_Ceil :: "u32w \<Rightarrow> nat" where
  "Log2_32_Ceil Value = u32_sub 32 (CountLeadingZeros_32 (Value - 1))"

definition Log2_64_Ceil :: "u64 \<Rightarrow> nat" where
  "Log2_64_Ceil Value = u32_sub 64 (CountLeadingZeros_64 (Value - 1))"

function GreatestCommonDivisor64 :: "u64 \<Rightarrow> u64 \<Rightarrow> u64" where
  "GreatestCommonDivisor64 A B =
     (if B \<noteq> 0 then GreatestCommonDivisor64 B (A mod B) else A)"
  by pat_completeness auto
termination
  by (relation "measure (\<lambda>(A, B). unat B)")
    (auto simp: unat_mod_distrib unat_eq_0 intro!: mod_less_divisor simp flip: neq0_conv)

declare GreatestCommonDivisor64.simps [simp del]

definition MinAlign :: "u64 \<Rightarrow> u64 \<Rightarrow> u64" where
  "MinAlign A B = (A OR B) AND (- (A OR B))"

definition NextPowerOf2_64 :: "u64 \<Rightarrow> u64" where
  "NextPowerOf2_64 A =
     (let A = A OR drop_bit 1 A;
          A = A OR drop_bit 2 A;
          A = A OR drop_bit 4 A;
          A = A OR drop_bit 8 A;
          A = A OR drop_bit 16 A;
          A = A OR drop_bit 32 A
      in A + 1)"

definition NextPowerOf2_32 :: "u32w \<Rightarrow> u32w" where
  "NextPowerOf2_32 A =
     (let A = A OR drop_bit 1 A;
          A = A OR drop_bit 2 A;
          A = A OR drop_bit 4 A;
          A = A OR drop_bit 8 A;
          A = A OR drop_bit 16 A
      in A + 1)"

definition RoundUpToAlignment :: "u64 \<Rightarrow> u64 \<Rightarrow> u64" where
  "RoundUpToAlignment Value Align = ((Value + Align - 1) div Align) * Align"

definition OffsetToAlignment :: "u64 \<Rightarrow> u64 \<Rightarrow> u64" where
  "OffsetToAlignment Value Align = RoundUpToAlignment Value Align - Value"

definition abs64 :: "u64 \<Rightarrow> u64" where
  "abs64 x = (if sint x < 0 then - x else x)"

text \<open>\<open>int32_t(x << k) >> k\<close>: a left shift and an arithmetic right shift.\<close>

definition SignExtend32 :: "u32w \<Rightarrow> nat \<Rightarrow> u32w" where
  "SignExtend32 X B = signed_drop_bit (32 - B) (push_bit (32 - B) X)"

definition SignExtend64 :: "u64 \<Rightarrow> nat \<Rightarrow> u64" where
  "SignExtend64 X B = signed_drop_bit (64 - B) (push_bit (64 - B) X)"


subsection \<open>The highest set bit\<close>

text \<open>\<open>top_bit w k\<close>: bit \<open>k\<close> is the highest set bit of \<open>w\<close>.\<close>

definition top_bit :: "'a::len word \<Rightarrow> nat \<Rightarrow> bool" where
  "top_bit w k \<longleftrightarrow> 2 ^ k \<le> unat w \<and> unat w < 2 ^ Suc k"

lemma top_bit_ex: "w \<noteq> 0 \<Longrightarrow> \<exists>k. top_bit w k"
  using ex_power_ivl1 [of 2 "unat w"]
  by (auto simp: top_bit_def unat_gt_0 Suc_le_eq)

lemma bit_unat: "bit (unat w) n = bit w n" for w :: "'a::len word"
  by (simp add: bit_unsigned_iff)

lemma top_bit_less_length:
  fixes w :: "'a::len word"
  assumes "top_bit w k"
  shows "k < LENGTH('a)"
proof -
  have "2 ^ k < (2::nat) ^ LENGTH('a)"
    using assms unsigned_less [of w, where ?'a = nat] unfolding top_bit_def by linarith
  then show ?thesis by simp
qed

lemma top_bit_bit:
  fixes w :: "'a::len word"
  assumes "top_bit w k"
  shows "bit w k" and "\<And>n. k < n \<Longrightarrow> \<not> bit w n"
proof -
  have "unat w div 2 ^ k = 1"
    using assms by (auto simp: top_bit_def intro: div_nat_eqI)
  then show "bit w k"
    by (simp add: bit_unat [symmetric] bit_iff_odd)
  show "\<not> bit w n" if "k < n" for n
  proof -
    have "(2::nat) ^ Suc k \<le> 2 ^ n" using that by (intro power_increasing) auto
    then have "unat w < 2 ^ n" using assms unfolding top_bit_def by linarith
    then show ?thesis by (simp add: bit_unat [symmetric] bit_iff_odd)
  qed
qed

lemma takeWhile_Not_rev_map_bit:
  assumes "P k" and "\<And>n. k < n \<Longrightarrow> \<not> P n" and "k < L"
  shows "length (takeWhile Not (rev (map P [0..<L]))) = L - 1 - k"
proof -
  have split: "[0..<L] = [0..<k] @ k # [Suc k..<L]"
    using assms(3) by (metis less_imp_add_positive less_nat_zero_code less_zeroE neq0_conv
        upt_add_eq_append upt_conv_Cons zero_le add_0)
  have "takeWhile Not (rev (map P [Suc k..<L]) @ P k # rev (map P [0..<k]))
      = rev (map P [Suc k..<L])"
    using assms(1,2) by (subst takeWhile_append2) auto
  then show ?thesis by (simp add: split)
qed

lemma builtin_clz_top_bit:
  fixes w :: "'a::len word"
  assumes "top_bit w k"
  shows "builtin_clz w = LENGTH('a) - 1 - k"
  unfolding builtin_clz_def
  using takeWhile_Not_rev_map_bit [of "bit w" k "LENGTH('a)"]
    top_bit_bit [OF assms] top_bit_less_length [OF assms] by blast

lemma CountLeadingZeros_32_top_bit: "top_bit w k \<Longrightarrow> CountLeadingZeros_32 w = 31 - k"
  using builtin_clz_top_bit [of w k]
  by (auto simp: CountLeadingZeros_32_def top_bit_def)

lemma CountLeadingZeros_64_top_bit: "top_bit w k \<Longrightarrow> CountLeadingZeros_64 w = 63 - k"
  using builtin_clz_top_bit [of w k]
  by (auto simp: CountLeadingZeros_64_def top_bit_def)

subsection \<open>Bisection finds the highest set bit\<close>

lemma or_disjoint_add:
  assumes "(c::nat) mod 2 ^ Suc j = 0"
  shows "c OR 2 ^ j = c + 2 ^ j"
proof -
  have "\<not> bit c j"
    using assms by (metis bit_0_eq bit_take_bit_iff bot_apply bot_bool_def lessI take_bit_eq_mod)
  then have "c AND 2 ^ j = 0"
    by (intro bit_eqI) (auto simp: bit_and_iff bit_exp_iff)
  then show ?thesis by (simp add: disjunctive_add_eq_or)
qed

lemma unat_drop_bit: "unat (drop_bit n w) = unat w div 2 ^ n" for w :: "'a::len word"
  unfolding unat_drop_bit_eq drop_bit_eq_div [of n "unat w"] ..

lemma top_bit_drop_bit:
  assumes "top_bit w k" and "n \<le> k"
  shows "top_bit (drop_bit n w) (k - n)"
proof -
  have e: "k = n + (k - n)" using assms(2) by simp
  have "2 ^ n * 2 ^ (k - n) \<le> unat w" "unat w < 2 ^ n * 2 ^ Suc (k - n)"
    using assms(1) e unfolding top_bit_def by (metis power_add, metis add_Suc_right power_add)
  then show ?thesis
    by (simp add: top_bit_def unat_drop_bit less_mult_imp_div_less
        less_eq_div_iff_mult_less_eq mult.commute)
qed

lemma top_bit_drop_bit_0:
  fixes w :: "'a::len word"
  assumes "top_bit w k" and "k < n"
  shows "drop_bit n w = 0"
proof -
  have "(2::nat) ^ Suc k \<le> 2 ^ n" using assms(2) by (intro power_increasing) auto
  then have "unat w < 2 ^ n" using assms(1) unfolding top_bit_def by linarith
  then have "unat (drop_bit n w) = 0" by (simp add: unat_drop_bit)
  then show ?thesis by (simp add: unat_eq_0)
qed

lemma clz_bisect_top_bit:
  fixes w :: "'a::len word"
  assumes "top_bit w k" and "k < 2 ^ Suc j" and "c mod 2 ^ Suc j = 0"
  shows "clz_bisect (2 ^ j) w c = c + (2 ^ Suc j - 1 - k)"
  using assms
proof (induction j arbitrary: w k c)
  case 0
  show ?case
  proof (cases "k = 0")
    case True
    then have "drop_bit 1 w = 0" using 0 top_bit_drop_bit_0 [of w k 1] by simp
    moreover have "c OR 1 = c + 1" using or_disjoint_add [of c 0] 0 by simp
    ultimately show ?thesis using True by (simp add: clz_bisect.simps)
  next
    case False
    with 0 have "k = 1" by simp
    then have "top_bit (drop_bit 1 w) 0" using 0 top_bit_drop_bit [of w k 1] by simp
    then have "drop_bit 1 w \<noteq> 0" by (auto simp: top_bit_def)
    then show ?thesis using \<open>k = 1\<close> by (simp add: clz_bisect.simps)
  qed
next
  case (Suc j)
  have half: "(2::nat) ^ Suc j div 2 = 2 ^ j" by simp
  have step: "clz_bisect (2 ^ Suc j) w c =
      (if drop_bit (2 ^ Suc j) w \<noteq> 0 then clz_bisect (2 ^ j) (drop_bit (2 ^ Suc j) w) c
       else clz_bisect (2 ^ j) w (c OR 2 ^ Suc j))"
    by (subst clz_bisect.simps) (simp add: Let_def half del: power_Suc)
  have cmod: "c mod 2 ^ Suc j = 0"
    using Suc.prems(3) by (metis dvd_eq_mod_eq_0 dvd_trans le_SucI le_imp_power_dvd le_refl)
  show ?case
  proof (cases "2 ^ Suc j \<le> k")
    case True
    then have t: "top_bit (drop_bit (2 ^ Suc j) w) (k - 2 ^ Suc j)"
      using Suc.prems(1) top_bit_drop_bit by blast
    then have "drop_bit (2 ^ Suc j) w \<noteq> 0" by (auto simp: top_bit_def)
    then show ?thesis
      using Suc.IH [OF t _ cmod] Suc.prems(2) True
      unfolding step by simp
  next
    case False
    then have "drop_bit (2 ^ Suc j) w = 0"
      using Suc.prems(1) top_bit_drop_bit_0 by (metis linorder_not_le)
    moreover have "(c + 2 ^ Suc j) mod 2 ^ Suc j = 0" using cmod by simp
    ultimately show ?thesis
      using Suc.IH [OF Suc.prems(1), of "c + 2 ^ Suc j"] False
        or_disjoint_add [OF Suc.prems(3)] unfolding step by simp
  qed
qed


subsection \<open>The lowest set bit\<close>

definition low_bit :: "'a::len word \<Rightarrow> nat \<Rightarrow> bool" where
  "low_bit w k \<longleftrightarrow> k < LENGTH('a) \<and> bit w k \<and> (\<forall>n < k. \<not> bit w n)"

lemma low_bit_ex:
  fixes w :: "'a::len word"
  assumes "w \<noteq> 0"
  shows "\<exists>k. low_bit w k"
proof -
  from assms obtain n where "bit w n" by (auto simp: bit_eq_iff)
  then have "bit w (LEAST k. bit w k)" and "\<forall>m < (LEAST k. bit w k). \<not> bit w m"
    by (auto intro: LeastI dest: not_less_Least)
  then show ?thesis unfolding low_bit_def using bit_imp_le_length by blast
qed

lemma builtin_ctz_low_bit:
  fixes w :: "'a::len word"
  assumes "low_bit w k"
  shows "builtin_ctz w = k"
proof -
  have split: "[0..<LENGTH('a)] = [0..<k] @ k # [Suc k..<LENGTH('a)]"
    using assms unfolding low_bit_def
    by (metis less_imp_add_positive upt_add_eq_append upt_conv_Cons zero_le add_0)
  have "takeWhile Not (map (bit w) [0..<k] @ bit w k # map (bit w) [Suc k..<LENGTH('a)])
      = map (bit w) [0..<k]"
    using assms by (subst takeWhile_append2) (auto simp: low_bit_def)
  then show ?thesis by (simp add: builtin_ctz_def split)
qed

text \<open>\<open>-w & w\<close> isolates the lowest set bit.\<close>

lemma and_minus_low_bit:
  fixes w :: "'a::len word"
  assumes "low_bit w k"
  shows "(- w) AND w = 2 ^ k"
proof -
  let ?u = "unset_bit k w"
  have "?u AND 2 ^ k = 0" "?u AND mask k = 0"
    using assms by (auto intro!: bit_word_eqI simp: bit_simps low_bit_def)
  then have "?u + 2 ^ k = ?u OR 2 ^ k" "?u + mask k = ?u OR mask k"
    by (simp_all add: disjunctive_add_eq_or)
  moreover have "?u OR 2 ^ k = w"
    using assms by (auto intro!: bit_word_eqI simp: bit_simps low_bit_def)
  ultimately have "w - 1 = ?u OR mask k"
    by (simp add: mask_eq_exp_minus_1 algebra_simps)
  then have "- w = NOT (?u OR mask k)"
    by (simp add: minus_eq_not_minus_1)
  then show ?thesis
    using assms by (auto intro!: bit_word_eqI simp: bit_simps low_bit_def)
qed

lemma Mod37BitPosition_power: "k < 32 \<Longrightarrow> Mod37BitPosition ! (2 ^ k mod 37) = k"
proof -
  have "list_all (\<lambda>k. Mod37BitPosition ! (2 ^ k mod 37) = k) [0..<32]"
    by (simp add: upt_rec Mod37BitPosition_def)
  then show "k < 32 \<Longrightarrow> Mod37BitPosition ! (2 ^ k mod 37) = k"
    by (auto simp: list_all_iff)
qed

lemma Mod67Position_power: "k < 64 \<Longrightarrow> Mod67Position ! (2 ^ k mod 67) = k"
proof -
  have "list_all (\<lambda>k. Mod67Position ! (2 ^ k mod 67) = k) [0..<64]"
    by (simp add: upt_rec Mod67Position_def)
  then show "k < 64 \<Longrightarrow> Mod67Position ! (2 ^ k mod 67) = k"
    by (auto simp: list_all_iff)
qed

lemma unat_exp: "k < LENGTH('a) \<Longrightarrow> unat (2 ^ k :: 'a::len word) = 2 ^ k"
  by (metis mod_less of_nat_numeral of_nat_power one_less_numeral_iff power_strict_increasing_iff
      semiring_norm(76) unat_of_nat)

subsection \<open>Smearing the highest bit to the right\<close>

lemma smear_step:
  fixes A B :: "'a::len word"
  assumes "\<And>n. bit B n \<longleftrightarrow> (\<exists>d < m. bit A (n + d))"
  shows "bit (B OR drop_bit m B) n \<longleftrightarrow> (\<exists>d < 2 * m. bit A (n + d))"
proof -
  have "bit (B OR drop_bit m B) n \<longleftrightarrow> (\<exists>d < m. bit A (n + d)) \<or> (\<exists>d < m. bit A (n + (m + d)))"
    by (simp add: bit_or_iff bit_drop_bit_eq assms ac_simps)
  also have "\<dots> \<longleftrightarrow> (\<exists>d < 2 * m. bit A (n + d))"
    by (metis (no_types) add_less_cancel_left le_add_diff_inverse mult_2 not_less trans_less_add1)
  finally show ?thesis .
qed

lemma smear_all:
  fixes A B :: "'a::len word"
  assumes "\<And>n. bit B n \<longleftrightarrow> (\<exists>d < LENGTH('a). bit A (n + d))" and "top_bit A k"
  shows "B + 1 = 2 ^ Suc k"
proof -
  have "B = mask (Suc k)"
  proof (rule bit_word_eqI)
    fix n assume "n < LENGTH('a)"
    have "k < LENGTH('a)" using assms(2) by (rule top_bit_less_length)
    then have "n \<le> k \<Longrightarrow> \<exists>d < LENGTH('a). bit A (n + d)"
      using top_bit_bit(1) [OF assms(2)] by (metis le_add_diff_inverse less_imp_diff_less)
    moreover have "bit A (n + d) \<Longrightarrow> n \<le> k" for d
      using top_bit_bit(2) [OF assms(2), of "n + d"] by linarith
    ultimately show "bit B n = bit (mask (Suc k) :: 'a word) n"
      using \<open>n < LENGTH('a)\<close> by (auto simp: assms(1) bit_mask_iff less_Suc_eq_le)
  qed
  then show ?thesis by (simp add: mask_eq_exp_minus_1)
qed

lemma NextPowerOf2_64_top_bit:
  assumes "top_bit A k"
  shows "NextPowerOf2_64 A = 2 ^ Suc k"
proof -
  define B1 where "B1 = A OR drop_bit 1 A"
  define B2 where "B2 = B1 OR drop_bit 2 B1"
  define B4 where "B4 = B2 OR drop_bit 4 B2"
  define B8 where "B8 = B4 OR drop_bit 8 B4"
  define B16 where "B16 = B8 OR drop_bit 16 B8"
  define B32 where "B32 = B16 OR drop_bit 32 B16"
  have s1: "bit B1 n \<longleftrightarrow> (\<exists>d < 2. bit A (n + d))" for n
    using smear_step [of A 1 A n] by (simp add: B1_def)
  have s2: "bit B2 n \<longleftrightarrow> (\<exists>d < 4. bit A (n + d))" for n
    using smear_step [OF s1, of n] by (simp add: B2_def)
  have s4: "bit B4 n \<longleftrightarrow> (\<exists>d < 8. bit A (n + d))" for n
    using smear_step [OF s2, of n] by (simp add: B4_def)
  have s8: "bit B8 n \<longleftrightarrow> (\<exists>d < 16. bit A (n + d))" for n
    using smear_step [OF s4, of n] by (simp add: B8_def)
  have s16: "bit B16 n \<longleftrightarrow> (\<exists>d < 32. bit A (n + d))" for n
    using smear_step [OF s8, of n] by (simp add: B16_def)
  have "bit B32 n \<longleftrightarrow> (\<exists>d < LENGTH(64). bit A (n + d))" for n
    using smear_step [OF s16, of n] by (simp add: B32_def)
  then have "B32 + 1 = 2 ^ Suc k" using assms by (rule smear_all)
  then show ?thesis
    by (simp add: NextPowerOf2_64_def Let_def B32_def B16_def B8_def B4_def B2_def B1_def)
qed

lemma NextPowerOf2_32_top_bit:
  assumes "top_bit A k"
  shows "NextPowerOf2_32 A = 2 ^ Suc k"
proof -
  define B1 where "B1 = A OR drop_bit 1 A"
  define B2 where "B2 = B1 OR drop_bit 2 B1"
  define B4 where "B4 = B2 OR drop_bit 4 B2"
  define B8 where "B8 = B4 OR drop_bit 8 B4"
  define B16 where "B16 = B8 OR drop_bit 16 B8"
  have s1: "bit B1 n \<longleftrightarrow> (\<exists>d < 2. bit A (n + d))" for n
    using smear_step [of A 1 A n] by (simp add: B1_def)
  have s2: "bit B2 n \<longleftrightarrow> (\<exists>d < 4. bit A (n + d))" for n
    using smear_step [OF s1, of n] by (simp add: B2_def)
  have s4: "bit B4 n \<longleftrightarrow> (\<exists>d < 8. bit A (n + d))" for n
    using smear_step [OF s2, of n] by (simp add: B4_def)
  have s8: "bit B8 n \<longleftrightarrow> (\<exists>d < 16. bit A (n + d))" for n
    using smear_step [OF s4, of n] by (simp add: B8_def)
  have "bit B16 n \<longleftrightarrow> (\<exists>d < LENGTH(32). bit A (n + d))" for n
    using smear_step [OF s8, of n] by (simp add: B16_def)
  then have "B16 + 1 = 2 ^ Suc k" using assms by (rule smear_all)
  then show ?thesis
    by (simp add: NextPowerOf2_32_def Let_def B16_def B8_def B4_def B2_def B1_def)
qed

text \<open>What the two overloads share: a function that maps the highest bit to the next power.\<close>

lemma next_power_least:
  fixes f :: "'a::len word \<Rightarrow> 'a word"
  assumes zero: "f 0 = 1" and top: "\<And>k. top_bit A k \<Longrightarrow> f A = 2 ^ Suc k"
  shows "if unat A < 2 ^ (LENGTH('a) - 1)
    then is_pow2 (unat (f A)) \<and> unat A < unat (f A)
         \<and> (\<forall>p. is_pow2 p \<and> unat A < p \<longrightarrow> unat (f A) \<le> p)
    else f A = 0"
proof (cases "A = 0")
  case True
  with zero show ?thesis using is_pow2_power [of 0] is_pow2_pos by (auto simp: Suc_le_eq)
next
  case False
  then obtain k where k: "top_bit A k" using top_bit_ex by blast
  then have npo: "f A = 2 ^ Suc k" by (rule top)
  show ?thesis
  proof (cases "unat A < 2 ^ (LENGTH('a) - 1)")
    case True
    with k have "(2::nat) ^ k < 2 ^ (LENGTH('a) - 1)" unfolding top_bit_def by linarith
    then have "k < LENGTH('a) - 1" by (simp only: power_strict_increasing_iff)
    then have "Suc k < LENGTH('a)" by simp
    then have u: "unat (f A) = 2 ^ Suc k"
      unfolding npo by (rule unat_exp)
    have "2 ^ Suc k \<le> p" if "is_pow2 p" "unat A < p" for p
    proof -
      from that(1) obtain j where j: "p = 2 ^ j" by (auto simp: is_pow2_def)
      with that(2) k have "(2::nat) ^ k < 2 ^ j" unfolding top_bit_def by linarith
      then have "Suc k \<le> j" by simp
      then show ?thesis unfolding j by (intro power_increasing) auto
    qed
    then show ?thesis using True k u is_pow2_power [of "Suc k"]
      by (auto simp: top_bit_def simp del: power_Suc)
  next
    case False
    with k have "(2::nat) ^ (LENGTH('a) - 1) < 2 ^ Suc k" unfolding top_bit_def by linarith
    then have "LENGTH('a) - 1 < Suc k" by (simp only: power_strict_increasing_iff)
    moreover have "k < LENGTH('a)" using top_bit_less_length [OF k] by simp
    ultimately have "Suc k = LENGTH('a)" by simp
    then have "f A = 0" unfolding npo by (simp only: exp_eq_zero_iff)
    then show ?thesis using False by simp
  qed
qed

text \<open>
  \<open>NextPowerOf2\<close> returns the least power of two that is strictly greater than its
  argument, and zero exactly when that power does not fit; both overloads.
\<close>

theorem NextPowerOf2_least:
  "(if unat A < 2 ^ 31
    then is_pow2 (unat (NextPowerOf2_32 A)) \<and> unat A < unat (NextPowerOf2_32 A)
         \<and> (\<forall>p. is_pow2 p \<and> unat A < p \<longrightarrow> unat (NextPowerOf2_32 A) \<le> p)
    else NextPowerOf2_32 A = 0) \<and>
   (if unat B < 2 ^ 63
    then is_pow2 (unat (NextPowerOf2_64 B)) \<and> unat B < unat (NextPowerOf2_64 B)
         \<and> (\<forall>p. is_pow2 p \<and> unat B < p \<longrightarrow> unat (NextPowerOf2_64 B) \<le> p)
    else NextPowerOf2_64 B = 0)"
  using next_power_least [of NextPowerOf2_32 A, OF _ NextPowerOf2_32_top_bit]
    next_power_least [of NextPowerOf2_64 B, OF _ NextPowerOf2_64_top_bit]
  by (simp add: NextPowerOf2_32_def [of 0] NextPowerOf2_64_def [of 0])

theorem NextPowerOf2_least_witness:
  "unat (NextPowerOf2_32 48) \<le> 2 ^ 6 \<and> NextPowerOf2_32 0x80000000 = 0 \<and>
   unat (NextPowerOf2_64 65) \<le> 2 ^ 7"
proof -
  have "is_pow2 64" "is_pow2 128" using is_pow2_power [of 6] is_pow2_power [of 7] by simp_all
  then show ?thesis
    using NextPowerOf2_least [where A = 48 and B = 65]
      NextPowerOf2_least [where A = "0x80000000" and B = 65] by auto
qed

subsection \<open>Arithmetic of the size computations\<close>

lemma NextPowerOf2_32_of_nat:
  assumes "2 ^ k \<le> n" and "n < 2 ^ Suc k" and "k < 31"
  shows "unat (NextPowerOf2_32 (word_of_nat n)) = 2 ^ Suc k"
proof -
  have "n < 2 ^ 32"
  proof -
    have "(2::nat) ^ Suc k \<le> 2 ^ 32" using assms(3) by (intro power_increasing) auto
    then show ?thesis using assms(2) by linarith
  qed
  then have "unat (word_of_nat n :: u32w) = n"
    by (simp add: unat_of_nat)
  then have "top_bit (word_of_nat n :: u32w) k"
    using assms by (simp add: top_bit_def)
  then have "NextPowerOf2_32 (word_of_nat n) = 2 ^ Suc k"
    by (rule NextPowerOf2_32_top_bit)
  then show ?thesis using assms(3) unat_exp [of "Suc k", where ?'a = 32] by simp
qed

text \<open>the floor and the ceiling of the binary logarithm, with the documented values at zero.\<close>

theorem Log2_32_spec:
  "Log2_32 0 = 2 ^ 32 - 1 \<and> Log2_32_Ceil 0 = 32 \<and>
   (\<forall>w k. 2 ^ k \<le> unat w \<and> unat w < 2 ^ Suc k \<longrightarrow> Log2_32 w = k) \<and>
   (\<forall>w k. 2 ^ k < unat w \<and> unat w \<le> 2 ^ Suc k \<longrightarrow> Log2_32_Ceil w = Suc k) \<and>
   Log2_32_Ceil 1 = 0"
proof (intro conjI allI impI)
  show "Log2_32 0 = 2 ^ 32 - 1"
    by (simp add: Log2_32_def CountLeadingZeros_32_def u32_sub_def)
  have "top_bit (-1 :: u32w) 31" by (simp add: top_bit_def unsigned_minus_1_eq_mask mask_eq_exp_minus_1)
  then show "Log2_32_Ceil 0 = 32"
    by (simp add: Log2_32_Ceil_def CountLeadingZeros_32_top_bit u32_sub_def)
  show "Log2_32_Ceil 1 = 0"
    by (simp add: Log2_32_Ceil_def CountLeadingZeros_32_def u32_sub_def)
next
  fix w :: u32w and k
  assume a: "2 ^ k \<le> unat w \<and> unat w < 2 ^ Suc k"
  then have t: "top_bit w k" by (simp add: top_bit_def)
  then have "k < 32" using top_bit_less_length by fastforce
  then show "Log2_32 w = k"
    by (simp add: Log2_32_def CountLeadingZeros_32_top_bit [OF t] u32_sub_id)
next
  fix w :: u32w and k
  assume a: "2 ^ k < unat w \<and> unat w \<le> 2 ^ Suc k"
  then have "w \<noteq> 0" by auto
  then have u: "unat (w - 1) = unat w - 1" by (simp add: unat_minus_one)
  from a u have t: "top_bit (w - 1) k" by (auto simp: top_bit_def)
  then have "k < 32" using top_bit_less_length by fastforce
  then show "Log2_32_Ceil w = Suc k"
    by (simp add: Log2_32_Ceil_def CountLeadingZeros_32_top_bit [OF t] u32_sub_id)
qed

theorem Log2_32_spec_witness:
  "Log2_32 6 = 2 \<and> Log2_32 32 = 5 \<and> Log2_32_Ceil 6 = 3 \<and> Log2_32_Ceil 32 = 5"
proof -
  note s = Log2_32_spec [THEN conjunct2, THEN conjunct2]
  show ?thesis
    using s [THEN conjunct1, rule_format, of 2 6] s [THEN conjunct1, rule_format, of 5 32]
      s [THEN conjunct2, THEN conjunct1, rule_format, of 2 6]
      s [THEN conjunct2, THEN conjunct1, rule_format, of 4 32]
    by simp
qed

subsection \<open>Portable fallbacks\<close>

text \<open>The bisection loops count leading zeros as the builtins do.\<close>

theorem CountLeadingZeros_portable:
  "CountLeadingZeros_32_portable = CountLeadingZeros_32 \<and>
   CountLeadingZeros_64_portable = CountLeadingZeros_64"
proof (intro conjI ext)
  fix w :: u32w
  show "CountLeadingZeros_32_portable w = CountLeadingZeros_32 w"
  proof (cases "w = 0")
    case False
    then obtain k where k: "top_bit w k" using top_bit_ex by blast
    then have "k < 32" using top_bit_less_length by fastforce
    with clz_bisect_top_bit [OF k, of 4 0] False show ?thesis
      by (simp add: CountLeadingZeros_32_portable_def CountLeadingZeros_32_top_bit [OF k])
  qed (simp add: CountLeadingZeros_32_portable_def CountLeadingZeros_32_def)
next
  fix w :: u64
  show "CountLeadingZeros_64_portable w = CountLeadingZeros_64 w"
  proof (cases "w = 0")
    case False
    then obtain k where k: "top_bit w k" using top_bit_ex by blast
    then have "k < 64" using top_bit_less_length by fastforce
    with clz_bisect_top_bit [OF k, of 5 0] False show ?thesis
      by (simp add: CountLeadingZeros_64_portable_def CountLeadingZeros_64_top_bit [OF k])
  qed (simp add: CountLeadingZeros_64_portable_def CountLeadingZeros_64_def)
qed

text \<open>the remainder tables of the fallbacks find the lowest set bit of every word.\<close>

theorem CountTrailingZeros_portable:
  "CountTrailingZeros_32_portable = CountTrailingZeros_32 \<and>
   CountTrailingZeros_64_portable = CountTrailingZeros_64"
proof (intro conjI ext)
  fix w :: u32w
  show "CountTrailingZeros_32_portable w = CountTrailingZeros_32 w"
  proof (cases "w = 0")
    case True
    then show ?thesis
      by (simp add: CountTrailingZeros_32_portable_def CountTrailingZeros_32_def Mod37BitPosition_def)
  next
    case False
    then obtain k where k: "low_bit w k" using low_bit_ex by blast
    then have "k < 32" by (simp add: low_bit_def)
    then show ?thesis using False unat_exp [of k, where ?'a = 32] Mod37BitPosition_power [of k]
      by (simp add: CountTrailingZeros_32_portable_def CountTrailingZeros_32_def
          and_minus_low_bit [OF k] builtin_ctz_low_bit [OF k])
  qed
next
  fix w :: u64
  show "CountTrailingZeros_64_portable w = CountTrailingZeros_64 w"
  proof (cases "w = 0")
    case True
    then show ?thesis
      by (simp add: CountTrailingZeros_64_portable_def CountTrailingZeros_64_def Mod67Position_def)
  next
    case False
    then obtain k where k: "low_bit w k" using low_bit_ex by blast
    then have "k < 64" by (simp add: low_bit_def)
    then show ?thesis using False unat_exp [of k, where ?'a = 64] Mod67Position_power [of k]
      by (simp add: CountTrailingZeros_64_portable_def CountTrailingZeros_64_def
          and_minus_low_bit [OF k] builtin_ctz_low_bit [OF k])
  qed
qed

end
