(* ===== verification/DenseMapInfo.thy ===== *)
theory DenseMapInfo
  imports Prelude
begin

text \<open>
  The template parameters of the hash tables: \<open>DenseMapInfo\<close> (\<open>llvm-DenseMapInfo.h\<close>), the
  hash functions of \<open>objc-private.h\<close> it calls, and \<open>DisguisedPtr\<close>. A key/value policy is a
  record, so that the table code in \<open>DenseMap\<close> takes it as an argument as the C++ takes
  \<open>KeyInfoT\<close> and \<open>ValueInfoT\<close>. Two fields stand for C++ facilities the templates use: the
  default-constructed value \<open>ValueT()\<close>, and the contents of the memory that
  \<open>operator new\<close> returns, about which nothing is assumed.
\<close>

subsection \<open>Hash functions\<close>

definition builtin_bswap64 :: "u64 \<Rightarrow> u64" where
  "builtin_bswap64 w =
     push_bit 56 (w AND 0xFF) OR
     push_bit 40 (w AND 0xFF00) OR
     push_bit 24 (w AND 0xFF0000) OR
     push_bit 8 (w AND 0xFF000000) OR
     (drop_bit 8 w AND 0xFF000000) OR
     (drop_bit 24 w AND 0xFF0000) OR
     (drop_bit 40 w AND 0xFF00) OR
     (drop_bit 56 w AND 0xFF)"

definition ptr_hash :: "u64 \<Rightarrow> u32w" where
  "ptr_hash key =
     (let key = key XOR drop_bit 4 key;
          key = key * 0x8a970be7488fda55;
          key = key XOR builtin_bswap64 key
      in ucast key)"

text \<open>A C string is the list of its bytes before the terminator; \<open>char\<close> is signed.\<close>

fun objc_strhash_loop :: "u8 list \<Rightarrow> u32w \<Rightarrow> u32w" where
  "objc_strhash_loop [] hash = hash"
| "objc_strhash_loop (a # s) hash =
     objc_strhash_loop s (hash + (push_bit 8 hash + signed a))"

definition objc_strhash :: "u8 list \<Rightarrow> u32w" where
  "objc_strhash s = objc_strhash_loop s 0"

subsection \<open>Disguised pointers\<close>

datatype DisguisedPtr = DisguisedPtr (dvalue: u64)

definition disguise :: "u64 \<Rightarrow> u64" where
  "disguise ptr = - ptr"

definition undisguise :: "u64 \<Rightarrow> u64" where
  "undisguise val = - val"

definition disguised :: "u64 \<Rightarrow> DisguisedPtr" where
  "disguised ptr = DisguisedPtr (disguise ptr)"

definition pointer_of :: "DisguisedPtr \<Rightarrow> u64" where
  "pointer_of d = undisguise (dvalue d)"

lemma pointer_of_disguised [simp]: "pointer_of (disguised p) = p"
  by (simp add: pointer_of_def disguised_def disguise_def undisguise_def)

lemma disguised_pointer_of [simp]: "disguised (pointer_of d) = d"
  by (cases d) (simp add: pointer_of_def disguised_def disguise_def undisguise_def)

lemma disguised_inject [simp]: "disguised p = disguised q \<longleftrightarrow> p = q"
  by (metis pointer_of_disguised)

lemma pointer_of_inject [simp]: "pointer_of d = pointer_of e \<longleftrightarrow> d = e"
  by (metis disguised_pointer_of)

subsection \<open>Key policies\<close>

record 'k DenseMapInfo =
  getEmptyKey :: 'k
  getTombstoneKey :: 'k
  getHashValue :: "'k \<Rightarrow> nat"
  isEqual :: "'k \<Rightarrow> 'k \<Rightarrow> bool"

definition DenseMapInfo_ptr :: "u64 DenseMapInfo" where
  "DenseMapInfo_ptr =
     \<lparr>getEmptyKey = -1, getTombstoneKey = -2,
      getHashValue = (\<lambda>PtrVal. unat (ptr_hash PtrVal)),
      isEqual = (\<lambda>LHS RHS. LHS = RHS)\<rparr>"

definition DenseMapInfo_DisguisedPtr :: "DisguisedPtr DenseMapInfo" where
  "DenseMapInfo_DisguisedPtr =
     \<lparr>getEmptyKey = disguised (-1), getTombstoneKey = disguised (-2),
      getHashValue = (\<lambda>PtrVal. unat (ptr_hash (pointer_of PtrVal))),
      isEqual = (\<lambda>LHS RHS. pointer_of LHS = pointer_of RHS)\<rparr>"

definition DenseMapInfo_char :: "u8 DenseMapInfo" where
  "DenseMapInfo_char =
     \<lparr>getEmptyKey = NOT 0, getTombstoneKey = NOT 0 - 1,
      getHashValue = (\<lambda>Val. unat ((signed Val :: u32w) * 37)),
      isEqual = (\<lambda>LHS RHS. LHS = RHS)\<rparr>"

definition DenseMapInfo_unsigned :: "u32w DenseMapInfo" where
  "DenseMapInfo_unsigned =
     \<lparr>getEmptyKey = NOT 0, getTombstoneKey = NOT 0 - 1,
      getHashValue = (\<lambda>Val. unat (Val * 37)),
      isEqual = (\<lambda>LHS RHS. LHS = RHS)\<rparr>"

definition DenseMapInfo_ulong :: "u64 DenseMapInfo" where
  "DenseMapInfo_ulong =
     \<lparr>getEmptyKey = NOT 0, getTombstoneKey = NOT 0 - 1,
      getHashValue = (\<lambda>Val. unat (ucast (Val * 37) :: u32w)),
      isEqual = (\<lambda>LHS RHS. LHS = RHS)\<rparr>"

definition DenseMapInfo_ulonglong :: "u64 DenseMapInfo" where
  "DenseMapInfo_ulonglong =
     \<lparr>getEmptyKey = NOT 0, getTombstoneKey = NOT 0 - 1,
      getHashValue = (\<lambda>Val. unat (ucast (Val * 37) :: u32w)),
      isEqual = (\<lambda>LHS RHS. LHS = RHS)\<rparr>"

definition DenseMapInfo_int :: "u32w DenseMapInfo" where
  "DenseMapInfo_int =
     \<lparr>getEmptyKey = 0x7fffffff, getTombstoneKey = - 0x7fffffff - 1,
      getHashValue = (\<lambda>Val. unat (Val * 37)),
      isEqual = (\<lambda>LHS RHS. LHS = RHS)\<rparr>"

definition DenseMapInfo_long :: "u64 DenseMapInfo" where
  "DenseMapInfo_long =
     \<lparr>getEmptyKey = push_bit (8 * 8 - 1) 1 - 1,
      getTombstoneKey = push_bit (8 * 8 - 1) 1 - 1 - 1,
      getHashValue = (\<lambda>Val. unat (ucast (Val * 37) :: u32w)),
      isEqual = (\<lambda>LHS RHS. LHS = RHS)\<rparr>"

definition DenseMapInfo_longlong :: "u64 DenseMapInfo" where
  "DenseMapInfo_longlong =
     \<lparr>getEmptyKey = 0x7fffffffffffffff, getTombstoneKey = - 0x7fffffffffffffff - 1,
      getHashValue = (\<lambda>Val. unat (ucast (Val * 37) :: u32w)),
      isEqual = (\<lambda>LHS RHS. LHS = RHS)\<rparr>"

definition pair_hash :: "u32w \<Rightarrow> u32w \<Rightarrow> u32w" where
  "pair_hash h1 h2 =
     (let key = push_bit 32 (ucast h1 :: u64) OR ucast h2;
          key = key + NOT (push_bit 32 key);
          key = key XOR drop_bit 22 key;
          key = key + NOT (push_bit 13 key);
          key = key XOR drop_bit 8 key;
          key = key + push_bit 3 key;
          key = key XOR drop_bit 15 key;
          key = key + NOT (push_bit 27 key);
          key = key XOR drop_bit 31 key
      in ucast key)"

definition DenseMapInfo_pair ::
  "'k DenseMapInfo \<Rightarrow> 'l DenseMapInfo \<Rightarrow> ('k \<times> 'l) DenseMapInfo" where
  "DenseMapInfo_pair FirstInfo SecondInfo =
     \<lparr>getEmptyKey = (getEmptyKey FirstInfo, getEmptyKey SecondInfo),
      getTombstoneKey = (getTombstoneKey FirstInfo, getTombstoneKey SecondInfo),
      getHashValue = (\<lambda>(a, b). unat (pair_hash (word_of_nat (getHashValue FirstInfo a))
                                             (word_of_nat (getHashValue SecondInfo b)))),
      isEqual = (\<lambda>LHS RHS. isEqual FirstInfo (fst LHS) (fst RHS) \<and>
                            isEqual SecondInfo (snd LHS) (snd RHS))\<rparr>"

subsection \<open>The contract of a key policy\<close>

text \<open>
  What the tables rely on: comparing keys decides equality, and the two reserved keys differ.
\<close>

locale key_info =
  fixes K :: "'k DenseMapInfo"
  assumes isEqual_iff [simp]: "isEqual K a b \<longleftrightarrow> a = b"
    and reserved_keys_differ [simp]: "getEmptyKey K \<noteq> getTombstoneKey K"
begin

lemma reserved_keys_differ_sym [simp]: "getTombstoneKey K \<noteq> getEmptyKey K"
  using reserved_keys_differ by (rule not_sym)

end

interpretation ptr_info: key_info DenseMapInfo_ptr
  by unfold_locales (simp_all add: DenseMapInfo_ptr_def)

interpretation disguised_info: key_info DenseMapInfo_DisguisedPtr
  by unfold_locales (simp_all add: DenseMapInfo_DisguisedPtr_def)

interpretation char_info: key_info DenseMapInfo_char
  by unfold_locales (simp_all add: DenseMapInfo_char_def)

interpretation unsigned_info: key_info DenseMapInfo_unsigned
  by unfold_locales (simp_all add: DenseMapInfo_unsigned_def)

interpretation ulong_info: key_info DenseMapInfo_ulong
  by unfold_locales (simp_all add: DenseMapInfo_ulong_def)

interpretation ulonglong_info: key_info DenseMapInfo_ulonglong
  by unfold_locales (simp_all add: DenseMapInfo_ulonglong_def)

interpretation int_info: key_info DenseMapInfo_int
  by unfold_locales (simp_all add: DenseMapInfo_int_def)

interpretation long_info: key_info DenseMapInfo_long
  by unfold_locales (simp_all add: DenseMapInfo_long_def)

interpretation longlong_info: key_info DenseMapInfo_longlong
  by unfold_locales (simp_all add: DenseMapInfo_longlong_def)

lemma key_info_pair:
  assumes "key_info K" and "key_info L"
  shows "key_info (DenseMapInfo_pair K L)"
proof -
  from assms(1) show ?thesis
    using key_info.isEqual_iff [OF assms(1)] key_info.isEqual_iff [OF assms(2)]
      key_info.reserved_keys_differ [OF assms(1)]
    by (intro key_info.intro) (auto simp: DenseMapInfo_pair_def)
qed

end
