(* ===== verification/DenseMap.thy ===== *)
theory DenseMap
  imports MathExtras DenseMapInfo "HOL-Library.Monad_Syntax"
begin

text \<open>
  \<open>objc::DenseMap\<close> (\<open>llvm-DenseMap.h\<close>): the open-addressing hash table with triangular
  probing, tombstones and purgeable values behind the reference-count and association tables.

  A bucket is a key/value pair and a bucket pointer is its index; \<open>nullptr\<close> is \<open>None\<close>, and a
  null \<open>Buckets\<close> array is the empty list. Operations that may reach
  \<open>FatalCorruptHashTables\<close> or dereference a null bucket end the process; they return an
  option, and \<open>None\<close> is that end. \<open>ASSERT\<close> is compiled out, as in release builds. The
  destructors the code calls have no effect on trivially destructible types and are left out.
\<close>

subsection \<open>Representation\<close>

record ('k, 'v) policy =
  keyInfo :: "'k DenseMapInfo"
  isPurgeable :: "'v \<Rightarrow> bool"
  valueInit :: 'v
  trivially_copyable :: bool
  freshMemory :: "nat \<Rightarrow> 'k \<times> 'v"

definition DenseMapValueInfo_isPurgeable :: "'v \<Rightarrow> bool" where
  "DenseMapValueInfo_isPurgeable value = False"

record ('k, 'v) DenseMap =
  Buckets :: "('k \<times> 'v) list"
  NumEntries :: nat
  NumTombstones :: nat
  NumBuckets :: nat

definition MIN_BUCKETS :: nat where "MIN_BUCKETS = 4"
definition MIN_COMPACT :: nat where "MIN_COMPACT = 1024"

abbreviation emptyKey :: "('k, 'v) policy \<Rightarrow> 'k" where
  "emptyKey P \<equiv> getEmptyKey (keyInfo P)"

abbreviation tombKey :: "('k, 'v) policy \<Rightarrow> 'k" where
  "tombKey P \<equiv> getTombstoneKey (keyInfo P)"

abbreviation keyEq :: "('k, 'v) policy \<Rightarrow> 'k \<Rightarrow> 'k \<Rightarrow> bool" where
  "keyEq P \<equiv> isEqual (keyInfo P)"

definition dm_empty :: "('k, 'v) DenseMap \<Rightarrow> bool" where
  "dm_empty m \<longleftrightarrow> NumEntries m = 0"

definition dm_size :: "('k, 'v) DenseMap \<Rightarrow> nat" where
  "dm_size m = NumEntries m"

subsection \<open>Counters\<close>

definition incrementNumEntries :: "('k, 'v) DenseMap \<Rightarrow> ('k, 'v) DenseMap" where
  "incrementNumEntries m = m\<lparr>NumEntries := u32 (NumEntries m + 1)\<rparr>"

definition decrementNumEntries :: "('k, 'v) DenseMap \<Rightarrow> ('k, 'v) DenseMap" where
  "decrementNumEntries m = m\<lparr>NumEntries := u32_sub (NumEntries m) 1\<rparr>"

definition incrementNumTombstones :: "('k, 'v) DenseMap \<Rightarrow> ('k, 'v) DenseMap" where
  "incrementNumTombstones m = m\<lparr>NumTombstones := u32 (NumTombstones m + 1)\<rparr>"

definition decrementNumTombstones :: "('k, 'v) DenseMap \<Rightarrow> ('k, 'v) DenseMap" where
  "decrementNumTombstones m = m\<lparr>NumTombstones := u32_sub (NumTombstones m) 1\<rparr>"

subsection \<open>Allocation\<close>

definition allocateBuckets ::
  "('k, 'v) policy \<Rightarrow> nat \<Rightarrow> ('k, 'v) DenseMap \<Rightarrow> bool \<times> ('k, 'v) DenseMap" where
  "allocateBuckets P Num m =
     (let m = m\<lparr>NumBuckets := Num\<rparr> in
      if NumBuckets m = 0 then (False, m\<lparr>Buckets := []\<rparr>)
      else (True, m\<lparr>Buckets := map (freshMemory P) [0..<NumBuckets m]\<rparr>))"

definition initEmpty :: "('k, 'v) policy \<Rightarrow> ('k, 'v) DenseMap \<Rightarrow> ('k, 'v) DenseMap" where
  "initEmpty P m =
     m\<lparr>NumEntries := 0, NumTombstones := 0,
       Buckets := map (\<lambda>(_, v). (emptyKey P, v)) (Buckets m)\<rparr>"

definition getMinBucketToReserveForEntries :: "nat \<Rightarrow> nat" where
  "getMinBucketToReserveForEntries Entries =
     (if Entries = 0 then 0
      else unat (NextPowerOf2_32 (word_of_nat (u32 (u32 (Entries * 4) div 3 + 1)))))"

definition dm_init ::
  "('k, 'v) policy \<Rightarrow> nat \<Rightarrow> ('k, 'v) DenseMap \<Rightarrow> ('k, 'v) DenseMap" where
  "dm_init P InitNumEntries m =
     (let InitBuckets = getMinBucketToReserveForEntries InitNumEntries;
          (ok, m) = allocateBuckets P InitBuckets m in
      if ok then initEmpty P m else m\<lparr>NumEntries := 0, NumTombstones := 0\<rparr>)"

text \<open>The constructor \<open>DenseMap(unsigned InitialReserve = 0)\<close>; the fields start indeterminate.\<close>

definition DenseMap_new :: "('k, 'v) policy \<Rightarrow> nat \<Rightarrow> ('k, 'v) DenseMap" where
  "DenseMap_new P InitialReserve =
     dm_init P InitialReserve \<lparr>Buckets = [], NumEntries = 0, NumTombstones = 0, NumBuckets = 0\<rparr>"

subsection \<open>Probing\<close>

text \<open>
  The loop of \<open>LookupBucketFor\<close>. \<open>ProbeAmt\<close> is at most \<open>NumBuckets + 1\<close>, because the
  loop ends the process otherwise, so its increment does not wrap.
\<close>

function LookupBucketFor_loop ::
  "('k, 'v) policy \<Rightarrow> ('k \<times> 'v) list \<Rightarrow> nat \<Rightarrow> 'k \<Rightarrow> nat \<Rightarrow> nat \<Rightarrow> nat option
   \<Rightarrow> (bool \<times> nat option) option" where
  "LookupBucketFor_loop P BucketsPtr Num Val BucketNo ProbeAmt FoundTombstone =
     (let ThisBucket = BucketsPtr ! BucketNo in
      if keyEq P Val (fst ThisBucket) then Some (True, Some BucketNo)
      else if keyEq P (fst ThisBucket) (emptyKey P) then
        Some (False, Some (case FoundTombstone of Some t \<Rightarrow> t | None \<Rightarrow> BucketNo))
      else
        let FoundTombstone =
              (if keyEq P (fst ThisBucket) (tombKey P) \<and> FoundTombstone = None
               then Some BucketNo else FoundTombstone);
            FoundTombstone =
              (if isPurgeable P (snd ThisBucket) \<and> FoundTombstone = None
               then Some BucketNo else FoundTombstone) in
        if ProbeAmt > Num then None
        else LookupBucketFor_loop P BucketsPtr Num Val
               (u32 (BucketNo + ProbeAmt) AND (Num - 1)) (ProbeAmt + 1) FoundTombstone)"
  by pat_completeness auto
termination
  by (relation "measure (\<lambda>(P, bs, n, k, b, a, t). n + 1 - a)") auto

declare LookupBucketFor_loop.simps [simp del]

definition LookupBucketFor ::
  "('k, 'v) policy \<Rightarrow> ('k, 'v) DenseMap \<Rightarrow> 'k \<Rightarrow> (bool \<times> nat option) option" where
  "LookupBucketFor P m Val =
     (if NumBuckets m = 0 then Some (False, None)
      else LookupBucketFor_loop P (Buckets m) (NumBuckets m) Val
             (getHashValue (keyInfo P) Val AND (NumBuckets m - 1)) 1 None)"

subsection \<open>Growing and shrinking\<close>

definition move_bucket ::
  "('k, 'v) policy \<Rightarrow> ('k \<times> 'v) \<Rightarrow> ('k, 'v) DenseMap \<Rightarrow> ('k, 'v) DenseMap option" where
  "move_bucket P B m =
     (if isPurgeable P (snd B) then Some m
      else if \<not> keyEq P (fst B) (emptyKey P) \<and> \<not> keyEq P (fst B) (tombKey P) then do {
        (FoundVal, DestBucket) \<leftarrow> LookupBucketFor P m (fst B);
        d \<leftarrow> DestBucket;
        Some (incrementNumEntries (m\<lparr>Buckets := (Buckets m)[d := B]\<rparr>))
      }
      else Some m)"

fun move_buckets ::
  "('k, 'v) policy \<Rightarrow> ('k \<times> 'v) list \<Rightarrow> ('k, 'v) DenseMap \<Rightarrow> ('k, 'v) DenseMap option" where
  "move_buckets P [] m = Some m"
| "move_buckets P (B # Bs) m = do { m \<leftarrow> move_bucket P B m; move_buckets P Bs m }"

definition moveFromOldBuckets ::
  "('k, 'v) policy \<Rightarrow> ('k \<times> 'v) list \<Rightarrow> ('k, 'v) DenseMap \<Rightarrow> ('k, 'v) DenseMap option" where
  "moveFromOldBuckets P OldBuckets m = move_buckets P OldBuckets (initEmpty P m)"

definition dm_grow ::
  "('k, 'v) policy \<Rightarrow> nat \<Rightarrow> ('k, 'v) DenseMap \<Rightarrow> ('k, 'v) DenseMap option" where
  "dm_grow P AtLeast m =
     (let OldBuckets = Buckets m;
          Num = max MIN_BUCKETS (unat (NextPowerOf2_32 (word_of_nat (u32_sub AtLeast 1))));
          m = snd (allocateBuckets P Num m) in
      if OldBuckets = [] then Some (initEmpty P m)
      else moveFromOldBuckets P OldBuckets m)"

text \<open>\<open>1 << n\<close> is a signed 32-bit number: from \<open>2 ^ 31\<close> on it is negative, and the maximum is the minimum size.\<close>

definition dm_shrink_and_clear ::
  "('k, 'v) policy \<Rightarrow> ('k, 'v) DenseMap \<Rightarrow> ('k, 'v) DenseMap" where
  "dm_shrink_and_clear P m =
     (let OldNumEntries = NumEntries m;
          NewNumBuckets =
            (if OldNumEntries \<noteq> 0
             then nat (max (int MIN_BUCKETS) (sint (push_bit (Log2_32_Ceil (word_of_nat OldNumEntries) + 1) (1 :: u32w))))
             else 0) in
      if NewNumBuckets = NumBuckets m then initEmpty P m
      else dm_init P NewNumBuckets m)"

definition dm_reserve ::
  "('k, 'v) policy \<Rightarrow> nat \<Rightarrow> ('k, 'v) DenseMap \<Rightarrow> ('k, 'v) DenseMap option" where
  "dm_reserve P Entries m =
     (let Num = getMinBucketToReserveForEntries Entries in
      if Num > NumBuckets m then dm_grow P Num m else Some m)"

definition dm_clear :: "('k, 'v) policy \<Rightarrow> ('k, 'v) DenseMap \<Rightarrow> ('k, 'v) DenseMap" where
  "dm_clear P m =
     (if NumEntries m = 0 \<and> NumTombstones m = 0 then m
      else if u32 (NumEntries m * 4) < NumBuckets m \<and> NumBuckets m > MIN_BUCKETS
        then dm_shrink_and_clear P m
      else m\<lparr>Buckets := map (\<lambda>(_, v). (emptyKey P, v)) (Buckets m),
             NumEntries := 0, NumTombstones := 0\<rparr>)"

definition dm_compact ::
  "('k, 'v) policy \<Rightarrow> ('k, 'v) DenseMap \<Rightarrow> ('k, 'v) DenseMap option" where
  "dm_compact P m =
     (if NumEntries m = 0 then Some (dm_shrink_and_clear P m)
      else if NumBuckets m div 16 > NumEntries m \<and> NumBuckets m > MIN_COMPACT
        then dm_grow P (u32 (NumEntries m * 2)) m
      else Some m)"

subsection \<open>Insertion\<close>

definition InsertIntoBucketImpl ::
  "('k, 'v) policy \<Rightarrow> 'k \<Rightarrow> nat option \<Rightarrow> ('k, 'v) DenseMap
   \<Rightarrow> (nat \<times> ('k, 'v) DenseMap) option" where
  "InsertIntoBucketImpl P Lookup TheBucket m = do {
     let NewNumEntries = u32 (NumEntries m + 1);
     let Num = NumBuckets m;
     (m, TheBucket) \<leftarrow>
       (if u32 (NewNumEntries * 4) \<ge> u32 (Num * 3) then do {
          m \<leftarrow> dm_grow P (u32 (Num * 2)) m;
          (found, b) \<leftarrow> LookupBucketFor P m Lookup;
          Some (m, b) }
        else if u32_sub Num (u32 (NewNumEntries + NumTombstones m)) \<le> Num div 8 then do {
          m \<leftarrow> dm_grow P Num m;
          (found, b) \<leftarrow> LookupBucketFor P m Lookup;
          Some (m, b) }
        else Some (m, TheBucket));
     b \<leftarrow> TheBucket;
     Some (b,
       if keyEq P (fst (Buckets m ! b)) (emptyKey P) then incrementNumEntries m
       else if keyEq P (fst (Buckets m ! b)) (tombKey P)
         then decrementNumTombstones (incrementNumEntries m)
       else m)
   }"

definition InsertIntoBucket ::
  "('k, 'v) policy \<Rightarrow> nat option \<Rightarrow> 'k \<Rightarrow> 'v \<Rightarrow> ('k, 'v) DenseMap
   \<Rightarrow> (nat \<times> ('k, 'v) DenseMap) option" where
  "InsertIntoBucket P TheBucket Key Value m = do {
     (b, m) \<leftarrow> InsertIntoBucketImpl P Key TheBucket m;
     Some (b, m\<lparr>Buckets := (Buckets m)[b := (Key, Value)]\<rparr>)
   }"

text \<open>The result is the bucket of the key, whether it was inserted, and the table.\<close>

definition try_emplace ::
  "('k, 'v) policy \<Rightarrow> 'k \<Rightarrow> 'v \<Rightarrow> ('k, 'v) DenseMap
   \<Rightarrow> (nat option \<times> bool \<times> ('k, 'v) DenseMap) option" where
  "try_emplace P Key Value m = do {
     (found, TheBucket) \<leftarrow> LookupBucketFor P m Key;
     if found then Some (TheBucket, False, m)
     else do {
       (b, m) \<leftarrow> InsertIntoBucket P TheBucket Key Value m;
       Some (Some b, True, m) }
   }"

definition dm_insert ::
  "('k, 'v) policy \<Rightarrow> 'k \<times> 'v \<Rightarrow> ('k, 'v) DenseMap
   \<Rightarrow> (nat option \<times> bool \<times> ('k, 'v) DenseMap) option" where
  "dm_insert P KV m = try_emplace P (fst KV) (snd KV) m"

fun dm_insert_range ::
  "('k, 'v) policy \<Rightarrow> ('k \<times> 'v) list \<Rightarrow> ('k, 'v) DenseMap \<Rightarrow> ('k, 'v) DenseMap option" where
  "dm_insert_range P [] m = Some m"
| "dm_insert_range P (KV # KVs) m =
     do { (_, _, m) \<leftarrow> dm_insert P KV m; dm_insert_range P KVs m }"

text \<open>\<open>operator[]\<close> and \<open>FindAndConstruct\<close> return a reference: the index of the bucket.\<close>

definition FindAndConstruct ::
  "('k, 'v) policy \<Rightarrow> 'k \<Rightarrow> ('k, 'v) DenseMap \<Rightarrow> (nat \<times> ('k, 'v) DenseMap) option" where
  "FindAndConstruct P Key m = do {
     (found, TheBucket) \<leftarrow> LookupBucketFor P m Key;
     if found then do { b \<leftarrow> TheBucket; Some (b, m) }
     else InsertIntoBucket P TheBucket Key (valueInit P) m
   }"

text \<open>Reading and writing the value a bucket reference or an iterator denotes.\<close>

definition getSecond :: "('k, 'v) DenseMap \<Rightarrow> nat \<Rightarrow> 'v" where
  "getSecond m b = snd (Buckets m ! b)"

definition setSecond :: "('k, 'v) DenseMap \<Rightarrow> nat \<Rightarrow> 'v \<Rightarrow> ('k, 'v) DenseMap" where
  "setSecond m b v = m\<lparr>Buckets := (Buckets m)[b := (fst (Buckets m ! b), v)]\<rparr>"

subsection \<open>Lookup and removal\<close>

text \<open>An iterator is a bucket index; \<open>end()\<close> is the index \<open>NumBuckets\<close>.\<close>

definition dm_end :: "('k, 'v) DenseMap \<Rightarrow> nat" where
  "dm_end m = NumBuckets m"

definition dm_count :: "('k, 'v) policy \<Rightarrow> 'k \<Rightarrow> ('k, 'v) DenseMap \<Rightarrow> nat option" where
  "dm_count P Val m = do {
     (found, TheBucket) \<leftarrow> LookupBucketFor P m Val;
     Some (if found then 1 else 0) }"

definition dm_find :: "('k, 'v) policy \<Rightarrow> 'k \<Rightarrow> ('k, 'v) DenseMap \<Rightarrow> nat option" where
  "dm_find P Val m = do {
     (found, TheBucket) \<leftarrow> LookupBucketFor P m Val;
     if found then TheBucket else Some (dm_end m) }"

definition dm_lookup :: "('k, 'v) policy \<Rightarrow> 'k \<Rightarrow> ('k, 'v) DenseMap \<Rightarrow> 'v option" where
  "dm_lookup P Val m = do {
     (found, TheBucket) \<leftarrow> LookupBucketFor P m Val;
     if found then do { b \<leftarrow> TheBucket; Some (snd (Buckets m ! b)) }
     else Some (valueInit P) }"

definition erase_bucket ::
  "('k, 'v) policy \<Rightarrow> nat \<Rightarrow> ('k, 'v) DenseMap \<Rightarrow> ('k, 'v) DenseMap option" where
  "erase_bucket P b m =
     (let m = m\<lparr>Buckets := (Buckets m)[b := (tombKey P, snd (Buckets m ! b))]\<rparr>;
          m = decrementNumEntries m;
          m = incrementNumTombstones m in
      dm_compact P m)"

definition dm_erase ::
  "('k, 'v) policy \<Rightarrow> 'k \<Rightarrow> ('k, 'v) DenseMap \<Rightarrow> (bool \<times> ('k, 'v) DenseMap) option" where
  "dm_erase P Val m = do {
     (found, TheBucket) \<leftarrow> LookupBucketFor P m Val;
     if \<not> found then Some (False, m)
     else do {
       b \<leftarrow> TheBucket;
       m \<leftarrow> erase_bucket P b m;
       Some (True, m) }
   }"

definition dm_erase_iterator ::
  "('k, 'v) policy \<Rightarrow> nat \<Rightarrow> ('k, 'v) DenseMap \<Rightarrow> ('k, 'v) DenseMap option" where
  "dm_erase_iterator P I m = erase_bucket P I m"

subsection \<open>Copying, swapping and iteration\<close>

text \<open>
  \<open>BaseT::copyFrom\<close>: the whole bucket array when both types are trivially copyable,
  otherwise every key and the values of the live buckets only.
\<close>

definition copy_bucket :: "('k, 'v) policy \<Rightarrow> 'k \<times> 'v \<Rightarrow> 'k \<times> 'v \<Rightarrow> 'k \<times> 'v" where
  "copy_bucket P src dst =
     (if \<not> keyEq P (fst src) (emptyKey P) \<and> \<not> keyEq P (fst src) (tombKey P)
      then src else (fst src, snd dst))"

definition BaseT_copyFrom ::
  "('k, 'v) policy \<Rightarrow> ('k, 'v) DenseMap \<Rightarrow> ('k, 'v) DenseMap \<Rightarrow> ('k, 'v) DenseMap" where
  "BaseT_copyFrom P other m =
     m\<lparr>NumEntries := NumEntries other, NumTombstones := NumTombstones other,
       Buckets := (if trivially_copyable P then Buckets other
                   else map2 (copy_bucket P) (Buckets other) (Buckets m))\<rparr>"

definition dm_copyFrom ::
  "('k, 'v) policy \<Rightarrow> ('k, 'v) DenseMap \<Rightarrow> ('k, 'v) DenseMap \<Rightarrow> ('k, 'v) DenseMap" where
  "dm_copyFrom P other m =
     (let (ok, m) = allocateBuckets P (NumBuckets other) m in
      if ok then BaseT_copyFrom P other m
      else m\<lparr>NumEntries := 0, NumTombstones := 0\<rparr>)"

definition dm_swap ::
  "('k, 'v) DenseMap \<Rightarrow> ('k, 'v) DenseMap \<Rightarrow> ('k, 'v) DenseMap \<times> ('k, 'v) DenseMap" where
  "dm_swap m RHS = (RHS, m)"

text \<open>The copy and move constructors, the range constructor and move assignment.\<close>

definition DenseMap_copy :: "('k, 'v) policy \<Rightarrow> ('k, 'v) DenseMap \<Rightarrow> ('k, 'v) DenseMap" where
  "DenseMap_copy P other = dm_copyFrom P other (DenseMap_new P 0)"

definition DenseMap_move ::
  "('k, 'v) policy \<Rightarrow> ('k, 'v) DenseMap \<Rightarrow> ('k, 'v) DenseMap \<times> ('k, 'v) DenseMap" where
  "DenseMap_move P other = dm_swap (DenseMap_new P 0) other"

definition DenseMap_range :: "('k, 'v) policy \<Rightarrow> ('k \<times> 'v) list \<Rightarrow> ('k, 'v) DenseMap option" where
  "DenseMap_range P KVs = dm_insert_range P KVs (DenseMap_new P (u32 (length KVs)))"

definition dm_move_assign ::
  "('k, 'v) policy \<Rightarrow> ('k, 'v) DenseMap \<Rightarrow> ('k, 'v) DenseMap
   \<Rightarrow> ('k, 'v) DenseMap \<times> ('k, 'v) DenseMap" where
  "dm_move_assign P other m = dm_swap (dm_init P 0 m) other"

function AdvancePastEmptyBuckets ::
  "('k, 'v) policy \<Rightarrow> ('k, 'v) DenseMap \<Rightarrow> nat \<Rightarrow> nat" where
  "AdvancePastEmptyBuckets P m Ptr =
     (if Ptr < dm_end m \<and> (keyEq P (fst (Buckets m ! Ptr)) (emptyKey P) \<or>
                           keyEq P (fst (Buckets m ! Ptr)) (tombKey P))
      then AdvancePastEmptyBuckets P m (Ptr + 1) else Ptr)"
  by pat_completeness auto
termination
  by (relation "measure (\<lambda>(P, m, p). dm_end m - p)") auto

declare AdvancePastEmptyBuckets.simps [simp del]

definition dm_begin :: "('k, 'v) policy \<Rightarrow> ('k, 'v) DenseMap \<Rightarrow> nat" where
  "dm_begin P m = (if dm_empty m then dm_end m else AdvancePastEmptyBuckets P m 0)"

definition dm_next :: "('k, 'v) policy \<Rightarrow> ('k, 'v) DenseMap \<Rightarrow> nat \<Rightarrow> nat" where
  "dm_next P m Ptr = AdvancePastEmptyBuckets P m (Ptr + 1)"

lemma AdvancePastEmptyBuckets_ge: "p \<le> AdvancePastEmptyBuckets P m p"
proof (induction P m p rule: AdvancePastEmptyBuckets.induct)
  case (1 P m p)
  show ?case
  proof (cases "p < dm_end m \<and> (keyEq P (fst (Buckets m ! p)) (emptyKey P) \<or>
      keyEq P (fst (Buckets m ! p)) (tombKey P))")
    case True
    with 1 have "p + 1 \<le> AdvancePastEmptyBuckets P m (p + 1)" by blast
    with True show ?thesis
      unfolding AdvancePastEmptyBuckets.simps [of P m p] by simp
  next
    case False
    then show ?thesis
      unfolding AdvancePastEmptyBuckets.simps [of P m p] by (simp only: if_False order_refl)
  qed
qed

text \<open>The buckets a range-based \<open>for\<close> loop visits, in order.\<close>

function iterate_from ::
  "('k, 'v) policy \<Rightarrow> ('k, 'v) DenseMap \<Rightarrow> nat \<Rightarrow> ('k \<times> 'v) list" where
  "iterate_from P m I =
     (if I < dm_end m then (Buckets m ! I) # iterate_from P m (dm_next P m I) else [])"
  by pat_completeness auto
termination
proof (relation "measure (\<lambda>(P, m, p). dm_end m - p)", goal_cases)
  case (2 P m I)
  have "I + 1 \<le> dm_next P m I" unfolding dm_next_def by (rule AdvancePastEmptyBuckets_ge)
  with 2 show ?case by simp
qed auto

declare iterate_from.simps [simp del]

definition dm_iterate :: "('k, 'v) policy \<Rightarrow> ('k, 'v) DenseMap \<Rightarrow> ('k \<times> 'v) list" where
  "dm_iterate P m = iterate_from P m (dm_begin P m)"

fun dm_equal_loop ::
  "('k, 'v) policy \<Rightarrow> ('k \<times> 'v) list \<Rightarrow> ('k, 'v) DenseMap \<Rightarrow> bool option" where
  "dm_equal_loop P [] RHS = Some True"
| "dm_equal_loop P (KV # KVs) RHS = do {
     I \<leftarrow> dm_find P (fst KV) RHS;
     if I = dm_end RHS \<or> snd (Buckets RHS ! I) \<noteq> snd KV then Some False
     else dm_equal_loop P KVs RHS }"

definition dm_equal ::
  "('k, 'v) policy \<Rightarrow> ('k, 'v) DenseMap \<Rightarrow> ('k, 'v) DenseMap \<Rightarrow> bool option" where
  "dm_equal P LHS RHS =
     (if dm_size LHS \<noteq> dm_size RHS then Some False
      else dm_equal_loop P (dm_iterate P LHS) RHS)"

end
