(* ===== verification/DenseMapTable.thy ===== *)
theory DenseMapTable
  imports DenseMap
begin

text \<open>
  The bucket array of \<open>DenseMap\<close>: triangular probing visits every bucket of a power-of-two
  table, so that \<open>LookupBucketFor\<close> always finds the key or a free bucket and never reaches
  \<open>FatalCorruptHashTables\<close>; storing into the bucket it returns and burying a bucket under a
  tombstone are the insertion and the deletion of a finite map.
\<close>

subsection \<open>Triangular probing\<close>

definition probe :: "nat \<Rightarrow> nat \<Rightarrow> nat \<Rightarrow> nat" where
  "probe n h p = (h + p * (p + 1) div 2) mod n"

lemma probe_0: "probe n h 0 = h mod n"
  by (simp add: probe_def)

lemma probe_Suc: "probe n h (Suc p) = (probe n h p + Suc p) mod n"
proof -
  have "Suc p * (Suc p + 1) = p * (p + 1) + 2 * Suc p" by (simp add: algebra_simps)
  then have "Suc p * (Suc p + 1) div 2 = p * (p + 1) div 2 + Suc p" by simp
  then show ?thesis unfolding probe_def
    by (metis add.assoc mod_add_left_eq)
qed

lemma probe_less: "0 < n \<Longrightarrow> probe n h p < n"
  by (simp add: probe_def)

lemma triangular_double: "2 * (p * (p + 1) div 2) = p * (p + (1::nat))"
  by simp

lemma pow2_dvd_mult_odd:
  fixes a b :: nat
  assumes "2 ^ Suc k dvd a * b" and "odd a \<noteq> odd b"
  shows "2 ^ Suc k dvd a \<or> 2 ^ Suc k dvd b"
proof (cases "odd a")
  case True
  then have "coprime (2 ^ Suc k) a" by simp
  with assms(1) show ?thesis by (simp only: coprime_dvd_mult_right_iff simp_thms)
next
  case False
  with assms(2) have "coprime (2 ^ Suc k) b" by simp
  with assms(1) show ?thesis by (simp only: coprime_dvd_mult_left_iff simp_thms)
qed

lemma probe_inj_aux:
  assumes "q < p" and "p < 2 ^ k" and "probe (2 ^ k) h p = probe (2 ^ k) h q"
  shows False
proof -
  define tp where "tp = p * (p + 1) div 2"
  define tq where "tq = q * (q + 1) div 2"
  have "tq \<le> tp" unfolding tp_def tq_def
    using assms(1) by (intro div_le_mono mult_le_mono) auto
  then have "2 ^ k dvd (h + tp) - (h + tq)"
    using assms(3) unfolding probe_def tp_def [symmetric] tq_def [symmetric]
    by (metis mod_eq_dvd_iff_nat add_left_mono)
  then have "2 ^ k dvd tp - tq" by simp
  then have "2 * 2 ^ k dvd 2 * (tp - tq)" by (rule mult_dvd_mono [OF dvd_refl])
  also have "2 * (tp - tq) = p * (p + 1) - q * (q + 1)"
    unfolding tp_def tq_def using triangular_double [of p] triangular_double [of q]
    by (simp only: diff_mult_distrib2)
  also have "\<dots> = (p - q) * (p + q + 1)"
  proof -
    obtain d where "p = q + d" using assms(1) less_imp_add_positive by blast
    then show ?thesis by (simp add: algebra_simps)
  qed
  finally have "2 ^ Suc k dvd (p - q) * (p + q + 1)" by simp
  moreover have "odd (p - q) \<noteq> odd (p + q + 1)" using assms(1) by simp
  ultimately have "2 ^ Suc k dvd p - q \<or> 2 ^ Suc k dvd p + q + 1"
    by (rule pow2_dvd_mult_odd)
  then have "2 ^ Suc k \<le> p - q \<or> 2 ^ Suc k \<le> p + q + 1"
    using assms(1) by (auto dest: dvd_imp_le)
  then show False using assms(1,2) by auto
qed

lemma probe_inj:
  assumes "is_pow2 n"
  shows "inj_on (probe n h) {..<n}"
proof -
  obtain k where n: "n = 2 ^ k" using assms by (auto simp: is_pow2_def)
  show ?thesis
  proof (rule inj_onI)
    fix p q assume "p \<in> {..<n}" "q \<in> {..<n}" and e: "probe n h p = probe n h q"
    then have "p < 2 ^ k" "q < 2 ^ k" by (auto simp: n)
    then show "p = q"
      using probe_inj_aux [of p q k h] probe_inj_aux [of q p k h] e
      by (cases p q rule: linorder_cases) (auto simp: n)
  qed
qed

lemma probe_surj:
  assumes "is_pow2 n" and "i < n"
  shows "\<exists>p < n. probe n h p = i"
proof -
  have "probe n h ` {..<n} \<subseteq> {..<n}"
    using is_pow2_pos [OF assms(1)] by (auto intro: probe_less)
  then have "probe n h ` {..<n} = {..<n}"
    using probe_inj [OF assms(1)] endo_inj_surj [of "{..<n}"] by blast
  then have "i \<in> probe n h ` {..<n}" using assms(2) by blast
  then show ?thesis by auto
qed

lemma probe_step:
  assumes "is_pow2 n" and "n \<le> 2 ^ 31" and "p < n"
  shows "u32 (probe n h p + Suc p) AND (n - 1) = probe n h (Suc p)"
proof -
  have "probe n h p < n" using is_pow2_pos [OF assms(1)] by (rule probe_less)
  then have "probe n h p + Suc p < 2 ^ 32" using assms(2,3) by simp
  then have "u32 (probe n h p + Suc p) = probe n h p + Suc p" by (rule u32_id)
  then show ?thesis by (simp only: and_pow2_mod [OF assms(1)] probe_Suc)
qed


subsection \<open>Well-formed bucket arrays\<close>

definition valid_key :: "('k, 'v) policy \<Rightarrow> 'k \<Rightarrow> bool" where
  "valid_key P k \<longleftrightarrow> k \<noteq> emptyKey P \<and> k \<noteq> tombKey P"

definition slot :: "('k, 'v) policy \<Rightarrow> ('k \<times> 'v) list \<Rightarrow> 'k \<Rightarrow> nat \<Rightarrow> nat" where
  "slot P bs k p = probe (length bs) (getHashValue (keyInfo P) k) p"

text \<open>Bucket \<open>i\<close> can be reached by a probe for \<open>k\<close> that meets no empty bucket before it.\<close>

definition reaches :: "('k, 'v) policy \<Rightarrow> ('k \<times> 'v) list \<Rightarrow> 'k \<Rightarrow> nat \<Rightarrow> bool" where
  "reaches P bs k i \<longleftrightarrow>
     (\<exists>p < length bs. slot P bs k p = i \<and> (\<forall>q < p. fst (bs ! slot P bs k q) \<noteq> emptyKey P))"

definition free_slot :: "('k, 'v) policy \<Rightarrow> 'k \<times> 'v \<Rightarrow> bool" where
  "free_slot P b \<longleftrightarrow> \<not> valid_key P (fst b) \<or> isPurgeable P (snd b)"

definition table_ok :: "('k, 'v) policy \<Rightarrow> ('k \<times> 'v) list \<Rightarrow> bool" where
  "table_ok P bs \<longleftrightarrow>
     is_pow2 (length bs) \<and> length bs \<le> 2 ^ 31 \<and>
     (\<exists>i < length bs. fst (bs ! i) = emptyKey P) \<and>
     (\<forall>i < length bs. valid_key P (fst (bs ! i)) \<longrightarrow> reaches P bs (fst (bs ! i)) i) \<and>
     (\<forall>i < length bs. \<forall>j < length bs.
        valid_key P (fst (bs ! i)) \<and> fst (bs ! i) = fst (bs ! j) \<longrightarrow> i = j)"

text \<open>The finite map that a bucket array stores.\<close>

definition table_map :: "('k, 'v) policy \<Rightarrow> ('k \<times> 'v) list \<Rightarrow> 'k \<rightharpoonup> 'v" where
  "table_map P bs = map_of (filter (\<lambda>b. valid_key P (fst b)) bs)"

lemma table_okD:
  assumes "table_ok P bs"
  shows table_ok_pow2: "is_pow2 (length bs)"
    and table_ok_bound: "length bs \<le> 2 ^ 31"
    and table_ok_pos: "0 < length bs"
    and table_ok_empty: "\<exists>i < length bs. fst (bs ! i) = emptyKey P"
    and table_ok_reaches: "\<And>i. i < length bs \<Longrightarrow> valid_key P (fst (bs ! i))
                             \<Longrightarrow> reaches P bs (fst (bs ! i)) i"
    and table_ok_inj: "\<And>i j. i < length bs \<Longrightarrow> j < length bs \<Longrightarrow> valid_key P (fst (bs ! i))
                         \<Longrightarrow> fst (bs ! i) = fst (bs ! j) \<Longrightarrow> i = j"
  using assms is_pow2_pos unfolding table_ok_def by blast+

lemma table_map_Some_iff:
  assumes "\<And>i j. i < length bs \<Longrightarrow> j < length bs \<Longrightarrow> valid_key P (fst (bs ! i))
            \<Longrightarrow> fst (bs ! i) = fst (bs ! j) \<Longrightarrow> i = j"
  shows "table_map P bs k = Some v \<longleftrightarrow> valid_key P k \<and> (\<exists>i < length bs. bs ! i = (k, v))"
proof
  assume "table_map P bs k = Some v"
  then have "(k, v) \<in> set (filter (\<lambda>b. valid_key P (fst b)) bs)"
    unfolding table_map_def by (rule map_of_SomeD)
  then show "valid_key P k \<and> (\<exists>i < length bs. bs ! i = (k, v))"
    by (auto simp: in_set_conv_nth)
next
  assume r: "valid_key P k \<and> (\<exists>i < length bs. bs ! i = (k, v))"
  then obtain i where i: "i < length bs" "bs ! i = (k, v)" by blast
  then have "(k, v) \<in> set (filter (\<lambda>b. valid_key P (fst b)) bs)"
    using r nth_mem by fastforce
  then obtain w where w: "table_map P bs k = Some w"
    unfolding table_map_def by (metis weak_map_of_SomeI)
  then have "(k, w) \<in> set bs"
    unfolding table_map_def using map_of_SomeD by force
  then obtain j where "j < length bs" "bs ! j = (k, w)" by (auto simp: in_set_conv_nth)
  with assms [of i j] i r have "w = v" by auto
  with w show "table_map P bs k = Some v" by simp
qed

lemma table_map_iff:
  assumes "table_ok P bs"
  shows "table_map P bs k = Some v \<longleftrightarrow> valid_key P k \<and> (\<exists>i < length bs. bs ! i = (k, v))"
  by (rule table_map_Some_iff) (rule table_ok_inj [OF assms])

lemma table_map_None_iff:
  "table_map P bs k = None \<longleftrightarrow> \<not> (valid_key P k \<and> (\<exists>i < length bs. fst (bs ! i) = k))"
  unfolding table_map_def map_of_eq_None_iff by (force simp: in_set_conv_nth)

lemma table_map_nth:
  assumes "table_ok P bs" and "i < length bs" and "valid_key P (fst (bs ! i))"
  shows "table_map P bs (fst (bs ! i)) = Some (snd (bs ! i))"
  using assms(2,3) by (auto simp: table_map_iff [OF assms(1)])

lemma slot_less: "0 < length bs \<Longrightarrow> slot P bs k p < length bs"
  by (simp add: slot_def probe_less)

lemma slot_update [simp]: "slot P (bs[i := b]) k = slot P bs k"
  by (simp add: slot_def fun_eq_iff)

subsection \<open>Lookup\<close>

locale dense_table = key_info "keyInfo P" for P :: "('k, 'v) policy"
begin

lemma loop_step:
  assumes "is_pow2 (length bs)" and "length bs \<le> 2 ^ 31" and "p < length bs"
    and "fst (bs ! slot P bs k p) \<noteq> k" and "fst (bs ! slot P bs k p) \<noteq> emptyKey P"
  shows "LookupBucketFor_loop P bs (length bs) k (slot P bs k p) (Suc p) t =
    LookupBucketFor_loop P bs (length bs) k (slot P bs k (Suc p)) (Suc (Suc p))
      (if t = None \<and> free_slot P (bs ! slot P bs k p) then Some (slot P bs k p) else t)"
  using assms(3-) probe_step [OF assms(1-3), of "getHashValue (keyInfo P) k"]
  by (subst LookupBucketFor_loop.simps)
    (auto simp: Let_def slot_def free_slot_def valid_key_def)

lemma loop_found:
  assumes "is_pow2 (length bs)" and "length bs \<le> 2 ^ 31" and "e < length bs"
    and "fst (bs ! slot P bs k e) = k"
    and "\<And>q. q < e \<Longrightarrow> fst (bs ! slot P bs k q) \<noteq> k"
    and "\<And>q. q < e \<Longrightarrow> fst (bs ! slot P bs k q) \<noteq> emptyKey P"
    and "p \<le> e"
  shows "LookupBucketFor_loop P bs (length bs) k (slot P bs k p) (Suc p) t
       = Some (True, Some (slot P bs k e))"
  using assms(7)
proof (induction p arbitrary: t rule: inc_induct)
  case base
  show ?case using assms(4) by (subst LookupBucketFor_loop.simps) (simp add: Let_def)
next
  case (step p)
  have "p < length bs" using step.hyps assms(3) by simp
  with step show ?case
    using loop_step [OF assms(1,2), of p k t] assms(5,6) by simp
qed

lemma loop_absent:
  assumes "is_pow2 (length bs)" and "length bs \<le> 2 ^ 31" and "e < length bs"
    and "k \<noteq> emptyKey P" and "fst (bs ! slot P bs k e) = emptyKey P"
    and "\<And>q. q < e \<Longrightarrow> fst (bs ! slot P bs k q) \<noteq> k"
    and "\<And>q. q < e \<Longrightarrow> fst (bs ! slot P bs k q) \<noteq> emptyKey P"
    and "p \<le> e"
  shows "\<exists>b. LookupBucketFor_loop P bs (length bs) k (slot P bs k p) (Suc p) t = Some (False, Some b)
    \<and> (case t of Some b' \<Rightarrow> b = b'
       | None \<Rightarrow> (\<exists>q \<le> e. b = slot P bs k q \<and> free_slot P (bs ! b)))"
  using assms(8)
proof (induction p arbitrary: t rule: inc_induct)
  case base
  show ?case using assms(4,5)
    by (subst LookupBucketFor_loop.simps)
      (auto simp: Let_def free_slot_def valid_key_def split: option.splits)
next
  case (step p)
  let ?t = "if t = None \<and> free_slot P (bs ! slot P bs k p) then Some (slot P bs k p) else t"
  have "p < length bs" using step.hyps assms(3) by simp
  with step.hyps have e: "LookupBucketFor_loop P bs (length bs) k (slot P bs k p) (Suc p) t
      = LookupBucketFor_loop P bs (length bs) k (slot P bs k (Suc p)) (Suc (Suc p)) ?t"
    using loop_step [OF assms(1,2), of p k t] assms(6,7) by simp
  show ?case unfolding e using step.IH [of ?t] step.hyps
    by (auto split: option.splits if_splits intro: less_imp_le)
qed

text \<open>The outcome of a lookup, for a table with buckets.\<close>

lemma lookup_found:
  assumes ok: "table_ok P bs" and k: "table_map P bs k = Some v"
  shows "\<exists>i < length bs. bs ! i = (k, v) \<and>
    LookupBucketFor_loop P bs (length bs) k (slot P bs k 0) 1 None = Some (True, Some i)"
proof -
  from k obtain i where i: "i < length bs" "bs ! i = (k, v)" and v: "valid_key P k"
    by (auto simp: table_map_iff [OF ok])
  with table_ok_reaches [OF ok, of i] have "reaches P bs k i" by simp
  then obtain p where p: "p < length bs" "slot P bs k p = i"
      "\<forall>q < p. fst (bs ! slot P bs k q) \<noteq> emptyKey P"
    by (auto simp: reaches_def)
  have "fst (bs ! slot P bs k q) \<noteq> k" if "q < p" for q
  proof
    assume "fst (bs ! slot P bs k q) = k"
    then have "slot P bs k q = i"
      using table_ok_inj [OF ok, of "slot P bs k q" i] i v slot_less [OF table_ok_pos [OF ok]]
      by simp
    with p(1,2) that have "probe (length bs) (getHashValue (keyInfo P) k) p
        = probe (length bs) (getHashValue (keyInfo P) k) q" by (simp add: slot_def)
    with inj_onD [OF probe_inj [OF table_ok_pow2 [OF ok]]] p(1) that show False
      by (metis lessThan_iff less_trans nat_neq_iff)
  qed
  with loop_found [OF table_ok_pow2 [OF ok] table_ok_bound [OF ok] p(1), of k 0 None] p i
  show ?thesis by auto
qed

lemma first_empty:
  assumes "table_ok P bs"
  shows "\<exists>e < length bs. fst (bs ! slot P bs k e) = emptyKey P \<and>
           (\<forall>q < e. fst (bs ! slot P bs k q) \<noteq> emptyKey P)"
proof -
  let ?Q = "\<lambda>p. fst (bs ! slot P bs k p) = emptyKey P"
  obtain i where "i < length bs" "fst (bs ! i) = emptyKey P"
    using table_ok_empty [OF assms] by blast
  then obtain p where p: "p < length bs" "?Q p"
    using probe_surj [OF table_ok_pow2 [OF assms], of i "getHashValue (keyInfo P) k"]
    by (auto simp: slot_def)
  define e where "e = (LEAST p. ?Q p)"
  have "?Q e" and "e \<le> p" and "\<forall>q < e. \<not> ?Q q"
    unfolding e_def using p(2) by (auto intro: LeastI Least_le dest: not_less_Least)
  with p(1) show ?thesis by (intro exI [of _ e]) auto
qed

lemma lookup_absent:
  assumes ok: "table_ok P bs" and v: "valid_key P k" and k: "table_map P bs k = None"
  shows "\<exists>i < length bs. free_slot P (bs ! i) \<and> reaches P bs k i \<and>
    LookupBucketFor_loop P bs (length bs) k (slot P bs k 0) 1 None = Some (False, Some i)"
proof -
  obtain e where e: "e < length bs" "fst (bs ! slot P bs k e) = emptyKey P"
      "\<forall>q < e. fst (bs ! slot P bs k q) \<noteq> emptyKey P"
    using first_empty [OF ok] by blast
  have "fst (bs ! slot P bs k q) \<noteq> k" for q
    using k v slot_less [OF table_ok_pos [OF ok]] by (auto simp: table_map_None_iff)
  with loop_absent [OF table_ok_pow2 [OF ok] table_ok_bound [OF ok] e(1) _ e(2), of 0 None] e(3) v
  obtain b q where "LookupBucketFor_loop P bs (length bs) k (slot P bs k 0) 1 None
      = Some (False, Some b)" and "q \<le> e" "b = slot P bs k q" "free_slot P (bs ! b)"
    by (auto simp: valid_key_def)
  moreover from this e have "reaches P bs k b"
    unfolding reaches_def by (intro exI [of _ q]) simp
  moreover from \<open>b = slot P bs k q\<close> have "b < length bs"
    using slot_less [OF table_ok_pos [OF ok]] by simp
  ultimately show ?thesis by blast
qed

subsection \<open>Storing and burying\<close>

lemma reaches_update:
  assumes "reaches P bs k i" and "fst b \<noteq> emptyKey P"
  shows "reaches P (bs[j := b]) k i"
proof -
  obtain p where p: "p < length bs" "slot P bs k p = i"
      "\<forall>q < p. fst (bs ! slot P bs k q) \<noteq> emptyKey P"
    using assms(1) by (auto simp: reaches_def)
  then have "fst (bs[j := b] ! slot P bs k q) \<noteq> emptyKey P" if "q < p" for q
    using that assms(2) slot_less [of bs P k q] p(1,3)
    by (cases "slot P bs k q = j"; cases "bs = []") simp_all
  with p show ?thesis unfolding reaches_def by (intro exI [of _ p]) simp
qed

lemma table_ok_store:
  assumes ok: "table_ok P bs" and i: "i < length bs" and k: "valid_key P k"
    and new: "table_map P bs k = None" and re: "reaches P bs k i"
    and room: "\<exists>j < length bs. j \<noteq> i \<and> fst (bs ! j) = emptyKey P"
  shows "table_ok P (bs[i := (k, v)])"
    and "table_map P (bs[i := (k, v)]) = (table_map P bs)(fst (bs ! i) := None, k \<mapsto> v)"
proof -
  have ne: "fst (k, v) \<noteq> emptyKey P" using k by (simp add: valid_key_def)
  have no: "fst (bs ! j) \<noteq> k" if "j < length bs" for j
    using new k that by (auto simp: table_map_None_iff)
  show ok': "table_ok P (bs[i := (k, v)])"
    unfolding table_ok_def length_list_update
  proof (intro conjI allI impI)
    show "is_pow2 (length bs)" "length bs \<le> 2 ^ 31"
      by (rule table_ok_pow2 [OF ok], rule table_ok_bound [OF ok])
    show "\<exists>j < length bs. fst (bs[i := (k, v)] ! j) = emptyKey P"
      using room by (metis nth_list_update_neq)
  next
    fix j assume "j < length bs" and "valid_key P (fst (bs[i := (k, v)] ! j))"
    then show "reaches P (bs[i := (k, v)]) (fst (bs[i := (k, v)] ! j)) j"
      using reaches_update [OF re ne] reaches_update [OF table_ok_reaches [OF ok] ne] i
      by (cases "j = i") auto
  next
    fix j l assume "j < length bs" "l < length bs" and "valid_key P (fst (bs[i := (k, v)] ! j))
      \<and> fst (bs[i := (k, v)] ! j) = fst (bs[i := (k, v)] ! l)"
    then show "j = l"
      using no [of j] no [of l] table_ok_inj [OF ok, of j l] i
      by (cases "j = i"; cases "l = i") simp_all
  qed
  show "table_map P (bs[i := (k, v)]) = (table_map P bs)(fst (bs ! i) := None, k \<mapsto> v)"
  proof (rule ext, rule option_eqI, rule iffI)
    fix x w assume "table_map P (bs[i := (k, v)]) x = Some w"
    then obtain j where j: "j < length bs" "bs[i := (k, v)] ! j = (x, w)" "valid_key P x"
      by (auto simp: table_map_iff [OF ok'])
    show "((table_map P bs)(fst (bs ! i) := None, k \<mapsto> v)) x = Some w"
    proof (cases "j = i")
      case True
      with j i show ?thesis by simp
    next
      case False
      with j have bj: "bs ! j = (x, w)" by simp
      then have "x \<noteq> k" "x \<noteq> fst (bs ! i)"
        using no [OF j(1)] table_ok_inj [OF ok j(1) i] j(3) False by auto
      then show ?thesis using table_map_nth [OF ok j(1)] bj j(3) by simp
    qed
  next
    fix x w assume w: "((table_map P bs)(fst (bs ! i) := None, k \<mapsto> v)) x = Some w"
    show "table_map P (bs[i := (k, v)]) x = Some w"
    proof (cases "x = k")
      case True
      with w k i show ?thesis using table_map_nth [OF ok', of i] by simp
    next
      case False
      with w have "x \<noteq> fst (bs ! i)" "table_map P bs x = Some w" by (auto split: if_splits)
      then obtain j where "j < length bs" "j \<noteq> i" "bs ! j = (x, w)" "valid_key P x"
        by (auto simp: table_map_iff [OF ok]) (metis fst_conv)
      then show ?thesis by (auto simp: table_map_iff [OF ok'] intro!: exI [of _ j])
    qed
  qed
qed

lemma table_ok_bury:
  assumes ok: "table_ok P bs" and i: "i < length bs" and live: "valid_key P (fst (bs ! i))"
  shows "table_ok P (bs[i := (tombKey P, w)])"
    and "table_map P (bs[i := (tombKey P, w)]) = (table_map P bs)(fst (bs ! i) := None)"
proof -
  let ?bs = "bs[i := (tombKey P, w)]"
  have ne: "fst (tombKey P, w) \<noteq> emptyKey P"
    using reserved_keys_differ by (metis fst_conv)
  have tomb: "\<not> valid_key P (tombKey P)" by (simp add: valid_key_def)
  show ok': "table_ok P ?bs"
    unfolding table_ok_def length_list_update
  proof (intro conjI allI impI)
    show "is_pow2 (length bs)" "length bs \<le> 2 ^ 31"
      by (rule table_ok_pow2 [OF ok], rule table_ok_bound [OF ok])
    show "\<exists>j < length bs. fst (?bs ! j) = emptyKey P"
      using table_ok_empty [OF ok] live by (metis nth_list_update_neq valid_key_def)
  next
    fix j assume "j < length bs" and "valid_key P (fst (?bs ! j))"
    then show "reaches P ?bs (fst (?bs ! j)) j"
      using reaches_update [OF table_ok_reaches [OF ok] ne] i tomb
      by (cases "j = i") auto
  next
    fix j l assume "j < length bs" "l < length bs" and "valid_key P (fst (?bs ! j))
      \<and> fst (?bs ! j) = fst (?bs ! l)"
    then show "j = l"
      using tomb table_ok_inj [OF ok, of j l] i by (cases "j = i"; cases "l = i") simp_all
  qed
  show "table_map P ?bs = (table_map P bs)(fst (bs ! i) := None)"
  proof (rule ext, rule option_eqI, rule iffI)
    fix x u assume "table_map P ?bs x = Some u"
    then obtain j where j: "j < length bs" "?bs ! j = (x, u)" "valid_key P x"
      by (auto simp: table_map_iff [OF ok'])
    then have "j \<noteq> i" using i tomb by auto
    with j have bj: "bs ! j = (x, u)" by simp
    then have "x \<noteq> fst (bs ! i)"
      using table_ok_inj [OF ok j(1) i] j(3) \<open>j \<noteq> i\<close> by auto
    then show "((table_map P bs)(fst (bs ! i) := None)) x = Some u"
      using table_map_nth [OF ok j(1)] bj j(3) by simp
  next
    fix x u assume "((table_map P bs)(fst (bs ! i) := None)) x = Some u"
    then obtain j where "j < length bs" "j \<noteq> i" "bs ! j = (x, u)" "valid_key P x"
      by (auto simp: table_map_iff [OF ok] split: if_splits) (metis fst_conv)
    then show "table_map P ?bs x = Some u"
      by (auto simp: table_map_iff [OF ok'] intro!: exI [of _ j])
  qed
qed

text \<open>Writing the value of a live bucket in place, as through a reference.\<close>

lemma table_ok_set_value:
  assumes ok: "table_ok P bs" and i: "i < length bs" and live: "valid_key P (fst (bs ! i))"
  shows "table_ok P (bs[i := (fst (bs ! i), w)])"
    and "table_map P (bs[i := (fst (bs ! i), w)]) = (table_map P bs)(fst (bs ! i) \<mapsto> w)"
proof -
  let ?bs = "bs[i := (fst (bs ! i), w)]"
  have keys: "fst (?bs ! j) = fst (bs ! j)" if "j < length bs" for j
    using i that by (simp add: nth_list_update)
  have re: "reaches P ?bs k j \<longleftrightarrow> reaches P bs k j" for k j
    unfolding reaches_def length_list_update slot_update
    by (simp add: keys slot_less [OF table_ok_pos [OF ok]])
  show ok': "table_ok P ?bs"
    using ok keys re unfolding table_ok_def length_list_update by auto
  show "table_map P ?bs = (table_map P bs)(fst (bs ! i) \<mapsto> w)"
  proof (rule ext)
    fix x
    show "table_map P ?bs x = ((table_map P bs)(fst (bs ! i) \<mapsto> w)) x"
    proof (cases "x = fst (bs ! i)")
      case True
      with i live show ?thesis
        using table_map_nth [OF ok', of i] by simp
    next
      case False
      then have "bs ! j = (x, u) \<longleftrightarrow> ?bs ! j = (x, u)" if "j < length bs" for j u
        using i that by (auto simp: nth_list_update)
      then have "table_map P ?bs x = Some u \<longleftrightarrow> table_map P bs x = Some u" for u
        by (simp add: table_map_iff [OF ok] table_map_iff [OF ok'] cong: conj_cong)
      with False show ?thesis by (metis fun_upd_other not_Some_eq)
    qed
  qed
qed

lemma table_ok_all_empty:
  assumes "is_pow2 (length bs)" and "length bs \<le> 2 ^ 31"
    and "\<And>i. i < length bs \<Longrightarrow> fst (bs ! i) = emptyKey P"
  shows "table_ok P bs" and "table_map P bs = Map.empty"
  using assms is_pow2_pos [OF assms(1)]
  by (auto simp: table_ok_def valid_key_def table_map_None_iff fun_eq_iff)

end

end
