(* ===== verification/DenseMapProofs.thy ===== *)
theory DenseMapProofs
  imports DenseMapTable
begin

text \<open>
  Correctness of \<open>DenseMap\<close>: the representation invariant, the finite map a table stands
  for, and for every operation that it returns, keeps the invariant and acts on that map as
  an update. Insertions and rehashes may drop purgeable entries, which \<open>purge_le\<close> records;
  with no purgeable values, and in the view that reads an absent key as the default value,
  the updates are exact.
\<close>

subsection \<open>Invariant and abstraction\<close>

definition dm_inv :: "('k, 'v) policy \<Rightarrow> ('k, 'v) DenseMap \<Rightarrow> bool" where
  "dm_inv P m \<longleftrightarrow>
     length (Buckets m) = NumBuckets m \<and>
     NumEntries m = length (filter (\<lambda>b. valid_key P (fst b)) (Buckets m)) \<and>
     NumTombstones m = length (filter (\<lambda>b. fst b = tombKey P) (Buckets m)) \<and>
     (NumBuckets m \<noteq> 0 \<longrightarrow> table_ok P (Buckets m))"

definition dm_map :: "('k, 'v) policy \<Rightarrow> ('k, 'v) DenseMap \<Rightarrow> 'k \<rightharpoonup> 'v" where
  "dm_map P m = table_map P (Buckets m)"

definition purged :: "('k, 'v) policy \<Rightarrow> ('k \<rightharpoonup> 'v) \<Rightarrow> 'k \<rightharpoonup> 'v" where
  "purged P f = (\<lambda>k. case f k of None \<Rightarrow> None | Some v \<Rightarrow> if isPurgeable P v then None else Some v)"

definition purge_le :: "('k, 'v) policy \<Rightarrow> ('k \<rightharpoonup> 'v) \<Rightarrow> ('k \<rightharpoonup> 'v) \<Rightarrow> bool" where
  "purge_le P f g \<longleftrightarrow>
     (\<forall>k. g k = f k \<or> (g k = None \<and> (\<exists>v. f k = Some v \<and> isPurgeable P v)))"

text \<open>A table without tombstones and purgeable entries, as rehashing builds it.\<close>

definition dm_clean :: "('k, 'v) policy \<Rightarrow> ('k, 'v) DenseMap \<Rightarrow> bool" where
  "dm_clean P m \<longleftrightarrow> NumTombstones m = 0 \<and>
     (\<forall>b \<in> set (Buckets m). valid_key P (fst b) \<longrightarrow> \<not> isPurgeable P (snd b))"

lemma purge_le_refl [simp]: "purge_le P f f"
  by (simp add: purge_le_def)

lemma purge_le_trans: "purge_le P f g \<Longrightarrow> purge_le P g h \<Longrightarrow> purge_le P f h"
  unfolding purge_le_def by metis

lemma purge_le_purged: "purge_le P f (purged P f)"
  by (auto simp: purge_le_def purged_def split: option.splits)

lemma purge_le_upd: "purge_le P f g \<Longrightarrow> purge_le P (f(k := x)) (g(k := x))"
  unfolding purge_le_def by simp

lemma purge_le_exact: "(\<And>v. \<not> isPurgeable P v) \<Longrightarrow> purge_le P f g \<longleftrightarrow> g = f"
  by (auto simp: purge_le_def fun_eq_iff)

lemma purge_le_default:
  assumes "purge_le P f g" and "\<And>v. isPurgeable P v \<Longrightarrow> v = d"
  shows "(case g k of None \<Rightarrow> d | Some v \<Rightarrow> v) = (case f k of None \<Rightarrow> d | Some v \<Rightarrow> v)"
  using assms unfolding purge_le_def by (metis option.case)

text \<open>A bucket is live, a tombstone or empty.\<close>

lemma bucket_count:
  assumes "getEmptyKey (keyInfo P) \<noteq> getTombstoneKey (keyInfo P)"
  shows "length (filter (\<lambda>b. valid_key P (fst b)) bs) + length (filter (\<lambda>b. fst b = tombKey P) bs)
       + length (filter (\<lambda>b. fst b = emptyKey P) bs) = length bs"
  using assms by (induction bs) (auto simp: valid_key_def)

lemma distinct_map_filter_nth:
  assumes "\<And>i j. i < length xs \<Longrightarrow> j < length xs \<Longrightarrow> P (xs ! i) \<Longrightarrow> f (xs ! i) = f (xs ! j) \<Longrightarrow> i = j"
  shows "distinct (map f (filter P xs))"
  using assms
proof (induction xs)
  case Nil
  then show ?case by simp
next
  case (Cons x xs)
  have "distinct (map f (filter P xs))"
  proof (rule Cons.IH)
    fix i j assume "i < length xs" "j < length xs" "P (xs ! i)" "f (xs ! i) = f (xs ! j)"
    with Cons.prems [of "Suc i" "Suc j"] show "i = j" by simp
  qed
  moreover have "f x \<noteq> f y" if "P x" "y \<in> set xs" for y
  proof
    assume e: "f x = f y"
    from that(2) obtain j where "j < length xs" "xs ! j = y" by (auto simp: in_set_conv_nth)
    with Cons.prems [of 0 "Suc j"] e that(1) show False by simp
  qed
  ultimately show ?case by auto
qed

lemma distinct_live:
  "table_ok P bs \<Longrightarrow> distinct (map fst (filter (\<lambda>b. valid_key P (fst b)) bs))"
  by (rule distinct_map_filter_nth) (rule table_ok_inj)

lemma map_of_filter_value:
  assumes "distinct (map fst xs)"
  shows "map_of (filter (\<lambda>b. Q (snd b)) xs) k
       = (case map_of xs k of None \<Rightarrow> None | Some v \<Rightarrow> if Q v then Some v else None)"
  using assms
proof (induction xs)
  case (Cons x xs)
  have "fst x \<notin> fst ` set (filter (\<lambda>b. Q (snd b)) xs)" using Cons.prems by auto
  then have "map_of (filter (\<lambda>b. Q (snd b)) xs) (fst x) = None"
    by (simp only: map_of_eq_None_iff simp_thms)
  then show ?case using Cons by auto
qed simp

lemma purged_table_map:
  assumes "table_ok P bs"
  shows "purged P (table_map P bs)
       = map_of (filter (\<lambda>b. valid_key P (fst b) \<and> \<not> isPurgeable P (snd b)) bs)"
proof
  fix k
  have "filter (\<lambda>b. valid_key P (fst b) \<and> \<not> isPurgeable P (snd b)) bs
      = filter (\<lambda>b. \<not> isPurgeable P (snd b)) (filter (\<lambda>b. valid_key P (fst b)) bs)"
    by (simp add: conj_commute)
  then show "purged P (table_map P bs) k
      = map_of (filter (\<lambda>b. valid_key P (fst b) \<and> \<not> isPurgeable P (snd b)) bs) k"
    using map_of_filter_value [OF distinct_live [OF assms], of "\<lambda>v. \<not> isPurgeable P v" k]
    by (simp add: purged_def table_map_def split: option.splits)
qed

lemma dm_invD:
  assumes "dm_inv P m"
  shows dm_inv_length: "length (Buckets m) = NumBuckets m"
    and dm_inv_entries: "NumEntries m = length (filter (\<lambda>b. valid_key P (fst b)) (Buckets m))"
    and dm_inv_tombs: "NumTombstones m = length (filter (\<lambda>b. fst b = tombKey P) (Buckets m))"
    and dm_inv_table: "NumBuckets m \<noteq> 0 \<Longrightarrow> table_ok P (Buckets m)"
  using assms by (auto simp: dm_inv_def)

lemma dm_inv_bound: "dm_inv P m \<Longrightarrow> NumBuckets m \<le> 2 ^ 31"
  using dm_inv_table table_ok_bound dm_inv_length by (cases "NumBuckets m = 0") fastforce+

lemma dm_inv_NumEntries:
  assumes "dm_inv P m"
  shows "NumEntries m = card (dom (dm_map P m))"
proof (cases "NumBuckets m = 0")
  case True
  with assms show ?thesis by (simp add: dm_inv_def dm_map_def table_map_def)
next
  case False
  let ?xs = "filter (\<lambda>b. valid_key P (fst b)) (Buckets m)"
  have "distinct (map fst ?xs)" using distinct_live dm_inv_table [OF assms False] by blast
  then have "card (fst ` set ?xs) = length (map fst ?xs)"
    using distinct_card by (metis set_map)
  then show ?thesis
    using dm_inv_entries [OF assms] by (simp add: dm_map_def table_map_def dom_map_of_conv_image_fst)
qed

lemma dm_inv_0: "dm_inv P m \<Longrightarrow> NumBuckets m = 0 \<Longrightarrow> dm_map P m = Map.empty"
  by (simp add: dm_inv_def dm_map_def table_map_def)

context dense_table
begin

lemma NumEntries_room:
  assumes "dm_inv P m" and "NumBuckets m \<noteq> 0"
  shows "NumEntries m + NumTombstones m < NumBuckets m"
proof -
  have "\<exists>i < length (Buckets m). fst (Buckets m ! i) = emptyKey P"
    using table_ok_empty dm_inv_table [OF assms] by blast
  then have "0 < length (filter (\<lambda>b. fst b = emptyKey P) (Buckets m))"
    using length_filter_pos [of _ "Buckets m" "\<lambda>b. fst b = emptyKey P"] by blast
  then show ?thesis
    using bucket_count [OF reserved_keys_differ, of "Buckets m"] dm_inv_length [OF assms(1)]
      dm_inv_entries [OF assms(1)] dm_inv_tombs [OF assms(1)] by linarith
qed

lemma LookupBucketFor_eq:
  assumes "dm_inv P m" and "NumBuckets m \<noteq> 0"
  shows "LookupBucketFor P m k =
    LookupBucketFor_loop P (Buckets m) (length (Buckets m)) k (slot P (Buckets m) k 0) 1 None"
  using assms table_ok_pow2 [OF dm_inv_table [OF assms]] dm_inv_length [OF assms(1)]
  by (simp add: LookupBucketFor_def slot_def probe_0 and_pow2_mod [simplified])

lemma lookup_present:
  assumes "dm_inv P m" and "dm_map P m k = Some v"
  shows "\<exists>i < NumBuckets m. Buckets m ! i = (k, v) \<and> LookupBucketFor P m k = Some (True, Some i)"
proof -
  have n: "NumBuckets m \<noteq> 0" using assms dm_inv_0 by fastforce
  show ?thesis
    using lookup_found [OF dm_inv_table [OF assms(1) n], of k v] assms
    by (simp add: LookupBucketFor_eq [OF assms(1) n] dm_map_def dm_inv_length [OF assms(1), symmetric])
qed

lemma lookup_missing:
  assumes "dm_inv P m" and "dm_map P m k = None" and "valid_key P k"
  shows "NumBuckets m = 0 \<and> LookupBucketFor P m k = Some (False, None) \<or>
    (\<exists>i < NumBuckets m. free_slot P (Buckets m ! i) \<and> reaches P (Buckets m) k i \<and>
       LookupBucketFor P m k = Some (False, Some i))"
proof (cases "NumBuckets m = 0")
  case True
  then show ?thesis by (simp add: LookupBucketFor_def)
next
  case n: False
  show ?thesis
    using lookup_absent [OF dm_inv_table [OF assms(1) n] assms(3)] assms n
    by (simp add: LookupBucketFor_eq [OF assms(1) n] dm_map_def dm_inv_length [OF assms(1), symmetric])
qed

subsection \<open>Storing an entry with the accounting of the code\<close>

lemma store_room:
  assumes "dm_inv P m" and "i < NumBuckets m"
    and "fst (Buckets m ! i) = emptyKey P \<longrightarrow> NumEntries m + 1 + NumTombstones m < NumBuckets m"
  shows "\<exists>j < length (Buckets m). j \<noteq> i \<and> fst (Buckets m ! j) = emptyKey P"
proof (cases "fst (Buckets m ! i) = emptyKey P")
  case True
  let ?E = "\<lambda>b. fst b = emptyKey P"
  have i: "i < length (Buckets m)" using assms(1,2) dm_inv_length by metis
  have "1 < length (filter ?E (Buckets m))"
    using bucket_count [OF reserved_keys_differ, of "Buckets m"] dm_invD [OF assms(1)]
      assms(3) True by simp
  moreover have "length (filter ?E ((Buckets m)[i := (tombKey P, undefined)])) + 1
      = length (filter ?E (Buckets m))"
    using length_filter_update [OF i, of ?E "(tombKey P, undefined)"] True
      not_sym [OF reserved_keys_differ] by simp
  ultimately have "0 < length (filter ?E ((Buckets m)[i := (tombKey P, undefined)]))" by linarith
  then obtain b where "b \<in> set ((Buckets m)[i := (tombKey P, undefined)])" "?E b"
    by (auto simp: filter_empty_conv)
  then obtain j where "j < length (Buckets m)" "?E ((Buckets m)[i := (tombKey P, undefined)] ! j)"
    by (auto simp: in_set_conv_nth)
  then show ?thesis using i not_sym [OF reserved_keys_differ]
    by (intro exI [of _ j]) (auto simp: nth_list_update split: if_splits)
next
  case False
  have "NumBuckets m \<noteq> 0" using assms(2) by simp
  then show ?thesis using table_ok_empty [OF dm_inv_table [OF assms(1)]] False by metis
qed

text \<open>
  \<open>InsertIntoBucketImpl\<close> ends by adjusting the counters for the bucket it is about to
  overwrite; \<open>account\<close> is that adjustment.
\<close>

lemma store_entry:
  defines "account m b \<equiv>
    (if fst (Buckets m ! b) = emptyKey P then incrementNumEntries m
     else if fst (Buckets m ! b) = tombKey P then decrementNumTombstones (incrementNumEntries m)
     else m)"
  assumes inv: "dm_inv P m" and i: "i < NumBuckets m" and k: "valid_key P k"
    and new: "dm_map P m k = None" and re: "reaches P (Buckets m) k i"
    and room: "fst (Buckets m ! i) = emptyKey P \<longrightarrow> NumEntries m + 1 + NumTombstones m < NumBuckets m"
  shows "dm_inv P ((account m i)\<lparr>Buckets := (Buckets m)[i := (k, v)]\<rparr>)"
    and "dm_map P ((account m i)\<lparr>Buckets := (Buckets m)[i := (k, v)]\<rparr>)
       = (dm_map P m)(fst (Buckets m ! i) := None, k \<mapsto> v)"
    and "Buckets (account m i) = Buckets m"
    and "NumBuckets (account m i) = NumBuckets m"
proof -
  let ?bs = "Buckets m"
  have n: "NumBuckets m \<noteq> 0" using i by simp
  have len: "length ?bs = NumBuckets m" using inv by (rule dm_inv_length)
  have i': "i < length ?bs" using i len by simp
  have tbl: "table_ok P ?bs" using inv n by (rule dm_inv_table)
  have st: "table_ok P (?bs[i := (k, v)])"
    "table_map P (?bs[i := (k, v)]) = (table_map P ?bs)(fst (?bs ! i) := None, k \<mapsto> v)"
    using table_ok_store [OF tbl i' k _ re store_room [OF inv i room]] new
    by (simp_all add: dm_map_def)
  show B: "Buckets (account m i) = Buckets m" and N: "NumBuckets (account m i) = NumBuckets m"
    by (simp_all add: account_def incrementNumEntries_def decrementNumTombstones_def)
  show "dm_map P ((account m i)\<lparr>Buckets := (Buckets m)[i := (k, v)]\<rparr>)
      = (dm_map P m)(fst (Buckets m ! i) := None, k \<mapsto> v)"
    using st(2) by (simp add: dm_map_def)
  have sz: "NumEntries m + NumTombstones m < NumBuckets m" "NumBuckets m \<le> 2 ^ 31"
    using NumEntries_room [OF inv n] dm_inv_bound [OF inv] by auto
  have live: "length (filter (\<lambda>b. valid_key P (fst b)) (?bs[i := (k, v)]))
      + (if valid_key P (fst (?bs ! i)) then 1 else 0) = NumEntries m + 1"
    using length_filter_update [OF i', of "\<lambda>b. valid_key P (fst b)" "(k, v)"] k
      dm_inv_entries [OF inv] by simp
  have tomb: "length (filter (\<lambda>b. fst b = tombKey P) (?bs[i := (k, v)]))
      + (if fst (?bs ! i) = tombKey P then 1 else 0) = NumTombstones m"
    using length_filter_update [OF i', of "\<lambda>b. fst b = tombKey P" "(k, v)"] k
      dm_inv_tombs [OF inv] by (simp add: valid_key_def)
  have ent: "u32 (NumEntries m + 1) = NumEntries m + 1"
    using sz by (intro u32_id) simp
  have dec: "fst (?bs ! i) = tombKey P \<Longrightarrow> u32_sub (NumTombstones m) 1 = NumTombstones m - 1"
    using sz tomb by (intro u32_sub_id) auto
  show "dm_inv P ((account m i)\<lparr>Buckets := (Buckets m)[i := (k, v)]\<rparr>)"
    using live tomb ent dec st(1) len
    by (auto simp: dm_inv_def account_def incrementNumEntries_def decrementNumTombstones_def
        valid_key_def split: if_splits)
qed

subsection \<open>Construction and rehashing\<close>

lemma initEmpty_inv:
  assumes "length (Buckets m) = NumBuckets m" and "is_pow2 (NumBuckets m)" and "NumBuckets m \<le> 2 ^ 31"
  shows "dm_inv P (initEmpty P m)" and "dm_map P (initEmpty P m) = Map.empty"
    and "NumBuckets (initEmpty P m) = NumBuckets m" and "NumTombstones (initEmpty P m) = 0"
proof -
  let ?bs = "map (\<lambda>(_, v). (emptyKey P, v)) (Buckets m)"
  have e: "fst b = emptyKey P" if "b \<in> set ?bs" for b using that by auto
  then have "filter (\<lambda>b. valid_key P (fst b)) ?bs = []" "filter (\<lambda>b. fst b = tombKey P) ?bs = []"
    by (simp_all only: filter_empty_conv valid_key_def) auto
  moreover have "table_ok P ?bs" "table_map P ?bs = Map.empty"
    using assms by (auto intro!: table_ok_all_empty simp: case_prod_beta)
  ultimately show "dm_inv P (initEmpty P m)" "dm_map P (initEmpty P m) = Map.empty"
    "NumBuckets (initEmpty P m) = NumBuckets m" "NumTombstones (initEmpty P m) = 0"
    using assms(1) by (simp_all add: initEmpty_def dm_inv_def dm_map_def)
qed

lemma empty_inv:
  assumes "Buckets m = []" and "NumEntries m = 0" and "NumTombstones m = 0" and "NumBuckets m = 0"
  shows "dm_inv P m" and "dm_map P m = Map.empty"
  using assms by (auto simp: dm_inv_def dm_map_def table_map_def)

lemma clean_free_slot:
  assumes "dm_inv P m" and "dm_clean P m" and "i < NumBuckets m" and "free_slot P (Buckets m ! i)"
  shows "fst (Buckets m ! i) = emptyKey P"
proof -
  have i: "i < length (Buckets m)" using assms dm_inv_length by metis
  then have "Buckets m ! i \<in> set (Buckets m)" by simp
  moreover have "fst (Buckets m ! i) \<noteq> tombKey P"
    using length_filter_pos [OF i, of "\<lambda>b. fst b = tombKey P"] dm_inv_tombs [OF assms(1)] assms(2)
    by (auto simp: dm_clean_def)
  ultimately show ?thesis using assms(2,4) by (auto simp: dm_clean_def free_slot_def valid_key_def)
qed

lemma move_bucket_spec:
  assumes inv: "dm_inv P m" and c: "dm_clean P m" and n: "NumEntries m + 1 < NumBuckets m"
    and b: "valid_key P (fst B)" "\<not> isPurgeable P (snd B)" and new: "dm_map P m (fst B) = None"
  shows "\<exists>m'. move_bucket P B m = Some m' \<and> dm_inv P m' \<and> dm_clean P m' \<and>
    NumBuckets m' = NumBuckets m \<and> NumEntries m' = NumEntries m + 1 \<and>
    dm_map P m' = (dm_map P m)(fst B \<mapsto> snd B)"
proof -
  have nz: "NumBuckets m \<noteq> 0" using n by simp
  obtain i where i: "i < NumBuckets m" "free_slot P (Buckets m ! i)" "reaches P (Buckets m) (fst B) i"
      "LookupBucketFor P m (fst B) = Some (False, Some i)"
    using lookup_missing [OF inv new b(1)] nz by blast
  have e: "fst (Buckets m ! i) = emptyKey P" using clean_free_slot [OF inv c i(1,2)] .
  let ?m = "incrementNumEntries (m\<lparr>Buckets := (Buckets m)[i := B]\<rparr>)"
  have eq: "?m = (incrementNumEntries m)\<lparr>Buckets := (Buckets m)[i := (fst B, snd B)]\<rparr>"
    by (simp add: incrementNumEntries_def)
  have t0: "NumTombstones m = 0" using c by (simp add: dm_clean_def)
  have st: "dm_inv P ?m" "dm_map P ?m = (dm_map P m)(emptyKey P := None, fst B \<mapsto> snd B)"
    using store_entry(1,2) [OF inv i(1) b(1) new i(3), where v = "snd B"] e n t0
    unfolding eq by simp_all
  have "dm_map P m (emptyKey P) = None"
    by (simp add: dm_map_def table_map_None_iff valid_key_def)
  then have "dm_map P ?m = (dm_map P m)(fst B \<mapsto> snd B)"
    unfolding st(2) by (simp add: fun_upd_idem)
  moreover have "dm_clean P ?m"
    using c b unfolding dm_clean_def
    by (auto simp: incrementNumEntries_def dest!: set_update_subset_insert [THEN subsetD])
  moreover have "move_bucket P B m = Some ?m"
    using b i(4) by (simp add: move_bucket_def valid_key_def)
  moreover have "NumEntries ?m = NumEntries m + 1"
    using n dm_inv_bound [OF inv] by (simp add: incrementNumEntries_def u32_id)
  moreover have "NumBuckets ?m = NumBuckets m" by (simp add: incrementNumEntries_def)
  ultimately show ?thesis using st(1) by blast
qed

lemma move_bucket_skip:
  "\<not> (valid_key P (fst B) \<and> \<not> isPurgeable P (snd B)) \<Longrightarrow> move_bucket P B m = Some m"
  by (auto simp: move_bucket_def valid_key_def)

lemma move_buckets_spec:
  defines "keep \<equiv> \<lambda>b. valid_key P (fst b) \<and> \<not> isPurgeable P (snd b)"
  assumes "dm_inv P m" and "dm_clean P m" and "NumEntries m + length (filter keep Bs) < NumBuckets m"
    and "distinct (map fst (filter keep Bs))"
    and "\<And>b. b \<in> set (filter keep Bs) \<Longrightarrow> dm_map P m (fst b) = None"
  shows "\<exists>m'. move_buckets P Bs m = Some m' \<and> dm_inv P m' \<and> dm_clean P m' \<and>
    NumBuckets m' = NumBuckets m \<and> dm_map P m' = dm_map P m ++ map_of (filter keep Bs)"
  using assms(2-)
proof (induction Bs arbitrary: m)
  case Nil
  then show ?case by simp
next
  case (Cons B Bs)
  show ?case
  proof (cases "keep B")
    case False
    then have "move_bucket P B m = Some m" by (intro move_bucket_skip) (simp add: keep_def)
    with Cons.IH [of m] Cons.prems False show ?thesis by simp
  next
    case True
    then have "NumEntries m + 1 < NumBuckets m" and "valid_key P (fst B)" "\<not> isPurgeable P (snd B)"
      and "dm_map P m (fst B) = None"
      using Cons.prems by (simp_all add: keep_def)
    then obtain m1 where m1: "move_bucket P B m = Some m1" "dm_inv P m1" "dm_clean P m1"
        "NumBuckets m1 = NumBuckets m" "NumEntries m1 = NumEntries m + 1"
        "dm_map P m1 = (dm_map P m)(fst B \<mapsto> snd B)"
      using move_bucket_spec [OF Cons.prems(1,2)] by blast
    have "\<exists>m'. move_buckets P Bs m1 = Some m' \<and> dm_inv P m' \<and> dm_clean P m' \<and>
        NumBuckets m' = NumBuckets m1 \<and> dm_map P m' = dm_map P m1 ++ map_of (filter keep Bs)"
      using Cons.prems True m1 by (intro Cons.IH) (auto simp: m1(6) image_iff)
    moreover have "fst B \<notin> dom (map_of (filter keep Bs))"
      using Cons.prems(4) True by (auto simp: dom_map_of_conv_image_fst)
    then have "dm_map P m1 ++ map_of (filter keep Bs) = dm_map P m ++ map_of (filter keep (B # Bs))"
      using True by (cases B) (simp add: m1(6) map_add_upd_left)
    ultimately show ?thesis using m1(1,4) by simp
  qed
qed

text \<open>The bucket count that \<open>grow\<close> computes.\<close>

lemma grow_size_0: "max MIN_BUCKETS (unat (NextPowerOf2_32 (word_of_nat (u32_sub 0 1)))) = 4"
proof -
  have "(word_of_nat (u32_sub 0 1) :: u32w) = -1" by (simp add: u32_sub_def)
  moreover have "top_bit (-1 :: u32w) 31"
    by (simp add: top_bit_def unsigned_minus_1_eq_mask mask_eq_exp_minus_1)
  ultimately show ?thesis using NextPowerOf2_32_top_bit [of "-1" 31] by (simp add: MIN_BUCKETS_def)
qed

lemma grow_size:
  assumes "0 < a" and "a \<le> 2 ^ 31"
  defines "r \<equiv> max MIN_BUCKETS (unat (NextPowerOf2_32 (word_of_nat (u32_sub a 1))))"
  shows "is_pow2 r" and "a \<le> r" and "r \<le> 2 ^ 31" and "is_pow2 a \<Longrightarrow> r \<le> max 4 a"
proof -
  let ?A = "word_of_nat (u32_sub a 1) :: u32w"
  have s: "u32_sub a 1 = a - 1" using assms by (intro u32_sub_id) auto
  have u: "unat ?A = a - 1" unfolding s using assms(1,2) by (intro unat_of_nat_u32) simp
  then have "unat ?A < 2 ^ (LENGTH(32) - 1)" using assms by simp
  then have npo: "is_pow2 (unat (NextPowerOf2_32 ?A))" "a - 1 < unat (NextPowerOf2_32 ?A)"
    "\<And>p. is_pow2 p \<Longrightarrow> a - 1 < p \<Longrightarrow> unat (NextPowerOf2_32 ?A) \<le> p"
    using next_power_least [of NextPowerOf2_32 ?A, OF _ NextPowerOf2_32_top_bit] u
    by (auto simp: NextPowerOf2_32_def [of 0])
  show "is_pow2 r" using npo(1) is_pow2_4 unfolding r_def MIN_BUCKETS_def max_def by presburger
  show "a \<le> r" using npo(2) assms(1) unfolding r_def by linarith
  show "r \<le> 2 ^ 31" using npo(3) [OF is_pow2_power [of 31]] assms(1,2) unfolding r_def MIN_BUCKETS_def by simp
  show "r \<le> max 4 a" if "is_pow2 a"
    using npo(3) [OF that] assms(1) unfolding r_def MIN_BUCKETS_def by simp
qed

lemma dm_grow_spec:
  assumes inv: "dm_inv P m"
    and n: "N = max MIN_BUCKETS (unat (NextPowerOf2_32 (word_of_nat (u32_sub AtLeast 1))))"
      "is_pow2 N" "N \<le> 2 ^ 31" "NumEntries m < N"
  shows "\<exists>m'. dm_grow P AtLeast m = Some m' \<and> dm_inv P m' \<and> dm_clean P m' \<and>
    NumBuckets m' = N \<and> dm_map P m' = purged P (dm_map P m)"
proof -
  let ?m1 = "snd (allocateBuckets P N m)"
  have "0 < N" using n(2) by (rule is_pow2_pos)
  then have m1: "length (Buckets ?m1) = N" "NumBuckets ?m1 = N"
    by (simp_all add: allocateBuckets_def Let_def)
  have i1: "dm_inv P (initEmpty P ?m1)" "dm_map P (initEmpty P ?m1) = Map.empty"
    "NumBuckets (initEmpty P ?m1) = N" "NumTombstones (initEmpty P ?m1) = 0"
    using initEmpty_inv [of ?m1] m1 n(2,3) by simp_all
  have c1: "dm_clean P (initEmpty P ?m1)"
    using i1(4) by (auto simp: dm_clean_def initEmpty_def valid_key_def)
  show ?thesis
  proof (cases "Buckets m = []")
    case True
    then have "dm_map P m = Map.empty" by (simp add: dm_map_def table_map_def)
    then show ?thesis using True i1 c1 n(1) by (auto simp: dm_grow_def Let_def purged_def)
  next
    case False
    then have nz: "NumBuckets m \<noteq> 0" using dm_inv_length [OF inv] by (metis length_0_conv)
    let ?keep = "\<lambda>b. valid_key P (fst b) \<and> \<not> isPurgeable P (snd b)"
    have tbl: "table_ok P (Buckets m)" using inv nz by (rule dm_inv_table)
    have len: "length (filter ?keep (Buckets m)) < N"
    proof -
      have "length (filter ?keep (Buckets m)) \<le> NumEntries m"
        unfolding dm_inv_entries [OF inv]
        using length_filter_le [of "\<lambda>b. \<not> isPurgeable P (snd b)"
            "filter (\<lambda>b. valid_key P (fst b)) (Buckets m)"]
        by (simp add: conj_commute)
      then show ?thesis using n(4) by simp
    qed
    have "distinct (map fst (filter ?keep (Buckets m)))"
      by (rule distinct_map_filter_nth) (use table_ok_inj [OF tbl] in blast)
    then have "\<exists>m'. move_buckets P (Buckets m) (initEmpty P ?m1) = Some m' \<and> dm_inv P m' \<and>
        dm_clean P m' \<and> NumBuckets m' = NumBuckets (initEmpty P ?m1) \<and>
        dm_map P m' = dm_map P (initEmpty P ?m1) ++ map_of (filter ?keep (Buckets m))"
      using i1 c1 len by (intro move_buckets_spec) (auto simp: initEmpty_def)
    moreover have "dm_grow P AtLeast m = move_buckets P (Buckets m) (initEmpty P ?m1)"
      using False n(1) by (simp add: dm_grow_def moveFromOldBuckets_def Let_def)
    ultimately show ?thesis
      using i1(2,3) purged_table_map [OF tbl] by (simp add: dm_map_def)
  qed
qed

lemma dm_grow_double:
  assumes "dm_inv P m" and "NumBuckets m < 2 ^ 30"
  shows "\<exists>m'. dm_grow P (u32 (NumBuckets m * 2)) m = Some m' \<and> dm_inv P m' \<and> dm_clean P m' \<and>
    NumBuckets m' = max 4 (NumBuckets m * 2) \<and> dm_map P m' = purged P (dm_map P m)"
proof (cases "NumBuckets m = 0")
  case True
  then have "NumEntries m < 4" using assms(1) by (simp add: dm_inv_def)
  then show ?thesis
    using dm_grow_spec [OF assms(1), of 4 0] grow_size_0 True by (simp add: u32_def)
next
  case False
  let ?a = "NumBuckets m * 2"
  have p: "is_pow2 ?a"
    using table_ok_pow2 [OF dm_inv_table [OF assms(1) False]] dm_inv_length [OF assms(1)]
    by (simp add: is_pow2_double)
  have u: "u32 ?a = ?a" using assms(2) by (intro u32_id) simp
  have a: "0 < ?a" "?a \<le> 2 ^ 31" using False assms(2) by simp_all
  have r: "max MIN_BUCKETS (unat (NextPowerOf2_32 (word_of_nat (u32_sub ?a 1)))) = max 4 ?a"
    using grow_size(2,4) [OF a] p by (auto simp: MIN_BUCKETS_def)
  have "NumEntries m < max 4 ?a" using NumEntries_room [OF assms(1) False] by simp
  then show ?thesis
    using dm_grow_spec [OF assms(1), of "max 4 ?a" ?a] grow_size(1,3) [OF a] r u by simp
qed

lemma dm_grow_same:
  assumes "dm_inv P m" and "NumBuckets m \<noteq> 0"
  shows "\<exists>m'. dm_grow P (NumBuckets m) m = Some m' \<and> dm_inv P m' \<and> dm_clean P m' \<and>
    NumBuckets m' = max 4 (NumBuckets m) \<and> dm_map P m' = purged P (dm_map P m)"
proof -
  let ?a = "NumBuckets m"
  have p: "is_pow2 ?a"
    using table_ok_pow2 [OF dm_inv_table [OF assms]] dm_inv_length [OF assms(1)] by simp
  have a: "0 < ?a" "?a \<le> 2 ^ 31" using assms dm_inv_bound [OF assms(1)] by simp_all
  have r: "max MIN_BUCKETS (unat (NextPowerOf2_32 (word_of_nat (u32_sub ?a 1)))) = max 4 ?a"
    using grow_size(2,4) [OF a] p by (auto simp: MIN_BUCKETS_def)
  have "NumEntries m < max 4 ?a" using NumEntries_room [OF assms] by simp
  then show ?thesis
    using dm_grow_spec [OF assms(1), of "max 4 ?a" ?a] grow_size(1,3) [OF a] r by simp
qed

subsection \<open>Insertion\<close>

text \<open>After a rehash the lookup is repeated and lands on an empty bucket.\<close>

lemma rehashed_lookup:
  assumes inv: "dm_inv P m" and c: "dm_clean P m" and k: "valid_key P k" "dm_map P m k = None"
    and nz: "NumBuckets m \<noteq> 0"
  shows "\<exists>i < NumBuckets m. LookupBucketFor P m k = Some (False, Some i) \<and>
    fst (Buckets m ! i) = emptyKey P \<and> reaches P (Buckets m) k i"
  using lookup_missing [OF inv k(2,1)] nz clean_free_slot [OF inv c] by auto

lemma insert_tail:
  assumes inv: "dm_inv P m" and i: "i < NumBuckets m" and k: "valid_key P k"
    and new: "dm_map P m k = None" and re: "reaches P (Buckets m) k i"
    and free: "free_slot P (Buckets m ! i)"
    and room: "fst (Buckets m ! i) = emptyKey P \<longrightarrow> NumEntries m + 1 + NumTombstones m < NumBuckets m"
    and impl: "InsertIntoBucketImpl P k tb m0 = Some (i,
      if keyEq P (fst (Buckets m ! i)) (emptyKey P) then incrementNumEntries m
      else if keyEq P (fst (Buckets m ! i)) (tombKey P)
        then decrementNumTombstones (incrementNumEntries m) else m)"
  shows "\<exists>m'. InsertIntoBucket P tb k v m0 = Some (i, m') \<and> dm_inv P m' \<and> i < NumBuckets m' \<and>
    Buckets m' ! i = (k, v) \<and> dm_map P m' k = Some v \<and>
    purge_le P ((dm_map P m)(k \<mapsto> v)) (dm_map P m') \<and> NumBuckets m' = NumBuckets m"
proof -
  let ?a = "if fst (Buckets m ! i) = emptyKey P then incrementNumEntries m
     else if fst (Buckets m ! i) = tombKey P then decrementNumTombstones (incrementNumEntries m)
     else m"
  let ?m = "?a\<lparr>Buckets := (Buckets m)[i := (k, v)]\<rparr>"
  note st = store_entry [OF inv i k new re room]
  have i': "i < length (Buckets m)" using i dm_inv_length [OF inv] by simp
  have "InsertIntoBucket P tb k v m0 = Some (i, ?m)"
    unfolding InsertIntoBucket_def impl isEqual_iff using st(3) by simp
  moreover have "purge_le P ((dm_map P m)(k \<mapsto> v)) (dm_map P ?m)"
  proof -
    have "dm_map P m (fst (Buckets m ! i)) = None
        \<or> (\<exists>w. dm_map P m (fst (Buckets m ! i)) = Some w \<and> isPurgeable P w)"
      using free table_map_nth [OF dm_inv_table [OF inv] i'] i
      by (auto simp: free_slot_def dm_map_def table_map_None_iff)
    then have "purge_le P (dm_map P m) ((dm_map P m)(fst (Buckets m ! i) := None))"
      by (auto simp: purge_le_def)
    then show ?thesis unfolding st(2) by (rule purge_le_upd)
  qed
  moreover have "NumBuckets ?m = NumBuckets m" "Buckets ?m ! i = (k, v)" "dm_map P ?m k = Some v"
    using st(2) st(4) i' by simp_all
  ultimately show ?thesis using st(1) i by (intro exI [of _ ?m]) metis
qed

lemma InsertIntoBucket_spec:
  assumes inv: "dm_inv P m" and k: "valid_key P k" "dm_map P m k = None"
    and sz: "NumBuckets m < 2 ^ 30" and look: "LookupBucketFor P m k = Some (False, tb)"
  shows "\<exists>b m'. InsertIntoBucket P tb k v m = Some (b, m') \<and> dm_inv P m' \<and> b < NumBuckets m' \<and>
    Buckets m' ! b = (k, v) \<and> dm_map P m' k = Some v \<and>
    purge_le P ((dm_map P m)(k \<mapsto> v)) (dm_map P m') \<and> NumBuckets m' \<le> max 4 (NumBuckets m * 2)"
proof -
  let ?n = "NumBuckets m"
  have ent: "NumEntries m + 1 + NumTombstones m \<le> max 1 ?n"
    using NumEntries_room [OF inv] dm_invD [OF inv] by (cases "?n = 0") auto
  have u: "u32 (NumEntries m + 1) = NumEntries m + 1" "u32 ((NumEntries m + 1) * 4) = (NumEntries m + 1) * 4"
    "u32 (?n * 3) = ?n * 3" "u32 (NumEntries m + 1 + NumTombstones m) = NumEntries m + 1 + NumTombstones m"
    using ent sz by (intro u32_id; simp)+
  have rehash: ?thesis if g: "dm_inv P m1" "dm_clean P m1" "dm_map P m1 = purged P (dm_map P m)"
      "?n \<le> NumBuckets m1" "NumBuckets m1 \<le> max 4 (?n * 2)" "NumBuckets m1 \<noteq> 0"
      "NumEntries m + 1 < NumBuckets m1"
    and step: "\<And>i. LookupBucketFor P m1 k = Some (False, Some i) \<Longrightarrow> InsertIntoBucketImpl P k tb m = Some (i,
        if keyEq P (fst (Buckets m1 ! i)) (emptyKey P) then incrementNumEntries m1
        else if keyEq P (fst (Buckets m1 ! i)) (tombKey P)
          then decrementNumTombstones (incrementNumEntries m1) else m1)"
    for m1
  proof -
    have k1: "dm_map P m1 k = None" using g(3) k(2) by (simp add: purged_def)
    obtain i where i: "i < NumBuckets m1" "LookupBucketFor P m1 k = Some (False, Some i)"
        "fst (Buckets m1 ! i) = emptyKey P" "reaches P (Buckets m1) k i"
      using rehashed_lookup [OF g(1,2) k(1) k1 g(6)] by blast
    have "NumEntries m1 \<le> NumEntries m"
      unfolding dm_inv_NumEntries [OF inv] dm_inv_NumEntries [OF g(1)] g(3)
      by (intro card_mono)
        (auto simp: purged_def dm_map_def table_map_def finite_dom_map_of split: option.splits)
    then have room: "NumEntries m1 + 1 + NumTombstones m1 < NumBuckets m1"
      using g(2,7) by (simp add: dm_clean_def)
    have "free_slot P (Buckets m1 ! i)" using i(3) by (simp add: free_slot_def valid_key_def)
    from insert_tail [OF g(1) i(1) k(1) k1 i(4) this impI [OF room] step [OF i(2)], of v]
    obtain m' where m': "InsertIntoBucket P tb k v m = Some (i, m')" "dm_inv P m'" "i < NumBuckets m'"
      "Buckets m' ! i = (k, v)" "dm_map P m' k = Some v"
      "purge_le P ((dm_map P m1)(k \<mapsto> v)) (dm_map P m')" "NumBuckets m' = NumBuckets m1" by blast
    moreover have "purge_le P ((dm_map P m)(k \<mapsto> v)) (dm_map P m')"
      using purge_le_trans [OF purge_le_upd [OF purge_le_purged] m'(6) [unfolded g(3)]] .
    ultimately show ?thesis using g(5) by auto
  qed
  consider (big) "?n * 3 \<le> (NumEntries m + 1) * 4"
    | (tombs) "(NumEntries m + 1) * 4 < ?n * 3" "u32_sub ?n (NumEntries m + 1 + NumTombstones m) \<le> ?n div 8"
    | (ok) "(NumEntries m + 1) * 4 < ?n * 3" "?n div 8 < u32_sub ?n (NumEntries m + 1 + NumTombstones m)"
    by linarith
  then show ?thesis
  proof cases
    case big
    obtain m1 where m1: "dm_grow P (u32 (?n * 2)) m = Some m1" "dm_inv P m1" "dm_clean P m1"
        "NumBuckets m1 = max 4 (?n * 2)" "dm_map P m1 = purged P (dm_map P m)"
      using dm_grow_double [OF inv sz] by blast
    show ?thesis
    proof (rule rehash [OF m1(2,3,5)])
      show "NumEntries m + 1 < NumBuckets m1"
        using ent NumEntries_room [OF inv] dm_invD [OF inv] m1(4) by (cases "?n = 0") auto
      show "InsertIntoBucketImpl P k tb m = Some (i,
        if keyEq P (fst (Buckets m1 ! i)) (emptyKey P) then incrementNumEntries m1
        else if keyEq P (fst (Buckets m1 ! i)) (tombKey P)
          then decrementNumTombstones (incrementNumEntries m1) else m1)"
        if "LookupBucketFor P m1 k = Some (False, Some i)" for i
        unfolding InsertIntoBucketImpl_def Let_def u using big m1(1) that by simp
    qed (use m1(4) in auto)
  next
    case tombs
    then have nz: "?n \<noteq> 0" by simp
    obtain m1 where m1: "dm_grow P ?n m = Some m1" "dm_inv P m1" "dm_clean P m1"
        "NumBuckets m1 = max 4 ?n" "dm_map P m1 = purged P (dm_map P m)"
      using dm_grow_same [OF inv nz] by blast
    show ?thesis
    proof (rule rehash [OF m1(2,3,5)])
      show "InsertIntoBucketImpl P k tb m = Some (i,
        if keyEq P (fst (Buckets m1 ! i)) (emptyKey P) then incrementNumEntries m1
        else if keyEq P (fst (Buckets m1 ! i)) (tombKey P)
          then decrementNumTombstones (incrementNumEntries m1) else m1)"
        if "LookupBucketFor P m1 k = Some (False, Some i)" for i
        unfolding InsertIntoBucketImpl_def Let_def u using tombs m1(1) that by simp
    qed (use m1(4) tombs in auto)
  next
    case ok
    then have nz: "?n \<noteq> 0" by simp
    then obtain i where i: "i < ?n" "free_slot P (Buckets m ! i)" "reaches P (Buckets m) k i"
        "tb = Some i"
      using lookup_missing [OF inv k(2,1)] look by auto
    have "NumEntries m + 1 + NumTombstones m \<le> ?n" using NumEntries_room [OF inv nz] by simp
    then have room: "NumEntries m + 1 + NumTombstones m < ?n"
      using ok(2) u32_sub_id [of "NumEntries m + 1 + NumTombstones m" ?n] sz by auto
    have "InsertIntoBucketImpl P k tb m = Some (i,
        if keyEq P (fst (Buckets m ! i)) (emptyKey P) then incrementNumEntries m
        else if keyEq P (fst (Buckets m ! i)) (tombKey P)
          then decrementNumTombstones (incrementNumEntries m) else m)"
      unfolding InsertIntoBucketImpl_def Let_def u using ok i(4) by simp
    from insert_tail [OF inv i(1) k i(3,2) impI [OF room] this] show ?thesis by fastforce
  qed
qed

lemma try_emplace_present:
  assumes "dm_inv P m" and "dm_map P m k = Some w"
  shows "\<exists>b < NumBuckets m. try_emplace P k v m = Some (Some b, False, m) \<and> Buckets m ! b = (k, w)"
  using lookup_present [OF assms] by (auto simp: try_emplace_def)

lemma lookup_missing_result:
  assumes "dm_inv P m" and "dm_map P m k = None" and "valid_key P k"
  shows "\<exists>tb. LookupBucketFor P m k = Some (False, tb)"
  using lookup_missing [OF assms] by auto

lemma try_emplace_absent:
  assumes "dm_inv P m" and "valid_key P k" and "dm_map P m k = None" and "NumBuckets m < 2 ^ 30"
  shows "\<exists>b m'. try_emplace P k v m = Some (Some b, True, m') \<and> dm_inv P m' \<and> b < NumBuckets m' \<and>
    Buckets m' ! b = (k, v) \<and> dm_map P m' k = Some v \<and>
    purge_le P ((dm_map P m)(k \<mapsto> v)) (dm_map P m') \<and> NumBuckets m' \<le> max 4 (NumBuckets m * 2)"
proof -
  obtain tb where "LookupBucketFor P m k = Some (False, tb)"
    using lookup_missing_result [OF assms(1,3,2)] by blast
  with InsertIntoBucket_spec [OF assms(1-4) this, of v] show ?thesis
    by (auto simp: try_emplace_def)
qed

text \<open>Both outcomes of \<open>FindAndConstruct\<close>: a reference to the value of the key, made if need be.\<close>

lemma FindAndConstruct_spec:
  assumes "dm_inv P m" and "valid_key P k" and "NumBuckets m < 2 ^ 30"
  defines "w \<equiv> (case dm_map P m k of None \<Rightarrow> valueInit P | Some w \<Rightarrow> w)"
  shows "\<exists>b m'. FindAndConstruct P k m = Some (b, m') \<and> dm_inv P m' \<and> b < NumBuckets m' \<and>
    Buckets m' ! b = (k, w) \<and> dm_map P m' k = Some w \<and>
    purge_le P ((dm_map P m)(k \<mapsto> w)) (dm_map P m') \<and> NumBuckets m' \<le> max 4 (NumBuckets m * 2)"
proof (cases "dm_map P m k")
  case None
  obtain tb where "LookupBucketFor P m k = Some (False, tb)"
    using lookup_missing_result [OF assms(1) None assms(2)] by blast
  with InsertIntoBucket_spec [OF assms(1,2) None assms(3) this, of w] None show ?thesis
    by (auto simp: FindAndConstruct_def w_def)
next
  case (Some v)
  with lookup_present [OF assms(1) Some] assms(1) show ?thesis
    by (auto simp: FindAndConstruct_def w_def fun_upd_idem)
qed

lemma setSecond_spec:
  assumes inv: "dm_inv P m" and b: "b < NumBuckets m" "Buckets m ! b = (k, w)" and k: "valid_key P k"
  shows "dm_inv P (setSecond m b v)" and "dm_map P (setSecond m b v) = (dm_map P m)(k \<mapsto> v)"
    and "NumBuckets (setSecond m b v) = NumBuckets m"
proof -
  have n: "NumBuckets m \<noteq> 0" and b': "b < length (Buckets m)"
    using b(1) dm_inv_length [OF inv] by simp_all
  note st = table_ok_set_value [OF dm_inv_table [OF inv n] b', of v]
  have "length (filter (\<lambda>x. Q (fst x)) ((Buckets m)[b := (k, v)]))
      = length (filter (\<lambda>x. Q (fst x)) (Buckets m))" for Q
    using length_filter_update [OF b', of "\<lambda>x. Q (fst x)" "(k, v)"] b(2) by simp
  from this [of "valid_key P"] this [of "\<lambda>x. x = tombKey P"]
  show "dm_inv P (setSecond m b v)"
    using st(1) inv b k by (simp add: dm_inv_def setSecond_def)
  show "dm_map P (setSecond m b v) = (dm_map P m)(k \<mapsto> v)"
    using st(2) b k by (simp add: dm_map_def setSecond_def)
  show "NumBuckets (setSecond m b v) = NumBuckets m" by (simp add: setSecond_def)
qed

subsection \<open>Reading\<close>

lemma dm_count_spec:
  assumes "dm_inv P m" and "valid_key P k"
  shows "dm_count P k m = Some (if k \<in> dom (dm_map P m) then 1 else 0)"
  using lookup_present [OF assms(1), of k] lookup_missing_result [OF assms(1) _ assms(2)]
  by (cases "dm_map P m k") (auto simp: dm_count_def)

lemma dm_lookup_spec:
  assumes "dm_inv P m" and "valid_key P k"
  shows "dm_lookup P k m = Some (case dm_map P m k of None \<Rightarrow> valueInit P | Some v \<Rightarrow> v)"
  using lookup_present [OF assms(1), of k] lookup_missing_result [OF assms(1) _ assms(2)]
  by (cases "dm_map P m k") (auto simp: dm_lookup_def)

lemma dm_find_spec:
  assumes "dm_inv P m" and "valid_key P k"
  shows "case dm_map P m k of
      None \<Rightarrow> dm_find P k m = Some (dm_end m)
    | Some v \<Rightarrow> \<exists>i < dm_end m. dm_find P k m = Some i \<and> Buckets m ! i = (k, v)"
  using lookup_present [OF assms(1), of k] lookup_missing_result [OF assms(1) _ assms(2)]
  by (cases "dm_map P m k") (auto simp: dm_find_def dm_end_def)

lemma Advance_filter:
  assumes "length (Buckets m) = NumBuckets m"
  shows "filter (\<lambda>b. valid_key P (fst b)) (drop p (Buckets m))
       = filter (\<lambda>b. valid_key P (fst b)) (drop (AdvancePastEmptyBuckets P m p) (Buckets m))
     \<and> (AdvancePastEmptyBuckets P m p < NumBuckets m
          \<longrightarrow> valid_key P (fst (Buckets m ! AdvancePastEmptyBuckets P m p)))"
  using assms
proof (induction "NumBuckets m - p" arbitrary: p rule: less_induct)
  case less
  show ?case
  proof (cases "p < NumBuckets m \<and> \<not> valid_key P (fst (Buckets m ! p))")
    case True
    then have "AdvancePastEmptyBuckets P m p = AdvancePastEmptyBuckets P m (p + 1)"
      by (subst AdvancePastEmptyBuckets.simps) (auto simp: dm_end_def valid_key_def)
    moreover have "drop p (Buckets m) = Buckets m ! p # drop (p + 1) (Buckets m)"
      using True less.prems by (simp add: Cons_nth_drop_Suc)
    moreover have "NumBuckets m - (p + 1) < NumBuckets m - p" using True by linarith
    ultimately show ?thesis using less.hyps [of "p + 1"] True less.prems by simp
  next
    case False
    then have "AdvancePastEmptyBuckets P m p = p"
      by (subst AdvancePastEmptyBuckets.simps) (auto simp: dm_end_def valid_key_def)
    then show ?thesis using False by simp
  qed
qed

lemma iterate_from_filter:
  assumes "length (Buckets m) = NumBuckets m"
    and "p < NumBuckets m \<longrightarrow> valid_key P (fst (Buckets m ! p))"
  shows "iterate_from P m p = filter (\<lambda>b. valid_key P (fst b)) (drop p (Buckets m))"
  using assms
proof (induction "NumBuckets m - p" arbitrary: p rule: less_induct)
  case less
  show ?case
  proof (cases "p < NumBuckets m")
    case True
    have "p < dm_next P m p"
      using AdvancePastEmptyBuckets_ge [of "p + 1" P m] by (simp add: dm_next_def)
    then have "iterate_from P m (dm_next P m p)
        = filter (\<lambda>b. valid_key P (fst b)) (drop (dm_next P m p) (Buckets m))"
      using less.hyps [of "dm_next P m p"] True less.prems(1) Advance_filter [OF less.prems(1), of "p + 1"]
      by (simp add: dm_next_def)
    moreover have "drop p (Buckets m) = Buckets m ! p # drop (p + 1) (Buckets m)"
      using True less.prems by (simp add: Cons_nth_drop_Suc)
    ultimately show ?thesis
      using True less.prems Advance_filter [OF less.prems(1), of "p + 1"]
      by (subst iterate_from.simps) (simp add: dm_next_def dm_end_def)
  next
    case False
    then show ?thesis using less.prems by (subst iterate_from.simps) (simp add: dm_end_def)
  qed
qed

lemma dm_iterate_spec:
  assumes "dm_inv P m"
  shows "dm_iterate P m = filter (\<lambda>b. valid_key P (fst b)) (Buckets m)"
proof (cases "dm_empty m")
  case True
  then have "filter (\<lambda>b. valid_key P (fst b)) (Buckets m) = []"
    using dm_inv_entries [OF assms] by (simp add: dm_empty_def)
  then show ?thesis using True
    by (simp add: dm_iterate_def dm_begin_def) (subst iterate_from.simps, simp)
next
  case False
  note len = dm_inv_length [OF assms]
  show ?thesis
    using False Advance_filter [OF len, of 0] iterate_from_filter [OF len, of "AdvancePastEmptyBuckets P m 0"]
    by (simp add: dm_iterate_def dm_begin_def)
qed

lemma dm_iterate_map:
  assumes "dm_inv P m"
  shows "map_of (dm_iterate P m) = dm_map P m" and "distinct (map fst (dm_iterate P m))"
    and "set (dm_iterate P m) = {(k, v). dm_map P m k = Some v}"
    and "length (dm_iterate P m) = NumEntries m"
proof -
  show m: "map_of (dm_iterate P m) = dm_map P m"
    by (simp add: dm_iterate_spec [OF assms] dm_map_def table_map_def)
  show d: "distinct (map fst (dm_iterate P m))"
    unfolding dm_iterate_spec [OF assms]
    using distinct_live dm_inv_table [OF assms] dm_inv_length [OF assms]
    by (cases "NumBuckets m = 0") auto
  show "set (dm_iterate P m) = {(k, v). dm_map P m k = Some v}"
    using map_of_eq_Some_iff [OF d] by (auto simp: m)
  show "length (dm_iterate P m) = NumEntries m"
    by (simp add: dm_iterate_spec [OF assms] dm_inv_entries [OF assms])
qed

subsection \<open>Initialisation, clearing and compaction\<close>

lemma min_buckets_bound: "getMinBucketToReserveForEntries n = 0 \<or>
    is_pow2 (getMinBucketToReserveForEntries n) \<and> getMinBucketToReserveForEntries n \<le> 2 ^ 31"
proof -
  define A :: u32w where "A = word_of_nat (u32 (u32 (n * 4) div 3 + 1))"
  show ?thesis
  proof (cases "unat A < 2 ^ 31")
    case True
    then have "unat A < 2 ^ (LENGTH(32) - 1)" by simp
    then have "is_pow2 (unat (NextPowerOf2_32 A))" "unat (NextPowerOf2_32 A) \<le> 2 ^ 31"
      using next_power_least [of NextPowerOf2_32 A, OF _ NextPowerOf2_32_top_bit] True
        is_pow2_power [of 31] by (auto simp: NextPowerOf2_32_def [of 0])
    then show ?thesis by (simp add: getMinBucketToReserveForEntries_def A_def)
  next
    case False
    then have "\<not> unat A < 2 ^ (LENGTH(32) - 1)" by simp
    then have "NextPowerOf2_32 A = 0"
      using next_power_least [of NextPowerOf2_32 A, OF _ NextPowerOf2_32_top_bit]
      by (auto simp: NextPowerOf2_32_def [of 0])
    then show ?thesis by (simp add: getMinBucketToReserveForEntries_def A_def)
  qed
qed

lemma dm_init_spec:
  "dm_inv P (dm_init P n m) \<and> dm_map P (dm_init P n m) = Map.empty \<and>
   NumBuckets (dm_init P n m) = getMinBucketToReserveForEntries n"
proof (cases "getMinBucketToReserveForEntries n = 0")
  case True
  let ?m = "dm_init P n m"
  have "Buckets ?m = [] \<and> NumEntries ?m = 0 \<and> NumTombstones ?m = 0 \<and> NumBuckets ?m = 0"
    using True by (simp add: dm_init_def allocateBuckets_def Let_def)
  then show ?thesis using empty_inv [of ?m] True by auto
next
  case False
  let ?N = "getMinBucketToReserveForEntries n"
  let ?m = "m\<lparr>NumBuckets := ?N, Buckets := map (freshMemory P) [0..<?N]\<rparr>"
  have "dm_init P n m = initEmpty P ?m"
    using False by (simp add: dm_init_def allocateBuckets_def Let_def)
  moreover have "is_pow2 ?N" "?N \<le> 2 ^ 31" using min_buckets_bound [of n] False by auto
  ultimately show ?thesis using initEmpty_inv [of ?m] by simp
qed

lemma dm_new_spec:
  "dm_inv P (DenseMap_new P n) \<and> dm_map P (DenseMap_new P n) = Map.empty"
  unfolding DenseMap_new_def using dm_init_spec by blast

lemma initEmpty_keeps:
  assumes "dm_inv P m"
  shows "dm_inv P (initEmpty P m) \<and> dm_map P (initEmpty P m) = Map.empty"
proof (cases "NumBuckets m = 0")
  case True
  then have "Buckets m = []" using dm_inv_length [OF assms] by simp
  with True show ?thesis by (simp add: initEmpty_def dm_inv_def dm_map_def table_map_def)
next
  case False
  with initEmpty_inv [of m] table_ok_pow2 [OF dm_inv_table [OF assms False]] dm_inv_bound [OF assms]
    dm_inv_length [OF assms] show ?thesis by simp
qed

lemma shrink_and_clear_spec:
  assumes "dm_inv P m"
  shows "dm_inv P (dm_shrink_and_clear P m)" and "dm_map P (dm_shrink_and_clear P m) = Map.empty"
  using initEmpty_keeps [OF assms] dm_init_spec
  by (simp_all add: dm_shrink_and_clear_def Let_def)

lemma dm_clear_spec:
  assumes "dm_inv P m"
  shows "dm_inv P (dm_clear P m)" and "dm_map P (dm_clear P m) = Map.empty"
proof -
  have z: "NumEntries m = 0 \<Longrightarrow> dm_map P m = Map.empty"
    using dm_inv_entries [OF assms] by (simp add: dm_map_def table_map_def)
  have e: "m\<lparr>Buckets := map (\<lambda>(_, v). (emptyKey P, v)) (Buckets m), NumEntries := 0,
      NumTombstones := 0\<rparr> = initEmpty P m"
    by (cases m) (simp add: initEmpty_def)
  show "dm_inv P (dm_clear P m)" "dm_map P (dm_clear P m) = Map.empty"
    using assms z initEmpty_keeps [OF assms] shrink_and_clear_spec [OF assms]
    unfolding dm_clear_def e by auto
qed

lemma dm_compact_spec:
  assumes inv: "dm_inv P m" and "NumBuckets m \<le> 2 ^ 31"
  shows "\<exists>m'. dm_compact P m = Some m' \<and> dm_inv P m' \<and>
    (dm_map P m' = dm_map P m \<or> dm_map P m' = purged P (dm_map P m)) \<and>
    (NumBuckets m' \<le> NumBuckets m \<or> NumEntries m = 0)"
proof -
  consider (zero) "NumEntries m = 0"
    | (shrink) "NumEntries m \<noteq> 0" "NumBuckets m div 16 > NumEntries m" "NumBuckets m > MIN_COMPACT"
    | (keep) "NumEntries m \<noteq> 0" "\<not> (NumBuckets m div 16 > NumEntries m \<and> NumBuckets m > MIN_COMPACT)"
    by blast
  then show ?thesis
  proof cases
    case zero
    then have "dm_map P m = Map.empty"
      using dm_inv_entries [OF inv] by (simp add: dm_map_def table_map_def)
    then show ?thesis using zero shrink_and_clear_spec [OF inv] by (simp add: dm_compact_def)
  next
    case shrink
    let ?a = "NumEntries m * 2"
    have u: "u32 ?a = ?a" using shrink(2) assms(2) by (intro u32_id) simp
    have a: "0 < ?a" "?a \<le> 2 ^ 31" using shrink assms(2) by simp_all
    define N where "N = max MIN_BUCKETS (unat (NextPowerOf2_32 (word_of_nat (u32_sub ?a 1))))"
    have N: "is_pow2 N" "?a \<le> N" "N \<le> 2 ^ 31" using grow_size [OF a] by (simp_all add: N_def)
    have "N \<le> NumBuckets m"
    proof -
      have p: "is_pow2 (NumBuckets m)"
        using shrink(3) dm_inv_table [OF inv] dm_inv_length [OF inv] table_ok_pow2
        by (metis gr_implies_not0)
      have l: "unat (word_of_nat (u32_sub ?a 1) :: u32w) = ?a - 1"
        using a u32_sub_id [of 1 ?a] unat_of_nat_u32 [of "?a - 1"] by simp
      then have "unat (word_of_nat (u32_sub ?a 1) :: u32w) < 2 ^ (LENGTH(32) - 1)"
        "unat (word_of_nat (u32_sub ?a 1) :: u32w) < NumBuckets m"
        using a shrink(2) by simp_all
      then have "unat (NextPowerOf2_32 (word_of_nat (u32_sub ?a 1))) \<le> NumBuckets m"
        using next_power_least [of NextPowerOf2_32 "word_of_nat (u32_sub ?a 1)",
            OF _ NextPowerOf2_32_top_bit] p by (auto simp: NextPowerOf2_32_def [of 0])
      then show ?thesis using shrink(3) by (simp add: N_def MIN_BUCKETS_def MIN_COMPACT_def)
    qed
    moreover have "NumEntries m < N" using N(2) shrink(1) by simp
    ultimately show ?thesis
      using dm_grow_spec [OF inv N_def N(1,3)] shrink u by (auto simp: dm_compact_def)
  next
    case keep
    then have "dm_compact P m = Some m" by (auto simp: dm_compact_def)
    then show ?thesis using inv by simp
  qed
qed

subsection \<open>Removal\<close>

lemma erase_bucket_spec:
  assumes inv: "dm_inv P m" and b: "b < NumBuckets m" "Buckets m ! b = (k, w)" and k: "valid_key P k"
  shows "\<exists>m'. erase_bucket P b m = Some m' \<and> dm_inv P m' \<and>
    (dm_map P m' = (dm_map P m)(k := None) \<or> dm_map P m' = purged P ((dm_map P m)(k := None))) \<and>
    (NumBuckets m' \<le> NumBuckets m \<or> dm_map P m' = Map.empty)"
proof -
  have n: "NumBuckets m \<noteq> 0" and b': "b < length (Buckets m)"
    using b(1) dm_inv_length [OF inv] by simp_all
  let ?m = "incrementNumTombstones (decrementNumEntries
              (m\<lparr>Buckets := (Buckets m)[b := (tombKey P, w)]\<rparr>))"
  note st = table_ok_bury [OF dm_inv_table [OF inv n] b', of w]
  have sz: "NumEntries m + NumTombstones m < NumBuckets m" "NumBuckets m \<le> 2 ^ 31"
    using NumEntries_room [OF inv n] dm_inv_bound [OF inv] by auto
  have live: "length (filter (\<lambda>b. valid_key P (fst b)) ((Buckets m)[b := (tombKey P, w)])) + 1 = NumEntries m"
    using length_filter_update [OF b', of "\<lambda>b. valid_key P (fst b)" "(tombKey P, w)"] b k
      dm_inv_entries [OF inv] by (simp add: valid_key_def)
  have tomb: "length (filter (\<lambda>b. fst b = tombKey P) ((Buckets m)[b := (tombKey P, w)])) = NumTombstones m + 1"
    using length_filter_update [OF b', of "\<lambda>b. fst b = tombKey P" "(tombKey P, w)"] b k
      dm_inv_tombs [OF inv] by (simp add: valid_key_def)
  have cnt: "u32_sub (NumEntries m) 1 = NumEntries m - 1" "u32 (NumTombstones m + 1) = NumTombstones m + 1"
    using sz live by (auto intro!: u32_sub_id u32_id)
  have fields: "Buckets ?m = (Buckets m)[b := (tombKey P, w)]" "NumBuckets ?m = NumBuckets m"
    "NumEntries ?m = NumEntries m - 1" "NumTombstones ?m = NumTombstones m + 1"
    using cnt by (simp_all add: incrementNumTombstones_def decrementNumEntries_def)
  have inv': "dm_inv P ?m"
    unfolding dm_inv_def fields
    using live tomb st(1) b k dm_inv_length [OF inv] by simp
  have map': "dm_map P ?m = (dm_map P m)(k := None)"
    unfolding dm_map_def fields using st(2) b k by simp
  have "erase_bucket P b m = dm_compact P ?m"
    using b(2) by (simp add: erase_bucket_def Let_def)
  moreover have "NumEntries ?m = 0 \<Longrightarrow> dm_map P ?m = Map.empty"
    using dm_inv_entries [OF inv'] by (simp add: dm_map_def table_map_def)
  then have "NumEntries ?m = 0 \<Longrightarrow> dm_map P m' = dm_map P ?m \<or> dm_map P m' = purged P (dm_map P ?m)
      \<Longrightarrow> dm_map P m' = Map.empty" for m'
    by (auto simp: purged_def)
  ultimately show ?thesis
    using dm_compact_spec [OF inv'] sz(2) fields(2) unfolding map' by metis
qed

lemma dm_erase_present:
  assumes "dm_inv P m" and "valid_key P k" and "dm_map P m k = Some w"
  shows "\<exists>m'. dm_erase P k m = Some (True, m') \<and> dm_inv P m' \<and>
    (dm_map P m' = (dm_map P m)(k := None) \<or> dm_map P m' = purged P ((dm_map P m)(k := None))) \<and>
    (NumBuckets m' \<le> NumBuckets m \<or> dm_map P m' = Map.empty)"
proof -
  obtain i where "i < NumBuckets m" "Buckets m ! i = (k, w)" "LookupBucketFor P m k = Some (True, Some i)"
    using lookup_present [OF assms(1,3)] by blast
  with erase_bucket_spec [OF assms(1) this(1,2) assms(2)] show ?thesis
    by (auto simp: dm_erase_def)
qed

lemma dm_erase_absent:
  assumes "dm_inv P m" and "valid_key P k" and "dm_map P m k = None"
  shows "dm_erase P k m = Some (False, m)"
  using lookup_missing_result [OF assms(1,3,2)] by (auto simp: dm_erase_def)

subsection \<open>Reserving, copying and comparing\<close>

lemma dm_reserve_spec:
  assumes "dm_inv P m"
  shows "\<exists>m'. dm_reserve P n m = Some m' \<and> dm_inv P m' \<and>
    (dm_map P m' = dm_map P m \<or> dm_map P m' = purged P (dm_map P m)) \<and>
    getMinBucketToReserveForEntries n \<le> NumBuckets m'"
proof (cases "NumBuckets m < getMinBucketToReserveForEntries n")
  case True
  let ?a = "getMinBucketToReserveForEntries n"
  have a: "0 < ?a" "?a \<le> 2 ^ 31" using True min_buckets_bound [of n] by auto
  define N where "N = max MIN_BUCKETS (unat (NextPowerOf2_32 (word_of_nat (u32_sub ?a 1))))"
  have N: "is_pow2 N" "?a \<le> N" "N \<le> 2 ^ 31" using grow_size [OF a] by (simp_all add: N_def)
  moreover have "NumEntries m < N"
    using NumEntries_room [OF assms] dm_inv_entries [OF assms] dm_inv_length [OF assms] True N(2) a(1)
    by (cases "NumBuckets m = 0") auto
  ultimately show ?thesis
    using dm_grow_spec [OF assms N_def] True by (auto simp: dm_reserve_def)
next
  case False
  then show ?thesis using assms by (simp add: dm_reserve_def)
qed

lemma copy_bucket_eq:
  "fst (copy_bucket P src dst) = fst src"
  "valid_key P (fst src) \<Longrightarrow> copy_bucket P src dst = src"
  by (auto simp: copy_bucket_def valid_key_def)

lemma filter_map2_copy:
  assumes "length xs = length ys"
  shows "filter (\<lambda>b. valid_key P (fst b)) (map2 (copy_bucket P) xs ys) = filter (\<lambda>b. valid_key P (fst b)) xs"
  using assms by (induction xs ys rule: list_induct2) (auto simp: copy_bucket_eq)

lemma table_ok_same_keys:
  assumes "map fst bs' = map fst bs" and "table_ok P bs"
  shows "table_ok P bs'"
proof -
  have len: "length bs' = length bs" using assms(1) by (metis length_map)
  have keys: "fst (bs' ! i) = fst (bs ! i)" if "i < length bs" for i
    using assms(1) that len by (metis nth_map)
  have slot: "slot P bs' = slot P bs" using len by (simp add: slot_def fun_eq_iff)
  have re: "reaches P bs' k j \<longleftrightarrow> reaches P bs k j" for k j
    unfolding reaches_def len slot by (simp add: keys slot_less [OF table_ok_pos [OF assms(2)]])
  show ?thesis using assms(2) keys re unfolding table_ok_def len by auto
qed

lemma dm_copyFrom_spec:
  assumes "dm_inv P other"
  shows "dm_inv P (dm_copyFrom P other m)" and "dm_map P (dm_copyFrom P other m) = dm_map P other"
proof -
  let ?m = "dm_copyFrom P other m" and ?n = "NumBuckets other"
  let ?new = "map2 (copy_bucket P) (Buckets other) (map (freshMemory P) [0..<?n])"
  have len: "length (Buckets other) = ?n" using assms by (rule dm_inv_length)
  have keys: "map fst ?new = map fst (Buckets other)"
    using len by (intro nth_equalityI) (simp_all add: copy_bucket_eq)
  have flt: "filter (\<lambda>b. valid_key P (fst b)) ?new = filter (\<lambda>b. valid_key P (fst b)) (Buckets other)"
    using len by (intro filter_map2_copy) simp
  have tombs: "length (filter (\<lambda>b. fst b = tombKey P) ?new)
      = length (filter (\<lambda>b. fst b = tombKey P) (Buckets other))"
    using arg_cong [OF keys, of "\<lambda>ks. length (filter (\<lambda>k. k = tombKey P) ks)"]
    by (simp add: filter_map comp_def)
  have ok: "table_ok P ?new" if "?n \<noteq> 0"
    using table_ok_same_keys [OF keys] dm_inv_table [OF assms that] by blast
  have "dm_inv P ?m \<and> dm_map P ?m = dm_map P other"
  proof (cases "?n = 0")
    case True
    then show ?thesis
      using len by (auto simp: dm_copyFrom_def allocateBuckets_def dm_inv_def dm_map_def table_map_def)
  next
    case False
    then have e: "?m = m\<lparr>NumBuckets := ?n, NumEntries := NumEntries other,
        NumTombstones := NumTombstones other,
        Buckets := (if trivially_copyable P then Buckets other else ?new)\<rparr>"
      by (simp add: dm_copyFrom_def allocateBuckets_def BaseT_copyFrom_def Let_def)
    have "dm_inv P ?m"
      using assms ok [OF False] flt tombs len unfolding e dm_inv_def by auto
    moreover have "dm_map P ?m = dm_map P other"
      using flt unfolding e by (simp add: dm_map_def table_map_def)
    ultimately show ?thesis ..
  qed
  then show "dm_inv P ?m" "dm_map P ?m = dm_map P other" by simp_all
qed

lemma dm_equal_loop_spec:
  assumes "dm_inv P R" and "\<And>k v. (k, v) \<in> set KVs \<Longrightarrow> valid_key P k"
  shows "dm_equal_loop P KVs R = Some (\<forall>(k, v) \<in> set KVs. dm_map P R k = Some v)"
  using assms(2)
proof (induction KVs)
  case (Cons KV KVs)
  obtain k v where KV: "KV = (k, v)" by (cases KV)
  have k: "valid_key P k" using Cons.prems KV by auto
  have IH: "dm_equal_loop P KVs R = Some (\<forall>(k, v) \<in> set KVs. dm_map P R k = Some v)"
    using Cons by auto
  show ?case
  proof (cases "dm_map P R k")
    case None
    then show ?thesis using dm_find_spec [OF assms(1) k] KV by simp
  next
    case (Some w)
    then obtain i where "i < dm_end R" "dm_find P k R = Some i" "Buckets R ! i = (k, w)"
      using dm_find_spec [OF assms(1) k] by auto
    then show ?thesis using KV IH Some by auto
  qed
qed simp

lemma dm_equal_spec:
  assumes L: "dm_inv P L" and R: "dm_inv P R"
  shows "dm_equal P L R = Some (dm_map P L = dm_map P R)"
proof (cases "dm_size L = dm_size R")
  case True
  have val: "valid_key P k" if "(k, v) \<in> set (dm_iterate P L)" for k v
    using that by (auto simp: dm_iterate_spec [OF L])
  have fin: "finite (dom (dm_map P R))"
    by (simp add: dm_map_def table_map_def finite_dom_map_of)
  have "(\<forall>(k, v) \<in> set (dm_iterate P L). dm_map P R k = Some v) \<longleftrightarrow> dm_map P L \<subseteq>\<^sub>m dm_map P R"
    unfolding dm_iterate_map(3) [OF L] map_le_def by (auto simp: domIff) (metis domI domIff)
  also have "\<dots> \<longleftrightarrow> dm_map P L = dm_map P R"
  proof
    assume le: "dm_map P L \<subseteq>\<^sub>m dm_map P R"
    then have "dom (dm_map P L) \<subseteq> dom (dm_map P R)" by (rule map_le_implies_dom_le)
    then have "dom (dm_map P L) = dom (dm_map P R)"
      using card_subset_eq [OF fin] True dm_inv_NumEntries [OF L] dm_inv_NumEntries [OF R]
      by (simp add: dm_size_def)
    with le show "dm_map P L = dm_map P R" by (metis map_le_antisym map_le_def)
  qed simp
  finally show ?thesis
    using True dm_equal_loop_spec [OF R val] by (simp add: dm_equal_def)
next
  case False
  then have "dm_map P L \<noteq> dm_map P R"
    using dm_inv_NumEntries [OF L] dm_inv_NumEntries [OF R] by (auto simp: dm_size_def)
  with False show ?thesis by (simp add: dm_equal_def)
qed

end

end
