(* ===== verification/DenseMapSpec.thy ===== *)
theory DenseMapSpec
  imports DenseMapProofs
begin

text \<open>
  What \<open>DenseMap\<close> promises to the rest of the runtime: the statements of \<open>DenseMapProofs\<close>
  for every key policy, and the interface \<open>ref_table\<close> through which the side tables use the
  table (a reference to the value of a key, read and assigned in place, found and erased),
  interpreted on the reference-count table \<open>RefcountMap\<close> of \<open>NSObject.mm\<close>.
\<close>

subsection \<open>The reference-count table\<close>

definition RefcountMapValuePurgeable_isPurgeable :: "u64 \<Rightarrow> bool" where
  "RefcountMapValuePurgeable_isPurgeable x \<longleftrightarrow> x = 0"

type_synonym RefcountMap = "(DisguisedPtr, u64) DenseMap"

text \<open>The policy of \<open>RefcountMap\<close>, for any contents of freshly allocated memory.\<close>

definition RefcountMap_policy ::
  "(nat \<Rightarrow> DisguisedPtr \<times> u64) \<Rightarrow> (DisguisedPtr, u64) policy" where
  "RefcountMap_policy fresh =
     \<lparr>keyInfo = DenseMapInfo_DisguisedPtr,
      isPurgeable = RefcountMapValuePurgeable_isPurgeable,
      valueInit = 0, trivially_copyable = True, freshMemory = fresh\<rparr>"

lemma RefcountMap_policy_simps [simp]:
  "keyInfo (RefcountMap_policy fresh) = DenseMapInfo_DisguisedPtr"
  "isPurgeable (RefcountMap_policy fresh) v \<longleftrightarrow> v = 0"
  "valueInit (RefcountMap_policy fresh) = 0"
  by (simp_all add: RefcountMap_policy_def RefcountMapValuePurgeable_isPurgeable_def)

interpretation refs: dense_table "RefcountMap_policy fresh" for fresh
  by (simp add: dense_table_def disguised_info.key_info_axioms)

lemma valid_key_RefcountMap:
  "valid_key (RefcountMap_policy fresh) (disguised p) \<longleftrightarrow> p \<noteq> -1 \<and> p \<noteq> -2"
  by (simp add: valid_key_def DenseMapInfo_DisguisedPtr_def)

lemma dense_table_iff: "dense_table P \<longleftrightarrow> key_info (keyInfo P)"
  by (simp add: dense_table_def)

subsection \<open>The interface of a table of counters\<close>

definition dm_view :: "('k, 'v) policy \<Rightarrow> ('k, 'v) DenseMap \<Rightarrow> 'k \<Rightarrow> 'v" where
  "dm_view P m k = (case dm_map P m k of None \<Rightarrow> valueInit P | Some v \<Rightarrow> v)"

definition refers :: "('k, 'v) policy \<Rightarrow> ('k, 'v) DenseMap \<Rightarrow> 'k \<Rightarrow> nat \<Rightarrow> bool" where
  "refers P m k b \<longleftrightarrow> dm_inv P m \<and> valid_key P k \<and> b < NumBuckets m \<and> fst (Buckets m ! b) = k"

locale ref_table =
  fixes ok :: "'m \<Rightarrow> bool" and room :: "'m \<Rightarrow> bool" and key :: "'k \<Rightarrow> bool"
    and view :: "'m \<Rightarrow> 'k \<Rightarrow> 'v" and dflt :: 'v
    and at :: "'m \<Rightarrow> 'k \<Rightarrow> nat \<Rightarrow> bool"
    and subscript :: "'k \<Rightarrow> 'm \<Rightarrow> (nat \<times> 'm) option"
    and deref :: "'m \<Rightarrow> nat \<Rightarrow> 'v"
    and assign :: "'m \<Rightarrow> nat \<Rightarrow> 'v \<Rightarrow> 'm"
    and find :: "'k \<Rightarrow> 'm \<Rightarrow> nat option"
    and endp :: "'m \<Rightarrow> nat"
    and erase :: "nat \<Rightarrow> 'm \<Rightarrow> 'm option"
  assumes subscript_law: "ok m \<Longrightarrow> room m \<Longrightarrow> key k \<Longrightarrow>
      \<exists>b m'. subscript k m = Some (b, m') \<and> ok m' \<and> at m' k b \<and> view m' = view m"
    and deref_law: "at m k b \<Longrightarrow> deref m b = view m k"
    and assign_law: "at m k b \<Longrightarrow>
      ok (assign m b v) \<and> at (assign m b v) k b \<and> view (assign m b v) = (view m)(k := v)"
    and find_law: "ok m \<Longrightarrow> key k \<Longrightarrow> \<exists>i. find k m = Some i \<and>
      (i = endp m \<longrightarrow> view m k = dflt) \<and> (i \<noteq> endp m \<longrightarrow> at m k i)"
    and erase_law: "at m k i \<Longrightarrow>
      \<exists>m'. erase i m = Some m' \<and> ok m' \<and> view m' = (view m)(k := dflt)"
begin

text \<open>Updating the value of a key through a reference, as in \<open>table[k] = f(table[k])\<close>.\<close>

lemma subscript_assign:
  assumes "ok m" and "room m" and "key k"
  shows "\<exists>b m'. subscript k m = Some (b, m') \<and> deref m' b = view m k \<and>
    ok (assign m' b v) \<and> view (assign m' b v) = (view m)(k := v)"
proof -
  obtain b m' where s: "subscript k m = Some (b, m')" "ok m'" "at m' k b" "view m' = view m"
    using subscript_law [OF assms] by blast
  then show ?thesis using deref_law [OF s(3)] assign_law [OF s(3), of v] by auto
qed

text \<open>Two assignments through the same reference leave the last value.\<close>

lemma assign_assign:
  assumes "at m k b"
  shows "view (assign (assign m b v) b w) = (view m)(k := w)"
proof -
  have "at (assign m b v) k b" and v: "view (assign m b v) = (view m)(k := v)"
    using assign_law [OF assms, of v] by auto
  then show ?thesis using assign_law [of "assign m b v" k b w] by simp
qed

end

context dense_table
begin

lemma refers_map:
  assumes "refers P m k b"
  shows "dm_map P m k = Some (snd (Buckets m ! b))"
proof -
  have r: "dm_inv P m" "valid_key P k" "b < NumBuckets m" "fst (Buckets m ! b) = k"
    using assms by (auto simp: refers_def)
  then have "b < length (Buckets m)" "NumBuckets m \<noteq> 0" by (auto simp: dm_inv_length)
  with r show ?thesis using table_map_nth [OF dm_inv_table [OF r(1)], of b] by (simp add: dm_map_def)
qed

lemma refers_setSecond:
  assumes "refers P m k b"
  shows "refers P (setSecond m b v) k b" and "dm_map P (setSecond m b v) = (dm_map P m)(k \<mapsto> v)"
proof -
  have r: "dm_inv P m" "valid_key P k" "b < NumBuckets m" "Buckets m ! b = (k, snd (Buckets m ! b))"
    using assms by (auto simp: refers_def prod_eq_iff)
  then have "b < length (Buckets m)" by (simp add: dm_inv_length)
  moreover have "fst (Buckets m ! b) = k" using assms by (simp add: refers_def)
  ultimately
  show "refers P (setSecond m b v) k b" "dm_map P (setSecond m b v) = (dm_map P m)(k \<mapsto> v)"
    using setSecond_spec [OF r(1,3,4,2), of v] r(1-3) by (simp_all add: refers_def setSecond_def)
qed

lemma view_purge:
  assumes "purge_le P f (dm_map P m)" and "\<And>v. isPurgeable P v \<Longrightarrow> v = valueInit P"
  shows "dm_view P m = (\<lambda>k. case f k of None \<Rightarrow> valueInit P | Some v \<Rightarrow> v)"
  using purge_le_default [OF assms(1), of "valueInit P"] assms(2) by (simp add: dm_view_def fun_eq_iff)

lemma ref_table_DenseMap:
  assumes pv: "\<And>v. isPurgeable P v \<Longrightarrow> v = valueInit P"
  shows "ref_table (dm_inv P) (\<lambda>m. NumBuckets m < 2 ^ 30) (valid_key P) (dm_view P) (valueInit P)
    (refers P) (FindAndConstruct P) getSecond setSecond (dm_find P) dm_end (dm_erase_iterator P)"
proof
  fix m k assume a: "dm_inv P m" "NumBuckets m < 2 ^ 30" "valid_key P k"
  let ?w = "case dm_map P m k of None \<Rightarrow> valueInit P | Some w \<Rightarrow> w"
  obtain b m' where f: "FindAndConstruct P k m = Some (b, m')" "dm_inv P m'" "b < NumBuckets m'"
      "Buckets m' ! b = (k, ?w)" "purge_le P ((dm_map P m)(k \<mapsto> ?w)) (dm_map P m')"
    using FindAndConstruct_spec [OF a(1,3,2)] by blast
  have "dm_view P m' = (\<lambda>j. case ((dm_map P m)(k \<mapsto> ?w)) j of None \<Rightarrow> valueInit P | Some v \<Rightarrow> v)"
    using f(5) pv by (rule view_purge)
  then have "dm_view P m' = dm_view P m"
    by (auto simp: dm_view_def fun_eq_iff split: option.splits)
  with f a(3) show "\<exists>b m'. FindAndConstruct P k m = Some (b, m') \<and> dm_inv P m' \<and>
      refers P m' k b \<and> dm_view P m' = dm_view P m" by (auto simp: refers_def)
next
  fix m k b assume "refers P m k b"
  then show "getSecond m b = dm_view P m k" by (simp add: refers_map getSecond_def dm_view_def)
next
  fix m k b v assume r: "refers P m k b"
  then show "dm_inv P (setSecond m b v) \<and> refers P (setSecond m b v) k b \<and>
      dm_view P (setSecond m b v) = (dm_view P m)(k := v)"
    using refers_setSecond [OF r, of v] by (auto simp: refers_def dm_view_def fun_eq_iff)
next
  fix m k assume a: "dm_inv P m" "valid_key P k"
  show "\<exists>i. dm_find P k m = Some i \<and> (i = dm_end m \<longrightarrow> dm_view P m k = valueInit P) \<and>
      (i \<noteq> dm_end m \<longrightarrow> refers P m k i)"
    using dm_find_spec [OF a] a
    by (auto simp: dm_view_def refers_def dm_end_def split: option.splits)
next
  fix m k i assume r: "refers P m k i"
  then have a: "dm_inv P m" "valid_key P k" "i < NumBuckets m" "Buckets m ! i = (k, snd (Buckets m ! i))"
    by (auto simp: refers_def prod_eq_iff)
  obtain m' where m': "erase_bucket P i m = Some m'" "dm_inv P m'"
      "dm_map P m' = (dm_map P m)(k := None) \<or> dm_map P m' = purged P ((dm_map P m)(k := None))"
    using erase_bucket_spec [OF a(1,3,4,2)] by blast
  then have "purge_le P ((dm_map P m)(k := None)) (dm_map P m')" by (auto intro: purge_le_purged)
  from view_purge [OF this] pv have "dm_view P m' = (dm_view P m)(k := valueInit P)"
    by (auto simp: dm_view_def fun_eq_iff)
  with m' show "\<exists>m'. dm_erase_iterator P i m = Some m' \<and> dm_inv P m' \<and>
      dm_view P m' = (dm_view P m)(k := valueInit P)" by (simp add: dm_erase_iterator_def)
qed

end

interpretation rc: ref_table "dm_inv (RefcountMap_policy fresh)" "\<lambda>m. NumBuckets m < 2 ^ 30"
  "valid_key (RefcountMap_policy fresh)" "dm_view (RefcountMap_policy fresh)" "0 :: u64"
  "refers (RefcountMap_policy fresh)" "FindAndConstruct (RefcountMap_policy fresh)" getSecond setSecond
  "dm_find (RefcountMap_policy fresh)" dm_end "dm_erase_iterator (RefcountMap_policy fresh)" for fresh
  using refs.ref_table_DenseMap [of fresh] by simp

subsection \<open>What the operations promise\<close>

text \<open>A table with one entry, on which the properties are instantiated.\<close>

definition sample_table :: "(nat \<Rightarrow> DisguisedPtr \<times> u64) \<Rightarrow> RefcountMap" where
  "sample_table fresh =
     (case try_emplace (RefcountMap_policy fresh) (disguised 0x1000) 8 (DenseMap_new (RefcountMap_policy fresh) 0)
      of Some (_, _, m) \<Rightarrow> m | None \<Rightarrow> DenseMap_new (RefcountMap_policy fresh) 0)"

lemma new_RefcountMap:
  "dm_inv (RefcountMap_policy fresh) (DenseMap_new (RefcountMap_policy fresh) 0)"
  "dm_map (RefcountMap_policy fresh) (DenseMap_new (RefcountMap_policy fresh) 0) = Map.empty"
  "NumBuckets (DenseMap_new (RefcountMap_policy fresh) 0) = 0"
  using refs.dm_new_spec [of fresh 0]
  by (simp_all add: DenseMap_new_def dm_init_def allocateBuckets_def getMinBucketToReserveForEntries_def)

lemma sample_table:
  "dm_inv (RefcountMap_policy fresh) (sample_table fresh)"
  "dm_map (RefcountMap_policy fresh) (sample_table fresh) = [disguised 0x1000 \<mapsto> 8]"
  "NumBuckets (sample_table fresh) < 2 ^ 30"
proof -
  let ?P = "RefcountMap_policy fresh"
  have k: "valid_key ?P (disguised 0x1000)" by (simp add: valid_key_RefcountMap)
  obtain b m' where m': "try_emplace ?P (disguised 0x1000) 8 (DenseMap_new ?P 0) = Some (Some b, True, m')"
      "dm_inv ?P m'" "dm_map ?P m' (disguised 0x1000) = Some 8"
      "purge_le ?P ((dm_map ?P (DenseMap_new ?P 0))(disguised 0x1000 \<mapsto> 8)) (dm_map ?P m')"
      "NumBuckets m' \<le> 4"
    using refs.try_emplace_absent [OF new_RefcountMap(1) k, of 8] new_RefcountMap(2,3) [of fresh] by auto
  have "dm_map ?P m' = [disguised 0x1000 \<mapsto> 8]"
    using m'(3,4) by (auto simp: new_RefcountMap(2) purge_le_def fun_eq_iff) metis
  with m' show "dm_inv ?P (sample_table fresh)" "dm_map ?P (sample_table fresh) = [disguised 0x1000 \<mapsto> 8]"
    "NumBuckets (sample_table fresh) < 2 ^ 30"
    by (simp_all add: sample_table_def)
qed

lemma key_info_RefcountMap: "key_info (keyInfo (RefcountMap_policy fresh))"
  by (simp add: disguised_info.key_info_axioms)

text \<open>
  C11: a lookup in a well-formed table ends, never with the corruption error: it returns the
  bucket of the key when the key is present, and otherwise reports its absence with a bucket
  for inserting it, which is missing only when the table has no buckets.
\<close>

theorem LookupBucketFor_correct:
  assumes "key_info (keyInfo P)" and "dm_inv P m" and "valid_key P k"
  shows "case dm_map P m k of
      Some v \<Rightarrow> \<exists>i < NumBuckets m. Buckets m ! i = (k, v) \<and> LookupBucketFor P m k = Some (True, Some i)
    | None \<Rightarrow> \<exists>tb. LookupBucketFor P m k = Some (False, tb) \<and> (tb = None \<longleftrightarrow> NumBuckets m = 0) \<and>
               (\<forall>i. tb = Some i \<longrightarrow> i < NumBuckets m \<and> free_slot P (Buckets m ! i))"
proof -
  from assms(1) have D: "dense_table P" by (simp add: dense_table_iff)
  show ?thesis
    using dense_table.lookup_present [OF D assms(2), of k]
      dense_table.lookup_missing [OF D assms(2) _ assms(3)]
    by (cases "dm_map P m k") auto
qed

theorem LookupBucketFor_correct_witness:
  "\<exists>i. LookupBucketFor (RefcountMap_policy (\<lambda>_. (disguised 0, 0)))
         (sample_table (\<lambda>_. (disguised 0, 0))) (disguised 0x1000) = Some (True, Some i)"
  using LookupBucketFor_correct [OF key_info_RefcountMap sample_table(1), of "\<lambda>_. (disguised 0, 0)" "disguised 0x1000"]
  by (auto simp: sample_table(2) valid_key_RefcountMap)

text \<open>
  C12: inserting into a well-formed table of at most \<open>2 ^ 29\<close> buckets returns. A key that is
  present keeps its value and the table is unchanged; a new key is added, the invariant is
  kept, and the only other change is that purgeable entries may have been dropped.
\<close>

theorem try_emplace_correct:
  assumes "key_info (keyInfo P)" and "dm_inv P m" and "valid_key P k" and "NumBuckets m < 2 ^ 30"
  shows "case dm_map P m k of
      Some w \<Rightarrow> \<exists>b < NumBuckets m. try_emplace P k v m = Some (Some b, False, m) \<and> Buckets m ! b = (k, w)
    | None \<Rightarrow> \<exists>b m'. try_emplace P k v m = Some (Some b, True, m') \<and> dm_inv P m' \<and>
               b < NumBuckets m' \<and> Buckets m' ! b = (k, v) \<and> dm_map P m' k = Some v \<and>
               purge_le P ((dm_map P m)(k \<mapsto> v)) (dm_map P m')"
proof -
  from assms(1) have D: "dense_table P" by (simp add: dense_table_iff)
  show ?thesis
    using dense_table.try_emplace_present [OF D assms(2), of k]
      dense_table.try_emplace_absent [OF D assms(2,3) _ assms(4), of v]
    by (cases "dm_map P m k") auto
qed

theorem try_emplace_correct_witness:
  "\<exists>b m'. try_emplace (RefcountMap_policy (\<lambda>_. (disguised 0, 0))) (disguised 0x2000) 4
         (sample_table (\<lambda>_. (disguised 0, 0))) = Some (Some b, True, m') \<and>
     dm_map (RefcountMap_policy (\<lambda>_. (disguised 0, 0))) m' (disguised 0x2000) = Some 4"
  using try_emplace_correct [OF key_info_RefcountMap sample_table(1) _ sample_table(3),
      of "\<lambda>_. (disguised 0, 0)" "disguised 0x2000" 4]
  by (auto simp: sample_table(2) valid_key_RefcountMap)

text \<open>
  C13: erasing a key removes it from the map (compaction may also drop purgeable entries),
  keeps the invariant and reports whether the key was there.
\<close>

theorem dm_erase_correct:
  assumes "key_info (keyInfo P)" and "dm_inv P m" and "valid_key P k"
  shows "\<exists>m'. dm_erase P k m = Some (k \<in> dom (dm_map P m), m') \<and> dm_inv P m' \<and>
    dm_map P m' k = None \<and> purge_le P ((dm_map P m)(k := None)) (dm_map P m')"
proof -
  from assms(1) have D: "dense_table P" by (simp add: dense_table_iff)
  show ?thesis
  proof (cases "dm_map P m k")
    case None
    then show ?thesis
      using dense_table.dm_erase_absent [OF D assms(2,3) None] assms(2) by (simp add: fun_upd_idem domIff)
  next
    case (Some w)
    then obtain m' where "dm_erase P k m = Some (True, m')" "dm_inv P m'"
        "dm_map P m' = (dm_map P m)(k := None) \<or> dm_map P m' = purged P ((dm_map P m)(k := None))"
      using dense_table.dm_erase_present [OF D assms(2,3) Some] by blast
    then have "dm_map P m' k = None" "purge_le P ((dm_map P m)(k := None)) (dm_map P m')"
      by (auto simp: purge_le_purged) (simp add: purged_def)
    with \<open>dm_erase P k m = _\<close> \<open>dm_inv P m'\<close> Some show ?thesis by auto
  qed
qed

theorem dm_erase_correct_witness:
  "\<exists>m'. dm_erase (RefcountMap_policy (\<lambda>_. (disguised 0, 0))) (disguised 0x1000)
         (sample_table (\<lambda>_. (disguised 0, 0))) = Some (True, m')"
  using dm_erase_correct [OF key_info_RefcountMap sample_table(1), of "\<lambda>_. (disguised 0, 0)" "disguised 0x1000"]
  by (auto simp: sample_table(2) valid_key_RefcountMap)

text \<open>
  C18: iterating over a table visits each of its entries exactly once, and comparing two tables
  with \<open>operator==\<close> decides whether they hold the same entries.
\<close>

theorem dm_iterate_equal_correct:
  assumes "key_info (keyInfo P)" and "dm_inv P m" and "dm_inv P m'"
  shows "distinct (map fst (dm_iterate P m)) \<and> map_of (dm_iterate P m) = dm_map P m \<and>
    length (dm_iterate P m) = dm_size m \<and> dm_equal P m m' = Some (dm_map P m = dm_map P m')"
proof -
  from assms(1) have D: "dense_table P" by (simp add: dense_table_iff)
  show ?thesis
    using dense_table.dm_iterate_map(1,2,4) [OF D assms(2)] dense_table.dm_equal_spec [OF D assms(2,3)]
    by (simp add: dm_size_def)
qed

theorem dm_iterate_equal_correct_witness:
  "dm_equal (RefcountMap_policy (\<lambda>_. (disguised 0, 0))) (sample_table (\<lambda>_. (disguised 0, 0)))
     (DenseMap_new (RefcountMap_policy (\<lambda>_. (disguised 0, 0))) 0) = Some False"
  using dm_iterate_equal_correct [OF key_info_RefcountMap sample_table(1) new_RefcountMap(1),
      of "\<lambda>_. (disguised 0, 0)"]
  by (simp add: sample_table(2) new_RefcountMap(2))

text \<open>
  C19: construction and \<open>clear\<close> give the empty map, a copy holds the same map whatever the
  target held before, and \<open>reserve\<close> and \<open>compact\<close> keep every entry that is not purgeable.
\<close>

theorem dm_whole_table_correct:
  assumes "key_info (keyInfo P)" and "dm_inv P m"
  shows "(dm_inv P (DenseMap_new P n) \<and> dm_map P (DenseMap_new P n) = Map.empty) \<and>
    (dm_inv P (dm_clear P m) \<and> dm_map P (dm_clear P m) = Map.empty) \<and>
    (dm_inv P (dm_copyFrom P m old) \<and> dm_map P (dm_copyFrom P m old) = dm_map P m) \<and>
    (\<exists>m'. dm_reserve P n m = Some m' \<and> dm_inv P m' \<and> purge_le P (dm_map P m) (dm_map P m')) \<and>
    (\<exists>m'. dm_compact P m = Some m' \<and> dm_inv P m' \<and> purge_le P (dm_map P m) (dm_map P m'))"
proof (intro conjI)
  from assms(1) have D: "dense_table P" by (simp add: dense_table_iff)
  show "dm_inv P (DenseMap_new P n)" "dm_map P (DenseMap_new P n) = Map.empty"
    using dense_table.dm_new_spec [OF D] by blast+
  show "dm_inv P (dm_clear P m)" "dm_map P (dm_clear P m) = Map.empty"
    using dense_table.dm_clear_spec [OF D assms(2)] by blast+
  show "dm_inv P (dm_copyFrom P m old)" "dm_map P (dm_copyFrom P m old) = dm_map P m"
    using dense_table.dm_copyFrom_spec [OF D assms(2)] by blast+
  show "\<exists>m'. dm_reserve P n m = Some m' \<and> dm_inv P m' \<and> purge_le P (dm_map P m) (dm_map P m')"
    using dense_table.dm_reserve_spec [OF D assms(2), of n] by (metis purge_le_purged purge_le_refl)
  show "\<exists>m'. dm_compact P m = Some m' \<and> dm_inv P m' \<and> purge_le P (dm_map P m) (dm_map P m')"
    using dense_table.dm_compact_spec [OF D assms(2) dm_inv_bound [OF assms(2)]]
    by (metis purge_le_purged purge_le_refl)
qed

theorem dm_whole_table_correct_witness:
  "dm_map (RefcountMap_policy (\<lambda>_. (disguised 0, 0)))
     (dm_clear (RefcountMap_policy (\<lambda>_. (disguised 0, 0))) (sample_table (\<lambda>_. (disguised 0, 0)))) = Map.empty"
  using dm_whole_table_correct [OF key_info_RefcountMap sample_table(1)] by blast

text \<open>
  C20: the size chosen for a requested number of entries is the least power of two above
  \<open>4n/3 + 1\<close>; it satisfies the inequality \<open>NumEntries * 4 < NumBuckets * 3\<close> that the code
  states as its purpose, so that the load limit is not reached by that many entries.
\<close>

theorem getMinBucketToReserveForEntries_correct:
  assumes "0 < n" and "n \<le> 2 ^ 29"
  shows "is_pow2 (getMinBucketToReserveForEntries n) \<and> 4 * n < 3 * getMinBucketToReserveForEntries n \<and>
    (\<forall>p. is_pow2 p \<and> 4 * n div 3 + 1 < p \<longrightarrow> getMinBucketToReserveForEntries n \<le> p)"
proof -
  define a where "a = 4 * n div 3 + 1"
  have a: "a < 2 ^ 31" using assms by (simp add: a_def)
  have "u32 (u32 (n * 4) div 3 + 1) = a" using assms by (simp add: u32_def a_def mult.commute)
  then have e: "getMinBucketToReserveForEntries n = unat (NextPowerOf2_32 (word_of_nat a))"
    using assms(1) by (simp add: getMinBucketToReserveForEntries_def)
  have u: "unat (word_of_nat a :: u32w) = a" using a by (intro unat_of_nat_u32) simp
  then have "unat (word_of_nat a :: u32w) < 2 ^ (LENGTH(32) - 1)" using a by simp
  then have npo: "is_pow2 (unat (NextPowerOf2_32 (word_of_nat a)))" "a < unat (NextPowerOf2_32 (word_of_nat a))"
    "\<forall>p. is_pow2 p \<and> a < p \<longrightarrow> unat (NextPowerOf2_32 (word_of_nat a)) \<le> p"
    using next_power_least [of NextPowerOf2_32 "word_of_nat a", OF _ NextPowerOf2_32_top_bit] u
    by (auto simp: NextPowerOf2_32_def [of 0])
  have "4 * n < 3 * a" unfolding a_def by simp
  then have "4 * n < 3 * getMinBucketToReserveForEntries n" using npo(2) unfolding e by linarith
  with npo show ?thesis unfolding e a_def by blast
qed

theorem getMinBucketToReserveForEntries_correct_witness:
  "getMinBucketToReserveForEntries 48 = 128"
proof -
  have "is_pow2 128" using is_pow2_power [of 7] by simp
  then have "getMinBucketToReserveForEntries 48 \<le> 128" "64 < getMinBucketToReserveForEntries 48"
    "is_pow2 (getMinBucketToReserveForEntries 48)"
    using getMinBucketToReserveForEntries_correct [of 48] by auto
  then show ?thesis by (simp add: getMinBucketToReserveForEntries_def u32_def NextPowerOf2_32_def Let_def)
qed

end
