(* ===== verification/Markgc.thy ===== *)
theory Markgc
  imports Prelude "HOL-Library.Monad_Syntax"
begin

text \<open>
  \<open>markgc.cpp\<close>: the build tool that rewrites the runtime's Mach-O image so that the dynamic
  linker does not run its initialisers and terminators. The mapped file is a list of bytes; a
  pointer into it is an offset. An access outside the file is undefined behaviour of the
  program and the value \<open>None\<close> of the model; the diagnostic output is left out, apart from the
  bytes that \<open>printf("%.16s")\<close> reads.

  The layout of the Mach-O and fat structures and the values of their constants come from the
  system headers \<open>mach-o/loader.h\<close> and \<open>mach-o/fat.h\<close>, which are not part of the repository.
  They are the parameter \<open>macho_abi\<close>; \<open>macho_layout\<close> names what the tool relies on.
\<close>

subsection \<open>Bytes and byte order\<close>

datatype Endian = BigEndian | LittleEndian

fun OtherEndian :: "Endian \<Rightarrow> Endian" where
  "OtherEndian BigEndian = LittleEndian"
| "OtherEndian LittleEndian = BigEndian"

fun le_nat :: "u8 list \<Rightarrow> nat" where
  "le_nat [] = 0"
| "le_nat (b # bs) = unat b + 256 * le_nat bs"

fun le_bytes :: "nat \<Rightarrow> nat \<Rightarrow> u8 list" where
  "le_bytes 0 v = []"
| "le_bytes (Suc n) v = word_of_nat (v mod 256) # le_bytes n (v div 256)"

fun decode :: "Endian \<Rightarrow> u8 list \<Rightarrow> nat" where
  "decode LittleEndian bs = le_nat bs"
| "decode BigEndian bs = le_nat (rev bs)"

fun encode :: "Endian \<Rightarrow> nat \<Rightarrow> nat \<Rightarrow> u8 list" where
  "encode LittleEndian n v = le_bytes n v"
| "encode BigEndian n v = rev (le_bytes n v)"

definition load_bytes :: "u8 list \<Rightarrow> nat \<Rightarrow> nat \<Rightarrow> u8 list option" where
  "load_bytes buf off n = (if off + n \<le> length buf then Some (take n (drop off buf)) else None)"

definition store_bytes :: "u8 list \<Rightarrow> nat \<Rightarrow> u8 list \<Rightarrow> u8 list option" where
  "store_bytes buf off bs =
     (if off + length bs \<le> length buf
      then Some (take off buf @ bs @ drop (off + length bs) buf) else None)"

definition get16 :: "Endian \<Rightarrow> u8 list \<Rightarrow> nat \<Rightarrow> u16 option" where
  "get16 E buf from = map_option (\<lambda>bs. word_of_nat (decode E bs)) (load_bytes buf from 2)"

definition set16 :: "Endian \<Rightarrow> u8 list \<Rightarrow> nat \<Rightarrow> u16 \<Rightarrow> u8 list option" where
  "set16 E buf into value = store_bytes buf into (encode E 2 (unat value))"

definition get32 :: "Endian \<Rightarrow> u8 list \<Rightarrow> nat \<Rightarrow> u32w option" where
  "get32 E buf from = map_option (\<lambda>bs. word_of_nat (decode E bs)) (load_bytes buf from 4)"

definition set32 :: "Endian \<Rightarrow> u8 list \<Rightarrow> nat \<Rightarrow> u32w \<Rightarrow> u8 list option" where
  "set32 E buf into value = store_bytes buf into (encode E 4 (unat value))"

definition get64 :: "Endian \<Rightarrow> u8 list \<Rightarrow> nat \<Rightarrow> u64 option" where
  "get64 E buf from = map_option (\<lambda>bs. word_of_nat (decode E bs)) (load_bytes buf from 8)"

definition set64 :: "Endian \<Rightarrow> u8 list \<Rightarrow> nat \<Rightarrow> u64 \<Rightarrow> u8 list option" where
  "set64 E buf into value = store_bytes buf into (encode E 8 (unat value))"

text \<open>Bit fields are numbered from the top in big-endian and from the bottom in little-endian words.\<close>

fun bit_shift :: "Endian \<Rightarrow> nat \<Rightarrow> nat \<Rightarrow> nat" where
  "bit_shift BigEndian firstBit bitCount = 32 - firstBit - bitCount"
| "bit_shift LittleEndian firstBit bitCount = firstBit"

definition getBitsRaw :: "Endian \<Rightarrow> u32w \<Rightarrow> nat \<Rightarrow> nat \<Rightarrow> u32w" where
  "getBitsRaw E from firstBit bitCount =
     drop_bit (bit_shift E firstBit bitCount) from AND (push_bit bitCount 1 - 1)"

definition setBitsRaw :: "Endian \<Rightarrow> u32w \<Rightarrow> u32w \<Rightarrow> nat \<Rightarrow> nat \<Rightarrow> u32w" where
  "setBitsRaw E into value firstBit bitCount =
     (let temp = into;
          mask = push_bit bitCount 1 - 1;
          temp = temp AND NOT (push_bit (bit_shift E firstBit bitCount) mask);
          temp = temp OR push_bit (bit_shift E firstBit bitCount) (value AND mask)
      in temp)"

definition getBits :: "Endian \<Rightarrow> u8 list \<Rightarrow> nat \<Rightarrow> nat \<Rightarrow> nat \<Rightarrow> u32w option" where
  "getBits E buf from firstBit bitCount = do {
     v \<leftarrow> get32 E buf from;
     Some (getBitsRaw E v firstBit bitCount) }"

definition setBits :: "Endian \<Rightarrow> u8 list \<Rightarrow> nat \<Rightarrow> u32w \<Rightarrow> nat \<Rightarrow> nat \<Rightarrow> u8 list option" where
  "setBits E buf into value firstBit bitCount = do {
     temp \<leftarrow> get32 E buf into;
     set32 E buf into (setBitsRaw E temp value firstBit bitCount) }"

subsection \<open>Pointer sizes\<close>

datatype Pointer = Pointer32 Endian | Pointer64 Endian

fun endian_of :: "Pointer \<Rightarrow> Endian" where
  "endian_of (Pointer32 E) = E"
| "endian_of (Pointer64 E) = E"

fun is64 :: "Pointer \<Rightarrow> bool" where
  "is64 (Pointer32 E) = False"
| "is64 (Pointer64 E) = True"

fun getP :: "Pointer \<Rightarrow> u8 list \<Rightarrow> nat \<Rightarrow> u64 option" where
  "getP (Pointer32 E) buf from = map_option ucast (get32 E buf from)"
| "getP (Pointer64 E) buf from = get64 E buf from"

fun setP :: "Pointer \<Rightarrow> u8 list \<Rightarrow> nat \<Rightarrow> u64 \<Rightarrow> u8 list option" where
  "setP (Pointer32 E) buf into value = set32 E buf into (ucast value)"
| "setP (Pointer64 E) buf into value = set64 E buf into value"

subsection \<open>The structures of the file\<close>

datatype header_field = h_magic | h_cputype | h_cpusubtype | h_filetype | h_ncmds | h_sizeofcmds
  | h_flags | h_reserved
datatype load_field = l_cmd | l_cmdsize
datatype segment_field = s_cmd | s_cmdsize | s_maxprot | s_initprot | s_nsects | s_flags
datatype segment_pfield = s_vmaddr | s_vmsize | s_fileoff | s_filesize
datatype section_name = n_sectname | n_segname
datatype section_field = t_offset | t_align | t_reloff | t_nreloc | t_flags | t_reserved1 | t_reserved2
datatype section_pfield = t_addr | t_size
datatype fat_field = f_magic | f_nfat_arch
datatype arch_field = a_cputype | a_cpusubtype | a_offset | a_size

text \<open>Offsets and sizes, for the 32-bit and the 64-bit variant of a structure, and constants.\<close>

record macho_abi =
  CurrentEndian :: Endian
  header_off :: "bool \<Rightarrow> header_field \<Rightarrow> nat"
  sizeof_header :: "bool \<Rightarrow> nat"
  load_off :: "load_field \<Rightarrow> nat"
  segment_off :: "bool \<Rightarrow> segment_field \<Rightarrow> nat"
  segment_poff :: "bool \<Rightarrow> segment_pfield \<Rightarrow> nat"
  segment_name_off :: "bool \<Rightarrow> nat"
  sizeof_segment :: "bool \<Rightarrow> nat"
  section_name_off :: "bool \<Rightarrow> section_name \<Rightarrow> nat"
  section_off :: "bool \<Rightarrow> section_field \<Rightarrow> nat"
  section_poff :: "bool \<Rightarrow> section_pfield \<Rightarrow> nat"
  sizeof_section :: "bool \<Rightarrow> nat"
  fat_off :: "fat_field \<Rightarrow> nat"
  sizeof_fat_header :: nat
  arch_off :: "arch_field \<Rightarrow> nat"
  sizeof_fat_arch :: nat
  MH_MAGIC :: u32w
  MH_CIGAM :: u32w
  MH_MAGIC_64 :: u32w
  MH_CIGAM_64 :: u32w
  FAT_MAGIC :: u32w
  FAT_CIGAM :: u32w
  LC_SEGMENT :: u32w
  LC_SEGMENT_64 :: u32w
  SECTION_TYPE :: u32w
  CPU_TYPE_ARM64 :: u32w

text \<open>The accessors of \<open>macho_header\<close>, \<open>macho_load_command\<close>, \<open>macho_segment_command\<close> and
  \<open>macho_section\<close>: one getter and one setter per class and field type, the field an argument.\<close>

definition macho_header_get ::
  "macho_abi \<Rightarrow> Pointer \<Rightarrow> u8 list \<Rightarrow> nat \<Rightarrow> header_field \<Rightarrow> u32w option" where
  "macho_header_get A P buf hdr f = get32 (endian_of P) buf (hdr + header_off A (is64 P) f)"

definition macho_header_set ::
  "macho_abi \<Rightarrow> Pointer \<Rightarrow> u8 list \<Rightarrow> nat \<Rightarrow> header_field \<Rightarrow> u32w \<Rightarrow> u8 list option" where
  "macho_header_set A P buf hdr f value =
     set32 (endian_of P) buf (hdr + header_off A (is64 P) f) value"

definition macho_load_command_get ::
  "macho_abi \<Rightarrow> Pointer \<Rightarrow> u8 list \<Rightarrow> nat \<Rightarrow> load_field \<Rightarrow> u32w option" where
  "macho_load_command_get A P buf command f = get32 (endian_of P) buf (command + load_off A f)"

definition macho_load_command_set ::
  "macho_abi \<Rightarrow> Pointer \<Rightarrow> u8 list \<Rightarrow> nat \<Rightarrow> load_field \<Rightarrow> u32w \<Rightarrow> u8 list option" where
  "macho_load_command_set A P buf command f value =
     set32 (endian_of P) buf (command + load_off A f) value"

definition macho_segment_get ::
  "macho_abi \<Rightarrow> Pointer \<Rightarrow> u8 list \<Rightarrow> nat \<Rightarrow> segment_field \<Rightarrow> u32w option" where
  "macho_segment_get A P buf seg f = get32 (endian_of P) buf (seg + segment_off A (is64 P) f)"

definition macho_segment_set ::
  "macho_abi \<Rightarrow> Pointer \<Rightarrow> u8 list \<Rightarrow> nat \<Rightarrow> segment_field \<Rightarrow> u32w \<Rightarrow> u8 list option" where
  "macho_segment_set A P buf seg f value =
     set32 (endian_of P) buf (seg + segment_off A (is64 P) f) value"

definition macho_segment_getP ::
  "macho_abi \<Rightarrow> Pointer \<Rightarrow> u8 list \<Rightarrow> nat \<Rightarrow> segment_pfield \<Rightarrow> u64 option" where
  "macho_segment_getP A P buf seg f = getP P buf (seg + segment_poff A (is64 P) f)"

definition macho_segment_setP ::
  "macho_abi \<Rightarrow> Pointer \<Rightarrow> u8 list \<Rightarrow> nat \<Rightarrow> segment_pfield \<Rightarrow> u64 \<Rightarrow> u8 list option" where
  "macho_segment_setP A P buf seg f value = setP P buf (seg + segment_poff A (is64 P) f) value"

definition macho_section_get ::
  "macho_abi \<Rightarrow> Pointer \<Rightarrow> u8 list \<Rightarrow> nat \<Rightarrow> section_field \<Rightarrow> u32w option" where
  "macho_section_get A P buf sect f = get32 (endian_of P) buf (sect + section_off A (is64 P) f)"

definition macho_section_set ::
  "macho_abi \<Rightarrow> Pointer \<Rightarrow> u8 list \<Rightarrow> nat \<Rightarrow> section_field \<Rightarrow> u32w \<Rightarrow> u8 list option" where
  "macho_section_set A P buf sect f value =
     set32 (endian_of P) buf (sect + section_off A (is64 P) f) value"

definition macho_section_getP ::
  "macho_abi \<Rightarrow> Pointer \<Rightarrow> u8 list \<Rightarrow> nat \<Rightarrow> section_pfield \<Rightarrow> u64 option" where
  "macho_section_getP A P buf sect f = getP P buf (sect + section_poff A (is64 P) f)"

definition macho_section_setP ::
  "macho_abi \<Rightarrow> Pointer \<Rightarrow> u8 list \<Rightarrow> nat \<Rightarrow> section_pfield \<Rightarrow> u64 \<Rightarrow> u8 list option" where
  "macho_section_setP A P buf sect f value = setP P buf (sect + section_poff A (is64 P) f) value"

text \<open>The name accessors return a pointer to the name, the offset of its first byte;
  \<open>strncpy\<close> pads with zeros.\<close>

definition macho_segment_segname :: "macho_abi \<Rightarrow> Pointer \<Rightarrow> nat \<Rightarrow> nat" where
  "macho_segment_segname A P seg = seg + segment_name_off A (is64 P)"

definition macho_section_name :: "macho_abi \<Rightarrow> Pointer \<Rightarrow> nat \<Rightarrow> section_name \<Rightarrow> nat" where
  "macho_section_name A P sect f = sect + section_name_off A (is64 P) f"

definition strncpy_bytes :: "u8 list \<Rightarrow> nat \<Rightarrow> u8 list" where
  "strncpy_bytes s n = take n (takeWhile (\<lambda>c. c \<noteq> 0) s @ replicate n 0)"

definition macho_segment_set_segname ::
  "macho_abi \<Rightarrow> Pointer \<Rightarrow> u8 list \<Rightarrow> nat \<Rightarrow> u8 list \<Rightarrow> u8 list option" where
  "macho_segment_set_segname A P buf seg value =
     store_bytes buf (macho_segment_segname A P seg) (strncpy_bytes value 16)"

definition macho_section_set_name ::
  "macho_abi \<Rightarrow> Pointer \<Rightarrow> u8 list \<Rightarrow> nat \<Rightarrow> section_name \<Rightarrow> u8 list \<Rightarrow> u8 list option" where
  "macho_section_set_name A P buf sect f value =
     store_bytes buf (macho_section_name A P sect f) (strncpy_bytes value 16)"

subsection \<open>Names\<close>

text \<open>
  Names are at most 16 bytes and may lack a terminator. \<open>strncmp_eq\<close> is \<open>strncmp(...) == 0\<close>
  between the bytes at an offset and a literal; it reads no further than the first difference
  or the terminator. \<open>strnlen_read\<close> is what \<open>"%.16s"\<close> reads.
\<close>

definition literal :: "string \<Rightarrow> u8 list" where
  "literal s = map (\<lambda>c. word_of_nat (of_char c)) s"

fun strncmp_eq :: "u8 list \<Rightarrow> nat \<Rightarrow> u8 list \<Rightarrow> nat \<Rightarrow> bool option" where
  "strncmp_eq buf lhs rhs 0 = Some True"
| "strncmp_eq buf lhs rhs (Suc n) =
     (if lhs < length buf then
        let a = buf ! lhs; b = (case rhs of [] \<Rightarrow> 0 | c # _ \<Rightarrow> c) in
        if a \<noteq> b then Some False
        else if a = 0 then Some True
        else strncmp_eq buf (lhs + 1) (tl rhs) n
      else None)"

fun strnlen_read :: "u8 list \<Rightarrow> nat \<Rightarrow> nat \<Rightarrow> nat option" where
  "strnlen_read buf off 0 = Some 0"
| "strnlen_read buf off (Suc n) =
     (if off < length buf then
        if buf ! off = 0 then Some 0 else map_option Suc (strnlen_read buf (off + 1) n)
      else None)"

definition segnameEquals :: "u8 list \<Rightarrow> nat \<Rightarrow> u8 list \<Rightarrow> bool option" where
  "segnameEquals buf lhs rhs = strncmp_eq buf lhs rhs 16"

definition segnameStartsWith :: "u8 list \<Rightarrow> nat \<Rightarrow> u8 list \<Rightarrow> bool option" where
  "segnameStartsWith buf segname prefix = strncmp_eq buf segname prefix (length prefix)"

definition sectnameEquals :: "u8 list \<Rightarrow> nat \<Rightarrow> u8 list \<Rightarrow> bool option" where
  "sectnameEquals buf lhs rhs = segnameEquals buf lhs rhs"

subsection \<open>Rewriting sections\<close>

text \<open>One of the three \<open>if\<close> blocks of \<open>dosect\<close>.\<close>

definition disable_section ::
  "macho_abi \<Rightarrow> Pointer \<Rightarrow> nat \<Rightarrow> u8 list \<Rightarrow> u8 list \<Rightarrow> u8 list \<Rightarrow> u8 list \<Rightarrow> u8 list option" where
  "disable_section A P sect seg_prefix sect_name new_name buf = do {
     in_seg \<leftarrow> segnameStartsWith buf (macho_section_name A P sect n_segname) seg_prefix;
     is_sect \<leftarrow> (if in_seg then sectnameEquals buf (macho_section_name A P sect n_sectname) sect_name
                 else Some False);
     if is_sect then do {
       flags \<leftarrow> macho_section_get A P buf sect t_flags;
       buf \<leftarrow> macho_section_set A P buf sect t_flags (flags AND NOT (SECTION_TYPE A));
       macho_section_set_name A P buf sect n_sectname new_name }
     else Some buf }"

definition dosect :: "macho_abi \<Rightarrow> Pointer \<Rightarrow> nat \<Rightarrow> u8 list \<Rightarrow> u8 list option" where
  "dosect A P sect buf = do {
     _ \<leftarrow> strnlen_read buf (macho_section_name A P sect n_sectname) 16;
     _ \<leftarrow> strnlen_read buf (macho_section_name A P sect n_segname) 16;
     buf \<leftarrow> disable_section A P sect (literal ''__DATA'') (literal ''__mod_init_func'')
              (literal ''__objc_init_func'') buf;
     buf \<leftarrow> disable_section A P sect (literal ''__TEXT'') (literal ''__init_offsets'')
              (literal ''__objc_init_offs'') buf;
     disable_section A P sect (literal ''__DATA'') (literal ''__mod_term_func'')
       (literal ''__objc_term_func'') buf }"

text \<open>The loop re-reads \<open>nsects\<close> at every iteration.\<close>

function doseg_loop ::
  "macho_abi \<Rightarrow> Pointer \<Rightarrow> nat \<Rightarrow> nat \<Rightarrow> nat \<Rightarrow> u8 list \<Rightarrow> u8 list option" where
  "doseg_loop A P seg sect i buf =
     (case macho_segment_get A P buf seg s_nsects of
        None \<Rightarrow> None
      | Some nsects \<Rightarrow>
          if i < unat nsects then
            case dosect A P (sect + i * sizeof_section A (is64 P)) buf of
              None \<Rightarrow> None
            | Some buf \<Rightarrow> doseg_loop A P seg sect (i + 1) buf
          else Some buf)"
  by pat_completeness auto
termination
proof (relation "measure (\<lambda>(A, P, seg, sect, i, buf). 2 ^ 32 - i)", goal_cases)
  case (2 A P seg sect i buf nsects buf')
  have "unat nsects < 2 ^ 32" using unsigned_less [of nsects] by simp
  with 2 have "i < 2 ^ 32" by linarith
  then show ?case by simp
qed simp

declare doseg_loop.simps [simp del]

definition doseg :: "macho_abi \<Rightarrow> Pointer \<Rightarrow> nat \<Rightarrow> u8 list \<Rightarrow> u8 list option" where
  "doseg A P seg buf = do {
     _ \<leftarrow> strnlen_read buf (macho_segment_segname A P seg) 16;
     doseg_loop A P seg (seg + sizeof_segment A (is64 P)) 0 buf }"

function parse_macho_loop ::
  "macho_abi \<Rightarrow> Pointer \<Rightarrow> nat \<Rightarrow> nat \<Rightarrow> nat \<Rightarrow> u8 list \<Rightarrow> u8 list option" where
  "parse_macho_loop A P mh cmds c buf =
     (case macho_header_get A P buf mh h_ncmds of
        None \<Rightarrow> None
      | Some ncmds \<Rightarrow>
          if c < unat ncmds then
            case macho_load_command_get A P buf cmds l_cmdsize of
              None \<Rightarrow> None
            | Some cmdsize \<Rightarrow>
                (case macho_load_command_get A P buf cmds l_cmd of
                   None \<Rightarrow> None
                 | Some cmd \<Rightarrow>
                     (case (if cmd = LC_SEGMENT A \<or> cmd = LC_SEGMENT_64 A
                            then doseg A P cmds buf else Some buf) of
                        None \<Rightarrow> None
                      | Some buf \<Rightarrow> parse_macho_loop A P mh (cmds + unat cmdsize) (c + 1) buf))
          else Some buf)"
  by pat_completeness auto
termination
proof (relation "measure (\<lambda>(A, P, mh, cmds, c, buf). 2 ^ 32 - c)", goal_cases)
  case (2 A P mh cmds c buf ncmds cmdsize cmd buf')
  have "unat ncmds < 2 ^ 32" using unsigned_less [of ncmds] by simp
  with 2 have "c < 2 ^ 32" by linarith
  then show ?case by simp
qed simp

declare parse_macho_loop.simps [simp del]

definition parse_macho_P :: "macho_abi \<Rightarrow> Pointer \<Rightarrow> nat \<Rightarrow> u8 list \<Rightarrow> (bool \<times> u8 list) option" where
  "parse_macho_P A P mh buf = do {
     buf \<leftarrow> parse_macho_loop A P mh (mh + sizeof_header A (is64 P)) 0 buf;
     Some (True, buf) }"

text \<open>The slice starts at \<open>start\<close>; the result is the return value and the file.\<close>

definition parse_macho :: "macho_abi \<Rightarrow> nat \<Rightarrow> u8 list \<Rightarrow> (bool \<times> u8 list) option" where
  "parse_macho A start buf = do {
     magic \<leftarrow> get32 (CurrentEndian A) buf start;
     if magic = MH_MAGIC_64 A then parse_macho_P A (Pointer64 (CurrentEndian A)) start buf
     else if magic = MH_MAGIC A then parse_macho_P A (Pointer32 (CurrentEndian A)) start buf
     else if magic = MH_CIGAM_64 A
       then parse_macho_P A (Pointer64 (OtherEndian (CurrentEndian A))) start buf
     else if magic = MH_CIGAM A
       then parse_macho_P A (Pointer32 (OtherEndian (CurrentEndian A))) start buf
     else Some (False, buf) }"

subsection \<open>Fat files\<close>

definition fat_arch_get :: "macho_abi \<Rightarrow> u8 list \<Rightarrow> nat \<Rightarrow> arch_field \<Rightarrow> u32w option" where
  "fat_arch_get A buf i f =
     get32 BigEndian buf (sizeof_fat_header A + i * sizeof_fat_arch A + arch_off A f)"

function parse_fat_loop ::
  "macho_abi \<Rightarrow> nat \<Rightarrow> nat \<Rightarrow> nat \<Rightarrow> nat \<Rightarrow> u8 list \<Rightarrow> (bool \<times> u8 list) option" where
  "parse_fat_loop A fsize fat_arch_size nfat i buf =
     (if i < nfat then do {
        arch_cputype \<leftarrow> fat_arch_get A buf i a_cputype;
        arch_cpusubtype \<leftarrow> fat_arch_get A buf i a_cpusubtype;
        arch_offset \<leftarrow> map_option unat (fat_arch_get A buf i a_offset);
        arch_size \<leftarrow> map_option unat (fat_arch_get A buf i a_size);
        if arch_offset < fat_arch_size then Some (False, buf)
        else if arch_offset > fsize then Some (False, buf)
        else if arch_size > fsize then Some (False, buf)
        else if arch_offset > fsize - arch_size then Some (False, buf)
        else
          case parse_macho A arch_offset buf of
            None \<Rightarrow> None
          | Some (ok, buf) \<Rightarrow>
              if \<not> ok then Some (False, buf)
              else parse_fat_loop A fsize fat_arch_size nfat (i + 1) buf }
      else Some (True, buf))"
  by pat_completeness auto
termination
  by (relation "measure (\<lambda>(A, fsize, fas, nfat, i, buf). nfat - i)") auto

declare parse_fat_loop.simps [simp del]

text \<open>\<open>size_t\<close> arithmetic is checked for overflow at 64 bits; the architecture count is 32 bits.\<close>

definition parse_fat :: "macho_abi \<Rightarrow> u8 list \<Rightarrow> (bool \<times> u8 list) option" where
  "parse_fat A buf =
     (let fsize = length buf in
      if fsize < 4 then Some (False, buf)
      else do {
        magic \<leftarrow> get32 (CurrentEndian A) buf 0;
        if magic \<noteq> FAT_MAGIC A \<and> magic \<noteq> FAT_CIGAM A then parse_macho A 0 buf
        else if fsize < sizeof_fat_header A then Some (False, buf)
        else do {
          fat_magic \<leftarrow> get32 BigEndian buf (fat_off A f_magic);
          fat_nfat_arch \<leftarrow> map_option unat (get32 BigEndian buf (fat_off A f_nfat_arch));
          let fat_arch_size = fat_nfat_arch * sizeof_fat_arch A + sizeof_fat_header A;
          if fat_arch_size \<ge> 2 ^ 64 then Some (False, buf)
          else if fsize < fat_arch_size then Some (False, buf)
          else do {
            let fat_arch_plus_one_size = fat_arch_size + sizeof_fat_arch A;
            if fat_arch_plus_one_size \<ge> 2 ^ 64 then Some (False, buf)
            else do {
              nfat \<leftarrow> (if fsize \<ge> fat_arch_plus_one_size then
                         if fat_nfat_arch > 0 then do {
                           cputype \<leftarrow> fat_arch_get A buf fat_nfat_arch a_cputype;
                           Some (if cputype = CPU_TYPE_ARM64 A
                                 then u32 (fat_nfat_arch + 1) else fat_nfat_arch) }
                         else Some fat_nfat_arch
                       else Some fat_nfat_arch);
              parse_fat_loop A fsize fat_arch_size nfat 0 buf } } } })"

subsection \<open>Files\<close>

datatype file_state = Cannot_open | Cannot_stat | Cannot_map "u8 list" | File "u8 list"

definition processFile ::
  "macho_abi \<Rightarrow> (string \<Rightarrow> file_state) \<Rightarrow> string \<Rightarrow> (bool \<times> (string \<Rightarrow> file_state)) option" where
  "processFile A fs filename =
     (case fs filename of
        File buf \<Rightarrow> do {
          (result, buf) \<leftarrow> parse_fat A buf;
          Some (result, fs(filename := File buf)) }
      | _ \<Rightarrow> Some (False, fs))"

text \<open>\<open>main\<close> returns the exit status.\<close>

fun main_loop ::
  "macho_abi \<Rightarrow> string list \<Rightarrow> (string \<Rightarrow> file_state) \<Rightarrow> (int \<times> (string \<Rightarrow> file_state)) option" where
  "main_loop A [] fs = Some (0, fs)"
| "main_loop A (arg # args) fs = do {
     (ok, fs) \<leftarrow> processFile A fs arg;
     if \<not> ok then Some (1, fs) else main_loop A args fs }"

end
