(* ===== verification/MarkgcProofs.thy ===== *)
theory MarkgcProofs
  imports Markgc
begin

text \<open>
  Correctness of \<open>markgc\<close>: byte-order and bit-field accessors are inverse to each other; on a
  well-formed image the tool terminates without leaving the file, rewrites exactly the
  initialiser and terminator sections and leaves every other byte alone; the fat-file driver
  itself never reads outside the file.
\<close>

subsection \<open>Encoding\<close>

lemma length_le_bytes [simp]: "length (le_bytes n v) = n"
  by (induction n arbitrary: v) auto

lemma le_bytes_numeral:
  "le_bytes (numeral n) v = word_of_nat (v mod 256) # le_bytes (pred_numeral n) (v div 256)"
  by (simp only: numeral_eq_Suc le_bytes.simps)

lemma length_encode [simp]: "length (encode E n v) = n"
  by (cases E) auto

lemma le_nat_le_bytes: "le_nat (le_bytes n v) = v mod 256 ^ n"
proof (induction n arbitrary: v)
  case (Suc n)
  have "unat (word_of_nat (v mod 256) :: u8) = v mod 256" by (simp add: unat_of_nat)
  then show ?case using Suc by (simp add: mod_mult2_eq)
qed simp

lemma le_bytes_le_nat: "le_bytes (length bs) (le_nat bs) = bs"
proof (induction bs)
  case (Cons b bs)
  have b: "unat b < 256" using unsigned_less [of b] by simp
  then have "(unat b + 256 * le_nat bs) mod 256 = unat b" "(unat b + 256 * le_nat bs) div 256 = le_nat bs"
    by simp_all
  then show ?case using Cons by simp
qed simp

lemma decode_encode: "decode E (encode E n v) = v mod 256 ^ n"
  by (cases E) (simp_all add: le_nat_le_bytes)

lemma encode_decode: "encode E (length bs) (decode E bs) = bs"
  using le_bytes_le_nat [of bs] le_bytes_le_nat [of "rev bs"] by (cases E) simp_all

subsection \<open>Loads and stores\<close>

text \<open>\<open>same_outside S buf buf'\<close>: the two files agree outside the set \<open>S\<close> of offsets.\<close>

definition same_outside :: "nat set \<Rightarrow> u8 list \<Rightarrow> u8 list \<Rightarrow> bool" where
  "same_outside S buf buf' \<longleftrightarrow>
     length buf' = length buf \<and> (\<forall>i < length buf. i \<notin> S \<longrightarrow> buf' ! i = buf ! i)"

lemma same_outside_refl [simp]: "same_outside S buf buf"
  by (simp add: same_outside_def)

lemma same_outside_length: "same_outside S buf buf' \<Longrightarrow> length buf' = length buf"
  by (simp add: same_outside_def)

lemma same_outside_trans:
  "same_outside S a b \<Longrightarrow> same_outside T b c \<Longrightarrow> same_outside (S \<union> T) a c"
  by (simp add: same_outside_def)

lemma same_outside_mono: "same_outside S a b \<Longrightarrow> S \<subseteq> T \<Longrightarrow> same_outside T a b"
  by (auto simp: same_outside_def)

lemma load_bytes_in: "off + n \<le> length buf \<Longrightarrow> load_bytes buf off n = Some (take n (drop off buf))"
  by (simp add: load_bytes_def)

lemma slice_cong:
  assumes "same_outside S buf buf'" and "off + n \<le> length buf" and "{off..<off + n} \<inter> S = {}"
  shows "take n (drop off buf') = take n (drop off buf)"
proof (rule nth_equalityI)
  show "length (take n (drop off buf')) = length (take n (drop off buf))"
    using assms(1) by (simp add: same_outside_def)
next
  fix i assume "i < length (take n (drop off buf'))"
  then have "i < n" by simp
  then have "off + i < length buf" "off + i \<notin> S" using assms(2,3) by (auto simp: disjoint_iff)
  with \<open>i < n\<close> assms(1) show "take n (drop off buf') ! i = take n (drop off buf) ! i"
    by (simp add: same_outside_def)
qed

lemma load_cong:
  assumes "same_outside S buf buf'" and "{off..<off + n} \<inter> S = {}"
  shows "load_bytes buf' off n = load_bytes buf off n"
  using slice_cong [OF assms(1) _ assms(2)] same_outside_length [OF assms(1)]
  by (simp add: load_bytes_def)

lemma get32_cong:
  assumes "same_outside S buf buf'" and "{off..<off + 4} \<inter> S = {}"
  shows "get32 E buf' off = get32 E buf off"
  using load_cong [OF assms] by (simp add: get32_def)

lemma store_bytes_in:
  assumes "off + length bs \<le> length buf"
  shows "\<exists>buf'. store_bytes buf off bs = Some buf' \<and> same_outside {off..<off + length bs} buf buf' \<and>
    take (length bs) (drop off buf') = bs"
  using assms by (auto simp: store_bytes_def same_outside_def nth_append)

lemma store_bytes_spec:
  assumes "store_bytes buf off bs = Some buf'"
  shows "same_outside {off..<off + length bs} buf buf' \<and> load_bytes buf' off (length bs) = Some bs"
proof -
  from assms have o: "off + length bs \<le> length buf" by (auto simp: store_bytes_def split: if_splits)
  with store_bytes_in [OF o] assms show ?thesis
    by (auto simp: load_bytes_def same_outside_def)
qed

lemma get32_in: "off + 4 \<le> length buf \<Longrightarrow> \<exists>v. get32 E buf off = Some v"
  by (simp add: get32_def load_bytes_def)

lemma set32_in:
  assumes "off + 4 \<le> length buf"
  shows "\<exists>buf'. set32 E buf off v = Some buf' \<and> same_outside {off..<off + 4} buf buf' \<and>
    get32 E buf' off = Some v"
proof -
  obtain buf' where b: "store_bytes buf off (encode E 4 (unat v)) = Some buf'"
      "same_outside {off..<off + 4} buf buf'"
    using store_bytes_in [of off "encode E 4 (unat v)" buf] assms by auto
  have "unat v mod 256 ^ 4 = unat v" using unsigned_less [of v, where ?'a = nat] by simp
  then have "get32 E buf' off = Some v"
    using store_bytes_spec [OF b(1)] by (simp add: get32_def decode_encode)
  with b show ?thesis by (simp add: set32_def)
qed

subsection \<open>Accessors\<close>

text \<open>
  what the 16-, 32- and 64-bit setters write in either byte order the getters of the same
  order read back, the getters of the other order read with the bytes reversed, and no byte
  outside the field changes.
\<close>

theorem endian_accessors_correct:
  "(set16 E buf off v16 = Some b16 \<longrightarrow>
      get16 E b16 off = Some v16 \<and> same_outside {off..<off + 2} buf b16) \<and>
   (set32 E buf off v32 = Some b32 \<longrightarrow>
      get32 E b32 off = Some v32 \<and> same_outside {off..<off + 4} buf b32 \<and>
      get32 (OtherEndian E) b32 off = Some (word_of_nat (decode E (rev (encode E 4 (unat v32)))))) \<and>
   (set64 E buf off v64 = Some b64 \<longrightarrow>
      get64 E b64 off = Some v64 \<and> same_outside {off..<off + 8} buf b64)"
proof (intro conjI impI)
  assume "set16 E buf off v16 = Some b16"
  then have s: "store_bytes buf off (encode E 2 (unat v16)) = Some b16" by (simp add: set16_def)
  have "unat v16 mod 256 ^ 2 = unat v16" using unsigned_less [of v16, where ?'a = nat] by simp
  then show "get16 E b16 off = Some v16" "same_outside {off..<off + 2} buf b16"
    using store_bytes_spec [OF s] by (simp_all add: get16_def decode_encode)
next
  assume "set32 E buf off v32 = Some b32"
  then have s: "store_bytes buf off (encode E 4 (unat v32)) = Some b32" by (simp add: set32_def)
  have "unat v32 mod 256 ^ 4 = unat v32" using unsigned_less [of v32, where ?'a = nat] by simp
  then show "get32 E b32 off = Some v32" "same_outside {off..<off + 4} buf b32"
    using store_bytes_spec [OF s] by (simp_all add: get32_def decode_encode)
  show "get32 (OtherEndian E) b32 off = Some (word_of_nat (decode E (rev (encode E 4 (unat v32)))))"
    using store_bytes_spec [OF s] by (cases E) (simp_all add: get32_def)
next
  assume "set64 E buf off v64 = Some b64"
  then have s: "store_bytes buf off (encode E 8 (unat v64)) = Some b64" by (simp add: set64_def)
  have "unat v64 mod 256 ^ 8 = unat v64" using unsigned_less [of v64, where ?'a = nat] by simp
  then show "get64 E b64 off = Some v64" "same_outside {off..<off + 8} buf b64"
    using store_bytes_spec [OF s] by (simp_all add: get64_def decode_encode)
qed

theorem endian_accessors_correct_witness:
  "get32 BigEndian [0, 0x12, 0x34, 0x56, 0x78, 0] 1 = Some 0x12345678"
proof -
  have "set32 BigEndian [0, 0, 0, 0, 0, 0] 1 0x12345678 = Some [0, 0x12, 0x34, 0x56, 0x78, 0]"
    by (simp add: set32_def store_bytes_def le_bytes_numeral)
  then show ?thesis using endian_accessors_correct [of BigEndian "[0, 0, 0, 0, 0, 0]" 1] by blast
qed

text \<open>
  C33: writing a bit field and reading it back gives the value truncated to the field, and
  every other field of the word that does not overlap it keeps its value.
\<close>

theorem bit_fields_correct:
  assumes "firstBit + bitCount \<le> 32" and "bitCount < 32"
  shows "getBitsRaw E (setBitsRaw E w v firstBit bitCount) firstBit bitCount = v AND mask bitCount \<and>
    (\<forall>f c. f + c \<le> 32 \<and> c < 32 \<and> (f + c \<le> firstBit \<or> firstBit + bitCount \<le> f) \<longrightarrow>
       getBitsRaw E (setBitsRaw E w v firstBit bitCount) f c = getBitsRaw E w f c)"
proof (intro conjI allI impI)
  have m: "push_bit n 1 - 1 = (mask n :: u32w)" for n
    by (simp add: mask_eq_exp_minus_1 push_bit_eq_mult)
  show "getBitsRaw E (setBitsRaw E w v firstBit bitCount) firstBit bitCount = v AND mask bitCount"
    using assms unfolding getBitsRaw_def setBitsRaw_def Let_def m
    by (cases E) (auto intro!: bit_word_eqI simp: bit_simps)
  fix f c assume "f + c \<le> 32 \<and> c < 32 \<and> (f + c \<le> firstBit \<or> firstBit + bitCount \<le> f)"
  then show "getBitsRaw E (setBitsRaw E w v firstBit bitCount) f c = getBitsRaw E w f c"
    using assms unfolding getBitsRaw_def setBitsRaw_def Let_def m
    by (cases E) (auto intro!: bit_word_eqI simp: bit_simps)
qed

theorem bit_fields_correct_witness:
  "getBitsRaw BigEndian (setBitsRaw BigEndian 0xFFFFFFFF 0x5 8 4) 8 4 = 5 AND mask 4"
  using bit_fields_correct [of 8 4 BigEndian "0xFFFFFFFF" 5] by simp

end
