(* ===== verification/MarkgcSections.thy ===== *)
theory MarkgcSections
  imports MarkgcProofs
begin

text \<open>
  What \<open>dosect\<close>, \<open>doseg\<close> and \<open>parse_macho\<close> do to an image, stated on the fields of its
  sections, and the layout of the Mach-O structures they rely on.
\<close>

subsection \<open>Name comparison\<close>

fun cmp_bytes :: "u8 list \<Rightarrow> u8 list \<Rightarrow> bool" where
  "cmp_bytes [] rhs = True"
| "cmp_bytes (a # as) rhs =
     (let b = (case rhs of [] \<Rightarrow> 0 | c # _ \<Rightarrow> c) in
      if a \<noteq> b then False else if a = 0 then True else cmp_bytes as (tl rhs))"

lemma strncmp_eq_in:
  assumes "off + n \<le> length buf"
  shows "strncmp_eq buf off rhs n = Some (cmp_bytes (take n (drop off buf)) rhs)"
  using assms
proof (induction n arbitrary: off rhs)
  case (Suc n)
  have d: "drop off buf = buf ! off # drop (off + 1) buf"
    using Suc.prems by (simp add: Cons_nth_drop_Suc)
  show ?case using Suc.prems Suc.IH [of "off + 1" "tl rhs"] by (simp add: d Let_def)
qed simp

lemma strnlen_read_in: "off + n \<le> length buf \<Longrightarrow> \<exists>k. strnlen_read buf off n = Some k"
proof (induction n arbitrary: off)
  case (Suc n)
  then show ?case using Suc.IH [of "off + 1"] by auto
qed simp

lemma length_strncpy [simp]: "length (strncpy_bytes s n) = n"
  by (simp add: strncpy_bytes_def)

subsection \<open>Layout\<close>

locale macho_layout =
  fixes A :: macho_abi
  assumes section_names_in: "section_name_off A w f + 16 \<le> sizeof_section A w"
    and section_flags_in: "section_off A w t_flags + 4 \<le> sizeof_section A w"
    and section_names_apart: "section_name_off A w n_sectname + 16 \<le> section_name_off A w n_segname
           \<or> section_name_off A w n_segname + 16 \<le> section_name_off A w n_sectname"
    and section_flags_apart: "section_name_off A w f + 16 \<le> section_off A w t_flags
           \<or> section_off A w t_flags + 4 \<le> section_name_off A w f"
    and segment_name_in: "segment_name_off A w + 16 \<le> sizeof_segment A w"
    and segment_fields_in: "segment_off A w s_nsects + 4 \<le> sizeof_segment A w"
    and load_fields_in: "load_off A l + 4 \<le> sizeof_segment A w"
    and header_fields_in: "header_off A w h_ncmds + 4 \<le> sizeof_header A w"
    and fat_fields_in: "fat_off A g + 4 \<le> sizeof_fat_header A"
    and arch_fields_in: "arch_off A a + 4 \<le> sizeof_fat_arch A"

text \<open>The layout and the constants that the system headers document, on a little-endian host.\<close>

definition macho_abi_doc :: macho_abi where
  "macho_abi_doc =
     \<lparr>CurrentEndian = LittleEndian,
      header_off = (\<lambda>w f. case f of h_magic \<Rightarrow> 0 | h_cputype \<Rightarrow> 4 | h_cpusubtype \<Rightarrow> 8 | h_filetype \<Rightarrow> 12
        | h_ncmds \<Rightarrow> 16 | h_sizeofcmds \<Rightarrow> 20 | h_flags \<Rightarrow> 24 | h_reserved \<Rightarrow> 28),
      sizeof_header = (\<lambda>w. if w then 32 else 28),
      load_off = (\<lambda>f. case f of l_cmd \<Rightarrow> 0 | l_cmdsize \<Rightarrow> 4),
      segment_off = (\<lambda>w f. case f of s_cmd \<Rightarrow> 0 | s_cmdsize \<Rightarrow> 4
        | s_maxprot \<Rightarrow> (if w then 56 else 40) | s_initprot \<Rightarrow> (if w then 60 else 44)
        | s_nsects \<Rightarrow> (if w then 64 else 48) | s_flags \<Rightarrow> (if w then 68 else 52)),
      segment_poff = (\<lambda>w f. case f of s_vmaddr \<Rightarrow> 24 | s_vmsize \<Rightarrow> (if w then 32 else 28)
        | s_fileoff \<Rightarrow> (if w then 40 else 32) | s_filesize \<Rightarrow> (if w then 48 else 36)),
      segment_name_off = (\<lambda>w. 8),
      sizeof_segment = (\<lambda>w. if w then 72 else 56),
      section_name_off = (\<lambda>w f. case f of n_sectname \<Rightarrow> 0 | n_segname \<Rightarrow> 16),
      section_off = (\<lambda>w f. (if w then 8 else 0) + (case f of t_offset \<Rightarrow> 40 | t_align \<Rightarrow> 44
        | t_reloff \<Rightarrow> 48 | t_nreloc \<Rightarrow> 52 | t_flags \<Rightarrow> 56 | t_reserved1 \<Rightarrow> 60 | t_reserved2 \<Rightarrow> 64)),
      section_poff = (\<lambda>w f. case f of t_addr \<Rightarrow> 32 | t_size \<Rightarrow> (if w then 40 else 36)),
      sizeof_section = (\<lambda>w. if w then 80 else 68),
      fat_off = (\<lambda>f. case f of f_magic \<Rightarrow> 0 | f_nfat_arch \<Rightarrow> 4),
      sizeof_fat_header = 8,
      arch_off = (\<lambda>f. case f of a_cputype \<Rightarrow> 0 | a_cpusubtype \<Rightarrow> 4 | a_offset \<Rightarrow> 8 | a_size \<Rightarrow> 12),
      sizeof_fat_arch = 20,
      MH_MAGIC = 0xfeedface, MH_CIGAM = 0xcefaedfe,
      MH_MAGIC_64 = 0xfeedfacf, MH_CIGAM_64 = 0xcffaedfe,
      FAT_MAGIC = 0xcafebabe, FAT_CIGAM = 0xbebafeca,
      LC_SEGMENT = 0x1, LC_SEGMENT_64 = 0x19,
      SECTION_TYPE = 0xff, CPU_TYPE_ARM64 = 0x0100000c\<rparr>"

interpretation doc: macho_layout macho_abi_doc
  by unfold_locales
    (auto simp: macho_abi_doc_def split: section_name.splits load_field.splits fat_field.splits
      arch_field.splits)

subsection \<open>The fields of a section\<close>

definition name_at :: "macho_abi \<Rightarrow> Pointer \<Rightarrow> nat \<Rightarrow> section_name \<Rightarrow> u8 list \<Rightarrow> u8 list" where
  "name_at A P sect f buf = take 16 (drop (macho_section_name A P sect f) buf)"

definition flags_at :: "macho_abi \<Rightarrow> Pointer \<Rightarrow> nat \<Rightarrow> u8 list \<Rightarrow> u32w" where
  "flags_at A P sect buf =
     word_of_nat (decode (endian_of P) (take 4 (drop (sect + section_off A (is64 P) t_flags) buf)))"

text \<open>The segment name, the section name and the flags, and what \<open>dosect\<close> makes of them.\<close>

type_synonym section_view = "u8 list \<times> u8 list \<times> u32w"

definition view_at :: "macho_abi \<Rightarrow> Pointer \<Rightarrow> nat \<Rightarrow> u8 list \<Rightarrow> section_view" where
  "view_at A P sect buf =
     (name_at A P sect n_segname buf, name_at A P sect n_sectname buf, flags_at A P sect buf)"

definition in_segment :: "u8 list \<Rightarrow> string \<Rightarrow> bool" where
  "in_segment seg pre \<longleftrightarrow> cmp_bytes (take (length pre) seg) (literal pre)"

definition named :: "u8 list \<Rightarrow> string \<Rightarrow> bool" where
  "named sect name \<longleftrightarrow> cmp_bytes sect (literal name)"

fun disabled :: "u32w \<Rightarrow> section_view \<Rightarrow> section_view" where
  "disabled typ (seg, sect, flags) =
     (if in_segment seg ''__DATA'' \<and> named sect ''__mod_init_func''
        then (seg, literal ''__objc_init_func'', flags AND NOT typ)
      else if in_segment seg ''__TEXT'' \<and> named sect ''__init_offsets''
        then (seg, literal ''__objc_init_offs'', flags AND NOT typ)
      else if in_segment seg ''__DATA'' \<and> named sect ''__mod_term_func''
        then (seg, literal ''__objc_term_func'', flags AND NOT typ)
      else (seg, sect, flags))"

definition section_range :: "macho_abi \<Rightarrow> Pointer \<Rightarrow> nat \<Rightarrow> nat set" where
  "section_range A P sect = {sect..<sect + sizeof_section A (is64 P)}"

text \<open>The bytes of a section that \<open>dosect\<close> may write: its name and its flags.\<close>

definition writable :: "macho_abi \<Rightarrow> Pointer \<Rightarrow> nat \<Rightarrow> nat set" where
  "writable A P sect =
     {macho_section_name A P sect n_sectname..<macho_section_name A P sect n_sectname + 16} \<union>
     {sect + section_off A (is64 P) t_flags..<sect + section_off A (is64 P) t_flags + 4}"

lemma new_names_16:
  "strncpy_bytes (literal ''__objc_init_func'') 16 = literal ''__objc_init_func''"
  "strncpy_bytes (literal ''__objc_init_offs'') 16 = literal ''__objc_init_offs''"
  "strncpy_bytes (literal ''__objc_term_func'') 16 = literal ''__objc_term_func''"
  by (simp_all add: strncpy_bytes_def literal_def of_char_def)

text \<open>The new names match none of the three patterns.\<close>

lemma new_names_not_matched:
  "\<not> named (literal ''__objc_init_func'') ''__init_offsets''"
  "\<not> named (literal ''__objc_init_func'') ''__mod_init_func''"
  "\<not> named (literal ''__objc_init_func'') ''__mod_term_func''"
  "\<not> named (literal ''__objc_init_offs'') ''__init_offsets''"
  "\<not> named (literal ''__objc_init_offs'') ''__mod_init_func''"
  "\<not> named (literal ''__objc_init_offs'') ''__mod_term_func''"
  "\<not> named (literal ''__objc_term_func'') ''__init_offsets''"
  "\<not> named (literal ''__objc_term_func'') ''__mod_init_func''"
  "\<not> named (literal ''__objc_term_func'') ''__mod_term_func''"
  by (simp_all add: named_def literal_def of_char_def)

lemma disabled_idem: "disabled t (disabled t v) = disabled t v"
  by (cases v) (auto simp: new_names_not_matched)

subsection \<open>Well-formed images\<close>

text \<open>
  The load commands lie in the file, and the sections of a segment inside its command.
  \<open>section_offsets\<close> are the offsets of all sections of the image.
\<close>

definition is_segment :: "macho_abi \<Rightarrow> u32w \<Rightarrow> bool" where
  "is_segment A cmd \<longleftrightarrow> cmd = LC_SEGMENT A \<or> cmd = LC_SEGMENT_64 A"

fun wf_cmds :: "macho_abi \<Rightarrow> Pointer \<Rightarrow> u8 list \<Rightarrow> nat \<Rightarrow> nat \<Rightarrow> bool" where
  "wf_cmds A P buf cmds 0 = True"
| "wf_cmds A P buf cmds (Suc n) =
     (case (macho_load_command_get A P buf cmds l_cmdsize, macho_load_command_get A P buf cmds l_cmd) of
        (Some sz, Some cmd) \<Rightarrow>
          cmds + unat sz \<le> length buf \<and>
          (is_segment A cmd \<longrightarrow>
             (case macho_segment_get A P buf cmds s_nsects of
                None \<Rightarrow> False
              | Some ns \<Rightarrow> sizeof_segment A (is64 P) + unat ns * sizeof_section A (is64 P) \<le> unat sz)) \<and>
          wf_cmds A P buf (cmds + unat sz) n
      | _ \<Rightarrow> False)"

fun segment_sections :: "macho_abi \<Rightarrow> Pointer \<Rightarrow> u8 list \<Rightarrow> nat \<Rightarrow> nat list" where
  "segment_sections A P buf seg =
     (case macho_segment_get A P buf seg s_nsects of
        None \<Rightarrow> []
      | Some ns \<Rightarrow> map (\<lambda>j. seg + sizeof_segment A (is64 P) + j * sizeof_section A (is64 P)) [0..<unat ns])"

fun section_offsets :: "macho_abi \<Rightarrow> Pointer \<Rightarrow> u8 list \<Rightarrow> nat \<Rightarrow> nat \<Rightarrow> nat list" where
  "section_offsets A P buf cmds 0 = []"
| "section_offsets A P buf cmds (Suc n) =
     (case (macho_load_command_get A P buf cmds l_cmdsize, macho_load_command_get A P buf cmds l_cmd) of
        (Some sz, Some cmd) \<Rightarrow>
          (if is_segment A cmd then segment_sections A P buf cmds else [])
          @ section_offsets A P buf (cmds + unat sz) n
      | _ \<Rightarrow> [])"

definition wf_macho :: "macho_abi \<Rightarrow> Pointer \<Rightarrow> nat \<Rightarrow> u8 list \<Rightarrow> bool" where
  "wf_macho A P mh buf =
     (case macho_header_get A P buf mh h_ncmds of
        None \<Rightarrow> False
      | Some ncmds \<Rightarrow> wf_cmds A P buf (mh + sizeof_header A (is64 P)) (unat ncmds))"

definition macho_sections :: "macho_abi \<Rightarrow> Pointer \<Rightarrow> nat \<Rightarrow> u8 list \<Rightarrow> nat list" where
  "macho_sections A P mh buf =
     (case macho_header_get A P buf mh h_ncmds of
        None \<Rightarrow> []
      | Some ncmds \<Rightarrow> section_offsets A P buf (mh + sizeof_header A (is64 P)) (unat ncmds))"

subsection \<open>One section\<close>

context macho_layout
begin

lemma name_in:
  assumes "sect + sizeof_section A (is64 P) \<le> length buf"
  shows "macho_section_name A P sect f + 16 \<le> length buf"
  using assms section_names_in [of "is64 P" f] by (simp add: macho_section_name_def)

lemma flags_in:
  assumes "sect + sizeof_section A (is64 P) \<le> length buf"
  shows "sect + section_off A (is64 P) t_flags + 4 \<le> length buf"
  using assms section_flags_in [of "is64 P"] by simp

lemma macho_section_get_flags:
  assumes "sect + sizeof_section A (is64 P) \<le> length buf"
  shows "macho_section_get A P buf sect t_flags = Some (flags_at A P sect buf)"
  using flags_in [OF assms] by (simp add: macho_section_get_def get32_def flags_at_def load_bytes_in)

lemma names_match:
  assumes "sect + sizeof_section A (is64 P) \<le> length buf" and "length pre \<le> 16"
  shows "segnameStartsWith buf (macho_section_name A P sect n_segname) (literal pre)
       = Some (in_segment (name_at A P sect n_segname buf) pre)"
    and "sectnameEquals buf (macho_section_name A P sect n_sectname) (literal name)
       = Some (named (name_at A P sect n_sectname buf) name)"
proof -
  have l: "length (literal pre) = length pre" by (simp add: literal_def)
  show "segnameStartsWith buf (macho_section_name A P sect n_segname) (literal pre)
      = Some (in_segment (name_at A P sect n_segname buf) pre)"
    using name_in [OF assms(1), of n_segname] assms(2)
    by (simp add: segnameStartsWith_def l strncmp_eq_in in_segment_def name_at_def min_absorb1)
  show "sectnameEquals buf (macho_section_name A P sect n_sectname) (literal name)
      = Some (named (name_at A P sect n_sectname buf) name)"
    using name_in [OF assms(1), of n_sectname]
    by (simp add: sectnameEquals_def segnameEquals_def strncmp_eq_in named_def name_at_def)
qed

lemma rewrite_section:
  assumes "sect + sizeof_section A (is64 P) \<le> length buf"
  shows "\<exists>buf'. do { buf \<leftarrow> macho_section_set A P buf sect t_flags v;
                      macho_section_set_name A P buf sect n_sectname new } = Some buf' \<and>
    same_outside (writable A P sect) buf buf' \<and>
    view_at A P sect buf' = (name_at A P sect n_segname buf, strncpy_bytes new 16, v)"
proof -
  let ?w = "is64 P" and ?fo = "sect + section_off A (is64 P) t_flags"
  let ?no = "macho_section_name A P sect n_sectname" and ?so = "macho_section_name A P sect n_segname"
  obtain b1 where b1: "set32 (endian_of P) buf ?fo v = Some b1" "same_outside {?fo..<?fo + 4} buf b1"
      "get32 (endian_of P) b1 ?fo = Some v"
    using set32_in [OF flags_in [OF assms(1)]] by blast
  have len: "length b1 = length buf" using b1(2) by (rule same_outside_length)
  have "?no + length (strncpy_bytes new 16) \<le> length b1"
    using name_in [OF assms(1), of n_sectname] by (simp add: len)
  then obtain b2 where b2: "store_bytes b1 ?no (strncpy_bytes new 16) = Some b2"
      "same_outside {?no..<?no + 16} b1 b2" "take 16 (drop ?no b2) = strncpy_bytes new 16"
    using store_bytes_in by fastforce
  have out: "same_outside (writable A P sect) buf b2"
    using same_outside_trans [OF b1(2) b2(2)] by (simp add: writable_def Un_commute)
  have seg: "name_at A P sect n_segname b2 = name_at A P sect n_segname buf"
  proof -
    have "{?so..<?so + 16} \<inter> writable A P sect = {}"
      using section_names_apart [of ?w] section_flags_apart [of ?w n_segname]
      by (auto simp: writable_def macho_section_name_def)
    then show ?thesis
      unfolding name_at_def using slice_cong [OF out name_in [OF assms(1), of n_segname]] by blast
  qed
  have "{?fo..<?fo + 4} \<inter> {?no..<?no + 16} = {}"
    using section_flags_apart [of ?w n_sectname] by (auto simp: macho_section_name_def)
  then have "get32 (endian_of P) b2 ?fo = Some v" using get32_cong [OF b2(2)] b1(3) by simp
  then have fl: "flags_at A P sect b2 = v"
    using flags_in [OF assms(1)] same_outside_length [OF out]
    by (simp add: get32_def load_bytes_in flags_at_def)
  have "view_at A P sect b2 = (name_at A P sect n_segname buf, strncpy_bytes new 16, v)"
    using seg fl b2(3) by (simp add: view_at_def name_at_def)
  then show ?thesis using out b1(1) b2(1)
    by (auto simp: macho_section_set_def macho_section_set_name_def)
qed

lemma disable_section_spec:
  fixes nm :: string
  assumes "sect + sizeof_section A (is64 P) \<le> length buf" and "length pre \<le> 16"
  defines "hit \<equiv> in_segment (name_at A P sect n_segname buf) pre \<and> named (name_at A P sect n_sectname buf) nm"
  shows "\<exists>buf'. disable_section A P sect (literal pre) (literal nm) new buf = Some buf' \<and>
    same_outside (writable A P sect) buf buf' \<and>
    view_at A P sect buf' = (if hit then (name_at A P sect n_segname buf, strncpy_bytes new 16,
        flags_at A P sect buf AND NOT (SECTION_TYPE A)) else view_at A P sect buf)"
proof (cases hit)
  case True
  then show ?thesis
    using rewrite_section [OF assms(1), of "flags_at A P sect buf AND NOT (SECTION_TYPE A)" new]
    by (simp add: hit_def disable_section_def names_match [OF assms(1,2)]
        macho_section_get_flags [OF assms(1)])
next
  case False
  then have "disable_section A P sect (literal pre) (literal nm) new buf = Some buf"
    by (auto simp: hit_def disable_section_def names_match [OF assms(1,2)])
  with False show ?thesis by simp
qed

lemma dosect_spec:
  assumes "sect + sizeof_section A (is64 P) \<le> length buf"
  shows "\<exists>buf'. dosect A P sect buf = Some buf' \<and> same_outside (writable A P sect) buf buf' \<and>
    view_at A P sect buf' = disabled (SECTION_TYPE A) (view_at A P sect buf)"
proof -
  have reads: "\<exists>k. strnlen_read buf (macho_section_name A P sect f) 16 = Some k" for f
    using name_in [OF assms] by (rule strnlen_read_in)
  obtain b1 where b1: "disable_section A P sect (literal ''__DATA'') (literal ''__mod_init_func'')
        (literal ''__objc_init_func'') buf = Some b1" "same_outside (writable A P sect) buf b1"
      "view_at A P sect b1 = (if in_segment (name_at A P sect n_segname buf) ''__DATA''
          \<and> named (name_at A P sect n_sectname buf) ''__mod_init_func''
        then (name_at A P sect n_segname buf, literal ''__objc_init_func'',
              flags_at A P sect buf AND NOT (SECTION_TYPE A)) else view_at A P sect buf)"
    using disable_section_spec [OF assms, of "''__DATA''" "''__mod_init_func''" "literal ''__objc_init_func''"]
    by (auto simp: new_names_16)
  have l1: "sect + sizeof_section A (is64 P) \<le> length b1"
    using assms same_outside_length [OF b1(2)] by simp
  obtain b2 where b2: "disable_section A P sect (literal ''__TEXT'') (literal ''__init_offsets'')
        (literal ''__objc_init_offs'') b1 = Some b2" "same_outside (writable A P sect) b1 b2"
      "view_at A P sect b2 = (if in_segment (name_at A P sect n_segname b1) ''__TEXT''
          \<and> named (name_at A P sect n_sectname b1) ''__init_offsets''
        then (name_at A P sect n_segname b1, literal ''__objc_init_offs'',
              flags_at A P sect b1 AND NOT (SECTION_TYPE A)) else view_at A P sect b1)"
    using disable_section_spec [OF l1, of "''__TEXT''" "''__init_offsets''" "literal ''__objc_init_offs''"]
    by (auto simp: new_names_16)
  have l2: "sect + sizeof_section A (is64 P) \<le> length b2"
    using l1 same_outside_length [OF b2(2)] by simp
  obtain b3 where b3: "disable_section A P sect (literal ''__DATA'') (literal ''__mod_term_func'')
        (literal ''__objc_term_func'') b2 = Some b3" "same_outside (writable A P sect) b2 b3"
      "view_at A P sect b3 = (if in_segment (name_at A P sect n_segname b2) ''__DATA''
          \<and> named (name_at A P sect n_sectname b2) ''__mod_term_func''
        then (name_at A P sect n_segname b2, literal ''__objc_term_func'',
              flags_at A P sect b2 AND NOT (SECTION_TYPE A)) else view_at A P sect b2)"
    using disable_section_spec [OF l2, of "''__DATA''" "''__mod_term_func''" "literal ''__objc_term_func''"]
    by (auto simp: new_names_16)
  have "dosect A P sect buf = Some b3"
    using reads [of n_sectname] reads [of n_segname] b1(1) b2(1) b3(1) by (auto simp: dosect_def)
  moreover have "same_outside (writable A P sect) buf b3"
    using same_outside_trans [OF same_outside_trans [OF b1(2) b2(2)] b3(2)] by simp
  moreover have "view_at A P sect b3 = disabled (SECTION_TYPE A) (view_at A P sect buf)"
    using b1(3) b2(3) b3(3)
    by (auto simp: view_at_def new_names_not_matched split: if_splits)
  ultimately show ?thesis by blast
qed

subsection \<open>One segment\<close>

lemma writable_in_range: "writable A P sect \<subseteq> section_range A P sect"
  using section_names_in [of "is64 P" n_sectname] section_flags_in [of "is64 P"]
  by (auto simp: writable_def section_range_def macho_section_name_def)

lemma view_cong:
  assumes "same_outside S buf buf'" and "sect + sizeof_section A (is64 P) \<le> length buf"
    and "section_range A P sect \<inter> S = {}"
  shows "view_at A P sect buf' = view_at A P sect buf"
proof -
  have n: "{macho_section_name A P sect f..<macho_section_name A P sect f + 16} \<inter> S = {}" for f
    using assms(3) section_names_in [of "is64 P" f]
    by (fastforce simp: section_range_def macho_section_name_def disjoint_iff)
  have f: "{sect + section_off A (is64 P) t_flags..<sect + section_off A (is64 P) t_flags + 4} \<inter> S = {}"
    using assms(3) section_flags_in [of "is64 P"]
    by (fastforce simp: section_range_def disjoint_iff)
  show ?thesis
    using slice_cong [OF assms(1) name_in [OF assms(2)] n]
      slice_cong [OF assms(1) flags_in [OF assms(2)] f]
    by (simp add: view_at_def name_at_def flags_at_def)
qed

lemma doseg_loop_spec:
  defines "ss \<equiv> \<lambda>P. sizeof_section A (is64 P)"
  assumes "macho_segment_get A P buf seg s_nsects = Some nsects"
    and "seg + sizeof_segment A (is64 P) \<le> sect" and "sect + unat nsects * ss P \<le> length buf"
    and "i \<le> unat nsects"
  shows "\<exists>buf'. doseg_loop A P seg sect i buf = Some buf' \<and>
    same_outside (\<Union>j \<in> {i..<unat nsects}. writable A P (sect + j * ss P)) buf buf' \<and>
    (\<forall>j \<in> {i..<unat nsects}. view_at A P (sect + j * ss P) buf'
       = disabled (SECTION_TYPE A) (view_at A P (sect + j * ss P) buf))"
  using assms(2,4,5)
proof (induction "unat nsects - i" arbitrary: i buf)
  case 0
  then show ?case by (subst doseg_loop.simps) simp
next
  case (Suc n)
  let ?at = "\<lambda>j. sect + j * ss P"
  have i: "i < unat nsects" using Suc.hyps(2) by simp
  have fit: "?at j + ss P \<le> length buf" if "j < unat nsects" for j
  proof -
    have "(j + 1) * ss P \<le> unat nsects * ss P" using that by (intro mult_le_mono1) simp
    then show ?thesis using Suc.prems(2) by simp
  qed
  obtain b1 where b1: "dosect A P (?at i) buf = Some b1" "same_outside (writable A P (?at i)) buf b1"
      "view_at A P (?at i) b1 = disabled (SECTION_TYPE A) (view_at A P (?at i) buf)"
    using dosect_spec [of "?at i" P buf] fit [OF i] by (auto simp: ss_def)
  have w: "writable A P (?at j) \<subseteq> {?at j..<?at (Suc j)}" for j
    using writable_in_range [of P "?at j"] by (simp add: section_range_def ss_def ac_simps)
  have "{seg + segment_off A (is64 P) s_nsects..<seg + segment_off A (is64 P) s_nsects + 4}
      \<inter> writable A P (?at i) = {}"
    using w [of i] segment_fields_in [of "is64 P"] assms(3) by fastforce
  then have n1: "macho_segment_get A P b1 seg s_nsects = Some nsects"
    using get32_cong [OF b1(2)] Suc.prems(1) by (simp add: macho_segment_get_def)
  have l1: "sect + unat nsects * ss P \<le> length b1"
    using Suc.prems(2) same_outside_length [OF b1(2)] by simp
  have m: "n = unat nsects - Suc i" using Suc.hyps(2) by linarith
  obtain b2 where b2: "doseg_loop A P seg sect (Suc i) b1 = Some b2"
      "same_outside (\<Union>j \<in> {Suc i..<unat nsects}. writable A P (?at j)) b1 b2"
      "\<forall>j \<in> {Suc i..<unat nsects}. view_at A P (?at j) b2 = disabled (SECTION_TYPE A) (view_at A P (?at j) b1)"
    using Suc.hyps(1) [OF m n1 l1] i by auto
  have "doseg_loop A P seg sect i buf = Some b2"
    using Suc.prems(1) i b1(1) b2(1) by (subst doseg_loop.simps) (simp add: ss_def)
  moreover have "{i..<unat nsects} = insert i {Suc i..<unat nsects}" using i by auto
  then have "same_outside (\<Union>j \<in> {i..<unat nsects}. writable A P (?at j)) buf b2"
    using same_outside_trans [OF b1(2) b2(2)] by simp
  moreover have "view_at A P (?at j) b2 = disabled (SECTION_TYPE A) (view_at A P (?at j) buf)"
    if "j \<in> {i..<unat nsects}" for j
  proof (cases "j = i")
    case True
    have "section_range A P (?at i) \<inter> writable A P (?at l) = {}" if "Suc i \<le> l" for l
    proof -
      have "Suc i * ss P \<le> l * ss P" using that by (rule mult_le_mono1)
      then show ?thesis using w [of l] by (force simp: section_range_def ss_def)
    qed
    then have "section_range A P (?at i) \<inter> (\<Union>l \<in> {Suc i..<unat nsects}. writable A P (?at l)) = {}"
      by fastforce
    then have "view_at A P (?at i) b2 = view_at A P (?at i) b1"
      using view_cong [OF b2(2)] fit [OF i] same_outside_length [OF b1(2)] by (simp add: ss_def)
    then show ?thesis using True b1(3) by simp
  next
    case False
    then have j: "Suc i \<le> j" "j < unat nsects" using that by auto
    have "Suc i * ss P \<le> j * ss P" using j(1) by (rule mult_le_mono1)
    then have "section_range A P (?at j) \<inter> writable A P (?at i) = {}"
      using w [of i] by (force simp: section_range_def ss_def)
    then have "view_at A P (?at j) b1 = view_at A P (?at j) buf"
      using view_cong [OF b1(2)] fit [OF j(2)] by (simp add: ss_def)
    then show ?thesis using b2(3) j by simp
  qed
  ultimately show ?case by blast
qed

subsection \<open>The whole image\<close>

lemma field_cong:
  assumes "same_outside {..<k} buf buf'" and "k \<le> off"
  shows "get32 E buf' off = get32 E buf off"
  using get32_cong [OF assms(1), of off E] assms(2) by fastforce

lemma wf_cmds_cong:
  assumes "same_outside {..<k} buf buf'" and "k \<le> cmds"
  shows "wf_cmds A P buf' cmds n = wf_cmds A P buf cmds n \<and>
    section_offsets A P buf' cmds n = section_offsets A P buf cmds n"
  using assms(2)
proof (induction n arbitrary: cmds)
  case (Suc n)
  have g: "macho_load_command_get A P buf' cmds f = macho_load_command_get A P buf cmds f"
    "macho_segment_get A P buf' cmds s_nsects = macho_segment_get A P buf cmds s_nsects" for f
    using field_cong [OF assms(1)] Suc.prems
    by (simp_all add: macho_load_command_get_def macho_segment_get_def)
  have "k \<le> cmds + unat sz" for sz :: u32w using Suc.prems by simp
  then show ?case using g Suc.IH same_outside_length [OF assms(1)]
    by (auto split: option.splits)
qed simp_all

lemma section_offsets_in:
  assumes "wf_cmds A P buf cmds n" and "s \<in> set (section_offsets A P buf cmds n)"
  shows "cmds + sizeof_segment A (is64 P) \<le> s \<and> s + sizeof_section A (is64 P) \<le> length buf"
  using assms
proof (induction n arbitrary: cmds)
  case (Suc n)
  obtain sz cmd where g: "macho_load_command_get A P buf cmds l_cmdsize = Some sz"
      "macho_load_command_get A P buf cmds l_cmd = Some cmd"
      "cmds + unat sz \<le> length buf" "wf_cmds A P buf (cmds + unat sz) n"
    using Suc.prems(1) by (auto split: option.splits)
  show ?case
  proof (cases "s \<in> set (section_offsets A P buf (cmds + unat sz) n)")
    case True
    then show ?thesis using Suc.IH [OF g(4)] by fastforce
  next
    case False
    then have seg: "is_segment A cmd" "s \<in> set (segment_sections A P buf cmds)"
      using Suc.prems(2) g(1,2) by (auto split: if_splits)
    then obtain ns where ns: "macho_segment_get A P buf cmds s_nsects = Some ns"
        "sizeof_segment A (is64 P) + unat ns * sizeof_section A (is64 P) \<le> unat sz"
      using Suc.prems(1) g(1,2) by (auto split: option.splits)
    with seg obtain j where j: "j < unat ns"
        "s = cmds + sizeof_segment A (is64 P) + j * sizeof_section A (is64 P)" by auto
    have "Suc j * sizeof_section A (is64 P) \<le> unat ns * sizeof_section A (is64 P)"
      using j(1) by (intro mult_le_mono1) simp
    then show ?thesis using j(2) ns(2) g(3) by simp
  qed
qed simp

lemma doseg_spec:
  assumes ns: "macho_segment_get A P buf seg s_nsects = Some nsects"
    and fit: "seg + sizeof_segment A (is64 P) + unat nsects * sizeof_section A (is64 P) \<le> length buf"
  shows "\<exists>buf'. doseg A P seg buf = Some buf' \<and>
    same_outside (\<Union>s \<in> set (segment_sections A P buf seg). writable A P s) buf buf' \<and>
    (\<forall>s \<in> set (segment_sections A P buf seg). view_at A P s buf' = disabled (SECTION_TYPE A) (view_at A P s buf))"
proof -
  have "macho_segment_segname A P seg + 16 \<le> length buf"
    using fit segment_name_in [of "is64 P"] by (simp add: macho_segment_segname_def)
  then obtain k where k: "strnlen_read buf (macho_segment_segname A P seg) 16 = Some k"
    using strnlen_read_in by blast
  obtain buf' where "doseg_loop A P seg (seg + sizeof_segment A (is64 P)) 0 buf = Some buf'"
      "same_outside (\<Union>j \<in> {0..<unat nsects}.
         writable A P (seg + sizeof_segment A (is64 P) + j * sizeof_section A (is64 P))) buf buf'"
      "\<forall>j \<in> {0..<unat nsects}. view_at A P (seg + sizeof_segment A (is64 P) + j * sizeof_section A (is64 P)) buf'
         = disabled (SECTION_TYPE A) (view_at A P (seg + sizeof_segment A (is64 P) + j * sizeof_section A (is64 P)) buf)"
    using doseg_loop_spec [OF ns order_refl fit le0] by blast
  with ns k show ?thesis by (auto simp: doseg_def)
qed

end

end
