(* ===== verification/MarkgcImage.thy ===== *)
theory MarkgcImage
  imports MarkgcSections
begin

text \<open>
  What \<open>markgc\<close> does to one well-formed image, that running it twice is running it once, and what
  the parser of an image does not check.
\<close>

context macho_layout
begin

text \<open>The command at \<open>cmds\<close> is processed without touching what precedes or follows its sections.\<close>

lemma command_spec:
  assumes "wf_cmds A P buf cmds (Suc n)"
  obtains sz cmd b1 where
    "macho_load_command_get A P buf cmds l_cmdsize = Some sz"
    "macho_load_command_get A P buf cmds l_cmd = Some cmd"
    "(if is_segment A cmd then doseg A P cmds buf else Some buf) = Some b1"
    "wf_cmds A P buf (cmds + unat sz) n"
    "same_outside (\<Union>s \<in> set (if is_segment A cmd then segment_sections A P buf cmds else []).
        writable A P s) buf b1"
    "\<forall>s \<in> set (if is_segment A cmd then segment_sections A P buf cmds else []).
        cmds + sizeof_segment A (is64 P) \<le> s \<and> s + sizeof_section A (is64 P) \<le> cmds + unat sz \<and>
        view_at A P s b1 = disabled (SECTION_TYPE A) (view_at A P s buf)"
    "cmds + unat sz \<le> length buf"
proof -
  obtain sz cmd where g: "macho_load_command_get A P buf cmds l_cmdsize = Some sz"
      "macho_load_command_get A P buf cmds l_cmd = Some cmd"
      "cmds + unat sz \<le> length buf" "wf_cmds A P buf (cmds + unat sz) n"
    using assms by (auto split: option.splits)
  show ?thesis
  proof (cases "is_segment A cmd")
    case False
    then show ?thesis using that [OF g(1,2) _ g(4) _ _ g(3)] by simp
  next
    case True
    then obtain ns where ns: "macho_segment_get A P buf cmds s_nsects = Some ns"
        "sizeof_segment A (is64 P) + unat ns * sizeof_section A (is64 P) \<le> unat sz"
      using assms g(1,2) by (auto split: option.splits)
    then have "cmds + sizeof_segment A (is64 P) + unat ns * sizeof_section A (is64 P) \<le> length buf"
      using g(3) by simp
    then obtain b1 where b1: "doseg A P cmds buf = Some b1"
        "same_outside (\<Union>s \<in> set (segment_sections A P buf cmds). writable A P s) buf b1"
        "\<forall>s \<in> set (segment_sections A P buf cmds). view_at A P s b1 = disabled (SECTION_TYPE A) (view_at A P s buf)"
      using doseg_spec [OF ns(1)] by blast
    have "cmds + sizeof_segment A (is64 P) \<le> s \<and> s + sizeof_section A (is64 P) \<le> cmds + unat sz"
      if s: "s \<in> set (segment_sections A P buf cmds)" for s
    proof -
      obtain j where j: "j < unat ns" "s = cmds + sizeof_segment A (is64 P) + j * sizeof_section A (is64 P)"
        using s ns(1) by auto
      have "Suc j * sizeof_section A (is64 P) \<le> unat ns * sizeof_section A (is64 P)"
        using j(1) by (intro mult_le_mono1) simp
      then have "s + sizeof_section A (is64 P) \<le> cmds + unat sz" using j(2) ns(2) by simp
      then show ?thesis using j(2) by simp
    qed
    with b1 True show ?thesis using that [OF g(1,2) _ g(4) _ _ g(3), of b1] by simp
  qed
qed

lemma parse_macho_loop_spec:
  assumes "macho_header_get A P buf mh h_ncmds = Some ncmds"
    and "mh + sizeof_header A (is64 P) \<le> cmds" and "c \<le> unat ncmds"
    and "wf_cmds A P buf cmds (unat ncmds - c)"
  shows "\<exists>buf'. parse_macho_loop A P mh cmds c buf = Some buf' \<and>
    same_outside (\<Union>s \<in> set (section_offsets A P buf cmds (unat ncmds - c)). writable A P s) buf buf' \<and>
    (\<forall>s \<in> set (section_offsets A P buf cmds (unat ncmds - c)).
       view_at A P s buf' = disabled (SECTION_TYPE A) (view_at A P s buf))"
  using assms
proof (induction "unat ncmds - c" arbitrary: c cmds buf)
  case 0
  then show ?case by (subst parse_macho_loop.simps) simp
next
  case (Suc n)
  have m: "n = unat ncmds - Suc c" and c: "c < unat ncmds" using Suc.hyps(2) by linarith+
  have wf: "wf_cmds A P buf cmds (Suc n)" using Suc.prems(4) Suc.hyps(2) by simp
  obtain sz cmd b1 where s:
    "macho_load_command_get A P buf cmds l_cmdsize = Some sz"
    "macho_load_command_get A P buf cmds l_cmd = Some cmd"
    "(if is_segment A cmd then doseg A P cmds buf else Some buf) = Some b1"
    "wf_cmds A P buf (cmds + unat sz) n"
    "same_outside (\<Union>s \<in> set (if is_segment A cmd then segment_sections A P buf cmds else []).
        writable A P s) buf b1"
    "\<forall>s \<in> set (if is_segment A cmd then segment_sections A P buf cmds else []).
        cmds + sizeof_segment A (is64 P) \<le> s \<and> s + sizeof_section A (is64 P) \<le> cmds + unat sz \<and>
        view_at A P s b1 = disabled (SECTION_TYPE A) (view_at A P s buf)"
    "cmds + unat sz \<le> length buf"
    using command_spec [OF wf] by blast
  define here where "here = (if is_segment A cmd then segment_sections A P buf cmds else [])"
  define rest where "rest = section_offsets A P buf (cmds + unat sz) n"
  note out1 = s(5) [folded here_def] and in1 = s(6) [folded here_def]
  have offs: "section_offsets A P buf cmds (unat ncmds - c) = here @ rest"
    unfolding here_def rest_def Suc.hyps(2) [symmetric] using s(1,2) by simp
  have len: "length b1 = length buf" using out1 by (rule same_outside_length)
  have low: "same_outside {..<cmds + unat sz} buf b1"
    using in1 writable_in_range
    by (intro same_outside_mono [OF out1]) (fastforce simp: section_range_def)
  have wf1: "wf_cmds A P b1 (cmds + unat sz) n" and offs1: "section_offsets A P b1 (cmds + unat sz) n = rest"
    using wf_cmds_cong [OF low order_refl] s(4) by (auto simp: rest_def)
  have "{mh + header_off A (is64 P) h_ncmds..<mh + header_off A (is64 P) h_ncmds + 4} \<inter>
      (\<Union>s \<in> set here. writable A P s) = {}"
  proof -
    have "writable A P t \<subseteq> {cmds..}" if "t \<in> set here" for t
      using in1 that writable_in_range [of P t] by (fastforce simp: section_range_def)
    then show ?thesis using header_fields_in [of "is64 P"] Suc.prems(2) by fastforce
  qed
  then have h1: "macho_header_get A P b1 mh h_ncmds = Some ncmds"
    using get32_cong [OF out1] Suc.prems(1) by (simp add: macho_header_get_def)
  obtain b2 where b2: "parse_macho_loop A P mh (cmds + unat sz) (Suc c) b1 = Some b2"
      "same_outside (\<Union>s \<in> set rest. writable A P s) b1 b2"
      "\<forall>s \<in> set rest. view_at A P s b2 = disabled (SECTION_TYPE A) (view_at A P s b1)"
    using Suc.hyps(1) [OF m h1, of "cmds + unat sz"] wf1 offs1 c Suc.prems(2) unfolding m by auto
  have rest_in: "cmds + unat sz \<le> t \<and> t + sizeof_section A (is64 P) \<le> length buf" if "t \<in> set rest" for t
    using section_offsets_in [OF s(4)] that unfolding rest_def by fastforce
  have "parse_macho_loop A P mh cmds c buf = Some b2"
    using Suc.prems(1) c s(1,2,3) b2(1) by (subst parse_macho_loop.simps) (auto simp: is_segment_def)
  moreover have "same_outside (\<Union>s \<in> set (here @ rest). writable A P s) buf b2"
    using same_outside_trans [OF out1 b2(2)] by (simp add: UN_Un)
  moreover have "view_at A P t b2 = disabled (SECTION_TYPE A) (view_at A P t buf)"
    if t: "t \<in> set (here @ rest)" for t
  proof (cases "t \<in> set rest")
    case True
    have "section_range A P t \<inter> {..<cmds + unat sz} = {}"
      using rest_in [OF True] by (auto simp: section_range_def)
    then have "view_at A P t b1 = view_at A P t buf"
      using view_cong [OF low] rest_in [OF True] by blast
    then show ?thesis using b2(3) True by simp
  next
    case False
    then have th: "t \<in> set here" using t by simp
    have "section_range A P t \<inter> (\<Union>s \<in> set rest. writable A P s) = {}"
      using in1 th rest_in writable_in_range by (fastforce simp: section_range_def)
    moreover have "t + sizeof_section A (is64 P) \<le> length b1"
      using in1 th s(7) len by fastforce
    ultimately have "view_at A P t b2 = view_at A P t b1" using view_cong [OF b2(2)] by blast
    then show ?thesis using in1 th by simp
  qed
  ultimately show ?case unfolding offs by blast
qed

text \<open>Two files that agree outside the writable bytes of a section and on its fields are equal.\<close>

lemma decode_inject:
  assumes "length xs = length ys" and "decode E xs = decode E ys"
  shows "xs = ys"
  by (metis assms encode_decode)

lemma view_determines:
  assumes out: "same_outside (writable A P sect) buf buf'"
    and fit: "sect + sizeof_section A (is64 P) \<le> length buf"
    and v: "view_at A P sect buf' = view_at A P sect buf"
  shows "buf' = buf"
proof (rule nth_equalityI)
  show len: "length buf' = length buf" using out by (rule same_outside_length)
  fix i assume i: "i < length buf'"
  let ?no = "macho_section_name A P sect n_sectname" and ?fo = "sect + section_off A (is64 P) t_flags"
  have range: "buf' ! i = buf ! i" if "take n (drop o' buf') = take n (drop o' buf)" "i \<in> {o'..<o' + n}" for o' n
  proof -
    from that(2) obtain d where d: "i = o' + d" "d < n" using le_Suc_ex by fastforce
    have "take n (drop o' buf') ! d = take n (drop o' buf) ! d" using that(1) by simp
    then show ?thesis using d i len by simp
  qed
  have names: "take 16 (drop ?no buf') = take 16 (drop ?no buf)"
    using v by (simp add: view_at_def name_at_def)
  have "flags_at A P sect buf' = flags_at A P sect buf" using v by (simp add: view_at_def)
  then have "(word_of_nat (decode (endian_of P) (take 4 (drop ?fo buf'))) :: u32w)
      = word_of_nat (decode (endian_of P) (take 4 (drop ?fo buf)))"
    by (simp add: flags_at_def)
  moreover have "decode (endian_of P) bs < 2 ^ 32" if "length bs = 4" for bs
  proof -
    have "decode (endian_of P) bs = decode (endian_of P) (encode (endian_of P) 4 (decode (endian_of P) bs))"
      using encode_decode [of "endian_of P" bs] that by simp
    also have "\<dots> = decode (endian_of P) bs mod 256 ^ 4" by (rule decode_encode)
    finally have "decode (endian_of P) bs = decode (endian_of P) bs mod 256 ^ 4" .
    moreover have "decode (endian_of P) bs mod 256 ^ 4 < 256 ^ 4" by (intro mod_less_divisor) simp
    ultimately have "decode (endian_of P) bs < 256 ^ 4" by linarith
    then show ?thesis by simp
  qed
  moreover have "length (take 4 (drop ?fo buf)) = 4" "length (take 4 (drop ?fo buf')) = 4"
    using flags_in [OF fit] len by simp_all
  ultimately have "decode (endian_of P) (take 4 (drop ?fo buf')) = decode (endian_of P) (take 4 (drop ?fo buf))"
    by (metis unat_of_nat_u32)
  then have flags: "take 4 (drop ?fo buf') = take 4 (drop ?fo buf)"
    using decode_inject [of "take 4 (drop ?fo buf')" "take 4 (drop ?fo buf)" "endian_of P"] len by simp
  show "buf' ! i = buf ! i"
  proof (cases "i \<in> writable A P sect")
    case True
    then show ?thesis using range [OF names] range [OF flags] by (auto simp: writable_def)
  next
    case False
    then show ?thesis using out i len by (simp add: same_outside_def)
  qed
qed

end

subsection \<open>Lengths\<close>

lemma set32_length: "set32 E buf off v = Some b \<Longrightarrow> length b = length buf"
  unfolding set32_def using store_bytes_spec same_outside_length by blast

lemma disable_section_length:
  "disable_section A P sect pre nm new buf = Some b \<Longrightarrow> length b = length buf"
  by (auto simp: disable_section_def macho_section_set_def macho_section_set_name_def bind_eq_Some_conv
      dest!: set32_length store_bytes_spec same_outside_length split: if_splits)

lemma dosect_length: "dosect A P sect buf = Some b \<Longrightarrow> length b = length buf"
  by (auto simp: dosect_def bind_eq_Some_conv dest!: disable_section_length)

lemma doseg_loop_length: "doseg_loop A P seg sect i buf = Some b \<Longrightarrow> length b = length buf"
proof (induction A P seg sect i buf arbitrary: b rule: doseg_loop.induct)
  case (1 A P seg sect i buf)
  from "1.prems" show ?case
    by (subst (asm) doseg_loop.simps)
      (auto split: option.splits if_splits; metis "1.IH" Suc_eq_plus1 dosect_length)
qed

lemma doseg_length: "doseg A P seg buf = Some b \<Longrightarrow> length b = length buf"
  by (auto simp: doseg_def bind_eq_Some_conv dest: doseg_loop_length)

lemma parse_macho_loop_length: "parse_macho_loop A P mh cmds c buf = Some b \<Longrightarrow> length b = length buf"
proof (induction A P mh cmds c buf arbitrary: b rule: parse_macho_loop.induct)
  case (1 A P mh cmds c buf)
  show ?case
  proof (cases "macho_header_get A P buf mh h_ncmds")
    case None
    then show ?thesis using "1.prems" by (subst (asm) parse_macho_loop.simps) simp
  next
    case h: (Some ncmds)
    show ?thesis
    proof (cases "c < unat ncmds")
      case False
      then show ?thesis using "1.prems" h by (subst (asm) parse_macho_loop.simps) simp
    next
      case True
      then obtain sz cmd b1 where s: "macho_load_command_get A P buf cmds l_cmdsize = Some sz"
          "macho_load_command_get A P buf cmds l_cmd = Some cmd"
          "(if cmd = LC_SEGMENT A \<or> cmd = LC_SEGMENT_64 A then doseg A P cmds buf else Some buf) = Some b1"
          "parse_macho_loop A P mh (cmds + unat sz) (c + 1) b1 = Some b"
        using "1.prems" h by (subst (asm) parse_macho_loop.simps) (simp split: option.splits)
      have "length b1 = length buf" using s(3) doseg_length by (auto split: if_splits)
      then show ?thesis using "1.IH" [OF h True s(1-3) s(4)] by simp
    qed
  qed
qed

lemma parse_macho_length: "parse_macho A start buf = Some (ok, b) \<Longrightarrow> length b = length buf"
  by (auto simp: parse_macho_def parse_macho_P_def bind_eq_Some_conv dest: parse_macho_loop_length
      split: if_splits)

subsection \<open>Properties\<close>

text \<open>An image with one initialiser section, on which the properties are instantiated.\<close>

definition padded :: "nat \<Rightarrow> string \<Rightarrow> u8 list" where
  "padded n s = literal s @ replicate (n - length s) 0"

definition sample_section :: "u8 list" where
  "sample_section =
     padded 16 ''__mod_init_func'' @ padded 16 ''__DATA'' @ replicate 32 0 @ [9, 0, 0, 0] @ replicate 12 0"

definition sample_image :: "u8 list" where
  "sample_image =
     [0xcf, 0xfa, 0xed, 0xfe] @ replicate 12 0 @ [1, 0, 0, 0] @ replicate 12 0 @
     [0x19, 0, 0, 0, 152, 0, 0, 0] @ padded 16 ''__DATA'' @ replicate 40 0 @ [1, 0, 0, 0] @ replicate 4 0 @
     sample_section"

lemma replicate_numeral_Cons: "replicate (numeral n) x = x # replicate (pred_numeral n) x"
  by (simp only: numeral_eq_Suc replicate.simps)

lemma sample_image_wf:
  "wf_macho macho_abi_doc (Pointer64 LittleEndian) 0 sample_image"
  "macho_sections macho_abi_doc (Pointer64 LittleEndian) 0 sample_image = [104]"
  "length sample_image = 184"
  by (simp_all add: wf_macho_def macho_sections_def macho_header_get_def macho_load_command_get_def
      macho_segment_get_def get32_def load_bytes_def macho_abi_doc_def sample_image_def
      sample_section_def padded_def literal_def is_segment_def replicate_numeral_Cons)

lemma parse_macho_P_spec:
  assumes "macho_layout A" and "wf_macho A P mh buf"
  shows "\<exists>buf'. parse_macho_P A P mh buf = Some (True, buf') \<and>
    same_outside (\<Union>s \<in> set (macho_sections A P mh buf). writable A P s) buf buf' \<and>
    (\<forall>s \<in> set (macho_sections A P mh buf).
       view_at A P s buf' = disabled (SECTION_TYPE A) (view_at A P s buf))"
proof -
  obtain ncmds where n: "macho_header_get A P buf mh h_ncmds = Some ncmds"
      "wf_cmds A P buf (mh + sizeof_header A (is64 P)) (unat ncmds)"
    using assms(2) by (auto simp: wf_macho_def split: option.splits)
  then show ?thesis
    using macho_layout.parse_macho_loop_spec [OF assms(1) n(1) order_refl le0]
    by (auto simp: parse_macho_P_def macho_sections_def)
qed

text \<open>
  C30: on a well-formed image the tool ends normally; it renames and retypes exactly the
  initialiser and terminator sections, and writes nothing but the name and the flags of
  sections.
\<close>

theorem parse_macho_correct:
  assumes "macho_layout A" and "wf_macho A P mh buf"
  shows "\<exists>buf'. parse_macho_P A P mh buf = Some (True, buf') \<and>
    same_outside (\<Union>s \<in> set (macho_sections A P mh buf). writable A P s) buf buf' \<and>
    (\<forall>s \<in> set (macho_sections A P mh buf).
       view_at A P s buf' = disabled (SECTION_TYPE A) (view_at A P s buf))"
  using parse_macho_P_spec [OF assms] .

theorem parse_macho_correct_witness:
  "\<exists>buf'. parse_macho_P macho_abi_doc (Pointer64 LittleEndian) 0 sample_image = Some (True, buf') \<and>
     view_at macho_abi_doc (Pointer64 LittleEndian) 104 buf'
       = disabled 0xff (view_at macho_abi_doc (Pointer64 LittleEndian) 104 sample_image)"
  using parse_macho_correct [OF doc.macho_layout_axioms sample_image_wf(1)]
  by (auto simp: sample_image_wf(2) macho_abi_doc_def [THEN arg_cong [of _ _ SECTION_TYPE]])

text \<open>Applying the tool to a section that it has already processed changes nothing.\<close>

theorem dosect_idempotent:
  assumes "macho_layout A" and "sect + sizeof_section A (is64 P) \<le> length buf"
  shows "\<exists>buf'. dosect A P sect buf = Some buf' \<and> dosect A P sect buf' = Some buf'"
proof -
  obtain b1 where b1: "dosect A P sect buf = Some b1" "same_outside (writable A P sect) buf b1"
      "view_at A P sect b1 = disabled (SECTION_TYPE A) (view_at A P sect buf)"
    using macho_layout.dosect_spec [OF assms] by blast
  have fit: "sect + sizeof_section A (is64 P) \<le> length b1"
    using assms(2) same_outside_length [OF b1(2)] by simp
  obtain b2 where b2: "dosect A P sect b1 = Some b2" "same_outside (writable A P sect) b1 b2"
      "view_at A P sect b2 = disabled (SECTION_TYPE A) (view_at A P sect b1)"
    using macho_layout.dosect_spec [OF assms(1) fit] by blast
  have "view_at A P sect b2 = view_at A P sect b1"
    unfolding b2(3) b1(3) by (rule disabled_idem)
  then have "b2 = b1" using macho_layout.view_determines [OF assms(1) b2(2) fit] by blast
  with b1(1) b2(1) show ?thesis by blast
qed

theorem dosect_idempotent_witness:
  "\<exists>buf'. dosect macho_abi_doc (Pointer64 LittleEndian) 104 sample_image = Some buf' \<and>
     dosect macho_abi_doc (Pointer64 LittleEndian) 104 buf' = Some buf'"
  using dosect_idempotent [OF doc.macho_layout_axioms, of 104 "Pointer64 LittleEndian" sample_image]
    sample_image_wf(3) by (simp add: macho_abi_doc_def)

text \<open>
  The parser for a slice does not check that the structures it follows lie in the file:
  a file that holds nothing but a Mach-O magic number makes it read past the end.
\<close>

theorem parse_macho_reads_past_end:
  "parse_fat macho_abi_doc [0xcf, 0xfa, 0xed, 0xfe] = None"
proof -
  have m: "get32 LittleEndian [0xcf, 0xfa, 0xed, 0xfe] 0 = Some 0xfeedfacf"
    by (simp add: get32_def load_bytes_def)
  have "parse_macho_loop macho_abi_doc (Pointer64 LittleEndian) 0 32 0 [0xcf, 0xfa, 0xed, 0xfe] = None"
    by (subst parse_macho_loop.simps)
      (simp add: macho_header_get_def get32_def load_bytes_def macho_abi_doc_def)
  then show ?thesis
    using m by (simp add: parse_fat_def parse_macho_def parse_macho_P_def macho_abi_doc_def)
qed

end
