(* ===== verification/MarkgcFat.thy ===== *)
theory MarkgcFat
  imports MarkgcImage
begin

text \<open>
  \<open>markgc\<close> as a program: the dispatch on the magic number, the driver for fat files and the loop
  over the files named on the command line. A file is a list of slices, each with the offset
  and the size that the table of a fat file gives it; a thin file is one slice.
\<close>

subsection \<open>Slices\<close>

text \<open>The instance of \<open>parse_macho<P>\<close> that the magic number of a slice selects.\<close>

definition slice_kind :: "macho_abi \<Rightarrow> u8 list \<Rightarrow> nat \<Rightarrow> Pointer option" where
  "slice_kind A buf off =
     (case get32 (CurrentEndian A) buf off of
        None \<Rightarrow> None
      | Some magic \<Rightarrow>
          if magic = MH_MAGIC_64 A then Some (Pointer64 (CurrentEndian A))
          else if magic = MH_MAGIC A then Some (Pointer32 (CurrentEndian A))
          else if magic = MH_CIGAM_64 A then Some (Pointer64 (OtherEndian (CurrentEndian A)))
          else if magic = MH_CIGAM A then Some (Pointer32 (OtherEndian (CurrentEndian A)))
          else None)"

text \<open>A slice \<open>(off, sz)\<close> is well formed when its image is, without the bytes behind its end.\<close>

definition wf_slice :: "macho_abi \<Rightarrow> u8 list \<Rightarrow> nat \<times> nat \<Rightarrow> bool" where
  "wf_slice A buf r =
     (case r of (off, sz) \<Rightarrow> off + sz \<le> length buf \<and>
        (case slice_kind A (take (off + sz) buf) off of
           None \<Rightarrow> False
         | Some P \<Rightarrow> wf_macho A P off (take (off + sz) buf)))"

definition slice_sections :: "macho_abi \<Rightarrow> u8 list \<Rightarrow> nat \<times> nat \<Rightarrow> (Pointer \<times> nat) list" where
  "slice_sections A buf r =
     (case r of (off, sz) \<Rightarrow>
        (case slice_kind A (take (off + sz) buf) off of
           None \<Rightarrow> []
         | Some P \<Rightarrow> map (Pair P) (macho_sections A P off (take (off + sz) buf))))"

definition slice_range :: "nat \<times> nat \<Rightarrow> nat set" where
  "slice_range r = {fst r..<fst r + snd r}"

text \<open>The bytes that sections may change, and the sections as they should become.\<close>

definition all_writable :: "macho_abi \<Rightarrow> (Pointer \<times> nat) list \<Rightarrow> nat set" where
  "all_writable A secs = (\<Union>(P, s) \<in> set secs. writable A P s)"

definition all_disabled :: "macho_abi \<Rightarrow> (Pointer \<times> nat) list \<Rightarrow> u8 list \<Rightarrow> u8 list \<Rightarrow> bool" where
  "all_disabled A secs buf buf' \<longleftrightarrow>
     (\<forall>(P, s) \<in> set secs. view_at A P s buf' = disabled (SECTION_TYPE A) (view_at A P s buf))"

lemma get32_take: "get32 E (take n buf) off = Some v \<Longrightarrow> get32 E buf off = Some v"
  by (auto simp: get32_def load_bytes_def drop_take split: if_splits)

context macho_layout
begin

lemma wf_cmds_take:
  "wf_cmds A P (take n buf) cmds k \<Longrightarrow>
    wf_cmds A P buf cmds k \<and> section_offsets A P buf cmds k = section_offsets A P (take n buf) cmds k"
proof (induction k arbitrary: cmds)
  case (Suc k)
  obtain sz cmd where g: "macho_load_command_get A P (take n buf) cmds l_cmdsize = Some sz"
      "macho_load_command_get A P (take n buf) cmds l_cmd = Some cmd"
      "cmds + unat sz \<le> length (take n buf)" "wf_cmds A P (take n buf) (cmds + unat sz) k"
    using Suc.prems by (auto split: option.splits)
  have h: "macho_load_command_get A P buf cmds l_cmdsize = Some sz" "macho_load_command_get A P buf cmds l_cmd = Some cmd"
    using g(1,2) unfolding macho_load_command_get_def by (blast intro: get32_take)+
  have seg: "macho_segment_get A P buf cmds s_nsects = Some ns"
    if "macho_segment_get A P (take n buf) cmds s_nsects = Some ns" for ns
    using that unfolding macho_segment_get_def by (rule get32_take)
  show ?case
    using Suc.prems Suc.IH [OF g(4)] g h seg by (auto split: option.splits)
qed simp

lemma wf_macho_take:
  assumes "wf_macho A P mh (take n buf)"
  shows "wf_macho A P mh buf" and "macho_sections A P mh buf = macho_sections A P mh (take n buf)"
    and "s \<in> set (macho_sections A P mh (take n buf)) \<Longrightarrow> mh \<le> s \<and> s + sizeof_section A (is64 P) \<le> length (take n buf)"
proof -
  obtain ncmds where n: "macho_header_get A P (take n buf) mh h_ncmds = Some ncmds"
      "wf_cmds A P (take n buf) (mh + sizeof_header A (is64 P)) (unat ncmds)"
    using assms by (auto simp: wf_macho_def split: option.splits)
  have "macho_header_get A P buf mh h_ncmds = Some ncmds"
    using n(1) unfolding macho_header_get_def by (rule get32_take)
  then show "wf_macho A P mh buf" "macho_sections A P mh buf = macho_sections A P mh (take n buf)"
    using wf_cmds_take [OF n(2)] n(1) by (simp_all add: wf_macho_def macho_sections_def)
  show "mh \<le> s \<and> s + sizeof_section A (is64 P) \<le> length (take n buf)"
    if "s \<in> set (macho_sections A P mh (take n buf))"
    using section_offsets_in [OF n(2), of s] that n(1) by (simp add: macho_sections_def)
qed

lemma wf_macho_cong:
  assumes "same_outside {..<mh} buf buf'"
  shows "wf_macho A P mh buf' = wf_macho A P mh buf" and "macho_sections A P mh buf' = macho_sections A P mh buf"
proof -
  have "macho_header_get A P buf' mh h_ncmds = macho_header_get A P buf mh h_ncmds"
    unfolding macho_header_get_def by (rule get32_cong [OF assms]) auto
  then show "wf_macho A P mh buf' = wf_macho A P mh buf" "macho_sections A P mh buf' = macho_sections A P mh buf"
    using wf_cmds_cong [OF assms, of "mh + sizeof_header A (is64 P)"]
    by (auto simp: wf_macho_def macho_sections_def split: option.splits)
qed

end

lemma slice_kind_cong:
  assumes "same_outside {..<off} buf buf'"
  shows "slice_kind A buf' off = slice_kind A buf off"
proof -
  have "get32 (CurrentEndian A) buf' off = get32 (CurrentEndian A) buf off"
    by (rule get32_cong [OF assms]) auto
  then show ?thesis by (simp add: slice_kind_def)
qed

lemma slice_kind_take: "slice_kind A (take n buf) off = Some P \<Longrightarrow> slice_kind A buf off = Some P"
proof -
  assume k: "slice_kind A (take n buf) off = Some P"
  then obtain v where v: "get32 (CurrentEndian A) (take n buf) off = Some v"
    by (cases "get32 (CurrentEndian A) (take n buf) off") (simp_all add: slice_kind_def)
  from k show ?thesis unfolding slice_kind_def v get32_take [OF v] .
qed

lemma parse_macho_kind: "slice_kind A buf off = Some P \<Longrightarrow> parse_macho A off buf = parse_macho_P A P off buf"
  by (auto simp: slice_kind_def parse_macho_def split: option.splits if_splits)

text \<open>The parts of a slice do not depend on the rest of the file.\<close>

lemma take_cong:
  assumes "same_outside S buf b" and "off + sz \<le> length buf" and "S \<inter> {off..<off + sz} = {}"
  shows "same_outside {..<off} (take (off + sz) buf) (take (off + sz) b)"
proof -
  have "b ! i = buf ! i" if "i < off + sz" "\<not> i < off" for i
  proof -
    have "i \<notin> S" using that assms(3) by auto
    then show ?thesis using that assms(1,2) by (simp add: same_outside_def)
  qed
  then show ?thesis using assms(1,2) by (auto simp: same_outside_def)
qed

lemma slice_sections_in:
  assumes "macho_layout A" and "wf_slice A buf r" and "(P, s) \<in> set (slice_sections A buf r)"
  shows "section_range A P s \<subseteq> slice_range r" and "s + sizeof_section A (is64 P) \<le> length buf"
proof -
  obtain off sz where r: "r = (off, sz)" by (cases r)
  obtain P' where P': "slice_kind A (take (off + sz) buf) off = Some P'" "wf_macho A P' off (take (off + sz) buf)"
    "off + sz \<le> length buf" using assms(2) by (auto simp: wf_slice_def r split: option.splits)
  then have "P = P'" "s \<in> set (macho_sections A P off (take (off + sz) buf))"
    using assms(3) by (auto simp: slice_sections_def r)
  from macho_layout.wf_macho_take(3) [OF assms(1) _ this(2)] P' this(1)
  have "off \<le> s" "s + sizeof_section A (is64 P) \<le> off + sz" by auto
  then show "section_range A P s \<subseteq> slice_range r" "s + sizeof_section A (is64 P) \<le> length buf"
    using P'(3) by (auto simp: section_range_def slice_range_def r)
qed

lemma all_writable_in:
  assumes "macho_layout A" and "wf_slice A buf r"
  shows "all_writable A (slice_sections A buf r) \<subseteq> slice_range r"
  using slice_sections_in(1) [OF assms] macho_layout.writable_in_range [OF assms(1)]
  by (fastforce simp: all_writable_def)

lemma parse_slice:
  assumes "macho_layout A" and wf: "wf_slice A buf (off, sz)" and out: "same_outside S buf b"
    and slices_apart: "S \<inter> slice_range (off, sz) = {}"
  shows "\<exists>b'. parse_macho A off b = Some (True, b') \<and>
    same_outside (all_writable A (slice_sections A buf (off, sz))) b b' \<and>
    all_disabled A (slice_sections A buf (off, sz)) buf b'"
proof -
  let ?t = "take (off + sz) buf" and ?u = "take (off + sz) b"
  obtain P where P: "slice_kind A ?t off = Some P" "wf_macho A P off ?t" "off + sz \<le> length buf"
    using wf by (auto simp: wf_slice_def split: option.splits)
  have tu: "same_outside {..<off} ?t ?u"
    using take_cong [OF out P(3)] slices_apart by (simp add: slice_range_def)
  have u: "slice_kind A ?u off = Some P" "wf_macho A P off ?u" "macho_sections A P off ?u = macho_sections A P off ?t"
    using slice_kind_cong [OF tu] macho_layout.wf_macho_cong [OF assms(1) tu] P(1,2) by simp_all
  have secs: "slice_sections A buf (off, sz) = map (Pair P) (macho_sections A P off ?t)"
    using P(1) by (simp add: slice_sections_def)
  note b = macho_layout.wf_macho_take(1,2) [OF assms(1) u(2)]
  obtain b' where b': "parse_macho_P A P off b = Some (True, b')"
    "same_outside (\<Union>s \<in> set (macho_sections A P off ?t). writable A P s) b b'"
    "\<forall>s \<in> set (macho_sections A P off ?t). view_at A P s b' = disabled (SECTION_TYPE A) (view_at A P s b)"
    using parse_macho_P_spec [OF assms(1) b(1)] b(2) u(3) by auto
  have same: "view_at A P s b = view_at A P s buf" if "s \<in> set (macho_sections A P off ?t)" for s
  proof -
    have "(P, s) \<in> set (slice_sections A buf (off, sz))" using that secs by simp
    from slice_sections_in [OF assms(1) wf this] show ?thesis
      using macho_layout.view_cong [OF assms(1) out] slices_apart by blast
  qed
  have "parse_macho A off b = Some (True, b')"
    using parse_macho_kind [OF slice_kind_take [OF u(1)]] b'(1) by simp
  moreover have "same_outside (all_writable A (slice_sections A buf (off, sz))) b b'"
    using b'(2) by (simp add: all_writable_def secs)
  moreover have "all_disabled A (slice_sections A buf (off, sz)) buf b'"
    using b'(3) same by (auto simp: all_disabled_def secs)
  ultimately show ?thesis by blast
qed

subsection \<open>Files\<close>

definition is_fat :: "macho_abi \<Rightarrow> u8 list \<Rightarrow> bool" where
  "is_fat A buf =
     (case get32 (CurrentEndian A) buf 0 of None \<Rightarrow> False | Some m \<Rightarrow> m = FAT_MAGIC A \<or> m = FAT_CIGAM A)"

text \<open>
  The number of architectures in the table of a fat file, with the hidden one that may stand behind
  the table, and the record of each.
\<close>

definition nfat_arch :: "macho_abi \<Rightarrow> u8 list \<Rightarrow> nat" where
  "nfat_arch A buf = (case get32 BigEndian buf (fat_off A f_nfat_arch) of None \<Rightarrow> 0 | Some v \<Rightarrow> unat v)"

definition fat_count :: "macho_abi \<Rightarrow> u8 list \<Rightarrow> nat" where
  "fat_count A buf =
     (let n = nfat_arch A buf in
      if 0 < n \<and> sizeof_fat_header A + (n + 1) * sizeof_fat_arch A \<le> length buf \<and>
         fat_arch_get A buf n a_cputype = Some (CPU_TYPE_ARM64 A)
      then n + 1 else n)"

definition fat_record :: "macho_abi \<Rightarrow> u8 list \<Rightarrow> nat \<Rightarrow> nat \<times> nat" where
  "fat_record A buf i =
     (case (fat_arch_get A buf i a_offset, fat_arch_get A buf i a_size) of
        (Some off, Some sz) \<Rightarrow> (unat off, unat sz)
      | _ \<Rightarrow> (0, 0))"

definition file_slices :: "macho_abi \<Rightarrow> u8 list \<Rightarrow> (nat \<times> nat) list" where
  "file_slices A buf =
     (if is_fat A buf then map (fat_record A buf) [0..<fat_count A buf] else [(0, length buf)])"

definition table_end :: "macho_abi \<Rightarrow> u8 list \<Rightarrow> nat" where
  "table_end A buf =
     (if is_fat A buf then sizeof_fat_header A + fat_count A buf * sizeof_fat_arch A else 0)"

definition file_sections :: "macho_abi \<Rightarrow> u8 list \<Rightarrow> (Pointer \<times> nat) list" where
  "file_sections A buf = concat (map (slice_sections A buf) (file_slices A buf))"

fun slices_apart :: "(nat \<times> nat) list \<Rightarrow> bool" where
  "slices_apart [] = True"
| "slices_apart (r # rs) = ((\<forall>r' \<in> set rs. fst r + snd r \<le> fst r' \<or> fst r' + snd r' \<le> fst r) \<and> slices_apart rs)"

text \<open>
  A well-formed file: the table lies in the file, and the slices are well formed, behind the table
  and apart from each other.
\<close>

definition wf_file :: "macho_abi \<Rightarrow> u8 list \<Rightarrow> bool" where
  "wf_file A buf \<longleftrightarrow>
     4 \<le> length buf \<and> length buf < 2 ^ 32 \<and> table_end A buf \<le> length buf \<and>
     (\<forall>r \<in> set (file_slices A buf). table_end A buf \<le> fst r \<and> wf_slice A buf r) \<and> slices_apart (file_slices A buf)"

lemma apart_ranges:
  "slices_apart (r # rs) \<Longrightarrow> r' \<in> set rs \<Longrightarrow> slice_range r \<inter> slice_range r' = {}"
  by (fastforce simp: slice_range_def)

lemma record_in:
  assumes "macho_layout A" and "sizeof_fat_header A + n * sizeof_fat_arch A \<le> length buf" and "i < n"
  obtains v where "fat_arch_get A buf i f = Some v"
    and "sizeof_fat_header A + i * sizeof_fat_arch A + arch_off A f + 4 \<le> sizeof_fat_header A + n * sizeof_fat_arch A"
proof -
  have "Suc i * sizeof_fat_arch A \<le> n * sizeof_fat_arch A" using assms(3) by (intro mult_le_mono1) simp
  then have *: "sizeof_fat_header A + i * sizeof_fat_arch A + arch_off A f + 4
      \<le> sizeof_fat_header A + n * sizeof_fat_arch A"
    using macho_layout.arch_fields_in [OF assms(1), of f] by simp
  with assms(2) obtain v where "fat_arch_get A buf i f = Some v"
    unfolding fat_arch_get_def using get32_in order_trans by blast
  then show thesis using * that by blast
qed

text \<open>
  The loop over the records: \<open>done\<close> are the slices already processed, \<open>b\<close> is the file with their
  sections disabled.
\<close>

lemma parse_fat_loop_spec:
  assumes "macho_layout A" and tab: "sizeof_fat_header A + n * sizeof_fat_arch A \<le> length buf"
    and fas: "fas \<le> sizeof_fat_header A + n * sizeof_fat_arch A"
    and "map (fat_record A buf) [i..<n] = rs" and "i \<le> n"
    and "\<forall>r \<in> set rs. sizeof_fat_header A + n * sizeof_fat_arch A \<le> fst r \<and> wf_slice A buf r" and "slices_apart rs"
    and "same_outside S buf b" and "S \<inter> {..<sizeof_fat_header A + n * sizeof_fat_arch A} = {}"
    and "\<forall>r \<in> set rs. S \<inter> slice_range r = {}"
  shows "\<exists>b'. parse_fat_loop A (length buf) fas n i b = Some (True, b') \<and>
    same_outside (all_writable A (concat (map (slice_sections A buf) rs))) b b' \<and>
    all_disabled A (concat (map (slice_sections A buf) rs)) buf b'"
  using assms(4-)
proof (induction rs arbitrary: i b S)
  case Nil
  then have "i = n" by (cases "i < n") (auto simp: upt_conv_Cons)
  then show ?case by (subst parse_fat_loop.simps) (simp add: all_disabled_def)
next
  case (Cons r rs)
  let ?te = "sizeof_fat_header A + n * sizeof_fat_arch A"
  have i: "i < n" using Cons.prems(1) by (cases "i < n") auto
  then have r: "r = fat_record A buf i" "map (fat_record A buf) [Suc i..<n] = rs"
    using Cons.prems(1) by (simp_all add: upt_conv_Cons)
  obtain off sz where os: "r = (off, sz)" by (cases r)
  have wf: "wf_slice A buf (off, sz)" "?te \<le> off" using Cons.prems(3) os by auto
  then have fit: "off + sz \<le> length buf" by (simp add: wf_slice_def)
  have get: "\<exists>v. fat_arch_get A b i f = Some v \<and> fat_arch_get A buf i f = Some v" for f
  proof -
    obtain v where v: "fat_arch_get A buf i f = Some v"
      "sizeof_fat_header A + i * sizeof_fat_arch A + arch_off A f + 4 \<le> ?te"
      by (rule record_in [OF assms(1) tab i])
    then have "{sizeof_fat_header A + i * sizeof_fat_arch A + arch_off A f..<
        sizeof_fat_header A + i * sizeof_fat_arch A + arch_off A f + 4} \<inter> S = {}"
      using Cons.prems(6) by (fastforce simp: disjoint_iff)
    then show ?thesis using get32_cong [OF Cons.prems(5)] v(1) by (simp add: fat_arch_get_def)
  qed
  obtain v1 v2 v3 v4 where v: "fat_arch_get A b i a_cputype = Some v1" "fat_arch_get A b i a_cpusubtype = Some v2"
    "fat_arch_get A b i a_offset = Some v3" "fat_arch_get A b i a_size = Some v4"
    "fat_arch_get A buf i a_offset = Some v3" "fat_arch_get A buf i a_size = Some v4"
    using get [of a_cputype] get [of a_cpusubtype] get [of a_offset] get [of a_size] by blast
  have u: "unat v3 = off" "unat v4 = sz" using r(1) v(5,6) os by (simp_all add: fat_record_def)
  obtain b1 where b1: "parse_macho A off b = Some (True, b1)"
    "same_outside (all_writable A (slice_sections A buf (off, sz))) b b1"
    "all_disabled A (slice_sections A buf (off, sz)) buf b1"
    using parse_slice [OF assms(1) wf(1) Cons.prems(5)] Cons.prems(7) os by auto
  have step: "parse_fat_loop A (length buf) fas n i b = parse_fat_loop A (length buf) fas n (Suc i) b1"
    using i v(1-4) u fit wf(2) fas b1(1) by (subst parse_fat_loop.simps) auto
  note w1 = all_writable_in [OF assms(1) wf(1)]
  let ?S = "S \<union> slice_range r"
  have out: "same_outside ?S buf b1"
    using same_outside_trans [OF Cons.prems(5) same_outside_mono [OF b1(2) w1]] os by simp
  have "?S \<inter> {..<?te} = {}" using Cons.prems(6) wf(2) os by (auto simp: slice_range_def)
  moreover have "\<forall>r' \<in> set rs. ?S \<inter> slice_range r' = {}"
    using Cons.prems(7) apart_ranges [OF Cons.prems(4)] by auto
  ultimately obtain b2 where b2: "parse_fat_loop A (length buf) fas n (Suc i) b1 = Some (True, b2)"
    "same_outside (all_writable A (concat (map (slice_sections A buf) rs))) b1 b2"
    "all_disabled A (concat (map (slice_sections A buf) rs)) buf b2"
    using Cons.IH [OF r(2) _ _ _ out] i Cons.prems(3,4) by auto
  have rest: "all_writable A (concat (map (slice_sections A buf) rs)) \<subseteq> (\<Union>r' \<in> set rs. slice_range r')"
    using all_writable_in [OF assms(1)] Cons.prems(3) by (fastforce simp: all_writable_def)
  have "view_at A P s b2 = view_at A P s b1" if "(P, s) \<in> set (slice_sections A buf (off, sz))" for P s
  proof (rule macho_layout.view_cong [OF assms(1) b2(2)])
    note si = slice_sections_in [OF assms(1) wf(1) that]
    show "s + sizeof_section A (is64 P) \<le> length b1" using si(2) same_outside_length [OF out] by simp
    show "section_range A P s \<inter> all_writable A (concat (map (slice_sections A buf) rs)) = {}"
      using si(1) rest apart_ranges [OF Cons.prems(4)] os by blast
  qed
  then have "all_disabled A (slice_sections A buf r) buf b2" using b1(3) os by (fastforce simp: all_disabled_def)
  then have "all_disabled A (concat (map (slice_sections A buf) (r # rs))) buf b2"
    using b2(3) by (fastforce simp: all_disabled_def)
  moreover have "same_outside (all_writable A (concat (map (slice_sections A buf) (r # rs)))) b b2"
    using same_outside_trans [OF b1(2) b2(2)] os by (simp add: all_writable_def UN_Un)
  ultimately show ?case using step b2(1) by auto
qed

lemma parse_fat_reads_table:
  assumes "macho_layout A" and "sizeof_fat_arch A < 2 ^ 32" and fat: "is_fat A buf" and len: "4 \<le> length buf" "length buf < 2 ^ 32"
    and tab: "sizeof_fat_header A + fat_count A buf * sizeof_fat_arch A \<le> length buf"
  shows "parse_fat A buf = parse_fat_loop A (length buf) (nfat_arch A buf * sizeof_fat_arch A + sizeof_fat_header A)
    (fat_count A buf) 0 buf" and "nfat_arch A buf \<le> fat_count A buf"
proof -
  let ?n = "nfat_arch A buf" and ?h = "sizeof_fat_header A" and ?a = "sizeof_fat_arch A"
  show le: "?n \<le> fat_count A buf" by (simp add: fat_count_def Let_def)
  then have fas: "?n * ?a + ?h \<le> length buf" using tab mult_le_mono1 [OF le, of ?a] by linarith
  obtain magic where m: "get32 (CurrentEndian A) buf 0 = Some magic" "magic = FAT_MAGIC A \<or> magic = FAT_CIGAM A"
    using fat by (auto simp: is_fat_def split: option.splits)
  have "?h \<le> length buf" using tab by simp
  then obtain v1 v2 where v: "get32 BigEndian buf (fat_off A f_magic) = Some v1" "get32 BigEndian buf (fat_off A f_nfat_arch) = Some v2"
    using get32_in macho_layout.fat_fields_in [OF assms(1)] by (meson order_trans)
  have n: "?n = unat v2" using v(2) by (simp add: nfat_arch_def)
  have small: "?n * ?a + ?h < 2 ^ 64" "?n * ?a + ?h + ?a < 2 ^ 64" using fas len(2) assms(2) by simp_all
  have pos: "0 < ?a" using macho_layout.arch_fields_in [OF assms(1), of a_offset] by simp
  show "parse_fat A buf = parse_fat_loop A (length buf) (?n * ?a + ?h) (fat_count A buf) 0 buf"
  proof (cases "?n * ?a + ?h + ?a \<le> length buf \<and> 0 < ?n")
    case True
    have "?h + Suc ?n * ?a \<le> length buf" using True by simp
    then obtain cpu where cpu: "fat_arch_get A buf ?n a_cputype = Some cpu"
      using record_in [OF assms(1), of "Suc ?n" buf ?n] by blast
    have "?n + 1 \<le> ?n * ?a + ?a" using pos mult_le_mono2 [of 1 ?a "?n + 1"] by simp
    then have "u32 (?n + 1) = ?n + 1" using True len(2) by (intro u32_id) linarith
    then show ?thesis
      using m v n small fas len(1) \<open>?h \<le> length buf\<close> True cpu
      by (auto simp: parse_fat_def Let_def fat_count_def)
  next
    case False
    then show ?thesis
      using m v n small fas len(1) \<open>?h \<le> length buf\<close>
      by (auto simp: parse_fat_def Let_def fat_count_def add.commute add.left_commute)
  qed
qed

lemma parse_fat_spec:
  assumes "macho_layout A" and "sizeof_fat_arch A < 2 ^ 32" and "wf_file A buf"
  shows "\<exists>buf'. parse_fat A buf = Some (True, buf') \<and>
    same_outside (all_writable A (file_sections A buf)) buf buf' \<and> all_disabled A (file_sections A buf) buf buf'"
proof (cases "is_fat A buf")
  case True
  let ?te = "sizeof_fat_header A + fat_count A buf * sizeof_fat_arch A"
  have w: "4 \<le> length buf" "length buf < 2 ^ 32" "?te \<le> length buf" "slices_apart (file_slices A buf)"
    "\<forall>r \<in> set (file_slices A buf). ?te \<le> fst r \<and> wf_slice A buf r"
    using assms(3) True by (simp_all add: wf_file_def table_end_def)
  note p = parse_fat_reads_table [OF assms(1,2) True w(1-3)]
  have fas: "nfat_arch A buf * sizeof_fat_arch A + sizeof_fat_header A \<le> ?te"
    using mult_le_mono1 [OF p(2), of "sizeof_fat_arch A"] by linarith
  have sl: "map (fat_record A buf) [0..<fat_count A buf] = file_slices A buf" using True by (simp add: file_slices_def)
  show ?thesis
    using parse_fat_loop_spec [OF assms(1) w(3) fas sl le0 w(5,4) same_outside_refl [of "{}"]]
    unfolding p(1) file_sections_def by simp
next
  case False
  have w: "4 \<le> length buf" "wf_slice A buf (0, length buf)" using assms(3) False by (auto simp: wf_file_def file_slices_def)
  obtain m where "get32 (CurrentEndian A) buf 0 = Some m" using get32_in w(1) by fastforce
  then have "parse_fat A buf = parse_macho A 0 buf"
    using False w(1) by (simp add: parse_fat_def is_fat_def)
  moreover have "file_sections A buf = slice_sections A buf (0, length buf)"
    using False by (simp add: file_sections_def file_slices_def)
  ultimately show ?thesis using parse_slice [OF assms(1) w(2) same_outside_refl [of "{}"]] by simp
qed

subsection \<open>Properties\<close>

text \<open>A fat file with two slices, each the sample image.\<close>

definition sample_fat :: "u8 list" where
  "sample_fat =
     [0xca, 0xfe, 0xba, 0xbe, 0, 0, 0, 2] @
     [1, 0, 0, 7, 0, 0, 0, 3, 0, 0, 0, 48, 0, 0, 0, 184, 0, 0, 0, 0] @
     [1, 0, 0, 12, 0, 0, 0, 0, 0, 0, 0, 232, 0, 0, 0, 184, 0, 0, 0, 0] @
     sample_image @ sample_image"

lemmas sample_fat_eval = macho_header_get_def macho_load_command_get_def macho_segment_get_def get32_def load_bytes_def
  macho_abi_doc_def sample_fat_def sample_image_def sample_section_def padded_def literal_def is_segment_def
  replicate_numeral_Cons

lemma sample_fat_slices:
  "is_fat macho_abi_doc sample_fat" "file_slices macho_abi_doc sample_fat = [(48, 184), (232, 184)]"
  "table_end macho_abi_doc sample_fat = 48" "length sample_fat = 416"
proof -
  show l: "length sample_fat = 416" using sample_image_wf(3) by (simp add: sample_fat_def)
  show f: "is_fat macho_abi_doc sample_fat" by (simp add: is_fat_def get32_def load_bytes_def macho_abi_doc_def sample_fat_def)
  have c: "fat_count macho_abi_doc sample_fat = 2"
    by (simp add: fat_count_def nfat_arch_def fat_arch_get_def sample_fat_eval Let_def)
  show "table_end macho_abi_doc sample_fat = 48" using f c by (simp add: table_end_def) (simp add: macho_abi_doc_def)
  show "file_slices macho_abi_doc sample_fat = [(48, 184), (232, 184)]"
    using f c by (simp add: file_slices_def fat_record_def upt_rec numeral_2_eq_2) (simp add: fat_arch_get_def sample_fat_eval)
qed

lemma sample_fat_images:
  "slice_kind macho_abi_doc (take 232 sample_fat) 48 = Some (Pointer64 LittleEndian)"
  "slice_kind macho_abi_doc sample_fat 232 = Some (Pointer64 LittleEndian)"
  "wf_macho macho_abi_doc (Pointer64 LittleEndian) 48 (take 232 sample_fat)"
  "wf_macho macho_abi_doc (Pointer64 LittleEndian) 232 sample_fat"
  "macho_sections macho_abi_doc (Pointer64 LittleEndian) 48 (take 232 sample_fat) = [152]"
  "macho_sections macho_abi_doc (Pointer64 LittleEndian) 232 sample_fat = [336]"
  by (simp_all add: slice_kind_def wf_macho_def macho_sections_def sample_fat_eval)

lemma sample_fat_wf:
  "wf_file macho_abi_doc sample_fat"
  "file_sections macho_abi_doc sample_fat = [(Pointer64 LittleEndian, 152), (Pointer64 LittleEndian, 336)]"
proof -
  have "take 416 sample_fat = sample_fat" by (simp add: sample_fat_slices(4))
  then show "wf_file macho_abi_doc sample_fat"
    "file_sections macho_abi_doc sample_fat = [(Pointer64 LittleEndian, 152), (Pointer64 LittleEndian, 336)]"
    by (simp_all add: wf_file_def file_sections_def sample_fat_slices wf_slice_def slice_sections_def sample_fat_images)
qed

text \<open>
  C31: on a well-formed file of less than 4 GB, thin or fat, \<open>parse_fat\<close> selects the parser of every
  slice by its magic number, with the hidden architecture behind the table, and ends normally: in
  every slice the initialiser and terminator sections, and no others, are renamed and retyped,
  and nothing but the names and the flags of sections is written.
\<close>

theorem parse_fat_correct:
  assumes "macho_layout A" and "sizeof_fat_arch A < 2 ^ 32" and "wf_file A buf"
  shows "\<exists>buf'. parse_fat A buf = Some (True, buf') \<and>
    same_outside (all_writable A (file_sections A buf)) buf buf' \<and> all_disabled A (file_sections A buf) buf buf'"
  using parse_fat_spec [OF assms] .

theorem parse_fat_correct_witness:
  "\<exists>buf'. parse_fat macho_abi_doc sample_fat = Some (True, buf') \<and>
     view_at macho_abi_doc (Pointer64 LittleEndian) 152 buf'
       = disabled 0xff (view_at macho_abi_doc (Pointer64 LittleEndian) 152 sample_fat) \<and>
     view_at macho_abi_doc (Pointer64 LittleEndian) 336 buf'
       = disabled 0xff (view_at macho_abi_doc (Pointer64 LittleEndian) 336 sample_fat)"
proof -
  have "sizeof_fat_arch macho_abi_doc < 2 ^ 32" "SECTION_TYPE macho_abi_doc = 0xff" by (simp_all add: macho_abi_doc_def)
  then show ?thesis
    using parse_fat_correct [OF doc.macho_layout_axioms _ sample_fat_wf(1)] sample_fat_wf(2)
    by (auto simp: all_disabled_def)
qed

text \<open>A file that was rewritten with success, and one that made the tool stop.\<close>

definition processed :: "macho_abi \<Rightarrow> (string \<Rightarrow> file_state) \<Rightarrow> (string \<Rightarrow> file_state) \<Rightarrow> string \<Rightarrow> bool" where
  "processed A fs fs' f \<longleftrightarrow> (\<exists>buf buf'. fs f = File buf \<and> parse_fat A buf = Some (True, buf') \<and> fs' f = File buf')"

definition refused :: "macho_abi \<Rightarrow> (string \<Rightarrow> file_state) \<Rightarrow> (string \<Rightarrow> file_state) \<Rightarrow> string \<Rightarrow> bool" where
  "refused A fs fs' f \<longleftrightarrow> ((\<forall>buf. fs f \<noteq> File buf) \<and> fs' f = fs f) \<or>
     (\<exists>buf buf'. fs f = File buf \<and> parse_fat A buf = Some (False, buf') \<and> fs' f = File buf')"

lemma processFile_cases:
  "processFile A fs f = Some (True, fs1) \<longleftrightarrow> processed A fs fs1 f \<and> (\<forall>g. g \<noteq> f \<longrightarrow> fs1 g = fs g)"
  "processFile A fs f = Some (False, fs1) \<longleftrightarrow> refused A fs fs1 f \<and> (\<forall>g. g \<noteq> f \<longrightarrow> fs1 g = fs g)"
proof -
  have eq: "fs(f := y) = fs1 \<longleftrightarrow> fs1 f = y \<and> (\<forall>g. g \<noteq> f \<longrightarrow> fs1 g = fs g)" for y by (auto simp: fun_eq_iff)
  have same: "fs = fs1 \<longleftrightarrow> fs1 f = fs f \<and> (\<forall>g. g \<noteq> f \<longrightarrow> fs1 g = fs g)" using eq [of "fs f"] by simp
  show "processFile A fs f = Some (True, fs1) \<longleftrightarrow> processed A fs fs1 f \<and> (\<forall>g. g \<noteq> f \<longrightarrow> fs1 g = fs g)"
    by (auto simp: processFile_def processed_def bind_eq_Some_conv eq split: file_state.splits)
  show "processFile A fs f = Some (False, fs1) \<longleftrightarrow> refused A fs fs1 f \<and> (\<forall>g. g \<noteq> f \<longrightarrow> fs1 g = fs g)"
    by (cases "fs f") (auto simp: processFile_def refused_def bind_eq_Some_conv eq same)
qed

lemma processed_cong:
  "fs g = fs1 g \<Longrightarrow> processed A fs1 fs' g = processed A fs fs' g" "fs g = fs1 g \<Longrightarrow> refused A fs1 fs' g = refused A fs fs' g"
  "fs' g = fs1 g \<Longrightarrow> processed A fs fs1 g = processed A fs fs' g"
  by (simp_all add: processed_def refused_def)

lemma main_loop_Cons:
  "main_loop A (f # args) fs = Some (st, fs') \<longleftrightarrow>
     (st = 1 \<and> processFile A fs f = Some (False, fs')) \<or>
     (\<exists>fs1. processFile A fs f = Some (True, fs1) \<and> main_loop A args fs1 = Some (st, fs'))"
  by (auto simp: bind_eq_Some_conv split: if_splits)

lemma main_loop_ok:
  "distinct args \<Longrightarrow> main_loop A args fs = Some (0, fs') \<longleftrightarrow>
     (\<forall>f \<in> set args. processed A fs fs' f) \<and> (\<forall>f. f \<notin> set args \<longrightarrow> fs' f = fs f)"
proof (induction args arbitrary: fs)
  case Nil
  then show ?case by (auto simp: fun_eq_iff)
next
  case (Cons f args)
  have IH: "main_loop A args fs1 = Some (0, fs') \<longleftrightarrow>
      (\<forall>g \<in> set args. processed A fs1 fs' g) \<and> (\<forall>g. g \<notin> set args \<longrightarrow> fs' g = fs1 g)" for fs1
    using Cons by simp
  show ?case (is "?L \<longleftrightarrow> ?R")
  proof
    assume ?L
    then obtain fs1 where 1: "processed A fs fs1 f" "\<forall>g. g \<noteq> f \<longrightarrow> fs1 g = fs g" "main_loop A args fs1 = Some (0, fs')"
      unfolding main_loop_Cons processFile_cases by auto
    then have 2: "\<forall>g \<in> set args. processed A fs1 fs' g" "\<forall>g. g \<notin> set args \<longrightarrow> fs' g = fs1 g" using IH by blast+
    have f: "f \<notin> set args" using Cons.prems by simp
    have "processed A fs fs' f" using 1(1) 2(2) f processed_cong(3) by metis
    moreover have "processed A fs fs' g" if "g \<in> set args" for g
      using 2(1) 1(2) that f processed_cong(1) by metis
    ultimately show ?R using 1(2) 2(2) by auto
  next
    assume r: ?R
    let ?fs1 = "fs(f := fs' f)"
    have f: "f \<notin> set args" using Cons.prems by simp
    have "processed A fs ?fs1 f" using r by (simp add: processed_def)
    then have "processFile A fs f = Some (True, ?fs1)" unfolding processFile_cases by simp
    moreover have "processed A ?fs1 fs' g" if "g \<in> set args" for g
      using r that f by (auto simp: processed_def)
    then have "main_loop A args ?fs1 = Some (0, fs')" using IH [of ?fs1] r by auto
    ultimately show ?L unfolding main_loop_Cons by blast
  qed
qed

lemma main_loop_split:
  "main_loop A args fs = Some (st, fs') \<longleftrightarrow> (st = 0 \<and> main_loop A args fs = Some (0, fs')) \<or>
     (st = 1 \<and> (\<exists>pre f post fs1. args = pre @ f # post \<and> main_loop A pre fs = Some (0, fs1) \<and> processFile A fs1 f = Some (False, fs')))"
proof (induction args arbitrary: fs)
  case (Cons a args)
  show ?case (is "?L \<longleftrightarrow> ?R")
  proof
    assume ?L
    then consider "st = 1" "processFile A fs a = Some (False, fs')"
      | fs1 where "processFile A fs a = Some (True, fs1)" "main_loop A args fs1 = Some (st, fs')"
      unfolding main_loop_Cons by blast
    then show ?R
    proof cases
      case 1
      then show ?thesis by (intro disjI2 conjI exI [of _ "[]"] exI [of _ a] exI [of _ args] exI [of _ fs]) simp_all
    next
      case (2 fs1)
      from Cons.IH [of fs1] 2(2) show ?thesis
      proof (elim disjE conjE exE iffD1 [elim_format])
        fix pre f post fs2
        assume "st = 1" "args = pre @ f # post" "main_loop A pre fs1 = Some (0, fs2)" "processFile A fs2 f = Some (False, fs')"
        then show ?R using 2(1) by (intro disjI2 conjI exI [of _ "a # pre"] exI [of _ f] exI [of _ post] exI [of _ fs2]) simp_all
      qed (use 2 in auto)
    qed
  next
    assume ?R
    then show ?L
    proof (elim disjE conjE exE)
      fix pre f post fs1
      assume a: "st = 1" "a # args = pre @ f # post" "main_loop A pre fs = Some (0, fs1)" "processFile A fs1 f = Some (False, fs')"
      show ?L
      proof (cases pre)
        case Nil
        then show ?thesis using a by (simp add: main_loop_Cons)
      next
        case c: (Cons b pre')
        then obtain fs2 where "processFile A fs a = Some (True, fs2)" "main_loop A pre' fs2 = Some (0, fs1)"
          using a(2,3) unfolding c main_loop_Cons by auto
        then show ?thesis using Cons.IH [of fs2] a c unfolding main_loop_Cons by auto
      qed
    qed simp
  qed
qed auto

text \<open>
  C32: what \<open>main\<close> does to distinct files, exactly: it exits with 0 when \<open>parse_fat\<close> accepted the contents
  of every one of them, and each file then holds what \<open>parse_fat\<close> made of its contents; it exits
  with 1 at the first file that cannot be opened or mapped or that \<open>parse_fat\<close> refuses, after the
  files before it have been processed; files it has not come to, and files not named, keep their
  contents. On well-formed files it exits with 0.
\<close>

theorem main_processes_arguments:
  assumes "distinct args"
  shows "(main_loop A args fs = Some (status, fs') \<longleftrightarrow>
      (status = 0 \<and> (\<forall>f \<in> set args. processed A fs fs' f) \<and> (\<forall>f. f \<notin> set args \<longrightarrow> fs' f = fs f)) \<or>
      (status = 1 \<and> (\<exists>pre f post. args = pre @ f # post \<and> (\<forall>g \<in> set pre. processed A fs fs' g) \<and>
         refused A fs fs' f \<and> (\<forall>g. g \<notin> set pre \<and> g \<noteq> f \<longrightarrow> fs' g = fs g)))) \<and>
    (macho_layout A \<and> sizeof_fat_arch A < 2 ^ 32 \<and> (\<forall>f \<in> set args. \<exists>buf. fs f = File buf \<and> wf_file A buf) \<longrightarrow>
      (\<exists>fs''. main_loop A args fs = Some (0, fs'')))"
proof -
  have stop: "(\<exists>fs1. main_loop A pre fs = Some (0, fs1) \<and> processFile A fs1 f = Some (False, fs')) \<longleftrightarrow>
      (\<forall>g \<in> set pre. processed A fs fs' g) \<and> refused A fs fs' f \<and> (\<forall>g. g \<notin> set pre \<and> g \<noteq> f \<longrightarrow> fs' g = fs g)"
    (is "?L \<longleftrightarrow> ?R") if "args = pre @ f # post" for pre f post
  proof -
    have d: "distinct pre" "f \<notin> set pre" using assms that by auto
    show ?thesis
    proof
      assume ?L
      then obtain fs1 where 1: "\<forall>g \<in> set pre. processed A fs fs1 g" "\<forall>g. g \<notin> set pre \<longrightarrow> fs1 g = fs g"
        "refused A fs1 fs' f" "\<forall>g. g \<noteq> f \<longrightarrow> fs' g = fs1 g"
        using main_loop_ok [OF d(1)] processFile_cases(2) by blast
      have "processed A fs fs' g" if "g \<in> set pre" for g using 1(1,4) d(2) that processed_cong(3) by metis
      moreover have "refused A fs fs' f" using 1(2,3) d(2) processed_cong(2) by metis
      ultimately show ?R using 1(2,4) by auto
    next
      assume r: ?R
      let ?fs1 = "fs'(f := fs f)"
      have "\<forall>g \<in> set pre. processed A fs ?fs1 g" using r d(2) by (auto simp: processed_def)
      then have "main_loop A pre fs = Some (0, ?fs1)" using main_loop_ok [OF d(1), of A fs ?fs1] r by auto
      moreover have "processFile A ?fs1 f = Some (False, fs')"
        unfolding processFile_cases using r by (simp add: refused_def)
      ultimately show ?L by blast
    qed
  qed
  have ok: "\<exists>fs''. main_loop A args fs = Some (0, fs'')"
    if A: "macho_layout A" "sizeof_fat_arch A < 2 ^ 32" and wf: "\<forall>f \<in> set args. \<exists>buf. fs f = File buf \<and> wf_file A buf"
  proof -
    have "\<forall>f \<in> set args. \<exists>b'. \<exists>b. fs f = File b \<and> parse_fat A b = Some (True, b')"
      using wf parse_fat_spec [OF A] by blast
    then obtain b' where "\<forall>f \<in> set args. \<exists>b. fs f = File b \<and> parse_fat A b = Some (True, b' f)" by metis
    then have "main_loop A args fs = Some (0, \<lambda>f. if f \<in> set args then File (b' f) else fs f)"
      using main_loop_ok [OF assms] by (auto simp: processed_def)
    then show ?thesis by blast
  qed
  have stops: "(\<exists>pre f post fs1. args = pre @ f # post \<and> main_loop A pre fs = Some (0, fs1) \<and> processFile A fs1 f = Some (False, fs')) \<longleftrightarrow>
      (\<exists>pre f post. args = pre @ f # post \<and> (\<forall>g \<in> set pre. processed A fs fs' g) \<and>
         refused A fs fs' f \<and> (\<forall>g. g \<notin> set pre \<and> g \<noteq> f \<longrightarrow> fs' g = fs g))"
  proof (intro iff_exI)
    fix pre f post
    show "(\<exists>fs1. args = pre @ f # post \<and> main_loop A pre fs = Some (0, fs1) \<and> processFile A fs1 f = Some (False, fs')) \<longleftrightarrow>
      args = pre @ f # post \<and> (\<forall>g \<in> set pre. processed A fs fs' g) \<and>
         refused A fs fs' f \<and> (\<forall>g. g \<notin> set pre \<and> g \<noteq> f \<longrightarrow> fs' g = fs g)"
    proof (cases "args = pre @ f # post")
      case True
      show ?thesis using stop [OF True] by (simp only: True simp_thms ex_simps)
    qed simp
  qed
  have "main_loop A args fs = Some (status, fs') \<longleftrightarrow>
      (status = 0 \<and> (\<forall>f \<in> set args. processed A fs fs' f) \<and> (\<forall>f. f \<notin> set args \<longrightarrow> fs' f = fs f)) \<or>
      (status = 1 \<and> (\<exists>pre f post. args = pre @ f # post \<and> (\<forall>g \<in> set pre. processed A fs fs' g) \<and>
         refused A fs fs' f \<and> (\<forall>g. g \<notin> set pre \<and> g \<noteq> f \<longrightarrow> fs' g = fs g)))"
    by (subst main_loop_split) (simp only: main_loop_ok [OF assms] stops)
  with ok show ?thesis by (intro conjI) blast+
qed

theorem main_processes_arguments_witness:
  "\<exists>fs' buf'. main_loop macho_abi_doc [''a''] (\<lambda>f. if f = ''a'' then File sample_fat else File [1]) = Some (0, fs') \<and>
     parse_fat macho_abi_doc sample_fat = Some (True, buf') \<and> fs' ''a'' = File buf' \<and> fs' ''b'' = File [1]"
proof -
  let ?fs = "\<lambda>f. if f = ''a'' then File sample_fat else File [1]"
  have d: "distinct [''a'']" and s: "sizeof_fat_arch macho_abi_doc < 2 ^ 32" by (simp_all add: macho_abi_doc_def)
  note main = main_processes_arguments [OF d, where A = macho_abi_doc and fs = ?fs]
  have wf: "\<forall>f \<in> set [''a'']. \<exists>buf. ?fs f = File buf \<and> wf_file macho_abi_doc buf" using sample_fat_wf(1) by simp
  obtain fs' where fs': "main_loop macho_abi_doc [''a''] ?fs = Some (0, fs')"
    using main [THEN conjunct2] doc.macho_layout_axioms s wf by blast
  have "(\<forall>f \<in> set [''a'']. processed macho_abi_doc ?fs fs' f) \<and> (\<forall>f. f \<notin> set [''a''] \<longrightarrow> fs' f = ?fs f)"
    using main [THEN conjunct1, THEN iffD1, OF fs'] by (elim disjE conjE) simp_all
  then have "processed macho_abi_doc ?fs fs' ''a''" "fs' ''b'' = File [1]" by simp_all
  then show ?thesis using fs' by (auto simp: processed_def)
qed

end
