(* ===== verification/Weak.thy ===== *)
theory Weak
  imports DenseMapInfo "HOL-Library.Monad_Syntax" "HOL-Library.Multiset"
begin

text \<open>
  The weak reference table (\<open>objc-weak.h\<close>, \<open>objc-weak.mm\<close>): for every weakly referenced object
  an entry with the set of the weak variables that point to it. Entries live in an
  open-addressing table with linear probing and a bound \<open>max_hash_displacement\<close> on how far an
  entry is from its hash; the referrers of an entry are four inline slots or a table of the
  same kind.

  Addresses are 64-bit words and nil is 0. Referrers are kept as plain addresses:
  \<open>DisguisedPtr\<close> is a bijection that fixes nil. \<open>bad_weak_table\<close> and \<open>_objc_fatal\<close> end the
  process and are \<open>None\<close>; so is a loop that does not end. \<open>_objc_inform\<close> messages are left out.
  Counters are natural numbers: their decrements wrap as in the source (\<open>num_refs\<close> is a 62-bit
  field), their increments are bounded by the number of slots in memory.
\<close>

subsection \<open>Entries\<close>

definition WEAK_INLINE_COUNT :: nat where "WEAK_INLINE_COUNT = 4"
definition REFERRERS_OUT_OF_LINE :: nat where "REFERRERS_OUT_OF_LINE = 2"

text \<open>
  The union of \<open>weak_entry_t\<close>. The tag \<open>out_of_line_ness\<close> is the constructor: it overlaps the
  low two bits of the second inline slot, which are zero for pointer-aligned addresses
  (\<open>disguise_aligned\<close>). So the model, and all that is proved about it, is for pointer-aligned
  weak variables, which the comment on \<open>out_of_line_ness\<close> assumes too; the tag word of an
  out-of-line entry, read as the second inline referrer, is not nil.
\<close>

datatype weak_refs =
    Inline (inline_referrers: "u64 list")
  | OutOfLine (referrers: "u64 list") (num_refs: nat) (ref_mask: nat) (max_hash_displacement: nat)

record weak_entry_t =
  referent :: u64
  refs :: weak_refs

fun out_of_line :: "weak_refs \<Rightarrow> bool" where
  "out_of_line (Inline rs) = False"
| "out_of_line (OutOfLine rs n m d) = True"

definition weak_entry_new :: "u64 \<Rightarrow> u64 \<Rightarrow> weak_entry_t" where
  "weak_entry_new newReferent newReferrer =
     \<lparr>referent = newReferent, refs = Inline (newReferrer # replicate (WEAK_INLINE_COUNT - 1) 0)\<rparr>"

definition zero_entry :: weak_entry_t where
  "zero_entry = \<lparr>referent = 0, refs = Inline (replicate WEAK_INLINE_COUNT 0)\<rparr>"

record weak_table_t =
  weak_entries :: "weak_entry_t list"
  num_entries :: nat
  table_mask :: nat
  table_max_displacement :: nat

definition TABLE_SIZE :: "nat \<Rightarrow> nat" where
  "TABLE_SIZE m = (if m \<noteq> 0 then m + 1 else 0)"

definition hash_pointer :: "u64 \<Rightarrow> nat" where
  "hash_pointer key = unat (ptr_hash key)"

definition w_hash_pointer :: "u64 \<Rightarrow> nat" where
  "w_hash_pointer key = unat (ptr_hash key)"

subsection \<open>The probing loops\<close>

text \<open>
  The \<open>while\<close> loops of the four table operations: \<open>probe_free\<close> walks to the first free slot
  and counts the displacement, \<open>probe_find\<close> walks to a slot with the wanted contents and gives
  up beyond the maximal displacement.
\<close>

partial_function (option) probe_free ::
  "(nat \<Rightarrow> bool) \<Rightarrow> nat \<Rightarrow> nat \<Rightarrow> nat \<Rightarrow> nat \<Rightarrow> (nat \<times> nat) option" where
  "probe_free free m begin index hash_displacement =
     (if free index then Some (index, hash_displacement)
      else
        let index = (index + 1) AND m in
        if index = begin then None
        else probe_free free m begin index (hash_displacement + 1))"

partial_function (option) probe_find ::
  "(nat \<Rightarrow> bool) \<Rightarrow> nat \<Rightarrow> nat \<Rightarrow> nat \<Rightarrow> nat \<Rightarrow> nat \<Rightarrow> nat option option" where
  "probe_find hit m max_displacement begin index hash_displacement =
     (if hit index then Some (Some index)
      else
        let index = (index + 1) AND m in
        if index = begin then None
        else
          let hash_displacement = hash_displacement + 1 in
          if hash_displacement > max_displacement then Some None
          else probe_find hit m max_displacement begin index hash_displacement)"

subsection \<open>Referrers\<close>

text \<open>
  The end of \<open>append_referrer\<close>: store into the first free slot of an out-of-line table.
\<close>

fun insert_out_of_line :: "weak_refs \<Rightarrow> u64 \<Rightarrow> weak_refs option" where
  "insert_out_of_line (OutOfLine rs n m d) new_referrer =
     (let begin = w_hash_pointer new_referrer AND m in
      case probe_free (\<lambda>i. rs ! i = 0) m begin begin 0 of
        None \<Rightarrow> None
      | Some (index, hash_displacement) \<Rightarrow>
          Some (OutOfLine (rs[index := new_referrer]) (n + 1) m (max d hash_displacement)))"
| "insert_out_of_line (Inline rs) new_referrer = None"

text \<open>The first inline slot with the given contents.\<close>

fun inline_index :: "u64 \<Rightarrow> u64 list \<Rightarrow> nat \<Rightarrow> nat option" where
  "inline_index r [] i = None"
| "inline_index r (x # xs) i = (if x = r then Some i else inline_index r xs (i + 1))"

fun grow_loop ::
  "(weak_refs \<Rightarrow> u64 \<Rightarrow> weak_refs option) \<Rightarrow> u64 list \<Rightarrow> nat \<Rightarrow> weak_refs \<Rightarrow> weak_refs option" where
  "grow_loop app [] num e = Some e"
| "grow_loop app (r # old_refs) num e =
     (if num > 0 then
        if r \<noteq> 0 then do { e \<leftarrow> app e r; grow_loop app old_refs (num - 1) e }
        else grow_loop app old_refs num e
      else Some e)"

definition grow_refs_and_insert ::
  "(weak_refs \<Rightarrow> u64 \<Rightarrow> weak_refs option) \<Rightarrow> weak_refs \<Rightarrow> u64 \<Rightarrow> weak_refs option" where
  "grow_refs_and_insert app e new_referrer =
     (let old_size = TABLE_SIZE (ref_mask e);
          new_size = (if old_size \<noteq> 0 then old_size * 2 else 8);
          num = num_refs e;
          old_refs = referrers e;
          e = OutOfLine (replicate (TABLE_SIZE (new_size - 1)) 0) 0 (new_size - 1) 0 in
      do { e \<leftarrow> grow_loop app (take old_size old_refs) num e;
           app e new_referrer })"

text \<open>
  \<open>append_referrer\<close> and \<open>grow_refs_and_insert\<close> call each other; \<open>fuel\<close> bounds the depth. A
  table that has just grown has room, so depth 2 is enough (\<open>append_referrer_spec\<close>).
\<close>

fun append_referrer_fuel :: "nat \<Rightarrow> weak_refs \<Rightarrow> u64 \<Rightarrow> weak_refs option" where
  "append_referrer_fuel 0 e new_referrer = None"
| "append_referrer_fuel (Suc fuel) e new_referrer =
     (let out = (\<lambda>e. if num_refs e \<ge> TABLE_SIZE (ref_mask e) * 3 div 4
                     then grow_refs_and_insert (append_referrer_fuel fuel) e new_referrer
                     else insert_out_of_line e new_referrer) in
      case e of
        Inline rs \<Rightarrow>
          (case inline_index 0 rs 0 of
             Some i \<Rightarrow> Some (Inline (rs[i := new_referrer]))
           | None \<Rightarrow> out (OutOfLine rs WEAK_INLINE_COUNT (WEAK_INLINE_COUNT - 1) 0))
      | OutOfLine rs n m d \<Rightarrow> out e)"

definition append_referrer :: "weak_refs \<Rightarrow> u64 \<Rightarrow> weak_refs option" where
  "append_referrer = append_referrer_fuel 2"

definition remove_referrer :: "weak_refs \<Rightarrow> u64 \<Rightarrow> weak_refs option" where
  "remove_referrer e old_referrer =
     (case e of
        Inline rs \<Rightarrow>
          (case inline_index old_referrer rs 0 of
             Some i \<Rightarrow> Some (Inline (rs[i := 0]))
           | None \<Rightarrow> Some e)
      | OutOfLine rs n m d \<Rightarrow>
          (let begin = w_hash_pointer old_referrer AND m in
           case probe_find (\<lambda>i. rs ! i = old_referrer) m d begin begin 0 of
             None \<Rightarrow> None
           | Some None \<Rightarrow> Some e
           | Some (Some index) \<Rightarrow> Some (OutOfLine (rs[index := 0]) (if n = 0 then 2 ^ 62 - 1 else n - 1) m d)))"

subsection \<open>The table of entries\<close>

definition weak_entry_insert :: "weak_table_t \<Rightarrow> weak_entry_t \<Rightarrow> weak_table_t option" where
  "weak_entry_insert t new_entry =
     (let begin = hash_pointer (referent new_entry) AND table_mask t in
      case probe_free (\<lambda>i. referent (weak_entries t ! i) = 0) (table_mask t) begin begin 0 of
        None \<Rightarrow> None
      | Some (index, hash_displacement) \<Rightarrow>
          Some (t\<lparr>weak_entries := (weak_entries t)[index := new_entry],
                  num_entries := num_entries t + 1,
                  table_max_displacement := max (table_max_displacement t) hash_displacement\<rparr>))"

fun weak_resize_loop :: "weak_entry_t list \<Rightarrow> weak_table_t \<Rightarrow> weak_table_t option" where
  "weak_resize_loop [] t = Some t"
| "weak_resize_loop (entry # old_entries) t =
     (if referent entry \<noteq> 0
      then do { t \<leftarrow> weak_entry_insert t entry; weak_resize_loop old_entries t }
      else weak_resize_loop old_entries t)"

definition weak_resize :: "weak_table_t \<Rightarrow> nat \<Rightarrow> weak_table_t option" where
  "weak_resize t new_size =
     (let old_size = TABLE_SIZE (table_mask t);
          old_entries = weak_entries t;
          t = \<lparr>weak_entries = replicate new_size zero_entry, num_entries = 0,
               table_mask = new_size - 1, table_max_displacement = 0\<rparr> in
      if old_entries \<noteq> [] then weak_resize_loop (take old_size old_entries) t else Some t)"

definition weak_grow_maybe :: "weak_table_t \<Rightarrow> weak_table_t option" where
  "weak_grow_maybe t =
     (let old_size = TABLE_SIZE (table_mask t) in
      if num_entries t \<ge> old_size * 3 div 4
      then weak_resize t (if old_size \<noteq> 0 then old_size * 2 else 64) else Some t)"

definition weak_compact_maybe :: "weak_table_t \<Rightarrow> weak_table_t option" where
  "weak_compact_maybe t =
     (let old_size = TABLE_SIZE (table_mask t) in
      if old_size \<ge> 1024 \<and> old_size div 16 \<ge> num_entries t
      then weak_resize t (old_size div 8) else Some t)"

definition weak_entry_remove :: "weak_table_t \<Rightarrow> nat \<Rightarrow> weak_table_t option" where
  "weak_entry_remove t entry =
     weak_compact_maybe
       (t\<lparr>weak_entries := (weak_entries t)[entry := zero_entry],
          num_entries := (if num_entries t = 0 then 2 ^ 64 - 1 else num_entries t - 1)\<rparr>)"

text \<open>The result is the index of the entry, \<open>None\<close> for a null result.\<close>

definition weak_entry_for_referent :: "weak_table_t \<Rightarrow> u64 \<Rightarrow> nat option option" where
  "weak_entry_for_referent t r =
     (if weak_entries t = [] then Some None
      else
        let begin = hash_pointer r AND table_mask t in
        probe_find (\<lambda>i. referent (weak_entries t ! i) = r) (table_mask t)
          (table_max_displacement t) begin begin 0)"

text \<open>
  \<open>weak_unregister_no_lock\<close> looks for a non-null word in \<open>inline_referrers\<close> also when the
  entry is out of line; the words it then reads are the pointer \<open>referrers\<close>, the tag together
  with \<open>num_refs\<close>, \<open>mask\<close> and \<open>max_hash_displacement\<close>. The pointer is left out below: the
  word with the tag is never null.
\<close>

fun inline_words :: "weak_refs \<Rightarrow> nat list" where
  "inline_words (Inline rs) = map unat rs"
| "inline_words (OutOfLine rs n m d) = [REFERRERS_OUT_OF_LINE + 4 * n, m, d]"

definition refs_empty :: "weak_refs \<Rightarrow> bool" where
  "refs_empty e =
     (if out_of_line e \<and> num_refs e \<noteq> 0 then False else list_all (\<lambda>w. w = 0) (inline_words e))"

definition weak_unregister_no_lock :: "weak_table_t \<Rightarrow> u64 \<Rightarrow> u64 \<Rightarrow> weak_table_t option" where
  "weak_unregister_no_lock t r referrer =
     (if r = 0 then Some t
      else do {
        entry \<leftarrow> weak_entry_for_referent t r;
        case entry of
          None \<Rightarrow> Some t
        | Some i \<Rightarrow> do {
            e \<leftarrow> remove_referrer (refs (weak_entries t ! i)) referrer;
            let t = t\<lparr>weak_entries := (weak_entries t)[i := (weak_entries t ! i)\<lparr>refs := e\<rparr>]\<rparr>;
            if refs_empty e then weak_entry_remove t i else Some t } })"

datatype WeakRegisterDeallocatingOptions =
  ReturnNilIfDeallocating | CrashIfDeallocating | DontCheckDeallocating

text \<open>
  What the object answers when asked whether it may be weakly referenced. \<open>Deallocating\<close> stands for
  the local variable \<open>deallocating\<close>, not for the state of the object: it is set when
  \<open>rootIsDeallocating\<close> says so, and, for a class with its own reference counting, when the object's
  \<open>allowsWeakReference\<close> returns NO, which a live object may do as well.
  \<open>NoAllowsWeakReference\<close> is a class with its own reference counting without that method.
\<close>

datatype weak_answer = Alive | Deallocating | NoAllowsWeakReference

definition weak_register_no_lock ::
  "(u64 \<Rightarrow> bool) \<Rightarrow> (u64 \<Rightarrow> weak_answer) \<Rightarrow> weak_table_t \<Rightarrow> u64 \<Rightarrow> u64
   \<Rightarrow> WeakRegisterDeallocatingOptions \<Rightarrow> (u64 \<times> weak_table_t) option" where
  "weak_register_no_lock isTaggedPointerOrNil answer t r referrer deallocatingOptions =
     (if isTaggedPointerOrNil r then Some (r, t)
      else if deallocatingOptions \<noteq> DontCheckDeallocating \<and> answer r = NoAllowsWeakReference
        then Some (0, t)
      else if deallocatingOptions \<noteq> DontCheckDeallocating \<and> answer r = Deallocating
        then (if deallocatingOptions = CrashIfDeallocating then None else Some (0, t))
      else do {
        entry \<leftarrow> weak_entry_for_referent t r;
        t \<leftarrow> (case entry of
                Some i \<Rightarrow> do {
                  e \<leftarrow> append_referrer (refs (weak_entries t ! i)) referrer;
                  Some (t\<lparr>weak_entries := (weak_entries t)[i := (weak_entries t ! i)\<lparr>refs := e\<rparr>]\<rparr>) }
              | None \<Rightarrow> do {
                  t \<leftarrow> weak_grow_maybe t;
                  weak_entry_insert t (weak_entry_new r referrer) });
        Some (r, t) })"

definition weak_is_registered_no_lock :: "weak_table_t \<Rightarrow> u64 \<Rightarrow> bool option" where
  "weak_is_registered_no_lock t r = map_option (\<lambda>e. e \<noteq> None) (weak_entry_for_referent t r)"

text \<open>Clearing writes to the weak variables; \<open>mem\<close> maps their addresses to their contents.\<close>

fun slots :: "weak_refs \<Rightarrow> u64 list" where
  "slots (Inline rs) = take WEAK_INLINE_COUNT rs"
| "slots (OutOfLine rs n m d) = take (TABLE_SIZE m) rs"

fun weak_clear_loop :: "u64 \<Rightarrow> u64 list \<Rightarrow> (u64 \<Rightarrow> u64) \<Rightarrow> u64 \<Rightarrow> u64" where
  "weak_clear_loop r [] mem = mem"
| "weak_clear_loop r (referrer # rs) mem =
     weak_clear_loop r rs
       (if referrer \<noteq> 0 \<and> mem referrer = r then mem(referrer := 0) else mem)"

definition weak_clear_no_lock ::
  "weak_table_t \<Rightarrow> u64 \<Rightarrow> (u64 \<Rightarrow> u64) \<Rightarrow> (weak_table_t \<times> (u64 \<Rightarrow> u64)) option" where
  "weak_clear_no_lock t r mem = do {
     entry \<leftarrow> weak_entry_for_referent t r;
     case entry of
       None \<Rightarrow> Some (t, mem)
     | Some i \<Rightarrow> do {
         let mem = weak_clear_loop r (slots (refs (weak_entries t ! i))) mem;
         t \<leftarrow> weak_entry_remove t i;
         Some (t, mem) } }"

end
