(* ===== verification/WeakProbing.thy ===== *)
theory WeakProbing
  imports Weak
begin

text \<open>
  Linear probing with a bounded displacement, the discipline that the table of weak entries
  and the out-of-line tables of referrers share. The positions visited from \<open>begin\<close> are
  \<open>(begin + k) mod n\<close>; a slot is free when its key is nil. The locale \<open>displaced_table\<close>
  states what the two tables need of their slots and proves the search loops once; it is
  interpreted on referrers and on weak entries.
\<close>

subsection \<open>The loops\<close>

lemma next_position:
  assumes "is_pow2 (m + 1)" and "k + 1 < m + 1" and "b < m + 1"
  shows "((b + k) mod (m + 1) + 1) AND m = (b + (k + 1)) mod (m + 1)"
    and "(b + (k + 1)) mod (m + 1) \<noteq> b"
proof -
  show "((b + k) mod (m + 1) + 1) AND m = (b + (k + 1)) mod (m + 1)"
    using and_pow2_mod [OF assms(1)] mod_add_left_eq [of "b + k" "m + 1" 1] by simp
  show "(b + (k + 1)) mod (m + 1) \<noteq> b"
    using assms(2,3) by (cases "b + (k + 1) < m + 1") (auto simp: mod_if)
qed

lemma probe_free_first:
  assumes "is_pow2 (m + 1)" and "b < m + 1" and "k < m + 1"
    and "free ((b + k) mod (m + 1))" and "\<forall>j < k. \<not> free ((b + j) mod (m + 1))"
    and "d \<le> k"
  shows "probe_free free m b ((b + d) mod (m + 1)) d = Some ((b + k) mod (m + 1), k)"
  using assms(6)
proof (induction "k - d" arbitrary: d)
  case 0
  then have "d = k" by simp
  then show ?case using assms(4) by (simp add: probe_free.simps)
next
  case (Suc x)
  then have "d < k" by simp
  with Suc.hyps(1) [of "d + 1"] Suc.hyps(2)
  have "probe_free free m b ((b + (d + 1)) mod (m + 1)) (d + 1) = Some ((b + k) mod (m + 1), k)"
    by simp
  then show ?case
    using next_position [OF assms(1), of d b] \<open>d < k\<close> assms(2,3,5)
    by (subst probe_free.simps) (simp add: Let_def)
qed

lemma probe_find_first:
  assumes "is_pow2 (m + 1)" and "b < m + 1" and "k \<le> D" and "D + 1 < m + 1"
    and "hit ((b + k) mod (m + 1))" and "\<forall>j < k. \<not> hit ((b + j) mod (m + 1))"
    and "d \<le> k"
  shows "probe_find hit m D b ((b + d) mod (m + 1)) d = Some (Some ((b + k) mod (m + 1)))"
  using assms(7)
proof (induction "k - d" arbitrary: d)
  case 0
  then have "d = k" by simp
  then show ?case using assms(5) by (simp add: probe_find.simps)
next
  case (Suc x)
  then have "d < k" by simp
  with Suc.hyps(1) [of "d + 1"] Suc.hyps(2)
  have "probe_find hit m D b ((b + (d + 1)) mod (m + 1)) (d + 1) = Some (Some ((b + k) mod (m + 1)))"
    by simp
  then show ?case
    using next_position [OF assms(1), of d b] \<open>d < k\<close> assms(2-4,6)
    by (subst probe_find.simps) (simp add: Let_def)
qed

lemma probe_find_none:
  assumes "is_pow2 (m + 1)" and "b < m + 1" and "D + 1 < m + 1"
    and "\<forall>j \<le> D. \<not> hit ((b + j) mod (m + 1))" and "d \<le> D"
  shows "probe_find hit m D b ((b + d) mod (m + 1)) d = Some None"
  using assms(5)
proof (induction "D - d" arbitrary: d)
  case 0
  then have "d = D" by simp
  then show ?case
    using next_position [OF assms(1), of D b] assms(2-4)
    by (subst probe_find.simps) (simp add: Let_def)
next
  case (Suc x)
  then have "d < D" by simp
  with Suc.hyps(1) [of "d + 1"] Suc.hyps(2)
  have "probe_find hit m D b ((b + (d + 1)) mod (m + 1)) (d + 1) = Some None"
    by simp
  then show ?case
    using next_position [OF assms(1), of d b] \<open>d < D\<close> assms(2-4)
    by (subst probe_find.simps) (simp add: Let_def)
qed

text \<open>Among the first \<open>c + 1\<close> positions one is free when at most \<open>c\<close> slots are taken.\<close>

lemma free_within:
  fixes xs :: "'a list"
  assumes "length (filter P xs) < length xs"
  shows "\<exists>k \<le> length (filter P xs). \<not> P (xs ! ((b + k) mod length xs))"
proof (rule ccontr)
  let ?n = "length xs" and ?c = "length (filter P xs)"
  let ?T = "{i. i < ?n \<and> P (xs ! i)}"
  assume "\<not> ?thesis"
  then have taken: "\<forall>k \<in> {..?c}. P (xs ! ((b + k) mod ?n))" by auto
  have "inj_on (\<lambda>k. (b + k) mod ?n) {..?c}"
  proof (rule inj_onI)
    fix x y assume "x \<in> {..?c}" and "y \<in> {..?c}" and eq: "(b + x) mod ?n = (b + y) mod ?n"
    with assms have "x < ?n" and "y < ?n" by simp_all
    moreover from eq have "x mod ?n = y mod ?n"
      unfolding nat_mod_eq_iff by simp
    ultimately show "x = y" by simp
  qed
  moreover have "(\<lambda>k. (b + k) mod ?n) ` {..?c} \<subseteq> ?T"
    using taken assms by (auto intro!: mod_less_divisor)
  ultimately have "card {..?c} \<le> card ?T"
    by (intro card_inj_on_le [of "\<lambda>k. (b + k) mod ?n"]) simp_all
  then show False by (simp add: length_filter_conv_card)
qed

subsection \<open>Tables with displaced slots\<close>

definition occupied :: "('a \<Rightarrow> u64) \<Rightarrow> 'a list \<Rightarrow> 'a list" where
  "occupied key xs = filter (\<lambda>x. key x \<noteq> 0) xs"

lemma occupied_Nil [simp]: "occupied key [] = []"
  by (simp add: occupied_def)

text \<open>
  \<open>probe_inv key hash xs m D\<close>: the table \<open>xs\<close> has a power of two of slots, \<open>m\<close> is its mask,
  every taken slot is at most \<open>D\<close> steps behind the hash of its key, and \<open>D\<close> is too small for
  a search to come back to its first slot.
\<close>

definition probe_inv ::
  "('a \<Rightarrow> u64) \<Rightarrow> (u64 \<Rightarrow> nat) \<Rightarrow> 'a list \<Rightarrow> nat \<Rightarrow> nat \<Rightarrow> bool" where
  "probe_inv key hash xs m D \<longleftrightarrow>
     length xs = m + 1 \<and> is_pow2 (m + 1) \<and> D + 1 < m + 1 \<and>
     (\<forall>i < length xs. key (xs ! i) \<noteq> 0 \<longrightarrow>
        (\<exists>k \<le> D. i = ((hash (key (xs ! i)) AND m) + k) mod (m + 1)))"

lemma probe_invD:
  assumes "probe_inv key hash xs m D"
  shows "length xs = m + 1" and "is_pow2 (m + 1)" and "D + 1 < m + 1"
  using assms by (simp_all add: probe_inv_def)

lemma begin_less: "is_pow2 (m + 1) \<Longrightarrow> (h::nat) AND m < m + 1"
  using and_pow2_mod [of "m + 1" h] by simp

locale displaced_table =
  fixes key :: "'a \<Rightarrow> u64" and hash :: "u64 \<Rightarrow> nat" and empty :: 'a
  assumes key_empty: "key empty = 0"
begin

lemma probe_inv_empty:
  assumes "is_pow2 n" and "2 \<le> n"
  shows "probe_inv key hash (replicate n empty) (n - 1) 0"
  using assms by (simp add: probe_inv_def key_empty)

lemma occupied_empty [simp]: "occupied key (replicate n empty) = []"
  by (simp add: occupied_def key_empty)

lemma probe_free_finds:
  assumes inv: "probe_inv key hash xs m D" and room: "length (occupied key xs) < length xs"
    and b: "b = h AND m"
  obtains i k where "probe_free (\<lambda>i. key (xs ! i) = 0) m b b 0 = Some (i, k)"
    and "i < length xs" and "key (xs ! i) = 0" and "i = (b + k) mod (m + 1)"
    and "k \<le> length (occupied key xs)"
proof -
  note l = probe_invD [OF inv]
  let ?free = "\<lambda>k. key (xs ! ((b + k) mod (m + 1))) = 0"
  define k where "k = (LEAST k. ?free k)"
  obtain k' where k': "k' \<le> length (occupied key xs)" "?free k'"
    using free_within [of "\<lambda>x. key x \<noteq> 0" xs b] room l(1) by (auto simp: occupied_def)
  from k'(2) have free: "?free k" unfolding k_def by (rule LeastI)
  from k'(2) have "k \<le> k'" unfolding k_def by (rule Least_le)
  with k'(1) room l(1) have "k < m + 1" and "k \<le> length (occupied key xs)" by simp_all
  moreover have "\<forall>j < k. \<not> ?free j" unfolding k_def by (blast dest: not_less_Least)
  ultimately have "probe_free (\<lambda>i. key (xs ! i) = 0) m b ((b + 0) mod (m + 1)) 0
      = Some ((b + k) mod (m + 1), k)"
    using l(2) free begin_less [OF l(2)] b by (intro probe_free_first) auto
  moreover have "(b + 0) mod (m + 1) = b" using begin_less [OF l(2), of h] b by simp
  ultimately show ?thesis
    using that free \<open>k \<le> length (occupied key xs)\<close> l(1) by simp
qed

lemma probe_inv_insert:
  assumes "probe_inv key hash xs m D" and "i = ((hash (key x) AND m) + k) mod (m + 1)"
    and "k + 1 < m + 1"
  shows "probe_inv key hash (xs[i := x]) m (max D k)"
proof -
  note l = probe_invD [OF assms(1)]
  have "\<exists>k' \<le> max D k. j = ((hash (key (xs[i := x] ! j)) AND m) + k') mod (m + 1)"
    if "j < length xs" and "key (xs[i := x] ! j) \<noteq> 0" for j
  proof (cases "j = i")
    case True
    with that assms(2) show ?thesis by (intro exI [of _ k]) simp
  next
    case False
    with that assms(1) obtain k' where "k' \<le> D" "j = ((hash (key (xs ! j)) AND m) + k') mod (m + 1)"
      unfolding probe_inv_def by auto
    with False show ?thesis by (intro exI [of _ k']) simp
  qed
  then show ?thesis using l assms(3) by (simp add: probe_inv_def)
qed

lemma probe_inv_remove:
  assumes "probe_inv key hash xs m D"
  shows "probe_inv key hash (xs[i := empty]) m D"
proof (cases "i < length xs")
  case True
  with assms show ?thesis unfolding probe_inv_def by (auto simp: nth_list_update key_empty)
qed (simp add: assms list_update_beyond)

lemma probe_inv_replace:
  assumes "probe_inv key hash xs m D" and "key x = key (xs ! i)"
  shows "probe_inv key hash (xs[i := x]) m D"
proof (cases "i < length xs")
  case True
  with assms show ?thesis unfolding probe_inv_def by (auto simp: nth_list_update)
qed (simp add: assms list_update_beyond)

lemma probe_find_cases:
  assumes inv: "probe_inv key hash xs m D" and "a \<noteq> 0" and b: "b = hash a AND m"
  obtains (missing) "probe_find (\<lambda>i. key (xs ! i) = a) m D b b 0 = Some None"
      and "\<forall>x \<in> set xs. key x \<noteq> a"
    | (found) i where "probe_find (\<lambda>i. key (xs ! i) = a) m D b b 0 = Some (Some i)"
      and "i < length xs" and "key (xs ! i) = a"
proof -
  note l = probe_invD [OF inv]
  let ?hit = "\<lambda>k. key (xs ! ((b + k) mod (m + 1))) = a"
  have b0: "(b + 0) mod (m + 1) = b" and bl: "b < m + 1"
    using begin_less [OF l(2), of "hash a"] b by simp_all
  show ?thesis
  proof (cases "\<exists>k \<le> D. ?hit k")
    case True
    define k where "k = (LEAST k. ?hit k)"
    from True obtain k' where k': "k' \<le> D" "?hit k'" by blast
    from k'(2) have hit: "?hit k" unfolding k_def by (rule LeastI)
    from k'(2) have "k \<le> k'" unfolding k_def by (rule Least_le)
    with k'(1) have "k \<le> D" by simp
    moreover have "\<forall>j < k. \<not> ?hit j" unfolding k_def by (blast dest: not_less_Least)
    ultimately have "probe_find (\<lambda>i. key (xs ! i) = a) m D b b 0 = Some (Some ((b + k) mod (m + 1)))"
      using hit probe_find_first [OF l(2) bl _ l(3), of k "\<lambda>i. key (xs ! i) = a" 0] b0 by simp
    then show ?thesis using found hit l(1) by simp
  next
    case False
    then have "probe_find (\<lambda>i. key (xs ! i) = a) m D b b 0 = Some None"
      using probe_find_none [OF l(2) bl l(3), of "\<lambda>i. key (xs ! i) = a" 0] b0 by simp
    moreover have "\<forall>x \<in> set xs. key x \<noteq> a"
    proof (rule ccontr)
      assume "\<not> ?thesis"
      then obtain i where "i < length xs" "key (xs ! i) = a" by (auto simp: in_set_conv_nth)
      with inv \<open>a \<noteq> 0\<close> b obtain k where "k \<le> D" "i = (b + k) mod (m + 1)"
        unfolding probe_inv_def by blast
      with False \<open>key (xs ! i) = a\<close> show False by blast
    qed
    ultimately show ?thesis using missing by blast
  qed
qed

end

text \<open>The contents of a table as a multiset: what storing into a slot does to it.\<close>

lemma mset_occupied_store:
  assumes "i < length xs" and "key (xs ! i) = 0" and "key x \<noteq> 0"
  shows "mset (occupied key (xs[i := x])) = add_mset x (mset (occupied key xs))"
  using assms by (simp add: occupied_def mset_update)

lemma mset_occupied_erase:
  assumes "i < length xs" and "key (xs ! i) \<noteq> 0" and "key x = 0"
  shows "mset (occupied key (xs[i := x])) = mset (occupied key xs) - {#xs ! i#}"
  using assms by (simp add: occupied_def mset_update)

lemma occupied_mem: "i < length xs \<Longrightarrow> key (xs ! i) \<noteq> 0 \<Longrightarrow> xs ! i \<in> set (occupied key xs)"
  by (simp add: occupied_def)

end
