(* ===== verification/WeakReferrers.thy ===== *)
theory WeakReferrers
  imports WeakProbing
begin

text \<open>
  The referrers of one weak entry: the invariant of the inline and of the out-of-line
  representation, and the effect of \<open>append_referrer\<close> and \<open>remove_referrer\<close> on the multiset of
  referrers. Both always return, on every well-formed entry: the recursion between
  \<open>append_referrer\<close> and \<open>grow_refs_and_insert\<close> ends at depth 2 and no search reports a bad
  table.
\<close>

abbreviation taken :: "u64 list \<Rightarrow> u64 list" where
  "taken \<equiv> occupied (\<lambda>x. x)"

interpretation rr: displaced_table "\<lambda>x. x" w_hash_pointer "0 :: u64"
  by unfold_locales simp

fun entry_inv :: "weak_refs \<Rightarrow> bool" where
  "entry_inv (Inline rs) \<longleftrightarrow> length rs = WEAK_INLINE_COUNT"
| "entry_inv (OutOfLine rs n m d) \<longleftrightarrow>
     probe_inv (\<lambda>x. x) w_hash_pointer rs m d \<and> 8 \<le> m + 1 \<and>
     n = length (taken rs) \<and> n \<le> (m + 1) * 3 div 4"

fun entry_refs :: "weak_refs \<Rightarrow> u64 multiset" where
  "entry_refs (Inline rs) = mset (taken rs)"
| "entry_refs (OutOfLine rs n m d) = mset (taken rs)"

lemma TABLE_SIZE_pos [simp]: "0 < m \<Longrightarrow> TABLE_SIZE m = m + 1"
  by (simp add: TABLE_SIZE_def)

lemma entry_invD:
  assumes "entry_inv (OutOfLine rs n m d)"
  shows "probe_inv (\<lambda>x. x) w_hash_pointer rs m d" and "length rs = m + 1" and "7 \<le> m"
    and "n = length (taken rs)" and "n \<le> (m + 1) * 3 div 4"
  using assms by (auto dest: probe_invD)

lemma length_taken: "length (taken rs) = size (mset (taken rs))"
  by simp

lemma three_quarters_less: "0 < x \<Longrightarrow> x * 3 div 4 < (x::nat)"
  by (simp add: div_less_iff_less_mult)

lemma three_quarters_double: "4 \<le> x \<Longrightarrow> x * 3 div 4 + 1 \<le> x * 2 * 3 div (4::nat)"
  using div_le_mono [of "x * 3 + 4" "x * 2 * 3" 4] by simp

subsection \<open>Inline slots\<close>

lemma inline_index_cases:
  obtains (none) "inline_index r xs i = None" and "r \<notin> set xs"
    | (some) j where "inline_index r xs i = Some (i + j)" and "j < length xs" and "xs ! j = r"
proof -
  have "(inline_index r xs i = None \<and> r \<notin> set xs) \<or>
        (\<exists>j. inline_index r xs i = Some (i + j) \<and> j < length xs \<and> xs ! j = r)"
  proof (induction xs arbitrary: i)
    case (Cons x xs)
    show ?case
    proof (cases "x = r")
      case True
      then show ?thesis by (intro disjI2 exI [of _ 0]) simp
    next
      case False
      then show ?thesis using Cons.IH [of "i + 1"] by (auto intro: exI [of _ "Suc _"])
    qed
  qed simp
  then show ?thesis using none some by blast
qed

lemma taken_full: "0 \<notin> set xs \<Longrightarrow> taken xs = xs"
  unfolding occupied_def by (induction xs) auto

subsection \<open>Out-of-line tables\<close>

lemma insert_out_of_line_spec:
  assumes inv: "entry_inv (OutOfLine rs n m d)" and room: "n < (m + 1) * 3 div 4" and "r \<noteq> 0"
  obtains rs' d' where "insert_out_of_line (OutOfLine rs n m d) r = Some (OutOfLine rs' (n + 1) m d')"
    and "entry_inv (OutOfLine rs' (n + 1) m d')" and "mset (taken rs') = add_mset r (mset (taken rs))"
proof -
  note e = entry_invD [OF inv]
  from room three_quarters_less [of "m + 1"] have "length (taken rs) + 1 < m + 1"
    unfolding e(4) by linarith
  then obtain i k where ik:
    "probe_free (\<lambda>i. rs ! i = 0) m (w_hash_pointer r AND m) (w_hash_pointer r AND m) 0 = Some (i, k)"
    "i < length rs" "rs ! i = 0" "i = ((w_hash_pointer r AND m) + k) mod (m + 1)"
    "k \<le> length (taken rs)"
    using rr.probe_free_finds [OF e(1) _ refl] e(2) by (metis add_lessD1)
  have "probe_inv (\<lambda>x. x) w_hash_pointer (rs[i := r]) m (max d k)"
    using rr.probe_inv_insert [OF e(1) ik(4)] ik(5) \<open>length (taken rs) + 1 < m + 1\<close> by simp
  moreover have mset: "mset (taken (rs[i := r])) = add_mset r (mset (taken rs))"
    using ik(2,3) assms(3) by (simp add: mset_occupied_store)
  moreover have "length (taken (rs[i := r])) = n + 1"
    using arg_cong [OF mset, of size] e(4) by simp
  ultimately have "entry_inv (OutOfLine (rs[i := r]) (n + 1) m (max d k))"
    using e(3) room by simp
  with mset show ?thesis using that ik(1) by (simp add: Let_def)
qed

lemma append_room:
  assumes "entry_inv (OutOfLine rs n m d)" and "n < (m + 1) * 3 div 4"
  shows "append_referrer_fuel (Suc f) (OutOfLine rs n m d) r = insert_out_of_line (OutOfLine rs n m d) r"
  using assms entry_invD(3) [OF assms(1)] by (simp add: TABLE_SIZE_def)

lemma append_full:
  assumes "\<not> n < (m + 1) * 3 div 4" and "0 < m"
  shows "append_referrer_fuel (Suc f) (OutOfLine rs n m d) r
           = grow_refs_and_insert (append_referrer_fuel f) (OutOfLine rs n m d) r"
  using assms by simp

lemma append_inline_full:
  assumes "inline_index 0 rs 0 = None"
  shows "append_referrer_fuel (Suc f) (Inline rs) r
           = grow_refs_and_insert (append_referrer_fuel f) (OutOfLine rs 4 3 0) r"
  using assms by (simp add: WEAK_INLINE_COUNT_def)

text \<open>Rehashing into a table with room for everything keeps the contents.\<close>

lemma grow_loop_spec:
  assumes "entry_inv (OutOfLine rs n m d)" and "n + length (taken olds) \<le> (m + 1) * 3 div 4"
    and "num = length (taken olds)"
  shows "\<exists>rs' d'. grow_loop (append_referrer_fuel (Suc f)) olds num (OutOfLine rs n m d)
                    = Some (OutOfLine rs' (n + length (taken olds)) m d')
                \<and> entry_inv (OutOfLine rs' (n + length (taken olds)) m d')
                \<and> mset (taken rs') = mset (taken rs) + mset (taken olds)"
  using assms
proof (induction olds arbitrary: rs n d num)
  case Nil
  then show ?case by (auto simp: occupied_def)
next
  case (Cons r olds)
  show ?case
  proof (cases "r = 0")
    case True
    with Cons show ?thesis by (cases "num = 0") (auto simp: occupied_def filter_empty_conv)
  next
    case False
    with Cons.prems have room: "n < (m + 1) * 3 div 4" and num: "num - 1 = length (taken olds)" "0 < num"
      by (simp_all add: occupied_def)
    obtain rs1 d1 where s: "insert_out_of_line (OutOfLine rs n m d) r = Some (OutOfLine rs1 (n + 1) m d1)"
      "entry_inv (OutOfLine rs1 (n + 1) m d1)" "mset (taken rs1) = add_mset r (mset (taken rs))"
      using insert_out_of_line_spec [OF Cons.prems(1) room False] by blast
    have "n + 1 + length (taken olds) \<le> (m + 1) * 3 div 4"
      using Cons.prems(2) False by (simp add: occupied_def)
    from Cons.IH [OF s(2) this num(1)] obtain rs' d' where
      "grow_loop (append_referrer_fuel (Suc f)) olds (num - 1) (OutOfLine rs1 (n + 1) m d1)
         = Some (OutOfLine rs' (n + 1 + length (taken olds)) m d')"
      "entry_inv (OutOfLine rs' (n + 1 + length (taken olds)) m d')"
      "mset (taken rs') = mset (taken rs1) + mset (taken olds)" by blast
    then show ?thesis
      using False num(2) s(3) append_room [OF Cons.prems(1) room] s(1)
      by (auto simp: occupied_def simp del: append_referrer_fuel.simps entry_inv.simps)
  qed
qed

lemma grow_refs_and_insert_spec:
  assumes len: "length rs = m + 1" and pow: "is_pow2 (m + 1)" and "3 \<le> m"
    and n: "n = length (taken rs)" and "r \<noteq> 0"
    and full: "n + 1 \<le> (m + 1) * 2 * 3 div 4"
  shows "\<exists>e. grow_refs_and_insert (append_referrer_fuel (Suc f)) (OutOfLine rs n m d) r = Some e
            \<and> entry_inv e \<and> entry_refs e = add_mset r (mset (taken rs))"
proof -
  let ?N = "(m + 1) * 2"
  have "entry_inv (OutOfLine (replicate ?N 0) 0 (?N - 1) 0)"
    using rr.probe_inv_empty [OF is_pow2_double [OF pow]] \<open>3 \<le> m\<close> by (simp add: occupied_def)
  moreover have "0 + length (taken rs) \<le> (?N - 1 + 1) * 3 div 4" using full n by simp
  ultimately obtain rs1 d1 where g:
    "grow_loop (append_referrer_fuel (Suc f)) rs n (OutOfLine (replicate ?N 0) 0 (?N - 1) 0)
       = Some (OutOfLine rs1 n (?N - 1) d1)"
    "entry_inv (OutOfLine rs1 n (?N - 1) d1)" "mset (taken rs1) = mset (taken rs)"
    using grow_loop_spec [of "replicate ?N 0" 0 "?N - 1" 0 rs n f] n by auto
  have room: "n < (?N - 1 + 1) * 3 div 4" using full by simp
  obtain rs2 d2 where i:
    "insert_out_of_line (OutOfLine rs1 n (?N - 1) d1) r = Some (OutOfLine rs2 (n + 1) (?N - 1) d2)"
    "entry_inv (OutOfLine rs2 (n + 1) (?N - 1) d2)" "mset (taken rs2) = add_mset r (mset (taken rs1))"
    using insert_out_of_line_spec [OF g(2) room \<open>r \<noteq> 0\<close>] by blast
  have "grow_refs_and_insert (append_referrer_fuel (Suc f)) (OutOfLine rs n m d) r
          = Some (OutOfLine rs2 (n + 1) (?N - 1) d2)"
    using g(1) append_room [OF g(2) room, of f r] i(1) len \<open>3 \<le> m\<close>
    by (simp add: grow_refs_and_insert_def Let_def del: append_referrer_fuel.simps)
  then show ?thesis using i(2,3) g(3) by simp
qed

lemma append_referrer_spec:
  assumes "entry_inv e" and "r \<noteq> 0"
  shows "\<exists>e'. append_referrer e r = Some e' \<and> entry_inv e' \<and> entry_refs e' = add_mset r (entry_refs e)"
proof (cases e)
  case (Inline rs)
  with assms have len: "length rs = 4" by (simp add: WEAK_INLINE_COUNT_def)
  show ?thesis
  proof (cases rule: inline_index_cases [of 0 rs 0])
    case none
    with len have "4 = length (taken rs)" by (simp add: taken_full)
    from grow_refs_and_insert_spec [OF _ _ _ this assms(2), of 3 0 0] len
    have "\<exists>e'. grow_refs_and_insert (append_referrer_fuel (Suc 0)) (OutOfLine rs 4 3 0) r = Some e'
        \<and> entry_inv e' \<and> entry_refs e' = add_mset r (mset (taken rs))"
      by (simp del: append_referrer_fuel.simps)
    with none(1) Inline show ?thesis
      by (simp add: append_referrer_def numeral_2_eq_2 append_inline_full del: append_referrer_fuel.simps)
  next
    case (some j)
    then show ?thesis using assms Inline
      by (simp add: append_referrer_def numeral_2_eq_2 mset_occupied_store)
  qed
next
  case (OutOfLine rs n m d)
  with assms(1) have inv: "entry_inv (OutOfLine rs n m d)" by simp
  note i = entry_invD [OF inv]
  show ?thesis
  proof (cases "n < (m + 1) * 3 div 4")
    case True
    obtain rs' d' where "insert_out_of_line (OutOfLine rs n m d) r = Some (OutOfLine rs' (n + 1) m d')"
      "entry_inv (OutOfLine rs' (n + 1) m d')" "mset (taken rs') = add_mset r (mset (taken rs))"
      using insert_out_of_line_spec [OF inv True assms(2)] by blast
    then show ?thesis
      using append_room [OF inv True, of "Suc 0" r] OutOfLine
      by (simp add: append_referrer_def numeral_2_eq_2 del: append_referrer_fuel.simps entry_inv.simps)
  next
    case False
    with i(5) have "n + 1 \<le> (m + 1) * 2 * 3 div 4" using three_quarters_double [of "m + 1"] i(3) by linarith
    from grow_refs_and_insert_spec [OF i(2) probe_invD(2) [OF i(1)] _ i(4) assms(2) this, of 0 d] i(3)
    show ?thesis using append_full [OF False, of "Suc 0" rs d r] OutOfLine i(3)
      by (auto simp: append_referrer_def numeral_2_eq_2 simp del: append_referrer_fuel.simps)
  qed
qed

lemma remove_referrer_spec:
  assumes "entry_inv e" and "r \<noteq> 0"
  shows "\<exists>e'. remove_referrer e r = Some e' \<and> entry_inv e' \<and> entry_refs e' = entry_refs e - {#r#}
            \<and> out_of_line e' = out_of_line e"
proof (cases e)
  case (Inline rs)
  show ?thesis
  proof (cases rule: inline_index_cases [of r rs 0])
    case none
    then show ?thesis using assms Inline by (simp add: remove_referrer_def diff_single_trivial occupied_def)
  next
    case (some j)
    then show ?thesis using assms Inline by (simp add: remove_referrer_def mset_occupied_erase)
  qed
next
  case (OutOfLine rs n m d)
  with assms(1) have inv: "entry_inv (OutOfLine rs n m d)" by simp
  note i = entry_invD [OF inv]
  show ?thesis
  proof (cases rule: rr.probe_find_cases [OF i(1) assms(2) refl])
    case 1
    then have "r \<notin># mset (taken rs)" by (auto simp: occupied_def)
    then show ?thesis using 1(1) OutOfLine assms by (simp add: remove_referrer_def diff_single_trivial)
  next
    case (2 j)
    have "r \<in> set (taken rs)" using 2(2,3) assms(2) by (auto simp: occupied_def)
    then have "n \<noteq> 0" using i(4) by (metis empty_iff length_0_conv set_empty)
    have mset: "mset (taken (rs[j := 0])) = mset (taken rs) - {#r#}"
      using 2(2,3) assms(2) by (simp add: mset_occupied_erase)
    then have "length (taken (rs[j := 0])) = n - 1"
      using \<open>r \<in> set (taken rs)\<close> i(4) by (metis length_taken set_mset_mset size_Diff_singleton)
    then have "entry_inv (OutOfLine (rs[j := 0]) (n - 1) m d)"
      using rr.probe_inv_remove [OF i(1), of j] i(3,5) by simp
    then show ?thesis using 2(1) mset \<open>n \<noteq> 0\<close> OutOfLine by (simp add: remove_referrer_def Let_def)
  qed
qed

end
