(* ===== verification/WeakTable.thy ===== *)
theory WeakTable
  imports WeakReferrers
begin

text \<open>
  The table of weak entries: its invariant, its abstraction to a map from objects to the
  multiset of their weak variables, and the effect of every table operation on that map.
  Lookups, insertions and resizes always return on a well-formed table.
\<close>

interpretation en: displaced_table referent hash_pointer zero_entry
  by unfold_locales (simp add: zero_entry_def)

subsection \<open>Lists of entries as maps\<close>

definition well_keyed :: "weak_entry_t list \<Rightarrow> bool" where
  "well_keyed es \<longleftrightarrow> distinct (map referent es) \<and> (\<forall>e \<in> set es. entry_inv (refs e))"

definition view_of :: "weak_entry_t list \<Rightarrow> u64 \<rightharpoonup> u64 multiset" where
  "view_of es = map_of (map (\<lambda>e. (referent e, entry_refs (refs e))) es)"

lemma well_keyed_Nil [simp]: "well_keyed []"
  by (simp add: well_keyed_def)

lemma view_of_Nil [simp]: "view_of [] = Map.empty"
  by (simp add: view_of_def)

lemma well_keyed_Cons:
  "well_keyed (e # es) \<longleftrightarrow> well_keyed es \<and> referent e \<notin> referent ` set es \<and> entry_inv (refs e)"
  by (auto simp: well_keyed_def)

lemma view_of_Cons: "view_of (e # es) = (view_of es)(referent e \<mapsto> entry_refs (refs e))"
  by (simp add: view_of_def)

lemma view_of_None: "view_of es r = None \<longleftrightarrow> r \<notin> referent ` set es"
  by (force simp: view_of_def map_of_eq_None_iff)

lemma well_keyed_cong:
  assumes "mset es = mset es'" and "well_keyed es"
  shows "well_keyed es'"
proof -
  have "mset (map referent es) = mset (map referent es')" using assms(1) by simp
  then show ?thesis
    using assms mset_eq_imp_distinct_iff mset_eq_setD unfolding well_keyed_def by metis
qed

lemma view_of_cong:
  assumes "mset es = mset es'" and "well_keyed es"
  shows "view_of es = view_of es'"
proof (rule option_eqI [THEN ext])
  fix r v
  let ?f = "\<lambda>e. (referent e, entry_refs (refs e))"
  have "distinct (map fst (map ?f es))" and "distinct (map fst (map ?f es'))"
    using assms well_keyed_cong [OF assms] by (simp_all add: well_keyed_def comp_def)
  moreover have "set es = set es'" using assms(1) by (rule mset_eq_setD)
  ultimately show "view_of es r = Some v \<longleftrightarrow> view_of es' r = Some v"
    by (simp add: view_of_def)
qed

lemma view_of_remove1:
  assumes "well_keyed es" and "e \<in> set es"
  shows "well_keyed (remove1 e es)" and "view_of (remove1 e es) = (view_of es)(referent e := None)"
    and "referent e \<notin> referent ` set (remove1 e es)" and "view_of es (referent e) = Some (entry_refs (refs e))"
proof -
  have eq: "mset es = mset (e # remove1 e es)" using assms(2) by simp
  from well_keyed_cong [OF eq assms(1)] show *: "well_keyed (remove1 e es)"
    "referent e \<notin> referent ` set (remove1 e es)" by (simp_all add: well_keyed_Cons)
  from view_of_cong [OF eq assms(1)]
  have v: "view_of es = (view_of (remove1 e es))(referent e \<mapsto> entry_refs (refs e))"
    by (simp add: view_of_Cons)
  then show "view_of (remove1 e es) = (view_of es)(referent e := None)"
    using *(2) view_of_None by fastforce
  show "view_of es (referent e) = Some (entry_refs (refs e))" by (simp add: v)
qed

subsection \<open>The invariant and the abstraction\<close>

abbreviation entries :: "weak_table_t \<Rightarrow> weak_entry_t list" where
  "entries t \<equiv> occupied referent (weak_entries t)"

text \<open>The constructor of \<open>SideTable\<close> zeroes the table.\<close>

definition weak_table_zero :: weak_table_t where
  "weak_table_zero = \<lparr>weak_entries = [], num_entries = 0, table_mask = 0, table_max_displacement = 0\<rparr>"

definition wt_ok :: "weak_table_t \<Rightarrow> bool" where
  "wt_ok t \<longleftrightarrow>
     probe_inv referent hash_pointer (weak_entries t) (table_mask t) (table_max_displacement t) \<and>
     64 \<le> table_mask t + 1 \<and> num_entries t = length (entries t) \<and>
     num_entries t \<le> (table_mask t + 1) * 3 div 4 \<and> well_keyed (entries t)"

definition wt_inv :: "weak_table_t \<Rightarrow> bool" where
  "wt_inv t \<longleftrightarrow> t = weak_table_zero \<or> wt_ok t"

definition weak_map :: "weak_table_t \<Rightarrow> u64 \<rightharpoonup> u64 multiset" where
  "weak_map t = view_of (entries t)"

definition weak_view :: "weak_table_t \<Rightarrow> u64 \<Rightarrow> u64 multiset" where
  "weak_view t r = (case weak_map t r of None \<Rightarrow> {#} | Some M \<Rightarrow> M)"

lemma wt_okD:
  assumes "wt_ok t"
  shows "probe_inv referent hash_pointer (weak_entries t) (table_mask t) (table_max_displacement t)"
    and "length (weak_entries t) = table_mask t + 1" and "is_pow2 (table_mask t + 1)"
    and "63 \<le> table_mask t" and "num_entries t = length (entries t)"
    and "num_entries t \<le> (table_mask t + 1) * 3 div 4" and "well_keyed (entries t)"
  using assms by (auto simp: wt_ok_def dest: probe_invD)

lemma weak_table_zero_simps [simp]:
  "weak_entries weak_table_zero = []" "num_entries weak_table_zero = 0"
  "table_mask weak_table_zero = 0"
  by (simp_all add: weak_table_zero_def)

lemma weak_map_zero [simp]: "weak_map weak_table_zero = Map.empty"
  by (simp add: weak_map_def)

lemma wt_inv_zero [simp]: "wt_inv weak_table_zero"
  by (simp add: wt_inv_def)

lemma wt_inv_well_keyed: "wt_inv t \<Longrightarrow> well_keyed (entries t)"
  by (auto simp: wt_inv_def dest: wt_okD)

lemma wt_invI: "wt_ok t \<Longrightarrow> wt_inv t"
  by (simp add: wt_inv_def)

subsection \<open>Lookup\<close>

lemma weak_entry_for_referent_cases:
  assumes "wt_inv t" and "r \<noteq> 0"
  obtains (missing) "weak_entry_for_referent t r = Some None" and "weak_map t r = None"
    | (found) i where "weak_entry_for_referent t r = Some (Some i)" and "wt_ok t"
      and "i < length (weak_entries t)" and "referent (weak_entries t ! i) = r"
      and "weak_map t r = Some (entry_refs (refs (weak_entries t ! i)))"
proof (cases "t = weak_table_zero")
  case True
  then show ?thesis using missing by (simp add: weak_entry_for_referent_def)
next
  case False
  with assms(1) have ok: "wt_ok t" by (simp add: wt_inv_def)
  note t = wt_okD [OF ok]
  from t(2) have ne: "weak_entries t \<noteq> []" by auto
  show ?thesis
  proof (cases rule: en.probe_find_cases [OF t(1) assms(2) refl])
    case 1
    then have "weak_map t r = None" by (auto simp: weak_map_def view_of_None occupied_def)
    then show ?thesis using 1 missing ne by (simp add: weak_entry_for_referent_def)
  next
    case (2 i)
    have "weak_entries t ! i \<in> set (entries t)" using 2 assms(2) by (intro occupied_mem) simp_all
    from view_of_remove1(4) [OF t(7) this] 2 ne ok show ?thesis
      using found by (simp add: weak_entry_for_referent_def weak_map_def)
  qed
qed

subsection \<open>Insertion and resizing\<close>

lemma weak_entry_insert_spec:
  assumes ok: "wt_ok t" and room: "num_entries t < (table_mask t + 1) * 3 div 4"
    and "referent e \<noteq> 0" and new: "well_keyed (e # entries t)"
  shows "\<exists>t'. weak_entry_insert t e = Some t' \<and> wt_ok t' \<and> table_mask t' = table_mask t
            \<and> mset (entries t') = add_mset e (mset (entries t))"
proof -
  note i = wt_okD [OF ok]
  let ?m = "table_mask t" and ?b = "hash_pointer (referent e) AND table_mask t"
  from room three_quarters_less [of "?m + 1"] have less: "length (entries t) + 1 < ?m + 1"
    unfolding i(5) by linarith
  then obtain j k where jk:
    "probe_free (\<lambda>i. referent (weak_entries t ! i) = 0) ?m ?b ?b 0 = Some (j, k)"
    "j < length (weak_entries t)" "referent (weak_entries t ! j) = 0" "j = (?b + k) mod (?m + 1)"
    "k \<le> length (entries t)"
    using en.probe_free_finds [OF i(1) _ refl] i(2) by (metis add_lessD1)
  define t' where "t' = t\<lparr>weak_entries := (weak_entries t)[j := e], num_entries := num_entries t + 1,
    table_max_displacement := max (table_max_displacement t) k\<rparr>"
  have ins: "weak_entry_insert t e = Some t'"
    using jk(1) by (simp add: weak_entry_insert_def Let_def t'_def)
  have mset: "mset (entries t') = add_mset e (mset (entries t))"
    unfolding t'_def using jk(2,3) assms(3) by (simp add: mset_occupied_store)
  then have "length (entries t') = length (entries t) + 1" by (metis size_add_mset size_mset Suc_eq_plus1)
  moreover have "well_keyed (entries t')" using well_keyed_cong [OF _ new] mset by simp
  moreover have "probe_inv referent hash_pointer (weak_entries t') ?m (table_max_displacement t')"
    unfolding t'_def using en.probe_inv_insert [OF i(1) jk(4)] jk(5) less by simp
  ultimately have "wt_ok t'" using i(4,5) room by (simp add: wt_ok_def t'_def)
  with ins mset show ?thesis by (simp add: t'_def)
qed

lemma weak_resize_loop_spec:
  assumes "wt_ok t" and "num_entries t + length (occupied referent olds) \<le> (table_mask t + 1) * 3 div 4"
    and "well_keyed (occupied referent olds @ entries t)"
  shows "\<exists>t'. weak_resize_loop olds t = Some t' \<and> wt_ok t' \<and> table_mask t' = table_mask t
            \<and> mset (entries t') = mset (entries t) + mset (occupied referent olds)"
  using assms
proof (induction olds arbitrary: t)
  case Nil
  then show ?case by (simp add: occupied_def)
next
  case (Cons e olds)
  show ?case
  proof (cases "referent e = 0")
    case True
    with Cons show ?thesis by (simp add: occupied_def)
  next
    case False
    then have occ: "occupied referent (e # olds) = e # occupied referent olds" by (simp add: occupied_def)
    have wk: "well_keyed (e # entries t)" using Cons.prems(3) by (auto simp: occ well_keyed_def)
    obtain t1 where t1: "weak_entry_insert t e = Some t1" "wt_ok t1" "table_mask t1 = table_mask t"
      "mset (entries t1) = add_mset e (mset (entries t))"
      using weak_entry_insert_spec [OF Cons.prems(1) _ False wk] Cons.prems(2) occ by auto
    have "num_entries t1 = num_entries t + 1"
      using wt_okD(5) [OF t1(2)] wt_okD(5) [OF Cons.prems(1)] arg_cong [OF t1(4), of size] by simp
    moreover have "well_keyed (occupied referent olds @ entries t1)"
      using well_keyed_cong [OF _ Cons.prems(3), of "occupied referent olds @ entries t1"] t1(4) occ
      by simp
    ultimately obtain t' where "weak_resize_loop olds t1 = Some t'" "wt_ok t'" "table_mask t' = table_mask t1"
      "mset (entries t') = mset (entries t1) + mset (occupied referent olds)"
      using Cons.IH [OF t1(2)] Cons.prems(2) occ t1(3) by auto
    with False t1 occ show ?thesis by simp
  qed
qed

lemma weak_resize_spec:
  assumes "wt_inv t" and "is_pow2 n" and "64 \<le> n" and "length (entries t) \<le> n * 3 div 4"
  shows "\<exists>t'. weak_resize t n = Some t' \<and> wt_ok t' \<and> table_mask t' = n - 1
            \<and> mset (entries t') = mset (entries t)"
proof -
  let ?t = "\<lparr>weak_entries = replicate n zero_entry, num_entries = 0, table_mask = n - 1,
             table_max_displacement = 0\<rparr>"
  have ok: "wt_ok ?t" using en.probe_inv_empty [OF assms(2)] assms(3) by (simp add: wt_ok_def)
  show ?thesis
  proof (cases "t = weak_table_zero")
    case True
    then show ?thesis using ok by (simp add: weak_resize_def)
  next
    case False
    with assms(1) have "wt_ok t" by (simp add: wt_inv_def)
    note i = wt_okD [OF this]
    have "well_keyed (entries t @ entries ?t)" using i(7) by simp
    then obtain t' where "weak_resize_loop (weak_entries t) ?t = Some t'" "wt_ok t'"
      "table_mask t' = n - 1" "mset (entries t') = mset (entries t)"
      using weak_resize_loop_spec [OF ok, of "weak_entries t"] assms(3,4) by auto
    moreover have "weak_entries t \<noteq> []" using i(2) by auto
    ultimately show ?thesis using i(2,4) by (simp add: weak_resize_def Let_def)
  qed
qed

lemma weak_grow_maybe_spec:
  assumes "wt_inv t"
  shows "\<exists>t'. weak_grow_maybe t = Some t' \<and> wt_ok t' \<and> mset (entries t') = mset (entries t)
            \<and> num_entries t' < (table_mask t' + 1) * 3 div 4"
proof (cases "t = weak_table_zero")
  case True
  have "is_pow2 64" using is_pow2_power [of 6] by simp
  with weak_resize_spec [of t 64] obtain t' where
    "weak_resize t 64 = Some t'" "wt_ok t'" "table_mask t' = 63" "mset (entries t') = {#}"
    using True by auto
  then show ?thesis using True wt_okD(5) [of t'] by (simp add: weak_grow_maybe_def TABLE_SIZE_def)
next
  case False
  with assms have ok: "wt_ok t" by (simp add: wt_inv_def)
  note i = wt_okD [OF ok]
  let ?n = "table_mask t + 1"
  show ?thesis
  proof (cases "num_entries t < ?n * 3 div 4")
    case True
    then show ?thesis using ok i(4) by (simp add: weak_grow_maybe_def)
  next
    case False
    have "num_entries t + 1 \<le> ?n * 2 * 3 div 4" using three_quarters_double [of ?n] i(4,6) by linarith
    moreover from this obtain t' where t': "weak_resize t (?n * 2) = Some t'" "wt_ok t'"
      "table_mask t' = ?n * 2 - 1" "mset (entries t') = mset (entries t)"
      using weak_resize_spec [OF assms is_pow2_double [OF i(3)]] i(4,5) by auto
    moreover have "num_entries t' = num_entries t"
      using wt_okD(5) [OF t'(2)] i(5) t'(4) by (metis size_mset)
    ultimately show ?thesis using False i(4) by (simp add: weak_grow_maybe_def)
  qed
qed

lemma is_pow2_eighth:
  assumes "is_pow2 n" and "1024 \<le> n"
  shows "is_pow2 (n div 8)" and "n div 8 = 2 * (n div 16)"
proof -
  obtain k where n: "n = 2 ^ k" using assms(1) by (auto simp: is_pow2_def)
  have "10 \<le> k"
  proof (rule ccontr)
    assume "\<not> 10 \<le> k"
    then have "(2::nat) ^ k < 2 ^ 10" by (intro power_strict_increasing) auto
    with assms(2) n show False by simp
  qed
  then have "k = (k - 3) + 3" and "k = (k - 4) + 4" and "k - 3 = Suc (k - 4)" by simp_all
  moreover have "(2::nat) ^ (j + 3) = 2 ^ j * 8" and "(2::nat) ^ (j + 4) = 2 ^ j * 16" for j
    by (simp_all add: power_add)
  ultimately have "n = 2 ^ (k - 3) * 8" and "n = 2 ^ (k - 4) * 16" and "2 ^ (k - 3) = 2 * (2::nat) ^ (k - 4)"
    unfolding n by (metis, metis, metis power_Suc)
  then show "is_pow2 (n div 8)" and "n div 8 = 2 * (n div 16)" by (metis is_pow2_power nonzero_mult_div_cancel_right zero_neq_numeral)+
qed

lemma weak_compact_maybe_spec:
  assumes ok: "wt_ok t"
  shows "\<exists>t'. weak_compact_maybe t = Some t' \<and> wt_ok t' \<and> mset (entries t') = mset (entries t)"
proof -
  note i = wt_okD [OF ok]
  let ?n = "table_mask t + 1"
  show ?thesis
  proof (cases "1024 \<le> ?n \<and> num_entries t \<le> ?n div 16")
    case True
    then have "64 \<le> ?n div 8" using div_le_mono [of 1024 ?n 8] by simp
    moreover have "length (entries t) \<le> ?n div 8 * 3 div 4"
      using True is_pow2_eighth(2) [OF i(3)] unfolding i(5) by linarith
    ultimately obtain t' where "weak_resize t (?n div 8) = Some t'" "wt_ok t'"
      "mset (entries t') = mset (entries t)"
      using weak_resize_spec [OF wt_invI [OF ok] is_pow2_eighth(1) [OF i(3)]] True by blast
    then show ?thesis using True i(4) by (simp add: weak_compact_maybe_def)
  next
    case False
    then show ?thesis using ok i(4) by (auto simp: weak_compact_maybe_def)
  qed
qed

lemma weak_entry_remove_spec:
  assumes ok: "wt_ok t" and "j < length (weak_entries t)" and "referent (weak_entries t ! j) \<noteq> 0"
  shows "\<exists>t'. weak_entry_remove t j = Some t' \<and> wt_ok t'
            \<and> mset (entries t') = mset (entries t) - {#weak_entries t ! j#}"
proof -
  note i = wt_okD [OF ok]
  let ?e = "weak_entries t ! j"
  have mem: "?e \<in> set (entries t)" using assms(2,3) by (rule occupied_mem)
  define t1 where "t1 = t\<lparr>weak_entries := (weak_entries t)[j := zero_entry],
    num_entries := (if num_entries t = 0 then 2 ^ 64 - 1 else num_entries t - 1)\<rparr>"
  have mset: "mset (entries t1) = mset (remove1 ?e (entries t))"
    unfolding t1_def using assms(2,3) by (simp add: mset_occupied_erase en.key_empty)
  then have "length (entries t1) = length (entries t) - 1"
    using mem by (metis length_remove1 size_mset)
  moreover have "num_entries t \<noteq> 0" using mem i(5) by (metis empty_iff length_0_conv set_empty)
  moreover have "well_keyed (entries t1)"
    using well_keyed_cong [OF mset [symmetric]] view_of_remove1(1) [OF i(7) mem] by simp
  ultimately have "wt_ok t1"
    using en.probe_inv_remove [OF i(1), of j] i(4,5,6) by (simp add: wt_ok_def t1_def)
  then obtain t' where "weak_compact_maybe t1 = Some t'" "wt_ok t'" "mset (entries t') = mset (entries t1)"
    using weak_compact_maybe_spec by blast
  then show ?thesis using mset by (simp add: weak_entry_remove_def t1_def)
qed

text \<open>Writing back an entry with the same referent.\<close>

lemma wt_ok_update_entry:
  assumes ok: "wt_ok t" and "j < length (weak_entries t)" and "referent (weak_entries t ! j) \<noteq> 0"
    and "entry_inv e"
  defines "t1 \<equiv> t\<lparr>weak_entries := (weak_entries t)[j := (weak_entries t ! j)\<lparr>refs := e\<rparr>]\<rparr>"
  shows "wt_ok t1" and "weak_map t1 = (weak_map t)(referent (weak_entries t ! j) \<mapsto> entry_refs e)"
proof -
  note i = wt_okD [OF ok]
  let ?x = "weak_entries t ! j" and ?y = "(weak_entries t ! j)\<lparr>refs := e\<rparr>"
  have mem: "?x \<in> set (entries t)" using assms(2,3) by (rule occupied_mem)
  note r = view_of_remove1 [OF i(7) mem]
  have mset: "mset (?y # remove1 ?x (entries t)) = mset (entries t1)"
    unfolding t1_def using assms(2,3) by (simp add: occupied_def mset_update)
  have wk: "well_keyed (?y # remove1 ?x (entries t))" using r(1,3) assms(4) by (simp add: well_keyed_Cons)
  have "length (entries t1) = length (entries t)"
    using arg_cong [OF mset, of size] mem length_pos_if_in_set [OF mem] by (simp add: size_Diff_singleton)
  moreover have "probe_inv referent hash_pointer (weak_entries t1) (table_mask t) (table_max_displacement t)"
    unfolding t1_def using en.probe_inv_replace [OF i(1), of ?y j] by simp
  ultimately show "wt_ok t1"
    using i(4-6) well_keyed_cong [OF mset wk] by (simp add: wt_ok_def) (simp add: t1_def)
  show "weak_map t1 = (weak_map t)(referent ?x \<mapsto> entry_refs e)"
    using view_of_cong [OF mset wk] r(2) by (simp add: weak_map_def view_of_Cons)
qed

end
