(* ===== verification/WeakSpec.thy ===== *)
theory WeakSpec
  imports WeakTable
begin

text \<open>
  What the weak table promises the rest of the runtime. \<open>weak_view t r\<close> is the multiset of the
  weak variables registered for the object \<open>r\<close>; registering, unregistering and clearing have
  the obvious effect on it and always return. The locale \<open>weak_registry\<close> is the interface
  through which the side tables use these operations; it is interpreted on them.
\<close>

subsection \<open>The operations\<close>

lemma weak_map_nil: "weak_map t 0 = None"
  by (auto simp: weak_map_def view_of_None occupied_def)

lemma weak_view_zero [simp]: "weak_view weak_table_zero = (\<lambda>_. {#})"
  by (simp add: weak_view_def fun_eq_iff)

lemma weak_view_of_map:
  "weak_map t' = (weak_map t)(r \<mapsto> M) \<Longrightarrow> weak_view t' = (weak_view t)(r := M)"
  "weak_map t' = (weak_map t)(r := None) \<Longrightarrow> weak_view t' = (weak_view t)(r := {#})"
  by (auto simp: weak_view_def)

lemma weak_entry_new_simps [simp]:
  "referent (weak_entry_new r v) = r" "entry_inv (refs (weak_entry_new r v))"
  "v \<noteq> 0 \<Longrightarrow> entry_refs (refs (weak_entry_new r v)) = {#v#}"
  by (simp_all add: weak_entry_new_def WEAK_INLINE_COUNT_def occupied_def)

lemma weak_map_mset:
  assumes "mset (entries t) = mset es" and "wt_inv t"
  shows "weak_map t = view_of es" and "well_keyed es"
  using view_of_cong [OF assms(1)] well_keyed_cong [OF assms(1)] wt_inv_well_keyed [OF assms(2)]
  by (simp_all add: weak_map_def)

lemma weak_remember:
  assumes inv: "wt_inv t" and "isTaggedPointerOrNil r = False" and "r \<noteq> 0" and "v \<noteq> 0"
    and ok: "opt = DontCheckDeallocating \<or> answer r = Alive"
  shows "\<exists>t'. weak_register_no_lock isTaggedPointerOrNil answer t r v opt = Some (r, t') \<and> wt_inv t'
            \<and> weak_map t' = (weak_map t)(r \<mapsto> add_mset v (weak_view t r))"
proof (cases rule: weak_entry_for_referent_cases [OF inv \<open>r \<noteq> 0\<close>])
  case 1
  let ?e = "weak_entry_new r v"
  obtain t1 where t1: "weak_grow_maybe t = Some t1" "wt_ok t1" "mset (entries t1) = mset (entries t)"
    "num_entries t1 < (table_mask t1 + 1) * 3 div 4"
    using weak_grow_maybe_spec [OF inv] by blast
  have "referent ?e \<notin> referent ` set (entries t1)"
    using 1(2) mset_eq_setD [OF t1(3)] by (simp add: weak_map_def view_of_None)
  then have "well_keyed (?e # entries t1)" using wt_okD(7) [OF t1(2)] by (simp add: well_keyed_Cons)
  then obtain t' where t': "weak_entry_insert t1 ?e = Some t'" "wt_ok t'"
    "mset (entries t') = add_mset ?e (mset (entries t1))"
    using weak_entry_insert_spec [OF t1(2,4), of ?e] \<open>r \<noteq> 0\<close> by auto
  have "weak_map t' = view_of (?e # entries t)"
    using weak_map_mset(1) [of t' "?e # entries t"] t'(3) t1(3) wt_invI [OF t'(2)] by simp
  then have "weak_map t' = (weak_map t)(r \<mapsto> add_mset v (weak_view t r))"
    using 1(2) \<open>v \<noteq> 0\<close> by (simp add: view_of_Cons weak_map_def weak_view_def)
  with 1(1) t1(1) t'(1,2) ok assms(2) show ?thesis
    by (auto simp: weak_register_no_lock_def wt_invI)
next
  case (2 i)
  from wt_okD(7) [OF 2(2)] occupied_mem [OF 2(3), of referent] 2(4) \<open>r \<noteq> 0\<close>
  have "entry_inv (refs (weak_entries t ! i))" by (auto simp: well_keyed_def)
  then obtain e where e: "append_referrer (refs (weak_entries t ! i)) v = Some e" "entry_inv e"
    "entry_refs e = add_mset v (entry_refs (refs (weak_entries t ! i)))"
    using append_referrer_spec \<open>v \<noteq> 0\<close> by blast
  note u = wt_ok_update_entry [OF 2(2,3) _ e(2)]
  from u 2(4,5) \<open>r \<noteq> 0\<close> e(1,3) 2(1) ok assms(2) show ?thesis
    by (auto simp: weak_register_no_lock_def weak_view_def wt_invI)
qed

lemma weak_unregister_spec:
  assumes inv: "wt_inv t" and "v \<noteq> 0"
  shows "\<exists>t'. weak_unregister_no_lock t r v = Some t' \<and> wt_inv t'
            \<and> weak_view t' = (weak_view t)(r := weak_view t r - {#v#})"
proof (cases "r = 0")
  case True
  then show ?thesis using inv by (auto simp: weak_unregister_no_lock_def weak_view_def weak_map_nil)
next
  case False
  show ?thesis
  proof (cases rule: weak_entry_for_referent_cases [OF inv False])
    case 1
    then show ?thesis using inv False by (auto simp: weak_unregister_no_lock_def weak_view_def)
  next
    case (2 i)
    let ?x = "weak_entries t ! i"
    from wt_okD(7) [OF 2(2)] occupied_mem [OF 2(3), of referent] 2(4) False
    have "entry_inv (refs ?x)" by (auto simp: well_keyed_def)
    then obtain e where e: "remove_referrer (refs ?x) v = Some e" "entry_inv e"
      "entry_refs e = entry_refs (refs ?x) - {#v#}"
      using remove_referrer_spec \<open>v \<noteq> 0\<close> by blast
    define t1 where "t1 = t\<lparr>weak_entries := (weak_entries t)[i := ?x\<lparr>refs := e\<rparr>]\<rparr>"
    have t1: "wt_ok t1" "weak_map t1 = (weak_map t)(r \<mapsto> entry_refs e)"
      using wt_ok_update_entry [OF 2(2,3) _ e(2)] 2(4) False by (simp_all add: t1_def)
    have v1: "weak_view t1 = (weak_view t)(r := weak_view t r - {#v#})"
      using weak_view_of_map(1) [OF t1(2)] e(3) 2(5) by (simp add: weak_view_def)
    have x1: "weak_entries t1 ! i = ?x\<lparr>refs := e\<rparr>" "i < length (weak_entries t1)"
      using 2(3) by (simp_all add: t1_def)
    have *: "weak_unregister_no_lock t r v = (if refs_empty e then weak_entry_remove t1 i else Some t1)"
      using False 2(1) e(1) by (simp add: weak_unregister_no_lock_def Let_def t1_def)
    show ?thesis
    proof (cases "refs_empty e")
      case True
      have "referent (weak_entries t1 ! i) \<noteq> 0" using x1(1) 2(4) False by simp
      from weak_entry_remove_spec [OF t1(1) x1(2) this] obtain t' where
        t': "weak_entry_remove t1 i = Some t'" "wt_ok t'"
          "mset (entries t') = mset (remove1 (?x\<lparr>refs := e\<rparr>) (entries t1))" by (auto simp: x1(1))
      have "entry_refs e = {#}"
        using True by (cases e) (auto simp: refs_empty_def occupied_def list_all_iff REFERRERS_OUT_OF_LINE_def
            unat_eq_zero filter_empty_conv split: if_splits)
      moreover have "weak_map t' = (weak_map t1)(r := None)"
        using weak_map_mset(1) [OF t'(3) wt_invI [OF t'(2)]] view_of_remove1(2) [OF wt_okD(7) [OF t1(1)]]
          occupied_mem [OF x1(2), of referent] x1(1) 2(4) False by (simp add: weak_map_def)
      ultimately have "weak_view t' = weak_view t1"
        using t1(2) by (auto simp: weak_view_def)
      with t' True * v1 show ?thesis by (simp add: wt_invI)
    next
      case False
      with * v1 t1(1) show ?thesis by (simp add: wt_invI)
    qed
  qed
qed

lemma weak_clear_loop_eq:
  "weak_clear_loop r vs mem = (\<lambda>a. if a \<in> set vs \<and> a \<noteq> 0 \<and> mem a = r then 0 else mem a)"
  by (induction vs arbitrary: mem) (auto simp: fun_eq_iff)

lemma slots_entry_refs: "entry_inv e \<Longrightarrow> a \<in> set (slots e) \<and> a \<noteq> 0 \<longleftrightarrow> a \<in># entry_refs e"
  by (cases e) (auto simp: occupied_def dest!: probe_invD(1))

lemma weak_clear_spec:
  assumes inv: "wt_inv t" and "r \<noteq> 0"
  shows "\<exists>t'. weak_clear_no_lock t r mem
               = Some (t', \<lambda>a. if a \<in># weak_view t r \<and> mem a = r then 0 else mem a)
            \<and> wt_inv t' \<and> weak_map t' = (weak_map t)(r := None)"
proof (cases rule: weak_entry_for_referent_cases [OF inv \<open>r \<noteq> 0\<close>])
  case 1
  then show ?thesis using inv by (auto simp: weak_clear_no_lock_def weak_view_def fun_eq_iff)
next
  case (2 i)
  let ?x = "weak_entries t ! i"
  have mem: "?x \<in> set (entries t)" using occupied_mem [OF 2(3), of referent] 2(4) \<open>r \<noteq> 0\<close> by simp
  note wk = wt_okD(7) [OF 2(2)]
  from wk mem have "entry_inv (refs ?x)" by (auto simp: well_keyed_def)
  then have loop: "weak_clear_loop r (slots (refs ?x)) mem
      = (\<lambda>a. if a \<in># weak_view t r \<and> mem a = r then 0 else mem a)"
    using slots_entry_refs 2(5) by (auto simp: weak_clear_loop_eq weak_view_def fun_eq_iff)
  obtain t' where t': "weak_entry_remove t i = Some t'" "wt_ok t'"
    "mset (entries t') = mset (remove1 ?x (entries t))"
    using weak_entry_remove_spec [OF 2(2,3)] 2(4) \<open>r \<noteq> 0\<close> by auto
  have "weak_map t' = (weak_map t)(r := None)"
    using weak_map_mset(1) [OF t'(3) wt_invI [OF t'(2)]] view_of_remove1(2) [OF wk mem] 2(4)
    by (simp add: weak_map_def)
  with 2(1) t' loop show ?thesis by (simp add: weak_clear_no_lock_def wt_invI)
qed

subsection \<open>Sequences of operations\<close>

text \<open>
  The three operations as an instruction set, run on the table and on the memory of the weak
  variables, and the same instructions on the abstract state: a multiset of variables per object.
\<close>

datatype weak_op = Register u64 u64 | Unregister u64 u64 | Clear u64

fun weak_op_ok :: "weak_op \<Rightarrow> bool" where
  "weak_op_ok (Register r v) \<longleftrightarrow> v \<noteq> 0"
| "weak_op_ok (Unregister r v) \<longleftrightarrow> v \<noteq> 0"
| "weak_op_ok (Clear r) \<longleftrightarrow> r \<noteq> 0"

fun weak_exec ::
  "(u64 \<Rightarrow> bool) \<Rightarrow> (u64 \<Rightarrow> weak_answer) \<Rightarrow> weak_op list \<Rightarrow> weak_table_t \<times> (u64 \<Rightarrow> u64)
   \<Rightarrow> (weak_table_t \<times> (u64 \<Rightarrow> u64)) option" where
  "weak_exec tagged answer [] (t, mem) = Some (t, mem)"
| "weak_exec tagged answer (Register r v # ops) (t, mem) = do {
     (_, t) \<leftarrow> weak_register_no_lock tagged answer t r v ReturnNilIfDeallocating;
     weak_exec tagged answer ops (t, mem) }"
| "weak_exec tagged answer (Unregister r v # ops) (t, mem) = do {
     t \<leftarrow> weak_unregister_no_lock t r v;
     weak_exec tagged answer ops (t, mem) }"
| "weak_exec tagged answer (Clear r # ops) (t, mem) = do {
     (t, mem) \<leftarrow> weak_clear_no_lock t r mem;
     weak_exec tagged answer ops (t, mem) }"

fun spec_exec ::
  "(u64 \<Rightarrow> bool) \<Rightarrow> (u64 \<Rightarrow> weak_answer) \<Rightarrow> weak_op list \<Rightarrow> (u64 \<Rightarrow> u64 multiset) \<times> (u64 \<Rightarrow> u64)
   \<Rightarrow> (u64 \<Rightarrow> u64 multiset) \<times> (u64 \<Rightarrow> u64)" where
  "spec_exec tagged answer [] (V, mem) = (V, mem)"
| "spec_exec tagged answer (Register r v # ops) (V, mem) =
     spec_exec tagged answer ops
       (if \<not> tagged r \<and> answer r = Alive then V(r := add_mset v (V r)) else V, mem)"
| "spec_exec tagged answer (Unregister r v # ops) (V, mem) =
     spec_exec tagged answer ops (V(r := V r - {#v#}), mem)"
| "spec_exec tagged answer (Clear r # ops) (V, mem) =
     spec_exec tagged answer ops
       (V(r := {#}), \<lambda>a. if a \<in># V r \<and> mem a = r then 0 else mem a)"

lemma weak_register_refused:
  assumes "tagged r \<or> answer r \<noteq> Alive"
  shows "\<exists>x. weak_register_no_lock tagged answer t r v ReturnNilIfDeallocating = Some (x, t)"
  using assms by (cases "answer r") (auto simp: weak_register_no_lock_def)

lemma weak_exec_refines:
  assumes "wt_inv t" and "tagged 0" and "\<forall>p \<in> set ops. weak_op_ok p"
  shows "\<exists>t' mem'. weak_exec tagged answer ops (t, mem) = Some (t', mem') \<and> wt_inv t'
            \<and> (weak_view t', mem') = spec_exec tagged answer ops (weak_view t, mem)"
  using assms
proof (induction ops arbitrary: t mem)
  case (Cons p ops)
  from Cons.prems have ok: "\<forall>p \<in> set ops. weak_op_ok p" by simp
  note IH = Cons.IH [OF _ \<open>tagged 0\<close> ok]
  show ?case
  proof (cases p)
    case (Register r v)
    show ?thesis
    proof (cases "\<not> tagged r \<and> answer r = Alive")
      case True
      with \<open>tagged 0\<close> have "r \<noteq> 0" by auto
      with True Cons.prems Register obtain t1 where "wt_inv t1"
        "weak_register_no_lock tagged answer t r v ReturnNilIfDeallocating = Some (r, t1)"
        "weak_view t1 = (weak_view t)(r := add_mset v (weak_view t r))"
        using weak_remember [of t tagged r v _ answer] weak_view_of_map(1) by fastforce
      then show ?thesis using IH [of t1 mem] Register True by (simp add: fun_upd_def)
    next
      case False
      then show ?thesis
        using IH [of t mem] Register Cons.prems(1) weak_register_refused [of tagged r answer t v] by auto
    qed
  next
    case (Unregister r v)
    with Cons.prems obtain t1 where "weak_unregister_no_lock t r v = Some t1" "wt_inv t1"
      "weak_view t1 = (weak_view t)(r := weak_view t r - {#v#})"
      using weak_unregister_spec [of t v r] by auto
    then show ?thesis using IH [of t1 mem] Unregister by (simp add: fun_upd_def)
  next
    case (Clear r)
    with Cons.prems obtain t1 where "wt_inv t1"
      "weak_clear_no_lock t r mem
         = Some (t1, \<lambda>a. if a \<in># weak_view t r \<and> mem a = r then 0 else mem a)"
      "weak_view t1 = (weak_view t)(r := {#})"
      using weak_clear_spec [of t r mem] weak_view_of_map(2) by fastforce
    then show ?thesis using IH [of t1] Clear by (simp add: fun_upd_def)
  qed
qed auto

subsection \<open>Entries that outgrew their inline slots\<close>

fun unregister_all :: "weak_table_t \<Rightarrow> u64 \<Rightarrow> u64 list \<Rightarrow> weak_table_t option" where
  "unregister_all t r [] = Some t"
| "unregister_all t r (v # vs) = do { t \<leftarrow> weak_unregister_no_lock t r v; unregister_all t r vs }"

definition kept_out_of_line :: "weak_table_t \<Rightarrow> u64 \<Rightarrow> bool" where
  "kept_out_of_line t r \<longleftrightarrow> (\<exists>e \<in> set (entries t). referent e = r \<and> out_of_line (refs e))"

lemma refs_empty_out_of_line: "out_of_line e \<Longrightarrow> \<not> refs_empty e"
  by (cases e) (simp_all add: refs_empty_def REFERRERS_OUT_OF_LINE_def)

lemma unique_entry:
  "well_keyed es \<Longrightarrow> e \<in> set es \<Longrightarrow> e' \<in> set es \<Longrightarrow> referent e = referent e' \<Longrightarrow> e = e'"
  by (auto simp: well_keyed_def distinct_map dest: inj_onD)

lemma unregister_keeps_out_of_line:
  assumes inv: "wt_inv t" and kept: "kept_out_of_line t r" and "v \<noteq> 0"
    and un: "weak_unregister_no_lock t r v = Some t'"
  shows "kept_out_of_line t' r"
proof -
  from kept obtain x where x: "x \<in> set (entries t)" "referent x = r" "out_of_line (refs x)"
    by (auto simp: kept_out_of_line_def)
  then have "r \<noteq> 0" by (auto simp: occupied_def)
  show ?thesis
  proof (cases rule: weak_entry_for_referent_cases [OF inv \<open>r \<noteq> 0\<close>])
    case 1
    with x show ?thesis by (auto simp: weak_map_def view_of_None)
  next
    case (2 i)
    let ?x = "weak_entries t ! i"
    have mem: "?x \<in> set (entries t)" using occupied_mem [OF 2(3), of referent] 2(4) \<open>r \<noteq> 0\<close> by simp
    with x 2(4) have "?x = x" using unique_entry [OF wt_okD(7) [OF 2(2)]] by blast
    moreover have "entry_inv (refs ?x)" using wt_okD(7) [OF 2(2)] mem by (auto simp: well_keyed_def)
    ultimately obtain e where e: "remove_referrer (refs ?x) v = Some e" "out_of_line e"
      using remove_referrer_spec [of "refs ?x" v] \<open>v \<noteq> 0\<close> x(3) by auto
    have t': "t' = t\<lparr>weak_entries := (weak_entries t)[i := ?x\<lparr>refs := e\<rparr>]\<rparr>"
      using un \<open>r \<noteq> 0\<close> 2(1) e refs_empty_out_of_line by (simp add: weak_unregister_no_lock_def Let_def)
    have "weak_entries t' ! i = ?x\<lparr>refs := e\<rparr>" "i < length (weak_entries t')" using 2(3) t' by simp_all
    from occupied_mem [OF this(2), of referent] this(1) e(2) 2(4) \<open>r \<noteq> 0\<close>
    show ?thesis unfolding kept_out_of_line_def by (intro bexI [of _ "?x\<lparr>refs := e\<rparr>"]) simp_all
  qed
qed

lemma unregister_all_spec:
  assumes "wt_inv t" and "kept_out_of_line t r" and "0 \<notin> set vs"
  shows "\<exists>t'. unregister_all t r vs = Some t' \<and> wt_inv t' \<and> kept_out_of_line t' r
            \<and> weak_view t' = (weak_view t)(r := weak_view t r - mset vs)"
  using assms
proof (induction vs arbitrary: t)
  case (Cons v vs)
  then have "v \<noteq> 0" by auto
  from weak_unregister_spec [OF Cons.prems(1) this] obtain t1 where t1:
    "weak_unregister_no_lock t r v = Some t1" "wt_inv t1"
    "weak_view t1 = (weak_view t)(r := weak_view t r - {#v#})" by blast
  have "kept_out_of_line t1 r"
    using unregister_keeps_out_of_line [OF Cons.prems(1,2) \<open>v \<noteq> 0\<close> t1(1)] .
  with Cons.IH [OF t1(2)] Cons.prems(3) t1 show ?case
    by (auto simp: fun_eq_iff)
qed simp

lemma many_referrers_out_of_line:
  assumes "wt_inv t" and "WEAK_INLINE_COUNT < size (weak_view t r)"
  shows "kept_out_of_line t r"
proof -
  obtain M where M: "weak_map t r = Some M" "WEAK_INLINE_COUNT < size M"
    using assms(2) by (auto simp: weak_view_def split: option.splits)
  then obtain e where e: "e \<in> set (entries t)" "referent e = r" "M = entry_refs (refs e)"
    by (auto simp: weak_map_def view_of_def dest!: map_of_SomeD)
  with wt_inv_well_keyed [OF assms(1)] have "entry_inv (refs e)" by (auto simp: well_keyed_def)
  then have "out_of_line (refs e)"
    using M(2) e(3) by (cases "refs e") (auto simp: occupied_def
        dest: order.strict_trans2 [OF _ size_filter_mset_lesseq])
  with e show ?thesis by (auto simp: kept_out_of_line_def)
qed

lemma registered_iff:
  assumes "wt_inv t" and "r \<noteq> 0"
  shows "weak_is_registered_no_lock t r = Some (weak_map t r \<noteq> None)"
  by (cases rule: weak_entry_for_referent_cases [OF assms]) (simp_all add: weak_is_registered_no_lock_def)

lemma kept_registered: "wt_inv t \<Longrightarrow> kept_out_of_line t r \<Longrightarrow> weak_is_registered_no_lock t r = Some True"
  using registered_iff [of t r] by (auto simp: kept_out_of_line_def weak_map_def view_of_None occupied_def)

subsection \<open>Properties\<close>

text \<open>
  C4: Started from the zeroed table of a new \<open>SideTable\<close>, any sequence of registrations,
  unregistrations and clearings runs to its end without ever reporting a bad weak table, and
  the table and the weak variables are then what the abstract multisets of variables per object
  say. The only requirement is that weak variables are not at address 0, that nil counts as
  tagged-or-nil, and that only objects are cleared.
\<close>

theorem weak_table_refinement:
  assumes "tagged 0" and "\<forall>p \<in> set ops. weak_op_ok p"
  shows "\<exists>t mem'. weak_exec tagged answer ops (weak_table_zero, mem) = Some (t, mem') \<and> wt_inv t
           \<and> (weak_view t, mem') = spec_exec tagged answer ops (\<lambda>_. {#}, mem)"
  using weak_exec_refines [of weak_table_zero tagged ops answer mem] assms by simp

theorem weak_table_refinement_witness:
  "\<exists>t mem'. weak_exec (\<lambda>r. r = 0) (\<lambda>_. Alive)
       [Register 0x1000 0x20, Register 0x1000 0x28, Unregister 0x1000 0x20, Clear 0x1000]
       (weak_table_zero, \<lambda>_. 0x1000) = Some (t, mem')
     \<and> mem' 0x28 = 0 \<and> mem' 0x20 = 0x1000"
  using weak_table_refinement [of "\<lambda>r. r = 0"
      "[Register 0x1000 0x20, Register 0x1000 0x28, Unregister 0x1000 0x20, Clear 0x1000]"
      "\<lambda>_. Alive" "\<lambda>_. 0x1000"]
  by auto



text \<open>
  Unregistering undoes registering: the weak variables registered for every object are again
  what they were before.
\<close>

theorem weak_unregister_undoes_register:
  assumes "wt_inv t" and "tagged 0" and "\<not> tagged r" and "v \<noteq> 0" and "answer r = Alive"
  shows "\<exists>t1 t2. weak_register_no_lock tagged answer t r v ReturnNilIfDeallocating = Some (r, t1)
           \<and> v \<in># weak_view t1 r
           \<and> weak_unregister_no_lock t1 r v = Some t2 \<and> wt_inv t2 \<and> weak_view t2 = weak_view t"
proof -
  have "r \<noteq> 0" using assms by auto
  then obtain t1 where t1: "weak_register_no_lock tagged answer t r v ReturnNilIfDeallocating = Some (r, t1)"
    "wt_inv t1" "weak_view t1 = (weak_view t)(r := add_mset v (weak_view t r))"
    using weak_remember [of t tagged r v _ answer] weak_view_of_map(1) assms by fastforce
  with weak_unregister_spec [OF t1(2) assms(4), of r] show ?thesis by (auto simp: fun_eq_iff)
qed

theorem weak_unregister_undoes_register_witness:
  "\<exists>t1 t2. weak_register_no_lock (\<lambda>r. r = 0) (\<lambda>_. Alive) weak_table_zero 0x1000 0x20 ReturnNilIfDeallocating
       = Some (0x1000, t1) \<and> weak_unregister_no_lock t1 0x1000 0x20 = Some t2
     \<and> weak_view t2 0x1000 = {#}"
  using weak_unregister_undoes_register [of weak_table_zero "\<lambda>r. r = 0" "0x1000" "0x20" "\<lambda>_. Alive"]
  by auto

text \<open>
  C9: Clearing a deallocating object sets to nil exactly those of its registered weak variables
  that still hold it, writes no other memory, forgets the object and keeps every other object's
  weak variables.
\<close>

theorem weak_clear_nils_referrers:
  assumes "wt_inv t" and "r \<noteq> 0"
  shows "\<exists>t' mem'. weak_clear_no_lock t r mem = Some (t', mem') \<and> wt_inv t'
           \<and> (\<forall>a. mem' a = (if a \<in># weak_view t r \<and> mem a = r then 0 else mem a))
           \<and> weak_is_registered_no_lock t' r = Some False
           \<and> (\<forall>r'. r' \<noteq> r \<longrightarrow> weak_map t' r' = weak_map t r')"
proof -
  obtain t' where t': "weak_clear_no_lock t r mem
      = Some (t', \<lambda>a. if a \<in># weak_view t r \<and> mem a = r then 0 else mem a)"
    "wt_inv t'" "weak_map t' = (weak_map t)(r := None)"
    using weak_clear_spec [OF assms] by blast
  with registered_iff [OF t'(2) assms(2)] show ?thesis by simp
qed

theorem weak_clear_nils_referrers_witness:
  "\<exists>t t' mem'. weak_register_no_lock (\<lambda>r. r = 0) (\<lambda>_. Alive) weak_table_zero 0x1000 0x20 DontCheckDeallocating
       = Some (0x1000, t)
     \<and> weak_clear_no_lock t 0x1000 (\<lambda>_. 0x1000) = Some (t', mem')
     \<and> mem' 0x20 = 0 \<and> mem' 0x28 = 0x1000"
proof -
  obtain t where t: "weak_register_no_lock (\<lambda>r. r = 0) (\<lambda>_. Alive) weak_table_zero 0x1000 0x20
      DontCheckDeallocating = Some (0x1000, t)" "wt_inv t"
    "weak_map t = (weak_map weak_table_zero)(0x1000 \<mapsto> add_mset 0x20 (weak_view weak_table_zero 0x1000))"
    using weak_remember [of weak_table_zero "\<lambda>r. r = 0" "0x1000" "0x20" DontCheckDeallocating] by auto
  have "weak_view t 0x1000 = {#0x20#}" using t(3) by (simp add: weak_view_def)
  with t weak_clear_nils_referrers [OF t(2), of "0x1000" "\<lambda>_. 0x1000"] show ?thesis by fastforce
qed

text \<open>
  C29: An entry that ever had more than four weak variables at once stays in the table after all
  of them have been unregistered: the emptiness test of \<open>weak_unregister_no_lock\<close> reads the tag
  word of the out-of-line representation as if it were an inline referrer.
\<close>

theorem weak_unregister_keeps_emptied_entry:
  assumes "wt_inv t" and "WEAK_INLINE_COUNT < size (weak_view t r)"
    and "mset vs = weak_view t r" and "0 \<notin> set vs"
  shows "\<exists>t'. unregister_all t r vs = Some t' \<and> weak_view t' r = {#}
           \<and> weak_is_registered_no_lock t' r = Some True"
proof -
  obtain t' where "unregister_all t r vs = Some t'" "wt_inv t'" "kept_out_of_line t' r"
    "weak_view t' = (weak_view t)(r := weak_view t r - mset vs)"
    using unregister_all_spec [OF assms(1) many_referrers_out_of_line [OF assms(1,2)] assms(4)] by blast
  with kept_registered [OF \<open>wt_inv t'\<close>] assms(3) show ?thesis by simp
qed

theorem weak_unregister_keeps_emptied_entry_witness:
  "\<exists>t mem t'. weak_exec (\<lambda>r. r = 0) (\<lambda>_. Alive)
       (map (Register 0x1000) [0x20, 0x28, 0x30, 0x38, 0x40]) (weak_table_zero, \<lambda>_. 0) = Some (t, mem)
     \<and> unregister_all t 0x1000 [0x20, 0x28, 0x30, 0x38, 0x40] = Some t'
     \<and> weak_view t' 0x1000 = {#} \<and> weak_is_registered_no_lock t' 0x1000 = Some True"
proof -
  let ?vs = "[0x20, 0x28, 0x30, 0x38, 0x40] :: u64 list"
  obtain t mem where t: "weak_exec (\<lambda>r. r = 0) (\<lambda>_. Alive) (map (Register 0x1000) ?vs)
      (weak_table_zero, \<lambda>_. 0) = Some (t, mem)" "wt_inv t"
    "(weak_view t, mem) = spec_exec (\<lambda>r. r = 0) (\<lambda>_. Alive) (map (Register 0x1000) ?vs)
      (weak_view weak_table_zero, \<lambda>_. 0)"
    using weak_exec_refines [of weak_table_zero "\<lambda>r. r = 0" "map (Register 0x1000) ?vs"
        "\<lambda>_. Alive" "\<lambda>_. 0"] by auto
  then have "weak_view t 0x1000 = mset ?vs" by (simp add: add_mset_commute)
  then show ?thesis
    using t(1) weak_unregister_keeps_emptied_entry [OF t(2), of "0x1000" ?vs]
    by (auto simp: WEAK_INLINE_COUNT_def)
qed

end
