(* ===== verification/Isa.thy ===== *)
theory Isa
  imports Prelude
begin

text \<open>
  The \<open>isa\<close> word of an object (\<open>isa.h\<close>, \<open>union isa_t\<close> of \<open>objc-private.h\<close> and the class field
  of \<open>objc-object.h\<close>): a class pointer packed with the inline reference count and flags. The
  three packed layouts of \<open>isa.h\<close> are values of the record \<open>isa_layout\<close>; the locale
  \<open>packed_isa\<close> states what the comments of \<open>isa.h\<close> require of a layout, it is interpreted on
  each of the three, and everything the reference-counting code needs of the word is proved
  once inside it. Pointer authentication is not modelled: the layout of the arm64e family is
  the one of its simulator, where classes are stored unsigned.
\<close>

subsection \<open>Bit fields\<close>

definition bf_get :: "nat \<Rightarrow> nat \<Rightarrow> u64 \<Rightarrow> u64" where
  "bf_get pos width w = take_bit width (drop_bit pos w)"

definition bf_set :: "nat \<Rightarrow> nat \<Rightarrow> u64 \<Rightarrow> u64 \<Rightarrow> u64" where
  "bf_set pos width v w = (w AND NOT (push_bit pos (mask width))) OR push_bit pos (take_bit width v)"

record isa_layout =
  has_assoc_bit :: nat
  has_cxx_dtor_bit :: "nat option"
  weakly_referenced_bit :: nat
  shiftcls_width :: nat
  has_sidetable_rc_bit :: nat
  extra_rc_pos :: nat
  extra_rc_width :: nat
  ISA_MASK :: u64
  ISA_MAGIC_MASK :: u64
  ISA_MAGIC_VALUE :: u64
  RC_ONE :: u64
  RC_HALF :: u64

definition isa_arm64e :: isa_layout where
  "isa_arm64e =
     \<lparr>has_assoc_bit = 1, has_cxx_dtor_bit = None, weakly_referenced_bit = 2, shiftcls_width = 52,
      has_sidetable_rc_bit = 55, extra_rc_pos = 56, extra_rc_width = 8,
      ISA_MASK = 0x007ffffffffffff8, ISA_MAGIC_MASK = 0x0000000000000001,
      ISA_MAGIC_VALUE = 0x0000000000000001,
      RC_ONE = push_bit 56 1, RC_HALF = push_bit 7 1\<rparr>"

definition isa_arm64 :: isa_layout where
  "isa_arm64 =
     \<lparr>has_assoc_bit = 1, has_cxx_dtor_bit = Some 2, weakly_referenced_bit = 42, shiftcls_width = 33,
      has_sidetable_rc_bit = 44, extra_rc_pos = 45, extra_rc_width = 19,
      ISA_MASK = 0x0000000ffffffff8, ISA_MAGIC_MASK = 0x000003f000000001,
      ISA_MAGIC_VALUE = 0x000001a000000001,
      RC_ONE = push_bit 45 1, RC_HALF = push_bit 18 1\<rparr>"

definition isa_x86_64 :: isa_layout where
  "isa_x86_64 =
     \<lparr>has_assoc_bit = 1, has_cxx_dtor_bit = Some 2, weakly_referenced_bit = 53, shiftcls_width = 44,
      has_sidetable_rc_bit = 55, extra_rc_pos = 56, extra_rc_width = 8,
      ISA_MASK = 0x00007ffffffffff8, ISA_MAGIC_MASK = 0x001f800000000001,
      ISA_MAGIC_VALUE = 0x001d800000000001,
      RC_ONE = push_bit 56 1, RC_HALF = push_bit 7 1\<rparr>"

subsection \<open>The fields of the word\<close>

definition nonpointer :: "u64 \<Rightarrow> bool" where
  "nonpointer w = bit w 0"

definition has_assoc :: "isa_layout \<Rightarrow> u64 \<Rightarrow> bool" where
  "has_assoc L w = bit w (has_assoc_bit L)"

definition weakly_referenced :: "isa_layout \<Rightarrow> u64 \<Rightarrow> bool" where
  "weakly_referenced L w = bit w (weakly_referenced_bit L)"

definition has_sidetable_rc :: "isa_layout \<Rightarrow> u64 \<Rightarrow> bool" where
  "has_sidetable_rc L w = bit w (has_sidetable_rc_bit L)"

definition has_cxx_dtor :: "isa_layout \<Rightarrow> u64 \<Rightarrow> bool" where
  "has_cxx_dtor L w = (case has_cxx_dtor_bit L of None \<Rightarrow> False | Some n \<Rightarrow> bit w n)"

definition extra_rc :: "isa_layout \<Rightarrow> u64 \<Rightarrow> u64" where
  "extra_rc L w = bf_get (extra_rc_pos L) (extra_rc_width L) w"

definition set_has_assoc :: "isa_layout \<Rightarrow> bool \<Rightarrow> u64 \<Rightarrow> u64" where
  "set_has_assoc L b w = bf_set (has_assoc_bit L) 1 (of_bool b) w"

definition set_weakly_referenced :: "isa_layout \<Rightarrow> bool \<Rightarrow> u64 \<Rightarrow> u64" where
  "set_weakly_referenced L b w = bf_set (weakly_referenced_bit L) 1 (of_bool b) w"

definition set_has_sidetable_rc :: "isa_layout \<Rightarrow> bool \<Rightarrow> u64 \<Rightarrow> u64" where
  "set_has_sidetable_rc L b w = bf_set (has_sidetable_rc_bit L) 1 (of_bool b) w"

definition set_has_cxx_dtor :: "isa_layout \<Rightarrow> bool \<Rightarrow> u64 \<Rightarrow> u64" where
  "set_has_cxx_dtor L b w =
     (case has_cxx_dtor_bit L of None \<Rightarrow> w | Some n \<Rightarrow> bf_set n 1 (of_bool b) w)"

definition set_extra_rc :: "isa_layout \<Rightarrow> u64 \<Rightarrow> u64 \<Rightarrow> u64" where
  "set_extra_rc L v w = bf_set (extra_rc_pos L) (extra_rc_width L) v w"

definition isDeallocating :: "isa_layout \<Rightarrow> u64 \<Rightarrow> bool" where
  "isDeallocating L w \<longleftrightarrow> extra_rc L w = 0 \<and> \<not> has_sidetable_rc L w"

definition setDeallocating :: "isa_layout \<Rightarrow> u64 \<Rightarrow> u64" where
  "setDeallocating L w = set_has_sidetable_rc L False (set_extra_rc L 0 w)"

definition setClass :: "isa_layout \<Rightarrow> u64 \<Rightarrow> u64 \<Rightarrow> u64" where
  "setClass L newCls w = bf_set 3 (shiftcls_width L) (drop_bit 3 newCls) w"

definition getClass :: "isa_layout \<Rightarrow> u64 \<Rightarrow> u64" where
  "getClass L w = w AND ISA_MASK L"

definition getDecodedClass :: "isa_layout \<Rightarrow> u64 \<Rightarrow> u64" where
  "getDecodedClass L w = getClass L w"

text \<open>Addition and subtraction with the carry out.\<close>

definition addc :: "u64 \<Rightarrow> u64 \<Rightarrow> u64 \<times> bool" where
  "addc lhs rhs = (lhs + rhs, unat lhs + unat rhs \<ge> 2 ^ 64)"

definition subc :: "u64 \<Rightarrow> u64 \<Rightarrow> u64 \<times> bool" where
  "subc lhs rhs = (lhs - rhs, lhs < rhs)"

subsection \<open>Reading and writing bit fields\<close>

lemma bit_bf_get: "bit (bf_get p n w) k \<longleftrightarrow> k < n \<and> bit w (p + k)"
  by (simp add: bf_get_def bit_take_bit_iff bit_drop_bit_eq)

lemma bit_bf_set:
  assumes "k < 64"
  shows "bit (bf_set p n v w) k \<longleftrightarrow> (if p \<le> k \<and> k < p + n then bit v (k - p) else bit w k)"
  using assms
  by (auto simp: bf_set_def bit_or_iff bit_and_iff bit_not_iff bit_push_bit_iff bit_mask_iff
      bit_take_bit_iff)

lemma bf_get_set:
  assumes "p + n \<le> 64"
  shows "bf_get p n (bf_set p n v w) = take_bit n v"
  using assms by (intro bit_eqI) (auto simp: bit_bf_get bit_bf_set bit_take_bit_iff)

lemma bf_get_set_other:
  assumes "p + n \<le> 64" and "q + m \<le> p \<or> p + n \<le> q" and "q + m \<le> 64"
  shows "bf_get q m (bf_set p n v w) = bf_get q m w"
  using assms by (intro bit_eqI) (auto simp: bit_bf_get bit_bf_set)

lemma unat_bf_get_less: "unat (bf_get p n w) < 2 ^ n"
proof -
  have "unat (bf_get p n w) = take_bit n (unat (drop_bit p w))"
    by (simp add: bf_get_def unsigned_take_bit_eq)
  then show ?thesis by simp
qed

lemma unat_less_64: "unat (w :: u64) < 2 ^ 64"
  using unsigned_less [of w] by simp

lemma unat_power_64:
  assumes "n < 64"
  shows "unat (2 ^ n :: u64) = 2 ^ n"
proof -
  have "(2::nat) ^ n < 2 ^ 64" using assms by (intro power_strict_increasing) simp_all
  from unat_of_nat_u64 [OF this] show ?thesis by simp
qed

lemma unat_take_bit_mod: "unat (take_bit n (w :: u64)) = unat w mod 2 ^ n"
  unfolding unsigned_take_bit_eq by (rule take_bit_eq_mod)

lemma top_field_eq_div:
  assumes "p + n = 64"
  shows "unat (bf_get p n w) = unat w div 2 ^ p"
proof -
  have "unat w div 2 ^ p < 2 ^ n"
    using assms unat_less_64 [of w] by (simp add: less_mult_imp_div_less power_add [symmetric] add.commute)
  moreover have "unat (bf_get p n w) = take_bit n (drop_bit p (unat w))"
    by (simp only: bf_get_def unsigned_take_bit_eq unat_drop_bit_eq)
  ultimately show ?thesis by (simp add: drop_bit_eq_div take_bit_nat_eq_self)
qed


subsection \<open>What a packed layout has to satisfy\<close>

text \<open>
  The comments of \<open>isa.h\<close>: \<open>extra_rc\<close> is the topmost field and \<open>RC_ONE\<close> its unit, \<open>RC_HALF\<close> is half
  of its range, \<open>shiftcls\<close> occupies the bits of a class pointer, and the fields do not overlap.
\<close>

locale packed_isa =
  fixes L :: isa_layout
  assumes rc_top: "extra_rc_pos L + extra_rc_width L = 64"
    and rc_width: "1 < extra_rc_width L" "extra_rc_width L \<le> 32"
    and rc_one: "RC_ONE L = push_bit (extra_rc_pos L) 1"
    and rc_half: "RC_HALF L = push_bit (extra_rc_width L - 1) 1"
    and cls_mask: "ISA_MASK L = push_bit 3 (mask (shiftcls_width L))"
    and flags_below_rc: "has_assoc_bit L < extra_rc_pos L" "weakly_referenced_bit L < extra_rc_pos L"
      "has_sidetable_rc_bit L < extra_rc_pos L" "3 + shiftcls_width L \<le> extra_rc_pos L"
    and flags_apart: "distinct [0, has_assoc_bit L, weakly_referenced_bit L, has_sidetable_rc_bit L]"
    and flags_off_class: "\<forall>n \<in> {0, has_assoc_bit L, weakly_referenced_bit L, has_sidetable_rc_bit L}.
      n < 3 \<or> 3 + shiftcls_width L \<le> n"
    and cxx_bit: "has_cxx_dtor_bit L = Some n \<Longrightarrow>
      n < 3 \<and> n \<notin> {0, has_assoc_bit L, weakly_referenced_bit L, has_sidetable_rc_bit L}"
    and magic: "ISA_MAGIC_VALUE L AND ISA_MAGIC_MASK L = ISA_MAGIC_VALUE L" "nonpointer (ISA_MAGIC_VALUE L)"
      "ISA_MAGIC_MASK L AND ISA_MASK L = 0" "extra_rc L (ISA_MAGIC_MASK L) = 0"
      "\<not> has_assoc L (ISA_MAGIC_MASK L)" "\<not> weakly_referenced L (ISA_MAGIC_MASK L)"
      "\<not> has_sidetable_rc L (ISA_MAGIC_MASK L)"
begin

lemma rc_pos: "extra_rc_pos L < 64" "0 < extra_rc_pos L"
  using rc_top rc_width by auto

abbreviation rc :: "u64 \<Rightarrow> nat" where
  "rc w \<equiv> unat (extra_rc L w)"

lemma rc_div: "rc w = unat w div 2 ^ extra_rc_pos L"
  by (simp add: extra_rc_def top_field_eq_div rc_top)

lemma rc_less: "rc w < 2 ^ extra_rc_width L"
  by (simp add: extra_rc_def unat_bf_get_less)

lemma unat_RC_ONE: "unat (RC_ONE L) = 2 ^ extra_rc_pos L"
  using rc_pos by (simp add: rc_one push_bit_eq_mult unat_power_64)

lemma unat_RC_HALF: "unat (RC_HALF L) = 2 ^ (extra_rc_width L - 1)"
proof -
  have "extra_rc_width L - 1 < 64" using rc_width by simp
  then show ?thesis by (simp add: rc_half push_bit_eq_mult unat_power_64)
qed

text \<open>Words that agree below \<open>extra_rc\<close> have the same flags and the same class.\<close>

abbreviation low :: "u64 \<Rightarrow> u64" where
  "low w \<equiv> take_bit (extra_rc_pos L) w"

lemma low_bit: "low w = low w' \<Longrightarrow> k < extra_rc_pos L \<Longrightarrow> bit w k = bit w' k"
  by (metis bit_take_bit_iff)

lemma magic_below:
  assumes "bit (ISA_MAGIC_MASK L) k"
  shows "k < extra_rc_pos L"
proof (rule ccontr)
  assume "\<not> k < extra_rc_pos L"
  moreover have "k < 64" using assms bit_imp_le_length by force
  ultimately have "bit (extra_rc L (ISA_MAGIC_MASK L)) (k - extra_rc_pos L)"
    using assms rc_top by (simp add: extra_rc_def bit_bf_get)
  then show False by (simp add: magic(4))
qed

lemma low_fields:
  assumes "low w = low w'"
  shows "nonpointer w = nonpointer w'" "has_assoc L w = has_assoc L w'"
    "weakly_referenced L w = weakly_referenced L w'" "has_sidetable_rc L w = has_sidetable_rc L w'"
    "getClass L w = getClass L w'" "has_cxx_dtor L w = has_cxx_dtor L w'"
    "w AND ISA_MAGIC_MASK L = w' AND ISA_MAGIC_MASK L"
proof -
  show "nonpointer w = nonpointer w'" "has_assoc L w = has_assoc L w'"
    "weakly_referenced L w = weakly_referenced L w'" "has_sidetable_rc L w = has_sidetable_rc L w'"
    using low_bit [OF assms] flags_below_rc rc_pos
    by (simp_all add: nonpointer_def has_assoc_def weakly_referenced_def has_sidetable_rc_def)
  show "getClass L w = getClass L w'"
    using low_bit [OF assms] flags_below_rc(4)
    by (intro bit_eqI) (auto simp: getClass_def cls_mask bit_and_iff bit_push_bit_iff bit_mask_iff)
  show "has_cxx_dtor L w = has_cxx_dtor L w'"
    using low_bit [OF assms] cxx_bit flags_below_rc(4)
    by (cases "has_cxx_dtor_bit L") (fastforce simp: has_cxx_dtor_def)+
  show "w AND ISA_MAGIC_MASK L = w' AND ISA_MAGIC_MASK L"
    using low_bit [OF assms] magic_below by (intro bit_eqI) (auto simp: bit_and_iff)
qed

lemma unat_low: "unat (low w) = unat w mod 2 ^ extra_rc_pos L"
  by (rule unat_take_bit_mod)

lemma low_add: "low (w + RC_ONE L * v) = low w"
proof -
  have dvd: "(2::nat) ^ extra_rc_pos L dvd 2 ^ 64" by (rule le_imp_power_dvd) (use rc_pos in simp)
  have "unat (w + RC_ONE L * v) mod 2 ^ extra_rc_pos L
      = (unat w + unat (RC_ONE L * v)) mod 2 ^ 64 mod 2 ^ extra_rc_pos L"
    by (simp add: unat_word_ariths(1))
  also have "\<dots> = (unat w + unat (RC_ONE L * v) mod 2 ^ extra_rc_pos L) mod 2 ^ extra_rc_pos L"
    using dvd by (simp add: mod_mod_cancel mod_add_right_eq)
  also have "unat (RC_ONE L * v) mod 2 ^ extra_rc_pos L = 0"
    using dvd by (simp add: unat_word_ariths(2) unat_RC_ONE mod_mod_cancel)
  finally show ?thesis by (simp add: word_unat_eq_iff unat_low)
qed

lemma low_sub: "low (w - RC_ONE L) = low w"
  using low_add [of w "-1"] by simp

subsection \<open>Counting in the word\<close>

lemma addc_RC_ONE:
  shows "snd (addc w (RC_ONE L)) \<longleftrightarrow> rc w = 2 ^ extra_rc_width L - 1"
    and "\<not> snd (addc w (RC_ONE L)) \<Longrightarrow> rc (fst (addc w (RC_ONE L))) = rc w + 1"
    and "low (fst (addc w (RC_ONE L))) = low w"
proof -
  let ?p = "extra_rc_pos L" and ?n = "extra_rc_width L"
  have split: "(2::nat) ^ 64 = 2 ^ ?n * 2 ^ ?p" using rc_top by (simp add: power_add [symmetric] add.commute)
  have "2 ^ 64 \<le> unat w + 2 ^ ?p \<longleftrightarrow> 2 ^ ?n \<le> (unat w + 2 ^ ?p) div 2 ^ ?p"
    unfolding split by (simp add: less_eq_div_iff_mult_less_eq)
  also have "(unat w + 2 ^ ?p) div 2 ^ ?p = rc w + 1" by (simp add: rc_div div_add_self2)
  also have "2 ^ ?n \<le> rc w + 1 \<longleftrightarrow> rc w = 2 ^ ?n - 1" using rc_less [of w] by linarith
  finally show "snd (addc w (RC_ONE L)) \<longleftrightarrow> rc w = 2 ^ ?n - 1"
    by (simp add: addc_def unat_RC_ONE)
  show "low (fst (addc w (RC_ONE L))) = low w"
    using low_add [of w 1] by (simp add: addc_def)
  assume "\<not> snd (addc w (RC_ONE L))"
  then have "unat (w + RC_ONE L) = unat w + 2 ^ ?p"
    by (simp add: addc_def unat_word_ariths(1) unat_RC_ONE)
  then show "rc (fst (addc w (RC_ONE L))) = rc w + 1" by (simp add: addc_def rc_div div_add_self2)
qed

lemma subc_RC_ONE:
  shows "snd (subc w (RC_ONE L)) \<longleftrightarrow> rc w = 0"
    and "\<not> snd (subc w (RC_ONE L)) \<Longrightarrow> rc (fst (subc w (RC_ONE L))) = rc w - 1"
    and "low (fst (subc w (RC_ONE L))) = low w"
proof -
  let ?p = "extra_rc_pos L"
  show c: "snd (subc w (RC_ONE L)) \<longleftrightarrow> rc w = 0"
    by (simp add: subc_def word_less_nat_alt unat_RC_ONE rc_div div_eq_0_iff)
  show "low (fst (subc w (RC_ONE L))) = low w"
    by (simp add: subc_def low_sub)
  assume "\<not> snd (subc w (RC_ONE L))"
  then have le: "2 ^ ?p \<le> unat w" by (simp add: subc_def word_less_nat_alt unat_RC_ONE not_less)
  then have "unat (w - RC_ONE L) + 2 ^ ?p = unat w"
    by (simp add: unat_sub word_le_nat_alt unat_RC_ONE)
  then have "rc w = rc (w - RC_ONE L) + 1"
    unfolding rc_div by (metis div_add_self2 power_not_zero zero_neq_numeral)
  then show "rc (fst (subc w (RC_ONE L))) = rc w - 1" by (simp add: subc_def)
qed

lemma addc_RC_many:
  assumes "unat v < 2 ^ extra_rc_width L"
  shows "snd (addc w (RC_ONE L * v)) \<longleftrightarrow> 2 ^ extra_rc_width L \<le> rc w + unat v"
    and "\<not> snd (addc w (RC_ONE L * v)) \<Longrightarrow> rc (fst (addc w (RC_ONE L * v))) = rc w + unat v"
    and "low (fst (addc w (RC_ONE L * v))) = low w"
proof -
  let ?p = "extra_rc_pos L" and ?n = "extra_rc_width L"
  have split: "(2::nat) ^ 64 = 2 ^ ?n * 2 ^ ?p" using rc_top by (simp add: power_add [symmetric] add.commute)
  have "2 ^ ?p * unat v < 2 ^ 64" unfolding split using assms by simp
  then have v: "unat (RC_ONE L * v) = 2 ^ ?p * unat v"
    by (simp add: unat_word_ariths(2) unat_RC_ONE)
  have "2 ^ 64 \<le> unat w + 2 ^ ?p * unat v \<longleftrightarrow> 2 ^ ?n \<le> (unat w + 2 ^ ?p * unat v) div 2 ^ ?p"
    unfolding split by (rule less_eq_div_iff_mult_less_eq [symmetric]) simp
  also have d: "(unat w + 2 ^ ?p * unat v) div 2 ^ ?p = rc w + unat v" by (simp add: rc_div)
  finally show "snd (addc w (RC_ONE L * v)) \<longleftrightarrow> 2 ^ ?n \<le> rc w + unat v"
    by (simp add: addc_def v)
  show "low (fst (addc w (RC_ONE L * v))) = low w" by (simp add: addc_def low_add)
  assume "\<not> snd (addc w (RC_ONE L * v))"
  then have "unat (w + RC_ONE L * v) = unat w + 2 ^ ?p * unat v"
    by (simp add: addc_def unat_word_ariths(1) v)
  then show "rc (fst (addc w (RC_ONE L * v))) = rc w + unat v" using d by (simp add: addc_def rc_div)
qed

subsection \<open>Writing one field keeps the others\<close>

lemma low_set_extra_rc [simp]: "low (set_extra_rc L v w) = low w"
  using rc_top by (intro bit_eqI) (auto simp: bit_take_bit_iff set_extra_rc_def bit_bf_set)

lemma extra_rc_set_extra_rc [simp]: "extra_rc L (set_extra_rc L v w) = take_bit (extra_rc_width L) v"
  by (simp add: extra_rc_def set_extra_rc_def bf_get_set rc_top)

lemma extra_rc_eqI: "(\<And>k. extra_rc_pos L \<le> k \<Longrightarrow> k < 64 \<Longrightarrow> bit w k = bit w' k) \<Longrightarrow> extra_rc L w = extra_rc L w'"
  using rc_top by (intro bit_eqI) (auto simp: extra_rc_def bit_bf_get)

lemma getClass_eqI:
  "(\<And>k. 3 \<le> k \<Longrightarrow> k < 3 + shiftcls_width L \<Longrightarrow> bit w k = bit w' k) \<Longrightarrow> getClass L w = getClass L w'"
  by (intro bit_eqI) (auto simp: getClass_def cls_mask bit_and_iff bit_push_bit_iff bit_mask_iff)

lemma field_bits:
  "has_assoc_bit L < 64" "weakly_referenced_bit L < 64" "has_sidetable_rc_bit L < 64"
  "3 + shiftcls_width L \<le> 64"
  "has_assoc_bit L \<noteq> 0" "weakly_referenced_bit L \<noteq> 0" "has_sidetable_rc_bit L \<noteq> 0"
  "has_assoc_bit L \<noteq> weakly_referenced_bit L" "has_assoc_bit L \<noteq> has_sidetable_rc_bit L"
  "weakly_referenced_bit L \<noteq> has_sidetable_rc_bit L"
  using flags_below_rc rc_pos flags_apart by auto

lemma set_has_sidetable_rc_simps [simp]:
  "has_sidetable_rc L (set_has_sidetable_rc L b w) = b"
  "nonpointer (set_has_sidetable_rc L b w) = nonpointer w"
  "has_assoc L (set_has_sidetable_rc L b w) = has_assoc L w"
  "weakly_referenced L (set_has_sidetable_rc L b w) = weakly_referenced L w"
  "extra_rc L (set_has_sidetable_rc L b w) = extra_rc L w"
  "getClass L (set_has_sidetable_rc L b w) = getClass L w"
  "has_cxx_dtor L (set_has_sidetable_rc L b w) = has_cxx_dtor L w"
proof -
  show "has_sidetable_rc L (set_has_sidetable_rc L b w) = b"
    "nonpointer (set_has_sidetable_rc L b w) = nonpointer w"
    "has_assoc L (set_has_sidetable_rc L b w) = has_assoc L w"
    "weakly_referenced L (set_has_sidetable_rc L b w) = weakly_referenced L w"
    using field_bits by (auto simp: has_sidetable_rc_def set_has_sidetable_rc_def nonpointer_def has_assoc_def
        weakly_referenced_def bit_bf_set bit_of_bool_iff)
  show "extra_rc L (set_has_sidetable_rc L b w) = extra_rc L w"
    using flags_below_rc(3) by (intro extra_rc_eqI) (auto simp: set_has_sidetable_rc_def bit_bf_set)
  show "getClass L (set_has_sidetable_rc L b w) = getClass L w"
    using flags_off_class field_bits
    by (intro getClass_eqI) (auto simp: set_has_sidetable_rc_def bit_bf_set)
  show "has_cxx_dtor L (set_has_sidetable_rc L b w) = has_cxx_dtor L w"
    using cxx_bit by (cases "has_cxx_dtor_bit L") (fastforce simp: has_cxx_dtor_def set_has_sidetable_rc_def bit_bf_set)+
qed

lemma set_weakly_referenced_simps [simp]:
  "weakly_referenced L (set_weakly_referenced L b w) = b"
  "nonpointer (set_weakly_referenced L b w) = nonpointer w"
  "has_assoc L (set_weakly_referenced L b w) = has_assoc L w"
  "has_sidetable_rc L (set_weakly_referenced L b w) = has_sidetable_rc L w"
  "extra_rc L (set_weakly_referenced L b w) = extra_rc L w"
  "getClass L (set_weakly_referenced L b w) = getClass L w"
proof -
  show "weakly_referenced L (set_weakly_referenced L b w) = b"
    "nonpointer (set_weakly_referenced L b w) = nonpointer w"
    "has_assoc L (set_weakly_referenced L b w) = has_assoc L w"
    "has_sidetable_rc L (set_weakly_referenced L b w) = has_sidetable_rc L w"
    using field_bits by (auto simp: has_sidetable_rc_def set_weakly_referenced_def nonpointer_def has_assoc_def
        weakly_referenced_def bit_bf_set bit_of_bool_iff)
  show "extra_rc L (set_weakly_referenced L b w) = extra_rc L w"
    using flags_below_rc(2) by (intro extra_rc_eqI) (auto simp: set_weakly_referenced_def bit_bf_set)
  show "getClass L (set_weakly_referenced L b w) = getClass L w"
    using flags_off_class field_bits
    by (intro getClass_eqI) (auto simp: set_weakly_referenced_def bit_bf_set)
qed

lemma set_has_assoc_simps [simp]:
  "has_assoc L (set_has_assoc L b w) = b"
  "nonpointer (set_has_assoc L b w) = nonpointer w"
  "weakly_referenced L (set_has_assoc L b w) = weakly_referenced L w"
  "has_sidetable_rc L (set_has_assoc L b w) = has_sidetable_rc L w"
  "extra_rc L (set_has_assoc L b w) = extra_rc L w"
  "getClass L (set_has_assoc L b w) = getClass L w"
proof -
  show "has_assoc L (set_has_assoc L b w) = b"
    "nonpointer (set_has_assoc L b w) = nonpointer w"
    "weakly_referenced L (set_has_assoc L b w) = weakly_referenced L w"
    "has_sidetable_rc L (set_has_assoc L b w) = has_sidetable_rc L w"
    using field_bits by (auto simp: has_sidetable_rc_def set_has_assoc_def nonpointer_def has_assoc_def
        weakly_referenced_def bit_bf_set bit_of_bool_iff)
  show "extra_rc L (set_has_assoc L b w) = extra_rc L w"
    using flags_below_rc(1) by (intro extra_rc_eqI) (auto simp: set_has_assoc_def bit_bf_set)
  show "getClass L (set_has_assoc L b w) = getClass L w"
    using flags_off_class field_bits
    by (intro getClass_eqI) (auto simp: set_has_assoc_def bit_bf_set)
qed

lemmas set_extra_rc_simps [simp] = low_fields [OF low_set_extra_rc]

lemma getClass_setClass:
  assumes "unat c < 2 ^ (3 + shiftcls_width L)" and "take_bit 3 c = 0"
  shows "getClass L (setClass L c w) = c"
proof (rule bit_word_eqI)
  fix k assume "k < LENGTH(64)"
  have "\<not> bit c k" if "3 + shiftcls_width L \<le> k"
  proof -
    have "take_bit (3 + shiftcls_width L) c = c"
      using assms(1) by (simp add: word_unat_eq_iff unat_take_bit_mod)
    with that show ?thesis by (metis bit_take_bit_iff not_less)
  qed
  moreover have "\<not> bit c k" if "k < 3"
    using that assms(2) by (metis bit_take_bit_iff bit_0_eq bot_apply bot_bool_def)
  ultimately show "bit (getClass L (setClass L c w)) k = bit c k"
    using field_bits(4) \<open>k < LENGTH(64)\<close>
    by (auto simp: getClass_def setClass_def cls_mask bit_and_iff bit_push_bit_iff bit_mask_iff bit_bf_set
        bit_drop_bit_eq not_le)
qed

lemma setClass_simps [simp]:
  "nonpointer (setClass L c w) = nonpointer w"
  "has_assoc L (setClass L c w) = has_assoc L w"
  "weakly_referenced L (setClass L c w) = weakly_referenced L w"
  "has_sidetable_rc L (setClass L c w) = has_sidetable_rc L w"
  "extra_rc L (setClass L c w) = extra_rc L w"
proof -
  show "nonpointer (setClass L c w) = nonpointer w"
    "has_assoc L (setClass L c w) = has_assoc L w"
    "weakly_referenced L (setClass L c w) = weakly_referenced L w"
    "has_sidetable_rc L (setClass L c w) = has_sidetable_rc L w"
    using flags_off_class field_bits
    by (auto simp: nonpointer_def has_assoc_def weakly_referenced_def has_sidetable_rc_def setClass_def bit_bf_set)
  show "extra_rc L (setClass L c w) = extra_rc L w"
    using flags_below_rc(4) by (intro extra_rc_eqI) (auto simp: setClass_def bit_bf_set)
qed

lemma set_has_cxx_dtor_simps [simp]:
  "nonpointer (set_has_cxx_dtor L b w) = nonpointer w"
  "has_assoc L (set_has_cxx_dtor L b w) = has_assoc L w"
  "weakly_referenced L (set_has_cxx_dtor L b w) = weakly_referenced L w"
  "has_sidetable_rc L (set_has_cxx_dtor L b w) = has_sidetable_rc L w"
  "extra_rc L (set_has_cxx_dtor L b w) = extra_rc L w"
proof -
  have *: "bit (set_has_cxx_dtor L b w) k = bit w k" if "has_cxx_dtor_bit L \<noteq> Some k" and "k < 64" for k
    using that by (cases "has_cxx_dtor_bit L") (auto simp: set_has_cxx_dtor_def bit_bf_set)
  show "nonpointer (set_has_cxx_dtor L b w) = nonpointer w"
    "has_assoc L (set_has_cxx_dtor L b w) = has_assoc L w"
    "weakly_referenced L (set_has_cxx_dtor L b w) = weakly_referenced L w"
    "has_sidetable_rc L (set_has_cxx_dtor L b w) = has_sidetable_rc L w"
    unfolding nonpointer_def has_assoc_def weakly_referenced_def has_sidetable_rc_def
    by (rule *; use cxx_bit field_bits in fastforce)+
  show "extra_rc L (set_has_cxx_dtor L b w) = extra_rc L w"
  proof (rule extra_rc_eqI)
    fix k assume k: "extra_rc_pos L \<le> k" "k < 64"
    have "has_cxx_dtor_bit L \<noteq> Some k" using cxx_bit [of k] k(1) flags_below_rc(4) by auto
    then show "bit (set_has_cxx_dtor L b w) k = bit w k" using * k(2) by simp
  qed
qed

lemma magic_fields:
  "nonpointer (ISA_MAGIC_VALUE L)" "\<not> has_assoc L (ISA_MAGIC_VALUE L)"
  "\<not> weakly_referenced L (ISA_MAGIC_VALUE L)" "\<not> has_sidetable_rc L (ISA_MAGIC_VALUE L)"
proof -
  have *: "bit (ISA_MAGIC_VALUE L) k \<Longrightarrow> bit (ISA_MAGIC_MASK L) k" for k
    using magic(1) by (metis bit_and_iff)
  show "nonpointer (ISA_MAGIC_VALUE L)" by (rule magic(2))
  show "\<not> has_assoc L (ISA_MAGIC_VALUE L)" "\<not> weakly_referenced L (ISA_MAGIC_VALUE L)"
    "\<not> has_sidetable_rc L (ISA_MAGIC_VALUE L)"
    using * magic(5-7) by (auto simp: has_assoc_def weakly_referenced_def has_sidetable_rc_def)
qed

lemma isDeallocating_iff: "isDeallocating L w \<longleftrightarrow> rc w = 0 \<and> \<not> has_sidetable_rc L w"
  by (simp add: isDeallocating_def unat_eq_zero)

end

lemmas isa_eval = nonpointer_def has_assoc_def weakly_referenced_def has_sidetable_rc_def extra_rc_def
  bf_get_def mask_eq_exp_minus_1

interpretation arm64e: packed_isa isa_arm64e
  by unfold_locales (auto simp: isa_arm64e_def isa_eval)

interpretation arm64: packed_isa isa_arm64
  by unfold_locales (auto simp: isa_arm64_def isa_eval)

interpretation x86_64: packed_isa isa_x86_64
  by unfold_locales (auto simp: isa_x86_64_def isa_eval)

text \<open>The layouts of \<open>isa.h\<close>.\<close>

definition isa_layouts :: "isa_layout list" where
  "isa_layouts = [isa_arm64e, isa_arm64, isa_x86_64]"

lemma packed_layouts: "L \<in> set isa_layouts \<Longrightarrow> packed_isa L"
  by (auto simp: isa_layouts_def arm64e.packed_isa_axioms arm64.packed_isa_axioms x86_64.packed_isa_axioms)

text \<open>
  The flags of the word, and everything but the count: the other flags, the class, the magic
  bits and, so that the unused bit is there too, all the bits below the count.
\<close>

definition flags :: "isa_layout \<Rightarrow> u64 \<Rightarrow> bool list" where
  "flags L w = [nonpointer w, has_assoc L w, weakly_referenced L w, has_sidetable_rc L w]"

definition other_fields :: "isa_layout \<Rightarrow> u64 \<Rightarrow> bool list \<times> bool \<times> u64 \<times> u64 \<times> u64" where
  "other_fields L w =
     (flags L w, has_cxx_dtor L w, getClass L w, w AND ISA_MAGIC_MASK L, take_bit (extra_rc_pos L) w)"

text \<open>
  C27: In each of the packed layouts, adding \<open>RC_ONE\<close> to the \<open>isa\<close> word increments the inline
  reference count and leaves every other field alone (the flags with \<open>has_cxx_dtor\<close>, the class, the
  magic bits and every other bit below the count), and the carry out of the 64-bit addition
  is set exactly when the count was at its maximum; subtracting it decrements the count, with a
  carry exactly when the count was zero.
\<close>

theorem isa_count_arithmetic:
  assumes "L \<in> set isa_layouts"
  shows "(case addc w (RC_ONE L) of (w', carry) \<Rightarrow>
            (carry \<longleftrightarrow> unat (extra_rc L w) = 2 ^ extra_rc_width L - 1) \<and>
            (\<not> carry \<longrightarrow> unat (extra_rc L w') = unat (extra_rc L w) + 1) \<and>
            other_fields L w' = other_fields L w) \<and>
         (case subc w (RC_ONE L) of (w', carry) \<Rightarrow>
            (carry \<longleftrightarrow> unat (extra_rc L w) = 0) \<and>
            (\<not> carry \<longrightarrow> unat (extra_rc L w') = unat (extra_rc L w) - 1) \<and>
            other_fields L w' = other_fields L w)"
proof -
  note L = packed_layouts [OF assms]
  note a = packed_isa.addc_RC_ONE [OF L, of w] and b = packed_isa.subc_RC_ONE [OF L, of w]
  show ?thesis
    using a b packed_isa.low_fields [OF L a(3)] packed_isa.low_fields [OF L b(3)]
    by (simp add: case_prod_beta other_fields_def flags_def)
qed

theorem isa_count_arithmetic_witness:
  "case addc 0x001d800100001009 (RC_ONE isa_x86_64) of (w', carry) \<Rightarrow> \<not> carry \<and> unat (extra_rc isa_x86_64 w') = 1"
  using isa_count_arithmetic [of isa_x86_64 "0x001d800100001009"]
  by (simp add: isa_layouts_def) (simp add: isa_x86_64_def extra_rc_def bf_get_def case_prod_beta)

text \<open>
  In each of the packed layouts, a pointer-aligned class address below the address limit of
  the layout survives being stored in an \<open>isa\<close> word and read back, and storing it changes none
  of the flags and not the count.
\<close>

theorem isa_class_roundtrip:
  assumes "L \<in> set isa_layouts" and "unat c < 2 ^ (3 + shiftcls_width L)" and "take_bit 3 c = 0"
  shows "getDecodedClass L (setClass L c w) = c \<and> flags L (setClass L c w) = flags L w \<and>
    extra_rc L (setClass L c w) = extra_rc L w"
proof -
  note L = packed_layouts [OF assms(1)]
  show ?thesis
    using packed_isa.getClass_setClass [OF L assms(2,3)] packed_isa.setClass_simps [OF L]
    by (simp add: getDecodedClass_def flags_def)
qed

theorem isa_class_roundtrip_witness:
  "getDecodedClass isa_arm64 (setClass isa_arm64 0x100008068 (ISA_MAGIC_VALUE isa_arm64)) = 0x100008068"
  using isa_class_roundtrip [of isa_arm64 "0x100008068" "ISA_MAGIC_VALUE isa_arm64"]
  by (simp add: isa_layouts_def) (simp add: isa_arm64_def)

end
