(* ===== verification/SideTable.thy ===== *)
theory SideTable
  imports DenseMapSpec WeakSpec Isa
begin

text \<open>
  The side tables of \<open>NSObject.mm\<close> and the memory the reference-counting code works on. A side
  table holds a spin lock, the counts of the objects hashed to it and their weak references;
  \<open>StripedMap\<close> selects the side table of an object from its address. Locks are modelled for the
  one thread that runs: locking a lock it holds never returns, unlocking one it does not hold is
  fatal, and both are \<open>None\<close>, as are the fatal errors of the tables.
\<close>

subsection \<open>State\<close>

record SideTable =
  slock :: bool
  refcnts :: RefcountMap
  weak_table :: weak_table_t

text \<open>
  The flags of a class that the reference-counting code asks for, and the parameters a build and
  a process fix: the layout of \<open>isa\<close>, the mask of tagged pointers, the number of stripes, the
  classes, and the contents of freshly allocated memory.
\<close>

record class_flags =
  hasCustomRR :: bool
  canCallSwiftRR :: bool
  isMetaClass :: bool
  isFuture :: bool
  canAllocNonpointer :: bool
  cls_hasCxxDtor :: bool
  cls_isInitialized :: bool
  instancesRequireRawIsa :: bool
  implementsNoteAssociatedObjects :: bool
  implementsSetWeaklyReferenced :: bool

record env =
  layout :: isa_layout
  TAG_MASK :: u64
  StripeCount :: nat
  classes :: "u64 \<Rightarrow> class_flags"
  fresh :: "nat \<Rightarrow> DisguisedPtr \<times> u64"

datatype message = Dealloc u64 | MsgRetain u64 | MsgRelease u64 | SwiftRetain u64 | SwiftRelease u64
  | Free u64 | Dispose u64 | NoteAssociatedObjects u64 | SetWeaklyReferenced u64 | ClassInitialize u64

record rt =
  isa_bits :: "u64 \<Rightarrow> u64"
  SideTables :: "nat \<Rightarrow> SideTable"
  vars :: "u64 \<Rightarrow> u64"
  sent :: "message list"

definition isTaggedPointer :: "env \<Rightarrow> u64 \<Rightarrow> bool" where
  "isTaggedPointer E p \<longleftrightarrow> p AND TAG_MASK E = TAG_MASK E"

definition isTaggedPointerOrNil :: "env \<Rightarrow> u64 \<Rightarrow> bool" where
  "isTaggedPointerOrNil E p \<longleftrightarrow> p = 0 \<or> p AND TAG_MASK E = TAG_MASK E"

definition indexForPointer :: "env \<Rightarrow> u64 \<Rightarrow> nat" where
  "indexForPointer E p = unat (drop_bit 4 p XOR drop_bit 9 p) mod StripeCount E"

definition table_for :: "env \<Rightarrow> u64 \<Rightarrow> rt \<Rightarrow> SideTable" where
  "table_for E obj s = SideTables s (indexForPointer E obj)"

definition put_table :: "env \<Rightarrow> u64 \<Rightarrow> SideTable \<Rightarrow> rt \<Rightarrow> rt" where
  "put_table E obj t s = s\<lparr>SideTables := (SideTables s)(indexForPointer E obj := t)\<rparr>"

definition SideTable_new :: "env \<Rightarrow> SideTable" where
  "SideTable_new E =
     \<lparr>slock = False, refcnts = DenseMap_new (RefcountMap_policy (fresh E)) 0,
      weak_table = weak_table_zero\<rparr>"

abbreviation refcnt_policy :: "env \<Rightarrow> (DisguisedPtr, u64) policy" where
  "refcnt_policy E \<equiv> RefcountMap_policy (fresh E)"

subsection \<open>Locks\<close>

definition SideTable_lock :: "SideTable \<Rightarrow> SideTable option" where
  "SideTable_lock t = (if slock t then None else Some (t\<lparr>slock := True\<rparr>))"

definition SideTable_unlock :: "SideTable \<Rightarrow> SideTable option" where
  "SideTable_unlock t = (if slock t then Some (t\<lparr>slock := False\<rparr>) else None)"

definition sidetable_lock :: "env \<Rightarrow> u64 \<Rightarrow> rt \<Rightarrow> rt option" where
  "sidetable_lock E this s = do {
     table \<leftarrow> SideTable_lock (table_for E this s);
     Some (put_table E this table s) }"

definition sidetable_unlock :: "env \<Rightarrow> u64 \<Rightarrow> rt \<Rightarrow> rt option" where
  "sidetable_unlock E this s = do {
     table \<leftarrow> SideTable_unlock (table_for E this s);
     Some (put_table E this table s) }"

subsection \<open>The words of the count table\<close>

definition SIDE_TABLE_WEAKLY_REFERENCED :: u64 where "SIDE_TABLE_WEAKLY_REFERENCED = push_bit 0 1"
definition SIDE_TABLE_DEALLOCATING :: u64 where "SIDE_TABLE_DEALLOCATING = push_bit 1 1"
definition SIDE_TABLE_RC_ONE :: u64 where "SIDE_TABLE_RC_ONE = push_bit 2 1"
definition SIDE_TABLE_RC_PINNED :: u64 where "SIDE_TABLE_RC_PINNED = push_bit 63 1"
definition SIDE_TABLE_RC_SHIFT :: nat where "SIDE_TABLE_RC_SHIFT = 2"
definition SIDE_TABLE_FLAG_MASK :: u64 where "SIDE_TABLE_FLAG_MASK = SIDE_TABLE_RC_ONE - 1"

text \<open>\<open>w & flag\<close> as a condition.\<close>

definition has_flag :: "u64 \<Rightarrow> u64 \<Rightarrow> bool" where
  "has_flag w flag \<longleftrightarrow> w AND flag \<noteq> 0"

text \<open>
  References into the count table: \<open>table.refcnts[this]\<close> and \<open>try_emplace(this, v)\<close> give a
  bucket of the updated table, through which the count is read and written.
\<close>

definition put_refcnts :: "env \<Rightarrow> u64 \<Rightarrow> RefcountMap \<Rightarrow> rt \<Rightarrow> rt" where
  "put_refcnts E this m s = put_table E this ((table_for E this s)\<lparr>refcnts := m\<rparr>) s"

subsection \<open>Counts of objects with a packed isa\<close>

definition sidetable_moveExtraRC_nolock :: "env \<Rightarrow> u64 \<Rightarrow> u64 \<Rightarrow> bool \<Rightarrow> bool \<Rightarrow> rt \<Rightarrow> rt option" where
  "sidetable_moveExtraRC_nolock E this extra isDealloc weaklyReferenced s = do {
     (refcntStorage, m) \<leftarrow>
       FindAndConstruct (refcnt_policy E) (disguised this) (refcnts (table_for E this s));
     let oldRefcnt = getSecond m refcntStorage;
     let (refcnt, carry) = addc oldRefcnt (push_bit SIDE_TABLE_RC_SHIFT (extra - 1));
     let refcnt = (if carry then SIDE_TABLE_RC_PINNED else refcnt);
     let refcnt = (if isDealloc then refcnt OR SIDE_TABLE_DEALLOCATING else refcnt);
     let refcnt = (if weaklyReferenced then refcnt OR SIDE_TABLE_WEAKLY_REFERENCED else refcnt);
     Some (put_refcnts E this (setSecond m refcntStorage refcnt) s) }"

definition sidetable_addExtraRC_nolock :: "env \<Rightarrow> u64 \<Rightarrow> u64 \<Rightarrow> rt \<Rightarrow> (bool \<times> rt) option" where
  "sidetable_addExtraRC_nolock E this delta_rc s = do {
     (refcntStorage, m) \<leftarrow>
       FindAndConstruct (refcnt_policy E) (disguised this) (refcnts (table_for E this s));
     let oldRefcnt = getSecond m refcntStorage;
     if has_flag oldRefcnt SIDE_TABLE_RC_PINNED then Some (True, put_refcnts E this m s)
     else
       let (newRefcnt, carry) = addc oldRefcnt (push_bit SIDE_TABLE_RC_SHIFT delta_rc) in
       if carry then
         Some (True, put_refcnts E this (setSecond m refcntStorage
                 (SIDE_TABLE_RC_PINNED OR (oldRefcnt AND SIDE_TABLE_FLAG_MASK))) s)
       else Some (False, put_refcnts E this (setSecond m refcntStorage newRefcnt) s) }"

record SidetableBorrow =
  borrowed :: u64
  remaining :: u64

definition sidetable_subExtraRC_nolock ::
  "env \<Rightarrow> u64 \<Rightarrow> u64 \<Rightarrow> rt \<Rightarrow> (SidetableBorrow \<times> rt) option" where
  "sidetable_subExtraRC_nolock E this delta_rc s = do {
     let m = refcnts (table_for E this s);
     it \<leftarrow> dm_find (refcnt_policy E) (disguised this) m;
     if it = dm_end m \<or> getSecond m it = 0 then Some (\<lparr>borrowed = 0, remaining = 0\<rparr>, s)
     else do {
       let oldRefcnt = getSecond m it;
       let newRefcnt = oldRefcnt - push_bit SIDE_TABLE_RC_SHIFT delta_rc;
       Some (\<lparr>borrowed = delta_rc, remaining = drop_bit SIDE_TABLE_RC_SHIFT newRefcnt\<rparr>,
             put_refcnts E this (setSecond m it newRefcnt) s) } }"

definition sidetable_getExtraRC_nolock :: "env \<Rightarrow> u64 \<Rightarrow> rt \<Rightarrow> u64 option" where
  "sidetable_getExtraRC_nolock E this s = do {
     let m = refcnts (table_for E this s);
     it \<leftarrow> dm_find (refcnt_policy E) (disguised this) m;
     if it = dm_end m then Some 0
     else Some (drop_bit SIDE_TABLE_RC_SHIFT (getSecond m it)) }"

definition sidetable_clearExtraRC_nolock :: "env \<Rightarrow> u64 \<Rightarrow> rt \<Rightarrow> rt option" where
  "sidetable_clearExtraRC_nolock E this s = do {
     let m = refcnts (table_for E this s);
     it \<leftarrow> dm_find (refcnt_policy E) (disguised this) m;
     m \<leftarrow> dm_erase_iterator (refcnt_policy E) it m;
     Some (put_refcnts E this m s) }"

subsection \<open>Counts of objects with a raw isa\<close>

definition sidetable_retain :: "env \<Rightarrow> u64 \<Rightarrow> bool \<Rightarrow> rt \<Rightarrow> (u64 \<times> rt) option" where
  "sidetable_retain E this locked s = do {
     s \<leftarrow> (if \<not> locked then sidetable_lock E this s else Some s);
     (refcntStorage, m) \<leftarrow>
       FindAndConstruct (refcnt_policy E) (disguised this) (refcnts (table_for E this s));
     let m = (if \<not> has_flag (getSecond m refcntStorage) SIDE_TABLE_RC_PINNED
              then setSecond m refcntStorage (getSecond m refcntStorage + SIDE_TABLE_RC_ONE) else m);
     s \<leftarrow> sidetable_unlock E this (put_refcnts E this m s);
     Some (this, s) }"

definition sidetable_tryRetain :: "env \<Rightarrow> u64 \<Rightarrow> rt \<Rightarrow> (bool \<times> rt) option" where
  "sidetable_tryRetain E this s = do {
     (it, inserted, m) \<leftarrow>
       try_emplace (refcnt_policy E) (disguised this) SIDE_TABLE_RC_ONE (refcnts (table_for E this s));
     refcnt \<leftarrow> it;
     if inserted then Some (True, put_refcnts E this m s)
     else if has_flag (getSecond m refcnt) SIDE_TABLE_DEALLOCATING
       then Some (False, put_refcnts E this m s)
     else if \<not> has_flag (getSecond m refcnt) SIDE_TABLE_RC_PINNED
       then Some (True, put_refcnts E this (setSecond m refcnt (getSecond m refcnt + SIDE_TABLE_RC_ONE)) s)
     else Some (True, put_refcnts E this m s) }"

definition sidetable_retainCount :: "env \<Rightarrow> u64 \<Rightarrow> rt \<Rightarrow> (u64 \<times> rt) option" where
  "sidetable_retainCount E this s = do {
     s \<leftarrow> sidetable_lock E this s;
     let m = refcnts (table_for E this s);
     it \<leftarrow> dm_find (refcnt_policy E) (disguised this) m;
     let refcnt_result =
       (if it \<noteq> dm_end m then 1 + drop_bit SIDE_TABLE_RC_SHIFT (getSecond m it) else 1);
     s \<leftarrow> sidetable_unlock E this s;
     Some (refcnt_result, s) }"

definition sidetable_isDeallocating :: "env \<Rightarrow> u64 \<Rightarrow> rt \<Rightarrow> bool option" where
  "sidetable_isDeallocating E this s = do {
     let m = refcnts (table_for E this s);
     it \<leftarrow> dm_find (refcnt_policy E) (disguised this) m;
     Some (it \<noteq> dm_end m \<and> has_flag (getSecond m it) SIDE_TABLE_DEALLOCATING) }"

definition sidetable_isWeaklyReferenced :: "env \<Rightarrow> u64 \<Rightarrow> rt \<Rightarrow> (bool \<times> rt) option" where
  "sidetable_isWeaklyReferenced E this s = do {
     s \<leftarrow> sidetable_lock E this s;
     let m = refcnts (table_for E this s);
     it \<leftarrow> dm_find (refcnt_policy E) (disguised this) m;
     let result = (if it \<noteq> dm_end m then has_flag (getSecond m it) SIDE_TABLE_WEAKLY_REFERENCED else False);
     s \<leftarrow> sidetable_unlock E this s;
     Some (result, s) }"

definition sidetable_setWeaklyReferenced_nolock :: "env \<Rightarrow> u64 \<Rightarrow> rt \<Rightarrow> rt option" where
  "sidetable_setWeaklyReferenced_nolock E this s = do {
     (b, m) \<leftarrow>
       FindAndConstruct (refcnt_policy E) (disguised this) (refcnts (table_for E this s));
     Some (put_refcnts E this (setSecond m b (getSecond m b OR SIDE_TABLE_WEAKLY_REFERENCED)) s) }"

definition sidetable_release :: "env \<Rightarrow> u64 \<Rightarrow> bool \<Rightarrow> bool \<Rightarrow> rt \<Rightarrow> (bool \<times> rt) option" where
  "sidetable_release E this locked performDealloc s = do {
     s \<leftarrow> (if \<not> locked then sidetable_lock E this s else Some s);
     (it, inserted, m) \<leftarrow>
       try_emplace (refcnt_policy E) (disguised this) SIDE_TABLE_DEALLOCATING (refcnts (table_for E this s));
     refcnt \<leftarrow> it;
     let (do_dealloc, m) =
       (if inserted then (True, m)
        else if getSecond m refcnt < SIDE_TABLE_DEALLOCATING
          then (True, setSecond m refcnt (getSecond m refcnt OR SIDE_TABLE_DEALLOCATING))
        else if \<not> has_flag (getSecond m refcnt) SIDE_TABLE_RC_PINNED
          then (False, setSecond m refcnt (getSecond m refcnt - SIDE_TABLE_RC_ONE))
        else (False, m));
     s \<leftarrow> sidetable_unlock E this (put_refcnts E this m s);
     Some (do_dealloc,
           if do_dealloc \<and> performDealloc then s\<lparr>sent := sent s @ [Dealloc this]\<rparr> else s) }"

definition weak_clear_in :: "env \<Rightarrow> u64 \<Rightarrow> rt \<Rightarrow> rt option" where
  "weak_clear_in E this s = do {
     (w, v) \<leftarrow> weak_clear_no_lock (weak_table (table_for E this s)) this (vars s);
     Some (put_table E this ((table_for E this s)\<lparr>weak_table := w\<rparr>) s\<lparr>vars := v\<rparr>) }"

definition sidetable_clearDeallocating :: "env \<Rightarrow> u64 \<Rightarrow> rt \<Rightarrow> rt option" where
  "sidetable_clearDeallocating E this s = do {
     s \<leftarrow> sidetable_lock E this s;
     let m = refcnts (table_for E this s);
     it \<leftarrow> dm_find (refcnt_policy E) (disguised this) m;
     s \<leftarrow> (if it \<noteq> dm_end m then do {
             s \<leftarrow> (if has_flag (getSecond m it) SIDE_TABLE_WEAKLY_REFERENCED
                   then weak_clear_in E this s else Some s);
             m \<leftarrow> dm_erase_iterator (refcnt_policy E) it m;
             Some (put_refcnts E this m s) }
           else Some s);
     sidetable_unlock E this s }"

definition sidetable_present :: "env \<Rightarrow> u64 \<Rightarrow> rt \<Rightarrow> (bool \<times> rt) option" where
  "sidetable_present E this s = do {
     s \<leftarrow> sidetable_lock E this s;
     let m = refcnts (table_for E this s);
     it \<leftarrow> dm_find (refcnt_policy E) (disguised this) m;
     registered \<leftarrow> weak_is_registered_no_lock (weak_table (table_for E this s)) this;
     s \<leftarrow> sidetable_unlock E this s;
     Some (it \<noteq> dm_end m \<or> registered, s) }"

end
