(* ===== verification/ObjcObject.thy ===== *)
theory ObjcObject
  imports SideTable
begin

text \<open>
  The reference-counting operations of \<open>objc_object\<close> (\<open>objc-object.h\<close>) on the \<open>isa\<close> word and the
  side tables.

  The loops that update \<open>isa\<close> with \<open>LoadExclusive\<close> and \<open>StoreExclusive\<close> run against other threads:
  a script lists, for each access in turn, whether another thread has written the word (\<open>Some w\<close>:
  the load sees \<open>w\<close>, the store fails and the word holds \<open>w\<close>) or not (\<open>None\<close>). Behind the end of
  the script there is no interference, so every loop ends. A store that fails without a change
  of the word (as \<open>compare_exchange_weak\<close> may) is \<open>Some w\<close> for the value already there. The
  script does not touch the side tables: interference is by threads that stay on the inline count.
\<close>

subsection \<open>Exclusive access\<close>

type_synonym script = "u64 option list"

definition store_isa :: "u64 \<Rightarrow> u64 \<Rightarrow> rt \<Rightarrow> rt" where
  "store_isa this w s = s\<lparr>isa_bits := (isa_bits s)(this := w)\<rparr>"

fun LoadExclusive :: "script \<Rightarrow> u64 \<Rightarrow> rt \<Rightarrow> u64 \<times> script \<times> rt" where
  "LoadExclusive (Some w # sc) this s = (w, sc, store_isa this w s)"
| "LoadExclusive (None # sc) this s = (isa_bits s this, sc, s)"
| "LoadExclusive [] this s = (isa_bits s this, [], s)"

text \<open>The result is whether the value was stored; the caller's \<open>oldisa\<close> is the word after a failure.\<close>

fun StoreExclusive :: "script \<Rightarrow> u64 \<Rightarrow> u64 \<Rightarrow> rt \<Rightarrow> bool \<times> script \<times> rt" where
  "StoreExclusive (Some w # sc) this v s = (False, sc, store_isa this w s)"
| "StoreExclusive (None # sc) this v s = (True, sc, store_isa this v s)"
| "StoreExclusive [] this v s = (True, [], store_isa this v s)"

lemma StoreExclusive_length: "StoreExclusive sc this v s = (False, sc', s') \<Longrightarrow> length sc' < length sc"
  by (induction sc this v s rule: StoreExclusive.induct) auto

lemma LoadExclusive_length: "LoadExclusive sc this s = (w, sc', s') \<Longrightarrow> length sc' \<le> length sc"
  by (induction sc this s rule: LoadExclusive.induct) auto

subsection \<open>Class and flags\<close>

definition ISA :: "env \<Rightarrow> u64 \<Rightarrow> rt \<Rightarrow> u64" where
  "ISA E this s = getDecodedClass (layout E) (isa_bits s this)"

definition hasNonpointerIsa :: "u64 \<Rightarrow> rt \<Rightarrow> bool" where
  "hasNonpointerIsa this s = nonpointer (isa_bits s this)"

definition isClass :: "env \<Rightarrow> u64 \<Rightarrow> rt \<Rightarrow> bool" where
  "isClass E this s = (if isTaggedPointer E this then False else isMetaClass (classes E (ISA E this s)))"

definition initIsa :: "env \<Rightarrow> u64 \<Rightarrow> u64 \<Rightarrow> bool \<Rightarrow> bool \<Rightarrow> rt \<Rightarrow> rt" where
  "initIsa E this cls nonptr hasCxxDtor s =
     (let L = layout E;
          newisa =
            (if \<not> nonptr then setClass L cls 0
             else set_extra_rc L 1 (setClass L cls (set_has_cxx_dtor L hasCxxDtor (ISA_MAGIC_VALUE L)))) in
      store_isa this newisa s)"

definition initClassIsa :: "env \<Rightarrow> bool \<Rightarrow> u64 \<Rightarrow> u64 \<Rightarrow> rt \<Rightarrow> rt" where
  "initClassIsa E DisableNonpointerIsa this cls s =
     (if DisableNonpointerIsa \<or> instancesRequireRawIsa (classes E cls)
      then initIsa E this cls False False s else initIsa E this cls True False s)"

definition initInstanceIsa :: "env \<Rightarrow> u64 \<Rightarrow> u64 \<Rightarrow> bool \<Rightarrow> rt \<Rightarrow> rt" where
  "initInstanceIsa E this cls hasCxxDtor s = initIsa E this cls True hasCxxDtor s"

definition hasAssociatedObjects :: "env \<Rightarrow> u64 \<Rightarrow> rt \<Rightarrow> bool" where
  "hasAssociatedObjects E this s =
     (if isTaggedPointer E this then True
      else if nonpointer (isa_bits s this) then has_assoc (layout E) (isa_bits s this)
      else True)"

fun setHasAssociatedObjects_loop :: "env \<Rightarrow> u64 \<Rightarrow> script \<Rightarrow> u64 \<Rightarrow> rt \<Rightarrow> rt" where
  "setHasAssociatedObjects_loop E this sc oldisa s =
     (if \<not> nonpointer oldisa \<or> has_assoc (layout E) oldisa then s
      else case sc of
        Some w # sc \<Rightarrow> setHasAssociatedObjects_loop E this sc w (store_isa this w s)
      | _ \<Rightarrow> store_isa this (set_has_assoc (layout E) True oldisa) s)"

definition setHasAssociatedObjects :: "env \<Rightarrow> u64 \<Rightarrow> script \<Rightarrow> rt \<Rightarrow> rt" where
  "setHasAssociatedObjects E this sc s =
     (if isTaggedPointer E this then s
      else
        let cls = classes E (ISA E this s);
            s = (if \<not> hasNonpointerIsa this s \<and> hasCustomRR cls \<and> \<not> isFuture cls \<and> \<not> isMetaClass cls \<and>
                    implementsNoteAssociatedObjects cls
                 then s\<lparr>sent := sent s @ [NoteAssociatedObjects this]\<rparr> else s);
            (oldisa, sc, s) = LoadExclusive sc this s in
        setHasAssociatedObjects_loop E this sc oldisa s)"

definition isWeaklyReferenced :: "env \<Rightarrow> u64 \<Rightarrow> rt \<Rightarrow> (bool \<times> rt) option" where
  "isWeaklyReferenced E this s =
     (if nonpointer (isa_bits s this) then Some (weakly_referenced (layout E) (isa_bits s this), s)
      else sidetable_isWeaklyReferenced E this s)"

fun setWeaklyReferenced_nolock_loop :: "env \<Rightarrow> u64 \<Rightarrow> script \<Rightarrow> u64 \<Rightarrow> rt \<Rightarrow> rt option" where
  "setWeaklyReferenced_nolock_loop E this sc oldisa s =
     (if \<not> nonpointer oldisa then sidetable_setWeaklyReferenced_nolock E this s
      else if weakly_referenced (layout E) oldisa then Some s
      else case sc of
        Some w # sc \<Rightarrow> setWeaklyReferenced_nolock_loop E this sc w (store_isa this w s)
      | _ \<Rightarrow> Some (store_isa this (set_weakly_referenced (layout E) True oldisa) s))"

definition setWeaklyReferenced_nolock :: "env \<Rightarrow> u64 \<Rightarrow> script \<Rightarrow> rt \<Rightarrow> rt option" where
  "setWeaklyReferenced_nolock E this sc s =
     (let (oldisa, sc, s) = LoadExclusive sc this s in setWeaklyReferenced_nolock_loop E this sc oldisa s)"

definition hasCxxDtor :: "env \<Rightarrow> u64 \<Rightarrow> rt \<Rightarrow> bool" where
  "hasCxxDtor E this s =
     (if has_cxx_dtor_bit (layout E) \<noteq> None \<and> nonpointer (isa_bits s this)
      then has_cxx_dtor (layout E) (isa_bits s this)
      else cls_hasCxxDtor (classes E (ISA E this s)))"

definition rootIsDeallocating :: "env \<Rightarrow> u64 \<Rightarrow> rt \<Rightarrow> bool option" where
  "rootIsDeallocating E this s =
     (if isTaggedPointer E this then Some False
      else if nonpointer (isa_bits s this) then Some (isDeallocating (layout E) (isa_bits s this))
      else sidetable_isDeallocating E this s)"

subsection \<open>Changing the class of an object\<close>

text \<open>\<open>newisa\<close> is declared outside of the loop: an iteration sees the value the last one left.\<close>

fun changeIsa_loop ::
  "env \<Rightarrow> u64 \<Rightarrow> u64 \<Rightarrow> script \<Rightarrow> bool \<Rightarrow> u64 \<Rightarrow> u64 \<Rightarrow> rt \<Rightarrow> (u64 \<times> rt) option" where
  "changeIsa_loop E this newCls sc sideTableLocked oldisa newisa s =
     (let L = layout E; C = classes E newCls;
          packed = (oldisa = 0 \<or> nonpointer oldisa) \<and> \<not> isFuture C \<and> canAllocNonpointer C;
          transcribeToSideTable = (\<not> packed \<and> nonpointer oldisa);
          newisa =
            (if packed then
               setClass L newCls (set_has_cxx_dtor L (cls_hasCxxDtor C)
                 (if oldisa = 0 then set_extra_rc L 1 (ISA_MAGIC_VALUE L) else oldisa))
             else setClass L newCls newisa) in
      do {
        s \<leftarrow> (if transcribeToSideTable \<and> \<not> sideTableLocked then sidetable_lock E this s else Some s);
        let sideTableLocked = (sideTableLocked \<or> transcribeToSideTable);
        case sc of
          Some w # sc \<Rightarrow> changeIsa_loop E this newCls sc sideTableLocked w newisa (store_isa this w s)
        | _ \<Rightarrow> do {
            let s = store_isa this newisa s;
            s \<leftarrow> (if transcribeToSideTable
                  then sidetable_moveExtraRC_nolock E this (extra_rc L oldisa) (isDeallocating L oldisa)
                         (weakly_referenced L oldisa) s
                  else Some s);
            s \<leftarrow> (if sideTableLocked then sidetable_unlock E this s else Some s);
            Some (getDecodedClass L oldisa, s) } })"

definition changeIsa :: "env \<Rightarrow> u64 \<Rightarrow> u64 \<Rightarrow> script \<Rightarrow> rt \<Rightarrow> (u64 \<times> rt) option" where
  "changeIsa E this newCls sc s =
     (let (oldisa, sc, s) = LoadExclusive sc this s in changeIsa_loop E this newCls sc False oldisa 0 s)"

subsection \<open>Retaining\<close>

datatype RRVariant = Full | Fast | FastOrMsgSend

text \<open>What a retain returns: an object (or nil), or what an overriding method returns.\<close>

datatype retval = Id u64 | ResultOf message

definition class_object :: "env \<Rightarrow> u64 \<Rightarrow> bool" where
  "class_object E oldisa \<longleftrightarrow>
     \<not> nonpointer oldisa \<and> isMetaClass (classes E (getDecodedClass (layout E) oldisa))"

function rootRetain_loop ::
  "env \<Rightarrow> u64 \<Rightarrow> bool \<Rightarrow> RRVariant \<Rightarrow> script \<Rightarrow> bool \<Rightarrow> u64 \<Rightarrow> rt \<Rightarrow>
   (retval \<times> script \<times> rt) option" where
  "rootRetain_loop E this tryRetain variant sc sideTableLocked oldisa s =
     (let L = layout E in
      if \<not> nonpointer oldisa then
        (if tryRetain then do {
           (ok, s) \<leftarrow> sidetable_tryRetain E this s;
           Some (Id (if ok then this else 0), sc, s) }
         else do {
           (r, s) \<leftarrow> sidetable_retain E this sideTableLocked s;
           Some (Id r, sc, s) })
      else if isDeallocating L oldisa then do {
        s \<leftarrow> (if sideTableLocked then sidetable_unlock E this s else Some s);
        Some (Id (if tryRetain then 0 else this), sc, s) }
      else
        let (newisa, carry) = addc oldisa (RC_ONE L) in
        if carry \<and> variant \<noteq> Full then
          (let (oldisa, sc, s) = LoadExclusive sc this s in
           if class_object E oldisa then Some (Id this, sc, s)
           else rootRetain_loop E this tryRetain Full sc False oldisa s)
        else do {
          s \<leftarrow> (if carry \<and> \<not> tryRetain \<and> \<not> sideTableLocked then sidetable_lock E this s else Some s);
          let sideTableLocked = (sideTableLocked \<or> carry);
          let newisa = (if carry then set_has_sidetable_rc L True (set_extra_rc L (RC_HALF L) newisa) else newisa);
          case StoreExclusive sc this newisa s of
            (stored, sc, s) \<Rightarrow>
              if \<not> stored then
                rootRetain_loop E this tryRetain variant sc sideTableLocked (isa_bits s this) s
              else if variant = Full then do {
                s \<leftarrow> (if carry then map_option snd (sidetable_addExtraRC_nolock E this (RC_HALF L) s) else Some s);
                s \<leftarrow> (if \<not> tryRetain \<and> sideTableLocked then sidetable_unlock E this s else Some s);
                Some (Id this, sc, s) }
              else Some (Id this, sc, s) })"
  by pat_completeness auto
termination
  by (relation "measure (\<lambda>(E, this, tryRetain, variant, sc, _). 2 * length sc + (if variant = Full then 0 else 1))")
    (auto dest!: StoreExclusive_length [OF sym] LoadExclusive_length [OF sym])

text \<open>
  \<open>rootRetain_run\<close> is \<open>rootRetain\<close> with the part of the script that was not reached: what other threads
  do after the access that decided the call.
\<close>

definition rootRetain_run :: "env \<Rightarrow> u64 \<Rightarrow> bool \<Rightarrow> RRVariant \<Rightarrow> script \<Rightarrow> rt \<Rightarrow> (retval \<times> script \<times> rt) option" where
  "rootRetain_run E this tryRetain variant sc s =
     (if isTaggedPointer E this then Some (Id this, sc, s)
      else
        let (oldisa, sc, s) = LoadExclusive sc this s;
            cls = classes E (getDecodedClass (layout E) oldisa) in
        if variant = FastOrMsgSend \<and> hasCustomRR cls then
          (if canCallSwiftRR cls then Some (ResultOf (SwiftRetain this), sc, s)
           else Some (ResultOf (MsgRetain this), sc, s))
        else if class_object E oldisa then Some (Id this, sc, s)
        else rootRetain_loop E this tryRetain variant sc False oldisa s)"

definition rootRetain :: "env \<Rightarrow> u64 \<Rightarrow> bool \<Rightarrow> RRVariant \<Rightarrow> script \<Rightarrow> rt \<Rightarrow> (retval \<times> rt) option" where
  "rootRetain E this tryRetain variant sc s = do {
     (r, sc, s) \<leftarrow> rootRetain_run E this tryRetain variant sc s;
     Some (r, s) }"

definition rootTryRetain :: "env \<Rightarrow> u64 \<Rightarrow> script \<Rightarrow> rt \<Rightarrow> (bool \<times> rt) option" where
  "rootTryRetain E this sc s = do {
     (r, s) \<leftarrow> rootRetain E this True Fast sc s;
     Some (r \<noteq> Id 0, s) }"

subsection \<open>Releasing\<close>

text \<open>The label \<open>deallocate\<close> of \<open>rootRelease\<close>.\<close>

definition rootRelease_deallocate :: "env \<Rightarrow> u64 \<Rightarrow> bool \<Rightarrow> bool \<Rightarrow> script \<Rightarrow> rt \<Rightarrow>
   (bool \<times> script \<times> rt) option" where
  "rootRelease_deallocate E this performDealloc sideTableLocked sc s = do {
     s \<leftarrow> (if sideTableLocked then sidetable_unlock E this s else Some s);
     Some (True, sc, if performDealloc then s\<lparr>sent := sent s @ [Dealloc this]\<rparr> else s) }"

text \<open>
  The transfer of counts from the side table: the new word after the borrow is stored, at once
  or after one more try on the word another thread left. The result tells whether it was stored
  and whether the object became deallocating.
\<close>

definition rootRelease_borrow ::
  "env \<Rightarrow> u64 \<Rightarrow> u64 \<Rightarrow> bool \<Rightarrow> script \<Rightarrow> u64 \<Rightarrow> rt \<Rightarrow> bool \<times> bool \<times> script \<times> rt" where
  "rootRelease_borrow E this got emptySideTable sc oldisa s =
     (let L = layout E;
          newisa = set_has_sidetable_rc L (\<not> emptySideTable) (set_extra_rc L (got - 1) oldisa) in
      case StoreExclusive sc this newisa s of
        (stored, sc, s) \<Rightarrow>
          if stored then (True, False, sc, s)
          else
            let oldisa = isa_bits s this in
            if nonpointer oldisa then
              (let (newisa, overflow) = addc oldisa (RC_ONE L * (got - 1));
                   newisa = set_has_sidetable_rc L (\<not> emptySideTable) newisa in
               if \<not> overflow then
                 (case StoreExclusive sc this newisa s of
                    (stored, sc, s) \<Rightarrow> (stored, stored \<and> isDeallocating L newisa, sc, s))
               else (False, False, sc, s))
            else (False, False, sc, s))"

lemma rootRelease_borrow_length:
  assumes "rootRelease_borrow E this t e sc oldisa s = (False, d, sc', s')"
  shows "length sc' < length sc"
proof -
  have le: "StoreExclusive sc1 this v s1 = (b, sc2, s2) \<Longrightarrow> length sc2 \<le> length sc1" for sc1 v s1 b sc2 s2
    by (induction sc1 this v s1 rule: StoreExclusive.induct) auto
  show ?thesis
    using assms StoreExclusive_length
    by (fastforce simp: rootRelease_borrow_def Let_def split: prod.splits if_splits dest: le)
qed

function rootRelease_loop ::
  "env \<Rightarrow> u64 \<Rightarrow> bool \<Rightarrow> RRVariant \<Rightarrow> script \<Rightarrow> bool \<Rightarrow> u64 \<Rightarrow> rt \<Rightarrow>
   (bool \<times> script \<times> rt) option" where
  "rootRelease_loop E this performDealloc variant sc sideTableLocked oldisa s =
     (let L = layout E in
      if \<not> nonpointer oldisa then do {
        (r, s) \<leftarrow> sidetable_release E this sideTableLocked performDealloc s;
        Some (r, sc, s) }
      else if isDeallocating L oldisa then do {
        s \<leftarrow> (if sideTableLocked then sidetable_unlock E this s else Some s);
        Some (False, sc, s) }
      else
        let (newisa, carry) = subc oldisa (RC_ONE L) in
        if \<not> carry then
          (case StoreExclusive sc this newisa s of
             (stored, sc, s) \<Rightarrow>
               if \<not> stored then
                 rootRelease_loop E this performDealloc variant sc sideTableLocked (isa_bits s this) s
               else if isDeallocating L newisa then
                 rootRelease_deallocate E this performDealloc sideTableLocked sc s
               else do {
                 s \<leftarrow> (if variant = Full \<and> sideTableLocked then sidetable_unlock E this s else Some s);
                 Some (False, sc, s) })
        else if has_sidetable_rc L oldisa then
          (if variant \<noteq> Full then
             (let (oldisa, sc, s) = LoadExclusive sc this s in
              if class_object E oldisa then Some (False, sc, s)
              else rootRelease_loop E this performDealloc Full sc False oldisa s)
           else if \<not> sideTableLocked then do {
             s \<leftarrow> sidetable_lock E this s;
             let (oldisa, sc, s) = LoadExclusive sc this s;
             rootRelease_loop E this performDealloc Full sc True oldisa s }
           else do {
             (borrow, s) \<leftarrow> sidetable_subExtraRC_nolock E this (RC_HALF L) s;
             let emptySideTable = (remaining borrow = 0);
             if borrowed borrow > 0 then
               (case rootRelease_borrow E this (borrowed borrow) emptySideTable sc oldisa s of
                  (stored, didTransitionToDeallocating, sc, s) \<Rightarrow>
                    if \<not> stored then do {
                      (_, s) \<leftarrow> sidetable_addExtraRC_nolock E this (borrowed borrow) s;
                      let (oldisa, sc, s) = LoadExclusive sc this s;
                      rootRelease_loop E this performDealloc Full sc True oldisa s }
                    else do {
                      s \<leftarrow> (if emptySideTable then sidetable_clearExtraRC_nolock E this s else Some s);
                      if \<not> didTransitionToDeallocating then do {
                        s \<leftarrow> sidetable_unlock E this s;
                        Some (False, sc, s) }
                      else rootRelease_deallocate E this performDealloc True sc s })
             else rootRelease_deallocate E this performDealloc True sc s })
        else rootRelease_deallocate E this performDealloc sideTableLocked sc s)"
  by pat_completeness auto
termination
  by (relation "measure (\<lambda>(E, this, performDealloc, variant, sc, sideTableLocked, _).
        4 * length sc + (if variant = Full then 0 else 2) + (if sideTableLocked then 0 else 1))")
    (auto dest!: StoreExclusive_length [OF sym] LoadExclusive_length [OF sym] rootRelease_borrow_length [OF sym])

definition rootRelease_run :: "env \<Rightarrow> u64 \<Rightarrow> bool \<Rightarrow> RRVariant \<Rightarrow> script \<Rightarrow> rt \<Rightarrow> (bool \<times> script \<times> rt) option" where
  "rootRelease_run E this performDealloc variant sc s =
     (if isTaggedPointer E this then Some (False, sc, s)
      else
        let (oldisa, sc, s) = LoadExclusive sc this s;
            cls = classes E (getDecodedClass (layout E) oldisa) in
        if variant = FastOrMsgSend \<and> hasCustomRR cls then
          Some (True, sc, s\<lparr>sent := sent s @ [if canCallSwiftRR cls then SwiftRelease this else MsgRelease this]\<rparr>)
        else if class_object E oldisa then Some (False, sc, s)
        else rootRelease_loop E this performDealloc variant sc False oldisa s)"

definition rootRelease :: "env \<Rightarrow> u64 \<Rightarrow> bool \<Rightarrow> RRVariant \<Rightarrow> script \<Rightarrow> rt \<Rightarrow> (bool \<times> rt) option" where
  "rootRelease E this performDealloc variant sc s = do {
     (r, sc, s) \<leftarrow> rootRelease_run E this performDealloc variant sc s;
     Some (r, s) }"

definition rootRetainCount :: "env \<Rightarrow> u64 \<Rightarrow> rt \<Rightarrow> (u64 \<times> rt) option" where
  "rootRetainCount E this s =
     (if isTaggedPointer E this then Some (this, s)
      else do {
        s \<leftarrow> sidetable_lock E this s;
        let bits = isa_bits s this;
        if nonpointer bits then do {
          extra \<leftarrow> (if has_sidetable_rc (layout E) bits then sidetable_getExtraRC_nolock E this s else Some 0);
          s \<leftarrow> sidetable_unlock E this s;
          Some (extra_rc (layout E) bits + extra, s) }
        else do {
          s \<leftarrow> sidetable_unlock E this s;
          sidetable_retainCount E this s } })"

subsection \<open>Deallocation\<close>

definition clearDeallocating_slow :: "env \<Rightarrow> u64 \<Rightarrow> rt \<Rightarrow> rt option" where
  "clearDeallocating_slow E this s = do {
     s \<leftarrow> sidetable_lock E this s;
     s \<leftarrow> (if weakly_referenced (layout E) (isa_bits s this) then weak_clear_in E this s else Some s);
     s \<leftarrow> (if has_sidetable_rc (layout E) (isa_bits s this) then do {
             (_, m) \<leftarrow> dm_erase (refcnt_policy E) (disguised this) (refcnts (table_for E this s));
             Some (put_refcnts E this m s) }
           else Some s);
     sidetable_unlock E this s }"

definition clearDeallocating :: "env \<Rightarrow> u64 \<Rightarrow> rt \<Rightarrow> rt option" where
  "clearDeallocating E this s =
     (let L = layout E; isa = isa_bits s this in
      if \<not> nonpointer isa then sidetable_clearDeallocating E this s
      else if weakly_referenced L isa \<or> has_sidetable_rc L isa then clearDeallocating_slow E this s
      else Some s)"

definition rootDealloc :: "env \<Rightarrow> u64 \<Rightarrow> rt \<Rightarrow> rt" where
  "rootDealloc E this s =
     (if isTaggedPointer E this then s
      else
        let L = layout E; isa = isa_bits s this in
        if nonpointer isa \<and> \<not> weakly_referenced L isa \<and> \<not> has_assoc L isa \<and> \<not> hasCxxDtor E this s \<and>
           \<not> has_sidetable_rc L isa
        then s\<lparr>sent := sent s @ [Free this]\<rparr>
        else s\<lparr>sent := sent s @ [Dispose this]\<rparr>)"

end
