(* ===== verification/TaggedPointer.thy ===== *)
theory TaggedPointer
  imports ObjcObject
begin

text \<open>
  Tagged pointer objects (\<open>objc-internal.h\<close>, \<open>getIsa\<close> of \<open>objc-object.h\<close> and the class tables of
  \<open>objc-runtime-new.mm\<close>): small values stored in the pointer itself. The three representations are
  values of the record \<open>tag_config\<close>; \<open>tag_state\<close> holds the global variables: the obfuscator, the
  permutation of the basic tags, the mask that is cleared when tagged pointers are disabled, and
  the class of each slot. Random data is an argument.
\<close>

subsection \<open>Representations\<close>

record tag_config =
  SPLIT_TAGGED_POINTERS :: bool
  MSB_TAGGED_POINTERS :: bool
  OBJC_TAG_SLOT_MASK :: u64
  OBJC_TAG_MASK :: u64
  OBJC_TAG_INDEX_SHIFT :: nat
  OBJC_TAG_SLOT_SHIFT :: nat
  OBJC_TAG_PAYLOAD_LSHIFT :: nat
  OBJC_TAG_PAYLOAD_RSHIFT :: nat
  OBJC_TAG_EXT_MASK :: u64
  OBJC_TAG_EXT_INDEX_SHIFT :: nat
  OBJC_TAG_EXT_SLOT_SHIFT :: nat
  OBJC_TAG_EXT_PAYLOAD_LSHIFT :: nat
  OBJC_TAG_EXT_PAYLOAD_RSHIFT :: nat

definition split_tags :: tag_config where
  "split_tags =
     \<lparr>SPLIT_TAGGED_POINTERS = True, MSB_TAGGED_POINTERS = True, OBJC_TAG_SLOT_MASK = 0x7,
      OBJC_TAG_MASK = push_bit 63 1, OBJC_TAG_INDEX_SHIFT = 0, OBJC_TAG_SLOT_SHIFT = 0,
      OBJC_TAG_PAYLOAD_LSHIFT = 1, OBJC_TAG_PAYLOAD_RSHIFT = 4,
      OBJC_TAG_EXT_MASK = push_bit 63 1 OR 0x7, OBJC_TAG_EXT_INDEX_SHIFT = 55, OBJC_TAG_EXT_SLOT_SHIFT = 55,
      OBJC_TAG_EXT_PAYLOAD_LSHIFT = 9, OBJC_TAG_EXT_PAYLOAD_RSHIFT = 12\<rparr>"

definition msb_tags :: tag_config where
  "msb_tags =
     \<lparr>SPLIT_TAGGED_POINTERS = False, MSB_TAGGED_POINTERS = True, OBJC_TAG_SLOT_MASK = 0xf,
      OBJC_TAG_MASK = push_bit 63 1, OBJC_TAG_INDEX_SHIFT = 60, OBJC_TAG_SLOT_SHIFT = 60,
      OBJC_TAG_PAYLOAD_LSHIFT = 4, OBJC_TAG_PAYLOAD_RSHIFT = 4,
      OBJC_TAG_EXT_MASK = push_bit 60 0xf, OBJC_TAG_EXT_INDEX_SHIFT = 52, OBJC_TAG_EXT_SLOT_SHIFT = 52,
      OBJC_TAG_EXT_PAYLOAD_LSHIFT = 12, OBJC_TAG_EXT_PAYLOAD_RSHIFT = 12\<rparr>"

definition lsb_tags :: tag_config where
  "lsb_tags =
     \<lparr>SPLIT_TAGGED_POINTERS = False, MSB_TAGGED_POINTERS = False, OBJC_TAG_SLOT_MASK = 0xf,
      OBJC_TAG_MASK = 1, OBJC_TAG_INDEX_SHIFT = 1, OBJC_TAG_SLOT_SHIFT = 0,
      OBJC_TAG_PAYLOAD_LSHIFT = 0, OBJC_TAG_PAYLOAD_RSHIFT = 4,
      OBJC_TAG_EXT_MASK = 0xf, OBJC_TAG_EXT_INDEX_SHIFT = 4, OBJC_TAG_EXT_SLOT_SHIFT = 4,
      OBJC_TAG_EXT_PAYLOAD_LSHIFT = 0, OBJC_TAG_EXT_PAYLOAD_RSHIFT = 12\<rparr>"

definition OBJC_TAG_INDEX_MASK :: u64 where "OBJC_TAG_INDEX_MASK = 0x7"
definition OBJC_TAG_EXT_INDEX_MASK :: u64 where "OBJC_TAG_EXT_INDEX_MASK = 0xff"
definition OBJC_TAG_EXT_SLOT_MASK :: u64 where "OBJC_TAG_EXT_SLOT_MASK = 0xff"

definition OBJC_TAG_NO_OBFUSCATION_MASK :: "tag_config \<Rightarrow> u64" where
  "OBJC_TAG_NO_OBFUSCATION_MASK C = push_bit 62 1 OR OBJC_TAG_EXT_MASK C"

definition OBJC_TAG_CONSTANT_POINTER_MASK :: "tag_config \<Rightarrow> u64" where
  "OBJC_TAG_CONSTANT_POINTER_MASK C =
     NOT (OBJC_TAG_EXT_MASK C OR push_bit (OBJC_TAG_EXT_SLOT_SHIFT C) OBJC_TAG_EXT_SLOT_MASK)"

text \<open>Tags are \<open>uint16_t\<close>; the bounds of the two payload sizes and the reserved tag.\<close>

definition OBJC_TAG_First60BitPayload :: nat where "OBJC_TAG_First60BitPayload = 0"
definition OBJC_TAG_Last60BitPayload :: nat where "OBJC_TAG_Last60BitPayload = 6"
definition OBJC_TAG_RESERVED_7 :: nat where "OBJC_TAG_RESERVED_7 = 7"
definition OBJC_TAG_First52BitPayload :: nat where "OBJC_TAG_First52BitPayload = 8"
definition OBJC_TAG_Last52BitPayload :: nat where "OBJC_TAG_Last52BitPayload = 263"
definition OBJC_TAG_FirstUnobfuscatedSplitTag :: nat where "OBJC_TAG_FirstUnobfuscatedSplitTag = 136"

lemmas tag_bounds = OBJC_TAG_First60BitPayload_def OBJC_TAG_Last60BitPayload_def OBJC_TAG_RESERVED_7_def
  OBJC_TAG_First52BitPayload_def OBJC_TAG_Last52BitPayload_def OBJC_TAG_FirstUnobfuscatedSplitTag_def

record tag_state =
  taggedpointer_obfuscator :: u64
  tag60_permutations :: "u64 list"
  taggedpointer_mask :: u64
  tag_classes :: "nat \<Rightarrow> u64"
  tag_ext_classes :: "nat \<Rightarrow> u64"

subsection \<open>Encoding and decoding\<close>

definition basicTagToObfuscatedTag :: "tag_state \<Rightarrow> u64 \<Rightarrow> u64" where
  "basicTagToObfuscatedTag T tag = tag60_permutations T ! unat tag"

function obfuscatedTagToBasicTag_loop :: "u64 list \<Rightarrow> nat \<Rightarrow> u64 \<Rightarrow> u64" where
  "obfuscatedTagToBasicTag_loop perm i tag =
     (if i < 7 then if perm ! i = tag then of_nat i else obfuscatedTagToBasicTag_loop perm (Suc i) tag else 7)"
  by pat_completeness auto
termination by (relation "measure (\<lambda>(perm, i, tag). 7 - i)") auto

declare obfuscatedTagToBasicTag_loop.simps [simp del]

definition obfuscatedTagToBasicTag :: "tag_state \<Rightarrow> u64 \<Rightarrow> u64" where
  "obfuscatedTagToBasicTag T tag = obfuscatedTagToBasicTag_loop (tag60_permutations T) 0 tag"

definition unobfuscated :: "tag_config \<Rightarrow> u64 \<Rightarrow> bool" where
  "unobfuscated C w \<longleftrightarrow> w AND OBJC_TAG_NO_OBFUSCATION_MASK C = OBJC_TAG_NO_OBFUSCATION_MASK C"

definition basic_tag :: "tag_config \<Rightarrow> u64 \<Rightarrow> u64" where
  "basic_tag C w = drop_bit (OBJC_TAG_INDEX_SHIFT C) w AND OBJC_TAG_INDEX_MASK"

definition put_basic_tag :: "tag_config \<Rightarrow> u64 \<Rightarrow> u64 \<Rightarrow> u64" where
  "put_basic_tag C tag w =
     (w AND NOT (push_bit (OBJC_TAG_INDEX_SHIFT C) OBJC_TAG_INDEX_MASK)) OR push_bit (OBJC_TAG_INDEX_SHIFT C) tag"

definition encodeTaggedPointer :: "tag_config \<Rightarrow> tag_state \<Rightarrow> u64 \<Rightarrow> u64" where
  "encodeTaggedPointer C T ptr =
     (let w = taggedpointer_obfuscator T XOR ptr in
      if SPLIT_TAGGED_POINTERS C then
        (if unobfuscated C w then ptr else put_basic_tag C (basicTagToObfuscatedTag T (basic_tag C w)) w)
      else w)"

definition decodeTaggedPointer_noPermute :: "tag_config \<Rightarrow> tag_state \<Rightarrow> u64 \<Rightarrow> u64" where
  "decodeTaggedPointer_noPermute C T ptr =
     (if SPLIT_TAGGED_POINTERS C \<and> unobfuscated C ptr then ptr else ptr XOR taggedpointer_obfuscator T)"

definition decodeTaggedPointer :: "tag_config \<Rightarrow> tag_state \<Rightarrow> u64 \<Rightarrow> u64" where
  "decodeTaggedPointer C T ptr =
     (let w = decodeTaggedPointer_noPermute C T ptr in
      if SPLIT_TAGGED_POINTERS C then put_basic_tag C (obfuscatedTagToBasicTag T (basic_tag C w)) w else w)"

definition taggedPointersEnabled :: "tag_state \<Rightarrow> bool" where
  "taggedPointersEnabled T \<longleftrightarrow> taggedpointer_mask T \<noteq> 0"

text \<open>The tag must be valid: the code assumes it and does not check.\<close>

definition makeTaggedPointer :: "tag_config \<Rightarrow> tag_state \<Rightarrow> nat \<Rightarrow> u64 \<Rightarrow> u64" where
  "makeTaggedPointer C T tag v =
     (if tag \<le> OBJC_TAG_Last60BitPayload then
        encodeTaggedPointer C T
          (OBJC_TAG_MASK C OR push_bit (OBJC_TAG_INDEX_SHIFT C) (of_nat tag)
            OR drop_bit (OBJC_TAG_PAYLOAD_LSHIFT C) (push_bit (OBJC_TAG_PAYLOAD_RSHIFT C) v))
      else
        encodeTaggedPointer C T
          (OBJC_TAG_EXT_MASK C OR push_bit (OBJC_TAG_EXT_INDEX_SHIFT C) (of_nat (tag - OBJC_TAG_First52BitPayload))
            OR drop_bit (OBJC_TAG_EXT_PAYLOAD_LSHIFT C) (push_bit (OBJC_TAG_EXT_PAYLOAD_RSHIFT C) v)))"

definition is_tagged_pointer :: "tag_config \<Rightarrow> u64 \<Rightarrow> bool" where
  "is_tagged_pointer C ptr \<longleftrightarrow> ptr AND OBJC_TAG_MASK C = OBJC_TAG_MASK C"

definition isExtTaggedPointer :: "tag_config \<Rightarrow> tag_state \<Rightarrow> u64 \<Rightarrow> bool" where
  "isExtTaggedPointer C T ptr \<longleftrightarrow>
     decodeTaggedPointer C T ptr AND OBJC_TAG_EXT_MASK C = OBJC_TAG_EXT_MASK C"

definition isBasicTaggedPointer :: "tag_config \<Rightarrow> tag_state \<Rightarrow> u64 \<Rightarrow> bool" where
  "isBasicTaggedPointer C T ptr \<longleftrightarrow> is_tagged_pointer C ptr \<and> \<not> isExtTaggedPointer C T ptr"

definition getTaggedPointerTag :: "tag_config \<Rightarrow> tag_state \<Rightarrow> u64 \<Rightarrow> nat" where
  "getTaggedPointerTag C T ptr =
     (let w = decodeTaggedPointer C T ptr;
          basicTag = basic_tag C w;
          extTag = drop_bit (OBJC_TAG_EXT_INDEX_SHIFT C) w AND OBJC_TAG_EXT_INDEX_MASK in
      if basicTag = OBJC_TAG_INDEX_MASK then unat extTag + OBJC_TAG_First52BitPayload else unat basicTag)"

definition getTaggedPointerValue :: "tag_config \<Rightarrow> tag_state \<Rightarrow> u64 \<Rightarrow> u64" where
  "getTaggedPointerValue C T ptr =
     (let w = decodeTaggedPointer_noPermute C T ptr in
      if basic_tag C w = OBJC_TAG_INDEX_MASK
      then drop_bit (OBJC_TAG_EXT_PAYLOAD_RSHIFT C) (push_bit (OBJC_TAG_EXT_PAYLOAD_LSHIFT C) w)
      else drop_bit (OBJC_TAG_PAYLOAD_RSHIFT C) (push_bit (OBJC_TAG_PAYLOAD_LSHIFT C) w))"

definition getTaggedPointerSignedValue :: "tag_config \<Rightarrow> tag_state \<Rightarrow> u64 \<Rightarrow> u64" where
  "getTaggedPointerSignedValue C T ptr =
     (let w = decodeTaggedPointer_noPermute C T ptr in
      if basic_tag C w = OBJC_TAG_INDEX_MASK
      then signed_drop_bit (OBJC_TAG_EXT_PAYLOAD_RSHIFT C) (push_bit (OBJC_TAG_EXT_PAYLOAD_LSHIFT C) w)
      else signed_drop_bit (OBJC_TAG_PAYLOAD_RSHIFT C) (push_bit (OBJC_TAG_PAYLOAD_LSHIFT C) w))"

definition getTaggedPointerRawPointerValue :: "tag_config \<Rightarrow> u64 \<Rightarrow> u64" where
  "getTaggedPointerRawPointerValue C ptr = ptr AND OBJC_TAG_CONSTANT_POINTER_MASK C"

subsection \<open>Start of the process\<close>

definition tag_state_initial :: "tag_config \<Rightarrow> tag_state" where
  "tag_state_initial C =
     \<lparr>taggedpointer_obfuscator = 0, tag60_permutations = [0, 1, 2, 3, 4, 5, 6, 7],
      taggedpointer_mask = OBJC_TAG_MASK C, tag_classes = \<lambda>_. 0, tag_ext_classes = \<lambda>_. 0\<rparr>"

definition disableTaggedPointers :: "tag_state \<Rightarrow> tag_state" where
  "disableTaggedPointers T = T\<lparr>taggedpointer_mask := 0\<rparr>"

text \<open>The shuffle of the first \<open>n\<close> tags; \<open>uniform\<close> stands for \<open>arc4random_uniform\<close>.\<close>

fun shuffle_tags :: "(nat \<Rightarrow> nat) \<Rightarrow> nat \<Rightarrow> u64 list \<Rightarrow> u64 list" where
  "shuffle_tags uniform 0 perm = perm"
| "shuffle_tags uniform (Suc i) perm =
     (let target = uniform (Suc i) in
      shuffle_tags uniform i (perm[i := perm ! target, target := perm ! i]))"

definition initializeTaggedPointerObfuscator ::
  "tag_config \<Rightarrow> bool \<Rightarrow> u64 \<Rightarrow> (nat \<Rightarrow> nat) \<Rightarrow> tag_state \<Rightarrow> tag_state" where
  "initializeTaggedPointerObfuscator C obfuscate random uniform T =
     (if obfuscate then
        let obf = random AND NOT (OBJC_TAG_MASK C) in
        if SPLIT_TAGGED_POINTERS C then
          T\<lparr>taggedpointer_obfuscator := obf AND NOT (OBJC_TAG_EXT_MASK C OR OBJC_TAG_NO_OBFUSCATION_MASK C),
            tag60_permutations := shuffle_tags uniform 7 (tag60_permutations T)\<rparr>
        else T\<lparr>taggedpointer_obfuscator := obf\<rparr>
      else T\<lparr>taggedpointer_obfuscator := 0\<rparr>)"

subsection \<open>Classes of tagged pointers\<close>

datatype class_slot = BasicSlot nat | ExtSlot nat

definition slot_class :: "tag_state \<Rightarrow> class_slot \<Rightarrow> u64" where
  "slot_class T sl = (case sl of BasicSlot i \<Rightarrow> tag_classes T i | ExtSlot i \<Rightarrow> tag_ext_classes T i)"

definition set_slot_class :: "class_slot \<Rightarrow> u64 \<Rightarrow> tag_state \<Rightarrow> tag_state" where
  "set_slot_class sl cls T =
     (case sl of BasicSlot i \<Rightarrow> T\<lparr>tag_classes := (tag_classes T)(i := cls)\<rparr>
      | ExtSlot i \<Rightarrow> T\<lparr>tag_ext_classes := (tag_ext_classes T)(i := cls)\<rparr>)"

definition classSlotForBasicTagIndex :: "tag_config \<Rightarrow> tag_state \<Rightarrow> nat \<Rightarrow> class_slot" where
  "classSlotForBasicTagIndex C T tag =
     (if SPLIT_TAGGED_POINTERS C then BasicSlot (unat (basicTagToObfuscatedTag T (of_nat tag)))
      else
        let tagObfuscator = drop_bit (OBJC_TAG_INDEX_SHIFT C) (taggedpointer_obfuscator T) AND OBJC_TAG_INDEX_MASK;
            obfuscatedTag = of_nat tag XOR tagObfuscator in
        if MSB_TAGGED_POINTERS C then BasicSlot (unat (0x8 OR obfuscatedTag))
        else BasicSlot (unat (push_bit 1 obfuscatedTag OR 1)))"

definition classSlotForTagIndex :: "tag_config \<Rightarrow> tag_state \<Rightarrow> nat \<Rightarrow> class_slot option" where
  "classSlotForTagIndex C T tag =
     (if OBJC_TAG_First60BitPayload \<le> tag \<and> tag \<le> OBJC_TAG_Last60BitPayload
      then Some (classSlotForBasicTagIndex C T tag)
      else if OBJC_TAG_First52BitPayload \<le> tag \<and> tag \<le> OBJC_TAG_Last52BitPayload then
        (let index = tag - OBJC_TAG_First52BitPayload in
         if SPLIT_TAGGED_POINTERS C \<and> OBJC_TAG_FirstUnobfuscatedSplitTag \<le> tag then Some (ExtSlot index)
         else
           let tagObfuscator =
                 drop_bit (OBJC_TAG_EXT_INDEX_SHIFT C) (taggedpointer_obfuscator T) AND OBJC_TAG_EXT_INDEX_MASK in
           Some (ExtSlot (unat (of_nat index XOR tagObfuscator))))
      else None)"

text \<open>\<open>unrecognized\<close> is the address of the class \<open>__NSUnrecognizedTaggedPointer\<close>; aborting is \<open>None\<close>.\<close>

definition registerTaggedPointerClass ::
  "tag_config \<Rightarrow> u64 \<Rightarrow> nat \<Rightarrow> u64 \<Rightarrow> tag_state \<Rightarrow> tag_state option" where
  "registerTaggedPointerClass C unrecognized tag cls T =
     (if taggedpointer_mask T = 0 then None
      else case classSlotForTagIndex C T tag of
        None \<Rightarrow> None
      | Some sl \<Rightarrow>
          let oldCls = slot_class T sl in
          if cls \<noteq> 0 \<and> oldCls \<noteq> 0 \<and> cls \<noteq> oldCls then None
          else
            let T = set_slot_class sl cls T in
            if tag < OBJC_TAG_First60BitPayload \<or> OBJC_TAG_Last60BitPayload < tag then
              (let extSlot = classSlotForBasicTagIndex C T OBJC_TAG_RESERVED_7 in
               if slot_class T extSlot = 0 then Some (set_slot_class extSlot unrecognized T) else Some T)
            else Some T)"

definition getClassForTag :: "tag_config \<Rightarrow> tag_state \<Rightarrow> nat \<Rightarrow> u64" where
  "getClassForTag C T tag =
     (case classSlotForTagIndex C T tag of None \<Rightarrow> 0 | Some sl \<Rightarrow> slot_class T sl)"

text \<open>The class of any object, tagged or not; \<open>isa\<close> stands for \<open>ISA()\<close>, which differs between builds.\<close>

definition getIsa :: "tag_config \<Rightarrow> u64 \<Rightarrow> tag_state \<Rightarrow> (u64 \<Rightarrow> u64) \<Rightarrow> u64 \<Rightarrow> u64" where
  "getIsa C unrecognized T isa ptr =
     (if \<not> is_tagged_pointer C ptr then isa ptr
      else
        let cls = tag_classes T (unat (drop_bit (OBJC_TAG_SLOT_SHIFT C) ptr AND OBJC_TAG_SLOT_MASK C)) in
        if cls = unrecognized
        then tag_ext_classes T (unat (drop_bit (OBJC_TAG_EXT_SLOT_SHIFT C) ptr AND OBJC_TAG_EXT_SLOT_MASK))
        else cls)"

end
