(* ===== verification/SideTableProofs.thy ===== *)
theory SideTableProofs
  imports SideTable
begin

text \<open>
  The side tables as a function from objects to count words. Every operation on the count table
  is used through the locale \<open>counter_table\<close>, which extends the interface \<open>ref_table\<close> of
  \<open>DenseMapSpec\<close> by \<open>try_emplace\<close>; what the operations do to the whole runtime state is stated
  with \<open>counts\<close> (the count word of every object) and \<open>frame\<close> (everything else is unchanged).
\<close>

subsection \<open>Count tables with emplacement\<close>

locale counter_table = ref_table +
  fixes emplace :: "'k \<Rightarrow> 'v \<Rightarrow> 'm \<Rightarrow> (nat option \<times> bool \<times> 'm) option"
  assumes emplace_law: "ok m \<Longrightarrow> room m \<Longrightarrow> key k \<Longrightarrow>
      \<exists>b inserted m'. emplace k v m = Some (Some b, inserted, m') \<and> at m' k b \<and>
        (inserted \<longrightarrow> view m k = dflt \<and> ok m' \<and> view m' = (view m)(k := v)) \<and> (\<not> inserted \<longrightarrow> m' = m)"
    and find_again_law: "at m k b \<Longrightarrow> \<exists>i. find k m = Some i \<and> i \<noteq> endp m \<and> at m k i"
    and subscript_again_law: "at m k b \<Longrightarrow> \<exists>i. subscript k m = Some (i, m) \<and> at m k i"
begin

text \<open>A count that is missing and a count of zero are treated alike by every client.\<close>

lemma emplace_or_update:
  assumes "ok m" and "room m" and "key k"
  obtains b inserted m' where "emplace k v m = Some (Some b, inserted, m')"
    and "inserted \<Longrightarrow> view m k = dflt \<and> ok m' \<and> view m' = (view m)(k := v)"
    and "\<not> inserted \<Longrightarrow> m' = m \<and> deref m b = view m k"
    and "\<And>w. \<not> inserted \<Longrightarrow> ok (assign m b w) \<and> view (assign m b w) = (view m)(k := w)"
proof -
  obtain b inserted m' where e: "emplace k v m = Some (Some b, inserted, m')" "at m' k b"
    "inserted \<longrightarrow> view m k = dflt \<and> ok m' \<and> view m' = (view m)(k := v)" "\<not> inserted \<longrightarrow> m' = m"
    using emplace_law [OF assms] by blast
  show ?thesis
  proof (rule that [OF e(1)])
    show "inserted \<Longrightarrow> view m k = dflt \<and> ok m' \<and> view m' = (view m)(k := v)" using e(3) by simp
    show "\<not> inserted \<Longrightarrow> m' = m \<and> deref m b = view m k" using e(2,4) deref_law by auto
    show "\<And>w. \<not> inserted \<Longrightarrow> ok (assign m b w) \<and> view (assign m b w) = (view m)(k := w)"
      using e(2,4) assign_law by auto
  qed
qed

end

interpretation cnt: counter_table "dm_inv (RefcountMap_policy fresh)" "\<lambda>m. NumBuckets m < 2 ^ 30"
  "valid_key (RefcountMap_policy fresh)" "dm_view (RefcountMap_policy fresh)" "0 :: u64"
  "refers (RefcountMap_policy fresh)" "FindAndConstruct (RefcountMap_policy fresh)" getSecond setSecond
  "dm_find (RefcountMap_policy fresh)" dm_end "dm_erase_iterator (RefcountMap_policy fresh)"
  "try_emplace (RefcountMap_policy fresh)" for fresh
proof unfold_locales
  fix m k v
  let ?P = "RefcountMap_policy fresh"
  assume a: "dm_inv ?P m" "NumBuckets m < 2 ^ 30" "valid_key ?P k"
  show "\<exists>b inserted m'. try_emplace ?P k v m = Some (Some b, inserted, m') \<and> refers ?P m' k b \<and>
      (inserted \<longrightarrow> dm_view ?P m k = 0 \<and> dm_inv ?P m' \<and> dm_view ?P m' = (dm_view ?P m)(k := v)) \<and>
      (\<not> inserted \<longrightarrow> m' = m)"
  proof (cases "dm_map ?P m k")
    case None
    obtain b m' where e: "try_emplace ?P k v m = Some (Some b, True, m')" "dm_inv ?P m'" "b < NumBuckets m'"
      "Buckets m' ! b = (k, v)" "purge_le ?P ((dm_map ?P m)(k \<mapsto> v)) (dm_map ?P m')"
      using refs.try_emplace_absent [OF a(1,3) None a(2)] by blast
    have "dm_view ?P m' = (\<lambda>j. case ((dm_map ?P m)(k \<mapsto> v)) j of None \<Rightarrow> valueInit ?P | Some v \<Rightarrow> v)"
      using e(5) by (rule refs.view_purge) simp
    then have "dm_view ?P m' = (dm_view ?P m)(k := v)" by (auto simp: dm_view_def fun_eq_iff)
    with e a(3) None show ?thesis by (auto simp: refers_def dm_view_def)
  next
    case (Some w)
    with refs.try_emplace_present [OF a(1) Some, of v] a show ?thesis by (auto simp: refers_def)
  qed
next
  fix m k b
  let ?P = "RefcountMap_policy fresh"
  assume r: "refers ?P m k b"
  then have "dm_inv ?P m" "valid_key ?P k" by (simp_all add: refers_def)
  from refs.dm_find_spec [OF this] refs.refers_map [OF r] this
  show "\<exists>i. dm_find ?P k m = Some i \<and> i \<noteq> dm_end m \<and> refers ?P m k i"
    by (auto simp: refers_def dm_end_def)
next
  fix m k b
  let ?P = "RefcountMap_policy fresh"
  assume r: "refers ?P m k b"
  then have i: "dm_inv ?P m" "valid_key ?P k" by (simp_all add: refers_def)
  from refs.lookup_present [OF i(1) refs.refers_map [OF r]] i
  show "\<exists>i. FindAndConstruct ?P k m = Some (i, m) \<and> refers ?P m k i"
    by (auto simp: refers_def FindAndConstruct_def)
qed

subsection \<open>The state seen through the counts\<close>

definition counts :: "env \<Rightarrow> rt \<Rightarrow> u64 \<Rightarrow> u64" where
  "counts E s obj = dm_view (refcnt_policy E) (refcnts (table_for E obj s)) (disguised obj)"

definition weaks :: "env \<Rightarrow> rt \<Rightarrow> u64 \<Rightarrow> u64 multiset" where
  "weaks E s obj = weak_view (weak_table (table_for E obj s)) obj"

definition st_ok :: "env \<Rightarrow> rt \<Rightarrow> bool" where
  "st_ok E s \<longleftrightarrow> (\<forall>i. dm_inv (refcnt_policy E) (refcnts (SideTables s i)) \<and> wt_inv (weak_table (SideTables s i)))"

definition st_room :: "env \<Rightarrow> rt \<Rightarrow> bool" where
  "st_room E s \<longleftrightarrow> (\<forall>i. NumBuckets (refcnts (SideTables s i)) < 2 ^ 30)"

definition obj_addr :: "u64 \<Rightarrow> bool" where
  "obj_addr obj \<longleftrightarrow> obj \<noteq> 0 \<and> obj \<noteq> -1 \<and> obj \<noteq> -2"

definition frame :: "rt \<Rightarrow> rt \<Rightarrow> bool" where
  "frame s s' \<longleftrightarrow> isa_bits s' = isa_bits s \<and> vars s' = vars s \<and> sent s' = sent s \<and>
     (\<forall>i. slock (SideTables s' i) = slock (SideTables s i) \<and>
          weak_table (SideTables s' i) = weak_table (SideTables s i))"

lemma frame_refl [simp]: "frame s s"
  by (simp add: frame_def)

lemma frame_trans [trans]: "frame s s' \<Longrightarrow> frame s' s'' \<Longrightarrow> frame s s''"
  by (simp add: frame_def)

lemma obj_addr_key: "obj_addr obj \<Longrightarrow> valid_key (refcnt_policy E) (disguised obj)"
  by (simp add: obj_addr_def valid_key_RefcountMap)

lemma put_refcnts_frame: "frame s (put_refcnts E obj m s)"
  by (simp add: frame_def put_refcnts_def put_table_def table_for_def)

lemma put_refcnts_counts:
  assumes "dm_view (refcnt_policy E) m = (dm_view (refcnt_policy E) (refcnts (table_for E obj s)))(disguised obj := w)"
  shows "counts E (put_refcnts E obj m s) = (counts E s)(obj := w)"
  using assms by (auto simp: counts_def put_refcnts_def put_table_def table_for_def fun_eq_iff)

lemma put_refcnts_ok:
  assumes "st_ok E s" and "dm_inv (refcnt_policy E) m"
  shows "st_ok E (put_refcnts E obj m s)"
  using assms by (auto simp: st_ok_def put_refcnts_def put_table_def table_for_def)

lemma st_okD: "st_ok E s \<Longrightarrow> dm_inv (refcnt_policy E) (refcnts (table_for E obj s))"
  "st_ok E s \<Longrightarrow> wt_inv (weak_table (table_for E obj s))"
  by (simp_all add: st_ok_def table_for_def)

lemma st_roomD: "st_room E s \<Longrightarrow> NumBuckets (refcnts (table_for E obj s)) < 2 ^ 30"
  by (simp add: st_room_def table_for_def)

text \<open>Storing a table whose counts differ for one object only.\<close>

lemma put_refcnts_spec:
  assumes "st_ok E s" and "dm_inv (refcnt_policy E) m"
    and "dm_view (refcnt_policy E) m = (dm_view (refcnt_policy E) (refcnts (table_for E obj s)))(disguised obj := w)"
  shows "st_ok E (put_refcnts E obj m s)" "frame s (put_refcnts E obj m s)"
    "counts E (put_refcnts E obj m s) = (counts E s)(obj := w)"
  using put_refcnts_ok [OF assms(1,2)] put_refcnts_frame put_refcnts_counts [OF assms(3)] by blast+

lemma subscript_count:
  assumes "st_ok E s" and "st_room E s" and "obj_addr obj"
  obtains b m where "FindAndConstruct (refcnt_policy E) (disguised obj) (refcnts (table_for E obj s)) = Some (b, m)"
    and "getSecond m b = counts E s obj"
    and "\<And>w. st_ok E (put_refcnts E obj (setSecond m b w) s)"
    and "\<And>w. frame s (put_refcnts E obj (setSecond m b w) s)"
    and "\<And>w. counts E (put_refcnts E obj (setSecond m b w) s) = (counts E s)(obj := w)"
    and "st_ok E (put_refcnts E obj m s)" and "frame s (put_refcnts E obj m s)"
    and "counts E (put_refcnts E obj m s) = counts E s"
proof -
  let ?m = "refcnts (table_for E obj s)" and ?k = "disguised obj"
  note k = obj_addr_key [OF assms(3), of E]
  obtain b m where s: "FindAndConstruct (refcnt_policy E) ?k ?m = Some (b, m)" "dm_inv (refcnt_policy E) m"
    "refers (refcnt_policy E) m ?k b" "dm_view (refcnt_policy E) m = dm_view (refcnt_policy E) ?m"
    using rc.subscript_law [OF st_okD(1) [OF assms(1)] st_roomD [OF assms(2)] k] by blast
  note a = rc.assign_law [OF s(3)]
  have "dm_view (refcnt_policy E) m = (dm_view (refcnt_policy E) ?m)(?k := counts E s obj)"
    by (simp add: s(4) counts_def fun_eq_iff)
  from put_refcnts_spec [OF assms(1) s(2) this] have same: "st_ok E (put_refcnts E obj m s)"
    "frame s (put_refcnts E obj m s)" "counts E (put_refcnts E obj m s) = counts E s" by simp_all
  have upd: "st_ok E (put_refcnts E obj (setSecond m b w) s)"
    "frame s (put_refcnts E obj (setSecond m b w) s)"
    "counts E (put_refcnts E obj (setSecond m b w) s) = (counts E s)(obj := w)" for w
    using put_refcnts_spec [OF assms(1), of "setSecond m b w" obj w] a [of w] s(4) by simp_all
  have "getSecond m b = counts E s obj" using rc.deref_law [OF s(3)] s(4) by (simp add: counts_def)
  then show ?thesis using that [OF s(1) _ upd same] by blast
qed

lemma find_count:
  assumes "st_ok E s" and "obj_addr obj"
  obtains (missing) "dm_find (refcnt_policy E) (disguised obj) (refcnts (table_for E obj s))
        = Some (dm_end (refcnts (table_for E obj s)))" and "counts E s obj = 0"
    | (found) it m' where "dm_find (refcnt_policy E) (disguised obj) (refcnts (table_for E obj s)) = Some it"
      and "it \<noteq> dm_end (refcnts (table_for E obj s))"
      and "getSecond (refcnts (table_for E obj s)) it = counts E s obj"
      and "\<And>w. st_ok E (put_refcnts E obj (setSecond (refcnts (table_for E obj s)) it w) s)"
      and "\<And>w. counts E (put_refcnts E obj (setSecond (refcnts (table_for E obj s)) it w) s) = (counts E s)(obj := w)"
      and "dm_erase_iterator (refcnt_policy E) it (refcnts (table_for E obj s)) = Some m'"
      and "dm_inv (refcnt_policy E) m'"
      and "dm_view (refcnt_policy E) m' = (dm_view (refcnt_policy E) (refcnts (table_for E obj s)))(disguised obj := 0)"
proof -
  let ?m = "refcnts (table_for E obj s)" and ?k = "disguised obj"
  note k = obj_addr_key [OF assms(2), of E]
  obtain it where it: "dm_find (refcnt_policy E) ?k ?m = Some it"
    "it = dm_end ?m \<longrightarrow> dm_view (refcnt_policy E) ?m ?k = 0" "it \<noteq> dm_end ?m \<longrightarrow> refers (refcnt_policy E) ?m ?k it"
    using rc.find_law [OF st_okD(1) [OF assms(1)] k] by blast
  show ?thesis
  proof (cases "it = dm_end ?m")
    case True
    with it missing show ?thesis by (simp add: counts_def)
  next
    case False
    with it(3) have r: "refers (refcnt_policy E) ?m ?k it" by simp
    obtain m' where e: "dm_erase_iterator (refcnt_policy E) it ?m = Some m'" "dm_inv (refcnt_policy E) m'"
      "dm_view (refcnt_policy E) m' = (dm_view (refcnt_policy E) ?m)(?k := 0)"
      using rc.erase_law [OF r] by blast
    from found [OF it(1) False _ _ _ e] rc.deref_law [OF r] rc.assign_law [OF r] put_refcnts_spec [OF assms(1)]
    show ?thesis by (simp add: counts_def)
  qed
qed


lemma emplace_count:
  assumes "st_ok E s" and "st_room E s" and "obj_addr obj"
  obtains (inserted) b m where
      "try_emplace (refcnt_policy E) (disguised obj) v (refcnts (table_for E obj s)) = Some (Some b, True, m)"
      and "counts E s obj = 0" and "st_ok E (put_refcnts E obj m s)"
      and "counts E (put_refcnts E obj m s) = (counts E s)(obj := v)"
    | (present) b where
      "try_emplace (refcnt_policy E) (disguised obj) v (refcnts (table_for E obj s))
         = Some (Some b, False, refcnts (table_for E obj s))"
      and "getSecond (refcnts (table_for E obj s)) b = counts E s obj"
      and "\<And>w. st_ok E (put_refcnts E obj (setSecond (refcnts (table_for E obj s)) b w) s)"
      and "\<And>w. counts E (put_refcnts E obj (setSecond (refcnts (table_for E obj s)) b w) s) = (counts E s)(obj := w)"
      and "put_refcnts E obj (refcnts (table_for E obj s)) s = s"
proof -
  let ?m = "refcnts (table_for E obj s)" and ?k = "disguised obj"
  obtain b ins m where e: "try_emplace (refcnt_policy E) ?k v ?m = Some (Some b, ins, m)"
    "ins \<Longrightarrow> dm_view (refcnt_policy E) ?m ?k = 0 \<and> dm_inv (refcnt_policy E) m \<and>
       dm_view (refcnt_policy E) m = (dm_view (refcnt_policy E) ?m)(?k := v)"
    "\<not> ins \<Longrightarrow> m = ?m \<and> getSecond ?m b = dm_view (refcnt_policy E) ?m ?k"
    "\<And>w. \<not> ins \<Longrightarrow> dm_inv (refcnt_policy E) (setSecond ?m b w) \<and>
       dm_view (refcnt_policy E) (setSecond ?m b w) = (dm_view (refcnt_policy E) ?m)(?k := w)"
    using cnt.emplace_or_update [OF st_okD(1) [OF assms(1)] st_roomD [OF assms(2)] obj_addr_key [OF assms(3)]]
    by blast
  show ?thesis
  proof (cases ins)
    case True
    with e(1,2) show ?thesis using inserted [of b m] put_refcnts_spec [OF assms(1), of m obj v]
      by (simp add: counts_def)
  next
    case False
    have "put_refcnts E obj ?m s = s"
      by (simp add: put_refcnts_def put_table_def table_for_def)
    moreover have "st_ok E (put_refcnts E obj (setSecond ?m b w) s)"
      "counts E (put_refcnts E obj (setSecond ?m b w) s) = (counts E s)(obj := w)" for w
      using put_refcnts_spec [OF assms(1), of "setSecond ?m b w" obj w] e(4) [OF False, of w] by simp_all
    ultimately show ?thesis using False e(1,3) present [of b] by (simp add: counts_def)
  qed
qed


subsection \<open>Locks\<close>

definition locked :: "env \<Rightarrow> u64 \<Rightarrow> rt \<Rightarrow> bool" where
  "locked E obj s \<longleftrightarrow> slock (table_for E obj s)"

definition set_slock :: "env \<Rightarrow> u64 \<Rightarrow> bool \<Rightarrow> rt \<Rightarrow> rt" where
  "set_slock E obj b s = put_table E obj ((table_for E obj s)\<lparr>slock := b\<rparr>) s"

lemma lock_eq: "sidetable_lock E obj s = (if locked E obj s then None else Some (set_slock E obj True s))"
  by (simp add: sidetable_lock_def SideTable_lock_def locked_def set_slock_def)

lemma unlock_eq: "sidetable_unlock E obj s = (if locked E obj s then Some (set_slock E obj False s) else None)"
  by (simp add: sidetable_unlock_def SideTable_unlock_def locked_def set_slock_def)

lemma set_slock_simps [simp]:
  "isa_bits (set_slock E obj b s) = isa_bits s" "vars (set_slock E obj b s) = vars s"
  "sent (set_slock E obj b s) = sent s" "locked E obj (set_slock E obj b s) = b"
  "refcnts (table_for E o' (set_slock E obj b s)) = refcnts (table_for E o' s)"
  "weak_table (table_for E o' (set_slock E obj b s)) = weak_table (table_for E o' s)"
  "st_ok E (set_slock E obj b s) = st_ok E s" "st_room E (set_slock E obj b s) = st_room E s"
  by (auto simp: set_slock_def put_table_def table_for_def locked_def st_ok_def st_room_def)

lemma counts_set_slock [simp]: "counts E (set_slock E obj b s) = counts E s"
  by (simp add: counts_def fun_eq_iff)

lemma weaks_set_slock [simp]: "weaks E (set_slock E obj b s) = weaks E s"
  by (simp add: weaks_def fun_eq_iff)

lemma slock_same: "slock t = b \<Longrightarrow> t\<lparr>slock := b\<rparr> = t"
  by (simp add: SideTable.equality)

lemma set_slock_id: "\<not> locked E obj s \<Longrightarrow> set_slock E obj False (set_slock E obj b s) = s"
  by (simp add: set_slock_def put_table_def table_for_def locked_def slock_same)

lemma frame_unlock:
  assumes "\<not> locked E obj s" and "frame (set_slock E obj True s) s'"
  shows "frame s (set_slock E obj False s')" and "locked E obj s'"
  using assms by (auto simp: frame_def set_slock_def put_table_def table_for_def locked_def split: if_splits)

lemma frame_unlock_locked:
  assumes "locked E obj s" and "frame s s'"
  shows "frame (set_slock E obj False s) (set_slock E obj False s')" and "locked E obj s'"
  using assms by (auto simp: frame_def set_slock_def put_table_def table_for_def locked_def)

lemma locked_frame: "frame s s' \<Longrightarrow> locked E obj s' = locked E obj s"
  by (simp add: frame_def locked_def table_for_def)

lemma weaks_frame: "frame s s' \<Longrightarrow> weaks E s' = weaks E s"
  by (simp add: frame_def weaks_def table_for_def fun_eq_iff)

subsection \<open>Count words\<close>

lemma has_flag_bit: "n < 64 \<Longrightarrow> has_flag c (push_bit n 1) \<longleftrightarrow> bit c n"
  by (simp add: has_flag_def push_bit_eq_mult and_exp_eq_0_iff_not_bit)

lemma pinned_iff: "has_flag c SIDE_TABLE_RC_PINNED \<longleftrightarrow> bit c 63"
  unfolding SIDE_TABLE_RC_PINNED_def by (rule has_flag_bit) simp

lemma deallocating_iff: "has_flag c SIDE_TABLE_DEALLOCATING \<longleftrightarrow> bit c 1"
  unfolding SIDE_TABLE_DEALLOCATING_def by (rule has_flag_bit) simp

lemma weak_flag_iff: "has_flag c SIDE_TABLE_WEAKLY_REFERENCED \<longleftrightarrow> bit c 0"
  unfolding SIDE_TABLE_WEAKLY_REFERENCED_def by (rule has_flag_bit) simp

lemma bit_63_iff: "bit (c :: u64) 63 \<longleftrightarrow> 2 ^ 63 \<le> unat c"
proof -
  have "bit c 63 \<longleftrightarrow> bit (unat c) 63" by (simp add: bit_unsigned_iff)
  then have "bit c 63 \<longleftrightarrow> odd (unat c div 2 ^ 63)" by (simp only: bit_iff_odd)
  moreover have "unat c div 2 ^ 63 < 2" using unat_less_64 [of c] by (simp add: less_mult_imp_div_less)
  ultimately show ?thesis by (cases "unat c div 2 ^ 63 = 0") (auto simp: div_eq_0_iff not_less elim: less_2_cases)
qed

lemma unat_shift2: "unat d < 2 ^ 62 \<Longrightarrow> unat (push_bit SIDE_TABLE_RC_SHIFT (d :: u64)) = 4 * unat d"
  by (simp add: SIDE_TABLE_RC_SHIFT_def push_bit_eq_mult unat_word_ariths(2))


subsection \<open>The operations of objects with a packed isa\<close>

lemma addExtraRC_spec:
  assumes "st_ok E s" and "st_room E s" and "obj_addr obj"
    and fits: "unat (counts E s obj) + 4 * unat d < 2 ^ 63"
  shows "\<exists>s'. sidetable_addExtraRC_nolock E obj d s = Some (False, s') \<and> st_ok E s' \<and> frame s s' \<and>
    counts E s' = (counts E s)(obj := counts E s obj + push_bit SIDE_TABLE_RC_SHIFT d)"
proof -
  obtain b m where bm: "FindAndConstruct (refcnt_policy E) (disguised obj) (refcnts (table_for E obj s)) = Some (b, m)"
    "getSecond m b = counts E s obj" and upd: "\<And>w. st_ok E (put_refcnts E obj (setSecond m b w) s)"
    "\<And>w. frame s (put_refcnts E obj (setSecond m b w) s)"
    "\<And>w. counts E (put_refcnts E obj (setSecond m b w) s) = (counts E s)(obj := w)"
    using subscript_count [OF assms(1-3)] by metis
  have "\<not> bit (counts E s obj) 63" using fits by (simp add: bit_63_iff)
  moreover have "\<not> snd (addc (counts E s obj) (push_bit SIDE_TABLE_RC_SHIFT d))"
    using fits by (simp add: addc_def unat_shift2)
  ultimately show ?thesis
    using bm upd by (auto simp: sidetable_addExtraRC_nolock_def pinned_iff addc_def Let_def)
qed

definition present :: "env \<Rightarrow> u64 \<Rightarrow> rt \<Rightarrow> bool" where
  "present E obj s \<longleftrightarrow> (\<exists>b. refers (refcnt_policy E) (refcnts (table_for E obj s)) (disguised obj) b)"

lemma st_room_setSecond:
  "st_room E s \<Longrightarrow> st_room E (put_refcnts E obj (setSecond (refcnts (table_for E obj s)) b w) s)"
  by (auto simp: st_room_def put_refcnts_def put_table_def table_for_def setSecond_def)

lemma subExtraRC_spec:
  fixes d :: u64
  assumes "st_ok E s" and "obj_addr obj" and "counts E s obj \<noteq> 0"
  defines "c \<equiv> counts E s obj - push_bit SIDE_TABLE_RC_SHIFT d"
  shows "\<exists>s'. sidetable_subExtraRC_nolock E obj d s
      = Some (\<lparr>borrowed = d, remaining = drop_bit SIDE_TABLE_RC_SHIFT c\<rparr>, s') \<and>
    st_ok E s' \<and> frame s s' \<and> counts E s' = (counts E s)(obj := c) \<and> present E obj s' \<and>
    (st_room E s \<longrightarrow> st_room E s')"
proof (cases rule: find_count [OF assms(1,2)])
  case 1
  with assms(3) show ?thesis by simp
next
  case (2 it m')
  let ?m = "refcnts (table_for E obj s)"
  let ?s = "put_refcnts E obj (setSecond ?m it c) s"
  have "refers (refcnt_policy E) ?m (disguised obj) it"
    using rc.find_law [OF st_okD(1) [OF assms(1), of obj] obj_addr_key [OF assms(2)]] 2(1,2) by auto
  then have "refers (refcnt_policy E) (setSecond ?m it c) (disguised obj) it"
    using rc.assign_law by blast
  then have "present E obj ?s"
    by (auto simp: present_def put_refcnts_def put_table_def table_for_def)
  with 2 assms(3) show ?thesis
    by (auto simp: sidetable_subExtraRC_nolock_def c_def Let_def put_refcnts_frame st_room_setSecond)
qed

text \<open>Adding to a count that is present does not allocate.\<close>

lemma addExtraRC_present:
  assumes "st_ok E s" and "present E obj s" and fits: "unat (counts E s obj) + 4 * unat d < 2 ^ 63"
  shows "\<exists>s'. sidetable_addExtraRC_nolock E obj d s = Some (False, s') \<and> st_ok E s' \<and> frame s s' \<and>
    counts E s' = (counts E s)(obj := counts E s obj + push_bit SIDE_TABLE_RC_SHIFT d) \<and>
    (st_room E s \<longrightarrow> st_room E s')"
proof -
  let ?m = "refcnts (table_for E obj s)"
  obtain b where b: "FindAndConstruct (refcnt_policy E) (disguised obj) ?m = Some (b, ?m)"
    "refers (refcnt_policy E) ?m (disguised obj) b"
    using assms(2) cnt.subscript_again_law unfolding present_def by blast
  let ?w = "counts E s obj + push_bit SIDE_TABLE_RC_SHIFT d"
  have "dm_inv (refcnt_policy E) (setSecond ?m b ?w)"
    "dm_view (refcnt_policy E) (setSecond ?m b ?w) = (dm_view (refcnt_policy E) ?m)(disguised obj := ?w)"
    using rc.assign_law [OF b(2)] by blast+
  note u = put_refcnts_spec [OF assms(1) this]
  have "\<not> bit (counts E s obj) 63" using fits by (simp add: bit_63_iff)
  moreover have "\<not> snd (addc (counts E s obj) (push_bit SIDE_TABLE_RC_SHIFT d))"
    using fits by (simp add: addc_def unat_shift2)
  moreover have "getSecond ?m b = counts E s obj" using rc.deref_law [OF b(2)] by (simp add: counts_def)
  ultimately show ?thesis
    using b(1) u by (auto simp: sidetable_addExtraRC_nolock_def pinned_iff addc_def Let_def st_room_setSecond)
qed

lemma clearExtraRC_spec:
  assumes "st_ok E s" and "obj_addr obj" and "present E obj s"
  shows "\<exists>s'. sidetable_clearExtraRC_nolock E obj s = Some s' \<and> st_ok E s' \<and> frame s s' \<and>
    counts E s' = (counts E s)(obj := 0)"
proof -
  let ?m = "refcnts (table_for E obj s)"
  obtain it where it: "dm_find (refcnt_policy E) (disguised obj) ?m = Some it"
    "refers (refcnt_policy E) ?m (disguised obj) it"
    using assms(3) cnt.find_again_law unfolding present_def by blast
  obtain m' where m': "dm_erase_iterator (refcnt_policy E) it ?m = Some m'" "dm_inv (refcnt_policy E) m'"
    "dm_view (refcnt_policy E) m' = (dm_view (refcnt_policy E) ?m)(disguised obj := 0)"
    using rc.erase_law [OF it(2)] by blast
  then show ?thesis
    using it(1) put_refcnts_spec [OF assms(1) m'(2,3)] by (auto simp: sidetable_clearExtraRC_nolock_def)
qed

lemma getExtraRC_spec:
  assumes "st_ok E s" and "obj_addr obj"
  shows "sidetable_getExtraRC_nolock E obj s = Some (drop_bit SIDE_TABLE_RC_SHIFT (counts E s obj))"
  by (cases rule: find_count [OF assms]) (simp_all add: sidetable_getExtraRC_nolock_def)

lemma moveExtraRC_spec:
  fixes n :: u64
  assumes "st_ok E s" and "st_room E s" and "obj_addr obj"
  defines "moved \<equiv> addc (counts E s obj) (push_bit SIDE_TABLE_RC_SHIFT (n - 1))"
  shows "\<exists>s'. sidetable_moveExtraRC_nolock E obj n d w s = Some s' \<and> st_ok E s' \<and> frame s s' \<and>
    counts E s' = (counts E s)(obj := (if snd moved then SIDE_TABLE_RC_PINNED else fst moved)
      OR (if d then SIDE_TABLE_DEALLOCATING else 0) OR (if w then SIDE_TABLE_WEAKLY_REFERENCED else 0))"
proof -
  obtain b m where bm: "FindAndConstruct (refcnt_policy E) (disguised obj) (refcnts (table_for E obj s)) = Some (b, m)"
    "getSecond m b = counts E s obj" and upd: "\<And>w. st_ok E (put_refcnts E obj (setSecond m b w) s)"
    "\<And>w. frame s (put_refcnts E obj (setSecond m b w) s)"
    "\<And>w. counts E (put_refcnts E obj (setSecond m b w) s) = (counts E s)(obj := w)"
    using subscript_count [OF assms(1-3)] by metis
  then show ?thesis
    by (auto simp: sidetable_moveExtraRC_nolock_def moved_def Let_def case_prod_beta or.assoc)
qed

subsection \<open>The operations of objects with a raw isa\<close>

lemma set_slock_False [simp]: "\<not> locked E obj s \<Longrightarrow> set_slock E obj False s = s"
  by (simp add: set_slock_def put_table_def table_for_def locked_def slock_same)

lemma set_slock_True [simp]: "locked E obj s \<Longrightarrow> set_slock E obj True s = s"
  by (simp add: set_slock_def put_table_def table_for_def locked_def slock_same)

lemma set_slock_twice [simp]: "set_slock E obj b (set_slock E obj b' s) = set_slock E obj b s"
  by (simp add: set_slock_def put_table_def table_for_def)

text \<open>Running a count update between taking (or having) the lock and releasing it.\<close>

lemma lock_if_needed:
  assumes "locked E obj s = lk"
  shows "(if \<not> lk then sidetable_lock E obj s else Some s) = Some (set_slock E obj True s)"
  using assms by (simp add: lock_eq)

lemma unlock_after:
  assumes "frame (set_slock E obj True s) s'"
  shows "sidetable_unlock E obj s' = Some (set_slock E obj False s')"
    and "frame (set_slock E obj False s) (set_slock E obj False s')"
  using assms by (auto simp: unlock_eq frame_def set_slock_def put_table_def table_for_def locked_def
      split: if_splits)

lemma retain_spec:
  assumes "st_ok E s" and "st_room E s" and "obj_addr obj" and "locked E obj s = lk"
  defines "c \<equiv> counts E s obj"
  shows "\<exists>s'. sidetable_retain E obj lk s = Some (obj, s') \<and> st_ok E s' \<and> frame (set_slock E obj False s) s' \<and>
    counts E s' = (counts E s)(obj := (if bit c 63 then c else c + SIDE_TABLE_RC_ONE))"
proof -
  let ?s = "set_slock E obj True s"
  have pre: "st_ok E ?s" "st_room E ?s" using assms(1,2) by simp_all
  obtain b m where bm: "FindAndConstruct (refcnt_policy E) (disguised obj) (refcnts (table_for E obj ?s)) = Some (b, m)"
    "getSecond m b = counts E ?s obj" and upd: "\<And>w. st_ok E (put_refcnts E obj (setSecond m b w) ?s)"
    "\<And>w. frame ?s (put_refcnts E obj (setSecond m b w) ?s)"
    "\<And>w. counts E (put_refcnts E obj (setSecond m b w) ?s) = (counts E ?s)(obj := w)"
    "st_ok E (put_refcnts E obj m ?s)" "frame ?s (put_refcnts E obj m ?s)"
    "counts E (put_refcnts E obj m ?s) = counts E ?s"
    using subscript_count [OF pre assms(3)] by metis
  note u = unlock_after [OF upd(2)] and u' = unlock_after [OF upd(5)]
  show ?thesis
    unfolding sidetable_retain_def lock_if_needed [OF assms(4)]
    using bm upd u u' by (auto simp: c_def pinned_iff)
qed

lemma tryRetain_spec:
  assumes "st_ok E s" and "st_room E s" and "obj_addr obj"
  defines "c \<equiv> counts E s obj"
  shows "\<exists>s'. sidetable_tryRetain E obj s = Some (\<not> bit c 1, s') \<and> st_ok E s' \<and> frame s s' \<and>
    counts E s' = (counts E s)(obj := (if bit c 1 \<or> bit c 63 then c else c + SIDE_TABLE_RC_ONE))"
proof (cases rule: emplace_count [OF assms(1-3), of SIDE_TABLE_RC_ONE])
  case (1 b m)
  then show ?thesis by (auto simp: sidetable_tryRetain_def c_def put_refcnts_frame)
next
  case (2 b)
  then show ?thesis
    using assms(1) by (auto simp: sidetable_tryRetain_def c_def put_refcnts_frame deallocating_iff pinned_iff)
qed

lemma release_spec:
  assumes "st_ok E s" and "st_room E s" and "obj_addr obj" and "locked E obj s = lk"
  defines "c \<equiv> counts E s obj"
  shows "\<exists>s'. sidetable_release E obj lk perform s = Some (c < SIDE_TABLE_DEALLOCATING, s') \<and> st_ok E s' \<and>
    frame ((set_slock E obj False s)\<lparr>sent := sent s @ (if c < SIDE_TABLE_DEALLOCATING \<and> perform then [Dealloc obj] else [])\<rparr>) s' \<and>
    counts E s' = (counts E s)(obj := (if c < SIDE_TABLE_DEALLOCATING then c OR SIDE_TABLE_DEALLOCATING
      else if bit c 63 then c else c - SIDE_TABLE_RC_ONE))"
proof -
  let ?s = "set_slock E obj True s"
  have pre: "st_ok E ?s" "st_room E ?s" using assms(1,2) by simp_all
  have sent: "frame (s1\<lparr>sent := x\<rparr>) (s2\<lparr>sent := x\<rparr>)" "counts E (s2\<lparr>sent := x\<rparr>) = counts E s2"
    "st_ok E (s2\<lparr>sent := x\<rparr>) = st_ok E s2" if "frame s1 s2" for s1 s2 x
    using that by (auto simp: frame_def counts_def table_for_def st_ok_def fun_eq_iff)
  have keep: "x\<lparr>sent := sent s\<rparr> = x" if "sent x = sent s" for x :: rt
    using that by simp
  show ?thesis
  proof (cases rule: emplace_count [OF pre assms(3), of SIDE_TABLE_DEALLOCATING])
    case (1 b m)
    note u = unlock_after [OF put_refcnts_frame [of "set_slock E obj True s" E obj m]]
    have c: "c = 0" using 1(2) by (simp add: c_def)
    show ?thesis
      unfolding sidetable_release_def lock_if_needed [OF assms(4)]
      using 1 u c sent [OF u(2)] by (auto simp: SIDE_TABLE_DEALLOCATING_def frame_def)
  next
    case (2 b)
    let ?m = "refcnts (table_for E obj ?s)"
    have u: "sidetable_unlock E obj (put_refcnts E obj (setSecond ?m b w) ?s)
        = Some (set_slock E obj False (put_refcnts E obj (setSecond ?m b w) ?s))"
      "frame (set_slock E obj False s) (set_slock E obj False (put_refcnts E obj (setSecond ?m b w) ?s))" for w
      using unlock_after [OF put_refcnts_frame [of "set_slock E obj True s" E obj]] by blast+
    have u0: "sidetable_unlock E obj ?s = Some (set_slock E obj False s)" by (simp add: unlock_eq)
    show ?thesis
      unfolding sidetable_release_def lock_if_needed [OF assms(4)]
      using 2 u u0 assms(1) sent [OF u(2)]
      by (auto simp: c_def pinned_iff frame_def Let_def)
  qed
qed

end
