(* ===== verification/RetainProofs.thy ===== *)
theory RetainProofs
  imports SideTableProofs ObjcObject
begin

text \<open>
  Retaining and releasing objects with a packed \<open>isa\<close>: the inline count and the count in the
  side table together behave as one number, \<open>rc_total\<close>, for every script of interference by
  threads that stay on the inline count. The locale \<open>packed_env\<close> collects what the proofs need of
  a build; it is interpreted on the builds for iOS, for its simulator and for macOS.
\<close>

declare rootRetain_loop.simps [simp del] rootRelease_loop.simps [simp del]
  changeIsa_loop.simps [simp del] setHasAssociatedObjects_loop.simps [simp del]
  setWeaklyReferenced_nolock_loop.simps [simp del]

subsection \<open>State updates\<close>

lemma store_isa_simps [simp]:
  "isa_bits (store_isa obj w s) obj = w" "obj' \<noteq> obj \<Longrightarrow> isa_bits (store_isa obj w s) obj' = isa_bits s obj'"
  "SideTables (store_isa obj w s) = SideTables s" "vars (store_isa obj w s) = vars s"
  "sent (store_isa obj w s) = sent s" "table_for E obj' (store_isa obj w s) = table_for E obj' s"
  "st_ok E (store_isa obj w s) = st_ok E s" "st_room E (store_isa obj w s) = st_room E s"
  "locked E obj' (store_isa obj w s) = locked E obj' s" "present E obj' (store_isa obj w s) = present E obj' s"
  "counts E (store_isa obj w s) = counts E s" "weaks E (store_isa obj w s) = weaks E s"
  by (simp_all add: store_isa_def st_ok_def st_room_def locked_def table_for_def present_def counts_def
      weaks_def fun_eq_iff)

lemma store_isa_twice [simp]: "store_isa obj v (store_isa obj w s) = store_isa obj v s"
  by (simp add: store_isa_def)

lemma store_isa_same [simp]: "store_isa obj (isa_bits s obj) s = s"
  by (simp add: store_isa_def)

lemma store_isa_slock: "store_isa obj w (set_slock E obj' b s) = set_slock E obj' b (store_isa obj w s)"
  by (simp add: store_isa_def set_slock_def put_table_def table_for_def)

text \<open>The state without the word and the lock of one object, and states that agree on the rest.\<close>

definition norm :: "env \<Rightarrow> u64 \<Rightarrow> rt \<Rightarrow> rt" where
  "norm E obj s = set_slock E obj False (store_isa obj 0 s)"

definition same_rest :: "env \<Rightarrow> u64 \<Rightarrow> rt \<Rightarrow> rt \<Rightarrow> bool" where
  "same_rest E obj s s' \<longleftrightarrow> frame (norm E obj s) (norm E obj s')"

lemma norm_simps [simp]:
  "norm E obj (store_isa obj w s) = norm E obj s" "norm E obj (set_slock E obj b s) = norm E obj s"
  by (simp_all add: norm_def store_isa_slock)

lemma same_rest_refl [simp]: "same_rest E obj s s"
  by (simp add: same_rest_def)

lemma same_rest_trans: "same_rest E obj s s' \<Longrightarrow> same_rest E obj s' s'' \<Longrightarrow> same_rest E obj s s''"
  unfolding same_rest_def by (rule frame_trans)

lemma same_rest_simps [simp]:
  "same_rest E obj s (store_isa obj w s') = same_rest E obj s s'"
  "same_rest E obj (store_isa obj w s) s' = same_rest E obj s s'"
  "same_rest E obj s (set_slock E obj b s') = same_rest E obj s s'"
  "same_rest E obj (set_slock E obj b s) s' = same_rest E obj s s'"
  by (simp_all add: same_rest_def)

lemma frame_same_rest: "frame s s' \<Longrightarrow> same_rest E obj s s'"
  by (auto simp: same_rest_def norm_def frame_def set_slock_def put_table_def table_for_def store_isa_def)

lemma same_restD:
  assumes "same_rest E obj s s'"
  shows "obj' \<noteq> obj \<Longrightarrow> isa_bits s' obj' = isa_bits s obj'" "vars s' = vars s" "sent s' = sent s"
    "weaks E s' = weaks E s"
  using assms
  by (auto simp: same_rest_def norm_def frame_def set_slock_def put_table_def table_for_def store_isa_def
      weaks_def fun_eq_iff split: if_splits) metis+

subsection \<open>Builds\<close>

locale packed_env = packed_isa "layout E" for E :: env
begin

abbreviation H :: nat where
  "H \<equiv> 2 ^ (extra_rc_width (layout E) - 1)"

lemma half: "2 ^ extra_rc_width (layout E) = 2 * H" "unat (RC_HALF (layout E)) = H" "H < 2 ^ 32"
proof -
  obtain n where n: "extra_rc_width (layout E) = Suc n" using rc_width(1) by (cases "extra_rc_width (layout E)") auto
  then show "2 ^ extra_rc_width (layout E) = 2 * H" by simp
  show "unat (RC_HALF (layout E)) = H" by (rule unat_RC_HALF)
  show "H < 2 ^ 32" using rc_width(2) n by (intro power_strict_increasing) auto
qed

end

definition side_rc :: "u64 \<Rightarrow> nat" where
  "side_rc c = unat c div 4"

text \<open>
  The invariant of an object with a packed \<open>isa\<close>: the side table has no flags for it, its count
  there is a multiple of \<open>RC_HALF\<close> that is not pinned, and the word knows whether it is zero.
\<close>

definition packed_inv :: "env \<Rightarrow> u64 \<Rightarrow> rt \<Rightarrow> bool" where
  "packed_inv E obj s \<longleftrightarrow>
     nonpointer (isa_bits s obj) \<and>
     (has_sidetable_rc (layout E) (isa_bits s obj) \<longleftrightarrow> counts E s obj \<noteq> 0) \<and>
     (4 * unat (RC_HALF (layout E))) dvd unat (counts E s obj) \<and> unat (counts E s obj) < 2 ^ 63"

definition rc_total :: "env \<Rightarrow> u64 \<Rightarrow> rt \<Rightarrow> nat" where
  "rc_total E obj s =
     (if nonpointer (isa_bits s obj) then unat (extra_rc (layout E) (isa_bits s obj)) + side_rc (counts E s obj)
      else 1 + side_rc (counts E s obj))"

text \<open>Interference by threads that change the inline count only.\<close>

definition inline_script :: "env \<Rightarrow> u64 \<Rightarrow> rt \<Rightarrow> script \<Rightarrow> bool" where
  "inline_script E obj s sc \<longleftrightarrow>
     (\<forall>w. Some w \<in> set sc \<longrightarrow> nonpointer w \<and>
        (has_sidetable_rc (layout E) w \<longleftrightarrow> has_sidetable_rc (layout E) (isa_bits s obj)))"

lemma inline_script_store:
  assumes "inline_script E obj s sc" and "Some w \<in> set sc"
  shows "packed_inv E obj s \<Longrightarrow> packed_inv E obj (store_isa obj w s)"
    and "set sc' \<subseteq> set sc \<Longrightarrow> inline_script E obj (store_isa obj w s) sc'"
  using assms by (auto simp: inline_script_def packed_inv_def)

lemma inline_script_cong:
  "has_sidetable_rc (layout E) (isa_bits s' obj) = has_sidetable_rc (layout E) (isa_bits s obj) \<Longrightarrow>
   set sc' \<subseteq> set sc \<Longrightarrow> inline_script E obj s sc \<Longrightarrow> inline_script E obj s' sc'"
  by (auto simp: inline_script_def)

text \<open>The word in memory after the stores of other threads that a piece of script lists.\<close>

fun last_word :: "script \<Rightarrow> u64 \<Rightarrow> u64" where
  "last_word [] w = w"
| "last_word (Some v # sc) w = last_word sc v"
| "last_word (None # sc) w = last_word sc w"

lemma last_word_append [simp]: "last_word (p @ q) w = last_word q (last_word p w)"
  by (induction p w rule: last_word.induct) simp_all

lemma last_word_in: "last_word p w = w \<or> Some (last_word p w) \<in> set p"
  by (induction p w rule: last_word.induct) auto

lemma StoreExclusive_cases:
  obtains (fail) w sc' where "sc = Some w # sc'" "StoreExclusive sc obj v s = (False, sc', store_isa obj w s)"
    | (ok) sc' p where "StoreExclusive sc obj v s = (True, sc', store_isa obj v s)" "set sc' \<subseteq> set sc"
      "sc = p @ sc'" "\<forall>w. last_word p w = w"
proof (cases "(sc, obj, v, s)" rule: StoreExclusive.cases)
  case (2 sc' this v' s')
  then show ?thesis by (intro ok [of sc' "[None]"]) auto
qed (use fail ok [of "[]" "[]"] in auto)

lemma LoadExclusive_cases:
  obtains (other) w sc' where "sc = Some w # sc'" "LoadExclusive sc obj s = (w, sc', store_isa obj w s)"
    | (same) sc' p where "LoadExclusive sc obj s = (isa_bits s obj, sc', s)" "set sc' \<subseteq> set sc" "length sc' \<le> length sc"
      "sc = p @ sc'" "\<forall>w. last_word p w = w"
proof (cases "(sc, obj, s)" rule: LoadExclusive.cases)
  case (2 sc' this s')
  then show ?thesis by (intro same [of sc' "[None]"]) auto
qed (use other same [of "[]" "[]"] in auto)


subsection \<open>Retaining\<close>

text \<open>The class and the marks of an object, which retains and releases leave alone.\<close>

definition same_marks :: "isa_layout \<Rightarrow> u64 \<Rightarrow> u64 \<Rightarrow> bool" where
  "same_marks L w w' \<longleftrightarrow> nonpointer w' = nonpointer w \<and> has_assoc L w' = has_assoc L w \<and>
     weakly_referenced L w' = weakly_referenced L w \<and> has_cxx_dtor L w' = has_cxx_dtor L w \<and>
     getClass L w' = getClass L w"

lemma same_marks_refl [simp]: "same_marks L w w"
  by (simp add: same_marks_def)

text \<open>
  The outcome of a retain that saw the word \<open>w\<close> at the access that decided it.
\<close>

definition retained :: "env \<Rightarrow> u64 \<Rightarrow> bool \<Rightarrow> u64 \<Rightarrow> rt \<Rightarrow> retval \<Rightarrow> rt \<Rightarrow> bool" where
  "retained E obj tryRetain w s r s' \<longleftrightarrow>
     st_ok E s' \<and> same_rest E obj s s' \<and> locked E obj s' = tryRetain \<and>
     (\<forall>obj'. obj' \<noteq> obj \<longrightarrow> counts E s' obj' = counts E s obj') \<and> packed_inv E obj s' \<and>
     same_marks (layout E) w (isa_bits s' obj) \<and>
     (if isDeallocating (layout E) w
      then r = Id (if tryRetain then 0 else obj) \<and> isa_bits s' obj = w \<and> counts E s' obj = counts E s obj
      else r = Id obj \<and> rc_total E obj s' = rc_total E obj (store_isa obj w s) + 1)"

context packed_env
begin

lemma side_rc_add:
  assumes "unat c + 4 * unat d < 2 ^ 63"
  shows "unat (c + push_bit SIDE_TABLE_RC_SHIFT d) = unat c + 4 * unat d"
    and "side_rc (c + push_bit SIDE_TABLE_RC_SHIFT d) = side_rc c + unat d"
proof -
  have "unat (push_bit SIDE_TABLE_RC_SHIFT d) = 4 * unat d" using assms by (intro unat_shift2) simp
  then show *: "unat (c + push_bit SIDE_TABLE_RC_SHIFT d) = unat c + 4 * unat d"
    using assms by (simp add: unat_word_ariths(1))
  show "side_rc (c + push_bit SIDE_TABLE_RC_SHIFT d) = side_rc c + unat d"
    unfolding side_rc_def * by simp
qed

lemma same_marks_count [simp]:
  "same_marks (layout E) w (fst (addc w (RC_ONE (layout E))))" "same_marks (layout E) w (fst (subc w (RC_ONE (layout E))))"
  using low_fields [OF addc_RC_ONE(3), of w] low_fields [OF subc_RC_ONE(3), of w] by (simp_all add: same_marks_def)

lemma same_marks_half [simp]:
  "same_marks (layout E) w (set_extra_rc (layout E) n w') = same_marks (layout E) w w'"
  "same_marks (layout E) w (set_has_sidetable_rc (layout E) b w') = same_marks (layout E) w w'"
  by (simp_all add: same_marks_def)

lemma retain_inline:
  assumes "packed_inv E obj (store_isa obj w s)" and "\<not> snd (addc w (RC_ONE (layout E)))"
  defines "s' \<equiv> store_isa obj (fst (addc w (RC_ONE (layout E)))) s"
  shows "packed_inv E obj s'" and "rc_total E obj s' = rc_total E obj (store_isa obj w s) + 1"
proof -
  note a = addc_RC_ONE [of w] and f = low_fields [OF addc_RC_ONE(3)]
  show "packed_inv E obj s'" using assms(1) by (simp add: packed_inv_def s'_def f)
  show "rc_total E obj s' = rc_total E obj (store_isa obj w s) + 1"
    using assms(1) a(2) [OF assms(2)] by (simp add: packed_inv_def rc_total_def s'_def f)
qed

lemma retain_carry:
  assumes inv: "packed_inv E obj (store_isa obj w s)" and carry: "snd (addc w (RC_ONE (layout E)))"
    and ok: "st_ok E s" "st_room E s" "obj_addr obj" and fits: "unat (counts E s obj) + 4 * H < 2 ^ 63"
  defines "L \<equiv> layout E"
  defines "s1 \<equiv> store_isa obj (set_has_sidetable_rc L True (set_extra_rc L (RC_HALF L) (fst (addc w (RC_ONE L))))) s"
  shows "\<exists>s'. sidetable_addExtraRC_nolock E obj (RC_HALF L) s1 = Some (False, s') \<and> st_ok E s' \<and>
    frame s1 s' \<and> packed_inv E obj s' \<and> rc_total E obj s' = rc_total E obj (store_isa obj w s) + 1 \<and>
    (\<forall>obj'. obj' \<noteq> obj \<longrightarrow> counts E s' obj' = counts E s obj')"
proof -
  let ?c = "counts E s obj" and ?d = "RC_HALF L"
  have d: "unat ?d = H" using half(2) by (simp add: L_def)
  have "unat (counts E s1 obj) + 4 * unat ?d < 2 ^ 63" using fits d by (simp add: s1_def)
  then obtain s' where s': "sidetable_addExtraRC_nolock E obj ?d s1 = Some (False, s')" "st_ok E s'" "frame s1 s'"
    "counts E s' = (counts E s1)(obj := counts E s1 obj + push_bit SIDE_TABLE_RC_SHIFT ?d)"
    using addExtraRC_spec [of E s1 obj ?d] ok by (auto simp: s1_def)
  have c: "counts E s' obj = ?c + push_bit SIDE_TABLE_RC_SHIFT ?d" using s'(4) by (simp add: s1_def)
  have u: "unat (counts E s' obj) = unat ?c + 4 * H" "side_rc (counts E s' obj) = side_rc ?c + H"
    using side_rc_add [of ?c ?d] fits d by (simp_all add: c)
  have isa: "isa_bits s' obj = isa_bits s1 obj" using s'(3) by (simp add: frame_def)
  have take: "take_bit (extra_rc_width L) ?d = ?d"
    using half rc_width d by (simp add: word_unat_eq_iff unat_take_bit_mod L_def)
  have f: "nonpointer (isa_bits s1 obj) = nonpointer w" "has_sidetable_rc L (isa_bits s1 obj)"
    "extra_rc L (isa_bits s1 obj) = ?d"
    using low_fields [OF addc_RC_ONE(3), of w] take by (simp_all add: s1_def L_def)
  have "4 * H dvd unat (counts E s' obj)"
    using inv half(2) by (simp add: packed_inv_def u(1) dvd_add_left_iff)
  moreover have "0 < unat (counts E s' obj)" using u(1) by simp
  ultimately have "packed_inv E obj s'"
    using inv f u(1) fits half(2) by (auto simp: packed_inv_def isa L_def [symmetric])
  moreover have "rc_total E obj s' = rc_total E obj (store_isa obj w s) + 1"
  proof -
    have "rc w = 2 * H - 1" using addc_RC_ONE(1) [of w] carry half(1) by simp
    then show ?thesis
      using inv f(1,3) d u(2) by (simp add: rc_total_def isa packed_inv_def L_def)
  qed
  ultimately show ?thesis using s' by (auto simp: s1_def)
qed

lemma retain_loop:
  assumes "st_ok E s" "st_room E s" "obj_addr obj" and "unat (counts E s obj) + 4 * H < 2 ^ 63"
    and "packed_inv E obj s" and "inline_script E obj s sc"
    and "locked E obj s = (flag \<or> tryRetain)" and "flag \<Longrightarrow> variant = Full"
    and "tryRetain \<Longrightarrow> \<forall>w. Some w \<in> set sc \<longrightarrow> \<not> isDeallocating (layout E) w"
    and "tryRetain \<Longrightarrow> flag \<Longrightarrow> \<not> isDeallocating (layout E) (isa_bits s obj)"
  shows "\<exists>r rest s' p. rootRetain_loop E obj tryRetain variant sc flag (isa_bits s obj) s = Some (r, rest, s') \<and>
    sc = p @ rest \<and> retained E obj tryRetain (last_word p (isa_bits s obj)) s r s'"
  using assms
proof (induction "2 * length sc + (if variant = Full then 0 else (1::nat))" arbitrary: sc variant flag s
    rule: less_induct)
  case less
  let ?L = "layout E" and ?w = "isa_bits s obj"
  let ?a = "addc ?w (RC_ONE ?L)"
  note inv = less.prems(5)
  have np: "nonpointer ?w" using inv by (simp add: packed_inv_def)
  have here: ?case
    if "rootRetain_loop E obj tryRetain variant sc flag ?w s = Some (r, rest, s')" and "sc = p @ rest"
      and "\<forall>w. last_word p w = w" and "retained E obj tryRetain ?w s r s'" for r rest s' p
    using that by auto
  show ?case
  proof (cases "isDeallocating ?L ?w")
    case True
    with less.prems(10) have nt: "\<not> (tryRetain \<and> flag)" by blast
    have "rootRetain_loop E obj tryRetain variant sc flag ?w s
        = Some (Id (if tryRetain then 0 else obj), sc, set_slock E obj tryRetain s)"
      using True np nt less.prems(7) by (subst rootRetain_loop.simps) (auto simp: unlock_eq)
    moreover have "retained E obj tryRetain ?w s (Id (if tryRetain then 0 else obj)) (set_slock E obj tryRetain s)"
      using True less.prems(1) inv by (simp add: retained_def packed_inv_def)
    ultimately show ?thesis using here [of _ sc _ "[]"] by simp
  next
    case False
    show ?thesis
    proof (cases "snd ?a \<and> variant \<noteq> Full")
      case True
      have full: "\<not> flag" using True less.prems(8) by blast
      show ?thesis
      proof (cases rule: LoadExclusive_cases [of sc obj s])
        case (other v sc')
        let ?s = "store_isa obj v s"
        have "nonpointer v" using less.prems(6) other(1) by (simp add: inline_script_def)
        then have eq: "rootRetain_loop E obj tryRetain variant sc flag ?w s
            = rootRetain_loop E obj tryRetain Full sc' False (isa_bits ?s obj) ?s"
          using True False np other(2) by (subst rootRetain_loop.simps) (simp add: case_prod_beta class_object_def)
        have "\<exists>r rest s' p. rootRetain_loop E obj tryRetain Full sc' False (isa_bits ?s obj) ?s = Some (r, rest, s') \<and>
            sc' = p @ rest \<and> retained E obj tryRetain (last_word p (isa_bits ?s obj)) ?s r s'"
          using less.prems other(1) full inline_script_store [OF less.prems(6)] by (intro less.hyps) auto
        then show ?thesis using eq other(1) by (auto simp: retained_def intro!: exI [of _ "Some v # _"])
      next
        case (same sc' q)
        have eq: "rootRetain_loop E obj tryRetain variant sc flag ?w s
            = rootRetain_loop E obj tryRetain Full sc' False ?w s"
          using True False np same(1) by (subst rootRetain_loop.simps) (simp add: case_prod_beta class_object_def)
        have "\<exists>r rest s' p. rootRetain_loop E obj tryRetain Full sc' False ?w s = Some (r, rest, s') \<and>
            sc' = p @ rest \<and> retained E obj tryRetain (last_word p ?w) s r s'"
          using less.prems same(2,3) full True inline_script_cong [OF refl same(2) less.prems(6)]
          by (intro less.hyps) auto
        then show ?thesis using eq same(4,5) by (auto intro!: exI [of _ "q @ _"])
      qed
    next
      case nf: False
      define flag' where "flag' = (flag \<or> snd ?a)"
      define s1 where "s1 = set_slock E obj (flag' \<or> tryRetain) s"
      define nw where "nw = (if snd ?a then set_has_sidetable_rc ?L True (set_extra_rc ?L (RC_HALF ?L) (fst ?a)) else fst ?a)"
      have lock: "(if snd ?a \<and> \<not> tryRetain \<and> \<not> flag then sidetable_lock E obj s else Some s) = Some s1"
        using less.prems(7) by (cases flag; cases tryRetain) (auto simp: lock_eq s1_def flag'_def)
      have s1: "st_ok E s1" "st_room E s1" "counts E s1 = counts E s" "isa_bits s1 = isa_bits s"
        "locked E obj s1 = (flag' \<or> tryRetain)" "packed_inv E obj s1" "same_rest E obj s s1"
        using less.prems(1,2) inv by (simp_all add: s1_def packed_inv_def)
      have fl: "flag' \<Longrightarrow> variant = Full" using nf less.prems(8) by (auto simp: flag'_def)
      show ?thesis
      proof (cases rule: StoreExclusive_cases [of sc obj nw s1])
        case (fail v sc')
        let ?s = "store_isa obj v s1"
        have eq: "rootRetain_loop E obj tryRetain variant sc flag ?w s
            = rootRetain_loop E obj tryRetain variant sc' flag' (isa_bits ?s obj) ?s"
          using np False nf lock fail(2) by (subst rootRetain_loop.simps)
            (auto simp: case_prod_beta Let_def nw_def flag'_def)
        have "inline_script E obj s1 sc" by (rule inline_script_cong [OF _ _ less.prems(6)]) (simp_all add: s1(4))
        from inline_script_store [OF this] fail(1) s1(6)
        have st: "packed_inv E obj ?s" "inline_script E obj ?s sc'" by auto
        have "\<exists>r rest s' p. rootRetain_loop E obj tryRetain variant sc' flag' (isa_bits ?s obj) ?s = Some (r, rest, s') \<and>
            sc' = p @ rest \<and> retained E obj tryRetain (last_word p (isa_bits ?s obj)) ?s r s'"
          using less.prems fail(1) s1 st fl by (intro less.hyps) auto
        then obtain r rest s' p where *: "rootRetain_loop E obj tryRetain variant sc' flag' (isa_bits ?s obj) ?s = Some (r, rest, s')"
          "sc' = p @ rest" "retained E obj tryRetain (last_word p v) ?s r s'" by auto
        have "retained E obj tryRetain (last_word p v) s r s'"
          using *(3) s1 by (auto simp: retained_def rc_total_def s1_def)
        then show ?thesis using eq *(1,2) fail(1) by (auto intro!: exI [of _ "Some v # p"])
      next
        case (ok sc' q)
        let ?s = "store_isa obj nw s1"
        show ?thesis
        proof (cases "snd ?a")
          case carry: True
          have full: "variant = Full" using nf carry by simp
          have i: "packed_inv E obj (store_isa obj ?w s1)" using s1(4,6) by (metis store_isa_same)
          obtain s' where s': "sidetable_addExtraRC_nolock E obj (RC_HALF ?L) ?s = Some (False, s')" "st_ok E s'"
            "frame ?s s'" "packed_inv E obj s'" "rc_total E obj s' = rc_total E obj (store_isa obj ?w s1) + 1"
            "\<forall>obj'. obj' \<noteq> obj \<longrightarrow> counts E s' obj' = counts E s1 obj'"
            using retain_carry [OF i carry s1(1,2) less.prems(3)] less.prems(4) s1(3) carry by (auto simp: nw_def)
          have lk: "locked E obj s'" using locked_frame [OF s'(3)] s1(5) carry by (simp add: flag'_def)
          let ?t = "set_slock E obj tryRetain s'"
          have "rootRetain_loop E obj tryRetain variant sc flag ?w s = Some (Id obj, sc', ?t)"
            using np False nf lock ok(1) s'(1) full carry lk
            by (subst rootRetain_loop.simps) (auto simp: case_prod_beta Let_def nw_def unlock_eq)
          moreover have "retained E obj tryRetain ?w s (Id obj) ?t"
          proof -
            have "same_rest E obj s s'" using frame_same_rest [OF s'(3), of E obj] s1(7) same_rest_trans by simp
            moreover have "rc_total E obj (store_isa obj ?w s1) = rc_total E obj (store_isa obj ?w s)"
              by (simp add: rc_total_def s1(3))
            moreover have "isa_bits s' obj = nw" using s'(3) by (simp add: frame_def)
            then have "same_marks ?L ?w (isa_bits s' obj)" using carry by (simp add: nw_def)
            ultimately show ?thesis using s' False s1(3) by (simp add: retained_def packed_inv_def rc_total_def)
          qed
          ultimately show ?thesis using here ok(3,4) by blast
        next
          case carry: False
          have i: "packed_inv E obj (store_isa obj ?w s)" using inv by simp
          note r = retain_inline [OF i carry]
          let ?t = "set_slock E obj tryRetain (store_isa obj nw s)"
          have nw: "nw = fst ?a" using carry by (simp add: nw_def)
          have fl': "flag' = flag" using carry by (simp add: flag'_def)
          have ss: "?s = store_isa obj nw s" using less.prems(7) by (cases "flag \<or> tryRetain") (simp_all add: s1_def fl')
          have lk: "locked E obj (store_isa obj nw s) = (flag \<or> tryRetain)" using less.prems(7) by simp
          have "rootRetain_loop E obj tryRetain variant sc flag ?w s = Some (Id obj, sc', ?t)"
            using np False carry ok(1) lk ss less.prems(7,8) s1_def nw
            by (subst rootRetain_loop.simps) (auto simp: case_prod_beta Let_def unlock_eq fl' nw)
          moreover have "retained E obj tryRetain ?w s (Id obj) ?t"
            using r False nw less.prems(1) by (simp add: retained_def packed_inv_def rc_total_def)
          ultimately show ?thesis using here ok(3,4) by blast
        qed
      qed
    qed
  qed
qed

end

end
