(* ===== verification/ReleaseProofs.thy ===== *)
theory ReleaseProofs
  imports RetainProofs
begin

text \<open>
  Releasing objects with a packed \<open>isa\<close>: the inline count, the transfer from the side table when
  it runs out, and the decision to deallocate.
\<close>

text \<open>The outcome of a release that saw the word \<open>w\<close> at the access that decided it.\<close>

definition released :: "env \<Rightarrow> u64 \<Rightarrow> bool \<Rightarrow> u64 \<Rightarrow> rt \<Rightarrow> bool \<Rightarrow> rt \<Rightarrow> bool" where
  "released E obj performDealloc w s r s' \<longleftrightarrow>
     st_ok E s' \<and> same_rest E obj (s\<lparr>sent := sent s @ (if r \<and> performDealloc then [Dealloc obj] else [])\<rparr>) s' \<and>
     \<not> locked E obj s' \<and> (\<forall>obj'. obj' \<noteq> obj \<longrightarrow> counts E s' obj' = counts E s obj') \<and> packed_inv E obj s' \<and>
     same_marks (layout E) w (isa_bits s' obj) \<and>
     (if isDeallocating (layout E) w
      then \<not> r \<and> isa_bits s' obj = w \<and> counts E s' obj = counts E s obj
      else rc_total E obj s' + 1 = rc_total E obj (store_isa obj w s) \<and> (r \<longleftrightarrow> rc_total E obj s' = 0))"

lemma sent_simps [simp]:
  "isa_bits (s\<lparr>sent := x\<rparr>) = isa_bits s" "st_ok E (s\<lparr>sent := x\<rparr>) = st_ok E s"
  "counts E (s\<lparr>sent := x\<rparr>) = counts E s" "locked E obj (s\<lparr>sent := x\<rparr>) = locked E obj s"
  "packed_inv E obj (s\<lparr>sent := x\<rparr>) = packed_inv E obj s" "rc_total E obj (s\<lparr>sent := x\<rparr>) = rc_total E obj s"
  by (simp_all add: st_ok_def counts_def locked_def packed_inv_def rc_total_def table_for_def fun_eq_iff)

lemma same_rest_sent:
  "same_rest E obj s s' \<Longrightarrow> same_rest E obj (s\<lparr>sent := x\<rparr>) (s'\<lparr>sent := x\<rparr>)"
  by (auto simp: same_rest_def norm_def frame_def set_slock_def put_table_def table_for_def store_isa_def)

lemma same_rest_keep: "same_rest E obj (s\<lparr>sent := sent s\<rparr>) s' = same_rest E obj s s'"
  by simp

lemma same_rest_sent_eq: "same_rest E obj s s' \<Longrightarrow> sent s' = sent s"
  by (rule same_restD(3))

context packed_env
begin

lemma side_positive:
  assumes "packed_inv E obj s" and "counts E s obj \<noteq> 0"
  shows "4 * H \<le> unat (counts E s obj)" and "H \<le> side_rc (counts E s obj)"
proof -
  have "4 * H dvd unat (counts E s obj)" and "unat (counts E s obj) \<noteq> 0"
    using assms half(2) by (auto simp: packed_inv_def unat_eq_zero)
  then show le: "4 * H \<le> unat (counts E s obj)" by (simp add: dvd_imp_le)
  have "4 * H div 4 \<le> unat (counts E s obj) div 4" using le by (rule div_le_mono)
  then show "H \<le> side_rc (counts E s obj)" by (simp add: side_rc_def)
qed

lemma rc_total_zero:
  assumes "packed_inv E obj s"
  shows "rc_total E obj s = 0 \<longleftrightarrow> isDeallocating (layout E) (isa_bits s obj)"
proof (cases "counts E s obj = 0")
  case True
  then show ?thesis using assms by (auto simp: rc_total_def packed_inv_def isDeallocating_iff side_rc_def)
next
  case False
  have "0 < H" by simp
  with side_positive(2) [OF assms False] assms False show ?thesis
    by (auto simp: rc_total_def packed_inv_def isDeallocating_iff)
qed

lemma release_inline:
  assumes "packed_inv E obj (store_isa obj w s)" and "\<not> snd (subc w (RC_ONE (layout E)))"
  defines "s' \<equiv> store_isa obj (fst (subc w (RC_ONE (layout E)))) s"
  shows "packed_inv E obj s'" and "rc_total E obj s' + 1 = rc_total E obj (store_isa obj w s)"
proof -
  note a = subc_RC_ONE [of w] and f = low_fields [OF subc_RC_ONE(3)]
  show "packed_inv E obj s'" using assms(1) by (simp add: packed_inv_def s'_def f)
  have "rc w \<noteq> 0" using a(1) assms(2) by simp
  then show "rc_total E obj s' + 1 = rc_total E obj (store_isa obj w s)"
    using assms(1) a(2) [OF assms(2)] by (simp add: packed_inv_def rc_total_def s'_def f)
qed

text \<open>Storing the borrowed counts, at the first or at the second try.\<close>

lemma borrow_step:
  assumes np: "nonpointer w" and rc0: "rc w = 0"
    and sc: "\<forall>v. Some v \<in> set sc \<longrightarrow> nonpointer v \<and> has_sidetable_rc (layout E) v"
  obtains (stored) nw v sc' p where
      "rootRelease_borrow E obj (RC_HALF (layout E)) e sc w s = (True, False, sc', store_isa obj nw s)"
      "v = w \<or> Some v \<in> set sc" "nonpointer nw" "has_sidetable_rc (layout E) nw \<longleftrightarrow> \<not> e" "rc nw + 1 = rc v + H"
      "same_marks (layout E) v nw" "sc = p @ sc'" "v = last_word p w"
    | (failed) v sc' p where
      "rootRelease_borrow E obj (RC_HALF (layout E)) e sc w s = (False, False, sc', store_isa obj v s)"
      "Some v \<in> set sc" "set sc' \<subseteq> set sc" "length sc' < length sc" "sc = p @ sc'" "v = last_word p w"
proof -
  let ?L = "layout E" and ?d = "RC_HALF (layout E) - 1"
  have h: "1 < H" using one_less_power [of "2::nat" "extra_rc_width ?L - 1"] rc_width(1) by simp
  have d: "unat ?d = H - 1" using half(2) h unat_sub [of 1 "RC_HALF ?L"] by (simp add: word_le_nat_alt)
  have dlt: "unat ?d < 2 ^ extra_rc_width ?L" using d half(1) h by simp
  let ?n1 = "set_has_sidetable_rc ?L (\<not> e) (set_extra_rc ?L ?d w)"
  have n1: "nonpointer ?n1" "has_sidetable_rc ?L ?n1 \<longleftrightarrow> \<not> e" "rc ?n1 + 1 = rc w + H" "same_marks ?L w ?n1"
    using np rc0 d dlt h by (simp_all add: unat_take_bit_mod)
  show ?thesis
  proof (cases rule: StoreExclusive_cases [of sc obj ?n1 s])
    case (ok sc' q)
    have "rootRelease_borrow E obj (RC_HALF ?L) e sc w s = (True, False, sc', store_isa obj ?n1 s)"
      using ok(1) by (simp add: rootRelease_borrow_def Let_def)
    then show ?thesis using stored [of sc' ?n1 w q] n1 ok(3,4) by auto
  next
    case (fail v sc1)
    note f1 = fail
    have v: "nonpointer v" "has_sidetable_rc ?L v" using sc f1(1) by auto
    let ?a = "addc v (RC_ONE ?L * ?d)"
    let ?n2 = "set_has_sidetable_rc ?L (\<not> e) (fst ?a)"
    note a = addc_RC_many [OF dlt, of v]
    show ?thesis
    proof (cases "snd ?a")
      case True
      have "rootRelease_borrow E obj (RC_HALF ?L) e sc w s = (False, False, sc1, store_isa obj v s)"
        using True v f1(2) by (simp add: rootRelease_borrow_def Let_def case_prod_beta)
      then show ?thesis using failed [of sc1 v "[Some v]"] f1(1) by auto
    next
      case False
      have n2: "nonpointer ?n2" "has_sidetable_rc ?L ?n2 \<longleftrightarrow> \<not> e" "rc ?n2 + 1 = rc v + H" "same_marks ?L v ?n2"
        using v low_fields [OF a(3)] a(2) [OF False] d h by (simp_all add: same_marks_def)
      have nd: "\<not> isDeallocating ?L ?n2" using n2(3) h by (simp add: isDeallocating_iff)
      show ?thesis
      proof (cases rule: StoreExclusive_cases [of sc1 obj ?n2 "store_isa obj v s"])
        case (ok sc' q)
        have "rootRelease_borrow E obj (RC_HALF ?L) e sc w s = (True, False, sc', store_isa obj ?n2 s)"
          using False v f1(2) ok(1) nd by (simp add: rootRelease_borrow_def Let_def case_prod_beta)
        then show ?thesis using stored [of sc' ?n2 v "Some v # q"] n2 f1(1) ok(3,4) by auto
      next
        case (fail v' sc2)
        have "rootRelease_borrow E obj (RC_HALF ?L) e sc w s = (False, False, sc2, store_isa obj v' s)"
          using False v f1(2) fail(2) by (simp add: rootRelease_borrow_def Let_def case_prod_beta)
        then show ?thesis using failed [of sc2 v' "[Some v, Some v']"] f1(1) fail(1) by auto
      qed
    qed
  qed
qed

text \<open>The counts around a transfer.\<close>

lemma side_rc_sub:
  assumes inv: "packed_inv E obj s" and "counts E s obj \<noteq> 0"
  defines "c' \<equiv> counts E s obj - push_bit SIDE_TABLE_RC_SHIFT (RC_HALF (layout E))"
  shows "unat c' + 4 * H = unat (counts E s obj)" and "side_rc c' + H = side_rc (counts E s obj)"
    and "4 * H dvd unat c'" and "drop_bit SIDE_TABLE_RC_SHIFT c' = 0 \<longleftrightarrow> c' = 0"
    and "c' + push_bit SIDE_TABLE_RC_SHIFT (RC_HALF (layout E)) = counts E s obj"
proof -
  let ?c = "counts E s obj"
  have u: "unat (push_bit SIDE_TABLE_RC_SHIFT (RC_HALF (layout E))) = 4 * H"
    using half(2,3) by (subst unat_shift2) simp_all
  note le = side_positive [OF assms(1,2)]
  show s: "unat c' + 4 * H = unat ?c"
    unfolding c'_def using le(1) by (subst unat_sub) (simp_all add: word_le_nat_alt u)
  then have "side_rc ?c = (unat c' + H * 4) div 4" by (simp add: side_rc_def mult.commute)
  then show "side_rc c' + H = side_rc ?c" by (simp add: side_rc_def)
  have "4 * H dvd unat c' + 4 * H" using inv half(2) s by (simp add: packed_inv_def)
  then show d: "4 * H dvd unat c'" by (simp add: dvd_add_left_iff)
  then have "4 dvd unat c'" using dvd_mult_left by blast
  then have "unat c' div 4 = 0 \<longleftrightarrow> unat c' = 0" by (auto elim: dvdE)
  moreover have "unat (drop_bit SIDE_TABLE_RC_SHIFT c') = unat c' div 4"
    unfolding SIDE_TABLE_RC_SHIFT_def unat_drop_bit_eq by (simp add: drop_bit_eq_div)
  ultimately show "drop_bit SIDE_TABLE_RC_SHIFT c' = 0 \<longleftrightarrow> c' = 0" by (metis unat_eq_zero)
  show "c' + push_bit SIDE_TABLE_RC_SHIFT (RC_HALF (layout E)) = ?c" by (simp add: c'_def)
qed

lemma transfer:
  assumes ok: "st_ok E s" "st_room E s" "obj_addr obj" and lk: "locked E obj s"
    and inv: "packed_inv E obj s" and rc0: "rc (isa_bits s obj) = 0" and c0: "counts E s obj \<noteq> 0"
    and sc: "inline_script E obj s sc"
  obtains (stored) b s2 sc' s3 s4 v p where
      "sidetable_subExtraRC_nolock E obj (RC_HALF (layout E)) s = Some (b, s2)" "borrowed b = RC_HALF (layout E)"
      "rootRelease_borrow E obj (RC_HALF (layout E)) (remaining b = 0) sc (isa_bits s obj) s2 = (True, False, sc', s3)"
      "(if remaining b = 0 then sidetable_clearExtraRC_nolock E obj s3 else Some s3) = Some s4"
      "v = last_word p (isa_bits s obj)" "has_sidetable_rc (layout E) v" "st_ok E s4" "locked E obj s4" "packed_inv E obj s4"
      "same_rest E obj s s4" "rc_total E obj s4 + 1 = rc_total E obj (store_isa obj v s)" "0 < rc_total E obj s4"
      "same_marks (layout E) v (isa_bits s4 obj)"
      "\<forall>obj'. obj' \<noteq> obj \<longrightarrow> counts E s4 obj' = counts E s obj'" "sc = p @ sc'"
    | (failed) b s2 sc' s3 s4 v p where
      "sidetable_subExtraRC_nolock E obj (RC_HALF (layout E)) s = Some (b, s2)" "borrowed b = RC_HALF (layout E)"
      "rootRelease_borrow E obj (RC_HALF (layout E)) (remaining b = 0) sc (isa_bits s obj) s2 = (False, False, sc', s3)"
      "sidetable_addExtraRC_nolock E obj (RC_HALF (layout E)) s3 = Some (False, s4)"
      "Some v \<in> set sc" "set sc' \<subseteq> set sc" "length sc' < length sc"
      "st_ok E s4" "st_room E s4" "locked E obj s4" "isa_bits s4 obj = v" "counts E s4 = counts E s"
      "same_rest E obj s s4" "sc = p @ sc'" "v = last_word p (isa_bits s obj)"
proof -
  let ?L = "layout E" and ?w = "isa_bits s obj" and ?d = "RC_HALF (layout E)"
  define c' where "c' = counts E s obj - push_bit SIDE_TABLE_RC_SHIFT ?d"
  note c = side_rc_sub [OF inv c0, folded c'_def]
  obtain s2 where s2: "sidetable_subExtraRC_nolock E obj ?d s
      = Some (\<lparr>borrowed = ?d, remaining = drop_bit SIDE_TABLE_RC_SHIFT c'\<rparr>, s2)"
    "st_ok E s2" "frame s s2" "counts E s2 = (counts E s)(obj := c')" "present E obj s2" "st_room E s2"
    using subExtraRC_spec [OF ok(1,3) c0, of ?d] ok(2) unfolding c'_def by blast
  let ?e = "drop_bit SIDE_TABLE_RC_SHIFT c' = 0"
  have e: "?e \<longleftrightarrow> c' = 0" by (rule c(4))
  have np: "nonpointer ?w" and side: "has_sidetable_rc ?L ?w" using inv c0 by (simp_all add: packed_inv_def)
  have lt: "unat (counts E s obj) < 2 ^ 63" using inv by (simp add: packed_inv_def)
  have scv: "\<forall>v. Some v \<in> set sc \<longrightarrow> nonpointer v \<and> has_sidetable_rc ?L v"
    using sc side by (auto simp: inline_script_def)
  show ?thesis
  proof (cases rule: borrow_step [of ?w sc obj ?e s2, OF np rc0 scv])
    case (1 nw v sc' p)
    let ?s3 = "store_isa obj nw s2"
    have lk3: "locked E obj ?s3" using locked_frame [OF s2(3)] lk by simp
    have "\<exists>s4. (if ?e then sidetable_clearExtraRC_nolock E obj ?s3 else Some ?s3) = Some s4 \<and> st_ok E s4 \<and>
        frame ?s3 s4 \<and> counts E s4 = (counts E s)(obj := c')"
    proof (cases ?e)
      case True
      then show ?thesis using clearExtraRC_spec [of E ?s3 obj] s2(2,4,5) ok(3) e by auto
    next
      case False
      then show ?thesis using s2(2,4) by auto
    qed
    then obtain s4 where s4: "(if ?e then sidetable_clearExtraRC_nolock E obj ?s3 else Some ?s3) = Some s4"
      "st_ok E s4" "frame ?s3 s4" "counts E s4 = (counts E s)(obj := c')" by blast
    have isa: "isa_bits s4 obj = nw" using s4(3) by (simp add: frame_def)
    have v: "v = last_word p ?w" "has_sidetable_rc ?L v" "nonpointer v"
      using 1(2,8) scv side np by auto
    have inv4: "packed_inv E obj s4"
      using 1(3,4) e c(1,3) lt half(2) by (auto simp: packed_inv_def isa s4(4))
    have tot: "rc_total E obj s4 + 1 = rc_total E obj (store_isa obj v s)"
      using 1(3,5) c(2) v(3) by (simp add: rc_total_def isa s4(4))
    have "1 < H" using one_less_power [of "2::nat" "extra_rc_width ?L - 1"] rc_width(1) by simp
    then have pos: "0 < rc_total E obj s4" using 1(3,5) by (simp add: rc_total_def isa s4(4))
    have "same_rest E obj s2 s4" using frame_same_rest [OF s4(3), of E obj] by simp
    with frame_same_rest [OF s2(3)] have rest: "same_rest E obj s s4" by (rule same_rest_trans)
    show ?thesis
    proof (rule stored [OF s2(1) _ _ _ v(1,2) s4(2) _ inv4 rest tot pos _ _ 1(7)])
      show "locked E obj s4" using locked_frame [OF s4(3)] lk3 by simp
      show "same_marks ?L v (isa_bits s4 obj)" using 1(6) isa by simp
    qed (use 1(1) s4(1,4) in simp_all)
  next
    case (2 v sc' p)
    let ?s3 = "store_isa obj v s2"
    have "unat (counts E ?s3 obj) + 4 * unat ?d < 2 ^ 63" using c(1) lt half(2) s2(4) by simp
    then obtain s4 where s4: "sidetable_addExtraRC_nolock E obj ?d ?s3 = Some (False, s4)" "st_ok E s4" "frame ?s3 s4"
      "counts E s4 = (counts E ?s3)(obj := counts E ?s3 obj + push_bit SIDE_TABLE_RC_SHIFT ?d)" "st_room E s4"
      using addExtraRC_present [of E ?s3 obj ?d] s2(2,5,6) by auto
    have cnt: "counts E s4 = counts E s" using s4(4) s2(4) c(5) by (simp add: fun_eq_iff)
    have "same_rest E obj s2 s4" using frame_same_rest [OF s4(3), of E obj] by simp
    with frame_same_rest [OF s2(3)] have rest: "same_rest E obj s s4" by (rule same_rest_trans)
    show ?thesis
    proof (rule failed [OF s2(1) _ _ s4(1) 2(2,3,4) s4(2,5) _ _ cnt rest 2(5,6)])
      show "locked E obj s4" using locked_frame [OF s4(3)] locked_frame [OF s2(3)] lk by simp
      show "isa_bits s4 obj = v" using s4(3) by (simp add: frame_def)
    qed (use 2(1) in simp_all)
  qed
qed

lemma released_mono:
  assumes "released E obj p w s1 r s'" and "same_rest E obj s s1" and "counts E s1 = counts E s"
  shows "released E obj p w s r s'"
proof -
  have sent: "sent s1 = sent s" using same_rest_sent_eq [OF assms(2)] .
  let ?x = "sent s @ (if r \<and> p then [Dealloc obj] else [])"
  have "same_rest E obj (s1\<lparr>sent := ?x\<rparr>) s'" using assms(1) by (simp add: released_def sent split: if_splits)
  with same_rest_sent [OF assms(2)] have "same_rest E obj (s\<lparr>sent := ?x\<rparr>) s'" by (rule same_rest_trans)
  moreover have "rc_total E obj (store_isa obj w s1) = rc_total E obj (store_isa obj w s)"
    by (simp add: rc_total_def assms(3))
  ultimately show ?thesis using assms(1,3) unfolding released_def by metis
qed

lemma release_loop:
  assumes "st_ok E s" "st_room E s" "obj_addr obj"
    and "packed_inv E obj s" and "inline_script E obj s sc"
    and "locked E obj s = flag" and "flag \<Longrightarrow> variant = Full"
  shows "\<exists>r rest s' p. rootRelease_loop E obj performDealloc variant sc flag (isa_bits s obj) s = Some (r, rest, s') \<and>
    sc = p @ rest \<and> released E obj performDealloc (last_word p (isa_bits s obj)) s r s'"
  using assms
proof (induction "4 * length sc + (if variant = Full then 0 else 2) + (if flag then 0 else (1::nat))"
    arbitrary: sc variant flag s rule: less_induct)
  case less
  let ?L = "layout E" and ?w = "isa_bits s obj"
  let ?a = "subc ?w (RC_ONE ?L)"
  note inv = less.prems(4)
  have np: "nonpointer ?w" using inv by (simp add: packed_inv_def)
  have here: ?case
    if "rootRelease_loop E obj performDealloc variant sc flag ?w s = Some (r, rest, s')" and "sc = p @ rest"
      and "w = last_word p ?w" and "released E obj performDealloc w s r s'" for r rest s' p w
    using that by auto
  have again: ?case
    if eq: "rootRelease_loop E obj performDealloc variant sc flag ?w s
        = rootRelease_loop E obj performDealloc variant' sc' flag' (isa_bits s1 obj) s1"
      and m: "4 * length sc' + (if variant' = Full then 0 else 2) + (if flag' then 0 else (1::nat))
        < 4 * length sc + (if variant = Full then 0 else 2) + (if flag then 0 else 1)"
      and st: "st_ok E s1" "st_room E s1" "packed_inv E obj s1" "inline_script E obj s1 sc'" "locked E obj s1 = flag'"
        "flag' \<Longrightarrow> variant' = Full" "counts E s1 = counts E s" "same_rest E obj s s1"
      and sub: "sc = q @ sc'" "isa_bits s1 obj = last_word q ?w"
    for variant' sc' flag' s1 q
  proof -
    obtain r rest s' p where *: "rootRelease_loop E obj performDealloc variant' sc' flag' (isa_bits s1 obj) s1 = Some (r, rest, s')"
      "sc' = p @ rest" "released E obj performDealloc (last_word p (isa_bits s1 obj)) s1 r s'"
      using less.hyps [OF m st(1,2) less.prems(3) st(3-6)] by blast
    show ?thesis
      using here [of r rest s' "q @ p"] eq *(1,2) sub released_mono [OF *(3) st(8,7)] by simp
  qed
  show ?case
  proof (cases "isDeallocating ?L ?w")
    case True
    have "rootRelease_loop E obj performDealloc variant sc flag ?w s = Some (False, sc, set_slock E obj False s)"
      using True np less.prems(6) by (subst rootRelease_loop.simps) (auto simp: unlock_eq)
    moreover have "released E obj performDealloc ?w s False (set_slock E obj False s)"
      using True less.prems(1) inv by (simp add: released_def packed_inv_def)
    ultimately show ?thesis using here [of False sc _ "[]" ?w] by simp
  next
    case nd: False
    show ?thesis
    proof (cases "snd ?a")
      case nc: False
      show ?thesis
      proof (cases rule: StoreExclusive_cases [of sc obj "fst ?a" s])
        case (fail v sc')
        have st: "packed_inv E obj (store_isa obj v s)" "inline_script E obj (store_isa obj v s) sc'"
          using inline_script_store [OF less.prems(5)] fail(1) inv by auto
        show ?thesis
        proof (rule again [of variant sc' flag "store_isa obj v s" "[Some v]"])
          show "rootRelease_loop E obj performDealloc variant sc flag ?w s
              = rootRelease_loop E obj performDealloc variant sc' flag (isa_bits (store_isa obj v s) obj) (store_isa obj v s)"
            using np nd nc fail(2) by (subst rootRelease_loop.simps) (simp add: case_prod_beta Let_def)
        qed (use less.prems st fail(1) in auto)
      next
        case (ok sc' q)
        let ?s = "store_isa obj (fst ?a) s"
        have i: "packed_inv E obj (store_isa obj ?w s)" using inv by simp
        note r = release_inline [OF i nc]
        let ?d = "isDeallocating ?L (fst ?a)"
        let ?t = "(set_slock E obj False ?s)\<lparr>sent := sent s @ (if ?d \<and> performDealloc then [Dealloc obj] else [])\<rparr>"
        have keep: "set_slock E obj False ?s\<lparr>sent := sent s\<rparr> = set_slock E obj False ?s" by simp
        have "rootRelease_loop E obj performDealloc variant sc flag ?w s = Some (?d, sc', ?t)"
          using np nd nc ok(1) less.prems(6,7) keep
          by (subst rootRelease_loop.simps)
            (auto simp: case_prod_beta Let_def unlock_eq rootRelease_deallocate_def)
        moreover have rest: "same_rest E obj (s\<lparr>sent := sent s @ (if ?d \<and> performDealloc then [Dealloc obj] else [])\<rparr>) ?t"
          by (rule same_rest_sent) simp
        have "rc_total E obj ?s = 0 \<longleftrightarrow> ?d" using rc_total_zero [OF r(1)] by simp
        then have "released E obj performDealloc ?w s ?d ?t"
          using r nd less.prems(1) rest by (simp add: released_def packed_inv_def rc_total_def)
        ultimately show ?thesis using here ok(3,4) by metis
      qed
    next
      case carry: True
      have rc0: "rc ?w = 0" using subc_RC_ONE(1) [of ?w] carry by simp
      have side: "has_sidetable_rc ?L ?w" using nd rc0 by (simp add: isDeallocating_iff)
      then have c0: "counts E s obj \<noteq> 0" using inv by (simp add: packed_inv_def)
      note base = np nd carry side
      show ?thesis
      proof (cases "variant = Full")
        case nf: False
        then have fl: "\<not> flag" using less.prems(7) by blast
        show ?thesis
        proof (cases rule: LoadExclusive_cases [of sc obj s])
          case (other v sc')
          have st: "packed_inv E obj (store_isa obj v s)" "inline_script E obj (store_isa obj v s) sc'" "nonpointer v"
            using inline_script_store [OF less.prems(5)] other(1) inv less.prems(5) by (auto simp: inline_script_def)
          show ?thesis
          proof (rule again [of Full sc' False "store_isa obj v s" "[Some v]"])
            show "rootRelease_loop E obj performDealloc variant sc flag ?w s
                = rootRelease_loop E obj performDealloc Full sc' False (isa_bits (store_isa obj v s) obj) (store_isa obj v s)"
              using base nf st(3) other(2)
              by (subst rootRelease_loop.simps) (simp add: case_prod_beta Let_def class_object_def)
          qed (use less.prems fl st other(1) in auto)
        next
          case (same sc' q)
          show ?thesis
          proof (rule again [of Full sc' False s q])
            show "rootRelease_loop E obj performDealloc variant sc flag ?w s
                = rootRelease_loop E obj performDealloc Full sc' False (isa_bits s obj) s"
              using base nf same(1) by (subst rootRelease_loop.simps) (simp add: case_prod_beta Let_def class_object_def)
            show "inline_script E obj s sc'" by (rule inline_script_cong [OF refl same(2) less.prems(5)])
          qed (use less.prems fl inv same nf in auto)
        qed
      next
        case full: True
        show ?thesis
        proof (cases flag)
          case fl: False
          let ?s = "set_slock E obj True s"
          have lk: "sidetable_lock E obj s = Some ?s" using fl less.prems(6) by (simp add: lock_eq)
          have i1: "packed_inv E obj ?s" "inline_script E obj ?s sc"
            using inv less.prems(5) by (simp_all add: packed_inv_def inline_script_def)
          show ?thesis
          proof (cases rule: LoadExclusive_cases [of sc obj ?s])
            case (other v sc')
            have st: "packed_inv E obj (store_isa obj v ?s)" "inline_script E obj (store_isa obj v ?s) sc'"
              using inline_script_store [OF i1(2)] other(1) i1(1) by auto
            show ?thesis
            proof (rule again [of Full sc' True "store_isa obj v ?s" "[Some v]"])
              show "rootRelease_loop E obj performDealloc variant sc flag ?w s
                  = rootRelease_loop E obj performDealloc Full sc' True (isa_bits (store_isa obj v ?s) obj) (store_isa obj v ?s)"
                using base full fl lk other(2) by (subst rootRelease_loop.simps) (simp add: case_prod_beta Let_def)
            qed (use less.prems st other(1) in auto)
          next
            case (same sc' q)
            show ?thesis
            proof (rule again [of Full sc' True ?s q])
              show "rootRelease_loop E obj performDealloc variant sc flag ?w s
                  = rootRelease_loop E obj performDealloc Full sc' True (isa_bits ?s obj) ?s"
                using base full fl lk same(1) by (subst rootRelease_loop.simps) (simp add: case_prod_beta Let_def)
              show "inline_script E obj ?s sc'" by (rule inline_script_cong [OF _ same(2) less.prems(5)]) simp
            qed (use less.prems fl i1 same full in auto)
          qed
        next
          case fl: True
          have lk: "locked E obj s" using fl less.prems(6) by simp
          show ?thesis
          proof (cases rule: transfer [OF less.prems(1-3) lk inv rc0 c0 less.prems(5)])
            case (1 b s2 sc' s3 s4 v p)
            let ?t = "set_slock E obj False s4"
            have "0 < RC_HALF ?L" using half(2) by (simp add: word_less_nat_alt)
            then have "rootRelease_loop E obj performDealloc variant sc flag ?w s = Some (False, sc', ?t)"
              using base full fl 1(1-4,8)
              by (cases "remaining b = 0"; subst rootRelease_loop.simps) (simp_all add: case_prod_beta Let_def unlock_eq)
            moreover have "\<not> isDeallocating ?L v" using 1(6) by (simp add: isDeallocating_def)
            then have "released E obj performDealloc v s False ?t"
              using 1(7,9-14) by (simp add: released_def packed_inv_def rc_total_def)
            ultimately show ?thesis using here 1(5,15) by blast
          next
            case (2 b s2 sc' s3 s4 v p)
            have pos: "0 < RC_HALF ?L" using half(2) by (simp add: word_less_nat_alt)
            have vv: "nonpointer v" "has_sidetable_rc ?L v" using less.prems(5) side 2(5) by (auto simp: inline_script_def)
            have i4: "packed_inv E obj s4" using inv vv c0 by (simp add: packed_inv_def 2(11,12))
            have sc4: "inline_script E obj s4 sc'"
              by (rule inline_script_cong [OF _ 2(6) less.prems(5)]) (simp add: 2(11) vv side)
            show ?thesis
            proof (cases rule: LoadExclusive_cases [of sc' obj s4])
              case (other u sc2)
              have st: "packed_inv E obj (store_isa obj u s4)" "inline_script E obj (store_isa obj u s4) sc2"
                using inline_script_store [OF sc4] other(1) i4 by auto
              show ?thesis
              proof (rule again [of Full sc2 True "store_isa obj u s4" "p @ [Some u]"])
                show "rootRelease_loop E obj performDealloc variant sc flag ?w s
                    = rootRelease_loop E obj performDealloc Full sc2 True (isa_bits (store_isa obj u s4) obj) (store_isa obj u s4)"
                  using base full fl 2(1-4) pos other(2)
                  by (cases "remaining b = 0"; subst rootRelease_loop.simps) (simp_all add: case_prod_beta Let_def)
              qed (use less.prems 2 st other(1) full fl in auto)
            next
              case (same sc2 q)
              show ?thesis
              proof (rule again [of Full sc2 True s4 "p @ q"])
                show "rootRelease_loop E obj performDealloc variant sc flag ?w s
                    = rootRelease_loop E obj performDealloc Full sc2 True (isa_bits s4 obj) s4"
                  using base full fl 2(1-4) pos same(1)
                  by (cases "remaining b = 0"; subst rootRelease_loop.simps) (simp_all add: case_prod_beta Let_def)
                show "inline_script E obj s4 sc2" by (rule inline_script_cong [OF refl same(2) sc4])
              qed (use less.prems 2 i4 same full fl in auto)
            qed
          qed
        qed
      qed
    qed
  qed
qed

end

end
