(* ===== verification/RefCounting.thy ===== *)
theory RefCounting
  imports ReleaseProofs
begin

text \<open>
  What retaining, releasing and counting references promise: the statements of \<open>RetainProofs\<close> and
  \<open>ReleaseProofs\<close> for the entry points of \<open>objc-object.h\<close> on every build, and sequences of them.
\<close>

subsection \<open>Builds\<close>

definition macos_env :: "(u64 \<Rightarrow> class_flags) \<Rightarrow> (nat \<Rightarrow> DisguisedPtr \<times> u64) \<Rightarrow> env" where
  "macos_env cls fr = \<lparr>layout = isa_x86_64, TAG_MASK = 1, StripeCount = 64, classes = cls, fresh = fr\<rparr>"

definition iphone_env :: "(u64 \<Rightarrow> class_flags) \<Rightarrow> (nat \<Rightarrow> DisguisedPtr \<times> u64) \<Rightarrow> env" where
  "iphone_env cls fr = \<lparr>layout = isa_arm64, TAG_MASK = push_bit 63 1, StripeCount = 8, classes = cls, fresh = fr\<rparr>"

definition simulator_env :: "(u64 \<Rightarrow> class_flags) \<Rightarrow> (nat \<Rightarrow> DisguisedPtr \<times> u64) \<Rightarrow> env" where
  "simulator_env cls fr = \<lparr>layout = isa_arm64e, TAG_MASK = push_bit 63 1, StripeCount = 64, classes = cls, fresh = fr\<rparr>"

interpretation macos: packed_env "macos_env cls fr" for cls fr
  by (simp add: packed_env_def macos_env_def x86_64.packed_isa_axioms)

interpretation iphone: packed_env "iphone_env cls fr" for cls fr
  by (simp add: packed_env_def iphone_env_def arm64.packed_isa_axioms)

interpretation simulator: packed_env "simulator_env cls fr" for cls fr
  by (simp add: packed_env_def simulator_env_def arm64e.packed_isa_axioms)

lemma build_packed: "layout E \<in> set isa_layouts \<Longrightarrow> packed_env E"
  by (simp add: packed_env_def packed_layouts)

subsection \<open>The entry points\<close>

context packed_env
begin

lemma rootRetain_spec:
  assumes "st_ok E s" "st_room E s" "obj_addr obj" "\<not> isTaggedPointer E obj" and "packed_inv E obj s"
    and "unat (counts E s obj) + 4 * H < 2 ^ 63" and "inline_script E obj s sc"
    and "locked E obj s = tryRetain" and "variant \<noteq> FastOrMsgSend"
    and "tryRetain \<Longrightarrow> \<forall>w. Some w \<in> set sc \<longrightarrow> \<not> isDeallocating (layout E) w"
  shows "\<exists>r rest s' p. rootRetain_run E obj tryRetain variant sc s = Some (r, rest, s') \<and>
    sc = p @ rest \<and> retained E obj tryRetain (last_word p (isa_bits s obj)) s r s'"
proof (cases rule: LoadExclusive_cases [of sc obj s])
  case (other v sc')
  let ?s = "store_isa obj v s"
  have st: "packed_inv E obj ?s" "inline_script E obj ?s sc'" "nonpointer v"
    using inline_script_store [OF assms(7)] other(1) assms(5,7) by (auto simp: inline_script_def)
  obtain r rest s' p where *: "rootRetain_loop E obj tryRetain variant sc' False (isa_bits ?s obj) ?s = Some (r, rest, s')"
    "sc' = p @ rest" "retained E obj tryRetain (last_word p v) ?s r s'"
    using retain_loop [of ?s obj sc' False tryRetain variant] assms st other(1) by auto
  have "retained E obj tryRetain (last_word p v) s r s'" using *(3) by (simp add: retained_def)
  then show ?thesis using *(1,2) assms(4,9) other st(3)
    by (auto simp: rootRetain_run_def class_object_def intro!: exI [of _ "Some v # p"])
next
  case (same sc' q)
  have np: "nonpointer (isa_bits s obj)" using assms(5) by (simp add: packed_inv_def)
  have "inline_script E obj s sc'" by (rule inline_script_cong [OF refl same(2) assms(7)])
  then obtain r rest s' p where *: "rootRetain_loop E obj tryRetain variant sc' False (isa_bits s obj) s = Some (r, rest, s')"
    "sc' = p @ rest" "retained E obj tryRetain (last_word p (isa_bits s obj)) s r s'"
    using retain_loop [of s obj sc' False tryRetain variant] assms same(2) by blast
  then show ?thesis using assms(4,9) same(1,4,5) np
    by (auto simp: rootRetain_run_def class_object_def intro!: exI [of _ "q @ p"])
qed

lemma rootRelease_spec:
  assumes "st_ok E s" "st_room E s" "obj_addr obj" "\<not> isTaggedPointer E obj" and "packed_inv E obj s"
    and "inline_script E obj s sc" and "\<not> locked E obj s" and "variant \<noteq> FastOrMsgSend"
  shows "\<exists>r rest s' p. rootRelease_run E obj performDealloc variant sc s = Some (r, rest, s') \<and>
    sc = p @ rest \<and> released E obj performDealloc (last_word p (isa_bits s obj)) s r s'"
proof (cases rule: LoadExclusive_cases [of sc obj s])
  case (other v sc')
  let ?s = "store_isa obj v s"
  have st: "packed_inv E obj ?s" "inline_script E obj ?s sc'" "nonpointer v"
    using inline_script_store [OF assms(6)] other(1) assms(5,6) by (auto simp: inline_script_def)
  obtain r rest s' p where *: "rootRelease_loop E obj performDealloc variant sc' False (isa_bits ?s obj) ?s = Some (r, rest, s')"
    "sc' = p @ rest" "released E obj performDealloc (last_word p v) ?s r s'"
    using release_loop [of ?s obj sc' False variant performDealloc] assms st by auto
  have "released E obj performDealloc (last_word p v) s r s'" using released_mono [OF *(3), of s] by simp
  then show ?thesis using *(1,2) assms(4,8) other st(3)
    by (auto simp: rootRelease_run_def class_object_def intro!: exI [of _ "Some v # p"])
next
  case (same sc' q)
  have np: "nonpointer (isa_bits s obj)" using assms(5) by (simp add: packed_inv_def)
  have "inline_script E obj s sc'" by (rule inline_script_cong [OF refl same(2) assms(6)])
  then obtain r rest s' p where *: "rootRelease_loop E obj performDealloc variant sc' False (isa_bits s obj) s = Some (r, rest, s')"
    "sc' = p @ rest" "released E obj performDealloc (last_word p (isa_bits s obj)) s r s'"
    using release_loop [of s obj sc' False variant performDealloc] assms by blast
  then show ?thesis using assms(4,8) same(1,4,5) np
    by (auto simp: rootRelease_run_def class_object_def intro!: exI [of _ "q @ p"])
qed

lemma rootRetainCount_spec:
  assumes "st_ok E s" "obj_addr obj" "\<not> isTaggedPointer E obj" and "packed_inv E obj s" and "\<not> locked E obj s"
  shows "rootRetainCount E obj s = Some (extra_rc (layout E) (isa_bits s obj)
    + drop_bit SIDE_TABLE_RC_SHIFT (counts E s obj), s)"
proof -
  let ?s = "set_slock E obj True s"
  have "sidetable_getExtraRC_nolock E obj ?s = Some (drop_bit SIDE_TABLE_RC_SHIFT (counts E s obj))"
    using getExtraRC_spec [of E ?s obj] assms(1,2) by simp
  then show ?thesis
    using assms(3-5) by (auto simp: rootRetainCount_def lock_eq unlock_eq packed_inv_def set_slock_id)
qed

lemma unat_retainCount:
  assumes "packed_inv E obj s"
  shows "unat (extra_rc (layout E) (isa_bits s obj) + drop_bit SIDE_TABLE_RC_SHIFT (counts E s obj))
    = rc_total E obj s"
proof -
  have d: "unat (drop_bit SIDE_TABLE_RC_SHIFT (counts E s obj)) = side_rc (counts E s obj)"
    unfolding SIDE_TABLE_RC_SHIFT_def unat_drop_bit_eq side_rc_def by (simp add: drop_bit_eq_div)
  have "rc (isa_bits s obj) < 2 ^ 33" using rc_less [of "isa_bits s obj"] half by simp
  moreover have "side_rc (counts E s obj) < 2 ^ 61"
    using assms by (simp add: packed_inv_def side_rc_def less_mult_imp_div_less)
  ultimately show ?thesis
    using assms by (simp add: packed_inv_def rc_total_def unat_word_ariths(1) d)
qed

end

subsection \<open>Sequences of retains and releases\<close>

datatype rr_op = Retain | Release

text \<open>
  A thread that retains and releases one object; the side tables must have room at every step.
\<close>

inductive rr_run :: "env \<Rightarrow> u64 \<Rightarrow> rt \<Rightarrow> rr_op list \<Rightarrow> rt \<Rightarrow> bool" for E obj where
  rr_Nil: "rr_run E obj s [] s"
| rr_Retain: "st_room E s \<Longrightarrow> rootRetain E obj False Fast [] s = Some (r, s1) \<Longrightarrow> rr_run E obj s1 ops s' \<Longrightarrow>
    rr_run E obj s (Retain # ops) s'"
| rr_Release: "st_room E s \<Longrightarrow> rootRelease E obj True Fast [] s = Some (r, s1) \<Longrightarrow> rr_run E obj s1 ops s' \<Longrightarrow>
    rr_run E obj s (Release # ops) s'"

inductive_cases rr_NilE: "rr_run E obj s [] s'"
inductive_cases rr_RetainE: "rr_run E obj s (Retain # ops) s'"
inductive_cases rr_ReleaseE: "rr_run E obj s (Release # ops) s'"

text \<open>The abstract counter: a count that has reached zero stays there.\<close>

fun rr_count :: "nat \<Rightarrow> rr_op list \<Rightarrow> nat" where
  "rr_count n [] = n"
| "rr_count n (Retain # ops) = rr_count (if n = 0 then 0 else n + 1) ops"
| "rr_count n (Release # ops) = rr_count (n - 1) ops"

lemma rr_count_zero [simp]: "rr_count 0 ops = 0"
proof (induction ops)
  case (Cons op ops)
  then show ?case by (cases op) simp_all
qed simp

text \<open>States in which a thread may retain and release the object.\<close>

definition rr_ready :: "env \<Rightarrow> u64 \<Rightarrow> rt \<Rightarrow> bool" where
  "rr_ready E obj s \<longleftrightarrow>
     st_ok E s \<and> obj_addr obj \<and> \<not> isTaggedPointer E obj \<and> packed_inv E obj s \<and> \<not> locked E obj s"

context packed_env
begin

lemma count_fits:
  assumes "packed_inv E obj s" and "rc_total E obj s < 2 ^ 60"
  shows "unat (counts E s obj) + 4 * H < 2 ^ 63"
proof -
  have "4 * H dvd unat (counts E s obj)" using assms(1) half(2) by (simp add: packed_inv_def)
  then have "4 dvd unat (counts E s obj)" using dvd_mult_left by blast
  then have "unat (counts E s obj) = 4 * side_rc (counts E s obj)" by (simp add: side_rc_def)
  moreover have "side_rc (counts E s obj) < 2 ^ 60" using assms by (simp add: rc_total_def packed_inv_def)
  ultimately show ?thesis using half(3) by simp
qed

lemma retain_alone:
  assumes "rr_ready E obj s" and "st_room E s" and "rc_total E obj s < 2 ^ 60"
  shows "\<exists>s'. rootRetain E obj False Fast [] s = Some (Id obj, s') \<and> rr_ready E obj s' \<and>
    rc_total E obj s' = (if rc_total E obj s = 0 then 0 else rc_total E obj s + 1) \<and> same_rest E obj s s'"
proof -
  obtain r s' where *: "rootRetain E obj False Fast [] s = Some (r, s')"
    "retained E obj False (isa_bits s obj) s r s'"
    using rootRetain_spec [of s obj "[]" False Fast] count_fits assms
    by (auto simp: rr_ready_def inline_script_def rootRetain_def)
  have z: "rc_total E obj s = 0 \<longleftrightarrow> isDeallocating (layout E) (isa_bits s obj)"
    using rc_total_zero assms(1) by (simp add: rr_ready_def)
  have "rc_total E obj s' = rc_total E obj s" if "isDeallocating (layout E) (isa_bits s obj)"
    using *(2) that by (simp add: retained_def rc_total_def)
  then show ?thesis using * assms(1) z by (auto simp: retained_def rr_ready_def split: if_splits)
qed

lemma release_alone:
  assumes "rr_ready E obj s" and "st_room E s"
  shows "\<exists>s'. rootRelease E obj True Fast [] s = Some (rc_total E obj s = 1, s') \<and> rr_ready E obj s' \<and>
    rc_total E obj s' = rc_total E obj s - 1 \<and>
    same_rest E obj (s\<lparr>sent := sent s @ (if rc_total E obj s = 1 then [Dealloc obj] else [])\<rparr>) s'"
proof -
  obtain r s' where *: "rootRelease E obj True Fast [] s = Some (r, s')"
    "released E obj True (isa_bits s obj) s r s'"
    using rootRelease_spec [of s obj "[]" Fast True] assms by (auto simp: rr_ready_def inline_script_def rootRelease_def)
  have z: "rc_total E obj s = 0 \<longleftrightarrow> isDeallocating (layout E) (isa_bits s obj)"
    using rc_total_zero assms(1) by (simp add: rr_ready_def)
  have "rc_total E obj s' = rc_total E obj s" if "isDeallocating (layout E) (isa_bits s obj)"
    using *(2) that by (simp add: released_def rc_total_def)
  then have d: "r = (rc_total E obj s = 1) \<and> rc_total E obj s' = rc_total E obj s - 1"
    using *(2) z by (cases "isDeallocating (layout E) (isa_bits s obj)") (simp_all add: released_def, linarith)
  moreover have "rr_ready E obj s'" using *(2) assms(1) by (simp add: released_def rr_ready_def)
  moreover have "same_rest E obj (s\<lparr>sent := sent s @ (if rc_total E obj s = 1 then [Dealloc obj] else [])\<rparr>) s'"
    using *(2) d unfolding released_def by simp
  ultimately show ?thesis using *(1) by blast
qed

lemma rr_run_spec:
  assumes "rr_run E obj s ops s'" and "rr_ready E obj s" and "rc_total E obj s + length ops < 2 ^ 60"
  shows "rr_ready E obj s' \<and> rc_total E obj s' = rr_count (rc_total E obj s) ops \<and>
    sent s' = sent s @ (if 0 < rc_total E obj s \<and> rr_count (rc_total E obj s) ops = 0 then [Dealloc obj] else [])"
  using assms
proof (induction rule: rr_run.induct)
  case (rr_Nil s)
  then show ?case by auto
next
  case (rr_Retain s r s1 ops s')
  have "rc_total E obj s < 2 ^ 60" using rr_Retain.prems(2) by linarith
  from retain_alone [OF rr_Retain.prems(1) rr_Retain.hyps(1) this]
  obtain t where t: "rootRetain E obj False Fast [] s = Some (Id obj, t)" "rr_ready E obj t"
    "rc_total E obj t = (if rc_total E obj s = 0 then 0 else rc_total E obj s + 1)" "same_rest E obj s t" by blast
  then have *: "rr_ready E obj s1" "rc_total E obj s1 = (if rc_total E obj s = 0 then 0 else rc_total E obj s + 1)"
    "sent s1 = sent s"
    using rr_Retain.hyps(2) same_restD(3) [OF t(4)] by simp_all
  then show ?case using rr_Retain.IH rr_Retain.prems(2) by (auto split: if_splits)
next
  case (rr_Release s r s1 ops s')
  from release_alone [OF rr_Release.prems(1) rr_Release.hyps(1)]
  obtain t where t: "rootRelease E obj True Fast [] s = Some (rc_total E obj s = 1, t)" "rr_ready E obj t"
    "rc_total E obj t = rc_total E obj s - 1"
    "same_rest E obj (s\<lparr>sent := sent s @ (if rc_total E obj s = 1 then [Dealloc obj] else [])\<rparr>) t" by blast
  then have *: "rr_ready E obj s1" "rc_total E obj s1 = rc_total E obj s - 1"
    "sent s1 = sent s @ (if rc_total E obj s = 1 then [Dealloc obj] else [])"
    using rr_Release.hyps(2) same_restD(3) [OF t(4)] by simp_all
  then show ?case using rr_Release.IH rr_Release.prems(2) by (cases "rc_total E obj s = 1") auto
qed

end

subsection \<open>New objects\<close>

text \<open>A process before its first object: empty side tables and zeroed memory.\<close>

definition rt_start :: "env \<Rightarrow> rt" where
  "rt_start E = \<lparr>isa_bits = \<lambda>_. 0, SideTables = \<lambda>_. SideTable_new E, vars = \<lambda>_. 0, sent = []\<rparr>"

lemma rt_start_simps:
  "st_ok E (rt_start E)" "st_room E (rt_start E)" "counts E (rt_start E) = (\<lambda>_. 0)" "\<not> locked E obj (rt_start E)"
  "sent (rt_start E) = []"
  using new_RefcountMap [of "fresh E"]
  by (auto simp: st_ok_def st_room_def rt_start_def SideTable_new_def counts_def table_for_def locked_def dm_view_def
      fun_eq_iff)

context packed_env
begin

lemma initInstanceIsa_fields:
  fixes obj cls :: u64 and dtor :: bool and s :: rt
  defines "w \<equiv> isa_bits (initInstanceIsa E obj cls dtor s) obj"
  shows "nonpointer w" "\<not> has_assoc (layout E) w" "\<not> weakly_referenced (layout E) w"
    "\<not> has_sidetable_rc (layout E) w" "rc w = 1"
    "unat cls < 2 ^ (3 + shiftcls_width (layout E)) \<Longrightarrow> take_bit 3 cls = 0 \<Longrightarrow> getDecodedClass (layout E) w = cls"
proof -
  let ?L = "layout E"
  let ?v = "setClass ?L cls (set_has_cxx_dtor ?L dtor (ISA_MAGIC_VALUE ?L))"
  have w: "w = set_extra_rc ?L 1 ?v" by (simp add: w_def initInstanceIsa_def initIsa_def Let_def)
  show "nonpointer w" "\<not> has_assoc ?L w" "\<not> weakly_referenced ?L w" "\<not> has_sidetable_rc ?L w"
    using magic_fields by (simp_all add: w)
  have "(1::nat) < 2 ^ extra_rc_width ?L" using rc_width(1) by (intro one_less_power) auto
  then show "rc w = 1" using rc_width(1) by (simp add: w unat_take_bit_mod)
  assume "unat cls < 2 ^ (3 + shiftcls_width ?L)" "take_bit 3 cls = 0"
  then show "getDecodedClass ?L w = cls"
    using getClass_setClass by (simp add: w getDecodedClass_def low_fields(5) [OF low_set_extra_rc])
qed

lemma initInstanceIsa_ready:
  fixes cls :: u64 and dtor :: bool
  assumes "st_ok E s" "obj_addr obj" "\<not> isTaggedPointer E obj" "\<not> locked E obj s" and "counts E s obj = 0"
  defines "s' \<equiv> initInstanceIsa E obj cls dtor s"
  shows "rr_ready E obj s'" "rc_total E obj s' = 1" "st_room E s \<Longrightarrow> st_room E s'" "sent s' = sent s"
proof -
  note f = initInstanceIsa_fields [of obj cls dtor s, folded s'_def]
  have s': "counts E s' = counts E s" "locked E obj s' = locked E obj s" "st_ok E s' = st_ok E s"
    "st_room E s' = st_room E s" "sent s' = sent s"
    by (simp_all add: s'_def initInstanceIsa_def initIsa_def Let_def)
  then show "rr_ready E obj s'" "rc_total E obj s' = 1" "st_room E s \<Longrightarrow> st_room E s'" "sent s' = sent s"
    using assms(1-5) f(1,4,5) by (simp_all add: rr_ready_def packed_inv_def rc_total_def side_rc_def)
qed

end

text \<open>An object at address 0x1000 of a class at 0x100008068, on macOS.\<close>

definition sample_env :: env where
  "sample_env = macos_env (\<lambda>_. \<lparr>hasCustomRR = False, canCallSwiftRR = False, isMetaClass = False,
     isFuture = False, canAllocNonpointer = True, cls_hasCxxDtor = False, cls_isInitialized = True,
     instancesRequireRawIsa = False, implementsNoteAssociatedObjects = False,
     implementsSetWeaklyReferenced = False\<rparr>) (\<lambda>_. (disguised 0, 0))"

definition sample_rt :: rt where
  "sample_rt = initInstanceIsa sample_env 0x1000 0x100008068 False (rt_start sample_env)"

lemma sample_env: "layout sample_env \<in> set isa_layouts" "\<not> isTaggedPointer sample_env 0x1000" "obj_addr 0x1000"
  by (simp_all add: sample_env_def macos_env_def isa_layouts_def isTaggedPointer_def obj_addr_def)

lemma sample_rt:
  "rr_ready sample_env 0x1000 sample_rt" "rc_total sample_env 0x1000 sample_rt = 1" "st_room sample_env sample_rt"
  "sent sample_rt = []"
proof -
  note P = build_packed [OF sample_env(1)]
  show "rr_ready sample_env 0x1000 sample_rt" "rc_total sample_env 0x1000 sample_rt = 1"
    "st_room sample_env sample_rt" "sent sample_rt = []"
    using packed_env.initInstanceIsa_ready [OF P, of "rt_start sample_env" "0x1000" "0x100008068" False] rt_start_simps [of sample_env]
      sample_env(2,3) by (simp_all add: sample_rt_def)
qed

text \<open>Another thread retains the sample object between the load and the store.\<close>

lemmas sample_defs = sample_env_def macos_env_def isa_x86_64_def isa_eval

lemma sample_words:
  "isa_bits sample_rt 0x1000 = 0x011d800100008069"
  "\<not> isDeallocating (layout sample_env) 0x021d800100008069"
  "rc_total sample_env 0x1000 (store_isa 0x1000 0x021d800100008069 sample_rt) = 2"
proof -
  show w: "isa_bits sample_rt 0x1000 = 0x011d800100008069"
    by (simp add: sample_rt_def initInstanceIsa_def initIsa_def store_isa_def sample_defs set_extra_rc_def
        setClass_def set_has_cxx_dtor_def bf_set_def Let_def)
  show "\<not> isDeallocating (layout sample_env) 0x021d800100008069" by (simp add: isDeallocating_def sample_defs)
  have rc: "unat (extra_rc (layout sample_env) 0x011d800100008069) = 1" "nonpointer 0x011d800100008069"
    "unat (extra_rc (layout sample_env) 0x021d800100008069) = 2" "nonpointer 0x021d800100008069"
    by (simp_all add: sample_defs)
  then show "rc_total sample_env 0x1000 (store_isa 0x1000 0x021d800100008069 sample_rt) = 2"
    using sample_rt(2) by (simp add: rc_total_def w)
qed

lemma sample_script: "inline_script sample_env 0x1000 sample_rt [None, Some 0x021d800100008069, None]"
  by (auto simp: inline_script_def sample_words(1)) (simp_all add: sample_defs)

lemma sample_retain_rest:
  "rootRetain_run sample_env 0x1000 False Fast [None, Some 0x021d800100008069, None] sample_rt = Some (r, rest, s') \<Longrightarrow> rest = []"
  by (simp add: rootRetain_run_def sample_env(2) class_object_def sample_words(1) nonpointer_def)
    (auto simp: rootRetain_loop.simps sample_words(1) isDeallocating_def addc_def sample_defs)

lemma sample_release_rest:
  "rootRelease_run sample_env 0x1000 True Fast [None, Some 0x021d800100008069, None] sample_rt = Some (r, rest, s') \<Longrightarrow> rest = []"
  by (simp add: rootRelease_run_def sample_env(2) class_object_def sample_words(1) nonpointer_def)
    (auto simp: rootRelease_loop.simps sample_words(1) isDeallocating_def subc_def sample_defs)

subsection \<open>Properties\<close>

text \<open>
  C1: On every build, \<open>rootRetain\<close> of an object with a packed \<open>isa\<close> returns, whatever other threads
  do to the inline count in between, with the side-table lock released. Of the interference, the
  part \<open>pre\<close> happened before the access that decided the call and \<open>rest\<close> did not; the outcome is that
  of one retain of the word that the last store of \<open>pre\<close> left in memory, so no store of another
  thread is lost: when the object is deallocating nothing changes, and otherwise the total count
  (inline and side table together) is one more than the count at that moment, also when the inline
  count overflows and half of it moves to the side table. The class and the marks of the object
  stay, and no other object, weak reference or message is touched.
\<close>

theorem rootRetain_linearizes:
  assumes "layout E \<in> set isa_layouts" and "rr_ready E obj s" and "st_room E s"
    and "rc_total E obj s < 2 ^ 60" and "inline_script E obj s sc" and "variant \<noteq> FastOrMsgSend"
  shows "\<exists>r s' pre rest. rootRetain_run E obj False variant sc s = Some (r, rest, s') \<and>
    rootRetain E obj False variant sc s = Some (r, s') \<and> sc = pre @ rest \<and>
    retained E obj False (last_word pre (isa_bits s obj)) s r s'"
proof -
  note P = build_packed [OF assms(1)]
  show ?thesis
    using packed_env.rootRetain_spec [OF P, of s obj sc False variant] packed_env.count_fits [OF P _ assms(4)] assms
    by (auto simp: rr_ready_def rootRetain_def)
qed

theorem rootRetain_linearizes_witness:
  "\<exists>r s'. rootRetain sample_env 0x1000 False Fast [None, Some 0x021d800100008069, None] sample_rt = Some (r, s') \<and>
     rc_total sample_env 0x1000 s' = 3"
proof -
  let ?sc = "[None, Some 0x021d800100008069, None]"
  obtain r s' pre rest where *: "rootRetain_run sample_env 0x1000 False Fast ?sc sample_rt = Some (r, rest, s')"
    "rootRetain sample_env 0x1000 False Fast ?sc sample_rt = Some (r, s')" "?sc = pre @ rest"
    "retained sample_env 0x1000 False (last_word pre (isa_bits sample_rt 0x1000)) sample_rt r s'"
    using rootRetain_linearizes [of sample_env "0x1000" sample_rt ?sc Fast] sample_env(1) sample_rt sample_script
    by auto
  have "rest = []" using *(1) sample_retain_rest by simp
  then have "retained sample_env 0x1000 False 0x021d800100008069 sample_rt r s'" using *(3,4) by auto
  then show ?thesis using *(2) sample_words by (simp add: retained_def)
qed

text \<open>
  C3: On every build, \<open>rootRelease\<close> of an object with a packed \<open>isa\<close> returns, whatever other threads
  do to the inline count in between, with the side-table lock released. Of the interference, the
  part \<open>pre\<close> happened before the access that decided the call and \<open>rest\<close> did not; the outcome is that
  of one release of the word that the last store of \<open>pre\<close> left in memory, so no store of another
  thread is lost: nothing is done to a deallocating object, and otherwise one is taken from the total
  count, borrowing from the side table when the inline count is used up; it returns true, and
  sends \<open>dealloc\<close> if \<open>performDealloc\<close> is set, exactly when the total count has become zero. The class and
  the marks of the object stay. (The comment before \<open>rootRelease()\<close> says that it does not call
  \<open>-dealloc\<close>; it passes \<open>performDealloc = true\<close> and does.)
\<close>

theorem rootRelease_linearizes:
  assumes "layout E \<in> set isa_layouts" and "rr_ready E obj s" and "st_room E s"
    and "inline_script E obj s sc" and "variant \<noteq> FastOrMsgSend"
  shows "\<exists>r s' pre rest. rootRelease_run E obj performDealloc variant sc s = Some (r, rest, s') \<and>
    rootRelease E obj performDealloc variant sc s = Some (r, s') \<and> sc = pre @ rest \<and>
    released E obj performDealloc (last_word pre (isa_bits s obj)) s r s'"
  using packed_env.rootRelease_spec [OF build_packed [OF assms(1)], of s obj sc variant performDealloc] assms
  by (auto simp: rr_ready_def rootRelease_def)

theorem rootRelease_linearizes_witness:
  "\<exists>s'. rootRelease sample_env 0x1000 True Fast [None, Some 0x021d800100008069, None] sample_rt = Some (False, s') \<and>
     rc_total sample_env 0x1000 s' = 1 \<and> sent s' = []"
proof -
  let ?sc = "[None, Some 0x021d800100008069, None]"
  obtain r s' pre rest where *: "rootRelease_run sample_env 0x1000 True Fast ?sc sample_rt = Some (r, rest, s')"
    "rootRelease sample_env 0x1000 True Fast ?sc sample_rt = Some (r, s')" "?sc = pre @ rest"
    "released sample_env 0x1000 True (last_word pre (isa_bits sample_rt 0x1000)) sample_rt r s'"
    using rootRelease_linearizes [of sample_env "0x1000" sample_rt ?sc Fast True] sample_env(1) sample_rt sample_script
    by auto
  have "rest = []" using *(1) sample_release_rest by simp
  then have rel: "released sample_env 0x1000 True 0x021d800100008069 sample_rt r s'" using *(3,4) by auto
  then have r: "\<not> r" "rc_total sample_env 0x1000 s' = 1" using sample_words by (simp_all add: released_def)
  have "same_rest sample_env 0x1000 sample_rt s'" using rel r(1) by (simp add: released_def)
  then have "sent s' = []" using same_restD(3) sample_rt(4) by metis
  with *(2) r show ?thesis by simp
qed

text \<open>
  C7: A thread that retains and releases an object any number of times leaves exactly the count an
  abstract counter has, and \<open>dealloc\<close> is sent exactly once, by the release that brings the count
  to zero, and never if the count does not reach zero. The releases are \<open>rootRelease()\<close>, which is
  \<open>rootRelease(true, Fast)\<close>: its comment "Does not call -dealloc" is not what it does.
\<close>

theorem rr_run_deallocates_once:
  assumes "layout E \<in> set isa_layouts" and "rr_run E obj s ops s'" and "rr_ready E obj s"
    and "0 < rc_total E obj s" and "rc_total E obj s + length ops < 2 ^ 60"
  shows "rc_total E obj s' = rr_count (rc_total E obj s) ops \<and> rr_ready E obj s' \<and>
    sent s' = sent s @ (if rr_count (rc_total E obj s) ops = 0 then [Dealloc obj] else [])"
  using packed_env.rr_run_spec [OF build_packed [OF assms(1)] assms(2,3,5)] assms(4) by simp

theorem rr_run_deallocates_once_witness:
  "\<exists>s'. rr_run sample_env 0x1000 sample_rt [Release] s' \<and> sent s' = [Dealloc 0x1000]"
proof -
  note P = build_packed [OF sample_env(1)]
  obtain s' where "rootRelease sample_env 0x1000 True Fast [] sample_rt = Some (True, s')"
    using packed_env.release_alone [OF P sample_rt(1,3)] sample_rt(2) by auto
  then have run: "rr_run sample_env 0x1000 sample_rt [Release] s'"
    using sample_rt(3) by (auto intro: rr_run.intros)
  show ?thesis
    using rr_run_deallocates_once [OF sample_env(1) run sample_rt(1)] sample_rt(2,4) run by auto
qed

text \<open>
  C22: A newly initialised instance has the class it was given, no flags, a total count of one, and
  \<open>rootRetainCount\<close> reports that count; on any object with a packed \<open>isa\<close> \<open>rootRetainCount\<close> reports
  the total of the inline and the side-table count and changes nothing.
\<close>

theorem new_instance_retainCount:
  assumes "layout E \<in> set isa_layouts" and "st_ok E s" "obj_addr obj" "\<not> isTaggedPointer E obj" "\<not> locked E obj s"
    and "counts E s obj = 0"
    and "unat cls < 2 ^ (3 + shiftcls_width (layout E))" and "take_bit 3 cls = 0"
  shows "ISA E obj (initInstanceIsa E obj cls dtor s) = cls \<and>
    rootRetainCount E obj (initInstanceIsa E obj cls dtor s) = Some (1, initInstanceIsa E obj cls dtor s) \<and>
    (\<forall>t. rr_ready E obj t \<longrightarrow> (\<exists>n. rootRetainCount E obj t = Some (n, t) \<and> unat n = rc_total E obj t))"
proof -
  note P = build_packed [OF assms(1)]
  let ?s = "initInstanceIsa E obj cls dtor s"
  note r = packed_env.initInstanceIsa_ready [OF P assms(2-6), of cls dtor]
  have all: "\<exists>n. rootRetainCount E obj t = Some (n, t) \<and> unat n = rc_total E obj t" if "rr_ready E obj t" for t
    using packed_env.rootRetainCount_spec [OF P, of t obj] packed_env.unat_retainCount [OF P, of obj t] that
    by (simp add: rr_ready_def)
  from all [OF r(1)] r(2) obtain n where "rootRetainCount E obj ?s = Some (n, ?s)" "unat n = 1" by auto
  moreover from this(2) have "n = 1" by (simp add: word_unat_eq_iff)
  moreover have "ISA E obj ?s = cls"
    using packed_env.initInstanceIsa_fields(6) [OF P assms(7,8)] by (simp add: ISA_def)
  ultimately show ?thesis using all by blast
qed

theorem new_instance_retainCount_witness:
  "rootRetainCount sample_env 0x1000 sample_rt = Some (1, sample_rt)"
  using new_instance_retainCount [of sample_env "rt_start sample_env" "0x1000" "0x100008068" False]
    sample_env rt_start_simps [of sample_env]
  by (simp add: sample_rt_def) (simp add: sample_env_def macos_env_def isa_x86_64_def)

context packed_env
begin

lemma tryRetain_alone:
  assumes "st_ok E s" "st_room E s" "obj_addr obj" "\<not> isTaggedPointer E obj"
    and "packed_inv E obj s" "locked E obj s" and "rc_total E obj s < 2 ^ 60"
  shows "\<exists>s'. rootTryRetain E obj [] s = Some (rc_total E obj s \<noteq> 0, s') \<and> locked E obj s' \<and>
    rc_total E obj s' = (if rc_total E obj s = 0 then 0 else rc_total E obj s + 1)"
proof -
  obtain r s' where *: "rootRetain E obj True Fast [] s = Some (r, s')" "retained E obj True (isa_bits s obj) s r s'"
    using rootRetain_spec [of s obj "[]" True Fast] count_fits [OF assms(5,7)] assms
    by (auto simp: inline_script_def rootRetain_def)
  have z: "rc_total E obj s = 0 \<longleftrightarrow> isDeallocating (layout E) (isa_bits s obj)" using rc_total_zero [OF assms(5)] .
  have "obj \<noteq> 0" using assms(3) by (simp add: obj_addr_def)
  then have r: "r \<noteq> Id 0 \<longleftrightarrow> rc_total E obj s \<noteq> 0" using *(2) z by (auto simp: retained_def split: if_splits)
  have "rc_total E obj s' = rc_total E obj s" if "isDeallocating (layout E) (isa_bits s obj)"
    using *(2) that by (simp add: retained_def rc_total_def)
  then have "rc_total E obj s' = (if rc_total E obj s = 0 then 0 else rc_total E obj s + 1)"
    using *(2) z by (cases "isDeallocating (layout E) (isa_bits s obj)") (simp_all add: retained_def)
  moreover have "locked E obj s'" using *(2) by (simp add: retained_def)
  ultimately show ?thesis using *(1) r by (simp add: rootTryRetain_def)
qed

end

text \<open>
  \<open>rootTryRetain\<close>, called with the side-table lock held and without interference, fails exactly
  when the object is deallocating; it never resurrects an object, and it leaves the lock held.
\<close>

theorem rootTryRetain_fails_iff_deallocating:
  assumes "layout E \<in> set isa_layouts" and "st_ok E s" "st_room E s" "obj_addr obj" "\<not> isTaggedPointer E obj"
    and "packed_inv E obj s" "locked E obj s" and "rc_total E obj s < 2 ^ 60"
  shows "\<exists>s'. rootTryRetain E obj [] s = Some (rc_total E obj s \<noteq> 0, s') \<and> locked E obj s' \<and>
    rc_total E obj s' = (if rc_total E obj s = 0 then 0 else rc_total E obj s + 1)"
  using packed_env.tryRetain_alone [OF build_packed [OF assms(1)] assms(2-8)] .

theorem rootTryRetain_fails_iff_deallocating_witness:
  "\<exists>s'. rootTryRetain sample_env 0x1000 [] (set_slock sample_env 0x1000 True sample_rt) = Some (True, s')"
proof -
  let ?s = "set_slock sample_env 0x1000 True sample_rt"
  have "packed_inv sample_env 0x1000 ?s" "rc_total sample_env 0x1000 ?s = 1" "st_ok sample_env ?s"
    using sample_rt(1,2) by (simp_all add: rr_ready_def packed_inv_def rc_total_def)
  then show ?thesis
    using rootTryRetain_fails_iff_deallocating [of sample_env ?s "0x1000"] sample_env sample_rt(3) by auto
qed

end
