(* ===== verification/IsaChanges.thy ===== *)
theory IsaChanges
  imports RefCounting
begin

text \<open>
  Changing the class of an object (\<open>changeIsa\<close>), the interference that \<open>rootTryRetain\<close> and
  \<open>changeIsa\<close> do not survive, and the cleanup at deallocation (\<open>clearDeallocating\<close>).
\<close>

subsection \<open>From a packed to a raw isa\<close>

definition packable :: "env \<Rightarrow> u64 \<Rightarrow> bool" where
  "packable E cls \<longleftrightarrow> \<not> isFuture (classes E cls) \<and> canAllocNonpointer (classes E cls)"

lemma side_rc_or_flags: "side_rc (c OR 2) = side_rc c" "side_rc (c OR 1) = side_rc c"
proof -
  have "unat (drop_bit 2 c) = side_rc c" for c :: u64
    unfolding unat_drop_bit_eq side_rc_def by (simp add: drop_bit_eq_div)
  moreover have "drop_bit 2 (c OR 2) = drop_bit 2 c" "drop_bit 2 (c OR 1) = drop_bit 2 c"
    by (simp_all add: drop_bit_or)
  ultimately show "side_rc (c OR 2) = side_rc c" "side_rc (c OR 1) = side_rc c" by metis+
qed

context packed_env
begin

lemma raw_setClass: "nonpointer (setClass (layout E) cls 0) = False"
  using setClass_simps(1) [of cls 0] by (simp add: nonpointer_def)

lemma changeIsa_raw:
  assumes ready: "rr_ready E obj s" and room: "st_room E s" and np: "\<not> packable E cls"
  defines "w \<equiv> isa_bits s obj"
  defines "moved \<equiv> addc (counts E s obj) (push_bit SIDE_TABLE_RC_SHIFT (extra_rc (layout E) w - 1))"
  shows "\<exists>s'. changeIsa E obj cls [] s = Some (getDecodedClass (layout E) w, s') \<and> st_ok E s' \<and>
    \<not> locked E obj s' \<and> same_rest E obj s s' \<and> isa_bits s' obj = setClass (layout E) cls 0 \<and>
    counts E s' obj = (if snd moved then SIDE_TABLE_RC_PINNED else fst moved)
      OR (if isDeallocating (layout E) w then SIDE_TABLE_DEALLOCATING else 0)
      OR (if weakly_referenced (layout E) w then SIDE_TABLE_WEAKLY_REFERENCED else 0)"
proof -
  let ?L = "layout E"
  let ?s = "store_isa obj (setClass ?L cls 0) (set_slock E obj True s)"
  have w: "nonpointer w" using ready by (simp add: rr_ready_def packed_inv_def w_def)
  have lk: "\<not> locked E obj s" "st_ok E s" "obj_addr obj" using ready by (simp_all add: rr_ready_def)
  have lock: "sidetable_lock E obj s = Some (set_slock E obj True s)" using lk by (simp add: lock_eq)
  obtain s' where s': "sidetable_moveExtraRC_nolock E obj (extra_rc ?L w) (isDeallocating ?L w) (weakly_referenced ?L w) ?s
      = Some s'" "st_ok E s'" "frame ?s s'"
    "counts E s' = (counts E ?s)(obj := (if snd moved then SIDE_TABLE_RC_PINNED else fst moved)
      OR (if isDeallocating ?L w then SIDE_TABLE_DEALLOCATING else 0)
      OR (if weakly_referenced ?L w then SIDE_TABLE_WEAKLY_REFERENCED else 0))"
    using moveExtraRC_spec [of E ?s obj "extra_rc ?L w" "isDeallocating ?L w" "weakly_referenced ?L w"] lk(2,3) room
    by (auto simp: moved_def)
  have "locked E obj s'" using locked_frame [OF s'(3)] by simp
  then have "changeIsa E obj cls [] s = Some (getDecodedClass ?L w, set_slock E obj False s')"
    using w np lock s'(1)
    by (auto simp: changeIsa_def changeIsa_loop.simps packable_def unlock_eq Let_def w_def)
  moreover have "same_rest E obj s s'" using frame_same_rest [OF s'(3), of E obj] by simp
  moreover have "isa_bits s' obj = setClass ?L cls 0" using s'(3) by (simp add: frame_def)
  ultimately show ?thesis using s'(2,4) by simp
qed

lemma changeIsa_packed:
  assumes ready: "rr_ready E obj s" and p: "packable E cls"
  defines "w \<equiv> isa_bits s obj"
  shows "changeIsa E obj cls [] s = Some (getDecodedClass (layout E) w,
    store_isa obj (setClass (layout E) cls (set_has_cxx_dtor (layout E) (cls_hasCxxDtor (classes E cls)) w)) s)"
proof -
  have w: "nonpointer w" using ready by (simp add: rr_ready_def packed_inv_def w_def)
  then have "w \<noteq> 0" by (auto simp: nonpointer_def)
  with w p show ?thesis by (auto simp: changeIsa_def changeIsa_loop.simps packable_def Let_def w_def)
qed

text \<open>Moving a count of at least one to the side table loses nothing.\<close>

lemma move_count:
  assumes inv: "packed_inv E obj s" and one: "0 < rc (isa_bits s obj)" and small: "rc_total E obj s < 2 ^ 60"
  defines "moved \<equiv> addc (counts E s obj) (push_bit SIDE_TABLE_RC_SHIFT (extra_rc (layout E) (isa_bits s obj) - 1))"
  shows "\<not> snd moved" and "1 + side_rc (fst moved) = rc_total E obj s"
proof -
  let ?n = "extra_rc (layout E) (isa_bits s obj)" and ?c = "counts E s obj"
  have n1: "unat (?n - 1) + 1 = rc (isa_bits s obj)" using one by (subst unat_sub) (simp_all add: word_le_nat_alt)
  have total: "rc_total E obj s = rc (isa_bits s obj) + side_rc ?c" using inv by (simp add: rc_total_def packed_inv_def)
  have "4 * H dvd unat ?c" using inv half(2) by (simp add: packed_inv_def)
  then have "4 dvd unat ?c" using dvd_mult_left by blast
  then have "unat ?c = 4 * side_rc ?c" by (simp add: side_rc_def)
  then have fits: "unat ?c + 4 * unat (?n - 1) < 2 ^ 63" using small total n1 by simp
  note a = side_rc_add [OF fits]
  have "unat (push_bit SIDE_TABLE_RC_SHIFT (?n - 1)) = 4 * unat (?n - 1)" using fits by (intro unat_shift2) simp
  then show "\<not> snd moved" using fits by (simp add: moved_def addc_def)
  show "1 + side_rc (fst moved) = rc_total E obj s" using a(2) n1 total by (simp add: moved_def addc_def)
qed

text \<open>An inline count of zero is moved as the 64-bit word with all count bits set.\<close>

lemma move_empty_count:
  assumes inv: "packed_inv E obj s" and zero: "rc (isa_bits s obj) = 0" and c0: "counts E s obj \<noteq> 0"
  defines "moved \<equiv> addc (counts E s obj) (push_bit SIDE_TABLE_RC_SHIFT (extra_rc (layout E) (isa_bits s obj) - 1))"
  shows "snd moved"
proof -
  have n: "extra_rc (layout E) (isa_bits s obj) = 0" using zero by (simp add: unat_eq_zero)
  have "unat (push_bit SIDE_TABLE_RC_SHIFT (0 - 1 :: u64)) = 2 ^ 64 - 4" by (simp add: SIDE_TABLE_RC_SHIFT_def mask_eq_exp_minus_1)
  moreover have "4 \<le> unat (counts E s obj)" using side_positive(1) [OF inv c0] one_le_power [of "2::nat"]
    by (metis le_trans mult.commute mult_le_mono1 nat_mult_1 one_le_numeral)
  ultimately show ?thesis by (simp add: moved_def addc_def n)
qed

end

subsection \<open>Cleanup at deallocation\<close>

text \<open>
  Whether the object is marked as weakly referenced, in its word or in its side-table count.
\<close>

definition marked_weak :: "env \<Rightarrow> u64 \<Rightarrow> rt \<Rightarrow> bool" where
  "marked_weak E obj s \<longleftrightarrow>
     (if nonpointer (isa_bits s obj) then weakly_referenced (layout E) (isa_bits s obj)
      else bit (counts E s obj) 0)"

definition nil_weak :: "env \<Rightarrow> u64 \<Rightarrow> rt \<Rightarrow> u64 \<Rightarrow> u64" where
  "nil_weak E obj s = (\<lambda>a. if a \<in># weaks E s obj \<and> vars s a = obj then 0 else vars s a)"

definition cleared :: "env \<Rightarrow> u64 \<Rightarrow> rt \<Rightarrow> rt \<Rightarrow> bool" where
  "cleared E obj s s' \<longleftrightarrow>
     st_ok E s' \<and> isa_bits s' = isa_bits s \<and> sent s' = sent s \<and> (\<forall>obj'. locked E obj' s' = locked E obj' s) \<and>
     vars s' = nil_weak E obj s \<and> counts E s' = (counts E s)(obj := 0) \<and> weaks E s' = (weaks E s)(obj := {#})"

lemma erase_key_count:
  assumes "st_ok E s" and "obj_addr obj"
  obtains b m where "dm_erase (refcnt_policy E) (disguised obj) (refcnts (table_for E obj s)) = Some (b, m)"
    and "dm_inv (refcnt_policy E) m"
    and "dm_view (refcnt_policy E) m = (dm_view (refcnt_policy E) (refcnts (table_for E obj s)))(disguised obj := 0)"
proof -
  let ?P = "refcnt_policy E" and ?k = "disguised obj" and ?m = "refcnts (table_for E obj s)"
  note i = st_okD(1) [OF assms(1), of obj] obj_addr_key [OF assms(2), of E]
  show ?thesis
  proof (cases "dm_map ?P ?m ?k")
    case None
    then show ?thesis using that [OF refs.dm_erase_absent [OF i None] i(1)] by (simp add: dm_view_def fun_eq_iff)
  next
    case (Some w)
    obtain m where m: "dm_erase ?P ?k ?m = Some (True, m)" "dm_inv ?P m"
      "dm_map ?P m = (dm_map ?P ?m)(?k := None) \<or> dm_map ?P m = purged ?P ((dm_map ?P ?m)(?k := None))"
      using refs.dm_erase_present [OF i Some] by blast
    from m(3) have "purge_le ?P ((dm_map ?P ?m)(?k := None)) (dm_map ?P m)" by (auto intro: purge_le_purged)
    from refs.view_purge [OF this] have "dm_view ?P m = (dm_view ?P ?m)(?k := 0)"
      by (auto simp: dm_view_def fun_eq_iff)
    then show ?thesis using that [OF m(1,2)] by blast
  qed
qed

text \<open>Clearing the weak references of the object in its locked side table.\<close>

lemma weak_clear_in_spec:
  assumes "st_ok E s" and "obj_addr obj"
  shows "\<exists>s'. weak_clear_in E obj s = Some s' \<and> st_ok E s' \<and> isa_bits s' = isa_bits s \<and> sent s' = sent s \<and>
    (\<forall>obj'. locked E obj' s' = locked E obj' s) \<and> vars s' = nil_weak E obj s \<and> counts E s' = counts E s \<and>
    (\<forall>obj'. refcnts (table_for E obj' s') = refcnts (table_for E obj' s)) \<and>
    weaks E s' = (weaks E s)(obj := {#})"
proof -
  let ?t = "table_for E obj s"
  have "obj \<noteq> 0" using assms(2) by (simp add: obj_addr_def)
  obtain w where w: "weak_clear_no_lock (weak_table ?t) obj (vars s) = Some (w, nil_weak E obj s)" "wt_inv w"
    "weak_view w = (weak_view (weak_table ?t))(obj := {#})"
    using weak_clear_spec [OF st_okD(2) [OF assms(1), of obj] \<open>obj \<noteq> 0\<close>, of "vars s"] weak_view_of_map(2)
    by (fastforce simp: nil_weak_def weaks_def)
  let ?s = "put_table E obj (?t\<lparr>weak_table := w\<rparr>) s\<lparr>vars := nil_weak E obj s\<rparr>"
  have "weak_clear_in E obj s = Some ?s" using w(1) by (simp add: weak_clear_in_def)
  moreover have "st_ok E ?s" using assms(1) w(2) by (auto simp: st_ok_def put_table_def table_for_def)
  moreover have "weaks E ?s = (weaks E s)(obj := {#})"
    using w(3) by (auto simp: weaks_def put_table_def table_for_def fun_eq_iff)
  ultimately show ?thesis
    by (auto simp: put_table_def table_for_def locked_def counts_def fun_eq_iff)
qed

lemma nil_weak_none: "weaks E s obj = {#} \<Longrightarrow> nil_weak E obj s = vars s"
  by (simp add: nil_weak_def)

lemma clear_if_marked:
  assumes "st_ok E s" and "obj_addr obj" and "weaks E s obj \<noteq> {#} \<longrightarrow> b"
  shows "\<exists>s'. (if b then weak_clear_in E obj s else Some s) = Some s' \<and> st_ok E s' \<and> isa_bits s' = isa_bits s \<and>
    sent s' = sent s \<and> (\<forall>obj'. locked E obj' s' = locked E obj' s) \<and> vars s' = nil_weak E obj s \<and>
    counts E s' = counts E s \<and> (\<forall>obj'. refcnts (table_for E obj' s') = refcnts (table_for E obj' s)) \<and>
    weaks E s' = (weaks E s)(obj := {#})"
proof (cases b)
  case True
  then show ?thesis using weak_clear_in_spec [OF assms(1,2)] by simp
next
  case False
  with assms(3) have "weaks E s obj = {#}" by blast
  then show ?thesis using False assms(1) by (auto simp: nil_weak_none fun_eq_iff)
qed

lemma cleared_unlock:
  assumes "\<not> locked E obj s" and "isa_bits s2 = isa_bits s" "sent s2 = sent s"
    "\<forall>obj'. locked E obj' s2 = locked E obj' (set_slock E obj True s)" "vars s2 = nil_weak E obj s"
    "counts E s2 = (counts E s)(obj := 0)" "weaks E s2 = (weaks E s)(obj := {#})" "st_ok E s2"
  shows "\<exists>s'. sidetable_unlock E obj s2 = Some s' \<and> cleared E obj s s'"
proof -
  have lk: "locked E obj s2" using assms(4) by simp
  have same: "locked E o' (set_slock E obj b t) = (if indexForPointer E o' = indexForPointer E obj then b else locked E o' t)"
    for o' b t by (simp add: locked_def set_slock_def put_table_def table_for_def)
  have "locked E o' (set_slock E obj False s2) = locked E o' s" for o'
    using assms(1,4) same [of o' False s2] same [of o' True s]
    by (auto simp: locked_def table_for_def split: if_splits)
  then show ?thesis using lk assms by (auto simp: unlock_eq cleared_def)
qed

lemma sidetable_clearDeallocating_spec:
  assumes "st_ok E s" and "obj_addr obj" and nl: "\<not> locked E obj s"
    and marked: "weaks E s obj \<noteq> {#} \<longrightarrow> bit (counts E s obj) 0"
  shows "\<exists>s'. sidetable_clearDeallocating E obj s = Some s' \<and> cleared E obj s s'"
proof -
  let ?s = "set_slock E obj True s"
  have ok: "st_ok E ?s" using assms(1) by simp
  have lock: "sidetable_lock E obj s = Some ?s" using nl by (simp add: lock_eq)
  have nw: "nil_weak E obj ?s = nil_weak E obj s" by (simp add: nil_weak_def fun_eq_iff)
  show ?thesis
  proof (cases rule: find_count [OF ok assms(2)])
    case 1
    then have "\<not> bit (counts E s obj) 0" by simp
    then have w: "weaks E s obj = {#}" using marked by blast
    have "\<exists>s'. sidetable_unlock E obj ?s = Some s' \<and> cleared E obj s s'"
      using 1(2) w assms(1) nl nil_weak_none [OF w] by (intro cleared_unlock) (auto simp: fun_eq_iff)
    then show ?thesis using lock 1(1) by (simp add: sidetable_clearDeallocating_def Let_def)
  next
    case (2 it m')
    let ?m = "refcnts (table_for E obj ?s)"
    have flag: "has_flag (getSecond ?m it) SIDE_TABLE_WEAKLY_REFERENCED = bit (counts E s obj) 0"
      using 2(3) by (simp add: weak_flag_iff)
    obtain s1 where s1: "(if bit (counts E s obj) 0 then weak_clear_in E obj ?s else Some ?s) = Some s1" "st_ok E s1"
      "isa_bits s1 = isa_bits s" "sent s1 = sent s" "\<forall>o'. locked E o' s1 = locked E o' ?s" "vars s1 = nil_weak E obj s"
      "counts E s1 = counts E s" "refcnts (table_for E obj s1) = ?m" "weaks E s1 = (weaks E s)(obj := {#})"
      using clear_if_marked [OF ok assms(2), of "bit (counts E s obj) 0"] marked nw by auto
    have v: "dm_view (refcnt_policy E) m' = (dm_view (refcnt_policy E) (refcnts (table_for E obj s1)))(disguised obj := 0)"
      using 2(8) s1(8) by simp
    note p = put_refcnts_spec [OF s1(2) 2(7) v]
    have "\<exists>s'. sidetable_unlock E obj (put_refcnts E obj m' s1) = Some s' \<and> cleared E obj s s'"
      using p s1 nl locked_frame [OF p(2)] weaks_frame [OF p(2)] by (intro cleared_unlock) (auto simp: frame_def)
    then show ?thesis
      using lock 2(1,2,6) flag s1(1) by (simp add: sidetable_clearDeallocating_def Let_def)
  qed
qed

lemma clearDeallocating_slow_spec:
  assumes "st_ok E s" and "obj_addr obj" and nl: "\<not> locked E obj s"
    and marked: "weaks E s obj \<noteq> {#} \<longrightarrow> weakly_referenced (layout E) (isa_bits s obj)"
    and side: "counts E s obj \<noteq> 0 \<longrightarrow> has_sidetable_rc (layout E) (isa_bits s obj)"
  shows "\<exists>s'. clearDeallocating_slow E obj s = Some s' \<and> cleared E obj s s'"
proof -
  let ?s = "set_slock E obj True s" and ?w = "isa_bits s obj"
  have ok: "st_ok E ?s" using assms(1) by simp
  have lock: "sidetable_lock E obj s = Some ?s" using nl by (simp add: lock_eq)
  have nw: "nil_weak E obj ?s = nil_weak E obj s" by (simp add: nil_weak_def fun_eq_iff)
  obtain s1 where s1: "(if weakly_referenced (layout E) ?w then weak_clear_in E obj ?s else Some ?s) = Some s1" "st_ok E s1"
    "isa_bits s1 = isa_bits s" "sent s1 = sent s" "\<forall>o'. locked E o' s1 = locked E o' ?s" "vars s1 = nil_weak E obj s"
    "counts E s1 = counts E s" "weaks E s1 = (weaks E s)(obj := {#})"
    using clear_if_marked [OF ok assms(2), of "weakly_referenced (layout E) ?w"] marked nw by auto
  show ?thesis
  proof (cases "has_sidetable_rc (layout E) ?w")
    case True
    obtain b m where m: "dm_erase (refcnt_policy E) (disguised obj) (refcnts (table_for E obj s1)) = Some (b, m)"
      "dm_inv (refcnt_policy E) m"
      "dm_view (refcnt_policy E) m = (dm_view (refcnt_policy E) (refcnts (table_for E obj s1)))(disguised obj := 0)"
      using erase_key_count [OF s1(2) assms(2)] by blast
    note p = put_refcnts_spec [OF s1(2) m(2,3)]
    have "\<exists>s'. sidetable_unlock E obj (put_refcnts E obj m s1) = Some s' \<and> cleared E obj s s'"
      using p s1 nl locked_frame [OF p(2)] weaks_frame [OF p(2)] by (intro cleared_unlock) (auto simp: frame_def)
    then show ?thesis using lock s1(1,3) m(1) True by (simp add: clearDeallocating_slow_def)
  next
    case False
    then have c: "counts E s obj = 0" using side by blast
    have "\<exists>s'. sidetable_unlock E obj s1 = Some s' \<and> cleared E obj s s'"
      using s1 nl c by (intro cleared_unlock) (auto simp: fun_eq_iff)
    then show ?thesis using lock s1(1,3) False by (simp add: clearDeallocating_slow_def)
  qed
qed

lemma cleared_refl:
  assumes "st_ok E s" and "counts E s obj = 0" and "weaks E s obj = {#}"
  shows "cleared E obj s s"
  using assms by (auto simp: cleared_def nil_weak_none fun_eq_iff)

subsection \<open>Class changes as a whole\<close>

context packed_env
begin

lemma move_count_flags:
  assumes inv: "packed_inv E obj s" and one: "0 < rc (isa_bits s obj)" and small: "rc_total E obj s < 2 ^ 60"
  shows "\<not> bit (fst (addc (counts E s obj) (push_bit SIDE_TABLE_RC_SHIFT (extra_rc (layout E) (isa_bits s obj) - 1)))) 0"
proof -
  let ?c = "counts E s obj"
  have "4 * H dvd unat ?c" using inv half(2) by (simp add: packed_inv_def)
  then have "even (unat ?c)" using dvd_mult_left [of 4 H] by (metis dvd_trans even_numeral)
  then have "\<not> bit ?c 0" using bit_unat [of ?c 0] by (simp add: bit_0)
  then show ?thesis by (simp add: addc_def SIDE_TABLE_RC_SHIFT_def bit_0)
qed

lemma changeIsa_total:
  assumes ready: "rr_ready E obj s" and room: "st_room E s" and small: "rc_total E obj s < 2 ^ 60"
    and cls: "unat cls < 2 ^ (3 + shiftcls_width (layout E))" "take_bit 3 cls = 0"
    and move: "packable E cls \<or> 0 < rc (isa_bits s obj)"
  shows "\<exists>s'. changeIsa E obj cls [] s = Some (ISA E obj s, s') \<and> st_ok E s' \<and> \<not> locked E obj s' \<and>
    same_rest E obj s s' \<and> ISA E obj s' = cls \<and> rc_total E obj s' = rc_total E obj s \<and>
    marked_weak E obj s' = marked_weak E obj s \<and> nonpointer (isa_bits s' obj) = packable E cls"
proof (cases "packable E cls")
  case True
  let ?w = "isa_bits s obj"
  let ?v = "setClass (layout E) cls (set_has_cxx_dtor (layout E) (cls_hasCxxDtor (classes E cls)) ?w)"
  have "getDecodedClass (layout E) ?v = cls" using getClass_setClass [OF cls] by (simp add: getDecodedClass_def)
  moreover have "nonpointer ?w" using ready by (simp add: rr_ready_def packed_inv_def)
  ultimately show ?thesis
    using changeIsa_packed [OF ready True] True ready
    by (simp add: ISA_def rc_total_def marked_weak_def rr_ready_def)
next
  case False
  let ?w = "isa_bits s obj"
  have inv: "packed_inv E obj s" using ready by (simp add: rr_ready_def)
  have one: "0 < rc ?w" using move False by simp
  then have nd: "\<not> isDeallocating (layout E) ?w" by (simp add: isDeallocating_iff)
  note m = move_count [OF inv one small] move_count_flags [OF inv one small]
  obtain s' where s': "changeIsa E obj cls [] s = Some (getDecodedClass (layout E) ?w, s')" "st_ok E s'"
    "\<not> locked E obj s'" "same_rest E obj s s'" "isa_bits s' obj = setClass (layout E) cls 0"
    "counts E s' obj = fst (addc (counts E s obj) (push_bit SIDE_TABLE_RC_SHIFT (extra_rc (layout E) ?w - 1)))
      OR (if weakly_referenced (layout E) ?w then SIDE_TABLE_WEAKLY_REFERENCED else 0)"
    using changeIsa_raw [OF ready room False] m(1) nd by auto
  have "side_rc (counts E s' obj) = rc_total E obj s - 1" "bit (counts E s' obj) 0 = weakly_referenced (layout E) ?w"
    using s'(6) m(2,3) side_rc_or_flags by (auto simp: SIDE_TABLE_WEAKLY_REFERENCED_def bit_or_iff)
  moreover have "nonpointer ?w" using inv by (simp add: packed_inv_def)
  moreover have "0 < rc_total E obj s" using m(2) by simp
  ultimately show ?thesis
    using s'(1-5) False getClass_setClass [OF cls] raw_setClass [of cls]
    by (simp add: rc_total_def [of E obj s'] marked_weak_def ISA_def getDecodedClass_def)
qed

end

subsection \<open>Properties\<close>

text \<open>
  C21: When no other thread interferes, \<open>changeIsa\<close> of an object with a packed \<open>isa\<close> returns its old class
  and makes \<open>newCls\<close> its class; the total reference count and the mark of weakly referenced objects
  survive, also when the new class needs a raw \<open>isa\<close> and both move to the side table, provided that
  then the inline count is not zero. The lock is released, and no other object is touched. The last
  section shows that both conditions are needed.
\<close>

theorem changeIsa_keeps_count:
  assumes "layout E \<in> set isa_layouts" and "rr_ready E obj s" and "st_room E s" and "rc_total E obj s < 2 ^ 60"
    and "unat newCls < 2 ^ (3 + shiftcls_width (layout E))" and "take_bit 3 newCls = 0"
    and "packable E newCls \<or> extra_rc (layout E) (isa_bits s obj) \<noteq> 0"
  shows "\<exists>s'. changeIsa E obj newCls [] s = Some (ISA E obj s, s') \<and> st_ok E s' \<and> \<not> locked E obj s' \<and>
    same_rest E obj s s' \<and> ISA E obj s' = newCls \<and> rc_total E obj s' = rc_total E obj s \<and>
    marked_weak E obj s' = marked_weak E obj s \<and> nonpointer (isa_bits s' obj) = packable E newCls"
  using packed_env.changeIsa_total [OF build_packed [OF assms(1)] assms(2-6)] assms(7) by (simp add: unat_gt_0)

theorem changeIsa_keeps_count_witness:
  "\<exists>s'. changeIsa sample_env 0x1000 0x100009000 [] sample_rt = Some (0x100008068, s') \<and>
     ISA sample_env 0x1000 s' = 0x100009000 \<and> rc_total sample_env 0x1000 s' = 1"
proof -
  note P = build_packed [OF sample_env(1)]
  have w: "shiftcls_width (layout sample_env) = 44" by (simp add: sample_env_def macos_env_def isa_x86_64_def)
  have "packable sample_env 0x100009000" by (simp add: packable_def sample_env_def macos_env_def)
  moreover have "ISA sample_env 0x1000 sample_rt = 0x100008068"
    using packed_env.initInstanceIsa_fields(6) [OF P, of "0x100008068"] w by (simp add: ISA_def sample_rt_def)
  ultimately show ?thesis
    using changeIsa_keeps_count [OF sample_env(1) sample_rt(1,3), of "0x100009000"] sample_rt(2) w by auto
qed

lemma clearDeallocating_run:
  assumes "st_ok E s" and "obj_addr obj" and "\<not> locked E obj s"
    and "weaks E s obj \<noteq> {#} \<longrightarrow> marked_weak E obj s"
    and "nonpointer (isa_bits s obj) \<longrightarrow> counts E s obj \<noteq> 0 \<longrightarrow> has_sidetable_rc (layout E) (isa_bits s obj)"
  shows "\<exists>s'. clearDeallocating E obj s = Some s' \<and> cleared E obj s s'"
proof (cases "nonpointer (isa_bits s obj)")
  case True
  show ?thesis
  proof (cases "weakly_referenced (layout E) (isa_bits s obj) \<or> has_sidetable_rc (layout E) (isa_bits s obj)")
    case slow: True
    then show ?thesis
      using clearDeallocating_slow_spec [OF assms(1-3)] assms(4,5) True by (simp add: marked_weak_def clearDeallocating_def Let_def)
  next
    case False
    then show ?thesis using cleared_refl [OF assms(1), of obj] assms(4,5) True
      by (auto simp: marked_weak_def clearDeallocating_def Let_def)
  qed
next
  case False
  then show ?thesis
    using sidetable_clearDeallocating_spec [OF assms(1-3)] assms(4) by (simp add: marked_weak_def clearDeallocating_def Let_def)
qed

text \<open>A state in which the sample object has a weak variable and counts in its side table.\<close>

lemma marked_sample:
  obtains s where "st_ok sample_env s" "\<not> locked sample_env 0x1000 s" "isa_bits s 0x1000 = 0x00bd800100008069"
    "weaks sample_env s 0x1000 = {#0x20#}" "vars s 0x20 = 0x1000" "counts sample_env s 0x1000 = 0x200"
proof -
  let ?E = sample_env and ?o = "0x1000 :: u64"
  let ?t = "table_for ?E ?o (rt_start ?E)"
  obtain w where w: "wt_inv w" "weak_map w = (weak_map weak_table_zero)(?o \<mapsto> add_mset 0x20 (weak_view weak_table_zero ?o))"
    using weak_remember [of weak_table_zero "\<lambda>r. r = 0" ?o "0x20" DontCheckDeallocating] by auto
  define s1 where "s1 = (put_table ?E ?o (?t\<lparr>weak_table := w\<rparr>) (rt_start ?E))
    \<lparr>vars := (\<lambda>_. 0)(0x20 := ?o), isa_bits := (\<lambda>_. 0)(?o := 0x00bd800100008069)\<rparr>"
  note start = rt_start_simps [of ?E]
  have c: "counts ?E s1 = (\<lambda>_. 0)"
    using start(3) by (auto simp: counts_def s1_def put_table_def table_for_def fun_eq_iff) metis
  have ok: "st_ok ?E s1" "st_room ?E s1"
    using start(1,2) w(1) by (auto simp: st_ok_def st_room_def s1_def put_table_def table_for_def)
  obtain s where s: "st_ok ?E s" "frame s1 s" "counts ?E s = (counts ?E s1)(?o := counts ?E s1 ?o + push_bit SIDE_TABLE_RC_SHIFT 0x80)"
    using addExtraRC_spec [OF ok sample_env(3), of "0x80"] c by auto
  have "weaks ?E s ?o = {#0x20#}"
    using weaks_frame [OF s(2)] w(2) by (simp add: weaks_def s1_def put_table_def table_for_def weak_view_def)
  moreover have "\<not> locked ?E ?o s"
    using locked_frame [OF s(2)] start(4) by (simp add: locked_def s1_def put_table_def table_for_def)
  moreover have "counts ?E s ?o = 0x200" using s(3) c by (simp add: SIDE_TABLE_RC_SHIFT_def)
  ultimately show thesis using that s(1,2) by (simp add: frame_def s1_def)
qed

text \<open>
  C10: \<open>clearDeallocating\<close> cleans up after an object whose weak references and side-table count are
  marked: every weak variable registered for it that still holds the object becomes nil and no
  other variable changes, its weak entry and its side-table count are gone, those of other
  objects stay, and every lock is as before.
\<close>

theorem clearDeallocating_cleans_up:
  assumes "st_ok E s" and "obj_addr obj" and "\<not> locked E obj s"
    and "weaks E s obj \<noteq> {#} \<longrightarrow> marked_weak E obj s"
    and "nonpointer (isa_bits s obj) \<longrightarrow> counts E s obj \<noteq> 0 \<longrightarrow> has_sidetable_rc (layout E) (isa_bits s obj)"
  shows "\<exists>s'. clearDeallocating E obj s = Some s' \<and> cleared E obj s s'"
  using clearDeallocating_run [OF assms] .

theorem clearDeallocating_cleans_up_witness:
  "\<exists>s s'. weaks sample_env s 0x1000 = {#0x20#} \<and> vars s 0x20 = 0x1000 \<and> counts sample_env s 0x1000 = 0x200 \<and>
     clearDeallocating sample_env 0x1000 s = Some s' \<and> cleared sample_env 0x1000 s s' \<and>
     weaks sample_env s' 0x1000 = {#} \<and> vars s' 0x20 = 0 \<and> counts sample_env s' 0x1000 = 0"
proof -
  obtain s where s: "st_ok sample_env s" "\<not> locked sample_env 0x1000 s" "isa_bits s 0x1000 = 0x00bd800100008069"
    "weaks sample_env s 0x1000 = {#0x20#}" "vars s 0x20 = 0x1000" "counts sample_env s 0x1000 = 0x200"
    by (rule marked_sample)
  have w: "nonpointer 0x00bd800100008069" "weakly_referenced (layout sample_env) 0x00bd800100008069"
    "has_sidetable_rc (layout sample_env) 0x00bd800100008069" by (simp_all add: sample_defs)
  obtain s' where "clearDeallocating sample_env 0x1000 s = Some s'" "cleared sample_env 0x1000 s s'"
    using clearDeallocating_cleans_up [of sample_env s "0x1000"] s(1-3) w sample_env(3) by (auto simp: marked_weak_def)
  then show ?thesis using s(4-6) by (intro exI [of _ s] exI [of _ s']) (simp add: cleared_def nil_weak_def)
qed

subsection \<open>Where the code falls short\<close>

text \<open>
  When the inline count is zero and the side table holds the rest, \<open>changeIsa\<close> to a class with a
  raw \<open>isa\<close> moves \<open>0 - 1\<close>: the count is pinned, and no number of releases deallocates the object.
\<close>

theorem changeIsa_pins_borrowable_count:
  assumes "layout E \<in> set isa_layouts" and "rr_ready E obj s" and "st_room E s"
    and "extra_rc (layout E) (isa_bits s obj) = 0" and "counts E s obj \<noteq> 0" and "\<not> packable E newCls"
  shows "\<exists>c s'. changeIsa E obj newCls [] s = Some (c, s') \<and> bit (counts E s' obj) 63 \<and>
    (st_room E s' \<longrightarrow> (\<exists>s''. sidetable_release E obj False True s' = Some (False, s'') \<and>
       counts E s'' = counts E s' \<and> sent s'' = sent s'))"
proof -
  note P = build_packed [OF assms(1)]
  let ?m = "addc (counts E s obj) (push_bit SIDE_TABLE_RC_SHIFT (extra_rc (layout E) (isa_bits s obj) - 1))"
  have "snd ?m"
    using packed_env.move_empty_count [OF P _ _ assms(5)] assms(2,4) by (simp add: rr_ready_def)
  then obtain c s' where s': "changeIsa E obj newCls [] s = Some (c, s')" "st_ok E s'" "\<not> locked E obj s'"
    "bit (counts E s' obj) 63"
    using packed_env.changeIsa_raw [OF P assms(2,3,6)] by (auto simp: SIDE_TABLE_RC_PINNED_def bit_or_iff)
  have big: "\<not> counts E s' obj < SIDE_TABLE_DEALLOCATING"
    using s'(4) by (simp add: bit_63_iff SIDE_TABLE_DEALLOCATING_def word_less_nat_alt)
  have "obj_addr obj" using assms(2) by (simp add: rr_ready_def)
  with s'(2-4) big have "\<exists>s''. sidetable_release E obj False True s' = Some (False, s'') \<and>
       counts E s'' = counts E s' \<and> sent s'' = sent s'" if "st_room E s'"
    using release_spec [of E s' obj False True] that by (auto simp: frame_def)
  with s'(1,4) show ?thesis by blast
qed

context packed_env
begin

lemma changeIsa_stale_newisa:
  assumes "nonpointer (isa_bits s obj)" and "\<not> nonpointer w" and "w \<noteq> 0" and "packable E cls"
  shows "\<exists>c s'. changeIsa E obj cls [None, Some w] s = Some (c, s') \<and> nonpointer (isa_bits s' obj) \<and>
    extra_rc (layout E) (isa_bits s' obj) = extra_rc (layout E) (isa_bits s obj)"
proof -
  have "isa_bits s obj \<noteq> 0" using assms(1) by (auto simp: nonpointer_def)
  then show ?thesis
    using assms by (auto simp: changeIsa_def changeIsa_loop.simps packable_def Let_def)
qed

lemma tryRetain_drops_lock:
  assumes lk: "locked E obj s" and tp: "\<not> isTaggedPointer E obj" and np: "nonpointer (isa_bits s obj)"
    and full: "rc (isa_bits s obj) + 1 = 2 ^ extra_rc_width (layout E)"
    and w: "nonpointer w" "isDeallocating (layout E) w"
  shows "rootTryRetain E obj [None, None, Some w] s = Some (False, set_slock E obj False (store_isa obj w s))"
proof -
  obtain v where v: "addc (isa_bits s obj) (RC_ONE (layout E)) = (v, True)"
    using addc_RC_ONE(1) [of "isa_bits s obj"] full by (cases "addc (isa_bits s obj) (RC_ONE (layout E))") auto
  have "0 < rc (isa_bits s obj)" using full half(1) by (cases "rc (isa_bits s obj)") auto
  then have nd: "\<not> isDeallocating (layout E) (isa_bits s obj)" by (simp add: isDeallocating_iff)
  have last: "rootRetain_loop E obj True Full [] True w (store_isa obj w s)
      = Some (Id 0, [], set_slock E obj False (store_isa obj w s))"
    using lk w by (subst rootRetain_loop.simps) (simp add: unlock_eq)
  have "rootRetain_loop E obj True Full [Some w] False (isa_bits s obj) s
      = Some (Id 0, [], set_slock E obj False (store_isa obj w s))"
    using last np nd v by (subst rootRetain_loop.simps) simp
  then have "rootRetain_loop E obj True Fast [None, Some w] False (isa_bits s obj) s
      = Some (Id 0, [], set_slock E obj False (store_isa obj w s))"
    using np nd v by (subst rootRetain_loop.simps) (simp add: class_object_def)
  then show ?thesis using tp np by (simp add: rootTryRetain_def rootRetain_def rootRetain_run_def class_object_def)
qed

end

text \<open>
  \<open>newisa\<close> keeps its bits from one round of the loop in \<open>changeIsa\<close> to the next: when another thread
  turns a packed \<open>isa\<close> into a raw one between the load and the store, the second round writes the
  packed word of the first round, inline count included, over the raw one.
\<close>

theorem changeIsa_repacks_raw_isa:
  assumes "layout E \<in> set isa_layouts" and "nonpointer (isa_bits s obj)" and "\<not> nonpointer w" and "w \<noteq> 0"
    and "packable E newCls"
  shows "\<exists>c s'. changeIsa E obj newCls [None, Some w] s = Some (c, s') \<and> nonpointer (isa_bits s' obj) \<and>
    extra_rc (layout E) (isa_bits s' obj) = extra_rc (layout E) (isa_bits s obj)"
  using packed_env.changeIsa_stale_newisa [OF build_packed [OF assms(1)] assms(2-5)] .

text \<open>
  \<open>rootTryRetain\<close> does not take the side-table lock, its caller holds it. Yet when the inline count
  overflows and the object turns out to be deallocating at the next round, the loop releases the
  lock of the caller, whose own unlock then fails.
\<close>

theorem rootTryRetain_drops_callers_lock:
  assumes "layout E \<in> set isa_layouts" and "locked E obj s" and "\<not> isTaggedPointer E obj"
    and "nonpointer (isa_bits s obj)" and "unat (extra_rc (layout E) (isa_bits s obj)) + 1 = 2 ^ extra_rc_width (layout E)"
    and "nonpointer w" and "isDeallocating (layout E) w"
  shows "\<exists>s'. rootTryRetain E obj [None, None, Some w] s = Some (False, s') \<and> sidetable_unlock E obj s' = None"
  using packed_env.tryRetain_drops_lock [OF build_packed [OF assms(1)] assms(2-7)] by (simp add: unlock_eq)

end
