(* ===== verification/TaggedProofs.thy ===== *)
theory TaggedProofs
  imports TaggedPointer IsaChanges
begin

text \<open>
  What the tagged pointer representations promise. The locale \<open>tag_scheme\<close> states the layout a
  representation must have and that decoding undoes encoding; it is interpreted on the three
  representations of \<open>objc-internal.h\<close>, and the round trips are proved once inside it.
\<close>

subsection \<open>Obfuscators and permutations\<close>

definition perm_ok :: "u64 list \<Rightarrow> bool" where
  "perm_ok p \<longleftrightarrow> length p = 8 \<and> distinct p \<and> (\<forall>x\<in>set p. x < 8) \<and> p ! 7 = 7"

definition tags_ok :: "tag_config \<Rightarrow> tag_state \<Rightarrow> bool" where
  "tags_ok C T \<longleftrightarrow>
     taggedpointer_obfuscator T AND OBJC_TAG_MASK C = 0 \<and>
     (SPLIT_TAGGED_POINTERS C \<longrightarrow>
        taggedpointer_obfuscator T AND OBJC_TAG_NO_OBFUSCATION_MASK C = 0 \<and> perm_ok (tag60_permutations T))"

lemma mask_numerals: "(7::u64) = mask 3" "(0xf::u64) = mask 4" "(0xff::u64) = mask 8"
  by (simp_all add: mask_eq_exp_minus_1)

lemma bit_index_mask: "bit OBJC_TAG_INDEX_MASK k \<longleftrightarrow> k < 3"
  by (auto simp only: OBJC_TAG_INDEX_MASK_def mask_numerals bit_mask_iff possible_bit_word len_num1 len_bit0)

lemma and_masks:
  "(w::u64) AND OBJC_TAG_INDEX_MASK = take_bit 3 w" "(w::u64) AND OBJC_TAG_EXT_INDEX_MASK = take_bit 8 w"
  "(w::u64) AND OBJC_TAG_EXT_SLOT_MASK = take_bit 8 w"
  by (simp_all only: OBJC_TAG_INDEX_MASK_def OBJC_TAG_EXT_INDEX_MASK_def OBJC_TAG_EXT_SLOT_MASK_def
      mask_numerals take_bit_eq_mask)

lemma basic_tag_bf: "basic_tag C w = bf_get (OBJC_TAG_INDEX_SHIFT C) 3 w"
  by (simp add: basic_tag_def and_masks bf_get_def)

lemma less_8_bits: "(x::u64) < 8 \<Longrightarrow> take_bit 3 x = x"
  by (simp add: word_less_nat_alt word_unat_eq_iff unat_take_bit_mod)

lemma put_basic_tag_bf: "x < 8 \<Longrightarrow> put_basic_tag C x w = bf_set (OBJC_TAG_INDEX_SHIFT C) 3 x w"
  by (simp add: put_basic_tag_def bf_set_def less_8_bits OBJC_TAG_INDEX_MASK_def mask_numerals(1))

lemma bf_get_3_less: "bf_get p 3 w < 8"
  using unat_bf_get_less [of p 3 w] by (simp add: word_less_nat_alt)

text \<open>Looking a permuted tag up gives the tag back.\<close>

lemma obfuscatedTagToBasicTag_loop_nth:
  assumes "perm_ok p" and "i \<le> k" and "k < 8"
  shows "obfuscatedTagToBasicTag_loop p i (p ! k) = of_nat k"
  using assms
proof (induction p i "p ! k" rule: obfuscatedTagToBasicTag_loop.induct)
  case (1 p i)
  show ?case
  proof (cases "i < 7 \<and> p ! i \<noteq> p ! k")
    case True
    then have "i < k" using 1(3) by (cases "i = k") auto
    then show ?thesis using 1 True by (simp add: obfuscatedTagToBasicTag_loop.simps [of p i])
  next
    case False
    then have "k = i" using 1(2-4) nth_eq_iff_index_eq [of p i k] by (auto simp: perm_ok_def)
    moreover have "k = 7" if "\<not> i < 7" using that 1(3,4) by simp
    ultimately show ?thesis by (auto simp: obfuscatedTagToBasicTag_loop.simps [of p i])
  qed
qed

lemma permuted_tag:
  assumes "perm_ok (tag60_permutations T)" and "x < 8"
  shows "basicTagToObfuscatedTag T x < 8" "obfuscatedTagToBasicTag T (basicTagToObfuscatedTag T x) = x"
    "basicTagToObfuscatedTag T x = 7 \<longleftrightarrow> x = 7"
proof -
  let ?p = "tag60_permutations T"
  have x: "unat x < 8" using assms(2) by (simp add: word_less_nat_alt)
  show "basicTagToObfuscatedTag T x < 8" using assms(1) x by (auto simp: perm_ok_def basicTagToObfuscatedTag_def)
  show "obfuscatedTagToBasicTag T (basicTagToObfuscatedTag T x) = x"
    using obfuscatedTagToBasicTag_loop_nth [OF assms(1) _ x, of 0]
    by (simp add: obfuscatedTagToBasicTag_def basicTagToObfuscatedTag_def)
  have "?p ! unat x = ?p ! 7 \<longleftrightarrow> unat x = 7"
    using assms(1) x by (subst nth_eq_iff_index_eq) (auto simp: perm_ok_def)
  moreover have "unat x = 7 \<longleftrightarrow> x = 7" by (auto simp: word_unat_eq_iff)
  ultimately show "basicTagToObfuscatedTag T x = 7 \<longleftrightarrow> x = 7"
    using assms(1) by (simp add: perm_ok_def basicTagToObfuscatedTag_def)
qed

subsection \<open>Initialisation\<close>

lemma perm_ok_swap:
  assumes "perm_ok p" and "i < 7" and "j < 7"
  shows "perm_ok (p[i := p ! j, j := p ! i])"
proof -
  have "mset (p[i := p ! j, j := p ! i]) = mset p" using assms by (intro mset_swap) (auto simp: perm_ok_def)
  then have "distinct (p[i := p ! j, j := p ! i]) = distinct p" "set (p[i := p ! j, j := p ! i]) = set p"
    by (rule mset_eq_imp_distinct_iff, metis set_mset_mset)
  then show ?thesis using assms by (simp add: perm_ok_def)
qed

lemma perm_ok_shuffle:
  assumes "\<And>n. 0 < n \<Longrightarrow> uniform n < n" and "n \<le> 7" and "perm_ok p"
  shows "perm_ok (shuffle_tags uniform n p)"
  using assms(2,3)
proof (induction n arbitrary: p)
  case (Suc n)
  have "uniform (Suc n) < 7" using assms(1) [of "Suc n"] Suc.prems(1) by simp
  then show ?case using Suc.prems by (simp add: Let_def) (intro Suc.IH perm_ok_swap, auto)
qed simp

lemma initialize_ok:
  assumes "\<And>n. 0 < n \<Longrightarrow> uniform n < n" and "perm_ok (tag60_permutations T)"
  shows "tags_ok C (initializeTaggedPointerObfuscator C obfuscate random uniform T)"
proof -
  have "(random AND NOT m) AND m = 0" "((random AND NOT m) AND NOT (e OR n)) AND m = 0"
    "((random AND NOT m) AND NOT (e OR n)) AND n = 0" for m e n :: u64
    by (auto intro!: bit_word_eqI simp: bit_and_iff bit_not_iff bit_or_iff simp del: bit.de_Morgan_disj)
  then show ?thesis
    using perm_ok_shuffle [OF assms(1) _ assms(2), of 7] assms(2)
    by (simp add: tags_ok_def initializeTaggedPointerObfuscator_def Let_def del: bit.de_Morgan_disj)
qed

lemma perm_ok_initial: "perm_ok (tag60_permutations (tag_state_initial C))"
  by (simp add: perm_ok_def tag_state_initial_def)


lemma bit_of_nat_less: "n < 2 ^ m \<Longrightarrow> bit (of_nat n :: u64) k \<Longrightarrow> k < m"
proof (rule ccontr)
  assume n: "n < 2 ^ m" and b: "bit (of_nat n :: u64) k" and k: "\<not> k < m"
  from b have "bit n k" by (simp add: bit_of_nat_iff possible_bit_def)
  moreover have "n < 2 ^ k" using n k power_increasing [of m k "2::nat"] by linarith
  ultimately show False by (simp add: bit_iff_odd)
qed

lemma bit_shifted:
  assumes "l \<le> r" and "k < 64"
  shows "bit (drop_bit l (push_bit r (v :: u64))) k \<longleftrightarrow> r - l \<le> k \<and> k < 64 - l \<and> bit v (k - (r - l))"
  using assms by (auto simp: bit_drop_bit_eq bit_push_bit_iff add.commute)

lemma bit_one_shifted: "t < 64 \<Longrightarrow> k < 64 \<Longrightarrow> bit (push_bit t 1 :: u64) k \<longleftrightarrow> k = t"
  by (auto simp: bit_exp_iff)

lemma payload_bits:
  fixes v w :: u64
  assumes "l \<le> r" and n: "r + n = 64" "0 < n" and w: "\<And>k. k < n \<Longrightarrow> bit w (r - l + k) = bit v k"
  shows "drop_bit r (push_bit l w) = take_bit n v" "signed_drop_bit r (push_bit l w) = signed_take_bit (n - 1) v"
proof -
  have *: "bit (push_bit l w) (r + k) = bit v k" if "k < n" for k
    using that assms(1) n w [OF that] by (simp add: bit_push_bit_iff)
  show "drop_bit r (push_bit l w) = take_bit n v"
  proof (rule bit_word_eqI)
    fix k assume "k < LENGTH(64)"
    then show "bit (drop_bit r (push_bit l w)) k = bit (take_bit n v) k"
      using * [of k] n by (cases "k < n") (auto simp: bit_drop_bit_eq bit_take_bit_iff dest: bit_imp_le_length)
  qed
  have sd: "bit (signed_drop_bit r x) k = bit x (if 64 - r \<le> k then 63 else r + k)" if "k < 64" for x :: u64 and k
    using that by (simp add: bit_signed_drop_bit_iff)
  have st: "bit (signed_take_bit (n - 1) v) k = bit v (min k (n - 1))" if "k < 64" for k
    using that by (simp add: bit_signed_take_bit_iff min.commute)
  have top: "bit (push_bit l w) 63 = bit v (n - 1)" using * [of "n - 1"] n by simp
  show "signed_drop_bit r (push_bit l w) = signed_take_bit (n - 1) v"
  proof (rule bit_word_eqI)
    fix k assume "k < LENGTH(64)"
    then have k: "k < 64" by simp
    show "bit (signed_drop_bit r (push_bit l w)) k = bit (signed_take_bit (n - 1) v) k"
    proof (cases "k < n")
      case True
      then have "min k (n - 1) = k" "\<not> 64 - r \<le> k" using n by auto
      then show ?thesis using * [OF True] by (simp only: sd [OF k] st [OF k] if_False)
    next
      case False
      then have "min k (n - 1) = n - 1" "64 - r \<le> k" using n by auto
      then show ?thesis using top by (simp only: sd [OF k] st [OF k] if_True)
    qed
  qed
qed

subsection \<open>Representations\<close>

locale tag_scheme =
  fixes C :: tag_config and t :: nat
  assumes tag_mask: "OBJC_TAG_MASK C = push_bit t 1" "t < 64"
    and ext_mask: "OBJC_TAG_EXT_MASK C = push_bit t 1 OR push_bit (OBJC_TAG_INDEX_SHIFT C) OBJC_TAG_INDEX_MASK"
    and shifts: "OBJC_TAG_PAYLOAD_RSHIFT C = 4" "OBJC_TAG_PAYLOAD_LSHIFT C \<le> 4"
      "OBJC_TAG_EXT_PAYLOAD_RSHIFT C = 12" "OBJC_TAG_EXT_PAYLOAD_LSHIFT C \<le> 12"
    and index: "OBJC_TAG_INDEX_SHIFT C + 3 \<le> 64" "t < OBJC_TAG_INDEX_SHIFT C \<or> OBJC_TAG_INDEX_SHIFT C + 3 \<le> t"
    and payload: "t < 4 - OBJC_TAG_PAYLOAD_LSHIFT C \<or> 64 - OBJC_TAG_PAYLOAD_LSHIFT C \<le> t"
      "OBJC_TAG_INDEX_SHIFT C + 3 \<le> 4 - OBJC_TAG_PAYLOAD_LSHIFT C \<or> 64 - OBJC_TAG_PAYLOAD_LSHIFT C \<le> OBJC_TAG_INDEX_SHIFT C"
    and ext_index: "OBJC_TAG_EXT_INDEX_SHIFT C + 8 \<le> 64"
      "t < OBJC_TAG_EXT_INDEX_SHIFT C \<or> OBJC_TAG_EXT_INDEX_SHIFT C + 8 \<le> t"
      "OBJC_TAG_INDEX_SHIFT C + 3 \<le> OBJC_TAG_EXT_INDEX_SHIFT C \<or> OBJC_TAG_EXT_INDEX_SHIFT C + 8 \<le> OBJC_TAG_INDEX_SHIFT C"
    and ext_payload: "t < 12 - OBJC_TAG_EXT_PAYLOAD_LSHIFT C \<or> 64 - OBJC_TAG_EXT_PAYLOAD_LSHIFT C \<le> t"
      "OBJC_TAG_INDEX_SHIFT C + 3 \<le> 12 - OBJC_TAG_EXT_PAYLOAD_LSHIFT C
        \<or> 64 - OBJC_TAG_EXT_PAYLOAD_LSHIFT C \<le> OBJC_TAG_INDEX_SHIFT C"
      "OBJC_TAG_EXT_INDEX_SHIFT C + 8 \<le> 12 - OBJC_TAG_EXT_PAYLOAD_LSHIFT C
        \<or> 64 - OBJC_TAG_EXT_PAYLOAD_LSHIFT C \<le> OBJC_TAG_EXT_INDEX_SHIFT C"
    and decode_encode: "\<And>T r. tags_ok C T \<Longrightarrow> decodeTaggedPointer C T (encodeTaggedPointer C T r) = r"
    and noPermute: "\<And>T r k. tags_ok C T \<Longrightarrow> k < 64 \<Longrightarrow> k < OBJC_TAG_INDEX_SHIFT C \<or> OBJC_TAG_INDEX_SHIFT C + 3 \<le> k \<Longrightarrow>
      bit (decodeTaggedPointer_noPermute C T (encodeTaggedPointer C T r)) k = bit r k"
    and noPermute_tag: "\<And>T r. tags_ok C T \<Longrightarrow>
      basic_tag C (decodeTaggedPointer_noPermute C T (encodeTaggedPointer C T r)) = 7 \<longleftrightarrow> basic_tag C r = 7"
    and encode_tagged: "\<And>T r. tags_ok C T \<Longrightarrow> bit (encodeTaggedPointer C T r) t = bit r t"
begin

abbreviation idx :: nat where "idx \<equiv> OBJC_TAG_INDEX_SHIFT C"
abbreviation pos :: nat where "pos \<equiv> 4 - OBJC_TAG_PAYLOAD_LSHIFT C"
abbreviation epos :: nat where "epos \<equiv> 12 - OBJC_TAG_EXT_PAYLOAD_LSHIFT C"
abbreviation eidx :: nat where "eidx \<equiv> OBJC_TAG_EXT_INDEX_SHIFT C"

text \<open>The words that are encoded.\<close>

definition basic_word :: "nat \<Rightarrow> u64 \<Rightarrow> u64" where
  "basic_word tag v = OBJC_TAG_MASK C OR push_bit idx (of_nat tag)
     OR drop_bit (OBJC_TAG_PAYLOAD_LSHIFT C) (push_bit (OBJC_TAG_PAYLOAD_RSHIFT C) v)"

definition ext_word :: "nat \<Rightarrow> u64 \<Rightarrow> u64" where
  "ext_word n v = OBJC_TAG_EXT_MASK C OR push_bit eidx (of_nat n)
     OR drop_bit (OBJC_TAG_EXT_PAYLOAD_LSHIFT C) (push_bit (OBJC_TAG_EXT_PAYLOAD_RSHIFT C) v)"

lemma make_word:
  "tag \<le> 6 \<Longrightarrow> makeTaggedPointer C T tag v = encodeTaggedPointer C T (basic_word tag v)"
  "8 \<le> tag \<Longrightarrow> makeTaggedPointer C T tag v = encodeTaggedPointer C T (ext_word (tag - 8) v)"
  by (simp_all add: makeTaggedPointer_def basic_word_def ext_word_def tag_bounds)

lemma bit_basic_word:
  assumes "tag < 8" and "k < 64"
  shows "bit (basic_word tag v) k \<longleftrightarrow> k = t \<or> idx \<le> k \<and> k < idx + 3 \<and> bit (of_nat tag :: u64) (k - idx)
    \<or> pos \<le> k \<and> k < pos + 60 \<and> bit v (k - pos)"
  using assms shifts(2) bit_of_nat_less [of tag 3 "k - idx"]
  unfolding basic_word_def bit_or_iff tag_mask(1) bit_one_shifted [OF tag_mask(2) assms(2)] shifts(1)
    bit_shifted [OF shifts(2) assms(2)]
  by (auto simp: bit_push_bit_iff)

lemma bit_ext_word:
  assumes "n < 256" and "k < 64"
  shows "bit (ext_word n v) k \<longleftrightarrow> k = t \<or> idx \<le> k \<and> k < idx + 3
    \<or> eidx \<le> k \<and> k < eidx + 8 \<and> bit (of_nat n :: u64) (k - eidx)
    \<or> epos \<le> k \<and> k < epos + 52 \<and> bit v (k - epos)"
  using assms shifts(4) bit_of_nat_less [of n 8 "k - eidx"]
  unfolding ext_word_def bit_or_iff ext_mask bit_one_shifted [OF tag_mask(2) assms(2)] shifts(3)
    bit_shifted [OF shifts(4) assms(2)]
  by (auto simp: bit_push_bit_iff bit_index_mask)

lemma index_7: "x = OBJC_TAG_INDEX_MASK \<longleftrightarrow> x = 7"
  by (simp add: OBJC_TAG_INDEX_MASK_def)

lemma basic_word_index:
  assumes "tag < 8" and k: "k < 3"
  shows "bit (basic_word tag v) (idx + k) = bit (of_nat tag :: u64) k"
proof -
  have "idx + k < 64" "idx + k \<noteq> t" "\<not> (pos \<le> idx + k \<and> idx + k < pos + 60)"
    using k index payload(2) shifts(2) by linarith+
  then show ?thesis using k by (subst bit_basic_word [OF assms(1)]) auto
qed

lemma basic_word_payload:
  assumes "tag < 8" and k: "k < 60"
  shows "bit (basic_word tag v) (pos + k) = bit v k \<and> (pos + k < idx \<or> idx + 3 \<le> pos + k) \<and> pos + k < 64"
proof -
  have p: "pos + k < 64" "pos + k \<noteq> t" "\<not> (idx \<le> pos + k \<and> pos + k < idx + 3)"
    using k payload shifts(2) by linarith+
  then have "bit (basic_word tag v) (pos + k) = bit v k" using k by (subst bit_basic_word [OF assms(1)]) auto
  then show ?thesis using p by linarith
qed

lemma ext_word_fields:
  assumes "n < 256"
  shows "k < 3 \<Longrightarrow> bit (ext_word n v) (idx + k)"
    "k < 8 \<Longrightarrow> bit (ext_word n v) (eidx + k) = bit (of_nat n :: u64) k"
    "k < 52 \<Longrightarrow> bit (ext_word n v) (epos + k) = bit v k \<and> (epos + k < idx \<or> idx + 3 \<le> epos + k) \<and> epos + k < 64"
proof -
  show "bit (ext_word n v) (idx + k)" if "k < 3"
    using that index(1) by (subst bit_ext_word [OF assms]) auto
  show "bit (ext_word n v) (eidx + k) = bit (of_nat n :: u64) k" if k: "k < 8"
  proof -
    have "eidx + k < 64" "eidx + k \<noteq> t" "\<not> (idx \<le> eidx + k \<and> eidx + k < idx + 3)"
      "\<not> (epos \<le> eidx + k \<and> eidx + k < epos + 52)"
      using k ext_index ext_payload(3) shifts(4) by linarith+
    then show ?thesis using k by (subst bit_ext_word [OF assms]) auto
  qed
  show "bit (ext_word n v) (epos + k) = bit v k \<and> (epos + k < idx \<or> idx + 3 \<le> epos + k) \<and> epos + k < 64"
    if k: "k < 52"
  proof -
    have e: "epos + k < 64" "epos + k \<noteq> t" "\<not> (idx \<le> epos + k \<and> epos + k < idx + 3)"
      "\<not> (eidx \<le> epos + k \<and> epos + k < eidx + 8)"
      using k ext_index(1) ext_payload shifts(4) by linarith+
    then have "bit (ext_word n v) (epos + k) = bit v k" using k by (subst bit_ext_word [OF assms]) auto
    then show ?thesis using e by linarith
  qed
qed

lemma basic_tag_basic_word: "tag < 8 \<Longrightarrow> basic_tag C (basic_word tag v) = of_nat tag"
  using bit_of_nat_less [of tag 3] by (auto intro!: bit_word_eqI simp: basic_tag_bf bit_bf_get basic_word_index)

lemma basic_tag_ext_word: "n < 256 \<Longrightarrow> basic_tag C (ext_word n v) = 7"
proof -
  assume "n < 256"
  then have "basic_tag C (ext_word n v) = OBJC_TAG_INDEX_MASK"
    by (auto intro!: bit_word_eqI simp: basic_tag_bf bit_bf_get ext_word_fields(1) bit_index_mask)
  then show ?thesis by (simp add: OBJC_TAG_INDEX_MASK_def)
qed

lemma of_nat_tag_not_7: "tag < 7 \<Longrightarrow> (of_nat tag :: u64) \<noteq> 7"
  by (auto simp: word_unat_eq_iff unat_of_nat_u64)

lemma tagged_make:
  assumes "tags_ok C T" and "tag \<le> 6 \<or> 8 \<le> tag \<and> tag \<le> 263"
  shows "is_tagged_pointer C (makeTaggedPointer C T tag v)"
proof -
  have "bit (makeTaggedPointer C T tag v) t"
    using assms tag_mask(2) by (auto simp: make_word encode_tagged bit_basic_word bit_ext_word)
  then show ?thesis
    using tag_mask(2)
    by (auto intro!: bit_word_eqI simp: is_tagged_pointer_def tag_mask(1) bit_and_iff bit_exp_iff)
qed

lemma tag_7_iff: "basic_tag C w = 7 \<longleftrightarrow> (\<forall>k<3. bit w (idx + k))"
proof -
  have "bit w (idx + k)" if "basic_tag C w = OBJC_TAG_INDEX_MASK" "k < 3" for k
    using that bit_index_mask [of k] bit_bf_get [of idx 3 w k] by (simp add: basic_tag_bf)
  moreover have "basic_tag C w = OBJC_TAG_INDEX_MASK" if "\<forall>k<3. bit w (idx + k)"
    using that by (auto intro!: bit_word_eqI simp: basic_tag_bf bit_bf_get bit_index_mask)
  ultimately show ?thesis using index_7 [of "basic_tag C w"] by blast
qed

lemma ext_iff: "w AND OBJC_TAG_EXT_MASK C = OBJC_TAG_EXT_MASK C \<longleftrightarrow> bit w t \<and> basic_tag C w = 7"
proof -
  have m: "bit (OBJC_TAG_EXT_MASK C) k \<longleftrightarrow> k = t \<or> idx \<le> k \<and> k < idx + 3" if "k < 64" for k
    unfolding ext_mask bit_or_iff bit_one_shifted [OF tag_mask(2) that]
    using that by (auto simp: bit_push_bit_iff bit_index_mask)
  have "w AND OBJC_TAG_EXT_MASK C = OBJC_TAG_EXT_MASK C \<longleftrightarrow> (\<forall>k<64. k = t \<or> idx \<le> k \<and> k < idx + 3 \<longrightarrow> bit w k)"
    by (auto simp: bit_eq_iff [of _ "OBJC_TAG_EXT_MASK C"] bit_and_iff m dest: bit_imp_le_length)
  also have "\<dots> \<longleftrightarrow> bit w t \<and> (\<forall>k<3. bit w (idx + k))"
  proof -
    have "\<forall>k<64. idx \<le> k \<and> k < idx + 3 \<longrightarrow> bit w k \<longleftrightarrow> True" if "\<forall>k<3. bit w (idx + k)"
      using that by (metis add_less_cancel_left le_add_diff_inverse)
    moreover have "idx + k < 64" if "k < 3" for k using that index(1) by linarith
    ultimately show ?thesis using tag_mask(2) by (metis add_less_cancel_left le_add1)
  qed
  finally show ?thesis using tag_7_iff by blast
qed

lemma basic_make:
  assumes "tags_ok C T" and "tag \<le> 6 \<or> 8 \<le> tag \<and> tag \<le> 263"
  shows "isBasicTaggedPointer C T (makeTaggedPointer C T tag v) \<longleftrightarrow> tag \<le> 6"
proof (cases "tag \<le> 6")
  case True
  then show ?thesis
    using tagged_make [OF assms] assms(1) basic_tag_basic_word [of tag v] of_nat_tag_not_7 [of tag]
    by (simp add: isBasicTaggedPointer_def isExtTaggedPointer_def ext_iff make_word decode_encode)
next
  case False
  then have n: "tag - 8 < 256" "8 \<le> tag" using assms(2) by auto
  then show ?thesis
    using False assms(1) basic_tag_ext_word [OF n(1), of v] bit_ext_word [OF n(1) tag_mask(2), of v]
    by (simp add: isBasicTaggedPointer_def isExtTaggedPointer_def ext_iff make_word decode_encode)
qed

lemma tag_make_basic:
  assumes "tags_ok C T" and "tag \<le> 6"
  shows "getTaggedPointerTag C T (makeTaggedPointer C T tag v) = tag"
  using assms of_nat_tag_not_7 [of tag]
  by (simp add: getTaggedPointerTag_def make_word decode_encode basic_tag_basic_word Let_def index_7 unat_of_nat_u64)

lemma tag_make_ext:
  assumes "tags_ok C T" and "8 \<le> tag" "tag \<le> 263"
  shows "getTaggedPointerTag C T (makeTaggedPointer C T tag v) = tag"
proof -
  define n where "n = tag - 8"
  have n: "tag = n + 8" "n < 256" using assms(2,3) by (simp_all add: n_def)
  have "take_bit 8 (drop_bit eidx (ext_word n v)) = of_nat n"
    using ext_word_fields(2) [OF n(2)] bit_of_nat_less [of n 8] n(2)
    by (auto intro!: bit_word_eqI simp: bit_take_bit_iff bit_drop_bit_eq)
  moreover have "unat (of_nat n :: u64) = n" using n(2) by (simp add: unat_of_nat_u64)
  moreover have "makeTaggedPointer C T tag v = encodeTaggedPointer C T (ext_word n v)"
    using make_word(2) [OF assms(2)] by (simp add: n(1))
  ultimately show ?thesis
    using assms(1) n
    by (simp add: getTaggedPointerTag_def decode_encode basic_tag_ext_word Let_def index_7 and_masks tag_bounds)
qed

lemma value_make_basic:
  assumes "tags_ok C T" and "tag \<le> 6"
  shows "getTaggedPointerValue C T (makeTaggedPointer C T tag v) = take_bit 60 v"
    "getTaggedPointerSignedValue C T (makeTaggedPointer C T tag v) = signed_take_bit 59 v"
proof -
  let ?w = "decodeTaggedPointer_noPermute C T (encodeTaggedPointer C T (basic_word tag v))"
  have b: "basic_tag C ?w \<noteq> OBJC_TAG_INDEX_MASK"
    using noPermute_tag [OF assms(1)] basic_tag_basic_word [of tag v] of_nat_tag_not_7 [of tag] assms(2)
    by (simp add: index_7)
  have w: "bit ?w (pos + k) = bit v k" if "k < 60" for k
    using that noPermute [OF assms(1)] basic_word_payload [of tag k v] assms(2) by simp
  show "getTaggedPointerValue C T (makeTaggedPointer C T tag v) = take_bit 60 v"
    using b payload_bits(1) [OF shifts(2) _ _ w] by (simp add: getTaggedPointerValue_def make_word assms(2) Let_def shifts(1))
  show "getTaggedPointerSignedValue C T (makeTaggedPointer C T tag v) = signed_take_bit 59 v"
    using b payload_bits(2) [OF shifts(2) _ _ w]
    by (simp add: getTaggedPointerSignedValue_def make_word assms(2) Let_def shifts(1))
qed

lemma value_make_ext:
  assumes "tags_ok C T" and "8 \<le> tag" "tag \<le> 263"
  shows "getTaggedPointerValue C T (makeTaggedPointer C T tag v) = take_bit 52 v"
    "getTaggedPointerSignedValue C T (makeTaggedPointer C T tag v) = signed_take_bit 51 v"
proof -
  let ?w = "decodeTaggedPointer_noPermute C T (encodeTaggedPointer C T (ext_word (tag - 8) v))"
  have n: "tag - 8 < 256" using assms(2,3) by simp
  have b: "basic_tag C ?w = OBJC_TAG_INDEX_MASK"
    using noPermute_tag [OF assms(1)] basic_tag_ext_word [OF n, of v] by (simp add: index_7)
  have w: "bit ?w (epos + k) = bit v k" if "k < 52" for k
    using that noPermute [OF assms(1)] ext_word_fields(3) [OF n, of k v] by simp
  show "getTaggedPointerValue C T (makeTaggedPointer C T tag v) = take_bit 52 v"
    using b payload_bits(1) [OF shifts(4) _ _ w] by (simp add: getTaggedPointerValue_def make_word assms(2) Let_def shifts(3))
  show "getTaggedPointerSignedValue C T (makeTaggedPointer C T tag v) = signed_take_bit 51 v"
    using b payload_bits(2) [OF shifts(4) _ _ w]
    by (simp add: getTaggedPointerSignedValue_def make_word assms(2) Let_def shifts(3))
qed

end

subsection \<open>The three representations\<close>

lemma split_tags_simps [simp]:
  "SPLIT_TAGGED_POINTERS split_tags" "MSB_TAGGED_POINTERS split_tags"
  "OBJC_TAG_SLOT_MASK split_tags = 0x7" "OBJC_TAG_MASK split_tags = push_bit 63 1"
  "OBJC_TAG_INDEX_SHIFT split_tags = 0" "OBJC_TAG_SLOT_SHIFT split_tags = 0"
  "OBJC_TAG_PAYLOAD_LSHIFT split_tags = 1" "OBJC_TAG_PAYLOAD_RSHIFT split_tags = 4"
  "OBJC_TAG_EXT_MASK split_tags = push_bit 63 1 OR 0x7" "OBJC_TAG_EXT_INDEX_SHIFT split_tags = 55"
  "OBJC_TAG_EXT_SLOT_SHIFT split_tags = 55" "OBJC_TAG_EXT_PAYLOAD_LSHIFT split_tags = 9"
  "OBJC_TAG_EXT_PAYLOAD_RSHIFT split_tags = 12"
  by (simp_all add: split_tags_def)

lemma msb_tags_simps [simp]:
  "\<not> SPLIT_TAGGED_POINTERS msb_tags" "MSB_TAGGED_POINTERS msb_tags"
  "OBJC_TAG_SLOT_MASK msb_tags = 0xf" "OBJC_TAG_MASK msb_tags = push_bit 63 1"
  "OBJC_TAG_INDEX_SHIFT msb_tags = 60" "OBJC_TAG_SLOT_SHIFT msb_tags = 60"
  "OBJC_TAG_PAYLOAD_LSHIFT msb_tags = 4" "OBJC_TAG_PAYLOAD_RSHIFT msb_tags = 4"
  "OBJC_TAG_EXT_MASK msb_tags = push_bit 60 0xf" "OBJC_TAG_EXT_INDEX_SHIFT msb_tags = 52"
  "OBJC_TAG_EXT_SLOT_SHIFT msb_tags = 52" "OBJC_TAG_EXT_PAYLOAD_LSHIFT msb_tags = 12"
  "OBJC_TAG_EXT_PAYLOAD_RSHIFT msb_tags = 12"
  by (simp_all add: msb_tags_def)

lemma lsb_tags_simps [simp]:
  "\<not> SPLIT_TAGGED_POINTERS lsb_tags" "\<not> MSB_TAGGED_POINTERS lsb_tags"
  "OBJC_TAG_SLOT_MASK lsb_tags = 0xf" "OBJC_TAG_MASK lsb_tags = 1" "OBJC_TAG_INDEX_SHIFT lsb_tags = 1"
  "OBJC_TAG_SLOT_SHIFT lsb_tags = 0" "OBJC_TAG_PAYLOAD_LSHIFT lsb_tags = 0"
  "OBJC_TAG_PAYLOAD_RSHIFT lsb_tags = 4" "OBJC_TAG_EXT_MASK lsb_tags = 0xf"
  "OBJC_TAG_EXT_INDEX_SHIFT lsb_tags = 4" "OBJC_TAG_EXT_SLOT_SHIFT lsb_tags = 4"
  "OBJC_TAG_EXT_PAYLOAD_LSHIFT lsb_tags = 0" "OBJC_TAG_EXT_PAYLOAD_RSHIFT lsb_tags = 12"
  by (simp_all add: lsb_tags_def)

lemma plain_codec:
  assumes "\<not> SPLIT_TAGGED_POINTERS C"
  shows "decodeTaggedPointer C T (encodeTaggedPointer C T r) = r"
    "decodeTaggedPointer_noPermute C T (encodeTaggedPointer C T r) = r"
    "encodeTaggedPointer C T r = taggedpointer_obfuscator T XOR r"
  using assms
  by (simp_all add: decodeTaggedPointer_def decodeTaggedPointer_noPermute_def encodeTaggedPointer_def xor.commute xor.left_commute)

lemma obfuscator_tag_bit:
  assumes "tags_ok C T" and "OBJC_TAG_MASK C = push_bit t 1" and "t < 64"
  shows "\<not> bit (taggedpointer_obfuscator T) t"
proof
  assume "bit (taggedpointer_obfuscator T) t"
  then have "bit (taggedpointer_obfuscator T AND OBJC_TAG_MASK C) t"
    using assms(2,3) bit_one_shifted [of t t] by (simp add: bit_and_iff)
  then show False using assms(1) by (simp add: tags_ok_def)
qed

lemma bit_NO_OBFUSCATION:
  assumes "k < 64"
  shows "bit (OBJC_TAG_NO_OBFUSCATION_MASK split_tags) k \<longleftrightarrow> k < 3 \<or> 62 \<le> k"
proof -
  have "bit (OBJC_TAG_NO_OBFUSCATION_MASK split_tags) k \<longleftrightarrow>
      bit (push_bit 62 1 :: u64) k \<or> bit (push_bit 63 1 :: u64) k \<or> bit OBJC_TAG_INDEX_MASK k"
    by (simp only: OBJC_TAG_NO_OBFUSCATION_MASK_def split_tags_def tag_config.simps bit_or_iff OBJC_TAG_INDEX_MASK_def)
  also have "\<dots> \<longleftrightarrow> k = 62 \<or> k = 63 \<or> k < 3"
  proof -
    have "(62::nat) < 64" "(63::nat) < 64" by simp_all
    then show ?thesis by (simp only: bit_one_shifted [OF _ assms] bit_index_mask)
  qed
  finally show ?thesis using assms by linarith
qed

lemma split_obfuscator_bit:
  assumes "tags_ok split_tags T" and "k < 3 \<or> 62 \<le> k"
  shows "\<not> bit (taggedpointer_obfuscator T) k"
proof
  assume b: "bit (taggedpointer_obfuscator T) k"
  then have "k < 64" using bit_imp_le_length by fastforce
  then have "bit (taggedpointer_obfuscator T AND OBJC_TAG_NO_OBFUSCATION_MASK split_tags) k"
    using b assms(2) by (simp add: bit_and_iff bit_NO_OBFUSCATION)
  then show False using assms(1) by (simp add: tags_ok_def split_tags_def)
qed

lemma unobfuscated_iff: "unobfuscated split_tags w \<longleftrightarrow> bit w 62 \<and> bit w 63 \<and> bf_get 0 3 w = 7"
proof -
  have 7: "bf_get 0 3 w = 7 \<longleftrightarrow> (\<forall>k<3. bit w k)"
  proof -
    have "bit w k" if "bf_get 0 3 w = OBJC_TAG_INDEX_MASK" "k < 3" for k
      using that bit_index_mask [of k] bit_bf_get [of 0 3 w k] by simp
    moreover have "bf_get 0 3 w = OBJC_TAG_INDEX_MASK" if "\<forall>k<3. bit w k"
      using that by (auto intro!: bit_word_eqI simp: bit_bf_get bit_index_mask)
    ultimately have "bf_get 0 3 w = OBJC_TAG_INDEX_MASK \<longleftrightarrow> (\<forall>k<3. bit w k)" by blast
    then show ?thesis by (simp add: OBJC_TAG_INDEX_MASK_def)
  qed
  have "unobfuscated split_tags w \<longleftrightarrow> (\<forall>k<64. k < 3 \<or> 62 \<le> k \<longrightarrow> bit w k)"
    unfolding unobfuscated_def
    by (auto simp: bit_eq_iff bit_and_iff bit_NO_OBFUSCATION dest: bit_imp_le_length)
  also have "\<dots> \<longleftrightarrow> (\<forall>k<3. bit w k) \<and> bit w 62 \<and> bit w 63"
  proof -
    have "62 \<le> k \<Longrightarrow> k < 64 \<Longrightarrow> k = 62 \<or> k = 63" for k :: nat by linarith
    then show ?thesis by auto
  qed
  finally show ?thesis using 7 by blast
qed

text \<open>What the split representation stores: the word with the obfuscated payload and the permuted tag.\<close>

lemma split_encode:
  assumes "tags_ok split_tags T"
  defines "x \<equiv> bf_get 0 3"
  shows "encodeTaggedPointer split_tags T r =
    (if unobfuscated split_tags r then r
     else bf_set 0 3 (basicTagToObfuscatedTag T (x r)) (taggedpointer_obfuscator T XOR r))"
proof -
  let ?o = "taggedpointer_obfuscator T"
  note o = split_obfuscator_bit [OF assms(1)]
  have x: "x (?o XOR r) = x r" using o by (auto intro!: bit_word_eqI simp: x_def bit_bf_get bit_xor_iff)
  then have u: "unobfuscated split_tags (?o XOR r) = unobfuscated split_tags r"
    using o [of 62] o [of 63] by (simp add: unobfuscated_iff x_def bit_xor_iff)
  have "basicTagToObfuscatedTag T (x r) < 8"
    using permuted_tag(1) assms(1) bf_get_3_less by (simp add: tags_ok_def x_def)
  then show ?thesis
    using x u
    by (simp add: encodeTaggedPointer_def Let_def basic_tag_bf put_basic_tag_bf x_def)
qed

lemma split_codec:
  assumes "tags_ok split_tags T"
  shows "decodeTaggedPointer_noPermute split_tags T (encodeTaggedPointer split_tags T r)
      = bf_set 0 3 (basicTagToObfuscatedTag T (bf_get 0 3 r)) r"
    and "decodeTaggedPointer split_tags T (encodeTaggedPointer split_tags T r) = r"
    and "bit (encodeTaggedPointer split_tags T r) 63 = bit r 63"
proof -
  let ?o = "taggedpointer_obfuscator T" and ?x = "bf_get 0 3 r"
  let ?y = "basicTagToObfuscatedTag T ?x"
  note o = split_obfuscator_bit [OF assms]
  have p: "perm_ok (tag60_permutations T)" using assms by (simp add: tags_ok_def)
  note y = permuted_tag [OF p bf_get_3_less [of 0 r]]
  have bfy: "bf_get 0 3 (bf_set 0 3 ?y w) = ?y" for w using y(1) by (simp add: bf_get_set less_8_bits)
  have id: "bf_set 0 3 ?x r = r"
    by (rule bit_word_eqI) (simp add: bit_bf_set, simp add: bit_bf_get)
  have nu: "unobfuscated split_tags (bf_set 0 3 ?y (?o XOR r)) = unobfuscated split_tags r"
    using bfy [of "?o XOR r"] y(3) o [of 62] o [of 63] by (simp add: unobfuscated_iff bit_bf_set bit_xor_iff)
  have x: "bf_set 0 3 ?y (?o XOR r) XOR ?o = bf_set 0 3 ?y r"
    using o by (auto intro!: bit_word_eqI simp: bit_bf_set bit_xor_iff)
  show noP: "decodeTaggedPointer_noPermute split_tags T (encodeTaggedPointer split_tags T r) = bf_set 0 3 ?y r"
  proof (cases "unobfuscated split_tags r")
    case True
    then have "?y = ?x" using y(3) by (simp add: unobfuscated_iff)
    then show ?thesis using True id by (simp add: split_encode [OF assms] decodeTaggedPointer_noPermute_def)
  next
    case False
    then show ?thesis using nu x by (simp add: split_encode [OF assms] decodeTaggedPointer_noPermute_def)
  qed
  have "obfuscatedTagToBasicTag T ?y < 8" using y(2) bf_get_3_less by simp
  then have "decodeTaggedPointer split_tags T (encodeTaggedPointer split_tags T r) = bf_set 0 3 ?x (bf_set 0 3 ?y r)"
    using noP bfy y(2) put_basic_tag_bf [of "obfuscatedTagToBasicTag T ?y" split_tags]
    by (simp add: decodeTaggedPointer_def Let_def basic_tag_bf)
  also have "\<dots> = r" by (rule bit_word_eqI) (simp add: bit_bf_set, simp add: bit_bf_get)
  finally show "decodeTaggedPointer split_tags T (encodeTaggedPointer split_tags T r) = r" .
  show "bit (encodeTaggedPointer split_tags T r) 63 = bit r 63"
    using o [of 63] by (simp add: split_encode [OF assms] bit_bf_set bit_xor_iff)
qed


interpretation split: tag_scheme split_tags 63
proof (unfold_locales, goal_cases)
  case (19 T r k)
  then show ?case by (simp add: split_codec(1) bit_bf_set)
next
  case (20 T r)
  then show ?case
    using permuted_tag [of T, OF _ bf_get_3_less] less_8_bits
    by (simp add: split_codec(1) basic_tag_bf bf_get_set tags_ok_def)
qed (simp_all add: split_codec OBJC_TAG_INDEX_MASK_def)

interpretation msb: tag_scheme msb_tags 63
proof (unfold_locales, goal_cases)
  case (21 T r)
  then show ?case
    using obfuscator_tag_bit [of msb_tags T 63] by (simp add: plain_codec(3) bit_xor_iff)
qed (simp_all add: plain_codec(1,2) OBJC_TAG_INDEX_MASK_def)

interpretation lsb: tag_scheme lsb_tags 0
proof (unfold_locales, goal_cases)
  case (21 T r)
  then show ?case
    using obfuscator_tag_bit [of lsb_tags T 0] by (simp add: plain_codec(3) bit_xor_iff)
qed (simp_all add: plain_codec(1,2) OBJC_TAG_INDEX_MASK_def)


subsection \<open>Properties\<close>

definition tag_configs :: "tag_config list" where
  "tag_configs = [split_tags, msb_tags, lsb_tags]"

definition valid_tag :: "nat \<Rightarrow> bool" where
  "valid_tag tag \<longleftrightarrow> tag \<le> 6 \<or> 8 \<le> tag \<and> tag \<le> 263"

definition payload_size :: "nat \<Rightarrow> nat" where
  "payload_size tag = (if tag \<le> 6 then 60 else 52)"

lemma config_scheme:
  assumes "C \<in> set tag_configs"
  obtains t where "tag_scheme C t"
  using assms split.tag_scheme_axioms msb.tag_scheme_axioms lsb.tag_scheme_axioms by (auto simp: tag_configs_def)

text \<open>
  C25: In every representation, and whatever random data the obfuscator and the tag permutation were
  initialised with, a pointer made from a valid tag and a payload is a tagged pointer of the right
  kind, its tag reads back, and its payload reads back truncated to the 60 or 52 bits the tag
  has, zero-extended by the unsigned and sign-extended by the signed accessor.
\<close>

theorem tagged_pointer_roundtrip:
  assumes "C \<in> set tag_configs" and "valid_tag tag" and "\<And>n. 0 < n \<Longrightarrow> uniform n < n"
    and T: "T = initializeTaggedPointerObfuscator C obfuscate random uniform (tag_state_initial C)"
  shows "is_tagged_pointer C (makeTaggedPointer C T tag v) \<and>
    isBasicTaggedPointer C T (makeTaggedPointer C T tag v) = (tag \<le> 6) \<and>
    getTaggedPointerTag C T (makeTaggedPointer C T tag v) = tag \<and>
    getTaggedPointerValue C T (makeTaggedPointer C T tag v) = take_bit (payload_size tag) v \<and>
    getTaggedPointerSignedValue C T (makeTaggedPointer C T tag v) = signed_take_bit (payload_size tag - 1) v"
proof -
  obtain t where S: "tag_scheme C t" using config_scheme [OF assms(1)] .
  have ok: "tags_ok C T" unfolding T by (rule initialize_ok [OF assms(3) perm_ok_initial])
  note v = assms(2) [unfolded valid_tag_def]
  show ?thesis
  proof (cases "tag \<le> 6")
    case True
    then show ?thesis
      using tag_scheme.tagged_make [OF S ok v] tag_scheme.basic_make [OF S ok v] tag_scheme.tag_make_basic [OF S ok]
        tag_scheme.value_make_basic [OF S ok] by (simp add: payload_size_def)
  next
    case False
    then show ?thesis
      using tag_scheme.tagged_make [OF S ok v] tag_scheme.basic_make [OF S ok v] tag_scheme.tag_make_ext [OF S ok]
        tag_scheme.value_make_ext [OF S ok] v by (simp add: payload_size_def)
  qed
qed

theorem tagged_pointer_roundtrip_witness:
  "getTaggedPointerValue split_tags (initializeTaggedPointerObfuscator split_tags True 0x123456789 (\<lambda>n. n - 1) (tag_state_initial split_tags))
     (makeTaggedPointer split_tags (initializeTaggedPointerObfuscator split_tags True 0x123456789 (\<lambda>n. n - 1) (tag_state_initial split_tags)) 3 42)
     = 42"
  using tagged_pointer_roundtrip [of split_tags 3 "\<lambda>n. n - 1" _ True "0x123456789" 42]
  by (simp add: tag_configs_def valid_tag_def payload_size_def)

end
