(* ===== verification/TaggedClasses.thy ===== *)
theory TaggedClasses
  imports TaggedProofs
begin

text \<open>
  The classes of tagged pointers: \<open>getIsa\<close> of a tagged pointer finds the class that was registered
  for its tag, whatever the obfuscation.
\<close>

subsection \<open>Slots\<close>

text \<open>The slots of basic and of extended tags, as words.\<close>

definition bslot :: "tag_config \<Rightarrow> tag_state \<Rightarrow> u64 \<Rightarrow> u64" where
  "bslot C T x =
     (if SPLIT_TAGGED_POINTERS C then basicTagToObfuscatedTag T x
      else let y = x XOR bf_get (OBJC_TAG_INDEX_SHIFT C) 3 (taggedpointer_obfuscator T) in
        if MSB_TAGGED_POINTERS C then 8 OR y else push_bit 1 y OR 1)"

definition eslot :: "tag_config \<Rightarrow> tag_state \<Rightarrow> u64 \<Rightarrow> u64" where
  "eslot C T n =
     (if SPLIT_TAGGED_POINTERS C \<and> 128 \<le> n then n
      else n XOR bf_get (OBJC_TAG_EXT_INDEX_SHIFT C) 8 (taggedpointer_obfuscator T))"

lemma basic_slot_word: "classSlotForBasicTagIndex C T tag = BasicSlot (unat (bslot C T (of_nat tag)))"
  by (simp add: classSlotForBasicTagIndex_def bslot_def Let_def and_masks bf_get_def)

lemma tag_slot_word:
  assumes "valid_tag tag"
  shows "classSlotForTagIndex C T tag =
    Some (if tag \<le> 6 then BasicSlot (unat (bslot C T (of_nat tag))) else ExtSlot (unat (eslot C T (of_nat (tag - 8)))))"
proof (cases "tag \<le> 6")
  case False
  with assms have t: "8 \<le> tag" "tag \<le> 263" by (auto simp: valid_tag_def)
  have u: "unat (of_nat (tag - 8) :: u64) = tag - 8" using t by (intro unat_of_nat_u64) simp
  then have "(128 \<le> (of_nat (tag - 8) :: u64)) = (136 \<le> tag)" using t unfolding word_le_nat_alt u by simp linarith
  then show ?thesis
    using False t u by (simp add: classSlotForTagIndex_def tag_bounds eslot_def Let_def and_masks bf_get_def del: of_nat_diff)
qed (simp add: classSlotForTagIndex_def tag_bounds basic_slot_word)

lemma less_bits: "unat (x::u64) < 2 ^ n \<Longrightarrow> n \<le> k \<Longrightarrow> \<not> bit x k"
  using bit_of_nat_less [of "unat x" n k] by auto

lemma xor_cancel: "(x::u64) XOR z = y XOR z \<longleftrightarrow> x = y"
proof
  assume "x XOR z = y XOR z"
  then have "(x XOR z) XOR z = (y XOR z) XOR z" by simp
  then show "x = y" by (simp add: xor.assoc)
qed simp

lemma bslot_inj:
  assumes "tags_ok C T" and "x < 8" and "y < 8"
  shows "bslot C T x = bslot C T y \<longleftrightarrow> x = y"
proof (cases "SPLIT_TAGGED_POINTERS C")
  case True
  then have p: "perm_ok (tag60_permutations T)" using assms(1) by (simp add: tags_ok_def)
  show ?thesis
    using permuted_tag(2) [OF p assms(2)] permuted_tag(2) [OF p assms(3)] True unfolding bslot_def by metis
next
  case False
  let ?o = "bf_get (OBJC_TAG_INDEX_SHIFT C) 3 (taggedpointer_obfuscator T)"
  have o: "take_bit 3 (z XOR ?o) = z XOR ?o" if "z < 8" for z
    using that less_8_bits [OF that] less_8_bits [OF bf_get_3_less] by (simp add: take_bit_xor)
  have less: "z XOR ?o < 8" if "z < 8" for z
    using o [OF that] unat_bf_get_less [of 0 3 "z XOR ?o"] by (simp add: bf_get_def word_less_nat_alt)
  have msb: "take_bit 3 (8 OR z) = take_bit 3 z" for z :: u64 by (simp add: take_bit_or)
  have lsb: "drop_bit 1 (push_bit 1 z OR 1) = z" if "z < 8" for z :: u64
  proof (rule bit_word_eqI)
    fix k assume "k < LENGTH(64)"
    have "\<not> bit z 63" using that less_bits [of z 3 63] by (simp add: word_less_nat_alt)
    then show "bit (drop_bit 1 (push_bit 1 z OR 1)) k = bit z k"
      unfolding bit_drop_bit_eq o_def bit_or_iff bit_push_bit_iff bit_1_iff
      using bit_imp_le_length [of z k] by (cases "k = 63") auto
  qed
  have "x XOR ?o = y XOR ?o" if e: "bslot C T x = bslot C T y"
  proof (cases "MSB_TAGGED_POINTERS C")
    case True
    then have "take_bit 3 (8 OR (x XOR ?o)) = take_bit 3 (8 OR (y XOR ?o))"
      using e False by (simp only: bslot_def Let_def if_True if_False)
    then show ?thesis unfolding msb o [OF assms(2)] o [OF assms(3)] .
  next
    case nm: False
    then have "drop_bit 1 (push_bit 1 (x XOR ?o) OR 1) = drop_bit 1 (push_bit 1 (y XOR ?o) OR 1)"
      using e False by (simp only: bslot_def Let_def if_True if_False)
    then show ?thesis unfolding lsb [OF less [OF assms(2)]] lsb [OF less [OF assms(3)]] .
  qed
  then show ?thesis using xor_cancel by blast
qed

lemma ext_obfuscator_128:
  assumes "tags_ok split_tags T"
  shows "bf_get 55 8 (taggedpointer_obfuscator T) < 128"
proof -
  let ?o = "taggedpointer_obfuscator T"
  have "bf_get 55 8 ?o = bf_get 55 7 ?o"
  proof (rule bit_word_eqI)
    fix k
    show "bit (bf_get 55 8 ?o) k = bit (bf_get 55 7 ?o) k"
      using split_obfuscator_bit [OF assms, of 62] by (cases "k = 7") (auto simp: bit_bf_get)
  qed
  then show ?thesis using unat_bf_get_less [of 55 7 ?o] by (simp add: word_less_nat_alt)
qed

lemma xor_less_power:
  fixes x y :: u64
  assumes "unat x < 2 ^ n" and "unat y < 2 ^ n"
  shows "unat (x XOR y) < 2 ^ n"
proof -
  have "take_bit n x = x" "take_bit n y = y" using assms by (simp_all add: word_unat_eq_iff unat_take_bit_mod)
  then have "take_bit n (x XOR y) = x XOR y" by (simp add: take_bit_xor)
  then have "unat (x XOR y) = unat (x XOR y) mod 2 ^ n" using unat_take_bit_mod [of n "x XOR y"] by (simp only:)
  also have "\<dots> < 2 ^ n" by simp
  finally show ?thesis .
qed

lemma eslot_inj:
  assumes "C \<in> set tag_configs" and "tags_ok C T" and "x < 256" and "y < 256"
  shows "eslot C T x = eslot C T y \<longleftrightarrow> x = y"
proof -
  show ?thesis
  proof (cases "SPLIT_TAGGED_POINTERS C")
    case True
    then have C: "C = split_tags" using assms(1) by (auto simp: tag_configs_def)
    let ?o = "bf_get 55 8 (taggedpointer_obfuscator T)"
    have "z XOR ?o < 128" if "z < 128" for z
      using xor_less_power [of z 7 ?o] that ext_obfuscator_128 assms(2) by (simp add: C word_less_nat_alt)
    then have "\<not> 128 \<le> z XOR ?o" if "\<not> 128 \<le> z" for z using that by (simp add: not_le)
    then show ?thesis using xor_cancel [of x _ y] by (auto simp: eslot_def C)
  qed (simp add: eslot_def xor_cancel)
qed


subsection \<open>The slot in the pointer\<close>

lemma basic_slot_read:
  assumes "C \<in> set tag_configs" and ok: "tags_ok C T" and r: "r AND OBJC_TAG_MASK C = OBJC_TAG_MASK C"
  shows "drop_bit (OBJC_TAG_SLOT_SHIFT C) (encodeTaggedPointer C T r) AND OBJC_TAG_SLOT_MASK C = bslot C T (basic_tag C r)"
proof -
  let ?o = "taggedpointer_obfuscator T"
  have bit_r: "bit r t" if "OBJC_TAG_MASK C = push_bit t 1" "t < 64" for t
  proof -
    have "bit (r AND OBJC_TAG_MASK C) t" using r that bit_one_shifted [of t t] by simp
    then show ?thesis by (simp add: bit_and_iff)
  qed
  note obf = obfuscator_tag_bit [OF ok]
  consider "C = split_tags" | "C = msb_tags" | "C = lsb_tags" using assms(1) by (auto simp: tag_configs_def)
  then show ?thesis
  proof cases
    case 1
    have p: "perm_ok (tag60_permutations T)" using ok by (simp add: 1 tags_ok_def)
    note y = permuted_tag [OF p bf_get_3_less [of 0 r]]
    have "bf_get 0 3 (encodeTaggedPointer split_tags T r) = basicTagToObfuscatedTag T (bf_get 0 3 r)"
      using y unfolding split_encode [OF ok [unfolded 1]]
      by (auto simp: bf_get_set less_8_bits unobfuscated_iff)
    then show ?thesis
      by (simp add: 1 bslot_def basic_tag_bf and_masks(1) [unfolded OBJC_TAG_INDEX_MASK_def] bf_get_def)
  next
    case 2
    have b: "bit r 63" "\<not> bit ?o 63" using bit_r [of 63] obf [of 63] by (simp_all add: 2)
    have "take_bit 4 (drop_bit 60 (?o XOR r)) = push_bit 3 1 OR (bf_get 60 3 r XOR bf_get 60 3 ?o)"
    proof (rule bit_word_eqI)
      fix k assume "k < LENGTH(64)"
      then show "bit (take_bit 4 (drop_bit 60 (?o XOR r))) k
          = bit (push_bit 3 1 OR (bf_get 60 3 r XOR bf_get 60 3 ?o)) k"
        unfolding bit_take_bit_iff bit_drop_bit_eq o_def bit_xor_iff bit_or_iff bit_bf_get
        using b bit_one_shifted [of 3 k] by (cases "k = 3") auto
    qed
    then show ?thesis
      using plain_codec(3) [of msb_tags T r]
      by (simp add: 2 bslot_def basic_tag_bf mask_numerals(2) flip: take_bit_eq_mask)
  next
    case 3
    have b: "bit r 0" "\<not> bit ?o 0" using bit_r [of 0] obf [of 0] by (simp_all add: 3)
    have "take_bit 4 (?o XOR r) = push_bit 1 (bf_get 1 3 r XOR bf_get 1 3 ?o) OR 1"
    proof (rule bit_word_eqI)
      fix k assume "k < LENGTH(64)"
      then show "bit (take_bit 4 (?o XOR r)) k = bit (push_bit 1 (bf_get 1 3 r XOR bf_get 1 3 ?o) OR 1) k"
        unfolding bit_take_bit_iff bit_xor_iff bit_or_iff bit_bf_get bit_push_bit_iff bit_1_iff
        using b by (cases k) auto
    qed
    moreover have "drop_bit (OBJC_TAG_SLOT_SHIFT lsb_tags) (encodeTaggedPointer lsb_tags T r)
        AND OBJC_TAG_SLOT_MASK lsb_tags = take_bit 4 (?o XOR r)"
      using plain_codec(3) [of lsb_tags T r] by (simp add: mask_numerals(2) flip: take_bit_eq_mask)
    moreover have "bslot lsb_tags T (basic_tag lsb_tags r) = push_bit 1 (bf_get 1 3 r XOR bf_get 1 3 ?o) OR 1"
      unfolding bslot_def basic_tag_bf Let_def by simp
    ultimately show ?thesis unfolding 3 by (simp only:)
  qed
qed


lemma ext_slot_read:
  assumes "C \<in> set tag_configs" and ok: "tags_ok C T" and n: "n < 256" and S: "tag_scheme C t"
  shows "drop_bit (OBJC_TAG_EXT_SLOT_SHIFT C) (encodeTaggedPointer C T (tag_scheme.ext_word C n v)) AND OBJC_TAG_EXT_SLOT_MASK
    = eslot C T (of_nat n)"
proof -
  let ?o = "taggedpointer_obfuscator T" and ?r = "tag_scheme.ext_word C n v"
  let ?e = "OBJC_TAG_EXT_INDEX_SHIFT C"
  have e: "OBJC_TAG_EXT_SLOT_SHIFT C = ?e" using assms(1) by (auto simp: tag_configs_def)
  have r: "bf_get ?e 8 ?r = of_nat n"
    using tag_scheme.ext_word_fields(2) [OF S n, of _ v] bit_of_nat_less [of n 8] n
    by (auto intro!: bit_word_eqI simp: bit_bf_get)
  have x: "bf_get ?e 8 (?o XOR ?r) = of_nat n XOR bf_get ?e 8 ?o"
    unfolding r [symmetric] by (auto intro!: bit_word_eqI simp: bit_bf_get bit_xor_iff)
  show ?thesis
  proof (cases "SPLIT_TAGGED_POINTERS C")
    case True
    then have C: "C = split_tags" using assms(1) by (auto simp: tag_configs_def)
    have "bf_get 0 3 ?r = 7" using tag_scheme.basic_tag_ext_word [OF S n, of v] by (simp add: basic_tag_bf C)
    moreover have "bit ?r 63" using split.bit_ext_word [OF n, of 63 v] by (simp add: C)
    moreover have "bit ?r 62 = bit (of_nat n :: u64) 7" using split.ext_word_fields(2) [OF n, of 7 v] by (simp add: C)
    ultimately have u: "unobfuscated split_tags ?r = bit (of_nat n :: u64) 7" by (simp add: unobfuscated_iff C)
    have n128: "bit (of_nat n :: u64) 7 = (128 \<le> (of_nat n :: u64))"
    proof -
      have "n div 128 < 2" using n by (simp add: less_mult_imp_div_less)
      then have "odd (n div 128) = (128 \<le> n)" by (cases "n div 128") (auto simp: div_eq_0_iff)
      moreover have "bit (of_nat n :: u64) 7 = odd (n div 128)"
        by (simp only: bit_of_nat_iff) (simp add: possible_bit_def bit_iff_odd)
      ultimately show ?thesis using n by (simp add: word_le_nat_alt unat_of_nat_u64)
    qed
    have "bf_get ?e 8 (bf_set 0 3 y w) = bf_get ?e 8 w" for y w using bf_get_set_other [of 0 3 ?e 8] by (simp add: C)
    then show ?thesis
      using x u n128 r unfolding e and_masks by (auto simp: bf_get_def [symmetric] C split_encode [OF ok [unfolded C]] eslot_def)
  next
    case False
    then show ?thesis
      using r unfolding e and_masks by (simp add: bf_get_def [symmetric] plain_codec(3) eslot_def xor.commute)
  qed
qed


lemma made_slots:
  fixes v :: u64
  assumes C: "C \<in> set tag_configs" and ok: "tags_ok C T" and tag: "valid_tag tag"
  defines "p \<equiv> makeTaggedPointer C T tag v"
  shows "drop_bit (OBJC_TAG_SLOT_SHIFT C) p AND OBJC_TAG_SLOT_MASK C = bslot C T (if tag \<le> 6 then of_nat tag else 7)"
    and "\<not> tag \<le> 6 \<Longrightarrow>
      drop_bit (OBJC_TAG_EXT_SLOT_SHIFT C) p AND OBJC_TAG_EXT_SLOT_MASK = eslot C T (of_nat (tag - 8))"
proof -
  obtain t where S: "tag_scheme C t" using config_scheme [OF C] .
  have masked: "r AND OBJC_TAG_MASK C = OBJC_TAG_MASK C" if "bit r t" for r
    using that tag_scheme.tag_mask [OF S] by (auto intro!: bit_word_eqI simp: bit_and_iff bit_exp_iff)
  show "drop_bit (OBJC_TAG_SLOT_SHIFT C) p AND OBJC_TAG_SLOT_MASK C = bslot C T (if tag \<le> 6 then of_nat tag else 7)"
  proof (cases "tag \<le> 6")
    case True
    then show ?thesis
      using basic_slot_read [OF C ok masked] tag_scheme.bit_basic_word [OF S, of tag t v] tag_scheme.tag_mask(2) [OF S]
        tag_scheme.basic_tag_basic_word [OF S, of tag v]
      by (simp add: p_def tag_scheme.make_word [OF S])
  next
    case False
    then have "8 \<le> tag" "tag - 8 < 256" using tag by (auto simp: valid_tag_def)
    then show ?thesis
      using False basic_slot_read [OF C ok masked] tag_scheme.bit_ext_word [OF S, of "tag - 8" t v] tag_scheme.tag_mask(2) [OF S]
        tag_scheme.basic_tag_ext_word [OF S, of "tag - 8" v]
      by (simp add: p_def tag_scheme.make_word [OF S])
  qed
  assume "\<not> tag \<le> 6"
  then have "8 \<le> tag" "tag - 8 < 256" using tag by (auto simp: valid_tag_def)
  then show "drop_bit (OBJC_TAG_EXT_SLOT_SHIFT C) p AND OBJC_TAG_EXT_SLOT_MASK = eslot C T (of_nat (tag - 8))"
    using ext_slot_read [OF C ok _ S, of "tag - 8" v] by (simp add: p_def tag_scheme.make_word [OF S] del: of_nat_diff)
qed

subsection \<open>Registered classes\<close>

text \<open>
  The reserved basic slot holds nothing or the placeholder, no other basic slot holds it, and it
  is there as soon as an extended tag has a class.
\<close>

definition classes_ok :: "tag_config \<Rightarrow> u64 \<Rightarrow> tag_state \<Rightarrow> bool" where
  "classes_ok C U T \<longleftrightarrow> U \<noteq> 0 \<and>
     (\<forall>tag\<le>6. getClassForTag C T tag \<noteq> U) \<and>
     slot_class T (classSlotForBasicTagIndex C T 7) \<in> {0, U} \<and>
     (\<forall>tag. 8 \<le> tag \<and> tag \<le> 263 \<and> getClassForTag C T tag \<noteq> 0 \<longrightarrow> slot_class T (classSlotForBasicTagIndex C T 7) = U)"

lemma getIsa_made:
  assumes C: "C \<in> set tag_configs" and ok: "tags_ok C T" and inv: "classes_ok C U T" and tag: "valid_tag tag"
  shows "getIsa C U T isa (makeTaggedPointer C T tag v) = getClassForTag C T tag"
proof -
  obtain t where S: "tag_scheme C t" using config_scheme [OF C] .
  note sl = made_slots [OF C ok tag, of v]
  have tagged: "is_tagged_pointer C (makeTaggedPointer C T tag v)"
    using tag_scheme.tagged_make [OF S ok] tag by (simp add: valid_tag_def)
  show ?thesis
  proof (cases "tag \<le> 6")
    case True
    then have "getClassForTag C T tag = tag_classes T (unat (bslot C T (of_nat tag)))"
      by (simp add: getClassForTag_def tag_slot_word [OF tag] slot_class_def)
    then show ?thesis using inv True sl(1) tagged by (auto simp: getIsa_def classes_ok_def Let_def)
  next
    case False
    then have t: "8 \<le> tag" "tag \<le> 263" using tag by (auto simp: valid_tag_def)
    have e: "getClassForTag C T tag = tag_ext_classes T (unat (eslot C T (of_nat (tag - 8))))"
      using False by (simp add: getClassForTag_def tag_slot_word [OF tag] slot_class_def)
    have "tag_classes T (unat (bslot C T 7)) = slot_class T (classSlotForBasicTagIndex C T 7)"
      by (simp add: basic_slot_word slot_class_def)
    then have "tag_classes T (unat (bslot C T 7)) = U \<or> tag_classes T (unat (bslot C T 7)) = 0 \<and> getClassForTag C T tag = 0"
      using inv t unfolding classes_ok_def by auto
    then show ?thesis using sl(1) sl(2) [OF False] False tagged e inv
      by (auto simp: getIsa_def classes_ok_def Let_def simp del: of_nat_diff)
  qed
qed


lemma set_slot_class_simps [simp]:
  "taggedpointer_obfuscator (set_slot_class sl c T) = taggedpointer_obfuscator T"
  "tag60_permutations (set_slot_class sl c T) = tag60_permutations T"
  "taggedpointer_mask (set_slot_class sl c T) = taggedpointer_mask T"
  "slot_class (set_slot_class sl c T) sl' = (if sl' = sl then c else slot_class T sl')"
  "bslot C (set_slot_class sl c T) = bslot C T" "eslot C (set_slot_class sl c T) = eslot C T"
  "tags_ok C (set_slot_class sl c T) = tags_ok C T"
  by (auto simp: set_slot_class_def slot_class_def bslot_def eslot_def basicTagToObfuscatedTag_def tags_ok_def fun_eq_iff
      split: class_slot.splits)

definition tag_slot :: "tag_config \<Rightarrow> tag_state \<Rightarrow> nat \<Rightarrow> class_slot" where
  "tag_slot C T tag =
     (if tag \<le> 7 then BasicSlot (unat (bslot C T (of_nat tag))) else ExtSlot (unat (eslot C T (of_nat (tag - 8)))))"

lemma tag_slot_set [simp]: "tag_slot C (set_slot_class sl c T) = tag_slot C T"
  by (auto simp: tag_slot_def fun_eq_iff)

lemma tag_slot_eqs:
  "valid_tag tag \<Longrightarrow> classSlotForTagIndex C T tag = Some (tag_slot C T tag)"
  "valid_tag tag \<Longrightarrow> getClassForTag C T tag = slot_class T (tag_slot C T tag)"
  "classSlotForBasicTagIndex C T 7 = tag_slot C T 7"
  by (auto simp: tag_slot_word getClassForTag_def tag_slot_def valid_tag_def basic_slot_word)

lemma unat_eq_iff: "unat (x :: u64) = unat y \<longleftrightarrow> x = y"
  by (simp add: word_unat_eq_iff)

lemma tag_slot_inj:
  assumes "C \<in> set tag_configs" and "tags_ok C T" and "a \<le> 263" and "b \<le> 263"
  shows "tag_slot C T a = tag_slot C T b \<longleftrightarrow> a = b"
proof -
  have small: "(of_nat n :: u64) < 8" if "n \<le> 7" for n using that by (simp add: word_less_nat_alt unat_of_nat_u64)
  have big: "(of_nat (n - 8) :: u64) < 256" if "n \<le> 263" for n
  proof -
    have "n - 8 < 256" using that by simp
    then show ?thesis using unat_of_nat_u64 [of "n - 8"] by (simp add: word_less_nat_alt del: of_nat_diff)
  qed
  have inj: "(of_nat x :: u64) = of_nat y \<longleftrightarrow> x = y" if "x < 2 ^ 64" "y < 2 ^ 64" for x y
    using that unat_of_nat_u64 by metis
  show ?thesis
    using bslot_inj [OF assms(2) small small, of a b] eslot_inj [OF assms(1,2) big [OF assms(3)] big [OF assms(4)]]
      inj [of a b] inj [of "a - 8" "b - 8"] assms(3,4)
    by (auto simp: tag_slot_def unat_eq_iff simp del: of_nat_diff)
qed

lemma classes_ok_alt:
  "classes_ok C U T \<longleftrightarrow> U \<noteq> 0 \<and> (\<forall>tag\<le>6. slot_class T (tag_slot C T tag) \<noteq> U) \<and>
     slot_class T (tag_slot C T 7) \<in> {0, U} \<and>
     (\<forall>tag. 8 \<le> tag \<and> tag \<le> 263 \<and> slot_class T (tag_slot C T tag) \<noteq> 0 \<longrightarrow> slot_class T (tag_slot C T 7) = U)"
  by (auto simp: classes_ok_def tag_slot_eqs valid_tag_def)

lemma register_spec:
  assumes C: "C \<in> set tag_configs" and ok: "tags_ok C T" and inv: "classes_ok C U T" and cls: "cls \<noteq> U"
    and reg: "registerTaggedPointerClass C U tag cls T = Some T'"
  shows "valid_tag tag" "tags_ok C T'" "classes_ok C U T'"
    "\<And>tag'. valid_tag tag' \<Longrightarrow> getClassForTag C T' tag' = (if tag' = tag then cls else getClassForTag C T tag')"
proof -
  show v: "valid_tag tag"
    using reg by (auto simp: registerTaggedPointerClass_def classSlotForTagIndex_def tag_bounds valid_tag_def split: if_splits)
  let ?sl = "tag_slot C T tag" and ?x = "tag_slot C T 7"
  have le: "tag \<le> 263" "tag \<noteq> 7" using v by (auto simp: valid_tag_def)
  note inj = tag_slot_inj [OF C ok]
  have ne: "?sl \<noteq> ?x" using inj [of tag 7] le by simp
  have T': "T' = (if tag \<le> 6 then set_slot_class ?sl cls T
      else if slot_class T ?x = 0 then set_slot_class ?x U (set_slot_class ?sl cls T) else set_slot_class ?sl cls T)"
    using reg ne unfolding registerTaggedPointerClass_def tag_slot_eqs(1) [OF v] OBJC_TAG_RESERVED_7_def tag_slot_eqs(3)
    by (auto simp: tag_bounds Let_def split: if_splits)
  then show "tags_ok C T'" using ok by simp
  have slot: "tag_slot C T' = tag_slot C T" by (simp add: T')
  have cl: "slot_class T' (tag_slot C T tag') = (if tag' = tag then cls else slot_class T (tag_slot C T tag'))"
    if "tag' \<le> 263" "tag' \<noteq> 7" for tag'
    using that le inj [of tag' tag] inj [of tag' 7] by (auto simp: T')
  then show "\<And>tag'. valid_tag tag' \<Longrightarrow> getClassForTag C T' tag' = (if tag' = tag then cls else getClassForTag C T tag')"
    by (auto simp: tag_slot_eqs(2) slot valid_tag_def)
  have x: "slot_class T' ?x = (if \<not> tag \<le> 6 \<and> slot_class T ?x = 0 then U else slot_class T ?x)"
    using ne by (auto simp: T')
  show "classes_ok C U T'"
    unfolding classes_ok_alt slot
  proof (intro conjI allI impI)
    show "U \<noteq> 0" using inv by (simp add: classes_ok_alt)
    show "slot_class T' (tag_slot C T tag') \<noteq> U" if "tag' \<le> 6" for tag'
      using that cl [of tag'] cls inv by (auto simp: classes_ok_alt)
    show "slot_class T' ?x \<in> {0, U}" using x inv by (auto simp: classes_ok_alt)
    show "slot_class T' ?x = U" if "8 \<le> tag' \<and> tag' \<le> 263 \<and> slot_class T' (tag_slot C T tag') \<noteq> 0" for tag'
      using that cl [of tag'] x inv by (auto simp: classes_ok_alt split: if_splits)
  qed
qed


subsection \<open>Properties\<close>

text \<open>A sequence of registrations, and the classes it leaves.\<close>

fun register_all :: "tag_config \<Rightarrow> u64 \<Rightarrow> (nat \<times> u64) list \<Rightarrow> tag_state \<Rightarrow> tag_state option" where
  "register_all C U [] T = Some T"
| "register_all C U ((tag, cls) # rs) T =
     (case registerTaggedPointerClass C U tag cls T of None \<Rightarrow> None | Some T' \<Rightarrow> register_all C U rs T')"

fun last_class :: "(nat \<times> u64) list \<Rightarrow> nat \<Rightarrow> u64 \<Rightarrow> u64" where
  "last_class [] tag c = c"
| "last_class ((tag', cls) # rs) tag c = last_class rs tag (if tag' = tag then cls else c)"

lemma register_all_spec:
  assumes "C \<in> set tag_configs" and "U \<notin> snd ` set rs"
    and "tags_ok C T" and "classes_ok C U T" and "register_all C U rs T = Some T'"
  shows "tags_ok C T' \<and> classes_ok C U T' \<and>
    (\<forall>tag. valid_tag tag \<longrightarrow> getClassForTag C T' tag = last_class rs tag (getClassForTag C T tag))"
  using assms(2-5)
proof (induction rs arbitrary: T)
  case (Cons rc rs)
  obtain tag cls where rc: "rc = (tag, cls)" by (cases rc)
  obtain T1 where T1: "registerTaggedPointerClass C U tag cls T = Some T1" "register_all C U rs T1 = Some T'"
    using Cons.prems(4) by (auto simp: rc split: option.splits)
  have "cls \<noteq> U" using Cons.prems(1) by (auto simp: rc)
  note r = register_spec [OF assms(1) Cons.prems(2,3) this T1(1)]
  show ?case using Cons.IH [OF _ r(2,3) T1(2)] Cons.prems(1) r(4) by (auto simp: rc)
qed simp

lemma initial_classes:
  "U \<noteq> 0 \<Longrightarrow> classes_ok C U (initializeTaggedPointerObfuscator C obfuscate random uniform (tag_state_initial C))"
  "getClassForTag C (initializeTaggedPointerObfuscator C obfuscate random uniform (tag_state_initial C)) tag = 0"
proof -
  let ?T = "initializeTaggedPointerObfuscator C obfuscate random uniform (tag_state_initial C)"
  have z: "slot_class ?T sl = 0" for sl
    by (auto simp: slot_class_def initializeTaggedPointerObfuscator_def tag_state_initial_def Let_def split: class_slot.splits)
  then show "U \<noteq> 0 \<Longrightarrow> classes_ok C U ?T" by (simp add: classes_ok_alt)
  show "getClassForTag C ?T tag = 0" using z by (simp add: getClassForTag_def split: option.splits)
qed

text \<open>
  Registering a class for a tag aborts exactly when tagged pointers are disabled, when the tag is
  not valid, or when another class already has the tag.
\<close>

lemma registerTaggedPointerClass_aborts:
  "registerTaggedPointerClass C U tag cls T = None \<longleftrightarrow>
     \<not> taggedPointersEnabled T \<or> \<not> valid_tag tag \<or>
     cls \<noteq> 0 \<and> getClassForTag C T tag \<noteq> 0 \<and> getClassForTag C T tag \<noteq> cls"
proof (cases "valid_tag tag")
  case True
  then show ?thesis
    unfolding registerTaggedPointerClass_def tag_slot_eqs(1,2) [OF True] by (auto simp: taggedPointersEnabled_def Let_def)
next
  case False
  then have "classSlotForTagIndex C T tag = None" by (auto simp: classSlotForTagIndex_def tag_bounds valid_tag_def)
  then show ?thesis using False by (simp add: registerTaggedPointerClass_def)
qed

text \<open>
  C26: After any sequence of class registrations that does not abort, \<open>getIsa\<close> of a tagged pointer is
  the class registered last for its tag, and nil if there is none: the slot that \<open>getIsa\<close> reads
  from the obfuscated pointer, directly or through the placeholder class of the extended tags,
  is the slot the registration wrote, and no two tags share a slot.
\<close>

theorem tagged_pointer_class:
  assumes "C \<in> set tag_configs" and "valid_tag tag" and "\<And>n. 0 < n \<Longrightarrow> uniform n < n"
    and "U \<noteq> 0" and "U \<notin> snd ` set rs"
    and "register_all C U rs (initializeTaggedPointerObfuscator C obfuscate random uniform (tag_state_initial C)) = Some T"
  shows "getIsa C U T isa (makeTaggedPointer C T tag v) = last_class rs tag 0"
proof -
  have r: "tags_ok C T \<and> classes_ok C U T \<and> (\<forall>tag. valid_tag tag \<longrightarrow> getClassForTag C T tag = last_class rs tag 0)"
    using register_all_spec [OF assms(1,5) initialize_ok [OF assms(3) perm_ok_initial] initial_classes(1) [OF assms(4)] assms(6)]
    by (simp add: initial_classes(2))
  then show ?thesis using getIsa_made [OF assms(1) _ _ assms(2)] assms(2) by simp
qed

theorem tagged_pointer_class_witness:
  "\<exists>T. register_all lsb_tags 0x99 [(3, 0x100)] (initializeTaggedPointerObfuscator lsb_tags False 0 (\<lambda>n. n - 1) (tag_state_initial lsb_tags)) = Some T \<and>
     getIsa lsb_tags 0x99 T (\<lambda>p. ISA sample_env p sample_rt) (makeTaggedPointer lsb_tags T 3 42) = 0x100"
proof -
  let ?T0 = "initializeTaggedPointerObfuscator lsb_tags False 0 (\<lambda>n. n - 1) (tag_state_initial lsb_tags)"
  have "registerTaggedPointerClass lsb_tags 0x99 3 0x100 ?T0 \<noteq> None"
    unfolding registerTaggedPointerClass_aborts initial_classes(2)
    by (simp add: valid_tag_def taggedPointersEnabled_def initializeTaggedPointerObfuscator_def tag_state_initial_def)
  then obtain T where "register_all lsb_tags 0x99 [(3, 0x100)] ?T0 = Some T" by auto
  then show ?thesis
    using tagged_pointer_class [of lsb_tags 3 "\<lambda>n. n - 1" "0x99" "[(3, 0x100)]" False 0 T "\<lambda>p. ISA sample_env p sample_rt" 42]
    by (auto simp: tag_configs_def valid_tag_def)
qed

end
