(* ===== verification/RawObject.thy ===== *)
theory RawObject
  imports TaggedClasses
begin

text \<open>
  Objects on builds without packed \<open>isa\<close> words (\<open>objc-object.h\<close> with \<open>SUPPORT_NONPOINTER_ISA\<close> off: the
  64-bit simulators on Intel machines), where the \<open>isa\<close> word is the class and every count is in the side table,
  and the entry points of both kinds of builds. The flag of a class that its instances may have
  associated objects is the argument \<open>assoc\<close>.
\<close>

subsection \<open>Entry points of builds with packed words\<close>

definition obj_retain :: "env \<Rightarrow> u64 \<Rightarrow> script \<Rightarrow> rt \<Rightarrow> (retval \<times> rt) option" where
  "obj_retain E this sc s = rootRetain E this False FastOrMsgSend sc s"

definition obj_rootRetain :: "env \<Rightarrow> u64 \<Rightarrow> script \<Rightarrow> rt \<Rightarrow> (retval \<times> rt) option" where
  "obj_rootRetain E this sc s = rootRetain E this False Fast sc s"

definition obj_release :: "env \<Rightarrow> u64 \<Rightarrow> script \<Rightarrow> rt \<Rightarrow> rt option" where
  "obj_release E this sc s = map_option snd (rootRelease E this True FastOrMsgSend sc s)"

definition obj_rootRelease :: "env \<Rightarrow> u64 \<Rightarrow> script \<Rightarrow> rt \<Rightarrow> (bool \<times> rt) option" where
  "obj_rootRelease E this sc s = rootRelease E this True Fast sc s"

definition obj_rootReleaseShouldDealloc :: "env \<Rightarrow> u64 \<Rightarrow> script \<Rightarrow> rt \<Rightarrow> (bool \<times> rt) option" where
  "obj_rootReleaseShouldDealloc E this sc s = rootRelease E this False Fast sc s"

subsection \<open>The class of an object with a raw isa\<close>

definition raw_setClass :: "u64 \<Rightarrow> u64" where
  "raw_setClass cls = cls"

definition raw_getClass :: "u64 \<Rightarrow> u64" where
  "raw_getClass bits = bits"

definition raw_getDecodedClass :: "u64 \<Rightarrow> u64" where
  "raw_getDecodedClass bits = raw_getClass bits"

definition raw_ISA :: "u64 \<Rightarrow> rt \<Rightarrow> u64" where
  "raw_ISA this s = raw_getClass (isa_bits s this)"

definition raw_rawISA :: "u64 \<Rightarrow> rt \<Rightarrow> u64" where
  "raw_rawISA this s = raw_ISA this s"

definition raw_hasNonpointerIsa :: "u64 \<Rightarrow> rt \<Rightarrow> bool" where
  "raw_hasNonpointerIsa this s = False"

definition raw_initIsa :: "u64 \<Rightarrow> u64 \<Rightarrow> rt \<Rightarrow> rt" where
  "raw_initIsa this cls s = store_isa this (raw_setClass cls) s"

definition raw_initClassIsa :: "u64 \<Rightarrow> u64 \<Rightarrow> rt \<Rightarrow> rt" where
  "raw_initClassIsa this cls s = raw_initIsa this cls s"

definition raw_initProtocolIsa :: "u64 \<Rightarrow> u64 \<Rightarrow> rt \<Rightarrow> rt" where
  "raw_initProtocolIsa this cls s = raw_initIsa this cls s"

definition raw_initInstanceIsa :: "u64 \<Rightarrow> u64 \<Rightarrow> bool \<Rightarrow> rt \<Rightarrow> rt" where
  "raw_initInstanceIsa this cls hasDtor s = raw_initIsa this cls s"

definition raw_initIsa_flags :: "u64 \<Rightarrow> u64 \<Rightarrow> bool \<Rightarrow> bool \<Rightarrow> rt \<Rightarrow> rt" where
  "raw_initIsa_flags this cls nonptr hasDtor s = raw_initIsa this cls s"

definition raw_changeIsa :: "u64 \<Rightarrow> u64 \<Rightarrow> rt \<Rightarrow> (u64 \<Rightarrow> bool) \<Rightarrow> u64 \<times> rt \<times> (u64 \<Rightarrow> bool)" where
  "raw_changeIsa this cls s assoc =
     (let oldcls = raw_getDecodedClass (isa_bits s this);
          s = store_isa this (raw_setClass cls) s in
      (oldcls, s, if oldcls \<noteq> 0 \<and> assoc oldcls then assoc(cls := True) else assoc))"

definition raw_getIsa :: "tag_config \<Rightarrow> u64 \<Rightarrow> tag_state \<Rightarrow> u64 \<Rightarrow> rt \<Rightarrow> u64" where
  "raw_getIsa C unrecognized T this s = getIsa C unrecognized T (\<lambda>p. raw_ISA p s) this"

definition raw_hasAssociatedObjects :: "tag_config \<Rightarrow> u64 \<Rightarrow> tag_state \<Rightarrow> u64 \<Rightarrow> rt \<Rightarrow> (u64 \<Rightarrow> bool) \<Rightarrow> bool" where
  "raw_hasAssociatedObjects C unrecognized T this s assoc = assoc (raw_getIsa C unrecognized T this s)"

definition raw_setHasAssociatedObjects ::
  "tag_config \<Rightarrow> u64 \<Rightarrow> tag_state \<Rightarrow> u64 \<Rightarrow> rt \<Rightarrow> (u64 \<Rightarrow> bool) \<Rightarrow> (u64 \<Rightarrow> bool)" where
  "raw_setHasAssociatedObjects C unrecognized T this s assoc =
     assoc(raw_getIsa C unrecognized T this s := True)"

definition raw_isWeaklyReferenced :: "env \<Rightarrow> u64 \<Rightarrow> rt \<Rightarrow> (bool \<times> rt) option" where
  "raw_isWeaklyReferenced E this s = sidetable_isWeaklyReferenced E this s"

definition raw_setWeaklyReferenced_nolock :: "env \<Rightarrow> u64 \<Rightarrow> rt \<Rightarrow> rt option" where
  "raw_setWeaklyReferenced_nolock E this s = sidetable_setWeaklyReferenced_nolock E this s"

definition raw_hasCxxDtor :: "env \<Rightarrow> u64 \<Rightarrow> rt \<Rightarrow> bool" where
  "raw_hasCxxDtor E this s = cls_hasCxxDtor (classes E (raw_getClass (isa_bits s this)))"

subsection \<open>Counts\<close>

definition raw_rootIsDeallocating :: "env \<Rightarrow> u64 \<Rightarrow> rt \<Rightarrow> bool option" where
  "raw_rootIsDeallocating E this s =
     (if isTaggedPointer E this then Some False else sidetable_isDeallocating E this s)"

definition raw_clearDeallocating :: "env \<Rightarrow> u64 \<Rightarrow> rt \<Rightarrow> rt option" where
  "raw_clearDeallocating E this s = sidetable_clearDeallocating E this s"

definition raw_rootDealloc :: "env \<Rightarrow> u64 \<Rightarrow> rt \<Rightarrow> rt" where
  "raw_rootDealloc E this s = (if isTaggedPointer E this then s else s\<lparr>sent := sent s @ [Dispose this]\<rparr>)"

definition raw_rootRetain :: "env \<Rightarrow> u64 \<Rightarrow> rt \<Rightarrow> (u64 \<times> rt) option" where
  "raw_rootRetain E this s = (if isTaggedPointer E this then Some (this, s) else sidetable_retain E this False s)"

definition raw_retain :: "env \<Rightarrow> u64 \<Rightarrow> rt \<Rightarrow> (retval \<times> rt) option" where
  "raw_retain E this s =
     (if \<not> hasCustomRR (classes E (raw_ISA this s))
      then map_option (\<lambda>(r, s). (Id r, s)) (sidetable_retain E this False s)
      else Some (ResultOf (MsgRetain this), s))"

definition raw_release :: "env \<Rightarrow> u64 \<Rightarrow> rt \<Rightarrow> rt option" where
  "raw_release E this s =
     (if \<not> hasCustomRR (classes E (raw_ISA this s)) then map_option snd (sidetable_release E this False True s)
      else Some (s\<lparr>sent := sent s @ [MsgRelease this]\<rparr>))"

definition raw_rootRelease :: "env \<Rightarrow> u64 \<Rightarrow> rt \<Rightarrow> (bool \<times> rt) option" where
  "raw_rootRelease E this s = (if isTaggedPointer E this then Some (False, s) else sidetable_release E this False True s)"

definition raw_rootReleaseShouldDealloc :: "env \<Rightarrow> u64 \<Rightarrow> rt \<Rightarrow> (bool \<times> rt) option" where
  "raw_rootReleaseShouldDealloc E this s =
     (if isTaggedPointer E this then Some (False, s) else sidetable_release E this False False s)"

definition raw_rootTryRetain :: "env \<Rightarrow> u64 \<Rightarrow> rt \<Rightarrow> (bool \<times> rt) option" where
  "raw_rootTryRetain E this s = (if isTaggedPointer E this then Some (True, s) else sidetable_tryRetain E this s)"

definition raw_rootRetainCount :: "env \<Rightarrow> u64 \<Rightarrow> rt \<Rightarrow> (u64 \<times> rt) option" where
  "raw_rootRetainCount E this s = (if isTaggedPointer E this then Some (this, s) else sidetable_retainCount E this s)"

subsection \<open>Sequences of retains and releases\<close>

text \<open>An object that is alive: it is not deallocating and its count is not pinned.\<close>

definition raw_ready :: "env \<Rightarrow> u64 \<Rightarrow> rt \<Rightarrow> bool" where
  "raw_ready E obj s \<longleftrightarrow> st_ok E s \<and> obj_addr obj \<and> \<not> isTaggedPointer E obj \<and> \<not> locked E obj s \<and>
     \<not> bit (counts E s obj) 1"

definition raw_total :: "env \<Rightarrow> u64 \<Rightarrow> rt \<Rightarrow> nat" where
  "raw_total E obj s = 1 + side_rc (counts E s obj)"

inductive raw_run :: "env \<Rightarrow> u64 \<Rightarrow> rt \<Rightarrow> rr_op list \<Rightarrow> rt \<Rightarrow> bool" for E obj where
  raw_Nil: "raw_run E obj s [] s"
| raw_Retain: "st_room E s \<Longrightarrow> raw_rootRetain E obj s = Some (r, s1) \<Longrightarrow> raw_run E obj s1 ops s' \<Longrightarrow>
    raw_run E obj s (Retain # ops) s'"
| raw_Release: "st_room E s \<Longrightarrow> raw_rootRelease E obj s = Some (r, s1) \<Longrightarrow> raw_run E obj s1 ops s' \<Longrightarrow>
    raw_run E obj s (Release # ops) s'"

inductive_cases raw_NilE: "raw_run E obj s [] s'"

text \<open>Sequences that do not use the object after the release that deallocates it.\<close>

fun rr_live :: "nat \<Rightarrow> rr_op list \<Rightarrow> bool" where
  "rr_live n [] = True"
| "rr_live n (Retain # ops) = (0 < n \<and> rr_live (n + 1) ops)"
| "rr_live n (Release # ops) = (0 < n \<and> rr_live (n - 1) ops)"

lemma rr_live_0: "rr_live 0 ops \<Longrightarrow> ops = []"
  by (cases ops rule: list.exhaust) (auto elim: rr_live.elims)

lemma side_rc_4: "unat c + 4 < 2 ^ 64 \<Longrightarrow> side_rc (c + SIDE_TABLE_RC_ONE) = side_rc c + 1"
  by (simp add: side_rc_def SIDE_TABLE_RC_ONE_def unat_word_ariths(1))

lemma side_rc_sub_4: "4 \<le> unat c \<Longrightarrow> side_rc (c - SIDE_TABLE_RC_ONE) = side_rc c - 1"
  by (simp add: side_rc_def SIDE_TABLE_RC_ONE_def unat_sub word_le_nat_alt)

lemma bit_1_add_4:
  "unat c + 4 < 2 ^ 64 \<Longrightarrow> bit (c + SIDE_TABLE_RC_ONE) (Suc 0) = bit c (Suc 0)"
  "4 \<le> unat c \<Longrightarrow> bit (c - SIDE_TABLE_RC_ONE) (Suc 0) = bit c (Suc 0)"
proof -
  have b: "bit c (Suc 0) \<longleftrightarrow> odd (unat c div 2)" for c :: u64 using bit_unat [of c 1] by (simp add: bit_iff_odd)
  show "bit (c + SIDE_TABLE_RC_ONE) (Suc 0) = bit c (Suc 0)" if "unat c + 4 < 2 ^ 64"
    using that by (simp add: b SIDE_TABLE_RC_ONE_def unat_word_ariths(1)) presburger
  show "bit (c - SIDE_TABLE_RC_ONE) (Suc 0) = bit c (Suc 0)" if "4 \<le> unat c"
    using that by (simp add: b SIDE_TABLE_RC_ONE_def unat_sub word_le_nat_alt) presburger
qed

lemma below_deallocating:
  assumes "\<not> bit c 1"
  shows "c < SIDE_TABLE_DEALLOCATING \<longleftrightarrow> side_rc c = 0"
proof -
  have "even (unat c div 2)" using assms bit_unat [of c 1] by (simp add: bit_iff_odd)
  then have "unat c < 2 \<longleftrightarrow> unat c div 4 = 0" by presburger
  then show ?thesis by (simp add: side_rc_def SIDE_TABLE_DEALLOCATING_def word_less_nat_alt)
qed

lemma not_pinned: "side_rc c < 2 ^ 60 \<Longrightarrow> \<not> bit c 63 \<and> unat c + 4 < 2 ^ 64"
  by (auto simp: side_rc_def bit_63_iff)

lemma raw_retain_step:
  assumes "raw_ready E obj s" and "st_room E s" and "raw_total E obj s < 2 ^ 60"
  shows "\<exists>s'. raw_rootRetain E obj s = Some (obj, s') \<and> raw_ready E obj s' \<and>
    raw_total E obj s' = raw_total E obj s + 1 \<and> sent s' = sent s"
proof -
  have r: "st_ok E s" "obj_addr obj" "\<not> isTaggedPointer E obj" "\<not> locked E obj s" "\<not> bit (counts E s obj) 1"
    using assms(1) by (simp_all add: raw_ready_def)
  have np: "\<not> bit (counts E s obj) 63" "unat (counts E s obj) + 4 < 2 ^ 64"
    using not_pinned [of "counts E s obj"] assms(3) by (simp_all add: raw_total_def)
  obtain s' where s': "sidetable_retain E obj False s = Some (obj, s')" "st_ok E s'" "frame s s'"
    "counts E s' = (counts E s)(obj := counts E s obj + SIDE_TABLE_RC_ONE)"
    using retain_spec [OF r(1) assms(2) r(2), of False] r(4) np(1) by auto
  have "raw_ready E obj s'" "raw_total E obj s' = raw_total E obj s + 1"
    using s' r locked_frame [OF s'(3), of E obj] side_rc_4 [OF np(2)] bit_1_add_4(1) [OF np(2)]
    by (simp_all add: raw_ready_def raw_total_def)
  then show ?thesis using s'(1,3) r(3) by (simp add: raw_rootRetain_def frame_def)
qed

lemma raw_release_step:
  assumes "raw_ready E obj s" and "st_room E s" and "raw_total E obj s < 2 ^ 60"
  shows "\<exists>s'. raw_rootRelease E obj s = Some (raw_total E obj s = 1, s') \<and>
    (1 < raw_total E obj s \<longrightarrow> raw_ready E obj s' \<and> raw_total E obj s' = raw_total E obj s - 1) \<and>
    sent s' = sent s @ (if raw_total E obj s = 1 then [Dealloc obj] else [])"
proof -
  let ?c = "counts E s obj"
  have r: "st_ok E s" "obj_addr obj" "\<not> isTaggedPointer E obj" "\<not> locked E obj s" "\<not> bit ?c 1"
    using assms(1) by (simp_all add: raw_ready_def)
  have np: "\<not> bit ?c 63" using not_pinned [of ?c] assms(3) by (simp add: raw_total_def)
  have one: "?c < SIDE_TABLE_DEALLOCATING \<longleftrightarrow> raw_total E obj s = 1" using below_deallocating [OF r(5)] by (simp add: raw_total_def)
  obtain s' where s': "sidetable_release E obj False True s = Some (raw_total E obj s = 1, s')" "st_ok E s'"
    "frame (s\<lparr>sent := sent s @ (if raw_total E obj s = 1 then [Dealloc obj] else [])\<rparr>) s'"
    "counts E s' = (counts E s)(obj := (if raw_total E obj s = 1 then ?c OR SIDE_TABLE_DEALLOCATING else ?c - SIDE_TABLE_RC_ONE))"
    using release_spec [OF r(1) assms(2) r(2), of False True] r(4) np by (auto simp: one)
  have "raw_ready E obj s' \<and> raw_total E obj s' = raw_total E obj s - 1" if "1 < raw_total E obj s"
  proof -
    have "4 \<le> unat ?c" using that by (simp add: raw_total_def side_rc_def)
    moreover have "locked E obj s' = locked E obj s" using locked_frame [OF s'(3), of E obj] by (simp add: locked_def table_for_def)
    ultimately show ?thesis
      using that s'(2,4) r side_rc_sub_4 [of ?c] bit_1_add_4(2) [of ?c] by (simp add: raw_ready_def raw_total_def)
  qed
  moreover have "sent s' = sent s @ (if raw_total E obj s = 1 then [Dealloc obj] else [])"
    using s'(3) by (simp add: frame_def)
  ultimately show ?thesis using s'(1) r(3) by (simp add: raw_rootRelease_def)
qed


lemma raw_run_spec:
  assumes "raw_run E obj s ops s'" and "raw_ready E obj s" and "raw_total E obj s + length ops < 2 ^ 60"
    and "rr_live (raw_total E obj s) ops"
  shows "sent s' = sent s @ (if rr_count (raw_total E obj s) ops = 0 then [Dealloc obj] else []) \<and>
    (rr_count (raw_total E obj s) ops \<noteq> 0 \<longrightarrow> raw_ready E obj s' \<and> raw_total E obj s' = rr_count (raw_total E obj s) ops)"
  using assms
proof (induction rule: raw_run.induct)
  case (raw_Nil s)
  then show ?case by (simp add: raw_total_def)
next
  case (raw_Retain s r s1 ops s')
  have "raw_total E obj s < 2 ^ 60" using raw_Retain.prems(2) by linarith
  from raw_retain_step [OF raw_Retain.prems(1) raw_Retain.hyps(1) this] raw_Retain.hyps(2)
  have *: "raw_ready E obj s1" "raw_total E obj s1 = raw_total E obj s + 1" "sent s1 = sent s" by auto
  have "0 < raw_total E obj s" by (simp add: raw_total_def)
  with * raw_Retain.IH raw_Retain.prems(2,3) show ?case by simp
next
  case (raw_Release s r s1 ops s')
  have lt: "raw_total E obj s < 2 ^ 60" using raw_Release.prems(2) by linarith
  from raw_release_step [OF raw_Release.prems(1) raw_Release.hyps(1) this] raw_Release.hyps(2)
  have *: "1 < raw_total E obj s \<longrightarrow> raw_ready E obj s1 \<and> raw_total E obj s1 = raw_total E obj s - 1"
    "sent s1 = sent s @ (if raw_total E obj s = 1 then [Dealloc obj] else [])" by auto
  show ?case
  proof (cases "raw_total E obj s = 1")
    case True
    then have "ops = []" using raw_Release.prems(3) by (simp add: rr_live_0)
    then show ?thesis using True *(2) raw_Release.hyps(3) by (auto elim: raw_NilE)
  next
    case False
    then have "1 < raw_total E obj s" by (simp add: raw_total_def)
    then show ?thesis using * raw_Release.IH raw_Release.prems(2,3) by simp
  qed
qed

lemma raw_retainCount_spec:
  assumes "raw_ready E obj s" and "raw_total E obj s < 2 ^ 60"
  shows "\<exists>n. raw_rootRetainCount E obj s = Some (n, s) \<and> unat n = raw_total E obj s"
proof -
  have r: "st_ok E s" "obj_addr obj" "\<not> isTaggedPointer E obj" "\<not> locked E obj s" using assms(1) by (simp_all add: raw_ready_def)
  let ?s = "set_slock E obj True s"
  have ok: "st_ok E ?s" using r(1) by simp
  have d: "unat (drop_bit SIDE_TABLE_RC_SHIFT (counts E s obj)) = side_rc (counts E s obj)"
    unfolding SIDE_TABLE_RC_SHIFT_def unat_drop_bit_eq side_rc_def by (simp add: drop_bit_eq_div)
  have "sidetable_retainCount E obj s = Some (1 + drop_bit SIDE_TABLE_RC_SHIFT (counts E s obj), s)"
  proof (cases rule: find_count [OF ok r(2)])
    case 1
    then show ?thesis using r(4) by (simp add: sidetable_retainCount_def lock_eq unlock_eq Let_def set_slock_id)
  next
    case (2 it m')
    then show ?thesis using r(4) by (simp add: sidetable_retainCount_def lock_eq unlock_eq Let_def set_slock_id)
  qed
  moreover have "unat (1 + drop_bit SIDE_TABLE_RC_SHIFT (counts E s obj)) = raw_total E obj s"
    using assms(2) d by (simp add: raw_total_def unat_word_ariths(1))
  ultimately show ?thesis using r(3) by (simp add: raw_rootRetainCount_def)
qed

subsection \<open>Properties\<close>

text \<open>
  C23: The two implementations of reference counting agree: the same sequence of retains and releases
  of an object with the same count, with no use after deallocation, sends the same messages on a
  build with packed \<open>isa\<close> words and on one with raw words (\<open>dealloc\<close> once, exactly when the count
  reaches zero), and leaves the same \<open>retainCount\<close> while the object is alive. The comments on the two
  \<open>rootRelease()\<close> say that they do not call \<open>-dealloc\<close>; both do.
\<close>

theorem raw_and_packed_counts_agree:
  assumes "layout E \<in> set isa_layouts" and "rr_run E obj s ops s'" and "raw_run E' obj t ops t'"
    and "rr_ready E obj s" and "raw_ready E' obj t" and "rc_total E obj s = raw_total E' obj t"
    and "raw_total E' obj t + length ops < 2 ^ 60" and "rr_live (raw_total E' obj t) ops"
  shows "\<exists>msgs. sent s' = sent s @ msgs \<and> sent t' = sent t @ msgs \<and>
    msgs = (if rr_count (raw_total E' obj t) ops = 0 then [Dealloc obj] else []) \<and>
    (msgs = [] \<longrightarrow> (\<exists>n. rootRetainCount E obj s' = Some (n, s') \<and> raw_rootRetainCount E' obj t' = Some (n, t')))"
proof -
  note P = build_packed [OF assms(1)]
  let ?n = "raw_total E' obj t"
  have pos: "0 < ?n" by (simp add: raw_total_def)
  have p: "rr_ready E obj s'" "rc_total E obj s' = rr_count ?n ops"
    "sent s' = sent s @ (if rr_count ?n ops = 0 then [Dealloc obj] else [])"
    using packed_env.rr_run_spec [OF P assms(2,4)] assms(6,7) pos by simp_all
  have q: "sent t' = sent t @ (if rr_count ?n ops = 0 then [Dealloc obj] else [])"
    "rr_count ?n ops \<noteq> 0 \<Longrightarrow> raw_ready E' obj t' \<and> raw_total E' obj t' = rr_count ?n ops"
    using raw_run_spec [OF assms(3,5,7,8)] by simp_all
  have "\<exists>n. rootRetainCount E obj s' = Some (n, s') \<and> raw_rootRetainCount E' obj t' = Some (n, t')"
    if nz: "rr_count ?n ops \<noteq> 0"
  proof -
    have "rr_count n ops \<le> n + length ops" for n
      by (induction n ops rule: rr_count.induct) auto
    then have "raw_total E' obj t' < 2 ^ 60" using q(2) [OF nz] assms(7) by (metis le_less_trans)
    then obtain b where b: "raw_rootRetainCount E' obj t' = Some (b, t')" "unat b = rr_count ?n ops"
      using raw_retainCount_spec q(2) [OF nz] by metis
    obtain a where a: "rootRetainCount E obj s' = Some (a, s')" "unat a = rr_count ?n ops"
      using packed_env.rootRetainCount_spec [OF P, of s' obj] packed_env.unat_retainCount [OF P, of obj s'] p(1,2)
      by (simp add: rr_ready_def)
    have "a = b" using a(2) b(2) by (simp add: word_unat_eq_iff)
    then show ?thesis using a(1) b(1) by blast
  qed
  then show ?thesis using p(3) q(1) by auto
qed

text \<open>The object of the samples on a simulator build.\<close>

definition sample_raw :: rt where
  "sample_raw = raw_initInstanceIsa 0x1000 0x100008068 False (rt_start sample_env)"

lemma sample_raw: "raw_ready sample_env 0x1000 sample_raw" "raw_total sample_env 0x1000 sample_raw = 1"
  "st_room sample_env sample_raw" "sent sample_raw = []"
  using rt_start_simps [of sample_env] sample_env
  by (simp_all add: sample_raw_def raw_initInstanceIsa_def raw_initIsa_def raw_setClass_def raw_ready_def raw_total_def side_rc_def)

theorem raw_and_packed_counts_agree_witness:
  "\<exists>s' t'. rr_run sample_env 0x1000 sample_rt [Release] s' \<and> raw_run sample_env 0x1000 sample_raw [Release] t' \<and>
     sent s' = [Dealloc 0x1000] \<and> sent t' = [Dealloc 0x1000]"
proof -
  note P = build_packed [OF sample_env(1)]
  obtain s' where "rootRelease sample_env 0x1000 True Fast [] sample_rt = Some (True, s')"
    using packed_env.release_alone [OF P sample_rt(1,3)] sample_rt(2) by auto
  then have s: "rr_run sample_env 0x1000 sample_rt [Release] s'"
    using sample_rt(3) by (auto intro: rr_run.intros)
  obtain t' where "raw_rootRelease sample_env 0x1000 sample_raw = Some (True, t')"
    using raw_release_step [OF sample_raw(1,3)] sample_raw(2) by auto
  then have t: "raw_run sample_env 0x1000 sample_raw [Release] t'"
    using sample_raw(3) by (auto intro: raw_run.intros)
  have "sent s' = [Dealloc 0x1000] \<and> sent t' = [Dealloc 0x1000]"
    using raw_and_packed_counts_agree [OF sample_env(1) s t sample_rt(1) sample_raw(1)] sample_raw(2,4) sample_rt(2,4)
    by auto
  with s t show ?thesis by blast
qed

end
