(* ===== verification/OptimizedReturn.thy ===== *)
theory OptimizedReturn
  imports RawObject
begin

text \<open>
  Returning objects without the autorelease pool (the last part of \<open>objc-object.h\<close> and the compiler
  entry points of \<open>NSObject.mm\<close>): the callee looks at the instructions behind the return address and,
  when the caller is prepared for it, leaves the ownership of the result in thread-local storage
  instead of autoreleasing it. A thread is its stored disposition and the operations it
  performed on objects; code memory, the two recognised functions and the return address are
  arguments. Calls in tail position keep the return address.
\<close>

subsection \<open>State\<close>

datatype ReturnDisposition = ReturnAtPlus0 | ReturnAtPlus1

datatype rr_action = DoRetain u64 | DoRelease u64 | DoAutorelease u64

record thread =
  return_disposition :: ReturnDisposition
  actions :: "rr_action list"

datatype arch = X86_64 | ARM | ARM64 | I386 | OtherArch

record arc_env =
  target :: arch
  return_autorelease :: bool
  code :: "u64 \<Rightarrow> u8"
  retainAutoreleasedRV :: u64
  unsafeClaimAutoreleasedRV :: u64
  objects :: env
  customRR :: "u64 \<Rightarrow> bool"

definition perform :: "rr_action \<Rightarrow> thread \<Rightarrow> thread" where
  "perform a th = th\<lparr>actions := actions th @ [a]\<rparr>"

subsection \<open>Recognising the caller\<close>

definition read16 :: "(u64 \<Rightarrow> u8) \<Rightarrow> u64 \<Rightarrow> u64" where
  "read16 m a = ucast (m a) + 0x100 * ucast (m (a + 1))"

definition read32 :: "(u64 \<Rightarrow> u8) \<Rightarrow> u64 \<Rightarrow> u64" where
  "read32 m a = read16 m a + 0x10000 * read16 m (a + 2)"

definition read64 :: "(u64 \<Rightarrow> u8) \<Rightarrow> u64 \<Rightarrow> u64" where
  "read64 m a = read32 m a + 0x100000000 * read32 m (a + 4)"

text \<open>A signed 32-bit displacement.\<close>

definition read_int32 :: "(u64 \<Rightarrow> u8) \<Rightarrow> u64 \<Rightarrow> u64" where
  "read_int32 m a = signed_take_bit 31 (read32 m a)"

definition callerAccepts_x86_64 :: "arc_env \<Rightarrow> u64 \<Rightarrow> bool" where
  "callerAccepts_x86_64 P ra =
     (let m = code P in
      if read32 m ra \<noteq> 0xe8c78948 then False
      else
        let ra1 = ra + (read_int32 m (ra + 4) + 8) in
        if read16 m ra1 \<noteq> 0x25ff then False
        else
          let sym = ra1 + (6 + read_int32 m (ra1 + 2)) in
          \<not> (read64 m sym \<noteq> retainAutoreleasedRV P \<and> read64 m sym \<noteq> unsafeClaimAutoreleasedRV P))"

definition callerAccepts_arm :: "arc_env \<Rightarrow> u64 \<Rightarrow> bool" where
  "callerAccepts_arm P ra =
     (if ra AND 1 \<noteq> 0 then read16 (code P) (ra - 1) = 0x463f else read32 (code P) ra = 0xe1a07007)"

definition callerAccepts_arm64 :: "arc_env \<Rightarrow> u64 \<Rightarrow> bool" where
  "callerAccepts_arm64 P ra = (read32 (code P) ra = 0xaa1d03fd)"

definition callerAccepts_i386 :: "arc_env \<Rightarrow> u64 \<Rightarrow> bool" where
  "callerAccepts_i386 P ra = (read16 (code P) ra = 0xed89)"

definition callerAcceptsOptimizedReturn :: "arc_env \<Rightarrow> u64 \<Rightarrow> bool" where
  "callerAcceptsOptimizedReturn P ra =
     (case target P of X86_64 \<Rightarrow> callerAccepts_x86_64 P ra | ARM \<Rightarrow> callerAccepts_arm P ra
      | ARM64 \<Rightarrow> callerAccepts_arm64 P ra | I386 \<Rightarrow> callerAccepts_i386 P ra | OtherArch \<Rightarrow> False)"

subsection \<open>The stored disposition\<close>

definition getReturnDisposition :: "thread \<Rightarrow> ReturnDisposition" where
  "getReturnDisposition th = return_disposition th"

definition setReturnDisposition :: "ReturnDisposition \<Rightarrow> thread \<Rightarrow> thread" where
  "setReturnDisposition disposition th = th\<lparr>return_disposition := disposition\<rparr>"

definition prepareOptimizedReturn :: "arc_env \<Rightarrow> u64 \<Rightarrow> ReturnDisposition \<Rightarrow> thread \<Rightarrow> bool \<times> thread" where
  "prepareOptimizedReturn P ra disposition th =
     (if return_autorelease P then
        (if callerAcceptsOptimizedReturn P ra then
           (True, if disposition = ReturnAtPlus1 then setReturnDisposition disposition th else th)
         else (False, th))
      else (False, th))"

definition acceptOptimizedReturn :: "arc_env \<Rightarrow> thread \<Rightarrow> ReturnDisposition \<times> thread" where
  "acceptOptimizedReturn P th =
     (if return_autorelease P then
        (let disposition = getReturnDisposition th in (disposition, setReturnDisposition ReturnAtPlus0 th))
      else (ReturnAtPlus0, th))"

subsection \<open>Compiler entry points\<close>

definition objc_retain :: "arc_env \<Rightarrow> u64 \<Rightarrow> thread \<Rightarrow> u64 \<times> thread" where
  "objc_retain P obj th =
     (if isTaggedPointerOrNil (objects P) obj then (obj, th) else (obj, perform (DoRetain obj) th))"

definition objc_release :: "arc_env \<Rightarrow> u64 \<Rightarrow> thread \<Rightarrow> thread" where
  "objc_release P obj th =
     (if isTaggedPointerOrNil (objects P) obj then th else perform (DoRelease obj) th)"

definition rootAutorelease2 :: "u64 \<Rightarrow> thread \<Rightarrow> u64 \<times> thread" where
  "rootAutorelease2 obj th = (obj, perform (DoAutorelease obj) th)"

definition rootAutorelease :: "arc_env \<Rightarrow> u64 \<Rightarrow> u64 \<Rightarrow> thread \<Rightarrow> u64 \<times> thread" where
  "rootAutorelease P ra obj th =
     (if isTaggedPointer (objects P) obj then (obj, th)
      else case prepareOptimizedReturn P ra ReturnAtPlus1 th of
        (True, th) \<Rightarrow> (obj, th)
      | (False, th) \<Rightarrow> rootAutorelease2 obj th)"

text \<open>A class that overrides \<open>autorelease\<close> is sent the message.\<close>

definition obj_autorelease :: "arc_env \<Rightarrow> u64 \<Rightarrow> u64 \<Rightarrow> thread \<Rightarrow> u64 \<times> thread" where
  "obj_autorelease P ra obj th =
     (if \<not> customRR P obj then rootAutorelease P ra obj th else (obj, perform (DoAutorelease obj) th))"

definition raw_autorelease :: "arc_env \<Rightarrow> u64 \<Rightarrow> u64 \<Rightarrow> thread \<Rightarrow> u64 \<times> thread" where
  "raw_autorelease P ra obj th =
     (if isTaggedPointer (objects P) obj then (obj, th)
      else if \<not> customRR P obj then rootAutorelease P ra obj th
      else (obj, perform (DoAutorelease obj) th))"

definition objc_autorelease :: "arc_env \<Rightarrow> u64 \<Rightarrow> u64 \<Rightarrow> thread \<Rightarrow> u64 \<times> thread" where
  "objc_autorelease P ra obj th =
     (if isTaggedPointerOrNil (objects P) obj then (obj, th) else obj_autorelease P ra obj th)"

definition objc_retainAutorelease :: "arc_env \<Rightarrow> u64 \<Rightarrow> u64 \<Rightarrow> thread \<Rightarrow> u64 \<times> thread" where
  "objc_retainAutorelease P ra obj th =
     (let (obj, th) = objc_retain P obj th in objc_autorelease P ra obj th)"

definition objc_releaseAndReturn :: "arc_env \<Rightarrow> u64 \<Rightarrow> thread \<Rightarrow> u64 \<times> thread" where
  "objc_releaseAndReturn P obj th = (let th = objc_release P obj th in (obj, th))"

definition objc_autoreleaseReturnValue :: "arc_env \<Rightarrow> u64 \<Rightarrow> u64 \<Rightarrow> thread \<Rightarrow> u64 \<times> thread" where
  "objc_autoreleaseReturnValue P ra obj th =
     (case prepareOptimizedReturn P ra ReturnAtPlus1 th of
        (True, th) \<Rightarrow> (obj, th)
      | (False, th) \<Rightarrow> objc_autorelease P ra obj th)"

definition objc_retainAutoreleaseReturnValue :: "arc_env \<Rightarrow> u64 \<Rightarrow> u64 \<Rightarrow> thread \<Rightarrow> u64 \<times> thread" where
  "objc_retainAutoreleaseReturnValue P ra obj th =
     (case prepareOptimizedReturn P ra ReturnAtPlus0 th of
        (True, th) \<Rightarrow> (obj, th)
      | (False, th) \<Rightarrow> objc_retainAutorelease P ra obj th)"

definition objc_retainAutoreleasedReturnValue :: "arc_env \<Rightarrow> u64 \<Rightarrow> thread \<Rightarrow> u64 \<times> thread" where
  "objc_retainAutoreleasedReturnValue P obj th =
     (case acceptOptimizedReturn P th of
        (ReturnAtPlus1, th) \<Rightarrow> (obj, th)
      | (ReturnAtPlus0, th) \<Rightarrow> objc_retain P obj th)"

definition objc_unsafeClaimAutoreleasedReturnValue :: "arc_env \<Rightarrow> u64 \<Rightarrow> thread \<Rightarrow> u64 \<times> thread" where
  "objc_unsafeClaimAutoreleasedReturnValue P obj th =
     (case acceptOptimizedReturn P th of
        (ReturnAtPlus0, th) \<Rightarrow> (obj, th)
      | (ReturnAtPlus1, th) \<Rightarrow> objc_releaseAndReturn P obj th)"

subsection \<open>The hand-over\<close>

datatype callee = AutoreleaseReturnValue | RetainAutoreleaseReturnValue

datatype caller = RetainAutoreleasedReturnValue | UnsafeClaimAutoreleasedReturnValue

fun return_object :: "callee \<Rightarrow> arc_env \<Rightarrow> u64 \<Rightarrow> u64 \<Rightarrow> thread \<Rightarrow> u64 \<times> thread" where
  "return_object AutoreleaseReturnValue P ra obj th = objc_autoreleaseReturnValue P ra obj th"
| "return_object RetainAutoreleaseReturnValue P ra obj th = objc_retainAutoreleaseReturnValue P ra obj th"

fun accept_object :: "caller \<Rightarrow> arc_env \<Rightarrow> u64 \<Rightarrow> thread \<Rightarrow> u64 \<times> thread" where
  "accept_object RetainAutoreleasedReturnValue P obj th = objc_retainAutoreleasedReturnValue P obj th"
| "accept_object UnsafeClaimAutoreleasedReturnValue P obj th = objc_unsafeClaimAutoreleasedReturnValue P obj th"

definition hand_over :: "callee \<Rightarrow> caller \<Rightarrow> arc_env \<Rightarrow> u64 \<Rightarrow> u64 \<Rightarrow> thread \<Rightarrow> u64 \<times> thread" where
  "hand_over f g P ra obj th = (let (obj, th) = return_object f P ra obj th in accept_object g P obj th)"

text \<open>What operations mean for the count of the object once the pool is drained.\<close>

fun rr_effect :: "u64 \<Rightarrow> rr_action \<Rightarrow> int" where
  "rr_effect obj (DoRetain x) = (if x = obj then 1 else 0)"
| "rr_effect obj (DoRelease x) = (if x = obj then - 1 else 0)"
| "rr_effect obj (DoAutorelease x) = (if x = obj then - 1 else 0)"

definition balance :: "u64 \<Rightarrow> thread \<Rightarrow> int" where
  "balance obj th = sum_list (map (rr_effect obj) (actions th))"

text \<open>What the two sides of the convention add up to.\<close>

fun expected :: "callee \<Rightarrow> caller \<Rightarrow> int" where
  "expected AutoreleaseReturnValue RetainAutoreleasedReturnValue = 0"
| "expected AutoreleaseReturnValue UnsafeClaimAutoreleasedReturnValue = - 1"
| "expected RetainAutoreleaseReturnValue RetainAutoreleasedReturnValue = 1"
| "expected RetainAutoreleaseReturnValue UnsafeClaimAutoreleasedReturnValue = 0"

lemma perform_simps [simp]:
  "return_disposition (perform a th) = return_disposition th" "actions (perform a th) = actions th @ [a]"
  "balance obj (perform a th) = balance obj th + rr_effect obj a"
  by (simp_all add: perform_def balance_def)

lemma setReturnDisposition_simps [simp]:
  "return_disposition (setReturnDisposition d th) = d" "actions (setReturnDisposition d th) = actions th"
  "balance obj (setReturnDisposition d th) = balance obj th"
  by (simp_all add: setReturnDisposition_def balance_def)

lemmas arc_defs = objc_autoreleaseReturnValue_def objc_retainAutoreleaseReturnValue_def objc_retainAutorelease_def
  objc_retainAutoreleasedReturnValue_def objc_unsafeClaimAutoreleasedReturnValue_def objc_releaseAndReturn_def
  objc_retain_def objc_release_def objc_autorelease_def obj_autorelease_def rootAutorelease_def rootAutorelease2_def
  prepareOptimizedReturn_def acceptOptimizedReturn_def getReturnDisposition_def hand_over_def

text \<open>
  C24: A return through the autoreleasing convention hands over the same ownership whether or not the
  callee recognises the caller, and whether or not the build has the optimisation: for each of the
  two callees and the two callers the object comes back, the count changes by the same amount
  once the pool is drained, and the thread-local disposition is reset. When the caller is
  recognised, at most one operation is performed on the object and it is not autoreleased.
\<close>

theorem optimized_return_equivalent:
  assumes "return_disposition th = ReturnAtPlus0"
  shows "\<exists>th'. hand_over f g P ra obj th = (obj, th') \<and> return_disposition th' = ReturnAtPlus0 \<and>
    balance obj th' = balance obj th + (if isTaggedPointerOrNil (objects P) obj then 0 else expected f g) \<and>
    (return_autorelease P \<and> callerAcceptsOptimizedReturn P ra \<longrightarrow>
       (\<exists>as. actions th' = actions th @ as \<and> length as \<le> 1 \<and> DoAutorelease obj \<notin> set as))"
proof -
  have tag: "isTaggedPointer (objects P) obj \<Longrightarrow> isTaggedPointerOrNil (objects P) obj"
    by (simp add: isTaggedPointer_def isTaggedPointerOrNil_def)
  show ?thesis
    using assms tag by (cases f; cases g) (auto simp: arc_defs Let_def)
qed


text \<open>An arm64 caller with \<open>mov fp, fp\<close> at its return address 0x2000.\<close>

definition sample_arc :: arc_env where
  "sample_arc = \<lparr>target = ARM64, return_autorelease = True,
     code = (\<lambda>a. if a = 0x2000 then 0xfd else if a = 0x2001 then 0x03 else if a = 0x2002 then 0x1d
        else if a = 0x2003 then 0xaa else 0),
     retainAutoreleasedRV = 0x3000, unsafeClaimAutoreleasedRV = 0x4000, objects = sample_env, customRR = \<lambda>_. False\<rparr>"

theorem optimized_return_equivalent_witness:
  "\<exists>th'. hand_over AutoreleaseReturnValue RetainAutoreleasedReturnValue sample_arc 0x2000 0x1000
       \<lparr>return_disposition = ReturnAtPlus0, actions = []\<rparr> = (0x1000, th') \<and>
     balance 0x1000 th' = 0 \<and> DoAutorelease 0x1000 \<notin> set (actions th')"
proof -
  let ?th = "\<lparr>return_disposition = ReturnAtPlus0, actions = []\<rparr>"
  have a: "return_autorelease sample_arc" "callerAcceptsOptimizedReturn sample_arc 0x2000"
    by (simp_all add: sample_arc_def callerAcceptsOptimizedReturn_def callerAccepts_arm64_def read32_def read16_def)
  have "return_disposition ?th = ReturnAtPlus0" "balance 0x1000 ?th = 0" by (simp_all add: balance_def)
  from optimized_return_equivalent [OF this(1), of AutoreleaseReturnValue RetainAutoreleasedReturnValue sample_arc "0x2000" "0x1000"]
    a this(2) show ?thesis by auto
qed

end
