(* ===== verification/MethodList.thy ===== *)
theory MethodList
  imports OptimizedReturn
begin

text \<open>
  Arrays of metadata structures (\<open>entsize_list_tt\<close> of \<open>objc-runtime-new.h\<close>), methods in their two
  representations, and the search in one method list (\<open>objc-runtime-new.mm\<close>). A list is its address in
  the memory of the process: a header of two 32-bit words and the elements behind it. The product
  of an index and the size of an element is computed in 32 bits by \<open>getOrEnd\<close> and in 64 bits by
  iterators, as in the code.
\<close>

type_synonym u32 = "32 word"

subsection \<open>Relative pointers\<close>

record image =
  bytes :: "u64 \<Rightarrow> u8"
  inSharedCache :: "u64 \<Rightarrow> bool"
  direct_selectors :: bool

definition RelativePointer_get :: "image \<Rightarrow> u64 \<Rightarrow> u64" where
  "RelativePointer_get W offset_addr =
     (let offset = read_int32 (bytes W) offset_addr in if offset = 0 then 0 else offset_addr + offset)"

subsection \<open>Lists of structures\<close>

definition entsizeAndFlags :: "image \<Rightarrow> u64 \<Rightarrow> u32" where
  "entsizeAndFlags W this = ucast (read32 (bytes W) this)"

definition list_count :: "image \<Rightarrow> u64 \<Rightarrow> u32" where
  "list_count W this = ucast (read32 (bytes W) (this + 4))"

definition entsize :: "u32 \<Rightarrow> image \<Rightarrow> u64 \<Rightarrow> u32" where
  "entsize FlagMask W this = entsizeAndFlags W this AND NOT FlagMask"

definition list_flags :: "u32 \<Rightarrow> image \<Rightarrow> u64 \<Rightarrow> u32" where
  "list_flags FlagMask W this = entsizeAndFlags W this AND FlagMask"

definition PointerModifierNop :: "u32 \<Rightarrow> u64 \<Rightarrow> u64" where
  "PointerModifierNop fl ptr = ptr"

definition getOrEnd :: "u32 \<Rightarrow> (u32 \<Rightarrow> u64 \<Rightarrow> u64) \<Rightarrow> image \<Rightarrow> u64 \<Rightarrow> u32 \<Rightarrow> u64" where
  "getOrEnd FlagMask modify W this i =
     modify (list_flags FlagMask W this) (this + 8 + ucast (i * entsize FlagMask W this))"

definition byteSize :: "u32 \<Rightarrow> u32 \<Rightarrow> u64" where
  "byteSize es n = 8 + ucast (n * es)"

text \<open>Iterators; a difference of pointers is a 64-bit word.\<close>

record iterator =
  it_entsize :: u32
  it_index :: u32
  it_element :: u64

definition iterator_at :: "u32 \<Rightarrow> (u32 \<Rightarrow> u64 \<Rightarrow> u64) \<Rightarrow> image \<Rightarrow> u64 \<Rightarrow> u32 \<Rightarrow> iterator" where
  "iterator_at FlagMask modify W this start =
     \<lparr>it_entsize = entsize FlagMask W this, it_index = start, it_element = getOrEnd FlagMask modify W this start\<rparr>"

definition list_begin :: "u32 \<Rightarrow> (u32 \<Rightarrow> u64 \<Rightarrow> u64) \<Rightarrow> image \<Rightarrow> u64 \<Rightarrow> iterator" where
  "list_begin FlagMask modify W this = iterator_at FlagMask modify W this 0"

definition list_end :: "u32 \<Rightarrow> (u32 \<Rightarrow> u64 \<Rightarrow> u64) \<Rightarrow> image \<Rightarrow> u64 \<Rightarrow> iterator" where
  "list_end FlagMask modify W this = iterator_at FlagMask modify W this (list_count W this)"

definition iterator_add :: "iterator \<Rightarrow> u64 \<Rightarrow> iterator" where
  "iterator_add it delta =
     it\<lparr>it_element := it_element it + delta * ucast (it_entsize it), it_index := it_index it + ucast delta\<rparr>"

definition iterator_sub :: "iterator \<Rightarrow> u64 \<Rightarrow> iterator" where
  "iterator_sub it delta =
     it\<lparr>it_element := it_element it - delta * ucast (it_entsize it), it_index := it_index it - ucast delta\<rparr>"

definition iterator_inc :: "iterator \<Rightarrow> iterator" where
  "iterator_inc it = iterator_add it 1"

definition iterator_dec :: "iterator \<Rightarrow> iterator" where
  "iterator_dec it = iterator_sub it 1"

definition iterator_diff :: "iterator \<Rightarrow> iterator \<Rightarrow> int" where
  "iterator_diff it rhs = uint (it_index it) - uint (it_index rhs)"

definition iterator_eq :: "iterator \<Rightarrow> iterator \<Rightarrow> bool" where
  "iterator_eq it rhs \<longleftrightarrow> it_element it = it_element rhs"

definition iterator_less :: "iterator \<Rightarrow> iterator \<Rightarrow> bool" where
  "iterator_less it rhs \<longleftrightarrow> it_element it < it_element rhs"

subsection \<open>Methods\<close>

definition smallMethodListFlag :: u32 where "smallMethodListFlag = 0x80000000"
definition method_FlagMask :: u32 where "method_FlagMask = 0xffff0003"
definition fixed_up_method_list :: u32 where "fixed_up_method_list = 3"
definition uniqued_method_list :: u32 where "uniqued_method_list = 1"
definition bigSize :: u32 where "bigSize = 24"
definition smallSize :: u32 where "smallSize = 12"

definition isSmall :: "u64 \<Rightarrow> bool" where
  "isSmall m \<longleftrightarrow> m AND 1 = 1"

definition small :: "u64 \<Rightarrow> u64" where
  "small m = m AND NOT 1"

definition small_inSharedCache :: "image \<Rightarrow> u64 \<Rightarrow> bool" where
  "small_inSharedCache W sm \<longleftrightarrow> direct_selectors W \<and> inSharedCache W sm"

definition pointer_modifier :: "u32 \<Rightarrow> u64 \<Rightarrow> u64" where
  "pointer_modifier fl ptr = (if fl AND smallMethodListFlag \<noteq> 0 then ptr OR 1 else ptr)"

definition big_name :: "image \<Rightarrow> u64 \<Rightarrow> u64" where
  "big_name W m = read64 (bytes W) m"

definition getSmallNameAsSEL :: "image \<Rightarrow> u64 \<Rightarrow> u64" where
  "getSmallNameAsSEL W m = RelativePointer_get W (small m)"

definition getSmallNameAsSELRef :: "image \<Rightarrow> u64 \<Rightarrow> u64" where
  "getSmallNameAsSELRef W m = read64 (bytes W) (RelativePointer_get W (small m))"

definition method_name :: "image \<Rightarrow> u64 \<Rightarrow> u64" where
  "method_name W m =
     (if isSmall m then
        (if small_inSharedCache W (small m) then RelativePointer_get W (small m)
         else read64 (bytes W) (RelativePointer_get W (small m)))
      else big_name W m)"

definition method_types :: "image \<Rightarrow> u64 \<Rightarrow> u64" where
  "method_types W m = (if isSmall m then RelativePointer_get W (small m + 4) else read64 (bytes W) (m + 8))"

text \<open>\<open>remapped\<close> stands for the table of replaced implementations of small methods (0 if there is none).\<close>

definition method_imp :: "image \<Rightarrow> (u64 \<Rightarrow> u64) \<Rightarrow> u64 \<Rightarrow> u64" where
  "method_imp W remapped m =
     (if isSmall m then
        (let imp = remapped m in if imp = 0 then RelativePointer_get W (small m + 8) else imp)
      else read64 (bytes W) (m + 16))"

definition isUniqued :: "image \<Rightarrow> u64 \<Rightarrow> bool" where
  "isUniqued W mlist \<longleftrightarrow> list_flags method_FlagMask W mlist AND uniqued_method_list \<noteq> 0"

definition isFixedUp :: "image \<Rightarrow> u64 \<Rightarrow> bool" where
  "isFixedUp W mlist \<longleftrightarrow> list_flags method_FlagMask W mlist AND 3 = fixed_up_method_list"

definition isSmallList :: "image \<Rightarrow> u64 \<Rightarrow> bool" where
  "isSmallList W mlist \<longleftrightarrow> list_flags method_FlagMask W mlist AND smallMethodListFlag \<noteq> 0"

definition isExpectedSize :: "image \<Rightarrow> u64 \<Rightarrow> bool" where
  "isExpectedSize W mlist =
     (if isSmallList W mlist then entsize method_FlagMask W mlist = smallSize
      else entsize method_FlagMask W mlist = bigSize)"

definition indexOfMethod :: "image \<Rightarrow> u64 \<Rightarrow> u64 \<Rightarrow> u32" where
  "indexOfMethod W mlist meth = ucast ((meth - mlist) div ucast (entsize method_FlagMask W mlist))"

definition containsIvar :: "image \<Rightarrow> u64 \<Rightarrow> u64 \<Rightarrow> bool" where
  "containsIvar W list ivar \<longleftrightarrow>
     it_element (list_begin 0 PointerModifierNop W list) \<le> ivar \<and> ivar < it_element (list_end 0 PointerModifierNop W list)"

abbreviation method_begin :: "image \<Rightarrow> u64 \<Rightarrow> iterator" where
  "method_begin \<equiv> list_begin method_FlagMask pointer_modifier"

abbreviation method_end :: "image \<Rightarrow> u64 \<Rightarrow> iterator" where
  "method_end \<equiv> list_end method_FlagMask pointer_modifier"

subsection \<open>Searching one list\<close>

text \<open>The walk back to the first occurrence; it would not end in a list of elements of size zero.\<close>

partial_function (option) rewind :: "(u64 \<Rightarrow> u64) \<Rightarrow> u64 \<Rightarrow> iterator \<Rightarrow> iterator \<Rightarrow> u64 option" where
  "rewind getName key first at =
     (if iterator_less first at \<and> key = getName (it_element (iterator_sub at 1))
      then rewind getName key first (iterator_dec at)
      else Some (it_element at))"

text \<open>The result is \<open>None\<close> if the search does not end, and otherwise a method or 0 for \<open>nil\<close>.\<close>

function find_sorted_loop :: "(u64 \<Rightarrow> u64) \<Rightarrow> u64 \<Rightarrow> iterator \<Rightarrow> iterator \<Rightarrow> u32 \<Rightarrow> u64 option" where
  "find_sorted_loop getName key first base n =
     (if n = 0 then Some 0
      else
        let at = iterator_add base (ucast (drop_bit 1 n));
            probeValue = getName (it_element at) in
        if key = probeValue then rewind getName key first at
        else if key > probeValue then find_sorted_loop getName key first (iterator_add at 1) (drop_bit 1 (n - 1))
        else find_sorted_loop getName key first base (drop_bit 1 n))"
  by pat_completeness auto
termination
proof (relation "measure (\<lambda>(getName, key, first, base, n). unat n)")
  show "wf (measure (\<lambda>(getName :: u64 \<Rightarrow> u64, key :: u64, first :: iterator, base :: iterator, n :: u32). unat n))" by simp
  have d: "unat (drop_bit 1 n) \<le> unat n" for n :: u32 by (simp add: drop_bit_eq_div unat_div)
  have s: "unat (n - 1) < unat n" if "n \<noteq> 0" for n :: u32
    using that unat_gt_0 [of n] by (simp add: unat_minus_one)
  have h: "unat (drop_bit 1 n) < unat n" if "n \<noteq> 0" for n :: u32
    using that unat_gt_0 [of n] by (simp add: drop_bit_eq_div unat_div)
  fix getName :: "u64 \<Rightarrow> u64" and key :: u64 and first base at :: iterator and n :: u32 and probeValue :: u64
  assume n: "n \<noteq> 0"
  show "((getName, key, first, iterator_add at 1, drop_bit 1 (n - 1)), getName, key, first, base, n)
    \<in> measure (\<lambda>(getName, key, first, base, n). unat n)"
    using le_less_trans [OF d s [OF n]] by simp
  show "((getName, key, first, base, drop_bit 1 n), getName, key, first, base, n)
    \<in> measure (\<lambda>(getName, key, first, base, n). unat n)"
    using h [OF n] by simp
qed

declare find_sorted_loop.simps [simp del]

definition find_sorted :: "image \<Rightarrow> u64 \<Rightarrow> u64 \<Rightarrow> (u64 \<Rightarrow> u64) \<Rightarrow> u64 option" where
  "find_sorted W key list getName =
     find_sorted_loop getName key (method_begin W list) (method_begin W list) (list_count W list)"

partial_function (option) find_unsorted_loop :: "(u64 \<Rightarrow> u64) \<Rightarrow> u64 \<Rightarrow> iterator \<Rightarrow> iterator \<Rightarrow> u64 option" where
  "find_unsorted_loop getName sel it stop =
     (if iterator_eq it stop then Some 0
      else if getName (it_element it) = sel then Some (it_element it)
      else find_unsorted_loop getName sel (iterator_inc it) stop)"

definition find_unsorted :: "image \<Rightarrow> u64 \<Rightarrow> u64 \<Rightarrow> (u64 \<Rightarrow> u64) \<Rightarrow> u64 option" where
  "find_unsorted W sel list getName = find_unsorted_loop getName sel (method_begin W list) (method_end W list)"

text \<open>The function that reads the selector of a method of the list.\<close>

definition list_getName :: "image \<Rightarrow> u64 \<Rightarrow> u64 \<Rightarrow> u64" where
  "list_getName W list =
     (if isSmallList W list then
        (if direct_selectors W \<and> inSharedCache W list then getSmallNameAsSEL W else getSmallNameAsSELRef W)
      else big_name W)"

definition findMethodInSortedMethodList :: "image \<Rightarrow> u64 \<Rightarrow> u64 \<Rightarrow> u64 option" where
  "findMethodInSortedMethodList W key list = find_sorted W key list (list_getName W list)"

definition findMethodInUnsortedMethodList :: "image \<Rightarrow> u64 \<Rightarrow> u64 \<Rightarrow> u64 option" where
  "findMethodInUnsortedMethodList W key list = find_unsorted W key list (list_getName W list)"

definition search_method_list_inline :: "image \<Rightarrow> u64 \<Rightarrow> u64 \<Rightarrow> u64 option" where
  "search_method_list_inline W mlist sel =
     (if isFixedUp W mlist \<and> isExpectedSize W mlist then findMethodInSortedMethodList W sel mlist
      else findMethodInUnsortedMethodList W sel mlist)"

end
