(* ===== verification/ListArray.thy ===== *)
theory ListArray
  imports MethodList
begin

text \<open>
  \<open>list_array_tt\<close> of \<open>objc-runtime-new.h\<close>: the lists of methods, properties and protocols of a class.
  The structure is one word, either the address of a single list (or 0), or the address of an array
  of lists with its low bit set. Arrays live in a heap; a fresh block holds whatever the allocator
  left there, and an access outside of a block gives \<open>None\<close>.
\<close>

subsection \<open>Memory\<close>

record array_t =
  a_count :: u32
  a_lists :: "u64 list"

type_synonym array_heap = "u64 \<Rightarrow> array_t option"

text \<open>\<open>malloc\<close>: where the next block will be, and its previous contents.\<close>

record allocator =
  block_at :: "array_heap \<Rightarrow> u64"
  garbage :: "nat \<Rightarrow> u64"

definition array_byteSize :: "u32 \<Rightarrow> u64" where
  "array_byteSize n = 8 + ucast n * 8"

definition block_lists :: "u64 \<Rightarrow> nat" where
  "block_lists len = (unat len - 8) div 8"

definition malloc_array :: "allocator \<Rightarrow> array_heap \<Rightarrow> u64 \<Rightarrow> u64 \<times> array_heap" where
  "malloc_array M h len =
     (let p = block_at M h in
      (p, h(p \<mapsto> \<lparr>a_count = ucast (garbage M 0), a_lists = map (\<lambda>i. garbage M (Suc i)) [0..<block_lists len]\<rparr>)))"

definition set_count :: "array_heap \<Rightarrow> u64 \<Rightarrow> u32 \<Rightarrow> array_heap option" where
  "set_count h p n = map_option (\<lambda>a. h(p \<mapsto> a\<lparr>a_count := n\<rparr>)) (h p)"

definition load_list :: "array_heap \<Rightarrow> u64 \<Rightarrow> nat \<Rightarrow> u64 option" where
  "load_list h p i =
     (case h p of None \<Rightarrow> None | Some a \<Rightarrow> if i < length (a_lists a) then Some (a_lists a ! i) else None)"

definition store_list :: "array_heap \<Rightarrow> u64 \<Rightarrow> nat \<Rightarrow> u64 \<Rightarrow> array_heap option" where
  "store_list h p i v =
     (case h p of None \<Rightarrow> None
      | Some a \<Rightarrow> if i < length (a_lists a) then Some (h(p \<mapsto> a\<lparr>a_lists := (a_lists a)[i := v]\<rparr>)) else None)"

subsection \<open>The tagged word\<close>

definition hasArray :: "u64 \<Rightarrow> bool" where
  "hasArray self \<longleftrightarrow> self AND 1 \<noteq> 0"

definition array :: "u64 \<Rightarrow> u64" where
  "array self = self AND NOT 1"

definition setArray :: "u64 \<Rightarrow> u64" where
  "setArray p = p OR 1"

subsection \<open>Cursors over the lists\<close>

text \<open>A pointer to a list pointer: a slot of an array, or the word itself and the address behind it.\<close>

datatype list_cursor = Array_slot u64 nat | Own_slot nat

definition next_cursor :: "list_cursor \<Rightarrow> list_cursor" where
  "next_cursor c = (case c of Array_slot p i \<Rightarrow> Array_slot p (Suc i) | Own_slot i \<Rightarrow> Own_slot (Suc i))"

definition load_cursor :: "array_heap \<Rightarrow> u64 \<Rightarrow> list_cursor \<Rightarrow> u64 option" where
  "load_cursor h self c =
     (case c of Array_slot p i \<Rightarrow> load_list h p i | Own_slot i \<Rightarrow> if i = 0 then Some self else None)"

definition beginLists :: "u64 \<Rightarrow> list_cursor" where
  "beginLists self = (if hasArray self then Array_slot (array self) 0 else Own_slot 0)"

definition endLists :: "array_heap \<Rightarrow> u64 \<Rightarrow> list_cursor option" where
  "endLists h self =
     (if hasArray self then map_option (\<lambda>a. Array_slot (array self) (unat (a_count a))) (h (array self))
      else if self \<noteq> 0 then Some (Own_slot 1)
      else Some (Own_slot 0))"

definition countLists :: "(array_t \<Rightarrow> array_t) \<Rightarrow> array_heap \<Rightarrow> u64 \<Rightarrow> u32 option" where
  "countLists peek h self =
     (if hasArray self then map_option (\<lambda>a. a_count (peek a)) (h (array self))
      else if self \<noteq> 0 then Some 1
      else Some 0)"

text \<open>The loops over the lists; \<open>None\<close> is a loop that does not end or reads outside of a block.\<close>

partial_function (option) count_loop ::
    "(u64 \<Rightarrow> u32) \<Rightarrow> array_heap \<Rightarrow> u64 \<Rightarrow> list_cursor \<Rightarrow> list_cursor \<Rightarrow> u32 \<Rightarrow> u32 option" where
  "count_loop lcount h self cur fin result =
     (if cur = fin then Some result
      else case load_cursor h self cur of None \<Rightarrow> None
        | Some l \<Rightarrow> count_loop lcount h self (next_cursor cur) fin (result + lcount l))"

definition list_array_count :: "(u64 \<Rightarrow> u32) \<Rightarrow> array_heap \<Rightarrow> u64 \<Rightarrow> u32 option" where
  "list_array_count lcount h self =
     (case endLists h self of None \<Rightarrow> None | Some fin \<Rightarrow> count_loop lcount h self (beginLists self) fin 0)"

subsection \<open>Iterators over the elements\<close>

text \<open>What the iterator uses of the iterators of one list.\<close>

record 'm list_ops =
  lo_begin :: "u64 \<Rightarrow> 'm"
  lo_end :: "u64 \<Rightarrow> 'm"
  lo_inc :: "'m \<Rightarrow> 'm"
  lo_eq :: "'m \<Rightarrow> 'm \<Rightarrow> bool"

text \<open>\<open>m\<close> and \<open>mEnd\<close> are not initialised in an iterator that starts at the end.\<close>

record 'm la_iterator =
  la_lists :: list_cursor
  la_listsEnd :: list_cursor
  la_m :: "'m option"
  la_mEnd :: "'m option"

definition la_iterator_at :: "'m list_ops \<Rightarrow> array_heap \<Rightarrow> u64 \<Rightarrow> list_cursor \<Rightarrow> list_cursor \<Rightarrow> 'm la_iterator option" where
  "la_iterator_at L h self first fin =
     (if first \<noteq> fin then
        map_option (\<lambda>l. \<lparr>la_lists = first, la_listsEnd = fin, la_m = Some (lo_begin L l), la_mEnd = Some (lo_end L l)\<rparr>)
          (load_cursor h self first)
      else Some \<lparr>la_lists = first, la_listsEnd = fin, la_m = None, la_mEnd = None\<rparr>)"

definition la_begin :: "'m list_ops \<Rightarrow> array_heap \<Rightarrow> u64 \<Rightarrow> 'm la_iterator option" where
  "la_begin L h self =
     (case endLists h self of None \<Rightarrow> None | Some fin \<Rightarrow> la_iterator_at L h self (beginLists self) fin)"

definition la_end :: "'m list_ops \<Rightarrow> array_heap \<Rightarrow> u64 \<Rightarrow> 'm la_iterator option" where
  "la_end L h self = (case endLists h self of None \<Rightarrow> None | Some fin \<Rightarrow> la_iterator_at L h self fin fin)"

fun same_position :: "'m list_ops \<Rightarrow> 'm option \<Rightarrow> 'm option \<Rightarrow> bool" where
  "same_position L (Some m) (Some m') = lo_eq L m m'"
| "same_position L _ _ = False"

definition la_neq :: "'m list_ops \<Rightarrow> 'm la_iterator \<Rightarrow> 'm la_iterator \<Rightarrow> bool" where
  "la_neq L it rhs =
     (if la_lists it \<noteq> la_lists rhs then True
      else if la_lists it = la_listsEnd it then False
      else if \<not> same_position L (la_m it) (la_m rhs) then True
      else False)"

definition la_inc :: "'m list_ops \<Rightarrow> array_heap \<Rightarrow> u64 \<Rightarrow> 'm la_iterator \<Rightarrow> 'm la_iterator option" where
  "la_inc L h self it =
     (case la_m it of None \<Rightarrow> None
      | Some m \<Rightarrow>
          let it1 = it\<lparr>la_m := Some (lo_inc L m)\<rparr> in
          if same_position L (la_m it1) (la_mEnd it1) then
            let it2 = it1\<lparr>la_lists := next_cursor (la_lists it1)\<rparr> in
            if la_lists it2 \<noteq> la_listsEnd it2 then
              map_option (\<lambda>l. it2\<lparr>la_m := Some (lo_begin L l), la_mEnd := Some (lo_end L l)\<rparr>)
                (load_cursor h self (la_lists it2))
            else Some it2
          else Some it1)"

text \<open>A range-based loop over the elements, as the clients write it; the result is what it visits.\<close>

partial_function (option) visit_elements ::
    "'m list_ops \<Rightarrow> array_heap \<Rightarrow> u64 \<Rightarrow> 'm la_iterator \<Rightarrow> 'm la_iterator \<Rightarrow> 'm list \<Rightarrow> 'm list option" where
  "visit_elements L h self it fin visited =
     (if la_neq L it fin then
        (case la_m it of None \<Rightarrow> None
         | Some m \<Rightarrow>
             (case la_inc L h self it of None \<Rightarrow> None
              | Some it' \<Rightarrow> visit_elements L h self it' fin (visited @ [m])))
      else Some visited)"

definition all_elements :: "'m list_ops \<Rightarrow> array_heap \<Rightarrow> u64 \<Rightarrow> 'm list option" where
  "all_elements L h self =
     (case la_begin L h self of None \<Rightarrow> None
      | Some it \<Rightarrow> (case la_end L h self of None \<Rightarrow> None | Some fin \<Rightarrow> visit_elements L h self it fin []))"

subsection \<open>Attaching lists\<close>

text \<open>
  The copy of the old lists runs downwards with a signed 32-bit index: the argument is the number of
  iterations that are left. \<open>i + addedCount\<close> is computed in 32 bits.
\<close>

fun copy_old_lists :: "array_heap \<Rightarrow> u64 \<Rightarrow> u64 \<Rightarrow> u32 \<Rightarrow> nat \<Rightarrow> array_heap option" where
  "copy_old_lists h dst src addedCount 0 = Some h"
| "copy_old_lists h dst src addedCount (Suc i) =
     (case load_list h src i of None \<Rightarrow> None
      | Some l \<Rightarrow>
          (case store_list h dst (unat (of_nat i + addedCount)) l of None \<Rightarrow> None
           | Some h' \<Rightarrow> copy_old_lists h' dst src addedCount i))"

definition old_iterations :: "u32 \<Rightarrow> nat" where
  "old_iterations oldCount = nat (sint (oldCount - 1) + 1)"

text \<open>The loop over the added lists, from index \<open>i\<close> on.\<close>

function copy_added_lists :: "array_heap \<Rightarrow> u64 \<Rightarrow> u64 list \<Rightarrow> u32 \<Rightarrow> u32 \<Rightarrow> array_heap option" where
  "copy_added_lists h dst addedLists addedCount i =
     (if i < addedCount then
        (if unat i < length addedLists then
           (case store_list h dst (unat i) (addedLists ! unat i) of None \<Rightarrow> None
            | Some h' \<Rightarrow> copy_added_lists h' dst addedLists addedCount (i + 1))
         else None)
      else Some h)"
  by pat_completeness auto
termination
proof (relation "measure (\<lambda>(h, dst, addedLists, addedCount, i). unat addedCount - unat i)")
  show "wf (measure (\<lambda>(h :: array_heap, dst :: u64, addedLists :: u64 list, addedCount :: u32, i :: u32). unat addedCount - unat i))"
    by simp
  fix h h' :: array_heap and dst :: u64 and addedLists :: "u64 list" and addedCount i :: u32
  assume "i < addedCount"
  then have less: "unat i < unat addedCount" by (simp add: word_less_nat_alt)
  then have "unat i + 1 < 2 ^ 32" using unsigned_less [of addedCount, where ?'a = nat] by simp
  then have "unat (i + 1) = unat i + 1" by (simp add: unat_word_ariths(1))
  with less
  show "((h', dst, addedLists, addedCount, i + 1), h, dst, addedLists, addedCount, i)
    \<in> measure (\<lambda>(h, dst, addedLists, addedCount, i). unat addedCount - unat i)"
    by simp
qed

declare copy_added_lists.simps [simp del]

definition attach_many :: "allocator \<Rightarrow> array_heap \<Rightarrow> u64 \<Rightarrow> u64 list \<Rightarrow> u32 \<Rightarrow> (array_heap \<times> u64) option" where
  "attach_many M h self addedLists addedCount =
     (case h (array self) of None \<Rightarrow> None
      | Some a \<Rightarrow>
          let oldCount = a_count a;
              newCount = oldCount + addedCount;
              (newArray, h1) = malloc_array M h (array_byteSize newCount) in
          case set_count h1 newArray newCount of None \<Rightarrow> None
          | Some h2 \<Rightarrow>
          (case set_count h2 (array self) newCount of None \<Rightarrow> None
          | Some h3 \<Rightarrow>
          (case copy_old_lists h3 newArray (array self) addedCount (old_iterations oldCount) of None \<Rightarrow> None
          | Some h4 \<Rightarrow>
          (case copy_added_lists h4 newArray addedLists addedCount 0 of None \<Rightarrow> None
          | Some h5 \<Rightarrow> Some (h5(array self := None), setArray newArray)))))"

definition attach_to_one :: "allocator \<Rightarrow> array_heap \<Rightarrow> u64 \<Rightarrow> u64 list \<Rightarrow> u32 \<Rightarrow> (array_heap \<times> u64) option" where
  "attach_to_one M h self addedLists addedCount =
     (let oldList = self;
          oldCount = (if oldList \<noteq> 0 then 1 else 0);
          newCount = oldCount + addedCount;
          (p, h1) = malloc_array M h (array_byteSize newCount);
          self1 = setArray p in
      case set_count h1 (array self1) newCount of None \<Rightarrow> None
      | Some h2 \<Rightarrow>
      (case (if oldList \<noteq> 0 then store_list h2 (array self1) (unat addedCount) oldList else Some h2) of None \<Rightarrow> None
      | Some h3 \<Rightarrow>
      (case copy_added_lists h3 (array self1) addedLists addedCount 0 of None \<Rightarrow> None
      | Some h4 \<Rightarrow> Some (h4, self1))))"

definition attachLists :: "allocator \<Rightarrow> array_heap \<Rightarrow> u64 \<Rightarrow> u64 list \<Rightarrow> u32 \<Rightarrow> (array_heap \<times> u64) option" where
  "attachLists M h self addedLists addedCount =
     (if addedCount = 0 then Some (h, self)
      else if hasArray self then attach_many M h self addedLists addedCount
      else if self = 0 \<and> addedCount = 1 then (case addedLists of [] \<Rightarrow> None | l # _ \<Rightarrow> Some (h, l))
      else attach_to_one M h self addedLists addedCount)"

subsection \<open>Freeing and duplicating\<close>

text \<open>\<open>tryFree\<close> gives the heap and the lists it has passed to \<open>try_free\<close>.\<close>

definition tryFree :: "array_heap \<Rightarrow> u64 \<Rightarrow> (array_heap \<times> u64 list) option" where
  "tryFree h self =
     (if hasArray self then
        (case h (array self) of None \<Rightarrow> None
         | Some a \<Rightarrow>
             if unat (a_count a) \<le> length (a_lists a)
             then Some (h(array self := None), take (unat (a_count a)) (a_lists a)) else None)
      else if self \<noteq> 0 then Some (h, [self])
      else Some (h, []))"

text \<open>\<open>duplicate\<close> copies one list in a memory of its own and gives the address of the copy.\<close>

fun duplicate_lists :: "('s \<Rightarrow> u64 \<Rightarrow> u64 \<times> 's) \<Rightarrow> 's \<Rightarrow> array_heap \<Rightarrow> u64 \<Rightarrow> u64 \<Rightarrow> nat \<Rightarrow> nat \<Rightarrow> (array_heap \<times> 's) option" where
  "duplicate_lists duplicate s h src dst i 0 = Some (h, s)"
| "duplicate_lists duplicate s h src dst i (Suc n) =
     (case load_list h src i of None \<Rightarrow> None
      | Some l \<Rightarrow>
          let (l', s') = duplicate s l in
          (case store_list h dst i l' of None \<Rightarrow> None
           | Some h' \<Rightarrow> duplicate_lists duplicate s' h' src dst (Suc i) n))"

definition memdup_array :: "allocator \<Rightarrow> array_heap \<Rightarrow> u64 \<Rightarrow> u64 \<Rightarrow> (array_heap \<times> u64) option" where
  "memdup_array M h src len =
     (case h src of None \<Rightarrow> None
      | Some a \<Rightarrow>
          if block_lists len \<le> length (a_lists a)
          then Some (h(block_at M h \<mapsto> a\<lparr>a_lists := take (block_lists len) (a_lists a)\<rparr>), block_at M h) else None)"

definition duplicateInto ::
    "allocator \<Rightarrow> ('s \<Rightarrow> u64 \<Rightarrow> u64 \<times> 's) \<Rightarrow> 's \<Rightarrow> array_heap \<Rightarrow> u64 \<Rightarrow> (array_heap \<times> 's \<times> u64) option" where
  "duplicateInto M duplicate s h self =
     (if hasArray self then
        (case h (array self) of None \<Rightarrow> None
         | Some a \<Rightarrow>
             (case memdup_array M h (array self) (array_byteSize (a_count a)) of None \<Rightarrow> None
              | Some (h1, p) \<Rightarrow>
                  let other = setArray p in
                  map_option (\<lambda>(h2, s'). (h2, s', other))
                    (duplicate_lists duplicate s h1 (array self) (array other) 0 (unat (a_count a)))))
      else if self \<noteq> 0 then (let (l, s') = duplicate s self in Some (h, s', l))
      else Some (h, s, 0))"

subsection \<open>Protocol lists\<close>

text \<open>A 64-bit count and the protocols behind it; the iterators are plain pointers.\<close>

definition protocol_count :: "image \<Rightarrow> u64 \<Rightarrow> u64" where
  "protocol_count W this = read64 (bytes W) this"

definition protocol_list_byteSize :: "image \<Rightarrow> u64 \<Rightarrow> u64" where
  "protocol_list_byteSize W this = 8 + protocol_count W this * 8"

definition protocol_list_begin :: "u64 \<Rightarrow> u64" where
  "protocol_list_begin this = this + 8"

definition protocol_list_end :: "image \<Rightarrow> u64 \<Rightarrow> u64" where
  "protocol_list_end W this = this + 8 + protocol_count W this * 8"

text \<open>The iterators of the lists of a class: methods, properties and protocols.\<close>

definition method_list_ops :: "image \<Rightarrow> iterator list_ops" where
  "method_list_ops W = \<lparr>lo_begin = method_begin W, lo_end = method_end W, lo_inc = iterator_inc, lo_eq = iterator_eq\<rparr>"

definition property_list_ops :: "image \<Rightarrow> iterator list_ops" where
  "property_list_ops W =
     \<lparr>lo_begin = list_begin 0 PointerModifierNop W, lo_end = list_end 0 PointerModifierNop W,
      lo_inc = iterator_inc, lo_eq = iterator_eq\<rparr>"

definition protocol_list_ops :: "image \<Rightarrow> u64 list_ops" where
  "protocol_list_ops W =
     \<lparr>lo_begin = protocol_list_begin, lo_end = protocol_list_end W, lo_inc = (\<lambda>p. p + 8), lo_eq = (=)\<rparr>"

end
