(* ===== verification/ListArrayProofs.thy ===== *)
theory ListArrayProofs
  imports ListArray
begin

text \<open>
  Attaching, counting, freeing and duplicating lists of a list array, against the abstract value of
  the array: the sequence of its lists.
\<close>

definition lists_of :: "array_heap \<Rightarrow> u64 \<Rightarrow> u64 list" where
  "lists_of h self =
     (if hasArray self then (case h (array self) of None \<Rightarrow> [] | Some a \<Rightarrow> take (unat (a_count a)) (a_lists a))
      else if self \<noteq> 0 then [self]
      else [])"

definition la_wf :: "array_heap \<Rightarrow> u64 \<Rightarrow> bool" where
  "la_wf h self \<longleftrightarrow>
     (hasArray self \<longrightarrow>
        (case h (array self) of None \<Rightarrow> False | Some a \<Rightarrow> length (a_lists a) = unat (a_count a) \<and> unat (a_count a) < 2 ^ 31))"

definition fresh_block :: "allocator \<Rightarrow> array_heap \<Rightarrow> bool" where
  "fresh_block M h \<longleftrightarrow> h (block_at M h) = None \<and> block_at M h \<noteq> 0 \<and> \<not> hasArray (block_at M h)"

subsection \<open>The tagged word\<close>

lemma hasArray_bit: "hasArray p \<longleftrightarrow> bit p 0"
  by (simp add: hasArray_def and_one_eq bit_0 odd_iff_mod_2_eq_one mod2_eq_if)

lemma hasArray_setArray [simp]: "hasArray (setArray p)"
  by (simp add: hasArray_bit setArray_def bit_or_iff)

lemma array_setArray [simp]: "\<not> hasArray p \<Longrightarrow> array (setArray p) = p"
  unfolding hasArray_bit array_def setArray_def
  by (intro bit_word_eqI) (auto simp: bit_and_iff bit_or_iff bit_not_iff bit_1_iff intro: gr0I)

subsection \<open>The copy loops\<close>

lemma unat32_less: "unat (x :: u32) < 2 ^ 32"
  using unsigned_less [of x, where ?'a = nat] by simp

lemma copy_added:
  assumes "h dst = Some a" and "unat c \<le> length added" and "unat c \<le> length (a_lists a)" and "unat i \<le> unat c"
  shows "copy_added_lists h dst added c i =
    Some (h(dst \<mapsto> a\<lparr>a_lists := take (unat i) (a_lists a) @ drop (unat i) (take (unat c) added) @ drop (unat c) (a_lists a)\<rparr>))"
  using assms
proof (induction "unat c - unat i" arbitrary: h a i)
  case 0
  then have "i = c" by (simp add: word_unat_eq_iff)
  then show ?case using 0 by (subst copy_added_lists.simps) auto
next
  case (Suc d)
  then have less: "unat i < unat c" by simp
  then have i1: "unat (i + 1) = Suc (unat i)" using unat32_less [of c] by (simp add: unat_word_ariths(1))
  define a1 where "a1 = a\<lparr>a_lists := (a_lists a)[unat i := added ! unat i]\<rparr>"
  have st: "store_list h dst (unat i) (added ! unat i) = Some (h(dst \<mapsto> a1))"
    using Suc.prems less by (simp add: store_list_def a1_def)
  have "copy_added_lists (h(dst \<mapsto> a1)) dst added c (i + 1) =
    Some ((h(dst \<mapsto> a1))(dst \<mapsto> a1\<lparr>a_lists := take (unat (i + 1)) (a_lists a1) @ drop (unat (i + 1)) (take (unat c) added)
      @ drop (unat c) (a_lists a1)\<rparr>))"
    by (rule Suc.hyps(1)) (use Suc i1 less in \<open>auto simp: a1_def\<close>)
  moreover have "drop (unat i) (take (unat c) added) = added ! unat i # drop (Suc (unat i)) (take (unat c) added)"
    using Suc.prems less by (subst Cons_nth_drop_Suc [symmetric]) auto
  ultimately show ?case
    using st Suc.prems less i1
    by (subst copy_added_lists.simps) (simp add: a1_def word_less_nat_alt take_Suc_conv_app_nth)
qed

lemma copy_old:
  assumes "h src = Some b" and "h dst = Some a" and "src \<noteq> dst" and "k \<le> length (a_lists b)"
    and "unat c + k \<le> length (a_lists a)" and "unat c + k < 2 ^ 32"
  shows "copy_old_lists h dst src c k =
    Some (h(dst \<mapsto> a\<lparr>a_lists := take (unat c) (a_lists a) @ take k (a_lists b) @ drop (unat c + k) (a_lists a)\<rparr>))"
  using assms
proof (induction k arbitrary: h a)
  case 0
  then show ?case by auto
next
  case (Suc k)
  define a1 where "a1 = a\<lparr>a_lists := (a_lists a)[unat c + k := a_lists b ! k]\<rparr>"
  have ix: "unat (of_nat k + c) = unat c + k" using Suc.prems by (simp add: unat_word_ariths(1) unat_of_nat)
  have st: "store_list h dst (unat (of_nat k + c)) (a_lists b ! k) = Some (h(dst \<mapsto> a1))"
    using Suc.prems by (simp add: store_list_def a1_def ix)
  have "copy_old_lists (h(dst \<mapsto> a1)) dst src c k =
    Some ((h(dst \<mapsto> a1))(dst \<mapsto> a1\<lparr>a_lists := take (unat c) (a_lists a1) @ take k (a_lists b) @ drop (unat c + k) (a_lists a1)\<rparr>))"
    by (rule Suc.IH) (use Suc.prems in \<open>auto simp: a1_def\<close>)
  moreover have "drop (unat c + k) ((a_lists a)[unat c + k := a_lists b ! k]) = a_lists b ! k # drop (unat c + Suc k) (a_lists a)"
    using Suc.prems by (subst Cons_nth_drop_Suc [symmetric]) auto
  ultimately show ?case
    using st Suc.prems by (simp add: load_list_def a1_def take_Suc_conv_app_nth) (rule ext, simp)
qed

lemma old_iterations_small:
  assumes "unat n < 2 ^ 31"
  shows "old_iterations n = unat n"
proof (cases "n = 0")
  case False
  then have "unat (n - 1) = unat n - 1" "0 < unat n" by (simp_all add: unat_minus_one unat_gt_0)
  then have u: "uint (n - 1) = int (unat n) - 1" using uint_nat [of "n - 1"] by linarith
  have "unat n < 2147483648" using assms by simp
  then have "int (unat n) < 2147483648" by linarith
  then have b: "uint (n - 1) < 2147483648" "- 2147483648 \<le> uint (n - 1)" using u \<open>0 < unat n\<close> by linarith+
  then have "sint (n - 1) = uint (n - 1)"
    using b by (subst sint_uint) (rule signed_take_bit_int_eq_self; simp)
  then show ?thesis using u by (simp add: old_iterations_def)
qed (simp add: old_iterations_def)

subsection \<open>Fresh blocks\<close>

lemma block_lists_byteSize: "block_lists (array_byteSize n) = unat n"
proof -
  have "unat (ucast n * 8 :: u64) = unat n * 8" using unat32_less [of n]
    by (simp add: unat_word_ariths(2) unsigned_ucast_eq take_bit_nat_eq_self)
  moreover have "unat n * 8 + 8 < 2 ^ 64" using unat32_less [of n] by simp
  ultimately have "unat (array_byteSize n) = 8 + unat n * 8" by (simp add: array_byteSize_def unat_word_ariths(1))
  then show ?thesis by (simp add: block_lists_def)
qed

lemma malloc_array_block:
  obtains a where "malloc_array M h (array_byteSize n) = (block_at M h, h(block_at M h \<mapsto> a))" and "length (a_lists a) = unat n"
  by (simp add: malloc_array_def Let_def block_lists_byteSize)


lemma set_count_block: "h p = Some a \<Longrightarrow> set_count h p n = Some (h(p \<mapsto> a\<lparr>a_count := n\<rparr>))"
  by (simp add: set_count_def)

subsection \<open>Attaching\<close>

lemma unat_add32: "unat (x :: u32) + unat y < 2 ^ 32 \<Longrightarrow> unat (x + y) = unat x + unat y"
  by (simp add: unat_word_ariths(1))

lemma attach_many_spec:
  assumes "h (array self) = Some b" and "length (a_lists b) = unat (a_count b)" and "fresh_block M h"
    and "unat (a_count b) + unat c < 2 ^ 31" and "unat c \<le> length added"
  shows "\<exists>a. attach_many M h self added c = Some (h(block_at M h \<mapsto> a, array self := None), setArray (block_at M h)) \<and>
    a_lists a = take (unat c) added @ a_lists b \<and> unat (a_count a) = unat (a_count b) + unat c"
proof -
  let ?p = "block_at M h" and ?n = "a_count b + c"
  obtain a0 where m: "malloc_array M h (array_byteSize ?n) = (?p, h(?p \<mapsto> a0))" and len: "length (a_lists a0) = unat ?n"
    by (rule malloc_array_block)
  have n: "unat ?n = unat (a_count b) + unat c" using assms(4) by (simp add: unat_add32)
  have ne: "array self \<noteq> ?p" using assms(1,3) by (auto simp: fresh_block_def)
  define a1 where "a1 = a0\<lparr>a_count := ?n\<rparr>"
  define b1 where "b1 = b\<lparr>a_count := ?n\<rparr>"
  define h3 where "h3 = h(?p \<mapsto> a1, array self \<mapsto> b1)"
  define a2 where "a2 = a1\<lparr>a_lists := take (unat c) (a_lists a1) @ a_lists b\<rparr>"
  have h3: "h3 (array self) = Some b1" "h3 ?p = Some a1" using ne by (simp_all add: h3_def)
  have old: "copy_old_lists h3 ?p (array self) c (old_iterations (a_count b)) = Some (h3(?p \<mapsto> a2))"
    using copy_old [OF h3 ne, of "unat (a_count b)" c] assms(2,4) len n
    by (simp add: old_iterations_small a2_def a1_def b1_def)
  have new: "copy_added_lists (h3(?p \<mapsto> a2)) ?p added c 0 = Some (h3(?p \<mapsto> a2\<lparr>a_lists := take (unat c) added @ a_lists b\<rparr>))"
    using copy_added [of "h3(?p \<mapsto> a2)" ?p a2 c added 0] assms(2,5) len n by (simp add: a2_def a1_def)
  have "attach_many M h self added c =
    Some (h(?p \<mapsto> a2\<lparr>a_lists := take (unat c) added @ a_lists b\<rparr>, array self := None), setArray ?p)"
    using assms(1) m old new ne
    by (simp add: attach_many_def set_count_def a1_def [symmetric] b1_def [symmetric] h3_def fun_upd_twist)
  moreover have "unat (a_count a2) = unat (a_count b) + unat c" using n by (simp add: a2_def a1_def)
  ultimately show ?thesis by auto
qed

lemma attach_to_one_spec:
  assumes "\<not> hasArray self" and "fresh_block M h" and "unat c < 2 ^ 31 - 1" and "unat c \<le> length added"
  shows "\<exists>a. attach_to_one M h self added c = Some (h(block_at M h \<mapsto> a), setArray (block_at M h)) \<and>
    a_lists a = take (unat c) added @ lists_of h self \<and> unat (a_count a) = unat c + length (lists_of h self)"
proof -
  let ?p = "block_at M h"
  define oc :: u32 where "oc = (if self \<noteq> 0 then 1 else 0)"
  have ls: "unat oc = length (lists_of h self)" "lists_of h self = (if self \<noteq> 0 then [self] else [])"
    using assms(1) by (simp_all add: oc_def lists_of_def)
  obtain a0 where m: "malloc_array M h (array_byteSize (oc + c)) = (?p, h(?p \<mapsto> a0))" and len: "length (a_lists a0) = unat (oc + c)"
    by (rule malloc_array_block)
  have n: "unat (oc + c) = length (lists_of h self) + unat c" using assms(3) ls by (subst unat_add32) (auto simp: oc_def)
  have p: "array (setArray ?p) = ?p" using assms(2) by (simp add: fresh_block_def)
  define a1 where "a1 = a0\<lparr>a_count := oc + c\<rparr>"
  define a2 where "a2 = a1\<lparr>a_lists := take (unat c) (a_lists a0) @ lists_of h self\<rparr>"
  have old: "(if self \<noteq> 0 then store_list (h(?p \<mapsto> a1)) ?p (unat c) self else Some (h(?p \<mapsto> a1))) = Some (h(?p \<mapsto> a2))"
  proof (cases "self = 0")
    case True
    then show ?thesis using len n ls(2) by (simp add: a1_def a2_def)
  next
    case False
    then have "(a_lists a0)[unat c := self] = take (unat c) (a_lists a0) @ [self]"
      using len n ls(2) by (simp add: upd_conv_take_nth_drop)
    then show ?thesis using False len n ls(2) by (simp add: store_list_def a1_def a2_def)
  qed
  have new: "copy_added_lists (h(?p \<mapsto> a2)) ?p added c 0 = Some (h(?p \<mapsto> a2\<lparr>a_lists := take (unat c) added @ lists_of h self\<rparr>))"
    using copy_added [of "h(?p \<mapsto> a2)" ?p a2 c added 0] assms(4) len n by (simp add: a2_def a1_def)
  have "attach_to_one M h self added c =
      (case (if self \<noteq> 0 then store_list (h(?p \<mapsto> a1)) ?p (unat c) self else Some (h(?p \<mapsto> a1))) of None \<Rightarrow> None
       | Some h3 \<Rightarrow> (case copy_added_lists h3 ?p added c 0 of None \<Rightarrow> None | Some h4 \<Rightarrow> Some (h4, setArray ?p)))"
    using m p
    by (simp add: attach_to_one_def set_count_def Let_def oc_def [symmetric] cong: option.case_cong split del: if_split)
      (simp add: a1_def oc_def cong: option.case_cong if_cong split del: if_split)
  then have "attach_to_one M h self added c = Some (h(?p \<mapsto> a2\<lparr>a_lists := take (unat c) added @ lists_of h self\<rparr>), setArray ?p)"
    by (simp only: old new option.case)
  moreover have "unat (a_count a2) = unat c + length (lists_of h self)" using n by (simp add: a2_def a1_def)
  ultimately show ?thesis by auto
qed


lemma attachLists_spec:
  assumes "la_wf h self" and "fresh_block M h" and "length (lists_of h self) + unat c < 2 ^ 31 - 1"
    and "unat c \<le> length added" and "\<forall>l\<in>set added. l \<noteq> 0 \<and> \<not> hasArray l"
  shows "\<exists>h' self'. attachLists M h self added c = Some (h', self') \<and> la_wf h' self' \<and>
    lists_of h' self' = take (unat c) added @ lists_of h self \<and>
    (\<forall>p. p \<noteq> block_at M h \<and> (hasArray self \<longrightarrow> p \<noteq> array self) \<longrightarrow> h' p = h p) \<and>
    (hasArray self \<and> c \<noteq> 0 \<longrightarrow> h' (array self) = None) \<and>
    (h' = h \<and> (self' = self \<or> \<not> hasArray self \<and> \<not> hasArray self') \<or> hasArray self' \<and> array self' = block_at M h)"
proof -
  consider (none) "c = 0" | (many) "c \<noteq> 0" "hasArray self" | (first) "\<not> hasArray self" "self = 0" "c = 1"
    | (one) "c \<noteq> 0" "\<not> hasArray self" "\<not> (self = 0 \<and> c = 1)" by blast
  then show ?thesis
  proof cases
    case none
    then show ?thesis using assms(1) by (simp add: attachLists_def)
  next
    case many
    then obtain b where b: "h (array self) = Some b" "length (a_lists b) = unat (a_count b)" "lists_of h self = a_lists b"
      using assms(1) by (auto simp: la_wf_def lists_of_def split: option.splits)
    have p: "array (setArray (block_at M h)) = block_at M h" "array self \<noteq> block_at M h"
      using assms(2) b(1) by (auto simp: fresh_block_def)
    obtain a where "attach_many M h self added c = Some (h(block_at M h \<mapsto> a, array self := None), setArray (block_at M h))"
      and a: "a_lists a = take (unat c) added @ a_lists b" "unat (a_count a) = unat (a_count b) + unat c"
      using attach_many_spec [OF b(1,2) assms(2), of c added] assms(3,4) b by auto
    then have "attachLists M h self added c = Some (h(block_at M h \<mapsto> a, array self := None), setArray (block_at M h))"
      using many by (simp add: attachLists_def)
    moreover have "la_wf (h(block_at M h \<mapsto> a, array self := None)) (setArray (block_at M h))"
      using p a assms(3,4) b by (simp add: la_wf_def)
    moreover have "lists_of (h(block_at M h \<mapsto> a, array self := None)) (setArray (block_at M h)) = take (unat c) added @ lists_of h self"
      using p a assms(4) b(2,3) by (simp add: lists_of_def [of _ "setArray _"])
    ultimately show ?thesis using many p(1) by auto
  next
    case first
    then obtain l ls where "added = l # ls" using assms(4) by (cases added) auto
    then show ?thesis using first assms(5) by (auto simp: attachLists_def la_wf_def lists_of_def hasArray_def)
  next
    case one
    have p: "array (setArray (block_at M h)) = block_at M h" using assms(2) by (simp add: fresh_block_def)
    obtain a where "attach_to_one M h self added c = Some (h(block_at M h \<mapsto> a), setArray (block_at M h))"
      and a: "a_lists a = take (unat c) added @ lists_of h self" "unat (a_count a) = unat c + length (lists_of h self)"
      using attach_to_one_spec [OF one(2) assms(2), of c added] assms(3,4) by auto
    then have "attachLists M h self added c = Some (h(block_at M h \<mapsto> a), setArray (block_at M h))"
      using one by (auto simp: attachLists_def)
    moreover have "la_wf (h(block_at M h \<mapsto> a)) (setArray (block_at M h))" using p a assms(3,4) by (simp add: la_wf_def)
    moreover have "lists_of (h(block_at M h \<mapsto> a)) (setArray (block_at M h)) = take (unat c) added @ lists_of h self"
      using p a assms(4) by (simp add: lists_of_def [of _ "setArray _"])
    ultimately show ?thesis using one(2) p by auto
  qed
qed

subsection \<open>Cursors\<close>

definition cursor_at :: "u64 \<Rightarrow> nat \<Rightarrow> list_cursor" where
  "cursor_at self k = (if hasArray self then Array_slot (array self) k else Own_slot k)"

lemma cursor_simps [simp]:
  "beginLists self = cursor_at self 0"
  "next_cursor (cursor_at self k) = cursor_at self (Suc k)"
  "cursor_at self j = cursor_at self k \<longleftrightarrow> j = k"
  by (simp_all add: beginLists_def next_cursor_def cursor_at_def)

lemma endLists_cursor: "la_wf h self \<Longrightarrow> endLists h self = Some (cursor_at self (length (lists_of h self)))"
  by (auto simp: endLists_def cursor_at_def la_wf_def lists_of_def split: option.splits)

lemma load_cursor_nth:
  assumes "la_wf h self" and "k < length (lists_of h self)"
  shows "load_cursor h self (cursor_at self k) = Some (lists_of h self ! k)"
proof (cases "hasArray self")
  case True
  then show ?thesis using assms
    by (auto simp: load_cursor_def load_list_def cursor_at_def la_wf_def lists_of_def split: option.splits)
next
  case False
  then show ?thesis using assms by (auto simp: load_cursor_def cursor_at_def lists_of_def split: if_splits)
qed

lemma countLists_length: "la_wf h self \<Longrightarrow> map_option unat (countLists (\<lambda>a. a) h self) = Some (length (lists_of h self))"
  by (auto simp: countLists_def la_wf_def lists_of_def split: option.splits)

lemma count_loop_from:
  assumes "la_wf h self" and "k \<le> length (lists_of h self)"
  shows "count_loop lcount h self (cursor_at self k) (cursor_at self (length (lists_of h self))) result =
    Some (result + (\<Sum>l\<leftarrow>drop k (lists_of h self). lcount l))"
  using assms(2)
proof (induction "length (lists_of h self) - k" arbitrary: k result)
  case 0
  then show ?case by (subst count_loop.simps) simp
next
  case (Suc d)
  then have k: "k < length (lists_of h self)" by simp
  then have "drop k (lists_of h self) = lists_of h self ! k # drop (Suc k) (lists_of h self)"
    by (simp add: Cons_nth_drop_Suc)
  then show ?case
    using Suc k load_cursor_nth [OF assms(1) k] by (subst count_loop.simps) (simp add: add.assoc)
qed

lemma list_array_count_sum:
  "la_wf h self \<Longrightarrow> list_array_count lcount h self = Some (\<Sum>l\<leftarrow>lists_of h self. lcount l)"
  using count_loop_from [of h self 0 lcount 0] by (simp add: list_array_count_def endLists_cursor)

subsection \<open>Iterating over the elements\<close>

text \<open>
  What the lists inside of an array promise: on a list that is \<open>ok\<close>, the iterators between \<open>begin\<close> and
  \<open>end\<close> are the positions 0 to \<open>len\<close>, all different.
\<close>

locale element_lists =
  fixes L :: "'m list_ops" and ok :: "u64 \<Rightarrow> bool" and pos :: "u64 \<Rightarrow> nat \<Rightarrow> 'm" and len :: "u64 \<Rightarrow> nat"
  assumes begin_pos: "ok l \<Longrightarrow> lo_begin L l = pos l 0"
    and end_pos: "ok l \<Longrightarrow> lo_end L l = pos l (len l)"
    and inc_pos: "ok l \<Longrightarrow> k < len l \<Longrightarrow> lo_inc L (pos l k) = pos l (Suc k)"
    and eq_pos: "ok l \<Longrightarrow> j \<le> len l \<Longrightarrow> k \<le> len l \<Longrightarrow> lo_eq L (pos l j) (pos l k) \<longleftrightarrow> j = k"
begin

definition elems :: "u64 \<Rightarrow> 'm list" where
  "elems l = map (pos l) [0..<len l]"

definition it_at :: "array_heap \<Rightarrow> u64 \<Rightarrow> nat \<Rightarrow> nat \<Rightarrow> 'm la_iterator" where
  "it_at h self i k =
     \<lparr>la_lists = cursor_at self i, la_listsEnd = cursor_at self (length (lists_of h self)),
      la_m = Some (pos (lists_of h self ! i) k), la_mEnd = Some (pos (lists_of h self ! i) (len (lists_of h self ! i)))\<rparr>"

definition rest :: "array_heap \<Rightarrow> u64 \<Rightarrow> nat \<Rightarrow> nat \<Rightarrow> 'm list" where
  "rest h self i k =
     map (pos (lists_of h self ! i)) [k..<len (lists_of h self ! i)] @ concat (map elems (drop (Suc i) (lists_of h self)))"

lemma rest_next:
  assumes "i < length (lists_of h self)" and "k < len (lists_of h self ! i)"
  shows "rest h self i k = pos (lists_of h self ! i) k #
    (if Suc k = len (lists_of h self ! i)
     then (if Suc i = length (lists_of h self) then [] else rest h self (Suc i) 0)
     else rest h self i (Suc k))"
proof -
  have "drop (Suc i) (lists_of h self) = lists_of h self ! Suc i # drop (Suc (Suc i)) (lists_of h self)"
    if "Suc i \<noteq> length (lists_of h self)"
    using assms(1) that by (subst Cons_nth_drop_Suc) auto
  then show ?thesis using assms by (auto simp: rest_def elems_def upt_conv_Cons)
qed

lemma la_inc_at:
  assumes "la_wf h self" and "\<forall>l\<in>set (lists_of h self). ok l" and "i < length (lists_of h self)" and "k < len (lists_of h self ! i)"
  shows "la_inc L h self (it_at h self i k) =
    Some (if Suc k = len (lists_of h self ! i)
      then (if Suc i = length (lists_of h self) then (it_at h self i (Suc k))\<lparr>la_lists := cursor_at self (Suc i)\<rparr> else it_at h self (Suc i) 0)
      else it_at h self i (Suc k))"
proof -
  let ?l = "lists_of h self ! i"
  have l: "ok ?l" using assms(2,3) by simp
  have e: "lo_eq L (pos ?l (Suc k)) (pos ?l (len ?l)) \<longleftrightarrow> Suc k = len ?l" using eq_pos [OF l] assms(4) by simp
  show ?thesis
  proof (cases "Suc k = len ?l \<and> Suc i \<noteq> length (lists_of h self)")
    case True
    then have i: "Suc i < length (lists_of h self)" using assms(3) by simp
    then have "ok (lists_of h self ! Suc i)" using assms(2) by simp
    then show ?thesis
      using True e inc_pos [OF l assms(4)] load_cursor_nth [OF assms(1) i]
      by (simp add: la_inc_def it_at_def begin_pos end_pos)
  next
    case False
    then show ?thesis using e inc_pos [OF l assms(4)] by (auto simp: la_inc_def it_at_def)
  qed
qed

lemma visit_from:
  assumes "la_wf h self" and ok: "\<forall>l\<in>set (lists_of h self). ok l \<and> 0 < len l"
    and "i < length (lists_of h self)" and "k < len (lists_of h self ! i)" and fin: "la_lists fin = cursor_at self (length (lists_of h self))"
  shows "visit_elements L h self (it_at h self i k) fin vis = Some (vis @ rest h self i k)"
  using assms(3,4)
proof (induction "length (rest h self i k)" arbitrary: i k vis rule: less_induct)
  case less
  let ?n = "length (lists_of h self)" and ?l = "lists_of h self ! i"
  have ok': "\<forall>l\<in>set (lists_of h self). ok l" using ok by blast
  note r = rest_next [OF less.prems] and inc = la_inc_at [OF assms(1) ok' less.prems]
  have ne: "la_neq L (it_at h self i k) fin" using less.prems fin by (simp add: la_neq_def it_at_def)
  have m: "la_m (it_at h self i k) = Some (pos ?l k)" by (simp add: it_at_def)
  consider (more) "Suc k \<noteq> len ?l" | (list) "Suc k = len ?l" "Suc i \<noteq> ?n" | (fin) "Suc k = len ?l" "Suc i = ?n" by blast
  then show ?case
  proof cases
    case more
    then show ?thesis
      using less.hyps [of i "Suc k"] less.prems r inc ne m by (subst visit_elements.simps) simp
  next
    case list
    then have "Suc i < ?n" using less.prems by simp
    then have "0 < len (lists_of h self ! Suc i)" using ok by simp
    then show ?thesis
      using less.hyps [of "Suc i" 0] list \<open>Suc i < ?n\<close> r inc ne m by (subst visit_elements.simps) simp
  next
    case fin
    then have "\<not> la_neq L ((it_at h self i (Suc k))\<lparr>la_lists := cursor_at self (Suc i)\<rparr>) fin"
      using assms(5) by (simp add: la_neq_def it_at_def)
    then have "visit_elements L h self ((it_at h self i (Suc k))\<lparr>la_lists := cursor_at self (Suc i)\<rparr>) fin (vis @ [pos ?l k])
        = Some (vis @ [pos ?l k])"
      by (subst visit_elements.simps) simp
    then show ?thesis using fin r inc ne m by (subst visit_elements.simps) simp
  qed
qed

lemma all_elements_concat:
  assumes "la_wf h self" and ok: "\<forall>l\<in>set (lists_of h self). ok l \<and> 0 < len l"
  shows "all_elements L h self = Some (concat (map elems (lists_of h self)))"
proof (cases "lists_of h self")
  case Nil
  then show ?thesis using assms(1)
    by (simp add: all_elements_def la_begin_def la_end_def la_iterator_at_def endLists_cursor visit_elements.simps la_neq_def)
next
  case (Cons l ls)
  then have n: "0 < length (lists_of h self)" by simp
  then have l: "ok (lists_of h self ! 0)" "0 < len (lists_of h self ! 0)" using ok by simp_all
  have b: "la_begin L h self = Some (it_at h self 0 0)"
    using load_cursor_nth [OF assms(1) n] n l assms(1)
    by (simp add: la_begin_def endLists_cursor la_iterator_at_def it_at_def begin_pos end_pos)
  have "rest h self 0 0 = concat (map elems (lists_of h self))" using Cons by (simp add: rest_def elems_def)
  then show ?thesis
    using visit_from [OF assms n l(2), of _ "[]"] assms(1) b
    by (simp add: all_elements_def la_end_def la_iterator_at_def endLists_cursor)
qed

end

end
