(* ===== verification/MethodSearch.thy ===== *)
theory MethodSearch
  imports MethodList
begin

text \<open>
  Searching a method list: the binary search of sorted lists and the linear search find the same
  method, the first one with the selector. The locale \<open>method_array\<close> holds what a list in memory
  must satisfy for its iterators to behave as indices.
\<close>

definition wf_list :: "image \<Rightarrow> u64 \<Rightarrow> bool" where
  "wf_list W list \<longleftrightarrow>
     even (unat list) \<and> entsize method_FlagMask W list \<noteq> 0 \<and>
     unat (list_count W list) * unat (entsize method_FlagMask W list) < 2 ^ 32 \<and>
     unat list + 9 + unat (list_count W list) * unat (entsize method_FlagMask W list) < 2 ^ 64"

text \<open>The methods of a list, and the first one with a selector (0 if there is none).\<close>

definition list_methods :: "image \<Rightarrow> u64 \<Rightarrow> u64 list" where
  "list_methods W list = map (\<lambda>k. getOrEnd method_FlagMask pointer_modifier W list (of_nat k)) [0..<unat (list_count W list)]"

definition first_method :: "image \<Rightarrow> u64 \<Rightarrow> u64 \<Rightarrow> u64" where
  "first_method W key list =
     (case List.find (\<lambda>m. list_getName W list m = key) (list_methods W list) of None \<Rightarrow> 0 | Some m \<Rightarrow> m)"

lemma unat_up [simp]: "unat (ucast (x :: u32) :: u64) = unat x"
proof -
  have "unat x < 2 ^ 32" using unsigned_less [of x, where ?'a = nat] by simp
  then show ?thesis by (simp add: unsigned_ucast_eq take_bit_nat_eq_self)
qed

locale method_array =
  fixes W :: image and list :: u64
  assumes wf: "wf_list W list"
begin

abbreviation n :: nat where "n \<equiv> unat (list_count W list)"
abbreviation e :: nat where "e \<equiv> unat (entsize method_FlagMask W list)"

definition itn :: "nat \<Rightarrow> iterator" where
  "itn k = iterator_at method_FlagMask pointer_modifier W list (of_nat k)"

definition el :: "nat \<Rightarrow> u64" where
  "el k = getOrEnd method_FlagMask pointer_modifier W list (of_nat k)"

lemma bounds: "even (unat list)" "0 < e" "n * e < 2 ^ 32" "unat list + 9 + n * e < 2 ^ 64"
  using wf by (simp_all add: wf_list_def unat_gt_0)

lemma even_entsize: "even e"
proof -
  have "\<not> bit (entsize method_FlagMask W list) 0"
    by (simp add: entsize_def bit_and_iff bit_not_iff method_FlagMask_def)
  then show ?thesis using bit_unat [of "entsize method_FlagMask W list" 0] by (simp add: bit_0)
qed

lemma unat_el:
  assumes "k \<le> n"
  shows "unat (el k) = unat list + 8 + (if isSmallList W list then 1 else 0) + k * e"
proof -
  have ke: "k * e \<le> n * e" using assms by simp
  have k32: "k < 2 ^ 32" using assms unsigned_less [of "list_count W list", where ?'a = nat] by simp
  have "unat (of_nat k * entsize method_FlagMask W list :: u32) = k * e"
    using k32 le_less_trans [OF ke bounds(3)] by (simp add: unat_word_ariths(2) unat_of_nat)
  moreover have "unat list + 8 + k * e < 2 ^ 64" using ke bounds(4) by linarith
  ultimately have u: "unat (list + 8 + ucast (of_nat k * entsize method_FlagMask W list)) = unat list + 8 + k * e"
    by (simp add: unat_word_ariths(1))
  have odd1: "unat (w OR 1) = unat w + 1" if "even (unat w)" for w :: u64
  proof -
    have "\<not> bit w 0" using that bit_unat [of w 0] by (simp add: bit_0)
    then have "w AND 1 = 0" by (auto intro!: bit_word_eqI simp: bit_and_iff bit_1_iff)
    then have "w OR 1 = w + 1" using word_plus_and_or [of w 1] by simp
    moreover have "unat w < 2 ^ 64 - 1"
      using that unat_less_64 [of w] by (cases "unat w = 2 ^ 64 - 1") auto
    ultimately show ?thesis by (simp add: unat_word_ariths(1))
  qed
  show ?thesis
    using u odd1 [of "list + 8 + ucast (of_nat k * entsize method_FlagMask W list)"] bounds(1) even_entsize
    by (simp add: el_def getOrEnd_def pointer_modifier_def isSmallList_def)
qed

text \<open>Iterators of the list behave as indices.\<close>

lemma it_simps [simp]:
  "it_element (itn k) = el k" "it_entsize (itn k) = entsize method_FlagMask W list" "it_index (itn k) = of_nat k"
  by (simp_all add: iterator_at_def itn_def el_def)

lemma itn_eqI:
  "it_element it = el k \<Longrightarrow> it_entsize it = entsize method_FlagMask W list \<Longrightarrow> it_index it = of_nat k \<Longrightarrow> it = itn k"
  by simp

lemma ucast_of_nat_small: "d < 2 ^ 64 \<Longrightarrow> (ucast (of_nat d :: u64) :: u32) = of_nat d"
  by (simp add: unsigned_of_nat take_bit_nat_eq_self)

lemma index_small: "k \<le> n \<Longrightarrow> k < 2 ^ 32"
  using unsigned_less [of "list_count W list", where ?'a = nat] by simp

lemma iterator_add_itn:
  assumes "k + d \<le> n"
  shows "iterator_add (itn k) (of_nat d) = itn (k + d)"
proof -
  have d: "d < 2 ^ 32" using index_small [OF assms] by simp
  have "(k + d) * e \<le> n * e" using assms by simp
  then have de: "k * e + d * e \<le> n * e" by (simp add: distrib_right)
  have "unat (of_nat d * ucast (entsize method_FlagMask W list) :: u64) = d * e"
    using d de bounds(4) by (simp add: unat_word_ariths(2) unat_of_nat)
  then have "unat (el k + of_nat d * ucast (entsize method_FlagMask W list)) = unat (el (k + d))"
    using unat_el [of k] unat_el [of "k + d"] assms de bounds(4) by (simp add: unat_word_ariths(1) distrib_right)
  then have "el k + of_nat d * ucast (entsize method_FlagMask W list) = el (k + d)" by (simp add: word_unat_eq_iff)
  then show ?thesis using d by (intro itn_eqI) (simp_all add: iterator_add_def ucast_of_nat_small)
qed

lemma iterator_sub_itn:
  assumes "d \<le> k" and "k \<le> n"
  shows "iterator_sub (itn k) (of_nat d) = itn (k - d)"
proof -
  have "iterator_add (itn (k - d)) (of_nat d) = itn k" using iterator_add_itn [of "k - d" d] assms by simp
  then have "it_index (iterator_add (itn (k - d)) (of_nat d)) = it_index (itn k)"
    "it_element (iterator_add (itn (k - d)) (of_nat d)) = it_element (itn k)" by simp_all
  then have "of_nat (k - d) + ucast (of_nat d :: u64) = (of_nat k :: u32)"
    "el (k - d) + of_nat d * ucast (entsize method_FlagMask W list) = el k"
    by (simp_all add: iterator_add_def del: of_nat_diff)
  then have "(of_nat k :: u32) - ucast (of_nat d :: u64) = of_nat (k - d)"
    "el k - of_nat d * ucast (entsize method_FlagMask W list) = el (k - d)"
    by (metis add_diff_cancel_right')+
  then show ?thesis by (intro itn_eqI) (simp_all add: iterator_sub_def del: of_nat_diff)
qed

lemma el_less: "j \<le> n \<Longrightarrow> k \<le> n \<Longrightarrow> el j < el k \<longleftrightarrow> j < k"
  using bounds(2) by (simp add: word_less_nat_alt unat_el)

lemma el_eq: "j \<le> n \<Longrightarrow> k \<le> n \<Longrightarrow> el j = el k \<longleftrightarrow> j = k"
  using el_less by (metis less_irrefl linorder_neqE_nat)

lemma el_not_0: "k \<le> n \<Longrightarrow> el k \<noteq> 0"
  using unat_el [of k] by (auto simp: unat_eq_zero)

lemma find_upt:
  "k < m \<Longrightarrow> List.find P (map f [k..<m]) = (if P (f k) then Some (f k) else List.find P (map f [Suc k..<m]))"
  by (simp add: upt_conv_Cons)

text \<open>The first method with a selector, from an index on.\<close>

definition first_from :: "(u64 \<Rightarrow> u64) \<Rightarrow> u64 \<Rightarrow> nat \<Rightarrow> u64" where
  "first_from getName key k =
     (case List.find (\<lambda>m. getName m = key) (map el [k..<n]) of None \<Rightarrow> 0 | Some m \<Rightarrow> m)"

lemma first_from_simps:
  "first_from getName key n = 0"
  "k < n \<Longrightarrow> first_from getName key k = (if getName (el k) = key then el k else first_from getName key (Suc k))"
  by (simp_all add: first_from_def find_upt)

lemma first_from_skip:
  assumes "k \<le> m" and "m \<le> n" and "\<And>i. k \<le> i \<Longrightarrow> i < m \<Longrightarrow> getName (el i) \<noteq> key"
  shows "first_from getName key k = first_from getName key m"
  using assms
proof (induction "m - k" arbitrary: k)
  case (Suc d)
  then have "k < m" by simp
  then have "first_from getName key k = first_from getName key (Suc k)" using Suc.prems by (simp add: first_from_simps(2))
  also have "\<dots> = first_from getName key m" using Suc \<open>k < m\<close> by simp
  finally show ?case .
qed simp

lemma linear_search:
  assumes "k \<le> n"
  shows "find_unsorted_loop getName key (itn k) (itn n) = Some (first_from getName key k)"
  using assms
proof (induction "n - k" arbitrary: k)
  case 0
  then have "k = n" by simp
  then show ?case by (subst find_unsorted_loop.simps) (simp add: iterator_eq_def first_from_simps(1))
next
  case (Suc d)
  then have k: "k < n" by simp
  have "iterator_inc (itn k) = itn (Suc k)" using iterator_add_itn [of k 1] k by (simp add: iterator_inc_def)
  then show ?case
    using Suc k el_eq [of k n]
    by (subst find_unsorted_loop.simps) (simp add: iterator_eq_def first_from_simps(2))
qed

lemma rewind_first:
  assumes "k < n" and "getName (el k) = key" and sorted: "\<And>i j. i \<le> j \<Longrightarrow> j < n \<Longrightarrow> getName (el i) \<le> getName (el j)"
  shows "rewind getName key (itn 0) (itn k) = Some (first_from getName key 0)"
  using assms(1,2)
proof (induction k)
  case 0
  then have "first_from getName key 0 = el 0" using first_from_simps(2) [of 0] by simp
  then show ?case using it_simps(1) [of 0] by (subst rewind.simps) (simp add: iterator_less_def)
next
  case (Suc k)
  have s: "iterator_sub (itn (Suc k)) 1 = itn k" using iterator_sub_itn [of 1 "Suc k"] Suc.prems(1) by simp
  have less: "iterator_less (itn 0) (itn (Suc k))" using el_less [of 0 "Suc k"] Suc.prems(1) by (simp add: iterator_less_def)
  show ?case
  proof (cases "getName (el k) = key")
    case True
    then show ?thesis using Suc less s by (subst rewind.simps) (simp add: iterator_dec_def)
  next
    case False
    have "getName (el i) \<noteq> key" if "i < Suc k" for i
      using that False sorted [of i k] sorted [of k "Suc k"] Suc.prems by fastforce
    then have "first_from getName key 0 = el (Suc k)"
      using first_from_skip [of 0 "Suc k"] first_from_simps(2) [of "Suc k"] Suc.prems by simp
    then show ?thesis using False less s by (subst rewind.simps) simp
  qed
qed

lemma binary_search:
  assumes sorted: "\<And>i j. i \<le> j \<Longrightarrow> j < n \<Longrightarrow> getName (el i) \<le> getName (el j)"
    and "lo + unat c \<le> n" and "\<And>i. i < n \<Longrightarrow> getName (el i) = key \<Longrightarrow> lo \<le> i \<and> i < lo + unat c"
  shows "find_sorted_loop getName key (itn 0) (itn lo) c = Some (first_from getName key 0)"
  using assms(2,3)
proof (induction "unat c" arbitrary: lo c rule: less_induct)
  case less
  have h: "unat (drop_bit 1 c) = unat c div 2" by (simp add: drop_bit_eq_div unat_div)
  show ?case
  proof (cases "c = 0")
    case True
    then have "getName (el i) \<noteq> key" if "i < n" for i using less.prems(2) [of i] that by auto
    then have "first_from getName key 0 = 0" using first_from_skip [of 0 n] by (simp add: first_from_simps(1))
    then show ?thesis using True by (simp add: find_sorted_loop.simps)
  next
    case False
    then have c: "0 < unat c" by (simp add: unat_gt_0)
    define mid where "mid = lo + unat c div 2"
    have mid: "mid < n" "mid < lo + unat c" using less.prems(1) c by (auto simp: mid_def)
    have "unat c div 2 < 2 ^ 64" using unsigned_less [of c, where ?'a = nat] by simp
    then have "(ucast (drop_bit 1 c) :: u64) = of_nat (unat c div 2)" using h by (simp add: word_unat_eq_iff unat_of_nat)
    then have pr: "iterator_add (itn lo) (ucast (drop_bit 1 c)) = itn mid"
      using iterator_add_itn [of lo "unat c div 2"] mid(1) by (simp add: mid_def)
    note step = find_sorted_loop.simps [of getName key "itn 0" "itn lo" c]
    consider "key = getName (el mid)" | "getName (el mid) < key" | "key < getName (el mid)" by fastforce
    then show ?thesis
    proof cases
      case 1
      have "rewind getName key (itn 0) (itn mid) = Some (first_from getName key 0)"
        by (rule rewind_first [OF mid(1)]) (use 1 sorted in simp_all)
      then show ?thesis using 1 False pr by (subst find_sorted_loop.simps) (simp add: Let_def)
    next
      case 2
      have h1: "unat (drop_bit 1 (c - 1)) = (unat c - 1) div 2"
        using False by (simp add: drop_bit_eq_div unat_div unat_minus_one)
      have e: "Suc mid + (unat c - 1) div 2 = lo + unat c" using c by (simp add: mid_def)
      have nx: "iterator_add (itn mid) 1 = itn (Suc mid)" using iterator_add_itn [of mid 1] mid(1) by simp
      have "Suc mid \<le> i \<and> i < lo + unat c" if "i < n" "getName (el i) = key" for i
        using that less.prems(2) [OF that] sorted [of i mid] 2 mid(1) by (cases "i \<le> mid") auto
      then have "find_sorted_loop getName key (itn 0) (itn (Suc mid)) (drop_bit 1 (c - 1)) = Some (first_from getName key 0)"
        using less.hyps [of "drop_bit 1 (c - 1)" "Suc mid"] h1 e c less.prems(1) by auto
      then show ?thesis using 2 False pr nx by (auto simp: step Let_def)
    next
      case 3
      have "lo \<le> i \<and> i < lo + unat c div 2" if "i < n" "getName (el i) = key" for i
        using that less.prems(2) [OF that] sorted [of mid i] 3 by (cases "mid \<le> i") (auto simp: mid_def)
      then have "find_sorted_loop getName key (itn 0) (itn lo) (drop_bit 1 c) = Some (first_from getName key 0)"
        using less.hyps [of "drop_bit 1 c" lo] h c less.prems(1) by auto
      then show ?thesis using 3 False pr by (auto simp: step Let_def)
    qed
  qed
qed

lemma begin_itn: "method_begin W list = itn 0" "method_end W list = itn n"
  by (simp_all add: list_begin_def list_end_def itn_def)

lemma methods_el: "list_methods W list = map el [0..<n]"
  by (simp add: list_methods_def el_def)

lemma first_method_eq: "first_method W key list = first_from (list_getName W list) key 0"
  by (simp add: first_method_def first_from_def methods_el)

lemma unsorted_correct: "findMethodInUnsortedMethodList W key list = Some (first_method W key list)"
  using linear_search [of 0] by (simp add: findMethodInUnsortedMethodList_def find_unsorted_def begin_itn first_method_eq)

lemma sorted_correct:
  assumes "sorted (map (list_getName W list) (list_methods W list))"
  shows "findMethodInSortedMethodList W key list = Some (first_method W key list)"
proof -
  have "list_getName W list (el i) \<le> list_getName W list (el j)" if "i \<le> j" "j < n" for i j
    using sorted_nth_mono [OF assms, of i j] that by (simp add: methods_el)
  from binary_search [of "list_getName W list" 0 "list_count W list" key, OF this] show ?thesis
    by (simp add: findMethodInSortedMethodList_def find_sorted_def begin_itn first_method_eq)
qed

lemma first_method_found:
  "first_method W key list \<noteq> 0 \<longleftrightarrow> (\<exists>m\<in>set (list_methods W list). list_getName W list m = key)"
proof -
  have nz: "0 \<notin> set (list_methods W list)" using el_not_0 by (auto simp: methods_el)
  show ?thesis
  proof (cases "List.find (\<lambda>m. list_getName W list m = key) (list_methods W list)")
    case None
    then have "first_method W key list = 0" by (simp add: first_method_def)
    moreover have "\<nexists>m. m \<in> set (list_methods W list) \<and> list_getName W list m = key" using None by (simp only: find_None_iff) simp
    ultimately show ?thesis by blast
  next
    case (Some m)
    then have "m \<in> set (list_methods W list)" "list_getName W list m = key" by (auto simp: find_Some_iff)
    then show ?thesis using Some nz by (auto simp: first_method_def)
  qed
qed

end

text \<open>A list of two methods with the selectors 5 and 7, fixed up and of 24-byte entries.\<close>

definition sample_image :: image where
  "sample_image =
     \<lparr>bytes = (\<lambda>a. if a = 0x1000 then 27 else if a = 0x1004 then 2 else if a = 0x1008 then 5 else if a = 0x1020 then 7 else 0),
      inSharedCache = (\<lambda>_. False), direct_selectors = False\<rparr>"

lemma sample_header:
  "list_count sample_image 0x1000 = 2" "entsize method_FlagMask sample_image 0x1000 = 24"
  "list_flags method_FlagMask sample_image 0x1000 = 3"
  by (simp_all add: list_count_def entsize_def list_flags_def entsizeAndFlags_def method_FlagMask_def sample_image_def read32_def read16_def)

lemma sample_wf: "wf_list sample_image 0x1000"
  by (simp add: wf_list_def sample_header)

lemma sample_methods: "list_methods sample_image 0x1000 = [0x1008, 0x1020]"
  by (simp add: list_methods_def sample_header getOrEnd_def pointer_modifier_def smallMethodListFlag_def upt_rec)

lemma sample_names: "map (list_getName sample_image 0x1000) (list_methods sample_image 0x1000) = [5, 7]"
proof -
  have "list_getName sample_image 0x1000 = big_name sample_image"
    by (simp add: list_getName_def isSmallList_def sample_header smallMethodListFlag_def)
  then show ?thesis
    by (simp add: sample_methods) (simp add: big_name_def read64_def read32_def read16_def sample_image_def)
qed

text \<open>
  Every well-formed list of every image is a method array; for the other pairs the interpretation
  falls back on the list above.
\<close>

interpretation lists: method_array
  "if wf_list W list then W else sample_image" "if wf_list W list then list else 0x1000" for W list
  by unfold_locales (simp add: sample_wf)

subsection \<open>Properties\<close>

text \<open>
  C16: In a method list whose selectors are sorted, the binary search with its walk back returns, for
  every selector, and finds the same method as the linear search: the first method of the list
  with that selector, or nil exactly when there is none. This is what category overrides within
  one list rely on.
\<close>

theorem sorted_search_equals_linear_search:
  assumes "wf_list W list" and "sorted (map (list_getName W list) (list_methods W list))"
  shows "findMethodInSortedMethodList W key list = findMethodInUnsortedMethodList W key list \<and>
    findMethodInSortedMethodList W key list = Some (first_method W key list) \<and>
    (first_method W key list = 0 \<longleftrightarrow> (\<nexists>m. m \<in> set (list_methods W list) \<and> list_getName W list m = key))"
  using lists.sorted_correct [of W list key] lists.unsorted_correct [of W list key] lists.first_method_found [of W list key] assms
  by auto

lemma sorted_search_equals_linear_search_witness:
  "findMethodInSortedMethodList sample_image 7 0x1000 = Some 0x1020 \<and>
   findMethodInUnsortedMethodList sample_image 7 0x1000 = Some 0x1020"
proof -
  have "first_method sample_image 7 0x1000 = 0x1020"
    using sample_names by (simp add: first_method_def sample_methods)
  then show ?thesis
    using sorted_search_equals_linear_search [OF sample_wf, of 7] by (auto simp: sample_names)
qed

end
