(* ===== verification/ListArraySpec.thy ===== *)
theory ListArraySpec
  imports ListArrayProofs MethodSearch
begin

text \<open>
  The properties of list arrays: attaching prepends, and counts and iterators agree with the
  sequence of lists, for the method and the protocol lists of a class.
\<close>

subsection \<open>Method and protocol lists as element lists\<close>

definition wf_protocols :: "image \<Rightarrow> u64 \<Rightarrow> bool" where
  "wf_protocols W l \<longleftrightarrow> unat l + 8 + 8 * unat (protocol_count W l) < 2 ^ 64"

lemma unat_protocol_pos:
  assumes "wf_protocols W l" and "k \<le> unat (protocol_count W l)"
  shows "unat (l + 8 + of_nat k * 8) = unat l + 8 + 8 * k"
  using assms by (simp add: wf_protocols_def unat_word_ariths unat_of_nat)

interpretation protocols: element_lists "protocol_list_ops W" "wf_protocols W" "\<lambda>l k. l + 8 + of_nat k * 8"
  "\<lambda>l. unat (protocol_count W l)" for W
proof
  fix l :: u64 and j k :: nat
  assume l: "wf_protocols W l"
  show "lo_begin (protocol_list_ops W) l = l + 8 + of_nat 0 * 8"
    by (simp add: protocol_list_ops_def protocol_list_begin_def)
  show "lo_end (protocol_list_ops W) l = l + 8 + of_nat (unat (protocol_count W l)) * 8"
    by (simp add: protocol_list_ops_def protocol_list_end_def)
  show "lo_inc (protocol_list_ops W) (l + 8 + of_nat k * 8) = l + 8 + of_nat (Suc k) * 8"
    by (simp add: protocol_list_ops_def algebra_simps)
  assume "j \<le> unat (protocol_count W l)" "k \<le> unat (protocol_count W l)"
  then have "unat (l + 8 + of_nat j * 8) = unat (l + 8 + of_nat k * 8) \<longleftrightarrow> j = k"
    by (simp only: unat_protocol_pos [OF l]) simp
  then show "lo_eq (protocol_list_ops W) (l + 8 + of_nat j * 8) (l + 8 + of_nat k * 8) \<longleftrightarrow> j = k"
    by (simp only: protocol_list_ops_def list_ops.simps word_unat_eq_iff)
qed

interpretation methods: element_lists "method_list_ops W" "wf_list W"
  "\<lambda>l k. iterator_at method_FlagMask pointer_modifier W l (of_nat k)" "\<lambda>l. unat (list_count W l)" for W
proof
  fix l :: u64 and j k :: nat
  assume l: "wf_list W l"
  have A: "method_array W l" using l by (rule method_array.intro)
  show "lo_begin (method_list_ops W) l = iterator_at method_FlagMask pointer_modifier W l (of_nat 0)"
    by (simp add: method_list_ops_def list_begin_def)
  show "lo_end (method_list_ops W) l = iterator_at method_FlagMask pointer_modifier W l (of_nat (unat (list_count W l)))"
    by (simp add: method_list_ops_def list_end_def)
  show "lo_inc (method_list_ops W) (iterator_at method_FlagMask pointer_modifier W l (of_nat k)) =
      iterator_at method_FlagMask pointer_modifier W l (of_nat (Suc k))" if "k < unat (list_count W l)"
    using method_array.iterator_add_itn [OF A, of k 1] that
    by (simp add: method_list_ops_def iterator_inc_def method_array.itn_def [OF A])
  assume "j \<le> unat (list_count W l)" "k \<le> unat (list_count W l)"
  then show "lo_eq (method_list_ops W) (iterator_at method_FlagMask pointer_modifier W l (of_nat j))
      (iterator_at method_FlagMask pointer_modifier W l (of_nat k)) \<longleftrightarrow> j = k"
    using method_array.el_eq [OF A, of j k]
    by (simp add: method_list_ops_def iterator_eq_def iterator_at_def method_array.el_def [OF A])
qed

lemma method_elements: "map it_element (methods.elems W l) = list_methods W l"
  unfolding methods.elems_def list_methods_def by (simp add: iterator_at_def)

subsection \<open>Properties\<close>

text \<open>
  C15: \<open>attachLists\<close> always succeeds below 2^31 lists, and the lists of the array afterwards are the added
  ones in their order followed by the old ones, from each of the three shapes of the array
  (empty, one list, an array). It writes only to the new array, frees the old one and keeps the
  array well formed.
\<close>

theorem attachLists_prepends:
  assumes "la_wf h self" and "fresh_block M h" and "length (lists_of h self) + unat addedCount < 2 ^ 31 - 1"
    and "unat addedCount \<le> length addedLists" and "\<forall>l\<in>set addedLists. l \<noteq> 0 \<and> \<not> hasArray l"
  shows "\<exists>h' self'. attachLists M h self addedLists addedCount = Some (h', self') \<and> la_wf h' self' \<and>
    lists_of h' self' = take (unat addedCount) addedLists @ lists_of h self \<and>
    (\<forall>p. p \<noteq> block_at M h \<and> (hasArray self \<longrightarrow> p \<noteq> array self) \<longrightarrow> h' p = h p) \<and>
    (hasArray self \<and> addedCount \<noteq> 0 \<longrightarrow> h' (array self) = None)"
  using attachLists_spec [OF assms] by blast

definition sample_allocator :: allocator where
  "sample_allocator = \<lparr>block_at = (\<lambda>h. if h 0x2000 = None then 0x2000 else 0x4000), garbage = (\<lambda>_. 0xdead)\<rparr>"

lemma attachLists_prepends_witness:
  "\<exists>h' self'. attachLists sample_allocator (\<lambda>_. None) 0x1000 [0x3000, 0x3010] 2 = Some (h', self') \<and>
     lists_of h' self' = [0x3000, 0x3010, 0x1000]"
proof -
  have w: "la_wf (\<lambda>_. None) 0x1000" and l: "lists_of (\<lambda>_. None) 0x1000 = [0x1000]"
    by (simp_all add: la_wf_def lists_of_def hasArray_def)
  have f: "fresh_block sample_allocator (\<lambda>_. None)" by (simp add: fresh_block_def sample_allocator_def hasArray_def)
  show ?thesis
    using attachLists_prepends [OF w f, of 2 "[0x3000, 0x3010]"] by (auto simp: l hasArray_def)
qed

text \<open>
  C34: When none of its method lists is empty, a loop over the methods of a class visits the methods
  of all its lists, list after list, each once and in order; \<open>count\<close> is the sum of the counts of the lists modulo
  2^32 and \<open>countLists\<close> their number.
\<close>

theorem list_array_visits_all_methods:
  assumes "la_wf h self" and "\<forall>l\<in>set (lists_of h self). wf_list W l \<and> list_count W l \<noteq> 0"
  shows "map_option (map it_element) (all_elements (method_list_ops W) h self) =
      Some (concat (map (list_methods W) (lists_of h self))) \<and>
    list_array_count (list_count W) h self = Some (of_nat (length (concat (map (list_methods W) (lists_of h self))))) \<and>
    map_option unat (countLists (\<lambda>a. a) h self) = Some (length (lists_of h self))"
proof -
  have "all_elements (method_list_ops W) h self = Some (concat (map (methods.elems W) (lists_of h self)))"
    using assms by (intro methods.all_elements_concat) (auto simp: unat_gt_0)
  then have a: "map_option (map it_element) (all_elements (method_list_ops W) h self) =
      Some (concat (map (list_methods W) (lists_of h self)))"
    by (simp add: map_concat method_elements comp_def)
  have "of_nat (length (concat (map (list_methods W) ls))) = (\<Sum>l\<leftarrow>ls. list_count W l)" for ls
    by (induction ls) (simp_all add: list_methods_def)
  then show ?thesis using a assms(1) by (simp add: list_array_count_sum countLists_length del: of_nat_add)
qed

lemma list_array_visits_all_methods_witness:
  "map_option (map it_element) (all_elements (method_list_ops sample_image) (\<lambda>_. None) 0x1000) = Some [0x1008, 0x1020]"
proof -
  have w: "la_wf (\<lambda>_. None) 0x1000" and l: "lists_of (\<lambda>_. None) 0x1000 = [0x1000]"
    by (simp_all add: la_wf_def lists_of_def hasArray_def)
  show ?thesis
    using list_array_visits_all_methods [OF w, of sample_image] by (simp add: l sample_wf sample_header sample_methods)
qed

text \<open>
  The hypothesis is needed: neither the constructor of the iterator nor \<open>++\<close> skips an empty list. A
  loop over a class whose only list is empty is entered, with the iterator at the end of the
  list, where the body dereferences it and \<open>++\<close> steps past the end.
\<close>

theorem iterator_enters_empty_list:
  assumes "self \<noteq> 0" and "\<not> hasArray self" and "list_count W self = 0"
  shows "\<exists>it fin. la_begin (method_list_ops W) h self = Some it \<and> la_end (method_list_ops W) h self = Some fin \<and>
    la_neq (method_list_ops W) it fin \<and> la_m it = la_mEnd it"
  using assms
  by (auto simp: la_begin_def la_end_def endLists_def beginLists_def la_iterator_at_def load_cursor_def la_neq_def
      method_list_ops_def list_begin_def list_end_def cursor_at_def)

end
