(* ===== verification/MethodFixup.thy ===== *)
theory MethodFixup
  imports ListArraySpec
begin

text \<open>
  Changing method lists: writing the fields of a method, duplicating a list, and the fix-up of a list
  before it is attached to a class (unique the selectors, sort by selector address, mark the list).
\<close>

subsection \<open>Writing memory\<close>

definition write_le :: "nat \<Rightarrow> (u64 \<Rightarrow> u8) \<Rightarrow> u64 \<Rightarrow> u64 \<Rightarrow> (u64 \<Rightarrow> u8)" where
  "write_le n m p v = (\<lambda>a. if unat (a - p) < n then ucast (drop_bit (8 * unat (a - p)) v) else m a)"

definition write32 :: "(u64 \<Rightarrow> u8) \<Rightarrow> u64 \<Rightarrow> u32 \<Rightarrow> (u64 \<Rightarrow> u8)" where
  "write32 m p v = write_le 4 m p (ucast v)"

definition write64 :: "(u64 \<Rightarrow> u8) \<Rightarrow> u64 \<Rightarrow> u64 \<Rightarrow> (u64 \<Rightarrow> u8)" where
  "write64 m p v = write_le 8 m p v"

subsection \<open>Fields of a method\<close>

definition setName :: "image \<Rightarrow> u64 \<Rightarrow> u64 \<Rightarrow> image" where
  "setName W m name =
     (if isSmall m then W\<lparr>bytes := write64 (bytes W) (RelativePointer_get W (small m)) name\<rparr>
      else W\<lparr>bytes := write64 (bytes W) m name\<rparr>)"

text \<open>The implementation of a small method is replaced in a table of its own.\<close>

definition setImp :: "image \<Rightarrow> (u64 \<Rightarrow> u64) \<Rightarrow> u64 \<Rightarrow> u64 \<Rightarrow> image \<times> (u64 \<Rightarrow> u64)" where
  "setImp W remapped m imp =
     (if isSmall m then (W, remapped(m := imp)) else (W\<lparr>bytes := write64 (bytes W) (m + 16) imp\<rparr>, remapped))"

definition method_assign :: "image \<Rightarrow> (u64 \<Rightarrow> u64) \<Rightarrow> u64 \<Rightarrow> u64 \<Rightarrow> image" where
  "method_assign W remapped this other =
     (let W1 = W\<lparr>bytes := write64 (bytes W) this (method_name W other)\<rparr>;
          W2 = W1\<lparr>bytes := write64 (bytes W1) (this + 8) (method_types W1 other)\<rparr> in
      W2\<lparr>bytes := write64 (bytes W2) (this + 16) (method_imp W2 remapped other)\<rparr>)"

definition SortBySELAddress :: "u64 \<times> u64 \<times> u64 \<Rightarrow> u64 \<times> u64 \<times> u64 \<Rightarrow> bool" where
  "SortBySELAddress lhs rhs \<longleftrightarrow> fst lhs < fst rhs"

subsection \<open>Duplicating a list\<close>

text \<open>\<open>calloc\<close> clears the block that the allocator gives at \<open>dup\<close>.\<close>

definition calloc_at :: "image \<Rightarrow> u64 \<Rightarrow> u64 \<Rightarrow> image" where
  "calloc_at W dup len = W\<lparr>bytes := (\<lambda>a. if a - dup < len then 0 else bytes W a)\<rparr>"

partial_function (option) copy_methods ::
    "(u64 \<Rightarrow> u64) \<Rightarrow> image \<Rightarrow> iterator \<Rightarrow> iterator \<Rightarrow> iterator \<Rightarrow> image option" where
  "copy_methods remapped W it stop dst =
     (if iterator_eq it stop then Some W
      else copy_methods remapped (method_assign W remapped (it_element dst) (it_element it)) (iterator_inc it) stop (iterator_inc dst))"

definition method_list_duplicate :: "image \<Rightarrow> (u64 \<Rightarrow> u64) \<Rightarrow> u64 \<Rightarrow> u64 \<Rightarrow> image option" where
  "method_list_duplicate W remapped this dup =
     (let W1 = (if isSmallList W this
                then (let V = calloc_at W dup (byteSize bigSize (list_count W this)) in V\<lparr>bytes := write32 (bytes V) dup bigSize\<rparr>)
                else (let V = calloc_at W dup (byteSize (entsize method_FlagMask W this) (list_count W this)) in
                      V\<lparr>bytes := write32 (bytes V) dup (entsizeAndFlags V this)\<rparr>));
          W2 = W1\<lparr>bytes := write32 (bytes W1) (dup + 4) (list_count W1 this)\<rparr> in
      copy_methods remapped W2 (method_begin W2 this) (method_end W2 this) (method_begin W2 dup))"

subsection \<open>Fixing up a list\<close>

definition setFixedUp :: "image \<Rightarrow> u64 \<Rightarrow> image" where
  "setFixedUp W mlist = W\<lparr>bytes := write32 (bytes W) mlist (entsize method_FlagMask W mlist OR fixed_up_method_list)\<rparr>"

text \<open>\<open>registerName\<close> stands for the table of selectors: the unique selector with the name at an address.\<close>

partial_function (option) unique_selectors :: "(u64 \<Rightarrow> u64) \<Rightarrow> image \<Rightarrow> iterator \<Rightarrow> iterator \<Rightarrow> image option" where
  "unique_selectors registerName W it stop =
     (if iterator_eq it stop then Some W
      else unique_selectors registerName
        (setName W (it_element it) (registerName (method_name W (it_element it)))) (iterator_inc it) stop)"

fun load_bigs :: "(u64 \<Rightarrow> u8) \<Rightarrow> u64 \<Rightarrow> nat \<Rightarrow> (u64 \<times> u64 \<times> u64) list" where
  "load_bigs m p 0 = []"
| "load_bigs m p (Suc n) = (read64 m p, read64 m (p + 8), read64 m (p + 16)) # load_bigs m (p + 24) n"

fun store_bigs :: "(u64 \<Rightarrow> u8) \<Rightarrow> u64 \<Rightarrow> (u64 \<times> u64 \<times> u64) list \<Rightarrow> (u64 \<Rightarrow> u8)" where
  "store_bigs m p [] = m"
| "store_bigs m p ((name, types, imp) # bs) =
     store_bigs (write64 (write64 (write64 m p name) (p + 8) types) (p + 16) imp) (p + 24) bs"

text \<open>\<open>std::stable_sort\<close> with \<open>SortBySELAddress\<close> on the methods of a list.\<close>

definition stable_sort :: "image \<Rightarrow> u64 \<Rightarrow> nat \<Rightarrow> image" where
  "stable_sort W first n = W\<lparr>bytes := store_bigs (bytes W) first (sort_key fst (load_bigs (bytes W) first n))\<rparr>"

definition fixupMethodList :: "(u64 \<Rightarrow> u64) \<Rightarrow> image \<Rightarrow> u64 \<Rightarrow> bool \<Rightarrow> image option" where
  "fixupMethodList registerName W mlist do_sort =
     (case (if \<not> isUniqued W mlist then unique_selectors registerName W (method_begin W mlist) (method_end W mlist)
            else Some W) of
        None \<Rightarrow> None
      | Some W1 \<Rightarrow>
          let W2 = (if do_sort \<and> \<not> isSmallList W1 mlist \<and> entsize method_FlagMask W1 mlist = bigSize
                    then stable_sort W1 (it_element (method_begin W1 mlist)) (unat (list_count W1 mlist)) else W1) in
          Some (if \<not> isSmallList W2 mlist then setFixedUp W2 mlist else W2))"

end
