(* ===== verification/Categories.thy ===== *)
theory Categories
  imports MethodFixup
begin

text \<open>
  Class data (\<open>class_rw_t\<close> and its extension) and categories: the list of categories that wait for a
  class, and attaching their method, property and protocol lists to the class. The memory holds the
  metadata lists and the heap of list arrays.
\<close>

record memory =
  mem_image :: image
  mem_heap :: array_heap

subsection \<open>Class data\<close>

record class_ro_t =
  ro_flags :: u32
  baseMethods :: u64
  baseProperties :: u64
  baseProtocols :: u64

record class_rw_ext_t =
  ext_ro :: class_ro_t
  ext_methods :: u64
  ext_properties :: u64
  ext_protocols :: u64
  ext_version :: u32

datatype ro_or_rw_ext = Ro class_ro_t | Ext class_rw_ext_t

record class_rw_t =
  rw_flags :: u32
  ro_or_ext :: ro_or_rw_ext

definition setFlags :: "class_rw_t \<Rightarrow> u32 \<Rightarrow> class_rw_t" where
  "setFlags c s = c\<lparr>rw_flags := rw_flags c OR s\<rparr>"

definition clearFlags :: "class_rw_t \<Rightarrow> u32 \<Rightarrow> class_rw_t" where
  "clearFlags c s = c\<lparr>rw_flags := rw_flags c AND NOT s\<rparr>"

definition rw_ext :: "class_rw_t \<Rightarrow> class_rw_ext_t option" where
  "rw_ext c = (case ro_or_ext c of Ro ro \<Rightarrow> None | Ext rwe \<Rightarrow> Some rwe)"

definition rw_ro :: "class_rw_t \<Rightarrow> class_ro_t" where
  "rw_ro c = (case ro_or_ext c of Ext rwe \<Rightarrow> ext_ro rwe | Ro ro \<Rightarrow> ro)"

definition set_ro :: "class_rw_t \<Rightarrow> class_ro_t \<Rightarrow> class_rw_t" where
  "set_ro c ro = (case ro_or_ext c of Ext rwe \<Rightarrow> c\<lparr>ro_or_ext := Ext (rwe\<lparr>ext_ro := ro\<rparr>)\<rparr> | Ro _ \<Rightarrow> c\<lparr>ro_or_ext := Ro ro\<rparr>)"

definition class_methods :: "class_rw_t \<Rightarrow> u64" where
  "class_methods c = (case ro_or_ext c of Ext rwe \<Rightarrow> ext_methods rwe | Ro ro \<Rightarrow> baseMethods ro)"

definition class_properties :: "class_rw_t \<Rightarrow> u64" where
  "class_properties c = (case ro_or_ext c of Ext rwe \<Rightarrow> ext_properties rwe | Ro ro \<Rightarrow> baseProperties ro)"

definition class_protocols :: "class_rw_t \<Rightarrow> u64" where
  "class_protocols c = (case ro_or_ext c of Ext rwe \<Rightarrow> ext_protocols rwe | Ro ro \<Rightarrow> baseProtocols ro)"

definition RO_META :: u32 where "RO_META = 1"

text \<open>The lists of a fresh extension; \<open>zalloc\<close> gives empty list arrays.\<close>

definition attach_base :: "allocator \<Rightarrow> array_heap \<Rightarrow> u64 \<Rightarrow> (array_heap \<times> u64) option" where
  "attach_base M h l = (if l \<noteq> 0 then attachLists M h 0 [l] 1 else Some (h, 0))"

definition extAlloc :: "allocator \<Rightarrow> array_heap \<Rightarrow> class_ro_t \<Rightarrow> (array_heap \<times> class_rw_ext_t) option" where
  "extAlloc M h ro =
     (case attach_base M h (baseMethods ro) of None \<Rightarrow> None
      | Some (h1, ms) \<Rightarrow>
      (case attach_base M h1 (baseProperties ro) of None \<Rightarrow> None
      | Some (h2, ps) \<Rightarrow>
      (case attach_base M h2 (baseProtocols ro) of None \<Rightarrow> None
      | Some (h3, qs) \<Rightarrow>
          Some (h3, \<lparr>ext_ro = ro, ext_methods = ms, ext_properties = ps, ext_protocols = qs,
            ext_version = (if ro_flags ro AND RO_META \<noteq> 0 then 7 else 0)\<rparr>))))"

definition extAllocIfNeeded :: "allocator \<Rightarrow> array_heap \<Rightarrow> class_rw_t \<Rightarrow> (array_heap \<times> class_rw_ext_t) option" where
  "extAllocIfNeeded M h c = (case ro_or_ext c of Ext rwe \<Rightarrow> Some (h, rwe) | Ro ro \<Rightarrow> extAlloc M h ro)"

subsection \<open>Categories\<close>

record category_t =
  cat_name :: u64
  cat_cls :: u64
  instanceMethods :: u64
  classMethods :: u64
  cat_protocols :: u64
  instanceProperties :: u64
  cat_classProperties :: u64

record locstamped_category_t =
  lc_cat :: u64
  lc_hi :: u64

text \<open>The categories in memory, and what the headers of their images say.\<close>

record category_env =
  category_at :: "u64 \<Rightarrow> category_t"
  hasCategoryClassProperties :: "u64 \<Rightarrow> bool"

definition methodsForMeta :: "category_t \<Rightarrow> bool \<Rightarrow> u64" where
  "methodsForMeta cat isMeta = (if isMeta then classMethods cat else instanceMethods cat)"

definition propertiesForMeta :: "category_env \<Rightarrow> category_t \<Rightarrow> bool \<Rightarrow> u64 \<Rightarrow> u64" where
  "propertiesForMeta E cat isMeta hi =
     (if \<not> isMeta then instanceProperties cat
      else if hasCategoryClassProperties E hi then cat_classProperties cat
      else 0)"

definition protocolsForMeta :: "category_t \<Rightarrow> bool \<Rightarrow> u64" where
  "protocolsForMeta cat isMeta = (if isMeta then 0 else cat_protocols cat)"

subsection \<open>Attaching categories to a class\<close>

text \<open>
  The loop of \<open>prepareMethodLists\<close> over the added lists. Whether the registered names are copied (\<open>fromBundle\<close>)
  and the flags of the class for custom allocation and counting methods are left out.
\<close>

fun prepareMethodLists :: "(u64 \<Rightarrow> u64) \<Rightarrow> image \<Rightarrow> u64 list \<Rightarrow> image option" where
  "prepareMethodLists registerName W [] = Some W"
| "prepareMethodLists registerName W (mlist # addedLists) =
     (if \<not> isFixedUp W mlist then
        (case fixupMethodList registerName W mlist True of None \<Rightarrow> None
         | Some W' \<Rightarrow> prepareMethodLists registerName W' addedLists)
      else prepareMethodLists registerName W addedLists)"

definition ATTACH_CLASS :: u32 where "ATTACH_CLASS = 1"
definition ATTACH_METACLASS :: u32 where "ATTACH_METACLASS = 2"
definition ATTACH_CLASS_AND_METACLASS :: u32 where "ATTACH_CLASS_AND_METACLASS = 4"
definition ATTACH_BUFSIZ :: u32 where "ATTACH_BUFSIZ = 64"

text \<open>A buffer on the stack, filled from its end.\<close>

record buffer =
  buf_lists :: "u64 list"
  buf_count :: u32

definition push :: "buffer \<Rightarrow> u64 \<Rightarrow> buffer" where
  "push b l =
     b\<lparr>buf_count := buf_count b + 1, buf_lists := (buf_lists b)[unat (ATTACH_BUFSIZ - (buf_count b + 1)) := l]\<rparr>"

text \<open>\<open>lists + ATTACH_BUFSIZ - count\<close>.\<close>

definition pushed :: "buffer \<Rightarrow> u64 list" where
  "pushed b = drop (unat (ATTACH_BUFSIZ - buf_count b)) (buf_lists b)"

text \<open>The bodies of the loop for the methods, and for the properties and protocols.\<close>

definition attach_methods ::
    "allocator \<Rightarrow> (u64 \<Rightarrow> u64) \<Rightarrow> memory \<Rightarrow> u64 \<Rightarrow> u64 list \<Rightarrow> u32 \<Rightarrow> (memory \<times> u64) option" where
  "attach_methods M registerName mem self ls n =
     (case prepareMethodLists registerName (mem_image mem) (take (unat n) ls) of None \<Rightarrow> None
      | Some W \<Rightarrow>
          (case attachLists M (mem_heap mem) self ls n of None \<Rightarrow> None
           | Some (h, self') \<Rightarrow> Some (mem\<lparr>mem_image := W, mem_heap := h\<rparr>, self')))"

definition attach_plain :: "allocator \<Rightarrow> memory \<Rightarrow> u64 \<Rightarrow> u64 list \<Rightarrow> u32 \<Rightarrow> (memory \<times> u64) option" where
  "attach_plain M mem self ls n =
     (case attachLists M (mem_heap mem) self ls n of None \<Rightarrow> None
      | Some (h, self') \<Rightarrow> Some (mem\<lparr>mem_heap := h\<rparr>, self'))"

definition buffer_list ::
    "(memory \<Rightarrow> u64 \<Rightarrow> u64 list \<Rightarrow> u32 \<Rightarrow> (memory \<times> u64) option) \<Rightarrow> memory \<Rightarrow> u64 \<Rightarrow> buffer \<Rightarrow> u64 \<Rightarrow> (memory \<times> u64 \<times> buffer) option" where
  "buffer_list attach mem self b l =
     (if l = 0 then Some (mem, self, b)
      else if buf_count b = ATTACH_BUFSIZ then
        (case attach mem self (buf_lists b) (buf_count b) of None \<Rightarrow> None
         | Some (mem', self') \<Rightarrow> Some (mem', self', push (b\<lparr>buf_count := 0\<rparr>) l))
      else Some (mem, self, push b l))"

fun attach_loop ::
    "allocator \<Rightarrow> (u64 \<Rightarrow> u64) \<Rightarrow> category_env \<Rightarrow> bool \<Rightarrow> locstamped_category_t list \<Rightarrow>
     memory \<Rightarrow> u64 \<times> buffer \<Rightarrow> u64 \<times> buffer \<Rightarrow> u64 \<times> buffer \<Rightarrow> (memory \<times> (u64 \<times> buffer) \<times> (u64 \<times> buffer) \<times> (u64 \<times> buffer)) option" where
  "attach_loop M registerName E isMeta [] mem ms ps qs = Some (mem, ms, ps, qs)"
| "attach_loop M registerName E isMeta (entry # cats) mem ms ps qs =
     (let cat = category_at E (lc_cat entry) in
      case buffer_list (attach_methods M registerName) mem (fst ms) (snd ms) (methodsForMeta cat isMeta) of None \<Rightarrow> None
      | Some (mem1, ms1) \<Rightarrow>
      (case buffer_list (attach_plain M) mem1 (fst ps) (snd ps) (propertiesForMeta E cat isMeta (lc_hi entry)) of None \<Rightarrow> None
      | Some (mem2, ps1) \<Rightarrow>
      (case buffer_list (attach_plain M) mem2 (fst qs) (snd qs) (protocolsForMeta cat isMeta) of None \<Rightarrow> None
      | Some (mem3, qs1) \<Rightarrow> attach_loop M registerName E isMeta cats mem3 ms1 ps1 qs1)))"

text \<open>The buffers are not initialised; \<open>garbage\<close> of the allocator stands for what the stack holds.\<close>

definition new_buffer :: "allocator \<Rightarrow> buffer" where
  "new_buffer M = \<lparr>buf_lists = map (garbage M) [0..<unat ATTACH_BUFSIZ], buf_count = 0\<rparr>"

definition attachCategories ::
    "allocator \<Rightarrow> (u64 \<Rightarrow> u64) \<Rightarrow> category_env \<Rightarrow> memory \<Rightarrow> class_rw_t \<Rightarrow> locstamped_category_t list \<Rightarrow> u32 \<Rightarrow>
     (memory \<times> class_rw_t) option" where
  "attachCategories M registerName E mem c cats_list fl =
     (let isMeta = (fl AND ATTACH_METACLASS \<noteq> 0) in
      case extAllocIfNeeded M (mem_heap mem) c of None \<Rightarrow> None
      | Some (h0, rwe) \<Rightarrow>
      (case attach_loop M registerName E isMeta cats_list (mem\<lparr>mem_heap := h0\<rparr>)
          (ext_methods rwe, new_buffer M) (ext_properties rwe, new_buffer M) (ext_protocols rwe, new_buffer M) of None \<Rightarrow> None
      | Some (mem1, (ms, mb), (ps, pb), (qs, qb)) \<Rightarrow>
      (case (if buf_count mb > 0 then attach_methods M registerName mem1 ms (pushed mb) (buf_count mb) else Some (mem1, ms)) of None \<Rightarrow> None
      | Some (mem2, ms') \<Rightarrow>
      (case attach_plain M mem2 ps (pushed pb) (buf_count pb) of None \<Rightarrow> None
      | Some (mem3, ps') \<Rightarrow>
      (case attach_plain M mem3 qs (pushed qb) (buf_count qb) of None \<Rightarrow> None
      | Some (mem4, qs') \<Rightarrow>
          Some (mem4, c\<lparr>ro_or_ext := Ext (rwe\<lparr>ext_methods := ms', ext_properties := ps', ext_protocols := qs'\<rparr>)\<rparr>))))))"

subsection \<open>Looking up a method\<close>

partial_function (option) search_lists ::
    "image \<Rightarrow> u64 \<Rightarrow> array_heap \<Rightarrow> u64 \<Rightarrow> list_cursor \<Rightarrow> list_cursor \<Rightarrow> u64 option" where
  "search_lists W sel h self cur fin =
     (if cur = fin then Some 0
      else case load_cursor h self cur of None \<Rightarrow> None
        | Some l \<Rightarrow>
            (case search_method_list_inline W l sel of None \<Rightarrow> None
             | Some m \<Rightarrow> if m \<noteq> 0 then Some m else search_lists W sel h self (next_cursor cur) fin))"

definition getMethodNoSuper_nolock :: "memory \<Rightarrow> class_rw_t \<Rightarrow> u64 \<Rightarrow> u64 option" where
  "getMethodNoSuper_nolock mem c sel =
     (let methods = class_methods c in
      case endLists (mem_heap mem) methods of None \<Rightarrow> None
      | Some fin \<Rightarrow> search_lists (mem_image mem) sel (mem_heap mem) methods (beginLists methods) fin)"

text \<open>The walk up the superclasses; \<open>cls\<close> is 0 behind the root class.\<close>

partial_function (option) getMethod_nolock ::
    "memory \<Rightarrow> (u64 \<Rightarrow> class_rw_t) \<Rightarrow> (u64 \<Rightarrow> u64) \<Rightarrow> u64 \<Rightarrow> u64 \<Rightarrow> u64 option" where
  "getMethod_nolock mem data getSuperclass sel cls =
     (if cls = 0 then Some 0
      else case getMethodNoSuper_nolock mem (data cls) sel of None \<Rightarrow> None
        | Some m \<Rightarrow> if m = 0 then getMethod_nolock mem data getSuperclass sel (getSuperclass cls) else Some m)"

subsection \<open>Categories that wait for their class\<close>

text \<open>
  \<open>category_list\<close>: a single category in place, or an array with its count (31 bits) and its capacity.
  The low bit of the second word distinguishes the two.
\<close>

datatype category_list =
  In_place locstamped_category_t
| In_array "locstamped_category_t list" u32 u32

definition category_count :: "category_list \<Rightarrow> u32" where
  "category_count cl = (case cl of In_array _ n _ \<Rightarrow> n | In_place lc \<Rightarrow> if lc_cat lc \<noteq> 0 then 1 else 0)"

definition arrayByteSize :: "u32 \<Rightarrow> u32" where
  "arrayByteSize len = 16 * len"

definition category_array :: "category_list \<Rightarrow> locstamped_category_t list" where
  "category_array cl = (case cl of In_array cats _ _ \<Rightarrow> cats | In_place lc \<Rightarrow> [lc])"

text \<open>The position of the last set bit, from 1.\<close>

definition fls :: "u32 \<Rightarrow> nat" where
  "fls x = 32 - CountLeadingZeros_32 x"

definition grown_size :: "u32 \<Rightarrow> u32" where
  "grown_size len = len + (if len < 8 then 2 else push_bit (fls len - 2) 1)"

text \<open>\<open>reallocf\<close> keeps the old entries; the new ones are not initialised (\<open>blank\<close>).\<close>

definition reallocf :: "locstamped_category_t \<Rightarrow> locstamped_category_t list \<Rightarrow> nat \<Rightarrow> locstamped_category_t list" where
  "reallocf blank cats n = take n (cats @ replicate (n - length cats) blank)"

definition category_append :: "locstamped_category_t \<Rightarrow> category_list \<Rightarrow> locstamped_category_t \<Rightarrow> category_list" where
  "category_append blank cl lc =
     (case cl of
        In_array cats n len \<Rightarrow>
          let len' = (if n = len then grown_size len else len);
              cats' = (if n = len then reallocf blank cats (unat (arrayByteSize len') div 16) else cats) in
          In_array (cats'[unat n := lc]) ((n + 1) AND 0x7fffffff) len'
      | In_place old \<Rightarrow>
          if lc_cat old = 0 then In_place lc else In_array [old, lc] 2 2)"

text \<open>The loop over the entries: the first one with the category is overwritten by those behind it.\<close>

fun erase_from :: "locstamped_category_t list \<Rightarrow> u64 \<Rightarrow> nat \<Rightarrow> nat \<Rightarrow> locstamped_category_t list" where
  "erase_from cats cat n 0 = cats"
| "erase_from cats cat n (Suc left) =
     (let i = n - Suc left in
      if lc_cat (cats ! i) = cat
      then take i cats @ take (n - i - 1) (drop (Suc i) cats) @ drop (n - 1) cats
      else erase_from cats cat n left)"

definition category_erase :: "category_list \<Rightarrow> u64 \<Rightarrow> category_list" where
  "category_erase cl cat =
     (case cl of
        In_array cats n len \<Rightarrow> In_array (erase_from cats cat (unat n) (unat n)) n len
      | In_place lc \<Rightarrow> if lc_cat lc = cat then In_place \<lparr>lc_cat = 0, lc_hi = 0\<rparr> else cl)"

text \<open>\<open>UnattachedCategories\<close>: a \<open>DenseMap\<close> from classes to category lists, here its abstract value.\<close>

type_synonym unattached = "u64 \<Rightarrow> category_list option"

definition addForClass :: "locstamped_category_t \<Rightarrow> unattached \<Rightarrow> locstamped_category_t \<Rightarrow> u64 \<Rightarrow> unattached" where
  "addForClass blank uc lc cls =
     (case uc cls of None \<Rightarrow> uc(cls \<mapsto> In_place lc) | Some cl \<Rightarrow> uc(cls \<mapsto> category_append blank cl lc))"

definition eraseCategoryForClass :: "unattached \<Rightarrow> u64 \<Rightarrow> u64 \<Rightarrow> unattached" where
  "eraseCategoryForClass uc cat cls =
     (case uc cls of None \<Rightarrow> uc
      | Some cl \<Rightarrow>
          let cl' = category_erase cl cat in
          if category_count cl' = 0 then uc(cls := None) else uc(cls \<mapsto> cl'))"

definition eraseClass :: "unattached \<Rightarrow> u64 \<Rightarrow> unattached" where
  "eraseClass uc cls = uc(cls := None)"

text \<open>Attaching to a class and its metaclass.\<close>

definition attachToClass ::
    "allocator \<Rightarrow> (u64 \<Rightarrow> u64) \<Rightarrow> category_env \<Rightarrow> unattached \<Rightarrow> memory \<Rightarrow> (u64 \<Rightarrow> class_rw_t) \<Rightarrow> (u64 \<Rightarrow> u64) \<Rightarrow>
     u64 \<Rightarrow> u64 \<Rightarrow> u32 \<Rightarrow> (unattached \<times> memory \<times> (u64 \<Rightarrow> class_rw_t)) option" where
  "attachToClass M registerName E uc mem data isa cls previously fl =
     (case uc previously of None \<Rightarrow> Some (uc, mem, data)
      | Some cl \<Rightarrow>
          let cats = take (unat (category_count cl)) (category_array cl);
              attach = (\<lambda>mem data k f.
                map_option (\<lambda>(mem', c'). (mem', data(k := c'))) (attachCategories M registerName E mem (data k) cats f)) in
          map_option (\<lambda>(mem', data'). (uc(previously := None), mem', data'))
            (if fl AND ATTACH_CLASS_AND_METACLASS \<noteq> 0 then
               let otherFlags = fl AND NOT ATTACH_CLASS_AND_METACLASS in
               (case attach mem data cls (otherFlags OR ATTACH_CLASS) of None \<Rightarrow> None
                | Some (mem1, data1) \<Rightarrow> attach mem1 data1 (isa cls) (otherFlags OR ATTACH_METACLASS))
             else attach mem data cls fl))"

end
