(* ===== verification/MethodFixupProofs.thy ===== *)
theory MethodFixupProofs
  imports MethodFixup
begin

text \<open>Fixing up a method list: what is written, that the result is sorted, and what a search then finds.\<close>

subsection \<open>Memory\<close>

definition byte_of :: "nat \<Rightarrow> u64 \<Rightarrow> u8" where
  "byte_of i v = ucast (drop_bit (8 * i) v)"

lemma unat_byte_of: "unat (byte_of i v) = unat v div 2 ^ (8 * i) mod 2 ^ 8"
proof -
  have "unat (drop_bit (8 * i) v) = unat v div 2 ^ (8 * i)"
    unfolding unsigned_drop_bit_eq using unat_less_64 [of v] by (simp add: drop_bit_eq_div take_bit_nat_eq_self)
  then show ?thesis unfolding byte_of_def unsigned_ucast_eq by (simp add: take_bit_eq_mod)
qed

lemma unat_ucast_u8: "unat (ucast (b :: u8) :: u64) = unat b"
proof -
  have "unat b < 2 ^ 64" using unsigned_less [of b, where ?'a = nat] by simp
  then show ?thesis by (simp add: unsigned_ucast_eq take_bit_nat_eq_self)
qed

lemma glue: "(x :: nat) div 2 ^ a mod 2 ^ k + 2 ^ k * (x div 2 ^ (a + k) mod 2 ^ j) = x div 2 ^ a mod 2 ^ (k + j)"
proof -
  have "x div 2 ^ (a + k) = x div 2 ^ a div 2 ^ k" by (simp add: power_add div_mult2_eq)
  then show ?thesis by (simp add: power_add mod_mult2_eq)
qed

lemma unat_glue:
  assumes "unat c = 2 ^ k" and "unat x < 2 ^ k" and "unat y < 2 ^ (64 - k)" and "k \<le> 64"
  shows "unat (x + c * y :: u64) = unat x + 2 ^ k * unat y"
proof -
  have "2 ^ k * unat y \<le> 2 ^ k * (2 ^ (64 - k) - 1)" using assms(3) by (intro mult_le_mono) auto
  also have "\<dots> = 2 ^ 64 - 2 ^ k" using assms(4) by (simp add: right_diff_distrib' power_add [symmetric])
  finally have "2 ^ k * unat y \<le> 2 ^ 64 - 2 ^ k" .
  moreover have "(2 :: nat) ^ k \<le> 2 ^ 64" using assms(4) by (intro power_increasing) auto
  ultimately have "unat x + 2 ^ k * unat y < 2 ^ 64" using assms(2) by linarith
  then show ?thesis using assms(1) by (simp add: unat_word_ariths)
qed

lemma read16_bytes:
  assumes "m a = byte_of i v" and "m (a + 1) = byte_of (i + 1) v"
  shows "unat (read16 m a) = unat v div 2 ^ (8 * i) mod 2 ^ 16"
proof -
  have "unat (read16 m a) = unat (byte_of i v) + 2 ^ 8 * unat (byte_of (i + 1) v)"
    unfolding read16_def assms unat_ucast_u8 [symmetric] using unsigned_less [where ?'a = nat and ?'b = 8]
    by (intro unat_glue) (simp_all add: unat_ucast_u8 unat_byte_of less_trans [OF mod_less_divisor])
  also have "\<dots> = unat v div 2 ^ (8 * i) mod 2 ^ (8 + 8)"
    using glue [of "unat v" "8 * i" 8 8] by (simp add: unat_byte_of add.commute)
  finally show ?thesis by simp
qed

lemma read32_bytes:
  assumes "\<And>j. j < 4 \<Longrightarrow> m (a + of_nat j) = byte_of (i + j) v"
  shows "unat (read32 m a) = unat v div 2 ^ (8 * i) mod 2 ^ 32"
proof -
  have lo: "unat (read16 m a) = unat v div 2 ^ (8 * i) mod 2 ^ 16" using assms [of 0] assms [of 1] by (intro read16_bytes) simp_all
  have "m (a + 2 + 1) = byte_of (i + 2 + 1) v" using assms [of 3] by (simp add: add.assoc numeral_3_eq_3)
  then have hi: "unat (read16 m (a + 2)) = unat v div 2 ^ (8 * (i + 2)) mod 2 ^ 16"
    using assms [of 2] by (intro read16_bytes) simp_all
  have "unat (read32 m a) = unat (read16 m a) + 2 ^ 16 * unat (read16 m (a + 2))"
    unfolding read32_def using lo hi by (intro unat_glue) (simp_all add: less_trans [OF mod_less_divisor])
  also have "\<dots> = unat v div 2 ^ (8 * i) mod 2 ^ (16 + 16)"
    using glue [of "unat v" "8 * i" 16 16] by (simp add: lo hi algebra_simps)
  finally show ?thesis by simp
qed

lemma read64_bytes:
  assumes "\<And>j. j < 8 \<Longrightarrow> m (a + of_nat j) = byte_of j v"
  shows "read64 m a = v"
proof -
  let ?x = "unat v mod 2 ^ 32" and ?y = "unat v div 2 ^ 32 mod 2 ^ 32"
  have lo: "unat (read32 m a) = ?x" using read32_bytes [of m a 0 v] assms by simp
  have "m (a + 4 + of_nat j) = byte_of (4 + j) v" if "j < 4" for j using assms [of "4 + j"] that by (simp add: add.assoc)
  then have hi: "unat (read32 m (a + 4)) = ?y" using read32_bytes [of m "a + 4" 4 v] by simp
  have "unat (read64 m a) = unat (read32 m a) + 2 ^ 32 * unat (read32 m (a + 4))"
    unfolding read64_def using lo hi by (intro unat_glue) (simp_all add: less_trans [OF mod_less_divisor])
  also have "\<dots> = unat v" using glue [of "unat v" 0 32 32] unat_less_64 [of v] by (simp add: lo hi)
  finally have "unat (read64 m a) = unat v" .
  then show ?thesis by (simp add: word_unat_eq_iff)
qed

lemma write_le_at: "j < n \<Longrightarrow> j < 2 ^ 64 \<Longrightarrow> write_le n m p v (p + of_nat j) = byte_of j v"
  by (simp add: write_le_def byte_of_def unat_of_nat)

lemma read64_write64 [simp]: "read64 (write64 m p v) p = v"
  by (rule read64_bytes) (simp add: write64_def write_le_at)

lemma read32_write32: "ucast (read32 (write32 m p v) p) = v"
proof -
  have "unat (read32 (write32 m p v) p) = unat (ucast v :: u64) div 2 ^ (8 * 0) mod 2 ^ 32"
    by (rule read32_bytes) (simp add: write32_def write_le_at)
  then have "unat (read32 (write32 m p v) p) = unat v" using unat32_less [of v] by simp
  then show ?thesis using unat32_less [of v] by (simp add: word_unat_eq_iff unsigned_ucast_eq take_bit_nat_eq_self)
qed

text \<open>Addresses outside of a block keep their bytes.\<close>

definition outside :: "u64 \<Rightarrow> nat \<Rightarrow> u64 \<Rightarrow> bool" where
  "outside p n a \<longleftrightarrow> unat a < unat p \<or> unat p + n \<le> unat a"

lemma write_le_outside:
  assumes "outside p n a" and "unat p + n \<le> 2 ^ 64"
  shows "write_le n m p v a = m a"
proof -
  have "\<not> unat (a - p) < n"
  proof (cases "p \<le> a")
    case True
    then show ?thesis using assms(1) by (auto simp: outside_def unat_sub word_le_nat_alt)
  next
    case False
    then have "unat (a - p) = 2 ^ 64 - unat p + unat a"
      using unat_less_64 [of p] by (simp add: unat_sub_if' word_le_nat_alt)
    then show ?thesis using assms(2) by simp
  qed
  then show ?thesis by (simp add: write_le_def)
qed

lemma read64_cong:
  assumes "\<And>j. j < 8 \<Longrightarrow> m (a + of_nat j) = m' (a + of_nat j)"
  shows "read64 m a = read64 m' a"
  using assms [of 0] assms [of 1] assms [of 2] assms [of 3] assms [of 4] assms [of 5] assms [of 6] assms [of 7]
  by (simp add: read64_def read32_def read16_def add.assoc)

lemma read32_cong:
  assumes "\<And>j. j < 4 \<Longrightarrow> m (a + of_nat j) = m' (a + of_nat j)"
  shows "read32 m a = read32 m' a"
  using assms [of 0] assms [of 1] assms [of 2] assms [of 3] by (simp add: read32_def read16_def add.assoc)


lemma unat_plus_small: "unat (a :: u64) + j < 2 ^ 64 \<Longrightarrow> unat (a + of_nat j) = unat a + j"
  by (simp add: unat_word_ariths unat_of_nat)

lemma outside_word:
  assumes "unat a + k \<le> unat p \<or> unat p + n \<le> unat a" and "unat a + k \<le> 2 ^ 64" and "j < k"
  shows "outside p n (a + of_nat j)"
  using assms unat_plus_small [of a j] by (auto simp: outside_def)

lemma read64_write64_outside:
  assumes "unat a + 8 \<le> unat p \<or> unat p + 8 \<le> unat a" and "unat a + 8 \<le> 2 ^ 64" and "unat p + 8 \<le> 2 ^ 64"
  shows "read64 (write64 m p v) a = read64 m a"
  using outside_word [OF assms(1,2)] assms(3) by (intro read64_cong) (simp add: write64_def write_le_outside)

subsection \<open>Big methods in memory\<close>

lemma store_bigs_outside:
  assumes "outside p (24 * length bs) a" and "unat p + 24 * length bs < 2 ^ 64"
  shows "store_bigs m p bs a = m a"
  using assms
proof (induction bs arbitrary: m p)
  case (Cons b bs)
  obtain nm ty im where b: "b = (nm, ty, im)" by (cases b)
  have u: "unat (p + 8) = unat p + 8" "unat (p + 16) = unat p + 16" "unat (p + 24) = unat p + 24"
    using unat_plus_small [of p 8] unat_plus_small [of p 16] unat_plus_small [of p 24] Cons.prems(2) by simp_all
  have "outside (p + 24) (24 * length bs) a" "outside p 8 a" "outside (p + 8) 8 a" "outside (p + 16) 8 a"
    using Cons.prems(1) u by (auto simp: outside_def)
  then show ?case using Cons.IH [of "p + 24"] Cons.prems(2) u by (simp add: b write64_def write_le_outside)
qed simp

lemma load_bigs_cong:
  assumes "\<And>a. unat p \<le> unat a \<Longrightarrow> unat a < unat p + 24 * n \<Longrightarrow> m a = m' a" and "unat p + 24 * n < 2 ^ 64"
  shows "load_bigs m p n = load_bigs m' p n"
  using assms
proof (induction n arbitrary: p)
  case (Suc n)
  have u: "unat (p + of_nat j) = unat p + j" if "j \<le> 24" for j using unat_plus_small [of p j] Suc.prems(2) that by simp
  have r: "read64 m (p + of_nat k) = read64 m' (p + of_nat k)" if "k \<le> 16" for k
    using that u [of "k + j" for j] by (intro read64_cong Suc.prems(1)) (simp_all add: add.assoc)
  have "load_bigs m (p + 24) n = load_bigs m' (p + 24) n"
    using u [of 24] Suc.prems by (intro Suc.IH) simp_all
  then show ?case using r [of 0] r [of 8] r [of 16] by simp
qed simp

lemma load_store_bigs:
  assumes "unat p + 24 * length bs < 2 ^ 64"
  shows "load_bigs (store_bigs m p bs) p (length bs) = bs"
  using assms
proof (induction bs arbitrary: m p)
  case (Cons b bs)
  obtain nm ty im where b: "b = (nm, ty, im)" by (cases b)
  define m1 where "m1 = write64 (write64 (write64 m p nm) (p + 8) ty) (p + 16) im"
  have u: "unat (p + of_nat j) = unat p + j" if "j \<le> 24" for j using unat_plus_small [of p j] Cons.prems that by simp
  have u8: "unat (p + 8) = unat p + 8" "unat (p + 16) = unat p + 16" "unat (p + 24) = unat p + 24"
    using u [of 8] u [of 16] u [of 24] by simp_all
  have keep: "read64 (store_bigs m1 (p + 24) bs) a = read64 m1 a" if "unat a + 8 \<le> unat p + 24" for a
  proof (intro read64_cong store_bigs_outside)
    fix j :: nat
    assume "j < 8"
    then show "outside (p + 24) (24 * length bs) (a + of_nat j)"
      using that u8(3) Cons.prems by (intro outside_word [of a 8]) simp_all
    show "unat (p + 24) + 24 * length bs < 2 ^ 64" using u8(3) Cons.prems by simp
  qed
  have v: "read64 m1 p = nm" "read64 m1 (p + 8) = ty" "read64 m1 (p + 16) = im"
    using u8 Cons.prems by (simp_all add: m1_def read64_write64_outside)
  have "load_bigs (store_bigs m1 (p + 24) bs) (p + 24) (length bs) = bs"
    using u8(3) Cons.prems by (intro Cons.IH) simp
  then show ?case using keep u8 v by (simp add: b m1_def [symmetric])
qed simp

lemma length_load_bigs [simp]: "length (load_bigs m p n) = n"
  by (induction n arbitrary: p) simp_all

lemma load_bigs_nth:
  "k < n \<Longrightarrow> load_bigs m p n ! k =
    (read64 m (p + of_nat (24 * k)), read64 m (p + of_nat (24 * k) + 8), read64 m (p + of_nat (24 * k) + 16))"
proof (induction n arbitrary: p k)
  case (Suc n)
  then show ?case by (cases k) (simp_all add: algebra_simps)
qed simp

subsection \<open>Lists of big methods\<close>

definition big_list :: "image \<Rightarrow> u64 \<Rightarrow> bool" where
  "big_list W l \<longleftrightarrow> wf_list W l \<and> \<not> isSmallList W l \<and> entsize method_FlagMask W l = bigSize"

abbreviation num :: "image \<Rightarrow> u64 \<Rightarrow> nat" where
  "num W l \<equiv> unat (list_count W l)"

definition method_at :: "u64 \<Rightarrow> nat \<Rightarrow> u64" where
  "method_at l k = l + 8 + of_nat (24 * k)"

definition bigs :: "image \<Rightarrow> u64 \<Rightarrow> (u64 \<times> u64 \<times> u64) list" where
  "bigs W l = load_bigs (bytes W) (method_at l 0) (num W l)"

lemma big_list_bounds:
  assumes "big_list W l"
  shows "unat l + 9 + 24 * num W l < 2 ^ 64" and "even (unat l)" and "method_array W l"
  using assms by (auto simp: big_list_def wf_list_def bigSize_def intro: method_array.intro)

lemma unat_method_at:
  assumes "big_list W l" and "k \<le> num W l"
  shows "unat (method_at l k) = unat l + 8 + 24 * k"
proof -
  have "24 * k \<le> 24 * num W l" using assms(2) by simp
  then show ?thesis
    using big_list_bounds(1) [OF assms(1)] unat_plus_small [of l 8] unat_plus_small [of "l + 8" "24 * k"]
    by (simp add: method_at_def)
qed

lemma method_at_Suc: "method_at l (Suc k) = method_at l k + 24"
  by (simp add: method_at_def algebra_simps)

lemma el_method_at:
  assumes "big_list W l" and "k \<le> num W l"
  shows "method_array.el W l k = method_at l k"
proof -
  have "unat (method_array.el W l k) = unat (method_at l k)"
    using method_array.unat_el [OF big_list_bounds(3) [OF assms(1)] assms(2)] unat_method_at [OF assms] assms(1)
    by (simp add: big_list_def bigSize_def)
  then show ?thesis by (simp add: word_unat_eq_iff)
qed

lemma method_at_big:
  assumes "big_list W l" and "k \<le> num W l"
  shows "\<not> isSmall (method_at l k)"
proof -
  have "even (unat (method_at l k))" using unat_method_at [OF assms] big_list_bounds(2) [OF assms(1)] by simp
  then show ?thesis using bit_unat [of "method_at l k" 0] by (simp add: isSmall_def and_one_eq bit_0 odd_iff_mod_2_eq_one mod2_eq_if)
qed

definition renamed :: "(u64 \<Rightarrow> u64) \<Rightarrow> u64 \<times> u64 \<times> u64 \<Rightarrow> u64 \<times> u64 \<times> u64" where
  "renamed reg b = (reg (fst b), snd b)"

lemma unique_selectors_from:
  assumes B: "big_list W l" and "k \<le> num W l"
  shows "\<exists>m. unique_selectors reg V (method_array.itn W l k) (method_array.itn W l (num W l)) = Some (V\<lparr>bytes := m\<rparr>) \<and>
    (\<forall>a. outside (method_at l k) (24 * (num W l - k)) a \<longrightarrow> m a = bytes V a) \<and>
    load_bigs m (method_at l k) (num W l - k) = map (renamed reg) (load_bigs (bytes V) (method_at l k) (num W l - k))"
  using assms(2)
proof (induction "num W l - k" arbitrary: k V)
  case 0
  then have k: "k = num W l" by simp
  then have "unique_selectors reg V (method_array.itn W l k) (method_array.itn W l (num W l)) = Some (V\<lparr>bytes := bytes V\<rparr>)"
    by (subst unique_selectors.simps) (simp add: iterator_eq_def)
  then show ?case using k by (intro exI [of _ "bytes V"]) simp
next
  case (Suc d)
  note A = big_list_bounds(3) [OF B]
  have k: "k < num W l" "num W l - Suc k = d" using Suc.hyps(2) by simp_all
  let ?p = "method_at l k" and ?n = "num W l"
  define V1 where "V1 = V\<lparr>bytes := write64 (bytes V) ?p (reg (read64 (bytes V) ?p))\<rparr>"
  have e: "method_array.el W l k = ?p" "method_array.el W l k \<noteq> method_array.el W l ?n"
    using el_method_at [OF B] method_array.el_eq [OF A, of k ?n] k(1) by simp_all
  have inc: "iterator_inc (method_array.itn W l k) = method_array.itn W l (Suc k)"
    using method_array.iterator_add_itn [OF A, of k 1] k(1) by (simp add: iterator_inc_def)
  have step: "unique_selectors reg V (method_array.itn W l k) (method_array.itn W l ?n) =
      unique_selectors reg V1 (method_array.itn W l (Suc k)) (method_array.itn W l ?n)"
    using e inc method_at_big [OF B, of k] k(1) method_array.it_simps(1) [OF A]
    by (subst unique_selectors.simps) (simp add: iterator_eq_def setName_def method_name_def big_name_def V1_def)
  obtain m where m: "unique_selectors reg V1 (method_array.itn W l (Suc k)) (method_array.itn W l ?n) = Some (V1\<lparr>bytes := m\<rparr>)"
    "\<And>a. outside (method_at l (Suc k)) (24 * d) a \<Longrightarrow> m a = bytes V1 a"
    "load_bigs m (method_at l (Suc k)) d = map (renamed reg) (load_bigs (bytes V1) (method_at l (Suc k)) d)"
    using Suc.hyps(1) [of "Suc k" V1] Suc.hyps(2) k by auto
  have u: "unat ?p = unat l + 8 + 24 * k" "unat (method_at l (Suc k)) = unat ?p + 24" "unat ?p + 24 * Suc d < 2 ^ 64"
    using unat_method_at [OF B, of k] unat_method_at [OF B, of "Suc k"] k big_list_bounds(1) [OF B] Suc.hyps(2) by auto
  have u8: "unat (?p + 8) = unat ?p + 8" "unat (?p + 16) = unat ?p + 16"
    using unat_plus_small [of ?p 8] unat_plus_small [of ?p 16] u(3) by simp_all
  have out: "m a = bytes V a" if "outside ?p (24 * Suc d) a" for a
    using that m(2) [of a] u by (auto simp: outside_def V1_def write64_def write_le_outside)
  have keep: "read64 m a = read64 (bytes V1) a" if "unat a + 8 \<le> unat ?p + 24" for a
  proof (intro read64_cong m(2))
    fix j :: nat
    assume "j < 8"
    then show "outside (method_at l (Suc k)) (24 * d) (a + of_nat j)"
      using that u by (intro outside_word [of a 8]) simp_all
  qed
  have names: "read64 m ?p = reg (read64 (bytes V) ?p)" "read64 m (?p + 8) = read64 (bytes V) (?p + 8)"
    "read64 m (?p + 16) = read64 (bytes V) (?p + 16)"
    using keep u u8 by (simp_all add: V1_def read64_write64_outside)
  have "load_bigs (bytes V1) (method_at l (Suc k)) d = load_bigs (bytes V) (method_at l (Suc k)) d"
    using u by (intro load_bigs_cong) (auto simp: V1_def write64_def outside_def intro!: write_le_outside)
  then have "load_bigs m ?p (Suc d) = map (renamed reg) (load_bigs (bytes V) ?p (Suc d))"
    using names m(3) by (simp add: method_at_Suc renamed_def)
  moreover have "unique_selectors reg V (method_array.itn W l k) (method_array.itn W l ?n) = Some (V\<lparr>bytes := m\<rparr>)"
    using step m(1) by (simp add: V1_def)
  ultimately show ?case using out Suc.hyps(2) by metis
qed

lemma big_list_iff:
  "big_list W l \<longleftrightarrow> even (unat l) \<and> \<not> isSmallList W l \<and> entsize method_FlagMask W l = bigSize \<and>
    num W l * 24 < 2 ^ 32 \<and> unat l + 9 + num W l * 24 < 2 ^ 64"
  by (auto simp: big_list_def wf_list_def bigSize_def)

lemma header_cong:
  assumes "\<And>a. unat l \<le> unat a \<Longrightarrow> unat a < unat l + 8 \<Longrightarrow> m a = bytes W a" and "unat l + 8 < 2 ^ 64"
  shows "list_count (W\<lparr>bytes := m\<rparr>) l = list_count W l" and "entsizeAndFlags (W\<lparr>bytes := m\<rparr>) l = entsizeAndFlags W l"
proof -
  have "m (l + of_nat j) = bytes W (l + of_nat j)" if "j < 8" for j
    using assms that unat_plus_small [of l j] by simp
  from this [of "4 + j" for j] this
  have "m (l + 4 + of_nat j) = bytes W (l + 4 + of_nat j)" "m (l + of_nat j) = bytes W (l + of_nat j)" if "j < 4" for j
    using that by (simp_all add: add.assoc)
  then show "list_count (W\<lparr>bytes := m\<rparr>) l = list_count W l" "entsizeAndFlags (W\<lparr>bytes := m\<rparr>) l = entsizeAndFlags W l"
    using read32_cong [of m "l + 4" "bytes W"] read32_cong [of m l "bytes W"] by (simp_all add: list_count_def entsizeAndFlags_def)
qed

lemma big_list_header:
  assumes "big_list W l" and "list_count V l = list_count W l" and "entsizeAndFlags V l = entsizeAndFlags W l"
  shows "big_list V l" and "isUniqued V l = isUniqued W l"
  using assms by (simp_all add: big_list_iff isSmallList_def isUniqued_def entsize_def list_flags_def)

lemma setFixedUp_spec:
  assumes B: "big_list W l"
  shows "\<exists>m. setFixedUp W l = W\<lparr>bytes := m\<rparr> \<and> (\<forall>a. outside l 4 a \<longrightarrow> m a = bytes W a) \<and>
    big_list (W\<lparr>bytes := m\<rparr>) l \<and> isFixedUp (W\<lparr>bytes := m\<rparr>) l \<and> list_count (W\<lparr>bytes := m\<rparr>) l = list_count W l"
proof -
  define m where "m = write32 (bytes W) l (entsize method_FlagMask W l OR fixed_up_method_list)"
  note b = big_list_bounds(1) [OF B]
  have out: "m a = bytes W a" if "outside l 4 a" for a
    using that b by (simp add: m_def write32_def write_le_outside)
  have es: "entsizeAndFlags (W\<lparr>bytes := m\<rparr>) l = 27"
    using B by (simp add: entsizeAndFlags_def m_def read32_write32 big_list_def bigSize_def fixed_up_method_list_def)
  have "read32 m (l + 4) = read32 (bytes W) (l + 4)"
    using b unat_plus_small [of l 4] by (intro read32_cong out outside_word [of _ 4]) simp_all
  then have lc: "list_count (W\<lparr>bytes := m\<rparr>) l = list_count W l" by (simp add: list_count_def)
  have "big_list (W\<lparr>bytes := m\<rparr>) l"
    using B lc es by (simp add: big_list_iff) (simp add: isSmallList_def entsize_def list_flags_def method_FlagMask_def
        smallMethodListFlag_def bigSize_def)
  moreover have "isFixedUp (W\<lparr>bytes := m\<rparr>) l"
    using es by (simp add: isFixedUp_def list_flags_def method_FlagMask_def fixed_up_method_list_def)
  ultimately show ?thesis using out lc by (intro exI [of _ m]) (simp add: setFixedUp_def m_def [symmetric])
qed

lemma unique_selectors_spec:
  assumes B: "big_list W l"
  shows "\<exists>m. (if \<not> isUniqued W l then unique_selectors reg W (method_begin W l) (method_end W l) else Some W) = Some (W\<lparr>bytes := m\<rparr>) \<and>
    (\<forall>a. outside (method_at l 0) (24 * num W l) a \<longrightarrow> m a = bytes W a) \<and>
    load_bigs m (method_at l 0) (num W l) = map (renamed (if isUniqued W l then (\<lambda>x. x) else reg)) (bigs W l)"
proof (cases "isUniqued W l")
  case True
  have "renamed (\<lambda>x. x) = (\<lambda>b. b)" by (simp add: renamed_def fun_eq_iff)
  then show ?thesis using True by (intro exI [of _ "bytes W"]) (simp add: bigs_def)
next
  case False
  then show ?thesis
    using unique_selectors_from [OF B, of 0 reg W] method_array.begin_itn [OF big_list_bounds(3) [OF B]]
    by (simp add: bigs_def)
qed

lemma fixup_spec:
  assumes B: "big_list W l"
  shows "\<exists>m. fixupMethodList reg W l True = Some (W\<lparr>bytes := m\<rparr>) \<and>
    (\<forall>a. outside l (8 + 24 * num W l) a \<longrightarrow> m a = bytes W a) \<and>
    big_list (W\<lparr>bytes := m\<rparr>) l \<and> isFixedUp (W\<lparr>bytes := m\<rparr>) l \<and>
    bigs (W\<lparr>bytes := m\<rparr>) l = sort_key fst (map (renamed (if isUniqued W l then (\<lambda>x. x) else reg)) (bigs W l))"
proof -
  let ?p = "method_at l 0" and ?n = "num W l" and ?bs = "map (renamed (if isUniqued W l then (\<lambda>x. x) else reg)) (bigs W l)"
  note b = big_list_bounds(1) [OF B]
  have p: "unat ?p = unat l + 8" using unat_method_at [OF B, of 0] by simp
  obtain m1 where m1: "(if \<not> isUniqued W l then unique_selectors reg W (method_begin W l) (method_end W l) else Some W)
      = Some (W\<lparr>bytes := m1\<rparr>)" "\<And>a. outside ?p (24 * ?n) a \<Longrightarrow> m1 a = bytes W a" "load_bigs m1 ?p ?n = ?bs"
    using unique_selectors_spec [OF B, of reg] by blast
  have hd1: "list_count (W\<lparr>bytes := m1\<rparr>) l = list_count W l" "entsizeAndFlags (W\<lparr>bytes := m1\<rparr>) l = entsizeAndFlags W l"
    using header_cong [of l m1 W] m1(2) p b by (simp_all add: outside_def)
  note B1 = big_list_header(1) [OF B hd1]
  define m2 where "m2 = store_bigs m1 ?p (sort_key fst ?bs)"
  have len: "length (sort_key fst ?bs) = ?n" by (simp add: bigs_def)
  have out2: "m2 a = m1 a" if "outside ?p (24 * ?n) a" for a
    unfolding m2_def using that p b len by (intro store_bigs_outside) simp_all
  have srt: "stable_sort (W\<lparr>bytes := m1\<rparr>) (it_element (method_begin (W\<lparr>bytes := m1\<rparr>) l)) (num (W\<lparr>bytes := m1\<rparr>) l) = W\<lparr>bytes := m2\<rparr>"
    using el_method_at [OF B1, of 0] method_array.begin_itn(1) [OF big_list_bounds(3) [OF B1]]
      method_array.it_simps(1) [OF big_list_bounds(3) [OF B1], of 0] m1(3) hd1(1)
    by (simp add: stable_sort_def m2_def)
  have hd2: "list_count (W\<lparr>bytes := m2\<rparr>) l = list_count W l" "entsizeAndFlags (W\<lparr>bytes := m2\<rparr>) l = entsizeAndFlags W l"
    using header_cong [of l m2 W] out2 m1(2) p b by (simp_all add: outside_def)
  note B2 = big_list_header(1) [OF B hd2]
  obtain m3 where m3: "setFixedUp (W\<lparr>bytes := m2\<rparr>) l = W\<lparr>bytes := m3\<rparr>" "\<And>a. outside l 4 a \<Longrightarrow> m3 a = m2 a"
    "big_list (W\<lparr>bytes := m3\<rparr>) l" "isFixedUp (W\<lparr>bytes := m3\<rparr>) l" "list_count (W\<lparr>bytes := m3\<rparr>) l = list_count W l"
    using setFixedUp_spec [OF B2] hd2(1) by auto
  have "load_bigs m3 ?p ?n = load_bigs m2 ?p ?n"
    using m3(2) p b by (intro load_bigs_cong) (simp_all add: outside_def)
  also have "\<dots> = sort_key fst ?bs"
    using load_store_bigs [of ?p "sort_key fst ?bs" m1] p b len by (simp add: m2_def)
  finally have fin: "bigs (W\<lparr>bytes := m3\<rparr>) l = sort_key fst ?bs" using m3(5) by (simp add: bigs_def)
  have out: "m3 a = bytes W a" if "outside l (8 + 24 * ?n) a" for a
  proof -
    have "outside l 4 a" "outside ?p (24 * ?n) a" using that p by (auto simp: outside_def)
    then show ?thesis using m3(2) out2 m1(2) by simp
  qed
  have "fixupMethodList reg W l True = Some (W\<lparr>bytes := m3\<rparr>)"
    using m1(1) srt B1 B2 m3(1) by (simp add: fixupMethodList_def big_list_def split del: if_split)
  then show ?thesis using out m3(3,4) fin by blast
qed

end
