(* ===== verification/MethodFixupSpec.thy ===== *)
theory MethodFixupSpec
  imports MethodFixupProofs
begin

text \<open>What a search finds in a method list that has been fixed up.\<close>

subsection \<open>Methods and their three words\<close>

definition triple :: "image \<Rightarrow> u64 \<Rightarrow> u64 \<times> u64 \<times> u64" where
  "triple W p = (read64 (bytes W) p, read64 (bytes W) (p + 8), read64 (bytes W) (p + 16))"

lemma list_methods_big: "big_list W l \<Longrightarrow> list_methods W l = map (method_at l) [0..<num W l]"
  using method_array.methods_el [OF big_list_bounds(3)] el_method_at by (simp cong: map_cong)

lemma bigs_triple: "big_list W l \<Longrightarrow> bigs W l = map (triple W) (list_methods W l)"
  by (simp add: list_eq_iff_nth_eq bigs_def list_methods_big triple_def load_bigs_nth) (simp add: method_at_def)

lemma getName_big: "big_list W l \<Longrightarrow> list_getName W l = fst \<circ> triple W"
  by (auto simp: big_list_def list_getName_def big_name_def triple_def)

lemma find_filter: "List.find P xs = (case filter P xs of [] \<Rightarrow> None | x # _ \<Rightarrow> Some x)"
  by (induction xs) auto

lemma find_map_option: "List.find P (map f xs) = map_option f (List.find (P \<circ> f) xs)"
  by (induction xs) auto

lemma find_sort_key: "List.find (\<lambda>x. f x = k) (sort_key f xs) = List.find (\<lambda>x. f x = k) xs"
  by (simp add: find_filter sort_key_stable)

text \<open>\<open>SortBySELAddress\<close> never finds a later method before an earlier one.\<close>

lemma sort_SortBySELAddress: "sorted_wrt (\<lambda>x y. \<not> SortBySELAddress y x) (sort_key fst bs)"
  using sorted_sort_key [of fst bs] by (simp add: sorted_map SortBySELAddress_def not_less)

lemma first_method_big:
  assumes B: "big_list W l"
  shows "case List.find (\<lambda>b. fst b = sel) (bigs W l) of None \<Rightarrow> first_method W sel l = 0
    | Some b \<Rightarrow> first_method W sel l \<in> set (list_methods W l) \<and> first_method W sel l \<noteq> 0 \<and> triple W (first_method W sel l) = b"
proof -
  have f: "List.find (\<lambda>b. fst b = sel) (bigs W l) = map_option (triple W) (List.find (\<lambda>m. list_getName W l m = sel) (list_methods W l))"
    using B by (simp add: bigs_triple find_map_option getName_big comp_def)
  show ?thesis
  proof (cases "List.find (\<lambda>m. list_getName W l m = sel) (list_methods W l)")
    case None
    then show ?thesis using f by (simp add: first_method_def)
  next
    case (Some m)
    then have "m \<in> set (list_methods W l)" "list_getName W l m = sel" by (auto simp: find_Some_iff)
    moreover from this have "first_method W sel l \<noteq> 0"
      using method_array.first_method_found [OF big_list_bounds(3) [OF B], of sel] by blast
    ultimately show ?thesis using f Some by (simp add: first_method_def)
  qed
qed

lemma search_big:
  assumes B: "big_list W l" and "isFixedUp W l \<Longrightarrow> sorted (map fst (bigs W l))"
  shows "search_method_list_inline W l sel = Some (first_method W sel l)"
proof -
  note A = big_list_bounds(3) [OF B]
  have "map (list_getName W l) (list_methods W l) = map fst (bigs W l)"
    using B by (simp add: bigs_triple getName_big)
  then show ?thesis
    using method_array.sorted_correct [OF A] method_array.unsorted_correct [OF A] assms(2)
    by (simp add: search_method_list_inline_def)
qed

lemma methods_not_small: "big_list W l \<Longrightarrow> m \<in> set (list_methods W l) \<Longrightarrow> \<not> isSmall m"
  using method_at_big by (auto simp: list_methods_big)

lemma search_big_fields:
  assumes B: "big_list W l" and "isFixedUp W l \<Longrightarrow> sorted (map fst (bigs W l))"
  shows "\<exists>m. search_method_list_inline W l sel = Some m \<and>
    (case List.find (\<lambda>b. fst b = sel) (bigs W l) of None \<Rightarrow> m = 0
     | Some b \<Rightarrow> m \<noteq> 0 \<and> (method_name W m, method_types W m, method_imp W remapped m) = b)"
proof -
  have "(method_name W m, method_types W m, method_imp W remapped m) = triple W m" if "m \<in> set (list_methods W l)" for m
    using methods_not_small [OF B that] by (simp add: method_name_def method_types_def method_imp_def triple_def big_name_def)
  from this [of "first_method W sel l"] show ?thesis
    using first_method_big [OF B, of sel] search_big [OF assms, of sel] by (auto split: option.splits)
qed

subsection \<open>Properties\<close>

text \<open>
  C14: Fixing up a list of big methods succeeds and writes nothing but the list. Afterwards a search for
  a selector returns, and gives the method that came first in the original list among those whose
  name registers as that selector, with its types and its implementation, and nil if there was
  none: uniquing, the stable sort and the binary search together implement the linear search of
  the unsorted list.
\<close>

theorem fixup_then_search:
  assumes "big_list W l"
  shows "\<exists>W'. fixupMethodList registerName W l True = Some W' \<and>
    (\<forall>sel. \<exists>m. search_method_list_inline W' l sel = Some m \<and>
       (case List.find (\<lambda>(name, types, imp). (if isUniqued W l then name else registerName name) = sel) (bigs W l) of
          None \<Rightarrow> m = 0
        | Some (name, types, imp) \<Rightarrow>
            m \<noteq> 0 \<and> method_name W' m = sel \<and> method_types W' m = types \<and> method_imp W' remapped m = imp)) \<and>
    (\<forall>a. outside l (8 + 24 * num W l) a \<longrightarrow> bytes W' a = bytes W a)"
proof -
  let ?r = "if isUniqued W l then (\<lambda>x. x) else registerName"
  obtain m where m: "fixupMethodList registerName W l True = Some (W\<lparr>bytes := m\<rparr>)"
    "\<forall>a. outside l (8 + 24 * num W l) a \<longrightarrow> m a = bytes W a" "big_list (W\<lparr>bytes := m\<rparr>) l"
    "bigs (W\<lparr>bytes := m\<rparr>) l = sort_key fst (map (renamed ?r) (bigs W l))"
    using fixup_spec [OF assms, of registerName] by blast
  have f: "List.find (\<lambda>b. fst b = sel) (bigs (W\<lparr>bytes := m\<rparr>) l) =
      map_option (renamed ?r) (List.find (\<lambda>(name, types, imp). (if isUniqued W l then name else registerName name) = sel) (bigs W l))" for sel
    unfolding m(4) find_sort_key find_map_option by (simp add: comp_def renamed_def split_beta')
  have "\<exists>x. search_method_list_inline (W\<lparr>bytes := m\<rparr>) l sel = Some x \<and>
       (case List.find (\<lambda>(name, types, imp). (if isUniqued W l then name else registerName name) = sel) (bigs W l) of
          None \<Rightarrow> x = 0
        | Some (name, types, imp) \<Rightarrow> x \<noteq> 0 \<and> method_name (W\<lparr>bytes := m\<rparr>) x = sel \<and> method_types (W\<lparr>bytes := m\<rparr>) x = types \<and>
            method_imp (W\<lparr>bytes := m\<rparr>) remapped x = imp)" for sel
  proof -
    have "sorted (map fst (bigs (W\<lparr>bytes := m\<rparr>) l))" unfolding m(4) by simp
    note s = search_big_fields [OF m(3) this, of sel remapped, unfolded f]
    show ?thesis
    proof (cases "List.find (\<lambda>(name, types, imp). (if isUniqued W l then name else registerName name) = sel) (bigs W l)")
      case None
      then show ?thesis using s by (simp add: option.map)
    next
      case (Some b)
      obtain nm ty im where b: "b = (nm, ty, im)" by (cases b)
      have "(if isUniqued W l then nm else registerName nm) = sel"
        using Some by (auto simp: find_Some_iff b)
      then have "renamed ?r b = (sel, ty, im)" by (auto simp: renamed_def b)
      then show ?thesis using s Some by (auto simp: b option.map)
    qed
  qed
  then show ?thesis using m(1,2) by auto
qed

text \<open>A list with the names 7 and 5 and the implementations 9 and 11, not yet fixed up.\<close>

definition unsorted_image :: image where
  "unsorted_image =
     \<lparr>bytes = (\<lambda>a. if a = 0x1000 then 24 else if a = 0x1004 then 2 else if a = 0x1008 then 7 else if a = 0x1018 then 9
        else if a = 0x1020 then 5 else if a = 0x1030 then 11 else 0),
      inSharedCache = (\<lambda>_. False), direct_selectors = False\<rparr>"

lemma unsorted_header:
  "list_count unsorted_image 0x1000 = 2" "entsizeAndFlags unsorted_image 0x1000 = 24"
  by (simp_all add: list_count_def entsizeAndFlags_def unsorted_image_def read32_def read16_def)

lemma unsorted_big: "big_list unsorted_image 0x1000" "\<not> isUniqued unsorted_image 0x1000"
  by (simp_all add: big_list_iff isSmallList_def isUniqued_def entsize_def list_flags_def unsorted_header method_FlagMask_def
      smallMethodListFlag_def bigSize_def uniqued_method_list_def)

lemma unsorted_bigs: "bigs unsorted_image 0x1000 = [(7, 0, 9), (5, 0, 11)]"
proof -
  have "bigs unsorted_image 0x1000 = load_bigs (bytes unsorted_image) 0x1008 (Suc (Suc 0))"
    by (simp add: bigs_def unsorted_header method_at_def del: load_bigs.simps) (simp only: numeral_2_eq_2)
  then show ?thesis by simp (simp add: unsorted_image_def read64_def read32_def read16_def)
qed

lemma fixup_then_search_witness:
  "\<exists>W' m. fixupMethodList (\<lambda>name. name + 1) unsorted_image 0x1000 True = Some W' \<and>
     search_method_list_inline W' 0x1000 6 = Some m \<and> method_imp W' (\<lambda>_. 0) m = 11"
proof -
  obtain W' where W': "fixupMethodList (\<lambda>name. name + 1) unsorted_image 0x1000 True = Some W'"
    "\<forall>sel. \<exists>m. search_method_list_inline W' 0x1000 sel = Some m \<and>
       (case List.find (\<lambda>(name, types, imp). (if isUniqued unsorted_image 0x1000 then name else name + 1) = sel)
          (bigs unsorted_image 0x1000) of None \<Rightarrow> m = 0
        | Some (name, types, imp) \<Rightarrow> m \<noteq> 0 \<and> method_name W' m = sel \<and> method_types W' m = types \<and> method_imp W' (\<lambda>_. 0) m = imp)"
    using fixup_then_search [OF unsorted_big(1), of "\<lambda>name. name + 1" "\<lambda>_. 0"] by blast
  from W'(2) [rule_format, of 6] W'(1) show ?thesis by (auto simp: unsorted_bigs unsorted_big(2))
qed

end
