(* ===== verification/CategoryProofs.thy ===== *)
theory CategoryProofs
  imports Categories MethodFixupSpec
begin

text \<open>
  Attaching categories: the three list arrays of a class share one heap, the buffers are flushed in
  chunks, and preparing the method lists changes the metadata only inside of the lists.
\<close>

subsection \<open>Three list arrays in one heap\<close>

text \<open>An allocator that finds a block as long as fewer than \<open>N\<close> arrays are in use.\<close>

definition serves :: "allocator \<Rightarrow> nat \<Rightarrow> bool" where
  "serves M N \<longleftrightarrow> (\<forall>h. card (dom h) < N \<longrightarrow> fresh_block M h)"

definition spare :: "u64 \<Rightarrow> nat" where
  "spare self = (if hasArray self then 0 else 1)"

definition apart :: "u64 \<Rightarrow> u64 \<Rightarrow> bool" where
  "apart x y \<longleftrightarrow> \<not> (hasArray x \<and> hasArray y \<and> array x = array y)"

definition three :: "nat \<Rightarrow> array_heap \<Rightarrow> u64 \<Rightarrow> u64 \<Rightarrow> u64 \<Rightarrow> bool" where
  "three N h x y z \<longleftrightarrow> la_wf h x \<and> la_wf h y \<and> la_wf h z \<and> apart x y \<and> apart x z \<and> apart y z \<and>
     card (dom h) + spare x + spare y + spare z < N"

definition valid_list :: "u64 \<Rightarrow> bool" where
  "valid_list l \<longleftrightarrow> l \<noteq> 0 \<and> \<not> hasArray l"

lemma three_swap: "three N h x y z \<longleftrightarrow> three N h y x z" "three N h x y z \<longleftrightarrow> three N h z y x"
  by (auto simp: three_def apart_def)

lemma other_array:
  assumes "la_wf h y" and "apart x y" and "fresh_block M h"
    and "\<forall>p. p \<noteq> block_at M h \<and> (hasArray x \<longrightarrow> p \<noteq> array x) \<longrightarrow> h' p = h p"
  shows "la_wf h' y" and "lists_of h' y = lists_of h y" and "hasArray y \<Longrightarrow> array y \<noteq> block_at M h"
proof -
  have ne: "h' (array y) = h (array y)" "array y \<noteq> block_at M h" if "hasArray y"
  proof -
    have "h (array y) \<noteq> None" using assms(1) that by (auto simp: la_wf_def split: option.splits)
    then show "array y \<noteq> block_at M h" using assms(3) by (auto simp: fresh_block_def)
    then show "h' (array y) = h (array y)" using assms(2,4) that by (auto simp: apart_def)
  qed
  show "la_wf h' y" using assms(1) ne by (auto simp: la_wf_def)
  show "lists_of h' y = lists_of h y" using ne by (simp add: lists_of_def)
  show "hasArray y \<Longrightarrow> array y \<noteq> block_at M h" by (rule ne(2))
qed

lemma attach_three:
  assumes "serves M N" and T: "three N h x y z" and "length (lists_of h x) + unat c < 2 ^ 31 - 1"
    and "unat c \<le> length ls" and "\<forall>l\<in>set ls. valid_list l"
  shows "\<exists>h' x'. attachLists M h x ls c = Some (h', x') \<and> three N h' x' y z \<and>
    lists_of h' x' = take (unat c) ls @ lists_of h x \<and> lists_of h' y = lists_of h y \<and> lists_of h' z = lists_of h z"
proof -
  have wf: "la_wf h x" "la_wf h y" "la_wf h z" "apart x y" "apart x z" "apart y z"
    and N: "card (dom h) + spare x + spare y + spare z < N" using T by (simp_all add: three_def)
  have fr: "fresh_block M h" using assms(1) N by (simp add: serves_def)
  obtain h' x' where a: "attachLists M h x ls c = Some (h', x')" "la_wf h' x'" "lists_of h' x' = take (unat c) ls @ lists_of h x"
    and frame: "\<forall>p. p \<noteq> block_at M h \<and> (hasArray x \<longrightarrow> p \<noteq> array x) \<longrightarrow> h' p = h p"
    and freed: "hasArray x \<and> c \<noteq> 0 \<longrightarrow> h' (array x) = None"
    and shape: "h' = h \<and> (x' = x \<or> \<not> hasArray x \<and> \<not> hasArray x') \<or> hasArray x' \<and> array x' = block_at M h"
    using attachLists_spec [OF wf(1) fr assms(3,4)] assms(5) unfolding valid_list_def by blast
  note y = other_array [OF wf(2,4) fr frame] and z = other_array [OF wf(3,5) fr frame]
  have "apart x' y" "apart x' z" using shape wf(4,5) y(3) z(3) by (auto simp: apart_def)
  moreover have "card (dom h') + spare x' \<le> card (dom h) + spare x"
    using shape
  proof
    assume "h' = h \<and> (x' = x \<or> \<not> hasArray x \<and> \<not> hasArray x')"
    then show ?thesis by (auto simp: spare_def)
  next
    assume x': "hasArray x' \<and> array x' = block_at M h"
    show ?thesis
    proof (cases "hasArray x \<and> c \<noteq> 0")
      case True
      then have "dom h' \<subseteq> insert (block_at M h) (dom h - {array x})" using frame freed by (auto simp: domIff)
      then have "card (dom h') \<le> card (insert (block_at M h) (dom h - {array x}))" by (intro card_mono) auto
      also have "\<dots> \<le> Suc (card (dom h - {array x}))" by (rule card_insert_le_m1) auto
      also have "\<dots> = card (dom h)"
        using True wf(1) by (intro card_Suc_Diff1) (auto simp: la_wf_def split: option.splits)
      finally show ?thesis using x' by (simp add: spare_def)
    next
      case False
      show ?thesis
      proof (cases "c = 0")
        case True
        then show ?thesis using a(1) by (simp add: attachLists_def)
      next
        case c: False
        then have "dom h' \<subseteq> insert (block_at M h) (dom h)" using frame False by (auto simp: domIff)
        then have "card (dom h') \<le> card (insert (block_at M h) (dom h))" by (intro card_mono) auto
        also have "\<dots> \<le> Suc (card (dom h))" by (simp add: card_insert_if)
        finally show ?thesis using x' False c by (simp add: spare_def)
      qed
    qed
  qed
  ultimately have "three N h' x' y z" using a(2) y(1) z(1) wf(6) N by (simp add: three_def)
  then show ?thesis using a(1,3) y(2) z(2) by blast
qed

subsection \<open>Buffers\<close>

definition buf_ok :: "buffer \<Rightarrow> bool" where
  "buf_ok b \<longleftrightarrow> length (buf_lists b) = 64 \<and> unat (buf_count b) \<le> 64 \<and> (\<forall>l\<in>set (pushed b). valid_list l)"

lemma unat_bufsiz: "unat n \<le> 64 \<Longrightarrow> unat (ATTACH_BUFSIZ - n) = 64 - unat n"
  by (simp add: ATTACH_BUFSIZ_def unat_sub word_le_nat_alt)

lemma length_pushed: "buf_ok b \<Longrightarrow> length (pushed b) = unat (buf_count b)"
  by (simp add: buf_ok_def pushed_def unat_bufsiz)

lemma pushed_push:
  assumes "buf_ok b" and "buf_count b \<noteq> ATTACH_BUFSIZ"
  shows "pushed (push b l) = l # pushed b" and "valid_list l \<Longrightarrow> buf_ok (push b l)"
proof -
  have "unat (buf_count b) \<noteq> 64"
  proof
    assume "unat (buf_count b) = 64"
    then have "buf_count b = 64" by (simp add: word_unat_eq_iff)
    then show False using assms(2) by (simp add: ATTACH_BUFSIZ_def)
  qed
  then have less: "unat (buf_count b) < 64" using assms(1) by (simp add: buf_ok_def)
  then have n: "unat (buf_count b + 1) = Suc (unat (buf_count b))" by (simp add: unat_word_ariths)
  have len: "length (buf_lists b) = 64" using assms(1) by (simp add: buf_ok_def)
  have i: "unat (ATTACH_BUFSIZ - (buf_count b + 1)) = 63 - unat (buf_count b)" using n less by (simp add: unat_bufsiz)
  have "drop (63 - unat (buf_count b)) ((buf_lists b)[63 - unat (buf_count b) := l]) = l # drop (Suc (63 - unat (buf_count b))) (buf_lists b)"
    using len by (subst Cons_nth_drop_Suc [symmetric]) auto
  moreover have "Suc (63 - unat (buf_count b)) = unat (ATTACH_BUFSIZ - buf_count b)" using less by (simp add: unat_bufsiz)
  ultimately show p: "pushed (push b l) = l # pushed b" by (simp add: pushed_def push_def i)
  show "buf_ok (push b l)" if "valid_list l"
  proof -
    have "length (buf_lists (push b l)) = 64" "unat (buf_count (push b l)) \<le> 64" using len n less by (simp_all add: push_def)
    then show ?thesis using p that assms(1) by (simp add: buf_ok_def)
  qed
qed

lemma full_buffer:
  assumes "buf_ok b" and "buf_count b = ATTACH_BUFSIZ"
  shows "pushed b = buf_lists b" and "length (buf_lists b) = 64" and "buf_ok (b\<lparr>buf_count := 0\<rparr>)" and "pushed (b\<lparr>buf_count := 0\<rparr>) = []"
  using assms by (simp_all add: buf_ok_def pushed_def ATTACH_BUFSIZ_def)

lemma new_buffer_ok: "buf_ok (new_buffer M)" "pushed (new_buffer M) = []"
  by (simp_all add: buf_ok_def new_buffer_def pushed_def ATTACH_BUFSIZ_def)

subsection \<open>The loop over the categories\<close>

text \<open>The lists that a buffer and its array hold together, newest first.\<close>

abbreviation held :: "memory \<Rightarrow> u64 \<Rightarrow> buffer \<Rightarrow> u64 list" where
  "held mem x b \<equiv> pushed b @ lists_of (mem_heap mem) x"

definition some_list :: "u64 \<Rightarrow> u64 list" where
  "some_list l = (if l = 0 then [] else [l])"

lemma attach_plain_three:
  assumes "serves M N" and "three N (mem_heap mem) x y z" and "length (lists_of (mem_heap mem) x) + unat c < 2 ^ 31 - 1"
    and "unat c \<le> length ls" and "\<forall>l\<in>set ls. valid_list l"
  shows "\<exists>h' x'. attach_plain M mem x ls c = Some (mem\<lparr>mem_heap := h'\<rparr>, x') \<and> three N h' x' y z \<and>
    lists_of h' x' = take (unat c) ls @ lists_of (mem_heap mem) x \<and>
    lists_of h' y = lists_of (mem_heap mem) y \<and> lists_of h' z = lists_of (mem_heap mem) z"
  using attach_three [OF assms] by (auto simp: attach_plain_def)

lemma buffer_plain:
  assumes S: "serves M N" and T: "three N (mem_heap mem) x y z" and B: "buf_ok b" and "l = 0 \<or> valid_list l"
    and "length (held mem x b) < 2 ^ 31 - 1"
  shows "\<exists>h' x' b'. buffer_list (attach_plain M) mem x b l = Some (mem\<lparr>mem_heap := h'\<rparr>, x', b') \<and> three N h' x' y z \<and> buf_ok b' \<and>
    pushed b' @ lists_of h' x' = some_list l @ held mem x b \<and>
    lists_of h' y = lists_of (mem_heap mem) y \<and> lists_of h' z = lists_of (mem_heap mem) z"
proof -
  consider (none) "l = 0" | (full) "l \<noteq> 0" "buf_count b = ATTACH_BUFSIZ" | (room) "l \<noteq> 0" "buf_count b \<noteq> ATTACH_BUFSIZ" by blast
  then show ?thesis
  proof cases
    case none
    then show ?thesis using T B by (intro exI [of _ "mem_heap mem"]) (auto simp: buffer_list_def some_list_def)
  next
    case full
    note f = full_buffer [OF B full(2)]
    have n: "unat (buf_count b) = 64" using full(2) by (simp add: ATTACH_BUFSIZ_def)
    have v: "\<forall>l\<in>set (buf_lists b). valid_list l" using B f(1) by (simp add: buf_ok_def)
    obtain h' x' where a: "attach_plain M mem x (buf_lists b) (buf_count b) = Some (mem\<lparr>mem_heap := h'\<rparr>, x')" "three N h' x' y z"
      "lists_of h' x' = take 64 (buf_lists b) @ lists_of (mem_heap mem) x"
      "lists_of h' y = lists_of (mem_heap mem) y" "lists_of h' z = lists_of (mem_heap mem) z"
      using attach_plain_three [OF S T, of "buf_count b" "buf_lists b"] v f assms(5) n by auto
    have ne: "buf_count (b\<lparr>buf_count := 0\<rparr>) \<noteq> ATTACH_BUFSIZ" by (simp add: ATTACH_BUFSIZ_def)
    show ?thesis
      using a full f assms(4) pushed_push [OF f(3) ne] by (auto simp: buffer_list_def some_list_def)
  next
    case room
    then show ?thesis using pushed_push [OF B room(2)] T assms(4)
      by (intro exI [of _ "mem_heap mem"]) (auto simp: buffer_list_def some_list_def)
  qed
qed

lemma prepare_append:
  "prepareMethodLists reg W (xs @ ys) =
    (case prepareMethodLists reg W xs of None \<Rightarrow> None | Some V \<Rightarrow> prepareMethodLists reg V ys)"
  by (induction xs arbitrary: W) (simp_all split: option.split)

text \<open>
  \<open>A\<close> holds the method lists of the categories seen so far; every selection of them can be prepared.
  \<open>D\<close> are those that have been prepared, in that order.
\<close>

definition preparable :: "(u64 \<Rightarrow> u64) \<Rightarrow> image \<Rightarrow> u64 multiset \<Rightarrow> bool" where
  "preparable reg W A \<longleftrightarrow> (\<forall>D. mset D \<subseteq># A \<longrightarrow> prepareMethodLists reg W D \<noteq> None)"

lemma attach_methods_three:
  assumes "serves M N" and "three N (mem_heap mem) x y z" and "length (lists_of (mem_heap mem) x) + unat c < 2 ^ 31 - 1"
    and "unat c = length ls" and "\<forall>l\<in>set ls. valid_list l"
    and "prepareMethodLists reg W D = Some (mem_image mem)" and "preparable reg W A" and "mset D + mset ls \<subseteq># A"
  shows "\<exists>V h' x'. attach_methods M reg mem x ls c = Some (mem\<lparr>mem_image := V, mem_heap := h'\<rparr>, x') \<and> three N h' x' y z \<and>
    prepareMethodLists reg W (D @ ls) = Some V \<and>
    lists_of h' x' = ls @ lists_of (mem_heap mem) x \<and>
    lists_of h' y = lists_of (mem_heap mem) y \<and> lists_of h' z = lists_of (mem_heap mem) z"
proof -
  have "mset (D @ ls) \<subseteq># A" using assms(8) by simp
  then obtain V where V: "prepareMethodLists reg W (D @ ls) = Some V" using assms(7) unfolding preparable_def by blast
  then have "prepareMethodLists reg (mem_image mem) ls = Some V" using assms(6) by (simp add: prepare_append)
  then show ?thesis using V attach_three [OF assms(1-3), of ls] assms(4,5) by (auto simp: attach_methods_def)
qed

lemma buffer_methods:
  assumes S: "serves M N" and T: "three N (mem_heap mem) x y z" and B: "buf_ok b" and "l = 0 \<or> valid_list l"
    and "length (held mem x b) < 2 ^ 31 - 1"
    and "prepareMethodLists reg W D = Some (mem_image mem)" and "preparable reg W A" and "mset D + mset (pushed b) \<subseteq># A"
  shows "\<exists>V h' x' b' D'. buffer_list (attach_methods M reg) mem x b l = Some (mem\<lparr>mem_image := V, mem_heap := h'\<rparr>, x', b') \<and>
    three N h' x' y z \<and> buf_ok b' \<and> prepareMethodLists reg W D' = Some V \<and>
    mset D' + mset (pushed b') = mset (some_list l) + (mset D + mset (pushed b)) \<and>
    pushed b' @ lists_of h' x' = some_list l @ held mem x b \<and>
    lists_of h' y = lists_of (mem_heap mem) y \<and> lists_of h' z = lists_of (mem_heap mem) z"
proof -
  consider (none) "l = 0" | (full) "l \<noteq> 0" "buf_count b = ATTACH_BUFSIZ" | (room) "l \<noteq> 0" "buf_count b \<noteq> ATTACH_BUFSIZ" by blast
  then show ?thesis
  proof cases
    case none
    then show ?thesis using T B assms(6)
      by (intro exI [of _ "mem_image mem"] exI [of _ "mem_heap mem"] exI [of _ x] exI [of _ b] exI [of _ D])
        (simp add: buffer_list_def some_list_def)
  next
    case full
    note f = full_buffer [OF B full(2)]
    have n: "unat (buf_count b) = 64" using full(2) by (simp add: ATTACH_BUFSIZ_def)
    have v: "\<forall>l\<in>set (buf_lists b). valid_list l" using B f(1) by (simp add: buf_ok_def)
    obtain V h' x' where a: "attach_methods M reg mem x (buf_lists b) (buf_count b) = Some (mem\<lparr>mem_image := V, mem_heap := h'\<rparr>, x')"
      "three N h' x' y z" "prepareMethodLists reg W (D @ buf_lists b) = Some V"
      "lists_of h' x' = buf_lists b @ lists_of (mem_heap mem) x"
      "lists_of h' y = lists_of (mem_heap mem) y" "lists_of h' z = lists_of (mem_heap mem) z"
      using attach_methods_three [OF S T, of "buf_count b" "buf_lists b", OF _ _ v assms(6,7)] f assms(5,8) n by auto
    have ne: "buf_count (b\<lparr>buf_count := 0\<rparr>) \<noteq> ATTACH_BUFSIZ" by (simp add: ATTACH_BUFSIZ_def)
    let ?b = "push (b\<lparr>buf_count := 0\<rparr>) l"
    have "buffer_list (attach_methods M reg) mem x b l = Some (mem\<lparr>mem_image := V, mem_heap := h'\<rparr>, x', ?b)"
      using a(1) full by (simp add: buffer_list_def)
    moreover have "pushed ?b = [l]" "buf_ok ?b" using pushed_push [OF f(3) ne] f(4) full(1) assms(4) by auto
    ultimately show ?thesis using a(2-6) f(1) full(1)
      by (intro exI [of _ V] exI [of _ h'] exI [of _ x'] exI [of _ ?b] exI [of _ "D @ buf_lists b"]) (simp add: some_list_def)
  next
    case room
    then show ?thesis using pushed_push [OF B room(2)] T assms(4,6)
      by (intro exI [of _ "mem_image mem"] exI [of _ "mem_heap mem"] exI [of _ x] exI [of _ "push b l"] exI [of _ D])
        (auto simp: buffer_list_def some_list_def)
  qed
qed

text \<open>The lists that a sequence of categories has, oldest first.\<close>

definition listed :: "('c \<Rightarrow> u64) \<Rightarrow> 'c list \<Rightarrow> u64 list" where
  "listed f cats = filter (\<lambda>l. l \<noteq> 0) (map f cats)"

lemma listed_simps [simp]: "listed f [] = []" "listed f (e # cats) = some_list (f e) @ listed f cats"
  by (simp_all add: listed_def some_list_def)

lemma rev_some_list [simp]: "rev (some_list l) = some_list l"
  by (simp add: some_list_def)

lemma length_some_list: "length (some_list l) \<le> 1"
  by (simp add: some_list_def)

definition cat_methods :: "category_env \<Rightarrow> bool \<Rightarrow> locstamped_category_t \<Rightarrow> u64" where
  "cat_methods E isMeta e = methodsForMeta (category_at E (lc_cat e)) isMeta"

definition cat_props :: "category_env \<Rightarrow> bool \<Rightarrow> locstamped_category_t \<Rightarrow> u64" where
  "cat_props E isMeta e = propertiesForMeta E (category_at E (lc_cat e)) isMeta (lc_hi e)"

definition cat_protos :: "category_env \<Rightarrow> bool \<Rightarrow> locstamped_category_t \<Rightarrow> u64" where
  "cat_protos E isMeta e = protocolsForMeta (category_at E (lc_cat e)) isMeta"

definition valid_entry :: "category_env \<Rightarrow> bool \<Rightarrow> locstamped_category_t \<Rightarrow> bool" where
  "valid_entry E isMeta e \<longleftrightarrow> (\<forall>l\<in>{cat_methods E isMeta e, cat_props E isMeta e, cat_protos E isMeta e}. l = 0 \<or> valid_list l)"

lemma attach_loop_spec:
  assumes S: "serves M N" and "\<forall>e\<in>set cats. valid_entry E isMeta e"
    and "three N (mem_heap mem) x y z" and "buf_ok a" and "buf_ok b" and "buf_ok c"
    and "length (held mem x a) + length cats < 2 ^ 31 - 1" and "length (held mem y b) + length cats < 2 ^ 31 - 1"
    and "length (held mem z c) + length cats < 2 ^ 31 - 1"
    and "prepareMethodLists reg W D = Some (mem_image mem)" and P: "preparable reg W A"
    and "mset D + mset (pushed a) + mset (listed (cat_methods E isMeta) cats) \<subseteq># A"
  shows "\<exists>V h' x' y' z' a' b' c' D'. attach_loop M reg E isMeta cats mem (x, a) (y, b) (z, c) =
      Some (mem\<lparr>mem_image := V, mem_heap := h'\<rparr>, (x', a'), (y', b'), (z', c')) \<and>
    three N h' x' y' z' \<and> buf_ok a' \<and> buf_ok b' \<and> buf_ok c' \<and>
    prepareMethodLists reg W D' = Some V \<and>
    mset D' + mset (pushed a') = mset D + mset (pushed a) + mset (listed (cat_methods E isMeta) cats) \<and>
    pushed a' @ lists_of h' x' = rev (listed (cat_methods E isMeta) cats) @ held mem x a \<and>
    pushed b' @ lists_of h' y' = rev (listed (cat_props E isMeta) cats) @ held mem y b \<and>
    pushed c' @ lists_of h' z' = rev (listed (cat_protos E isMeta) cats) @ held mem z c"
  using assms(2-10,12)
proof (induction cats arbitrary: mem x y z a b c D)
  case Nil
  then show ?case
    by (intro exI [of _ "mem_image mem"] exI [of _ "mem_heap mem"] exI [of _ x] exI [of _ y] exI [of _ z]
        exI [of _ a] exI [of _ b] exI [of _ c] exI [of _ D]) simp
next
  case (Cons e cats)
  let ?m = "cat_methods E isMeta e" and ?p = "cat_props E isMeta e" and ?q = "cat_protos E isMeta e"
  have v: "?m = 0 \<or> valid_list ?m" "?p = 0 \<or> valid_list ?p" "?q = 0 \<or> valid_list ?q"
    using Cons.prems(1) by (auto simp: valid_entry_def)
  have sub: "mset D + mset (pushed a) \<subseteq># A" by (rule subset_mset.order_trans [OF mset_subset_eq_add_left Cons.prems(10)])
  have le: "length (held mem x a) < 2 ^ 31 - 1" "length (held mem y b) < 2 ^ 31 - 1" "length (held mem z c) < 2 ^ 31 - 1"
    using Cons.prems(6-8) by simp_all
  obtain V h1 x1 a1 D1 where s1: "buffer_list (attach_methods M reg) mem x a ?m = Some (mem\<lparr>mem_image := V, mem_heap := h1\<rparr>, x1, a1)"
    "three N h1 x1 y z" "buf_ok a1" "prepareMethodLists reg W D1 = Some V"
    "mset D1 + mset (pushed a1) = mset (some_list ?m) + (mset D + mset (pushed a))"
    "pushed a1 @ lists_of h1 x1 = some_list ?m @ held mem x a"
    "lists_of h1 y = lists_of (mem_heap mem) y" "lists_of h1 z = lists_of (mem_heap mem) z"
    using buffer_methods [OF S Cons.prems(2,3) v(1) le(1) Cons.prems(9) P sub] by blast
  let ?mem1 = "mem\<lparr>mem_image := V, mem_heap := h1\<rparr>"
  have T1: "three N (mem_heap ?mem1) y x1 z" and le1: "length (held ?mem1 y b) < 2 ^ 31 - 1"
    using s1(2,7) le three_swap(1) by auto
  obtain h2 y1 b1 where s2: "buffer_list (attach_plain M) ?mem1 y b ?p = Some (?mem1\<lparr>mem_heap := h2\<rparr>, y1, b1)"
    "three N h2 y1 x1 z" "buf_ok b1" "pushed b1 @ lists_of h2 y1 = some_list ?p @ held ?mem1 y b"
    "lists_of h2 x1 = lists_of h1 x1" "lists_of h2 z = lists_of h1 z"
    using buffer_plain [OF S T1 Cons.prems(4) v(2) le1] by auto
  let ?mem2 = "?mem1\<lparr>mem_heap := h2\<rparr>"
  have T2: "three N (mem_heap ?mem2) z x1 y1" and le2: "length (held ?mem2 z c) < 2 ^ 31 - 1"
    using s2(2,6) s1(8) le three_swap by (auto simp: three_def apart_def)
  obtain h3 z1 c1 where s3: "buffer_list (attach_plain M) ?mem2 z c ?q = Some (?mem2\<lparr>mem_heap := h3\<rparr>, z1, c1)"
    "three N h3 z1 x1 y1" "buf_ok c1" "pushed c1 @ lists_of h3 z1 = some_list ?q @ held ?mem2 z c"
    "lists_of h3 x1 = lists_of h2 x1" "lists_of h3 y1 = lists_of h2 y1"
    using buffer_plain [OF S T2 Cons.prems(5) v(3) le2] by auto
  let ?mem3 = "?mem2\<lparr>mem_heap := h3\<rparr>"
  have h: "held ?mem3 x1 a1 = some_list ?m @ held mem x a" "held ?mem3 y1 b1 = some_list ?p @ held mem y b"
    "held ?mem3 z1 c1 = some_list ?q @ held mem z c"
    using s1 s2 s3 by simp_all
  have le3: "length (held ?mem3 x1 a1) + length cats < 2 ^ 31 - 1" "length (held ?mem3 y1 b1) + length cats < 2 ^ 31 - 1"
    "length (held ?mem3 z1 c1) + length cats < 2 ^ 31 - 1"
    unfolding h using Cons.prems(6-8) length_some_list [of ?m] length_some_list [of ?p] length_some_list [of ?q] by simp_all
  have T3: "three N (mem_heap ?mem3) x1 y1 z1" using s3(2) by (auto simp: three_def apart_def)
  have A3: "mset D1 + mset (pushed a1) + mset (listed (cat_methods E isMeta) cats) \<subseteq># A"
    using Cons.prems(10) s1(5) by (simp add: ac_simps)
  have v3: "\<forall>e\<in>set cats. valid_entry E isMeta e" "prepareMethodLists reg W D1 = Some (mem_image ?mem3)"
    using Cons.prems(1) s1(4) by simp_all
  have step: "attach_loop M reg E isMeta (e # cats) mem (x, a) (y, b) (z, c) =
      attach_loop M reg E isMeta cats ?mem3 (x1, a1) (y1, b1) (z1, c1)"
    using s1(1) s2(1) s3(1) by (simp add: cat_methods_def cat_props_def cat_protos_def)
  show ?case
    using Cons.IH [OF v3(1) T3 s1(3) s2(3) s3(3) le3 v3(2) A3] s1(5) unfolding step h
    by (simp add: ac_simps)
qed

subsection \<open>Attaching\<close>

lemma extAllocIfNeeded_lists:
  "\<exists>rwe. extAllocIfNeeded M h c = Some (h, rwe) \<and> ext_methods rwe = class_methods c \<and>
    ext_properties rwe = class_properties c \<and> ext_protocols rwe = class_protocols c"
proof -
  have "attach_base M h l = Some (h, l)" for h l by (simp add: attach_base_def attachLists_def hasArray_def)
  then show ?thesis
    by (cases "ro_or_ext c") (auto simp: extAllocIfNeeded_def extAlloc_def class_methods_def class_properties_def class_protocols_def)
qed

abbreviation all_three :: "nat \<Rightarrow> memory \<Rightarrow> class_rw_t \<Rightarrow> bool" where
  "all_three N mem c \<equiv> three N (mem_heap mem) (class_methods c) (class_properties c) (class_protocols c)"

lemma attachCategories_lists:
  assumes S: "serves M N" and T: "all_three N mem c"
    and isMeta: "isMeta = (fl AND ATTACH_METACLASS \<noteq> 0)" and "\<forall>e\<in>set cats. valid_entry E isMeta e"
    and "length (lists_of (mem_heap mem) (class_methods c)) + length cats < 2 ^ 31 - 1"
    and "length (lists_of (mem_heap mem) (class_properties c)) + length cats < 2 ^ 31 - 1"
    and "length (lists_of (mem_heap mem) (class_protocols c)) + length cats < 2 ^ 31 - 1"
    and P: "preparable reg (mem_image mem) (mset (listed (cat_methods E isMeta) cats))"
  shows "\<exists>mem' c' D. attachCategories M reg E mem c cats fl = Some (mem', c') \<and> all_three N mem' c' \<and>
    lists_of (mem_heap mem') (class_methods c') = rev (listed (cat_methods E isMeta) cats) @ lists_of (mem_heap mem) (class_methods c) \<and>
    lists_of (mem_heap mem') (class_properties c') = rev (listed (cat_props E isMeta) cats) @ lists_of (mem_heap mem) (class_properties c) \<and>
    lists_of (mem_heap mem') (class_protocols c') = rev (listed (cat_protos E isMeta) cats) @ lists_of (mem_heap mem) (class_protocols c) \<and>
    mset D = mset (listed (cat_methods E isMeta) cats) \<and> prepareMethodLists reg (mem_image mem) D = Some (mem_image mem')"
proof -
  let ?W = "mem_image mem" and ?A = "mset (listed (cat_methods E isMeta) cats)"
  obtain rwe where rwe: "extAllocIfNeeded M (mem_heap mem) c = Some (mem_heap mem, rwe)" "ext_methods rwe = class_methods c"
    "ext_properties rwe = class_properties c" "ext_protocols rwe = class_protocols c"
    using extAllocIfNeeded_lists [of M "mem_heap mem" c] by blast
  obtain V h' x y z a b d D where L: "attach_loop M reg E isMeta cats mem (class_methods c, new_buffer M) (class_properties c, new_buffer M)
      (class_protocols c, new_buffer M) = Some (mem\<lparr>mem_image := V, mem_heap := h'\<rparr>, (x, a), (y, b), (z, d))"
    "three N h' x y z" "buf_ok a" "buf_ok b" "buf_ok d" "prepareMethodLists reg ?W D = Some V" "mset D + mset (pushed a) = ?A"
    "pushed a @ lists_of h' x = rev (listed (cat_methods E isMeta) cats) @ lists_of (mem_heap mem) (class_methods c)"
    "pushed b @ lists_of h' y = rev (listed (cat_props E isMeta) cats) @ lists_of (mem_heap mem) (class_properties c)"
    "pushed d @ lists_of h' z = rev (listed (cat_protos E isMeta) cats) @ lists_of (mem_heap mem) (class_protocols c)"
    using attach_loop_spec [OF S assms(4) T new_buffer_ok(1) [of M] new_buffer_ok(1) [of M] new_buffer_ok(1) [of M] _ _ _ _ P, of "[]"]
      assms(5-7) by (auto simp: new_buffer_ok(2))
  have len: "length (listed f cats) \<le> length cats" for f by (simp add: listed_def)
  have bound: "length (lists_of h' x) + unat (buf_count a) < 2 ^ 31 - 1" "length (lists_of h' y) + unat (buf_count b) < 2 ^ 31 - 1"
    "length (lists_of h' z) + unat (buf_count d) < 2 ^ 31 - 1"
    using arg_cong [OF L(8), of length] arg_cong [OF L(9), of length] arg_cong [OF L(10), of length]
      len [of "cat_methods E isMeta"] len [of "cat_props E isMeta"] len [of "cat_protos E isMeta"] assms(5-7)
      L(3-5)[THEN length_pushed] by simp_all
  let ?mem1 = "mem\<lparr>mem_image := V, mem_heap := h'\<rparr>"
  obtain V2 h2 x2 D2 where s1: "(if buf_count a > 0 then attach_methods M reg ?mem1 x (pushed a) (buf_count a) else Some (?mem1, x)) =
      Some (mem\<lparr>mem_image := V2, mem_heap := h2\<rparr>, x2)" "three N h2 x2 y z" "prepareMethodLists reg ?W D2 = Some V2" "mset D2 = ?A"
    "lists_of h2 x2 = pushed a @ lists_of h' x" "lists_of h2 y = lists_of h' y" "lists_of h2 z = lists_of h' z"
  proof (cases "buf_count a > 0")
    case True
    have "mset D + mset (pushed a) \<subseteq># ?A" "\<forall>l\<in>set (pushed a). valid_list l" "unat (buf_count a) = length (pushed a)"
      using L(3,7) length_pushed [OF L(3)] by (simp_all add: buf_ok_def)
    moreover have "three N (mem_heap ?mem1) x y z" "prepareMethodLists reg ?W D = Some (mem_image ?mem1)"
      "length (lists_of (mem_heap ?mem1) x) + unat (buf_count a) < 2 ^ 31 - 1" using L(2,6) bound(1) by simp_all
    ultimately obtain V2 h2 x2 where m: "attach_methods M reg ?mem1 x (pushed a) (buf_count a) = Some (?mem1\<lparr>mem_image := V2, mem_heap := h2\<rparr>, x2)"
      "three N h2 x2 y z" "prepareMethodLists reg ?W (D @ pushed a) = Some V2"
      "lists_of h2 x2 = pushed a @ lists_of (mem_heap ?mem1) x"
      "lists_of h2 y = lists_of (mem_heap ?mem1) y" "lists_of h2 z = lists_of (mem_heap ?mem1) z"
      using attach_methods_three [OF S _ _ _ _ _ P] by blast
    show ?thesis by (rule that [of h2 V2 x2 "D @ pushed a"]) (use True m L(7) in simp_all)
  next
    case False
    then have "pushed a = []" using length_pushed [OF L(3)] by (simp add: word_gt_0)
    then show ?thesis using L that [of h' V x D] False by simp
  qed
  have T2: "three N (mem_heap (mem\<lparr>mem_image := V2, mem_heap := h2\<rparr>)) y x2 z" using s1(2) three_swap(1) by simp
  have v: "\<forall>l\<in>set (pushed b). valid_list l" "\<forall>l\<in>set (pushed d). valid_list l" using L(4,5) by (simp_all add: buf_ok_def)
  obtain h3 y3 where s2: "attach_plain M (mem\<lparr>mem_image := V2, mem_heap := h2\<rparr>) y (pushed b) (buf_count b) =
      Some (mem\<lparr>mem_image := V2, mem_heap := h3\<rparr>, y3)" "three N h3 y3 x2 z" "lists_of h3 y3 = pushed b @ lists_of h' y"
    "lists_of h3 x2 = lists_of h2 x2" "lists_of h3 z = lists_of h2 z"
    using attach_plain_three [OF S T2, of "buf_count b" "pushed b"] v(1) bound(2) length_pushed [OF L(4)] s1(6) by auto
  have T3: "three N (mem_heap (mem\<lparr>mem_image := V2, mem_heap := h3\<rparr>)) z x2 y3" using s2(2) by (auto simp: three_def apart_def)
  obtain h4 z4 where s3: "attach_plain M (mem\<lparr>mem_image := V2, mem_heap := h3\<rparr>) z (pushed d) (buf_count d) =
      Some (mem\<lparr>mem_image := V2, mem_heap := h4\<rparr>, z4)" "three N h4 z4 x2 y3" "lists_of h4 z4 = pushed d @ lists_of h' z"
    "lists_of h4 x2 = lists_of h3 x2" "lists_of h4 y3 = lists_of h3 y3"
    using attach_plain_three [OF S T3, of "buf_count d" "pushed d"] v(2) bound(3) length_pushed [OF L(5)] s1(7) s2(5) by auto
  define c' where "c' = c\<lparr>ro_or_ext := Ext (rwe\<lparr>ext_methods := x2, ext_properties := y3, ext_protocols := z4\<rparr>)\<rparr>"
  have c': "class_methods c' = x2" "class_properties c' = y3" "class_protocols c' = z4"
    by (simp_all add: c'_def class_methods_def class_properties_def class_protocols_def)
  have "attachCategories M reg E mem c cats fl = Some (mem\<lparr>mem_image := V2, mem_heap := h4\<rparr>, c')"
    unfolding attachCategories_def Let_def using rwe L(1) s1(1) s2(1) s3(1) isMeta by (simp add: c'_def split del: if_split)
  moreover have "three N h4 x2 y3 z4" using s3(2) by (auto simp: three_def apart_def)
  ultimately show ?thesis using s1(3-5) s2(3,4) s3(3-5) L(8-10) c'
    by (intro exI [of _ "mem\<lparr>mem_image := V2, mem_heap := h4\<rparr>"] exI [of _ c'] exI [of _ D2]) simp
qed

end
