(* ===== verification/CategorySpec.thy ===== *)
theory CategorySpec
  imports CategoryProofs
begin

text \<open>
  What a lookup finds in a class after categories have been attached to it: the methods of the newest
  category first, then those of older categories, then those that the class had before.
\<close>

subsection \<open>Regions of lists\<close>

definition extent :: "image \<Rightarrow> u64 \<Rightarrow> nat" where
  "extent W l = 8 + 24 * num W l"

definition separate :: "image \<Rightarrow> u64 \<Rightarrow> u64 \<Rightarrow> bool" where
  "separate W l k \<longleftrightarrow> unat l + extent W l \<le> unat k \<or> unat k + extent W k \<le> unat l"

definition searchable :: "image \<Rightarrow> u64 \<Rightarrow> bool" where
  "searchable W l \<longleftrightarrow> big_list W l \<and> (isFixedUp W l \<longrightarrow> sorted (map fst (bigs W l)))"

text \<open>The methods of a list with their registered selectors.\<close>

definition registered :: "(u64 \<Rightarrow> u64) \<Rightarrow> image \<Rightarrow> u64 \<Rightarrow> (u64 \<times> u64 \<times> u64) list" where
  "registered reg W l = map (renamed (if isUniqued W l then (\<lambda>x. x) else reg)) (bigs W l)"

lemma region_cong:
  assumes B: "big_list W l" and "\<And>a. unat l \<le> unat a \<Longrightarrow> unat a < unat l + extent W l \<Longrightarrow> m a = bytes W a"
  shows "extent (W\<lparr>bytes := m\<rparr>) l = extent W l" and "searchable (W\<lparr>bytes := m\<rparr>) l = searchable W l"
    and "bigs (W\<lparr>bytes := m\<rparr>) l = bigs W l" and "registered reg (W\<lparr>bytes := m\<rparr>) l = registered reg W l"
proof -
  let ?V = "W\<lparr>bytes := m\<rparr>"
  note b = big_list_bounds(1) [OF B]
  have h: "list_count ?V l = list_count W l" "entsizeAndFlags ?V l = entsizeAndFlags W l"
    using header_cong [of l m W] assms(2) b by (simp_all add: extent_def)
  have p: "unat (method_at l 0) = unat l + 8" using unat_method_at [OF B, of 0] by simp
  have "load_bigs m (method_at l 0) (num W l) = load_bigs (bytes W) (method_at l 0) (num W l)"
    using p b assms(2) by (intro load_bigs_cong) (simp_all add: extent_def)
  then show g: "bigs ?V l = bigs W l" using h by (simp add: bigs_def)
  show "extent ?V l = extent W l" using h by (simp add: extent_def)
  have "isFixedUp ?V l = isFixedUp W l" "isUniqued ?V l = isUniqued W l" "big_list ?V l"
    using h big_list_header [OF B h] by (simp_all add: isFixedUp_def list_flags_def)
  then show "searchable ?V l = searchable W l" "registered reg ?V l = registered reg W l"
    using g B by (simp_all add: searchable_def registered_def)
qed

lemma outside_separate:
  "separate W l k \<Longrightarrow> unat l \<le> unat a \<Longrightarrow> unat a < unat l + extent W l \<Longrightarrow> outside k (extent W k) a"
  by (auto simp: separate_def outside_def)

subsection \<open>Preparing lists\<close>

lemma isFixedUp_isUniqued: "isFixedUp W l \<Longrightarrow> isUniqued W l"
proof -
  assume "isFixedUp W l"
  then have "bit (list_flags method_FlagMask W l AND 3) 0" by (simp add: isFixedUp_def fixed_up_method_list_def)
  then have "bit (list_flags method_FlagMask W l AND 1) 0" by (simp add: bit_and_iff)
  then show ?thesis by (auto simp: isUniqued_def uniqued_method_list_def)
qed

text \<open>A search finds in the prepared list what it would find in the registered one.\<close>

definition finds :: "image \<Rightarrow> u64 \<Rightarrow> (u64 \<times> u64 \<times> u64) list \<Rightarrow> bool" where
  "finds V l bs \<longleftrightarrow> (\<forall>sel. List.find (\<lambda>b. fst b = sel) (bigs V l) = List.find (\<lambda>b. fst b = sel) bs)"

lemma prepare_one:
  assumes "searchable W l"
  shows "\<exists>m. (if \<not> isFixedUp W l then fixupMethodList reg W l True else Some W) = Some (W\<lparr>bytes := m\<rparr>) \<and>
    (\<forall>a. outside l (extent W l) a \<longrightarrow> m a = bytes W a) \<and> searchable (W\<lparr>bytes := m\<rparr>) l \<and>
    finds (W\<lparr>bytes := m\<rparr>) l (registered reg W l) \<and> extent (W\<lparr>bytes := m\<rparr>) l = extent W l"
proof (cases "isFixedUp W l")
  case True
  have "renamed (\<lambda>x. x) = (\<lambda>b. b)" by (simp add: renamed_def fun_eq_iff)
  then have "registered reg W l = bigs W l" using isFixedUp_isUniqued [OF True] by (simp add: registered_def)
  then show ?thesis using True assms by (intro exI [of _ "bytes W"]) (simp add: finds_def)
next
  case False
  have B: "big_list W l" using assms by (simp add: searchable_def)
  obtain m where m: "fixupMethodList reg W l True = Some (W\<lparr>bytes := m\<rparr>)" "\<forall>a. outside l (8 + 24 * num W l) a \<longrightarrow> m a = bytes W a"
    "big_list (W\<lparr>bytes := m\<rparr>) l" "bigs (W\<lparr>bytes := m\<rparr>) l = sort_key fst (registered reg W l)"
    using fixup_spec [OF B, of reg] unfolding registered_def by blast
  moreover have "num (W\<lparr>bytes := m\<rparr>) l = num W l"
    using arg_cong [OF m(4), of length] by (simp add: registered_def bigs_def)
  ultimately show ?thesis using False by (intro exI [of _ m]) (simp add: searchable_def finds_def find_sort_key extent_def)
qed

definition separated :: "image \<Rightarrow> u64 set \<Rightarrow> bool" where
  "separated W S \<longleftrightarrow> (\<forall>l\<in>S. \<forall>k\<in>S. l \<noteq> k \<longrightarrow> separate W l k)"

lemma prepare_all:
  assumes "\<forall>l\<in>set D. searchable W l" and "distinct D" and "separated W (set D)"
  shows "\<exists>m. prepareMethodLists reg W D = Some (W\<lparr>bytes := m\<rparr>) \<and>
    (\<forall>a. (\<forall>l\<in>set D. outside l (extent W l) a) \<longrightarrow> m a = bytes W a) \<and>
    (\<forall>l\<in>set D. searchable (W\<lparr>bytes := m\<rparr>) l \<and> finds (W\<lparr>bytes := m\<rparr>) l (registered reg W l))"
  using assms
proof (induction D arbitrary: W)
  case Nil
  then show ?case by (intro exI [of _ "bytes W"]) simp
next
  case (Cons l D)
  obtain m1 where m1: "(if \<not> isFixedUp W l then fixupMethodList reg W l True else Some W) = Some (W\<lparr>bytes := m1\<rparr>)"
    "\<forall>a. outside l (extent W l) a \<longrightarrow> m1 a = bytes W a" "searchable (W\<lparr>bytes := m1\<rparr>) l"
    "finds (W\<lparr>bytes := m1\<rparr>) l (registered reg W l)" "extent (W\<lparr>bytes := m1\<rparr>) l = extent W l"
    using prepare_one [of W l reg] Cons.prems(1) by auto
  let ?V = "W\<lparr>bytes := m1\<rparr>"
  have sep: "separate W k l" if "k \<in> set D" for k using that Cons.prems(2,3) by (auto simp: separated_def)
  have k: "extent ?V k = extent W k" "searchable ?V k" "registered reg ?V k = registered reg W k" if "k \<in> set D" for k
  proof -
    have B: "big_list W k" using Cons.prems(1) that by (simp add: searchable_def)
    have "m1 a = bytes W a" if "unat k \<le> unat a" "unat a < unat k + extent W k" for a
      using outside_separate [OF sep [OF \<open>k \<in> set D\<close>] that] m1(2) by blast
    note c = region_cong [OF B this]
    show "extent ?V k = extent W k" "registered reg ?V k = registered reg W k" using c(1,4) by blast+
    show "searchable ?V k" using c(2) Cons.prems(1) that by simp
  qed
  have "separated ?V (set D)" using Cons.prems(3) k(1) by (auto simp: separated_def separate_def)
  then obtain m where m: "prepareMethodLists reg ?V D = Some (W\<lparr>bytes := m\<rparr>)"
    "\<forall>a. (\<forall>k\<in>set D. outside k (extent W k) a) \<longrightarrow> m a = m1 a"
    "\<forall>k\<in>set D. searchable (W\<lparr>bytes := m\<rparr>) k \<and> finds (W\<lparr>bytes := m\<rparr>) k (registered reg W k)"
    using Cons.IH [of ?V] Cons.prems(2) k by auto
  have Bl: "big_list ?V l" using m1(3) by (simp add: searchable_def)
  have "m a = bytes ?V a" if "unat l \<le> unat a" "unat a < unat l + extent ?V l" for a
  proof -
    have "outside k (extent W k) a" if "k \<in> set D" for k
      using outside_separate [of W l k a] sep [OF that] \<open>unat l \<le> unat a\<close> \<open>unat a < unat l + extent ?V l\<close> m1(5)
      by (auto simp: separate_def)
    then show ?thesis using m(2) by simp
  qed
  note c = region_cong [OF Bl this]
  have "searchable (W\<lparr>bytes := m\<rparr>) l" "finds (W\<lparr>bytes := m\<rparr>) l (registered reg W l)"
    using c(2,3) m1(3,4) by (simp_all add: finds_def)
  moreover have "prepareMethodLists reg W (l # D) = Some (W\<lparr>bytes := m\<rparr>)"
    using m1(1) m(1) by (auto split: if_splits)
  ultimately show ?case using m(2,3) m1(2) by (intro exI [of _ m]) auto
qed

lemma distinct_count_le: "distinct xs \<longleftrightarrow> (\<forall>x. count (mset xs) x \<le> 1)"
proof
  show "\<forall>x. count (mset xs) x \<le> 1" if "distinct xs" using that by (simp add: distinct_count_atmost_1)
next
  assume le: "\<forall>x. count (mset xs) x \<le> 1"
  have "count (mset xs) x = (if x \<in> set xs then 1 else 0)" for x
    using le [rule_format, of x] count_mset_0_iff [of xs x] by (cases "x \<in> set xs"; cases "count (mset xs) x") auto
  then show "distinct xs" by (simp add: distinct_count_atmost_1)
qed

lemma preparable_separated:
  assumes "\<forall>l\<in>set ls. searchable W l" and "distinct ls" and "separated W (set ls)"
  shows "preparable reg W (mset ls)"
  unfolding preparable_def
proof (intro allI impI)
  fix D
  assume D: "mset D \<subseteq># mset ls"
  then have "set D \<subseteq> set ls" by (metis set_mset_mono set_mset_mset)
  moreover have "count (mset D) x \<le> 1" for x
    using mset_subset_eq_count [OF D, of x] assms(2) unfolding distinct_count_le by (meson order_trans)
  then have "distinct D" by (simp add: distinct_count_le)
  ultimately have "\<forall>l\<in>set D. searchable W l" "distinct D" "separated W (set D)"
    using assms(1,3) by (auto simp: separated_def)
  then show "prepareMethodLists reg W D \<noteq> None" using prepare_all [of D W reg] by force
qed

subsection \<open>Looking up\<close>

lemma find_append: "List.find P (xs @ ys) = (case List.find P xs of None \<Rightarrow> List.find P ys | Some x \<Rightarrow> Some x)"
  by (induction xs) simp_all

lemma find_concat_cong:
  "(\<And>l. l \<in> set ls \<Longrightarrow> List.find P (f l) = List.find P (g l)) \<Longrightarrow>
    List.find P (concat (map f ls)) = List.find P (concat (map g ls))"
  by (induction ls) (simp_all add: find_append split: option.split)

lemma search_lists_from:
  assumes "la_wf h self" and S: "\<forall>l\<in>set (lists_of h self). searchable W l" and "k \<le> length (lists_of h self)"
  shows "\<exists>m. search_lists W sel h self (cursor_at self k) (cursor_at self (length (lists_of h self))) = Some m \<and>
    (case List.find (\<lambda>b. fst b = sel) (concat (map (bigs W) (drop k (lists_of h self)))) of None \<Rightarrow> m = 0
     | Some b \<Rightarrow> m \<noteq> 0 \<and> (method_name W m, method_types W m, method_imp W remapped m) = b)"
  using assms(3)
proof (induction "length (lists_of h self) - k" arbitrary: k)
  case 0
  then show ?case by (subst search_lists.simps) simp
next
  case (Suc d)
  then have k: "k < length (lists_of h self)" by simp
  let ?l = "lists_of h self ! k"
  have d: "drop k (lists_of h self) = ?l # drop (Suc k) (lists_of h self)" using k by (simp add: Cons_nth_drop_Suc)
  have "big_list W ?l" "isFixedUp W ?l \<Longrightarrow> sorted (map fst (bigs W ?l))" using S k by (auto simp: searchable_def)
  from search_big_fields [OF this, of sel remapped]
  obtain m where m: "search_method_list_inline W ?l sel = Some m"
    "case List.find (\<lambda>b. fst b = sel) (bigs W ?l) of None \<Rightarrow> m = 0
     | Some b \<Rightarrow> m \<noteq> 0 \<and> (method_name W m, method_types W m, method_imp W remapped m) = b" by blast
  show ?case
  proof (cases "List.find (\<lambda>b. fst b = sel) (bigs W ?l)")
    case None
    then have "m = 0" using m(2) by simp
    then have "search_lists W sel h self (cursor_at self k) (cursor_at self (length (lists_of h self))) =
        search_lists W sel h self (cursor_at self (Suc k)) (cursor_at self (length (lists_of h self)))"
      using k load_cursor_nth [OF assms(1) k] m(1) by (subst search_lists.simps) simp
    then show ?thesis using Suc.hyps(1) [of "Suc k"] Suc.hyps(2) k None by (simp add: d find_append)
  next
    case (Some b)
    then have "m \<noteq> 0" using m(2) by simp
    then have "search_lists W sel h self (cursor_at self k) (cursor_at self (length (lists_of h self))) = Some m"
      using k load_cursor_nth [OF assms(1) k] m(1) by (subst search_lists.simps) simp
    then show ?thesis using m(2) Some by (simp add: d find_append)
  qed
qed

lemma getMethodNoSuper_spec:
  assumes "la_wf (mem_heap mem) (class_methods c)"
    and "\<forall>l\<in>set (lists_of (mem_heap mem) (class_methods c)). searchable (mem_image mem) l"
  shows "\<exists>m. getMethodNoSuper_nolock mem c sel = Some m \<and>
    (case List.find (\<lambda>b. fst b = sel) (concat (map (bigs (mem_image mem)) (lists_of (mem_heap mem) (class_methods c)))) of None \<Rightarrow> m = 0
     | Some b \<Rightarrow> m \<noteq> 0 \<and> (method_name (mem_image mem) m, method_types (mem_image mem) m, method_imp (mem_image mem) remapped m) = b)"
  using search_lists_from [OF assms, of 0 sel remapped] assms(1)
  by (simp add: getMethodNoSuper_nolock_def Let_def endLists_cursor)

text \<open>A superclass chain: classes up to the root class, each with lists that can be searched.\<close>

fun superclass_chain :: "(u64 \<Rightarrow> u64) \<Rightarrow> u64 \<Rightarrow> u64 list \<Rightarrow> bool" where
  "superclass_chain super cls [] = (cls = 0)"
| "superclass_chain super cls (c # cs) = (cls = c \<and> c \<noteq> 0 \<and> superclass_chain super (super c) cs)"

definition class_searchable :: "memory \<Rightarrow> class_rw_t \<Rightarrow> bool" where
  "class_searchable mem c \<longleftrightarrow> la_wf (mem_heap mem) (class_methods c) \<and>
     (\<forall>l\<in>set (lists_of (mem_heap mem) (class_methods c)). searchable (mem_image mem) l)"

definition class_bigs :: "memory \<Rightarrow> class_rw_t \<Rightarrow> (u64 \<times> u64 \<times> u64) list" where
  "class_bigs mem c = concat (map (bigs (mem_image mem)) (lists_of (mem_heap mem) (class_methods c)))"

subsection \<open>Properties\<close>

text \<open>
  C5: Attaching any number of categories to a class succeeds. The method, property and protocol lists of
  the class are then those of the categories, the last loaded one first, followed by the lists
  the class had. A lookup returns for every selector, and finds the first method with that
  (registered) selector in this order, with its types and implementation, or nil if there is none:
  a category overrides the class and every category before it. (Big, pairwise disjoint lists;
  fewer than 2^31 lists.)
\<close>

theorem category_overrides:
  fixes mem c E fl cats
  defines "W \<equiv> mem_image mem"
    and "new \<equiv> listed (cat_methods E (fl AND ATTACH_METACLASS \<noteq> 0)) cats"
    and "old \<equiv> lists_of (mem_heap mem) (class_methods c)"
    and "props \<equiv> lists_of (mem_heap mem) (class_properties c)"
    and "protos \<equiv> lists_of (mem_heap mem) (class_protocols c)"
  assumes "serves M N" and "all_three N mem c" and "\<forall>e\<in>set cats. valid_entry E (fl AND ATTACH_METACLASS \<noteq> 0) e"
    and "length old + length cats < 2 ^ 31 - 1" and "length props + length cats < 2 ^ 31 - 1" and "length protos + length cats < 2 ^ 31 - 1"
    and "\<forall>l\<in>set (new @ old). searchable W l" and "distinct (new @ old)" and "separated W (set (new @ old))"
  shows "\<exists>mem' c'. attachCategories M registerName E mem c cats fl = Some (mem', c') \<and>
    lists_of (mem_heap mem') (class_methods c') = rev new @ old \<and>
    lists_of (mem_heap mem') (class_properties c') = rev (listed (cat_props E (fl AND ATTACH_METACLASS \<noteq> 0)) cats) @ props \<and>
    lists_of (mem_heap mem') (class_protocols c') = rev (listed (cat_protos E (fl AND ATTACH_METACLASS \<noteq> 0)) cats) @ protos \<and>
    (\<forall>sel. \<exists>m. getMethodNoSuper_nolock mem' c' sel = Some m \<and>
      (case List.find (\<lambda>(name, types, imp). name = sel) (concat (map (registered registerName W) (rev new)) @ concat (map (bigs W) old)) of
         None \<Rightarrow> m = 0
       | Some (name, types, imp) \<Rightarrow>
           m \<noteq> 0 \<and> method_types (mem_image mem') m = types \<and> method_imp (mem_image mem') remapped m = imp))"
proof -
  let ?meta = "fl AND ATTACH_METACLASS \<noteq> 0"
  have new: "\<forall>l\<in>set new. searchable W l" "distinct new" "separated W (set new)"
    using assms(12-14) by (auto simp: separated_def)
  obtain mem' c' D where a: "attachCategories M registerName E mem c cats fl = Some (mem', c')" "all_three N mem' c'"
    "lists_of (mem_heap mem') (class_methods c') = rev new @ old"
    "lists_of (mem_heap mem') (class_properties c') = rev (listed (cat_props E ?meta) cats) @ props"
    "lists_of (mem_heap mem') (class_protocols c') = rev (listed (cat_protos E ?meta) cats) @ protos"
    "mset D = mset new" "prepareMethodLists registerName W D = Some (mem_image mem')"
    using attachCategories_lists [OF assms(6,7) refl assms(8)] assms(9-11) preparable_separated [OF new]
    unfolding W_def new_def old_def props_def protos_def by blast
  have D: "set D = set new" "distinct D" using a(6) new(2) mset_eq_setD mset_eq_imp_distinct_iff by blast+
  obtain m where m: "mem_image mem' = W\<lparr>bytes := m\<rparr>" "\<forall>x. (\<forall>l\<in>set new. outside l (extent W l) x) \<longrightarrow> m x = bytes W x"
    "\<forall>l\<in>set new. searchable (W\<lparr>bytes := m\<rparr>) l \<and> finds (W\<lparr>bytes := m\<rparr>) l (registered registerName W l)"
    using prepare_all [of D W registerName] new D a(7) by auto
  have o: "searchable (W\<lparr>bytes := m\<rparr>) l" "bigs (W\<lparr>bytes := m\<rparr>) l = bigs W l" if l: "l \<in> set old" for l
  proof -
    have "m x = bytes W x" if "unat l \<le> unat x" "unat x < unat l + extent W l" for x
    proof -
      have "outside k (extent W k) x" if k: "k \<in> set new" for k
      proof -
        have "l \<noteq> k" using l k assms(13) by auto
        then have "separate W l k" using l k assms(14) unfolding separated_def by simp
        then show ?thesis using that outside_separate \<open>unat l \<le> unat x\<close> \<open>unat x < unat l + extent W l\<close> by blast
      qed
      then show ?thesis using m(2) by blast
    qed
    moreover have "big_list W l" "searchable W l" using assms(12) l by (simp_all add: searchable_def)
    ultimately show "searchable (W\<lparr>bytes := m\<rparr>) l" "bigs (W\<lparr>bytes := m\<rparr>) l = bigs W l" using region_cong [of W l m] by auto
  qed
  have f: "List.find (\<lambda>b. fst b = sel) (concat (map (bigs (mem_image mem')) (rev new @ old))) =
      List.find (\<lambda>(name, types, imp). name = sel) (concat (map (registered registerName W) (rev new)) @ concat (map (bigs W) old))" for sel
  proof -
    have "List.find (\<lambda>b. fst b = sel) (concat (map (bigs (mem_image mem')) (rev new))) =
        List.find (\<lambda>b. fst b = sel) (concat (map (registered registerName W) (rev new)))"
      using m(3) by (intro find_concat_cong) (simp add: m(1) finds_def)
    moreover have "map (bigs (mem_image mem')) old = map (bigs W) old" using o(2) by (simp add: m(1))
    ultimately show ?thesis by (simp only: map_append concat_append find_append split_beta')
  qed
  have "\<exists>x. getMethodNoSuper_nolock mem' c' sel = Some x \<and>
      (case List.find (\<lambda>(name, types, imp). name = sel) (concat (map (registered registerName W) (rev new)) @ concat (map (bigs W) old)) of
         None \<Rightarrow> x = 0
       | Some (name, types, imp) \<Rightarrow> x \<noteq> 0 \<and> method_types (mem_image mem') x = types \<and> method_imp (mem_image mem') remapped x = imp)" for sel
  proof -
    have "la_wf (mem_heap mem') (class_methods c')" using a(2) by (simp add: three_def)
    moreover have "\<forall>l\<in>set (lists_of (mem_heap mem') (class_methods c')). searchable (mem_image mem') l"
      using a(3) m(1,3) o(1) by auto
    ultimately show ?thesis
      using getMethodNoSuper_spec [of mem' c' sel remapped] unfolding a(3) f by (auto split: option.splits)
  qed
  then show ?thesis using a(1,3-5) by blast
qed

text \<open>
  C17: A lookup along the superclasses returns for every selector, whatever the depth of the hierarchy, and
  finds the first method with the selector among the methods of the class, then of its
  superclass, and so on; it gives nil exactly if no class up to the root has one.
\<close>

theorem superclass_lookup:
  assumes "superclass_chain getSuperclass cls chain" and "\<forall>c\<in>set chain. class_searchable mem (data c)"
  shows "\<exists>m. getMethod_nolock mem data getSuperclass sel cls = Some m \<and>
    (case List.find (\<lambda>b. fst b = sel) (concat (map (class_bigs mem \<circ> data) chain)) of
       None \<Rightarrow> m = 0
     | Some b \<Rightarrow> m \<noteq> 0 \<and> (method_name (mem_image mem) m, method_types (mem_image mem) m, method_imp (mem_image mem) remapped m) = b)"
  using assms
proof (induction chain arbitrary: cls)
  case Nil
  then show ?case by (simp add: getMethod_nolock.simps)
next
  case (Cons c chain)
  have c: "cls = c" "c \<noteq> 0" "superclass_chain getSuperclass (getSuperclass c) chain" using Cons.prems(1) by simp_all
  obtain m where m: "getMethodNoSuper_nolock mem (data c) sel = Some m"
    "case List.find (\<lambda>b. fst b = sel) (class_bigs mem (data c)) of None \<Rightarrow> m = 0
     | Some b \<Rightarrow> m \<noteq> 0 \<and> (method_name (mem_image mem) m, method_types (mem_image mem) m, method_imp (mem_image mem) remapped m) = b"
    using getMethodNoSuper_spec [of mem "data c" sel remapped] Cons.prems(2) unfolding class_bigs_def class_searchable_def by auto
  show ?case
  proof (cases "List.find (\<lambda>b. fst b = sel) (class_bigs mem (data c))")
    case None
    then have "getMethod_nolock mem data getSuperclass sel cls = getMethod_nolock mem data getSuperclass sel (getSuperclass c)"
      using m c by (subst getMethod_nolock.simps) simp
    then show ?thesis using Cons.IH [OF c(3)] Cons.prems(2) None by (simp add: find_append)
  next
    case (Some b)
    then have "getMethod_nolock mem data getSuperclass sel cls = Some m" using m c by (subst getMethod_nolock.simps) simp
    then show ?thesis using m(2) Some by (simp add: find_append)
  qed
qed

text \<open>
  A class with one method of its own (selector 6, implementation 1) and a category with the methods
  of the list above, whose names register as 8 and 6.
\<close>

definition category_image :: image where
  "category_image = unsorted_image\<lparr>bytes := (bytes unsorted_image)(0x2000 := 27, 0x2004 := 1, 0x2008 := 6, 0x2018 := 1)\<rparr>"

definition sample_class :: class_rw_t where
  "sample_class = \<lparr>rw_flags = 0, ro_or_ext = Ro \<lparr>ro_flags = 0, baseMethods = 0x2000, baseProperties = 0, baseProtocols = 0\<rparr>\<rparr>"

definition sample_categories :: category_env where
  "sample_categories =
     \<lparr>category_at = (\<lambda>_. \<lparr>cat_name = 0, cat_cls = 0, instanceMethods = 0x1000, classMethods = 0, cat_protocols = 0,
        instanceProperties = 0, cat_classProperties = 0\<rparr>), hasCategoryClassProperties = (\<lambda>_. False)\<rparr>"

definition four_blocks :: allocator where
  "four_blocks =
     \<lparr>block_at = (\<lambda>h. if h 0x8000 = None then 0x8000 else if h 0x9000 = None then 0x9000
        else if h 0xa000 = None then 0xa000 else 0xb000), garbage = (\<lambda>_. 0)\<rparr>"

lemma serves_four_blocks: "serves four_blocks 4"
  unfolding serves_def
proof (intro allI impI)
  fix h :: array_heap
  assume c: "card (dom h) < 4"
  have "h (block_at four_blocks h) = None"
  proof (rule ccontr)
    assume "h (block_at four_blocks h) \<noteq> None"
    then have "{0x8000, 0x9000, 0xa000, 0xb000} \<subseteq> dom h" by (auto simp: four_blocks_def split: if_splits)
    then have "card {0x8000, 0x9000, 0xa000, 0xb000 :: u64} \<le> card (dom h)" by (intro card_mono) auto
    then show False using c by simp
  qed
  then show "fresh_block four_blocks h" by (simp add: fresh_block_def four_blocks_def hasArray_def)
qed

lemma category_headers:
  "list_count category_image 0x1000 = 2" "entsizeAndFlags category_image 0x1000 = 24"
  "list_count category_image 0x2000 = 1" "entsizeAndFlags category_image 0x2000 = 27"
  by (simp_all add: list_count_def entsizeAndFlags_def category_image_def unsorted_image_def read32_def read16_def)

lemma category_bigs: "bigs category_image 0x1000 = [(7, 0, 9), (5, 0, 11)]" "bigs category_image 0x2000 = [(6, 0, 1)]"
proof -
  have "bigs category_image 0x1000 = load_bigs (bytes category_image) 0x1008 (Suc (Suc 0))"
    "bigs category_image 0x2000 = load_bigs (bytes category_image) 0x2008 (Suc 0)"
    by (simp_all add: bigs_def category_headers method_at_def del: load_bigs.simps) (simp_all only: numeral_2_eq_2)
  then show "bigs category_image 0x1000 = [(7, 0, 9), (5, 0, 11)]" "bigs category_image 0x2000 = [(6, 0, 1)]"
    by (simp_all) (simp_all add: category_image_def unsorted_image_def read64_def read32_def read16_def)
qed

lemma category_searchable: "searchable category_image 0x1000" "searchable category_image 0x2000" "\<not> isUniqued category_image 0x1000"
  by (simp_all add: searchable_def category_bigs) (simp_all add: big_list_iff isSmallList_def isUniqued_def entsize_def list_flags_def
      category_headers method_FlagMask_def smallMethodListFlag_def bigSize_def uniqued_method_list_def isFixedUp_def fixed_up_method_list_def)

lemma category_overrides_witness:
  "\<exists>mem' c' m. attachCategories four_blocks (\<lambda>name. name + 1) sample_categories \<lparr>mem_image = category_image, mem_heap = (\<lambda>_. None)\<rparr>
      sample_class [\<lparr>lc_cat = 0x100, lc_hi = 0\<rparr>] ATTACH_CLASS = Some (mem', c') \<and>
    lists_of (mem_heap mem') (class_methods c') = [0x1000, 0x2000] \<and>
    getMethodNoSuper_nolock mem' c' 6 = Some m \<and> method_imp (mem_image mem') (\<lambda>_. 0) m = 11"
proof -
  let ?mem = "\<lparr>mem_image = category_image, mem_heap = (\<lambda>_. None)\<rparr>" and ?cats = "[\<lparr>lc_cat = 0x100, lc_hi = 0\<rparr>]"
  have meta: "(ATTACH_CLASS AND ATTACH_METACLASS \<noteq> 0) = False" by (simp add: ATTACH_CLASS_def ATTACH_METACLASS_def)
  have c: "class_methods sample_class = 0x2000" "class_properties sample_class = 0" "class_protocols sample_class = 0"
    by (simp_all add: class_methods_def class_properties_def class_protocols_def sample_class_def)
  have ls: "lists_of (\<lambda>_. None) 0x2000 = [0x2000]" "lists_of (\<lambda>_. None) 0 = []" by (simp_all add: lists_of_def hasArray_def)
  have e: "cat_methods sample_categories False x = 0x1000" "cat_props sample_categories False x = 0"
    "cat_protos sample_categories False x = 0" for x
    by (simp_all add: cat_methods_def cat_props_def cat_protos_def methodsForMeta_def propertiesForMeta_def protocolsForMeta_def
        sample_categories_def)
  have T: "all_three 4 ?mem sample_class"
    unfolding c by (simp add: three_def la_wf_def apart_def spare_def hasArray_def)
  have V: "\<forall>x\<in>set ?cats. valid_entry sample_categories (ATTACH_CLASS AND ATTACH_METACLASS \<noteq> 0) x"
    unfolding meta by (simp add: valid_entry_def e valid_list_def hasArray_def)
  have n: "listed (cat_methods sample_categories False) ?cats = [0x1000]" by (simp add: e some_list_def)
  have sep: "separated category_image (set ([0x1000] @ [0x2000]))"
    by (simp add: separated_def separate_def extent_def category_headers)
  obtain mem' c' where a: "attachCategories four_blocks (\<lambda>name. name + 1) sample_categories ?mem sample_class ?cats ATTACH_CLASS = Some (mem', c')"
    "lists_of (mem_heap mem') (class_methods c') = rev [0x1000] @ [0x2000]"
    "\<forall>sel. \<exists>m. getMethodNoSuper_nolock mem' c' sel = Some m \<and>
      (case List.find (\<lambda>(name, types, imp). name = sel)
         (concat (map (registered (\<lambda>name. name + 1) category_image) (rev [0x1000])) @ concat (map (bigs category_image) [0x2000])) of
         None \<Rightarrow> m = 0
       | Some (name, types, imp) \<Rightarrow> m \<noteq> 0 \<and> method_types (mem_image mem') m = types \<and> method_imp (mem_image mem') (\<lambda>_. 0) m = imp)"
    using category_overrides [OF serves_four_blocks T V, of "\<lambda>name. name + 1" "\<lambda>_. 0"] sep category_searchable
    unfolding meta memory.simps c ls n by auto
  then show ?thesis
    using a(3) [rule_format, of 6] by (auto simp: registered_def category_bigs category_searchable renamed_def)
qed

lemma superclass_lookup_witness:
  "\<exists>m. getMethod_nolock \<lparr>mem_image = category_image, mem_heap = (\<lambda>_. None)\<rparr> (\<lambda>c. if c = 0x500 then sample_class\<lparr>ro_or_ext := Ro
       \<lparr>ro_flags = 0, baseMethods = 0, baseProperties = 0, baseProtocols = 0\<rparr>\<rparr> else sample_class)
     (\<lambda>c. if c = 0x500 then 0x600 else 0) 6 0x500 = Some m \<and> m \<noteq> 0 \<and> method_imp category_image (\<lambda>_. 0) m = 1"
proof -
  let ?mem = "\<lparr>mem_image = category_image, mem_heap = (\<lambda>_. None)\<rparr>"
  let ?data = "\<lambda>c :: u64. if c = 0x500 then sample_class\<lparr>ro_or_ext := Ro
       \<lparr>ro_flags = 0, baseMethods = 0, baseProperties = 0, baseProtocols = 0\<rparr>\<rparr> else sample_class"
  have c: "class_methods (?data 0x500) = 0" "class_methods (?data 0x600) = 0x2000"
    by (simp_all add: class_methods_def sample_class_def)
  have ls: "lists_of (\<lambda>_. None) 0x2000 = [0x2000]" "lists_of (\<lambda>_. None) 0 = []" by (simp_all add: lists_of_def hasArray_def)
  have s: "\<forall>c\<in>set [0x500, 0x600]. class_searchable ?mem (?data c)"
    using category_searchable(2) c by (simp add: class_searchable_def ls la_wf_def hasArray_def)
  have b: "class_bigs ?mem (?data 0x500) = []" "class_bigs ?mem (?data 0x600) = [(6, 0, 1)]"
    unfolding class_bigs_def c by (simp_all add: ls category_bigs)
  have ch: "superclass_chain (\<lambda>c. if c = 0x500 then 0x600 else 0) 0x500 [0x500, 0x600]" by simp
  show ?thesis
    using superclass_lookup [OF ch s, of 6 "\<lambda>_. 0"] b by (auto simp: comp_def)
qed

end
