(* ===== verification/CategoryLists.thy ===== *)
theory CategoryLists
  imports Categories
begin

text \<open>
  Lists of categories that wait for a class: appending keeps the load order through every growth of
  the array; erasing from an array does not reduce its count.
\<close>

definition contents :: "category_list \<Rightarrow> locstamped_category_t list" where
  "contents cl = take (unat (category_count cl)) (category_array cl)"

definition cl_wf :: "category_list \<Rightarrow> bool" where
  "cl_wf cl \<longleftrightarrow>
     (case cl of In_place _ \<Rightarrow> True
      | In_array cats n len \<Rightarrow> length cats = unat len \<and> unat n \<le> unat len \<and> 2 \<le> unat n \<and> unat len < 2 ^ 27)"

lemma grown_size_bounds:
  assumes "2 \<le> unat len" and "unat len < 2 ^ 27"
  shows "unat len < unat (grown_size len)" and "unat (grown_size len) \<le> 2 * unat len"
proof -
  have "\<exists>d. unat (if len < 8 then 2 else push_bit (fls len - 2) 1 :: u32) = d \<and> 0 < d \<and> d \<le> unat len"
  proof (cases "len < 8")
    case True
    then show ?thesis using assms by simp
  next
    case False
    then have l8: "8 \<le> unat len" by (simp add: word_less_nat_alt not_less)
    then obtain k where k: "top_bit len k" using top_bit_ex [of len] by fastforce
    have p: "2 ^ k \<le> unat len" "unat len < 2 ^ Suc k" using k by (simp_all add: top_bit_def)
    have "(2 :: nat) ^ k < 2 ^ 27" "(2 :: nat) ^ 3 < 2 ^ Suc k" using p l8 assms(2) by simp_all
    then have "k < 27" and "3 < Suc k" by (metis power_less_imp_less_exp one_less_numeral_iff semiring_norm(76))+
    then have "2 < k" by simp
    then have f: "fls len - 2 = k - 1" using \<open>k < 27\<close> CountLeadingZeros_32_top_bit [OF k] by (simp add: fls_def)
    have "(2 :: nat) ^ (k - 1) < 2 ^ 32" using \<open>k < 27\<close> by (intro power_strict_increasing) auto
    then have "unat (push_bit (k - 1) (1 :: u32)) = 2 ^ (k - 1)"
      using unat_of_nat [of "2 ^ (k - 1)", where ?'a = 32] by simp
    moreover have "(2 :: nat) ^ (k - 1) \<le> unat len" by (rule order_trans [OF power_increasing p(1)]) auto
    ultimately show ?thesis using False p(1) f by auto
  qed
  then show "unat len < unat (grown_size len)" "unat (grown_size len) \<le> 2 * unat len"
    using assms(2) by (auto simp: grown_size_def unat_word_ariths)
qed

lemma arrayByteSize_exact: "unat len < 2 ^ 28 \<Longrightarrow> unat (arrayByteSize len) div 16 = unat len"
  by (simp add: arrayByteSize_def unat_word_ariths)

lemma unat_count_inc: "unat (n :: u32) < 2 ^ 31 - 1 \<Longrightarrow> unat ((n + 1) AND 0x7fffffff) = Suc (unat n)"
proof -
  assume n: "unat n < 2 ^ 31 - 1"
  then have u: "unat (n + 1) = Suc (unat n)" by (simp add: unat_word_ariths)
  have "(0x7fffffff :: u32) = mask 31" by (simp add: mask_eq_exp_minus_1)
  then have "(n + 1) AND 0x7fffffff = take_bit 31 (n + 1)" by (simp only: take_bit_eq_mask)
  then have "unat ((n + 1) AND 0x7fffffff) = take_bit 31 (unat (n + 1))" by (simp only: unsigned_take_bit_eq)
  then show ?thesis using u n by (simp add: take_bit_nat_eq_self)
qed

text \<open>Appending adds the category at the end, whether it is the first, the second or needs the array to grow.\<close>

lemma category_append_contents:
  assumes "cl_wf cl" and "lc_cat lc \<noteq> 0"
  shows "contents (category_append blank cl lc) = contents cl @ [lc]"
    and "(case cl of In_array _ _ len \<Rightarrow> unat len < 2 ^ 26 | _ \<Rightarrow> True) \<Longrightarrow> cl_wf (category_append blank cl lc)"
proof -
  have "contents (category_append blank cl lc) = contents cl @ [lc] \<and>
    ((case cl of In_array _ _ len \<Rightarrow> unat len < 2 ^ 26 | _ \<Rightarrow> True) \<longrightarrow> cl_wf (category_append blank cl lc))"
  proof (cases cl)
    case (In_place old)
    then show ?thesis using assms
      by (auto simp: contents_def category_append_def category_count_def category_array_def cl_wf_def)
  next
    case (In_array cats n len)
    have w: "length cats = unat len" "unat n \<le> unat len" "2 \<le> unat n" "unat len < 2 ^ 27"
      using assms(1) In_array by (simp_all add: cl_wf_def)
    have inc: "unat ((n + 1) AND 0x7fffffff) = Suc (unat n)" using w by (intro unat_count_inc) simp
    define len' where "len' = (if n = len then grown_size len else len)"
    define cats' where "cats' = (if n = len then reallocf blank cats (unat (arrayByteSize len') div 16) else cats)"
    have g: "unat n < unat len'" "n = len \<Longrightarrow> unat len' \<le> 2 * unat len"
      using grown_size_bounds [of len] w by (auto simp: len'_def word_unat_eq_iff)
    have len: "length cats' = unat len'" "take (unat n) cats' = take (unat n) cats"
      using g w by (auto simp: cats'_def arrayByteSize_exact reallocf_def len'_def)
    have a: "category_append blank cl lc = In_array (cats'[unat n := lc]) ((n + 1) AND 0x7fffffff) len'"
      by (simp only: In_array category_append_def category_list.case Let_def len'_def cats'_def)
    have "take (Suc (unat n)) (cats'[unat n := lc]) = take (unat n) cats @ [lc]"
      using len g(1) by (simp add: take_Suc_conv_app_nth)
    then show ?thesis unfolding a using In_array w inc len(1) g
      by (auto simp: contents_def category_count_def category_array_def cl_wf_def len'_def split: if_splits)
  qed
  then show "contents (category_append blank cl lc) = contents cl @ [lc]"
    "(case cl of In_array _ _ len \<Rightarrow> unat len < 2 ^ 26 | _ \<Rightarrow> True) \<Longrightarrow> cl_wf (category_append blank cl lc)" by blast+
qed

text \<open>The comment in \<open>append\<close> says that an array of 8 entries grows by 2 and one of 16 by 4.\<close>

lemma grown_size_8_16: "grown_size 8 = 12" "grown_size 16 = 24"
proof -
  have "top_bit (8 :: u32) 3" "top_bit (16 :: u32) 4" by (simp_all add: top_bit_def)
  from this [THEN CountLeadingZeros_32_top_bit] show "grown_size 8 = 12" "grown_size 16 = 24"
    by (simp_all add: grown_size_def fls_def push_bit_eq_mult)
qed

text \<open>
  Erasing a category from an array moves the entries behind it, but does not lower the count: the last
  category is then there twice, or, if it was the one to erase, is not erased. The count of the
  array is never 0, so \<open>eraseCategoryForClass\<close> never drops the array.
\<close>

lemma erase_from_spec:
  assumes "left \<le> n" and "n \<le> length cats" and "n - left \<le> i" and "i < n" and "lc_cat (cats ! i) = cat"
    and "\<forall>j. n - left \<le> j \<and> j < i \<longrightarrow> lc_cat (cats ! j) \<noteq> cat"
  shows "erase_from cats cat n left = take i cats @ take (n - i - 1) (drop (Suc i) cats) @ drop (n - 1) cats"
  using assms
proof (induction left)
  case (Suc left)
  show ?case
  proof (cases "i = n - Suc left")
    case True
    then show ?thesis using Suc.prems by (simp add: Let_def)
  next
    case False
    then have "n - Suc left < i" using Suc.prems(3) by simp
    then have "lc_cat (cats ! (n - Suc left)) \<noteq> cat" using Suc.prems(6) by blast
    moreover have "erase_from cats cat n left = take i cats @ take (n - i - 1) (drop (Suc i) cats) @ drop (n - 1) cats"
      using Suc.prems \<open>n - Suc left < i\<close> by (intro Suc.IH) auto
    ultimately show ?thesis by (simp add: Let_def)
  qed
qed simp

lemma category_erase_keeps_last:
  assumes "cl_wf (In_array cats n len)" and "i < unat n" and "lc_cat (cats ! i) = cat" and "\<forall>j<i. lc_cat (cats ! j) \<noteq> cat"
  shows "contents (category_erase (In_array cats n len) cat) =
      take i (take (unat n) cats) @ drop (Suc i) (take (unat n) cats) @ [cats ! (unat n - 1)]"
    and "category_count (category_erase (In_array cats n len) cat) = n"
proof -
  have w: "unat n \<le> length cats" "2 \<le> unat n" using assms(1) by (simp_all add: cl_wf_def)
  have e: "erase_from cats cat (unat n) (unat n) = take i cats @ take (unat n - i - 1) (drop (Suc i) cats) @ drop (unat n - 1) cats"
    using assms w by (intro erase_from_spec) auto
  have "drop (unat n - 1) cats = cats ! (unat n - 1) # drop (unat n) cats"
    using w Cons_nth_drop_Suc [of "unat n - 1" cats] by simp
  then show "contents (category_erase (In_array cats n len) cat) =
      take i (take (unat n) cats) @ drop (Suc i) (take (unat n) cats) @ [cats ! (unat n - 1)]"
    using w assms(2) by (simp add: contents_def category_erase_def category_count_def category_array_def e min_def drop_take)
  show "category_count (category_erase (In_array cats n len) cat) = n"
    by (simp add: category_erase_def category_count_def)
qed

lemma erase_array_stays:
  assumes "cl_wf (In_array cats n len)" and "uc cls = Some (In_array cats n len)"
  shows "eraseCategoryForClass uc cat cls cls \<noteq> None"
proof -
  have "n \<noteq> 0" using assms(1) by (auto simp: cl_wf_def)
  then show ?thesis using assms(2)
    by (simp add: eraseCategoryForClass_def category_erase_def category_count_def Let_def)
qed

end
