(* ===== verification/AutoreleasePool.thy ===== *)
theory AutoreleasePool
  imports OptimizedReturn
begin

text \<open>
  The autorelease pool of a thread (\<open>AutoreleasePoolPage\<close> of \<open>NSObject.mm\<close> and its data in
  \<open>NSObject-internal.h\<close>): a stack of words in a doubly linked list of pages, with thread-local storage
  pointing to the hot page. A word is a boundary (0) or an entry of a 48-bit pointer and a 16-bit
  count of further releases. A position in a page is an index; its address is \<open>slot_addr\<close>. Pages live in
  a heap; \<open>None\<close> stands for an access to memory that is not a page, or a loop that does not end. The magic
  numbers and threads that pages are checked for are left out: nothing modelled here changes them.
\<close>

subsection \<open>Pages\<close>

definition PAGE_SIZE :: u64 where "PAGE_SIZE = 4096"

text \<open>\<open>sizeof(AutoreleasePoolPage)\<close>, and the number of words that follow.\<close>

definition HEADER_SIZE :: u64 where "HEADER_SIZE = 56"
definition PAGE_SLOTS :: nat where "PAGE_SLOTS = 505"

definition EMPTY_POOL_PLACEHOLDER :: u64 where "EMPTY_POOL_PLACEHOLDER = 1"
definition POOL_BOUNDARY :: u64 where "POOL_BOUNDARY = 0"
definition SCRIBBLED :: u64 where "SCRIBBLED = 0xA3A3A3A3A3A3A3A3"
definition maxCount :: u64 where "maxCount = 65535"

record AutoreleasePoolPage =
  page_slots :: "u64 list"
  page_next :: nat
  page_parent :: u64
  page_child :: u64
  page_depth :: "32 word"
  page_hiwat :: "32 word"

type_synonym page_heap = "u64 \<Rightarrow> AutoreleasePoolPage option"

text \<open>
  The state of a thread: its pages, the thread-local word, the objects released so far and, for each
  release to come, the objects that it will autorelease in turn (from a \<open>dealloc\<close> method).
\<close>

record pools =
  pages :: page_heap
  tls :: u64
  released :: "u64 list"
  reactions :: "u64 list list"

text \<open>Where the next page will be allocated and what it holds, and the debugging options.\<close>

record pool_env =
  page_at :: "page_heap \<Rightarrow> u64"
  page_garbage :: "nat \<Rightarrow> u64"
  DisableAutoreleaseCoalescing :: bool
  DisableAutoreleaseCoalescingLRU :: bool
  DebugPoolAllocation :: bool
  DebugMissingPools :: bool
  PrintPoolHiwat :: bool
  bad_pop_is_fatal :: bool

definition slot_addr :: "u64 \<Rightarrow> nat \<Rightarrow> u64" where
  "slot_addr page i = page + HEADER_SIZE + 8 * of_nat i"

definition slot_index :: "u64 \<Rightarrow> nat" where
  "slot_index p = unat (p mod PAGE_SIZE - HEADER_SIZE) div 8"

definition pageForPointer :: "u64 \<Rightarrow> u64" where
  "pageForPointer p = p - p mod PAGE_SIZE"

definition page_empty :: "AutoreleasePoolPage \<Rightarrow> bool" where
  "page_empty pg \<longleftrightarrow> page_next pg = 0"

definition page_full :: "AutoreleasePoolPage \<Rightarrow> bool" where
  "page_full pg \<longleftrightarrow> page_next pg = PAGE_SLOTS"

definition lessThanHalfFull :: "AutoreleasePoolPage \<Rightarrow> bool" where
  "lessThanHalfFull pg \<longleftrightarrow> page_next pg < PAGE_SLOTS div 2"

definition set_page :: "u64 \<Rightarrow> AutoreleasePoolPage \<Rightarrow> pools \<Rightarrow> pools" where
  "set_page p pg s = s\<lparr>pages := (pages s)(p \<mapsto> pg)\<rparr>"

subsection \<open>Entries\<close>

definition entry_ptr :: "u64 \<Rightarrow> u64" where
  "entry_ptr w = take_bit 48 w"

definition entry_count :: "u64 \<Rightarrow> u64" where
  "entry_count w = drop_bit 48 w"

definition entry_increment :: "u64 \<Rightarrow> u64" where
  "entry_increment w = w + 0x1000000000000"

text \<open>
  The search for the object among the last four entries; it stops at a boundary and at the first word of
  the page. The argument \<open>left\<close> counts the rounds that are left.
\<close>

fun recent_entry :: "AutoreleasePoolPage \<Rightarrow> u64 \<Rightarrow> nat \<Rightarrow> nat option" where
  "recent_entry pg obj 0 = None"
| "recent_entry pg obj (Suc left) =
     (let offset = 3 - left; i = page_next pg - 1 - offset in
      if i \<le> 0 \<or> page_slots pg ! i = POOL_BOUNDARY then None
      else if entry_ptr (page_slots pg ! i) = obj \<and> entry_count (page_slots pg ! i) < maxCount then Some i
      else recent_entry pg obj left)"

text \<open>The entry moves to the top, the entries above it move down.\<close>

definition entry_to_top :: "AutoreleasePoolPage \<Rightarrow> nat \<Rightarrow> u64 list" where
  "entry_to_top pg i =
     (let top = page_next pg - 1; found = page_slots pg ! i in
      take i (page_slots pg) @ take (top - i) (drop (Suc i) (page_slots pg)) @ [entry_increment found] @ drop (Suc top) (page_slots pg))"

definition page_add :: "pool_env \<Rightarrow> AutoreleasePoolPage \<Rightarrow> u64 \<Rightarrow> nat \<times> AutoreleasePoolPage" where
  "page_add E pg obj =
     (let plain = (page_next pg, pg\<lparr>page_slots := (page_slots pg)[page_next pg := obj], page_next := page_next pg + 1\<rparr>);
          top = page_next pg - 1 in
      if (\<not> DisableAutoreleaseCoalescing E \<or> \<not> DisableAutoreleaseCoalescingLRU E) \<and> \<not> page_empty pg \<and> obj \<noteq> POOL_BOUNDARY then
        (if \<not> DisableAutoreleaseCoalescingLRU E then
           (case recent_entry pg obj 4 of
              None \<Rightarrow> plain
            | Some i \<Rightarrow> (top, pg\<lparr>page_slots := entry_to_top pg i\<rparr>))
         else
           (let prev = page_slots pg ! top in
            if entry_ptr prev = obj \<and> entry_count prev < maxCount
            then (top, pg\<lparr>page_slots := (page_slots pg)[top := entry_increment prev]\<rparr>)
            else plain))
      else plain)"

definition add_to :: "pool_env \<Rightarrow> u64 \<Rightarrow> u64 \<Rightarrow> pools \<Rightarrow> (u64 \<times> pools) option" where
  "add_to E page obj s =
     (case pages s page of None \<Rightarrow> None
      | Some pg \<Rightarrow> (let (i, pg') = page_add E pg obj in Some (slot_addr page i, set_page page pg' s)))"

subsection \<open>The hot page\<close>

definition hotPage :: "pools \<Rightarrow> u64" where
  "hotPage s = (if tls s = EMPTY_POOL_PLACEHOLDER then 0 else tls s)"

definition setHotPage :: "u64 \<Rightarrow> pools \<Rightarrow> pools" where
  "setHotPage page s = s\<lparr>tls := page\<rparr>"

definition haveEmptyPoolPlaceholder :: "pools \<Rightarrow> bool" where
  "haveEmptyPoolPlaceholder s \<longleftrightarrow> tls s = EMPTY_POOL_PLACEHOLDER"

definition setEmptyPoolPlaceholder :: "pools \<Rightarrow> u64 \<times> pools" where
  "setEmptyPoolPlaceholder s = (EMPTY_POOL_PLACEHOLDER, s\<lparr>tls := EMPTY_POOL_PLACEHOLDER\<rparr>)"

partial_function (option) coldest :: "page_heap \<Rightarrow> u64 \<Rightarrow> u64 option" where
  "coldest h page =
     (case h page of None \<Rightarrow> None
      | Some pg \<Rightarrow> if page_parent pg = 0 then Some page else coldest h (page_parent pg))"

definition coldPage :: "pools \<Rightarrow> u64 option" where
  "coldPage s = (if hotPage s = 0 then Some 0 else coldest (pages s) (hotPage s))"

text \<open>A new page, linked behind its parent.\<close>

definition new_page :: "pool_env \<Rightarrow> u64 \<Rightarrow> pools \<Rightarrow> (u64 \<times> pools) option" where
  "new_page E newParent s =
     (let p = page_at E (pages s);
          page = (\<lambda>d hw. \<lparr>page_slots = map (page_garbage E) [0..<PAGE_SLOTS], page_next = 0, page_parent = newParent, page_child = 0,
            page_depth = d, page_hiwat = hw\<rparr>) in
      if newParent = 0 then Some (p, set_page p (page 0 0) s)
      else
        (case pages s newParent of None \<Rightarrow> None
         | Some pg \<Rightarrow>
             Some (p, set_page newParent (pg\<lparr>page_child := p\<rparr>) (set_page p (page (1 + page_depth pg) (page_hiwat pg)) s))))"

subsection \<open>Adding objects and boundaries\<close>

partial_function (option) next_free_page :: "pool_env \<Rightarrow> u64 \<Rightarrow> pools \<Rightarrow> (u64 \<times> pools) option" where
  "next_free_page E page s =
     (case pages s page of None \<Rightarrow> None
      | Some pg \<Rightarrow>
          (case (if page_child pg \<noteq> 0 then Some (page_child pg, s) else new_page E page s) of None \<Rightarrow> None
           | Some (p, s') \<Rightarrow>
               (case pages s' p of None \<Rightarrow> None
                | Some pg' \<Rightarrow> if page_full pg' then next_free_page E p s' else Some (p, s'))))"

definition autoreleaseFullPage :: "pool_env \<Rightarrow> u64 \<Rightarrow> u64 \<Rightarrow> pools \<Rightarrow> (u64 \<times> pools) option" where
  "autoreleaseFullPage E obj page s =
     (case next_free_page E page s of None \<Rightarrow> None
      | Some (p, s') \<Rightarrow> add_to E p obj (setHotPage p s'))"

definition autoreleaseNoPage :: "pool_env \<Rightarrow> u64 \<Rightarrow> pools \<Rightarrow> (u64 \<times> pools) option" where
  "autoreleaseNoPage E obj s =
     (if \<not> haveEmptyPoolPlaceholder s \<and> obj \<noteq> POOL_BOUNDARY \<and> DebugMissingPools E then Some (0, s)
      else if \<not> haveEmptyPoolPlaceholder s \<and> obj = POOL_BOUNDARY \<and> \<not> DebugPoolAllocation E then Some (setEmptyPoolPlaceholder s)
      else
        (case new_page E 0 s of None \<Rightarrow> None
         | Some (p, s1) \<Rightarrow>
             let s2 = setHotPage p s1 in
             (case (if haveEmptyPoolPlaceholder s then map_option snd (add_to E p POOL_BOUNDARY s2) else Some s2) of None \<Rightarrow> None
              | Some s3 \<Rightarrow> add_to E p obj s3)))"

definition autoreleaseFast :: "pool_env \<Rightarrow> u64 \<Rightarrow> pools \<Rightarrow> (u64 \<times> pools) option" where
  "autoreleaseFast E obj s =
     (let page = hotPage s in
      if page = 0 then autoreleaseNoPage E obj s
      else
        (case pages s page of None \<Rightarrow> None
         | Some pg \<Rightarrow> if \<not> page_full pg then add_to E page obj s else autoreleaseFullPage E obj page s))"

definition autoreleaseNewPage :: "pool_env \<Rightarrow> u64 \<Rightarrow> pools \<Rightarrow> (u64 \<times> pools) option" where
  "autoreleaseNewPage E obj s =
     (let page = hotPage s in if page \<noteq> 0 then autoreleaseFullPage E obj page s else autoreleaseNoPage E obj s)"

definition autorelease :: "pool_env \<Rightarrow> u64 \<Rightarrow> pools \<Rightarrow> pools option" where
  "autorelease E obj s = map_option snd (autoreleaseFast E obj s)"

definition pool_push :: "pool_env \<Rightarrow> pools \<Rightarrow> (u64 \<times> pools) option" where
  "pool_push E s =
     (if DebugPoolAllocation E then autoreleaseNewPage E POOL_BOUNDARY s else autoreleaseFast E POOL_BOUNDARY s)"

subsection \<open>Releasing\<close>

fun autorelease_all :: "pool_env \<Rightarrow> u64 list \<Rightarrow> pools \<Rightarrow> pools option" where
  "autorelease_all E [] s = Some s"
| "autorelease_all E (obj # objs) s =
     (case autorelease E obj s of None \<Rightarrow> None | Some s' \<Rightarrow> autorelease_all E objs s')"

text \<open>\<open>objc_release\<close>, seen from the pool: the object is released, and its reaction is autoreleased.\<close>

definition objc_release_in :: "pool_env \<Rightarrow> u64 \<Rightarrow> pools \<Rightarrow> pools option" where
  "objc_release_in E obj s =
     (let s1 = s\<lparr>released := released s @ [obj]\<rparr> in
      case reactions s1 of [] \<Rightarrow> Some s1 | objs # rest \<Rightarrow> autorelease_all E objs (s1\<lparr>reactions := rest\<rparr>))"

fun release_times :: "pool_env \<Rightarrow> u64 \<Rightarrow> nat \<Rightarrow> pools \<Rightarrow> pools option" where
  "release_times E obj 0 s = Some s"
| "release_times E obj (Suc n) s =
     (case objc_release_in E obj s of None \<Rightarrow> None | Some s' \<Rightarrow> release_times E obj n s')"

text \<open>The inner loop of \<open>releaseUntil\<close>: step to the parent while the page is empty.\<close>

partial_function (option) nonempty_page :: "u64 \<Rightarrow> pools \<Rightarrow> (u64 \<times> pools) option" where
  "nonempty_page page s =
     (case pages s page of None \<Rightarrow> None
      | Some pg \<Rightarrow> if page_empty pg then nonempty_page (page_parent pg) (setHotPage (page_parent pg) s) else Some (page, s))"

text \<open>Take the top word of a page and release what it stands for.\<close>

definition release_top :: "pool_env \<Rightarrow> u64 \<Rightarrow> pools \<Rightarrow> pools option" where
  "release_top E page s =
     (case pages s page of None \<Rightarrow> None
      | Some pg \<Rightarrow>
          let i = page_next pg - 1; entry = page_slots pg ! i;
              s1 = set_page page (pg\<lparr>page_next := i, page_slots := (page_slots pg)[i := SCRIBBLED]\<rparr>) s in
          if entry_ptr entry \<noteq> POOL_BOUNDARY then release_times E (entry_ptr entry) (unat (entry_count entry) + 1) s1 else Some s1)"

partial_function (option) release_loop :: "pool_env \<Rightarrow> u64 \<Rightarrow> nat \<Rightarrow> pools \<Rightarrow> pools option" where
  "release_loop E this stop s =
     (case pages s this of None \<Rightarrow> None
      | Some pg \<Rightarrow>
          if page_next pg = stop then Some s
          else
            (case nonempty_page (hotPage s) s of None \<Rightarrow> None
             | Some (page, s1) \<Rightarrow>
                 (case release_top E page s1 of None \<Rightarrow> None
                  | Some s2 \<Rightarrow> release_loop E this stop s2)))"

definition releaseUntil :: "pool_env \<Rightarrow> u64 \<Rightarrow> nat \<Rightarrow> pools \<Rightarrow> pools option" where
  "releaseUntil E this stop s = map_option (setHotPage this) (release_loop E this stop s)"

subsection \<open>Deleting pages\<close>

partial_function (option) last_child :: "page_heap \<Rightarrow> u64 \<Rightarrow> u64 option" where
  "last_child h page =
     (case h page of None \<Rightarrow> None
      | Some pg \<Rightarrow> if page_child pg = 0 then Some page else last_child h (page_child pg))"

partial_function (option) delete_upto :: "u64 \<Rightarrow> u64 \<Rightarrow> pools \<Rightarrow> pools option" where
  "delete_upto this deathptr s =
     (case pages s deathptr of None \<Rightarrow> None
      | Some pg \<Rightarrow>
          let page = page_parent pg in
          (case (if page = 0 then Some s
                 else map_option (\<lambda>q. set_page page (q\<lparr>page_child := 0\<rparr>) s) (pages s page)) of None \<Rightarrow> None
           | Some s1 \<Rightarrow>
               let s2 = s1\<lparr>pages := (pages s1)(deathptr := None)\<rparr> in
               if deathptr \<noteq> this then delete_upto this page s2 else Some s2))"

definition kill :: "u64 \<Rightarrow> pools \<Rightarrow> pools option" where
  "kill this s = (case last_child (pages s) this of None \<Rightarrow> None | Some p \<Rightarrow> delete_upto this p s)"

subsection \<open>Popping a pool\<close>

datatype pop_outcome = Popped pools | Bad_pop u64

text \<open>
  \<open>printHiwat\<close> propagates a high water mark to all pages when it exceeds the old one by more than 256.
\<close>

partial_function (option) set_hiwats :: "32 word \<Rightarrow> u64 \<Rightarrow> pools \<Rightarrow> pools option" where
  "set_hiwats mark p s =
     (if p = 0 then Some s
      else case pages s p of None \<Rightarrow> None
        | Some pg \<Rightarrow> set_hiwats mark (page_parent pg) (set_page p (pg\<lparr>page_hiwat := mark\<rparr>) s))"

definition printHiwat :: "pools \<Rightarrow> pools option" where
  "printHiwat s =
     (case pages s (hotPage s) of None \<Rightarrow> None
      | Some pg \<Rightarrow>
          let mark = page_depth pg * 512 + of_nat (page_next pg) in
          if mark > page_hiwat pg + 256 then set_hiwats mark (hotPage s) s else Some s)"

definition popPage :: "bool \<Rightarrow> pool_env \<Rightarrow> u64 \<Rightarrow> nat \<Rightarrow> pools \<Rightarrow> pools option" where
  "popPage allowDebug E page stop s =
     (case (if allowDebug \<and> PrintPoolHiwat E then printHiwat s else Some s) of None \<Rightarrow> None
      | Some s0 \<Rightarrow>
      (case releaseUntil E page stop s0 of None \<Rightarrow> None
      | Some s1 \<Rightarrow>
      (case pages s1 page of None \<Rightarrow> None
      | Some pg \<Rightarrow>
          if allowDebug \<and> DebugPoolAllocation E \<and> page_empty pg then
            map_option (setHotPage (page_parent pg)) (kill page s1)
          else if allowDebug \<and> DebugMissingPools E \<and> page_empty pg \<and> page_parent pg = 0 then
            map_option (setHotPage 0) (kill page s1)
          else if page_child pg \<noteq> 0 then
            (if lessThanHalfFull pg then kill (page_child pg) s1
             else
               (case pages s1 (page_child pg) of None \<Rightarrow> None
                | Some ch \<Rightarrow> if page_child ch \<noteq> 0 then kill (page_child ch) s1 else Some s1))
          else Some s1)))"

definition badPop :: "pool_env \<Rightarrow> u64 \<Rightarrow> pools \<Rightarrow> pop_outcome" where
  "badPop E token s = (if DebugPoolAllocation E \<or> bad_pop_is_fatal E then Bad_pop token else Popped s)"

definition pop_at :: "pool_env \<Rightarrow> u64 \<Rightarrow> u64 \<Rightarrow> pools \<Rightarrow> pop_outcome option" where
  "pop_at E token page s =
     (case pages s page of None \<Rightarrow> None
      | Some pg \<Rightarrow>
          let stop = slot_index token in
          if page_slots pg ! stop \<noteq> POOL_BOUNDARY \<and> \<not> (stop = 0 \<and> page_parent pg = 0) then Some (badPop E token s)
          else if PrintPoolHiwat E \<or> DebugPoolAllocation E \<or> DebugMissingPools E
          then map_option Popped (popPage True E page stop s)
          else map_option Popped (popPage False E page stop s))"

definition pool_pop :: "pool_env \<Rightarrow> u64 \<Rightarrow> pools \<Rightarrow> pop_outcome option" where
  "pool_pop E token s =
     (if token = EMPTY_POOL_PLACEHOLDER then
        (if hotPage s = 0 then Some (Popped (setHotPage 0 s))
         else
           (case coldPage s of None \<Rightarrow> None
            | Some page \<Rightarrow> pop_at E (slot_addr page 0) page s))
      else pop_at E token (pageForPointer token) s)"

definition tls_dealloc :: "pool_env \<Rightarrow> u64 \<Rightarrow> pools \<Rightarrow> pools option" where
  "tls_dealloc E p s =
     (if p = EMPTY_POOL_PLACEHOLDER then Some s
      else
        let s0 = setHotPage p s in
        (case coldPage s0 of None \<Rightarrow> None
         | Some page \<Rightarrow>
             if page = 0 then Some (setHotPage 0 s0)
             else
               (case pages s0 page of None \<Rightarrow> None
                | Some pg \<Rightarrow>
                    (case (if \<not> page_empty pg then pool_pop E (slot_addr page 0) s0 else Some (Popped s0)) of
                       Some (Popped s1) \<Rightarrow>
                         if DebugMissingPools E \<or> DebugPoolAllocation E then Some (setHotPage 0 s1)
                         else map_option (setHotPage 0) (kill page s1)
                     | _ \<Rightarrow> None))))"

end
