(* ===== verification/PoolPages.thy ===== *)
theory PoolPages
  imports AutoreleasePool "HOL-Library.Multiset"
begin

text \<open>
  One page of an autorelease pool: what adding an object does to its words. The words of a page stand for
  the multiset of releases that are due.
\<close>

lemma take_eq_le: "take k xs = take k ys \<Longrightarrow> j \<le> k \<Longrightarrow> take j xs = take j ys"
  by (metis min.absorb1 take_take)

definition due :: "u64 \<Rightarrow> u64 multiset" where
  "due w = (if entry_ptr w = 0 then {#} else replicate_mset (Suc (unat (entry_count w))) (entry_ptr w))"

definition due_all :: "u64 list \<Rightarrow> u64 multiset" where
  "due_all ws = (\<Sum>w\<leftarrow>ws. due w)"

lemma due_all_simps [simp]: "due_all [] = {#}" "due_all (w # ws) = due w + due_all ws" "due_all (ws @ vs) = due_all ws + due_all vs"
  by (simp_all add: due_all_def)

definition is_object :: "u64 \<Rightarrow> bool" where
  "is_object obj \<longleftrightarrow> obj \<noteq> 0 \<and> unat obj < 2 ^ 48"

lemma unat_entry_count: "unat (entry_count w) = unat w div 2 ^ 48"
  unfolding entry_count_def unsigned_drop_bit_eq using unat_less_64 [of w] by (simp add: drop_bit_eq_div take_bit_nat_eq_self)

lemma unat_entry_ptr: "unat (entry_ptr w) = unat w mod 2 ^ 48"
  unfolding entry_ptr_def unsigned_take_bit_eq by (simp add: take_bit_eq_mod)

lemma object_entry: "is_object obj \<Longrightarrow> entry_ptr obj = obj \<and> entry_count obj = 0 \<and> due obj = {#obj#}"
proof -
  assume obj: "is_object obj"
  then have "unat (entry_ptr obj) = unat obj" "unat (entry_count obj) = 0"
    by (simp_all add: is_object_def unat_entry_ptr unat_entry_count)
  then have "entry_ptr obj = obj" "entry_count obj = 0" by (simp_all add: word_unat_eq_iff)
  then show ?thesis using obj by (simp add: due_def is_object_def)
qed

lemma boundary_entry [simp]: "entry_ptr 0 = 0" "due 0 = {#}"
  by (simp_all add: entry_ptr_def due_def)

lemma entry_increment_fields:
  assumes "entry_count w < maxCount"
  shows "entry_ptr (entry_increment w) = entry_ptr w" and "unat (entry_count (entry_increment w)) = Suc (unat (entry_count w))"
proof -
  have less: "unat w div 2 ^ 48 < 2 ^ 16 - 1" using assms by (simp add: word_less_nat_alt maxCount_def unat_entry_count)
  then have "unat w + 2 ^ 48 < 2 ^ 64" by (simp add: div_less_iff_less_mult)
  then have u: "unat (entry_increment w) = unat w + 2 ^ 48" by (simp add: entry_increment_def unat_word_ariths)
  show "entry_ptr (entry_increment w) = entry_ptr w" using u by (simp add: word_unat_eq_iff unat_entry_ptr)
  show "unat (entry_count (entry_increment w)) = Suc (unat (entry_count w))" using u by (simp add: unat_entry_count)
qed

lemma due_increment:
  assumes "entry_count w < maxCount" and "entry_ptr w = obj" and "is_object obj"
  shows "due (entry_increment w) = due w + {#obj#}" and "entry_ptr (entry_increment w) \<noteq> 0"
  using entry_increment_fields [OF assms(1)] assms(2,3) by (simp_all add: due_def is_object_def)

subsection \<open>Pages\<close>

definition page_ok :: "AutoreleasePoolPage \<Rightarrow> bool" where
  "page_ok pg \<longleftrightarrow> length (page_slots pg) = PAGE_SLOTS \<and> page_next pg \<le> PAGE_SLOTS"

definition used :: "AutoreleasePoolPage \<Rightarrow> u64 list" where
  "used pg = take (page_next pg) (page_slots pg)"

lemma length_used: "page_ok pg \<Longrightarrow> length (used pg) = page_next pg"
  by (simp add: page_ok_def used_def)

lemma used_nth: "page_ok pg \<Longrightarrow> i < page_next pg \<Longrightarrow> page_slots pg ! i = used pg ! i"
  by (simp add: used_def)

text \<open>Words below a boundary are not touched; above it one more release is due.\<close>

definition guarded :: "nat \<Rightarrow> u64 list \<Rightarrow> bool" where
  "guarded m ws \<longleftrightarrow> m = 0 \<or> m \<le> length ws \<and> ws ! (m - 1) = 0"

definition adds :: "u64 list \<Rightarrow> u64 list \<Rightarrow> u64 \<Rightarrow> bool" where
  "adds ws ws' obj \<longleftrightarrow> length ws \<le> length ws' \<and> length ws' \<le> Suc (length ws) \<and>
     (\<forall>m. guarded m ws \<longrightarrow> take m ws' = take m ws \<and> due_all (drop m ws') = due_all (drop m ws) + due obj)"

lemma adds_snoc: "adds ws (ws @ [obj]) obj"
  by (auto simp: adds_def guarded_def)

text \<open>An entry that is found moves to the top.\<close>

lemma recent_entry_found:
  assumes "recent_entry pg obj left = Some i" and "left \<le> 4" and "0 < page_next pg"
  shows "0 < i \<and> i < page_next pg \<and> entry_ptr (page_slots pg ! i) = obj \<and> entry_count (page_slots pg ! i) < maxCount \<and>
    (\<forall>k. i < k \<and> k \<le> page_next pg - 1 - (4 - left) \<longrightarrow> page_slots pg ! k \<noteq> POOL_BOUNDARY)"
  using assms
proof (induction left)
  case (Suc left)
  let ?j = "page_next pg - 1 - (3 - left)"
  show ?case
  proof (cases "0 < ?j \<and> page_slots pg ! ?j \<noteq> POOL_BOUNDARY")
    case False
    then show ?thesis using Suc.prems(1) by (auto simp: Let_def)
  next
    case True
    show ?thesis
    proof (cases "entry_ptr (page_slots pg ! ?j) = obj \<and> entry_count (page_slots pg ! ?j) < maxCount")
      case found: True
      then have "i = ?j" using Suc.prems(1) True by (simp add: Let_def)
      then show ?thesis using True found Suc.prems(2,3) by auto
    next
      case False
      then have r: "recent_entry pg obj left = Some i" using Suc.prems(1) True by (auto simp: Let_def)
      note IH = Suc.IH [OF r]
      have "page_slots pg ! k \<noteq> POOL_BOUNDARY" if "i < k" "k \<le> page_next pg - 1 - (4 - Suc left)" for k
      proof (cases "k = ?j")
        case True
        then show ?thesis using \<open>0 < ?j \<and> page_slots pg ! ?j \<noteq> POOL_BOUNDARY\<close> by simp
      next
        case False
        then have "k \<le> page_next pg - 1 - (4 - left)" using that(2) Suc.prems(2) True by auto
        then show ?thesis using IH Suc.prems(2,3) that(1) by simp
      qed
      then show ?thesis using IH Suc.prems(2,3) by simp
    qed
  qed
qed simp

lemma adds_to_top:
  assumes "i < length ws" and "entry_ptr (ws ! i) = obj" and "entry_count (ws ! i) < maxCount" and "is_object obj"
    and "\<forall>k. i < k \<and> k < length ws \<longrightarrow> ws ! k \<noteq> 0"
  shows "adds ws (take i ws @ drop (Suc i) ws @ [entry_increment (ws ! i)]) obj"
  unfolding adds_def
proof (intro conjI allI impI)
  let ?ws = "take i ws @ drop (Suc i) ws @ [entry_increment (ws ! i)]"
  show "length ws \<le> length ?ws" "length ?ws \<le> Suc (length ws)" using assms(1) by simp_all
  fix m
  assume m: "guarded m ws"
  have "ws ! i \<noteq> 0" using assms(2,4) by (auto simp: is_object_def)
  have "m \<le> i"
  proof (rule ccontr)
    assume "\<not> m \<le> i"
    then have "m - 1 = i \<or> i < m - 1" "m \<le> length ws" "m - 1 < length ws" "ws ! (m - 1) = 0" using m by (auto simp: guarded_def)
    then show False using assms(5) \<open>ws ! i \<noteq> 0\<close> by metis
  qed
  then show "take m ?ws = take m ws" using assms(1) by (simp add: min_def)
  have "drop m ws = drop m (take i ws) @ ws ! i # drop (Suc i) ws"
    using id_take_nth_drop [OF assms(1)] \<open>m \<le> i\<close> assms(1) by (metis drop_append diff_is_0_eq drop0 length_take min.absorb2 less_imp_le)
  then show "due_all (drop m ?ws) = due_all (drop m ws) + due obj"
    using \<open>m \<le> i\<close> assms(1) due_increment(1) [OF assms(3,2,4)] object_entry [OF assms(4)] by (simp add: ac_simps)
qed

lemma used_entry_to_top:
  assumes "page_ok pg" and "i < page_next pg"
  shows "used (pg\<lparr>page_slots := entry_to_top pg i\<rparr>) = take i (used pg) @ drop (Suc i) (used pg) @ [entry_increment (used pg ! i)]"
    and "page_ok (pg\<lparr>page_slots := entry_to_top pg i\<rparr>)"
proof -
  have m: "min (PAGE_SLOTS - Suc i) (page_next pg - Suc i) = page_next pg - Suc i" "page_next pg - Suc i + Suc i = page_next pg"
    using assms by (auto simp: page_ok_def min_def)
  have k: "page_next pg - 1 - i = page_next pg - Suc i" "Suc (page_next pg - 1) = page_next pg" using assms(2) by simp_all
  show "used (pg\<lparr>page_slots := entry_to_top pg i\<rparr>) = take i (used pg) @ drop (Suc i) (used pg) @ [entry_increment (used pg ! i)]"
    using assms m by (simp add: entry_to_top_def used_def page_ok_def Let_def drop_take k Suc_diff_Suc)
  show "page_ok (pg\<lparr>page_slots := entry_to_top pg i\<rparr>)"
    using assms m by (simp add: entry_to_top_def page_ok_def Let_def k Suc_diff_Suc)
qed

lemma page_add_spec:
  assumes P: "page_ok pg" and "\<not> page_full pg" and "obj = 0 \<or> is_object obj" and "page_add E pg obj = (i, pg')"
  shows "page_ok pg' \<and> adds (used pg) (used pg') obj \<and> i = page_next pg' - 1 \<and> (obj = 0 \<longrightarrow> used pg' = used pg @ [0]) \<and>
    page_parent pg' = page_parent pg \<and> page_child pg' = page_child pg \<and> used pg' \<noteq> []"
proof -
  have n: "page_next pg < PAGE_SLOTS" using P assms(2) by (auto simp: page_ok_def page_full_def)
  let ?plain = "(page_next pg, pg\<lparr>page_slots := (page_slots pg)[page_next pg := obj], page_next := page_next pg + 1\<rparr>)"
  have plain: ?thesis if "(i, pg') = ?plain"
  proof -
    have "used pg' = used pg @ [obj]" using that P n by (simp add: used_def page_ok_def take_Suc_conv_app_nth)
    then show ?thesis using that P n adds_snoc [of "used pg" obj] by (auto simp: page_ok_def)
  qed
  have top: ?thesis if "0 < page_next pg" and o: "is_object obj" and k: "k < page_next pg" "entry_ptr (page_slots pg ! k) = obj"
    "entry_count (page_slots pg ! k) < maxCount" "\<forall>q. k < q \<and> q < page_next pg \<longrightarrow> page_slots pg ! q \<noteq> 0"
    and pg': "(i, pg') = (page_next pg - 1, pg\<lparr>page_slots := entry_to_top pg k\<rparr>)" for k
  proof -
    have "adds (used pg) (used pg') obj"
      using adds_to_top [of k "used pg" obj] k o pg' used_entry_to_top(1) [OF P k(1)] length_used [OF P] used_nth [OF P] by auto
    moreover have "used pg' \<noteq> []" using pg' used_entry_to_top(1) [OF P k(1)] by simp
    ultimately show ?thesis using pg' used_entry_to_top(2) [OF P k(1)] o by (simp add: is_object_def)
  qed
  show ?thesis
  proof (cases "(\<not> DisableAutoreleaseCoalescing E \<or> \<not> DisableAutoreleaseCoalescingLRU E) \<and> \<not> page_empty pg \<and> obj \<noteq> POOL_BOUNDARY")
    case False
    then have "page_add E pg obj = ?plain" unfolding page_add_def Let_def by (simp only: if_False)
    then show ?thesis using plain assms(4) by simp
  next
    case c: True
    then have o: "is_object obj" "0 < page_next pg" using assms(3) by (auto simp: POOL_BOUNDARY_def page_empty_def)
    show ?thesis
    proof (cases "DisableAutoreleaseCoalescingLRU E")
      case False
      show ?thesis
      proof (cases "recent_entry pg obj 4")
        case None
        then have "page_add E pg obj = ?plain" using c False by (simp add: page_add_def Let_def)
        then show ?thesis using plain assms(4) by simp
      next
        case (Some k)
        have "page_add E pg obj = (page_next pg - 1, pg\<lparr>page_slots := entry_to_top pg k\<rparr>)"
          using Some c False by (simp add: page_add_def Let_def)
        then show ?thesis using recent_entry_found [OF Some _ o(2)] assms(4) o
          by (intro top [of k]) (auto simp: POOL_BOUNDARY_def)
      qed
    next
      case True
      let ?t = "page_next pg - 1"
      show ?thesis
      proof (cases "entry_ptr (page_slots pg ! ?t) = obj \<and> entry_count (page_slots pg ! ?t) < maxCount")
        case False
        then have "page_add E pg obj = ?plain" using c True by (auto simp: page_add_def Let_def)
        then show ?thesis using plain assms(4) by simp
      next
        case found: True
        have "entry_to_top pg ?t = (page_slots pg)[?t := entry_increment (page_slots pg ! ?t)]"
          using o(2) n P by (simp add: entry_to_top_def Let_def page_ok_def upd_conv_take_nth_drop)
        then show ?thesis using assms(4) c True found o by (intro top [of ?t]) (auto simp: page_add_def Let_def)
      qed
    qed
  qed
qed

end
