(* ===== verification/PoolChain.thy ===== *)
theory PoolChain
  imports PoolPages
begin

text \<open>
  The pages of a thread as one stack of words. Outside of the debugging modes every page below the hot
  one is full and every page above it is empty, so the list of words and the list of pages determine
  what each page holds.
\<close>

lemma PAGE_SLOTS_pos [simp]: "0 < PAGE_SLOTS"
  by (simp add: PAGE_SLOTS_def)

definition page_words :: "u64 list \<Rightarrow> nat \<Rightarrow> u64 list" where
  "page_words ws k = take PAGE_SLOTS (drop (PAGE_SLOTS * k) ws)"

definition chain_page :: "page_heap \<Rightarrow> u64 list \<Rightarrow> u64 list \<Rightarrow> nat \<Rightarrow> bool" where
  "chain_page hp ps ws k \<longleftrightarrow>
     (\<exists>pg. hp (ps ! k) = Some pg \<and> page_ok pg \<and> used pg = page_words ws k \<and>
        page_parent pg = (if k = 0 then 0 else ps ! (k - 1)) \<and> page_child pg = (if Suc k < length ps then ps ! Suc k else 0))"

definition page_address :: "u64 \<Rightarrow> bool" where
  "page_address p \<longleftrightarrow> p \<noteq> 0 \<and> p mod PAGE_SIZE = 0"

definition chain :: "page_heap \<Rightarrow> u64 list \<Rightarrow> u64 list \<Rightarrow> bool" where
  "chain hp ps ws \<longleftrightarrow> distinct ps \<and> dom hp = set ps \<and> (\<forall>p\<in>set ps. page_address p) \<and> (\<forall>k<length ps. chain_page hp ps ws k)"

definition poolst :: "pools \<Rightarrow> u64 list \<Rightarrow> u64 list \<Rightarrow> nat \<Rightarrow> bool" where
  "poolst s ps ws h \<longleftrightarrow> chain (pages s) ps ws \<and> h < length ps \<and> tls s = ps ! h \<and> PAGE_SLOTS * h \<le> length ws \<and> length ws \<le> PAGE_SLOTS * Suc h"

lemma page_words_app:
  assumes "length ws = PAGE_SLOTS * h" and "length u \<le> PAGE_SLOTS"
  shows "page_words (ws @ u) k = (if k < h then page_words ws k else if k = h then u else [])"
proof -
  consider "k < h" | "k = h" | "h < k" by linarith
  then show ?thesis
  proof cases
    case 1
    then have "PAGE_SLOTS * Suc k \<le> PAGE_SLOTS * h" by (intro mult_le_mono2) simp
    then show ?thesis using 1 assms by (simp add: page_words_def)
  next
    case 2
    then show ?thesis using assms by (simp add: page_words_def)
  next
    case 3
    then have "PAGE_SLOTS * Suc h \<le> PAGE_SLOTS * k" by (intro mult_le_mono2) simp
    then show ?thesis using 3 assms by (simp add: page_words_def)
  qed
qed

lemma page_words_hot:
  assumes "PAGE_SLOTS * h \<le> length ws" and "length ws \<le> PAGE_SLOTS * Suc h"
  shows "page_words ws h = drop (PAGE_SLOTS * h) ws"
  using assms by (simp add: page_words_def)

lemma page_words_beyond: "length ws \<le> PAGE_SLOTS * k \<Longrightarrow> page_words ws k = []"
  by (simp add: page_words_def)

text \<open>A page of the chain gets other words.\<close>

lemma chain_update:
  assumes c: "chain hp ps ws" and k: "k < length ps" and pg: "hp (ps ! k) = Some pg" and pg': "page_ok pg'" "used pg' = page_words ws' k"
    "page_parent pg' = page_parent pg" "page_child pg' = page_child pg"
    and other: "\<And>j. j < length ps \<Longrightarrow> j \<noteq> k \<Longrightarrow> page_words ws' j = page_words ws j"
  shows "chain (hp(ps ! k \<mapsto> pg')) ps ws'"
proof -
  have d: "distinct ps" using c by (simp add: chain_def)
  have "chain_page (hp(ps ! k \<mapsto> pg')) ps ws' j" if j: "j < length ps" for j
  proof (cases "j = k")
    case True
    have "chain_page hp ps ws k" using c k by (simp add: chain_def)
    then show ?thesis using True pg pg' by (simp add: chain_page_def)
  next
    case False
    then have "ps ! j \<noteq> ps ! k" using d j k by (simp add: nth_eq_iff_index_eq)
    moreover have "chain_page hp ps ws j" using c j by (simp add: chain_def)
    ultimately show ?thesis using other [OF j False] by (simp add: chain_page_def)
  qed
  then show ?thesis using c k by (auto simp: chain_def)
qed

text \<open>The hot page: its words are the last ones, and they are changed without a change to other pages.\<close>

lemma poolst_hot:
  assumes "poolst s ps ws h"
  obtains pg where "pages s (ps ! h) = Some pg" and "page_ok pg" and "used pg = drop (PAGE_SLOTS * h) ws"
    and "page_next pg = length ws - PAGE_SLOTS * h"
    and "page_parent pg = (if h = 0 then 0 else ps ! (h - 1))" and "page_child pg = (if Suc h < length ps then ps ! Suc h else 0)"
proof -
  have "chain_page (pages s) ps ws h" and b: "PAGE_SLOTS * h \<le> length ws" "length ws \<le> PAGE_SLOTS * Suc h"
    using assms by (auto simp: poolst_def chain_def)
  then obtain pg where pg: "pages s (ps ! h) = Some pg" "page_ok pg" "used pg = drop (PAGE_SLOTS * h) ws"
    "page_parent pg = (if h = 0 then 0 else ps ! (h - 1))" "page_child pg = (if Suc h < length ps then ps ! Suc h else 0)"
    unfolding chain_page_def page_words_hot [OF b] by blast
  have "page_next pg = length ws - PAGE_SLOTS * h" using length_used [OF pg(2)] pg(3) by simp
  then show ?thesis using that pg by blast
qed

lemma poolst_set_hot:
  assumes P: "poolst s ps ws h" and pg: "pages s (ps ! h) = Some pg" and pg': "page_ok pg'" "page_parent pg' = page_parent pg" "page_child pg' = page_child pg"
  shows "poolst (set_page (ps ! h) pg' s) ps (take (PAGE_SLOTS * h) ws @ used pg') h"
proof -
  let ?base = "take (PAGE_SLOTS * h) ws"
  have b: "PAGE_SLOTS * h \<le> length ws" "length ws \<le> PAGE_SLOTS * Suc h" "h < length ps" "chain (pages s) ps ws" using P by (auto simp: poolst_def)
  have u: "length (used pg') \<le> PAGE_SLOTS" using pg'(1) length_used [OF pg'(1)] by (simp add: page_ok_def)
  have l: "length ?base = PAGE_SLOTS * h" using b(1) by simp
  have w: "length (drop (PAGE_SLOTS * h) ws) \<le> PAGE_SLOTS" using b(2) by simp
  have "page_words (?base @ used pg') j = page_words ws j" if "j \<noteq> h" for j
    using page_words_app [OF l u, of j] page_words_app [OF l w, of j] that by simp
  then have "chain ((pages s)(ps ! h \<mapsto> pg')) ps (?base @ used pg')"
    using page_words_app [OF l u, of h] by (intro chain_update [OF b(4,3) pg]) (simp_all add: pg')
  then show ?thesis using P l u by (simp add: poolst_def set_page_def)
qed

subsection \<open>Adding a word to the hot page\<close>

lemma adds_behind:
  assumes "adds u u' obj"
  shows "adds (ws @ u) (ws @ u') obj"
  unfolding adds_def
proof (intro conjI allI impI)
  show "length (ws @ u) \<le> length (ws @ u')" "length (ws @ u') \<le> Suc (length (ws @ u))" using assms by (simp_all add: adds_def)
  have all: "guarded m u \<Longrightarrow> take m u' = take m u \<and> due_all (drop m u') = due_all (drop m u) + due obj" for m
    using assms by (simp add: adds_def)
  fix m
  assume m: "guarded m (ws @ u)"
  have g: "guarded (m - length ws) u"
  proof (cases "m \<le> length ws")
    case False
    then have "\<not> m - 1 < length ws" "m - 1 - length ws = m - length ws - 1" by auto
    then show ?thesis using m False by (auto simp: guarded_def nth_append)
  qed (simp add: guarded_def)
  show "take m (ws @ u') = take m (ws @ u)" using all [OF g] by simp
  show "due_all (drop m (ws @ u')) = due_all (drop m (ws @ u)) + due obj" using all [OF g] by simp
qed

text \<open>The address of the n-th word.\<close>

definition word_addr :: "u64 list \<Rightarrow> nat \<Rightarrow> u64" where
  "word_addr ps n = slot_addr (ps ! (n div PAGE_SLOTS)) (n mod PAGE_SLOTS)"

definition same_log :: "pools \<Rightarrow> pools \<Rightarrow> bool" where
  "same_log s s' \<longleftrightarrow> released s' = released s \<and> reactions s' = reactions s"

lemma add_to_hot:
  assumes P: "poolst s ps ws h" and free: "length ws < PAGE_SLOTS * Suc h" and obj: "obj = 0 \<or> is_object obj"
  obtains s' ws' where "add_to E (ps ! h) obj s = Some (word_addr ps (length ws' - 1), s')" and "poolst s' ps ws' h" and "adds ws ws' obj"
    and "same_log s s'" and "obj = 0 \<Longrightarrow> ws' = ws @ [0]" and "ws' \<noteq> []"
proof -
  obtain pg where pg: "pages s (ps ! h) = Some pg" "page_ok pg" "used pg = drop (PAGE_SLOTS * h) ws" "page_next pg = length ws - PAGE_SLOTS * h"
    using poolst_hot [OF P] by metis
  have b: "PAGE_SLOTS * h \<le> length ws" using P by (simp add: poolst_def)
  have nf: "\<not> page_full pg" using pg(4) free b by (auto simp: page_full_def)
  obtain i pg' where add: "page_add E pg obj = (i, pg')" by fastforce
  note spec = page_add_spec [OF pg(2) nf obj add]
  let ?s = "set_page (ps ! h) pg' s" and ?ws = "take (PAGE_SLOTS * h) ws @ used pg'"
  have P': "poolst ?s ps ?ws h" using poolst_set_hot [OF P pg(1)] spec by blast
  have ad: "adds ws ?ws obj" using adds_behind [of "used pg" "used pg'" obj "take (PAGE_SLOTS * h) ws"] spec pg(3) by simp
  have ok: "page_ok pg'" "used pg' \<noteq> []" using spec by auto
  then have n: "0 < page_next pg'" "page_next pg' \<le> PAGE_SLOTS" using length_used [OF ok(1)] by (auto simp: page_ok_def simp flip: length_greater_0_conv)
  have r: "page_next pg' - 1 < PAGE_SLOTS" using n by linarith
  have l: "length ?ws - 1 = PAGE_SLOTS * h + (page_next pg' - 1)" using b n length_used [OF ok(1)] by simp
  have "(length ?ws - 1) div PAGE_SLOTS = h" "(length ?ws - 1) mod PAGE_SLOTS = page_next pg' - 1" unfolding l using r by simp_all
  then have "add_to E (ps ! h) obj s = Some (word_addr ps (length ?ws - 1), ?s)"
    using spec pg(1) add by (simp add: add_to_def word_addr_def)
  moreover have "same_log s ?s" by (simp add: same_log_def set_page_def)
  moreover have "?ws = ws @ [0]" if "obj = 0"
    using spec that pg(3) by simp
  moreover have "?ws \<noteq> []" using ok(2) by simp
  ultimately show ?thesis using that [of ?ws ?s] P' ad by blast
qed

subsection \<open>Another page\<close>

text \<open>What the allocator promises while fewer than \<open>N\<close> pages are allocated.\<close>

definition alloc_ok :: "pool_env \<Rightarrow> nat \<Rightarrow> bool" where
  "alloc_ok E N \<longleftrightarrow> (\<forall>hp. card (dom hp) < N \<longrightarrow> page_at E hp \<notin> dom hp \<and> page_address (page_at E hp))"

definition fresh_page :: "pool_env \<Rightarrow> u64 \<Rightarrow> 32 word \<Rightarrow> 32 word \<Rightarrow> AutoreleasePoolPage" where
  "fresh_page E parent d hw = \<lparr>page_slots = map (page_garbage E) [0..<PAGE_SLOTS], page_next = 0, page_parent = parent, page_child = 0,
     page_depth = d, page_hiwat = hw\<rparr>"

lemma fresh_page_simps [simp]: "page_ok (fresh_page E q d hw)" "used (fresh_page E q d hw) = []" "page_next (fresh_page E q d hw) = 0"
  "page_parent (fresh_page E q d hw) = q" "page_child (fresh_page E q d hw) = 0"
  by (simp_all add: fresh_page_def page_ok_def used_def)

lemma chain_card: "chain hp ps ws \<Longrightarrow> card (dom hp) = length ps"
  by (simp add: chain_def distinct_card)

lemma chain_snoc:
  assumes c: "chain hp ps ws" and ne: "ps \<noteq> []" and pg: "hp (List.last ps) = Some pg" and p: "p \<notin> dom hp" "page_address p"
    and l: "length ws \<le> PAGE_SLOTS * length ps"
  shows "chain (hp(p \<mapsto> fresh_page E (List.last ps) d hw, List.last ps \<mapsto> pg\<lparr>page_child := p\<rparr>)) (ps @ [p]) ws"
proof -
  let ?hp = "hp(p \<mapsto> fresh_page E (List.last ps) d hw, List.last ps \<mapsto> pg\<lparr>page_child := p\<rparr>)"
  have dom: "dom hp = set ps" and d: "distinct ps" using c by (auto simp: chain_def)
  have last: "List.last ps = ps ! (length ps - 1)" using ne by (rule last_conv_nth)
  have lp: "List.last ps \<noteq> p" using pg p(1) by auto
  have "chain_page ?hp (ps @ [p]) ws k" if k: "k < length (ps @ [p])" for k
  proof -
    consider "k < length ps - 1" | "k = length ps - 1" "k < length ps" | "k = length ps" using k ne by (cases ps) force+
    then show ?thesis
    proof cases
      case 1
      then have "ps ! k \<noteq> List.last ps" unfolding last using d ne by (subst nth_eq_iff_index_eq) auto
      moreover have "ps ! k \<noteq> p" using 1 p(1) dom nth_mem [of k ps] by auto
      moreover have "chain_page hp ps ws k" using c 1 by (simp add: chain_def)
      ultimately show ?thesis using 1 by (auto simp: chain_page_def nth_append)
    next
      case 2
      then have "chain_page hp ps ws k" using c by (simp add: chain_def)
      then show ?thesis using 2 pg unfolding last by (auto simp: chain_page_def nth_append page_ok_def used_def)
    next
      case 3
      have "page_words ws k = []" using l 3 by (simp add: page_words_beyond)
      then show ?thesis using 3 lp ne last by (auto simp: chain_page_def nth_append)
    qed
  qed
  moreover have "dom ?hp = set (ps @ [p])" using dom ne by auto
  ultimately show ?thesis using c p dom by (auto simp: chain_def)
qed

lemma set_page_simps [simp]: "pages (set_page p pg s) = (pages s)(p \<mapsto> pg)" "tls (set_page p pg s) = tls s"
  "released (set_page p pg s) = released s" "reactions (set_page p pg s) = reactions s"
  by (simp_all add: set_page_def)

lemma setHotPage_simps [simp]: "pages (setHotPage p s) = pages s" "tls (setHotPage p s) = p"
  "released (setHotPage p s) = released s" "reactions (setHotPage p s) = reactions s"
  by (simp_all add: setHotPage_def)

text \<open>The hot page is full: the next page is its child or a new one, and it is empty.\<close>

lemma next_free_page_spec:
  assumes P: "poolst s ps ws h" and full: "length ws = PAGE_SLOTS * Suc h" and E: "alloc_ok E N" "length ps < N"
  obtains s' ps' where "next_free_page E (ps ! h) s = Some (ps' ! Suc h, s')" and "poolst (setHotPage (ps' ! Suc h) s') ps' ws (Suc h)"
    and "same_log s s'" and "take (Suc h) ps' = take (Suc h) ps" and "length ps' \<le> Suc (length ps)"
proof -
  obtain pg where pg: "pages s (ps ! h) = Some pg" "page_child pg = (if Suc h < length ps then ps ! Suc h else 0)"
    using poolst_hot [OF P] by metis
  have c: "chain (pages s) ps ws" and h: "h < length ps" using P by (auto simp: poolst_def)
  have step: "next_free_page E (ps ! h) s = Some (p, s')"
    if "(if page_child pg \<noteq> 0 then Some (page_child pg, s) else new_page E (ps ! h) s) = Some (p, s')" "pages s' p = Some pg'" "used pg' = []" "page_ok pg'"
    for p s' pg'
  proof -
    have "\<not> page_full pg'" using length_used [OF that(4)] that(3) PAGE_SLOTS_pos by (simp add: page_full_def)
    then show ?thesis using that(1,2) pg(1) by (subst next_free_page.simps) simp
  qed
  show ?thesis
  proof (cases "Suc h < length ps")
    case True
    have "chain_page (pages s) ps ws (Suc h)" using c True by (simp add: chain_def)
    then obtain pg' where pg': "pages s (ps ! Suc h) = Some pg'" "used pg' = []" "page_ok pg'"
      using page_words_beyond [of ws "Suc h"] full by (auto simp: chain_page_def)
    have "page_address (ps ! Suc h)" using c True by (simp add: chain_def)
    then have "ps ! Suc h \<noteq> 0" by (simp add: page_address_def)
    then have "next_free_page E (ps ! h) s = Some (ps ! Suc h, s)" using step [of "ps ! Suc h" s pg'] pg(2) True pg' by simp
    moreover have "poolst (setHotPage (ps ! Suc h) s) ps ws (Suc h)" using P True full by (simp add: poolst_def)
    ultimately show ?thesis using that [of ps s] by (simp add: same_log_def)
  next
    case False
    then have len: "length ps = Suc h" "ps \<noteq> []" using h by auto
    then have last: "length ps = Suc h" "ps \<noteq> []" "List.last ps = ps ! h" using last_conv_nth [OF len(2)] by simp_all
    let ?p = "page_at E (pages s)"
    have fresh: "?p \<notin> dom (pages s)" "page_address ?p" using E chain_card [OF c] by (auto simp: alloc_ok_def)
    have "ps ! h \<noteq> 0" using c h by (simp add: chain_def page_address_def)
    let ?pg = "fresh_page E (ps ! h) (1 + page_depth pg) (page_hiwat pg)"
    let ?s = "set_page (ps ! h) (pg\<lparr>page_child := ?p\<rparr>) (set_page ?p ?pg s)"
    have new: "new_page E (ps ! h) s = Some (?p, ?s)" using \<open>ps ! h \<noteq> 0\<close> pg(1) by (simp add: new_page_def Let_def fresh_page_def)
    have "ps ! h \<noteq> ?p" using fresh(1) pg(1) by auto
    then have at: "pages ?s ?p = Some ?pg" by simp
    have "next_free_page E (ps ! h) s = Some (?p, ?s)" using step [OF _ at] new pg(2) False by simp
    moreover have "chain (pages ?s) (ps @ [?p]) ws"
      using chain_snoc [OF c last(2) _ fresh, of pg E "1 + page_depth pg" "page_hiwat pg"] pg(1) full last by simp
    then have "poolst (setHotPage ?p ?s) (ps @ [?p]) ws (Suc h)" using full last by (simp add: poolst_def nth_append)
    ultimately show ?thesis using that [of "ps @ [?p]" ?s] last by (simp add: same_log_def nth_append)
  qed
qed

end
