(* ===== verification/PoolRelease.thy ===== *)
theory PoolRelease
  imports PoolChain
begin

text \<open>
  Autoreleasing and releasing over the stack of words: what \<open>autoreleaseFast\<close> adds, and that
  \<open>releaseUntil\<close> releases what is due above its stop position together with what those releases
  autorelease in turn, and returns.
\<close>

lemma page_address_tls: "page_address p \<Longrightarrow> p \<noteq> EMPTY_POOL_PLACEHOLDER"
proof -
  have "(1 :: u64) mod PAGE_SIZE = 1" by (simp add: PAGE_SIZE_def word_unat_eq_iff unat_mod)
  then show "page_address p \<Longrightarrow> p \<noteq> EMPTY_POOL_PLACEHOLDER" unfolding page_address_def EMPTY_POOL_PLACEHOLDER_def by metis
qed

lemma poolst_hotPage:
  assumes "poolst s ps ws h"
  shows "hotPage s = ps ! h" and "ps ! h \<noteq> 0" and "page_address (ps ! h)"
proof -
  show "page_address (ps ! h)" using assms by (simp add: poolst_def chain_def)
  then show "hotPage s = ps ! h" "ps ! h \<noteq> 0"
    using assms page_address_tls by (auto simp: hotPage_def poolst_def page_address_def)
qed

lemma autoreleaseFast_spec:
  assumes P: "poolst s ps ws h" and obj: "obj = 0 \<or> is_object obj" and E: "alloc_ok E N" "length ps < N"
  obtains s' ps' ws' h' where "autoreleaseFast E obj s = Some (word_addr ps' (length ws' - 1), s')" and "poolst s' ps' ws' h'" and "adds ws ws' obj"
    and "same_log s s'" and "obj = 0 \<Longrightarrow> ws' = ws @ [0]" and "ws' \<noteq> []" and "length ps' \<le> Suc (length ps)" and "take (Suc h) ps' = take (Suc h) ps" and "h \<le> h'"
proof -
  obtain pg where pg: "pages s (ps ! h) = Some pg" "page_next pg = length ws - PAGE_SLOTS * h" using poolst_hot [OF P] by metis
  have b: "PAGE_SLOTS * h \<le> length ws" "length ws \<le> PAGE_SLOTS * Suc h" using P by (auto simp: poolst_def)
  note hot = poolst_hotPage [OF P]
  show ?thesis
  proof (cases "page_full pg")
    case False
    then have "length ws < PAGE_SLOTS * Suc h" using pg(2) b by (auto simp: page_full_def)
    then obtain s' ws' where r: "add_to E (ps ! h) obj s = Some (word_addr ps (length ws' - 1), s')" "poolst s' ps ws' h" "adds ws ws' obj"
      "same_log s s'" "obj = 0 \<Longrightarrow> ws' = ws @ [0]" "ws' \<noteq> []" using add_to_hot [OF P _ obj] by metis
    have "autoreleaseFast E obj s = Some (word_addr ps (length ws' - 1), s')"
      using False pg(1) hot r(1) by (simp add: autoreleaseFast_def Let_def)
    then show ?thesis using that [of ps ws' s' h] r by simp
  next
    case True
    then have full: "length ws = PAGE_SLOTS * Suc h" using pg(2) b by (auto simp: page_full_def)
    obtain s1 ps' where n: "next_free_page E (ps ! h) s = Some (ps' ! Suc h, s1)" "poolst (setHotPage (ps' ! Suc h) s1) ps' ws (Suc h)"
      "same_log s s1" "take (Suc h) ps' = take (Suc h) ps" "length ps' \<le> Suc (length ps)"
      using next_free_page_spec [OF P full E] by metis
    have "length ws < PAGE_SLOTS * Suc (Suc h)" using full by simp
    then obtain s' ws' where r: "add_to E (ps' ! Suc h) obj (setHotPage (ps' ! Suc h) s1) = Some (word_addr ps' (length ws' - 1), s')" "poolst s' ps' ws' (Suc h)"
      "adds ws ws' obj" "same_log (setHotPage (ps' ! Suc h) s1) s'" "obj = 0 \<Longrightarrow> ws' = ws @ [0]" "ws' \<noteq> []"
      using add_to_hot [OF n(2) _ obj] by metis
    have "autoreleaseFast E obj s = Some (word_addr ps' (length ws' - 1), s')"
      using True pg(1) hot n(1) r(1) by (simp add: autoreleaseFast_def autoreleaseFullPage_def Let_def)
    moreover have "same_log s s'" using n(3) r(4) by (simp add: same_log_def)
    ultimately show ?thesis using that [of ps' ws' s' "Suc h"] r n by simp
  qed
qed

subsection \<open>Autoreleasing a list of objects\<close>

text \<open>The words below a guard stay, and above it more is due.\<close>

definition grows :: "nat \<Rightarrow> u64 list \<Rightarrow> u64 list \<Rightarrow> u64 list \<Rightarrow> bool" where
  "grows m ws ws' objs \<longleftrightarrow> length ws \<le> length ws' \<and> length ws' \<le> length ws + length objs \<and> take m ws' = take m ws \<and>
     due_all (drop m ws') = due_all (drop m ws) + mset objs"

lemma grows_refl [simp]: "grows m ws ws []"
  by (simp add: grows_def)

lemma grows_trans: "grows m ws vs xs \<Longrightarrow> grows m vs us ys \<Longrightarrow> grows m ws us (xs @ ys)"
  by (auto simp: grows_def ac_simps)

lemma grows_guarded: "grows m ws ws' objs \<Longrightarrow> guarded m ws \<Longrightarrow> guarded m ws'"
proof -
  assume g: "grows m ws ws' objs" and m: "guarded m ws"
  show "guarded m ws'"
  proof (cases "m = 0")
    case False
    have "take m ws' = take m ws" using g by (simp add: grows_def)
    then have "take m ws' ! (m - 1) = take m ws ! (m - 1)" by (rule arg_cong)
    then have "ws' ! (m - 1) = ws ! (m - 1)" using False by simp
    then show ?thesis using g m False by (simp add: grows_def guarded_def)
  qed (simp add: guarded_def)
qed

lemma adds_grows: "adds ws ws' obj \<Longrightarrow> guarded m ws \<Longrightarrow> is_object obj \<Longrightarrow> grows m ws ws' [obj]"
  using object_entry [of obj] by (simp add: adds_def grows_def)

definition stepped :: "u64 list \<Rightarrow> nat \<Rightarrow> u64 list \<Rightarrow> nat \<Rightarrow> nat \<Rightarrow> bool" where
  "stepped ps h ps' h' n \<longleftrightarrow> take (Suc h) ps' = take (Suc h) ps \<and> h \<le> h' \<and> length ps' \<le> length ps + n"

lemma stepped_trans:
  assumes "stepped ps h ps' h' n" and "stepped ps' h' ps'' h'' n'"
  shows "stepped ps h ps'' h'' (n + n')"
proof -
  have "take (Suc h') ps'' = take (Suc h') ps'" "h \<le> h'" using assms by (simp_all add: stepped_def)
  then have "take (Suc h) ps'' = take (Suc h) ps'" using take_eq_le [of "Suc h'" ps'' ps' "Suc h"] by simp
  then show ?thesis using assms by (simp add: stepped_def)
qed

lemma autorelease_all_spec:
  assumes "poolst s ps ws h" and "\<forall>obj\<in>set objs. is_object obj" and "guarded m ws" and E: "alloc_ok E N" and "length ps + length objs \<le> N"
  shows "\<exists>s' ps' ws' h'. autorelease_all E objs s = Some s' \<and> poolst s' ps' ws' h' \<and> grows m ws ws' objs \<and> same_log s s' \<and> stepped ps h ps' h' (length objs)"
  using assms(1,2,3,5)
proof (induction objs arbitrary: s ps ws h)
  case Nil
  then show ?case by (intro exI [of _ s] exI [of _ ps] exI [of _ ws] exI [of _ h]) (simp add: same_log_def stepped_def)
next
  case (Cons obj objs)
  have o: "is_object obj" using Cons.prems(2) by simp
  have "length ps < N" using Cons.prems(4) by simp
  then obtain a s1 ps1 ws1 h1 where r: "autoreleaseFast E obj s = Some (a, s1)" "poolst s1 ps1 ws1 h1" "adds ws ws1 obj" "same_log s s1"
    "length ps1 \<le> Suc (length ps)" "take (Suc h) ps1 = take (Suc h) ps" "h \<le> h1"
    using autoreleaseFast_spec [OF Cons.prems(1) disjI2 [OF o] E] by metis
  have g: "grows m ws ws1 [obj]" using adds_grows [OF r(3) Cons.prems(3) o] .
  have st: "stepped ps h ps1 h1 1" using r by (simp add: stepped_def)
  obtain s2 ps2 ws2 h2 where r2: "autorelease_all E objs s1 = Some s2" "poolst s2 ps2 ws2 h2" "grows m ws1 ws2 objs" "same_log s1 s2"
    "stepped ps1 h1 ps2 h2 (length objs)"
    using Cons.IH [OF r(2) _ grows_guarded [OF g Cons.prems(3)]] Cons.prems(2,4) r(5) by auto
  show ?case
  proof (intro exI conjI)
    show "autorelease_all E (obj # objs) s = Some s2" using r(1) r2(1) by (simp add: autorelease_def)
    show "grows m ws ws2 (obj # objs)" using grows_trans [OF g r2(3)] by simp
    show "same_log s s2" using r(4) r2(4) by (simp add: same_log_def)
    show "stepped ps h ps2 h2 (length (obj # objs))" using stepped_trans [OF st r2(5)] by simp
  qed (rule r2)
qed

subsection \<open>Releasing the top word\<close>

lemma poolst_log [simp]: "poolst (s\<lparr>released := rel\<rparr>) = poolst s" "poolst (s\<lparr>reactions := rs\<rparr>) = poolst s"
  by (simp_all add: poolst_def fun_eq_iff)

definition objects_only :: "u64 list list \<Rightarrow> bool" where
  "objects_only rs \<longleftrightarrow> (\<forall>objs\<in>set rs. \<forall>obj\<in>set objs. is_object obj)"

lemma objects_only_drop: "objects_only rs \<Longrightarrow> objects_only (drop n rs)"
  by (auto simp: objects_only_def dest: in_set_dropD)

text \<open>What the first n releases autorelease in turn.\<close>

abbreviation provoked :: "nat \<Rightarrow> pools \<Rightarrow> u64 list" where
  "provoked n s \<equiv> concat (take n (reactions s))"

lemma objc_release_in_spec:
  assumes P: "poolst s ps ws h" and "guarded m ws" and rs: "objects_only (reactions s)" and E: "alloc_ok E N" "length ps + length (provoked 1 s) \<le> N"
  shows "\<exists>s' ps' ws' h'. objc_release_in E obj s = Some s' \<and> poolst s' ps' ws' h' \<and> grows m ws ws' (provoked 1 s) \<and>
    released s' = released s @ [obj] \<and> reactions s' = drop 1 (reactions s) \<and> stepped ps h ps' h' (length (provoked 1 s))"
proof (cases "reactions s")
  case Nil
  let ?s = "s\<lparr>released := released s @ [obj]\<rparr>"
  have "objc_release_in E obj s = Some ?s" using Nil by (simp add: objc_release_in_def Let_def)
  then show ?thesis using P Nil by (intro exI [of _ ?s] exI [of _ ps] exI [of _ ws] exI [of _ h]) (simp add: stepped_def)
next
  case (Cons objs rest)
  let ?s = "s\<lparr>released := released s @ [obj], reactions := rest\<rparr>"
  have eq: "objc_release_in E obj s = autorelease_all E objs ?s" using Cons by (simp add: objc_release_in_def Let_def)
  have "poolst ?s ps ws h" using P by simp
  then obtain s' ps' ws' h' where r: "autorelease_all E objs ?s = Some s'" "poolst s' ps' ws' h'" "grows m ws ws' objs" "same_log ?s s'"
    "stepped ps h ps' h' (length objs)"
    using autorelease_all_spec [OF _ _ assms(2) E(1), of ?s ps h objs] rs E(2) Cons by (auto simp: objects_only_def)
  then show ?thesis unfolding eq using Cons by (intro exI [of _ s'] exI [of _ ps'] exI [of _ ws'] exI [of _ h']) (simp add: same_log_def)
qed

lemma release_times_spec:
  assumes "poolst s ps ws h" and "guarded m ws" and "objects_only (reactions s)" and E: "alloc_ok E N" and "length ps + length (provoked n s) \<le> N"
  shows "\<exists>s' ps' ws' h'. release_times E obj n s = Some s' \<and> poolst s' ps' ws' h' \<and> grows m ws ws' (provoked n s) \<and>
    released s' = released s @ replicate n obj \<and> reactions s' = drop n (reactions s) \<and> stepped ps h ps' h' (length (provoked n s))"
  using assms(1,2,3,5)
proof (induction n arbitrary: s ps ws h)
  case 0
  then show ?case by (intro exI [of _ s] exI [of _ ps] exI [of _ ws] exI [of _ h]) (simp add: stepped_def)
next
  case (Suc n)
  have split: "provoked (Suc n) s = provoked 1 s @ concat (take n (drop 1 (reactions s)))" by (cases "reactions s") simp_all
  obtain s1 ps1 ws1 h1 where r: "objc_release_in E obj s = Some s1" "poolst s1 ps1 ws1 h1" "grows m ws ws1 (provoked 1 s)"
    "released s1 = released s @ [obj]" "reactions s1 = drop 1 (reactions s)" "stepped ps h ps1 h1 (length (provoked 1 s))"
    using objc_release_in_spec [OF Suc.prems(1,2,3) E, of obj] Suc.prems(4) split by auto
  have rest: "provoked (Suc n) s = provoked 1 s @ provoked n s1" using split r(5) by simp
  have "length ps1 + length (provoked n s1) \<le> N" using r(6) Suc.prems(4) rest by (simp add: stepped_def)
  then obtain s2 ps2 ws2 h2 where r2: "release_times E obj n s1 = Some s2" "poolst s2 ps2 ws2 h2" "grows m ws1 ws2 (provoked n s1)"
    "released s2 = released s1 @ replicate n obj" "reactions s2 = drop n (reactions s1)" "stepped ps1 h1 ps2 h2 (length (provoked n s1))"
    using Suc.IH [OF r(2) grows_guarded [OF r(3) Suc.prems(2)]] objects_only_drop [OF Suc.prems(3), of 1] r(5) by auto
  show ?case
  proof (intro exI conjI)
    show "release_times E obj (Suc n) s = Some s2" using r(1) r2(1) by simp
    show "grows m ws ws2 (provoked (Suc n) s)" unfolding rest using grows_trans [OF r(3) r2(3)] .
    show "stepped ps h ps2 h2 (length (provoked (Suc n) s))" unfolding rest using stepped_trans [OF r(6) r2(6)] by simp
    show "released s2 = released s @ replicate (Suc n) obj" using r(4) r2(4) by simp
    show "reactions s2 = drop (Suc n) (reactions s)" using r(5) r2(5) by simp
  qed (rule r2)
qed

text \<open>The hot page gives up its top word.\<close>

lemma poolst_drop_top:
  assumes P: "poolst s ps (ws @ [w]) h" and ne: "PAGE_SLOTS * h \<le> length ws" and pg: "pages s (ps ! h) = Some pg"
  shows "poolst (set_page (ps ! h) (pg\<lparr>page_next := page_next pg - 1, page_slots := (page_slots pg)[page_next pg - 1 := SCRIBBLED]\<rparr>) s) ps ws h"
    and "page_slots pg ! (page_next pg - 1) = w"
proof -
  obtain pg1 where pg1: "pages s (ps ! h) = Some pg1" "page_ok pg1" "used pg1 = drop (PAGE_SLOTS * h) (ws @ [w])"
    "page_next pg1 = length (ws @ [w]) - PAGE_SLOTS * h" using poolst_hot [OF P] by metis
  have ok: "page_ok pg" "used pg = drop (PAGE_SLOTS * h) ws @ [w]" "page_next pg = Suc (length ws - PAGE_SLOTS * h)" using pg pg1 ne by auto
  let ?pg = "pg\<lparr>page_next := page_next pg - 1, page_slots := (page_slots pg)[page_next pg - 1 := SCRIBBLED]\<rparr>"
  have "used ?pg = take (page_next pg - 1) (used pg)" using ok(1,3) by (simp add: used_def)
  then have u: "used ?pg = drop (PAGE_SLOTS * h) ws" using ok(2,3) ne by simp
  have "page_ok ?pg" using ok(1) by (auto simp: page_ok_def)
  then have "poolst (set_page (ps ! h) ?pg s) ps (take (PAGE_SLOTS * h) (ws @ [w]) @ used ?pg) h" by (intro poolst_set_hot [OF P pg]) simp_all
  then show "poolst (set_page (ps ! h) ?pg s) ps ws h" using u ne by simp
  have "page_slots pg ! (page_next pg - 1) = used pg ! (page_next pg - 1)" using ok(1,3) used_nth by simp
  then show "page_slots pg ! (page_next pg - 1) = w" using ok(2,3) ne by (simp add: nth_append)
qed

lemma release_top_spec:
  assumes P: "poolst s ps (ws @ [w]) h" and ne: "PAGE_SLOTS * h \<le> length ws" and g: "w = 0 \<or> guarded m ws" and rs: "objects_only (reactions s)"
    and E: "alloc_ok E N" "length ps + length (provoked (size (due w)) s) \<le> N"
  shows "\<exists>s' ps' ws' h'. release_top E (ps ! h) s = Some s' \<and> poolst s' ps' ws' h' \<and> grows m ws ws' (provoked (size (due w)) s) \<and>
    released s' = released s @ replicate (size (due w)) (entry_ptr w) \<and> reactions s' = drop (size (due w)) (reactions s) \<and>
    stepped ps h ps' h' (length (provoked (size (due w)) s))"
proof -
  obtain pg where pg: "pages s (ps ! h) = Some pg" using poolst_hot [OF P] by metis
  note top = poolst_drop_top [OF P ne pg]
  let ?s = "set_page (ps ! h) (pg\<lparr>page_next := page_next pg - 1, page_slots := (page_slots pg)[page_next pg - 1 := SCRIBBLED]\<rparr>) s"
  have eq: "release_top E (ps ! h) s =
    (if entry_ptr w \<noteq> POOL_BOUNDARY then release_times E (entry_ptr w) (unat (entry_count w) + 1) ?s else Some ?s)"
    using pg top(2) by (simp add: release_top_def Let_def)
  show ?thesis
  proof (cases "entry_ptr w = 0")
    case True
    then show ?thesis unfolding eq using top(1) by (intro exI [of _ ?s] exI [of _ ps] exI [of _ ws] exI [of _ h]) (simp add: POOL_BOUNDARY_def due_def stepped_def)
  next
    case False
    then have k: "size (due w) = unat (entry_count w) + 1" and w: "w \<noteq> 0" by (auto simp: due_def)
    then show ?thesis unfolding eq
      using release_times_spec [OF top(1) _ _ E(1), of m "size (due w)" "entry_ptr w"] g rs E(2) False by (simp add: POOL_BOUNDARY_def)
  qed
qed

end
