(* ===== verification/PoolLoop.thy ===== *)
theory PoolLoop
  imports PoolRelease
begin

text \<open>
  The loop of \<open>releaseUntil\<close> takes words from the stack until the stop position is the top. The inner
  loop, which looks for a page that is not empty, takes at most one step.
\<close>

lemma nonempty_page_hot:
  assumes P: "poolst s ps ws h" and ne: "ws \<noteq> []"
  obtains k where "nonempty_page (hotPage s) s = Some (ps ! k, setHotPage (ps ! k) s)" and "poolst (setHotPage (ps ! k) s) ps ws k"
    and "PAGE_SLOTS * k < length ws" and "\<forall>pg. pages s (hotPage s) = Some pg \<longrightarrow> ps ! k = (if page_empty pg then page_parent pg else hotPage s)"
proof -
  obtain pg where pg: "pages s (ps ! h) = Some pg" "page_next pg = length ws - PAGE_SLOTS * h" "page_parent pg = (if h = 0 then 0 else ps ! (h - 1))"
    using poolst_hot [OF P] by metis
  note hot = poolst_hotPage [OF P]
  have b: "PAGE_SLOTS * h \<le> length ws" "h < length ps" "chain (pages s) ps ws" "tls s = ps ! h" using P by (auto simp: poolst_def)
  show ?thesis
  proof (cases "page_empty pg")
    case False
    have same: "setHotPage (ps ! h) s = s" using b(4) by (simp add: setHotPage_def)
    have "nonempty_page (ps ! h) s = Some (ps ! h, s)" using False pg(1) by (subst nonempty_page.simps) simp
    moreover have "PAGE_SLOTS * h < length ws" using False pg(2) by (simp add: page_empty_def)
    ultimately show ?thesis using P False pg(1) by (intro that [of h]) (auto simp: same hot(1))
  next
    case True
    then have l: "length ws = PAGE_SLOTS * h" using pg(2) b(1) by (simp add: page_empty_def)
    then obtain k where k: "h = Suc k" using ne by (cases h) auto
    have P': "poolst (setHotPage (ps ! k) s) ps ws k" using P k l by (simp add: poolst_def)
    obtain pg' where pg': "pages s (ps ! k) = Some pg'" "page_next pg' = length ws - PAGE_SLOTS * k"
      using poolst_hot [OF P'] unfolding setHotPage_simps by metis
    have "\<not> page_empty pg'" using pg'(2) l k PAGE_SLOTS_pos by (simp add: page_empty_def)
    then have "nonempty_page (ps ! k) (setHotPage (ps ! k) s) = Some (ps ! k, setHotPage (ps ! k) s)"
      using pg'(1) by (subst nonempty_page.simps) simp
    moreover have "nonempty_page (ps ! h) s = nonempty_page (page_parent pg) (setHotPage (page_parent pg) s)"
      using True pg(1) by (subst nonempty_page.simps) simp
    moreover have "PAGE_SLOTS * k < length ws" using l k PAGE_SLOTS_pos by simp
    ultimately show ?thesis using P' pg(1,3) k True by (intro that [of k]) (simp_all add: hot(1))
  qed
qed

subsection \<open>One round\<close>

lemma grows_below: "grows (Suc n) ws ws' objs \<Longrightarrow> guarded (Suc n) ws \<Longrightarrow> grows n ws ws' objs \<and> ws' ! n = 0"
proof -
  assume g: "grows (Suc n) ws ws' objs" and m: "guarded (Suc n) ws"
  have m': "guarded (Suc n) ws'" using grows_guarded [OF g m] .
  have t: "take n ws' = take n ws" using g take_eq_le [of "Suc n" ws' ws n] by (simp add: grows_def)
  have "drop n ws = 0 # drop (Suc n) ws" "drop n ws' = 0 # drop (Suc n) ws'"
    using m m' by (simp_all add: guarded_def Cons_nth_drop_Suc [symmetric])
  then show ?thesis using g t m' by (simp add: grows_def guarded_def)
qed

lemma grows_nothing: "grows (length ws) ws ws' [] \<Longrightarrow> ws' = ws"
proof -
  assume g: "grows (length ws) ws ws' []"
  have "length ws \<le> length ws'" "length ws' \<le> length ws + length ([] :: u64 list)" using g unfolding grows_def by blast+
  then have l: "length ws' = length ws" by simp
  have "take (length ws') ws' = take (length ws) ws" using g unfolding grows_def l by blast
  then show "ws' = ws" by (simp only: take_all order_refl)
qed

definition top_due :: "u64 list \<Rightarrow> nat" where
  "top_due ws = size (due (List.last ws))"

definition stops :: "nat \<Rightarrow> u64 list \<Rightarrow> bool" where
  "stops n ws \<longleftrightarrow> n \<le> length ws \<and> (n < length ws \<longrightarrow> n = 0 \<or> ws ! n = 0)"

definition loop_inv :: "pool_env \<Rightarrow> nat \<Rightarrow> nat \<Rightarrow> pools \<Rightarrow> u64 list \<Rightarrow> u64 list \<Rightarrow> nat \<Rightarrow> bool" where
  "loop_inv E N n s ps ws h \<longleftrightarrow> poolst s ps ws h \<and> stops n ws \<and> objects_only (reactions s) \<and> alloc_ok E N \<and>
     length ps + length (concat (reactions s)) \<le> N \<and> n div PAGE_SLOTS < length ps"

lemma length_provoked: "length (provoked k s) + length (concat (drop k (reactions s))) = length (concat (reactions s))"
  by (metis append_take_drop_id concat_append length_append)

lemma release_round:
  assumes I: "loop_inv E N n s ps ws h" and n: "n < length ws"
  obtains k s2 ps' ws' h' where "nonempty_page (hotPage s) s = Some (ps ! k, setHotPage (ps ! k) s)" and "release_top E (ps ! k) (setHotPage (ps ! k) s) = Some s2"
    and "loop_inv E N n s2 ps' ws' h'" and "grows n (butlast ws) ws' (provoked (top_due ws) s)"
    and "released s2 = released s @ replicate (top_due ws) (entry_ptr (List.last ws))" and "reactions s2 = drop (top_due ws) (reactions s)"
    and "take (Suc (n div PAGE_SLOTS)) ps' = take (Suc (n div PAGE_SLOTS)) ps"
    and "\<forall>pg. pages s (hotPage s) = Some pg \<longrightarrow> ps ! k = (if page_empty pg then page_parent pg else hotPage s)"
proof -
  have P: "poolst s ps ws h" and inv: "objects_only (reactions s)" "alloc_ok E N" "length ps + length (concat (reactions s)) \<le> N"
    and st: "n = 0 \<or> ws ! n = 0" using I n by (auto simp: loop_inv_def stops_def)
  have "ws \<noteq> []" using n by auto
  then obtain k where k: "nonempty_page (hotPage s) s = Some (ps ! k, setHotPage (ps ! k) s)" "poolst (setHotPage (ps ! k) s) ps ws k"
    "PAGE_SLOTS * k < length ws" "\<forall>pg. pages s (hotPage s) = Some pg \<longrightarrow> ps ! k = (if page_empty pg then page_parent pg else hotPage s)"
    using nonempty_page_hot [OF P] by metis
  obtain vs w where ws: "ws = vs @ [w]" using \<open>ws \<noteq> []\<close> by (cases ws rule: rev_cases) simp_all
  then have bl: "butlast ws = vs" "List.last ws = w" by simp_all
  let ?s = "setHotPage (ps ! k) s"
  let ?m = "if w = 0 then length vs else if n = 0 then 0 else Suc n"
  have at: "n < length vs \<Longrightarrow> vs ! n = ws ! n" "n = length vs \<Longrightarrow> ws ! n = w" using ws by (simp_all add: nth_append)
  have n': "n \<le> length vs" using n ws by simp
  have g: "w = 0 \<or> guarded ?m vs" using st at n' by (cases "n = length vs") (auto simp: guarded_def)
  have len: "length ps + length (provoked (size (due w)) ?s) \<le> N" using inv(3) length_provoked [of "size (due w)" s] by simp
  obtain s2 ps' ws' h' where r: "release_top E (ps ! k) ?s = Some s2" "poolst s2 ps' ws' h'" "grows ?m vs ws' (provoked (top_due ws) s)"
    "released s2 = released s @ replicate (top_due ws) (entry_ptr w)" "reactions s2 = drop (top_due ws) (reactions s)"
    "stepped ps k ps' h' (length (provoked (top_due ws) s))"
    using release_top_spec [OF k(2) [unfolded ws] _ g _ inv(2) len] inv(1) k(3) ws unfolding top_due_def bl by auto
  have gr: "grows n vs ws' (provoked (top_due ws) s) \<and> (n < length ws' \<longrightarrow> n = 0 \<or> ws' ! n = 0)"
  proof (cases "w = 0")
    case True
    then have z: "top_due ws = 0" by (simp add: top_due_def bl)
    then have "ws' = vs" using r(3) True grows_nothing by simp
    then have "ws' = vs" "top_due ws = 0" using z by simp_all
    then show ?thesis using st at by auto
  next
    case False
    then have "guarded (Suc n) vs" if "n \<noteq> 0" using that g by simp
    then show ?thesis using r(3) False grows_below [of n vs ws'] by (cases "n = 0") auto
  qed
  have "n div PAGE_SLOTS \<le> k" using n k(2) by (simp add: poolst_def less_Suc_eq_le [symmetric] div_less_iff_less_mult mult.commute)
  then have tk: "take (Suc (n div PAGE_SLOTS)) ps' = take (Suc (n div PAGE_SLOTS)) ps" 
    using r(6) take_eq_le [of "Suc k" ps' ps "Suc (n div PAGE_SLOTS)"] by (simp add: stepped_def)
  have "k \<le> h'" "h' < length ps'" using r(2,6) by (simp_all add: poolst_def stepped_def)
  then have "n div PAGE_SLOTS < length ps'" using \<open>n div PAGE_SLOTS \<le> k\<close> by linarith
  moreover have "n \<le> length ws'" using gr n' by (simp add: grows_def)
  moreover have "length ps' + length (concat (reactions s2)) \<le> N" using r(5,6) inv(3) length_provoked [of "top_due ws" s] by (simp add: stepped_def)
  ultimately have "loop_inv E N n s2 ps' ws' h'" using r(2,5) gr inv objects_only_drop by (simp add: loop_inv_def stops_def)
  then show ?thesis using that [of k s2 ps' ws' h'] k r gr tk unfolding bl by blast
qed

subsection \<open>All rounds\<close>

text \<open>How many releases happen when \<open>p\<close> are pending and each one may autorelease more.\<close>

fun drained :: "nat \<Rightarrow> u64 list list \<Rightarrow> nat" where
  "drained 0 rs = 0"
| "drained (Suc p) [] = Suc p"
| "drained (Suc p) (objs # rs) = Suc (drained (p + length objs) rs)"

lemma drained_Nil [simp]: "drained p [] = p"
  by (cases p) simp_all

lemma drained_add: "drained (k + p) rs = k + drained (p + length (concat (take k rs))) (drop k rs)"
proof (induction k arbitrary: p rs)
  case (Suc k)
  show ?case
  proof (cases rs)
    case (Cons objs rest)
    then show ?thesis using Suc.IH [of "p + length objs" rest] by (simp add: ac_simps)
  qed simp
qed simp

definition drains :: "pools \<Rightarrow> pools \<Rightarrow> u64 multiset \<Rightarrow> bool" where
  "drains s s' M \<longleftrightarrow>
     (let k = drained (size M) (reactions s) in
      mset (released s') = mset (released s) + M + mset (provoked k s) \<and> reactions s' = drop k (reactions s))"

lemma drains_nothing: "drains s s {#}"
  by (simp add: drains_def)

lemma drains_round:
  assumes "reactions s1 = drop k (reactions s)" and "mset (released s1) = mset (released s) + M" and "size M = k"
    and "drains s1 s2 (L + mset (provoked k s))"
  shows "drains s s2 (L + M)"
proof -
  let ?j = "drained (size L + length (provoked k s)) (drop k (reactions s))"
  have k: "drained (size (L + M)) (reactions s) = k + ?j" using drained_add [of k "size L" "reactions s"] assms(3) by (simp add: ac_simps)
  have split: "provoked (k + ?j) s = provoked k s @ provoked ?j s1" using assms(1) by (simp add: take_add)
  have "mset (released s2) = mset (released s1) + (L + mset (provoked k s)) + mset (provoked ?j s1)" "reactions s2 = drop ?j (reactions s1)"
    using assms(1,4) by (simp_all add: drains_def Let_def)
  then show ?thesis unfolding drains_def Let_def k split using assms(1,2) by (simp add: ac_simps)
qed

lemma next_is_stop: "nx = min cap (l - q) \<Longrightarrow> q + r = n \<Longrightarrow> r < cap \<Longrightarrow> n \<le> l \<Longrightarrow> nx = r \<longleftrightarrow> l = (n :: nat)"
  by (auto simp: min_def)

lemma loop_page:
  assumes "loop_inv E N n s ps ws h"
  obtains pg where "pages s (ps ! (n div PAGE_SLOTS)) = Some pg" and "page_next pg = n mod PAGE_SLOTS \<longleftrightarrow> length ws = n"
proof -
  have "chain_page (pages s) ps ws (n div PAGE_SLOTS)" and n: "n \<le> length ws" using assms by (auto simp: loop_inv_def poolst_def chain_def stops_def)
  then obtain pg where pg: "pages s (ps ! (n div PAGE_SLOTS)) = Some pg" "page_ok pg" "used pg = page_words ws (n div PAGE_SLOTS)"
    by (auto simp: chain_page_def)
  have "page_next pg = min PAGE_SLOTS (length ws - PAGE_SLOTS * (n div PAGE_SLOTS))"
    using length_used [OF pg(2)] pg(3) by (simp add: page_words_def min.commute)
  moreover have "PAGE_SLOTS * (n div PAGE_SLOTS) + n mod PAGE_SLOTS = n" "n mod PAGE_SLOTS < PAGE_SLOTS" by simp_all
  ultimately have "page_next pg = n mod PAGE_SLOTS \<longleftrightarrow> length ws = n" using n by (rule next_is_stop)
  then show ?thesis using that pg(1) by blast
qed

lemma due_entry: "mset (replicate (size (due w)) (entry_ptr w)) = due w"
  by (simp add: due_def)

lemma release_loop_spec:
  assumes "loop_inv E N n s ps ws h"
  shows "\<exists>s' ps' h'. release_loop E (ps ! (n div PAGE_SLOTS)) (n mod PAGE_SLOTS) s = Some s' \<and> loop_inv E N n s' ps' (take n ws) h' \<and>
    drains s s' (due_all (drop n ws)) \<and> take (Suc (n div PAGE_SLOTS)) ps' = take (Suc (n div PAGE_SLOTS)) ps"
  using assms
proof (induction "length ws + length (concat (reactions s))" arbitrary: s ps ws h rule: less_induct)
  case less
  note I = less.prems
  obtain pg where pg: "pages s (ps ! (n div PAGE_SLOTS)) = Some pg" "page_next pg = n mod PAGE_SLOTS \<longleftrightarrow> length ws = n" using loop_page [OF I] by blast
  show ?case
  proof (cases "length ws = n")
    case True
    then have "release_loop E (ps ! (n div PAGE_SLOTS)) (n mod PAGE_SLOTS) s = Some s" using pg by (subst release_loop.simps) simp
    then show ?thesis using I True drains_nothing by (intro exI [of _ s] exI [of _ ps] exI [of _ h]) simp
  next
    case False
    then have n: "n < length ws" using I by (simp add: loop_inv_def stops_def)
    obtain k s2 ps2 ws2 h2 where r: "nonempty_page (hotPage s) s = Some (ps ! k, setHotPage (ps ! k) s)" "release_top E (ps ! k) (setHotPage (ps ! k) s) = Some s2"
      "loop_inv E N n s2 ps2 ws2 h2" "grows n (butlast ws) ws2 (provoked (top_due ws) s)"
      "released s2 = released s @ replicate (top_due ws) (entry_ptr (List.last ws))" "reactions s2 = drop (top_due ws) (reactions s)"
      "take (Suc (n div PAGE_SLOTS)) ps2 = take (Suc (n div PAGE_SLOTS)) ps" using release_round [OF I n] by metis
    have same_page: "ps2 ! (n div PAGE_SLOTS) = ps ! (n div PAGE_SLOTS)" using arg_cong [OF r(7), of "\<lambda>l. l ! (n div PAGE_SLOTS)"] by simp
    have "length ws2 + length (concat (reactions s2)) < length ws + length (concat (reactions s))"
      using r(4,6) n length_provoked [of "top_due ws" s] by (auto simp: grows_def)
    then obtain s' ps' h' where e: "release_loop E (ps ! (n div PAGE_SLOTS)) (n mod PAGE_SLOTS) s2 = Some s'" "loop_inv E N n s' ps' (take n ws2) h'"
      "drains s2 s' (due_all (drop n ws2))" "take (Suc (n div PAGE_SLOTS)) ps' = take (Suc (n div PAGE_SLOTS)) ps2"
      using less.hyps r(3) same_page by metis
    obtain vs w where ws: "ws = vs @ [w]" using n by (cases ws rule: rev_cases) simp_all
    then have d: "top_due ws = size (due w)" "n \<le> length vs" using n by (simp_all add: top_due_def)
    then have "drop n ws = drop n vs @ [w]" "take n ws = take n vs" using ws by simp_all
    moreover have g: "take n ws2 = take n vs" "due_all (drop n ws2) = due_all (drop n vs) + mset (provoked (top_due ws) s)"
      using r(4) ws by (simp_all add: grows_def)
    moreover have "mset (released s2) = mset (released s) + due w" using r(5) ws d(1) due_entry [of w] by simp
    ultimately have "take n ws2 = take n ws" "drains s s' (due_all (drop n ws))"
      using drains_round [OF r(6), of "due w" s' "due_all (drop n vs)"] e(3) d(1) by simp_all
    moreover have "release_loop E (ps ! (n div PAGE_SLOTS)) (n mod PAGE_SLOTS) s = Some s'"
      using pg False r(1,2) e(1) by (subst release_loop.simps) simp
    ultimately show ?thesis using e(2,4) r(7) by (intro exI [of _ s'] exI [of _ ps'] exI [of _ h']) simp
  qed
qed

end
