(* ===== verification/PoolPop.thy ===== *)
theory PoolPop
  imports PoolLoop
begin

text \<open>
  Popping a pool: tokens stand for positions in the stack of words, the words above the position are
  drained, and all pages but at most one spare are deleted. At thread exit no page is left.
\<close>

subsection \<open>Tokens\<close>

lemma slot_offset:
  assumes "page_address p" and "i < PAGE_SLOTS"
  shows "slot_addr p i mod PAGE_SIZE = HEADER_SIZE + 8 * of_nat i" and "unat (HEADER_SIZE + 8 * of_nat i :: u64) = 56 + 8 * i"
proof -
  let ?x = "HEADER_SIZE + 8 * of_nat i :: u64"
  have i: "i < 505" using assms(2) by (simp add: PAGE_SLOTS_def)
  have "?x = of_nat (56 + 8 * i)" by (simp add: HEADER_SIZE_def)
  moreover have "unat (of_nat (56 + 8 * i) :: u64) = 56 + 8 * i" using i by (subst unat_of_nat, intro mod_less) simp
  ultimately show x: "unat ?x = 56 + 8 * i" by (simp only:)
  have "p mod 4096 = 0" using assms(1) by (simp only: page_address_def PAGE_SIZE_def)
  then have "unat (p mod 4096) = 0" by (simp only: unat_0)
  then have "unat p mod 4096 = 0" unfolding unat_mod_distrib by simp
  moreover have "unat ?x < 4096" using x i by linarith
  ultimately have "(unat p + unat ?x) mod 4096 = unat ?x" 
    using mod_add_left_eq [of "unat p" 4096 "unat ?x"] by (simp only: add_0 mod_less)
  moreover have "unat (p + ?x) mod 4096 = (unat p + unat ?x) mod 4096" by (simp add: unat_word_ariths mod_mod_cancel)
  ultimately have "unat ((p + ?x) mod 4096) = unat ?x" by (simp add: unat_mod_distrib)
  then show "slot_addr p i mod PAGE_SIZE = ?x" by (simp add: slot_addr_def PAGE_SIZE_def word_unat_eq_iff add.assoc)
qed

lemma slot_addr_parts:
  assumes "page_address p" and "i < PAGE_SLOTS"
  shows "pageForPointer (slot_addr p i) = p" and "slot_index (slot_addr p i) = i" and "slot_addr p i \<noteq> EMPTY_POOL_PLACEHOLDER"
proof -
  note o = slot_offset [OF assms]
  show "pageForPointer (slot_addr p i) = p" unfolding pageForPointer_def o(1) by (simp add: slot_addr_def)
  have "i < 505" using assms(2) by (simp add: PAGE_SLOTS_def)
  then show "slot_index (slot_addr p i) = i" unfolding slot_index_def o(1) by (simp add: unat_word_ariths unat_of_nat)
  have "(1 :: u64) mod PAGE_SIZE = 1" by (simp add: PAGE_SIZE_def word_unat_eq_iff unat_mod)
  then have "slot_addr p i = 1 \<Longrightarrow> 1 = HEADER_SIZE + 8 * of_nat i" using o(1) by simp
  then have "slot_addr p i = 1 \<Longrightarrow> unat (1 :: u64) = 56 + 8 * i" using o(2) by simp
  then show "slot_addr p i \<noteq> EMPTY_POOL_PLACEHOLDER" by (auto simp: EMPTY_POOL_PLACEHOLDER_def)
qed

subsection \<open>Deleting pages\<close>

lemma chain_link:
  assumes "chain hp ps ws" and "k < length ps"
  obtains pg where "hp (ps ! k) = Some pg" and "page_parent pg = (if k = 0 then 0 else ps ! (k - 1))"
    and "page_child pg = (if Suc k < length ps then ps ! Suc k else 0)" and "page_ok pg" and "used pg = page_words ws k" and "ps ! k \<noteq> 0"
proof -
  have "chain_page hp ps ws k" "page_address (ps ! k)" using assms by (simp_all add: chain_def)
  then show ?thesis using that by (auto simp: chain_page_def page_address_def)
qed

lemma chain_snoc_link:
  assumes "chain hp (qs @ [x]) ws" and "k < length qs"
  obtains pg where "hp (qs ! k) = Some pg" and "page_parent pg = (if k = 0 then 0 else qs ! (k - 1))"
    and "page_child pg = (if Suc k < length qs then qs ! Suc k else x)" and "page_ok pg" and "used pg = page_words ws k" and "qs ! k \<noteq> 0"
proof -
  have k: "k < length (qs @ [x])" and at: "(qs @ [x]) ! k = qs ! k" "0 < k \<Longrightarrow> (qs @ [x]) ! (k - 1) = qs ! (k - 1)"
    "Suc k < length (qs @ [x]) \<and> (qs @ [x]) ! Suc k = (if Suc k < length qs then qs ! Suc k else x)"
    using assms(2) by (auto simp: nth_append less_Suc_eq)
  obtain pg where pg: "hp ((qs @ [x]) ! k) = Some pg" "page_parent pg = (if k = 0 then 0 else (qs @ [x]) ! (k - 1))"
    "page_child pg = (if Suc k < length (qs @ [x]) then (qs @ [x]) ! Suc k else 0)" "page_ok pg" "used pg = page_words ws k" "(qs @ [x]) ! k \<noteq> 0"
    using chain_link [OF assms(1) k] by metis
  have "page_parent pg = (if k = 0 then 0 else qs ! (k - 1))" using pg(2) at(2) by (cases "k = 0") simp_all
  moreover have "page_child pg = (if Suc k < length qs then qs ! Suc k else x)" using pg(3) at(3) by simp
  ultimately show ?thesis using that pg(1,4-6) unfolding at(1) by blast
qed

lemma last_child_chain:
  assumes c: "chain hp ps ws" and "k < length ps"
  shows "last_child hp (ps ! k) = Some (List.last ps)"
  using assms(2)
proof (induction "length ps - k" arbitrary: k)
  case (Suc d)
  obtain pg where pg: "hp (ps ! k) = Some pg" "page_child pg = (if Suc k < length ps then ps ! Suc k else 0)" using chain_link [OF c Suc.prems] by metis
  show ?case
  proof (cases "Suc k < length ps")
    case True
    have "ps ! Suc k \<noteq> 0" using chain_link [OF c True] by metis
    then show ?thesis using Suc.hyps(1) [of "Suc k"] Suc.hyps(2) True pg by (subst last_child.simps) simp
  next
    case False
    then have "List.last ps = ps ! k" using Suc.prems by (subst last_conv_nth) (auto intro!: arg_cong [of _ _ "(!) ps"])
    then show ?thesis using pg False by (subst last_child.simps) simp
  qed
qed simp

text \<open>The last page is unlinked and freed.\<close>

lemma chain_butlast:
  assumes c: "chain hp (qs @ [x]) ws" and ne: "qs \<noteq> []" and q: "hp (List.last qs) = Some q"
  shows "chain ((hp(List.last qs \<mapsto> q\<lparr>page_child := 0\<rparr>))(x := None)) qs ws"
proof -
  let ?hp = "(hp(List.last qs \<mapsto> q\<lparr>page_child := 0\<rparr>))(x := None)"
  have d: "distinct (qs @ [x])" "dom hp = set (qs @ [x])" "\<forall>p\<in>set qs. page_address p" using c by (auto simp: chain_def)
  have last: "List.last qs = qs ! (length qs - 1)" using ne by (rule last_conv_nth)
  have "chain_page ?hp qs ws k" if k: "k < length qs" for k
  proof -
    have x: "qs ! k \<noteq> x" using d(1) k nth_mem [OF k] by auto
    obtain pg where pg: "hp (qs ! k) = Some pg" "page_parent pg = (if k = 0 then 0 else qs ! (k - 1))" "page_ok pg" "used pg = page_words ws k"
      "page_child pg = (if Suc k < length qs then qs ! Suc k else x)"
      using chain_snoc_link [OF c k] by metis
    show ?thesis
    proof (cases "Suc k < length qs")
      case True
      then have "qs ! k \<noteq> List.last qs" unfolding last using d(1) k by (subst nth_eq_iff_index_eq) auto
      then show ?thesis using pg x True by (simp add: chain_page_def nth_append)
    next
      case False
      then have e: "length qs = Suc k" using k by simp
      then have "qs ! k = List.last qs" using last by simp
      then show ?thesis using pg x q e by (simp add: chain_page_def page_ok_def used_def)
    qed
  qed
  moreover have "dom ?hp = set qs" using d(1,2) last_in_set [OF ne] by auto
  ultimately show ?thesis using d by (simp add: chain_def)
qed

lemma delete_upto_chain:
  assumes "chain (pages s) ps ws" and "j < length ps"
  shows "\<exists>s'. delete_upto (ps ! j) (List.last ps) s = Some s' \<and> chain (pages s') (take j ps) ws \<and> tls s' = tls s \<and> same_log s s'"
  using assms
proof (induction ps arbitrary: s rule: rev_induct)
  case (snoc x qs)
  have d: "distinct (qs @ [x])" using snoc.prems(1) by (simp add: chain_def)
  have "length qs < length (qs @ [x])" "(qs @ [x]) ! length qs = x" by simp_all
  then obtain pg where pg: "pages s x = Some pg" "page_parent pg = (if length qs = 0 then 0 else (qs @ [x]) ! (length qs - 1))"
    using chain_link [OF snoc.prems(1)] by metis
  show ?case
  proof (cases "qs = []")
    case True
    let ?s = "s\<lparr>pages := (pages s)(x := None)\<rparr>"
    have "delete_upto x x s = Some ?s" using pg True by (subst delete_upto.simps) (simp add: Let_def)
    moreover have "chain (pages ?s) [] ws" using snoc.prems(1) True by (auto simp: chain_def)
    ultimately show ?thesis using True snoc.prems(2) by (auto simp: same_log_def)
  next
    case False
    then have last: "List.last qs = qs ! (length qs - 1)" by (rule last_conv_nth)
    have "length qs - 1 < length qs" using False by simp
    then obtain q where q: "pages s (List.last qs) = Some q" "List.last qs \<noteq> 0" using chain_snoc_link [OF snoc.prems(1)] unfolding last by metis
    have parent: "page_parent pg = List.last qs" using pg(2) False last by (simp add: nth_append)
    let ?s = "s\<lparr>pages := ((pages s)(List.last qs \<mapsto> q\<lparr>page_child := 0\<rparr>))(x := None)\<rparr>"
    have c: "chain (pages ?s) qs ws" using chain_butlast [OF snoc.prems(1) False q(1)] by simp
    have step: "delete_upto this x s = (if x \<noteq> this then delete_upto this (List.last qs) ?s else Some ?s)" for this
      using pg(1) parent q by (subst delete_upto.simps) (simp add: Let_def set_page_def)
    show ?thesis
    proof (cases "j = length qs")
      case True
      then show ?thesis using step [of x] c by (auto simp: same_log_def)
    next
      case False
      then have j: "j < length qs" using snoc.prems(2) by simp
      then have "x \<noteq> qs ! j" using d nth_mem [OF j] by auto
      then show ?thesis using snoc.IH [OF c j] step [of "qs ! j"] j by (auto simp: nth_append same_log_def)
    qed
  qed
qed simp

lemma kill_chain:
  assumes "chain (pages s) ps ws" and "j < length ps"
  obtains s' where "kill (ps ! j) s = Some s'" and "chain (pages s') (take j ps) ws" and "tls s' = tls s" and "same_log s s'"
  using delete_upto_chain [OF assms] last_child_chain [OF assms] that by (auto simp: kill_def)

subsection \<open>Popping\<close>

text \<open>None of the debugging modes is on.\<close>

definition plain_env :: "pool_env \<Rightarrow> bool" where
  "plain_env E \<longleftrightarrow> \<not> DebugPoolAllocation E \<and> \<not> DebugMissingPools E \<and> \<not> PrintPoolHiwat E"

lemma releaseUntil_spec:
  assumes I: "loop_inv E N n s ps ws h"
  obtains s' ps' where "releaseUntil E (ps ! (n div PAGE_SLOTS)) (n mod PAGE_SLOTS) s = Some s'"
    and "loop_inv E N n s' ps' (take n ws) (n div PAGE_SLOTS)" and "drains s s' (due_all (drop n ws))"
    and "take (Suc (n div PAGE_SLOTS)) ps' = take (Suc (n div PAGE_SLOTS)) ps"
proof -
  let ?t = "n div PAGE_SLOTS"
  obtain s' ps' h' where r: "release_loop E (ps ! ?t) (n mod PAGE_SLOTS) s = Some s'" "loop_inv E N n s' ps' (take n ws) h'"
    "drains s s' (due_all (drop n ws))" "take (Suc ?t) ps' = take (Suc ?t) ps" using release_loop_spec [OF I] by blast
  have page: "ps' ! ?t = ps ! ?t" using arg_cong [OF r(4), of "\<lambda>l. l ! ?t"] by simp
  have "n \<le> length ws" using I by (simp add: loop_inv_def stops_def)
  have "PAGE_SLOTS * ?t \<le> n" "n \<le> PAGE_SLOTS * Suc ?t" using dividend_less_times_div [of PAGE_SLOTS n] by auto
  then have "loop_inv E N n (setHotPage (ps ! ?t) s') ps' (take n ws) ?t"
    using r(2) page \<open>n \<le> length ws\<close> by (simp add: loop_inv_def poolst_def stops_def)
  moreover have "drains s (setHotPage (ps ! ?t) s') (due_all (drop n ws))" using r(3) by (simp add: drains_def)
  ultimately show ?thesis using that [of "setHotPage (ps ! ?t) s'" ps'] r(1,4) by (simp add: releaseUntil_def)
qed

lemma kill_beyond:
  assumes I: "loop_inv E N n s ps ws h" and j: "h < j" "n div PAGE_SLOTS < j" "j < length ps"
  obtains s' where "kill (ps ! j) s = Some s'" and "loop_inv E N n s' (take j ps) ws h" and "same_log s s'"
proof -
  have "chain (pages s) ps ws" using I by (simp add: loop_inv_def poolst_def)
  then obtain s' where k: "kill (ps ! j) s = Some s'" "chain (pages s') (take j ps) ws" "tls s' = tls s" "same_log s s'"
    using kill_chain [OF _ j(3)] by metis
  have "loop_inv E N n s' (take j ps) ws h" using I k(2,3,4) j by (simp add: loop_inv_def poolst_def same_log_def)
  then show ?thesis using that k by blast
qed

lemma popPage_spec:
  assumes I: "loop_inv E N n s ps ws h" and E: "plain_env E"
  obtains s' ps' where "popPage False E (ps ! (n div PAGE_SLOTS)) (n mod PAGE_SLOTS) s = Some s'"
    and "loop_inv E N n s' ps' (take n ws) (n div PAGE_SLOTS)" and "drains s s' (due_all (drop n ws))"
    and "take (Suc (n div PAGE_SLOTS)) ps' = take (Suc (n div PAGE_SLOTS)) ps" and "length ps' \<le> n div PAGE_SLOTS + 2"
proof -
  note found = that
  let ?t = "n div PAGE_SLOTS" and ?ws = "take n ws"
  obtain s1 ps1 where r: "releaseUntil E (ps ! ?t) (n mod PAGE_SLOTS) s = Some s1" "loop_inv E N n s1 ps1 ?ws ?t"
    "drains s s1 (due_all (drop n ws))" "take (Suc ?t) ps1 = take (Suc ?t) ps" using releaseUntil_spec [OF I] by metis
  have c: "chain (pages s1) ps1 ?ws" and t: "?t < length ps1" using r(2) by (auto simp: loop_inv_def poolst_def)
  have page: "ps1 ! ?t = ps ! ?t" using arg_cong [OF r(4), of "\<lambda>l. l ! ?t"] by simp
  obtain pg where pg: "pages s1 (ps ! ?t) = Some pg" "page_child pg = (if Suc ?t < length ps1 then ps1 ! Suc ?t else 0)"
    using chain_link [OF c t] unfolding page by metis
  have eq: "popPage False E (ps ! ?t) (n mod PAGE_SLOTS) s =
    (if page_child pg \<noteq> 0 then
       (if lessThanHalfFull pg then kill (page_child pg) s1
        else (case pages s1 (page_child pg) of None \<Rightarrow> None | Some ch \<Rightarrow> if page_child ch \<noteq> 0 then kill (page_child ch) s1 else Some s1))
     else Some s1)"
    using r(1) pg(1) by (simp add: popPage_def)
  have dr: "drains s s' (due_all (drop n ws))" if "same_log s1 s'" for s' using r(3) that by (simp add: drains_def same_log_def)
  show ?thesis
  proof (cases "Suc ?t < length ps1")
    case False
    then show ?thesis using that [of s1 ps1] r eq pg(2) by simp
  next
    case True
    obtain ch where ch: "pages s1 (ps1 ! Suc ?t) = Some ch" "page_child ch = (if Suc (Suc ?t) < length ps1 then ps1 ! Suc (Suc ?t) else 0)" "ps1 ! Suc ?t \<noteq> 0"
      using chain_link [OF c True] by metis
    have cut: ?thesis if j: "?t < j" "j < length ps1" "j \<le> ?t + 2" and e: "popPage False E (ps ! ?t) (n mod PAGE_SLOTS) s = kill (ps1 ! j) s1" for j
    proof -
      obtain s' where k: "kill (ps1 ! j) s1 = Some s'" "loop_inv E N n s' (take j ps1) ?ws ?t" "same_log s1 s'"
        using kill_beyond [OF r(2) j(1,1,2)] by metis
      have "take (Suc ?t) (take j ps1) = take (Suc ?t) ps" using j(1) r(4) by (simp add: min_def)
      then show ?thesis using found [of s' "take j ps1"] k e dr j by simp
    qed
    show ?thesis
    proof (cases "lessThanHalfFull pg")
      case True
      then show ?thesis using cut [of "Suc ?t"] eq pg(2) ch(3) \<open>Suc ?t < length ps1\<close> by simp
    next
      case half: False
      show ?thesis
      proof (cases "Suc (Suc ?t) < length ps1")
        case True
        then have "ps1 ! Suc (Suc ?t) \<noteq> 0" using chain_link [OF c True] by metis
        then show ?thesis using cut [of "Suc (Suc ?t)"] eq pg(2) ch half True \<open>Suc ?t < length ps1\<close> by simp
      next
        case False
        then show ?thesis using that [of s1 ps1] r eq pg(2) ch half \<open>Suc ?t < length ps1\<close> by simp
      qed
    qed
  qed
qed

text \<open>The token of position n; the first position may also be named by the placeholder.\<close>

definition token_at :: "u64 list \<Rightarrow> nat \<Rightarrow> u64 \<Rightarrow> bool" where
  "token_at ps n token \<longleftrightarrow> token = word_addr ps n \<or> n = 0 \<and> token = EMPTY_POOL_PLACEHOLDER"

lemma coldPage_chain:
  assumes P: "poolst s ps ws h"
  shows "coldPage s = Some (ps ! 0)"
proof -
  have c: "chain (pages s) ps ws" using P by (simp add: poolst_def)
  have "coldest (pages s) (ps ! k) = Some (ps ! 0)" if "k < length ps" for k
    using that
  proof (induction k)
    case 0
    obtain pg where "pages s (ps ! 0) = Some pg" "page_parent pg = (if (0 :: nat) = 0 then 0 else ps ! (0 - 1))" using chain_link [OF c 0] by metis
    then show ?case by (subst coldest.simps) simp
  next
    case (Suc k)
    have k: "k < length ps" using Suc.prems by simp
    obtain pg where "pages s (ps ! Suc k) = Some pg" "page_parent pg = (if Suc k = 0 then 0 else ps ! (Suc k - 1))" using chain_link [OF c Suc.prems] by metis
    moreover have "ps ! k \<noteq> 0" using chain_link [OF c k] by metis
    ultimately show ?case using Suc.IH [OF k] by (subst coldest.simps) simp
  qed
  then show ?thesis using P poolst_hotPage [OF P] by (simp add: coldPage_def poolst_def)
qed

lemma pop_at_spec:
  assumes I: "loop_inv E N n s ps ws h" and E: "plain_env E" and n: "n < length ws \<or> n = 0"
  shows "pop_at E (word_addr ps n) (ps ! (n div PAGE_SLOTS)) s = map_option Popped (popPage False E (ps ! (n div PAGE_SLOTS)) (n mod PAGE_SLOTS) s)"
proof -
  let ?t = "n div PAGE_SLOTS"
  have c: "chain (pages s) ps ws" and t: "?t < length ps" using I by (auto simp: loop_inv_def poolst_def)
  obtain pg where pg: "pages s (ps ! ?t) = Some pg" "page_parent pg = (if ?t = 0 then 0 else ps ! (?t - 1))" "page_ok pg" "used pg = page_words ws ?t"
    using chain_link [OF c t] by metis
  have a: "page_address (ps ! ?t)" using c t by (simp add: chain_def)
  have stop: "slot_index (word_addr ps n) = n mod PAGE_SLOTS" unfolding word_addr_def by (rule slot_addr_parts [OF a]) simp
  have "page_slots pg ! (n mod PAGE_SLOTS) = 0 \<or> n mod PAGE_SLOTS = 0 \<and> page_parent pg = 0"
  proof (cases "n = 0")
    case False
    then have nl: "n < length ws" "ws ! n = 0" using n I by (auto simp: loop_inv_def stops_def)
    have m: "PAGE_SLOTS * ?t + n mod PAGE_SLOTS = n" "n mod PAGE_SLOTS < PAGE_SLOTS" by simp_all
    have b: "PAGE_SLOTS * ?t \<le> length ws" "n mod PAGE_SLOTS < length ws - PAGE_SLOTS * ?t" using nl(1) m(1) by linarith+
    have "drop (PAGE_SLOTS * ?t) ws ! (n mod PAGE_SLOTS) = 0" using nl(2) by (subst nth_drop [OF b(1)]) simp
    then have "used pg ! (n mod PAGE_SLOTS) = 0" "n mod PAGE_SLOTS < length (used pg)" using pg(4) m(2) b(2) by (simp_all add: page_words_def)
    then show ?thesis using used_nth [OF pg(3)] length_used [OF pg(3)] by simp
  qed (simp add: pg)
  then show ?thesis using pg(1) E by (auto simp: pop_at_def Let_def stop plain_env_def POOL_BOUNDARY_def)
qed

lemma pool_pop_spec:
  assumes I: "loop_inv E N n s ps ws h" and E: "plain_env E" and n: "n < length ws \<or> n = 0" and tok: "token_at ps n token"
  obtains s' ps' where "pool_pop E token s = Some (Popped s')"
    and "loop_inv E N n s' ps' (take n ws) (n div PAGE_SLOTS)" and "drains s s' (due_all (drop n ws))"
    and "take (Suc (n div PAGE_SLOTS)) ps' = take (Suc (n div PAGE_SLOTS)) ps" and "length ps' \<le> n div PAGE_SLOTS + 2"
proof -
  let ?t = "n div PAGE_SLOTS"
  have P: "poolst s ps ws h" and t: "?t < length ps" using I by (simp_all add: loop_inv_def)
  then have a: "page_address (ps ! ?t)" by (simp add: poolst_def chain_def)
  have parts: "pageForPointer (word_addr ps n) = ps ! ?t" "word_addr ps n \<noteq> EMPTY_POOL_PLACEHOLDER"
    unfolding word_addr_def by (rule slot_addr_parts [OF a], simp)+
  have "word_addr ps 0 = slot_addr (ps ! 0) 0" by (simp add: word_addr_def)
  then have eq: "pool_pop E token s = pop_at E (word_addr ps n) (ps ! ?t) s"
    using tok parts poolst_hotPage [OF P] coldPage_chain [OF P] by (auto simp: pool_pop_def token_at_def)
  show ?thesis
  proof (rule popPage_spec [OF I E])
    fix s' ps'
    assume "popPage False E (ps ! ?t) (n mod PAGE_SLOTS) s = Some s'"
    then have "pool_pop E token s = Some (Popped s')" using eq pop_at_spec [OF I E n] by simp
    then show "loop_inv E N n s' ps' (take n ws) ?t \<Longrightarrow> drains s s' (due_all (drop n ws)) \<Longrightarrow> take (Suc ?t) ps' = take (Suc ?t) ps \<Longrightarrow>
      length ps' \<le> ?t + 2 \<Longrightarrow> thesis" by (rule that)
  qed
qed

subsection \<open>Thread exit\<close>

lemma tls_dealloc_spec:
  assumes I: "loop_inv E N 0 s ps ws h" and E: "plain_env E"
  obtains s' where "tls_dealloc E (tls s) s = Some s'" and "drains s s' (due_all ws)" and "pages s' = Map.empty" and "tls s' = 0"
proof -
  have P: "poolst s ps ws h" and len: "0 < length ps" using I by (simp_all add: loop_inv_def)
  have c: "chain (pages s) ps ws" using P by (simp add: poolst_def)
  have same: "setHotPage (tls s) s = s" by (simp add: setHotPage_def)
  have ne: "tls s \<noteq> EMPTY_POOL_PLACEHOLDER" "ps ! 0 \<noteq> 0"
    using poolst_hotPage [OF P] page_address_tls P chain_link [OF c len] by (auto simp: poolst_def)
  obtain pg where pg: "pages s (ps ! 0) = Some pg" "page_empty pg \<longleftrightarrow> ws = []"
  proof -
    obtain pg where "pages s (ps ! 0) = Some pg" "page_next pg = 0 mod PAGE_SLOTS \<longleftrightarrow> length ws = 0" using loop_page [OF I] by (metis div_0)
    then show ?thesis using that by (simp add: page_empty_def)
  qed
  have "word_addr ps 0 = slot_addr (ps ! 0) 0" by (simp add: word_addr_def)
  then obtain s1 ps1 where r: "(if \<not> page_empty pg then pool_pop E (slot_addr (ps ! 0) 0) s else Some (Popped s)) = Some (Popped s1)"
    "chain (pages s1) ps1 []" "ps1 ! 0 = ps ! 0" "0 < length ps1" "drains s s1 (due_all ws)"
  proof (cases "ws = []")
    case True
    then show ?thesis using that [of s ps] pg(2) c len drains_nothing by simp
  next
    case False
    obtain s1 ps1 where r: "pool_pop E (word_addr ps 0) s = Some (Popped s1)" "loop_inv E N 0 s1 ps1 (take 0 ws) (0 div PAGE_SLOTS)"
      "drains s s1 (due_all (drop 0 ws))" "take (Suc (0 div PAGE_SLOTS)) ps1 = take (Suc (0 div PAGE_SLOTS)) ps"
      by (rule pool_pop_spec [OF I E, of "word_addr ps 0"]) (auto simp: token_at_def)
    have "ps1 ! 0 = ps ! 0" using arg_cong [OF r(4), of "\<lambda>l. l ! 0"] by simp
    then show ?thesis using that [of s1 ps1] r False pg(2) \<open>word_addr ps 0 = slot_addr (ps ! 0) 0\<close> by (simp add: loop_inv_def poolst_def)
  qed
  obtain s2 where k: "kill (ps ! 0) s1 = Some s2" "chain (pages s2) [] []" "same_log s1 s2"
    using kill_chain [OF r(2,4)] r(3) by (metis take0)
  have "tls_dealloc E (tls s) s = Some (setHotPage 0 s2)"
    using ne coldPage_chain [OF P] pg(1) r(1) k(1) E by (simp add: tls_dealloc_def same Let_def plain_env_def)
  moreover have "drains s (setHotPage 0 s2) (due_all ws)" using r(5) k(3) by (simp add: drains_def same_log_def)
  moreover have "pages s2 = Map.empty" using k(2) by (simp add: chain_def)
  ultimately show ?thesis using that [of "setHotPage 0 s2"] by simp
qed

end
