(* ===== verification/PoolSpec.thy ===== *)
theory PoolSpec
  imports PoolPop
begin

text \<open>
  What autorelease pools promise: a stack of multisets of objects. A thread runs a sequence of pushes,
  autoreleases and pops; the pages implement the stack, and each object is released as often as it was
  autoreleased. The base of the stack takes what is autoreleased without a pool.
\<close>

datatype pool_op = Push_pool | Autorelease u64 | Pop_pool nat

text \<open>The tokens of the open pools, the innermost first; a pop names a pool by its depth.\<close>

definition pool_step :: "pool_env \<Rightarrow> pool_op \<Rightarrow> u64 list \<times> pools \<Rightarrow> (u64 list \<times> pools) option" where
  "pool_step E op = (\<lambda>(toks, s). case op of
     Push_pool \<Rightarrow> map_option (\<lambda>(token, s'). (token # toks, s')) (pool_push E s)
   | Autorelease obj \<Rightarrow> map_option (Pair toks) (autorelease E obj s)
   | Pop_pool k \<Rightarrow>
       if k < length toks then
         (case pool_pop E (toks ! k) s of Some (Popped s') \<Rightarrow> Some (drop (Suc k) toks, s') | _ \<Rightarrow> None)
       else None)"

fun pool_run :: "pool_env \<Rightarrow> pool_op list \<Rightarrow> u64 list \<times> pools \<Rightarrow> (u64 list \<times> pools) option" where
  "pool_run E [] st = Some st"
| "pool_run E (op # ops) st = (case pool_step E op st of None \<Rightarrow> None | Some st' \<Rightarrow> pool_run E ops st')"

definition thread_start :: "u64 list list \<Rightarrow> pools" where
  "thread_start rs = \<lparr>pages = Map.empty, tls = 0, released = [], reactions = rs\<rparr>"

text \<open>The destructor of thread-local storage runs when the word is not null.\<close>

definition thread_exit :: "pool_env \<Rightarrow> pools \<Rightarrow> pools option" where
  "thread_exit E s = (if tls s = 0 then Some s else tls_dealloc E (tls s) s)"

subsection \<open>The stack of multisets\<close>

record pool_stack =
  pending :: "u64 multiset list"
  given :: "u64 multiset"
  later :: "u64 list list"

definition drain_pools :: "nat \<Rightarrow> pool_stack \<Rightarrow> pool_stack" where
  "drain_pools k A =
     (let M = sum_list (take k (pending A)); n = drained (size M) (later A) in
      \<lparr>pending = drop k (pending A), given = given A + M + mset (concat (take n (later A))), later = drop n (later A)\<rparr>)"

fun stack_step :: "pool_op \<Rightarrow> pool_stack \<Rightarrow> pool_stack option" where
  "stack_step Push_pool A = Some (A\<lparr>pending := {#} # pending A\<rparr>)"
| "stack_step (Autorelease obj) A = Some (A\<lparr>pending := (hd (pending A) + {#obj#}) # tl (pending A)\<rparr>)"
| "stack_step (Pop_pool k) A = (if Suc k < length (pending A) then Some (drain_pools (Suc k) A) else None)"

fun stack_run :: "pool_op list \<Rightarrow> pool_stack \<Rightarrow> pool_stack option" where
  "stack_run [] A = Some A"
| "stack_run (op # ops) A = (case stack_step op A of None \<Rightarrow> None | Some A' \<Rightarrow> stack_run ops A')"

definition stack_start :: "u64 list list \<Rightarrow> pool_stack" where
  "stack_start rs = \<lparr>pending = [{#}], given = {#}, later = rs\<rparr>"

definition op_ok :: "pool_op \<Rightarrow> bool" where
  "op_ok op = (case op of Autorelease obj \<Rightarrow> is_object obj | _ \<Rightarrow> True)"

subsection \<open>The pages implement the stack\<close>

definition mark_ok :: "u64 list \<Rightarrow> u64 list \<Rightarrow> nat \<Rightarrow> u64 \<Rightarrow> u64 multiset \<Rightarrow> bool" where
  "mark_ok ps ws n token M \<longleftrightarrow> n < length ws \<and> ws ! n = 0 \<and> token_at ps n token \<and> due_all (drop n ws) = M"

definition tokens_ok :: "u64 list \<Rightarrow> u64 list \<Rightarrow> nat list \<Rightarrow> u64 list \<Rightarrow> u64 multiset list \<Rightarrow> bool" where
  "tokens_ok ps ws ns toks Ms \<longleftrightarrow> length ns = length toks \<and> length Ms = Suc (length toks) \<and> sorted_wrt (>) ns \<and> due_all ws = sum_list Ms \<and>
     (\<forall>j<length toks. mark_ok ps ws (ns ! j) (toks ! j) (sum_list (take (Suc j) Ms)))"

definition no_page :: "pools \<Rightarrow> u64 list \<Rightarrow> u64 multiset list \<Rightarrow> bool" where
  "no_page s toks Ms \<longleftrightarrow> pages s = Map.empty \<and>
     (tls s = 0 \<and> toks = [] \<and> Ms = [{#}] \<or> tls s = EMPTY_POOL_PLACEHOLDER \<and> toks = [EMPTY_POOL_PLACEHOLDER] \<and> Ms = [{#}, {#}])"

definition implements :: "nat \<Rightarrow> nat \<Rightarrow> u64 list \<times> pools \<Rightarrow> pool_stack \<Rightarrow> bool" where
  "implements N left = (\<lambda>(toks, s) A. given A = mset (released s) \<and> later A = reactions s \<and> objects_only (reactions s) \<and>
     left + length (concat (reactions s)) \<le> N \<and>
     (no_page s toks (pending A) \<or>
      (\<exists>ps ws h ns. poolst s ps ws h \<and> length ps + left + length (concat (reactions s)) \<le> N \<and> tokens_ok ps ws ns toks (pending A))))"

lemma word_addr_take:
  assumes "take (Suc h) ps' = take (Suc h) ps" and "n div PAGE_SLOTS \<le> h"
  shows "token_at ps' n = token_at ps n"
proof -
  have "ps' ! (n div PAGE_SLOTS) = ps ! (n div PAGE_SLOTS)" using arg_cong [OF assms(1), of "\<lambda>l. l ! (n div PAGE_SLOTS)"] assms(2) by simp
  then show ?thesis by (simp add: token_at_def word_addr_def fun_eq_iff)
qed

lemma poolst_index:
  assumes "poolst s ps ws h" and "n < length ws"
  shows "n div PAGE_SLOTS \<le> h"
  using assms by (simp add: poolst_def less_Suc_eq_le [symmetric] div_less_iff_less_mult mult.commute)

text \<open>A word more on the stack keeps the tokens that there are.\<close>

lemma tokens_ok_push:
  assumes "tokens_ok ps ws ns toks Ms" and P: "poolst s ps ws h" and "take (Suc h) ps' = take (Suc h) ps"
  shows "tokens_ok ps' (ws @ [0]) (length ws # ns) (word_addr ps' (length ws) # toks) ({#} # Ms)"
proof -
  have T: "length ns = length toks" "length Ms = Suc (length toks)" "sorted_wrt (>) ns" "due_all ws = sum_list Ms"
    "\<forall>j<length toks. mark_ok ps ws (ns ! j) (toks ! j) (sum_list (take (Suc j) Ms))"
    using assms(1) by (auto simp: tokens_ok_def)
  have "mark_ok ps' (ws @ [0]) n token M" if "mark_ok ps ws n token M" for n token M
    using that word_addr_take [OF assms(3) poolst_index [OF P]] by (simp add: mark_ok_def nth_append)
  moreover have "mark_ok ps' (ws @ [0]) (length ws) (word_addr ps' (length ws)) {#}" by (simp add: mark_ok_def token_at_def)
  moreover have "\<forall>n\<in>set ns. n < length ws" using T(1,5) by (auto simp: in_set_conv_nth mark_ok_def)
  ultimately show ?thesis using T by (simp add: tokens_ok_def All_less_Suc2)
qed

lemma tokens_ok_autorelease:
  assumes "tokens_ok ps ws ns toks Ms" and P: "poolst s ps ws h" and "take (Suc h) ps' = take (Suc h) ps" and "adds ws ws' obj" and "is_object obj"
  shows "tokens_ok ps' ws' ns toks ((hd Ms + {#obj#}) # tl Ms)"
proof -
  have T: "length ns = length toks" "length Ms = Suc (length toks)" "sorted_wrt (>) ns" "due_all ws = sum_list Ms"
    "\<forall>j<length toks. mark_ok ps ws (ns ! j) (toks ! j) (sum_list (take (Suc j) Ms))"
    using assms(1) by (auto simp: tokens_ok_def)
  obtain M Ms' where Ms: "Ms = M # Ms'" using T(2) by (cases Ms) auto
  have g: "grows m ws ws' [obj]" if "guarded m ws" for m using adds_grows [OF assms(4) that assms(5)] .
  have all: "due_all ws' = due_all ws + {#obj#}" using g [of 0] by (simp add: grows_def guarded_def)
  have "mark_ok ps' ws' n token (L + {#obj#})" if m: "mark_ok ps ws n token L" for n token L
  proof -
    have gd: "guarded (Suc n) ws" using m by (simp add: mark_ok_def guarded_def)
    have "grows n ws ws' [obj] \<and> ws' ! n = 0" using grows_below [OF g [OF gd] gd] .
    then show ?thesis using m word_addr_take [OF assms(3) poolst_index [OF P]] by (auto simp: grows_def mark_ok_def)
  qed
  then show ?thesis using T Ms all by (simp add: tokens_ok_def ac_simps)
qed

text \<open>Popping the k-th pool cuts the stack at its mark.\<close>

lemma tokens_ok_pop:
  assumes T: "tokens_ok ps ws ns toks Ms" and k: "k < length toks" and "take (Suc (ns ! k div PAGE_SLOTS)) ps' = take (Suc (ns ! k div PAGE_SLOTS)) ps"
  shows "tokens_ok ps' (take (ns ! k) ws) (drop (Suc k) ns) (drop (Suc k) toks) (drop (Suc k) Ms)"
    and "due_all (drop (ns ! k) ws) = sum_list (take (Suc k) Ms)"
proof -
  have T: "length ns = length toks" "length Ms = Suc (length toks)" "sorted_wrt (>) ns" "due_all ws = sum_list Ms"
    "\<And>j. j < length toks \<Longrightarrow> mark_ok ps ws (ns ! j) (toks ! j) (sum_list (take (Suc j) Ms))"
    using assms(1) by (auto simp: tokens_ok_def)
  let ?n = "ns ! k"
  have nk: "?n < length ws" "due_all (drop ?n ws) = sum_list (take (Suc k) Ms)" using T(5) [OF k] by (simp_all add: mark_ok_def)
  then show "due_all (drop ?n ws) = sum_list (take (Suc k) Ms)" by simp
  have cut: "due_all (drop m (take ?n ws)) + sum_list (take (Suc k) Ms) = due_all (drop m ws)" if "m \<le> ?n" for m
  proof -
    have "drop m ws = drop m (take ?n ws) @ drop ?n ws" using that nk(1) append_take_drop_id [of "?n - m" "drop m ws"] by (simp add: drop_take)
    then show ?thesis using nk(2) by simp
  qed
  have split: "sum_list Ms = sum_list (take (Suc k) Ms) + sum_list (drop (Suc k) Ms)"
    unfolding sum_list.append [symmetric] by simp
  have "mark_ok ps' (take ?n ws) (drop (Suc k) ns ! j) (drop (Suc k) toks ! j) (sum_list (take (Suc j) (drop (Suc k) Ms)))"
    if j: "j < length (drop (Suc k) toks)" for j
  proof -
    let ?i = "Suc k + j"
    have i: "?i < length toks" "k < ?i" using j by auto
    have less: "ns ! ?i < ?n" using sorted_wrt_nth_less [OF T(3) i(2)] i(1) T(1) by simp
    note m = T(5) [OF i(1)]
    have "take (Suc ?i) Ms = take (Suc k) Ms @ take (Suc j) (drop (Suc k) Ms)" using take_add [of "Suc k" "Suc j" Ms] by simp
    then have "due_all (drop (ns ! ?i) (take ?n ws)) = sum_list (take (Suc j) (drop (Suc k) Ms))"
      using cut [of "ns ! ?i"] m less by (simp add: mark_ok_def)
    moreover have "token_at ps' (ns ! ?i) (toks ! ?i)"
      using m word_addr_take [OF assms(3), of "ns ! ?i"] less by (simp add: mark_ok_def div_le_mono)
    ultimately show ?thesis using m less nk(1) i T(1) by (simp add: mark_ok_def)
  qed
  then show "tokens_ok ps' (take ?n ws) (drop (Suc k) ns) (drop (Suc k) toks) (drop (Suc k) Ms)"
    using T(1-4) cut [of 0] split k by (simp add: tokens_ok_def sorted_wrt_drop)
qed

subsection \<open>Each operation\<close>

lemma first_page:
  assumes "pages s = Map.empty" and "alloc_ok E N" and "0 < N"
  obtains p s1 where "new_page E 0 s = Some (p, s1)" and "poolst (setHotPage p s1) [p] [] 0" and "same_log s s1"
proof -
  let ?p = "page_at E (pages s)"
  let ?s = "set_page ?p (fresh_page E 0 0 0) s"
  have "page_address ?p" using assms by (simp add: alloc_ok_def)
  then have "poolst (setHotPage ?p ?s) [?p] [] 0"
    using assms(1) by (simp add: poolst_def chain_def chain_page_def page_words_def)
  moreover have "new_page E 0 s = Some (?p, ?s)" by (simp add: new_page_def Let_def fresh_page_def)
  ultimately show ?thesis using that [of ?p ?s] by (simp add: same_log_def)
qed

text \<open>Adding to a thread without pages: one boundary takes the place of the placeholder.\<close>

lemma autoreleaseNoPage_spec:
  assumes no: "no_page s toks Ms" and E: "alloc_ok E N" "0 < N" "plain_env E" and obj: "obj \<noteq> 0 \<or> toks \<noteq> []"
  obtains p s1 ws ns where "autoreleaseFast E obj s = add_to E p obj s1" and "poolst s1 [p] ws 0" and "tokens_ok [p] ws ns toks Ms" and "length ws < PAGE_SLOTS"
    and "same_log s s1"
proof -
  have e: "pages s = Map.empty" and h: "hotPage s = 0" using no by (auto simp: no_page_def hotPage_def)
  obtain p s1 where n: "new_page E 0 s = Some (p, s1)" "poolst (setHotPage p s1) [p] [] 0" "same_log s s1" using first_page [OF e E(1,2)] by metis
  show ?thesis
  proof (cases "tls s = EMPTY_POOL_PLACEHOLDER")
    case False
    then have t: "toks = []" "Ms = [{#}]" using no by (auto simp: no_page_def)
    then have "autoreleaseFast E obj s = add_to E p obj (setHotPage p s1)"
      using n(1) h False obj E(3) by (simp add: autoreleaseFast_def autoreleaseNoPage_def haveEmptyPoolPlaceholder_def plain_env_def POOL_BOUNDARY_def Let_def)
    moreover have "tokens_ok [p] [] [] toks Ms" using t by (simp add: tokens_ok_def)
    moreover have "same_log s (setHotPage p s1)" using n(3) by (simp add: same_log_def)
    ultimately show ?thesis using that n(2) by (metis PAGE_SLOTS_pos list.size(3))
  next
    case True
    then have t: "toks = [EMPTY_POOL_PLACEHOLDER]" "Ms = [{#}, {#}]" using no by (auto simp: no_page_def EMPTY_POOL_PLACEHOLDER_def)
    have "length ([] :: u64 list) < PAGE_SLOTS * Suc 0" by simp
    then obtain s2 ws where r: "add_to E ([p] ! 0) 0 (setHotPage p s1) = Some (word_addr [p] (length ws - 1), s2)" "poolst s2 [p] ws 0" "same_log (setHotPage p s1) s2" "ws = [] @ [0]"
      using add_to_hot [OF n(2), of 0 E] by metis
    have "autoreleaseFast E obj s = add_to E p obj s2"
      using n(1) h True r(1) by (simp add: autoreleaseFast_def autoreleaseNoPage_def haveEmptyPoolPlaceholder_def POOL_BOUNDARY_def Let_def)
    moreover have "tokens_ok [p] ws [0] toks Ms" using t r(4) by (simp add: tokens_ok_def mark_ok_def token_at_def)
    moreover have "length ws < PAGE_SLOTS" using r(4) by (simp add: PAGE_SLOTS_def)
    moreover have "same_log s s2" using n(3) r(3) by (simp add: same_log_def)
    ultimately show ?thesis using that r(2) by blast
  qed
qed

text \<open>What is common to adding a boundary and adding an object.\<close>

lemma add_spec:
  assumes I: "implements N (Suc left) (toks, s) A" and E: "alloc_ok E N" "plain_env E" and obj: "obj = 0 \<and> (toks = [] \<longrightarrow> pages s \<noteq> Map.empty) \<or> is_object obj"
  obtains s' ps ps' ws ws' h h' ns where "autoreleaseFast E obj s = Some (word_addr ps' (length ws' - 1), s')" and "poolst s' ps' ws' h'" and "adds ws ws' obj"
    and "obj = 0 \<longrightarrow> ws' = ws @ [0]" and "take (Suc h) ps' = take (Suc h) ps" and "tokens_ok ps ws ns toks (pending A)" and "same_log s s'"
    and "length ps' + left + length (concat (reactions s)) \<le> N" and "\<exists>s1. poolst s1 ps ws h"
proof (cases "no_page s toks (pending A)")
  case True
  have N: "0 < N" "1 + left + length (concat (reactions s)) \<le> N" using I by (simp_all add: implements_def)
  have o: "obj \<noteq> 0 \<or> toks \<noteq> []" "obj = 0 \<or> is_object obj" using obj True by (auto simp: no_page_def is_object_def)
  obtain p s1 ws ns where r: "autoreleaseFast E obj s = add_to E p obj s1" "poolst s1 [p] ws 0" "tokens_ok [p] ws ns toks (pending A)" "length ws < PAGE_SLOTS" "same_log s s1"
    using autoreleaseNoPage_spec [OF True E(1) N(1) E(2) o(1)] by metis
  have "length ws < PAGE_SLOTS * Suc 0" using r(4) by simp
  then obtain s' ws' where a: "add_to E ([p] ! 0) obj s1 = Some (word_addr [p] (length ws' - 1), s')" "poolst s' [p] ws' 0" "adds ws ws' obj" "same_log s1 s'"
    "obj = 0 \<Longrightarrow> ws' = ws @ [0]" using add_to_hot [OF r(2) _ o(2)] by metis
  have "same_log s s'" using r(5) a(4) by (simp add: same_log_def)
  then show ?thesis using that [of "[p]" ws' s' 0 ws 0 "[p]" ns] r(1-3) a N(2) by auto
next
  case False
  then obtain ps ws h ns where P: "poolst s ps ws h" "length ps + Suc left + length (concat (reactions s)) \<le> N" "tokens_ok ps ws ns toks (pending A)"
    using I by (auto simp: implements_def)
  have o: "obj = 0 \<or> is_object obj" using obj by auto
  have "length ps < N" using P(2) by simp
  then obtain s' ps' ws' h' where r: "autoreleaseFast E obj s = Some (word_addr ps' (length ws' - 1), s')" "poolst s' ps' ws' h'" "adds ws ws' obj" "same_log s s'"
    "obj = 0 \<Longrightarrow> ws' = ws @ [0]" "length ps' \<le> Suc (length ps)" "take (Suc h) ps' = take (Suc h) ps"
    using autoreleaseFast_spec [OF P(1) o E(1)] by metis
  then show ?thesis using that [of ps' ws' s' h' ws h ps ns] P by auto
qed

lemma push_step:
  assumes I: "implements N (Suc left) (toks, s) A" and E: "alloc_ok E N" "plain_env E"
  shows "\<exists>st'. pool_step E Push_pool (toks, s) = Some st' \<and> implements N left st' (A\<lparr>pending := {#} # pending A\<rparr>)"
proof (cases "pages s = Map.empty \<and> toks = []")
  case True
  have "\<not> (\<exists>ps ws h. poolst s ps ws h)" using True by (auto simp: poolst_def chain_def)
  then have no: "no_page s toks (pending A)" using I by (auto simp: implements_def)
  then have z: "tls s = 0" "pending A = [{#}]" "hotPage s = 0" using True by (auto simp: no_page_def hotPage_def)
  let ?s = "s\<lparr>tls := EMPTY_POOL_PLACEHOLDER\<rparr>"
  have "pool_push E s = Some (EMPTY_POOL_PLACEHOLDER, ?s)"
    using z(1,3) E(2) by (simp add: pool_push_def autoreleaseFast_def autoreleaseNoPage_def haveEmptyPoolPlaceholder_def setEmptyPoolPlaceholder_def
        plain_env_def POOL_BOUNDARY_def EMPTY_POOL_PLACEHOLDER_def Let_def)
  moreover have "implements N left ([EMPTY_POOL_PLACEHOLDER], ?s) (A\<lparr>pending := {#} # pending A\<rparr>)"
    using I z True by (simp add: implements_def no_page_def)
  ultimately show ?thesis using True by (simp add: pool_step_def)
next
  case False
  then have o: "(0 :: u64) = 0 \<and> (toks = [] \<longrightarrow> pages s \<noteq> Map.empty) \<or> is_object 0" by blast
  obtain s' ps ps' ws ws' h h' ns where r: "autoreleaseFast E 0 s = Some (word_addr ps' (length ws' - 1), s')" "poolst s' ps' ws' h'" "adds ws ws' 0"
    "(0 :: u64) = 0 \<longrightarrow> ws' = ws @ [0]" "take (Suc h) ps' = take (Suc h) ps" "tokens_ok ps ws ns toks (pending A)" "same_log s s'"
    "length ps' + left + length (concat (reactions s)) \<le> N" "\<exists>s1. poolst s1 ps ws h"
    by (rule add_spec [OF I E o])
  have ws': "ws' = ws @ [0]" using r(4) by simp
  obtain s1 where "poolst s1 ps ws h" using r(9) by blast
  then have "tokens_ok ps' ws' (length ws # ns) (word_addr ps' (length ws) # toks) ({#} # pending A)" unfolding ws' by (intro tokens_ok_push [OF r(6) _ r(5)])
  then have "implements N left (word_addr ps' (length ws) # toks, s') (A\<lparr>pending := {#} # pending A\<rparr>)"
    using I r(2,7,8) by (auto simp: implements_def same_log_def)
  moreover have "pool_push E s = Some (word_addr ps' (length ws), s')" using r(1) ws' E(2) by (simp add: pool_push_def plain_env_def POOL_BOUNDARY_def)
  ultimately show ?thesis by (simp add: pool_step_def)
qed

lemma autorelease_step:
  assumes I: "implements N (Suc left) (toks, s) A" and E: "alloc_ok E N" "plain_env E" and o: "is_object obj"
  shows "\<exists>st'. pool_step E (Autorelease obj) (toks, s) = Some st' \<and> implements N left st' (A\<lparr>pending := (hd (pending A) + {#obj#}) # tl (pending A)\<rparr>)"
proof -
  obtain s' ps ps' ws ws' h h' ns where r: "autoreleaseFast E obj s = Some (word_addr ps' (length ws' - 1), s')" "poolst s' ps' ws' h'" "adds ws ws' obj"
    "obj = 0 \<longrightarrow> ws' = ws @ [0]" "take (Suc h) ps' = take (Suc h) ps" "tokens_ok ps ws ns toks (pending A)" "same_log s s'"
    "length ps' + left + length (concat (reactions s)) \<le> N" "\<exists>s1. poolst s1 ps ws h"
    by (rule add_spec [OF I E disjI2 [OF o]])
  obtain s1 where "poolst s1 ps ws h" using r(9) by blast
  then have "tokens_ok ps' ws' ns toks ((hd (pending A) + {#obj#}) # tl (pending A))" by (intro tokens_ok_autorelease [OF r(6) _ r(5,3) o])
  then have "implements N left (toks, s') (A\<lparr>pending := (hd (pending A) + {#obj#}) # tl (pending A)\<rparr>)"
    using I r(2,7,8) by (auto simp: implements_def same_log_def)
  then show ?thesis using r(1) by (simp add: pool_step_def autorelease_def)
qed

lemma pop_step:
  assumes I: "implements N (Suc left) (toks, s) A" and E: "alloc_ok E N" "plain_env E" and k: "Suc k < length (pending A)"
  shows "\<exists>st'. pool_step E (Pop_pool k) (toks, s) = Some st' \<and> implements N left st' (drain_pools (Suc k) A)"
proof (cases "no_page s toks (pending A)")
  case True
  then have z: "pages s = Map.empty" "toks = [EMPTY_POOL_PLACEHOLDER]" "pending A = [{#}, {#}]" "hotPage s = 0" "k = 0" using k by (auto simp: no_page_def hotPage_def)
  then have "pool_step E (Pop_pool k) (toks, s) = Some ([], setHotPage 0 s)" by (simp add: pool_step_def pool_pop_def)
  moreover have "implements N left ([], setHotPage 0 s) (drain_pools (Suc k) A)"
    using I z by (simp add: implements_def no_page_def drain_pools_def Let_def)
  ultimately show ?thesis by simp
next
  case False
  then obtain ps ws h ns where P: "poolst s ps ws h" "length ps + Suc left + length (concat (reactions s)) \<le> N" and T: "tokens_ok ps ws ns toks (pending A)"
    using I by (auto simp: implements_def)
  let ?n = "ns ! k"
  have kt: "k < length toks" using k T by (simp add: tokens_ok_def)
  then have m: "?n < length ws" "ws ! ?n = 0" "token_at ps ?n (toks ! k)" using T by (auto simp: tokens_ok_def mark_ok_def)
  have "?n div PAGE_SLOTS < length ps" using poolst_index [OF P(1) m(1)] P(1) by (simp add: poolst_def)
  have "length ps + length (concat (reactions s)) \<le> N - Suc left" using P(2) by simp
  moreover have "alloc_ok E (N - Suc left)" using E(1) by (auto simp: alloc_ok_def)
  ultimately have L: "loop_inv E (N - Suc left) ?n s ps ws h"
    using I P(1) m \<open>?n div PAGE_SLOTS < length ps\<close> by (simp add: loop_inv_def stops_def implements_def)
  obtain s' ps' where r: "pool_pop E (toks ! k) s = Some (Popped s')" "loop_inv E (N - Suc left) ?n s' ps' (take ?n ws) (?n div PAGE_SLOTS)"
    "drains s s' (due_all (drop ?n ws))" "take (Suc (?n div PAGE_SLOTS)) ps' = take (Suc (?n div PAGE_SLOTS)) ps"
    using pool_pop_spec [OF L E(2) disjI1 [OF m(1)] m(3)] by metis
  note cut = tokens_ok_pop [OF T kt r(4)]
  have "length ps' + left + length (concat (reactions s')) \<le> N" "objects_only (reactions s')" using r(2) P(2) by (auto simp: loop_inv_def)
  moreover have "poolst s' ps' (take ?n ws) (?n div PAGE_SLOTS)" using r(2) by (simp add: loop_inv_def)
  ultimately have "implements N left (drop (Suc k) toks, s') (drain_pools (Suc k) A)"
    using I cut r(3) by (auto simp: implements_def drains_def drain_pools_def Let_def ac_simps)
  then show ?thesis using kt r(1) by (simp add: pool_step_def)
qed

lemma step_implements:
  assumes "implements N (Suc left) st A" and "alloc_ok E N" and "plain_env E" and "op_ok op" and "stack_step op A = Some A'"
  obtains st' where "pool_step E op st = Some st'" and "implements N left st' A'"
proof (cases st)
  case (Pair toks s)
  note I = assms(1) [unfolded Pair] and E = assms(2,3)
  show ?thesis
  proof (cases op)
    case Push_pool
    then show ?thesis using push_step [OF I E] assms(5) that Pair by auto
  next
    case (Autorelease obj)
    then show ?thesis using autorelease_step [OF I E, of obj] assms(4,5) that Pair by (auto simp: op_ok_def)
  next
    case (Pop_pool k)
    then have "Suc k < length (pending A)" "A' = drain_pools (Suc k) A" using assms(5) by (auto split: if_splits)
    then show ?thesis using pop_step [OF I E, of k] that Pair Pop_pool by auto
  qed
qed

lemma run_implements:
  assumes "implements N (length ops + left) st A" and E: "alloc_ok E N" "plain_env E" and "\<forall>op\<in>set ops. op_ok op" and "stack_run ops A = Some A'"
  shows "\<exists>st'. pool_run E ops st = Some st' \<and> implements N left st' A'"
  using assms(1,4,5)
proof (induction ops arbitrary: st A)
  case (Cons op ops)
  obtain A1 where A1: "stack_step op A = Some A1" "stack_run ops A1 = Some A'" using Cons.prems(3) by (auto split: option.splits)
  have "implements N (Suc (length ops + left)) st A" "op_ok op" using Cons.prems by simp_all
  then obtain st1 where "pool_step E op st = Some st1" "implements N (length ops + left) st1 A1"
    using step_implements [OF _ E _ A1(1)] by metis
  then show ?case using Cons.IH [of st1 A1] Cons.prems(2) A1(2) by simp
qed simp

lemma start_implements:
  assumes "objects_only rs" and "left + length (concat rs) \<le> N"
  shows "implements N left ([], thread_start rs) (stack_start rs)"
  using assms by (simp add: implements_def thread_start_def stack_start_def no_page_def)

subsection \<open>The thread ends\<close>

lemma exit_implements:
  assumes I: "implements N left (toks, s) A" and E: "alloc_ok E N" "plain_env E"
  shows "\<exists>s'. thread_exit E s = Some s' \<and> pages s' = Map.empty \<and> mset (released s') = given (drain_pools (length (pending A)) A) \<and>
    reactions s' = later (drain_pools (length (pending A)) A)"
proof (cases "no_page s toks (pending A)")
  case True
  have "thread_exit E s = Some s" using True by (auto simp: no_page_def thread_exit_def tls_dealloc_def)
  moreover have "sum_list (pending A) = {#}" "pages s = Map.empty" using True by (auto simp: no_page_def)
  ultimately show ?thesis using I by (simp add: implements_def drain_pools_def Let_def)
next
  case False
  then obtain ps ws h ns where P: "poolst s ps ws h" "length ps + left + length (concat (reactions s)) \<le> N" and T: "tokens_ok ps ws ns toks (pending A)"
    using I by (auto simp: implements_def)
  have "0 < length ps" "tls s \<noteq> 0" using P(1) poolst_hotPage [OF P(1)] by (auto simp: poolst_def)
  then have "loop_inv E N 0 s ps ws h" using I P E(1) by (simp add: loop_inv_def stops_def implements_def)
  then obtain s' where r: "tls_dealloc E (tls s) s = Some s'" "drains s s' (due_all ws)" "pages s' = Map.empty"
    using tls_dealloc_spec [OF _ E(2)] by metis
  have "due_all ws = sum_list (pending A)" using T by (simp add: tokens_ok_def)
  then show ?thesis using r I \<open>tls s \<noteq> 0\<close> by (auto simp: thread_exit_def implements_def drains_def drain_pools_def Let_def)
qed

subsection \<open>What the stack keeps\<close>

definition autoreleased :: "pool_op list \<Rightarrow> u64 list" where
  "autoreleased ops = concat (map (\<lambda>op. case op of Autorelease obj \<Rightarrow> [obj] | _ \<Rightarrow> []) ops)"

lemma drained_size: "drained p rs = p + length (concat (take (drained p rs) rs))"
  by (induction p rs rule: drained.induct) simp_all

text \<open>What was released and what is pending is what was autoreleased so far.\<close>

definition balanced :: "u64 list list \<Rightarrow> pool_stack \<Rightarrow> u64 multiset \<Rightarrow> bool" where
  "balanced rs A L \<longleftrightarrow> pending A \<noteq> [] \<and> later A = drop (size (given A)) rs \<and>
     given A + sum_list (pending A) = L + mset (concat (take (size (given A)) rs))"

lemma drain_balanced:
  assumes "balanced rs A L"
  shows "later (drain_pools k A) = drop (size (given (drain_pools k A))) rs"
    and "given (drain_pools k A) + sum_list (pending (drain_pools k A)) = L + mset (concat (take (size (given (drain_pools k A))) rs))"
proof -
  let ?M = "sum_list (take k (pending A))"
  let ?n = "drained (size ?M) (later A)"
  have A: "later A = drop (size (given A)) rs" "given A + sum_list (pending A) = L + mset (concat (take (size (given A)) rs))"
    using assms by (simp_all add: balanced_def)
  have split: "sum_list (pending A) = ?M + sum_list (drop k (pending A))" unfolding sum_list.append [symmetric] by simp
  have D: "given (drain_pools k A) = given A + ?M + mset (concat (take ?n (later A)))" "later (drain_pools k A) = drop ?n (later A)"
    "pending (drain_pools k A) = drop k (pending A)" by (simp_all add: drain_pools_def Let_def)
  have n: "size (given (drain_pools k A)) = size (given A) + ?n" unfolding D using drained_size [of "size ?M" "later A"] by simp
  show "later (drain_pools k A) = drop (size (given (drain_pools k A))) rs" unfolding n unfolding D(2) A(1) by (simp add: add.commute)
  have "take (size (given A) + ?n) rs = take (size (given A)) rs @ take ?n (later A)" unfolding A by (rule take_add)
  then have "L + mset (concat (take (size (given A) + ?n) rs)) = given A + sum_list (pending A) + mset (concat (take ?n (later A)))"
    using A(2) by (simp add: add.assoc)
  then show "given (drain_pools k A) + sum_list (pending (drain_pools k A)) = L + mset (concat (take (size (given (drain_pools k A))) rs))"
    unfolding n unfolding D split by (simp add: ac_simps)
qed

lemma stack_run_balanced:
  assumes "balanced rs A L" and "stack_run ops A = Some A'"
  shows "balanced rs A' (L + mset (autoreleased ops))"
  using assms
proof (induction ops arbitrary: A L)
  case (Cons op ops)
  obtain A1 where A1: "stack_step op A = Some A1" "stack_run ops A1 = Some A'" using Cons.prems(2) by (auto split: option.splits)
  have "balanced rs A1 (L + mset (autoreleased [op]))"
  proof (cases op)
    case Push_pool
    then show ?thesis using Cons.prems(1) A1(1) by (auto simp: balanced_def autoreleased_def)
  next
    case (Autorelease obj)
    obtain M Ms where "pending A = M # Ms" using Cons.prems(1) by (cases "pending A") (auto simp: balanced_def)
    then show ?thesis using Cons.prems(1) A1(1) Autorelease by (auto simp: balanced_def autoreleased_def ac_simps)
  next
    case (Pop_pool k)
    then have A1': "Suc k < length (pending A)" "A1 = drain_pools (Suc k) A" using A1(1) by (auto split: if_splits)
    then have "pending A1 \<noteq> []" by (simp add: drain_pools_def Let_def)
    then show ?thesis using drain_balanced [OF Cons.prems(1), of "Suc k"] Pop_pool A1' by (simp add: balanced_def autoreleased_def)
  qed
  then have "balanced rs A' (L + mset (autoreleased [op]) + mset (autoreleased ops))" using Cons.IH [OF _ A1(2)] by blast
  moreover have "autoreleased (op # ops) = autoreleased [op] @ autoreleased ops" by (simp add: autoreleased_def)
  ultimately show ?case by (simp add: add.assoc)
qed (simp add: autoreleased_def)

lemma start_balanced: "balanced rs (stack_start rs) {#}"
  by (simp add: balanced_def stack_start_def)

end
