(* ===== verification/PoolTheorems.thy ===== *)
theory PoolTheorems
  imports PoolSpec
begin

text \<open>The properties of autorelease pools over whole runs of a thread.\<close>

subsection \<open>The inner loop of releaseUntil\<close>

text \<open>\<open>releaseUntil\<close> with an \<open>if\<close> in place of the inner \<open>while\<close>.\<close>

definition nonempty_page_if :: "u64 \<Rightarrow> pools \<Rightarrow> (u64 \<times> pools) option" where
  "nonempty_page_if page s =
     (case pages s page of None \<Rightarrow> None
      | Some pg \<Rightarrow> if page_empty pg then Some (page_parent pg, setHotPage (page_parent pg) s) else Some (page, s))"

partial_function (option) release_loop_if :: "pool_env \<Rightarrow> u64 \<Rightarrow> nat \<Rightarrow> pools \<Rightarrow> pools option" where
  "release_loop_if E this stop s =
     (case pages s this of None \<Rightarrow> None
      | Some pg \<Rightarrow>
          if page_next pg = stop then Some s
          else
            (case nonempty_page_if (hotPage s) s of None \<Rightarrow> None
             | Some (page, s1) \<Rightarrow>
                 (case release_top E page s1 of None \<Rightarrow> None
                  | Some s2 \<Rightarrow> release_loop_if E this stop s2)))"

text \<open>The page and the stop position that a pop hands to \<open>releaseUntil\<close>.\<close>

definition pop_target :: "u64 \<Rightarrow> pools \<Rightarrow> (u64 \<times> nat) option" where
  "pop_target token s =
     (if token = EMPTY_POOL_PLACEHOLDER then map_option (\<lambda>page. (page, slot_index (slot_addr page 0))) (coldPage s)
      else Some (pageForPointer token, slot_index token))"

lemma release_loop_if_eq:
  assumes "loop_inv E N n s ps ws h"
  shows "release_loop_if E (ps ! (n div PAGE_SLOTS)) (n mod PAGE_SLOTS) s = release_loop E (ps ! (n div PAGE_SLOTS)) (n mod PAGE_SLOTS) s"
  using assms
proof (induction "length ws + length (concat (reactions s))" arbitrary: s ps ws h rule: less_induct)
  case less
  note I = less.prems
  let ?page = "ps ! (n div PAGE_SLOTS)" and ?stop = "n mod PAGE_SLOTS"
  obtain pg where pg: "pages s ?page = Some pg" "page_next pg = ?stop \<longleftrightarrow> length ws = n" using loop_page [OF I] by blast
  show ?case
  proof (cases "length ws = n")
    case True
    then show ?thesis using pg by (subst release_loop.simps, subst release_loop_if.simps) simp
  next
    case False
    then have n: "n < length ws" using I by (simp add: loop_inv_def stops_def)
    obtain k s2 ps2 ws2 h2 where r: "nonempty_page (hotPage s) s = Some (ps ! k, setHotPage (ps ! k) s)" "release_top E (ps ! k) (setHotPage (ps ! k) s) = Some s2"
      "loop_inv E N n s2 ps2 ws2 h2" "grows n (butlast ws) ws2 (provoked (top_due ws) s)"
      "released s2 = released s @ replicate (top_due ws) (entry_ptr (List.last ws))" "reactions s2 = drop (top_due ws) (reactions s)"
      "take (Suc (n div PAGE_SLOTS)) ps2 = take (Suc (n div PAGE_SLOTS)) ps"
      "\<forall>pg. pages s (hotPage s) = Some pg \<longrightarrow> ps ! k = (if page_empty pg then page_parent pg else hotPage s)"
      by (rule release_round [OF I n])
    have P: "poolst s ps ws h" using I by (simp add: loop_inv_def)
    obtain hp where hp: "pages s (hotPage s) = Some hp" using poolst_hot [OF P] poolst_hotPage(1) [OF P] by metis
    have hot: "setHotPage (hotPage s) s = s" using P poolst_hotPage(1) [OF P] by (simp add: setHotPage_def poolst_def)
    have one: "nonempty_page_if (hotPage s) s = nonempty_page (hotPage s) s"
      using r(1) r(8) hp hot by (cases "page_empty hp") (simp_all add: nonempty_page_if_def)
    have same_page: "ps2 ! (n div PAGE_SLOTS) = ?page" using arg_cong [OF r(7), of "\<lambda>l. l ! (n div PAGE_SLOTS)"] by simp
    have "length ws2 + length (concat (reactions s2)) < length ws + length (concat (reactions s))"
      using r(4,6) n length_provoked [of "top_due ws" s] by (auto simp: grows_def)
    then have "release_loop_if E ?page ?stop s2 = release_loop E ?page ?stop s2" using less.hyps [OF _ r(3)] same_page by simp
    then show ?thesis using pg False one r(1,2) by (subst release_loop.simps, subst release_loop_if.simps) simp
  qed
qed

text \<open>The invariant of the loop holds where a pop starts.\<close>

lemma implements_pop:
  assumes I: "implements N left (toks, s) A" and E: "alloc_ok E N" and k: "k < length toks" and hot: "hotPage s \<noteq> 0"
  obtains ps ws h n where "loop_inv E N n s ps ws h" and "pop_target (toks ! k) s = Some (ps ! (n div PAGE_SLOTS), n mod PAGE_SLOTS)"
proof -
  have "\<not> no_page s toks (pending A)" using hot by (auto simp: no_page_def hotPage_def split: if_splits)
  then obtain ps ws h ns where P: "poolst s ps ws h" "length ps + left + length (concat (reactions s)) \<le> N" and T: "tokens_ok ps ws ns toks (pending A)"
    using I by (auto simp: implements_def)
  let ?n = "ns ! k"
  have m: "?n < length ws" "ws ! ?n = 0" "token_at ps ?n (toks ! k)" using T k by (auto simp: tokens_ok_def mark_ok_def)
  have t: "?n div PAGE_SLOTS < length ps" using poolst_index [OF P(1) m(1)] P(1) by (simp add: poolst_def)
  then have "loop_inv E N ?n s ps ws h" using I P m E by (simp add: loop_inv_def stops_def implements_def)
  moreover have a: "page_address (ps ! (?n div PAGE_SLOTS))" using P(1) t by (simp add: poolst_def chain_def)
  have "pop_target (toks ! k) s = Some (ps ! (?n div PAGE_SLOTS), ?n mod PAGE_SLOTS)"
  proof (cases "toks ! k = EMPTY_POOL_PLACEHOLDER")
    case True
    then have "?n = 0" using m(3) slot_addr_parts(3) [OF a, of "?n mod PAGE_SLOTS"] by (auto simp: token_at_def word_addr_def)
    then show ?thesis using True coldPage_chain [OF P(1)] slot_addr_parts(2) [OF a, of 0] by (simp add: pop_target_def)
  next
    case False
    then have "toks ! k = slot_addr (ps ! (?n div PAGE_SLOTS)) (?n mod PAGE_SLOTS)" using m(3) by (auto simp: token_at_def word_addr_def)
    then show ?thesis using False slot_addr_parts(1,2) [OF a, of "?n mod PAGE_SLOTS"] by (simp add: pop_target_def)
  qed
  ultimately show ?thesis using that by blast
qed

subsection \<open>Whole runs\<close>

text \<open>The hypotheses of the theorems about runs: the allocator has pages for as many objects and pools as there are.\<close>

definition run_ok :: "pool_env \<Rightarrow> pool_op list \<Rightarrow> u64 list list \<Rightarrow> bool" where
  "run_ok E ops rs \<longleftrightarrow> alloc_ok E (length ops + length (concat rs)) \<and> plain_env E \<and> (\<forall>op\<in>set ops. op_ok op) \<and> objects_only rs"

lemma run_reaches:
  assumes "run_ok E ops rs" and "stack_run ops (stack_start rs) = Some A"
  obtains toks s where "pool_run E ops ([], thread_start rs) = Some (toks, s)" and "implements (length ops + length (concat rs)) 0 (toks, s) A"
  using assms start_implements [of rs "length ops + 0" "length ops + length (concat rs)"]
    run_implements [of "length ops + length (concat rs)" ops 0 "([], thread_start rs)" "stack_start rs" E A] that
  by (auto simp: run_ok_def)

lemma implements_hotPage: "implements N left (toks, s) A \<Longrightarrow> sum_list (pending A) \<noteq> {#} \<Longrightarrow> hotPage s \<noteq> 0"
  using poolst_hotPage by (fastforce simp: implements_def no_page_def)

lemma implements_tokens: "implements N left (toks, s) A \<Longrightarrow> length (pending A) = Suc (length toks)"
  by (auto simp: implements_def no_page_def tokens_ok_def)

text \<open>
  C2: The autorelease pool pages implement a stack of multisets: whatever sequence of pushes, autoreleases and
  pops a thread runs, and whatever the released objects autorelease in turn, the run succeeds and has
  released exactly the objects that the stack gives out.
\<close>

theorem pool_refines_stack:
  assumes "run_ok E ops rs" and "stack_run ops (stack_start rs) = Some A"
  shows "\<exists>toks s. pool_run E ops ([], thread_start rs) = Some (toks, s) \<and> mset (released s) = given A \<and> reactions s = later A \<and>
    Suc (length toks) = length (pending A)"
proof -
  obtain toks s where r: "pool_run E ops ([], thread_start rs) = Some (toks, s)" "implements (length ops + length (concat rs)) 0 (toks, s) A"
    by (rule run_reaches [OF assms])
  then have "mset (released s) = given A" "reactions s = later A" by (simp_all add: implements_def)
  then show ?thesis using r(1) implements_tokens [OF r(2)] by auto
qed

text \<open>
  C6: Nothing is lost and nothing is released twice: when the thread has ended, each object was released as
  often as it was autoreleased, and no page is left.
\<close>

theorem autoreleased_all_released:
  assumes "run_ok E ops rs" and "stack_run ops (stack_start rs) = Some A"
  shows "\<exists>toks s s'. pool_run E ops ([], thread_start rs) = Some (toks, s) \<and> thread_exit E s = Some s' \<and> pages s' = Map.empty \<and>
    mset (released s') = mset (autoreleased ops) + mset (concat (take (length (released s')) rs))"
proof -
  obtain toks s where r: "pool_run E ops ([], thread_start rs) = Some (toks, s)" "implements (length ops + length (concat rs)) 0 (toks, s) A"
    by (rule run_reaches [OF assms])
  have "alloc_ok E (length ops + length (concat rs))" "plain_env E" using assms(1) by (simp_all add: run_ok_def)
  then obtain s' where e: "thread_exit E s = Some s'" "pages s' = Map.empty" "mset (released s') = given (drain_pools (length (pending A)) A)"
    using exit_implements [OF r(2)] by blast
  have "size (given (drain_pools (length (pending A)) A)) = length (released s')" unfolding e(3) [symmetric] by simp
  moreover have "pending (drain_pools (length (pending A)) A) = []" by (simp add: drain_pools_def Let_def)
  ultimately have "mset (released s') = mset (autoreleased ops) + mset (concat (take (length (released s')) rs))"
    using drain_balanced(2) [OF stack_run_balanced [OF start_balanced assms(2)], of "length (pending A)"] e(3) by simp
  then show ?thesis using r(1) e by blast
qed

text \<open>
  C35: The comment in \<open>releaseUntil\<close> asks whether its inner \<open>while\<close> can be an \<open>if\<close>: it can. For each token of an
  open pool, in each state that a run reaches, the loop with an \<open>if\<close> does what the code does.
\<close>

theorem release_while_is_if:
  assumes "run_ok E ops rs" and "stack_run ops (stack_start rs) = Some A" and "pool_run E ops ([], thread_start rs) = Some (toks, s)"
    and "k < length toks" and "hotPage s \<noteq> 0"
  shows "\<exists>page stop s'. pop_target (toks ! k) s = Some (page, stop) \<and> release_loop E page stop s = Some s' \<and> release_loop_if E page stop s = Some s'"
proof -
  have I: "implements (length ops + length (concat rs)) 0 (toks, s) A" using run_reaches [OF assms(1,2)] assms(3) by (metis option.inject)
  have "alloc_ok E (length ops + length (concat rs))" using assms(1) by (simp add: run_ok_def)
  then obtain ps ws h n where "loop_inv E (length ops + length (concat rs)) n s ps ws h"
    "pop_target (toks ! k) s = Some (ps ! (n div PAGE_SLOTS), n mod PAGE_SLOTS)" using implements_pop [OF I _ assms(4,5)] by metis
  then show ?thesis using release_loop_if_eq release_loop_spec by metis
qed

subsection \<open>A sample run\<close>

text \<open>An allocator with eight pages.\<close>

definition sample_pages :: "u64 list" where
  "sample_pages = map (\<lambda>k. 0x1000 * of_nat k) [1..<9]"

definition sample_env :: pool_env where
  "sample_env = \<lparr>page_at = (\<lambda>hp. case find (\<lambda>p. hp p = None) sample_pages of Some p \<Rightarrow> p | None \<Rightarrow> 0), page_garbage = (\<lambda>_. 0),
     DisableAutoreleaseCoalescing = False, DisableAutoreleaseCoalescingLRU = False, DebugPoolAllocation = False, DebugMissingPools = False,
     PrintPoolHiwat = False, bad_pop_is_fatal = True\<rparr>"

lemma sample_pages_eq: "sample_pages = [0x1000, 0x2000, 0x3000, 0x4000, 0x5000, 0x6000, 0x7000, 0x8000]"
  by (simp add: sample_pages_def upt_rec)

lemma sample_alloc: "alloc_ok sample_env 8"
  unfolding alloc_ok_def
proof (intro allI impI)
  fix hp :: page_heap
  assume c: "card (dom hp) < 8"
  have "distinct sample_pages" "length sample_pages = 8" by (simp_all add: sample_pages_eq)
  then have "card (set sample_pages) = 8" using distinct_card by metis
  then have "\<not> set sample_pages \<subseteq> dom hp" using c card_mono [of "dom hp" "set sample_pages"] by auto
  then have "find (\<lambda>p. hp p = None) sample_pages \<noteq> None" by (auto simp: find_None_iff)
  then obtain p where p: "find (\<lambda>p. hp p = None) sample_pages = Some p" by blast
  then have "hp p = None" "p \<in> set sample_pages" by (auto simp: find_Some_iff)
  moreover have "\<forall>p\<in>set sample_pages. page_address p" by (simp add: sample_pages_eq page_address_def PAGE_SIZE_def)
  moreover have "page_at sample_env hp = p" using p by (simp add: sample_env_def)
  ultimately show "page_at sample_env hp \<notin> dom hp \<and> page_address (page_at sample_env hp)" by auto
qed

definition sample_ops :: "pool_op list" where
  "sample_ops = [Push_pool, Autorelease 0x7000, Push_pool, Autorelease 0x7000, Autorelease 0x9000, Pop_pool 0, Autorelease 0x9000]"

lemma sample_run_ok: "run_ok sample_env sample_ops [[0x7000]]"
proof -
  have len: "length sample_ops + length (concat [[0x7000 :: u64]]) = 8" by (simp add: sample_ops_def)
  have "plain_env sample_env" by (simp add: plain_env_def sample_env_def)
  moreover have "(\<forall>op\<in>set sample_ops. op_ok op) \<and> objects_only [[0x7000]]" by (simp add: sample_ops_def op_ok_def objects_only_def is_object_def)
  ultimately show ?thesis unfolding run_ok_def len using sample_alloc by blast
qed

definition sample_stack :: pool_stack where
  "sample_stack = \<lparr>pending = [{#0x7000, 0x9000#}, {#}], given = {#0x7000, 0x7000, 0x9000#}, later = []\<rparr>"

lemma sample_stack_run: "stack_run sample_ops (stack_start [[0x7000]]) = Some sample_stack"
  by (simp add: sample_ops_def stack_start_def drain_pools_def sample_stack_def Let_def numeral_eq_Suc)

theorem pool_refines_stack_witness:
  "\<exists>toks s. pool_run sample_env sample_ops ([], thread_start [[0x7000]]) = Some (toks, s) \<and> mset (released s) = {#0x7000, 0x7000, 0x9000#} \<and> length toks = 1"
  using pool_refines_stack [OF sample_run_ok sample_stack_run] by (auto simp: sample_stack_def)

theorem autoreleased_all_released_witness:
  "\<exists>toks s s'. pool_run sample_env sample_ops ([], thread_start [[0x7000]]) = Some (toks, s) \<and> thread_exit sample_env s = Some s' \<and> pages s' = Map.empty \<and>
     {#0x7000, 0x7000, 0x9000, 0x9000#} \<subseteq># mset (released s')"
  using autoreleased_all_released [OF sample_run_ok sample_stack_run] by (auto simp: sample_ops_def autoreleased_def)

theorem release_while_is_if_witness:
  "\<exists>toks s page stop s'. pool_run sample_env sample_ops ([], thread_start [[0x7000]]) = Some (toks, s) \<and> pop_target (toks ! 0) s = Some (page, stop) \<and>
     release_loop sample_env page stop s = Some s' \<and> release_loop_if sample_env page stop s = Some s'"
proof -
  obtain toks s where r: "pool_run sample_env sample_ops ([], thread_start [[0x7000]]) = Some (toks, s)"
    "implements (length sample_ops + length (concat [[0x7000 :: u64]])) 0 (toks, s) sample_stack"
    by (rule run_reaches [OF sample_run_ok sample_stack_run])
  have "hotPage s \<noteq> 0" "0 < length toks"
    using implements_hotPage [OF r(2)] implements_tokens [OF r(2)] by (auto simp: sample_stack_def)
  then show ?thesis using release_while_is_if [OF sample_run_ok sample_stack_run r(1)] r(1) by blast
qed

end
