(* ===== verification/WeakVars.thy ===== *)
theory WeakVars
  imports IsaChanges
begin

text \<open>
  Weak variables: \<open>storeWeak\<close>, \<open>objc_loadWeakRetained\<close> and their callers in \<open>NSObject.mm\<close>, over the side
  tables. Other threads run between the first load of a variable and the acquisition of the locks: a list
  of state changes says what they do, one for each time the code retries. A script says what they write to
  an \<open>isa\<close> word, as in \<open>ObjcObject\<close>.
\<close>

subsection \<open>What the code calls\<close>

text \<open>
  The class of a tagged pointer, what an overriding \<open>allowsWeakReference\<close> answers, and an overriding
  \<open>retainWeakReference\<close>, which may be missing.
\<close>

record weak_env =
  taggedClass :: "u64 \<Rightarrow> u64"
  allowsWeakReference :: "u64 \<Rightarrow> weak_answer"
  retainWeakReference :: "u64 \<Rightarrow> (rt \<Rightarrow> bool \<times> rt) option"

type_synonym others = "(rt \<Rightarrow> rt) list"

fun others_run :: "others \<Rightarrow> rt \<Rightarrow> rt \<times> others" where
  "others_run [] s = (s, [])"
| "others_run (f # oth) s = (f s, oth)"

definition obj_class :: "env \<Rightarrow> weak_env \<Rightarrow> u64 \<Rightarrow> rt \<Rightarrow> u64" where
  "obj_class E W obj s = (if isTaggedPointer E obj then taggedClass W obj else ISA E obj s)"

text \<open>
  \<open>class_initialize\<close> leaves a class initialized or being initialized by this thread. The flag of the class
  is the one before the call, so \<open>storeWeak\<close> sees a class that is still initializing.
\<close>

definition class_initialize :: "u64 \<Rightarrow> rt \<Rightarrow> rt" where
  "class_initialize cls s = s\<lparr>sent := sent s @ [ClassInitialize cls]\<rparr>"

definition initialized_or_by_this_thread :: "env \<Rightarrow> u64 \<Rightarrow> rt \<Rightarrow> bool" where
  "initialized_or_by_this_thread E cls s \<longleftrightarrow> cls_isInitialized (classes E cls) \<or> ClassInitialize cls \<in> set (sent s)"

subsection \<open>Two locks\<close>

text \<open>The side tables lie in an array, so the order of their addresses is the one of their indices.\<close>

definition lock_at :: "nat \<Rightarrow> rt \<Rightarrow> rt option" where
  "lock_at i s = map_option (\<lambda>t. s\<lparr>SideTables := (SideTables s)(i := t)\<rparr>) (SideTable_lock (SideTables s i))"

definition unlock_at :: "nat \<Rightarrow> rt \<Rightarrow> rt option" where
  "unlock_at i s = map_option (\<lambda>t. s\<lparr>SideTables := (SideTables s)(i := t)\<rparr>) (SideTable_unlock (SideTables s i))"

definition mutex_lockTwo :: "nat \<Rightarrow> nat \<Rightarrow> rt \<Rightarrow> rt option" where
  "mutex_lockTwo lock1 lock2 s =
     (if lock1 < lock2 then do { s \<leftarrow> lock_at lock1 s; lock_at lock2 s }
      else do { s \<leftarrow> lock_at lock2 s; if lock2 \<noteq> lock1 then lock_at lock1 s else Some s })"

definition mutex_unlockTwo :: "nat \<Rightarrow> nat \<Rightarrow> rt \<Rightarrow> rt option" where
  "mutex_unlockTwo lock1 lock2 s = do {
     s \<leftarrow> unlock_at lock1 s;
     if lock2 \<noteq> lock1 then unlock_at lock2 s else Some s }"

definition lockTwo :: "bool \<Rightarrow> bool \<Rightarrow> nat \<Rightarrow> nat \<Rightarrow> rt \<Rightarrow> rt option" where
  "lockTwo haveOld haveNew lock1 lock2 s =
     (if haveOld then if haveNew then mutex_lockTwo lock1 lock2 s else lock_at lock1 s else lock_at lock2 s)"

definition unlockTwo :: "bool \<Rightarrow> bool \<Rightarrow> nat \<Rightarrow> nat \<Rightarrow> rt \<Rightarrow> rt option" where
  "unlockTwo haveOld haveNew lock1 lock2 s =
     (if haveOld then if haveNew then mutex_unlockTwo lock1 lock2 s else unlock_at lock1 s else unlock_at lock2 s)"

subsection \<open>Registering in a side table\<close>

definition put_weak :: "nat \<Rightarrow> weak_table_t \<Rightarrow> rt \<Rightarrow> rt" where
  "put_weak i t s = s\<lparr>SideTables := (SideTables s)(i := (SideTables s i)\<lparr>weak_table := t\<rparr>)\<rparr>"

text \<open>Whether the object is viable, asked by \<open>weak_register_no_lock\<close>.\<close>

definition weak_answer_of :: "env \<Rightarrow> weak_env \<Rightarrow> rt \<Rightarrow> u64 \<Rightarrow> weak_answer option" where
  "weak_answer_of E W s r =
     (if \<not> hasCustomRR (classes E (ISA E r s))
      then map_option (\<lambda>d. if d then Deallocating else Alive) (rootIsDeallocating E r s)
      else Some (allowsWeakReference W r))"

definition weak_register_in ::
  "env \<Rightarrow> weak_env \<Rightarrow> nat \<Rightarrow> u64 \<Rightarrow> u64 \<Rightarrow> WeakRegisterDeallocatingOptions \<Rightarrow> rt \<Rightarrow> (u64 \<times> rt) option" where
  "weak_register_in E W i r referrer opt s = do {
     answer \<leftarrow> (if isTaggedPointerOrNil E r \<or> opt = DontCheckDeallocating then Some Alive else weak_answer_of E W s r);
     (r', t) \<leftarrow> weak_register_no_lock (isTaggedPointerOrNil E) (\<lambda>_. answer) (weak_table (SideTables s i)) r referrer opt;
     Some (r', put_weak i t s) }"

definition weak_unregister_in :: "nat \<Rightarrow> u64 \<Rightarrow> u64 \<Rightarrow> rt \<Rightarrow> rt option" where
  "weak_unregister_in i r referrer s = do {
     t \<leftarrow> weak_unregister_no_lock (weak_table (SideTables s i)) r referrer;
     Some (put_weak i t s) }"

definition set_var :: "u64 \<Rightarrow> u64 \<Rightarrow> rt \<Rightarrow> rt" where
  "set_var location obj s = s\<lparr>vars := (vars s)(location := obj)\<rparr>"

subsection \<open>storeWeak\<close>

definition callSetWeaklyReferenced :: "env \<Rightarrow> weak_env \<Rightarrow> u64 \<Rightarrow> rt \<Rightarrow> rt" where
  "callSetWeaklyReferenced E W obj s =
     (if obj = 0 then s
      else
        let cls = classes E (obj_class E W obj s) in
        if hasCustomRR cls \<and> \<not> (\<not> isTaggedPointer E obj \<and> isClass E obj s) \<and> implementsSetWeaklyReferenced cls
        then s\<lparr>sent := sent s @ [SetWeaklyReferenced obj]\<rparr> else s)"

text \<open>The section between the locks: the old value is cleaned up, the new one is assigned.\<close>

definition store_cleanup :: "bool \<Rightarrow> nat \<Rightarrow> u64 \<Rightarrow> u64 \<Rightarrow> rt \<Rightarrow> rt option" where
  "store_cleanup haveOld oldTable oldObj location s =
     (if haveOld then weak_unregister_in oldTable oldObj location s else Some s)"

definition store_assign ::
  "env \<Rightarrow> weak_env \<Rightarrow> bool \<Rightarrow> bool \<Rightarrow> nat \<Rightarrow> u64 \<Rightarrow> u64 \<Rightarrow> script \<Rightarrow> rt \<Rightarrow> (u64 \<times> rt) option" where
  "store_assign E W haveNew crashIfDeallocating newTable newObj location isc s =
     (if haveNew then do {
        (newObj, s) \<leftarrow> weak_register_in E W newTable newObj location
                          (if crashIfDeallocating then CrashIfDeallocating else ReturnNilIfDeallocating) s;
        s \<leftarrow> (if \<not> isTaggedPointerOrNil E newObj then setWeaklyReferenced_nolock E newObj isc s else Some s);
        Some (newObj, set_var location newObj s) }
      else Some (newObj, s))"

partial_function (option) storeWeak ::
  "env \<Rightarrow> weak_env \<Rightarrow> bool \<Rightarrow> bool \<Rightarrow> bool \<Rightarrow> u64 \<Rightarrow> u64 \<Rightarrow> u64 \<Rightarrow> others \<Rightarrow> script \<Rightarrow> rt \<Rightarrow> (u64 \<times> rt) option" where
  "storeWeak E W haveOld haveNew crashIfDeallocating location newObj previouslyInitializedClass oth isc s0 =
     (let oldObj = vars s0 location;
          oldTable = indexForPointer E oldObj;
          newTable = indexForPointer E newObj;
          (s, oth) = others_run oth s0 in do {
      s \<leftarrow> lockTwo haveOld haveNew oldTable newTable s;
      let cls = obj_class E W newObj s;
      if haveOld \<and> vars s location \<noteq> oldObj then do {
        s \<leftarrow> unlockTwo haveOld haveNew oldTable newTable s;
        storeWeak E W haveOld haveNew crashIfDeallocating location newObj previouslyInitializedClass oth isc s }
      else if haveNew \<and> newObj \<noteq> 0 \<and> cls \<noteq> previouslyInitializedClass \<and> \<not> cls_isInitialized (classes E cls) then do {
        s \<leftarrow> unlockTwo haveOld haveNew oldTable newTable s;
        let (s, oth) = others_run oth (class_initialize cls s);
        storeWeak E W haveOld haveNew crashIfDeallocating location newObj cls oth isc s }
      else do {
        s \<leftarrow> store_cleanup haveOld oldTable oldObj location s;
        (newObj, s) \<leftarrow> store_assign E W haveNew crashIfDeallocating newTable newObj location isc s;
        s \<leftarrow> unlockTwo haveOld haveNew oldTable newTable s;
        Some (newObj, callSetWeaklyReferenced E W newObj s) } })"

definition objc_storeWeak :: "env \<Rightarrow> weak_env \<Rightarrow> u64 \<Rightarrow> u64 \<Rightarrow> others \<Rightarrow> script \<Rightarrow> rt \<Rightarrow> (u64 \<times> rt) option" where
  "objc_storeWeak E W location newObj oth isc s = storeWeak E W True True True location newObj 0 oth isc s"

definition objc_storeWeakOrNil :: "env \<Rightarrow> weak_env \<Rightarrow> u64 \<Rightarrow> u64 \<Rightarrow> others \<Rightarrow> script \<Rightarrow> rt \<Rightarrow> (u64 \<times> rt) option" where
  "objc_storeWeakOrNil E W location newObj oth isc s = storeWeak E W True True False location newObj 0 oth isc s"

definition objc_initWeak :: "env \<Rightarrow> weak_env \<Rightarrow> u64 \<Rightarrow> u64 \<Rightarrow> others \<Rightarrow> script \<Rightarrow> rt \<Rightarrow> (u64 \<times> rt) option" where
  "objc_initWeak E W location newObj oth isc s =
     (if newObj = 0 then Some (0, set_var location 0 s) else storeWeak E W False True True location newObj 0 oth isc s)"

definition objc_initWeakOrNil :: "env \<Rightarrow> weak_env \<Rightarrow> u64 \<Rightarrow> u64 \<Rightarrow> others \<Rightarrow> script \<Rightarrow> rt \<Rightarrow> (u64 \<times> rt) option" where
  "objc_initWeakOrNil E W location newObj oth isc s =
     (if newObj = 0 then Some (0, set_var location 0 s) else storeWeak E W False True False location newObj 0 oth isc s)"

definition objc_destroyWeak :: "env \<Rightarrow> weak_env \<Rightarrow> u64 \<Rightarrow> others \<Rightarrow> rt \<Rightarrow> rt option" where
  "objc_destroyWeak E W location oth s = map_option snd (storeWeak E W True False False location 0 0 oth [] s)"

subsection \<open>Loading, copying and moving\<close>

text \<open>\<open>Some None\<close> asks the caller to initialize the class and to retry.\<close>

definition load_result :: "env \<Rightarrow> weak_env \<Rightarrow> u64 \<Rightarrow> script \<Rightarrow> rt \<Rightarrow> ((u64 \<times> rt) option) option" where
  "load_result E W obj isc s =
     (let cls = ISA E obj s in
      if \<not> hasCustomRR (classes E cls) then do {
        (ok, s) \<leftarrow> rootTryRetain E obj isc s;
        Some (Some (if ok then obj else 0, s)) }
      else if initialized_or_by_this_thread E cls s then
        (case retainWeakReference W obj of
           None \<Rightarrow> Some (Some (0, s))
         | Some tryRetain \<Rightarrow> let (ok, s) = tryRetain s in Some (Some (if ok then obj else 0, s)))
      else Some None)"

partial_function (option) objc_loadWeakRetained :: "env \<Rightarrow> weak_env \<Rightarrow> u64 \<Rightarrow> others \<Rightarrow> script \<Rightarrow> rt \<Rightarrow> (u64 \<times> rt) option" where
  "objc_loadWeakRetained E W location oth isc s0 =
     (let obj = vars s0 location in
      if isTaggedPointerOrNil E obj then Some (obj, s0)
      else let (s, oth) = others_run oth s0 in do {
        s \<leftarrow> sidetable_lock E obj s;
        if vars s location \<noteq> obj then do {
          s \<leftarrow> sidetable_unlock E obj s;
          objc_loadWeakRetained E W location oth isc s }
        else do {
          r \<leftarrow> load_result E W obj isc s;
          case r of
            Some (res, s) \<Rightarrow> do {
              s \<leftarrow> sidetable_unlock E obj s;
              Some (res, s) }
          | None \<Rightarrow> do {
              s \<leftarrow> sidetable_unlock E obj s;
              let (s, oth) = others_run oth (class_initialize (ISA E obj s) s);
              objc_loadWeakRetained E W location oth isc s } } })"

definition objc_release_obj :: "env \<Rightarrow> u64 \<Rightarrow> rt \<Rightarrow> rt option" where
  "objc_release_obj E obj s =
     (if isTaggedPointerOrNil E obj then Some s else map_option snd (rootRelease E obj True FastOrMsgSend [] s))"

text \<open>Between the load, the initialization and the release other threads run again.\<close>

definition objc_copyWeak :: "env \<Rightarrow> weak_env \<Rightarrow> u64 \<Rightarrow> u64 \<Rightarrow> others \<Rightarrow> script \<Rightarrow> others \<Rightarrow> script \<Rightarrow> rt \<Rightarrow> rt option" where
  "objc_copyWeak E W dst src oth isc oth' isc' s = do {
     (obj, s) \<leftarrow> objc_loadWeakRetained E W src oth isc s;
     (_, s) \<leftarrow> objc_initWeak E W dst obj oth' isc' s;
     objc_release_obj E obj s }"

partial_function (option) objc_moveWeak :: "env \<Rightarrow> weak_env \<Rightarrow> u64 \<Rightarrow> u64 \<Rightarrow> others \<Rightarrow> rt \<Rightarrow> rt option" where
  "objc_moveWeak E W dst src oth s0 =
     (let obj = vars s0 src in
      if obj = 0 then Some (set_var dst 0 s0)
      else let (s, oth) = others_run oth s0 in do {
        s \<leftarrow> sidetable_lock E obj s;
        if vars s src \<noteq> obj then do {
          s \<leftarrow> sidetable_unlock E obj s;
          objc_moveWeak E W dst src oth s }
        else do {
          s \<leftarrow> weak_unregister_in (indexForPointer E obj) obj src s;
          (_, s) \<leftarrow> weak_register_in E W (indexForPointer E obj) obj dst DontCheckDeallocating s;
          sidetable_unlock E obj (set_var src 0 (set_var dst obj s)) } })"

end
