(* ===== verification/WeakVarProofs.thy ===== *)
theory WeakVarProofs
  imports WeakVars
begin

text \<open>
  The invariant of weak variables: each live variable is registered, once, for the object that it holds,
  and for no other; objects with registrations are marked. It holds whenever no thread is inside a section
  between locks, and each section restores it.
\<close>

subsection \<open>Locks\<close>

definition hold :: "nat set \<Rightarrow> bool \<Rightarrow> rt \<Rightarrow> rt" where
  "hold I b s = s\<lparr>SideTables := (\<lambda>i. if i \<in> I then (SideTables s i)\<lparr>slock := b\<rparr> else SideTables s i)\<rparr>"

definition holds :: "env \<Rightarrow> nat set \<Rightarrow> rt \<Rightarrow> bool" where
  "holds E I s \<longleftrightarrow> (\<forall>p. slock (SideTables s (indexForPointer E p)) \<longleftrightarrow> indexForPointer E p \<in> I)"

definition lock_set :: "bool \<Rightarrow> bool \<Rightarrow> nat \<Rightarrow> nat \<Rightarrow> nat set" where
  "lock_set haveOld haveNew i j = (if haveOld then if haveNew then {i, j} else {i} else {j})"

lemma hold_simps [simp]: "isa_bits (hold I b s) = isa_bits s" "vars (hold I b s) = vars s" "sent (hold I b s) = sent s"
  "refcnts (SideTables (hold I b s) i) = refcnts (SideTables s i)" "weak_table (SideTables (hold I b s) i) = weak_table (SideTables s i)"
  "slock (SideTables (hold I b s) i) = (if i \<in> I then b else slock (SideTables s i))"
  by (simp_all add: hold_def)

lemma lock_at_eq: "\<not> slock (SideTables s i) \<Longrightarrow> lock_at i s = Some (hold {i} True s)"
  by (simp add: lock_at_def SideTable_lock_def hold_def fun_eq_iff)

lemma unlock_at_eq: "slock (SideTables s i) \<Longrightarrow> unlock_at i s = Some (hold {i} False s)"
  by (simp add: unlock_at_def SideTable_unlock_def hold_def fun_eq_iff)

lemma hold_hold: "hold {i} b (hold {j} b s) = hold {i, j} b s"
  by (auto simp: hold_def fun_eq_iff)

text \<open>Two locks are taken in the order of their indices, a common one only once; nothing blocks.\<close>

lemma lockTwo_eq:
  assumes "holds E {} s"
  shows "lockTwo haveOld haveNew (indexForPointer E p) (indexForPointer E q) s =
    Some (hold (lock_set haveOld haveNew (indexForPointer E p) (indexForPointer E q)) True s)"
proof -
  have "\<not> slock (SideTables s (indexForPointer E p))" "\<not> slock (SideTables s (indexForPointer E q))" using assms by (simp_all add: holds_def)
  then show ?thesis by (auto simp: lockTwo_def mutex_lockTwo_def lock_set_def lock_at_eq hold_hold insert_commute)
qed

lemma unlockTwo_eq:
  assumes "holds E (lock_set haveOld haveNew (indexForPointer E p) (indexForPointer E q)) s"
  shows "unlockTwo haveOld haveNew (indexForPointer E p) (indexForPointer E q) s =
    Some (hold (lock_set haveOld haveNew (indexForPointer E p) (indexForPointer E q)) False s)"
proof -
  have "haveOld \<Longrightarrow> slock (SideTables s (indexForPointer E p))" "haveNew \<or> \<not> haveOld \<Longrightarrow> slock (SideTables s (indexForPointer E q))"
    using assms by (auto simp: holds_def lock_set_def)
  then show ?thesis by (auto simp: unlockTwo_def mutex_unlockTwo_def lock_set_def unlock_at_eq hold_hold insert_commute)
qed

lemma holds_hold: "holds E {} s \<Longrightarrow> holds E I (hold I True s)" "holds E I s \<Longrightarrow> holds E {} (hold I False s)"
  by (auto simp: holds_def)

lemma hold_idle:
  assumes "holds E {} s"
  shows "hold (lock_set ho hn (indexForPointer E p) (indexForPointer E q)) False (hold (lock_set ho hn (indexForPointer E p) (indexForPointer E q)) True s) = s"
proof -
  have "(SideTables s i)\<lparr>slock := False\<rparr> = SideTables s i" if "i \<in> {indexForPointer E p, indexForPointer E q}" for i
    using assms that by (intro slock_same) (auto simp: holds_def)
  then show ?thesis by (auto simp: hold_def fun_eq_iff lock_set_def)
qed

lemma sidetable_lock_at: "sidetable_lock E obj s = lock_at (indexForPointer E obj) s"
  by (simp add: sidetable_lock_def lock_at_def put_table_def table_for_def bind_eq_Some_conv split: option.split bind_splits)

lemma sidetable_unlock_at: "sidetable_unlock E obj s = unlock_at (indexForPointer E obj) s"
  by (simp add: sidetable_unlock_def unlock_at_def put_table_def table_for_def split: bind_splits)

subsection \<open>Changes to weak tables only\<close>

definition weak_frame :: "rt \<Rightarrow> rt \<Rightarrow> bool" where
  "weak_frame s s' \<longleftrightarrow> isa_bits s' = isa_bits s \<and> vars s' = vars s \<and> sent s' = sent s \<and>
     (\<forall>i. slock (SideTables s' i) = slock (SideTables s i) \<and> refcnts (SideTables s' i) = refcnts (SideTables s i))"

lemma weak_frame_counts: "weak_frame s s' \<Longrightarrow> counts E s' = counts E s"
  by (simp add: weak_frame_def counts_def table_for_def fun_eq_iff)

lemma weak_frame_marked: "weak_frame s s' \<Longrightarrow> marked_weak E obj s' = marked_weak E obj s"
  by (simp add: marked_weak_def weak_frame_counts) (simp add: weak_frame_def)

lemma put_weak_spec:
  assumes "st_ok E s" and "wt_inv t" and "weak_view t = (weak_view (weak_table (SideTables s (indexForPointer E r))))(r := M)"
  shows "st_ok E (put_weak (indexForPointer E r) t s)" and "weak_frame s (put_weak (indexForPointer E r) t s)"
    and "weaks E (put_weak (indexForPointer E r) t s) = (weaks E s)(r := M)"
  using assms by (auto simp: st_ok_def put_weak_def weak_frame_def weaks_def table_for_def fun_eq_iff)

lemma weak_unregister_in_spec:
  assumes "st_ok E s" and "v \<noteq> 0"
  obtains s' where "weak_unregister_in (indexForPointer E r) r v s = Some s'" and "st_ok E s'" and "weak_frame s s'"
    and "weaks E s' = (weaks E s)(r := weaks E s r - {#v#})"
proof -
  let ?t = "weak_table (SideTables s (indexForPointer E r))"
  have "wt_inv ?t" using assms(1) by (simp add: st_ok_def)
  then obtain t where t: "weak_unregister_no_lock ?t r v = Some t" "wt_inv t" "weak_view t = (weak_view ?t)(r := weak_view ?t r - {#v#})"
    using weak_unregister_spec assms(2) by blast
  then show ?thesis using that put_weak_spec [OF assms(1) t(2,3)] by (simp add: weak_unregister_in_def weaks_def table_for_def)
qed

text \<open>The object answers for itself whether it may be weakly referenced.\<close>

definition plain_object :: "env \<Rightarrow> u64 \<Rightarrow> rt \<Rightarrow> bool" where
  "plain_object E obj s \<longleftrightarrow> \<not> isTaggedPointerOrNil E obj \<and> obj_addr obj \<and> nonpointer (isa_bits s obj) \<and> \<not> hasCustomRR (classes E (ISA E obj s))"

definition dying :: "env \<Rightarrow> u64 \<Rightarrow> rt \<Rightarrow> bool" where
  "dying E obj s \<longleftrightarrow> \<not> isTaggedPointerOrNil E obj \<and> isDeallocating (layout E) (isa_bits s obj)"

lemma weak_answer_plain:
  assumes "plain_object E obj s"
  shows "weak_answer_of E W s obj = Some (if dying E obj s then Deallocating else Alive)"
  using assms by (auto simp: plain_object_def weak_answer_of_def rootIsDeallocating_def isTaggedPointerOrNil_def isTaggedPointer_def dying_def)

lemma weak_register_in_spec:
  assumes "st_ok E s" and "v \<noteq> 0" and "\<not> isTaggedPointerOrNil E r"
    and ok: "opt = DontCheckDeallocating \<or> plain_object E r s \<and> \<not> dying E r s"
  obtains s' where "weak_register_in E W (indexForPointer E r) r v opt s = Some (r, s')" and "st_ok E s'" and "weak_frame s s'"
    and "weaks E s' = (weaks E s)(r := add_mset v (weaks E s r))"
proof -
  let ?t = "weak_table (SideTables s (indexForPointer E r))"
  have w: "wt_inv ?t" "r \<noteq> 0" using assms(1,3) by (auto simp: st_ok_def isTaggedPointerOrNil_def)
  obtain t where t: "weak_register_no_lock (isTaggedPointerOrNil E) (\<lambda>_. Alive) ?t r v opt = Some (r, t)" "wt_inv t"
    "weak_map t = (weak_map ?t)(r \<mapsto> add_mset v (weak_view ?t r))"
    using weak_remember [OF w(1) _ w(2) assms(2), of "isTaggedPointerOrNil E" opt "\<lambda>_. Alive"] assms(3) by auto
  have "(if isTaggedPointerOrNil E r \<or> opt = DontCheckDeallocating then Some Alive else weak_answer_of E W s r) = Some Alive"
    using ok weak_answer_plain [of E r s W] assms(3) by auto
  then have "weak_register_in E W (indexForPointer E r) r v opt s = Some (r, put_weak (indexForPointer E r) t s)"
    using t(1) by (simp add: weak_register_in_def)
  then show ?thesis using that put_weak_spec [OF assms(1) t(2) weak_view_of_map(1) [OF t(3)]] by (simp add: weaks_def table_for_def)
qed

lemma put_weak_same [simp]: "put_weak i (weak_table (SideTables s i)) s = s"
  by (simp add: put_weak_def fun_eq_iff)

text \<open>Tagged pointers and nil are not registered; a deallocating object is refused.\<close>

lemma weak_register_in_tagged: "isTaggedPointerOrNil E r \<Longrightarrow> weak_register_in E W i r v opt s = Some (r, s)"
  by (simp add: weak_register_in_def weak_register_no_lock_def)

lemma weak_register_in_dying:
  assumes "plain_object E r s" and "dying E r s"
  shows "weak_register_in E W i r v ReturnNilIfDeallocating s = Some (0, s)" and "weak_register_in E W i r v CrashIfDeallocating s = None"
  using weak_answer_plain [OF assms(1), of W] assms by (simp_all add: weak_register_in_def weak_register_no_lock_def plain_object_def)

subsection \<open>The invariant\<close>

definition watchers :: "u64 set \<Rightarrow> (u64 \<Rightarrow> u64) \<Rightarrow> u64 \<Rightarrow> u64 set" where
  "watchers L mem obj = {v \<in> L. mem v = obj}"

definition weak_core :: "env \<Rightarrow> rt \<Rightarrow> u64 set \<Rightarrow> bool" where
  "weak_core E s L \<longleftrightarrow> st_ok E s \<and> finite L \<and> 0 \<notin> L \<and>
     (\<forall>obj. weaks E s obj = (if isTaggedPointerOrNil E obj then {#} else mset_set (watchers L (vars s) obj))) \<and>
     (\<forall>v\<in>L. \<not> isTaggedPointerOrNil E (vars s v) \<longrightarrow> marked_weak E (vars s v) s)"

lemma watchers_remove: "watchers (L - {v}) mem obj = watchers L mem obj - {v}"
  by (auto simp: watchers_def)

lemma watchers_add: "v \<notin> L \<Longrightarrow> watchers (insert v L) (mem(v := r)) obj = (if obj = r then insert v (watchers L mem obj) else watchers L mem obj)"
  by (auto simp: watchers_def)

lemma finite_watchers [simp]: "finite L \<Longrightarrow> finite (watchers L mem obj)"
  by (simp add: watchers_def)

lemma weak_core_cleanup:
  assumes c: "weak_core E s L" and v: "v \<in> L"
  obtains s' where "weak_unregister_in (indexForPointer E (vars s v)) (vars s v) v s = Some s'" and "weak_core E s' (L - {v})" and "weak_frame s s'"
proof -
  have L: "finite L" "0 \<notin> L" "v \<noteq> 0" "st_ok E s" using c v by (auto simp: weak_core_def)
  obtain s' where r: "weak_unregister_in (indexForPointer E (vars s v)) (vars s v) v s = Some s'" "st_ok E s'" "weak_frame s s'"
    "weaks E s' = (weaks E s)(vars s v := weaks E s (vars s v) - {#v#})"
    using weak_unregister_in_spec [OF L(4,3)] by metis
  have same: "vars s' = vars s" using r(3) by (simp add: weak_frame_def)
  have "weaks E s' obj = (if isTaggedPointerOrNil E obj then {#} else mset_set (watchers (L - {v}) (vars s') obj))" for obj
  proof (cases "obj = vars s v")
    case True
    then have "v \<in> watchers L (vars s) obj" using v by (simp add: watchers_def)
    then have "mset_set (watchers L (vars s) obj) = add_mset v (mset_set (watchers L (vars s) obj - {v}))" using L(1) by (simp add: mset_set.remove)
    then show ?thesis using c r(4) True same by (simp add: weak_core_def watchers_remove)
  next
    case False
    then have "v \<notin> watchers L (vars s) obj" by (simp add: watchers_def)
    then show ?thesis using c r(4) False same by (simp add: weak_core_def watchers_remove)
  qed
  then have "weak_core E s' (L - {v})" using c r(2) same weak_frame_marked [OF r(3)] by (auto simp: weak_core_def)
  then show ?thesis using that r(1,3) by blast
qed

text \<open>What one variable assignment does to the state.\<close>

definition assigned :: "env \<Rightarrow> u64 \<Rightarrow> u64 \<Rightarrow> rt \<Rightarrow> rt \<Rightarrow> bool" where
  "assigned E v r s s' \<longleftrightarrow> vars s' = (vars s)(v := r) \<and>
     (\<forall>p. locked E p s' = locked E p s) \<and> counts E s' = counts E s \<and>
     (\<forall>obj. obj \<noteq> r \<longrightarrow> isa_bits s' obj = isa_bits s obj) \<and>
     (isTaggedPointerOrNil E r \<longrightarrow> isa_bits s' = isa_bits s) \<and>
     (\<forall>obj. nonpointer (isa_bits s' obj) = nonpointer (isa_bits s obj) \<and> ISA E obj s' = ISA E obj s \<and>
        isDeallocating (layout E) (isa_bits s' obj) = isDeallocating (layout E) (isa_bits s obj) \<and>
        extra_rc (layout E) (isa_bits s' obj) = extra_rc (layout E) (isa_bits s obj) \<and>
        has_sidetable_rc (layout E) (isa_bits s' obj) = has_sidetable_rc (layout E) (isa_bits s obj))"

lemma weak_core_assign:
  assumes c: "weak_core E s L" and v: "v \<notin> L" "v \<noteq> 0" and s1: "st_ok E s1" "weak_frame s s1" "weaks E s1 = (weaks E s)(r := add_mset v (weaks E s r))"
    and r: "\<not> isTaggedPointerOrNil E r" and m: "marked_weak E r s2" and s2: "weaks E s2 = weaks E s1" "st_ok E s2" "vars s2 = vars s1"
    and keep: "\<And>obj. marked_weak E obj s1 \<Longrightarrow> marked_weak E obj s2"
  shows "weak_core E (set_var v r s2) (insert v L)"
proof -
  have L: "finite L" using c by (simp add: weak_core_def)
  have vars: "vars s2 = vars s" using s1(2) s2(3) by (simp add: weak_frame_def)
  have "v \<notin> watchers L (vars s) obj" for obj using v(1) by (simp add: watchers_def)
  then have "weaks E s2 obj = (if isTaggedPointerOrNil E obj then {#} else mset_set (watchers (insert v L) ((vars s)(v := r)) obj))" for obj
    using c s1(3) s2(1) r L by (simp add: watchers_add [OF v(1)] weak_core_def)
  moreover have "weaks E (set_var v r s2) = weaks E s2" "st_ok E (set_var v r s2) = st_ok E s2"
    by (simp_all add: set_var_def weaks_def table_for_def st_ok_def fun_eq_iff)
  moreover have "marked_weak E obj (set_var v r s2) = marked_weak E obj s2" for obj
    by (simp add: set_var_def marked_weak_def counts_def table_for_def)
  moreover have "marked_weak E obj s2" if "w \<in> L" "vars s w = obj" "\<not> isTaggedPointerOrNil E obj" for w obj
    using c that keep weak_frame_marked [OF s1(2)] by (auto simp: weak_core_def)
  ultimately show ?thesis using c v(2) s2(2) vars m by (auto simp: weak_core_def set_var_def)
qed

lemma weak_core_assign_tagged:
  assumes c: "weak_core E s L" and v: "v \<notin> L" "v \<noteq> 0" and r: "isTaggedPointerOrNil E r"
  shows "weak_core E (set_var v r s) (insert v L)" and "assigned E v r s (set_var v r s)"
proof -
  have "weaks E (set_var v r s) = weaks E s" "st_ok E (set_var v r s) = st_ok E s" "counts E (set_var v r s) = counts E s"
    by (simp_all add: set_var_def weaks_def counts_def table_for_def st_ok_def fun_eq_iff)
  moreover have "marked_weak E obj (set_var v r s) = marked_weak E obj s" for obj
    by (simp add: set_var_def marked_weak_def counts_def table_for_def)
  moreover have "w \<in> L \<Longrightarrow> w \<noteq> v" for w using v(1) by blast
  ultimately show "weak_core E (set_var v r s) (insert v L)"
    using c v r by (auto simp: weak_core_def set_var_def watchers_add)
  show "assigned E v r s (set_var v r s)" using \<open>counts E (set_var v r s) = counts E s\<close> by (simp add: assigned_def set_var_def ISA_def locked_def table_for_def)
qed

context packed_env
begin

lemma set_weak_mark:
  assumes "nonpointer (isa_bits s r)"
  obtains s' where "setWeaklyReferenced_nolock E r [] s = Some s'" and "SideTables s' = SideTables s" and "vars s' = vars s" and "sent s' = sent s"
    and "isa_bits s' = (isa_bits s)(r := isa_bits s' r)" and "marked_weak E r s'" and "nonpointer (isa_bits s' r)" and "ISA E r s' = ISA E r s"
    and "isDeallocating (layout E) (isa_bits s' r) = isDeallocating (layout E) (isa_bits s r)" and "extra_rc (layout E) (isa_bits s' r) = extra_rc (layout E) (isa_bits s r)"
    and "has_sidetable_rc (layout E) (isa_bits s' r) = has_sidetable_rc (layout E) (isa_bits s r)"
proof (cases "weakly_referenced (layout E) (isa_bits s r)")
  case True
  then have "setWeaklyReferenced_nolock E r [] s = Some s" using assms
    by (simp add: setWeaklyReferenced_nolock_def) (subst setWeaklyReferenced_nolock_loop.simps, simp)
  then show ?thesis using that [of s] assms True by (simp add: marked_weak_def)
next
  case False
  let ?w = "set_weakly_referenced (layout E) True (isa_bits s r)"
  have "setWeaklyReferenced_nolock E r [] s = Some (store_isa r ?w s)" using False assms
    by (simp add: setWeaklyReferenced_nolock_def) (subst setWeaklyReferenced_nolock_loop.simps, simp)
  moreover have "ISA E r (store_isa r ?w s) = ISA E r s" using assms by (simp add: ISA_def getDecodedClass_def)
  ultimately show ?thesis using that [of "store_isa r ?w s"] assms
    by (simp add: store_isa_def marked_weak_def isDeallocating_iff)
qed

lemma store_assign_spec:
  assumes c: "weak_core E s L" and v: "v \<notin> L" "v \<noteq> 0" and obj: "isTaggedPointerOrNil E obj \<or> plain_object E obj s" and crash: "crash \<longrightarrow> \<not> dying E obj s"
  obtains s' where "store_assign E W True crash (indexForPointer E obj) obj v [] s = Some (if dying E obj s then 0 else obj, s')"
    and "weak_core E s' (insert v L)" and "assigned E v (if dying E obj s then 0 else obj) s s'"
proof (cases "isTaggedPointerOrNil E obj \<or> dying E obj s")
  case True
  let ?r = "if dying E obj s then 0 else obj" and ?opt = "if crash then CrashIfDeallocating else ReturnNilIfDeallocating"
  have r: "isTaggedPointerOrNil E ?r" using True by (auto simp: isTaggedPointerOrNil_def)
  have "weak_register_in E W (indexForPointer E obj) obj v ?opt s = Some (?r, s)"
    using True obj crash weak_register_in_tagged [of E obj W] weak_register_in_dying(1) [of E obj s W] by (auto simp: dying_def)
  then have "store_assign E W True crash (indexForPointer E obj) obj v [] s = Some (?r, set_var v ?r s)"
    using r by (simp add: store_assign_def)
  then show ?thesis using that weak_core_assign_tagged [OF c v r] by blast
next
  case False
  let ?opt = "if crash then CrashIfDeallocating else ReturnNilIfDeallocating"
  have o: "plain_object E obj s" "\<not> isTaggedPointerOrNil E obj" "\<not> dying E obj s" using obj False by auto
  have ok: "st_ok E s" using c by (simp add: weak_core_def)
  obtain s1 where s1: "weak_register_in E W (indexForPointer E obj) obj v ?opt s = Some (obj, s1)" "st_ok E s1" "weak_frame s s1"
    "weaks E s1 = (weaks E s)(obj := add_mset v (weaks E s obj))"
    by (rule weak_register_in_spec [OF ok v(2) o(2), of ?opt W]) (use o in auto)
  have np: "nonpointer (isa_bits s1 obj)" using o(1) s1(3) by (simp add: plain_object_def weak_frame_def)
  obtain s2 where s2: "setWeaklyReferenced_nolock E obj [] s1 = Some s2" "SideTables s2 = SideTables s1" "vars s2 = vars s1" "sent s2 = sent s1"
    "isa_bits s2 = (isa_bits s1)(obj := isa_bits s2 obj)" "marked_weak E obj s2" "nonpointer (isa_bits s2 obj)" "ISA E obj s2 = ISA E obj s1"
    "isDeallocating (layout E) (isa_bits s2 obj) = isDeallocating (layout E) (isa_bits s1 obj)"
    "extra_rc (layout E) (isa_bits s2 obj) = extra_rc (layout E) (isa_bits s1 obj)"
    "has_sidetable_rc (layout E) (isa_bits s2 obj) = has_sidetable_rc (layout E) (isa_bits s1 obj)" using set_weak_mark [OF np] by metis
  have same: "weaks E s2 = weaks E s1" "st_ok E s2" "counts E s2 = counts E s1"
    using s2(2) s1(2) by (simp_all add: weaks_def st_ok_def counts_def table_for_def fun_eq_iff)
  have other: "isa_bits s2 p = isa_bits s1 p" if "p \<noteq> obj" for p using fun_cong [OF s2(5), of p] that by simp
  have keep: "marked_weak E p s2" if "marked_weak E p s1" for p
    using that other [of p] s2(6) same(3) by (cases "p = obj") (simp_all add: marked_weak_def)
  have eq: "store_assign E W True crash (indexForPointer E obj) obj v [] s = Some (obj, set_var v obj s2)"
    using s1(1) s2(1) o(2) by (simp add: store_assign_def)
  have "assigned E v obj s (set_var v obj s2)"
    unfolding assigned_def
  proof (intro conjI allI impI)
    show "counts E (set_var v obj s2) = counts E s"
      using same(3) weak_frame_counts [OF s1(3), of E] by (simp add: set_var_def counts_def table_for_def fun_eq_iff)
    fix p
    have "nonpointer (isa_bits s2 p) = nonpointer (isa_bits s1 p) \<and> ISA E p s2 = ISA E p s1 \<and>
      isDeallocating (layout E) (isa_bits s2 p) = isDeallocating (layout E) (isa_bits s1 p) \<and>
      extra_rc (layout E) (isa_bits s2 p) = extra_rc (layout E) (isa_bits s1 p) \<and>
      has_sidetable_rc (layout E) (isa_bits s2 p) = has_sidetable_rc (layout E) (isa_bits s1 p)"
      using other [of p] s2(7-11) np by (cases "p = obj") (simp_all add: ISA_def)
    then show "nonpointer (isa_bits (set_var v obj s2) p) = nonpointer (isa_bits s p)" "ISA E p (set_var v obj s2) = ISA E p s"
      "isDeallocating (layout E) (isa_bits (set_var v obj s2) p) = isDeallocating (layout E) (isa_bits s p)"
      "extra_rc (layout E) (isa_bits (set_var v obj s2) p) = extra_rc (layout E) (isa_bits s p)"
      "has_sidetable_rc (layout E) (isa_bits (set_var v obj s2) p) = has_sidetable_rc (layout E) (isa_bits s p)"
      using s1(3) by (simp_all add: weak_frame_def set_var_def ISA_def)
  qed (use s1(3) s2(2,3) other o(2) in \<open>simp_all add: weak_frame_def set_var_def locked_def table_for_def\<close>)
  moreover have "weak_core E (set_var v obj s2) (insert v L)"
    using weak_core_assign [OF c v s1(2,3,4) o(2) s2(6) same(1,2) s2(3) keep] .
  ultimately show ?thesis using that [of "set_var v obj s2"] eq o(3) by simp
qed

end

subsection \<open>The section between the locks\<close>

definition weak_inv :: "env \<Rightarrow> rt \<Rightarrow> u64 set \<Rightarrow> bool" where
  "weak_inv E s L \<longleftrightarrow> weak_core E s L \<and> holds E {} s"

lemma weak_core_hold [simp]: "weak_core E (hold I b s) L = weak_core E s L"
proof -
  have "weaks E (hold I b s) = weaks E s" "counts E (hold I b s) = counts E s" "st_ok E (hold I b s) = st_ok E s"
    by (simp_all add: weaks_def counts_def table_for_def st_ok_def fun_eq_iff)
  then show ?thesis by (simp add: weak_core_def marked_weak_def)
qed

lemma sent_only: "weak_core E (s\<lparr>sent := ms\<rparr>) L = weak_core E s L" "holds E I (s\<lparr>sent := ms\<rparr>) = holds E I s"
  "weaks E (s\<lparr>sent := ms\<rparr>) = weaks E s"
proof -
  have "weaks E (s\<lparr>sent := ms\<rparr>) = weaks E s" "counts E (s\<lparr>sent := ms\<rparr>) = counts E s" "st_ok E (s\<lparr>sent := ms\<rparr>) = st_ok E s"
    by (simp_all add: weaks_def counts_def table_for_def st_ok_def fun_eq_iff)
  then show "weak_core E (s\<lparr>sent := ms\<rparr>) L = weak_core E s L" "weaks E (s\<lparr>sent := ms\<rparr>) = weaks E s" by (simp_all add: weak_core_def marked_weak_def)
  show "holds E I (s\<lparr>sent := ms\<rparr>) = holds E I s" by (simp add: holds_def)
qed

text \<open>What the section leaves behind: the value that is returned and the one in the variable.\<close>

definition store_result :: "env \<Rightarrow> bool \<Rightarrow> u64 \<Rightarrow> rt \<Rightarrow> u64" where
  "store_result E haveNew obj s = (if haveNew \<and> dying E obj s then 0 else obj)"

definition store_effect :: "env \<Rightarrow> bool \<Rightarrow> u64 \<Rightarrow> u64 \<Rightarrow> rt \<Rightarrow> rt \<Rightarrow> bool" where
  "store_effect E haveNew v obj s s' \<longleftrightarrow> assigned E v (if haveNew then store_result E haveNew obj s else vars s v) s s'"

definition live_after :: "bool \<Rightarrow> u64 \<Rightarrow> u64 set \<Rightarrow> u64 set" where
  "live_after haveNew v L = (if haveNew then insert v L else L - {v})"

text \<open>When a store is admissible: a fresh variable is not live, an old one is; the new object answers for itself.\<close>

definition admissible :: "env \<Rightarrow> bool \<Rightarrow> bool \<Rightarrow> bool \<Rightarrow> u64 \<Rightarrow> rt \<Rightarrow> bool" where
  "admissible E haveOld haveNew crash obj s \<longleftrightarrow> (haveOld \<or> haveNew) \<and>
     (haveNew \<longrightarrow> isTaggedPointerOrNil E obj \<or> plain_object E obj s) \<and> (haveNew \<and> crash \<longrightarrow> \<not> dying E obj s) \<and> (haveNew \<or> obj = 0)"

definition var_state :: "bool \<Rightarrow> u64 \<Rightarrow> u64 set \<Rightarrow> bool" where
  "var_state haveOld v L \<longleftrightarrow> v \<noteq> 0 \<and> (haveOld \<longleftrightarrow> v \<in> L)"

definition store_section ::
  "env \<Rightarrow> weak_env \<Rightarrow> bool \<Rightarrow> bool \<Rightarrow> bool \<Rightarrow> u64 \<Rightarrow> u64 \<Rightarrow> u64 \<Rightarrow> rt \<Rightarrow> (u64 \<times> rt) option" where
  "store_section E W haveOld haveNew crash v obj oldObj s = do {
     s \<leftarrow> store_cleanup haveOld (indexForPointer E oldObj) oldObj v s;
     (r, s) \<leftarrow> store_assign E W haveNew crash (indexForPointer E obj) obj v [] s;
     s \<leftarrow> unlockTwo haveOld haveNew (indexForPointer E oldObj) (indexForPointer E obj) s;
     Some (r, callSetWeaklyReferenced E W r s) }"

lemma callSet_sent: "\<exists>ms. callSetWeaklyReferenced E W r s = s\<lparr>sent := ms\<rparr>"
proof -
  have "s = s\<lparr>sent := sent s\<rparr>" by simp
  then have "\<exists>ms. s = s\<lparr>sent := ms\<rparr>" by blast
  then show ?thesis unfolding callSetWeaklyReferenced_def Let_def by (simp split: if_split) blast
qed

lemma assigned_weak_frame:
  assumes f: "weak_frame s s1" and a: "assigned E v r s1 s2"
  shows "assigned E v r s s2"
proof -
  have "counts E s1 = counts E s" using weak_frame_counts [OF f] .
  then show ?thesis using f a by (simp add: assigned_def weak_frame_def ISA_def locked_def table_for_def)
qed

lemma assigned_none: "weak_frame s s1 \<Longrightarrow> assigned E v (vars s v) s s1"
  using weak_frame_counts [of s s1 E] by (simp add: assigned_def weak_frame_def ISA_def locked_def table_for_def)

lemma same_object_frame: "weak_frame s s1 \<Longrightarrow> plain_object E obj s1 = plain_object E obj s" "weak_frame s s1 \<Longrightarrow> dying E obj s1 = dying E obj s"
  by (simp_all add: plain_object_def dying_def weak_frame_def ISA_def)

lemma assigned_unlock:
  assumes "holds E {} s" and "assigned E v r (hold I True s) s2"
  shows "assigned E v r s (hold I False s2)" and "holds E I s2" and "holds E {} (hold I False s2)"
proof -
  show h: "holds E I s2" using assms by (auto simp: assigned_def holds_def locked_def table_for_def)
  show "holds E {} (hold I False s2)" using holds_hold(2) [OF h] .
  have "counts E (hold I b t) = counts E t" for b t by (simp add: counts_def table_for_def fun_eq_iff)
  then show "assigned E v r s (hold I False s2)" using assms by (auto simp: assigned_def ISA_def holds_def locked_def table_for_def)
qed

context packed_env
begin

lemma store_section_spec:
  assumes I: "weak_inv E s L" and v: "var_state haveOld v L" and a: "admissible E haveOld haveNew crash obj s" and old: "haveOld \<longrightarrow> oldObj = vars s v"
  obtains s' where "store_section E W haveOld haveNew crash v obj oldObj
      (hold (lock_set haveOld haveNew (indexForPointer E oldObj) (indexForPointer E obj)) True s) = Some (store_result E haveNew obj s, s')"
    and "weak_inv E s' (live_after haveNew v L)" and "store_effect E haveNew v obj s s'"
proof -
  let ?I = "lock_set haveOld haveNew (indexForPointer E oldObj) (indexForPointer E obj)"
  let ?s = "hold ?I True s"
  have c: "weak_core E ?s L" and h: "holds E {} s" using I by (simp_all add: weak_inv_def)
  have s1: "\<exists>s1. store_cleanup haveOld (indexForPointer E oldObj) oldObj v ?s = Some s1 \<and> weak_core E s1 (L - {v}) \<and> weak_frame ?s s1"
  proof (cases haveOld)
    case True
    then have "v \<in> L" "oldObj = vars ?s v" using v old by (simp_all add: var_state_def)
    then show ?thesis using weak_core_cleanup [OF c \<open>v \<in> L\<close>] True by (auto simp: store_cleanup_def)
  next
    case False
    then show ?thesis using v c by (simp add: store_cleanup_def var_state_def weak_frame_def)
  qed
  then obtain s1 where s1: "store_cleanup haveOld (indexForPointer E oldObj) oldObj v ?s = Some s1" "weak_core E s1 (L - {v})" "weak_frame ?s s1" by blast
  have objs: "plain_object E obj s1 = plain_object E obj s" "dying E obj s1 = dying E obj s"
    using same_object_frame [OF s1(3), of E obj] by (simp_all add: plain_object_def dying_def ISA_def)
  let ?r = "store_result E haveNew obj s" and ?x = "if haveNew then store_result E haveNew obj s else vars s v"
  have "\<exists>s2. store_assign E W haveNew crash (indexForPointer E obj) obj v [] s1 = Some (?r, s2) \<and> weak_core E s2 (live_after haveNew v L) \<and> assigned E v ?x s1 s2"
  proof (cases haveNew)
    case True
    then obtain s2 where "store_assign E W True crash (indexForPointer E obj) obj v [] s1 = Some (if dying E obj s1 then 0 else obj, s2)"
      "weak_core E s2 (insert v (L - {v}))" "assigned E v (if dying E obj s1 then 0 else obj) s1 s2"
      using store_assign_spec [OF s1(2), of v obj crash W] a v objs by (auto simp: admissible_def var_state_def)
    then show ?thesis using True objs(2) by (auto simp: store_result_def live_after_def)
  next
    case False
    have "vars s1 v = vars s v" "weak_frame s1 s1" using s1(3) by (simp_all add: weak_frame_def)
    then show ?thesis using False s1(2) assigned_none [of s1 s1 E v] by (simp add: store_assign_def store_result_def live_after_def)
  qed
  then obtain s2 where s2: "store_assign E W haveNew crash (indexForPointer E obj) obj v [] s1 = Some (?r, s2)" "weak_core E s2 (live_after haveNew v L)" "assigned E v ?x s1 s2"
    by blast
  have "assigned E v ?x ?s s2" using assigned_weak_frame [OF s1(3) s2(3)] .
  note u = assigned_unlock [OF h this]
  let ?s2 = "hold ?I False s2"
  obtain ms where ms: "callSetWeaklyReferenced E W ?r ?s2 = ?s2\<lparr>sent := ms\<rparr>" using callSet_sent by blast
  have "store_section E W haveOld haveNew crash v obj oldObj ?s = Some (?r, ?s2\<lparr>sent := ms\<rparr>)"
    using s1(1) s2(1) unlockTwo_eq [OF u(2)] ms by (simp add: store_section_def)
  moreover have "weak_inv E (?s2\<lparr>sent := ms\<rparr>) (live_after haveNew v L)" using s2(2) u(3) by (simp add: weak_inv_def sent_only)
  moreover have "store_effect E haveNew v obj s (?s2\<lparr>sent := ms\<rparr>)"
    using u(1) unfolding store_effect_def by (simp add: assigned_def ISA_def counts_def table_for_def locked_def)
  ultimately show ?thesis using that by blast
qed

end

end
