(* ===== verification/WeakStores.thy ===== *)
theory WeakStores
  imports WeakVarProofs
begin

text \<open>
  \<open>storeWeak\<close> as a whole: it returns, and takes effect in one step on a state that the other threads left,
  however often the variable changed before the locks were taken.
\<close>

lemma class_initialize_same:
  "weak_inv E (class_initialize c s) L = weak_inv E s L" "admissible E ho hn crash obj (class_initialize c s) = admissible E ho hn crash obj s"
  "vars (class_initialize c s) = vars s" "obj_class E W obj (class_initialize c s) = obj_class E W obj s"
  "store_result E hn obj (class_initialize c s) = store_result E hn obj s" "store_effect E hn v obj (class_initialize c s) s' = store_effect E hn v obj s s'"
proof -
  have "plain_object E obj (class_initialize c s) = plain_object E obj s" "dying E obj (class_initialize c s) = dying E obj s"
    by (simp_all add: class_initialize_def plain_object_def dying_def ISA_def)
  then show "admissible E ho hn crash obj (class_initialize c s) = admissible E ho hn crash obj s"
    "store_result E hn obj (class_initialize c s) = store_result E hn obj s" "store_effect E hn v obj (class_initialize c s) s' = store_effect E hn v obj s s'"
    by (simp_all add: admissible_def store_result_def store_effect_def assigned_def class_initialize_def ISA_def counts_def table_for_def locked_def)
  show "weak_inv E (class_initialize c s) L = weak_inv E s L" "vars (class_initialize c s) = vars s"
    "obj_class E W obj (class_initialize c s) = obj_class E W obj s"
    by (simp_all add: weak_inv_def class_initialize_def sent_only obj_class_def ISA_def)
qed

lemma storeWeak_step:
  assumes o: "others_run oth s0 = (s, oth')" and h: "holds E {} s"
  shows "storeWeak E W ho hn crash v obj prev oth [] s0 =
    (if ho \<and> vars s v \<noteq> vars s0 v then storeWeak E W ho hn crash v obj prev oth' [] s
     else if hn \<and> obj \<noteq> 0 \<and> obj_class E W obj s \<noteq> prev \<and> \<not> cls_isInitialized (classes E (obj_class E W obj s)) then
       (let (s1, oth'') = others_run oth' (class_initialize (obj_class E W obj s) s) in
        storeWeak E W ho hn crash v obj (obj_class E W obj s) oth'' [] s1)
     else store_section E W ho hn crash v obj (vars s0 v) (hold (lock_set ho hn (indexForPointer E (vars s0 v)) (indexForPointer E obj)) True s))"
proof -
  let ?I = "lock_set ho hn (indexForPointer E (vars s0 v)) (indexForPointer E obj)"
  have c: "obj_class E W obj (hold ?I True s) = obj_class E W obj s" by (simp add: obj_class_def ISA_def)
  have u: "unlockTwo ho hn (indexForPointer E (vars s0 v)) (indexForPointer E obj) (hold ?I True s) = Some s"
    using unlockTwo_eq [OF holds_hold(1) [OF h]] hold_idle [OF h] by simp
  show ?thesis
    by (subst storeWeak.simps) (simp only: Let_def o prod.case lockTwo_eq [OF h] bind.bind_lunit hold_simps c u store_section_def)
qed

text \<open>Other threads keep the invariant and the new object.\<close>

definition steady :: "env \<Rightarrow> u64 set \<Rightarrow> (rt \<Rightarrow> bool) \<Rightarrow> others \<Rightarrow> bool" where
  "steady E L Q oth \<longleftrightarrow> (\<forall>f\<in>set oth. \<forall>s. weak_inv E s L \<and> Q s \<longrightarrow> weak_inv E (f s) L \<and> Q (f s))"

context packed_env
begin

lemma storeWeak_alone:
  assumes I: "weak_inv E s L" and v: "var_state ho v L" and a: "admissible E ho hn crash obj s"
  shows "\<exists>s'. storeWeak E W ho hn crash v obj prev [] [] s = Some (store_result E hn obj s, s') \<and>
    weak_inv E s' (live_after hn v L) \<and> store_effect E hn v obj s s'"
proof -
  let ?c = "obj_class E W obj s"
  let ?init = "\<lambda>prev. hn \<and> obj \<noteq> 0 \<and> ?c \<noteq> prev \<and> \<not> cls_isInitialized (classes E ?c)"
  have h: "holds E {} s" using I by (simp add: weak_inv_def)
  show ?thesis
  proof (cases "?init prev")
    case False
    obtain s' where "store_section E W ho hn crash v obj (vars s v) (hold (lock_set ho hn (indexForPointer E (vars s v)) (indexForPointer E obj)) True s)
        = Some (store_result E hn obj s, s')" "weak_inv E s' (live_after hn v L)" "store_effect E hn v obj s s'"
      by (rule store_section_spec [OF I v a, of "vars s v" W]) auto
    then show ?thesis using storeWeak_step [of "[]" s s "[]" E W ho hn crash v obj prev] h False by simp
  next
    case True
    let ?s = "class_initialize ?c s"
    have I': "weak_inv E ?s L" and a': "admissible E ho hn crash obj ?s" using I a by (simp_all add: class_initialize_same)
    have h': "holds E {} ?s" using I' by (simp add: weak_inv_def)
    have "storeWeak E W ho hn crash v obj prev [] [] s = storeWeak E W ho hn crash v obj ?c [] [] ?s"
      using storeWeak_step [of "[]" s s "[]" E W ho hn crash v obj prev] h True by simp
    also have "\<dots> = store_section E W ho hn crash v obj (vars ?s v) (hold (lock_set ho hn (indexForPointer E (vars ?s v)) (indexForPointer E obj)) True ?s)"
      using storeWeak_step [of "[]" ?s ?s "[]" E W ho hn crash v obj ?c] h' class_initialize_same(4) by simp
    finally have eq: "storeWeak E W ho hn crash v obj prev [] [] s = store_section E W ho hn crash v obj (vars ?s v)
      (hold (lock_set ho hn (indexForPointer E (vars ?s v)) (indexForPointer E obj)) True ?s)" .
    obtain s' where "store_section E W ho hn crash v obj (vars ?s v) (hold (lock_set ho hn (indexForPointer E (vars ?s v)) (indexForPointer E obj)) True ?s)
        = Some (store_result E hn obj ?s, s')" "weak_inv E s' (live_after hn v L)" "store_effect E hn v obj ?s s'"
      by (rule store_section_spec [OF I' v a', of "vars ?s v" W]) auto
    then show ?thesis unfolding eq class_initialize_same(5,6) by blast
  qed
qed

lemma storeWeak_spec:
  assumes "weak_inv E s L" and v: "var_state ho v L" and "admissible E ho hn crash obj s" and "steady E L (admissible E ho hn crash obj) oth"
  shows "\<exists>t s'. storeWeak E W ho hn crash v obj prev oth [] s = Some (store_result E hn obj t, s') \<and> weak_inv E t L \<and> admissible E ho hn crash obj t \<and>
    weak_inv E s' (live_after hn v L) \<and> store_effect E hn v obj t s'"
  using assms(1,3,4)
proof (induction "length oth" arbitrary: oth prev s rule: less_induct)
  case less
  show ?case
  proof (cases oth)
    case Nil
    then show ?thesis using storeWeak_alone [OF less.prems(1) v less.prems(2)] less.prems(1,2) by blast
  next
    case (Cons f rest)
    let ?s = "f s" and ?c = "obj_class E W obj (f s)"
    have st: "weak_inv E ?s L" "admissible E ho hn crash obj ?s" "steady E L (admissible E ho hn crash obj) rest"
      using less.prems Cons by (auto simp: steady_def)
    have h: "holds E {} ?s" using st(1) by (simp add: weak_inv_def)
    note step = storeWeak_step [of oth s ?s rest E W ho hn crash v obj prev, OF _ h]
    have o: "others_run oth s = (?s, rest)" using Cons by simp
    show ?thesis
    proof (cases "ho \<and> vars ?s v \<noteq> vars s v")
      case True
      then show ?thesis using less.hyps [of rest, OF _ st] step [OF o] Cons by simp
    next
      case old: False
      show ?thesis
      proof (cases "hn \<and> obj \<noteq> 0 \<and> ?c \<noteq> prev \<and> \<not> cls_isInitialized (classes E ?c)")
        case False
        obtain s' where "store_section E W ho hn crash v obj (vars s v) (hold (lock_set ho hn (indexForPointer E (vars s v)) (indexForPointer E obj)) True ?s)
            = Some (store_result E hn obj ?s, s')" "weak_inv E s' (live_after hn v L)" "store_effect E hn v obj ?s s'"
          by (rule store_section_spec [OF st(1) v st(2), of "vars s v" W]) (use old in auto)
        moreover have "storeWeak E W ho hn crash v obj prev oth [] s = store_section E W ho hn crash v obj (vars s v)
          (hold (lock_set ho hn (indexForPointer E (vars s v)) (indexForPointer E obj)) True ?s)"
          unfolding step [OF o] by (simp only: old False if_False)
        ultimately show ?thesis using st(1,2) by auto
      next
        case True
        let ?s1 = "class_initialize ?c ?s"
        have s1: "weak_inv E ?s1 L" "admissible E ho hn crash obj ?s1" using st(1,2) by (simp_all add: class_initialize_same)
        show ?thesis
        proof (cases rest)
          case Nil
          then have "storeWeak E W ho hn crash v obj prev oth [] s = storeWeak E W ho hn crash v obj ?c [] [] ?s1" using step [OF o] old True by simp
          then show ?thesis using storeWeak_alone [OF s1(1) v s1(2), of W ?c] s1 by auto
        next
          case (Cons g rest')
          then have eq: "storeWeak E W ho hn crash v obj prev oth [] s = storeWeak E W ho hn crash v obj ?c rest' [] (g ?s1)" using step [OF o] old True by simp
          have "weak_inv E (g ?s1) L" "admissible E ho hn crash obj (g ?s1)" "steady E L (admissible E ho hn crash obj) rest'"
            using st(3) s1 Cons by (auto simp: steady_def)
          moreover have "length rest' < length oth" using \<open>oth = f # rest\<close> Cons by simp
          ultimately show ?thesis unfolding eq using less.hyps by blast
        qed
      qed
    qed
  qed
qed

end

end
