(* ===== verification/WeakSafety.thy ===== *)
theory WeakSafety
  imports WeakStores
begin

text \<open>
  Moving a weak variable, clearing the variables of a deallocated object, and runs of operations: weak
  variables never hold an object that was freed.
\<close>

lemma weak_core_live: "weak_core E s L \<Longrightarrow> v \<in> L \<Longrightarrow> v \<noteq> 0"
  by (auto simp: weak_core_def)

lemma holds_set_var [simp]: "holds E I (set_var v r s) = holds E I s"
  by (simp add: holds_def set_var_def)

text \<open>The section of \<open>objc_moveWeak\<close>: the registration goes over to the other variable.\<close>

lemma weak_move_core:
  assumes c: "weak_core E s L" and src: "src \<in> L" and dst: "dst \<notin> L" "dst \<noteq> 0"
  obtains s1 s2 where "weak_unregister_in (indexForPointer E (vars s src)) (vars s src) src s = Some s1"
    and "weak_register_in E W (indexForPointer E (vars s src)) (vars s src) dst DontCheckDeallocating s1 = Some (vars s src, s2)"
    and "weak_frame s s2" and "weak_core E (set_var src 0 (set_var dst (vars s src) s2)) (insert dst L)"
proof -
  let ?obj = "vars s src"
  obtain s1 where s1: "weak_unregister_in (indexForPointer E ?obj) ?obj src s = Some s1" "weak_core E s1 (L - {src})" "weak_frame s s1"
    using weak_core_cleanup [OF c src] by metis
  have out: "dst \<notin> L - {src}" "src \<notin> insert dst (L - {src})" "src \<noteq> 0" using src dst weak_core_live [OF c src] by auto
  have L: "insert src (insert dst (L - {src})) = insert dst L" using src by blast
  have nil: "isTaggedPointerOrNil E 0" by (simp add: isTaggedPointerOrNil_def)
  show ?thesis
  proof (cases "isTaggedPointerOrNil E ?obj")
    case True
    have "weak_core E (set_var dst ?obj s1) (insert dst (L - {src}))" by (rule weak_core_assign_tagged(1) [OF s1(2) out(1) dst(2) True])
    then have "weak_core E (set_var src 0 (set_var dst ?obj s1)) (insert src (insert dst (L - {src})))"
      by (rule weak_core_assign_tagged(1) [OF _ out(2,3) nil])
    then show ?thesis using that [OF s1(1) weak_register_in_tagged [OF True] s1(3)] L by simp
  next
    case False
    have ok: "st_ok E s1" using s1(2) by (simp add: weak_core_def)
    obtain s2 where s2: "weak_register_in E W (indexForPointer E ?obj) ?obj dst DontCheckDeallocating s1 = Some (?obj, s2)" "st_ok E s2" "weak_frame s1 s2"
      "weaks E s2 = (weaks E s1)(?obj := add_mset dst (weaks E s1 ?obj))"
      by (rule weak_register_in_spec [OF ok dst(2) False, of DontCheckDeallocating W]) auto
    have fr: "weak_frame s s2" using s1(3) s2(3) by (simp add: weak_frame_def)
    have "marked_weak E ?obj s" using c src False by (auto simp: weak_core_def)
    then have m: "marked_weak E ?obj s2" using weak_frame_marked [OF fr] by simp
    have "weak_core E (set_var dst ?obj s2) (insert dst (L - {src}))"
      by (rule weak_core_assign [OF s1(2) out(1) dst(2) s2(2,3,4) False m refl s2(2) refl]) simp
    then have "weak_core E (set_var src 0 (set_var dst ?obj s2)) (insert src (insert dst (L - {src})))"
      by (rule weak_core_assign_tagged(1) [OF _ out(2,3) nil])
    then show ?thesis using that [OF s1(1) s2(1) fr] L by simp
  qed
qed

lemma moveWeak_alone:
  assumes I: "weak_inv E s L" and src: "src \<in> L" and dst: "dst \<notin> L" "dst \<noteq> 0"
  shows "\<exists>s'. objc_moveWeak E W dst src [] s = Some s' \<and> weak_inv E s' (insert dst L) \<and> vars s' = (vars s)(dst := vars s src, src := 0) \<and>
    isa_bits s' = isa_bits s \<and> counts E s' = counts E s"
proof (cases "vars s src = 0")
  case True
  let ?s = "set_var dst 0 s"
  have c: "weak_core E s L" "holds E {} s" using I by (simp_all add: weak_inv_def)
  have nil: "isTaggedPointerOrNil E 0" by (simp add: isTaggedPointerOrNil_def)
  have "objc_moveWeak E W dst src [] s = Some ?s" using True by (subst objc_moveWeak.simps) simp
  moreover have "weak_inv E ?s (insert dst L)" using weak_core_assign_tagged(1) [OF c(1) dst nil] c(2) by (simp add: weak_inv_def)
  moreover have "vars ?s = (vars s)(dst := vars s src, src := 0)" using True src dst(1) by (auto simp: set_var_def fun_eq_iff)
  ultimately show ?thesis by (simp add: set_var_def counts_def table_for_def fun_eq_iff)
next
  case False
  let ?obj = "vars s src" and ?i = "indexForPointer E (vars s src)"
  let ?s = "hold {?i} True s"
  have c: "weak_core E ?s L" "holds E {} s" using I by (simp_all add: weak_inv_def)
  obtain s1 s2 where m: "weak_unregister_in ?i ?obj src ?s = Some s1" "weak_register_in E W ?i ?obj dst DontCheckDeallocating s1 = Some (?obj, s2)"
    "weak_frame ?s s2" "weak_core E (set_var src 0 (set_var dst ?obj s2)) (insert dst L)"
    using weak_move_core [OF c(1) src dst, of W] by auto
  let ?s3 = "set_var src 0 (set_var dst ?obj s2)"
  have h: "holds E {?i} ?s3" using c(2) m(3) by (auto simp: holds_def weak_frame_def set_var_def)
  have "sidetable_lock E ?obj s = Some ?s" using c(2) by (simp add: sidetable_lock_at lock_at_eq holds_def)
  moreover have "sidetable_unlock E ?obj ?s3 = Some (hold {?i} False ?s3)" using h by (simp add: sidetable_unlock_at unlock_at_eq holds_def)
  ultimately have "objc_moveWeak E W dst src [] s = Some (hold {?i} False ?s3)"
    using False m(1,2) by (subst objc_moveWeak.simps) (simp add: Let_def)
  moreover have "weak_inv E (hold {?i} False ?s3) (insert dst L)" using m(4) holds_hold(2) [OF h] by (simp add: weak_inv_def)
  moreover have "counts E (hold {?i} False ?s3) = counts E s"
    using m(3) by (simp add: counts_def table_for_def weak_frame_def set_var_def fun_eq_iff)
  ultimately show ?thesis using m(3) by (auto simp: weak_frame_def set_var_def)
qed

text \<open>Deallocation makes the variables of the object nil.\<close>

lemma dealloc_weak:
  assumes I: "weak_inv E s L" and obj: "\<not> isTaggedPointerOrNil E obj" "obj_addr obj" and side: "counts E s obj = 0"
  shows "\<exists>s'. clearDeallocating E obj s = Some s' \<and> weak_inv E s' L \<and> (\<forall>v\<in>L. vars s' v = (if vars s v = obj then 0 else vars s v)) \<and>
    isa_bits s' = isa_bits s \<and> counts E s' = counts E s"
proof -
  have c: "weak_core E s L" and h: "holds E {} s" using I by (simp_all add: weak_inv_def)
  have w: "weaks E s p = (if isTaggedPointerOrNil E p then {#} else mset_set (watchers L (vars s) p))" for p using c by (simp add: weak_core_def)
  have L: "finite L" using c by (simp add: weak_core_def)
  have marked: "weaks E s obj \<noteq> {#} \<longrightarrow> marked_weak E obj s" 
  proof
    assume "weaks E s obj \<noteq> {#}"
    then have "watchers L (vars s) obj \<noteq> {}" using w [of obj] obj(1) by auto
    then show "marked_weak E obj s" using c obj(1) by (auto simp: weak_core_def watchers_def)
  qed
  have "\<not> locked E obj s" using h by (simp add: locked_def table_for_def holds_def)
  then obtain s' where r: "clearDeallocating E obj s = Some s'" "cleared E obj s s'"
    using clearDeallocating_run [OF _ obj(2) _ marked] c side by (auto simp: weak_core_def)
  have v: "vars s' = nil_weak E obj s" and ws: "weaks E s' = (weaks E s)(obj := {#})" and isa: "isa_bits s' = isa_bits s"
    and cs: "counts E s' = (counts E s)(obj := 0)" "st_ok E s'" "\<forall>p. locked E p s' = locked E p s" using r(2) by (simp_all add: cleared_def)
  have vars: "vars s' a = (if a \<in> L \<and> vars s a = obj then 0 else vars s a)" for a
    using w [of obj] obj(1) L by (auto simp: v nil_weak_def watchers_def)
  have counts: "counts E s' = counts E s" using cs(1) side by (simp add: fun_eq_iff)
  have "watchers L (vars s') p = (if p = obj then {} else watchers L (vars s) p)" if "p \<noteq> 0" for p
    using that obj(1) by (auto simp: watchers_def vars)
  moreover have "obj \<noteq> 0" using obj(2) by (simp add: obj_addr_def)
  ultimately have "weaks E s' p = (if isTaggedPointerOrNil E p then {#} else mset_set (watchers L (vars s') p))" for p
    using w [of p] obj(1) by (cases "p = 0") (auto simp: ws isTaggedPointerOrNil_def)
  moreover have "marked_weak E p s' = marked_weak E p s" for p by (simp add: marked_weak_def isa counts)
  ultimately have "weak_core E s' L" using c cs(2) by (auto simp: weak_core_def vars isTaggedPointerOrNil_def)
  moreover have "holds E {} s'" using h cs(3) by (simp add: holds_def locked_def table_for_def)
  ultimately show ?thesis using r(1) vars isa counts by (auto simp: weak_inv_def)
qed

subsection \<open>Runs\<close>

text \<open>
  Operations on weak variables, and what happens to the objects: allocation, retains, releases, and the
  clearing of a deallocated object.
\<close>

datatype weak_event =
  New_object u64 u64 | Retain_object u64 | Release_object u64 | Dealloc_object u64
  | Init_weak u64 u64 | Store_weak u64 u64 | Store_weak_or_nil u64 u64 | Destroy_weak u64 | Move_weak u64 u64
  | Load_weak u64 | Copy_weak u64 u64

fun weak_step :: "env \<Rightarrow> weak_env \<Rightarrow> weak_event \<Rightarrow> rt \<Rightarrow> rt option" where
  "weak_step E W (New_object obj cls) s = Some (initInstanceIsa E obj cls False s)"
| "weak_step E W (Retain_object obj) s = map_option snd (rootRetain E obj False Fast [] s)"
| "weak_step E W (Release_object obj) s = map_option snd (rootRelease E obj True Fast [] s)"
| "weak_step E W (Dealloc_object obj) s = clearDeallocating E obj s"
| "weak_step E W (Init_weak v obj) s = map_option snd (objc_initWeak E W v obj [] [] s)"
| "weak_step E W (Store_weak v obj) s = map_option snd (objc_storeWeak E W v obj [] [] s)"
| "weak_step E W (Store_weak_or_nil v obj) s = map_option snd (objc_storeWeakOrNil E W v obj [] [] s)"
| "weak_step E W (Destroy_weak v) s = objc_destroyWeak E W v [] s"
| "weak_step E W (Move_weak dst src) s = objc_moveWeak E W dst src [] s"
| "weak_step E W (Load_weak v) s = map_option snd (objc_loadWeakRetained E W v [] [] s)"
| "weak_step E W (Copy_weak dst src) s = objc_copyWeak E W dst src [] [] [] [] s"

fun weak_run :: "env \<Rightarrow> weak_env \<Rightarrow> weak_event list \<Rightarrow> rt \<Rightarrow> rt option" where
  "weak_run E W [] s = Some s"
| "weak_run E W (ev # evs) s = (case weak_step E W ev s of None \<Rightarrow> None | Some s' \<Rightarrow> weak_run E W evs s')"

text \<open>
  The specification: what the live variables hold, the objects that are allocated and their counts; an
  object whose count is zero is deallocating. Storing a deallocating object is fatal or stores nil,
  loading it gives nil; deallocation makes variables nil; \<open>None\<close> stands for what a program must not
  do. Counts stay within the \<open>isa\<close> word here; \<open>RefCounting\<close> treats counts that do not fit.
\<close>

record weak_world =
  held :: "u64 \<Rightarrow> u64 option"
  allocated :: "u64 set"
  refs :: "u64 \<Rightarrow> nat"

definition doomed :: "weak_world \<Rightarrow> u64 set" where
  "doomed A = {obj \<in> allocated A. refs A obj = 0}"

definition count_room :: "env \<Rightarrow> weak_world \<Rightarrow> u64 \<Rightarrow> bool" where
  "count_room E A obj \<longleftrightarrow> refs A obj + 1 < 2 ^ extra_rc_width (layout E)"

definition storable :: "env \<Rightarrow> weak_world \<Rightarrow> u64 \<Rightarrow> bool" where
  "storable E A obj \<longleftrightarrow> isTaggedPointerOrNil E obj \<or> obj \<in> allocated A"

fun world_step :: "env \<Rightarrow> weak_event \<Rightarrow> weak_world \<Rightarrow> weak_world option" where
  "world_step E (New_object obj cls) A =
     (if obj \<notin> allocated A \<and> \<not> isTaggedPointerOrNil E obj \<and> obj_addr obj \<and> unat cls < 2 ^ (3 + shiftcls_width (layout E)) \<and> take_bit 3 cls = 0 \<and>
         \<not> hasCustomRR (classes E cls)
      then Some (A\<lparr>allocated := insert obj (allocated A), refs := (refs A)(obj := 1)\<rparr>) else None)"
| "world_step E (Retain_object obj) A =
     (if obj \<in> doomed A then Some A
      else if obj \<in> allocated A \<and> count_room E A obj then Some (A\<lparr>refs := (refs A)(obj := refs A obj + 1)\<rparr>) else None)"
| "world_step E (Release_object obj) A =
     (if obj \<in> allocated A - doomed A then Some (A\<lparr>refs := (refs A)(obj := refs A obj - 1)\<rparr>) else None)"
| "world_step E (Dealloc_object obj) A =
     (if obj \<in> doomed A
      then Some \<lparr>held = (\<lambda>v. if held A v = Some obj then Some 0 else held A v), allocated = allocated A - {obj}, refs = refs A\<rparr> else None)"
| "world_step E (Init_weak v obj) A =
     (if v \<noteq> 0 \<and> held A v = None \<and> storable E A obj \<and> obj \<notin> doomed A then Some (A\<lparr>held := (held A)(v \<mapsto> obj)\<rparr>) else None)"
| "world_step E (Store_weak v obj) A =
     (if held A v \<noteq> None \<and> storable E A obj \<and> obj \<notin> doomed A then Some (A\<lparr>held := (held A)(v \<mapsto> obj)\<rparr>) else None)"
| "world_step E (Store_weak_or_nil v obj) A =
     (if held A v \<noteq> None \<and> storable E A obj then Some (A\<lparr>held := (held A)(v \<mapsto> (if obj \<in> doomed A then 0 else obj))\<rparr>) else None)"
| "world_step E (Destroy_weak v) A = (if held A v \<noteq> None then Some (A\<lparr>held := (held A)(v := None)\<rparr>) else None)"
| "world_step E (Move_weak dst src) A =
     (if dst \<noteq> 0 \<and> held A dst = None then
        (case held A src of None \<Rightarrow> None | Some obj \<Rightarrow> Some (A\<lparr>held := (held A)(dst \<mapsto> obj, src \<mapsto> 0)\<rparr>))
      else None)"
| "world_step E (Load_weak v) A =
     (case held A v of None \<Rightarrow> None
      | Some obj \<Rightarrow>
          if obj \<in> allocated A - doomed A
          then (if count_room E A obj then Some (A\<lparr>refs := (refs A)(obj := refs A obj + 1)\<rparr>) else None)
          else Some A)"
| "world_step E (Copy_weak dst src) A =
     (if dst \<noteq> 0 \<and> held A dst = None then
        (case held A src of None \<Rightarrow> None
         | Some obj \<Rightarrow>
             if obj \<in> allocated A - doomed A \<and> \<not> count_room E A obj then None
             else Some (A\<lparr>held := (held A)(dst \<mapsto> (if obj \<in> doomed A then 0 else obj))\<rparr>))
      else None)"

fun world_run :: "env \<Rightarrow> weak_event list \<Rightarrow> weak_world \<Rightarrow> weak_world option" where
  "world_run E [] A = Some A"
| "world_run E (ev # evs) A = (case world_step E ev A of None \<Rightarrow> None | Some A' \<Rightarrow> world_run E evs A')"

definition world_start :: weak_world where
  "world_start = \<lparr>held = Map.empty, allocated = {}, refs = (\<lambda>_. 0)\<rparr>"

text \<open>Every variable holds nil, a tagged pointer, or an allocated object.\<close>

definition no_dangling :: "env \<Rightarrow> weak_world \<Rightarrow> bool" where
  "no_dangling E A \<longleftrightarrow> (\<forall>v obj. held A v = Some obj \<longrightarrow> storable E A obj)"

definition object_ok :: "env \<Rightarrow> rt \<Rightarrow> u64 \<Rightarrow> bool" where
  "object_ok E s obj \<longleftrightarrow> plain_object E obj s \<and> \<not> has_sidetable_rc (layout E) (isa_bits s obj)"

definition world_of :: "env \<Rightarrow> rt \<Rightarrow> weak_world \<Rightarrow> bool" where
  "world_of E s A \<longleftrightarrow> weak_inv E s (dom (held A)) \<and> (\<forall>v obj. held A v = Some obj \<longrightarrow> vars s v = obj) \<and> counts E s = (\<lambda>_. 0) \<and>
     (\<forall>obj\<in>allocated A. object_ok E s obj \<and> unat (extra_rc (layout E) (isa_bits s obj)) = refs A obj) \<and> no_dangling E A"

lemma assigned_keeps:
  assumes "assigned E v r s s'"
  shows "object_ok E s' obj = object_ok E s obj" and "extra_rc (layout E) (isa_bits s' obj) = extra_rc (layout E) (isa_bits s obj)"
  using assms by (simp_all add: assigned_def object_ok_def plain_object_def)

lemma world_of_assigned:
  assumes A: "world_of E s A" and a: "assigned E v r s s'" and I: "weak_inv E s' (insert v (dom (held A)))" and r: "storable E A r"
  shows "world_of E s' (A\<lparr>held := (held A)(v \<mapsto> r)\<rparr>)"
proof -
  have "dom ((held A)(v \<mapsto> r)) = insert v (dom (held A))" by auto
  moreover have "vars s' = (vars s)(v := r)" "counts E s' = counts E s" using a by (simp_all add: assigned_def)
  moreover have "no_dangling E (A\<lparr>held := (held A)(v \<mapsto> r)\<rparr>)" using A r by (auto simp: world_of_def no_dangling_def storable_def)
  ultimately show ?thesis using A I assigned_keeps [OF a] by (simp add: world_of_def)
qed

context packed_env
begin

lemma object_dying: "object_ok E s obj \<Longrightarrow> dying E obj s \<longleftrightarrow> rc (isa_bits s obj) = 0"
  by (auto simp: object_ok_def plain_object_def dying_def isDeallocating_iff)

lemma world_store:
  assumes A: "world_of E s A" and v: "v \<noteq> 0" "ho \<longleftrightarrow> held A v \<noteq> None" and obj: "storable E A obj" and crash: "crash \<longrightarrow> obj \<notin> doomed A"
  obtains x s' where "storeWeak E W ho True crash v obj 0 [] [] s = Some (x, s')"
    and "world_of E s' (A\<lparr>held := (held A)(v \<mapsto> (if obj \<in> doomed A then 0 else obj))\<rparr>)"
proof -
  have I: "weak_inv E s (dom (held A))" and ok: "\<forall>obj\<in>allocated A. object_ok E s obj \<and> (dying E obj s \<longleftrightarrow> obj \<in> doomed A)"
    and sub: "doomed A \<subseteq> allocated A" using A object_dying by (auto simp: world_of_def doomed_def)
  have dy: "dying E obj s \<longleftrightarrow> obj \<in> doomed A"
  proof (cases "obj \<in> allocated A")
    case False
    then have "isTaggedPointerOrNil E obj" using obj by (simp add: storable_def)
    then show ?thesis using False sub by (auto simp: dying_def)
  qed (use ok in blast)
  have "isTaggedPointerOrNil E obj \<or> plain_object E obj s" using obj ok by (auto simp: storable_def object_ok_def)
  then have adm: "admissible E ho True crash obj s" using crash dy by (simp add: admissible_def)
  have vs: "var_state ho v (dom (held A))" using v by (auto simp: var_state_def)
  obtain s' where r: "storeWeak E W ho True crash v obj 0 [] [] s = Some (store_result E True obj s, s')"
    "weak_inv E s' (live_after True v (dom (held A)))" "store_effect E True v obj s s'"
    using storeWeak_alone [OF I vs adm] by blast
  let ?r = "if obj \<in> doomed A then 0 else obj"
  have x: "store_result E True obj s = ?r" using dy by (simp add: store_result_def)
  have "storable E A ?r" using obj by (auto simp: storable_def isTaggedPointerOrNil_def)
  then have "world_of E s' (A\<lparr>held := (held A)(v \<mapsto> ?r)\<rparr>)"
    using world_of_assigned [OF A, of v ?r s'] r(2,3) x by (simp add: store_effect_def live_after_def)
  then show ?thesis using that r(1) by blast
qed

lemma world_init_nil:
  assumes A: "world_of E s A" and v: "v \<noteq> 0" "held A v = None"
  shows "world_of E (set_var v 0 s) (A\<lparr>held := (held A)(v \<mapsto> 0)\<rparr>)"
proof -
  have c: "weak_core E s (dom (held A))" "holds E {} s" using A by (simp_all add: world_of_def weak_inv_def)
  have nil: "isTaggedPointerOrNil E 0" "v \<notin> dom (held A)" using v by (auto simp: isTaggedPointerOrNil_def)
  note t = weak_core_assign_tagged [OF c(1) nil(2) v(1) nil(1)]
  show ?thesis using world_of_assigned [OF A t(2)] t(1) c(2) nil(1) by (simp add: weak_inv_def storable_def)
qed

lemma world_destroy:
  assumes A: "world_of E s A" and v: "held A v \<noteq> None"
  obtains s' where "objc_destroyWeak E W v [] s = Some s'" and "world_of E s' (A\<lparr>held := (held A)(v := None)\<rparr>)"
proof -
  have I: "weak_inv E s (dom (held A))" using A by (simp add: world_of_def)
  have "v \<in> dom (held A)" "0 \<notin> dom (held A)" using I v by (auto simp: weak_inv_def weak_core_def)
  then have vs: "var_state True v (dom (held A))" by (auto simp: var_state_def)
  have adm: "admissible E True False False 0 s" by (simp add: admissible_def)
  obtain s' where r: "storeWeak E W True False False v 0 0 [] [] s = Some (store_result E False 0 s, s')"
    "weak_inv E s' (live_after False v (dom (held A)))" "store_effect E False v 0 s s'"
    using storeWeak_alone [OF I vs adm] by blast
  have a: "assigned E v (vars s v) s s'" using r(3) by (simp add: store_effect_def)
  have "dom ((held A)(v := None)) = dom (held A) - {v}" by auto
  moreover have "vars s' = vars s" "counts E s' = counts E s" using a by (simp_all add: assigned_def)
  moreover have "no_dangling E (A\<lparr>held := (held A)(v := None)\<rparr>)" using A by (auto simp: world_of_def no_dangling_def storable_def)
  ultimately have "world_of E s' (A\<lparr>held := (held A)(v := None)\<rparr>)"
    using A r(2) assigned_keeps [OF a] by (simp add: world_of_def live_after_def)
  then show ?thesis using that r(1) by (simp add: objc_destroyWeak_def)
qed

end

end
