(* ===== verification/WeakRuns.thy ===== *)
theory WeakRuns
  imports WeakSafety
begin

text \<open>Weak variables over whole runs: the code implements the specification, in which no variable dangles.\<close>

lemma world_ofD:
  assumes "world_of E s A"
  shows "weak_inv E s (dom (held A))" and "\<And>v obj. held A v = Some obj \<Longrightarrow> vars s v = obj" and "counts E s = (\<lambda>_. 0)"
    and "\<And>obj. obj \<in> allocated A \<Longrightarrow> object_ok E s obj \<and> unat (extra_rc (layout E) (isa_bits s obj)) = refs A obj" and "no_dangling E A"
  using assms by (auto simp: world_of_def)

lemma same_isa_objects: "isa_bits s' = isa_bits s \<Longrightarrow> object_ok E s' obj = object_ok E s obj"
  by (simp add: object_ok_def plain_object_def ISA_def)

lemma world_move:
  assumes A: "world_of E s A" and dst: "dst \<noteq> 0" "held A dst = None" and src: "held A src = Some obj"
  obtains s' where "objc_moveWeak E W dst src [] s = Some s'" and "world_of E s' (A\<lparr>held := (held A)(dst \<mapsto> obj, src \<mapsto> 0)\<rparr>)"
proof -
  note a = world_ofD [OF A]
  have "src \<in> dom (held A)" "dst \<notin> dom (held A)" using src dst by auto
  then obtain s' where r: "objc_moveWeak E W dst src [] s = Some s'" "weak_inv E s' (insert dst (dom (held A)))"
    "vars s' = (vars s)(dst := vars s src, src := 0)" "isa_bits s' = isa_bits s" "counts E s' = counts E s"
    using moveWeak_alone [OF a(1)] dst(1) by blast
  let ?A = "A\<lparr>held := (held A)(dst \<mapsto> obj, src \<mapsto> 0)\<rparr>"
  have "dom (held ?A) = insert dst (dom (held A))" using src by auto
  moreover have "held ?A v = Some p \<Longrightarrow> vars s' v = p" for v p using a(2) src r(3) by (auto split: if_splits)
  moreover have "no_dangling E ?A" using a(5) src by (auto simp: no_dangling_def storable_def isTaggedPointerOrNil_def split: if_splits)
  ultimately have "world_of E s' ?A" using r(2,5) a(3,4) same_isa_objects [OF r(4)] r(4) by (simp add: world_of_def)
  then show ?thesis using that r(1) by blast
qed

lemma world_dealloc:
  assumes A: "world_of E s A" and obj: "obj \<in> doomed A"
  obtains s' where "clearDeallocating E obj s = Some s'"
    and "world_of E s' \<lparr>held = (\<lambda>v. if held A v = Some obj then Some 0 else held A v), allocated = allocated A - {obj}, refs = refs A\<rparr>"
proof -
  note a = world_ofD [OF A]
  have "obj \<in> allocated A" using obj by (simp add: doomed_def)
  then have o: "\<not> isTaggedPointerOrNil E obj" "obj_addr obj" using a(4) by (auto simp: object_ok_def plain_object_def)
  obtain s' where r: "clearDeallocating E obj s = Some s'" "weak_inv E s' (dom (held A))"
    "\<forall>v\<in>dom (held A). vars s' v = (if vars s v = obj then 0 else vars s v)" "isa_bits s' = isa_bits s" "counts E s' = counts E s"
    using dealloc_weak [OF a(1) o] a(3) by auto
  let ?A = "\<lparr>held = (\<lambda>v. if held A v = Some obj then Some 0 else held A v), allocated = allocated A - {obj}, refs = refs A\<rparr>"
  have "dom (held ?A) = dom (held A)" by (auto split: if_splits)
  moreover have "held ?A v = Some p \<Longrightarrow> vars s' v = p" for v p using a(2) r(3) by (auto split: if_splits)
  moreover have "no_dangling E ?A" using a(5) by (auto simp: no_dangling_def storable_def isTaggedPointerOrNil_def split: if_splits)
  ultimately have "world_of E s' ?A" using r(2,5) a(3,4) same_isa_objects [OF r(4)] r(4) by (simp add: world_of_def)
  then show ?thesis using that r(1) by blast
qed

text \<open>A store to an \<open>isa\<close> word that keeps the mark.\<close>

lemma weak_inv_store_isa:
  assumes I: "weak_inv E s L" and keep: "\<forall>v\<in>L. vars s v = obj \<longrightarrow> isTaggedPointerOrNil E obj \<or>
    nonpointer w \<and> weakly_referenced (layout E) w = weakly_referenced (layout E) (isa_bits s obj) \<and> nonpointer (isa_bits s obj)"
  shows "weak_inv E (store_isa obj w s) L"
proof -
  have "marked_weak E p (store_isa obj w s) = marked_weak E p s" if "v \<in> L" "vars s v = p" "\<not> isTaggedPointerOrNil E p" for v p
    using keep that by (cases "p = obj") (auto simp: marked_weak_def store_isa_def counts_def table_for_def)
  moreover have "weaks E (store_isa obj w s) = weaks E s" "st_ok E (store_isa obj w s) = st_ok E s" "holds E {} (store_isa obj w s) = holds E {} s"
    by (simp_all add: store_isa_def weaks_def st_ok_def holds_def table_for_def fun_eq_iff)
  moreover have "vars (store_isa obj w s) = vars s" by (simp add: store_isa_def)
  ultimately show ?thesis using I by (simp add: weak_inv_def weak_core_def)
qed

lemma store_isa_other: "p \<noteq> obj \<Longrightarrow> object_ok E (store_isa obj w s) p = object_ok E s p"
  by (simp add: store_isa_def object_ok_def plain_object_def ISA_def)

text \<open>Messages and locks that were free before and are free again do not matter.\<close>

lemma world_of_sent: "world_of E (s\<lparr>sent := x\<rparr>) A = world_of E s A"
  by (simp add: world_of_def weak_inv_def weak_core_def holds_def st_ok_def weaks_def counts_def table_for_def marked_weak_def
      object_ok_def plain_object_def ISA_def)

context packed_env
begin

text \<open>Retains and releases that stay within the word.\<close>

lemma retain_word:
  assumes "object_ok E s obj" and "variant = FastOrMsgSend \<longrightarrow> \<not> hasCustomRR (classes E (ISA E obj s))"
  shows "rc (isa_bits s obj) = 0 \<Longrightarrow> rootRetain E obj try variant [] s = Some (Id (if try then 0 else obj), s)"
    and "rc (isa_bits s obj) \<noteq> 0 \<Longrightarrow> rc (isa_bits s obj) + 1 < 2 ^ extra_rc_width (layout E) \<Longrightarrow>
      rootRetain E obj try variant [] s = Some (Id obj, store_isa obj (fst (addc (isa_bits s obj) (RC_ONE (layout E)))) s)"
proof -
  let ?w = "isa_bits s obj" and ?L = "layout E"
  have w: "nonpointer ?w" "\<not> has_sidetable_rc ?L ?w" "\<not> isTaggedPointer E obj" "\<not> class_object E ?w"
    using assms(1) by (auto simp: object_ok_def plain_object_def isTaggedPointerOrNil_def isTaggedPointer_def class_object_def)
  have c: "getDecodedClass ?L ?w = ISA E obj s" by (simp add: ISA_def)
  have loop: "rootRetain_run E obj try variant [] s = rootRetain_loop E obj try variant [] False ?w s"
    using w(3,4) assms(2) by (auto simp: rootRetain_run_def c Let_def)
  show "rootRetain E obj try variant [] s = Some (Id (if try then 0 else obj), s)" if "rc ?w = 0"
    unfolding rootRetain_def loop using that w by (subst rootRetain_loop.simps) (simp add: isDeallocating_iff)
  show "rootRetain E obj try variant [] s = Some (Id obj, store_isa obj (fst (addc ?w (RC_ONE ?L))) s)"
    if "rc ?w \<noteq> 0" "rc ?w + 1 < 2 ^ extra_rc_width ?L"
  proof -
    have "\<not> snd (addc ?w (RC_ONE ?L))" "\<not> isDeallocating ?L ?w" using that addc_RC_ONE(1) [of ?w] by (simp_all add: isDeallocating_iff)
    then show ?thesis unfolding rootRetain_def loop using w by (subst rootRetain_loop.simps) (simp add: case_prod_beta Let_def)
  qed
qed

lemma release_word:
  assumes "object_ok E s obj" and "variant = FastOrMsgSend \<longrightarrow> \<not> hasCustomRR (classes E (ISA E obj s))" and "rc (isa_bits s obj) \<noteq> 0"
  shows "\<exists>r x. rootRelease E obj performDealloc variant [] s
    = Some (r, (store_isa obj (fst (subc (isa_bits s obj) (RC_ONE (layout E)))) s)\<lparr>sent := x\<rparr>)"
proof -
  let ?w = "isa_bits s obj" and ?L = "layout E"
  let ?s = "store_isa obj (fst (subc ?w (RC_ONE ?L))) s"
  have w: "nonpointer ?w" "\<not> has_sidetable_rc ?L ?w" "\<not> isTaggedPointer E obj" "\<not> class_object E ?w"
    using assms(1) by (auto simp: object_ok_def plain_object_def isTaggedPointerOrNil_def isTaggedPointer_def class_object_def)
  have c: "getDecodedClass ?L ?w = ISA E obj s" by (simp add: ISA_def)
  have k: "\<exists>x. t = t\<lparr>sent := x\<rparr>" for t :: rt by (rule exI [of _ "sent t"]) simp
  have "\<not> snd (subc ?w (RC_ONE ?L))" "\<not> isDeallocating ?L ?w" using assms(3) subc_RC_ONE(1) [of ?w] by (simp_all add: isDeallocating_iff)
  moreover have "rootRelease_run E obj performDealloc variant [] s = rootRelease_loop E obj performDealloc variant [] False ?w s"
    using w(3,4) assms(2) by (auto simp: rootRelease_run_def c Let_def)
  ultimately have "rootRelease_run E obj performDealloc variant [] s =
    (if isDeallocating ?L (fst (subc ?w (RC_ONE ?L))) then rootRelease_deallocate E obj performDealloc False [] ?s
     else Some (False, [], ?s))"
    using w(1,2) by (subst (asm) rootRelease_loop.simps) (simp add: case_prod_beta Let_def)
  then show ?thesis using k [of ?s] by (auto simp: rootRelease_def rootRelease_deallocate_def)
qed

lemma world_recount:
  assumes A: "world_of E s A" and obj: "obj \<in> allocated A"
    and w: "same_marks (layout E) (isa_bits s obj) w" "\<not> has_sidetable_rc (layout E) w" "rc w = n"
  shows "world_of E (store_isa obj w s) (A\<lparr>refs := (refs A)(obj := n)\<rparr>)"
proof -
  note a = world_ofD [OF A]
  let ?s = "store_isa obj w s"
  have ok: "object_ok E s obj" using a(4) obj by blast
  then have np: "nonpointer (isa_bits s obj)" by (simp add: object_ok_def plain_object_def)
  have at: "isa_bits ?s obj = w" by (simp add: store_isa_def)
  then have new: "object_ok E ?s obj"
    using ok w(1,2) by (simp add: object_ok_def plain_object_def ISA_def getDecodedClass_def same_marks_def)
  have "weak_inv E ?s (dom (held A))" by (rule weak_inv_store_isa [OF a(1)]) (use w(1) np in \<open>simp add: same_marks_def\<close>)
  moreover have "counts E ?s = counts E s" "vars ?s = vars s" by (simp_all add: store_isa_def counts_def table_for_def fun_eq_iff)
  moreover have "object_ok E ?s p \<and> rc (isa_bits ?s p) = ((refs A)(obj := n)) p" if "p \<in> allocated A" for p
    using that a(4) [of p] new at w(3) store_isa_other [of p obj E w s] by (cases "p = obj") (simp_all add: store_isa_def)
  moreover have "no_dangling E (A\<lparr>refs := (refs A)(obj := n)\<rparr>)" using a(5) by (simp add: no_dangling_def storable_def)
  ultimately show ?thesis using a(2,3) by (simp add: world_of_def)
qed

lemma world_retain:
  assumes A: "world_of E s A" and obj: "obj \<in> allocated A - doomed A" and room: "count_room E A obj"
  shows "rootRetain E obj try Fast [] s = Some (Id obj, store_isa obj (fst (addc (isa_bits s obj) (RC_ONE (layout E)))) s)"
    and "world_of E (store_isa obj (fst (addc (isa_bits s obj) (RC_ONE (layout E)))) s) (A\<lparr>refs := (refs A)(obj := refs A obj + 1)\<rparr>)"
proof -
  let ?w = "isa_bits s obj" and ?L = "layout E"
  have o: "object_ok E s obj" "rc ?w = refs A obj" "refs A obj \<noteq> 0" using world_ofD(4) [OF A] obj by (auto simp: doomed_def)
  have r: "rc ?w \<noteq> 0" "rc ?w + 1 < 2 ^ extra_rc_width ?L" using o room by (simp_all add: count_room_def)
  show "rootRetain E obj try Fast [] s = Some (Id obj, store_isa obj (fst (addc ?w (RC_ONE ?L))) s)"
    by (rule retain_word(2) [OF o(1) _ r]) simp
  have "\<not> snd (addc ?w (RC_ONE ?L))" using r(2) addc_RC_ONE(1) [of ?w] by simp
  then have "rc (fst (addc ?w (RC_ONE ?L))) = refs A obj + 1" using addc_RC_ONE(2) o(2) by simp
  moreover have "\<not> has_sidetable_rc ?L (fst (addc ?w (RC_ONE ?L)))"
    using low_fields(4) [OF addc_RC_ONE(3)] o(1) by (simp add: object_ok_def)
  ultimately show "world_of E (store_isa obj (fst (addc ?w (RC_ONE ?L))) s) (A\<lparr>refs := (refs A)(obj := refs A obj + 1)\<rparr>)"
    using world_recount [OF A, of obj] obj by simp
qed

lemma world_release:
  assumes A: "world_of E s A" and obj: "obj \<in> allocated A - doomed A"
    and v: "variant = FastOrMsgSend \<longrightarrow> \<not> hasCustomRR (classes E (ISA E obj s))"
  shows "\<exists>r s'. rootRelease E obj performDealloc variant [] s = Some (r, s') \<and> world_of E s' (A\<lparr>refs := (refs A)(obj := refs A obj - 1)\<rparr>)"
proof -
  let ?w = "isa_bits s obj" and ?L = "layout E"
  have o: "object_ok E s obj" "rc ?w = refs A obj" "refs A obj \<noteq> 0" using world_ofD(4) [OF A] obj by (auto simp: doomed_def)
  then have "\<not> snd (subc ?w (RC_ONE ?L))" using subc_RC_ONE(1) [of ?w] by simp
  then have "rc (fst (subc ?w (RC_ONE ?L))) = refs A obj - 1" using subc_RC_ONE(2) o(2) by simp
  moreover have "\<not> has_sidetable_rc ?L (fst (subc ?w (RC_ONE ?L)))"
    using low_fields(4) [OF subc_RC_ONE(3)] o(1) by (simp add: object_ok_def)
  ultimately have "world_of E (store_isa obj (fst (subc ?w (RC_ONE ?L))) s) (A\<lparr>refs := (refs A)(obj := refs A obj - 1)\<rparr>)"
    using world_recount [OF A, of obj] obj by simp
  moreover obtain r x where "rootRelease E obj performDealloc variant [] s = Some (r, (store_isa obj (fst (subc ?w (RC_ONE ?L))) s)\<lparr>sent := x\<rparr>)"
    using release_word [OF o(1) v] o(2,3) by (metis (no_types))
  ultimately show ?thesis using world_of_sent by blast
qed

lemma world_new:
  assumes A: "world_of E s A" and obj: "obj \<notin> allocated A" "\<not> isTaggedPointerOrNil E obj" "obj_addr obj"
    and cls: "unat cls < 2 ^ (3 + shiftcls_width (layout E))" "take_bit 3 cls = 0" "\<not> hasCustomRR (classes E cls)"
  shows "world_of E (initInstanceIsa E obj cls False s) (A\<lparr>allocated := insert obj (allocated A), refs := (refs A)(obj := 1)\<rparr>)"
proof -
  note a = world_ofD [OF A]
  let ?s = "initInstanceIsa E obj cls False s"
  define w where "w = isa_bits ?s obj"
  have st: "?s = store_isa obj w s" by (simp add: w_def initInstanceIsa_def initIsa_def Let_def store_isa_def)
  have f: "nonpointer w" "\<not> has_sidetable_rc (layout E) w" "rc w = 1" "getDecodedClass (layout E) w = cls"
    unfolding w_def by (rule initInstanceIsa_fields)+ (rule cls)+
  have at: "isa_bits ?s obj = w" by (simp add: w_def)
  have unheld: "held A v \<noteq> Some obj" for v using a(5) obj by (auto simp: no_dangling_def storable_def)
  have new: "object_ok E ?s obj" using f at obj cls(3) by (simp add: object_ok_def plain_object_def ISA_def)
  have "weak_inv E (store_isa obj w s) (dom (held A))"
  proof (rule weak_inv_store_isa [OF a(1)], intro ballI impI)
    fix v assume "v \<in> dom (held A)" "vars s v = obj"
    then show "isTaggedPointerOrNil E obj \<or> nonpointer w \<and> weakly_referenced (layout E) w = weakly_referenced (layout E) (isa_bits s obj) \<and> nonpointer (isa_bits s obj)"
      using a(2) unheld by blast
  qed
  then have "weak_inv E ?s (dom (held A))" using st by simp
  moreover have "counts E ?s = counts E s" "vars ?s = vars s"
    unfolding st by (simp_all add: store_isa_def counts_def table_for_def fun_eq_iff)
  moreover have "object_ok E ?s p \<and> rc (isa_bits ?s p) = ((refs A)(obj := 1)) p" if p: "p \<in> insert obj (allocated A)" for p
  proof (cases "p = obj")
    case False
    then show ?thesis using p a(4) [of p] unfolding st store_isa_other [OF False, of E w s] by (simp add: store_isa_def)
  qed (use new f(3) at in simp)
  moreover have "no_dangling E (A\<lparr>allocated := insert obj (allocated A), refs := (refs A)(obj := 1)\<rparr>)" using a(5) by (auto simp: no_dangling_def storable_def)
  ultimately show ?thesis using a(2,3) by (simp add: world_of_def)
qed

text \<open>Loading takes the lock, retains and gives the lock back.\<close>

lemma load_word:
  assumes "object_ok E s obj" and "vars s v = obj" and "\<not> locked E obj s"
  shows "rc (isa_bits s obj) = 0 \<Longrightarrow> objc_loadWeakRetained E W v [] [] s = Some (0, s)"
    and "rc (isa_bits s obj) \<noteq> 0 \<Longrightarrow> rc (isa_bits s obj) + 1 < 2 ^ extra_rc_width (layout E) \<Longrightarrow>
      objc_loadWeakRetained E W v [] [] s = Some (obj, store_isa obj (fst (addc (isa_bits s obj) (RC_ONE (layout E)))) s)"
proof -
  let ?s = "set_slock E obj True s"
  have ok: "object_ok E ?s obj" using assms(1) by (simp add: object_ok_def plain_object_def ISA_def)
  have t: "\<not> isTaggedPointerOrNil E obj" "\<not> hasCustomRR (classes E (ISA E obj s))" "obj \<noteq> 0"
    using assms(1) by (simp_all add: object_ok_def plain_object_def obj_addr_def)
  have f: "Fast = FastOrMsgSend \<longrightarrow> \<not> hasCustomRR (classes E (ISA E obj ?s))" by simp
  note lock = lock_eq unlock_eq store_isa_slock set_slock_id
  have cls: "hasCustomRR (classes E (ISA E obj ?s)) = False" using t(2) by (simp add: ISA_def)
  show "objc_loadWeakRetained E W v [] [] s = Some (0, s)" if "rc (isa_bits s obj) = 0"
    using retain_word(1) [OF ok f, of True] that t assms(2,3) cls
    by (subst objc_loadWeakRetained.simps) (simp add: Let_def lock load_result_def rootTryRetain_def)
  show "objc_loadWeakRetained E W v [] [] s = Some (obj, store_isa obj (fst (addc (isa_bits s obj) (RC_ONE (layout E)))) s)"
    if "rc (isa_bits s obj) \<noteq> 0" "rc (isa_bits s obj) + 1 < 2 ^ extra_rc_width (layout E)"
    using retain_word(2) [OF ok f, of True] that t assms(2,3) cls
    by (subst objc_loadWeakRetained.simps) (simp add: Let_def lock load_result_def rootTryRetain_def)
qed

lemma world_load:
  assumes A: "world_of E s A" and v: "held A v = Some obj"
  shows "obj \<notin> allocated A - doomed A \<Longrightarrow> objc_loadWeakRetained E W v [] [] s = Some (if obj \<in> doomed A then 0 else obj, s)"
    and "obj \<in> allocated A - doomed A \<Longrightarrow> count_room E A obj \<Longrightarrow>
      \<exists>s'. objc_loadWeakRetained E W v [] [] s = Some (obj, s') \<and> world_of E s' (A\<lparr>refs := (refs A)(obj := refs A obj + 1)\<rparr>)"
proof -
  have var: "vars s v = obj" and lk: "\<not> locked E obj s" and st: "storable E A obj"
    using world_ofD(1,2,5) [OF A] v by (auto simp: weak_inv_def holds_def locked_def table_for_def no_dangling_def)
  have o: "object_ok E s obj \<and> rc (isa_bits s obj) = refs A obj" if "obj \<in> allocated A" using world_ofD(4) [OF A that] .
  show "objc_loadWeakRetained E W v [] [] s = Some (if obj \<in> doomed A then 0 else obj, s)" if n: "obj \<notin> allocated A - doomed A"
  proof (cases "obj \<in> allocated A")
    case True
    then show ?thesis using n load_word(1) [of s obj v W] o var lk by (simp add: doomed_def)
  next
    case False
    then show ?thesis using st var by (subst objc_loadWeakRetained.simps) (simp add: Let_def storable_def doomed_def)
  qed
  assume a: "obj \<in> allocated A - doomed A" "count_room E A obj"
  then have "object_ok E s obj" "rc (isa_bits s obj) \<noteq> 0" "rc (isa_bits s obj) + 1 < 2 ^ extra_rc_width (layout E)"
    using o by (auto simp: doomed_def count_room_def)
  then show "\<exists>s'. objc_loadWeakRetained E W v [] [] s = Some (obj, s') \<and> world_of E s' (A\<lparr>refs := (refs A)(obj := refs A obj + 1)\<rparr>)"
    using load_word(2) [OF _ var lk] world_retain(2) [OF A a] by simp
qed

lemma world_init:
  assumes A: "world_of E s A" and v: "v \<noteq> 0" "held A v = None" and obj: "storable E A obj" "obj \<notin> doomed A"
  shows "\<exists>x s'. objc_initWeak E W v obj [] [] s = Some (x, s') \<and> world_of E s' (A\<lparr>held := (held A)(v \<mapsto> obj)\<rparr>)"
proof (cases "obj = 0")
  case True
  then show ?thesis using world_init_nil [OF A v] by (simp add: objc_initWeak_def)
next
  case False
  obtain x s' where "storeWeak E W False True True v obj 0 [] [] s = Some (x, s')" "world_of E s' (A\<lparr>held := (held A)(v \<mapsto> obj)\<rparr>)"
    using world_store [OF A v(1), of False obj True W] v obj by auto
  then show ?thesis using False by (simp add: objc_initWeak_def)
qed

lemma world_copy:
  assumes A: "world_of E s A" and dst: "dst \<noteq> 0" "held A dst = None" and src: "held A src = Some obj"
    and room: "obj \<in> allocated A - doomed A \<longrightarrow> count_room E A obj"
  shows "\<exists>s'. objc_copyWeak E W dst src [] [] [] [] s = Some s' \<and> world_of E s' (A\<lparr>held := (held A)(dst \<mapsto> (if obj \<in> doomed A then 0 else obj))\<rparr>)"
proof (cases "obj \<in> allocated A - doomed A")
  case False
  let ?x = "if obj \<in> doomed A then 0 else obj"
  have st: "storable E A obj" using world_ofD(5) [OF A] src by (auto simp: no_dangling_def)
  have nil: "isTaggedPointerOrNil E 0" by (simp add: isTaggedPointerOrNil_def)
  have z: "0 \<notin> allocated A" using world_ofD(4) [OF A, of 0] nil by (auto simp: object_ok_def plain_object_def)
  have x: "isTaggedPointerOrNil E ?x" "?x \<notin> doomed A" "storable E A ?x"
    using False st nil z by (auto simp: storable_def doomed_def)
  obtain y s1 where "objc_initWeak E W dst ?x [] [] s = Some (y, s1)" "world_of E s1 (A\<lparr>held := (held A)(dst \<mapsto> ?x)\<rparr>)"
    using world_init [OF A dst x(3,2)] by blast
  then show ?thesis using world_load(1) [OF A src False, of W] x(1) by (simp add: objc_copyWeak_def objc_release_obj_def)
next
  case True
  let ?A = "A\<lparr>refs := (refs A)(obj := refs A obj + 1)\<rparr>"
  let ?B = "?A\<lparr>held := (held A)(dst \<mapsto> obj)\<rparr>"
  obtain s1 where s1: "objc_loadWeakRetained E W src [] [] s = Some (obj, s1)" "world_of E s1 ?A"
    using world_load(2) [OF A src True] room True by blast
  have "storable E ?A obj" "obj \<notin> doomed ?A" using True by (auto simp: storable_def doomed_def)
  then obtain y s2 where s2: "objc_initWeak E W dst obj [] [] s1 = Some (y, s2)" "world_of E s2 ?B"
    using world_init [OF s1(2) dst(1)] dst(2) by fastforce
  have o: "object_ok E s2 obj" using world_ofD(4) [OF s2(2), of obj] True by simp
  then have t: "\<not> isTaggedPointerOrNil E obj" "\<not> hasCustomRR (classes E (ISA E obj s2))" by (simp_all add: object_ok_def plain_object_def)
  have "obj \<in> allocated ?B - doomed ?B" using True by (auto simp: doomed_def)
  then obtain r s3 where s3: "rootRelease E obj True FastOrMsgSend [] s2 = Some (r, s3)"
    "world_of E s3 (?B\<lparr>refs := (refs ?B)(obj := refs ?B obj - 1)\<rparr>)"
    using world_release [OF s2(2), of obj FastOrMsgSend True] t(2) by blast
  have "(refs ?B)(obj := refs ?B obj - 1) = refs A" by auto
  then have "?B\<lparr>refs := (refs ?B)(obj := refs ?B obj - 1)\<rparr> = A\<lparr>held := (held A)(dst \<mapsto> obj)\<rparr>" by simp
  then show ?thesis using s1(1) s2(1) s3 t(1) True by (simp add: objc_copyWeak_def objc_release_obj_def)
qed

lemma world_step_implemented:
  assumes A: "world_of E s A" and "world_step E ev A = Some A'"
  shows "\<exists>s'. weak_step E W ev s = Some s' \<and> world_of E s' A'"
proof (cases ev)
  case (New_object obj cls)
  then show ?thesis using world_new [OF A, of obj cls] assms(2) by (auto split: if_splits)
next
  case (Retain_object obj)
  show ?thesis
  proof (cases "obj \<in> doomed A")
    case True
    then have "object_ok E s obj" "rc (isa_bits s obj) = 0" using world_ofD(4) [OF A, of obj] by (auto simp: doomed_def)
    then show ?thesis using retain_word(1) [of s obj Fast False] Retain_object True assms by simp
  next
    case False
    then show ?thesis using world_retain [OF A, of obj] Retain_object assms(2) by (auto split: if_splits)
  qed
next
  case (Release_object obj)
  then show ?thesis using world_release [OF A, of obj Fast True] assms(2) by (auto split: if_splits)
next
  case (Dealloc_object obj)
  then have "obj \<in> doomed A" using assms(2) by (auto split: if_splits)
  obtain s' where "clearDeallocating E obj s = Some s'"
    "world_of E s' \<lparr>held = (\<lambda>v. if held A v = Some obj then Some 0 else held A v), allocated = allocated A - {obj}, refs = refs A\<rparr>"
    by (rule world_dealloc [OF A \<open>obj \<in> doomed A\<close>])
  then show ?thesis using assms(2) Dealloc_object \<open>obj \<in> doomed A\<close> by simp
next
  case (Init_weak v obj)
  then have v: "v \<noteq> 0" "held A v = None" "storable E A obj" "obj \<notin> doomed A" "A' = A\<lparr>held := (held A)(v \<mapsto> obj)\<rparr>"
    using assms(2) by (auto split: if_splits)
  then show ?thesis using world_init [OF A v(1-4), of W] Init_weak by auto
next
  case (Store_weak v obj)
  then have v: "held A v \<noteq> None" "storable E A obj" "obj \<notin> doomed A" "A' = A\<lparr>held := (held A)(v \<mapsto> obj)\<rparr>"
    using assms(2) by (auto split: if_splits)
  have "v \<noteq> 0" using world_ofD(1) [OF A] v(1) by (auto simp: weak_inv_def weak_core_def)
  then obtain x s' where "storeWeak E W True True True v obj 0 [] [] s = Some (x, s')" "world_of E s' A'"
    using world_store [OF A, of v True obj True W] v by auto
  then show ?thesis using Store_weak by (simp add: objc_storeWeak_def)
next
  case (Store_weak_or_nil v obj)
  then have v: "held A v \<noteq> None" "storable E A obj" "A' = A\<lparr>held := (held A)(v \<mapsto> (if obj \<in> doomed A then 0 else obj))\<rparr>"
    using assms(2) by (auto split: if_splits)
  have "v \<noteq> 0" using world_ofD(1) [OF A] v(1) by (auto simp: weak_inv_def weak_core_def)
  then obtain x s' where "storeWeak E W True True False v obj 0 [] [] s = Some (x, s')" "world_of E s' A'"
    using world_store [OF A, of v True obj False W] v by auto
  then show ?thesis using Store_weak_or_nil by (simp add: objc_storeWeakOrNil_def)
next
  case (Destroy_weak v)
  then show ?thesis using world_destroy [OF A, of v W] assms(2) by (auto split: if_splits)
next
  case (Move_weak dst src)
  then show ?thesis using world_move [OF A, of dst src _ W] assms(2) by (auto split: if_splits option.splits)
next
  case (Load_weak v)
  then obtain obj where v: "held A v = Some obj" using assms(2) by (auto split: option.splits)
  then show ?thesis using world_load [OF A v, of W] A Load_weak assms(2) by (cases "obj \<in> allocated A - doomed A") (auto split: if_splits)
next
  case (Copy_weak dst src)
  then obtain obj where c: "dst \<noteq> 0" "held A dst = None" "held A src = Some obj" "obj \<in> allocated A - doomed A \<longrightarrow> count_room E A obj"
    "A' = A\<lparr>held := (held A)(dst \<mapsto> (if obj \<in> doomed A then 0 else obj))\<rparr>"
    using assms(2) by (auto split: if_splits option.splits)
  then show ?thesis using world_copy [OF A c(1-4), of W] Copy_weak by simp
qed

lemma world_run_implemented:
  assumes "world_of E s A" and "world_run E evs A = Some A'"
  shows "\<exists>s'. weak_run E W evs s = Some s' \<and> world_of E s' A'"
  using assms
proof (induction evs arbitrary: s A)
  case (Cons ev evs)
  obtain A1 where A1: "world_step E ev A = Some A1" "world_run E evs A1 = Some A'" using Cons.prems(2) by (auto split: option.splits)
  then obtain s1 where "weak_step E W ev s = Some s1" "world_of E s1 A1" using world_step_implemented [OF Cons.prems(1)] by blast
  then show ?case using Cons.IH A1(2) by simp
qed simp

lemma world_of_start: "world_of E (rt_start E) world_start"
proof -
  have "weaks E (rt_start E) obj = {#}" for obj by (simp add: weaks_def rt_start_def table_for_def SideTable_new_def)
  then have "weak_core E (rt_start E) {}" using rt_start_simps(1) by (simp add: weak_core_def watchers_def)
  moreover have "holds E {} (rt_start E)" by (simp add: holds_def rt_start_def SideTable_new_def)
  ultimately show ?thesis using rt_start_simps(3) by (simp add: world_of_def world_start_def weak_inv_def no_dangling_def)
qed

end

subsection \<open>Loading\<close>

context packed_env
begin

lemma loadWeakRetained_alone:
  assumes ready: "rr_ready E obj s" and room: "st_room E s" "rc_total E obj s < 2 ^ 60" and v: "vars s v = obj" and cls: "\<not> hasCustomRR (classes E (ISA E obj s))"
  shows "\<exists>s'. objc_loadWeakRetained E W v [] [] s = Some (if rc_total E obj s = 0 then 0 else obj, s') \<and> \<not> locked E obj s' \<and>
    rc_total E obj s' = (if rc_total E obj s = 0 then 0 else rc_total E obj s + 1)"
proof -
  let ?s = "set_slock E obj True s"
  have r: "st_ok E s" "obj_addr obj" "\<not> isTaggedPointer E obj" "packed_inv E obj s" "\<not> locked E obj s" using ready by (simp_all add: rr_ready_def)
  have "rc_total E obj ?s = rc_total E obj s" "packed_inv E obj ?s = packed_inv E obj s" by (simp_all add: rc_total_def packed_inv_def)
  then obtain s1 where s1: "rootTryRetain E obj [] ?s = Some (rc_total E obj s \<noteq> 0, s1)" "locked E obj s1"
    "rc_total E obj s1 = (if rc_total E obj s = 0 then 0 else rc_total E obj s + 1)"
    using tryRetain_alone [of ?s obj] r room by auto
  have t: "\<not> isTaggedPointerOrNil E obj" using r(2,3) by (simp add: isTaggedPointerOrNil_def isTaggedPointer_def obj_addr_def)
  have l: "load_result E W obj [] ?s = Some (Some (if rc_total E obj s \<noteq> 0 then obj else 0, s1))"
    using s1(1) cls by (simp add: load_result_def ISA_def Let_def)
  have "objc_loadWeakRetained E W v [] [] s = Some (if rc_total E obj s \<noteq> 0 then obj else 0, set_slock E obj False s1)"
    using t v r(5) l s1(2) by (subst objc_loadWeakRetained.simps) (simp add: Let_def lock_eq unlock_eq)
  moreover have "rc_total E obj (set_slock E obj False s1) = rc_total E obj s1" by (simp add: rc_total_def)
  ultimately show ?thesis using s1(3) by auto
qed

end

subsection \<open>Properties\<close>

text \<open>
  C8: Weak variables never dangle. Whatever objects a program allocates, retains, releases and deallocates,
  and however it initializes, stores, loads, copies, moves and destroys weak variables, each live variable holds what the
  specification says, and that is nil, a tagged pointer, or an object that has not been deallocated.
\<close>

theorem weak_variables_never_dangle:
  assumes "layout E \<in> set isa_layouts" and "world_run E evs world_start = Some A"
  shows "\<exists>s. weak_run E W evs (rt_start E) = Some s \<and>
    (\<forall>v obj. held A v = Some obj \<longrightarrow> vars s v = obj \<and> (isTaggedPointerOrNil E obj \<or> obj \<in> allocated A))"
proof -
  note P = build_packed [OF assms(1)]
  obtain s where s: "weak_run E W evs (rt_start E) = Some s" "world_of E s A"
    using packed_env.world_run_implemented [OF P packed_env.world_of_start [OF P] assms(2)] by blast
  then show ?thesis using world_ofD(2,5) [OF s(2)] by (auto simp: no_dangling_def storable_def)
qed

text \<open>Classes without methods of their own for weak references.\<close>

definition sample_weak_env :: weak_env where
  "sample_weak_env = \<lparr>taggedClass = (\<lambda>_. 0), allowsWeakReference = (\<lambda>_. Alive), retainWeakReference = (\<lambda>_. None)\<rparr>"

definition sample_events :: "weak_event list" where
  "sample_events = [New_object 0x1000 0x100008068, Init_weak 0x50 0x1000, Init_weak 0x58 0x1000, Move_weak 0x60 0x58, Load_weak 0x60, Copy_weak 0x68 0x60,
     Release_object 0x1000, Release_object 0x1000, Store_weak_or_nil 0x50 0x1000, Dealloc_object 0x1000, New_object 0x1000 0x100008068, Store_weak 0x58 0x1000, Destroy_weak 0x50]"

lemma sample_world:
  "world_run sample_env sample_events world_start = Some \<lparr>held = [0x58 \<mapsto> 0x1000, 0x60 \<mapsto> 0, 0x68 \<mapsto> 0], allocated = {0x1000}, refs = (\<lambda>_. 0)(0x1000 := 1)\<rparr>"
  by (simp add: sample_events_def world_start_def sample_env_def macos_env_def isTaggedPointerOrNil_def obj_addr_def storable_def
      isa_x86_64_def doomed_def count_room_def fun_eq_iff)

theorem weak_variables_never_dangle_witness:
  "\<exists>s. weak_run sample_env sample_weak_env sample_events (rt_start sample_env) = Some s \<and> vars s 0x58 = 0x1000 \<and> vars s 0x60 = 0 \<and> vars s 0x68 = 0"
  using weak_variables_never_dangle [OF sample_env(1) sample_world, of sample_weak_env] by (auto split: if_splits)

text \<open>
  C36: A store to a weak variable takes effect in one step, whatever other threads do to the variable, and
  whatever classes are initialized, before it has its locks: it returns, the state it changes is one that
  the other threads left, and there the variable gets the new object, or nil when that is deallocating.
\<close>

theorem storeWeak_linearizes:
  assumes "layout E \<in> set isa_layouts" and "weak_inv E s L" and "var_state haveOld v L" and "admissible E haveOld haveNew crash obj s"
    and "steady E L (admissible E haveOld haveNew crash obj) oth"
  shows "\<exists>t s'. storeWeak E W haveOld haveNew crash v obj 0 oth [] s = Some (store_result E haveNew obj t, s') \<and> weak_inv E t L \<and>
    admissible E haveOld haveNew crash obj t \<and> weak_inv E s' (live_after haveNew v L) \<and> store_effect E haveNew v obj t s'"
  using packed_env.storeWeak_spec [OF build_packed [OF assms(1)] assms(2-5)] .

text \<open>Another thread that stores the same object in the same variable.\<close>

definition other_store :: "weak_env \<Rightarrow> rt \<Rightarrow> rt" where
  "other_store W s = (case objc_storeWeakOrNil sample_env W 0x50 0x1000 [] [] s of Some (_, s') \<Rightarrow> s' | None \<Rightarrow> s)"

lemma other_store_steady: "steady sample_env {0x50} (admissible sample_env True True False 0x1000) [other_store W]"
  unfolding steady_def
proof (intro ballI allI impI)
  fix f s
  assume f: "f \<in> set [other_store W]" and I: "weak_inv sample_env s {0x50} \<and> admissible sample_env True True False 0x1000 s"
  have vs: "var_state True 0x50 {0x50}" by (simp add: var_state_def)
  obtain s' where r: "storeWeak sample_env W True True False 0x50 0x1000 0 [] [] s = Some (store_result sample_env True 0x1000 s, s')"
    "weak_inv sample_env s' {0x50}" "store_effect sample_env True 0x50 0x1000 s s'"
    using packed_env.storeWeak_alone [OF build_packed [OF sample_env(1)] _ vs, of s True False "0x1000" W 0] I by (auto simp: live_after_def)
  have "other_store W s = s'" using r(1) by (simp add: other_store_def objc_storeWeakOrNil_def)
  moreover have "plain_object sample_env 0x1000 s' = plain_object sample_env 0x1000 s"
    using r(3) by (simp add: store_effect_def assigned_def plain_object_def)
  ultimately show "weak_inv sample_env (f s) {0x50} \<and> admissible sample_env True True False 0x1000 (f s)"
    using f r(2) I by (simp add: admissible_def)
qed

theorem storeWeak_linearizes_witness:
  "\<exists>s r s'. vars s 0x50 = 0x1000 \<and> storeWeak sample_env sample_weak_env True True False 0x50 0x1000 0 [other_store sample_weak_env, other_store sample_weak_env] [] s = Some (r, s') \<and>
     weak_inv sample_env s' {0x50}"
proof -
  note P = build_packed [OF sample_env(1)]
  have "world_run sample_env [New_object 0x1000 0x100008068, Init_weak 0x50 0x1000] world_start
      = Some \<lparr>held = [0x50 \<mapsto> 0x1000], allocated = {0x1000}, refs = (\<lambda>_. 0)(0x1000 := 1)\<rparr>"
    by (simp add: world_start_def sample_env_def macos_env_def isTaggedPointerOrNil_def obj_addr_def storable_def isa_x86_64_def doomed_def)
  then obtain s where "world_of sample_env s \<lparr>held = [0x50 \<mapsto> 0x1000], allocated = {0x1000}, refs = (\<lambda>_. 0)(0x1000 := 1)\<rparr>"
    using packed_env.world_run_implemented [OF P packed_env.world_of_start [OF P]] by blast
  note w = world_ofD [OF this]
  have s: "weak_inv sample_env s {0x50}" "vars s 0x50 = 0x1000" "plain_object sample_env 0x1000 s" using w(1,2,4) by (simp_all add: object_ok_def)
  have adm: "admissible sample_env True True False 0x1000 s" and vs: "var_state True 0x50 {0x50}" using s(3) by (simp_all add: admissible_def var_state_def)
  have "steady sample_env {0x50} (admissible sample_env True True False 0x1000) [other_store sample_weak_env, other_store sample_weak_env]"
    using other_store_steady [of sample_weak_env] by (simp add: steady_def)
  then show ?thesis using storeWeak_linearizes [OF sample_env(1) s(1) vs adm, of "[other_store sample_weak_env, other_store sample_weak_env]" sample_weak_env] s(2) by (auto simp: live_after_def)
qed

text \<open>
  C37: Loading a weak variable gives an object only while it is alive, and then retains it: the total count is
  one more; a deallocating object is not given out. The lock is released.
\<close>

theorem loadWeakRetained_alive_or_nil:
  assumes "layout E \<in> set isa_layouts" and "rr_ready E obj s" and "st_room E s" and "rc_total E obj s < 2 ^ 60"
    and "vars s v = obj" and "\<not> hasCustomRR (classes E (ISA E obj s))"
  shows "\<exists>s'. objc_loadWeakRetained E W v [] [] s = Some (if rc_total E obj s = 0 then 0 else obj, s') \<and> \<not> locked E obj s' \<and>
    rc_total E obj s' = (if rc_total E obj s = 0 then 0 else rc_total E obj s + 1)"
  using packed_env.loadWeakRetained_alone [OF build_packed [OF assms(1)] assms(2-6)] .

theorem loadWeakRetained_alive_or_nil_witness:
  "\<exists>s'. objc_loadWeakRetained sample_env sample_weak_env 0x50 [] [] (set_var 0x50 0x1000 sample_rt) = Some (0x1000, s') \<and> rc_total sample_env 0x1000 s' = 2"
proof -
  let ?s = "set_var 0x50 0x1000 sample_rt"
  have c: "rr_ready sample_env 0x1000 ?s = rr_ready sample_env 0x1000 sample_rt" "st_room sample_env ?s = st_room sample_env sample_rt"
    "rc_total sample_env 0x1000 ?s = rc_total sample_env 0x1000 sample_rt"
    by (simp_all add: rr_ready_def st_room_def st_ok_def rc_total_def set_var_def locked_def packed_inv_def counts_def table_for_def)
  have n: "\<not> hasCustomRR (classes sample_env c)" for c by (simp add: sample_env_def macos_env_def)
  have r: "rr_ready sample_env 0x1000 ?s" "st_room sample_env ?s" "rc_total sample_env 0x1000 ?s = 1"
    using sample_rt(1-3) c by simp_all
  have v: "vars ?s 0x50 = 0x1000" by (simp add: set_var_def)
  have lt: "rc_total sample_env 0x1000 ?s < 2 ^ 60" by (subst r(3)) simp
  have "(if rc_total sample_env 0x1000 ?s = 0 then 0 else 0x1000) = (0x1000 :: 64 word)"
    "(if rc_total sample_env 0x1000 ?s = 0 then 0 else rc_total sample_env 0x1000 ?s + 1) = 2" by (simp_all only: r(3)) simp_all
  then show ?thesis
    using loadWeakRetained_alive_or_nil [OF sample_env(1) r(1,2) lt v, of sample_weak_env] n by (simp only:) blast
qed

end
