(* ===== verification/MethodCache.thy ===== *)
theory MethodCache
  imports Prelude "HOL-Library.Monad_Syntax"
begin

text \<open>
  The method caches of \<open>objc-cache.mm\<close>, \<open>cache_t\<close> and \<open>bucket_t\<close> of \<open>objc-runtime-new.h\<close>, and the reader
  \<open>CacheLookup\<close> of the messengers in assembly. Buckets live in a memory of 16-byte slots. Every write to
  memory that a reader may see is an event; the history of a state lists them in order, so that readers
  can be run between any two of them. The allocator, the answer of \<open>_collecting_in_critical\<close>, and
  whether a class is initialized are arguments.
\<close>

subsection \<open>Configuration\<close>

datatype cache_arch = X86_64 | Arm64_macOS | Arm64_iOS

definition CACHE_END_MARKER :: "cache_arch \<Rightarrow> nat" where
  "CACHE_END_MARKER a = (if a = X86_64 then 1 else 0)"

definition cache_fill_ratio :: "cache_arch \<Rightarrow> nat \<Rightarrow> nat" where
  "cache_fill_ratio a capacity = (if a = X86_64 then u32 (capacity * 3) div 4 else u32 (capacity * 7) div 8)"

definition CACHE_ALLOW_FULL_UTILIZATION :: "cache_arch \<Rightarrow> bool" where
  "CACHE_ALLOW_FULL_UTILIZATION a \<longleftrightarrow> a \<noteq> X86_64"

definition INIT_CACHE_SIZE :: "cache_arch \<Rightarrow> nat" where
  "INIT_CACHE_SIZE a = (if a = X86_64 then 4 else 2)"

definition MAX_CACHE_SIZE :: nat where
  "MAX_CACHE_SIZE = 65536"

definition FULL_UTILIZATION_CACHE_SIZE :: nat where
  "FULL_UTILIZATION_CACHE_SIZE = 8"

definition EMPTY_BYTES :: nat where
  "EMPTY_BYTES = (1024 + 1) * 16"

definition CONFIG_USE_PREOPT_CACHES :: "cache_arch \<Rightarrow> bool" where
  "CONFIG_USE_PREOPT_CACHES a \<longleftrightarrow> a = Arm64_iOS"

text \<open>How the mask is stored: in a field of its own, or in the top 16 bits of the word with the buckets.\<close>

definition mask_outlined :: "cache_arch \<Rightarrow> bool" where
  "mask_outlined a \<longleftrightarrow> a = X86_64"

definition maskShift :: nat where
  "maskShift = 48"

definition bucketsMask :: "cache_arch \<Rightarrow> u64" where
  "bucketsMask a = (case a of X86_64 \<Rightarrow> -1 | Arm64_macOS \<Rightarrow> push_bit maskShift 1 - 1 | Arm64_iOS \<Rightarrow> push_bit (maskShift - 4) 1 - 1)"

subsection \<open>Memory\<close>

record bucket_t =
  bucket_sel :: u64
  bucket_imp :: u64

record cache_t =
  bucketsAndMaybeMask :: u64
  maybeMask :: nat
  occupied :: nat

text \<open>Buckets by their addresses, and the cache of each class.\<close>

record cache_mem =
  bucket_at :: "u64 \<Rightarrow> bucket_t option"
  cache_of :: "u64 \<Rightarrow> cache_t"

definition slot :: "u64 \<Rightarrow> nat \<Rightarrow> u64" where
  "slot b i = b + 16 * word_of_nat i"

datatype cache_event =
  Alloc u64 nat | Free u64 nat | Store_imp u64 u64 | Store_sel u64 u64 | Store_pair u64 u64 u64
  | Store_buckets u64 u64 | Store_mask u64 nat | Store_occupied u64 nat | No_readers

definition empty_bucket :: bucket_t where
  "empty_bucket = \<lparr>bucket_sel = 0, bucket_imp = 0\<rparr>"

fun apply_event :: "cache_event \<Rightarrow> cache_mem \<Rightarrow> cache_mem" where
  "apply_event (Alloc b n) m = m\<lparr>bucket_at := (\<lambda>p. if p \<in> slot b ` {..<n} then Some empty_bucket else bucket_at m p)\<rparr>"
| "apply_event (Free b n) m = m\<lparr>bucket_at := (\<lambda>p. if p \<in> slot b ` {..<n} then None else bucket_at m p)\<rparr>"
| "apply_event (Store_imp p imp) m = m\<lparr>bucket_at := (bucket_at m)(p := map_option (\<lambda>b. b\<lparr>bucket_imp := imp\<rparr>) (bucket_at m p))\<rparr>"
| "apply_event (Store_sel p sel) m = m\<lparr>bucket_at := (bucket_at m)(p := map_option (\<lambda>b. b\<lparr>bucket_sel := sel\<rparr>) (bucket_at m p))\<rparr>"
| "apply_event (Store_pair p sel imp) m =
     m\<lparr>bucket_at := (bucket_at m)(p := map_option (\<lambda>b. b\<lparr>bucket_sel := sel, bucket_imp := imp\<rparr>) (bucket_at m p))\<rparr>"
| "apply_event (Store_buckets cls w) m = m\<lparr>cache_of := (cache_of m)(cls := (cache_of m cls)\<lparr>bucketsAndMaybeMask := w\<rparr>)\<rparr>"
| "apply_event (Store_mask cls k) m = m\<lparr>cache_of := (cache_of m)(cls := (cache_of m cls)\<lparr>maybeMask := k\<rparr>)\<rparr>"
| "apply_event (Store_occupied cls n) m = m\<lparr>cache_of := (cache_of m)(cls := (cache_of m cls)\<lparr>occupied := n\<rparr>)\<rparr>"
| "apply_event No_readers m = m"

text \<open>
  The state: memory and its history, the blocks that the allocator has given out, and the static variables
  of \<open>objc-cache.mm\<close>. The last field counts the calls of \<open>_collecting_in_critical\<close>.
\<close>

record cache_state =
  memory :: cache_mem
  history :: "cache_event list"
  blocks :: "(u64 \<times> nat) list"
  emptyBucketsList :: "u64 list"
  garbage_refs :: "u64 list"
  garbage_max :: nat
  garbage_byte_size :: nat
  garbage_first :: bool
  checks :: nat

record cache_env =
  arch :: cache_arch
  objc_empty_cache :: u64
  calloc :: "(u64 \<times> nat) list \<Rightarrow> nat \<Rightarrow> u64"
  readers_busy :: "nat \<Rightarrow> bool"
  class_isInitialized :: "u64 \<Rightarrow> bool"

definition emit :: "cache_event \<Rightarrow> cache_state \<Rightarrow> cache_state" where
  "emit e s = s\<lparr>memory := apply_event e (memory s), history := history s @ [e]\<rparr>"

definition load_bucket :: "cache_state \<Rightarrow> u64 \<Rightarrow> bucket_t option" where
  "load_bucket s p = bucket_at (memory s) p"

subsection \<open>Buckets\<close>

definition encodeImp :: "u64 \<Rightarrow> u64 \<Rightarrow> u64" where
  "encodeImp newImp cls = (if newImp = 0 then 0 else newImp XOR cls)"

definition decodeImp :: "u64 \<Rightarrow> u64 \<Rightarrow> u64" where
  "decodeImp imp cls = (if imp = 0 then 0 else imp XOR cls)"

text \<open>\<open>bucket_t::set\<close>: two stores in order, or one store of both words.\<close>

definition bucket_set :: "cache_env \<Rightarrow> bool \<Rightarrow> bool \<Rightarrow> u64 \<Rightarrow> u64 \<Rightarrow> u64 \<Rightarrow> u64 \<Rightarrow> cache_state \<Rightarrow> cache_state option" where
  "bucket_set E atomic encoded p newSel newImp cls s =
     (case load_bucket s p of None \<Rightarrow> None
      | Some b \<Rightarrow>
          let newIMP = (if encoded then encodeImp newImp cls else newImp) in
          if arch E \<noteq> X86_64 then Some (emit (Store_pair p newSel newIMP) s)
          else if atomic then
            (let s = emit (Store_imp p newIMP) s in
             Some (if bucket_sel b \<noteq> newSel then emit (Store_sel p newSel) s else s))
          else Some (emit (Store_sel p newSel) (emit (Store_imp p newIMP) s)))"

subsection \<open>Fields of a cache\<close>

definition cache_mask :: "cache_arch \<Rightarrow> cache_t \<Rightarrow> nat" where
  "cache_mask a c = (if mask_outlined a then maybeMask c else unat (drop_bit maskShift (bucketsAndMaybeMask c)))"

definition cache_buckets :: "cache_arch \<Rightarrow> cache_t \<Rightarrow> u64" where
  "cache_buckets a c = bucketsAndMaybeMask c AND bucketsMask a"

definition capacity :: "cache_arch \<Rightarrow> cache_t \<Rightarrow> nat" where
  "capacity a c = (if cache_mask a c \<noteq> 0 then u32 (cache_mask a c + 1) else 0)"

definition setBucketsAndMask :: "cache_env \<Rightarrow> u64 \<Rightarrow> u64 \<Rightarrow> nat \<Rightarrow> cache_state \<Rightarrow> cache_state" where
  "setBucketsAndMask E cls newBuckets newMask s =
     (if mask_outlined (arch E)
      then emit (Store_occupied cls 0) (emit (Store_mask cls newMask) (emit (Store_buckets cls newBuckets) s))
      else emit (Store_occupied cls 0) (emit (Store_buckets cls (push_bit maskShift (word_of_nat newMask) OR newBuckets)) s))"

definition incrementOccupied :: "u64 \<Rightarrow> cache_state \<Rightarrow> cache_state" where
  "incrementOccupied cls s = emit (Store_occupied cls ((occupied (cache_of (memory s) cls) + 1) mod 2 ^ 16)) s"

definition bytesForCapacity :: "nat \<Rightarrow> nat" where
  "bytesForCapacity cap = 16 * cap"

definition endMarker :: "u64 \<Rightarrow> nat \<Rightarrow> u64" where
  "endMarker b cap = b + word_of_nat (bytesForCapacity cap) - 16"

definition initializeToEmpty :: "cache_env \<Rightarrow> u64 \<Rightarrow> cache_state \<Rightarrow> cache_state" where
  "initializeToEmpty E cls s =
     emit (Store_occupied cls 0) (emit (Store_mask cls 0) (emit (Store_buckets cls (objc_empty_cache E)) s))"

subsection \<open>Allocation\<close>

definition calloc_buckets :: "cache_env \<Rightarrow> nat \<Rightarrow> cache_state \<Rightarrow> u64 \<times> cache_state" where
  "calloc_buckets E n s =
     (let b = calloc E (blocks s) n in (b, (emit (Alloc b n) s)\<lparr>blocks := (b, n) # blocks s\<rparr>))"

definition cache_allocateBuckets :: "cache_env \<Rightarrow> nat \<Rightarrow> cache_state \<Rightarrow> (u64 \<times> cache_state) option" where
  "cache_allocateBuckets E newCapacity s =
     (let (newBuckets, s) = calloc_buckets E newCapacity s in
      if CACHE_END_MARKER (arch E) = 1 then do {
        s \<leftarrow> bucket_set E False False (endMarker newBuckets newCapacity) 1 newBuckets 0 s;
        Some (newBuckets, s) }
      else Some (newBuckets, s))"

definition emptyBuckets :: "cache_env \<Rightarrow> u64" where
  "emptyBuckets E = objc_empty_cache E AND bucketsMask (arch E)"

fun log2u :: "nat \<Rightarrow> nat" where
  "log2u x = (if x < 2 then 0 else log2u (x div 2) + 1)"

declare log2u.simps [simp del]

text \<open>\<open>None\<close> stands for the null pointer, which is returned only when nothing may be allocated.\<close>

definition emptyBucketsForCapacity :: "cache_env \<Rightarrow> nat \<Rightarrow> bool \<Rightarrow> cache_state \<Rightarrow> u64 option \<times> cache_state" where
  "emptyBucketsForCapacity E cap allocate s =
     (let bytes = bytesForCapacity cap in
      if bytes \<le> EMPTY_BYTES then (Some (emptyBuckets E), s)
      else
        let index = log2u cap; emptyBucketsListCount = length (emptyBucketsList s) in
        if index \<ge> emptyBucketsListCount then
          if \<not> allocate then (None, s)
          else
            let newListCount = index + 1;
                (newBuckets, s) = calloc_buckets E cap s;
                s = s\<lparr>emptyBucketsList := emptyBucketsList s @ replicate (newListCount - emptyBucketsListCount) newBuckets\<rparr> in
            (Some (emptyBucketsList s ! index), s)
        else (Some (emptyBucketsList s ! index), s))"

definition isConstantEmptyCache :: "cache_env \<Rightarrow> u64 \<Rightarrow> cache_state \<Rightarrow> bool" where
  "isConstantEmptyCache E cls s =
     (let c = cache_of (memory s) cls in
      occupied c = 0 \<and> Some (cache_buckets (arch E) c) = fst (emptyBucketsForCapacity E (capacity (arch E) c) False s))"

definition isConstantOptimizedCache :: "cache_env \<Rightarrow> bool \<Rightarrow> u64 \<Rightarrow> cache_state \<Rightarrow> bool" where
  "isConstantOptimizedCache E strict cls s =
     (let c = cache_of (memory s) cls; addr = bucketsAndMaybeMask c in
      if \<not> CONFIG_USE_PREOPT_CACHES (arch E) then False
      else if bit addr 0 then True
      else if strict then False
      else cache_mask (arch E) c = 0 \<and> addr \<noteq> objc_empty_cache E)"

definition canBeFreed :: "cache_env \<Rightarrow> u64 \<Rightarrow> cache_state \<Rightarrow> bool" where
  "canBeFreed E cls s \<longleftrightarrow> \<not> isConstantEmptyCache E cls s \<and> \<not> isConstantOptimizedCache E False cls s"

subsection \<open>Garbage\<close>

definition INIT_GARBAGE_COUNT :: nat where
  "INIT_GARBAGE_COUNT = 128"

definition garbage_threshold :: nat where
  "garbage_threshold = 32 * 1024"

definition garbage_make_room :: "cache_state \<Rightarrow> cache_state" where
  "garbage_make_room s =
     (if garbage_first s then s\<lparr>garbage_first := False, garbage_max := INIT_GARBAGE_COUNT\<rparr>
      else if length (garbage_refs s) = garbage_max s then s\<lparr>garbage_max := garbage_max s * 2\<rparr>
      else s)"

text \<open>\<open>free\<close> of a block that was not given out, or was freed before, is an error.\<close>

definition free_block :: "u64 \<Rightarrow> cache_state \<Rightarrow> cache_state option" where
  "free_block b s =
     (case map_of (blocks s) b of None \<Rightarrow> None
      | Some n \<Rightarrow> Some ((emit (Free b n) s)\<lparr>blocks := filter (\<lambda>(b', _). b' \<noteq> b) (blocks s)\<rparr>))"

text \<open>Waiting until no reader is in a critical section.\<close>

partial_function (option) wait_for_readers :: "cache_env \<Rightarrow> cache_state \<Rightarrow> cache_state option" where
  "wait_for_readers E s =
     (let s' = s\<lparr>checks := checks s + 1\<rparr> in
      if readers_busy E (checks s) then wait_for_readers E s' else Some s')"

fun dispose_garbage :: "u64 list \<Rightarrow> cache_state \<Rightarrow> cache_state option" where
  "dispose_garbage [] s = Some s"
| "dispose_garbage (dead # refs) s = (case dispose_garbage refs s of None \<Rightarrow> None | Some s \<Rightarrow> free_block dead s)"

definition dispose_all :: "cache_state \<Rightarrow> cache_state option" where
  "dispose_all s = do {
     s \<leftarrow> dispose_garbage (garbage_refs s) (emit No_readers s);
     Some (s\<lparr>garbage_refs := [], garbage_byte_size := 0\<rparr>) }"

definition collectNolock :: "cache_env \<Rightarrow> bool \<Rightarrow> cache_state \<Rightarrow> cache_state option" where
  "collectNolock E collectALot s =
     (if garbage_byte_size s < garbage_threshold \<and> \<not> collectALot then Some s
      else if \<not> collectALot then
        (if readers_busy E (checks s) then Some (s\<lparr>checks := checks s + 1\<rparr>)
         else dispose_all (s\<lparr>checks := checks s + 1\<rparr>))
      else do {
        s \<leftarrow> wait_for_readers E s;
        dispose_all s })"

definition collect_free :: "cache_env \<Rightarrow> u64 \<Rightarrow> nat \<Rightarrow> cache_state \<Rightarrow> cache_state option" where
  "collect_free E data cap s =
     (let s = garbage_make_room s;
          s = s\<lparr>garbage_byte_size := (garbage_byte_size s + bytesForCapacity cap) mod 2 ^ 64\<rparr> in
      if length (garbage_refs s) < garbage_max s
      then collectNolock E False (s\<lparr>garbage_refs := garbage_refs s @ [data]\<rparr>)
      else None)"

definition reallocate :: "cache_env \<Rightarrow> u64 \<Rightarrow> nat \<Rightarrow> nat \<Rightarrow> bool \<Rightarrow> cache_state \<Rightarrow> cache_state option" where
  "reallocate E cls oldCapacity newCapacity freeOld s = do {
     let oldBuckets = cache_buckets (arch E) (cache_of (memory s) cls);
     (newBuckets, s) \<leftarrow> cache_allocateBuckets E newCapacity s;
     let s = setBucketsAndMask E cls newBuckets (u32_sub newCapacity 1) s;
     if freeOld then collect_free E oldBuckets oldCapacity s else Some s }"

subsection \<open>Insertion and erasure\<close>

definition cache_hash :: "cache_arch \<Rightarrow> u64 \<Rightarrow> nat \<Rightarrow> nat" where
  "cache_hash a sel mk =
     (let value = (if CONFIG_USE_PREOPT_CACHES a then sel XOR drop_bit 7 sel else sel) in unat (value AND word_of_nat mk))"

definition cache_next :: "cache_arch \<Rightarrow> nat \<Rightarrow> nat \<Rightarrow> nat" where
  "cache_next a i mk = (if CACHE_END_MARKER a = 1 then and (u32 (i + 1)) mk else if i \<noteq> 0 then i - 1 else mk)"

text \<open>The scan for the selector or the first unused slot; the last case is \<open>bad_cache\<close>.\<close>

partial_function (option) insert_scan ::
  "cache_env \<Rightarrow> u64 \<Rightarrow> nat \<Rightarrow> nat \<Rightarrow> nat \<Rightarrow> u64 \<Rightarrow> u64 \<Rightarrow> u64 \<Rightarrow> cache_state \<Rightarrow> cache_state option" where
  "insert_scan E b m begin i sel imp cls s =
     (case load_bucket s (slot b i) of None \<Rightarrow> None
      | Some bk \<Rightarrow>
          if bucket_sel bk = 0 then bucket_set E True True (slot b i) sel imp cls (incrementOccupied cls s)
          else if bucket_sel bk = sel then Some s
          else
            let i = cache_next (arch E) i m in
            if i \<noteq> begin then insert_scan E b m begin i sel imp cls s else None)"

definition cache_insert :: "cache_env \<Rightarrow> u64 \<Rightarrow> u64 \<Rightarrow> u64 \<Rightarrow> cache_state \<Rightarrow> cache_state option" where
  "cache_insert E cls sel imp s =
     (if \<not> class_isInitialized E cls then Some s
      else if isConstantOptimizedCache E False cls s then None
      else
        let a = arch E;
            c = cache_of (memory s) cls;
            newOccupied = u32 (occupied c + 1);
            oldCapacity = capacity a c in do {
        (cap, s) \<leftarrow>
          (if isConstantEmptyCache E cls s then
             (let cap = (if oldCapacity = 0 then INIT_CACHE_SIZE a else oldCapacity) in
              map_option (\<lambda>s. (cap, s)) (reallocate E cls oldCapacity cap False s))
           else if u32 (newOccupied + CACHE_END_MARKER a) \<le> cache_fill_ratio a oldCapacity then Some (oldCapacity, s)
           else if CACHE_ALLOW_FULL_UTILIZATION a \<and> oldCapacity \<le> FULL_UTILIZATION_CACHE_SIZE \<and>
                   u32 (newOccupied + CACHE_END_MARKER a) \<le> oldCapacity then Some (oldCapacity, s)
           else
             (let cap = (if oldCapacity \<noteq> 0 then u32 (oldCapacity * 2) else INIT_CACHE_SIZE a);
                  cap = (if cap > MAX_CACHE_SIZE then MAX_CACHE_SIZE else cap) in
              map_option (\<lambda>s. (cap, s)) (reallocate E cls oldCapacity cap True s)));
        let b = cache_buckets a (cache_of (memory s) cls);
        let m = u32_sub cap 1;
        let begin = cache_hash a sel m;
        insert_scan E b m begin begin sel imp cls s })"

definition eraseNolock :: "cache_env \<Rightarrow> u64 \<Rightarrow> cache_state \<Rightarrow> cache_state option" where
  "eraseNolock E cls s =
     (let a = arch E; c = cache_of (memory s) cls in
      if isConstantOptimizedCache E False cls s then Some (setBucketsAndMask E cls (emptyBuckets E) 0 s)
      else if occupied c > 0 then
        (let cap = capacity a c;
             oldBuckets = cache_buckets a c;
             (buckets, s) = emptyBucketsForCapacity E cap True s in
         case buckets of None \<Rightarrow> None
         | Some b \<Rightarrow> collect_free E oldBuckets cap (setBucketsAndMask E cls b (u32_sub cap 1) s))
      else Some s)"

definition cache_destroy :: "cache_env \<Rightarrow> u64 \<Rightarrow> cache_state \<Rightarrow> cache_state option" where
  "cache_destroy E cls s =
     (if canBeFreed E cls s then free_block (cache_buckets (arch E) (cache_of (memory s) cls)) s else Some s)"

fun copy_buckets :: "cache_state \<Rightarrow> u64 \<Rightarrow> u64 \<Rightarrow> nat list \<Rightarrow> nat \<Rightarrow> (u64 \<times> u64) list option" where
  "copy_buckets s b cls [] room = Some []"
| "copy_buckets s b cls (index # rest) room =
     (if room = 0 then Some []
      else case load_bucket s (slot b index) of None \<Rightarrow> None
      | Some bk \<Rightarrow>
          if bucket_sel bk \<noteq> 0
          then map_option ((#) (bucket_sel bk, decodeImp (bucket_imp bk) cls)) (copy_buckets s b cls rest (room - 1))
          else copy_buckets s b cls rest room)"

definition copyCacheNolock :: "cache_env \<Rightarrow> u64 \<Rightarrow> nat \<Rightarrow> cache_state \<Rightarrow> (u64 \<times> u64) list option" where
  "copyCacheNolock E cls len s =
     (let a = arch E; c = cache_of (memory s) cls in
      copy_buckets s (cache_buckets a c) cls [0..<capacity a c] len)"

text \<open>The array ends with a null entry; no array is returned when there is no entry.\<close>

definition class_copyImpCache :: "cache_env \<Rightarrow> u64 \<Rightarrow> cache_state \<Rightarrow> ((u64 \<times> u64) list \<times> nat) option" where
  "class_copyImpCache E cls s =
     (let count = occupied (cache_of (memory s) cls) in
      if count \<noteq> 0
      then map_option (\<lambda>L. (L @ replicate (1 + count - length L) (0, 0), count)) (copyCacheNolock E cls count s)
      else Some ([], count))"

subsection \<open>The reader\<close>

text \<open>
  \<open>CacheLookup GETIMP\<close>: one step reads memory once. On \<open>x86_64\<close> the mask is read before the buckets, and a
  bucket is compared by two reads of its selector; \<open>wrapped\<close> tells the second copy of the loop. On
  \<open>arm64\<close> the word with mask and buckets is read at once, and so is a bucket. \<open>Done 0\<close> is a miss; \<open>Fault\<close> is
  an access to unmapped memory.
\<close>

datatype reader =
  Start | X_offset u64 | X_cmp bool u64 | X_cmp1 bool u64 | X_wrap u64 | X_hit u64
  | A_scan u64 u64 u64 u64 | A_rescan u64 u64 | Done u64 | Fault

definition arm_buckets :: "cache_arch \<Rightarrow> u64 \<Rightarrow> u64" where
  "arm_buckets a w = w AND (if a = Arm64_iOS then 0x0000fffffffffffe else 0x0000ffffffffffff)"

definition arm_last :: "cache_arch \<Rightarrow> u64 \<Rightarrow> u64" where
  "arm_last a w = arm_buckets a w + (if a = Arm64_iOS then drop_bit 44 w else push_bit 4 (drop_bit 48 w))"

definition arm_hash :: "cache_arch \<Rightarrow> u64 \<Rightarrow> u64 \<Rightarrow> u64" where
  "arm_hash a sel w = (if a = Arm64_iOS then sel XOR drop_bit 7 sel else sel) AND drop_bit 48 w"

fun reader_step :: "cache_arch \<Rightarrow> u64 \<Rightarrow> u64 \<Rightarrow> cache_mem \<Rightarrow> reader \<Rightarrow> reader" where
  "reader_step a cls sel m Start =
     (if a = X86_64 then X_offset (push_bit 4 (sel AND word_of_nat (maybeMask (cache_of m cls))))
      else
        let w = bucketsAndMaybeMask (cache_of m cls); b = arm_buckets a w; h = arm_hash a sel w in
        if a = Arm64_iOS \<and> bit w 0 then Fault
        else A_scan b (arm_last a w) (b + push_bit 4 h) (b + push_bit 4 h))"
| "reader_step a cls sel m (X_offset r) = X_cmp False (r + bucketsAndMaybeMask (cache_of m cls))"
| "reader_step a cls sel m (X_cmp wrapped r) =
     (case bucket_at m r of None \<Rightarrow> Fault
      | Some b \<Rightarrow> if bucket_sel b = sel then X_hit r else X_cmp1 wrapped r)"
| "reader_step a cls sel m (X_cmp1 wrapped r) =
     (case bucket_at m r of None \<Rightarrow> Fault
      | Some b \<Rightarrow> if bucket_sel b > 1 then X_cmp wrapped (r + 16)
          else if wrapped \<or> bucket_sel b < 1 then Done 0 else X_wrap r)"
| "reader_step a cls sel m (X_wrap r) = (case bucket_at m r of None \<Rightarrow> Fault | Some b \<Rightarrow> X_cmp True (bucket_imp b))"
| "reader_step a cls sel m (X_hit r) = (case bucket_at m r of None \<Rightarrow> Fault | Some b \<Rightarrow> Done (decodeImp (bucket_imp b) cls))"
| "reader_step a cls sel m (A_scan b lst first r) =
     (case bucket_at m r of None \<Rightarrow> Fault
      | Some bk \<Rightarrow>
          if bucket_sel bk = sel then Done (decodeImp (bucket_imp bk) cls)
          else if bucket_sel bk = 0 then Done 0
          else if r - 16 \<ge> b then A_scan b lst first (r - 16)
          else A_rescan first lst)"
| "reader_step a cls sel m (A_rescan first r) =
     (case bucket_at m r of None \<Rightarrow> Fault
      | Some bk \<Rightarrow>
          if bucket_sel bk = sel then Done (decodeImp (bucket_imp bk) cls)
          else if bucket_sel bk \<noteq> 0 \<and> r - 16 > first then A_rescan first (r - 16)
          else Done 0)"
| "reader_step a cls sel m (Done v) = Done v"
| "reader_step a cls sel m Fault = Fault"

text \<open>A lookup with nobody else running; \<open>None\<close> is a fault or a lookup that does not end.\<close>

partial_function (option) lookup_from :: "cache_arch \<Rightarrow> u64 \<Rightarrow> u64 \<Rightarrow> cache_mem \<Rightarrow> reader \<Rightarrow> u64 option" where
  "lookup_from a cls sel m r =
     (case r of Done v \<Rightarrow> Some v | Fault \<Rightarrow> None | _ \<Rightarrow> lookup_from a cls sel m (reader_step a cls sel m r))"

definition cache_getImp :: "cache_env \<Rightarrow> u64 \<Rightarrow> u64 \<Rightarrow> cache_state \<Rightarrow> u64 option" where
  "cache_getImp E cls sel s = lookup_from (arch E) cls sel (memory s) Start"

declare wait_for_readers.simps [code] insert_scan.simps [code] lookup_from.simps [code]

end
