(* ===== verification/CacheProbing.thy ===== *)
theory CacheProbing
  imports MethodCache
begin

text \<open>
  Probing a table of buckets: the order in which the writer visits slots, and what the reader returns on
  a table that does not change. A table is given by its selectors and its encoded implementations.
\<close>

subsection \<open>Slots\<close>

lemma slot_0 [simp]: "slot b 0 = b"
  by (simp add: slot_def)

lemma slot_Suc: "slot b (Suc i) = slot b i + 16"
  by (simp add: slot_def algebra_simps)

lemma slot_pred: "0 < i \<Longrightarrow> slot b i - 16 = slot b (i - 1)"
  using slot_Suc [of b "i - 1"] by simp

lemma slot_inj: "slot b i = slot b j \<longleftrightarrow> i = j" if "i < 2 ^ 60" "j < 2 ^ 60"
proof
  assume "slot b i = slot b j"
  then have "unat (16 * word_of_nat i :: u64) = unat (16 * word_of_nat j :: u64)" by (simp add: slot_def)
  then show "i = j" using that by (simp add: unat_word_ariths(2) unat_of_nat_u64)
qed simp

lemma unat_slot: "unat b + 16 * i < 2 ^ 64 \<Longrightarrow> unat (slot b i) = unat b + 16 * i"
  by (simp add: slot_def unat_word_ariths unat_of_nat)

subsection \<open>The order of probing\<close>

definition pos :: "cache_arch \<Rightarrow> nat \<Rightarrow> nat \<Rightarrow> nat \<Rightarrow> nat" where
  "pos a n h k = (if CACHE_END_MARKER a = 1 then (if h + k < n then h + k else h + k - n) else (if k \<le> h then h - k else h + n - k))"

lemma pos_less: "h < n \<Longrightarrow> k < n \<Longrightarrow> pos a n h k < n"
  by (auto simp: pos_def)

lemma pos_0 [simp]: "h < n \<Longrightarrow> pos a n h 0 = h"
  by (simp add: pos_def)

lemma pos_inj: "h < n \<Longrightarrow> j < n \<Longrightarrow> k < n \<Longrightarrow> pos a n h j = pos a n h k \<longleftrightarrow> j = k"
  by (auto simp: pos_def split: if_splits)

lemma pos_surj:
  assumes "h < n" "i < n"
  obtains k where "k < n" "pos a n h k = i"
proof (cases "CACHE_END_MARKER a = 1")
  case True
  show ?thesis by (rule that [of "if h \<le> i then i - h else i + n - h"]) (use assms True in \<open>auto simp: pos_def\<close>)
next
  case False
  show ?thesis by (rule that [of "if i \<le> h then h - i else h + n - i"]) (use assms False in \<open>auto simp: pos_def\<close>)
qed

text \<open>The sizes of tables.\<close>

definition table_size :: "nat \<Rightarrow> bool" where
  "table_size n \<longleftrightarrow> is_pow2 n \<and> 2 \<le> n \<and> n \<le> MAX_CACHE_SIZE"

lemma table_sizeD: "table_size n \<Longrightarrow> 2 \<le> n \<and> n \<le> 65536 \<and> n < 2 ^ 32 \<and> is_pow2 n"
  by (simp add: table_size_def MAX_CACHE_SIZE_def)

lemma mask_of_size: "table_size n \<Longrightarrow> u32_sub n 1 = n - 1"
  using table_sizeD [of n] u32_sub_id [of 1 n] by simp

lemma cache_next_pos:
  assumes n: "table_size n" and h: "h < n" and k: "k < n"
  shows "cache_next a (pos a n h k) (n - 1) = (if k + 1 = n then h else pos a n h (k + 1))"
proof -
  note t = table_sizeD [OF n]
  have less: "pos a n h k < n" using pos_less h k .
  have "and (pos a n h k + 1) (n - 1) = (pos a n h k + 1) mod n" using and_pow2_mod t by blast
  then show ?thesis using less t h k by (auto simp: cache_next_def u32_id pos_def mod_if split: if_splits)
qed

lemma word_and_less:
  assumes "k < 2 ^ 64"
  shows "unat (v AND word_of_nat k :: u64) < Suc k"
proof -
  have "v AND word_of_nat k \<le> (word_of_nat k :: u64)" by (rule word_and_le1)
  then show ?thesis using assms by (simp add: word_le_nat_alt unat_of_nat)
qed

lemma cache_hash_less:
  assumes "table_size n"
  shows "cache_hash a sel (n - 1) < n"
proof -
  obtain k where k: "n = Suc k" "k < 2 ^ 64" using table_sizeD [OF assms] by (cases n) auto
  show ?thesis unfolding k(1) cache_hash_def Let_def diff_Suc_1 using word_and_less [OF k(2)] by blast
qed

lemma word_le_1: "\<not> 1 < (x :: u64) \<longleftrightarrow> x = 0 \<or> x = 1"
proof -
  have "unat x \<le> 1 \<longleftrightarrow> unat x = unat (0 :: u64) \<or> unat x = unat (1 :: u64)" by auto
  then show ?thesis by (simp only: not_less word_le_nat_alt unat_1 word_unat_eq_iff)
qed

subsection \<open>Tables in memory\<close>

definition table_at :: "cache_arch \<Rightarrow> cache_mem \<Rightarrow> u64 \<Rightarrow> nat \<Rightarrow> (nat \<Rightarrow> u64) \<Rightarrow> (nat \<Rightarrow> u64) \<Rightarrow> bool" where
  "table_at a m b n f g \<longleftrightarrow> table_size n \<and> 16 \<le> unat b \<and> unat b + 16 * n \<le> 2 ^ 64 \<and>
     (\<forall>i<n. bucket_at m (slot b i) = Some \<lparr>bucket_sel = f i, bucket_imp = g i\<rparr>) \<and>
     (a = X86_64 \<longrightarrow> f (n - 1) = 1 \<and> g (n - 1) = b)"

lemma table_atD:
  assumes "table_at a m b n f g"
  shows "table_size n" "2 \<le> n" "16 \<le> unat b" "unat b + 16 * n \<le> 2 ^ 64"
    "\<And>i. i < n \<Longrightarrow> bucket_at m (slot b i) = Some \<lparr>bucket_sel = f i, bucket_imp = g i\<rparr>"
    "a = X86_64 \<Longrightarrow> f (n - 1) = 1" "a = X86_64 \<Longrightarrow> g (n - 1) = b"
  using assms table_sizeD [of n] by (auto simp: table_at_def)

definition active :: "reader \<Rightarrow> bool" where
  "active r \<longleftrightarrow> (\<forall>v. r \<noteq> Done v) \<and> r \<noteq> Fault"

lemma lookup_step: "active r \<Longrightarrow> lookup_from a cls sel m r = lookup_from a cls sel m (reader_step a cls sel m r)"
  by (subst lookup_from.simps) (cases r; simp add: active_def)

lemma lookup_Done [simp]: "lookup_from a cls sel m (Done v) = Some v"
  by (subst lookup_from.simps) simp

lemma active_simps [simp]:
  "active Start" "active (X_offset o')" "active (X_cmp w r)" "active (X_cmp1 w r)" "active (X_wrap r)" "active (X_hit r)"
  "active (A_scan b l h r)" "active (A_rescan h r)"
  by (simp_all add: active_def)

subsection \<open>The reader on \<open>x86_64\<close>\<close>

lemma x_cmp:
  assumes "table_at X86_64 m b n f g" and "i < n"
  shows "lookup_from X86_64 cls sel m (X_cmp w (slot b i)) =
    (if f i = sel then Some (decodeImp (g i) cls)
     else if f i > 1 then lookup_from X86_64 cls sel m (X_cmp w (slot b (Suc i)))
     else if w \<or> f i < 1 then Some 0 else lookup_from X86_64 cls sel m (X_cmp True (g i)))"
  using table_atD(5) [OF assms] by (simp add: lookup_step slot_Suc)

lemma x_reach:
  assumes t: "table_at X86_64 m b n f g" and j: "j < n" "i \<le> j" and free: "\<forall>k. i \<le> k \<and> k < j \<longrightarrow> f k > 1 \<and> f k \<noteq> sel"
  shows "lookup_from X86_64 cls sel m (X_cmp w (slot b i)) = lookup_from X86_64 cls sel m (X_cmp w (slot b j))"
  using j(2) free
proof (induction i rule: inc_induct)
  case (step i)
  then show ?case using x_cmp [OF t, of i cls sel w] j(1) by simp
qed simp

lemma x_miss_wrapped:
  assumes t: "table_at X86_64 m b n f g" and none: "\<forall>k<n. f k \<noteq> sel" and i: "i < n"
  shows "lookup_from X86_64 cls sel m (X_cmp True (slot b i)) = Some 0"
  using i
proof (induction "n - i" arbitrary: i)
  case (Suc d)
  show ?case
  proof (cases "f i > 1")
    case True
    then have "i \<noteq> n - 1" using table_atD(6) [OF t] by auto
    then show ?thesis using x_cmp [OF t Suc.prems, of cls sel True] True none Suc by simp
  next
    case False
    then show ?thesis using x_cmp [OF t Suc.prems, of cls sel True] none Suc.prems by simp
  qed
qed simp

lemma x_miss:
  assumes t: "table_at X86_64 m b n f g" and none: "\<forall>k<n. f k \<noteq> sel" and one: "\<forall>k<n - 1. f k \<noteq> 1" and i: "i < n"
  shows "lookup_from X86_64 cls sel m (X_cmp False (slot b i)) = Some 0"
  using i
proof (induction "n - i" arbitrary: i)
  case (Suc d)
  show ?case
  proof (cases "f i > 1")
    case True
    then have "i \<noteq> n - 1" using table_atD(6) [OF t] by auto
    then show ?thesis using x_cmp [OF t Suc.prems, of cls sel False] True none Suc by simp
  next
    case False
    show ?thesis
    proof (cases "i = n - 1")
      case True
      then have "g i = slot b 0" "f i = 1" using table_atD(6,7) [OF t] by simp_all
      moreover have "sel \<noteq> 1" using none Suc.prems \<open>f i = 1\<close> by blast
      ultimately show ?thesis
        using x_cmp [OF t Suc.prems, of cls sel False] x_miss_wrapped [OF t none, of 0] none Suc.prems table_atD(2) [OF t] by simp
    next
      case no: False
      then have "f i \<noteq> 1" using one Suc.prems by simp
      then have "f i < 1" using False word_le_1 by auto
      moreover have "f i \<noteq> sel" using none Suc.prems by blast
      ultimately show ?thesis using x_cmp [OF t Suc.prems, of cls sel False] False none Suc.prems by simp
    qed
  qed
qed simp

lemma x_wrap:
  assumes t: "table_at X86_64 m b n f g" and i: "i < n" and free: "\<forall>k. i \<le> k \<and> k < n - 1 \<longrightarrow> f k > 1 \<and> f k \<noteq> sel" and sel: "sel \<noteq> 1"
  shows "lookup_from X86_64 cls sel m (X_cmp False (slot b i)) = lookup_from X86_64 cls sel m (X_cmp True (slot b 0))"
proof -
  have n: "n - 1 < n" "i \<le> n - 1" using i by simp_all
  have "lookup_from X86_64 cls sel m (X_cmp False (slot b i)) = lookup_from X86_64 cls sel m (X_cmp False (slot b (n - 1)))"
    by (rule x_reach [OF t n free])
  also have "\<dots> = lookup_from X86_64 cls sel m (X_cmp True (slot b 0))"
    using x_cmp [OF t n(1), of cls sel False] table_atD(6,7) [OF t] sel by simp
  finally show ?thesis .
qed

subsection \<open>The reader on \<open>arm64\<close>\<close>

lemma slot_ge:
  assumes "16 \<le> unat b" "unat b + 16 * n \<le> 2 ^ 64" "i < n"
  shows "slot b i - 16 \<ge> b \<longleftrightarrow> 0 < i" and "h < n \<Longrightarrow> slot b i - 16 > slot b h \<longleftrightarrow> h + 1 < i"
proof -
  have u: "unat (slot b k) = unat b + 16 * k" if "k < n" for k using unat_slot [of b k] that assms by simp
  have "unat (slot b i - 16) = unat b + 16 * i - 16" using u [OF assms(3)] assms(1) by (subst unat_sub) (simp_all add: word_le_nat_alt)
  then show "slot b i - 16 \<ge> b \<longleftrightarrow> 0 < i" and "h < n \<Longrightarrow> slot b i - 16 > slot b h \<longleftrightarrow> h + 1 < i"
    using u assms(1) by (auto simp: word_le_nat_alt word_less_nat_alt)
qed

lemma a_scan:
  assumes t: "table_at a m b n f g" and i: "i < n"
  shows "lookup_from a cls sel m (A_scan b lst h (slot b i)) =
    (if f i = sel then Some (decodeImp (g i) cls)
     else if f i = 0 then Some 0
     else if 0 < i then lookup_from a cls sel m (A_scan b lst h (slot b (i - 1)))
     else lookup_from a cls sel m (A_rescan h lst))"
  using table_atD(5) [OF t i] slot_ge(1) [OF table_atD(3,4) [OF t] i] by (simp add: lookup_step slot_pred)

lemma a_rescan:
  assumes t: "table_at a m b n f g" and i: "i < n" and h: "h < n"
  shows "lookup_from a cls sel m (A_rescan (slot b h) (slot b i)) =
    (if f i = sel then Some (decodeImp (g i) cls)
     else if f i \<noteq> 0 \<and> h + 1 < i then lookup_from a cls sel m (A_rescan (slot b h) (slot b (i - 1))) else Some 0)"
  using table_atD(5) [OF t i] slot_ge(2) [OF table_atD(3,4) [OF t] i h] by (simp add: lookup_step slot_pred)

lemma a_scan_reach:
  assumes t: "table_at a m b n f g" and i: "i < n" "j \<le> i" and free: "\<forall>k. j < k \<and> k \<le> i \<longrightarrow> f k \<noteq> 0 \<and> f k \<noteq> sel"
  shows "lookup_from a cls sel m (A_scan b lst h (slot b i)) = lookup_from a cls sel m (A_scan b lst h (slot b j))"
  using i(2,1) free
proof (induction i rule: dec_induct)
  case (step i)
  then show ?case using a_scan [OF t, of "Suc i" cls sel lst h] by simp
qed simp

lemma a_rescan_reach:
  assumes t: "table_at a m b n f g" and i: "i < n" "j \<le> i" "h < j" and free: "\<forall>k. j < k \<and> k \<le> i \<longrightarrow> f k \<noteq> 0 \<and> f k \<noteq> sel"
  shows "lookup_from a cls sel m (A_rescan (slot b h) (slot b i)) = lookup_from a cls sel m (A_rescan (slot b h) (slot b j))"
  using i(2,1) free
proof (induction i rule: dec_induct)
  case (step i)
  then show ?case using a_rescan [OF t, of "Suc i" h cls sel] i(3) by simp
qed simp

lemma a_miss_rescan:
  assumes t: "table_at a m b n f g" and none: "\<forall>k<n. f k \<noteq> sel" and h: "h < n" and i: "i < n"
  shows "lookup_from a cls sel m (A_rescan (slot b h) (slot b i)) = Some 0"
  using i
proof (induction i)
  case 0
  then show ?case using a_rescan [OF t _ h, of 0 cls sel] none by simp
next
  case (Suc i)
  then show ?case using a_rescan [OF t Suc.prems h, of cls sel] none by simp
qed

lemma a_miss:
  assumes t: "table_at a m b n f g" and none: "\<forall>k<n. f k \<noteq> sel" and h: "h < n" and i: "i < n"
  shows "lookup_from a cls sel m (A_scan b (slot b (n - 1)) (slot b h) (slot b i)) = Some 0"
  using i
proof (induction i)
  case 0
  then show ?case using a_scan [OF t, of 0 cls sel] a_miss_rescan [OF t none h, of "n - 1"] none by simp
next
  case (Suc i)
  then show ?case using a_scan [OF t Suc.prems, of cls sel] none by simp
qed

subsection \<open>Lookup in a table\<close>

text \<open>
  What holds of the selectors of a table: no two slots have the same one, and every slot that is probed
  before the one of a selector is in use. The end marker takes the last slot.
\<close>

definition bucket_entries :: "cache_arch \<Rightarrow> nat \<Rightarrow> (nat \<Rightarrow> u64) \<Rightarrow> nat set" where
  "bucket_entries a n f = {i. i < n - CACHE_END_MARKER a \<and> f i \<noteq> 0}"

definition cells_ok :: "cache_arch \<Rightarrow> nat \<Rightarrow> (nat \<Rightarrow> u64) \<Rightarrow> bool" where
  "cells_ok a n f \<longleftrightarrow> inj_on f (bucket_entries a n f) \<and> (\<forall>i\<in>bucket_entries a n f. f i \<noteq> 1) \<and>
     (\<forall>i\<in>bucket_entries a n f. \<forall>k<n. pos a n (cache_hash a (f i) (n - 1)) k = i \<longrightarrow>
        (\<forall>j<k. f (pos a n (cache_hash a (f i) (n - 1)) j) \<noteq> 0))"

definition entry_state :: "cache_arch \<Rightarrow> u64 \<Rightarrow> nat \<Rightarrow> nat \<Rightarrow> reader" where
  "entry_state a b n h = (if a = X86_64 then X_cmp False (slot b h) else A_scan b (slot b (n - 1)) (slot b h) (slot b h))"

lemma END_MARKER_simps [simp]: "CACHE_END_MARKER X86_64 = 1" "a \<noteq> X86_64 \<Longrightarrow> CACHE_END_MARKER a = 0"
  by (simp_all add: CACHE_END_MARKER_def)

lemma table_miss:
  assumes t: "table_at a m b n f g" and c: "cells_ok a n f" and sel: "sel \<noteq> 0" "sel \<noteq> 1" and none: "sel \<notin> f ` bucket_entries a n f" and h: "h < n"
  shows "lookup_from a cls sel m (entry_state a b n h) = Some 0"
proof -
  have free: "f k \<noteq> sel" if "k < n" for k
  proof (cases "k < n - CACHE_END_MARKER a")
    case True
    then show ?thesis using none sel(1) by (auto simp: bucket_entries_def image_iff)
  next
    case False
    then have "a = X86_64 \<and> k = n - 1" using that by (cases "a = X86_64") auto
    then show ?thesis using table_atD(6) [OF t] sel(2) by auto
  qed
  show ?thesis
  proof (cases "a = X86_64")
    case True
    then have "\<forall>k<n - 1. f k \<noteq> 1" using c by (auto simp: cells_ok_def bucket_entries_def)
    then show ?thesis using x_miss [of m b n f g sel h cls] t free h True by (simp add: entry_state_def)
  next
    case False
    then show ?thesis using a_miss [OF t _ h h, of sel cls] free by (simp add: entry_state_def)
  qed
qed

lemma probed_before:
  assumes c: "cells_ok a n f" and i: "i \<in> bucket_entries a n f" and h: "h = cache_hash a (f i) (n - 1)" "h < n"
    and k: "k < n" "k \<noteq> i" and before: "if a = X86_64 then (h \<le> k \<and> (k < i \<or> i < h)) \<or> (k < i \<and> i < h) else (k \<le> h \<and> (i < k \<or> h < i)) \<or> (i < k \<and> h < i)"
    and m: "a = X86_64 \<longrightarrow> k \<noteq> n - 1"
  shows "f k \<noteq> 0" "f k \<noteq> f i" "f k \<noteq> 1"
proof -
  have i': "i < n" using i by (auto simp: bucket_entries_def)
  obtain ki where ki: "ki < n" "pos a n h ki = i" using pos_surj [OF h(2) i'] .
  obtain kk where kk: "kk < n" "pos a n h kk = k" using pos_surj [OF h(2) k(1)] .
  have "kk < ki" using before ki kk k(2) h(2) i' by (auto simp: pos_def split: if_splits)
  then show "f k \<noteq> 0" using c i h(1) ki kk by (auto simp: cells_ok_def)
  moreover have "k < n - CACHE_END_MARKER a" using k(1) m by (cases "a = X86_64") auto
  ultimately have "k \<in> bucket_entries a n f" by (simp add: bucket_entries_def)
  then show "f k \<noteq> f i" "f k \<noteq> 1" using c i k(2) by (auto simp: cells_ok_def inj_on_def)
qed

lemma table_hit:
  assumes t: "table_at a m b n f g" and c: "cells_ok a n f" and i: "i \<in> bucket_entries a n f" and sel: "f i = sel" and h: "h = cache_hash a sel (n - 1)"
  shows "lookup_from a cls sel m (entry_state a b n h) = Some (decodeImp (g i) cls)"
proof -
  have hn: "h < n" using cache_hash_less [OF table_atD(1) [OF t]] h by simp
  have i': "i < n - CACHE_END_MARKER a" "i < n" using i by (auto simp: bucket_entries_def)
  note before = probed_before [OF c i _ hn, unfolded sel, OF h]
  have s1: "sel \<noteq> 1" using c i sel by (auto simp: cells_ok_def)
  show ?thesis
  proof (cases "a = X86_64")
    case True
    note t' = t [unfolded True]
    have gt: "f k > 1 \<and> f k \<noteq> sel" if "k < n - 1" "k \<noteq> i" "(h \<le> k \<and> (k < i \<or> i < h)) \<or> (k < i \<and> i < h)" for k
      using before [of k] that True word_le_1 [of "f k"] by auto
    have hit: "lookup_from a cls sel m (X_cmp w (slot b i)) = Some (decodeImp (g i) cls)" for w
      using x_cmp [OF t' i'(2)] sel True by simp
    have in1: "i < n - 1" using i'(1) True by simp
    show ?thesis
    proof (cases "h \<le> i")
      case le: True
      have "lookup_from X86_64 cls sel m (X_cmp False (slot b h)) = lookup_from X86_64 cls sel m (X_cmp False (slot b i))"
        by (rule x_reach [OF t' i'(2) le]) (use gt in1 in auto)
      then show ?thesis using hit True by (simp add: entry_state_def)
    next
      case gt': False
      have "lookup_from X86_64 cls sel m (X_cmp False (slot b h)) = lookup_from X86_64 cls sel m (X_cmp True (slot b 0))"
        by (rule x_wrap [OF t' hn _ s1]) (use gt gt' in auto)
      also have "\<dots> = lookup_from X86_64 cls sel m (X_cmp True (slot b i))"
        by (rule x_reach [OF t' i'(2)]) (use gt gt' in1 in auto)
      finally show ?thesis using hit True by (simp add: entry_state_def)
    qed
  next
    case False
    have e: "entry_state a b n h = A_scan b (slot b (n - 1)) (slot b h) (slot b h)" using False by (simp add: entry_state_def)
    have nz: "f k \<noteq> 0 \<and> f k \<noteq> sel" if "k < n" "k \<noteq> i" "(k \<le> h \<and> (i < k \<or> h < i)) \<or> (i < k \<and> h < i)" for k
      using before [of k] that False by auto
    show ?thesis
    proof (cases "i \<le> h")
      case le: True
      have "lookup_from a cls sel m (entry_state a b n h) = lookup_from a cls sel m (A_scan b (slot b (n - 1)) (slot b h) (slot b i))"
        unfolding e by (rule a_scan_reach [OF t hn le]) (use nz hn in auto)
      then show ?thesis using a_scan [OF t i'(2)] sel by simp
    next
      case gt': False
      have "lookup_from a cls sel m (entry_state a b n h) = lookup_from a cls sel m (A_scan b (slot b (n - 1)) (slot b h) (slot b 0))"
        unfolding e by (rule a_scan_reach [OF t hn]) (use nz gt' hn in auto)
      also have "\<dots> = lookup_from a cls sel m (A_rescan (slot b h) (slot b (n - 1)))"
        using a_scan [OF t, of 0 cls sel] nz [of 0] gt' i'(2) by simp
      also have "\<dots> = lookup_from a cls sel m (A_rescan (slot b h) (slot b i))"
      proof (rule a_rescan_reach [OF t])
        show "\<forall>k. i < k \<and> k \<le> n - 1 \<longrightarrow> f k \<noteq> 0 \<and> f k \<noteq> sel"
        proof (intro allI impI)
          fix k assume k: "i < k \<and> k \<le> n - 1"
          then have "k < n" using i'(2) by linarith
          then show "f k \<noteq> 0 \<and> f k \<noteq> sel" using nz [of k] gt' k by simp
        qed
      qed (use gt' i'(2) in auto)
      finally show ?thesis using a_rescan [OF t i'(2) hn, of cls sel] sel by simp
    qed
  qed
qed

subsection \<open>The scan of an insertion\<close>

lemma insert_scan_step:
  assumes t: "table_at (arch E) (memory s) b n f g" and h: "h < n" and k: "k < n" and go: "f (pos (arch E) n h k) \<notin> {0, sel}"
  shows "insert_scan E b (n - 1) h (pos (arch E) n h k) sel imp cls s =
    (if k + 1 = n then None else insert_scan E b (n - 1) h (pos (arch E) n h (k + 1)) sel imp cls s)"
proof -
  let ?a = "arch E"
  have b: "load_bucket s (slot b (pos ?a n h k)) = Some \<lparr>bucket_sel = f (pos ?a n h k), bucket_imp = g (pos ?a n h k)\<rparr>"
    using table_atD(5) [OF t pos_less [OF h k]] by (simp add: load_bucket_def)
  have "pos ?a n h (k + 1) \<noteq> h" if "k + 1 < n" using pos_inj [OF h that, of 0 ?a] h by simp
  then show ?thesis using b go cache_next_pos [OF table_atD(1) [OF t] h k, of ?a] k by (subst insert_scan.simps) (auto simp: Let_def)
qed

lemma insert_scan_first:
  assumes t: "table_at (arch E) (memory s) b n f g" and h: "h < n" and k: "k < n"
    and before: "\<forall>j<k. f (pos (arch E) n h j) \<notin> {0, sel}"
  shows "insert_scan E b (n - 1) h h sel imp cls s = insert_scan E b (n - 1) h (pos (arch E) n h k) sel imp cls s"
  using k before
proof (induction k)
  case (Suc k)
  then show ?case using insert_scan_step [OF t h, of k sel imp cls] by simp
qed (use h in simp)

lemma insert_scan_end:
  assumes "load_bucket s (slot b i) = Some bk"
  shows "bucket_sel bk = 0 \<Longrightarrow> insert_scan E b m h i sel imp cls s = bucket_set E True True (slot b i) sel imp cls (incrementOccupied cls s)"
    and "bucket_sel bk = sel \<Longrightarrow> sel \<noteq> 0 \<Longrightarrow> insert_scan E b m h i sel imp cls s = Some s"
  using assms by (subst insert_scan.simps, simp)+

lemma insert_scan_spec:
  assumes t: "table_at (arch E) (memory s) b n f g" and c: "cells_ok (arch E) n f" and sel: "sel \<noteq> 0" "sel \<noteq> 1"
    and h: "h = cache_hash (arch E) sel (n - 1)" and free: "\<exists>i<n. f i = 0"
  shows "sel \<in> f ` bucket_entries (arch E) n f \<Longrightarrow> insert_scan E b (n - 1) h h sel imp cls s = Some s"
    and "sel \<notin> f ` bucket_entries (arch E) n f \<Longrightarrow> \<exists>k<n. f (pos (arch E) n h k) = 0 \<and> (\<forall>j<k. f (pos (arch E) n h j) \<noteq> 0) \<and>
      insert_scan E b (n - 1) h h sel imp cls s = bucket_set E True True (slot b (pos (arch E) n h k)) sel imp cls (incrementOccupied cls s)"
proof -
  let ?a = "arch E"
  have hn: "h < n" using cache_hash_less [OF table_atD(1) [OF t]] h by simp
  have at: "load_bucket s (slot b (pos ?a n h k)) = Some \<lparr>bucket_sel = f (pos ?a n h k), bucket_imp = g (pos ?a n h k)\<rparr>" if "k < n" for k
    using table_atD(5) [OF t pos_less [OF hn that]] by (simp add: load_bucket_def)
  show "insert_scan E b (n - 1) h h sel imp cls s = Some s" if st: "sel \<in> f ` bucket_entries ?a n f"
  proof -
    obtain i where i: "i \<in> bucket_entries ?a n f" "f i = sel" using st by blast
    then have "i < n" by (auto simp: bucket_entries_def)
    then obtain k where k: "k < n" "pos ?a n h k = i" using pos_surj [OF hn] by blast
    have nz: "\<forall>j<k. f (pos ?a n h j) \<noteq> 0" using c i h k by (auto simp: cells_ok_def)
    have "f (pos ?a n h j) \<noteq> sel" if "j < k" for j
    proof
      assume eq: "f (pos ?a n h j) = sel"
      have j: "j < n" "pos ?a n h j \<noteq> i" using pos_inj [OF hn, of j k ?a] that k by auto
      have "pos ?a n h j < n" using pos_less [OF hn j(1)] .
      moreover have "\<not> (?a = X86_64 \<and> pos ?a n h j = n - 1)" using table_atD(6) [OF t] eq sel(2) by auto
      ultimately have "pos ?a n h j \<in> bucket_entries ?a n f" using eq sel(1) by (cases "?a = X86_64") (auto simp: bucket_entries_def)
      then show False using c i eq j(2) by (auto simp: cells_ok_def inj_on_def)
    qed
    then have "insert_scan E b (n - 1) h h sel imp cls s = insert_scan E b (n - 1) h (pos ?a n h k) sel imp cls s"
      using nz by (intro insert_scan_first [OF t hn k(1)]) auto
    then show ?thesis using insert_scan_end(2) [OF at [OF k(1)]] i(2) k(2) sel(1) by simp
  qed
  show "\<exists>k<n. f (pos ?a n h k) = 0 \<and> (\<forall>j<k. f (pos ?a n h j) \<noteq> 0) \<and>
      insert_scan E b (n - 1) h h sel imp cls s = bucket_set E True True (slot b (pos ?a n h k)) sel imp cls (incrementOccupied cls s)"
    if none: "sel \<notin> f ` bucket_entries ?a n f"
  proof -
    have ns: "f k \<noteq> sel" if "k < n" for k
    proof
      assume eq: "f k = sel"
      then have "\<not> (?a = X86_64 \<and> k = n - 1)" using table_atD(6) [OF t] sel(2) by auto
      then have "k \<in> bucket_entries ?a n f" using eq sel(1) that by (cases "?a = X86_64") (auto simp: bucket_entries_def)
      then show False using none eq by blast
    qed
    define k where "k = (LEAST k. k < n \<and> f (pos ?a n h k) = 0)"
    obtain i where "i < n" "f i = 0" using free by blast
    then obtain k' where "k' < n \<and> f (pos ?a n h k') = 0" using pos_surj [OF hn] by metis
    then have "k < n \<and> f (pos ?a n h k) = 0" unfolding k_def by (rule LeastI)
    then have k: "k < n" "f (pos ?a n h k) = 0" by simp_all
    have nz: "\<forall>j<k. f (pos ?a n h j) \<noteq> 0"
    proof (intro allI impI)
      fix j assume j: "j < k"
      then show "f (pos ?a n h j) \<noteq> 0" using not_less_Least [OF j [unfolded k_def]] k(1) by simp
    qed
    have "\<forall>j<k. f (pos ?a n h j) \<notin> {0, sel}" using nz ns pos_less [OF hn] k(1) by simp
    then have "insert_scan E b (n - 1) h h sel imp cls s = insert_scan E b (n - 1) h (pos ?a n h k) sel imp cls s"
      by (rule insert_scan_first [OF t hn k(1)])
    then show ?thesis using insert_scan_end(1) [OF at [OF k(1)]] k nz by auto
  qed
qed

end
