(* ===== verification/CacheWords.thy ===== *)
theory CacheWords
  imports CacheProbing Isa
begin

text \<open>How a cache stores its buckets and its mask, and where a reader starts.\<close>

definition addr_limit :: "cache_arch \<Rightarrow> nat" where
  "addr_limit a = (case a of X86_64 \<Rightarrow> 2 ^ 64 | Arm64_macOS \<Rightarrow> 2 ^ 48 | Arm64_iOS \<Rightarrow> 2 ^ 44)"

definition block_ok :: "cache_arch \<Rightarrow> u64 \<Rightarrow> nat \<Rightarrow> bool" where
  "block_ok a b n \<longleftrightarrow> 16 \<le> unat b \<and> \<not> bit b 0 \<and> unat b + 16 * n \<le> addr_limit a"

definition cache_word :: "cache_arch \<Rightarrow> u64 \<Rightarrow> nat \<Rightarrow> u64" where
  "cache_word a b n = (if mask_outlined a then b else push_bit maskShift (word_of_nat (n - 1)) OR b)"

definition cache_at :: "cache_arch \<Rightarrow> cache_t \<Rightarrow> u64 \<Rightarrow> nat \<Rightarrow> bool" where
  "cache_at a c b n \<longleftrightarrow> bucketsAndMaybeMask c = cache_word a b n \<and> (mask_outlined a \<longrightarrow> maybeMask c = n - 1)"

definition addr_width :: "cache_arch \<Rightarrow> nat" where
  "addr_width a = (case a of X86_64 \<Rightarrow> 64 | Arm64_macOS \<Rightarrow> 48 | Arm64_iOS \<Rightarrow> 44)"

lemma bit_above:
  fixes x :: u64
  assumes "unat x < 2 ^ k" and "k \<le> i"
  shows "\<not> bit x i"
proof -
  have "take_bit k x = x" using assms(1) by (simp add: word_unat_eq_iff unat_take_bit_mod)
  then show ?thesis using assms(2) by (metis bit_take_bit_iff not_less)
qed

lemma addr_bits: "block_ok a b n \<Longrightarrow> 0 < n \<Longrightarrow> addr_width a \<le> i \<Longrightarrow> \<not> bit b i"
  by (rule bit_above [of _ "addr_width a"]) (cases a; simp add: block_ok_def addr_limit_def addr_width_def)+

lemma mask_bits:
  assumes "0 < n" "n \<le> 65536" "bit (word_of_nat (n - 1) :: u64) i"
  shows "i < 16"
proof (rule ccontr)
  obtain k where k: "n - 1 = k" "k < 2 ^ 16" using assms(1,2) by auto
  assume "\<not> i < 16"
  then show False using bit_above [of "word_of_nat k" 16 i] k assms(3) by (simp add: unat_of_nat)
qed

lemma bucketsMask_mask: "bucketsMask a = mask (addr_width a)"
  by (cases a; simp add: bucketsMask_def maskShift_def addr_width_def mask_eq_exp_minus_1)

lemma addr_width_48: "a \<noteq> X86_64 \<Longrightarrow> addr_width a \<le> 48" "addr_width a \<le> 64"
  by (cases a; simp add: addr_width_def)+

lemma bit_cache_word:
  assumes "i < 64"
  shows "bit (cache_word a b n) i \<longleftrightarrow> bit b i \<or> \<not> mask_outlined a \<and> 48 \<le> i \<and> bit (word_of_nat (n - 1) :: u64) (i - 48)"
  using assms by (auto simp: cache_word_def maskShift_def bit_or_iff bit_push_bit_iff possible_bit_def)

lemma cache_word_fields:
  assumes b: "block_ok a b n" and n: "0 < n" "n \<le> 65536"
  shows "\<not> mask_outlined a \<Longrightarrow> drop_bit 48 (cache_word a b n) = word_of_nat (n - 1)"
    and "cache_word a b n AND bucketsMask a = b"
    and "a \<noteq> X86_64 \<Longrightarrow> arm_buckets a (cache_word a b n) = b"
    and "a \<noteq> X86_64 \<Longrightarrow> arm_last a (cache_word a b n) = slot b (n - 1)"
    and "\<not> bit (cache_word a b n) 0"
proof -
  note ab = addr_bits [OF b n(1)] and mb = mask_bits [OF n] and bw = bit_cache_word [of _ a b n]
  show m: "drop_bit 48 (cache_word a b n) = word_of_nat (n - 1)" if "\<not> mask_outlined a"
  proof (rule bit_word_eqI)
    fix i assume "i < LENGTH(64)"
    then show "bit (drop_bit 48 (cache_word a b n)) i = bit (word_of_nat (n - 1) :: u64) i"
      using that ab [of "48 + i"] mb [of i] bw [of "48 + i"] addr_width_48 [of a] bit_imp_le_length [of "cache_word a b n" "48 + i"]
      by (auto simp: bit_drop_bit_eq mask_outlined_def)
  qed
  show "cache_word a b n AND bucketsMask a = b"
  proof (rule bit_word_eqI)
    fix i assume "i < LENGTH(64)"
    then show "bit (cache_word a b n AND bucketsMask a) i = bit b i"
      using ab [of i] bw [of i] addr_width_48 [of a] not_less [of i "addr_width a"] by (auto simp: bucketsMask_mask bit_and_iff bit_mask_iff mask_outlined_def)
  qed
  have c: "(0x0000fffffffffffe :: u64) = mask 48 AND NOT 1" "(0x0000ffffffffffff :: u64) = mask 48" by (simp_all add: mask_eq_exp_minus_1)
  show buckets: "arm_buckets a (cache_word a b n) = b" if "a \<noteq> X86_64"
  proof (rule bit_word_eqI)
    fix i assume "i < LENGTH(64)"
    moreover have "i < 48 \<and> i \<noteq> 0" if "bit b i"
    proof -
      have "i < addr_width a" using that ab [of i] by (meson not_less)
      moreover have "i \<noteq> 0" using that b by (auto simp: block_ok_def intro: ccontr)
      ultimately show ?thesis using addr_width_48(1) [OF \<open>a \<noteq> X86_64\<close>] by simp
    qed
    ultimately show "bit (arm_buckets a (cache_word a b n)) i = bit b i"
      using bw [of i] that
      by (auto simp: arm_buckets_def c bit_and_iff bit_mask_iff bit_not_iff bit_1_iff block_ok_def mask_outlined_def)
  qed
  have "drop_bit 44 (cache_word a b n) = push_bit 4 (word_of_nat (n - 1))" if "a = Arm64_iOS"
  proof (rule bit_word_eqI)
    fix i assume "i < LENGTH(64)"
    then show "bit (drop_bit 44 (cache_word a b n)) i = bit (push_bit 4 (word_of_nat (n - 1) :: u64)) i"
      using that ab [of "44 + i"] mb [of "i - 4"] bw [of "44 + i"] bit_imp_le_length [of "cache_word a b n" "44 + i"]
      by (auto simp: bit_drop_bit_eq bit_push_bit_iff mask_outlined_def addr_width_def possible_bit_def)
  qed
  then show "arm_last a (cache_word a b n) = slot b (n - 1)" if "a \<noteq> X86_64"
    using m buckets [OF that] that by (auto simp: arm_last_def slot_def push_bit_eq_mult mask_outlined_def mult.commute)
  show "\<not> bit (cache_word a b n) 0" using bw [of 0] b by (simp add: block_ok_def)
qed

lemma cache_at_fields:
  assumes c: "cache_at a c b n" and b: "block_ok a b n" and n: "0 < n" "n \<le> 65536"
  shows "cache_mask a c = n - 1" and "cache_buckets a c = b" and "capacity a c = (if n = 1 then 0 else n)"
proof -
  note f = cache_word_fields [OF b n]
  show m: "cache_mask a c = n - 1"
  proof (cases "mask_outlined a")
    case False
    have "unat (word_of_nat (n - 1) :: u64) = n - 1" using n by (subst unat_of_nat) simp
    then show ?thesis using c f(1) [OF False] False unfolding cache_mask_def cache_at_def maskShift_def by metis
  qed (use c in \<open>simp add: cache_mask_def cache_at_def\<close>)
  show "cache_buckets a c = b" using c f(2) by (simp add: cache_buckets_def cache_at_def)
  show "capacity a c = (if n = 1 then 0 else n)" using m n by (auto simp: capacity_def u32_id)
qed

lemma lookup_start:
  assumes c: "cache_at a (cache_of m cls) b n" and b: "block_ok a b n" and n: "0 < n" "n \<le> 65536"
  shows "lookup_from a cls sel m Start = lookup_from a cls sel m (entry_state a b n (cache_hash a sel (n - 1)))"
proof (cases "a = X86_64")
  case True
  then have "bucketsAndMaybeMask (cache_of m cls) = b" "maybeMask (cache_of m cls) = n - 1"
    using c by (simp_all add: cache_at_def cache_word_def mask_outlined_def)
  then show ?thesis using True
    by (simp add: lookup_step entry_state_def cache_hash_def CONFIG_USE_PREOPT_CACHES_def slot_def push_bit_eq_mult Let_def mult.commute add.commute)
next
  case False
  note f = cache_word_fields [OF b n]
  let ?w = "bucketsAndMaybeMask (cache_of m cls)"
  have w: "?w = cache_word a b n" using c by (simp add: cache_at_def)
  have h: "push_bit 4 (arm_hash a sel ?w) = 16 * word_of_nat (cache_hash a sel (n - 1))"
    using f(1) False w by (simp add: arm_hash_def cache_hash_def CONFIG_USE_PREOPT_CACHES_def push_bit_eq_mult mask_outlined_def Let_def mult.commute)
  show ?thesis using False f(3-5) w h by (simp add: lookup_step entry_state_def slot_def Let_def)
qed

end
