(* ===== verification/CacheProofs.thy ===== *)
theory CacheProofs
  imports CacheWords
begin

text \<open>
  The invariant of all method caches together: the blocks of memory that the allocator gave out, the
  shared areas of empty buckets, the garbage, and the cache of every class.
\<close>

subsection \<open>Blocks\<close>

definition bucket_slots :: "u64 \<Rightarrow> nat \<Rightarrow> u64 set" where
  "bucket_slots b n = slot b ` {..<n}"

definition EMPTY_SLOTS :: nat where
  "EMPTY_SLOTS = 1025"

definition heap_ok :: "cache_env \<Rightarrow> cache_state \<Rightarrow> bool" where
  "heap_ok E s \<longleftrightarrow>
     (\<forall>p. bucket_at (memory s) p \<noteq> None \<longleftrightarrow> p \<in> bucket_slots (objc_empty_cache E) EMPTY_SLOTS \<union> (\<Union>(b, n)\<in>set (blocks s). bucket_slots b n)) \<and>
     distinct (map fst (blocks s)) \<and> block_ok (arch E) (objc_empty_cache E) EMPTY_SLOTS \<and>
     (\<forall>b n. (b, n) \<in> set (blocks s) \<longrightarrow> block_ok (arch E) b n \<and> 0 < n \<and> n \<le> 65536 \<and> bucket_slots b n \<inter> bucket_slots (objc_empty_cache E) EMPTY_SLOTS = {}) \<and>
     (\<forall>b n b' n'. (b, n) \<in> set (blocks s) \<longrightarrow> (b', n') \<in> set (blocks s) \<longrightarrow> b \<noteq> b' \<longrightarrow> bucket_slots b n \<inter> bucket_slots b' n' = {})"

text \<open>
  What the code relies on in the allocator: as long as fewer than \<open>N\<close> blocks are in use, a block is
  returned that lies within the address space and overlaps nothing in use.
\<close>

definition calloc_ok :: "cache_env \<Rightarrow> nat \<Rightarrow> bool" where
  "calloc_ok E N \<longleftrightarrow> (\<forall>L n. length L < N \<and> 0 < n \<and> n \<le> 65536 \<and>
     (\<forall>b k. (b, k) \<in> set L \<longrightarrow> block_ok (arch E) b k \<and> 0 < k \<and> k \<le> 65536) \<longrightarrow>
     block_ok (arch E) (calloc E L n) n \<and>
     bucket_slots (calloc E L n) n \<inter> (bucket_slots (objc_empty_cache E) EMPTY_SLOTS \<union> (\<Union>(b, k)\<in>set L. bucket_slots b k)) = {})"

definition zero_at :: "cache_mem \<Rightarrow> u64 \<Rightarrow> nat \<Rightarrow> bool" where
  "zero_at m b n \<longleftrightarrow> (\<forall>i<n. bucket_at m (slot b i) = Some empty_bucket)"

lemma slot_in_slots [simp, intro]: "i < n \<Longrightarrow> slot b i \<in> bucket_slots b n"
  by (simp add: bucket_slots_def)

lemma base_in_slots: "0 < n \<Longrightarrow> b \<in> bucket_slots b n"
  using slot_in_slots [of 0 n b] by simp

lemma heap_okD:
  assumes "heap_ok E s"
  shows "bucket_at (memory s) p \<noteq> None \<longleftrightarrow> p \<in> bucket_slots (objc_empty_cache E) EMPTY_SLOTS \<union> (\<Union>(b, n)\<in>set (blocks s). bucket_slots b n)"
    and "distinct (map fst (blocks s))" and "block_ok (arch E) (objc_empty_cache E) EMPTY_SLOTS"
    and "(b, n) \<in> set (blocks s) \<Longrightarrow> block_ok (arch E) b n" "(b, n) \<in> set (blocks s) \<Longrightarrow> 0 < n" "(b, n) \<in> set (blocks s) \<Longrightarrow> n \<le> 65536"
    and "(b, n) \<in> set (blocks s) \<Longrightarrow> bucket_slots b n \<inter> bucket_slots (objc_empty_cache E) EMPTY_SLOTS = {}"
    and "(b, n) \<in> set (blocks s) \<Longrightarrow> (b', n') \<in> set (blocks s) \<Longrightarrow> b \<noteq> b' \<Longrightarrow> bucket_slots b n \<inter> bucket_slots b' n' = {}"
  using assms unfolding heap_ok_def by blast+

lemma emit_simps [simp]:
  "memory (emit e s) = apply_event e (memory s)" "history (emit e s) = history s @ [e]" "blocks (emit e s) = blocks s"
  "emptyBucketsList (emit e s) = emptyBucketsList s" "garbage_refs (emit e s) = garbage_refs s" "garbage_max (emit e s) = garbage_max s"
  "garbage_byte_size (emit e s) = garbage_byte_size s" "garbage_first (emit e s) = garbage_first s" "checks (emit e s) = checks s"
  by (simp_all add: emit_def)

lemma apply_event_fields:
  "cache_of (apply_event (Alloc b n) m) = cache_of m" "cache_of (apply_event (Free b n) m) = cache_of m"
  "cache_of (apply_event (Store_imp p v) m) = cache_of m" "cache_of (apply_event (Store_sel p v) m) = cache_of m"
  "cache_of (apply_event (Store_pair p v w) m) = cache_of m"
  "bucket_at (apply_event (Store_buckets c w) m) = bucket_at m" "bucket_at (apply_event (Store_mask c k) m) = bucket_at m"
  "bucket_at (apply_event (Store_occupied c k) m) = bucket_at m"
  by simp_all

lemma calloc_buckets_spec:
  assumes h: "heap_ok E s" and c: "calloc_ok E N" "length (blocks s) < N" and n: "0 < n" "n \<le> 65536"
  obtains b s' where "calloc_buckets E n s = (b, s')" and "heap_ok E s'" and "blocks s' = (b, n) # blocks s" and "history s' = history s @ [Alloc b n]"
    and "memory s' = apply_event (Alloc b n) (memory s)" and "bucket_slots b n \<inter> (bucket_slots (objc_empty_cache E) EMPTY_SLOTS \<union> (\<Union>(b, n)\<in>set (blocks s). bucket_slots b n)) = {}"
    and "block_ok (arch E) b n" and "b \<notin> fst ` set (blocks s)"
    and "emptyBucketsList s' = emptyBucketsList s" and "garbage_refs s' = garbage_refs s" and "garbage_max s' = garbage_max s" and "garbage_first s' = garbage_first s"
proof -
  let ?b = "calloc E (blocks s) n"
  let ?s = "(emit (Alloc ?b n) s)\<lparr>blocks := (?b, n) # blocks s\<rparr>"
  have "\<forall>b k. (b, k) \<in> set (blocks s) \<longrightarrow> block_ok (arch E) b k \<and> 0 < k \<and> k \<le> 65536" using heap_okD(4-6) [OF h] by blast
  then have b: "block_ok (arch E) ?b n"
    "bucket_slots ?b n \<inter> (bucket_slots (objc_empty_cache E) EMPTY_SLOTS \<union> (\<Union>(b, n)\<in>set (blocks s). bucket_slots b n)) = {}"
    using c n unfolding calloc_ok_def by blast+
  have new: "?b \<notin> fst ` set (blocks s)"
  proof
    assume "?b \<in> fst ` set (blocks s)"
    then obtain k where k: "(?b, k) \<in> set (blocks s)" by auto
    then have "?b \<in> bucket_slots ?b k" "?b \<in> bucket_slots ?b n" using base_in_slots heap_okD(5) [OF h] n by blast+
    then show False using b(2) k by blast
  qed
  have mem: "bucket_at (memory ?s) p = (if p \<in> bucket_slots ?b n then Some empty_bucket else bucket_at (memory s) p)" for p
    by (simp add: bucket_slots_def)
  have "heap_ok E ?s" unfolding heap_ok_def
  proof (intro conjI allI impI)
    show "bucket_at (memory ?s) p \<noteq> None \<longleftrightarrow> p \<in> bucket_slots (objc_empty_cache E) EMPTY_SLOTS \<union> (\<Union>(b, n)\<in>set (blocks ?s). bucket_slots b n)" for p
      using heap_okD(1) [OF h, of p] unfolding mem by simp
    show "distinct (map fst (blocks ?s))" using heap_okD(2) [OF h] new by simp
    show "block_ok (arch E) (objc_empty_cache E) EMPTY_SLOTS" using heap_okD(3) [OF h] .
    fix b' n' assume "(b', n') \<in> set (blocks ?s)"
    then have o: "b' = ?b \<and> n' = n \<or> (b', n') \<in> set (blocks s)" by auto
    then show "block_ok (arch E) b' n'" "0 < n'" "n' \<le> 65536" "bucket_slots b' n' \<inter> bucket_slots (objc_empty_cache E) EMPTY_SLOTS = {}"
      using heap_okD(4-7) [OF h] b n by blast+
    fix b2 n2 assume "(b2, n2) \<in> set (blocks ?s)" and ne: "b' \<noteq> b2"
    then have "b2 = ?b \<and> n2 = n \<or> (b2, n2) \<in> set (blocks s)" by auto
    with o show "bucket_slots b' n' \<inter> bucket_slots b2 n2 = {}" using heap_okD(8) [OF h] b(2) ne by blast
  qed
  then show ?thesis
    using that [of ?b ?s] b new by (simp add: calloc_buckets_def Let_def)
qed

lemma free_block_spec:
  assumes h: "heap_ok E s" and b: "(b, n) \<in> set (blocks s)"
  shows "free_block b s = Some ((emit (Free b n) s)\<lparr>blocks := filter (\<lambda>(b', _). b' \<noteq> b) (blocks s)\<rparr>)"
    and "heap_ok E ((emit (Free b n) s)\<lparr>blocks := filter (\<lambda>(b', _). b' \<noteq> b) (blocks s)\<rparr>)"
proof -
  let ?s = "(emit (Free b n) s)\<lparr>blocks := filter (\<lambda>(b', _). b' \<noteq> b) (blocks s)\<rparr>"
  have "map_of (blocks s) b = Some n" using heap_okD(2) [OF h] b by simp
  then show "free_block b s = Some ?s" by (simp add: free_block_def)
  have mem: "bucket_at (memory ?s) p = (if p \<in> bucket_slots b n then None else bucket_at (memory s) p)" for p by (simp add: bucket_slots_def)
  have bl: "(b', n') \<in> set (blocks ?s) \<longleftrightarrow> (b', n') \<in> set (blocks s) \<and> b' \<noteq> b" for b' n' by auto
  have same: "n' = n" if "(b, n') \<in> set (blocks s)" for n' using heap_okD(2) [OF h] b that by (metis map_of_is_SomeI option.inject)
  show "heap_ok E ?s" unfolding heap_ok_def
  proof (intro conjI allI impI)
    have u: "(\<Union>(b', n)\<in>set (blocks ?s). bucket_slots b' n) = (\<Union>(b', n)\<in>set (blocks s). bucket_slots b' n) - bucket_slots b n"
    proof (intro equalityI subsetI)
      fix x assume "x \<in> (\<Union>(b', n)\<in>set (blocks ?s). bucket_slots b' n)"
      then obtain b' n' where o: "(b', n') \<in> set (blocks s)" "b' \<noteq> b" "x \<in> bucket_slots b' n'" using bl by blast
      then show "x \<in> (\<Union>(b', n)\<in>set (blocks s). bucket_slots b' n) - bucket_slots b n" using heap_okD(8) [OF h o(1) b o(2)] by blast
    next
      fix x assume "x \<in> (\<Union>(b', n)\<in>set (blocks s). bucket_slots b' n) - bucket_slots b n"
      then obtain b' n' where o: "(b', n') \<in> set (blocks s)" "x \<in> bucket_slots b' n'" "x \<notin> bucket_slots b n" by blast
      then have "b' \<noteq> b" using same by blast
      then show "x \<in> (\<Union>(b', n)\<in>set (blocks ?s). bucket_slots b' n)" using o(1,2) bl by blast
    qed
    show "bucket_at (memory ?s) p \<noteq> None \<longleftrightarrow> p \<in> bucket_slots (objc_empty_cache E) EMPTY_SLOTS \<union> (\<Union>(b, n)\<in>set (blocks ?s). bucket_slots b n)" for p
      using heap_okD(1) [OF h, of p] heap_okD(7) [OF h b] unfolding mem u by auto
    show "distinct (map fst (blocks ?s))" using heap_okD(2) [OF h] by (simp add: distinct_map_filter)
    show "block_ok (arch E) (objc_empty_cache E) EMPTY_SLOTS" using heap_okD(3) [OF h] .
    fix b' n' assume "(b', n') \<in> set (blocks ?s)"
    then have o: "(b', n') \<in> set (blocks s)" using bl by blast
    then show "block_ok (arch E) b' n'" "0 < n'" "n' \<le> 65536" "bucket_slots b' n' \<inter> bucket_slots (objc_empty_cache E) EMPTY_SLOTS = {}"
      using heap_okD(4-7) [OF h] by blast+
    fix b2 n2 assume "(b2, n2) \<in> set (blocks ?s)" and "b' \<noteq> b2"
    then show "bucket_slots b' n' \<inter> bucket_slots b2 n2 = {}" using heap_okD(8) [OF h o] bl by blast
  qed
qed

lemma table_at_cong:
  assumes "\<And>p. p \<in> bucket_slots b n \<Longrightarrow> bucket_at m' p = bucket_at m p"
  shows "table_at a m' b n f g = table_at a m b n f g" and "zero_at m' b n = zero_at m b n"
  using assms by (simp_all add: table_at_def zero_at_def)

subsection \<open>The caches\<close>

text \<open>How many entries a table of some capacity takes before it is replaced.\<close>

definition room_ok :: "cache_arch \<Rightarrow> nat \<Rightarrow> nat \<Rightarrow> bool" where
  "room_ok a cap k \<longleftrightarrow> k + CACHE_END_MARKER a \<le> cache_fill_ratio a cap \<or>
     (CACHE_ALLOW_FULL_UTILIZATION a \<and> cap \<le> FULL_UTILIZATION_CACHE_SIZE \<and> k + CACHE_END_MARKER a \<le> cap)"

definition content :: "cache_arch \<Rightarrow> nat \<Rightarrow> (nat \<Rightarrow> u64) \<Rightarrow> (nat \<Rightarrow> u64) \<Rightarrow> u64 \<Rightarrow> u64 \<Rightarrow> u64 option" where
  "content a n f g cls sel = (if sel \<in> f ` bucket_entries a n f then Some (decodeImp (g (inv_into (bucket_entries a n f) f sel)) cls) else None)"

text \<open>The entries of a table are what \<open>good\<close> allows: the implementations that were inserted.\<close>

definition good_cells :: "cache_arch \<Rightarrow> (u64 \<Rightarrow> u64 \<Rightarrow> u64 \<Rightarrow> bool) \<Rightarrow> nat \<Rightarrow> (nat \<Rightarrow> u64) \<Rightarrow> (nat \<Rightarrow> u64) \<Rightarrow> u64 \<Rightarrow> bool" where
  "good_cells a good n f g cls \<longleftrightarrow> (\<forall>i\<in>bucket_entries a n f. f i \<noteq> 1 \<and> good cls (f i) (decodeImp (g i) cls) \<and> decodeImp (g i) cls \<noteq> 0)"

definition region_ok :: "cache_arch \<Rightarrow> (u64 \<Rightarrow> u64 \<Rightarrow> u64 \<Rightarrow> bool) \<Rightarrow> cache_mem \<Rightarrow> u64 \<Rightarrow> nat \<Rightarrow> u64 \<Rightarrow> bool" where
  "region_ok a good m b n cls \<longleftrightarrow> (\<exists>f g. table_at a m b n f g \<and> good_cells a good n f g cls)"

definition empties_ok :: "cache_env \<Rightarrow> cache_state \<Rightarrow> bool" where
  "empties_ok E s \<longleftrightarrow> zero_at (memory s) (objc_empty_cache E) EMPTY_SLOTS \<and>
     (\<forall>i<length (emptyBucketsList s). \<exists>n. (emptyBucketsList s ! i, n) \<in> set (blocks s) \<and> 2 ^ i \<le> n \<and> zero_at (memory s) (emptyBucketsList s ! i) n)"

text \<open>The garbage, together with blocks \<open>X\<close> that are about to join it.\<close>

definition garbage_ok :: "cache_env \<Rightarrow> (u64 \<Rightarrow> u64 \<Rightarrow> u64 \<Rightarrow> bool) \<Rightarrow> u64 list \<Rightarrow> cache_state \<Rightarrow> bool" where
  "garbage_ok E good X s \<longleftrightarrow> distinct (garbage_refs s @ X) \<and> set (garbage_refs s @ X) \<inter> set (emptyBucketsList s) = {} \<and>
     (\<forall>b\<in>set (garbage_refs s @ X). \<exists>n cls. (b, n) \<in> set (blocks s) \<and> region_ok (arch E) good (memory s) b n cls) \<and>
     (if garbage_first s then garbage_refs s = [] else 0 < garbage_max s \<and> length (garbage_refs s) \<le> garbage_max s)"

definition empty_for :: "cache_env \<Rightarrow> cache_state \<Rightarrow> nat \<Rightarrow> u64 \<Rightarrow> bool" where
  "empty_for E s cap b \<longleftrightarrow> fst (emptyBucketsForCapacity E cap False s) = Some b"

definition cls_empty :: "cache_env \<Rightarrow> cache_state \<Rightarrow> u64 \<Rightarrow> nat \<Rightarrow> bool" where
  "cls_empty E s cls cap \<longleftrightarrow> occupied (cache_of (memory s) cls) = 0 \<and> (cap = 0 \<or> table_size cap \<and> INIT_CACHE_SIZE (arch E) \<le> cap) \<and>
     (\<exists>b. empty_for E s cap b \<and> cache_at (arch E) (cache_of (memory s) cls) b (max 1 cap))"

definition owned :: "cache_env \<Rightarrow> (u64 \<Rightarrow> u64 \<Rightarrow> u64 \<Rightarrow> bool) \<Rightarrow> u64 list \<Rightarrow> cache_state \<Rightarrow> u64 \<Rightarrow> u64 \<Rightarrow> nat \<Rightarrow> (nat \<Rightarrow> u64) \<Rightarrow> (nat \<Rightarrow> u64) \<Rightarrow> bool" where
  "owned E good X s cls b cap f g \<longleftrightarrow> (b, cap) \<in> set (blocks s) \<and> cache_at (arch E) (cache_of (memory s) cls) b cap \<and>
     table_at (arch E) (memory s) b cap f g \<and> cells_ok (arch E) cap f \<and> good_cells (arch E) good cap f g cls \<and>
     occupied (cache_of (memory s) cls) = card (bucket_entries (arch E) cap f) \<and>
     b \<notin> set (garbage_refs s @ X) \<and> b \<notin> set (emptyBucketsList s) \<and>
     (\<forall>c. c \<noteq> cls \<longrightarrow> occupied (cache_of (memory s) c) \<noteq> 0 \<longrightarrow> cache_buckets (arch E) (cache_of (memory s) c) \<noteq> b)"

definition cls_full :: "cache_env \<Rightarrow> (u64 \<Rightarrow> u64 \<Rightarrow> u64 \<Rightarrow> bool) \<Rightarrow> u64 list \<Rightarrow> cache_state \<Rightarrow> u64 \<Rightarrow> nat \<Rightarrow> (u64 \<Rightarrow> u64 option) \<Rightarrow> bool" where
  "cls_full E good X s cls cap M \<longleftrightarrow> (\<exists>b f g. owned E good X s cls b cap f g \<and> bucket_entries (arch E) cap f \<noteq> {} \<and>
     room_ok (arch E) cap (card (bucket_entries (arch E) cap f)) \<and> M = content (arch E) cap f g cls)"

definition cls_ok :: "cache_env \<Rightarrow> (u64 \<Rightarrow> u64 \<Rightarrow> u64 \<Rightarrow> bool) \<Rightarrow> u64 list \<Rightarrow> cache_state \<Rightarrow> u64 \<Rightarrow> nat \<times> (u64 \<Rightarrow> u64 option) \<Rightarrow> bool" where
  "cls_ok E good X s cls A \<longleftrightarrow> (if snd A = Map.empty then cls_empty E s cls (fst A) else cls_full E good X s cls (fst A) (snd A))"

text \<open>Everything but the caches of the classes in \<open>C\<close>.\<close>

definition others_ok ::
  "cache_env \<Rightarrow> (u64 \<Rightarrow> u64 \<Rightarrow> u64 \<Rightarrow> bool) \<Rightarrow> u64 set \<Rightarrow> u64 list \<Rightarrow> cache_state \<Rightarrow> (u64 \<Rightarrow> nat \<times> (u64 \<Rightarrow> u64 option)) \<Rightarrow> bool" where
  "others_ok E good C X s A \<longleftrightarrow> heap_ok E s \<and> empties_ok E s \<and> garbage_ok E good X s \<and> (\<forall>c. c \<notin> C \<longrightarrow> cls_ok E good X s c (A c))"

definition caches_ok ::
  "cache_env \<Rightarrow> (u64 \<Rightarrow> u64 \<Rightarrow> u64 \<Rightarrow> bool) \<Rightarrow> cache_state \<Rightarrow> (u64 \<Rightarrow> nat \<times> (u64 \<Rightarrow> u64 option)) \<Rightarrow> bool" where
  "caches_ok E good s A \<longleftrightarrow> others_ok E good {} [] s A"

lemma others_okD:
  assumes "others_ok E good C X s A"
  shows "heap_ok E s" "empties_ok E s" "garbage_ok E good X s" "\<And>c. c \<notin> C \<Longrightarrow> cls_ok E good X s c (A c)"
  using assms by (simp_all add: others_ok_def)

lemma ownedD:
  assumes "owned E good X s cls b cap f g"
  shows "(b, cap) \<in> set (blocks s)" "cache_at (arch E) (cache_of (memory s) cls) b cap" "table_at (arch E) (memory s) b cap f g"
    "cells_ok (arch E) cap f" "good_cells (arch E) good cap f g cls" "occupied (cache_of (memory s) cls) = card (bucket_entries (arch E) cap f)"
    "b \<notin> set (garbage_refs s @ X)" "b \<notin> set (emptyBucketsList s)"
    "\<And>c. c \<noteq> cls \<Longrightarrow> occupied (cache_of (memory s) c) \<noteq> 0 \<Longrightarrow> cache_buckets (arch E) (cache_of (memory s) c) \<noteq> b"
  using assms by (simp_all add: owned_def)

lemma finite_entries [simp]: "finite (bucket_entries a n f)"
  by (simp add: bucket_entries_def)

lemma owned_buckets:
  assumes "heap_ok E s" and "owned E good X s cls b cap f g"
  shows "cache_buckets (arch E) (cache_of (memory s) cls) = b" "cache_mask (arch E) (cache_of (memory s) cls) = cap - 1"
    "capacity (arch E) (cache_of (memory s) cls) = cap"
proof -
  note o = ownedD [OF assms(2)]
  note f = cache_at_fields [OF o(2) heap_okD(4-6) [OF assms(1) o(1)]]
  show "cache_buckets (arch E) (cache_of (memory s) cls) = b" "cache_mask (arch E) (cache_of (memory s) cls) = cap - 1" using f by simp_all
  show "capacity (arch E) (cache_of (memory s) cls) = cap" using f(3) table_atD(2) [OF o(3)] by simp
qed

lemma empty_for_eq:
  "empty_for E s cap b \<longleftrightarrow> (if bytesForCapacity cap \<le> EMPTY_BYTES then b = emptyBuckets E
     else log2u cap < length (emptyBucketsList s) \<and> b = emptyBucketsList s ! log2u cap)"
  by (auto simp: empty_for_def emptyBucketsForCapacity_def Let_def)

lemma region_ok_cong:
  assumes "\<And>p. p \<in> bucket_slots b n \<Longrightarrow> bucket_at m' p = bucket_at m p"
  shows "region_ok a good m' b n cls = region_ok a good m b n cls"
  using table_at_cong(1) [OF assms] by (simp add: region_ok_def)

text \<open>A change of the blocks in \<open>D\<close> and of the caches of the classes in \<open>C\<close> leaves the rest alone.\<close>

lemma others_frame:
  assumes O: "others_ok E good C X s A" and h: "heap_ok E s'" and em: "empties_ok E s'"
    and lists: "emptyBucketsList s' = emptyBucketsList s @ zs" "set zs \<inter> fst ` set (blocks s) = {}"
      "garbage_refs s' = garbage_refs s" "garbage_max s' = garbage_max s" "garbage_first s' = garbage_first s"
    and keep: "\<And>b n. (b, n) \<in> set (blocks s) \<Longrightarrow> b \<notin> D \<Longrightarrow> (b, n) \<in> set (blocks s') \<and> (\<forall>p\<in>bucket_slots b n. bucket_at (memory s') p = bucket_at (memory s) p)"
    and D: "D \<inter> set (garbage_refs s @ X) = {}"
    and caches: "\<And>c. c \<notin> C \<Longrightarrow> cache_of (memory s') c = cache_of (memory s) c \<and>
      (occupied (cache_of (memory s) c) \<noteq> 0 \<longrightarrow> cache_buckets (arch E) (cache_of (memory s) c) \<notin> D)"
    and new: "\<And>c d. c \<in> C \<Longrightarrow> d \<notin> C \<Longrightarrow> occupied (cache_of (memory s') c) \<noteq> 0 \<Longrightarrow> occupied (cache_of (memory s) d) \<noteq> 0 \<Longrightarrow>
      cache_buckets (arch E) (cache_of (memory s') c) \<noteq> cache_buckets (arch E) (cache_of (memory s) d)"
  shows "others_ok E good C X s' A"
proof -
  note o = others_okD [OF O]
  have base: "b \<in> fst ` set (blocks s)" if "b \<in> set (garbage_refs s @ X)" for b
    using o(3) that by (force simp: garbage_ok_def)
  have "garbage_ok E good X s'"
  proof -
    have "\<exists>n cls. (b, n) \<in> set (blocks s') \<and> region_ok (arch E) good (memory s') b n cls" if b: "b \<in> set (garbage_refs s @ X)" for b
    proof -
      obtain n cls where *: "(b, n) \<in> set (blocks s)" "region_ok (arch E) good (memory s) b n cls" using o(3) b unfolding garbage_ok_def by blast
      have "b \<notin> D" using D b by blast
      then show ?thesis using keep [OF *(1)] *(2) region_ok_cong [of b n "memory s'" "memory s" "arch E" good cls] by blast
    qed
    then show ?thesis using o(3) base lists unfolding garbage_ok_def by auto
  qed
  moreover have "cls_ok E good X s' c (A c)" if c: "c \<notin> C" for c
  proof (cases "snd (A c) = Map.empty")
    case True
    then have e: "cls_empty E s c (fst (A c))" using o(4) [OF c] by (simp add: cls_ok_def)
    have "empty_for E s' cap b" if "empty_for E s cap b" for cap b using that lists(1) by (auto simp: empty_for_eq nth_append split: if_splits)
    then show ?thesis using True e caches [OF c] by (auto simp: cls_ok_def cls_empty_def)
  next
    case False
    then obtain b f g where *: "owned E good X s c b (fst (A c)) f g" "bucket_entries (arch E) (fst (A c)) f \<noteq> {}"
      "room_ok (arch E) (fst (A c)) (card (bucket_entries (arch E) (fst (A c)) f))" "snd (A c) = content (arch E) (fst (A c)) f g c"
      using o(4) [OF c] by (auto simp: cls_ok_def cls_full_def)
    note w = ownedD [OF *(1)] and bk = owned_buckets(1) [OF o(1) *(1)]
    have occ: "occupied (cache_of (memory s) c) \<noteq> 0" using w(6) *(2) by simp
    have "b \<notin> D" using caches [OF c] occ bk by blast
    note k = keep [OF w(1) this]
    have t: "table_at (arch E) (memory s') b (fst (A c)) f g" using w(3) table_at_cong(1) [of b "fst (A c)"] k by blast
    have "b \<notin> set zs" using w(1) lists(2) by force
    moreover have "cache_buckets (arch E) (cache_of (memory s') d) \<noteq> b" if "d \<noteq> c" "occupied (cache_of (memory s') d) \<noteq> 0" for d
      using new [of d c] caches [of d] w(9) [OF that(1)] that c occ bk by (cases "d \<in> C") auto
    ultimately have "owned E good X s' c b (fst (A c)) f g" using w k t caches [OF c] lists unfolding owned_def by simp
    then show ?thesis using False * by (auto simp: cls_ok_def cls_full_def)
  qed
  ultimately show ?thesis using h em by (simp add: others_ok_def)
qed

lemma empties_frame:
  assumes "empties_ok E s" and "emptyBucketsList s' = emptyBucketsList s" and "\<And>p. p \<in> bucket_slots (objc_empty_cache E) EMPTY_SLOTS \<Longrightarrow> bucket_at (memory s') p = bucket_at (memory s) p"
    and keep: "\<And>b n. (b, n) \<in> set (blocks s) \<Longrightarrow> b \<in> set (emptyBucketsList s) \<Longrightarrow>
      (b, n) \<in> set (blocks s') \<and> (\<forall>p\<in>bucket_slots b n. bucket_at (memory s') p = bucket_at (memory s) p)"
  shows "empties_ok E s'"
proof -
  have "\<exists>n. (emptyBucketsList s' ! i, n) \<in> set (blocks s') \<and> 2 ^ i \<le> n \<and> zero_at (memory s') (emptyBucketsList s' ! i) n" if "i < length (emptyBucketsList s')" for i
  proof -
    let ?b = "emptyBucketsList s ! i"
    have i: "i < length (emptyBucketsList s)" using that assms(2) by simp
    then obtain n where n: "(?b, n) \<in> set (blocks s)" "2 ^ i \<le> n" "zero_at (memory s) ?b n" using assms(1) by (auto simp: empties_ok_def)
    note k = keep [OF n(1) nth_mem [OF i]]
    have "zero_at (memory s') ?b n" using n(3) table_at_cong(2) [of ?b n "memory s'" "memory s"] k by blast
    then show ?thesis using n(2) k assms(2) by auto
  qed
  moreover have "zero_at (memory s') (objc_empty_cache E) EMPTY_SLOTS"
    using assms(1) table_at_cong(2) [of "objc_empty_cache E" EMPTY_SLOTS "memory s'" "memory s"] assms(3) by (simp add: empties_ok_def)
  ultimately show ?thesis by (simp add: empties_ok_def)
qed

end
