(* ===== verification/CacheOps.thy ===== *)
theory CacheOps
  imports CacheProofs
begin

text \<open>The operations on caches keep the invariant.\<close>

subsection \<open>Collecting garbage\<close>

text \<open>What a change keeps: all blocks outside \<open>D\<close>, the shared empty buckets, and the caches.\<close>

definition kept :: "cache_env \<Rightarrow> u64 set \<Rightarrow> cache_state \<Rightarrow> cache_state \<Rightarrow> bool" where
  "kept E D s s' \<longleftrightarrow> heap_ok E s' \<and> emptyBucketsList s' = emptyBucketsList s \<and> cache_of (memory s') = cache_of (memory s) \<and>
     (\<forall>b n. (b, n) \<in> set (blocks s) \<and> b \<notin> D \<longrightarrow> (b, n) \<in> set (blocks s') \<and> (\<forall>p\<in>bucket_slots b n. bucket_at (memory s') p = bucket_at (memory s) p)) \<and>
     (\<forall>p\<in>bucket_slots (objc_empty_cache E) EMPTY_SLOTS. bucket_at (memory s') p = bucket_at (memory s) p) \<and>
     length (blocks s') \<le> length (blocks s)"

definition frees :: "u64 list \<Rightarrow> cache_state \<Rightarrow> cache_event list" where
  "frees refs s = map (\<lambda>b. Free b (the (map_of (blocks s) b))) (rev refs)"

lemma dispose_garbage_spec:
  assumes h: "heap_ok E s" and refs: "set refs \<subseteq> fst ` set (blocks s)" "distinct refs"
  shows "\<exists>s'. dispose_garbage refs s = Some s' \<and> kept E (set refs) s s' \<and> history s' = history s @ frees refs s \<and>
    blocks s' = filter (\<lambda>(b, _). b \<notin> set refs) (blocks s) \<and>
    garbage_refs s' = garbage_refs s \<and> garbage_max s' = garbage_max s \<and> garbage_first s' = garbage_first s \<and> garbage_byte_size s' = garbage_byte_size s \<and> checks s' = checks s"
  using refs
proof (induction refs)
  case Nil
  then show ?case using h by (simp add: kept_def frees_def)
next
  case (Cons b refs)
  then obtain s1 where s1: "dispose_garbage refs s = Some s1" "kept E (set refs) s s1" "history s1 = history s @ frees refs s"
    "blocks s1 = filter (\<lambda>(b, _). b \<notin> set refs) (blocks s)"
    "garbage_refs s1 = garbage_refs s" "garbage_max s1 = garbage_max s" "garbage_first s1 = garbage_first s" "garbage_byte_size s1 = garbage_byte_size s" "checks s1 = checks s"
    by auto
  obtain n where n: "(b, n) \<in> set (blocks s)" using Cons.prems(1) by auto
  then have b1: "(b, n) \<in> set (blocks s1)" using s1(4) Cons.prems(2) by simp
  have h1: "heap_ok E s1" using s1(2) by (simp add: kept_def)
  note f = free_block_spec [OF h1 b1]
  let ?s = "(emit (Free b n) s1)\<lparr>blocks := filter (\<lambda>(b', _). b' \<noteq> b) (blocks s1)\<rparr>"
  have mem: "bucket_at (memory ?s) p = (if p \<in> bucket_slots b n then None else bucket_at (memory s1) p)" for p by (simp add: bucket_slots_def)
  have "kept E (set (b # refs)) s ?s"
    unfolding kept_def
  proof (intro conjI allI impI ballI)
    fix b' n' assume k: "(b', n') \<in> set (blocks s) \<and> b' \<notin> set (b # refs)"
    then have 1: "(b', n') \<in> set (blocks s1)" "\<forall>p\<in>bucket_slots b' n'. bucket_at (memory s1) p = bucket_at (memory s) p" using s1(2) by (auto simp: kept_def)
    then show "(b', n') \<in> set (blocks ?s)" using k by auto
    fix p assume p: "p \<in> bucket_slots b' n'"
    have "bucket_slots b' n' \<inter> bucket_slots b n = {}" using heap_okD(8) [OF h1 1(1) b1] k by auto
    then show "bucket_at (memory ?s) p = bucket_at (memory s) p" unfolding mem using 1(2) p by auto
  next
    fix p assume p: "p \<in> bucket_slots (objc_empty_cache E) EMPTY_SLOTS"
    then show "bucket_at (memory ?s) p = bucket_at (memory s) p" unfolding mem using s1(2) heap_okD(7) [OF h1 b1] by (auto simp: kept_def)
  next
    have "length (blocks s1) \<le> length (blocks s)" using s1(2) by (simp add: kept_def)
    from le_trans [OF length_filter_le this] show "length (blocks ?s) \<le> length (blocks s)" by simp
  qed (use f(2) s1(2) in \<open>simp_all add: kept_def\<close>)
  moreover have "the (map_of (blocks s) b) = n" using heap_okD(2) [OF h] n by simp
  then have "history ?s = history s @ frees (b # refs) s" using s1(3) by (simp add: frees_def)
  moreover have "blocks ?s = filter (\<lambda>(b', _). b' \<notin> set (b # refs)) (blocks s)" unfolding s1(4) by (auto intro!: filter_cong simp: filter_filter)
  ultimately show ?case using s1 f(1) by auto
qed

lemma kept_frame:
  assumes O: "others_ok E good C X s A" and k: "kept E D s s'" and D: "D \<inter> set (garbage_refs s @ X @ emptyBucketsList s) = {}"
    and g: "garbage_refs s' = garbage_refs s" "garbage_max s' = garbage_max s" "garbage_first s' = garbage_first s"
    and own: "\<And>c. c \<notin> C \<Longrightarrow> occupied (cache_of (memory s) c) \<noteq> 0 \<Longrightarrow> cache_buckets (arch E) (cache_of (memory s) c) \<notin> D"
    and new: "\<And>c d. c \<in> C \<Longrightarrow> d \<notin> C \<Longrightarrow> occupied (cache_of (memory s) c) \<noteq> 0 \<Longrightarrow> occupied (cache_of (memory s) d) \<noteq> 0 \<Longrightarrow>
      cache_buckets (arch E) (cache_of (memory s) c) \<noteq> cache_buckets (arch E) (cache_of (memory s) d)"
  shows "others_ok E good C X s' A"
proof (rule others_frame [OF O, where zs = "[]" and D = D])
  note o = others_okD [OF O]
  show "heap_ok E s'" using k by (simp add: kept_def)
  show "empties_ok E s'"
    by (rule empties_frame [OF o(2)]) (use k D in \<open>auto simp: kept_def\<close>)
qed (use k D g own new in \<open>auto simp: kept_def\<close>)

lemma owned_kept:
  assumes o: "owned E good X s cls b cap f g" and k: "kept E D s s'" and "b \<notin> D" and "set (garbage_refs s' @ X') \<subseteq> set (garbage_refs s @ X)"
  shows "owned E good X' s' cls b cap f g"
proof -
  note w = ownedD [OF o]
  have "(b, cap) \<in> set (blocks s')" "\<forall>p\<in>bucket_slots b cap. bucket_at (memory s') p = bucket_at (memory s) p" using k w(1) assms(3) by (auto simp: kept_def)
  moreover have "table_at (arch E) (memory s') b cap f g" using w(3) table_at_cong(1) [of b cap "memory s'" "memory s"] calculation by blast
  ultimately show ?thesis using w k assms(4) by (auto simp: owned_def kept_def)
qed

lemma others_ok_fields:
  assumes "memory s' = memory s" "blocks s' = blocks s" "emptyBucketsList s' = emptyBucketsList s"
  shows "heap_ok E s' = heap_ok E s" "empties_ok E s' = empties_ok E s" "empty_for E s' = empty_for E s"
  using assms by (simp_all add: heap_ok_def empties_ok_def empty_for_eq fun_eq_iff)

lemma others_ok_shrink:
  assumes O: "others_ok E good C X s A" and s': "memory s' = memory s" "blocks s' = blocks s" "emptyBucketsList s' = emptyBucketsList s"
    and g: "set (garbage_refs s' @ X') \<subseteq> set (garbage_refs s @ X)" "distinct (garbage_refs s' @ X')"
    and m: "if garbage_first s' then garbage_refs s' = [] else 0 < garbage_max s' \<and> length (garbage_refs s') \<le> garbage_max s'"
  shows "others_ok E good C X' s' A"
proof -
  note o = others_okD [OF O] and eq = others_ok_fields [OF s']
  have "set (garbage_refs s' @ X') \<inter> set (emptyBucketsList s') = {}" using o(3) g(1) unfolding garbage_ok_def s'(3) by blast
  moreover have "\<forall>b\<in>set (garbage_refs s' @ X'). \<exists>n cls. (b, n) \<in> set (blocks s') \<and> region_ok (arch E) good (memory s') b n cls"
    using o(3) g(1) unfolding garbage_ok_def s'(1,2) by blast
  ultimately have "garbage_ok E good X' s'" using g(2) m unfolding garbage_ok_def by blast
  moreover have "cls_ok E good X' s' c (A c)" if c: "c \<notin> C" for c
  proof (cases "snd (A c) = Map.empty")
    case True
    then show ?thesis using o(4) [OF c] s' eq(3) by (simp add: cls_ok_def cls_empty_def)
  next
    case False
    then obtain b f g where *: "owned E good X s c b (fst (A c)) f g" "bucket_entries (arch E) (fst (A c)) f \<noteq> {}"
      "room_ok (arch E) (fst (A c)) (card (bucket_entries (arch E) (fst (A c)) f))" "snd (A c) = content (arch E) (fst (A c)) f g c"
      using o(4) [OF c] by (auto simp: cls_ok_def cls_full_def)
    have "owned E good X' s' c b (fst (A c)) f g" using ownedD [OF *(1)] s' assms(5) unfolding owned_def by auto
    then show ?thesis using False * by (auto simp: cls_ok_def cls_full_def)
  qed
  ultimately show ?thesis using o eq by (simp add: others_ok_def)
qed

text \<open>A block that the caches in use do not need.\<close>

definition unneeded :: "cache_env \<Rightarrow> u64 set \<Rightarrow> u64 set \<Rightarrow> cache_state \<Rightarrow> bool" where
  "unneeded E D C s \<longleftrightarrow> D \<inter> set (emptyBucketsList s) = {} \<and>
     (\<forall>c. occupied (cache_of (memory s) c) \<noteq> 0 \<longrightarrow> cache_buckets (arch E) (cache_of (memory s) c) \<notin> D)"

definition cache_apart :: "cache_env \<Rightarrow> u64 set \<Rightarrow> cache_state \<Rightarrow> bool" where
  "cache_apart E C s \<longleftrightarrow> (\<forall>c d. c \<in> C \<longrightarrow> d \<notin> C \<longrightarrow> occupied (cache_of (memory s) c) \<noteq> 0 \<longrightarrow> occupied (cache_of (memory s) d) \<noteq> 0 \<longrightarrow>
     cache_buckets (arch E) (cache_of (memory s) c) \<noteq> cache_buckets (arch E) (cache_of (memory s) d))"

lemma garbage_unneeded:
  assumes O: "others_ok E good C X s A" and C: "\<And>c. c \<in> C \<Longrightarrow> occupied (cache_of (memory s) c) = 0"
  shows "unneeded E (set (garbage_refs s @ X)) C s" and "cache_apart E C s"
proof -
  note o = others_okD [OF O]
  have "cache_buckets (arch E) (cache_of (memory s) c) \<notin> set (garbage_refs s @ X)" if c: "occupied (cache_of (memory s) c) \<noteq> 0" for c
  proof -
    have "c \<notin> C" using C [of c] c by auto
    then have "snd (A c) \<noteq> Map.empty" using o(4) [of c] c by (auto simp: cls_ok_def cls_empty_def)
    then obtain b f g where *: "owned E good X s c b (fst (A c)) f g" using o(4) [OF \<open>c \<notin> C\<close>] by (auto simp: cls_ok_def cls_full_def)
    then show ?thesis using owned_buckets(1) [OF o(1) *] ownedD(7) by blast
  qed
  then show "unneeded E (set (garbage_refs s @ X)) C s" using o(3) by (auto simp: unneeded_def garbage_ok_def)
  show "cache_apart E C s" using C by (auto simp: cache_apart_def)
qed

lemma dispose_all_spec:
  assumes O: "others_ok E good C [] s A" and C: "\<And>c. c \<in> C \<Longrightarrow> occupied (cache_of (memory s) c) = 0"
  shows "\<exists>s'. dispose_all s = Some s' \<and> others_ok E good C [] s' A \<and> kept E (set (garbage_refs s)) s s' \<and> garbage_refs s' = [] \<and>
    history s' = history s @ No_readers # frees (garbage_refs s) s"
proof -
  note o = others_okD [OF O]
  let ?G = "garbage_refs s" and ?s0 = "emit No_readers s"
  have h: "heap_ok E ?s0" using o(1) by (simp add: heap_ok_def)
  have refs: "set ?G \<subseteq> fst ` set (blocks ?s0)" "distinct ?G" using o(3) by (force simp: garbage_ok_def)+
  obtain s1 where s1: "dispose_garbage ?G ?s0 = Some s1" "kept E (set ?G) ?s0 s1" "history s1 = history ?s0 @ frees ?G ?s0"
    "garbage_refs s1 = ?G" "garbage_max s1 = garbage_max s" "garbage_first s1 = garbage_first s"
    using dispose_garbage_spec [OF h refs] by auto
  let ?s' = "s1\<lparr>garbage_refs := [], garbage_byte_size := 0\<rparr>"
  let ?t = "s\<lparr>garbage_refs := []\<rparr>"
  have O0: "others_ok E good C [] ?t A"
    by (rule others_ok_shrink [OF O]) (use o(3) in \<open>auto simp: garbage_ok_def split: if_splits\<close>)
  have k: "kept E (set ?G) s ?s'" "kept E (set ?G) ?t ?s'" using s1(2) by (simp_all add: kept_def heap_ok_def)
  note u = garbage_unneeded [OF O C]
  have "others_ok E good C [] ?s' A"
    by (rule kept_frame [OF O0 k(2)]) (use u s1 in \<open>auto simp: unneeded_def cache_apart_def\<close>)
  moreover have "frees ?G ?s0 = frees ?G s" by (simp add: frees_def)
  ultimately show ?thesis using s1(1,3) k(1) by (simp add: dispose_all_def)
qed

text \<open>The events of a collection.\<close>

definition collected :: "u64 list \<Rightarrow> cache_state \<Rightarrow> cache_state \<Rightarrow> cache_event list \<Rightarrow> bool" where
  "collected refs s s' evs \<longleftrightarrow> (evs = [] \<and> garbage_refs s' = refs \<and> blocks s' = blocks s) \<or> (evs = No_readers # frees refs s \<and> garbage_refs s' = [])"

lemma collect_spec:
  assumes O: "others_ok E good C [] s A" and C: "\<And>c. c \<in> C \<Longrightarrow> occupied (cache_of (memory s) c) = 0"
  shows "\<exists>s' evs. collectNolock E False s = Some s' \<and> others_ok E good C [] s' A \<and> kept E (set (garbage_refs s)) s s' \<and>
    set (garbage_refs s') \<subseteq> set (garbage_refs s) \<and> history s' = history s @ evs \<and> collected (garbage_refs s) s s' evs"
proof -
  let ?s = "s\<lparr>checks := checks s + 1\<rparr>"
  have O': "others_ok E good C [] ?s A" by (rule others_ok_shrink [OF O]) (use others_okD(3) [OF O] in \<open>auto simp: garbage_ok_def\<close>)
  have k: "kept E (set (garbage_refs s)) s s" "kept E (set (garbage_refs s)) s ?s" using others_okD(1) [OF O] by (simp_all add: kept_def heap_ok_def)
  show ?thesis
  proof (cases "garbage_byte_size s < garbage_threshold \<or> readers_busy E (checks s)")
    case True
    then show ?thesis using O O' k by (auto simp: collectNolock_def collected_def)
  next
    case False
    obtain s' where s': "dispose_all ?s = Some s'" "others_ok E good C [] s' A" "kept E (set (garbage_refs ?s)) ?s s'" "garbage_refs s' = []"
      "history s' = history ?s @ No_readers # frees (garbage_refs ?s) ?s"
      using dispose_all_spec [OF O'] C by auto
    have "kept E (set (garbage_refs s)) s s'" using s'(3) by (simp add: kept_def)
    moreover have "frees (garbage_refs s) ?s = frees (garbage_refs s) s" by (simp add: frees_def)
    ultimately show ?thesis using False s' by (auto simp: collectNolock_def collected_def)
  qed
qed


lemma collect_free_spec:
  assumes O: "others_ok E good C [data] s A" and C: "\<And>c. c \<in> C \<Longrightarrow> occupied (cache_of (memory s) c) = 0"
  shows "\<exists>s' evs. collect_free E data cap s = Some s' \<and> others_ok E good C [] s' A \<and> kept E (set (garbage_refs s @ [data])) s s' \<and>
    set (garbage_refs s') \<subseteq> set (garbage_refs s @ [data]) \<and> history s' = history s @ evs \<and> collected (garbage_refs s @ [data]) s s' evs"
proof -
  note o = others_okD [OF O]
  let ?s1 = "(garbage_make_room s)\<lparr>garbage_byte_size := (garbage_byte_size (garbage_make_room s) + bytesForCapacity cap) mod 2 ^ 64\<rparr>"
  let ?s2 = "?s1\<lparr>garbage_refs := garbage_refs ?s1 @ [data]\<rparr>"
  have room: "garbage_refs ?s1 = garbage_refs s" "length (garbage_refs s) < garbage_max ?s1" "\<not> garbage_first ?s1"
    "memory ?s1 = memory s" "blocks ?s1 = blocks s" "emptyBucketsList ?s1 = emptyBucketsList s" "history ?s1 = history s"
    using o(3) by (auto simp: garbage_ok_def garbage_make_room_def INIT_GARBAGE_COUNT_def split: if_splits)
  have O2: "others_ok E good C [] ?s2 A"
    by (rule others_ok_shrink [OF O]) (use room o(3) in \<open>auto simp: garbage_ok_def\<close>)
  have C2: "\<And>c. c \<in> C \<Longrightarrow> occupied (cache_of (memory ?s2) c) = 0" using C room by simp
  obtain s' evs where s': "collectNolock E False ?s2 = Some s'" "others_ok E good C [] s' A" "kept E (set (garbage_refs ?s2)) ?s2 s'"
    "set (garbage_refs s') \<subseteq> set (garbage_refs ?s2)" "history s' = history ?s2 @ evs" "collected (garbage_refs ?s2) ?s2 s' evs"
    using collect_spec [OF O2 C2] by blast
  have "kept E (set (garbage_refs s @ [data])) s s'" using s'(3) room by (simp add: kept_def)
  moreover have "frees (garbage_refs s @ [data]) ?s2 = frees (garbage_refs s @ [data]) s" using room by (simp add: frees_def)
  then have "collected (garbage_refs s @ [data]) s s' evs" using s'(6) room by (simp add: collected_def)
  ultimately show ?thesis using s' room by (auto simp: collect_free_def Let_def)
qed

subsection \<open>New tables\<close>

lemma setBucketsAndMask_fields:
  assumes s': "s' = setBucketsAndMask E cls b (n - 1) s"
  shows "cache_at (arch E) (cache_of (memory s') cls) b n" "occupied (cache_of (memory s') cls) = 0"
    "bucket_at (memory s') = bucket_at (memory s)" "c \<noteq> cls \<Longrightarrow> cache_of (memory s') c = cache_of (memory s) c"
    "blocks s' = blocks s" "emptyBucketsList s' = emptyBucketsList s" "garbage_refs s' = garbage_refs s"
    "garbage_max s' = garbage_max s" "garbage_first s' = garbage_first s"
  by (simp_all add: s' setBucketsAndMask_def cache_at_def cache_word_def mask_outlined_def)

definition fresh_sel :: "cache_arch \<Rightarrow> nat \<Rightarrow> nat \<Rightarrow> u64" where
  "fresh_sel a n i = (if a = X86_64 \<and> i = n - 1 then 1 else 0)"

definition fresh_imp :: "cache_arch \<Rightarrow> u64 \<Rightarrow> nat \<Rightarrow> nat \<Rightarrow> u64" where
  "fresh_imp a b n i = (if a = X86_64 \<and> i = n - 1 then b else 0)"

lemma fresh_cells:
  shows "bucket_entries a n (fresh_sel a n) = {}" "cells_ok a n (fresh_sel a n)" "good_cells a good n (fresh_sel a n) g cls"
proof -
  show "bucket_entries a n (fresh_sel a n) = {}" by (auto simp: bucket_entries_def fresh_sel_def CACHE_END_MARKER_def)
  then show "cells_ok a n (fresh_sel a n)" "good_cells a good n (fresh_sel a n) g cls" by (simp_all add: cells_ok_def good_cells_def)
qed

lemma endMarker_slot: "0 < n \<Longrightarrow> endMarker b n = slot b (n - 1)"
  using slot_pred [of n b] by (simp add: endMarker_def bytesForCapacity_def slot_def)

text \<open>A new block, with all else as it was.\<close>

definition grown :: "cache_env \<Rightarrow> u64 \<Rightarrow> nat \<Rightarrow> cache_state \<Rightarrow> cache_state \<Rightarrow> bool" where
  "grown E b n s s' \<longleftrightarrow> heap_ok E s' \<and> blocks s' = (b, n) # blocks s \<and> b \<notin> fst ` set (blocks s) \<and> cache_of (memory s') = cache_of (memory s) \<and>
     (\<forall>p. p \<notin> bucket_slots b n \<longrightarrow> bucket_at (memory s') p = bucket_at (memory s) p) \<and>
     garbage_refs s' = garbage_refs s \<and> garbage_max s' = garbage_max s \<and> garbage_first s' = garbage_first s"


lemma grown_disjoint:
  assumes "grown E b n s s'"
  shows "(b', n') \<in> set (blocks s) \<Longrightarrow> (b', n') \<in> set (blocks s') \<and> (\<forall>p\<in>bucket_slots b' n'. bucket_at (memory s') p = bucket_at (memory s) p)"
    and "p \<in> bucket_slots (objc_empty_cache E) EMPTY_SLOTS \<Longrightarrow> bucket_at (memory s') p = bucket_at (memory s) p"
proof -
  have h: "heap_ok E s'" and b: "(b, n) \<in> set (blocks s')" and bl: "blocks s' = (b, n) # blocks s" "b \<notin> fst ` set (blocks s)"
    and out: "\<And>p. p \<notin> bucket_slots b n \<Longrightarrow> bucket_at (memory s') p = bucket_at (memory s) p" using assms by (auto simp: grown_def)
  show "p \<in> bucket_slots (objc_empty_cache E) EMPTY_SLOTS \<Longrightarrow> bucket_at (memory s') p = bucket_at (memory s) p"
    using out heap_okD(7) [OF h b] by blast
  assume b': "(b', n') \<in> set (blocks s)"
  then have "(b', n') \<in> set (blocks s')" "b' \<noteq> b" using bl by force+
  then show "(b', n') \<in> set (blocks s') \<and> (\<forall>p\<in>bucket_slots b' n'. bucket_at (memory s') p = bucket_at (memory s) p)"
    using heap_okD(8) [OF h b] out by blast
qed

lemma cache_allocateBuckets_spec:
  assumes h: "heap_ok E s" and c: "calloc_ok E N" "length (blocks s) < N" and n: "table_size n"
  obtains b s' where "cache_allocateBuckets E n s = Some (b, s')" "grown E b n s s'" "emptyBucketsList s' = emptyBucketsList s"
    "table_at (arch E) (memory s') b n (fresh_sel (arch E) n) (fresh_imp (arch E) b n)"
    "history s' = history s @ Alloc b n # (if arch E = X86_64 then [Store_imp (slot b (n - 1)) b, Store_sel (slot b (n - 1)) 1] else [])"
proof -
  note t = table_sizeD [OF n]
  obtain b s1 where s1: "calloc_buckets E n s = (b, s1)" "heap_ok E s1" "blocks s1 = (b, n) # blocks s" "history s1 = history s @ [Alloc b n]"
    "memory s1 = apply_event (Alloc b n) (memory s)" "block_ok (arch E) b n" "b \<notin> fst ` set (blocks s)"
    "emptyBucketsList s1 = emptyBucketsList s" "garbage_refs s1 = garbage_refs s" "garbage_max s1 = garbage_max s" "garbage_first s1 = garbage_first s"
    by (rule calloc_buckets_spec [OF h c, of n]) (use t in auto)
  let ?p = "slot b (n - 1)"
  have at: "bucket_at (memory s1) (slot b i) = Some empty_bucket" if "i < n" for i using s1(5) that by simp
  have inj: "slot b i = ?p \<longleftrightarrow> i = n - 1" if "i < n" for i using slot_inj [of i "n - 1" b] that t by auto
  have range: "16 \<le> unat b" "unat b + 16 * n \<le> 2 ^ 64" using s1(6) by (auto simp: block_ok_def addr_limit_def split: cache_arch.splits)
  show ?thesis
  proof (cases "arch E = X86_64")
    case True
    let ?s2 = "emit (Store_sel ?p 1) (emit (Store_imp ?p b) s1)"
    have set2: "bucket_at (memory ?s2) = (bucket_at (memory s1))(?p := Some \<lparr>bucket_sel = 1, bucket_imp = b\<rparr>)"
      using at [of "n - 1"] t by (simp add: empty_bucket_def fun_eq_iff)
    then have "grown E b n s ?s2" using s1(2,3,5,7,9-11) at [of "n - 1"] t
      by (auto simp: grown_def heap_ok_def bucket_slots_def)
    moreover have "table_at (arch E) (memory ?s2) b n (fresh_sel (arch E) n) (fresh_imp (arch E) b n)"
      unfolding table_at_def set2 using n range at inj True by (auto simp: fresh_sel_def fresh_imp_def empty_bucket_def)
    moreover have "cache_allocateBuckets E n s = Some (b, ?s2)"
      using s1(1) True at [of "n - 1"] t by (simp add: cache_allocateBuckets_def bucket_set_def load_bucket_def endMarker_slot)
    ultimately show ?thesis using that [of b ?s2] s1(4,8) True by simp
  next
    case False
    then have "table_at (arch E) (memory s1) b n (fresh_sel (arch E) n) (fresh_imp (arch E) b n)"
      unfolding table_at_def using n range at by (simp add: fresh_sel_def fresh_imp_def empty_bucket_def)
    moreover have "grown E b n s s1" using s1(2,3,5,7,9-11) by (simp add: grown_def bucket_slots_def)
    ultimately show ?thesis using that [of b s1] s1(1,4,8) False by (simp add: cache_allocateBuckets_def)
  qed
qed

end
