(* ===== verification/CacheTables.thy ===== *)
theory CacheTables
  imports CacheOps
begin

text \<open>Replacing the table of a class: reallocation, erasure, disposal.\<close>

lemma others_weaken: "others_ok E good C X s A \<Longrightarrow> C \<subseteq> D \<Longrightarrow> others_ok E good D X s A"
  by (auto simp: others_ok_def)

lemma caches_okD:
  assumes "caches_ok E good s A"
  shows "heap_ok E s" "empties_ok E s" "garbage_ok E good [] s"
    "snd (A c) = Map.empty \<Longrightarrow> cls_empty E s c (fst (A c))" "snd (A c) \<noteq> Map.empty \<Longrightarrow> cls_full E good [] s c (fst (A c)) (snd (A c))"
proof -
  have "cls_ok E good [] s c (A c)" using assms by (simp add: caches_ok_def others_ok_def)
  then show "snd (A c) = Map.empty \<Longrightarrow> cls_empty E s c (fst (A c))" "snd (A c) \<noteq> Map.empty \<Longrightarrow> cls_full E good [] s c (fst (A c)) (snd (A c))"
    by (simp_all add: cls_ok_def)
qed (use assms in \<open>simp_all add: caches_ok_def others_ok_def\<close>)

lemma full_cases:
  assumes "cls_full E good X s cls cap M"
  obtains b f g where "owned E good X s cls b cap f g" "bucket_entries (arch E) cap f \<noteq> {}"
    "room_ok (arch E) cap (card (bucket_entries (arch E) cap f))" "M = content (arch E) cap f g cls" "occupied (cache_of (memory s) cls) \<noteq> 0"
proof -
  obtain b f g where *: "owned E good X s cls b cap f g" "bucket_entries (arch E) cap f \<noteq> {}"
    "room_ok (arch E) cap (card (bucket_entries (arch E) cap f))" "M = content (arch E) cap f g cls"
    using assms by (auto simp: cls_full_def)
  then have "occupied (cache_of (memory s) cls) \<noteq> 0" using ownedD(6) [OF *(1)] by simp
  then show ?thesis using that * by blast
qed

text \<open>The table of a class is about to become garbage.\<close>

lemma release_table:
  assumes O: "others_ok E good {cls} [] s A" and w: "owned E good [] s cls b cap f g" and ne: "occupied (cache_of (memory s) cls) \<noteq> 0"
  shows "others_ok E good {cls} [b] s A"
proof -
  note o = others_okD [OF O] and d = ownedD [OF w]
  have "region_ok (arch E) good (memory s) b cap cls" using d(3,5) by (auto simp: region_ok_def)
  then have "garbage_ok E good [b] s" using o(3) d(1,7,8) by (auto simp: garbage_ok_def)
  moreover have "cls_ok E good [b] s c (A c)" if c: "c \<notin> {cls}" for c
  proof (cases "snd (A c) = Map.empty")
    case True
    then show ?thesis using o(4) [OF c] by (simp add: cls_ok_def)
  next
    case False
    then have "cls_full E good [] s c (fst (A c)) (snd (A c))" using o(4) [OF c] by (simp add: cls_ok_def)
    then obtain b' f' g' where *: "owned E good [] s c b' (fst (A c)) f' g'" "bucket_entries (arch E) (fst (A c)) f' \<noteq> {}"
      "room_ok (arch E) (fst (A c)) (card (bucket_entries (arch E) (fst (A c)) f'))" "snd (A c) = content (arch E) (fst (A c)) f' g' c"
      by (rule full_cases)
    have "b' \<noteq> b" using ownedD(9) [OF *(1), of cls] owned_buckets(1) [OF o(1) w] ne c by auto
    then have "owned E good [b] s c b' (fst (A c)) f' g'" using *(1) by (simp add: owned_def)
    then show ?thesis using False * by (auto simp: cls_ok_def cls_full_def)
  qed
  ultimately show ?thesis using o(1,2) by (simp add: others_ok_def)
qed

lemma release_class:
  assumes "caches_ok E good s A"
  obtains X where "others_ok E good {cls} X s A"
    "if snd (A cls) = Map.empty then X = [] else X = [cache_buckets (arch E) (cache_of (memory s) cls)]" "cache_apart E {cls} s"
proof -
  have O: "others_ok E good {cls} [] s A" using assms others_weaken [of E good "{}" "[]" s A "{cls}"] by (simp add: caches_ok_def)
  show ?thesis
  proof (cases "snd (A cls) = Map.empty")
    case True
    then have "occupied (cache_of (memory s) cls) = 0" using caches_okD(4) [OF assms] by (simp add: cls_empty_def)
    then show ?thesis using that O True by (simp add: cache_apart_def)
  next
    case False
    then have full: "cls_full E good [] s cls (fst (A cls)) (snd (A cls))" by (rule caches_okD(5) [OF assms])
    show ?thesis
    proof (rule full_cases [OF full])
      fix b f g assume w: "owned E good [] s cls b (fst (A cls)) f g" and ne: "occupied (cache_of (memory s) cls) \<noteq> 0"
      note bk = owned_buckets(1) [OF others_okD(1) [OF O] w]
      have "cache_apart E {cls} s" using ownedD(9) [OF w] bk by (metis cache_apart_def singletonD singletonI)
      then show ?thesis using that [OF release_table [OF O w ne]] False bk by simp
    qed
  qed
qed

text \<open>A new block, and a cache that points elsewhere.\<close>

lemma empties_grown:
  assumes "empties_ok E s" "grown E b n s s'" "emptyBucketsList s' = emptyBucketsList s"
  shows "empties_ok E s'"
  by (rule empties_frame [OF assms(1,3)]) (use grown_disjoint [OF assms(2)] in auto)

lemma grown_frame:
  assumes O: "others_ok E good C X s A" and gr: "grown E b n s s'" and el: "emptyBucketsList s' = emptyBucketsList s @ zs" "set zs \<subseteq> {b}"
    and em: "empties_ok E s'" and ap: "cache_apart E C s"
  shows "others_ok E good C X s' A"
proof (rule others_frame [OF O _ em el(1), where D = "{}"])
  have g: "cache_of (memory s') = cache_of (memory s)" "heap_ok E s'" "garbage_refs s' = garbage_refs s" "garbage_max s' = garbage_max s"
    "garbage_first s' = garbage_first s" "b \<notin> fst ` set (blocks s)" using gr by (auto simp: grown_def)
  then show "heap_ok E s'" "garbage_refs s' = garbage_refs s" "garbage_max s' = garbage_max s" "garbage_first s' = garbage_first s" by simp_all
  show "set zs \<inter> fst ` set (blocks s) = {}" using el(2) g(6) by blast
  show "(b', n') \<in> set (blocks s') \<and> (\<forall>p\<in>bucket_slots b' n'. bucket_at (memory s') p = bucket_at (memory s) p)" if "(b', n') \<in> set (blocks s)" for b' n'
    using grown_disjoint(1) [OF gr that] .
  show "cache_of (memory s') c = cache_of (memory s) c \<and> (occupied (cache_of (memory s) c) \<noteq> 0 \<longrightarrow> cache_buckets (arch E) (cache_of (memory s) c) \<notin> {})" for c
    using g(1) by simp
  show "cache_buckets (arch E) (cache_of (memory s') c) \<noteq> cache_buckets (arch E) (cache_of (memory s) d)"
    if "c \<in> C" "d \<notin> C" "occupied (cache_of (memory s') c) \<noteq> 0" "occupied (cache_of (memory s) d) \<noteq> 0" for c d
    using ap that g(1) by (simp add: cache_apart_def)
qed simp

lemma set_frame:
  assumes O: "others_ok E good {cls} X s A" and s': "s' = setBucketsAndMask E cls b (n - 1) s"
  shows "others_ok E good {cls} X s' A"
proof (rule others_frame [OF O, where zs = "[]" and D = "{}"])
  note f = setBucketsAndMask_fields [OF s'] and o = others_okD [OF O]
  show "heap_ok E s'" using o(1) f by (simp add: heap_ok_def)
  show "empties_ok E s'" using o(2) f by (simp add: empties_ok_def zero_at_def)
qed (use setBucketsAndMask_fields [OF s'] in auto)

lemma new_table_owned:
  assumes O: "others_ok E good {cls} X s A" and gr: "grown E b n s s1" and el: "emptyBucketsList s1 = emptyBucketsList s"
    and t: "table_at (arch E) (memory s1) b n (fresh_sel (arch E) n) (fresh_imp (arch E) b n)" and s': "s' = setBucketsAndMask E cls b (n - 1) s1"
  shows "owned E good X s' cls b n (fresh_sel (arch E) n) (fresh_imp (arch E) b n)"
proof -
  note o = others_okD [OF O] and f = setBucketsAndMask_fields [OF s']
  have g: "blocks s1 = (b, n) # blocks s" "b \<notin> fst ` set (blocks s)" "cache_of (memory s1) = cache_of (memory s)" "garbage_refs s1 = garbage_refs s"
    using gr by (auto simp: grown_def)
  have "set (garbage_refs s @ X) \<subseteq> fst ` set (blocks s)" using o(3) by (force simp: garbage_ok_def)
  moreover have "set (emptyBucketsList s) \<subseteq> fst ` set (blocks s)" using o(2) by (force simp: empties_ok_def in_set_conv_nth)
  moreover have "cache_buckets (arch E) (cache_of (memory s) c) \<noteq> b" if "c \<noteq> cls" "occupied (cache_of (memory s) c) \<noteq> 0" for c
  proof -
    have k: "cls_ok E good X s c (A c)" using o(4) that(1) by simp
    then have "snd (A c) \<noteq> Map.empty" using that(2) by (auto simp: cls_ok_def cls_empty_def)
    then obtain b' f' g' where "owned E good X s c b' (fst (A c)) f' g'" using k by (auto simp: cls_ok_def cls_full_def)
    then show ?thesis using owned_buckets(1) [OF o(1)] ownedD(1) g(2) by (metis fst_conv image_eqI)
  qed
  ultimately show ?thesis using t f el g by (auto simp: owned_def table_at_def fresh_cells)
qed


text \<open>What \<open>reallocate\<close> gives: an empty table of the new capacity.\<close>

definition renewed :: "cache_env \<Rightarrow> (u64 \<Rightarrow> u64 \<Rightarrow> u64 \<Rightarrow> bool) \<Rightarrow> u64 \<Rightarrow> nat \<Rightarrow> (u64 \<Rightarrow> nat \<times> (u64 \<Rightarrow> u64 option)) \<Rightarrow> cache_state \<Rightarrow> bool" where
  "renewed E good cls cap A s \<longleftrightarrow> others_ok E good {cls} [] s A \<and>
     (\<exists>b f g. owned E good [] s cls b cap f g \<and> bucket_entries (arch E) cap f = {})"

lemma reallocate_spec:
  assumes K: "caches_ok E good s A" and c: "calloc_ok E N" "length (blocks s) < N" and n: "table_size n"
    and old: "freeOld \<longleftrightarrow> snd (A cls) \<noteq> Map.empty"
  shows "\<exists>s'. reallocate E cls oldCap n freeOld s = Some s' \<and> renewed E good cls n A s' \<and> length (blocks s') \<le> Suc (length (blocks s))"
proof -
  obtain X where X: "others_ok E good {cls} X s A" "if snd (A cls) = Map.empty then X = [] else X = [cache_buckets (arch E) (cache_of (memory s) cls)]" "cache_apart E {cls} s"
    by (rule release_class [OF K])
  obtain b s1 where s1: "cache_allocateBuckets E n s = Some (b, s1)" "grown E b n s s1" "emptyBucketsList s1 = emptyBucketsList s"
    "table_at (arch E) (memory s1) b n (fresh_sel (arch E) n) (fresh_imp (arch E) b n)"
    by (rule cache_allocateBuckets_spec [OF others_okD(1) [OF X(1)] c n]) blast
  define s2 where s2: "s2 = setBucketsAndMask E cls b (n - 1) s1"
  have O2: "others_ok E good {cls} X s2 A" 
    by (rule set_frame [OF grown_frame [OF X(1) s1(2), of "[]"] s2]) (use s1(3) X(3) empties_grown [OF others_okD(2) [OF X(1)] s1(2)] in auto)
  have w2: "owned E good X s2 cls b n (fresh_sel (arch E) n) (fresh_imp (arch E) b n)" by (rule new_table_owned [OF X(1) s1(2-4) s2])
  have bl: "length (blocks s2) = Suc (length (blocks s))" using s1(2) setBucketsAndMask_fields(5) [OF s2] by (simp add: grown_def)
  note e = fresh_cells(1)
  have m: "u32_sub n 1 = n - 1" by (rule mask_of_size [OF n])
  show ?thesis
  proof (cases "snd (A cls) = Map.empty")
    case True
    then have "X = []" using X(2) by simp
    then have "renewed E good cls n A s2" using O2 w2 e unfolding renewed_def by blast
    then show ?thesis using s1(1) s2 m old True bl by (simp add: reallocate_def Let_def)
  next
    case False
    let ?d = "cache_buckets (arch E) (cache_of (memory s) cls)"
    have Xd: "X = [?d]" using X(2) False by simp
    have occ: "\<And>c. c \<in> {cls} \<Longrightarrow> occupied (cache_of (memory s2) c) = 0" using setBucketsAndMask_fields(2) [OF s2] by simp
    obtain s3 where s3: "collect_free E ?d oldCap s2 = Some s3" "others_ok E good {cls} [] s3 A" "kept E (set (garbage_refs s2 @ [?d])) s2 s3"
      "set (garbage_refs s3) \<subseteq> set (garbage_refs s2 @ [?d])"
      using collect_free_spec [OF O2 [unfolded Xd] occ] by blast
    have "owned E good [] s3 cls b n (fresh_sel (arch E) n) (fresh_imp (arch E) b n)"
      by (rule owned_kept [OF w2 s3(3)]) (use s3(4) ownedD(7) [OF w2] Xd in auto)
    then have "renewed E good cls n A s3" using s3(2) e unfolding renewed_def by blast
    moreover have "length (blocks s3) \<le> Suc (length (blocks s))" using s3(3) bl by (simp add: kept_def)
    ultimately show ?thesis using s1(1) s2 m old False s3(1) by (simp add: reallocate_def Let_def)
  qed
qed


subsection \<open>Erasure\<close>

lemma others_close:
  assumes "others_ok E good {cls} [] s A" and "cls_ok E good [] s cls v"
  shows "caches_ok E good s (A(cls := v))"
  using assms by (auto simp: caches_ok_def others_ok_def)

lemma log2u_power: "log2u (2 ^ k) = k"
proof (induction k)
  case (Suc k)
  have "log2u (2 ^ Suc k) = log2u (2 ^ k) + 1" by (subst log2u.simps) simp
  then show ?case using Suc.IH by simp
qed (simp add: log2u.simps)

lemma emptyBuckets_eq:
  assumes "heap_ok E s"
  shows "emptyBuckets E = objc_empty_cache E"
proof -
  note b = heap_okD(3) [OF assms]
  show ?thesis
  proof (rule bit_word_eqI)
    fix i assume "i < LENGTH(64)"
    then show "bit (emptyBuckets E) i = bit (objc_empty_cache E) i"
      using addr_bits [OF b, of i] not_less [of i "addr_width (arch E)"] by (auto simp: emptyBuckets_def bucketsMask_mask bit_and_iff bit_mask_iff EMPTY_SLOTS_def)
  qed
qed

lemma block_ok_mono: "block_ok a b n \<Longrightarrow> k \<le> n \<Longrightarrow> block_ok a b k"
  by (simp add: block_ok_def)

lemma table_size_power:
  assumes "table_size n"
  obtains k where "n = 2 ^ k" "k \<le> 16"
proof -
  obtain k where k: "n = 2 ^ k" using assms by (auto simp: table_size_def is_pow2_def)
  have "(2 :: nat) ^ k \<le> 2 ^ 16" using assms k by (simp add: table_size_def MAX_CACHE_SIZE_def)
  then have "k \<le> 16" by (rule power_le_imp_le_exp [rotated]) simp
  then show ?thesis using that k by blast
qed

text \<open>The shared empty buckets suffice for the capacity they are used for.\<close>

lemma empty_for_zero:
  assumes h: "heap_ok E s" and em: "empties_ok E s" and e: "empty_for E s cap b" and cap: "cap = 0 \<or> table_size cap"
  shows "block_ok (arch E) b (max 1 cap)" "zero_at (memory s) b (max 1 cap)" "cap = 0 \<Longrightarrow> b = objc_empty_cache E"
proof -
  have "\<exists>n\<ge>max 1 cap. block_ok (arch E) b n \<and> zero_at (memory s) b n"
  proof (cases "bytesForCapacity cap \<le> EMPTY_BYTES")
    case True
    then have "b = objc_empty_cache E" "cap \<le> EMPTY_SLOTS" using e emptyBuckets_eq [OF h]
      by (auto simp: empty_for_eq bytesForCapacity_def EMPTY_BYTES_def EMPTY_SLOTS_def)
    then show ?thesis using heap_okD(3) [OF h] em by (auto simp: empties_ok_def EMPTY_SLOTS_def intro!: exI [of _ 1025])
  next
    case False
    then have i: "log2u cap < length (emptyBucketsList s)" "b = emptyBucketsList s ! log2u cap" using e by (auto simp: empty_for_eq)
    have "cap \<noteq> 0" using False by (auto simp: bytesForCapacity_def)
    then obtain k where "cap = 2 ^ k" using cap table_size_power by blast
    moreover obtain n where "(b, n) \<in> set (blocks s)" "2 ^ log2u cap \<le> n" "zero_at (memory s) b n" using em i by (auto simp: empties_ok_def)
    ultimately show ?thesis using heap_okD(4) [OF h] \<open>cap \<noteq> 0\<close> by (auto simp: log2u_power intro!: exI [of _ n])
  qed
  then show "block_ok (arch E) b (max 1 cap)" "zero_at (memory s) b (max 1 cap)" using block_ok_mono by (auto simp: zero_at_def)
  show "b = objc_empty_cache E" if "cap = 0"
    using e that emptyBuckets_eq [OF h] by (simp add: empty_for_eq bytesForCapacity_def)
qed


lemma emptyBucketsForCapacity_spec:
  assumes O: "others_ok E good C X s A" and c: "calloc_ok E N" "length (blocks s) < N" and n: "table_size cap" and ap: "cache_apart E C s"
  obtains b s' where "emptyBucketsForCapacity E cap True s = (Some b, s')" "others_ok E good C X s' A" "empty_for E s' cap b"
    "cache_of (memory s') = cache_of (memory s)" "length (blocks s') \<le> Suc (length (blocks s))"
    "s' = s \<or> (grown E b cap s s' \<and> history s' = history s @ [Alloc b cap] \<and> (\<exists>k. emptyBucketsList s' = emptyBucketsList s @ replicate k b))"
proof (cases "bytesForCapacity cap \<le> EMPTY_BYTES \<or> log2u cap < length (emptyBucketsList s)")
  case True
  show ?thesis
    by (rule that [of "if bytesForCapacity cap \<le> EMPTY_BYTES then emptyBuckets E else emptyBucketsList s ! log2u cap" s])
      (use True O in \<open>auto simp: emptyBucketsForCapacity_def empty_for_eq Let_def\<close>)
next
  case False
  note o = others_okD [OF O]
  let ?l = "emptyBucketsList s"
  obtain k where k: "cap = 2 ^ k" using table_size_power [OF n] by blast
  obtain b s1 where s1: "calloc_buckets E cap s = (b, s1)" "heap_ok E s1" "blocks s1 = (b, cap) # blocks s" "history s1 = history s @ [Alloc b cap]"
    "memory s1 = apply_event (Alloc b cap) (memory s)" "b \<notin> fst ` set (blocks s)"
    "emptyBucketsList s1 = ?l" "garbage_refs s1 = garbage_refs s" "garbage_max s1 = garbage_max s" "garbage_first s1 = garbage_first s"
    by (rule calloc_buckets_spec [OF o(1) c, of cap]) (use table_sizeD [OF n] in auto)
  let ?zs = "replicate (log2u cap + 1 - length ?l) b"
  let ?s2 = "s1\<lparr>emptyBucketsList := ?l @ ?zs\<rparr>"
  have gr: "grown E b cap s ?s2" "grown E b cap s s1" using s1 by (auto simp: grown_def heap_ok_def bucket_slots_def)
  have e1: "empties_ok E s1" by (rule empties_grown [OF o(2) gr(2) s1(7)])
  have z: "zero_at (memory s1) b cap" using s1(5) by (simp add: zero_at_def)
  have "\<exists>n. ((?l @ ?zs) ! i, n) \<in> set (blocks s1) \<and> 2 ^ i \<le> n \<and> zero_at (memory s1) ((?l @ ?zs) ! i) n" if "i < length (?l @ ?zs)" for i
  proof (cases "i < length ?l")
    case True
    then show ?thesis using e1 s1(7) by (auto simp: empties_ok_def nth_append)
  next
    case False
    then have "(2 :: nat) ^ i \<le> 2 ^ k" using that by (intro power_increasing) (auto simp: k log2u_power)
    then show ?thesis using False that z s1(3) k by (auto simp: nth_append)
  qed
  then have "empties_ok E ?s2" using e1 by (auto simp: empties_ok_def)
  then have "others_ok E good C X ?s2 A" by (intro grown_frame [OF O gr(1) _ _ _ ap, of ?zs]) auto
  moreover have "emptyBucketsForCapacity E cap True s = (Some b, ?s2)" "empty_for E ?s2 cap b" using False s1(1,7)
    by (auto simp: emptyBucketsForCapacity_def empty_for_eq Let_def nth_append)
  moreover have "cache_of (memory ?s2) = cache_of (memory s)" "length (blocks ?s2) \<le> Suc (length (blocks s))" using gr(1) s1(3) by (simp_all add: grown_def)
  moreover have "grown E b cap s ?s2 \<and> history ?s2 = history s @ [Alloc b cap] \<and> (\<exists>k. emptyBucketsList ?s2 = ?l @ replicate k b)" using gr(1) s1(4) by auto
  ultimately show ?thesis using that [of b ?s2] by blast
qed

lemma not_optimized:
  assumes "cache_at (arch E) (cache_of (memory s) cls) b n" "block_ok (arch E) b n" "0 < n" "n \<le> 65536" "n = 1 \<Longrightarrow> b = objc_empty_cache E"
  shows "\<not> isConstantOptimizedCache E strict cls s"
proof -
  note f = cache_at_fields [OF assms(1-4)]
  have "\<not> bit (bucketsAndMaybeMask (cache_of (memory s) cls)) 0" using assms(1) cache_word_fields(5) [OF assms(2-4)] by (simp add: cache_at_def)
  moreover have "bucketsAndMaybeMask (cache_of (memory s) cls) = b" if "n = 1" using assms(1) that by (simp add: cache_at_def cache_word_def)
  ultimately show ?thesis using f(1) assms(3,5) by (auto simp: isConstantOptimizedCache_def Let_def)
qed

lemma ok_not_optimized:
  assumes K: "caches_ok E good s A"
  shows "\<not> isConstantOptimizedCache E strict cls s"
proof (cases "snd (A cls) = Map.empty")
  case True
  then obtain b where b: "empty_for E s (fst (A cls)) b" "cache_at (arch E) (cache_of (memory s) cls) b (max 1 (fst (A cls)))" "fst (A cls) = 0 \<or> table_size (fst (A cls))"
    using caches_okD(4) [OF K] by (auto simp: cls_empty_def)
  note z = empty_for_zero [OF caches_okD(1,2) [OF K] b(1,3)]
  show ?thesis by (rule not_optimized [OF b(2) z(1)]) (use b(3) z(3) table_sizeD [of "fst (A cls)"] in auto)
next
  case False
  show ?thesis
  proof (rule full_cases [OF caches_okD(5) [OF K False]])
    fix b f g assume w: "owned E good [] s cls b (fst (A cls)) f g"
    show ?thesis by (rule not_optimized [OF ownedD(2) [OF w] heap_okD(4-6) [OF caches_okD(1) [OF K] ownedD(1) [OF w]]])
      (use table_atD(2) [OF ownedD(3) [OF w]] in auto)
  qed
qed

lemma full_size:
  assumes h: "heap_ok E s" and "cls_full E good [] s cls cap M"
  shows "capacity (arch E) (cache_of (memory s) cls) = cap" "occupied (cache_of (memory s) cls) \<noteq> 0" "table_size cap" "INIT_CACHE_SIZE (arch E) \<le> cap"
proof -
  obtain b f g where w: "owned E good [] s cls b cap f g" "bucket_entries (arch E) cap f \<noteq> {}" "room_ok (arch E) cap (card (bucket_entries (arch E) cap f))"
    "occupied (cache_of (memory s) cls) \<noteq> 0" by (rule full_cases [OF assms(2)])
  show n: "table_size cap" using table_atD(1) [OF ownedD(3) [OF w(1)]] .
  show "capacity (arch E) (cache_of (memory s) cls) = cap" by (rule owned_buckets(3) [OF h w(1)])
  show "occupied (cache_of (memory s) cls) \<noteq> 0" by (rule w(4))
  obtain k where k: "cap = 2 ^ k" using table_size_power [OF n] by blast
  have "cap = 2 \<or> 4 \<le> cap"
  proof (cases "k \<le> 1")
    case True
    then have "k = 0 \<or> k = 1" by auto
    then show ?thesis using k table_sizeD [OF n] by auto
  next
    case False
    then show ?thesis using k power_increasing [of 2 k "2 :: nat"] by simp
  qed
  moreover have "0 < card (bucket_entries (arch E) cap f)" using w(2) by (simp add: card_gt_0_iff)
  ultimately show "INIT_CACHE_SIZE (arch E) \<le> cap" using w(3) table_sizeD [OF n]
    by (auto simp: INIT_CACHE_SIZE_def room_ok_def cache_fill_ratio_def u32_id CACHE_ALLOW_FULL_UTILIZATION_def)
qed

lemma eraseNolock_spec:
  assumes K: "caches_ok E good s A" and c: "calloc_ok E N" "length (blocks s) < N"
  shows "\<exists>s'. eraseNolock E cls s = Some s' \<and> caches_ok E good s' (A(cls := (fst (A cls), Map.empty))) \<and> length (blocks s') \<le> Suc (length (blocks s))"
proof (cases "snd (A cls) = Map.empty")
  case True
  then have "occupied (cache_of (memory s) cls) = 0" using caches_okD(4) [OF K] by (simp add: cls_empty_def)
  moreover have "A(cls := (fst (A cls), Map.empty)) = A" using True by (metis fun_upd_triv prod.collapse)
  ultimately show ?thesis using K ok_not_optimized [OF K] by (simp add: eraseNolock_def)
next
  case False
  let ?d = "cache_buckets (arch E) (cache_of (memory s) cls)" and ?cap = "fst (A cls)"
  note full = full_size [OF caches_okD(1) [OF K] caches_okD(5) [OF K False]]
  obtain X where X: "others_ok E good {cls} X s A" "X = [?d]" "cache_apart E {cls} s" by (rule release_class [OF K, of cls]) (use False in simp)
  obtain b s1 where s1: "emptyBucketsForCapacity E ?cap True s = (Some b, s1)" "others_ok E good {cls} [?d] s1 A" "empty_for E s1 ?cap b"
    "cache_of (memory s1) = cache_of (memory s)" "length (blocks s1) \<le> Suc (length (blocks s))"
    by (rule emptyBucketsForCapacity_spec [OF X(1) c full(3) X(3)]) (use X(2) in blast)
  define s2 where s2: "s2 = setBucketsAndMask E cls b (?cap - 1) s1"
  note f = setBucketsAndMask_fields [OF s2]
  obtain s3 where s3: "collect_free E ?d ?cap s2 = Some s3" "others_ok E good {cls} [] s3 A" "kept E (set (garbage_refs s2 @ [?d])) s2 s3"
    using collect_free_spec [OF set_frame [OF s1(2) s2], of ?cap] f(2) by blast
  have "2 \<le> ?cap" using table_sizeD [OF full(3)] by simp
  moreover have "empty_for E s3 ?cap b" "cache_of (memory s3) = cache_of (memory s2)" using s1(3) s3(3) f(6) by (simp_all add: empty_for_eq kept_def)
  ultimately have "cls_empty E s3 cls ?cap" using f(1,2) full(3,4) by (auto simp: cls_empty_def max_def)
  then have "caches_ok E good s3 (A(cls := (?cap, Map.empty)))" by (intro others_close [OF s3(2)]) (simp add: cls_ok_def)
  moreover have "length (blocks s3) \<le> Suc (length (blocks s))" using s3(3) s1(5) f(5) by (simp add: kept_def)
  moreover have "eraseNolock E cls s = Some s3"
    using ok_not_optimized [OF K] full s1(1) s2 s3(1) mask_of_size [OF full(3)] by (simp add: eraseNolock_def Let_def)
  ultimately show ?thesis by blast
qed

end
