(* ===== verification/CacheInsert.thy ===== *)
theory CacheInsert
  imports CacheTables
begin

text \<open>Insertion of an implementation into the cache of a class.\<close>

subsection \<open>Cells\<close>

lemma content_entry:
  assumes "cells_ok a n f" "i \<in> bucket_entries a n f"
  shows "content a n f g cls (f i) = Some (decodeImp (g i) cls)"
  using assms by (simp add: content_def cells_ok_def inv_into_f_f)

lemma content_none: "sel \<notin> f ` bucket_entries a n f \<Longrightarrow> content a n f g cls sel = None"
  by (simp add: content_def)

lemma content_dom: "dom (content a n f g cls) = f ` bucket_entries a n f"
  by (auto simp: content_def dom_def split: if_splits)

lemma content_empty: "bucket_entries a n f = {} \<Longrightarrow> content a n f g cls = Map.empty"
  by (simp add: content_def fun_eq_iff)

lemma decode_encodeImp:
  assumes "imp \<noteq> 0" "imp \<noteq> cls"
  shows "decodeImp (encodeImp imp cls) cls = imp"
proof -
  have "(imp XOR cls) XOR cls = imp" by (simp add: xor.assoc)
  moreover have "imp XOR cls \<noteq> 0" using calculation assms(2) by auto
  ultimately show ?thesis using assms by (simp add: decodeImp_def encodeImp_def)
qed

lemma insert_cells:
  assumes c: "cells_ok a n f" and sel: "sel \<noteq> 0" "sel \<noteq> 1" "sel \<notin> f ` bucket_entries a n f"
    and h: "h = cache_hash a sel (n - 1)" "h < n" and k: "k < n" "f (pos a n h k) = 0" "\<forall>j<k. f (pos a n h j) \<noteq> 0"
    and p: "p = pos a n h k" "p < n - CACHE_END_MARKER a"
  shows "bucket_entries a n (f(p := sel)) = insert p (bucket_entries a n f)" "p \<notin> bucket_entries a n f" "cells_ok a n (f(p := sel))"
    "content a n (f(p := sel)) (g(p := v)) cls = (content a n f g cls)(sel \<mapsto> decodeImp v cls)"
proof -
  let ?f = "f(p := sel)"
  show e: "bucket_entries a n ?f = insert p (bucket_entries a n f)" using p sel by (auto simp: bucket_entries_def)
  show out: "p \<notin> bucket_entries a n f" using k p by (simp add: bucket_entries_def)
  have old: "?f i = f i" if "i \<in> bucket_entries a n f" for i using that out by auto
  have some: "?f i \<noteq> 0" if "f i \<noteq> 0" for i using that sel by simp
  have "inj_on ?f (insert p (bucket_entries a n f))" using c sel(3) out old by (auto simp: cells_ok_def inj_on_def image_iff)
  moreover have "?f i \<noteq> 1" if "i \<in> insert p (bucket_entries a n f)" for i using that c old sel(2) by (auto simp: cells_ok_def)
  moreover have "?f (pos a n (cache_hash a (?f i) (n - 1)) j) \<noteq> 0"
    if i: "i \<in> insert p (bucket_entries a n f)" and m: "m < n" "pos a n (cache_hash a (?f i) (n - 1)) m = i" "j < m" for i m j
  proof (cases "i = p")
    case True
    then have "m = k" using m(1,2) pos_inj [OF h(2) m(1) k(1)] p h(1) by simp
    then show ?thesis using True k(3) m(3) h(1) some by simp
  next
    case False
    then show ?thesis using c i m old some by (auto simp: cells_ok_def)
  qed
  ultimately show ok: "cells_ok a n ?f" unfolding cells_ok_def e by blast
  show "content a n ?f (g(p := v)) cls = (content a n f g cls)(sel \<mapsto> decodeImp v cls)"
  proof
    fix x
    consider "x = sel" | i where "i \<in> bucket_entries a n f" "x = f i" "x \<noteq> sel" | "x \<noteq> sel" "x \<notin> f ` bucket_entries a n f" by blast
    then show "content a n ?f (g(p := v)) cls x = ((content a n f g cls)(sel \<mapsto> decodeImp v cls)) x"
    proof cases
      case 1
      then show ?thesis using content_entry [OF ok, of p "g(p := v)" cls] e by simp
    next
      case 2
      then have "i \<noteq> p" using out by blast
      then show ?thesis using content_entry [OF ok, of i "g(p := v)" cls] content_entry [OF c 2(1), of g cls] e 2 by simp
    next
      case 3
      then have "x \<notin> ?f ` bucket_entries a n ?f" using old e by auto
      then show ?thesis using 3 by (simp add: content_none)
    qed
  qed
qed

lemma fill_ratio_le: "table_size n \<Longrightarrow> cache_fill_ratio a n \<le> n"
  using table_sizeD [of n] by (auto simp: cache_fill_ratio_def u32_id)

lemma free_cell:
  assumes "table_size n" and "room_ok a n (card (bucket_entries a n f) + 1)"
  shows "\<exists>i<n. f i = 0"
proof (rule ccontr)
  assume "\<not> ?thesis"
  then have "bucket_entries a n f = {..<n - CACHE_END_MARKER a}" by (auto simp: bucket_entries_def)
  moreover have "card (bucket_entries a n f) + 1 + CACHE_END_MARKER a \<le> n" using assms fill_ratio_le [OF assms(1), of a] by (auto simp: room_ok_def)
  ultimately show False by simp
qed


subsection \<open>Writing a bucket\<close>

text \<open>One bucket of the table of a class changes, and the count of its entries.\<close>

lemma write_frame:
  assumes O: "others_ok E good {cls} [] s A" and w: "owned E good [] s cls b cap f g" and p: "p \<in> bucket_slots b cap"
    and s': "bucket_at (memory s') = (bucket_at (memory s))(p := Some bk)" "cache_of (memory s') = (cache_of (memory s))(cls := (cache_of (memory s) cls)\<lparr>occupied := k\<rparr>)"
    and same: "blocks s' = blocks s" "emptyBucketsList s' = emptyBucketsList s" "garbage_refs s' = garbage_refs s" "garbage_max s' = garbage_max s" "garbage_first s' = garbage_first s"
  shows "others_ok E good {cls} [] s' A"
proof (rule others_frame [OF O, where zs = "[]" and D = "{b}"])
  note o = others_okD [OF O] and d = ownedD [OF w]
  have bk: "cache_buckets (arch E) (cache_of (memory s') cls) = b" using owned_buckets(1) [OF o(1) w] s'(2) by (simp add: cache_buckets_def)
  have "bucket_at (memory s) p \<noteq> None" using heap_okD(1) [OF o(1), of p] p d(1) by blast
  then show "heap_ok E s'" using o(1) unfolding heap_ok_def s'(1) same(1) by simp
  show keep: "(b', n') \<in> set (blocks s') \<and> (\<forall>q\<in>bucket_slots b' n'. bucket_at (memory s') q = bucket_at (memory s) q)"
    if "(b', n') \<in> set (blocks s)" "b' \<notin> {b}" for b' n'
    using that same(1) heap_okD(8) [OF o(1) that(1) d(1)] p by (auto simp: s'(1))
  have "bucket_at (memory s') q = bucket_at (memory s) q" if "q \<in> bucket_slots (objc_empty_cache E) EMPTY_SLOTS" for q
    using heap_okD(7) [OF o(1) d(1)] p that by (auto simp: s'(1))
  then show "empties_ok E s'" using empties_frame [OF o(2) same(2)] keep d(8) by auto
  show "cache_of (memory s') c = cache_of (memory s) c \<and> (occupied (cache_of (memory s) c) \<noteq> 0 \<longrightarrow> cache_buckets (arch E) (cache_of (memory s) c) \<notin> {b})"
    if "c \<notin> {cls}" for c using that s'(2) d(9) [of c] by simp
  show "cache_buckets (arch E) (cache_of (memory s') c) \<noteq> cache_buckets (arch E) (cache_of (memory s) d')"
    if "c \<in> {cls}" "d' \<notin> {cls}" "occupied (cache_of (memory s) d') \<noteq> 0" for c d' using that bk d(9) [of d'] by auto
  show "{b} \<inter> set (garbage_refs s @ []) = {}" using d(7) by simp
qed (use same in auto)

lemma bucket_set_events:
  assumes "bucket_at (memory s) p = Some bk" "bucket_sel bk \<noteq> sel"
  shows "\<exists>s'. bucket_set E True True p sel imp cls (incrementOccupied cls s) = Some s' \<and>
    bucket_at (memory s') = (bucket_at (memory s))(p := Some \<lparr>bucket_sel = sel, bucket_imp = encodeImp imp cls\<rparr>) \<and>
    cache_of (memory s') = (cache_of (memory s))(cls := (cache_of (memory s) cls)\<lparr>occupied := (occupied (cache_of (memory s) cls) + 1) mod 2 ^ 16\<rparr>) \<and>
    blocks s' = blocks s \<and> emptyBucketsList s' = emptyBucketsList s \<and> garbage_refs s' = garbage_refs s \<and> garbage_max s' = garbage_max s \<and> garbage_first s' = garbage_first s"
  using assms by (auto simp: bucket_set_def load_bucket_def incrementOccupied_def Let_def)


lemma room_ok_less: "room_ok a n (Suc k) \<Longrightarrow> room_ok a n k"
  by (auto simp: room_ok_def)

lemma card_entries_less:
  assumes "table_size n"
  shows "room_ok a n k \<Longrightarrow> k \<le> 65536" and "room_ok a n k \<Longrightarrow> k < 2 ^ 16"
proof -
  note t = table_sizeD [OF assms]
  assume r: "room_ok a n k"
  then have "k \<le> n * 7 div 8 \<or> k \<le> 8" using t by (auto simp: room_ok_def cache_fill_ratio_def u32_id FULL_UTILIZATION_CACHE_SIZE_def split: if_splits)
  then show "k \<le> 65536" "k < 2 ^ 16" using t by auto
qed

text \<open>A free cell with all cells before it in use takes the new entry.\<close>

lemma write_entry:
  assumes O: "others_ok E good {cls} [] s A" and w: "owned E good [] s cls b cap f g" and room: "room_ok (arch E) cap (card (bucket_entries (arch E) cap f) + 1)"
    and sel: "sel \<noteq> 0" "sel \<noteq> 1" "sel \<notin> f ` bucket_entries (arch E) cap f" and imp: "imp \<noteq> 0" "imp \<noteq> cls" "good cls sel imp"
    and h: "h = cache_hash (arch E) sel (cap - 1)"
    and k: "k < cap" "f (pos (arch E) cap h k) = 0" "\<forall>j<k. f (pos (arch E) cap h j) \<noteq> 0" and p: "p = pos (arch E) cap h k"
  shows "\<exists>s'. bucket_set E True True (slot b p) sel imp cls (incrementOccupied cls s) = Some s' \<and> others_ok E good {cls} [] s' A \<and>
    owned E good [] s' cls b cap (f(p := sel)) (g(p := encodeImp imp cls)) \<and> blocks s' = blocks s \<and> p < cap - CACHE_END_MARKER (arch E)"
proof -
  let ?a = "arch E" and ?f = "f(p := sel)" and ?g = "g(p := encodeImp imp cls)"
  note d = ownedD [OF w]
  note n = table_atD(1) [OF d(3)]
  have hn: "h < cap" using cache_hash_less [OF n] h by simp
  have pn: "p < cap" using pos_less [OF hn k(1)] p by simp
  have pe: "p < cap - CACHE_END_MARKER ?a" using pn table_atD(6) [OF d(3)] k(2) p by (cases "?a = X86_64"; cases "p = cap - 1") auto
  have "bucket_at (memory s) (slot b p) = Some \<lparr>bucket_sel = f p, bucket_imp = g p\<rparr>" by (rule table_atD(5) [OF d(3) pn])
  from bucket_set_events [OF this, of sel E imp cls] obtain s' where
    s': "bucket_set E True True (slot b p) sel imp cls (incrementOccupied cls s) = Some s'"
      "bucket_at (memory s') = (bucket_at (memory s))(slot b p := Some \<lparr>bucket_sel = sel, bucket_imp = encodeImp imp cls\<rparr>)"
      "cache_of (memory s') = (cache_of (memory s))(cls := (cache_of (memory s) cls)\<lparr>occupied := (occupied (cache_of (memory s) cls) + 1) mod 2 ^ 16\<rparr>)"
      "blocks s' = blocks s" "emptyBucketsList s' = emptyBucketsList s" "garbage_refs s' = garbage_refs s" "garbage_max s' = garbage_max s" "garbage_first s' = garbage_first s"
    using k(2) p sel(1) by auto
  have O': "others_ok E good {cls} [] s' A" by (rule write_frame [OF O w _ s'(2-8)]) (simp add: pn)
  note c = insert_cells [OF d(4) sel h hn k p pe]
  have inj: "slot b i = slot b p \<longleftrightarrow> i = p" if "i < cap" for i using slot_inj [of i p b] that pn table_sizeD [OF n] by simp
  have "table_at ?a (memory s') b cap ?f ?g" using d(3) pe unfolding table_at_def s'(2) by (auto simp: inj)
  moreover have "(occupied (cache_of (memory s) cls) + 1) mod 2 ^ 16 = card (bucket_entries ?a cap ?f)"
    using d(6) c(1,2) card_entries_less(2) [OF n room] by simp
  moreover have "good_cells ?a good cap ?f ?g cls" using d(5) c(1,2) decode_encodeImp [OF imp(1,2)] imp sel by (auto simp: good_cells_def)
  ultimately have "owned E good [] s' cls b cap ?f ?g" unfolding owned_def using d c(3) s'(3-8) by (simp add: cache_at_def)
  then show ?thesis using s'(1,4) O' pe by blast
qed

lemma insert_into:
  assumes O: "others_ok E good {cls} [] s A" and w: "owned E good [] s cls b cap f g" and room: "room_ok (arch E) cap (card (bucket_entries (arch E) cap f) + 1)"
    and sel: "sel \<noteq> 0" "sel \<noteq> 1" and imp: "imp \<noteq> 0" "imp \<noteq> cls" "good cls sel imp"
    and M: "M = content (arch E) cap f g cls"
  shows "\<exists>s'. insert_scan E b (cap - 1) (cache_hash (arch E) sel (cap - 1)) (cache_hash (arch E) sel (cap - 1)) sel imp cls s = Some s' \<and>
    caches_ok E good s' (A(cls := (cap, if sel \<in> dom M then M else M(sel \<mapsto> imp)))) \<and> blocks s' = blocks s"
proof -
  let ?a = "arch E" and ?h = "cache_hash (arch E) sel (cap - 1)"
  note d = ownedD [OF w]
  note n = table_atD(1) [OF d(3)]
  note spec = insert_scan_spec [OF d(3,4) sel refl free_cell [OF n room], of imp cls]
  have dm: "sel \<in> dom M \<longleftrightarrow> sel \<in> f ` bucket_entries ?a cap f" using M content_dom by metis
  show ?thesis
  proof (cases "sel \<in> f ` bucket_entries ?a cap f")
    case True
    have "room_ok ?a cap (card (bucket_entries ?a cap f))" using room_ok_less room by simp
    then have "cls_full E good [] s cls cap M" using w M True unfolding cls_full_def by blast
    moreover have "M \<noteq> Map.empty" using True dm by auto
    ultimately have "caches_ok E good s (A(cls := (cap, M)))" by (intro others_close [OF O]) (simp add: cls_ok_def)
    then show ?thesis using spec(1) [OF True] True dm by auto
  next
    case False
    then obtain k where k: "k < cap" "f (pos ?a cap ?h k) = 0" "\<forall>j<k. f (pos ?a cap ?h j) \<noteq> 0"
      and run: "insert_scan E b (cap - 1) ?h ?h sel imp cls s = bucket_set E True True (slot b (pos ?a cap ?h k)) sel imp cls (incrementOccupied cls s)"
      using spec(2) by blast
    define p where p: "p = pos ?a cap ?h k"
    let ?f = "f(p := sel)" and ?g = "g(p := encodeImp imp cls)"
    obtain s' where s': "bucket_set E True True (slot b p) sel imp cls (incrementOccupied cls s) = Some s'" "others_ok E good {cls} [] s' A"
      "owned E good [] s' cls b cap ?f ?g" "blocks s' = blocks s" "p < cap - CACHE_END_MARKER ?a"
      using write_entry [OF O w room sel False imp refl k p] by blast
    note c = insert_cells [OF d(4) sel False refl cache_hash_less [OF n] k p s'(5)]
    have "room_ok ?a cap (card (bucket_entries ?a cap ?f))" using c(1,2) room by simp
    then have "cls_full E good [] s' cls cap (content ?a cap ?f ?g cls)" using s'(3) c(1) unfolding cls_full_def by blast
    moreover have "content ?a cap ?f ?g cls = M(sel \<mapsto> imp)" using c(4) decode_encodeImp [OF imp(1,2)] M by simp
    ultimately have "caches_ok E good s' (A(cls := (cap, M(sel \<mapsto> imp))))" by (intro others_close [OF s'(2)]) (simp add: cls_ok_def)
    then show ?thesis using run s'(1,4) p False dm by auto
  qed
qed


subsection \<open>The growth of a cache\<close>

lemma room_init: "table_size n \<Longrightarrow> INIT_CACHE_SIZE a \<le> n \<Longrightarrow> room_ok a n 1"
  using table_sizeD [of n] by (auto simp: room_ok_def INIT_CACHE_SIZE_def cache_fill_ratio_def u32_id CACHE_END_MARKER_def split: if_splits)

lemma init_size: "table_size (INIT_CACHE_SIZE a)"
  using is_pow2_power [of 1] by (simp add: table_size_def INIT_CACHE_SIZE_def MAX_CACHE_SIZE_def)

lemma double_size: "table_size n \<Longrightarrow> table_size (min (2 * n) MAX_CACHE_SIZE)"
  using is_pow2_double [of n] is_pow2_power [of 16] by (auto simp: table_size_def MAX_CACHE_SIZE_def min_def mult.commute)

text \<open>What an insertion does to the capacity and the content of a cache.\<close>

definition map_insert :: "cache_arch \<Rightarrow> u64 \<Rightarrow> u64 \<Rightarrow> nat \<times> (u64 \<Rightarrow> u64 option) \<Rightarrow> nat \<times> (u64 \<Rightarrow> u64 option)" where
  "map_insert a sel imp v = (let (cap, M) = v in
     if M = Map.empty then (if cap = 0 then INIT_CACHE_SIZE a else cap, [sel \<mapsto> imp])
     else if room_ok a cap (card (dom M) + 1) then (cap, if sel \<in> dom M then M else M(sel \<mapsto> imp))
     else (min (2 * cap) MAX_CACHE_SIZE, [sel \<mapsto> imp]))"

lemma renewed_insert:
  assumes r: "renewed E good cls cap A s" and cap: "INIT_CACHE_SIZE (arch E) \<le> cap"
    and sel: "sel \<noteq> 0" "sel \<noteq> 1" and imp: "imp \<noteq> 0" "imp \<noteq> cls" "good cls sel imp"
  shows "\<exists>s'. insert_scan E (cache_buckets (arch E) (cache_of (memory s) cls)) (u32_sub cap 1) (cache_hash (arch E) sel (u32_sub cap 1)) (cache_hash (arch E) sel (u32_sub cap 1)) sel imp cls s = Some s' \<and>
    caches_ok E good s' (A(cls := (cap, [sel \<mapsto> imp]))) \<and> blocks s' = blocks s"
proof -
  obtain b f g where O: "others_ok E good {cls} [] s A" and w: "owned E good [] s cls b cap f g" and e: "bucket_entries (arch E) cap f = {}"
    using r by (auto simp: renewed_def)
  have n: "table_size cap" using table_atD(1) [OF ownedD(3) [OF w]] .
  have "room_ok (arch E) cap (card (bucket_entries (arch E) cap f) + 1)" using e room_init [OF n cap] by simp
  from insert_into [OF O w this sel imp refl] show ?thesis
    using content_empty [OF e] owned_buckets(1) [OF others_okD(1) [OF O] w] mask_of_size [OF n] by simp
qed

lemma isConstantEmptyCache_iff:
  assumes K: "caches_ok E good s A"
  shows "isConstantEmptyCache E cls s \<longleftrightarrow> snd (A cls) = Map.empty" "capacity (arch E) (cache_of (memory s) cls) = fst (A cls)"
    "snd (A cls) = Map.empty \<Longrightarrow> fst (A cls) = 0 \<or> table_size (fst (A cls)) \<and> INIT_CACHE_SIZE (arch E) \<le> fst (A cls)"
proof -
  let ?c = "cache_of (memory s) cls" and ?cap = "fst (A cls)"
  have "isConstantEmptyCache E cls s \<and> capacity (arch E) ?c = ?cap \<and> (?cap = 0 \<or> table_size ?cap \<and> INIT_CACHE_SIZE (arch E) \<le> ?cap)" if M: "snd (A cls) = Map.empty"
  proof -
    obtain b where b: "empty_for E s ?cap b" "cache_at (arch E) ?c b (max 1 ?cap)" "?cap = 0 \<or> table_size ?cap \<and> INIT_CACHE_SIZE (arch E) \<le> ?cap" "occupied ?c = 0"
      using caches_okD(4) [OF K M] by (auto simp: cls_empty_def)
    have "block_ok (arch E) b (max 1 ?cap)" by (rule empty_for_zero(1) [OF caches_okD(1,2) [OF K] b(1)]) (use b(3) in blast)
    from cache_at_fields [OF b(2) this] have "cache_buckets (arch E) ?c = b" "capacity (arch E) ?c = (if max 1 ?cap = 1 then 0 else max 1 ?cap)"
      using b(3) table_sizeD [of ?cap] by auto
    moreover have "capacity (arch E) ?c = ?cap" using calculation(2) b(3) table_sizeD [of ?cap] by (auto simp: max_def split: if_splits)
    ultimately show ?thesis using b by (simp add: isConstantEmptyCache_def empty_for_def Let_def)
  qed
  moreover have "\<not> isConstantEmptyCache E cls s \<and> capacity (arch E) ?c = ?cap" if "snd (A cls) \<noteq> Map.empty"
    using full_size(1,2) [OF caches_okD(1) [OF K] caches_okD(5) [OF K that]] by (simp add: isConstantEmptyCache_def Let_def)
  ultimately show "isConstantEmptyCache E cls s \<longleftrightarrow> snd (A cls) = Map.empty" "capacity (arch E) ?c = ?cap"
    "snd (A cls) = Map.empty \<Longrightarrow> ?cap = 0 \<or> table_size ?cap \<and> INIT_CACHE_SIZE (arch E) \<le> ?cap" by blast+
qed

end
