(* ===== verification/CacheGrowth.thy ===== *)
theory CacheGrowth
  imports CacheInsert
begin

text \<open>The three ways of \<open>cache_t::insert\<close>: into an empty cache, into a table with room, and with growth.\<close>

definition insert_new :: "cache_env \<Rightarrow> u64 \<Rightarrow> u64 \<Rightarrow> u64 \<Rightarrow> nat \<Rightarrow> nat \<Rightarrow> bool \<Rightarrow> cache_state \<Rightarrow> cache_state option" where
  "insert_new E cls sel imp oldCap cap freeOld s = Option.bind (reallocate E cls oldCap cap freeOld s) (\<lambda>s.
     insert_scan E (cache_buckets (arch E) (cache_of (memory s) cls)) (u32_sub cap 1) (cache_hash (arch E) sel (u32_sub cap 1))
       (cache_hash (arch E) sel (u32_sub cap 1)) sel imp cls s)"

lemma insert_new_spec:
  assumes K: "caches_ok E good s A" and c: "calloc_ok E N" "length (blocks s) < N" and n: "table_size cap" "INIT_CACHE_SIZE (arch E) \<le> cap"
    and fo: "fo \<longleftrightarrow> snd (A cls) \<noteq> Map.empty" and sel: "sel \<noteq> 0" "sel \<noteq> 1" and imp: "imp \<noteq> 0" "imp \<noteq> cls" "good cls sel imp"
  shows "\<exists>s'. insert_new E cls sel imp oldCap cap fo s = Some s' \<and> caches_ok E good s' (A(cls := (cap, [sel \<mapsto> imp]))) \<and>
    length (blocks s') \<le> Suc (length (blocks s))"
proof -
  obtain s1 where s1: "reallocate E cls oldCap cap fo s = Some s1" "renewed E good cls cap A s1" "length (blocks s1) \<le> Suc (length (blocks s))"
    using reallocate_spec [OF K c n(1) fo] by blast
  from renewed_insert [OF s1(2) n(2) sel imp] s1(1,3) show ?thesis by (auto simp: insert_new_def)
qed

lemma bind_pair: "Option.bind (map_option (\<lambda>s. (x, s)) v) f = Option.bind v (\<lambda>s. f (x, s))"
  by (cases v) simp_all

lemma insert_empty:
  assumes K: "caches_ok E good s A" and "class_isInitialized E cls" and M: "snd (A cls) = Map.empty"
  shows "cache_insert E cls sel imp s = insert_new E cls sel imp (fst (A cls)) (if fst (A cls) = 0 then INIT_CACHE_SIZE (arch E) else fst (A cls)) False s"
  using assms(2) M ok_not_optimized [OF K] isConstantEmptyCache_iff [OF K] by (simp add: cache_insert_def insert_new_def bind_pair Let_def)

lemma full_room:
  assumes K: "caches_ok E good s A" and M: "snd (A cls) \<noteq> Map.empty"
  obtains b f g where "owned E good [] s cls b (fst (A cls)) f g" "snd (A cls) = content (arch E) (fst (A cls)) f g cls"
    "card (dom (snd (A cls))) = card (bucket_entries (arch E) (fst (A cls)) f)"
    "u32 (u32 (occupied (cache_of (memory s) cls) + 1) + CACHE_END_MARKER (arch E)) = card (bucket_entries (arch E) (fst (A cls)) f) + 1 + CACHE_END_MARKER (arch E)"
proof (rule full_cases [OF caches_okD(5) [OF K M]])
  fix b f g assume w: "owned E good [] s cls b (fst (A cls)) f g" and r: "room_ok (arch E) (fst (A cls)) (card (bucket_entries (arch E) (fst (A cls)) f))"
    and m: "snd (A cls) = content (arch E) (fst (A cls)) f g cls"
  have "card (dom (snd (A cls))) = card (bucket_entries (arch E) (fst (A cls)) f)" using ownedD(4) [OF w] by (simp add: m content_dom card_image cells_ok_def)
  moreover have "card (bucket_entries (arch E) (fst (A cls)) f) < 2 ^ 16" using card_entries_less(2) [OF table_atD(1) [OF ownedD(3) [OF w]] r] .
  moreover have "u32 (u32 (card (bucket_entries (arch E) (fst (A cls)) f) + 1) + CACHE_END_MARKER (arch E)) = card (bucket_entries (arch E) (fst (A cls)) f) + 1 + CACHE_END_MARKER (arch E)"
    using calculation(2) by (cases "arch E = X86_64") (simp_all add: u32_id)
  ultimately show ?thesis using that [OF w m] ownedD(6) [OF w] by simp
qed

lemma insert_full:
  assumes K: "caches_ok E good s A" and i: "class_isInitialized E cls" and M: "snd (A cls) \<noteq> Map.empty"
    and r: "\<not> room_ok (arch E) (fst (A cls)) (card (dom (snd (A cls))) + 1)"
  shows "cache_insert E cls sel imp s = insert_new E cls sel imp (fst (A cls)) (min (2 * fst (A cls)) MAX_CACHE_SIZE) True s"
proof (rule full_room [OF K M])
  fix b f g assume k: "card (dom (snd (A cls))) = card (bucket_entries (arch E) (fst (A cls)) f)"
    and u: "u32 (u32 (occupied (cache_of (memory s) cls) + 1) + CACHE_END_MARKER (arch E)) = card (bucket_entries (arch E) (fst (A cls)) f) + 1 + CACHE_END_MARKER (arch E)"
  have t: "table_size (fst (A cls))" by (rule full_size(3) [OF caches_okD(1) [OF K] caches_okD(5) [OF K M]])
  have n: "fst (A cls) \<noteq> 0" "(if u32 (fst (A cls) * 2) > MAX_CACHE_SIZE then MAX_CACHE_SIZE else u32 (fst (A cls) * 2)) = min (2 * fst (A cls)) MAX_CACHE_SIZE"
    using table_sizeD [OF t] by (auto simp: u32_id min_def MAX_CACHE_SIZE_def)
  have no: "\<not> card (bucket_entries (arch E) (fst (A cls)) f) + 1 + CACHE_END_MARKER (arch E) \<le> cache_fill_ratio (arch E) (fst (A cls))"
    "\<not> (CACHE_ALLOW_FULL_UTILIZATION (arch E) \<and> fst (A cls) \<le> FULL_UTILIZATION_CACHE_SIZE \<and> card (bucket_entries (arch E) (fst (A cls)) f) + 1 + CACHE_END_MARKER (arch E) \<le> fst (A cls))"
    using r k unfolding room_ok_def by simp_all
  show ?thesis
    unfolding cache_insert_def insert_new_def Let_def isConstantEmptyCache_iff(2) [OF K] u n(2)
    by (simp only: i M ok_not_optimized [OF K] isConstantEmptyCache_iff(1) [OF K] no n bind_pair if_True if_False not_True_eq_False prod.case simp_thms)
qed

lemma insert_room_scan:
  assumes K: "caches_ok E good s A" and i: "class_isInitialized E cls" and M: "snd (A cls) \<noteq> Map.empty"
    and r: "room_ok (arch E) (fst (A cls)) (card (dom (snd (A cls))) + 1)"
  obtains b f g where "owned E good [] s cls b (fst (A cls)) f g" "snd (A cls) = content (arch E) (fst (A cls)) f g cls"
    "room_ok (arch E) (fst (A cls)) (card (bucket_entries (arch E) (fst (A cls)) f) + 1)"
    "cache_insert E cls sel imp s = insert_scan E b (fst (A cls) - 1) (cache_hash (arch E) sel (fst (A cls) - 1)) (cache_hash (arch E) sel (fst (A cls) - 1)) sel imp cls s"
proof (rule full_room [OF K M])
  fix b f g assume w: "owned E good [] s cls b (fst (A cls)) f g" and m: "snd (A cls) = content (arch E) (fst (A cls)) f g cls"
    and k: "card (dom (snd (A cls))) = card (bucket_entries (arch E) (fst (A cls)) f)"
    and u: "u32 (u32 (occupied (cache_of (memory s) cls) + 1) + CACHE_END_MARKER (arch E)) = card (bucket_entries (arch E) (fst (A cls)) f) + 1 + CACHE_END_MARKER (arch E)"
  let ?a = "arch E" and ?cap = "fst (A cls)"
  have room: "room_ok ?a ?cap (card (bucket_entries ?a ?cap f) + 1)" using r k by simp
  have m': "u32_sub ?cap 1 = ?cap - 1" by (rule mask_of_size [OF table_atD(1) [OF ownedD(3) [OF w]]])
  have "cache_insert E cls sel imp s = insert_scan E b (?cap - 1) (cache_hash ?a sel (?cap - 1)) (cache_hash ?a sel (?cap - 1)) sel imp cls s"
    unfolding cache_insert_def Let_def isConstantEmptyCache_iff(2) [OF K] u
    using i M ok_not_optimized [OF K, of False cls] isConstantEmptyCache_iff(1) [OF K, of cls] room owned_buckets(1) [OF caches_okD(1) [OF K] w] m'
    by (auto simp: room_ok_def)
  then show ?thesis using that [OF w m room] by blast
qed

lemma caches_others: "caches_ok E good s A \<Longrightarrow> others_ok E good {cls} [] s A"
  using others_weaken [of E good "{}" "[]" s A "{cls}"] by (simp add: caches_ok_def)

lemma insert_room:
  assumes K: "caches_ok E good s A" and i: "class_isInitialized E cls" and M: "snd (A cls) \<noteq> Map.empty"
    and r: "room_ok (arch E) (fst (A cls)) (card (dom (snd (A cls))) + 1)"
    and sel: "sel \<noteq> 0" "sel \<noteq> 1" and imp: "imp \<noteq> 0" "imp \<noteq> cls" "good cls sel imp"
  shows "\<exists>s'. cache_insert E cls sel imp s = Some s' \<and>
    caches_ok E good s' (A(cls := (fst (A cls), if sel \<in> dom (snd (A cls)) then snd (A cls) else (snd (A cls))(sel \<mapsto> imp)))) \<and> blocks s' = blocks s"
proof -
  obtain b f g where w: "owned E good [] s cls b (fst (A cls)) f g" "snd (A cls) = content (arch E) (fst (A cls)) f g cls"
    "room_ok (arch E) (fst (A cls)) (card (bucket_entries (arch E) (fst (A cls)) f) + 1)"
    "cache_insert E cls sel imp s = insert_scan E b (fst (A cls) - 1) (cache_hash (arch E) sel (fst (A cls) - 1)) (cache_hash (arch E) sel (fst (A cls) - 1)) sel imp cls s"
    by (rule insert_room_scan [OF K i M r])
  from insert_into [OF caches_others [OF K] w(1,3) sel imp w(2)] w(4) show ?thesis by simp
qed

lemma cache_insert_step:
  assumes K: "caches_ok E good s A" and c: "calloc_ok E N" "length (blocks s) < N" and init: "class_isInitialized E cls"
    and sel: "sel \<noteq> 0" "sel \<noteq> 1" and imp: "imp \<noteq> 0" "imp \<noteq> cls" "good cls sel imp"
  shows "\<exists>s'. cache_insert E cls sel imp s = Some s' \<and> caches_ok E good s' (A(cls := map_insert (arch E) sel imp (A cls))) \<and>
    length (blocks s') \<le> Suc (length (blocks s))"
proof -
  let ?a = "arch E" and ?cap = "fst (A cls)" and ?M = "snd (A cls)"
  consider "?M = Map.empty" | "?M \<noteq> Map.empty" "room_ok ?a ?cap (card (dom ?M) + 1)" | "?M \<noteq> Map.empty" "\<not> room_ok ?a ?cap (card (dom ?M) + 1)" by blast
  then show ?thesis
  proof cases
    case 1
    let ?n = "if ?cap = 0 then INIT_CACHE_SIZE ?a else ?cap"
    have n: "table_size ?n" "INIT_CACHE_SIZE ?a \<le> ?n" using isConstantEmptyCache_iff(3) [OF K 1] init_size by auto
    have "map_insert ?a sel imp (A cls) = (?n, [sel \<mapsto> imp])" using 1 by (simp add: map_insert_def case_prod_beta)
    then show ?thesis using insert_new_spec [OF K c n _ sel imp, of False ?cap] 1 insert_empty [OF K init 1] by simp
  next
    case 2
    then have e: "map_insert ?a sel imp (A cls) = (?cap, if sel \<in> dom ?M then ?M else ?M(sel \<mapsto> imp))" by (simp add: map_insert_def case_prod_beta)
    show ?thesis unfolding e using insert_room [OF K init 2 sel imp] by (metis le_SucI order_refl)
  next
    case 3
    note fs = full_size [OF caches_okD(1) [OF K] caches_okD(5) [OF K 3(1)]]
    let ?n = "min (2 * ?cap) MAX_CACHE_SIZE"
    have n: "table_size ?n" "INIT_CACHE_SIZE ?a \<le> ?n" using double_size [OF fs(3)] fs(4) by (auto simp: min_def INIT_CACHE_SIZE_def MAX_CACHE_SIZE_def)
    have "map_insert ?a sel imp (A cls) = (?n, [sel \<mapsto> imp])" using 3 by (simp add: map_insert_def case_prod_beta)
    then show ?thesis using insert_new_spec [OF K c n _ sel imp, of True ?cap] 3 insert_full [OF K init 3] by simp
  qed
qed

end
