(* ===== verification/CacheSpec.thy ===== *)
theory CacheSpec
  imports CacheGrowth
begin

text \<open>
  The caches as finite maps: what a lookup returns after any sequence of insertions, erasures,
  collections and disposals of classes.
\<close>

subsection \<open>Lookup\<close>

lemma zero_lookup:
  assumes z: "zero_at m b n" and i: "i < n" and sel: "sel \<noteq> 0"
  shows "lookup_from a cls sel m (entry_state a b n i) = Some 0"
proof -
  have "bucket_at m (slot b i) = Some empty_bucket" using z i by (simp add: zero_at_def)
  then show ?thesis using sel by (simp add: entry_state_def lookup_step empty_bucket_def)
qed

lemma cache_getImp_spec:
  assumes K: "caches_ok E good s A" and sel: "sel \<noteq> 0" "sel \<noteq> 1"
  shows "cache_getImp E cls sel s = Some (case snd (A cls) sel of None \<Rightarrow> 0 | Some imp \<Rightarrow> imp)"
proof (cases "snd (A cls) = Map.empty")
  case True
  let ?n = "max 1 (fst (A cls))"
  obtain b where b: "empty_for E s (fst (A cls)) b" "cache_at (arch E) (cache_of (memory s) cls) b ?n" "fst (A cls) = 0 \<or> table_size (fst (A cls))"
    using caches_okD(4) [OF K True] by (auto simp: cls_empty_def)
  note z = empty_for_zero [OF caches_okD(1,2) [OF K] b(1,3)]
  have n: "0 < ?n" "?n \<le> 65536" using b(3) table_sizeD [of "fst (A cls)"] by auto
  have "cache_hash (arch E) sel (?n - 1) < ?n"
  proof (cases "fst (A cls) = 0")
    case False
    then show ?thesis using b(3) cache_hash_less [of "fst (A cls)"] by (simp add: max_def)
  qed (simp add: cache_hash_def Let_def)
  from zero_lookup [OF z(2) this sel(1)] show ?thesis using lookup_start [OF b(2) z(1) n] True by (simp add: cache_getImp_def)
next
  case False
  show ?thesis
  proof (rule full_cases [OF caches_okD(5) [OF K False]])
    fix b f g
    let ?a = "arch E" and ?n = "fst (A cls)"
    assume w: "owned E good [] s cls b ?n f g" and m: "snd (A cls) = content ?a ?n f g cls"
    note d = ownedD [OF w]
    note h = cache_hash_less [OF table_atD(1) [OF d(3)], of ?a sel]
    have st: "cache_getImp E cls sel s = lookup_from ?a cls sel (memory s) (entry_state ?a b ?n (cache_hash ?a sel (?n - 1)))"
      using lookup_start [OF d(2) heap_okD(4-6) [OF caches_okD(1) [OF K] d(1)]] by (simp add: cache_getImp_def)
    show ?thesis
    proof (cases "sel \<in> f ` bucket_entries ?a ?n f")
      case True
      then obtain i where i: "i \<in> bucket_entries ?a ?n f" "f i = sel" by auto
      then show ?thesis using st table_hit [OF d(3,4) i refl] content_entry [OF d(4) i(1), of g cls] m by simp
    next
      case False
      then show ?thesis using st table_miss [OF d(3,4) sel False h] m by (simp add: content_none)
    qed
  qed
qed

subsection \<open>Disposal and collection\<close>

lemma initializeToEmpty_spec:
  assumes O: "others_ok E good {cls} [] s A"
  shows "caches_ok E good (initializeToEmpty E cls s) (A(cls := (0, Map.empty)))"
proof -
  let ?s = "initializeToEmpty E cls s"
  note o = others_okD [OF O]
  have "others_ok E good {cls} [] ?s A"
  proof (rule others_frame [OF O, where zs = "[]" and D = "{}"])
    show "heap_ok E ?s" using o(1) by (simp add: heap_ok_def initializeToEmpty_def)
    show "empties_ok E ?s" using o(2) by (simp add: empties_ok_def zero_at_def initializeToEmpty_def)
  qed (auto simp: initializeToEmpty_def)
  moreover have "cls_empty E ?s cls 0" using emptyBuckets_eq [OF o(1)]
    by (auto simp: cls_empty_def empty_for_eq bytesForCapacity_def initializeToEmpty_def cache_at_def cache_word_def)
  ultimately show ?thesis by (intro others_close) (simp_all add: cls_ok_def)
qed

lemma cache_destroy_spec:
  assumes K: "caches_ok E good s A"
  shows "\<exists>s'. cache_destroy E cls s = Some s' \<and> others_ok E good {cls} [] s' A \<and> length (blocks s') \<le> length (blocks s)"
proof -
  have O: "others_ok E good {cls} [] s A" using K others_weaken [of E good "{}" "[]" s A "{cls}"] by (simp add: caches_ok_def)
  have can: "canBeFreed E cls s \<longleftrightarrow> snd (A cls) \<noteq> Map.empty" using isConstantEmptyCache_iff(1) [OF K] ok_not_optimized [OF K] by (simp add: canBeFreed_def)
  show ?thesis
  proof (cases "snd (A cls) = Map.empty")
    case False
    note h = caches_okD(1) [OF K]
    obtain b f g where w: "owned E good [] s cls b (fst (A cls)) f g" by (rule full_cases [OF caches_okD(5) [OF K False]])
    note d = ownedD [OF w] and bk = owned_buckets(1) [OF h w]
    obtain s' where s': "dispose_garbage [b] s = Some s'" "kept E (set [b]) s s'" "garbage_refs s' = garbage_refs s" "garbage_max s' = garbage_max s" "garbage_first s' = garbage_first s"
      using dispose_garbage_spec [OF h, of "[b]"] d(1) by force
    have "others_ok E good {cls} [] s' A"
    proof (rule kept_frame [OF O s'(2) _ s'(3-5)])
      show "cache_buckets (arch E) (cache_of (memory s) c) \<notin> set [b]" if "c \<notin> {cls}" "occupied (cache_of (memory s) c) \<noteq> 0" for c using d(9) that by simp
      show "cache_buckets (arch E) (cache_of (memory s) c) \<noteq> cache_buckets (arch E) (cache_of (memory s) c')"
        if "c \<in> {cls}" "c' \<notin> {cls}" "occupied (cache_of (memory s) c') \<noteq> 0" for c c' using d(9) [of c'] that bk by auto
    qed (use d(7,8) in auto)
    then show ?thesis using s'(1,2) can False bk by (auto simp: cache_destroy_def kept_def)
  qed (use O can in \<open>simp add: cache_destroy_def\<close>)
qed

lemma wait_for_readers_spec:
  assumes "\<not> readers_busy E k" "checks s \<le> k"
  shows "\<exists>s'. wait_for_readers E s = Some s' \<and> (\<exists>j. s' = s\<lparr>checks := j\<rparr>)"
  using assms(2)
proof (induction "k - checks s" arbitrary: s)
  case 0
  then have "checks s = k" by simp
  then show ?case using assms(1) by (subst wait_for_readers.simps) (auto simp: Let_def)
next
  case (Suc x)
  let ?s = "s\<lparr>checks := checks s + 1\<rparr>"
  have "\<exists>s'. wait_for_readers E ?s = Some s' \<and> (\<exists>j. s' = ?s\<lparr>checks := j\<rparr>)" by (rule Suc.hyps(1)) (use Suc.hyps(2) in auto)
  then show ?case by (subst wait_for_readers.simps) (auto simp: Let_def)
qed

definition readers_leave :: "cache_env \<Rightarrow> bool" where
  "readers_leave E \<longleftrightarrow> (\<forall>k. \<exists>j\<ge>k. \<not> readers_busy E j)"

lemma collect_all_spec:
  assumes K: "caches_ok E good s A" and r: "readers_leave E"
  shows "\<exists>s'. collectNolock E True s = Some s' \<and> caches_ok E good s' A \<and> garbage_refs s' = [] \<and> length (blocks s') \<le> length (blocks s)"
proof -
  obtain k where "checks s \<le> k" "\<not> readers_busy E k" using r by (auto simp: readers_leave_def)
  then obtain j where j: "wait_for_readers E s = Some (s\<lparr>checks := j\<rparr>)" using wait_for_readers_spec by blast
  have K': "others_ok E good {} [] (s\<lparr>checks := j\<rparr>) A"
    by (rule others_ok_shrink [OF K [unfolded caches_ok_def]]) (use caches_okD(3) [OF K] in \<open>auto simp: garbage_ok_def\<close>)
  from dispose_all_spec [OF K'] show ?thesis using j by (auto simp: collectNolock_def caches_ok_def kept_def)
qed

end
