(* ===== verification/CacheRuns.thy ===== *)
theory CacheRuns
  imports CacheSpec
begin

text \<open>Runs of operations on the caches, the maps they implement, and an allocator for which all of it can happen.\<close>

subsection \<open>Operations and what they mean\<close>

text \<open>\<open>Dispose\<close> is the end of a class, \<open>free_class\<close>, and the start of another at the same address.\<close>

datatype cache_op = Insert u64 u64 u64 | Erase u64 | Collect | Dispose u64

fun run_op :: "cache_env \<Rightarrow> cache_op \<Rightarrow> cache_state \<Rightarrow> cache_state option" where
  "run_op E (Insert cls sel imp) s = cache_insert E cls sel imp s"
| "run_op E (Erase cls) s = eraseNolock E cls s"
| "run_op E Collect s = collectNolock E True s"
| "run_op E (Dispose cls) s = map_option (initializeToEmpty E cls) (cache_destroy E cls s)"

fun run_ops :: "cache_env \<Rightarrow> cache_op list \<Rightarrow> cache_state \<Rightarrow> cache_state option" where
  "run_ops E [] s = Some s"
| "run_ops E (x # ops) s = Option.bind (run_op E x s) (run_ops E ops)"

definition initial_caches :: "cache_env \<Rightarrow> cache_state" where
  "initial_caches E = \<lparr>memory = \<lparr>bucket_at = (\<lambda>p. if p \<in> slot (objc_empty_cache E) ` {..<1025} then Some empty_bucket else None),
       cache_of = (\<lambda>_. \<lparr>bucketsAndMaybeMask = objc_empty_cache E, maybeMask = 0, occupied = 0\<rparr>)\<rparr>,
     history = [], blocks = [], emptyBucketsList = [], garbage_refs = [], garbage_max = 0, garbage_byte_size = 0, garbage_first = True, checks = 0\<rparr>"

text \<open>The selectors are not 0 and not 1, and an implementation is not null and not its class.\<close>

fun cache_op_ok :: "cache_op \<Rightarrow> bool" where
  "cache_op_ok (Insert cls sel imp) \<longleftrightarrow> sel \<noteq> 0 \<and> sel \<noteq> 1 \<and> imp \<noteq> 0 \<and> imp \<noteq> cls"
| "cache_op_ok _ \<longleftrightarrow> True"

text \<open>A cache is a capacity and a finite map. A full one is emptied when it grows.\<close>

type_synonym cache_maps = "u64 \<Rightarrow> nat \<times> (u64 \<times> u64) list"

definition spec_insert :: "cache_arch \<Rightarrow> u64 \<Rightarrow> u64 \<Rightarrow> nat \<times> (u64 \<times> u64) list \<Rightarrow> nat \<times> (u64 \<times> u64) list" where
  "spec_insert a sel imp v = (let (cap, L) = v in
     if L = [] then (if cap = 0 then INIT_CACHE_SIZE a else cap, [(sel, imp)])
     else if room_ok a cap (length L + 1) then (cap, if map_of L sel = None then (sel, imp) # L else L)
     else (min (2 * cap) MAX_CACHE_SIZE, [(sel, imp)]))"

fun spec_op :: "cache_env \<Rightarrow> cache_op \<Rightarrow> cache_maps \<Rightarrow> cache_maps" where
  "spec_op E (Insert cls sel imp) B = (if class_isInitialized E cls then B(cls := spec_insert (arch E) sel imp (B cls)) else B)"
| "spec_op E (Erase cls) B = B(cls := (fst (B cls), []))"
| "spec_op E Collect B = B"
| "spec_op E (Dispose cls) B = B(cls := (0, []))"

definition spec_ops :: "cache_env \<Rightarrow> cache_op list \<Rightarrow> cache_maps" where
  "spec_ops E ops = fold (spec_op E) ops (\<lambda>_. (0, []))"

definition cached :: "cache_maps \<Rightarrow> u64 \<Rightarrow> u64 \<Rightarrow> u64" where
  "cached B cls sel = (case map_of (snd (B cls)) sel of None \<Rightarrow> 0 | Some imp \<Rightarrow> imp)"

definition maps_of :: "cache_maps \<Rightarrow> u64 \<Rightarrow> nat \<times> (u64 \<Rightarrow> u64 option)" where
  "maps_of B cls = (fst (B cls), map_of (snd (B cls)))"

definition keys_ok :: "cache_maps \<Rightarrow> bool" where
  "keys_ok B \<longleftrightarrow> (\<forall>cls. distinct (map fst (snd (B cls))))"

subsection \<open>The operations implement the maps\<close>

lemma initial_ok:
  assumes "block_ok (arch E) (objc_empty_cache E) EMPTY_SLOTS"
  shows "caches_ok E good (initial_caches E) (maps_of (\<lambda>_. (0, [])))"
proof -
  let ?s = "initial_caches E"
  have h: "heap_ok E ?s" using assms by (auto simp: heap_ok_def initial_caches_def bucket_slots_def EMPTY_SLOTS_def)
  have "empties_ok E ?s" by (simp add: empties_ok_def zero_at_def initial_caches_def EMPTY_SLOTS_def)
  moreover have "garbage_ok E good [] ?s" by (simp add: garbage_ok_def initial_caches_def)
  moreover have "cls_empty E ?s c 0" for c using emptyBuckets_eq [OF h]
    by (auto simp: cls_empty_def empty_for_eq bytesForCapacity_def cache_at_def cache_word_def initial_caches_def)
  ultimately show ?thesis using h by (simp add: caches_ok_def others_ok_def cls_ok_def maps_of_def)
qed

lemma map_of_empty: "map_of L = Map.empty \<longleftrightarrow> L = []"
  by (cases L) (auto simp: fun_eq_iff)

lemma spec_insert_maps:
  assumes "distinct (map fst (snd v))"
  shows "map_insert a sel imp (fst v, map_of (snd v)) = (fst (spec_insert a sel imp v), map_of (snd (spec_insert a sel imp v)))"
    "distinct (map fst (snd (spec_insert a sel imp v)))"
proof -
  have "card (dom (map_of (snd v))) = length (snd v)" using assms by (simp add: dom_map_of_conv_image_fst card_distinct flip: set_map) (metis distinct_card length_map)
  then show "map_insert a sel imp (fst v, map_of (snd v)) = (fst (spec_insert a sel imp v), map_of (snd (spec_insert a sel imp v)))"
    by (auto simp: map_insert_def spec_insert_def map_of_empty case_prod_beta Let_def)
  show "distinct (map fst (snd (spec_insert a sel imp v)))" using assms by (auto simp: spec_insert_def case_prod_beta Let_def map_of_eq_None_iff)
qed

lemma run_op_spec:
  assumes K: "caches_ok E good s (maps_of B)" and k: "keys_ok B" and c: "calloc_ok E N" "length (blocks s) < N" and r: "readers_leave E"
    and x: "cache_op_ok x" "\<And>cls sel imp. x = Insert cls sel imp \<Longrightarrow> good cls sel imp"
  shows "\<exists>s'. run_op E x s = Some s' \<and> caches_ok E good s' (maps_of (spec_op E x B)) \<and> keys_ok (spec_op E x B) \<and> length (blocks s') \<le> Suc (length (blocks s))"
proof (cases x)
  case (Insert cls sel imp)
  show ?thesis
  proof (cases "class_isInitialized E cls")
    case True
    have "distinct (map fst (snd (B cls)))" using k by (simp add: keys_ok_def)
    note m = spec_insert_maps [OF this, of "arch E" sel imp]
    have "(maps_of B)(cls := map_insert (arch E) sel imp (maps_of B cls)) = maps_of (spec_op E x B)"
      using m(1) True Insert by (auto simp: maps_of_def)
    moreover have "keys_ok (spec_op E x B)" using k m(2) True Insert by (simp add: keys_ok_def)
    ultimately show ?thesis using cache_insert_step [OF K c True, of sel imp] x Insert by auto
  next
    case False
    then show ?thesis using K k Insert by (auto simp: cache_insert_def)
  qed
next
  case (Erase cls)
  moreover have "(maps_of B)(cls := (fst (maps_of B cls), Map.empty)) = maps_of (spec_op E x B)" using Erase by (auto simp: maps_of_def)
  ultimately show ?thesis using eraseNolock_spec [OF K c, of cls] k by (auto simp: keys_ok_def)
next
  case Collect
  then show ?thesis using collect_all_spec [OF K r] k by auto
next
  case (Dispose cls)
  obtain s1 where s1: "cache_destroy E cls s = Some s1" "others_ok E good {cls} [] s1 (maps_of B)" "length (blocks s1) \<le> length (blocks s)"
    using cache_destroy_spec [OF K] by blast
  have "(maps_of B)(cls := (0, Map.empty)) = maps_of (spec_op E x B)" using Dispose by (auto simp: maps_of_def)
  then show ?thesis using initializeToEmpty_spec [OF s1(2)] s1(1,3) k Dispose by (auto simp: keys_ok_def initializeToEmpty_def)
qed

lemma run_ops_spec:
  assumes "caches_ok E good s (maps_of B)" and "keys_ok B" and c: "calloc_ok E N" and "length (blocks s) + length ops \<le> N" and r: "readers_leave E"
    and "\<forall>x\<in>set ops. cache_op_ok x" "\<forall>cls sel imp. Insert cls sel imp \<in> set ops \<longrightarrow> good cls sel imp"
  shows "\<exists>s'. run_ops E ops s = Some s' \<and> caches_ok E good s' (maps_of (fold (spec_op E) ops B)) \<and> keys_ok (fold (spec_op E) ops B)"
  using assms(1,2,4,6,7)
proof (induction ops arbitrary: s B)
  case (Cons x ops)
  have l: "length (blocks s) < N" using Cons.prems(3) by simp
  obtain s1 where s1: "run_op E x s = Some s1" "caches_ok E good s1 (maps_of (spec_op E x B))" "keys_ok (spec_op E x B)" "length (blocks s1) \<le> Suc (length (blocks s))"
    using run_op_spec [OF Cons.prems(1,2) c l r, of x] Cons.prems(4,5) by auto
  have "\<exists>s'. run_ops E ops s1 = Some s' \<and> caches_ok E good s' (maps_of (fold (spec_op E) ops (spec_op E x B))) \<and> keys_ok (fold (spec_op E) ops (spec_op E x B))"
    by (rule Cons.IH [OF s1(2,3)]) (use s1(4) Cons.prems in auto)
  then show ?case using s1(1) by simp
qed auto

lemma caches_run:
  assumes "block_ok (arch E) (objc_empty_cache E) EMPTY_SLOTS" and "calloc_ok E N" and "length ops \<le> N" and "readers_leave E" and "\<forall>x\<in>set ops. cache_op_ok x"
  shows "\<exists>s. run_ops E ops (initial_caches E) = Some s \<and> caches_ok E (\<lambda>cls sel imp. Insert cls sel imp \<in> set ops) s (maps_of (spec_ops E ops)) \<and> keys_ok (spec_ops E ops)"
  unfolding spec_ops_def by (rule run_ops_spec [OF initial_ok [OF assms(1)] _ assms(2)]) (use assms(3-5) in \<open>auto simp: keys_ok_def initial_caches_def\<close>)

end
