(* ===== verification/CacheCopy.thy ===== *)
theory CacheCopy
  imports CacheSpec
begin

text \<open>The copy of a cache lists its entries, each once.\<close>

lemma copy_buckets_spec:
  assumes "\<forall>i\<in>set idx. load_bucket s (slot b i) = Some \<lparr>bucket_sel = f i, bucket_imp = g i\<rparr>"
  shows "copy_buckets s b cls idx room = Some (map (\<lambda>i. (f i, decodeImp (g i) cls)) (take room (filter (\<lambda>i. f i \<noteq> 0) idx)))"
  using assms
proof (induction idx arbitrary: room)
  case (Cons i idx)
  then show ?case by (cases room) (auto simp: take_Cons')
qed simp

lemma take_entries:
  assumes "CACHE_END_MARKER a \<le> n"
  shows "take (card (bucket_entries a n f)) (filter (\<lambda>i. f i \<noteq> 0) [0..<n]) = filter (\<lambda>i. f i \<noteq> 0) [0..<n - CACHE_END_MARKER a]"
proof -
  let ?e = "CACHE_END_MARKER a" and ?F = "filter (\<lambda>i. f i \<noteq> 0)"
  have "bucket_entries a n f = set (?F [0..<n - ?e])" by (auto simp: bucket_entries_def)
  then have c: "card (bucket_entries a n f) = length (?F [0..<n - ?e])" using distinct_card [of "?F [0..<n - ?e]"] by simp
  have "[0..<n] = [0..<n - ?e] @ [n - ?e..<n]" using upt_add_eq_append [of 0 "n - ?e" ?e] assms by simp
  then show ?thesis unfolding c by (simp del: upt_Suc)
qed

lemma class_copyImpCache_spec:
  assumes K: "caches_ok E good s A"
  shows "\<exists>L. class_copyImpCache E cls s = Some (if L = [] then [] else L @ [(0, 0)], length L) \<and> distinct (map fst L) \<and> map_of L = snd (A cls)"
proof (cases "snd (A cls) = Map.empty")
  case True
  then have "occupied (cache_of (memory s) cls) = 0" using caches_okD(4) [OF K] by (simp add: cls_empty_def)
  then show ?thesis using True by (intro exI [of _ "[]"]) (simp add: class_copyImpCache_def)
next
  case False
  let ?n = "fst (A cls)" and ?a = "arch E"
  show ?thesis
  proof (rule full_cases [OF caches_okD(5) [OF K False]])
    fix b f g assume w: "owned E good [] s cls b ?n f g" and ne: "occupied (cache_of (memory s) cls) \<noteq> 0" and m: "snd (A cls) = content ?a ?n f g cls"
    note d = ownedD [OF w] and bk = owned_buckets [OF caches_okD(1) [OF K] w]
    let ?idx = "filter (\<lambda>i. f i \<noteq> 0) [0..<?n - CACHE_END_MARKER ?a]"
    let ?L = "map (\<lambda>i. (f i, decodeImp (g i) cls)) ?idx"
    have idx: "set ?idx = bucket_entries ?a ?n f" by (auto simp: bucket_entries_def)
    have len: "length ?L = card (bucket_entries ?a ?n f)" using distinct_card [of ?idx] idx by simp
    have "CACHE_END_MARKER ?a \<le> ?n" using table_atD(2) [OF d(3)] by (simp add: CACHE_END_MARKER_def)
    then have "copyCacheNolock E cls (card (bucket_entries ?a ?n f)) s = Some ?L"
      using copy_buckets_spec [of "[0..<?n]" s b f g cls] table_atD(5) [OF d(3)] take_entries [of ?a ?n f] bk
      by (simp add: copyCacheNolock_def load_bucket_def Let_def)
    then have "class_copyImpCache E cls s = Some (if ?L = [] then [] else ?L @ [(0, 0)], length ?L)"
      using d(6) ne len by (auto simp: class_copyImpCache_def card_gt_0_iff Let_def)
    moreover have fst: "map fst ?L = map f ?idx" by simp
    have di: "distinct (map fst ?L)" unfolding fst distinct_map idx using d(4) by (simp add: cells_ok_def)
    moreover have "map_of ?L = snd (A cls)"
    proof
      fix sel
      show "map_of ?L sel = snd (A cls) sel"
      proof (cases "sel \<in> f ` bucket_entries ?a ?n f")
        case True
        then obtain i where i: "i \<in> bucket_entries ?a ?n f" "f i = sel" by auto
        then have "(sel, decodeImp (g i) cls) \<in> set ?L" using idx by force
        then show ?thesis using map_of_is_SomeI [OF di] content_entry [OF d(4) i(1), of g cls] i(2) m by simp
      next
        case False
        then have "sel \<notin> fst ` set ?L" using idx by force
        then show ?thesis using False m by (simp add: content_none map_of_eq_None_iff)
      qed
    qed
    ultimately show ?thesis by blast
  qed
qed


subsection \<open>A table that can be looked up and listed\<close>

locale lookup_table =
  fixes inv :: "'s \<Rightarrow> ('c \<Rightarrow> 'k \<Rightarrow> 'v option) \<Rightarrow> bool" and key_ok :: "'k \<Rightarrow> bool" and none :: 'v
    and look :: "'c \<Rightarrow> 'k \<Rightarrow> 's \<Rightarrow> 'v option" and listing :: "'c \<Rightarrow> 's \<Rightarrow> ('k \<times> 'v) list option"
  assumes look_spec: "inv s M \<Longrightarrow> key_ok k \<Longrightarrow> look c k s = Some (case M c k of None \<Rightarrow> none | Some v \<Rightarrow> v)"
    and listing_spec: "inv s M \<Longrightarrow> \<exists>L. listing c s = Some L \<and> distinct (map fst L) \<and> map_of L = M c"
    and value_spec: "inv s M \<Longrightarrow> M c k = Some v \<Longrightarrow> v \<noteq> none"
begin

lemma listed_iff_found:
  assumes "inv s M" "key_ok k" "listing c s = Some L"
  shows "(k, v) \<in> set L \<longleftrightarrow> v \<noteq> none \<and> look c k s = Some v"
proof -
  have L: "distinct (map fst L)" "map_of L = M c" using listing_spec [OF assms(1), of c] assms(3) by auto
  then have "(k, v) \<in> set L \<longleftrightarrow> M c k = Some v" by (metis map_of_SomeD map_of_is_SomeI)
  then show ?thesis using look_spec [OF assms(1,2), of c] value_spec [OF assms(1)] by (auto split: option.splits)
qed

end

text \<open>The list without the null entry at its end.\<close>

definition copied :: "cache_env \<Rightarrow> u64 \<Rightarrow> cache_state \<Rightarrow> (u64 \<times> u64) list option" where
  "copied E cls s = map_option (\<lambda>(L, n). take n L) (class_copyImpCache E cls s)"

lemma content_value:
  assumes K: "caches_ok E good s A" and v: "snd (A cls) sel = Some v"
  shows "v \<noteq> 0"
proof -
  have "snd (A cls) \<noteq> Map.empty" using v by auto
  then obtain b f g where w: "owned E good [] s cls b (fst (A cls)) f g" "snd (A cls) = content (arch E) (fst (A cls)) f g cls"
    by (rule full_cases [OF caches_okD(5) [OF K]])
  obtain i where "i \<in> bucket_entries (arch E) (fst (A cls)) f" "f i = sel" using v w(2) content_none [of sel f "arch E" "fst (A cls)" g cls] by fastforce
  then show ?thesis using content_entry [OF ownedD(4) [OF w(1)], of i g cls] ownedD(5) [OF w(1)] v w(2) by (auto simp: good_cells_def)
qed

interpretation caches: lookup_table "\<lambda>s M. \<exists>cap. caches_ok E good s (\<lambda>c. (cap c, M c))" "\<lambda>sel. sel \<noteq> 0 \<and> sel \<noteq> 1" 0
  "cache_getImp E" "copied E" for E good
proof
  fix s M c k
  assume "\<exists>cap. caches_ok E good s (\<lambda>c. (cap c, M c))"
  then obtain cap where K: "caches_ok E good s (\<lambda>c. (cap c, M c))" by blast
  show "k \<noteq> 0 \<and> k \<noteq> 1 \<Longrightarrow> cache_getImp E c k s = Some (case M c k of None \<Rightarrow> 0 | Some v \<Rightarrow> v)" using cache_getImp_spec [OF K, of k c] by simp
  show "M c k = Some v \<Longrightarrow> v \<noteq> 0" for v using content_value [OF K, of c k] by simp
  obtain L where "class_copyImpCache E c s = Some (if L = [] then [] else L @ [(0, 0)], length L)" "distinct (map fst L)" "map_of L = M c"
    using class_copyImpCache_spec [OF K, of c] by auto
  then show "\<exists>L. copied E c s = Some L \<and> distinct (map fst L) \<and> map_of L = M c" by (intro exI [of _ L]) (simp add: copied_def)
qed

end
