(* ===== verification/CacheReaders.thy ===== *)
theory CacheReaders
  imports CacheSpec
begin

text \<open>
  Readers without a lock. The events of the history are run one at a time, with the steps of a reader in
  between. What a reader of a class may see is a set of regions: tables that the class uses or has used,
  and shared empty buckets. A region leaves the set only when no reader is active.
\<close>

subsection \<open>What a reader may see\<close>

type_synonym region = "u64 \<times> nat \<times> bool"

definition region_mem :: "cache_arch \<Rightarrow> (u64 \<Rightarrow> u64 \<Rightarrow> u64 \<Rightarrow> bool) \<Rightarrow> u64 \<Rightarrow> cache_mem \<Rightarrow> u64 \<Rightarrow> nat \<Rightarrow> bool \<Rightarrow> bool" where
  "region_mem a good cls m b N z \<longleftrightarrow> block_ok a b N \<and> 0 < N \<and> N \<le> 65536 \<and> (if z then zero_at m b N else region_ok a good m b N cls)"

definition view_ok :: "cache_arch \<Rightarrow> (u64 \<Rightarrow> u64 \<Rightarrow> u64 \<Rightarrow> bool) \<Rightarrow> u64 \<Rightarrow> cache_mem \<Rightarrow> region set \<Rightarrow> u64 \<Rightarrow> nat \<Rightarrow> bool" where
  "view_ok a good cls m R b n \<longleftrightarrow> (\<forall>b N z. (b, N, z) \<in> R \<longrightarrow> region_mem a good cls m b N z) \<and>
     (\<exists>N z. (b, N, z) \<in> R \<and> n \<le> N \<and> (\<not> z \<longrightarrow> n = N)) \<and> 0 < n \<and>
     (if a = X86_64 then bucketsAndMaybeMask (cache_of m cls) = b \<and> maybeMask (cache_of m cls) < n
      else bucketsAndMaybeMask (cache_of m cls) = cache_word a b n)"

fun reader_ok :: "cache_arch \<Rightarrow> (u64 \<Rightarrow> u64 \<Rightarrow> u64 \<Rightarrow> bool) \<Rightarrow> u64 \<Rightarrow> u64 \<Rightarrow> cache_mem \<Rightarrow> region set \<Rightarrow> nat \<Rightarrow> reader \<Rightarrow> bool" where
  "reader_ok a good cls sel m R n Start \<longleftrightarrow> True"
| "reader_ok a good cls sel m R n (X_offset r) \<longleftrightarrow> a = X86_64 \<and> (\<exists>j<n. r = 16 * word_of_nat j)"
| "reader_ok a good cls sel m R n (X_cmp w r) \<longleftrightarrow> a = X86_64 \<and> (\<exists>b N z i. (b, N, z) \<in> R \<and> i < N \<and> r = slot b i)"
| "reader_ok a good cls sel m R n (X_cmp1 w r) \<longleftrightarrow> a = X86_64 \<and> (\<exists>b N z i. (b, N, z) \<in> R \<and> i < N \<and> r = slot b i)"
| "reader_ok a good cls sel m R n (X_wrap r) \<longleftrightarrow> a = X86_64 \<and> (\<exists>b N. (b, N, False) \<in> R \<and> r = slot b (N - 1))"
| "reader_ok a good cls sel m R n (X_hit r) \<longleftrightarrow> a = X86_64 \<and>
     (\<exists>b N i bk. (b, N, False) \<in> R \<and> i < N - 1 \<and> r = slot b i \<and> bucket_at m r = Some bk \<and> bucket_sel bk = sel)"
| "reader_ok a good cls sel m R n (A_scan b lst first r) \<longleftrightarrow> a \<noteq> X86_64 \<and>
     (\<exists>N z h i l. (b, N, z) \<in> R \<and> l < N \<and> h < N \<and> i < N \<and> lst = slot b l \<and> first = slot b h \<and> r = slot b i)"
| "reader_ok a good cls sel m R n (A_rescan first r) \<longleftrightarrow> a \<noteq> X86_64 \<and>
     (\<exists>b N z h i. (b, N, z) \<in> R \<and> h < N \<and> i < N \<and> first = slot b h \<and> r = slot b i)"
| "reader_ok a good cls sel m R n (Done v) \<longleftrightarrow> v = 0 \<or> good cls sel v"
| "reader_ok a good cls sel m R n Fault \<longleftrightarrow> False"

text \<open>What is found in a slot of a region.\<close>

lemma region_slot:
  assumes "region_mem a good cls m b N z" "i < N"
  obtains bk where "bucket_at m (slot b i) = Some bk"
    "z \<Longrightarrow> bk = empty_bucket"
    "bucket_sel bk = sel \<Longrightarrow> sel \<noteq> 0 \<Longrightarrow> sel \<noteq> 1 \<Longrightarrow> \<not> z \<and> good cls sel (decodeImp (bucket_imp bk) cls) \<and> (a = X86_64 \<longrightarrow> i < N - 1)"
    "a = X86_64 \<Longrightarrow> 1 < bucket_sel bk \<Longrightarrow> Suc i < N"
    "a = X86_64 \<Longrightarrow> bucket_sel bk = 1 \<Longrightarrow> \<not> z \<and> i = N - 1"
    "a = X86_64 \<Longrightarrow> \<not> z \<Longrightarrow> i = N - 1 \<Longrightarrow> bucket_imp bk = b"
proof (cases z)
  case True
  then have "bucket_at m (slot b i) = Some empty_bucket" using assms by (simp add: region_mem_def zero_at_def)
  then show ?thesis using that [of empty_bucket] True by (auto simp: empty_bucket_def)
next
  case False
  then obtain f g where t: "table_at a m b N f g" and c: "good_cells a good N f g cls" using assms(1) by (auto simp: region_mem_def region_ok_def)
  note d = table_atD [OF t]
  have e: "i \<in> bucket_entries a N f" if "f i \<noteq> 0" "a = X86_64 \<longrightarrow> i \<noteq> N - 1" using that assms(2) by (cases "a = X86_64") (auto simp: bucket_entries_def)
  have "\<not> 1 < (1 :: u64)" by simp
  then have last: "a = X86_64 \<Longrightarrow> 1 < f i \<Longrightarrow> i \<noteq> N - 1" using d(6) by metis
  show ?thesis
  proof (rule that [OF d(5) [OF assms(2)]])
    show "\<not> z \<and> good cls sel (decodeImp (bucket_imp \<lparr>bucket_sel = f i, bucket_imp = g i\<rparr>) cls) \<and> (a = X86_64 \<longrightarrow> i < N - 1)"
      if "bucket_sel \<lparr>bucket_sel = f i, bucket_imp = g i\<rparr> = sel" "sel \<noteq> 0" "sel \<noteq> 1"
      using that False e c d(6) assms(2) by (cases "a = X86_64"; cases "i = N - 1") (auto simp: good_cells_def)
    show "Suc i < N" if "a = X86_64" "1 < bucket_sel \<lparr>bucket_sel = f i, bucket_imp = g i\<rparr>" using last that assms(2) by simp
    show "\<not> z \<and> i = N - 1" if "a = X86_64" "bucket_sel \<lparr>bucket_sel = f i, bucket_imp = g i\<rparr> = 1"
      using that False e c by (auto simp: good_cells_def)
    show "bucket_imp \<lparr>bucket_sel = f i, bucket_imp = g i\<rparr> = b" if "a = X86_64" "\<not> z" "i = N - 1" using d(7) that by simp
  qed (use False in simp)
qed

lemma view_okD:
  assumes "view_ok a good cls m R b n"
  shows "(b', N, z) \<in> R \<Longrightarrow> region_mem a good cls m b' N z" and "\<exists>N z. (b, N, z) \<in> R \<and> n \<le> N \<and> (\<not> z \<longrightarrow> n = N)" and "0 < n"
    and "a = X86_64 \<Longrightarrow> bucketsAndMaybeMask (cache_of m cls) = b" "a = X86_64 \<Longrightarrow> maybeMask (cache_of m cls) < n"
    "a \<noteq> X86_64 \<Longrightarrow> bucketsAndMaybeMask (cache_of m cls) = cache_word a b n"
  using assms by (auto simp: view_ok_def split: if_splits)


subsection \<open>A step of a reader\<close>

lemma and_index:
  assumes "k < n" "n \<le> 65536"
  shows "\<exists>j<n. push_bit 4 (v AND word_of_nat k :: u64) = 16 * word_of_nat j"
proof -
  have "unat (v AND word_of_nat k :: u64) < Suc k" by (rule word_and_less) (use assms in simp)
  then show ?thesis using assms by (intro exI [of _ "unat (v AND word_of_nat k :: u64)"]) (simp add: push_bit_eq_mult mult.commute)
qed

lemma reader_okI:
  "a = X86_64 \<Longrightarrow> (b, N, z) \<in> R \<Longrightarrow> i < N \<Longrightarrow> reader_ok a good cls sel m R n (X_cmp w (slot b i))"
  "a = X86_64 \<Longrightarrow> (b, N, z) \<in> R \<Longrightarrow> i < N \<Longrightarrow> reader_ok a good cls sel m R n (X_cmp1 w (slot b i))"
  "a \<noteq> X86_64 \<Longrightarrow> (b, N, z) \<in> R \<Longrightarrow> l < N \<Longrightarrow> h < N \<Longrightarrow> i < N \<Longrightarrow> reader_ok a good cls sel m R n (A_scan b (slot b l) (slot b h) (slot b i))"
  "a \<noteq> X86_64 \<Longrightarrow> (b, N, z) \<in> R \<Longrightarrow> h < N \<Longrightarrow> i < N \<Longrightarrow> reader_ok a good cls sel m R n (A_rescan (slot b h) (slot b i))"
  by (simp_all only: reader_ok.simps) blast+

lemma start_ok:
  assumes v: "view_ok a good cls m R b n"
  shows "reader_ok a good cls sel m R n (reader_step a cls sel m Start)"
proof -
  obtain N z where N: "(b, N, z) \<in> R" "n \<le> N" using view_okD(2) [OF v] by blast
  have bN: "block_ok a b n" "n \<le> 65536" using view_okD(1) [OF v N(1)] N(2) block_ok_mono by (auto simp: region_mem_def)
  show ?thesis
  proof (cases "a = X86_64")
    case True
    then show ?thesis using and_index [OF view_okD(5) [OF v True] bN(2)] by simp
  next
    case False
    note f = cache_word_fields [OF bN(1) view_okD(3) [OF v] bN(2)] and w = view_okD(6) [OF v False]
    have "n - 1 < n" using view_okD(3) [OF v] by simp
    then obtain j where j: "j < n" "push_bit 4 (arm_hash a sel (cache_word a b n)) = 16 * word_of_nat j"
      using and_index [of "n - 1" n] bN(2) f(1) False by (auto simp: arm_hash_def mask_outlined_def)
    have "reader_ok a good cls sel m R n (A_scan b (slot b (n - 1)) (slot b j) (slot b j))"
      by (rule reader_okI(3) [OF False N(1)]) (use N(2) j(1) in auto)
    moreover have "b + push_bit 4 (arm_hash a sel (cache_word a b n)) = slot b j" using j(2) by (simp add: slot_def)
    ultimately show ?thesis using False f w by (simp add: Let_def)
  qed
qed

lemma x_reader_slot:
  assumes v: "view_ok a good cls m R b n" and r: "reader_ok a good cls sel m R n r" and x: "r \<in> {X_cmp w p, X_cmp1 w p, X_wrap p, X_hit p}"
  shows "\<exists>b' N z i. (b', N, z) \<in> R \<and> i < N \<and> p = slot b' i \<and> (r = X_wrap p \<longrightarrow> \<not> z \<and> i = N - 1) \<and>
      (r = X_hit p \<longrightarrow> (\<exists>bk. bucket_at m p = Some bk \<and> bucket_sel bk = sel))"
proof -
  consider "r = X_cmp w p \<or> r = X_cmp1 w p" | "r = X_wrap p" | "r = X_hit p" using x by blast
  then show ?thesis
  proof cases
    case 1
    then obtain b' N z i where "(b', N, z) \<in> R" "i < N" "p = slot b' i" using r by auto
    moreover have "r \<noteq> X_wrap p" "r \<noteq> X_hit p" using 1 by auto
    ultimately show ?thesis by blast
  next
    case 2
    then obtain b' N where "(b', N, False) \<in> R" "p = slot b' (N - 1)" using r by auto
    moreover have "N - 1 < N" using view_okD(1) [OF v calculation(1)] by (simp add: region_mem_def)
    ultimately show ?thesis using 2 by blast
  next
    case 3
    then obtain b' N i bk where h: "(b', N, False) \<in> R" "i < N - 1" "p = slot b' i" "bucket_at m p = Some bk" "bucket_sel bk = sel" using r by auto
    then have "i < N" by simp
    with h 3 show ?thesis by blast
  qed
qed

lemma x_step_ok:
  assumes v: "view_ok a good cls m R b n" and sel: "sel \<noteq> 0" "sel \<noteq> 1" and r: "reader_ok a good cls sel m R n r"
    and x: "r \<in> {X_cmp w p, X_cmp1 w p, X_wrap p, X_hit p, X_offset p}"
  shows "reader_ok a good cls sel m R n (reader_step a cls sel m r)"
proof -
  have a: "a = X86_64" using r x by auto
  show ?thesis
  proof (cases "r = X_offset p")
    case True
    then obtain j where j: "j < n" "p = 16 * word_of_nat j" using r by auto
    obtain N z where N: "(b, N, z) \<in> R" "n \<le> N" using view_okD(2) [OF v] by blast
    have "reader_step a cls sel m r = X_cmp False (slot b j)" using True j view_okD(4) [OF v a] by (simp add: slot_def)
    moreover have "j < N" using N(2) j(1) by simp
    ultimately show ?thesis using reader_okI(1) [OF a N(1)] by metis
  next
    case False
    have "\<exists>b' N z i. (b', N, z) \<in> R \<and> i < N \<and> p = slot b' i \<and> (r = X_wrap p \<longrightarrow> \<not> z \<and> i = N - 1) \<and>
      (r = X_hit p \<longrightarrow> (\<exists>bk. bucket_at m p = Some bk \<and> bucket_sel bk = sel))"
      by (rule x_reader_slot [OF v r]) (use x False in blast)
    then obtain b' N z i where p: "(b', N, z) \<in> R" "i < N" "p = slot b' i" "r = X_wrap p \<longrightarrow> \<not> z \<and> i = N - 1"
      "r = X_hit p \<longrightarrow> (\<exists>bk. bucket_at m p = Some bk \<and> bucket_sel bk = sel)" by blast
    obtain bk where bk: "bucket_at m (slot b' i) = Some bk" "z \<Longrightarrow> bk = empty_bucket"
      "bucket_sel bk = sel \<Longrightarrow> \<not> z \<and> good cls sel (decodeImp (bucket_imp bk) cls) \<and> (a = X86_64 \<longrightarrow> i < N - 1)"
      "1 < bucket_sel bk \<Longrightarrow> Suc i < N" "bucket_sel bk = 1 \<Longrightarrow> \<not> z \<and> i = N - 1" "\<not> z \<Longrightarrow> i = N - 1 \<Longrightarrow> bucket_imp bk = b'"
      by (rule region_slot [OF view_okD(1) [OF v p(1)] p(2), of sel]) (use a sel in blast)
    consider "r = X_cmp w p" | "r = X_cmp1 w p" | "r = X_wrap p" | "r = X_hit p" using x False by blast
    then show ?thesis
    proof cases
      case 1
      show ?thesis
      proof (cases "bucket_sel bk = sel")
        case True
        then have "(b', N, False) \<in> R" "i < N - 1" using bk(3) a p(1) by auto
        moreover have "reader_step a cls sel m r = X_hit (slot b' i)" using 1 True bk(1) p(3) by simp
        ultimately show ?thesis using bk(1) True a by (simp only: reader_ok.simps) blast
      next
        case False
        then show ?thesis using 1 bk(1) p(3) reader_okI(2) [OF a p(1,2)] by simp
      qed
    next
      case 2
      consider "1 < bucket_sel bk" | "bucket_sel bk = 0" | "bucket_sel bk = 1" using word_le_1 [of "bucket_sel bk"] by blast
      then show ?thesis
      proof cases
        case 1
        then show ?thesis using 2 bk(1) p(3) reader_okI(1) [OF a p(1) bk(4)] slot_Suc [of b' i] by simp
      next
        case 3
        then show ?thesis using 2 bk(1,5) p(1,3) a by auto
      qed (use 2 bk(1) p(3) in simp)
    next
      case 3
      then have "\<not> z" "i = N - 1" using p(4) by blast+
      then have "bucket_imp bk = b'" by (rule bk(6))
      then have "reader_step a cls sel m r = X_cmp True (slot b' 0)" unfolding 3 p(3) using bk(1) by simp
      moreover have "0 < N" using p(2) by simp
      ultimately show ?thesis using reader_okI(1) [OF a p(1)] by metis
    next
      case 4
      then show ?thesis using bk(1,3) p(3,5) by auto
    qed
  qed
qed

lemma a_reader_slot:
  assumes r: "reader_ok a good cls sel m R n r" and x: "r = A_scan c lst first p \<or> r = A_rescan first p"
  obtains b' N z i h where "a \<noteq> X86_64" "(b', N, z) \<in> R" "i < N" "h < N" "p = slot b' i" "first = slot b' h"
    "r = A_scan c lst first p \<Longrightarrow> c = b' \<and> (\<exists>l<N. lst = slot b' l)"
  using x
proof
  assume A: "r = A_scan c lst first p"
  obtain N z h i l where "a \<noteq> X86_64" "(c, N, z) \<in> R" "l < N" "h < N" "i < N" "lst = slot c l" "first = slot c h" "p = slot c i"
    using r unfolding A reader_ok.simps by blast
  then show ?thesis using that by blast
next
  assume A: "r = A_rescan first p"
  obtain b' N z h i where "a \<noteq> X86_64" "(b', N, z) \<in> R" "h < N" "i < N" "first = slot b' h" "p = slot b' i"
    using r unfolding A reader_ok.simps by blast
  then show ?thesis using that [of b' N z i h] A by blast
qed

lemma a_step_ok:
  assumes v: "view_ok a good cls m R b n" and sel: "sel \<noteq> 0" "sel \<noteq> 1" and r: "reader_ok a good cls sel m R n r"
    and x: "r = A_scan c lst first p \<or> r = A_rescan first p"
  shows "reader_ok a good cls sel m R n (reader_step a cls sel m r)"
proof -
  obtain b' N z i h where a: "a \<noteq> X86_64" and p: "(b', N, z) \<in> R" "i < N" "h < N" "p = slot b' i" "first = slot b' h"
    "r = A_scan c lst first p \<Longrightarrow> c = b' \<and> (\<exists>l<N. lst = slot b' l)"
    by (rule a_reader_slot [OF r x]) blast
  note m = view_okD(1) [OF v p(1)]
  obtain bk where bk: "bucket_at m (slot b' i) = Some bk" "bucket_sel bk = sel \<Longrightarrow> good cls sel (decodeImp (bucket_imp bk) cls)"
    by (rule region_slot [OF m p(2), of sel]) (use sel in blast)
  have range: "16 \<le> unat b'" "unat b' + 16 * N \<le> 2 ^ 64" using m by (auto simp: region_mem_def block_ok_def addr_limit_def split: cache_arch.splits)
  note ge = slot_ge [OF range p(2)]
  have prev: "slot b' i - 16 = slot b' (i - 1) \<and> i - 1 < N" if "0 < i" using slot_pred [OF that] p(2) by simp
  from x show ?thesis
  proof
    assume A: "r = A_scan c lst first p"
    then obtain l where l: "l < N" "lst = slot b' l" "c = b'" using p(6) by blast
    consider "bucket_sel bk = sel" | "bucket_sel bk = 0" | "bucket_sel bk \<noteq> sel" "bucket_sel bk \<noteq> 0" "0 < i" | "bucket_sel bk \<noteq> sel" "bucket_sel bk \<noteq> 0" "i = 0" by blast
    then show ?thesis
    proof cases
      case 3
      then have "reader_step a cls sel m r = A_scan b' (slot b' l) (slot b' h) (slot b' (i - 1))" using A l bk(1) p(4,5) ge(1) prev by simp
      then show ?thesis using reader_okI(3) [OF a p(1) l(1) p(3)] prev [OF 3(3)] by metis
    next
      case 4
      then have "reader_step a cls sel m r = A_rescan (slot b' h) (slot b' l)" using A l bk(1) p(4,5) ge(1) by simp
      then show ?thesis using reader_okI(4) [OF a p(1,3) l(1)] by metis
    qed (use A bk p(4) sel in auto)
  next
    assume A: "r = A_rescan first p"
    show ?thesis
    proof (cases "bucket_sel bk \<noteq> sel \<and> bucket_sel bk \<noteq> 0 \<and> h + 1 < i")
      case True
      then have i: "0 < i" by simp
      have "reader_step a cls sel m r = A_rescan (slot b' h) (slot b' (i - 1))" using True A bk(1) p(4,5) ge(2) [OF p(3)] prev [OF i] by simp
      then show ?thesis using reader_okI(4) [OF a p(1,3)] prev [OF i] by metis
    qed (use A bk p(4,5) ge(2) [OF p(3)] in auto)
  qed
qed

lemma reader_step_ok:
  assumes "view_ok a good cls m R b n" and "sel \<noteq> 0" "sel \<noteq> 1" and "reader_ok a good cls sel m R n r"
  shows "reader_ok a good cls sel m R n (reader_step a cls sel m r)"
proof (cases r)
  case (Done v)
  then show ?thesis using assms(4) by simp
next
  case Fault
  then show ?thesis using assms(4) by simp
qed (use start_ok [OF assms(1), of sel] x_step_ok [OF assms] a_step_ok [OF assms] in blast)+

end
