(* ===== verification/CachePaths.thy ===== *)
theory CachePaths
  imports CacheReaders
begin

text \<open>Readers between events, and sequences of events that keep them safe.\<close>

subsection \<open>Interleaving\<close>

definition idle :: "reader \<Rightarrow> bool" where
  "idle r \<longleftrightarrow> r = Start \<or> (\<exists>v. r = Done v)"

text \<open>
  A reader takes steps between the events. Garbage is freed after \<open>_collecting_in_critical\<close> has returned false: at
  \<open>No_readers\<close>, the reader has not started or has finished, or the kernel sets it back to a miss
  (\<open>task_restartable_ranges_synchronize\<close>).
\<close>

inductive reads :: "cache_arch \<Rightarrow> u64 \<Rightarrow> u64 \<Rightarrow> cache_mem \<Rightarrow> cache_event list \<Rightarrow> reader \<Rightarrow> reader \<Rightarrow> bool" for a cls sel where
  reads_stop: "reads a cls sel m evs r r"
| reads_step: "reads a cls sel m evs (reader_step a cls sel m r) r' \<Longrightarrow> reads a cls sel m evs r r'"
| reads_event: "reads a cls sel (apply_event e m) evs r r' \<Longrightarrow> (e = No_readers \<Longrightarrow> idle r) \<Longrightarrow> reads a cls sel m (e # evs) r r'"
| reads_restart: "reads a cls sel m evs (Done 0) r' \<Longrightarrow> reads a cls sel m (No_readers # evs) r r'"

text \<open>The used slots of tables do not change.\<close>

definition used_kept :: "region set \<Rightarrow> cache_mem \<Rightarrow> cache_mem \<Rightarrow> bool" where
  "used_kept R m m' \<longleftrightarrow> (\<forall>b N i bk. (b, N, False) \<in> R \<and> i < N \<and> bucket_at m (slot b i) = Some bk \<and> bucket_sel bk \<noteq> 0 \<longrightarrow>
     bucket_at m' (slot b i) = Some bk)"

inductive path :: "cache_arch \<Rightarrow> (u64 \<Rightarrow> u64 \<Rightarrow> u64 \<Rightarrow> bool) \<Rightarrow> u64 \<Rightarrow> region set \<Rightarrow> u64 \<Rightarrow> nat \<Rightarrow> cache_mem \<Rightarrow> cache_event list \<Rightarrow> region set \<Rightarrow> u64 \<Rightarrow> nat \<Rightarrow> bool"
  for a good cls where
  path_end: "view_ok a good cls m R b n \<Longrightarrow> path a good cls R b n m [] R b n"
| path_event: "view_ok a good cls m R b n \<Longrightarrow> (e \<noteq> No_readers \<Longrightarrow> R \<subseteq> R1 \<and> used_kept R m (apply_event e m) \<and> n \<le> n1) \<Longrightarrow>
    path a good cls R1 b1 n1 (apply_event e m) evs R' b' n' \<Longrightarrow> path a good cls R b n m (e # evs) R' b' n'"

inductive_cases path_eventE: "path a good cls R b n m (e # evs) R' b' n'"

lemma path_view: "path a good cls R b n m evs R' b' n' \<Longrightarrow> view_ok a good cls m R b n"
  by (erule path.cases) auto

lemma path_append:
  "path a good cls R b n m evs R1 b1 n1 \<Longrightarrow> path a good cls R1 b1 n1 (fold apply_event evs m) evs' R' b' n' \<Longrightarrow> path a good cls R b n m (evs @ evs') R' b' n'"
proof (induction rule: path.induct)
  case (path_event m R b n e R1 n1 b1 evs R' b' n')
  then show ?case by (auto intro: path.path_event)
qed simp

lemma path_final: "path a good cls R b n m evs R' b' n' \<Longrightarrow> view_ok a good cls (fold apply_event evs m) R' b' n'"
  by (induction rule: path.induct) auto

lemma idle_ok: "idle r \<Longrightarrow> reader_ok a good cls sel m R n r \<Longrightarrow> reader_ok a good cls sel m' R' n' r"
  by (auto simp: idle_def)

lemma reader_ok_mono:
  assumes "reader_ok a good cls sel m R n r" and "R \<subseteq> R'" and "used_kept R m m'" and "n \<le> n'" and sel: "sel \<noteq> 0"
  shows "reader_ok a good cls sel m' R' n' r"
proof (cases r)
  case (X_offset p)
  then show ?thesis using assms(1,4) by (auto intro: less_le_trans)
next
  case (X_hit p)
  then obtain b N i bk where a: "a = X86_64" and h: "(b, N, False) \<in> R" "i < N - 1" "p = slot b i" "bucket_at m p = Some bk" "bucket_sel bk = sel"
    using assms(1) by auto
  have "i < N" using h(2) by simp
  then have "bucket_at m' p = Some bk" using assms(3) h sel unfolding used_kept_def by blast
  then show ?thesis unfolding X_hit reader_ok.simps using h a assms(2) by blast
next
  case (A_scan b lst first p)
  then show ?thesis using assms(1,2) unfolding A_scan reader_ok.simps by blast
next
  case (A_rescan first p)
  then show ?thesis using assms(1,2) unfolding A_rescan reader_ok.simps by blast
next
  case (X_cmp w p)
  then show ?thesis using assms(1,2) unfolding X_cmp reader_ok.simps by blast
next
  case (X_cmp1 w p)
  then show ?thesis using assms(1,2) unfolding X_cmp1 reader_ok.simps by blast
next
  case (X_wrap p)
  then show ?thesis using assms(1,2) unfolding X_wrap reader_ok.simps by blast
qed (use assms(1) in auto)

lemma path_safe:
  assumes "reads a cls sel m evs r r'" and "path a good cls R b n m evs R' b' n'" and "reader_ok a good cls sel m R n r" and sel: "sel \<noteq> 0" "sel \<noteq> 1"
  shows "r' \<noteq> Fault \<and> (\<forall>v. r' = Done v \<longrightarrow> v = 0 \<or> good cls sel v)"
  using assms(1-3)
proof (induction arbitrary: R b n rule: reads.induct)
  case (reads_step m evs r r')
  then show ?case using reader_step_ok [OF path_view [OF reads_step.prems(1)] sel] by blast
next
  case (reads_event e m evs r r')
  obtain R1 b1 n1 where 1: "e \<noteq> No_readers \<Longrightarrow> R \<subseteq> R1 \<and> used_kept R m (apply_event e m) \<and> n \<le> n1" "path a good cls R1 b1 n1 (apply_event e m) evs R' b' n'"
    using reads_event.prems(1) by (rule path_eventE) blast
  have "reader_ok a good cls sel (apply_event e m) R1 n1 r"
    using reads_event.hyps(2) reads_event.prems(2) 1(1) idle_ok reader_ok_mono [OF reads_event.prems(2) _ _ _ sel(1)] by blast
  then show ?case using reads_event.IH 1(2) by blast
next
  case (reads_restart m evs r' r)
  obtain R1 b1 n1 where "path a good cls R1 b1 n1 m evs R' b' n'" using reads_restart.prems(1) by (rule path_eventE) auto
  then show ?case using reads_restart.IH by simp
qed (auto elim: reader_ok.elims)

subsection \<open>Events that a reader does not notice\<close>

fun quiet :: "u64 \<Rightarrow> region set \<Rightarrow> cache_event \<Rightarrow> bool" where
  "quiet cls R (Alloc b n) \<longleftrightarrow> (\<forall>b' N z. (b', N, z) \<in> R \<longrightarrow> bucket_slots b n \<inter> bucket_slots b' N = {})"
| "quiet cls R (Free b n) \<longleftrightarrow> (\<forall>b' N z. (b', N, z) \<in> R \<longrightarrow> bucket_slots b n \<inter> bucket_slots b' N = {})"
| "quiet cls R (Store_imp p v) \<longleftrightarrow> (\<forall>b' N z. (b', N, z) \<in> R \<longrightarrow> p \<notin> bucket_slots b' N)"
| "quiet cls R (Store_sel p v) \<longleftrightarrow> (\<forall>b' N z. (b', N, z) \<in> R \<longrightarrow> p \<notin> bucket_slots b' N)"
| "quiet cls R (Store_pair p v w) \<longleftrightarrow> (\<forall>b' N z. (b', N, z) \<in> R \<longrightarrow> p \<notin> bucket_slots b' N)"
| "quiet cls R (Store_buckets c w) \<longleftrightarrow> c \<noteq> cls"
| "quiet cls R (Store_mask c k) \<longleftrightarrow> c \<noteq> cls"
| "quiet cls R (Store_occupied c k) \<longleftrightarrow> True"
| "quiet cls R No_readers \<longleftrightarrow> True"

lemma quiet_keeps:
  assumes "quiet cls R e"
  shows "(b, N, z) \<in> R \<Longrightarrow> p \<in> bucket_slots b N \<Longrightarrow> bucket_at (apply_event e m) p = bucket_at m p"
    and "bucketsAndMaybeMask (cache_of (apply_event e m) cls) = bucketsAndMaybeMask (cache_of m cls)"
    and "maybeMask (cache_of (apply_event e m) cls) = maybeMask (cache_of m cls)"
  using assms by (cases e; auto simp: bucket_slots_def)+

lemma region_mem_cong:
  assumes "\<And>p. p \<in> bucket_slots b N \<Longrightarrow> bucket_at m' p = bucket_at m p"
  shows "region_mem a good cls m' b N z = region_mem a good cls m b N z"
  using region_ok_cong [OF assms] table_at_cong(2) [OF assms] by (simp add: region_mem_def)

lemma quiet_view:
  assumes "view_ok a good cls m R b n" "quiet cls R e"
  shows "view_ok a good cls (apply_event e m) R b n" "used_kept R m (apply_event e m)"
proof -
  note q = quiet_keeps [OF assms(2)]
  have "region_mem a good cls (apply_event e m) b' N z" if "(b', N, z) \<in> R" for b' N z
    using view_okD(1) [OF assms(1) that] region_mem_cong [of b' N "apply_event e m" m] q(1) [OF that] by simp
  then show "view_ok a good cls (apply_event e m) R b n" using assms(1) q(2,3) [of m] by (simp add: view_ok_def)
  show "used_kept R m (apply_event e m)" unfolding used_kept_def using q(1) by (metis slot_in_slots)
qed

lemma quiet_path:
  assumes "view_ok a good cls m R b n" "\<forall>e\<in>set evs. quiet cls R e"
  shows "path a good cls R b n m evs R b n"
  using assms
proof (induction evs arbitrary: m)
  case (Cons e evs)
  have q: "quiet cls R e" using Cons.prems(2) by simp
  note v = quiet_view [OF Cons.prems(1) q]
  show ?case by (rule path_event [OF Cons.prems(1) _ Cons.IH [OF v(1)]]) (use v(2) Cons.prems(2) in auto)
qed (simp add: path_end)


subsection \<open>A new table is published\<close>

definition publish_events :: "cache_arch \<Rightarrow> u64 \<Rightarrow> u64 \<Rightarrow> nat \<Rightarrow> cache_event list" where
  "publish_events a cls b n = (if mask_outlined a then [Store_buckets cls b, Store_mask cls (n - 1), Store_occupied cls 0]
     else [Store_buckets cls (cache_word a b n), Store_occupied cls 0])"

lemma setBucketsAndMask_events:
  "history (setBucketsAndMask E cls b (n - 1) s) = history s @ publish_events (arch E) cls b n"
  "memory (setBucketsAndMask E cls b (n - 1) s) = fold apply_event (publish_events (arch E) cls b n) (memory s)"
  by (simp_all add: setBucketsAndMask_def publish_events_def cache_word_def)

lemma view_ok_cong:
  assumes "view_ok a good cls m R b n" and "bucket_at m' = bucket_at m"
    and "if a = X86_64 then bucketsAndMaybeMask (cache_of m' cls) = b \<and> maybeMask (cache_of m' cls) < n
      else bucketsAndMaybeMask (cache_of m' cls) = cache_word a b n"
  shows "view_ok a good cls m' R b n"
proof -
  have "region_mem a good cls m' b' N z" if "(b', N, z) \<in> R" for b' N z
    using view_okD(1) [OF assms(1) that] region_mem_cong [of b' N m' m] assms(2) by simp
  then show ?thesis using assms(1,3) by (auto simp: view_ok_def)
qed

lemma publish_path:
  assumes v: "view_ok a good cls m R b n" and r: "region_mem a good cls m b1 N z" and n: "n \<le> n1" "n1 \<le> N" "\<not> z \<Longrightarrow> n1 = N"
  shows "path a good cls R b n m (publish_events a cls b1 n1) (insert (b1, N, z) R) b1 n1"
proof -
  let ?R = "insert (b1, N, z) R" and ?w = "if a = X86_64 then b1 else cache_word a b1 n1"
  let ?m = "apply_event (Store_buckets cls ?w) m"
  have pos: "0 < n1" using view_okD(3) [OF v] n(1) by simp
  have v1: "view_ok a good cls ?m ?R b1 n1"
  proof -
    have "region_mem a good cls ?m b' N' z'" if "(b', N', z') \<in> ?R" for b' N' z'
      using view_okD(1) [OF v] r that region_mem_cong [of b' N' ?m m] by auto
    moreover have "maybeMask (cache_of m cls) < n1" if "a = X86_64" using view_okD(5) [OF v that] n(1) by simp
    ultimately show ?thesis using pos n(2,3) by (auto simp: view_ok_def)
  qed
  have p1: "path a good cls ?R b1 n1 ?m (if a = X86_64 then [Store_mask cls (n1 - 1), Store_occupied cls 0] else [Store_occupied cls 0]) ?R b1 n1" (is "path _ _ _ _ _ _ _ ?evs _ _ _")
  proof (cases "a = X86_64")
    case True
    let ?m2 = "apply_event (Store_mask cls (n1 - 1)) ?m"
    have v2: "view_ok a good cls ?m2 ?R b1 n1" by (rule view_ok_cong [OF v1]) (use True pos in auto)
    have "path a good cls ?R b1 n1 ?m2 [Store_occupied cls 0] ?R b1 n1" by (rule quiet_path [OF v2]) simp
    from path_event [OF v1 _ this] show ?thesis using True by (simp add: used_kept_def)
  qed (use quiet_path [OF v1, of "[Store_occupied cls 0]"] in simp)
  have "path a good cls R b n m (Store_buckets cls ?w # ?evs) ?R b1 n1"
    by (rule path_event [OF v _ p1]) (use n(1) in \<open>auto simp: used_kept_def\<close>)
  then show ?thesis by (simp add: publish_events_def mask_outlined_def split: if_splits)
qed

subsection \<open>A new entry\<close>

lemma store_region:
  assumes r: "region_ok a good m b N cls" and i: "i < N" and bk: "bucket_at m (slot b i) = Some bk" "bucket_sel bk = 0"
    and m': "bucket_at m' = (bucket_at m)(slot b i := Some \<lparr>bucket_sel = sel', bucket_imp = v\<rparr>)"
    and new: "sel' = 0 \<or> (sel' \<noteq> 1 \<and> good cls sel' (decodeImp v cls) \<and> decodeImp v cls \<noteq> 0)"
  shows "region_ok a good m' b N cls"
proof -
  obtain f g where t: "table_at a m b N f g" and c: "good_cells a good N f g cls" using r by (auto simp: region_ok_def)
  note d = table_atD [OF t]
  have fi: "f i = 0" using d(5) [OF i] bk by auto
  have inj: "slot b j = slot b i \<longleftrightarrow> j = i" if "j < N" for j using slot_inj [of j i b] that i table_sizeD [OF d(1)] by simp
  have last: "a = X86_64 \<Longrightarrow> i \<noteq> N - 1" using d(6) fi by auto
  have "table_at a m' b N (f(i := sel')) (g(i := v))" using t last unfolding table_at_def m' by (auto simp: inj)
  moreover have "good_cells a good N (f(i := sel')) (g(i := v)) cls" using c new by (auto simp: good_cells_def bucket_entries_def)
  ultimately show ?thesis by (auto simp: region_ok_def)
qed

text \<open>Only one region has the slot that is written, and it is a table.\<close>

lemma store_view:
  assumes v: "view_ok a good cls m R b n" and R: "(b0, N, False) \<in> R" "\<forall>b' N' z. (b', N', z) \<in> R \<and> slot b0 i \<in> bucket_slots b' N' \<longrightarrow> b' = b0 \<and> N' = N \<and> \<not> z"
    and i: "i < N" and bk: "bucket_at m (slot b0 i) = Some bk" "bucket_sel bk = 0"
    and m': "bucket_at m' = (bucket_at m)(slot b0 i := Some \<lparr>bucket_sel = sel', bucket_imp = w\<rparr>)" "cache_of m' = cache_of m"
    and new: "sel' = 0 \<or> (sel' \<noteq> 1 \<and> good cls sel' (decodeImp w cls) \<and> decodeImp w cls \<noteq> 0)"
  shows "view_ok a good cls m' R b n" "used_kept R m m'"
proof -
  have "region_mem a good cls m' b' N' z" if x: "(b', N', z) \<in> R" for b' N' z
  proof (cases "slot b0 i \<in> bucket_slots b' N'")
    case True
    then have "b' = b0" "N' = N" "\<not> z" using R(2) x by blast+
    moreover have "region_ok a good m b0 N cls" using view_okD(1) [OF v R(1)] by (simp add: region_mem_def)
    from store_region [where good = good, OF this i bk m'(1) new] have "region_ok a good m' b0 N cls" .
    ultimately show ?thesis using view_okD(1) [OF v x] by (simp add: region_mem_def)
  next
    case False
    then have "bucket_at m' p = bucket_at m p" if "p \<in> bucket_slots b' N'" for p using that m'(1) by auto
    from region_mem_cong [OF this] show ?thesis using view_okD(1) [OF v x] by blast
  qed
  then show "view_ok a good cls m' R b n" using v m'(2) by (simp add: view_ok_def)
  show "used_kept R m m'" using bk m'(1) by (auto simp: used_kept_def)
qed


definition entry_events :: "cache_arch \<Rightarrow> u64 \<Rightarrow> nat \<Rightarrow> u64 \<Rightarrow> u64 \<Rightarrow> u64 \<Rightarrow> cache_event list" where
  "entry_events a cls k p sel w = Store_occupied cls k # (if a = X86_64 then [Store_imp p w, Store_sel p sel] else [Store_pair p sel w])"

lemma bucket_set_entry_events:
  assumes "bucket_set E True True p sel imp cls (incrementOccupied cls s) = Some s'" and "bucket_at (memory s) p = Some bk" "bucket_sel bk \<noteq> sel"
  shows "\<exists>k. history s' = history s @ entry_events (arch E) cls k p sel (encodeImp imp cls) \<and>
    memory s' = fold apply_event (entry_events (arch E) cls k p sel (encodeImp imp cls)) (memory s)"
  using assms by (auto simp: bucket_set_def load_bucket_def incrementOccupied_def entry_events_def Let_def split: if_splits)

lemma entry_path:
  assumes v: "view_ok a good cls m R b n" and R: "(b0, N, False) \<in> R" "\<forall>b' N' z. (b', N', z) \<in> R \<and> slot b0 i \<in> bucket_slots b' N' \<longrightarrow> b' = b0 \<and> N' = N \<and> \<not> z"
    and i: "i < N" and bk: "bucket_at m (slot b0 i) = Some bk" "bucket_sel bk = 0"
    and new: "sel \<noteq> 0" "sel \<noteq> 1" "good cls sel (decodeImp w cls)" "decodeImp w cls \<noteq> 0"
  shows "path a good cls R b n m (entry_events a cls k (slot b0 i) sel w) R b n"
proof -
  let ?p = "slot b0 i" and ?m = "apply_event (Store_occupied cls k) m"
  have q: "quiet cls R (Store_occupied cls k)" by simp
  note v1 = quiet_view [OF v q]
  have bk1: "bucket_at ?m ?p = Some bk" using bk(1) by simp
  note sv = store_view [OF _ R i]
  have nw: "sel = 0 \<or> (sel \<noteq> 1 \<and> good cls sel (decodeImp w cls) \<and> decodeImp w cls \<noteq> 0)" using new by simp
  have "path a good cls R b n ?m (if a = X86_64 then [Store_imp ?p w, Store_sel ?p sel] else [Store_pair ?p sel w]) R b n"
  proof (cases "a = X86_64")
    case True
    let ?m2 = "apply_event (Store_imp ?p w) ?m"
    let ?m3 = "apply_event (Store_sel ?p sel) ?m2"
    have e2: "bucket_at ?m2 = (bucket_at ?m)(?p := Some \<lparr>bucket_sel = 0, bucket_imp = w\<rparr>)" "cache_of ?m2 = cache_of ?m" using bk by auto
    have e3: "bucket_at ?m3 = (bucket_at ?m2)(?p := Some \<lparr>bucket_sel = sel, bucket_imp = w\<rparr>)" "cache_of ?m3 = cache_of ?m2" using e2 by auto
    have b2: "bucket_at ?m2 ?p = Some \<lparr>bucket_sel = 0, bucket_imp = w\<rparr>" using e2(1) by simp
    note v2' = sv [where good = good, OF v1(1) bk1 bk(2) e2 disjI1 [OF refl]]
    note v3' = sv [where good = good, OF v2'(1) b2 _ e3 nw, simplified bucket_t.simps, OF refl]
    from path_event [OF v2'(1) _ path_end [OF v3'(1)]] v3'(2) have "path a good cls R b n ?m2 [Store_sel ?p sel] R b n" by simp
    from path_event [OF v1(1) _ this] v2'(2) show ?thesis using True by simp
  next
    case False
    let ?m2 = "apply_event (Store_pair ?p sel w) ?m"
    have e2: "bucket_at ?m2 = (bucket_at ?m)(?p := Some \<lparr>bucket_sel = sel, bucket_imp = w\<rparr>)" "cache_of ?m2 = cache_of ?m" using bk by auto
    note v2 = sv [where good = good, OF v1(1) bk1 bk(2) e2 nw]
    from path_event [OF v1(1) _ path_end [OF v2(1)]] v2(2) show ?thesis using False by simp
  qed
  from path_event [OF v _ this] v1(2) show ?thesis by (simp add: entry_events_def)
qed

end
