(* ===== verification/CacheTraces.thy ===== *)
theory CacheTraces
  imports CachePaths
begin

text \<open>The history of the operations, and which regions a reader may see after each part of them.\<close>

subsection \<open>Memory is the result of the history\<close>

definition traced :: "cache_state \<Rightarrow> cache_state \<Rightarrow> bool" where
  "traced s s' \<longleftrightarrow> (\<exists>evs. history s' = history s @ evs \<and> memory s' = fold apply_event evs (memory s))"

lemma traced_same: "history s' = history s \<Longrightarrow> memory s' = memory s \<Longrightarrow> traced s s'"
  by (auto simp: traced_def intro: exI [of _ "[]"])

lemma traced_trans: "traced s s1 \<Longrightarrow> traced s1 s2 \<Longrightarrow> traced s s2"
  by (auto simp: traced_def)

lemma traced_emit: "history s' = history s @ [e] \<Longrightarrow> memory s' = apply_event e (memory s) \<Longrightarrow> traced s s'"
  by (auto simp: traced_def intro: exI [of _ "[e]"])

lemma traced_ev: "traced s s' \<Longrightarrow> history s' = history s @ evs \<Longrightarrow> memory s' = fold apply_event evs (memory s)"
  by (auto simp: traced_def)

lemma traced_calloc: "calloc_buckets E n s = (b, s') \<Longrightarrow> traced s s'"
  by (auto simp: calloc_buckets_def Let_def intro: traced_emit)

lemma traced_bucket_set: "bucket_set E atomic enc p sel imp cls s = Some s' \<Longrightarrow> traced s s'"
  unfolding traced_def bucket_set_def by (auto simp: Let_def split: option.splits if_splits)

lemma traced_allocate: "cache_allocateBuckets E n s = Some (b, s') \<Longrightarrow> traced s s'"
proof -
  assume a: "cache_allocateBuckets E n s = Some (b, s')"
  obtain b1 s1 where c: "calloc_buckets E n s = (b1, s1)" by (cases "calloc_buckets E n s")
  from a traced_calloc [OF c] traced_trans [OF traced_calloc [OF c] traced_bucket_set] show ?thesis
    by (auto simp: cache_allocateBuckets_def c split: if_splits bind_splits)
qed

lemma traced_free: "free_block b s = Some s' \<Longrightarrow> traced s s'"
  by (auto simp: free_block_def split: option.splits intro: traced_emit)

lemma traced_dispose: "dispose_garbage refs s = Some s' \<Longrightarrow> traced s s'"
proof (induction refs arbitrary: s')
  case (Cons b refs)
  then show ?case by (auto split: option.splits intro: traced_trans traced_free)
qed (simp add: traced_same)

lemma traced_dispose_all:
  assumes "dispose_all s = Some s'"
  shows "traced s s'"
proof -
  obtain s1 where s1: "dispose_garbage (garbage_refs s) (emit No_readers s) = Some s1" "s' = s1\<lparr>garbage_refs := [], garbage_byte_size := 0\<rparr>"
    using assms by (auto simp: dispose_all_def split: bind_splits)
  have "traced s (emit No_readers s)" by (rule traced_emit [where e = No_readers]) simp_all
  then show ?thesis using traced_trans traced_dispose [OF s1(1)] s1(2) by (auto simp: traced_def)
qed

lemma traced_collect: "collectNolock E False s = Some s' \<Longrightarrow> traced s s'"
proof -
  assume c: "collectNolock E False s = Some s'"
  have t: "traced s (s\<lparr>checks := checks s + 1\<rparr>)" by (rule traced_same) simp_all
  from c show ?thesis using t traced_trans [OF t traced_dispose_all] by (auto simp: collectNolock_def traced_same split: if_splits)
qed

lemma traced_collect_free:
  assumes "collect_free E data cap s = Some s'"
  shows "traced s s'"
proof -
  let ?s1 = "(garbage_make_room s)\<lparr>garbage_byte_size := (garbage_byte_size (garbage_make_room s) + bytesForCapacity cap) mod 2 ^ 64\<rparr>"
  have "collectNolock E False (?s1\<lparr>garbage_refs := garbage_refs ?s1 @ [data]\<rparr>) = Some s'" using assms by (auto simp: collect_free_def Let_def split: if_splits)
  from traced_collect [OF this] show ?thesis by (auto simp: traced_def garbage_make_room_def split: if_splits)
qed

lemma traced_set: "traced s (setBucketsAndMask E cls b (n - 1) s)"
  using setBucketsAndMask_events [of E cls b n s] by (auto simp: traced_def)

lemma traced_empties: "emptyBucketsForCapacity E cap allocate s = (x, s') \<Longrightarrow> traced s s'"
proof -
  assume e: "emptyBucketsForCapacity E cap allocate s = (x, s')"
  obtain b s1 where c: "calloc_buckets E cap s = (b, s1)" by (cases "calloc_buckets E cap s")
  from e traced_calloc [OF c] show ?thesis by (auto simp: emptyBucketsForCapacity_def c Let_def traced_def split: if_splits)
qed


subsection \<open>The regions of a reader\<close>

definition seen :: "cache_env \<Rightarrow> (u64 \<Rightarrow> u64 \<Rightarrow> u64 \<Rightarrow> bool) \<Rightarrow> u64 \<Rightarrow> u64 list \<Rightarrow> cache_state \<Rightarrow> region set \<Rightarrow> u64 \<Rightarrow> nat \<Rightarrow> bool" where
  "seen E good cls X s R b n \<longleftrightarrow> view_ok (arch E) good cls (memory s) R b n \<and> cache_at (arch E) (cache_of (memory s) cls) b n \<and>
     (\<forall>b' N. (b', N, True) \<in> R \<longrightarrow> (b' = objc_empty_cache E \<and> N = EMPTY_SLOTS) \<or> (b' \<in> set (emptyBucketsList s) \<and> (b', N) \<in> set (blocks s))) \<and>
     (\<forall>b' N. (b', N, False) \<in> R \<longrightarrow> (b', N) \<in> set (blocks s) \<and> b' \<notin> set (emptyBucketsList s) \<and> (b' = b \<or> b' \<in> set (garbage_refs s @ X)))"

lemma seenD:
  assumes "seen E good cls X s R b n"
  shows "view_ok (arch E) good cls (memory s) R b n" "cache_at (arch E) (cache_of (memory s) cls) b n"
    "(b', N, True) \<in> R \<Longrightarrow> (b' = objc_empty_cache E \<and> N = EMPTY_SLOTS) \<or> (b' \<in> set (emptyBucketsList s) \<and> (b', N) \<in> set (blocks s))"
    "(b', N, False) \<in> R \<Longrightarrow> (b', N) \<in> set (blocks s)" "(b', N, False) \<in> R \<Longrightarrow> b' \<notin> set (emptyBucketsList s)"
    "(b', N, False) \<in> R \<Longrightarrow> b' = b \<or> b' \<in> set (garbage_refs s @ X)"
  using assms unfolding seen_def by blast+

lemma seen_block:
  assumes "seen E good cls X s R b n" "(b', N, z) \<in> R"
  shows "b' = objc_empty_cache E \<and> N = EMPTY_SLOTS \<or> (b', N) \<in> set (blocks s)"
  using seenD(3,4) [OF assms(1), of b' N] assms(2) by (cases z) auto

text \<open>A block that is not in the view lies apart from it.\<close>

lemma outside_quiet:
  assumes S: "seen E good cls X s R b n" and h: "heap_ok E s'" "(b0, n0) \<in> set (blocks s')" and sub: "\<And>b' N. (b', N) \<in> set (blocks s) \<Longrightarrow> (b', N) \<in> set (blocks s')"
    and out: "\<And>b' N z. (b', N, z) \<in> R \<Longrightarrow> b' \<noteq> b0" and x: "(b', N, z) \<in> R"
  shows "bucket_slots b0 n0 \<inter> bucket_slots b' N = {}"
  using seen_block [OF S x]
proof
  assume "b' = objc_empty_cache E \<and> N = EMPTY_SLOTS"
  then show ?thesis using heap_okD(7) [OF h] by simp
next
  assume "(b', N) \<in> set (blocks s)"
  then show ?thesis using heap_okD(8) [OF h sub] out [OF x] by blast
qed

text \<open>Events on one block.\<close>

fun block_event :: "u64 \<Rightarrow> nat \<Rightarrow> cache_event \<Rightarrow> bool" where
  "block_event b n (Alloc b' n') \<longleftrightarrow> b' = b \<and> n' = n"
| "block_event b n (Free b' n') \<longleftrightarrow> b' = b \<and> n' = n"
| "block_event b n (Store_imp p v) \<longleftrightarrow> p \<in> bucket_slots b n"
| "block_event b n (Store_sel p v) \<longleftrightarrow> p \<in> bucket_slots b n"
| "block_event b n (Store_pair p v w) \<longleftrightarrow> p \<in> bucket_slots b n"
| "block_event b n (Store_occupied c k) \<longleftrightarrow> True"
| "block_event b n _ \<longleftrightarrow> False"

lemma block_event_quiet:
  assumes "block_event b0 n0 e" and "\<forall>b' N z. (b', N, z) \<in> R \<longrightarrow> bucket_slots b0 n0 \<inter> bucket_slots b' N = {}"
  shows "quiet cls R e"
  using assms by (cases e; fastforce)

text \<open>A change that leaves the view and its blocks alone.\<close>

lemma seen_keep:
  assumes S: "seen E good cls X s R b n" and p: "path (arch E) good cls R b n (memory s) evs R' b' n'" and m: "memory s' = fold apply_event evs (memory s)"
    and R: "R' \<subseteq> R" "b' = b" "n' = n" and c: "cache_at (arch E) (cache_of (memory s') cls) b n"
    and z: "\<And>c N. (c, N, True) \<in> R' \<Longrightarrow> (c, N) \<in> set (blocks s) \<Longrightarrow> c \<in> set (emptyBucketsList s) \<Longrightarrow> (c, N) \<in> set (blocks s') \<and> c \<in> set (emptyBucketsList s')"
    and t: "\<And>c N. (c, N, False) \<in> R' \<Longrightarrow> (c, N) \<in> set (blocks s) \<Longrightarrow> c \<notin> set (emptyBucketsList s) \<Longrightarrow> (c = b \<or> c \<in> set (garbage_refs s @ X)) \<Longrightarrow>
      (c, N) \<in> set (blocks s') \<and> c \<notin> set (emptyBucketsList s') \<and> (c = b \<or> c \<in> set (garbage_refs s' @ X'))"
  shows "seen E good cls X' s' R' b n"
proof -
  have "view_ok (arch E) good cls (memory s') R' b n" using path_final [OF p] m R by simp
  moreover have "(c = objc_empty_cache E \<and> N = EMPTY_SLOTS) \<or> (c \<in> set (emptyBucketsList s') \<and> (c, N) \<in> set (blocks s'))" if "(c, N, True) \<in> R'" for c N
    using seenD(3) [OF S, of c N] z [OF that] that R(1) by blast
  moreover have "(c, N) \<in> set (blocks s') \<and> c \<notin> set (emptyBucketsList s') \<and> (c = b \<or> c \<in> set (garbage_refs s' @ X'))" if "(c, N, False) \<in> R'" for c N
    using seenD(4-6) [OF S, of c N] t [OF that] that R(1) by blast
  ultimately show ?thesis using c unfolding seen_def by blast
qed

end
