(* ===== verification/CacheLockFree.thy ===== *)
theory CacheLockFree
  imports CacheTraces
begin

text \<open>Every operation is a path that keeps readers safe.\<close>

subsection \<open>The parts of the operations\<close>

lemma grown_seen:
  assumes S: "seen E good cls X s R b n" and gr: "grown E b0 n0 s s'" and el: "emptyBucketsList s' = emptyBucketsList s @ zs" "set zs \<subseteq> {b0}"
    and evs: "\<forall>e\<in>set evs. block_event b0 n0 e" and m: "memory s' = fold apply_event evs (memory s)"
    and o: "b0 \<noteq> objc_empty_cache E"
  shows "path (arch E) good cls R b n (memory s) evs R b n" "seen E good cls X s' R b n"
proof -
  have g: "heap_ok E s'" "blocks s' = (b0, n0) # blocks s" "b0 \<notin> fst ` set (blocks s)" "cache_of (memory s') = cache_of (memory s)" "garbage_refs s' = garbage_refs s"
    using gr by (simp_all add: grown_def)
  have out: "b' \<noteq> b0" if "(b', N, z) \<in> R" for b' N z using seen_block [OF S that] g(3) o by force
  have bl: "(b0, n0) \<in> set (blocks s')" "\<And>c N. (c, N) \<in> set (blocks s) \<Longrightarrow> (c, N) \<in> set (blocks s')" using g(2) by simp_all
  have dis: "bucket_slots b0 n0 \<inter> bucket_slots b' N = {}" if "(b', N, z) \<in> R" for b' N z
    using outside_quiet [OF S g(1) bl out that] .
  then have "\<forall>b' N z. (b', N, z) \<in> R \<longrightarrow> bucket_slots b0 n0 \<inter> bucket_slots b' N = {}" by blast
  then have "\<forall>e\<in>set evs. quiet cls R e" using evs block_event_quiet by blast
  then show p: "path (arch E) good cls R b n (memory s) evs R b n" using quiet_path [OF seenD(1) [OF S]] by blast
  show "seen E good cls X s' R b n"
  proof (rule seen_keep [OF S p m])
    show "cache_at (arch E) (cache_of (memory s') cls) b n" using seenD(2) [OF S] g(4) by simp
    show "(c, N) \<in> set (blocks s') \<and> c \<in> set (emptyBucketsList s')" if "(c, N) \<in> set (blocks s)" "c \<in> set (emptyBucketsList s)" for c N using that g(2) el(1) by simp
    show "(c, N) \<in> set (blocks s') \<and> c \<notin> set (emptyBucketsList s') \<and> (c = b \<or> c \<in> set (garbage_refs s' @ X))"
      if "(c, N, False) \<in> R" "(c, N) \<in> set (blocks s)" "c \<notin> set (emptyBucketsList s)" "c = b \<or> c \<in> set (garbage_refs s @ X)" for c N
      using that out [OF that(1)] g(2,5) el by auto
  qed simp_all
qed

lemma publish_other:
  assumes S: "seen E good cls X s R b n" and d: "d \<noteq> cls" and s': "s' = setBucketsAndMask E d b1 (n1 - 1) s"
  shows "path (arch E) good cls R b n (memory s) (publish_events (arch E) d b1 n1) R b n" "seen E good cls X s' R b n"
proof -
  have "\<forall>e\<in>set (publish_events (arch E) d b1 n1). quiet cls R e" using d by (simp add: publish_events_def)
  then show p: "path (arch E) good cls R b n (memory s) (publish_events (arch E) d b1 n1) R b n" using quiet_path [OF seenD(1) [OF S]] by blast
  show "seen E good cls X s' R b n"
    by (rule seen_keep [OF S p]) (use seenD(2) [OF S] setBucketsAndMask_fields [OF s'] setBucketsAndMask_events(2) s' d in auto)
qed

lemma publish_own:
  assumes S: "seen E good cls X s R b n" and s': "s' = setBucketsAndMask E cls b1 (n1 - 1) s"
    and r: "region_mem (arch E) good cls (memory s) b1 N z" "n \<le> n1" "n1 \<le> N" "\<not> z \<Longrightarrow> n1 = N"
    and new: "z \<Longrightarrow> (b1 = objc_empty_cache E \<and> N = EMPTY_SLOTS) \<or> (b1 \<in> set (emptyBucketsList s) \<and> (b1, N) \<in> set (blocks s))"
      "\<not> z \<Longrightarrow> (b1, N) \<in> set (blocks s) \<and> b1 \<notin> set (emptyBucketsList s)"
    and old: "\<And>N. (b, N, False) \<in> R \<Longrightarrow> b \<in> set (garbage_refs s @ X)"
  shows "path (arch E) good cls R b n (memory s) (publish_events (arch E) cls b1 n1) (insert (b1, N, z) R) b1 n1"
    "seen E good cls X s' (insert (b1, N, z) R) b1 n1"
proof -
  show p: "path (arch E) good cls R b n (memory s) (publish_events (arch E) cls b1 n1) (insert (b1, N, z) R) b1 n1"
    by (rule publish_path [OF seenD(1) [OF S] r])
  note f = setBucketsAndMask_fields [OF s'] and d = seenD [OF S]
  have "view_ok (arch E) good cls (memory s') (insert (b1, N, z) R) b1 n1" using path_final [OF p] setBucketsAndMask_events(2) s' by metis
  moreover have "(c = objc_empty_cache E \<and> N' = EMPTY_SLOTS) \<or> (c \<in> set (emptyBucketsList s') \<and> (c, N') \<in> set (blocks s'))" if "(c, N', True) \<in> insert (b1, N, z) R" for c N'
    using that d(3) [of c N'] new(1) f(5,6) by auto
  moreover have "(c, N') \<in> set (blocks s') \<and> c \<notin> set (emptyBucketsList s') \<and> (c = b1 \<or> c \<in> set (garbage_refs s' @ X))" if "(c, N', False) \<in> insert (b1, N, z) R" for c N'
    using that d(4-6) [of c N'] new(2) old f(5-7) by auto
  ultimately show "seen E good cls X s' (insert (b1, N, z) R) b1 n1" using f(1) unfolding seen_def by blast
qed

text \<open>Garbage is freed when the reader is idle; the view shrinks to what is in use.\<close>

definition in_use :: "region set \<Rightarrow> u64 \<Rightarrow> region set" where
  "in_use R b = {x \<in> R. snd (snd x) \<or> fst x = b}"

lemma frees_seen:
  assumes S: "seen E good cls X s R b n" and h: "heap_ok E s" and refs: "set refs \<subseteq> fst ` set (blocks s)" "set refs \<inter> set (emptyBucketsList s) = {}"
    and b: "\<forall>N. (b, N, False) \<in> R \<longrightarrow> b \<notin> set refs"
  shows "path (arch E) good cls R b n (memory s) (No_readers # frees refs s) (in_use R b) b n"
proof -
  let ?R = "in_use R b"
  have sub: "?R \<subseteq> R" by (auto simp: in_use_def)
  have v: "view_ok (arch E) good cls (memory s) ?R b n" using seenD(1) [OF S] unfolding view_ok_def in_use_def by auto
  have "quiet cls ?R e" if "e \<in> set (frees refs s)" for e
  proof -
    obtain d where d: "d \<in> set refs" "e = Free d (the (map_of (blocks s) d))" using \<open>e \<in> set (frees refs s)\<close> by (auto simp: frees_def)
    then obtain k where k: "(d, k) \<in> set (blocks s)" using refs(1) by auto
    then have e: "e = Free d k" using d(2) heap_okD(2) [OF h] by simp
    have "b' \<noteq> d" if x: "(b', N, z) \<in> ?R" for b' N z
    proof (cases z)
      case True
      then have "b' = objc_empty_cache E \<and> N = EMPTY_SLOTS \<or> b' \<in> set (emptyBucketsList s)" using seenD(3) [OF S, of b' N] x sub by auto
      moreover have "d \<noteq> objc_empty_cache E" using heap_okD(5,7) [OF h k] base_in_slots [of k d] base_in_slots [of EMPTY_SLOTS "objc_empty_cache E"]
        by (auto simp: EMPTY_SLOTS_def)
      ultimately show ?thesis using refs(2) d(1) by blast
    next
      case False
      then have "b' = b" "(b, N, False) \<in> R" using x by (auto simp: in_use_def)
      then show ?thesis using b d(1) by auto
    qed
    then have "bucket_slots d k \<inter> bucket_slots b' N = {}" if "(b', N, z) \<in> ?R" for b' N z
      using outside_quiet [OF S h k, of] seen_block [OF S] that sub heap_okD(7,8) [OF h k] by blast
    then show ?thesis unfolding e by simp
  qed
  then have "path (arch E) good cls ?R b n (memory s) (frees refs s) ?R b n" using quiet_path [OF v] by blast
  then show ?thesis by (intro path_event [OF seenD(1) [OF S]]) auto
qed


lemma collected_seen:
  assumes S: "seen E good cls X s R b n" and h: "heap_ok E s" and k: "kept E (set refs) s s'" and c: "collected refs s s' evs" and t: "traced s s'" "history s' = history s @ evs"
    and refs: "refs = garbage_refs s @ X" "set refs \<subseteq> fst ` set (blocks s)" "set refs \<inter> set (emptyBucketsList s) = {}"
    and b: "\<forall>N. (b, N, False) \<in> R \<longrightarrow> b \<notin> set refs"
  shows "\<exists>R'. path (arch E) good cls R b n (memory s) evs R' b n \<and> seen E good cls [] s' R' b n"
proof -
  note m = traced_ev [OF t]
  have ce: "cache_at (arch E) (cache_of (memory s') cls) b n" and el: "emptyBucketsList s' = emptyBucketsList s"
    and kp: "\<And>c N. (c, N) \<in> set (blocks s) \<Longrightarrow> c \<notin> set refs \<Longrightarrow> (c, N) \<in> set (blocks s')"
    using seenD(2) [OF S] k by (auto simp: kept_def)
  show ?thesis
  proof (cases "evs = []")
    case True
    then have g: "garbage_refs s' = refs" "blocks s' = blocks s" using c by (auto simp: collected_def)
    have p: "path (arch E) good cls R b n (memory s) evs R b n" using path_end [OF seenD(1) [OF S]] True by simp
    have "seen E good cls [] s' R b n" by (rule seen_keep [OF S p m _ _ _ ce]) (use g el refs(1) in auto)
    then show ?thesis using p by blast
  next
    case False
    then have evs: "evs = No_readers # frees refs s" using c by (auto simp: collected_def)
    have p: "path (arch E) good cls R b n (memory s) evs (in_use R b) b n" unfolding evs by (rule frees_seen [OF S h refs(2,3) b])
    have "seen E good cls [] s' (in_use R b) b n"
    proof (rule seen_keep [OF S p m _ refl refl ce])
      show "in_use R b \<subseteq> R" by (auto simp: in_use_def)
      show "(c, N) \<in> set (blocks s') \<and> c \<in> set (emptyBucketsList s')" if "(c, N) \<in> set (blocks s)" "c \<in> set (emptyBucketsList s)" for c N
        using kp that refs(3) el by auto
      show "(c, N) \<in> set (blocks s') \<and> c \<notin> set (emptyBucketsList s') \<and> (c = b \<or> c \<in> set (garbage_refs s' @ []))"
        if "(c, N, False) \<in> in_use R b" "(c, N) \<in> set (blocks s)" "c \<notin> set (emptyBucketsList s)" for c N
        using that b kp el by (auto simp: in_use_def)
    qed
    then show ?thesis using p by blast
  qed
qed

lemma garbage_blocks:
  assumes "others_ok E good C X s A"
  shows "set (garbage_refs s @ X) \<subseteq> fst ` set (blocks s)" "set (garbage_refs s @ X) \<inter> set (emptyBucketsList s) = {}"
  using others_okD(3) [OF assms] by (force simp: garbage_ok_def)+

lemma collect_free_seen:
  assumes O: "others_ok E good C [data] s A" and C: "\<And>c. c \<in> C \<Longrightarrow> occupied (cache_of (memory s) c) = 0" and S: "seen E good cls [data] s R b n"
    and b: "\<forall>N. (b, N, False) \<in> R \<longrightarrow> b \<notin> set (garbage_refs s @ [data])" and s': "collect_free E data cap s = Some s'"
  shows "\<exists>evs R'. history s' = history s @ evs \<and> path (arch E) good cls R b n (memory s) evs R' b n \<and> seen E good cls [] s' R' b n"
proof -
  obtain evs where e: "kept E (set (garbage_refs s @ [data])) s s'" "history s' = history s @ evs" "collected (garbage_refs s @ [data]) s s' evs"
    using collect_free_spec [OF O C, of cap] s' by auto
  from collected_seen [OF S others_okD(1) [OF O] e(1,3) traced_collect_free [OF s'] e(2) refl garbage_blocks [OF O] b] show ?thesis using e(2) by blast
qed

text \<open>The table that a class uses is not garbage.\<close>

lemma seen_buckets:
  assumes "seen E good cls X s R b n"
  shows "cache_buckets (arch E) (cache_of (memory s) cls) = b" "capacity (arch E) (cache_of (memory s) cls) = (if n = 1 then 0 else n)"
proof -
  note v = seenD(1) [OF assms]
  obtain N z where N: "(b, N, z) \<in> R" "n \<le> N" using view_okD(2) [OF v] by blast
  have "block_ok (arch E) b n" "n \<le> 65536" using view_okD(1) [OF v N(1)] N(2) block_ok_mono by (auto simp: region_mem_def)
  from cache_at_fields [OF seenD(2) [OF assms] this(1) view_okD(3) [OF v] this(2)]
  show "cache_buckets (arch E) (cache_of (memory s) cls) = b" "capacity (arch E) (cache_of (memory s) cls) = (if n = 1 then 0 else n)" by simp_all
qed

lemma empty_cache_not_block: "heap_ok E s \<Longrightarrow> (objc_empty_cache E, N) \<notin> set (blocks s)"
  using heap_okD(5,7) [of E s "objc_empty_cache E" N] base_in_slots [of N "objc_empty_cache E"] base_in_slots [of EMPTY_SLOTS "objc_empty_cache E"]
  by (auto simp: EMPTY_SLOTS_def)

lemma published_table:
  assumes O: "others_ok E good C X s A" and cls: "cls \<notin> C" and S: "seen E good cls X s R b n" and t: "(b, N, False) \<in> R"
  shows "\<exists>cap f g. owned E good X s cls b cap f g" "occupied (cache_of (memory s) cls) \<noteq> 0"
proof -
  note o = others_okD [OF O] and sb = seen_buckets [OF S]
  have k: "cls_ok E good X s cls (A cls)" using o(4) [OF cls] .
  have "snd (A cls) \<noteq> Map.empty"
  proof
    assume "snd (A cls) = Map.empty"
    then obtain c where c: "empty_for E s (fst (A cls)) c" "cache_at (arch E) (cache_of (memory s) cls) c (max 1 (fst (A cls)))" "fst (A cls) = 0 \<or> table_size (fst (A cls))"
      using k by (auto simp: cls_ok_def cls_empty_def)
    have "max 1 (fst (A cls)) \<le> 65536" using c(3) table_sizeD [of "fst (A cls)"] by auto
    with cache_at_fields(2) [OF c(2) empty_for_zero(1) [OF o(1,2) c(1,3)]] have "c = b" using sb(1) by simp
    then have "b = objc_empty_cache E \<or> b \<in> set (emptyBucketsList s)" using c(1) emptyBuckets_eq [OF o(1)] by (auto simp: empty_for_eq split: if_splits)
    then show False using seenD(4,5) [OF S t] empty_cache_not_block [OF o(1)] by blast
  qed
  then have "cls_full E good X s cls (fst (A cls)) (snd (A cls))" using k by (simp add: cls_ok_def)
  then obtain b' f g where w: "owned E good X s cls b' (fst (A cls)) f g" "occupied (cache_of (memory s) cls) \<noteq> 0" by (rule full_cases)
  then show "occupied (cache_of (memory s) cls) \<noteq> 0" "\<exists>cap f g. owned E good X s cls b cap f g" using owned_buckets(1) [OF o(1) w(1)] sb(1) by auto
qed

end
