(* ===== verification/CacheSafety.thy ===== *)
theory CacheSafety
  imports CacheLockFree
begin

text \<open>The operations on caches are safe for readers that hold no lock.\<close>

definition advance :: "cache_env \<Rightarrow> (u64 \<Rightarrow> u64 \<Rightarrow> u64 \<Rightarrow> bool) \<Rightarrow> u64 \<Rightarrow> cache_state \<Rightarrow> region set \<Rightarrow> u64 \<Rightarrow> nat \<Rightarrow> u64 list \<Rightarrow> cache_state \<Rightarrow> region set \<Rightarrow> u64 \<Rightarrow> nat \<Rightarrow> bool" where
  "advance E good cls s R b n X' s' R' b' n' \<longleftrightarrow> (\<exists>evs. history s' = history s @ evs \<and> memory s' = fold apply_event evs (memory s) \<and>
     path (arch E) good cls R b n (memory s) evs R' b' n' \<and> seen E good cls X' s' R' b' n')"

lemma advance_trans:
  assumes "advance E good cls s R b n X s1 R1 b1 n1" "advance E good cls s1 R1 b1 n1 X' s2 R2 b2 n2"
  shows "advance E good cls s R b n X' s2 R2 b2 n2"
proof -
  obtain e1 e2 where e: "history s1 = history s @ e1" "memory s1 = fold apply_event e1 (memory s)" "path (arch E) good cls R b n (memory s) e1 R1 b1 n1"
    "history s2 = history s1 @ e2" "memory s2 = fold apply_event e2 (memory s1)" "path (arch E) good cls R1 b1 n1 (memory s1) e2 R2 b2 n2" "seen E good cls X' s2 R2 b2 n2"
    using assms unfolding advance_def by blast
  then show ?thesis unfolding advance_def using path_append [OF e(3), of e2] by (intro exI [of _ "e1 @ e2"]) simp
qed

lemma advanceD: "advance E good cls s R b n X s' R' b' n' \<Longrightarrow> seen E good cls X s' R' b' n'"
  by (auto simp: advance_def)

lemma advance_refl: "seen E good cls X s R b n \<Longrightarrow> advance E good cls s R b n X s R b n"
  using path_end [OF seenD(1)] by (auto simp: advance_def intro: exI [of _ "[]"])

lemma seen_weaken: "seen E good cls X s R b n \<Longrightarrow> set X \<subseteq> set X' \<Longrightarrow> seen E good cls X' s R b n"
  unfolding seen_def set_append by blast

subsection \<open>Reallocation\<close>

lemma allocate_advance:
  assumes S: "seen E good cls X s R b n" and h: "heap_ok E s" and c: "calloc_ok E N" "length (blocks s) < N" and n1: "table_size n1"
    and s1: "cache_allocateBuckets E n1 s = Some (b0, s1)"
  shows "advance E good cls s R b n X s1 R b n"
proof (rule cache_allocateBuckets_spec [OF h c n1])
  fix b' s' assume a: "cache_allocateBuckets E n1 s = Some (b', s')" and gr: "grown E b' n1 s s'" and el: "emptyBucketsList s' = emptyBucketsList s"
    and hi: "history s' = history s @ Alloc b' n1 # (if arch E = X86_64 then [Store_imp (slot b' (n1 - 1)) b', Store_sel (slot b' (n1 - 1)) 1] else [])" (is "_ = _ @ ?evs")
  have eq: "b' = b0" "s' = s1" using a s1 by auto
  have m: "memory s' = fold apply_event ?evs (memory s)" using traced_ev [OF traced_allocate [OF a] hi] .
  have "n1 - 1 < n1" using table_sizeD [OF n1] by simp
  then have evs: "\<forall>e\<in>set ?evs. block_event b' n1 e" by auto
  have h': "heap_ok E s'" and "(b', n1) \<in> set (blocks s')" using gr by (simp_all add: grown_def)
  then have o: "b' \<noteq> objc_empty_cache E" using empty_cache_not_block [OF h'] by blast
  have el': "emptyBucketsList s' = emptyBucketsList s @ []" "set ([] :: u64 list) \<subseteq> {b'}" using el by simp_all
  show ?thesis unfolding advance_def using grown_seen [OF S gr el' evs m o] hi m eq by metis
qed

lemma publish_advance:
  assumes S: "seen E good cls X s R b n" and s': "s' = setBucketsAndMask E d b1 (n1 - 1) s"
    and own: "d = cls \<Longrightarrow> region_mem (arch E) good cls (memory s) b1 N z \<and> n \<le> n1 \<and> n1 \<le> N \<and> (\<not> z \<longrightarrow> n1 = N) \<and>
      (z \<longrightarrow> (b1 = objc_empty_cache E \<and> N = EMPTY_SLOTS) \<or> (b1 \<in> set (emptyBucketsList s) \<and> (b1, N) \<in> set (blocks s))) \<and>
      (\<not> z \<longrightarrow> (b1, N) \<in> set (blocks s) \<and> b1 \<notin> set (emptyBucketsList s)) \<and> (\<forall>N. (b, N, False) \<in> R \<longrightarrow> b \<in> set (garbage_refs s @ X))"
  shows "\<exists>R' b' n'. advance E good cls s R b n X s' R' b' n' \<and> (d \<noteq> cls \<longrightarrow> R' = R \<and> b' = b \<and> n' = n) \<and> (d = cls \<longrightarrow> b' = b1)"
proof -
  note ev = setBucketsAndMask_events [of E d b1 n1 s, folded s']
  show ?thesis
  proof (cases "d = cls")
    case True
    note o = own [OF True]
    have "path (arch E) good cls R b n (memory s) (publish_events (arch E) d b1 n1) (insert (b1, N, z) R) b1 n1"
      "seen E good cls X s' (insert (b1, N, z) R) b1 n1"
      using publish_own [OF S s' [unfolded True], of N z] o True by blast+
    then show ?thesis using ev True unfolding advance_def by blast
  next
    case False
    from publish_other [OF S False s'] ev False show ?thesis unfolding advance_def by blast
  qed
qed

text \<open>What a class shows to its readers never shrinks.\<close>

lemma seen_size:
  assumes "caches_ok E good s A" "seen E good cls X s R b n"
  shows "n = max 1 (fst (A cls))"
proof -
  have "0 < n" using view_okD(3) [OF seenD(1) [OF assms(2)]] .
  then show ?thesis using seen_buckets(2) [OF assms(2)] isConstantEmptyCache_iff(2) [OF assms(1), of cls] by (auto simp: max_def split: if_splits)
qed

lemma published_released:
  assumes K: "caches_ok E good s A" and S: "seen E good cls [] s R b n" and t: "(b, N, False) \<in> R"
    and X: "if snd (A cls) = Map.empty then X = [] else X = [cache_buckets (arch E) (cache_of (memory s) cls)]"
  shows "b \<in> set X"
proof -
  have "occupied (cache_of (memory s) cls) \<noteq> 0" using published_table(2) [OF K [unfolded caches_ok_def] _ S t] by simp
  then have "snd (A cls) \<noteq> Map.empty" using caches_okD(4) [OF K, of cls] by (auto simp: cls_empty_def)
  then show ?thesis using X seen_buckets(1) [OF S] by simp
qed


lemma fresh_region:
  assumes h: "heap_ok E s" and b: "(b0, n) \<in> set (blocks s)" and t: "table_at (arch E) (memory s) b0 n (fresh_sel (arch E) n) g"
  shows "region_mem (arch E) good cls (memory s) b0 n False"
proof -
  have "region_ok (arch E) good (memory s) b0 n cls" using t fresh_cells(3) unfolding region_ok_def by blast
  then show ?thesis using heap_okD(4-6) [OF h b] by (simp add: region_mem_def)
qed

lemma collect_advance:
  assumes O: "others_ok E good {d} [data] s A" and occ: "occupied (cache_of (memory s) d) = 0" and S: "seen E good cls [data] s R b n"
    and own: "d = cls \<Longrightarrow> b \<notin> set (garbage_refs s @ [data])" and s': "collect_free E data cap s = Some s'"
  shows "\<exists>R'. advance E good cls s R b n [] s' R' b n"
proof -
  have "b \<notin> set (garbage_refs s @ [data])" if t: "(b, N, False) \<in> R" for N
  proof (cases "d = cls")
    case False
    then obtain cap f g where "owned E good [data] s cls b cap f g" using published_table(1) [OF O _ S t] by auto
    then show ?thesis by (rule ownedD(7))
  qed (rule own)
  then have b: "\<forall>N. (b, N, False) \<in> R \<longrightarrow> b \<notin> set (garbage_refs s @ [data])" by blast
  have "\<And>c. c \<in> {d} \<Longrightarrow> occupied (cache_of (memory s) c) = 0" using occ by simp
  from collect_free_seen [OF O this S b s'] traced_ev [OF traced_collect_free [OF s']] show ?thesis unfolding advance_def by blast
qed

lemma reallocate_advance:
  assumes K: "caches_ok E good s A" and c: "calloc_ok E N" "length (blocks s) < N" and n1: "table_size n1" "fst (A d) \<le> n1"
    and old: "freeOld \<longleftrightarrow> snd (A d) \<noteq> Map.empty" and S: "seen E good cls [] s R b n" and s': "reallocate E d oldCap n1 freeOld s = Some s'"
  shows "\<exists>R' b' n'. advance E good cls s R b n [] s' R' b' n'"
proof -
  obtain X where X: "others_ok E good {d} X s A" "if snd (A d) = Map.empty then X = [] else X = [cache_buckets (arch E) (cache_of (memory s) d)]" "cache_apart E {d} s"
    by (rule release_class [OF K])
  have SX: "seen E good cls X s R b n" by (rule seen_weaken [OF S]) simp
  obtain b0 s1 where s1: "cache_allocateBuckets E n1 s = Some (b0, s1)" "grown E b0 n1 s s1" "emptyBucketsList s1 = emptyBucketsList s"
    "table_at (arch E) (memory s1) b0 n1 (fresh_sel (arch E) n1) (fresh_imp (arch E) b0 n1)"
    by (rule cache_allocateBuckets_spec [OF others_okD(1) [OF X(1)] c n1(1)]) blast
  have a1: "advance E good cls s R b n X s1 R b n" by (rule allocate_advance [OF SX others_okD(1) [OF X(1)] c n1(1) s1(1)])
  have g: "heap_ok E s1" "(b0, n1) \<in> set (blocks s1)" "garbage_refs s1 = garbage_refs s" using s1(2) by (auto simp: grown_def)
  define s2 where s2: "s2 = setBucketsAndMask E d b0 (n1 - 1) s1"
  have O2: "others_ok E good {d} X s2 A"
    by (rule set_frame [OF grown_frame [OF X(1) s1(2), of "[]"] s2]) (use s1(3) X(3) empties_grown [OF others_okD(2) [OF X(1)] s1(2)] in auto)
  have w2: "owned E good X s2 d b0 n1 (fresh_sel (arch E) n1) (fresh_imp (arch E) b0 n1)" by (rule new_table_owned [OF X(1) s1(2-4) s2])
  have "d = cls \<Longrightarrow> n \<le> n1" using seen_size [OF K S] n1 table_sizeD [OF n1(1)] by auto
  moreover have "\<forall>N. (b, N, False) \<in> R \<longrightarrow> b \<in> set (garbage_refs s1 @ X)" if "d = cls" using published_released [OF K S] X(2) that by auto
  moreover have "b0 \<notin> set (emptyBucketsList s1)" using ownedD(8) [OF w2] setBucketsAndMask_fields(6) [OF s2] by simp
  ultimately have "d = cls \<Longrightarrow> region_mem (arch E) good cls (memory s1) b0 n1 False \<and> n \<le> n1 \<and> n1 \<le> n1 \<and> (\<not> False \<longrightarrow> n1 = n1) \<and>
      (False \<longrightarrow> (b0 = objc_empty_cache E \<and> n1 = EMPTY_SLOTS) \<or> (b0 \<in> set (emptyBucketsList s1) \<and> (b0, n1) \<in> set (blocks s1))) \<and>
      (\<not> False \<longrightarrow> (b0, n1) \<in> set (blocks s1) \<and> b0 \<notin> set (emptyBucketsList s1)) \<and> (\<forall>N. (b, N, False) \<in> R \<longrightarrow> b \<in> set (garbage_refs s1 @ X))"
    using fresh_region [OF g(1,2) s1(4)] g(2) by blast
  then obtain R2 b2 n2 where a2: "advance E good cls s1 R b n X s2 R2 b2 n2" "d = cls \<longrightarrow> b2 = b0"
    using publish_advance [OF advanceD [OF a1] s2] by blast
  note a12 = advance_trans [OF a1 a2(1)]
  have m: "u32_sub n1 1 = n1 - 1" by (rule mask_of_size [OF n1(1)])
  show ?thesis
  proof (cases "snd (A d) = Map.empty")
    case True
    then have "s' = s2" "X = []" using s' s1(1) s2 m old X(2) by (auto simp: reallocate_def Let_def)
    then show ?thesis using a12 by blast
  next
    case False
    let ?d = "cache_buckets (arch E) (cache_of (memory s) d)"
    have Xd: "X = [?d]" and cf: "collect_free E ?d oldCap s2 = Some s'" using s' s1(1) s2 m old X(2) False by (auto simp: reallocate_def Let_def)
    have "d = cls \<Longrightarrow> b2 \<notin> set (garbage_refs s2 @ [?d])" using ownedD(7) [OF w2] a2(2) Xd by simp
    then obtain R3 where "advance E good cls s2 R2 b2 n2 [] s' R3 b2 n2"
      using collect_advance [OF O2 [unfolded Xd] setBucketsAndMask_fields(2) [OF s2] advanceD [OF a2(1), unfolded Xd] _ cf] by blast
    then show ?thesis using advance_trans [OF a12 [unfolded Xd]] by blast
  qed
qed


subsection \<open>Insertion\<close>

text \<open>A table and the view: readers of its class see it, all others lie apart from it.\<close>

lemma block_unique: "heap_ok E s \<Longrightarrow> (b, n) \<in> set (blocks s) \<Longrightarrow> (b, n') \<in> set (blocks s) \<Longrightarrow> n' = n"
  using heap_okD(2) by (metis map_of_is_SomeI option.inject)

lemma table_region:
  assumes h: "heap_ok E s" and w: "owned E good [] s d bd cap f g" and S: "seen E good cls [] s R b n" and x: "(b', N, z) \<in> R"
  shows "b' = bd \<Longrightarrow> N = cap \<and> \<not> z" and "b' \<noteq> bd \<Longrightarrow> bucket_slots bd cap \<inter> bucket_slots b' N = {}"
proof -
  note d = ownedD [OF w]
  show "b' \<noteq> bd \<Longrightarrow> bucket_slots bd cap \<inter> bucket_slots b' N = {}" using seen_block [OF S x] heap_okD(7,8) [OF h d(1)] by blast
  show "N = cap \<and> \<not> z" if "b' = bd"
  proof (cases z)
    case True
    then have "b' = objc_empty_cache E \<or> b' \<in> set (emptyBucketsList s)" using seenD(3) [OF S, of b' N] x by auto
    then show ?thesis using that d(1,8) empty_cache_not_block [OF h] by blast
  next
    case False
    then have "(bd, N) \<in> set (blocks s)" using seenD(4) [OF S, of b' N] x that by auto
    then show ?thesis using block_unique [OF h d(1)] False by simp
  qed
qed

lemma own_region:
  assumes h: "heap_ok E s" and w: "owned E good [] s cls bd cap f g" and S: "seen E good cls [] s R b n"
  shows "b = bd" "(bd, cap, False) \<in> R"
proof -
  show e: "b = bd" using owned_buckets(1) [OF h w] seen_buckets(1) [OF S] by simp
  obtain N z where "(b, N, z) \<in> R" using view_okD(2) [OF seenD(1) [OF S]] by blast
  then show "(bd, cap, False) \<in> R" using table_region(1) [OF h w S] e by force
qed

lemma other_region:
  assumes O: "others_ok E good {d} [] s A" and w: "owned E good [] s d bd cap f g" and S: "seen E good cls [] s R b n" and d: "d \<noteq> cls" and x: "(b', N, z) \<in> R"
  shows "b' \<noteq> bd"
proof
  note h = others_okD(1) [OF O] and o = ownedD [OF w]
  assume e: "b' = bd"
  then have x': "(bd, cap, False) \<in> R" using table_region(1) [OF h w S x] x by simp
  then have "bd = b" using seenD(6) [OF S x'] o(7) by auto
  then have "occupied (cache_of (memory s) cls) \<noteq> 0" using published_table(2) [OF O _ S] x' d by auto
  then show False using o(9) [of cls] seen_buckets(1) [OF S] d \<open>bd = b\<close> by simp
qed

lemma store_advance:
  assumes O: "others_ok E good {d} [] s A" and w: "owned E good [] s d bd cap f g" and S: "seen E good cls [] s R b n"
    and p: "p < cap" "f p = 0" and sel: "sel \<noteq> 0" "sel \<noteq> 1" and imp: "imp \<noteq> 0" "imp \<noteq> d" "good d sel imp"
    and s': "bucket_set E True True (slot bd p) sel imp d (incrementOccupied d s) = Some s'"
  shows "advance E good cls s R b n [] s' R b n"
proof -
  note h = others_okD(1) [OF O] and o = ownedD [OF w]
  let ?p = "slot bd p"
  have bk: "bucket_at (memory s) ?p = Some \<lparr>bucket_sel = f p, bucket_imp = g p\<rparr>" by (rule table_atD(5) [OF o(3) p(1)])
  obtain k where ev: "history s' = history s @ entry_events (arch E) d k ?p sel (encodeImp imp d)"
    "memory s' = fold apply_event (entry_events (arch E) d k ?p sel (encodeImp imp d)) (memory s)"
    using bucket_set_entry_events [OF s' bk] p(2) sel(1) by auto
  have c: "cache_of (memory s') = (cache_of (memory s))(d := (cache_of (memory s) d)\<lparr>occupied := (occupied (cache_of (memory s) d) + 1) mod 2 ^ 16\<rparr>)"
    "blocks s' = blocks s" "emptyBucketsList s' = emptyBucketsList s" "garbage_refs s' = garbage_refs s"
    using bucket_set_events [OF bk, of sel E imp d] s' p(2) sel(1) by auto
  have "path (arch E) good cls R b n (memory s) (entry_events (arch E) d k ?p sel (encodeImp imp d)) R b n"
  proof (cases "d = cls")
    case True
    have "b' = bd \<and> N' = cap \<and> \<not> z" if "(b', N', z) \<in> R" "?p \<in> bucket_slots b' N'" for b' N' z
      using table_region [OF h w S that(1)] slot_in_slots [OF p(1), of bd] that(2) by blast
    then have "\<forall>b' N' z. (b', N', z) \<in> R \<and> ?p \<in> bucket_slots b' N' \<longrightarrow> b' = bd \<and> N' = cap \<and> \<not> z" by blast
    from entry_path [OF seenD(1) [OF S] own_region(2) [OF h w [unfolded True] S] this p(1) bk] show ?thesis
      using p(2) sel imp decode_encodeImp [OF imp(1,2)] True by simp
  next
    case False
    have "bucket_slots bd cap \<inter> bucket_slots b' N = {}" if "(b', N, z) \<in> R" for b' N z
      by (rule table_region(2) [OF h w S that other_region [OF O w S False that]])
    then have "\<forall>b' N z. (b', N, z) \<in> R \<longrightarrow> bucket_slots bd cap \<inter> bucket_slots b' N = {}" by blast
    moreover have "\<forall>e\<in>set (entry_events (arch E) d k ?p sel (encodeImp imp d)). block_event bd cap e" using p(1) by (simp add: entry_events_def)
    ultimately have "\<forall>e\<in>set (entry_events (arch E) d k ?p sel (encodeImp imp d)). quiet cls R e" by (metis block_event_quiet)
    then show ?thesis by (rule quiet_path [OF seenD(1) [OF S]])
  qed
  moreover have "seen E good cls [] s' R b n"
    by (rule seen_keep [OF S calculation ev(2)]) (use seenD(2) [OF S] c in \<open>auto simp: cache_at_def\<close>)
  ultimately show ?thesis using ev unfolding advance_def by blast
qed

lemma insert_scan_advance:
  assumes O: "others_ok E good {d} [] s A" and w: "owned E good [] s d bd cap f g" and room: "room_ok (arch E) cap (card (bucket_entries (arch E) cap f) + 1)"
    and S: "seen E good cls [] s R b n" and sel: "sel \<noteq> 0" "sel \<noteq> 1" and imp: "imp \<noteq> 0" "imp \<noteq> d" "good d sel imp"
    and s': "insert_scan E bd (cap - 1) (cache_hash (arch E) sel (cap - 1)) (cache_hash (arch E) sel (cap - 1)) sel imp d s = Some s'"
  shows "advance E good cls s R b n [] s' R b n"
proof -
  let ?a = "arch E" and ?h = "cache_hash (arch E) sel (cap - 1)"
  note o = ownedD [OF w]
  note n = table_atD(1) [OF o(3)]
  note spec = insert_scan_spec [OF o(3,4) sel refl free_cell [OF n room], of imp d]
  show ?thesis
  proof (cases "sel \<in> f ` bucket_entries ?a cap f")
    case True
    then show ?thesis using spec(1) s' advance_refl [OF S] by simp
  next
    case False
    then obtain k where "k < cap" "f (pos ?a cap ?h k) = 0"
      "bucket_set E True True (slot bd (pos ?a cap ?h k)) sel imp d (incrementOccupied d s) = Some s'"
      using spec(2) s' by auto
    then show ?thesis using store_advance [OF O w S pos_less [OF cache_hash_less [OF n]] _ sel imp] by blast
  qed
qed

end
