(* ===== verification/CacheConcurrency.thy ===== *)
theory CacheConcurrency
  imports CacheSafety CacheRuns
begin

text \<open>Runs of operations with a reader between any two of their stores.\<close>

subsection \<open>Insertion, erasure, collection\<close>

lemma insert_new_advance:
  assumes K: "caches_ok E good s A" and c: "calloc_ok E N" "length (blocks s) < N" and n: "table_size cap" "INIT_CACHE_SIZE (arch E) \<le> cap" "fst (A d) \<le> cap"
    and fo: "fo \<longleftrightarrow> snd (A d) \<noteq> Map.empty" and sel: "sel \<noteq> 0" "sel \<noteq> 1" and imp: "imp \<noteq> 0" "imp \<noteq> d" "good d sel imp"
    and S: "seen E good cls [] s R b n" and s': "insert_new E d sel imp oldCap cap fo s = Some s'"
  shows "\<exists>R' b' n'. advance E good cls s R b n [] s' R' b' n'"
proof -
  obtain s1 where s1: "reallocate E d oldCap cap fo s = Some s1" "renewed E good d cap A s1" using reallocate_spec [OF K c n(1) fo] by blast
  obtain R1 b1 n1 where a1: "advance E good cls s R b n [] s1 R1 b1 n1" using reallocate_advance [OF K c n(1,3) fo S s1(1)] by blast
  obtain bd f g where O: "others_ok E good {d} [] s1 A" and w: "owned E good [] s1 d bd cap f g" and e: "bucket_entries (arch E) cap f = {}"
    using s1(2) by (auto simp: renewed_def)
  have room: "room_ok (arch E) cap (card (bucket_entries (arch E) cap f) + 1)" using e room_init [OF n(1,2)] by simp
  have "insert_scan E bd (cap - 1) (cache_hash (arch E) sel (cap - 1)) (cache_hash (arch E) sel (cap - 1)) sel imp d s1 = Some s'"
    using s' s1(1) owned_buckets(1) [OF others_okD(1) [OF O] w] mask_of_size [OF n(1)] by (simp add: insert_new_def)
  from insert_scan_advance [OF O w room advanceD [OF a1] sel imp this] show ?thesis using advance_trans [OF a1] by blast
qed

lemma cache_insert_advance:
  assumes K: "caches_ok E good s A" and c: "calloc_ok E N" "length (blocks s) < N"
    and sel: "sel \<noteq> 0" "sel \<noteq> 1" and imp: "imp \<noteq> 0" "imp \<noteq> d" "good d sel imp"
    and S: "seen E good cls [] s R b n" and s': "cache_insert E d sel imp s = Some s'"
  shows "\<exists>R' b' n'. advance E good cls s R b n [] s' R' b' n'"
proof (cases "class_isInitialized E d")
  case init: True
  let ?a = "arch E" and ?cap = "fst (A d)" and ?M = "snd (A d)"
  consider "?M = Map.empty" | "?M \<noteq> Map.empty" "room_ok ?a ?cap (card (dom ?M) + 1)" | "?M \<noteq> Map.empty" "\<not> room_ok ?a ?cap (card (dom ?M) + 1)" by blast
  then show ?thesis
  proof cases
    case 1
    let ?n = "if ?cap = 0 then INIT_CACHE_SIZE ?a else ?cap"
    have n: "table_size ?n" "INIT_CACHE_SIZE ?a \<le> ?n" "?cap \<le> ?n" using isConstantEmptyCache_iff(3) [OF K 1] init_size by auto
    show ?thesis by (rule insert_new_advance [OF K c n _ sel imp S, of False ?cap]) (use s' insert_empty [OF K init 1] 1 in auto)
  next
    case 2
    obtain bd f g where w: "owned E good [] s d bd ?cap f g" "room_ok ?a ?cap (card (bucket_entries ?a ?cap f) + 1)"
      "cache_insert E d sel imp s = insert_scan E bd (?cap - 1) (cache_hash ?a sel (?cap - 1)) (cache_hash ?a sel (?cap - 1)) sel imp d s"
      by (rule insert_room_scan [OF K init 2])
    from insert_scan_advance [OF caches_others [OF K] w(1,2) S sel imp s' [unfolded w(3)]] show ?thesis by blast
  next
    case 3
    note fs = full_size [OF caches_okD(1) [OF K] caches_okD(5) [OF K 3(1)]]
    let ?n = "min (2 * ?cap) MAX_CACHE_SIZE"
    have n: "table_size ?n" "INIT_CACHE_SIZE ?a \<le> ?n" "?cap \<le> ?n" using double_size [OF fs(3)] fs(4) table_sizeD [OF fs(3)] by (auto simp: min_def INIT_CACHE_SIZE_def MAX_CACHE_SIZE_def)
    show ?thesis by (rule insert_new_advance [OF K c n _ sel imp S, of True ?cap]) (use s' insert_full [OF K init 3] 3 in auto)
  qed
next
  case False
  then show ?thesis using s' advance_refl [OF S] by (auto simp: cache_insert_def)
qed

lemma empty_region:
  assumes h: "heap_ok E s" and em: "empties_ok E s" and e: "empty_for E s cap b" and cap: "table_size cap"
  shows "\<exists>N. region_mem (arch E) good cls (memory s) b N True \<and> cap \<le> N \<and>
    ((b = objc_empty_cache E \<and> N = EMPTY_SLOTS) \<or> (b \<in> set (emptyBucketsList s) \<and> (b, N) \<in> set (blocks s)))"
proof (cases "bytesForCapacity cap \<le> EMPTY_BYTES")
  case True
  then have "b = objc_empty_cache E" "cap \<le> EMPTY_SLOTS" using e emptyBuckets_eq [OF h]
    by (auto simp: empty_for_eq bytesForCapacity_def EMPTY_BYTES_def EMPTY_SLOTS_def)
  then show ?thesis using heap_okD(3) [OF h] em by (auto simp: empties_ok_def region_mem_def EMPTY_SLOTS_def)
next
  case False
  then have i: "log2u cap < length (emptyBucketsList s)" "b = emptyBucketsList s ! log2u cap" using e by (auto simp: empty_for_eq)
  obtain k where k: "cap = 2 ^ k" using table_size_power [OF cap] by blast
  obtain N where N: "(b, N) \<in> set (blocks s)" "2 ^ log2u cap \<le> N" "zero_at (memory s) b N" using em i by (auto simp: empties_ok_def)
  moreover have "region_mem (arch E) good cls (memory s) b N True" using N heap_okD(4-6) [OF h N(1)] by (simp add: region_mem_def)
  ultimately show ?thesis using i by (auto simp: k log2u_power)
qed

lemma empties_advance:
  assumes O: "others_ok E good C X s A" and c: "calloc_ok E N" "length (blocks s) < N" and n: "table_size cap" and ap: "cache_apart E C s"
    and S: "seen E good cls X s R b n" and e: "emptyBucketsForCapacity E cap True s = (Some b1, s1)"
  shows "advance E good cls s R b n X s1 R b n"
proof (rule emptyBucketsForCapacity_spec [OF O c n ap])
  fix b' s' assume e': "emptyBucketsForCapacity E cap True s = (Some b', s')"
    and "s' = s \<or> (grown E b' cap s s' \<and> history s' = history s @ [Alloc b' cap] \<and> (\<exists>k. emptyBucketsList s' = emptyBucketsList s @ replicate k b'))"
  moreover have "b' = b1" "s' = s1" using e e' by auto
  ultimately consider "s1 = s" | k where "grown E b1 cap s s1" "history s1 = history s @ [Alloc b1 cap]" "emptyBucketsList s1 = emptyBucketsList s @ replicate k b1" by auto
  then show ?thesis
  proof cases
    case 1
    then show ?thesis using advance_refl [OF S] by simp
  next
    case 2
    note m = traced_ev [OF traced_empties [OF e] 2(2)]
    have h1: "heap_ok E s1" and "(b1, cap) \<in> set (blocks s1)" using 2(1) by (simp_all add: grown_def)
    then have o: "b1 \<noteq> objc_empty_cache E" using empty_cache_not_block [OF h1] by blast
    have ev: "\<forall>e\<in>set [Alloc b1 cap]. block_event b1 cap e" by simp
    have z: "set (replicate k b1) \<subseteq> {b1}" by auto
    from grown_seen [OF S 2(1,3) z ev m o] m 2(2) show ?thesis unfolding advance_def by blast
  qed
qed


lemma eraseNolock_advance:
  assumes K: "caches_ok E good s A" and c: "calloc_ok E N" "length (blocks s) < N" and S: "seen E good cls [] s R b n" and s': "eraseNolock E d s = Some s'"
  shows "\<exists>R' b' n'. advance E good cls s R b n [] s' R' b' n'"
proof (cases "snd (A d) = Map.empty")
  case True
  then have "occupied (cache_of (memory s) d) = 0" using caches_okD(4) [OF K] by (simp add: cls_empty_def)
  then have "s' = s" using s' ok_not_optimized [OF K] by (simp add: eraseNolock_def)
  then show ?thesis using advance_refl [OF S] by blast
next
  case False
  let ?d = "cache_buckets (arch E) (cache_of (memory s) d)" and ?cap = "fst (A d)"
  note full = full_size [OF caches_okD(1) [OF K] caches_okD(5) [OF K False]]
  obtain X where X: "others_ok E good {d} X s A" "X = [?d]" "cache_apart E {d} s" by (rule release_class [OF K, of d]) (use False in simp)
  have SX: "seen E good cls [?d] s R b n" by (rule seen_weaken [OF S]) simp
  obtain b1 s1 where s1: "emptyBucketsForCapacity E ?cap True s = (Some b1, s1)" "others_ok E good {d} [?d] s1 A" "empty_for E s1 ?cap b1"
    by (rule emptyBucketsForCapacity_spec [OF X(1) c full(3) X(3)]) (use X(2) in blast)
  have a1: "advance E good cls s R b n [?d] s1 R b n" by (rule empties_advance [OF X(1) [unfolded X(2)] c full(3) X(3) SX s1(1)])
  define s2 where s2: "s2 = setBucketsAndMask E d b1 (?cap - 1) s1"
  obtain N' where N': "region_mem (arch E) good cls (memory s1) b1 N' True" "?cap \<le> N'"
    "(b1 = objc_empty_cache E \<and> N' = EMPTY_SLOTS) \<or> (b1 \<in> set (emptyBucketsList s1) \<and> (b1, N') \<in> set (blocks s1))"
    using empty_region [OF others_okD(1,2) [OF s1(2)] s1(3) full(3)] by blast
  have "n \<le> ?cap" if "d = cls" using seen_size [OF K S] that table_sizeD [OF full(3)] by simp
  moreover have "\<forall>N. (b, N, False) \<in> R \<longrightarrow> b \<in> set (garbage_refs s1 @ [?d])" if "d = cls"
    using published_released [OF K S, of _ "[?d]"] False that by auto
  ultimately have "d = cls \<Longrightarrow> region_mem (arch E) good cls (memory s1) b1 N' True \<and> n \<le> ?cap \<and> ?cap \<le> N' \<and> (\<not> True \<longrightarrow> ?cap = N') \<and>
      (True \<longrightarrow> (b1 = objc_empty_cache E \<and> N' = EMPTY_SLOTS) \<or> (b1 \<in> set (emptyBucketsList s1) \<and> (b1, N') \<in> set (blocks s1))) \<and>
      (\<not> True \<longrightarrow> (b1, N') \<in> set (blocks s1) \<and> b1 \<notin> set (emptyBucketsList s1)) \<and> (\<forall>N. (b, N, False) \<in> R \<longrightarrow> b \<in> set (garbage_refs s1 @ [?d]))"
    using N' by blast
  then obtain R2 b2 n2 where a2: "advance E good cls s1 R b n [?d] s2 R2 b2 n2" "d = cls \<longrightarrow> b2 = b1" using publish_advance [OF advanceD [OF a1] s2] by blast
  note f = setBucketsAndMask_fields [OF s2]
  have O2: "others_ok E good {d} [?d] s2 A" by (rule set_frame [OF s1(2) s2])
  have cf: "collect_free E ?d ?cap s2 = Some s'"
    using s' ok_not_optimized [OF K] full s1(1) s2 mask_of_size [OF full(3)] by (simp add: eraseNolock_def Let_def)
  have "b1 \<notin> set (garbage_refs s2 @ [?d])"
  proof
    assume g: "b1 \<in> set (garbage_refs s2 @ [?d])"
    then show False using garbage_blocks [OF O2] N'(3) f(5,6) empty_cache_not_block [OF others_okD(1) [OF O2]] by fastforce
  qed
  then obtain R3 where "advance E good cls s2 R2 b2 n2 [] s' R3 b2 n2"
    using collect_advance [OF O2 f(2) advanceD [OF a2(1)] _ cf] a2(2) by blast
  then show ?thesis using advance_trans [OF advance_trans [OF a1 a2(1)]] by blast
qed

lemma collect_all_advance:
  assumes K: "caches_ok E good s A" and r: "readers_leave E" and S: "seen E good cls [] s R b n" and s': "collectNolock E True s = Some s'"
  shows "\<exists>R'. advance E good cls s R b n [] s' R' b n"
proof -
  obtain k where "checks s \<le> k" "\<not> readers_busy E k" using r by (auto simp: readers_leave_def)
  then obtain j where j: "wait_for_readers E s = Some (s\<lparr>checks := j\<rparr>)" using wait_for_readers_spec by blast
  let ?s = "s\<lparr>checks := j\<rparr>"
  have O: "others_ok E good {} [] ?s A"
    by (rule others_ok_shrink [OF K [unfolded caches_ok_def]]) (use caches_okD(3) [OF K] in \<open>auto simp: garbage_ok_def\<close>)
  have d: "dispose_all ?s = Some s'" using s' j by (simp add: collectNolock_def)
  then have e: "kept E (set (garbage_refs ?s)) ?s s'" "garbage_refs s' = []" "history s' = history ?s @ No_readers # frees (garbage_refs ?s) ?s"
    using dispose_all_spec [OF O] by auto
  have S': "seen E good cls [] ?s R b n" using S by (simp add: seen_def)
  have col: "collected (garbage_refs ?s) ?s s' (No_readers # frees (garbage_refs ?s) ?s)" using e(2) by (simp add: collected_def)
  have refs: "garbage_refs ?s = garbage_refs ?s @ []" "set (garbage_refs ?s) \<subseteq> fst ` set (blocks ?s)" "set (garbage_refs ?s) \<inter> set (emptyBucketsList ?s) = {}"
    using garbage_blocks [OF O] by simp_all
  have "b \<notin> set (garbage_refs ?s)" if t: "(b, N, False) \<in> R" for N using published_table(1) [OF O _ S' t] ownedD(7) by fastforce
  then have b: "\<forall>N. (b, N, False) \<in> R \<longrightarrow> b \<notin> set (garbage_refs ?s)" by blast
  from collected_seen [OF S' others_okD(1) [OF O] e(1) col traced_dispose_all [OF d] e(3) refs b] e(3) traced_ev [OF traced_dispose_all [OF d] e(3)]
  show ?thesis unfolding advance_def by auto
qed

subsection \<open>Runs\<close>

lemma run_op_advance:
  assumes K: "caches_ok E good s A" and c: "calloc_ok E N" "length (blocks s) < N" and r: "readers_leave E"
    and x: "cache_op_ok x" "\<And>c sel imp. x = Insert c sel imp \<Longrightarrow> good c sel imp" "\<And>c. x \<noteq> Dispose c"
    and S: "seen E good cls [] s R b n" and s': "run_op E x s = Some s'"
  shows "\<exists>R' b' n'. advance E good cls s R b n [] s' R' b' n'"
proof (cases x)
  case (Insert d sel imp)
  then show ?thesis using cache_insert_advance [OF K c _ _ _ _ _ S, of sel imp d] x(1,2) s' by simp
next
  case (Erase d)
  then show ?thesis using eraseNolock_advance [OF K c S] s' by simp
next
  case Collect
  then show ?thesis using collect_all_advance [OF K r S] s' by auto
qed (use x(3) in simp)

lemma initial_seen:
  assumes h: "block_ok (arch E) (objc_empty_cache E) EMPTY_SLOTS"
  shows "seen E good cls [] (initial_caches E) {(objc_empty_cache E, EMPTY_SLOTS, True)} (objc_empty_cache E) 1"
proof -
  have "zero_at (memory (initial_caches E)) (objc_empty_cache E) EMPTY_SLOTS" by (simp add: zero_at_def initial_caches_def EMPTY_SLOTS_def)
  then have "region_mem (arch E) good cls (memory (initial_caches E)) (objc_empty_cache E) EMPTY_SLOTS True" using h by (simp add: region_mem_def EMPTY_SLOTS_def)
  then show ?thesis by (auto simp: seen_def view_ok_def initial_caches_def cache_at_def cache_word_def EMPTY_SLOTS_def)
qed

lemma run_ops_advance:
  assumes "caches_ok E good s (maps_of B)" and "keys_ok B" and c: "calloc_ok E N" and "length (blocks s) + length ops \<le> N" and r: "readers_leave E"
    and "\<forall>x\<in>set ops. cache_op_ok x \<and> (\<forall>c. x \<noteq> Dispose c)" "\<forall>c sel imp. Insert c sel imp \<in> set ops \<longrightarrow> good c sel imp"
    and "seen E good cls [] s R b n" and "run_ops E ops s = Some s'"
  shows "\<exists>R' b' n'. advance E good cls s R b n [] s' R' b' n'"
  using assms(1,2,4,6-9)
proof (induction ops arbitrary: s B R b n)
  case Nil
  then have "s' = s" by simp
  then show ?case using advance_refl [OF Nil.prems(6)] by blast
next
  case (Cons x ops)
  have l: "length (blocks s) < N" using Cons.prems(3) by simp
  have x: "cache_op_ok x" "\<And>c sel imp. x = Insert c sel imp \<Longrightarrow> good c sel imp" "\<And>c. x \<noteq> Dispose c" using Cons.prems(4,5) by auto
  obtain s1 where s1: "run_op E x s = Some s1" "caches_ok E good s1 (maps_of (spec_op E x B))" "keys_ok (spec_op E x B)" "length (blocks s1) \<le> Suc (length (blocks s))"
    using run_op_spec [OF Cons.prems(1,2) c l r x(1,2)] by auto
  obtain R1 b1 n1 where a1: "advance E good cls s R b n [] s1 R1 b1 n1" using run_op_advance [OF Cons.prems(1) c l r x Cons.prems(6) s1(1)] by blast
  have "\<exists>R' b' n'. advance E good cls s1 R1 b1 n1 [] s' R' b' n'"
    by (rule Cons.IH [OF s1(2,3) _ _ _ advanceD [OF a1]]) (use s1(1,4) Cons.prems in auto)
  then show ?case using advance_trans [OF a1] by blast
qed

lemma run_advance:
  assumes "block_ok (arch E) (objc_empty_cache E) EMPTY_SLOTS" and "calloc_ok E N" and "readers_leave E" and "length ops \<le> N"
    and ops: "\<forall>x\<in>set ops. cache_op_ok x \<and> (\<forall>c. x \<noteq> Dispose c)" and s: "run_ops E ops (initial_caches E) = Some s"
  shows "\<exists>R b n. advance E (\<lambda>c sl imp. Insert c sl imp \<in> set ops) cls (initial_caches E) {(objc_empty_cache E, EMPTY_SLOTS, True)} (objc_empty_cache E) 1 [] s R b n"
  by (rule run_ops_advance [OF initial_ok [OF assms(1)] _ assms(2) _ assms(3) ops _ initial_seen [OF assms(1)] s])
    (use assms(4) in \<open>auto simp: keys_ok_def initial_caches_def\<close>)

text \<open>A lookup with nobody else running is one of the interleavings.\<close>

lemma lookup_reads:
  assumes "lookup_from a cls sel m r = Some v"
  shows "reads a cls sel m evs r (Done v)"
proof (rule lookup_from.raw_induct [OF _ assms])
  fix f and a' :: cache_arch and cls' sel' m' r' y
  assume IH: "\<And>a cls sel m r y. f a cls sel m r = Some y \<Longrightarrow> reads a cls sel m evs r (Done y)"
    and "(case r' of Done v \<Rightarrow> Some v | Fault \<Rightarrow> None | _ \<Rightarrow> f a' cls' sel' m' (reader_step a' cls' sel' m' r')) = Some y"
  then show "reads a' cls' sel' m' evs r' (Done y)" by (cases r') (auto intro: reads_stop reads_step)
qed

lemma reads_after:
  "reads a cls sel (fold apply_event evs m) [] Start r \<Longrightarrow> reads a cls sel m evs Start r"
proof (induction evs arbitrary: m)
  case (Cons e evs)
  then show ?case by (intro reads_event) (simp_all add: idle_def)
qed simp

lemma lookup_interleaved:
  assumes "block_ok (arch E) (objc_empty_cache E) EMPTY_SLOTS" and "calloc_ok E N" and "readers_leave E" and "length ops \<le> N"
    and ops: "\<forall>x\<in>set ops. cache_op_ok x \<and> (\<forall>c. x \<noteq> Dispose c)" and sel: "sel \<noteq> 0" "sel \<noteq> 1"
  obtains s where "run_ops E ops (initial_caches E) = Some s"
    "reads (arch E) cls sel (memory (initial_caches E)) (history s) Start (Done (cached (spec_ops E ops) cls sel))"
proof -
  let ?good = "\<lambda>c sl imp. Insert c sl imp \<in> set ops"
  have "\<forall>x\<in>set ops. cache_op_ok x" using ops by blast
  then obtain s where s: "run_ops E ops (initial_caches E) = Some s" "caches_ok E ?good s (maps_of (spec_ops E ops))"
    using caches_run [OF assms(1,2,4,3)] by blast
  have "cache_getImp E cls sel s = Some (cached (spec_ops E ops) cls sel)" using cache_getImp_spec [OF s(2) sel] by (simp add: maps_of_def cached_def)
  then have "reads (arch E) cls sel (memory s) [] Start (Done (cached (spec_ops E ops) cls sel))" by (intro lookup_reads) (simp add: cache_getImp_def)
  moreover have "history s = history (initial_caches E) @ history s" "memory s = fold apply_event (history s) (memory (initial_caches E))"
  proof -
    obtain R b n where "advance E ?good cls (initial_caches E) {(objc_empty_cache E, EMPTY_SLOTS, True)} (objc_empty_cache E) 1 [] s R b n"
      using run_advance [OF assms(1-4) ops s(1), of cls] by blast
    then show "history s = history (initial_caches E) @ history s" "memory s = fold apply_event (history s) (memory (initial_caches E))"
      by (auto simp: advance_def initial_caches_def)
  qed
  ultimately show ?thesis using that [OF s(1)] reads_after by metis
qed

end
