(* ===== verification/CacheTheorems.thy ===== *)
theory CacheTheorems
  imports CacheRuns CacheCopy CacheConcurrency
begin

text \<open>The theorems on method caches, and an environment with an allocator that serves them.\<close>

subsection \<open>An allocator\<close>

text \<open>Memory in areas of \<open>2 ^ 20\<close> bytes; a block is placed in the first area that no block touches.\<close>

definition areas :: "u64 \<times> nat \<Rightarrow> nat list" where
  "areas bk = (let (b, k) = bk in [unat b div 2 ^ 20, (unat b + 16 * k - 1) div 2 ^ 20])"

definition free_area :: "(u64 \<times> nat) list \<Rightarrow> nat" where
  "free_area L = hd (filter (\<lambda>j. j \<notin> set (concat (map areas L))) [1..<2 * length L + 2])"

definition sample_calloc :: "(u64 \<times> nat) list \<Rightarrow> nat \<Rightarrow> u64" where
  "sample_calloc L n = word_of_nat (2 ^ 20 * free_area L)"

definition sample_cache_env :: "cache_arch \<Rightarrow> cache_env" where
  "sample_cache_env a = \<lparr>arch = a, objc_empty_cache = 0x1000, calloc = sample_calloc, readers_busy = (\<lambda>k. even k), class_isInitialized = (\<lambda>_. True)\<rparr>"

lemma free_area_spec: "free_area L \<notin> set (concat (map areas L))" "1 \<le> free_area L" "free_area L \<le> 2 * length L + 1"
proof -
  let ?used = "set (concat (map areas L))" and ?xs = "filter (\<lambda>j. j \<notin> set (concat (map areas L))) [1..<2 * length L + 2]"
  have "length (concat (map areas L)) = 2 * length L" by (induction L) (auto simp: areas_def Let_def)
  then have "card ?used \<le> 2 * length L" using card_length by metis
  moreover have "card {1..<2 * length L + 2} = 2 * length L + 1" by simp
  ultimately have "\<not> {1..<2 * length L + 2} \<subseteq> ?used" using card_mono [of ?used "{1..<2 * length L + 2}"] by auto
  then have "?xs \<noteq> []" unfolding filter_empty_conv set_upt by blast
  then have "free_area L \<in> set ?xs" unfolding free_area_def by (rule hd_in_set)
  then have "free_area L \<notin> ?used \<and> free_area L \<in> {1..<2 * length L + 2}" unfolding set_filter set_upt by blast
  then show "free_area L \<notin> ?used" "1 \<le> free_area L" "free_area L \<le> 2 * length L + 1" by auto
qed

lemma slots_unat:
  assumes "p \<in> bucket_slots b n" "unat b + 16 * n \<le> 2 ^ 64"
  obtains i where "i < n" "unat p = unat b + 16 * i"
  using assms unat_slot [of b] by (auto simp: bucket_slots_def)

lemma same_area:
  fixes x i k :: nat
  assumes "i < k" "k \<le> 65536"
  shows "(x + 16 * i) div 2 ^ 20 \<in> {x div 2 ^ 20, (x + 16 * k - 1) div 2 ^ 20}"
proof -
  have "x div 2 ^ 20 \<le> (x + 16 * i) div 2 ^ 20" "(x + 16 * i) div 2 ^ 20 \<le> (x + 16 * k - 1) div 2 ^ 20" using assms by (auto intro!: div_le_mono)
  moreover have "(x + 16 * k - 1) div 2 ^ 20 \<le> (x + 2 ^ 20) div 2 ^ 20" using assms by (intro div_le_mono) simp
  moreover have "(x + 2 ^ 20) div 2 ^ 20 = Suc (x div 2 ^ 20)" by simp
  ultimately show ?thesis by (auto simp: le_Suc_eq)
qed

lemma sample_calloc_ok: "calloc_ok (sample_cache_env a) 1000"
  unfolding calloc_ok_def
proof (intro allI impI)
  fix L :: "(u64 \<times> nat) list" and n :: nat
  let ?E = "sample_cache_env a"
  assume "length L < 1000 \<and> 0 < n \<and> n \<le> 65536 \<and> (\<forall>b k. (b, k) \<in> set L \<longrightarrow> block_ok (arch ?E) b k \<and> 0 < k \<and> k \<le> 65536)"
  then have l: "length L < 1000" and n: "0 < n" "n \<le> 65536" and L: "\<And>b k. (b, k) \<in> set L \<Longrightarrow> block_ok a b k \<and> 0 < k \<and> k \<le> 65536" by (auto simp: sample_cache_env_def)
  obtain j where j: "free_area L = j" "j \<notin> set (concat (map areas L))" "1 \<le> j" "j \<le> 2001" using free_area_spec [of L] l by simp
  have b: "unat (sample_calloc L n) = 2 ^ 20 * j" using j(4) unfolding sample_calloc_def j(1) by (subst unat_of_nat) simp
  have lim: "2 ^ 44 \<le> addr_limit a" "addr_limit a \<le> 2 ^ 64" by (cases a; simp add: addr_limit_def)+
  have ok: "block_ok a (sample_calloc L n) n" using b j(3,4) n lim(1) by (auto simp: block_ok_def bit_iff_odd sample_calloc_def)
  have area: "unat p div 2 ^ 20 = j" if p: "p \<in> bucket_slots (sample_calloc L n) n" for p
  proof -
    have "unat (sample_calloc L n) + 16 * n \<le> 2 ^ 64" using ok lim by (simp add: block_ok_def)
    from slots_unat [OF p this] obtain i where "i < n" "unat p = 2 ^ 20 * j + 16 * i" using b by metis
    then show ?thesis using n by simp
  qed
  have "p \<notin> bucket_slots b k" if "(b, k) \<in> set L" "p \<in> bucket_slots (sample_calloc L n) n" for p b k
  proof
    assume "p \<in> bucket_slots b k"
    moreover have "unat b + 16 * k \<le> 2 ^ 64" using L [OF that(1)] lim(2) by (simp add: block_ok_def)
    ultimately obtain i where "i < k" "unat p = unat b + 16 * i" by (rule slots_unat)
    then have "j \<in> set (areas (b, k))" using same_area [of i k "unat b"] L [OF that(1)] area [OF that(2)] by (simp add: areas_def)
    then show False using j(2) that(1) by auto
  qed
  moreover have "p \<notin> bucket_slots 0x1000 EMPTY_SLOTS" if "p \<in> bucket_slots (sample_calloc L n) n" for p
  proof
    assume "p \<in> bucket_slots 0x1000 EMPTY_SLOTS"
    then obtain i where "i < EMPTY_SLOTS" "unat p = unat (0x1000 :: u64) + 16 * i" by (rule slots_unat) (simp add: EMPTY_SLOTS_def)
    then show False using area [OF that] j(3) by (simp add: EMPTY_SLOTS_def)
  qed
  ultimately show "block_ok (arch ?E) (calloc ?E L n) n \<and>
    bucket_slots (calloc ?E L n) n \<inter> (bucket_slots (objc_empty_cache ?E) EMPTY_SLOTS \<union> (\<Union>(b, k)\<in>set L. bucket_slots b k)) = {}"
    using ok by (auto simp: sample_cache_env_def)
qed

lemma sample_empty_ok: "block_ok (arch (sample_cache_env a)) (objc_empty_cache (sample_cache_env a)) EMPTY_SLOTS"
  by (cases a; simp add: sample_cache_env_def block_ok_def EMPTY_SLOTS_def addr_limit_def bit_iff_odd)

lemma sample_readers: "readers_leave (sample_cache_env a)"
  unfolding readers_leave_def sample_cache_env_def
proof
  fix k :: nat
  have "2 * k + 1 \<ge> k \<and> \<not> even (2 * k + 1)" by simp
  then show "\<exists>j\<ge>k. \<not> readers_busy \<lparr>arch = a, objc_empty_cache = 0x1000, calloc = sample_calloc, readers_busy = (\<lambda>k. even k), class_isInitialized = (\<lambda>_. True)\<rparr> j"
    by (intro exI [of _ "2 * k + 1"]) simp
qed


subsection \<open>The maps\<close>

lemma spec_insert_entry:
  "map_of (snd (spec_insert a sel imp v)) x = Some y \<Longrightarrow> x = sel \<and> y = imp \<or> map_of (snd v) x = Some y"
  by (auto simp: spec_insert_def case_prod_beta Let_def split: if_splits)

lemma spec_no_stale:
  "map_of (snd (spec_ops E ops cls)) sel = Some v \<Longrightarrow>
     \<exists>before after. ops = before @ Insert cls sel v # after \<and> Erase cls \<notin> set after \<and> Dispose cls \<notin> set after"
proof (induction ops rule: rev_induct)
  case (snoc x ops)
  have old: ?case if "map_of (snd (spec_ops E ops cls)) sel = Some v" "x \<noteq> Erase cls" "x \<noteq> Dispose cls"
    using snoc.IH [OF that(1)] that(2,3) by (elim exE conjE) (auto intro!: exI)
  show ?case
  proof (cases x)
    case (Insert c sl imp)
    then show ?thesis using snoc.prems old spec_insert_entry [of "arch E" sl imp "spec_ops E ops cls" sel v]
      by (fastforce simp: spec_ops_def split: if_splits)
  qed (use snoc.prems old in \<open>auto simp: spec_ops_def split: if_splits\<close>)
qed (simp add: spec_ops_def)

lemma spec_insert_hit:
  assumes "class_isInitialized E cls" "imp \<noteq> 0" "\<forall>x\<in>set ops. cache_op_ok x"
  shows "cached (spec_ops E (ops @ [Insert cls sel imp])) cls sel \<noteq> 0"
proof -
  have "map_of (snd (spec_ops E (ops @ [Insert cls sel imp]) cls)) sel \<noteq> None"
    using assms(1) by (auto simp: spec_ops_def spec_insert_def case_prod_beta Let_def)
  then obtain v where v: "map_of (snd (spec_ops E (ops @ [Insert cls sel imp]) cls)) sel = Some v" by blast
  from spec_no_stale [OF v] have "Insert cls sel v \<in> set (ops @ [Insert cls sel imp])" by (metis in_set_conv_decomp)
  then have "v \<noteq> 0" using assms(2,3) by auto
  then show ?thesis using v by (simp add: cached_def)
qed

subsection \<open>Theorems\<close>

text \<open>
  C38: Whatever sequence of insertions, flushes, garbage collections and disposals of classes runs, with an
  allocator that gives out blocks apart from each other and readers that leave now and then, it succeeds,
  and the cache of every class implements a map: \<open>cache_getImp\<close> of a selector finds exactly what the
  abstract map of the class holds, which an insertion extends, or replaces when it makes the cache grow,
  and a flush empties; and \<open>class_copyImpCache\<close> lists exactly the selectors that are found, each once.
\<close>

theorem caches_implement_maps:
  assumes "block_ok (arch E) (objc_empty_cache E) EMPTY_SLOTS" and "calloc_ok E N" and "readers_leave E"
    and "length ops \<le> N" and "\<forall>x\<in>set ops. cache_op_ok x"
  shows "\<exists>s. run_ops E ops (initial_caches E) = Some s \<and>
    (\<forall>cls sel. sel \<noteq> 0 \<and> sel \<noteq> 1 \<longrightarrow> cache_getImp E cls sel s = Some (cached (spec_ops E ops) cls sel)) \<and>
    (\<forall>cls. \<exists>L. class_copyImpCache E cls s = Some (if L = [] then [] else L @ [(0, 0)], length L) \<and> distinct (map fst L) \<and>
       (\<forall>sel imp. sel \<noteq> 0 \<and> sel \<noteq> 1 \<longrightarrow> ((sel, imp) \<in> set L \<longleftrightarrow> imp \<noteq> 0 \<and> cache_getImp E cls sel s = Some imp)))"
proof -
  let ?good = "\<lambda>cls sel imp. Insert cls sel imp \<in> set ops"
  obtain s where s: "run_ops E ops (initial_caches E) = Some s" "caches_ok E ?good s (maps_of (spec_ops E ops))"
    using caches_run [OF assms(1,2,4,3,5)] by blast
  have inv: "\<exists>cap. caches_ok E ?good s (\<lambda>c. (cap c, map_of (snd (spec_ops E ops c))))" using s(2) unfolding maps_of_def
    by (intro exI [of _ "\<lambda>c. fst (spec_ops E ops c)"])
  have "\<exists>L. class_copyImpCache E cls s = Some (if L = [] then [] else L @ [(0, 0)], length L) \<and> distinct (map fst L) \<and>
       (\<forall>sel imp. sel \<noteq> 0 \<and> sel \<noteq> 1 \<longrightarrow> ((sel, imp) \<in> set L \<longleftrightarrow> imp \<noteq> 0 \<and> cache_getImp E cls sel s = Some imp))" for cls
  proof -
    obtain L where L: "class_copyImpCache E cls s = Some (if L = [] then [] else L @ [(0, 0)], length L)" "distinct (map fst L)"
      using class_copyImpCache_spec [OF s(2)] by blast
    then have "copied E cls s = Some L" by (simp add: copied_def)
    from caches.listed_iff_found [OF inv _ this] show ?thesis using L by blast
  qed
  then show ?thesis using s(1) cache_getImp_spec [OF s(2)] by (auto simp: maps_of_def cached_def)
qed

lemmas spec_eval = cached_def spec_ops_def spec_insert_def room_ok_def cache_fill_ratio_def u32_id CACHE_END_MARKER_def CACHE_ALLOW_FULL_UTILIZATION_def
  FULL_UTILIZATION_CACHE_SIZE_def INIT_CACHE_SIZE_def MAX_CACHE_SIZE_def sample_cache_env_def

theorem caches_implement_maps_witness:
  "\<exists>s. run_ops (sample_cache_env X86_64) [Insert 0x5000 2 7, Insert 0x5000 3 8, Insert 0x6000 2 9, Insert 0x5000 4 7, Insert 0x5000 3 11, Collect, Erase 0x6000] (initial_caches (sample_cache_env X86_64)) = Some s \<and>
    cache_getImp (sample_cache_env X86_64) 0x5000 2 s = Some 0 \<and> cache_getImp (sample_cache_env X86_64) 0x5000 3 s = Some 11 \<and>
    cache_getImp (sample_cache_env X86_64) 0x5000 4 s = Some 7 \<and> cache_getImp (sample_cache_env X86_64) 0x6000 2 s = Some 0"
proof -
  let ?E = "sample_cache_env X86_64" and ?ops = "[Insert 0x5000 2 7, Insert 0x5000 3 8, Insert 0x6000 2 9, Insert 0x5000 4 7, Insert 0x5000 3 11, Collect, Erase 0x6000]"
  have l: "length ?ops \<le> 1000" and o: "\<forall>x\<in>set ?ops. cache_op_ok x" by simp_all
  obtain s where s: "run_ops ?E ?ops (initial_caches ?E) = Some s"
    "\<forall>cls sel. sel \<noteq> 0 \<and> sel \<noteq> 1 \<longrightarrow> cache_getImp ?E cls sel s = Some (cached (spec_ops ?E ?ops) cls sel)"
    using caches_implement_maps [OF sample_empty_ok sample_calloc_ok sample_readers, of ?ops X86_64, OF l o] by blast
  have "cached (spec_ops ?E ?ops) 0x5000 2 = 0" by (simp add: spec_eval)
  moreover have "cached (spec_ops ?E ?ops) 0x5000 3 = 11" by (simp add: spec_eval)
  moreover have "cached (spec_ops ?E ?ops) 0x5000 4 = 7" by (simp add: spec_eval)
  moreover have "cached (spec_ops ?E ?ops) 0x6000 2 = 0" by (simp add: spec_eval)
  ultimately show ?thesis using s by simp
qed


text \<open>
  What \<open>cache_getImp\<close> finds was inserted for this class and selector after the last flush of the class, and
  an insertion for an initialized class leaves its selector found.
\<close>

theorem caches_never_stale:
  assumes "block_ok (arch E) (objc_empty_cache E) EMPTY_SLOTS" and "calloc_ok E N" and "readers_leave E"
    and "length ops \<le> N" and "\<forall>x\<in>set ops. cache_op_ok x" and sel: "sel \<noteq> 0" "sel \<noteq> 1"
  shows "\<exists>s v. run_ops E ops (initial_caches E) = Some s \<and> cache_getImp E cls sel s = Some v \<and>
    (v \<noteq> 0 \<longrightarrow> (\<exists>before after. ops = before @ Insert cls sel v # after \<and> Erase cls \<notin> set after \<and> Dispose cls \<notin> set after)) \<and>
    (\<forall>before imp. ops = before @ [Insert cls sel imp] \<and> class_isInitialized E cls \<longrightarrow> v \<noteq> 0)"
proof -
  obtain s where s: "run_ops E ops (initial_caches E) = Some s" "caches_ok E (\<lambda>cls sel imp. Insert cls sel imp \<in> set ops) s (maps_of (spec_ops E ops))"
    using caches_run [OF assms(1,2,4,3,5)] by blast
  let ?v = "cached (spec_ops E ops) cls sel"
  have "cache_getImp E cls sel s = Some ?v" using cache_getImp_spec [OF s(2) sel] by (simp add: maps_of_def cached_def)
  moreover have "\<exists>before after. ops = before @ Insert cls sel ?v # after \<and> Erase cls \<notin> set after \<and> Dispose cls \<notin> set after" if "?v \<noteq> 0"
  proof (rule spec_no_stale)
    show "map_of (snd (spec_ops E ops cls)) sel = Some ?v" using that by (simp add: cached_def split: option.splits)
  qed
  moreover have "?v \<noteq> 0" if "ops = before @ [Insert cls sel imp]" "class_isInitialized E cls" for before imp
    using spec_insert_hit [OF that(2), of imp before sel] assms(5) that(1) by simp
  ultimately show ?thesis using s(1) by blast
qed

theorem caches_never_stale_witness:
  "\<exists>s v. run_ops (sample_cache_env Arm64_iOS) [Insert 0x5000 2 7, Erase 0x5000, Insert 0x5000 2 9] (initial_caches (sample_cache_env Arm64_iOS)) = Some s \<and>
    cache_getImp (sample_cache_env Arm64_iOS) 0x5000 2 s = Some v \<and> v \<noteq> 0 \<and> v \<noteq> 7"
proof -
  let ?E = "sample_cache_env Arm64_iOS" and ?ops = "[Insert 0x5000 2 7, Erase 0x5000, Insert 0x5000 2 9]"
  have l: "length ?ops \<le> 1000" and o: "\<forall>x\<in>set ?ops. cache_op_ok x" and sel: "(2 :: u64) \<noteq> 0" "(2 :: u64) \<noteq> 1" by simp_all
  obtain s v where s: "run_ops ?E ?ops (initial_caches ?E) = Some s" "cache_getImp ?E 0x5000 2 s = Some v"
    "v \<noteq> 0 \<longrightarrow> (\<exists>before after. ?ops = before @ Insert 0x5000 2 v # after \<and> Erase 0x5000 \<notin> set after \<and> Dispose 0x5000 \<notin> set after)"
    "\<forall>before imp. ?ops = before @ [Insert 0x5000 2 imp] \<and> class_isInitialized ?E 0x5000 \<longrightarrow> v \<noteq> 0"
    using caches_never_stale [OF sample_empty_ok sample_calloc_ok sample_readers l o sel, where cls = "0x5000"] by blast
  have "?ops = [Insert 0x5000 2 7, Erase 0x5000] @ [Insert 0x5000 2 9]" "class_isInitialized ?E 0x5000" by (simp_all add: sample_cache_env_def)
  then have v: "v \<noteq> 0" using s(4) by blast
  moreover have "v \<noteq> 7" using s(3) v by (auto simp: Cons_eq_append_conv)
  ultimately show ?thesis using s(1,2) by blast
qed

text \<open>
  C39: A reader of the caches, which takes no lock and whose loads are interleaved in any way with the stores
  of a run of insertions, flushes and collections, never touches memory outside of the buckets that are
  allocated at that moment, and when it ends it has found nothing or an implementation that the
  run inserted for this class and selector. Loads and stores are sequentially consistent; garbage is
  freed only after \<open>_collecting_in_critical\<close> has answered that no reader is on its way, where the
  kernel may have sent a reader back to a miss; and no class is freed while it has readers.
\<close>

theorem readers_never_fault:
  assumes "block_ok (arch E) (objc_empty_cache E) EMPTY_SLOTS" and "calloc_ok E N" and "readers_leave E" and "length ops \<le> N"
    and ops: "\<forall>x\<in>set ops. cache_op_ok x \<and> (\<forall>c. x \<noteq> Dispose c)" and sel: "sel \<noteq> 0" "sel \<noteq> 1"
    and s: "run_ops E ops (initial_caches E) = Some s" and r: "reads (arch E) cls sel (memory (initial_caches E)) (history s) Start r"
  shows "r \<noteq> Fault \<and> (\<forall>v. r = Done v \<longrightarrow> v = 0 \<or> Insert cls sel v \<in> set ops)"
proof -
  let ?good = "\<lambda>c sl imp. Insert c sl imp \<in> set ops" and ?s0 = "initial_caches E"
  obtain R b n where "advance E ?good cls ?s0 {(objc_empty_cache E, EMPTY_SLOTS, True)} (objc_empty_cache E) 1 [] s R b n"
    using run_advance [OF assms(1-4) ops s, of cls] by blast
  then have "path (arch E) ?good cls {(objc_empty_cache E, EMPTY_SLOTS, True)} (objc_empty_cache E) 1 (memory ?s0) (history s) R b n"
    by (auto simp: advance_def initial_caches_def)
  from path_safe [OF r this _ sel] show ?thesis by simp
qed

theorem readers_never_fault_witness:
  "\<exists>s. run_ops (sample_cache_env X86_64) [Insert 0x5000 2 7, Insert 0x5000 3 8, Insert 0x5000 4 9] (initial_caches (sample_cache_env X86_64)) = Some s \<and>
    reads X86_64 0x5000 4 (memory (initial_caches (sample_cache_env X86_64))) (history s) Start (Done 9) \<and> Done (9 :: u64) \<noteq> Fault \<and>
    ((9 :: u64) = 0 \<or> Insert 0x5000 4 9 \<in> set [Insert 0x5000 2 7, Insert 0x5000 3 8, Insert 0x5000 4 9])"
proof -
  let ?E = "sample_cache_env X86_64" and ?ops = "[Insert 0x5000 2 7, Insert 0x5000 3 8, Insert 0x5000 4 9]"
  have l: "length ?ops \<le> 1000" and o: "\<forall>x\<in>set ?ops. cache_op_ok x \<and> (\<forall>c. x \<noteq> Dispose c)" and sel: "(4 :: u64) \<noteq> 0" "(4 :: u64) \<noteq> 1" by simp_all
  have v: "cached (spec_ops ?E ?ops) 0x5000 4 = 9" by (simp add: spec_eval)
  note P = sample_empty_ok [of X86_64] sample_calloc_ok [of X86_64] sample_readers [of X86_64] l o sel
  obtain s where s: "run_ops ?E ?ops (initial_caches ?E) = Some s" "reads (arch ?E) 0x5000 4 (memory (initial_caches ?E)) (history s) Start (Done 9)"
    using lookup_interleaved [OF P, where cls = "0x5000"] v by metis
  have a: "arch ?E = X86_64" by (simp add: sample_cache_env_def)
  from readers_never_fault [OF P s] s show ?thesis unfolding a by blast
qed

end
