(* ===== verification/InstanceSize.thy ===== *)
theory InstanceSize
  imports Isa
begin




record sized_class =
  cache_flags :: u16
  ro_instanceSize :: u32w




definition getBit :: "u16 \<Rightarrow> sized_class \<Rightarrow> bool" where
  "getBit v c \<longleftrightarrow> cache_flags c AND v \<noteq> 0"

definition setBit :: "u16 \<Rightarrow> sized_class \<Rightarrow> sized_class" where
  "setBit v c = c\<lparr>cache_flags := cache_flags c OR v\<rparr>"

definition clearBit :: "u16 \<Rightarrow> sized_class \<Rightarrow> sized_class" where
  "clearBit v c = c\<lparr>cache_flags := cache_flags c AND NOT v\<rparr>"







subsection \<open>Rounding\<close>















subsection \<open>Properties\<close>



end
