(* ===== verification/Spec2Isabelle.thy ===== *)
theory Spec2Isabelle
  imports DenseMapSpec MarkgcFat CategorySpec CategoryLists PoolTheorems WeakRuns CacheTheorems InstanceSize
begin

text \<open>
  A verification library for the core of the Objective-C runtime, \<open>objc4-818.2\<close>, as it is kept under
  \<open>src/sdk/objc4-818.2\<close>. Paths below are relative to its directory \<open>runtime\<close>.

  \<^bold>\<open>Parts of the program and how they interact.\<close> An object is a pointer whose first word, the
  \<open>isa\<close>, packs its class, flags and the low part of its reference count. Counts that do not fit and
  weak references are kept in side tables, hash tables selected by the address of the object. Small
  values are not objects at all but tagged pointers. A class keeps arrays of method, property and
  protocol lists, to which categories add; a message is sent to the first method found in them, and
  every class caches what was found in a hash table that senders read without a lock. A
  build tool, \<open>markgc\<close>, rewrites the image of the runtime itself.

  \<^bold>\<open>Theories and the code they model.\<close>
  \<^item> \<open>Prelude\<close>: machine integers, rewriting collections, lemmas on lists, bits and powers of two.
  \<^item> \<open>MathExtras\<close>: \<open>llvm-MathExtras.h\<close>.
  \<^item> \<open>DenseMapInfo\<close>, \<open>DenseMap\<close>: \<open>llvm-DenseMapInfo.h\<close>, \<open>llvm-DenseMap.h\<close> and \<open>DisguisedPtr\<close>. A table
    is a record of its bucket list and its two 32-bit counters; a reference to a bucket is an index.
    \<open>DenseMapTable\<close>, \<open>DenseMapProofs\<close> and \<open>DenseMapSpec\<close> hold the probing lemmas, the invariant and
    the refinement of a finite map; the locale \<open>key_info\<close> is what a table needs of its keys,
    \<open>ref_table\<close> what a client may rely on, and both are interpreted on the policies of the code.
  \<^item> \<open>Isa\<close>: the three packed layouts of \<open>isa.h\<close> and \<open>isa_t\<close> (locale \<open>packed_isa\<close>).
  \<^item> \<open>Weak\<close>: \<open>objc-weak.h\<close>, \<open>objc-weak.mm\<close>. \<open>WeakProbing\<close> (locale \<open>displaced_table\<close>, used for the table
    of entries and for out-of-line referrers), \<open>WeakReferrers\<close>, \<open>WeakTable\<close>, \<open>WeakSpec\<close>.
  \<^item> \<open>SideTable\<close>: the side tables of \<open>NSObject.mm\<close>, with locks as values that must be free to be taken;
    \<open>SideTableProofs\<close> (locale \<open>counter_table\<close>).
  \<^item> \<open>ObjcObject\<close>: reference counting of \<open>objc-object.h\<close>. Loads and stores of the \<open>isa\<close> word are exclusive
    ones: a script says what other threads write between a load and its store, so a loop ends because
    the script is finite. The loops (\<open>rootRetain_run\<close>, \<open>rootRelease_run\<close>) return what is left of the script with
    their result, which tells the word that their deciding load or store found. \<open>RetainProofs\<close>, \<open>ReleaseProofs\<close>, \<open>RefCounting\<close>, \<open>IsaChanges\<close> hold the
    properties (locale \<open>packed_env\<close>, interpreted for macOS, iPhone and the simulator); \<open>RawObject\<close> is the
    variant without packed words.
  \<^item> \<open>WeakVars\<close>: \<open>storeWeak\<close>, \<open>objc_loadWeakRetained\<close> and their callers, copying and moving, in \<open>NSObject.mm\<close>.
    Other threads are a list of state changes, run between reading a variable and getting the locks, one for
    each retry. \<open>WeakVarProofs\<close>, \<open>WeakStores\<close>, \<open>WeakSafety\<close>, \<open>WeakRuns\<close>: registration and variables agree.
  \<^item> \<open>TaggedPointer\<close>, \<open>TaggedProofs\<close>, \<open>TaggedClasses\<close>: tagged pointers of \<open>objc-internal.h\<close> in their three
    representations (locale \<open>tag_scheme\<close>).
  \<^item> \<open>OptimizedReturn\<close>: the handshake of \<open>objc-object.h\<close> that lets a caller take a returned object without
    the autorelease pool. Object operations are recorded as actions.
  \<^item> \<open>AutoreleasePool\<close>: \<open>AutoreleasePoolPage\<close> of \<open>NSObject.mm\<close> and \<open>NSObject-internal.h\<close>, with the pages of a
    thread in a heap and what a released object autoreleases in turn as an argument. \<open>PoolPages\<close> (one page),
    \<open>PoolChain\<close> (the pages as one stack of words), \<open>PoolRelease\<close>, \<open>PoolLoop\<close>, \<open>PoolPop\<close> (the operations),
    \<open>PoolSpec\<close>, \<open>PoolTheorems\<close> (runs of a thread against a stack of multisets).
  \<^item> \<open>MethodList\<close>, \<open>MethodSearch\<close>: \<open>entsize_list_tt\<close>, \<open>method_t\<close> and \<open>method_list_t\<close> of \<open>objc-runtime-new.h\<close> in
    a byte-addressed memory, and the search in one list of \<open>objc-runtime-new.mm\<close> (locale \<open>method_array\<close>).
  \<^item> \<open>ListArray\<close>, \<open>ListArrayProofs\<close>, \<open>ListArraySpec\<close>: \<open>list_array_tt\<close>, a tagged word and a heap of arrays
    (locale \<open>element_lists\<close>, interpreted for method and protocol lists).
  \<^item> \<open>MethodFixup\<close>, \<open>MethodFixupProofs\<close>, \<open>MethodFixupSpec\<close>: writing methods, \<open>fixupMethodList\<close>.
  \<^item> \<open>Categories\<close>, \<open>CategoryProofs\<close>, \<open>CategorySpec\<close>, \<open>CategoryLists\<close>: \<open>class_rw_t\<close>, \<open>category_list\<close>,
    \<open>attachCategories\<close>, \<open>getMethodNoSuper_nolock\<close> and \<open>getMethod_nolock\<close>.
  \<^item> \<open>MethodCache\<close>: \<open>cache_t\<close> and \<open>bucket_t\<close> of \<open>objc-cache.mm\<close> and \<open>objc-runtime-new.h\<close>, and \<open>CacheLookup\<close> of
    \<open>Messengers.subproj/objc-msg-x86_64.s\<close> and \<open>objc-msg-arm64.s\<close> one load at a time. Buckets live in a memory of
    16-byte cells; every store is an event, and the state keeps their history. \<open>CacheProbing\<close> (one table),
    \<open>CacheWords\<close> (buckets and mask in one word), \<open>CacheProofs\<close> (the invariant), \<open>CacheOps\<close>, \<open>CacheTables\<close>,
    \<open>CacheInsert\<close>, \<open>CacheGrowth\<close>, \<open>CacheSpec\<close>, \<open>CacheRuns\<close>, \<open>CacheCopy\<close> (the operations as maps; locale
    \<open>lookup_table\<close>); \<open>CacheReaders\<close>, \<open>CachePaths\<close>, \<open>CacheTraces\<close>, \<open>CacheLockFree\<close>, \<open>CacheSafety\<close>,
    \<open>CacheConcurrency\<close> (readers between the events); \<open>CacheTheorems\<close>.
  \<^item> \<open>InstanceSize\<close>: the size of instances in the flags of a cache, and \<open>objc_class::instanceSize\<close>.
  \<^item> \<open>Markgc\<close>, \<open>MarkgcSections\<close>, \<open>MarkgcProofs\<close>, \<open>MarkgcImage\<close>, \<open>MarkgcFat\<close>: \<open>../markgc.cpp\<close> from the byte
    accessors to \<open>main\<close> (locale \<open>macho_layout\<close>).

  \<^bold>\<open>What is shown.\<close> Hash tables implement finite maps through growth, tombstones and compaction, and
  lookups end. The weak table implements multisets of weak variables per object, and clearing an
  object sets exactly those variables to nil that still hold it, so weak variables never dangle: each
  holds what a map from variables to objects says. Retain and release change the total
  count of the word that the last store before their deciding access left in memory by one, whatever other
  threads do to the inline count, and the object is deallocated exactly once; builds with and without packed words count alike. Autorelease pools implement a stack of
  multisets: popping releases what was autoreleased since the push, and at thread exit nothing is left. Class changes keep the count. Tagged
  pointers read back their tag and payload. The optimised return is equivalent to the autorelease
  pool. Fixing up and sorting a method list and searching it finds what a linear search of the
  original list finds; attaching categories puts the newest first, and lookups along the superclasses
  follow that order. The method caches implement a map for each class through growth and flushing, and a
  reader without a lock, interleaved in any way with the stores of the writer, never leaves allocated memory
  and finds nothing or what was inserted for its selector. \<open>markgc\<close> disables exactly the initialiser
  sections of a well-formed image, in a thin file or in every slice of a fat one, and its exit code tells
  which files it processed. Where a comment in the code says otherwise, the text at the theorem says so.

  \<^bold>\<open>Bounds.\<close> Machine words have their width: counters of hash tables are 32-bit, counts and
  addresses 64-bit words; hypotheses such as fewer than 2^30 buckets, 2^31 lists or a count below 2^63
  are where the code itself would wrap. Loops that may not end are partial functions into option, and
  the properties show that they return; interference is a finite script or list. The allocator of pool pages is
  asked for at most one page per operation and per object, that of method caches for at most one block per
  operation; it must place blocks apart from each other, below 2^44 on iOS and 2^48 on ARM macOS, where the code
  asserts that they fit the word they share with the mask. The wait for readers of the caches ends because
  they are assumed to leave now and then.

  \<^bold>\<open>Not modelled.\<close> The inline-storage \<open>SmallDenseMap\<close>; \<open>objc_loadWeak\<close>, which autoreleases
  what \<open>objc_loadWeakRetained\<close> returns; message dispatch in assembly beyond the lookup in the cache; of
  the caches, preoptimized ones in the shared cache of dyld, the mask in the low 4 bits of 32-bit ARM64, weak
  memory (loads and stores of readers and writers are sequentially consistent), locks and statistics; weak
  variables at addresses that are not aligned like pointers; realization of classes, protocols and the loading of images; the table of selectors, which is an
  argument (\<open>registerName\<close>); pointer authentication; 32-bit indexed \<open>isa\<close> words; debugging output.
  The other directories of the repository are notes, sample applications, generated code and copies of
  other libraries (\<open>libdispatch\<close>, \<open>gnustep\<close>, an older \<open>objc4\<close>).
\<close>

end
